(* ===== verification/Prelude.thy ===== *)
theory Prelude
  imports Main "HOL-Library.Word" "HOL-Library.Monad_Syntax"
begin

text \<open>
  Shared material of the development: the machine types the C++ sources use, the
  specification of a sorted association list as the meaning of an ordered map, and
  the list and option lemmas that several components rely on.

  A computation that the C++ standard leaves undefined (a null dereference, a read
  outside a buffer, a use after free) is modelled by \<open>None\<close> of an option type, so
  that "the operation returns \<open>Some\<close>" is a memory-safety statement.
\<close>

type_synonym byte = "8 word"
type_synonym u16 = "16 word"
type_synonym u32 = "32 word"
type_synonym u64 = "64 word"

named_theorems assoc_simps \<open>facts on sorted association lists and their lookup\<close>

section \<open>Sorted association lists\<close>

abbreviation ordered :: "('k::linorder \<times> 'v) list \<Rightarrow> bool" where
  "ordered xs \<equiv> sorted_wrt (\<lambda>p q. fst p < fst q) xs"

definition upd_assoc :: "'k::linorder \<Rightarrow> 'v \<Rightarrow> ('k \<times> 'v) list \<Rightarrow> ('k \<times> 'v) list" where
  "upd_assoc k v xs = filter (\<lambda>p. fst p < k) xs @ (k, v) # filter (\<lambda>p. k < fst p) xs"

definition del_assoc :: "'k \<Rightarrow> ('k \<times> 'v) list \<Rightarrow> ('k \<times> 'v) list" where
  "del_assoc k xs = filter (\<lambda>p. fst p \<noteq> k) xs"

lemma map_of_filter_key:
  "map_of (filter (\<lambda>p. P (fst p)) xs) x = (if P x then map_of xs x else None)"
  by (induction xs) auto

lemmas map_of_filters =
  map_of_filter_key [of "\<lambda>a. a < k" for k]
  map_of_filter_key [of "\<lambda>a. k < a" for k]
  map_of_filter_key [of "\<lambda>a. a \<noteq> k" for k]

lemma map_of_upd_assoc [assoc_simps]: "map_of (upd_assoc k v xs) = (map_of xs)(k \<mapsto> v)"
proof
  fix x
  show "map_of (upd_assoc k v xs) x = ((map_of xs)(k \<mapsto> v)) x"
    by (cases x k rule: linorder_cases)
      (auto simp: upd_assoc_def map_add_def map_of_filters split: option.splits)
qed

lemma map_of_del_assoc [assoc_simps]: "map_of (del_assoc k xs) = (map_of xs)(k := None)"
  by (simp add: del_assoc_def fun_eq_iff map_of_filters)

lemma ordered_mid:
  "ordered (xs @ p # ys) \<longleftrightarrow>
     ordered xs \<and> ordered ys \<and> (\<forall>q\<in>set xs. fst q < fst p) \<and> (\<forall>q\<in>set ys. fst p < fst q)"
  unfolding sorted_wrt_append by (auto intro: less_trans)

lemma ordered_filter: "ordered xs \<Longrightarrow> ordered (filter P xs)"
  by (simp add: sorted_wrt_filter)

lemma ordered_upd_assoc [assoc_simps]: "ordered xs \<Longrightarrow> ordered (upd_assoc k v xs)"
  unfolding upd_assoc_def ordered_mid by (simp add: ordered_filter)

lemma ordered_del_assoc [assoc_simps]: "ordered xs \<Longrightarrow> ordered (del_assoc k xs)"
  by (simp add: del_assoc_def ordered_filter)

lemma filter_below:
  assumes "\<forall>q\<in>set xs. fst q < a" "a \<le> (k::'k::linorder)"
  shows "filter (\<lambda>q. fst q < k) xs = xs" "filter (\<lambda>q. k < fst q) xs = []"
    "filter (\<lambda>q. fst q \<noteq> k) xs = xs" "map_of xs k = None"
  using assms by (force intro!: filter_True filter_False simp: map_of_eq_None_iff)+

lemma filter_above:
  assumes "\<forall>q\<in>set ys. a < fst q" "(k::'k::linorder) \<le> a"
  shows "filter (\<lambda>q. fst q < k) ys = []" "filter (\<lambda>q. k < fst q) ys = ys"
    "filter (\<lambda>q. fst q \<noteq> k) ys = ys" "map_of ys k = None"
  using assms by (force intro!: filter_True filter_False simp: map_of_eq_None_iff)+

lemma upd_assoc_left:
  assumes "ordered (xs @ p # ys)" "k < fst p"
  shows "upd_assoc k v (xs @ p # ys) = upd_assoc k v xs @ p # ys"
  using assms filter_above [of ys "fst p" k] by (simp add: upd_assoc_def ordered_mid)

lemma upd_assoc_right:
  assumes "ordered (xs @ p # ys)" "fst p < k"
  shows "upd_assoc k v (xs @ p # ys) = xs @ p # upd_assoc k v ys"
  using assms filter_below [of xs "fst p" k] by (simp add: upd_assoc_def ordered_mid)

lemma upd_assoc_here:
  assumes "ordered (xs @ (k, w) # ys)"
  shows "upd_assoc k v (xs @ (k, w) # ys) = xs @ (k, v) # ys"
  using assms filter_below [of xs k k] filter_above [of ys k k]
  by (simp add: upd_assoc_def ordered_mid)

lemma del_assoc_left:
  assumes "ordered (xs @ p # ys)" "k < fst p"
  shows "del_assoc k (xs @ p # ys) = del_assoc k xs @ p # ys"
  using assms filter_above [of ys "fst p" k] by (simp add: del_assoc_def ordered_mid)

lemma del_assoc_right:
  assumes "ordered (xs @ p # ys)" "fst p < k"
  shows "del_assoc k (xs @ p # ys) = xs @ p # del_assoc k ys"
  using assms filter_below [of xs "fst p" k] by (simp add: del_assoc_def ordered_mid)

lemma del_assoc_here:
  assumes "ordered (xs @ (k, w) # ys)"
  shows "del_assoc k (xs @ (k, w) # ys) = xs @ ys"
  using assms filter_below [of xs k k] filter_above [of ys k k]
  by (simp add: del_assoc_def ordered_mid)

lemma del_assoc_hd: "ordered ((k, w) # ys) \<Longrightarrow> del_assoc k ((k, w) # ys) = ys"
  using del_assoc_here [of "[]" k w ys] by simp

lemma map_of_ordered_left:
  assumes "ordered (xs @ p # ys)" "k < fst p"
  shows "map_of (xs @ p # ys) k = map_of xs k"
  using assms filter_above(4) [of ys "fst p" k]
  by (cases p) (simp add: ordered_mid map_add_def split: option.splits)

lemma map_of_ordered_right:
  assumes "ordered (xs @ p # ys)" "fst p < k"
  shows "map_of (xs @ p # ys) k = map_of ys k"
  using assms filter_below(4) [of xs "fst p" k]
  by (cases p) (auto simp: ordered_mid map_add_def split: option.splits)

lemma map_of_ordered_here:
  assumes "ordered (xs @ (k, v) # ys)"
  shows "map_of (xs @ (k, v) # ys) k = Some v"
  using assms filter_below(4) [of xs k k] by (simp add: ordered_mid map_add_def)

lemmas assoc_cases = upd_assoc_left upd_assoc_right upd_assoc_here
  del_assoc_left del_assoc_right del_assoc_here
  map_of_ordered_left map_of_ordered_right map_of_ordered_here

section \<open>Outcomes of C++ code\<close>

text \<open>
  What a call may do besides returning: undefined behaviour, or one of the exceptions
  the sources throw. A fallible operation returns \<open>cpp_error + 'a\<close>, \<open>Inl\<close> for the
  abnormal outcome.
\<close>

datatype cpp_error =
    UB
  | OutOfRange
  | InvalidArgument
  | LogicError string
  | RuntimeError string

type_synonym 'a outcome = "cpp_error + 'a"

fun andThen :: "'a outcome \<Rightarrow> ('a \<Rightarrow> 'b outcome) \<Rightarrow> 'b outcome" where
  "andThen (Inl e) f = Inl e"
| "andThen (Inr x) f = f x"

lemma andThen_InrE:
  assumes "andThen m f = Inr y"
  obtains x where "m = Inr x" "f x = Inr y"
  using assms by (cases m) auto

text \<open>A read of an array cell: out of range, or never written, is undefined behaviour.\<close>

definition read_cell :: "'a option list \<Rightarrow> nat \<Rightarrow> 'a outcome" where
  "read_cell buf i =
     (if i < length buf then (case buf ! i of None \<Rightarrow> Inl UB | Some x \<Rightarrow> Inr x) else Inl UB)"

definition write_cell :: "'a option list \<Rightarrow> nat \<Rightarrow> 'a \<Rightarrow> 'a option list outcome" where
  "write_cell buf i x = (if i < length buf then Inr (buf[i := Some x]) else Inl UB)"

section \<open>Option and word helpers\<close>

lemma bind_eq_SomeE:
  assumes "Option.bind m f = Some y"
  obtains x where "m = Some x" "f x = Some y"
  using assms by (cases m) auto

section \<open>Statements with state and exceptions\<close>

text \<open>
  A C++ statement sequence on a state: it returns or throws, and the state reached so far is kept
  in both cases.  \<open>seq\<close> is the semicolon.
\<close>

type_synonym ('s, 'a) act = "'s \<Rightarrow> 'a outcome \<times> 's"

definition seq :: "('s, 'a) act \<Rightarrow> ('a \<Rightarrow> ('s, 'b) act) \<Rightarrow> ('s, 'b) act" where
  "seq m f s = (case m s of (Inl e, s') \<Rightarrow> (Inl e, s') | (Inr a, s') \<Rightarrow> f a s')"

definition ret :: "'a \<Rightarrow> ('s, 'a) act" where
  "ret a s = (Inr a, s)"

definition throw :: "cpp_error \<Rightarrow> ('s, 'a) act" where
  "throw e s = (Inl e, s)"

definition modify :: "('s \<Rightarrow> 's) \<Rightarrow> ('s, unit) act" where
  "modify f s = (Inr (), f s)"

named_theorems act_simps

lemma seq_simps [act_simps]:
  "m s = (Inr a, s') \<Longrightarrow> seq m f s = f a s'"
  "m s = (Inl e, s') \<Longrightarrow> seq m f s = (Inl e, s')"
  by (simp_all add: seq_def)

lemmas [act_simps] = ret_def throw_def modify_def

end
