(* ===== verification/Interfaces.thy ===== *)
theory Interfaces
  imports Prelude
begin

text \<open>
  The contracts between components, as locales. Each container or protocol component
  interprets the contract it provides on its own definitions; what a client may rely
  on is proved here once, from the contract alone.
\<close>

section \<open>Maps\<close>

text \<open>
  A map whose operations may fail (\<open>None\<close> is undefined behaviour of the C++ code).
  The laws promise that they do not fail in a state that satisfies the invariant.
  A history of calls is a list of \<open>map_op\<close>; \<open>spec_ops\<close> is what it means.
\<close>

datatype ('k, 'v) map_op = Put 'k 'v | Remove 'k

fun spec_op :: "('k, 'v) map_op \<Rightarrow> ('k \<rightharpoonup> 'v) \<Rightarrow> ('k \<rightharpoonup> 'v)" where
  "spec_op (Put k v) m = m(k \<mapsto> v)"
| "spec_op (Remove k) m = m(k := None)"

fun spec_ops :: "('k, 'v) map_op list \<Rightarrow> ('k \<rightharpoonup> 'v) \<Rightarrow> ('k \<rightharpoonup> 'v)" where
  "spec_ops [] m = m"
| "spec_ops (c # cs) m = spec_ops cs (spec_op c m)"

fun run_op :: "('k \<Rightarrow> 'v \<Rightarrow> 'm \<Rightarrow> 'm option) \<Rightarrow> ('k \<Rightarrow> 'm \<Rightarrow> 'm option)
    \<Rightarrow> ('k, 'v) map_op \<Rightarrow> 'm \<Rightarrow> 'm option" where
  "run_op put remove (Put k v) m = put k v m"
| "run_op put remove (Remove k) m = remove k m"

fun run_ops :: "('k \<Rightarrow> 'v \<Rightarrow> 'm \<Rightarrow> 'm option) \<Rightarrow> ('k \<Rightarrow> 'm \<Rightarrow> 'm option)
    \<Rightarrow> ('k, 'v) map_op list \<Rightarrow> 'm \<Rightarrow> 'm option" where
  "run_ops put remove [] m = Some m"
| "run_ops put remove (c # cs) m =
     Option.bind (run_op put remove c m) (run_ops put remove cs)"

fun put_all :: "('k \<Rightarrow> 'v \<Rightarrow> 'm \<Rightarrow> 'm option) \<Rightarrow> ('k \<times> 'v) list \<Rightarrow> 'm \<Rightarrow> 'm option" where
  "put_all put [] m = Some m"
| "put_all put ((k, v) # kvs) m = Option.bind (put k v m) (put_all put kvs)"

locale put_map =
  fixes empty_map :: 'm
    and put :: "'k \<Rightarrow> 'v \<Rightarrow> 'm \<Rightarrow> 'm option"
    and get :: "'m \<Rightarrow> 'k \<Rightarrow> 'v option"
    and invar :: "'m \<Rightarrow> bool"
  assumes invar_empty: "invar empty_map"
    and get_empty: "get empty_map = Map.empty"
    and put_ok: "invar m \<Longrightarrow> \<exists>m'. put k v m = Some m' \<and> invar m' \<and> get m' = (get m)(k \<mapsto> v)"
begin

lemma put_all_ok:
  "invar m \<Longrightarrow> \<exists>m'. put_all put kvs m = Some m' \<and> invar m' \<and> get m' = get m ++ map_of (rev kvs)"
proof (induction kvs arbitrary: m)
  case Nil
  then show ?case by simp
next
  case (Cons kv kvs)
  obtain k v where kv: "kv = (k, v)" by fastforce
  from put_ok [OF Cons.prems] obtain m1 where
    m1: "put k v m = Some m1" "invar m1" "get m1 = (get m)(k \<mapsto> v)" by blast
  from Cons.IH [OF m1(2)] obtain m2 where
    m2: "put_all put kvs m1 = Some m2" "invar m2" "get m2 = get m1 ++ map_of (rev kvs)" by blast
  then have "get m2 = get m ++ map_of (rev (kv # kvs))"
    by (simp add: m1(3) kv fun_eq_iff map_add_def split: option.splits)
  then show ?case using m1 m2 kv by auto
qed

lemma put_all_from_empty:
  "\<exists>m. put_all put kvs empty_map = Some m \<and> invar m \<and> get m = map_of (rev kvs)"
  using put_all_ok [OF invar_empty, of kvs] by (simp add: get_empty)

end

locale erase_map = put_map +
  fixes remove :: "'b \<Rightarrow> 'a \<Rightarrow> 'a option"
  assumes remove_ok: "invar m \<Longrightarrow> \<exists>m'. remove k m = Some m' \<and> invar m' \<and> get m' = (get m)(k := None)"
begin

lemma run_op_ok:
  "invar m \<Longrightarrow> \<exists>m'. run_op put remove c m = Some m' \<and> invar m' \<and> get m' = spec_op c (get m)"
  using put_ok remove_ok by (cases c) auto

lemma run_ops_ok:
  "invar m \<Longrightarrow> \<exists>m'. run_ops put remove cs m = Some m' \<and> invar m' \<and> get m' = spec_ops cs (get m)"
proof (induction cs arbitrary: m)
  case Nil
  then show ?case by simp
next
  case (Cons c cs)
  from run_op_ok [OF Cons.prems, of c] obtain m1 where
    "run_op put remove c m = Some m1" "invar m1" "get m1 = spec_op c (get m)" by blast
  with Cons.IH [of m1] show ?case by auto
qed

lemma run_ops_from_empty:
  "\<exists>m. run_ops put remove cs empty_map = Some m \<and> invar m \<and> get m = spec_ops cs Map.empty"
  using run_ops_ok [OF invar_empty, of cs] by (simp add: get_empty)

end

section \<open>Double-ended sequences\<close>

text \<open>
  A container with two ends, abstracted to the list of its elements. \<open>room\<close> is what the
  caller must know before a push (that the storage can still grow).
\<close>

locale two_ended =
  fixes contents :: "'s \<Rightarrow> 'a list"
    and invar :: "'s \<Rightarrow> bool"
    and room :: "'s \<Rightarrow> bool"
    and push_front :: "'a \<Rightarrow> 's \<Rightarrow> 's outcome"
    and push_back :: "'a \<Rightarrow> 's \<Rightarrow> 's outcome"
    and pop_front :: "'s \<Rightarrow> 's outcome"
    and pop_back :: "'s \<Rightarrow> 's outcome"
    and front_of :: "'s \<Rightarrow> 'a outcome"
    and back_of :: "'s \<Rightarrow> 'a outcome"
  assumes push_front_ok: "invar s \<Longrightarrow> room s \<Longrightarrow>
      \<exists>s'. push_front x s = Inr s' \<and> invar s' \<and> contents s' = x # contents s"
    and push_back_ok: "invar s \<Longrightarrow> room s \<Longrightarrow>
      \<exists>s'. push_back x s = Inr s' \<and> invar s' \<and> contents s' = contents s @ [x]"
    and pop_front_ok: "invar s \<Longrightarrow> contents s \<noteq> [] \<Longrightarrow>
      \<exists>s'. pop_front s = Inr s' \<and> invar s' \<and> contents s' = tl (contents s)"
    and pop_back_ok: "invar s \<Longrightarrow> contents s \<noteq> [] \<Longrightarrow>
      \<exists>s'. pop_back s = Inr s' \<and> invar s' \<and> contents s' = butlast (contents s)"
    and front_ok: "invar s \<Longrightarrow> contents s \<noteq> [] \<Longrightarrow> front_of s = Inr (hd (contents s))"
    and back_ok: "invar s \<Longrightarrow> contents s \<noteq> [] \<Longrightarrow> back_of s = Inr (last (contents s))"
begin

lemma push_front_pop_front:
  assumes "invar s" "room s"
  shows "\<exists>s' s''. push_front x s = Inr s' \<and> front_of s' = Inr x \<and> pop_front s' = Inr s'' \<and>
    invar s'' \<and> contents s'' = contents s"
proof -
  from push_front_ok [OF assms] obtain s' where
    s': "push_front x s = Inr s'" "invar s'" "contents s' = x # contents s" by blast
  with front_ok pop_front_ok show ?thesis by fastforce
qed

lemma push_back_pop_back:
  assumes "invar s" "room s"
  shows "\<exists>s' s''. push_back x s = Inr s' \<and> back_of s' = Inr x \<and> pop_back s' = Inr s'' \<and>
    invar s'' \<and> contents s'' = contents s"
proof -
  from push_back_ok [OF assms] obtain s' where
    s': "push_back x s = Inr s'" "invar s'" "contents s' = contents s @ [x]" by blast
  with back_ok pop_back_ok show ?thesis by fastforce
qed

end

locale checked_two_ended = two_ended +
  assumes pop_front_empty: "invar s \<Longrightarrow> contents s = [] \<Longrightarrow> pop_front s = Inl OutOfRange"
    and pop_back_empty: "invar s \<Longrightarrow> contents s = [] \<Longrightarrow> pop_back s = Inl OutOfRange"
    and front_empty: "invar s \<Longrightarrow> contents s = [] \<Longrightarrow> front_of s = Inl OutOfRange"
    and back_empty: "invar s \<Longrightarrow> contents s = [] \<Longrightarrow> back_of s = Inl OutOfRange"
begin

lemma front_total: "invar s \<Longrightarrow> front_of s = (case contents s of [] \<Rightarrow> Inl OutOfRange | x # xs \<Rightarrow> Inr x)"
  using front_ok front_empty by (auto split: list.splits)

lemma pop_never_undefined: "invar s \<Longrightarrow> pop_front s \<noteq> Inl UB \<and> pop_back s \<noteq> Inl UB"
  using pop_front_ok pop_back_ok pop_front_empty pop_back_empty
  by (cases "contents s = []") fastforce+

end

section \<open>Framed byte streams\<close>

text \<open>
  A message framing on a byte stream: \<open>encode\<close> is what the sender writes for one message,
  \<open>decode\<close> takes one message off the front of the stream (\<open>None\<close>: no complete legal frame).
  \<open>decode_all\<close> reads frames until none is left, with a bound on their number.
\<close>

fun decode_all :: "(byte list \<Rightarrow> ('m \<times> byte list) option) \<Rightarrow> nat \<Rightarrow> byte list \<Rightarrow> 'm list" where
  "decode_all decode 0 bs = []"
| "decode_all decode (Suc n) bs =
     (case decode bs of None \<Rightarrow> [] | Some (m, rest) \<Rightarrow> m # decode_all decode n rest)"

locale framing =
  fixes encode :: "'m \<Rightarrow> byte list"
    and decode :: "byte list \<Rightarrow> ('m \<times> byte list) option"
    and legal :: "'m \<Rightarrow> bool"
  assumes decode_encode: "legal m \<Longrightarrow> decode (encode m @ rest) = Some (m, rest)"
    and decode_short: "decode [] = None"
begin

lemma decode_all_stream:
  "\<forall>m \<in> set ms. legal m \<Longrightarrow> length ms \<le> n \<Longrightarrow> decode_all decode n (concat (map encode ms)) = ms"
proof (induction ms arbitrary: n)
  case Nil
  then show ?case by (cases n) (simp_all add: decode_short)
next
  case (Cons m ms)
  from Cons.prems obtain n' where n: "n = Suc n'" "length ms \<le> n'" by (cases n) auto
  have legal: "legal m" "\<forall>m \<in> set ms. legal m" using Cons.prems by simp_all
  show ?case
    by (simp add: n(1) decode_encode [OF legal(1)] Cons.IH [OF legal(2) n(2)])
qed

lemma encode_injective:
  assumes "legal m" "legal m'" "encode m @ xs = encode m' @ ys"
  shows "m = m' \<and> xs = ys"
proof -
  have "Some (m, xs) = Some (m', ys)"
    unfolding decode_encode [OF assms(1), symmetric] decode_encode [OF assms(2), symmetric] assms(3) ..
  then show ?thesis by simp
qed

end

section \<open>Storage allocators\<close>

text \<open>
  What a client does with an allocator: it requests buffers, releases buffers it holds and stores bytes into
  them.  The second component of the client's state holds the requested sizes of the buffers it holds, the
  third what it has stored in them.
\<close>

datatype client_op = Request int | Release int | Store int int int

fun client_step :: "(int \<Rightarrow> 's \<Rightarrow> (int option \<times> 's) option) \<Rightarrow> (int \<Rightarrow> 's \<Rightarrow> 's option) \<Rightarrow> (int \<Rightarrow> int \<Rightarrow> 's \<Rightarrow> 's)
    \<Rightarrow> client_op \<Rightarrow> 's \<times> (int \<rightharpoonup> int) \<times> (int \<rightharpoonup> int) \<Rightarrow> ('s \<times> (int \<rightharpoonup> int) \<times> (int \<rightharpoonup> int)) option" where
  "client_step acquire release poke (Request n) (s, L, D) =
     (case acquire n s of
        None \<Rightarrow> None
      | Some (None, s) \<Rightarrow> Some (s, L, D)
      | Some (Some p, s) \<Rightarrow> Some (s, L(p \<mapsto> n), D |` (- {p..<p + n})))"
| "client_step acquire release poke (Release p) (s, L, D) =
     (case L p of
        None \<Rightarrow> Some (s, L, D)
      | Some n \<Rightarrow> Option.bind (release p s) (\<lambda>s. Some (s, L(p := None), D |` (- {p..<p + n}))))"
| "client_step acquire release poke (Store p i b) (s, L, D) =
     (case L p of
        None \<Rightarrow> Some (s, L, D)
      | Some n \<Rightarrow> if 0 \<le> i \<and> i < n then Some (poke (p + i) b s, L, D(p + i \<mapsto> b)) else Some (s, L, D))"

fun run_client :: "(int \<Rightarrow> 's \<Rightarrow> (int option \<times> 's) option) \<Rightarrow> (int \<Rightarrow> 's \<Rightarrow> 's option) \<Rightarrow> (int \<Rightarrow> int \<Rightarrow> 's \<Rightarrow> 's)
    \<Rightarrow> client_op list \<Rightarrow> 's \<times> (int \<rightharpoonup> int) \<times> (int \<rightharpoonup> int) \<Rightarrow> ('s \<times> (int \<rightharpoonup> int) \<times> (int \<rightharpoonup> int)) option" where
  "run_client acquire release poke [] c = Some c"
| "run_client acquire release poke (x # xs) c =
     Option.bind (client_step acquire release poke x c) (run_client acquire release poke xs)"

definition same_buffers :: "(int \<Rightarrow> int) \<Rightarrow> (int \<Rightarrow> int) \<Rightarrow> (int \<rightharpoonup> int) \<Rightarrow> bool" where
  "same_buffers f g L \<longleftrightarrow> (\<forall>p n a. L p = Some n \<and> p \<le> a \<and> a < p + n \<longrightarrow> g a = f a)"

text \<open>Every byte the client has stored is in one of its buffers, and is there.\<close>

definition intact :: "(int \<Rightarrow> int) \<Rightarrow> (int \<rightharpoonup> int) \<Rightarrow> (int \<rightharpoonup> int) \<Rightarrow> bool" where
  "intact f L D \<longleftrightarrow> (\<forall>a b. D a = Some b \<longrightarrow> f a = b \<and> (\<exists>p n. L p = Some n \<and> p \<le> a \<and> a < p + n))"

lemma intact_store:
  assumes "intact f L D" "L p = Some n" "p \<le> a" "a < p + n"
  shows "intact (f(a := b)) L (D(a \<mapsto> b))"
  unfolding intact_def
proof (intro allI impI)
  fix x c assume "(D(a \<mapsto> b)) x = Some c"
  then consider "x = a" "c = b" | "x \<noteq> a" "D x = Some c" by (auto split: if_splits)
  then show "(f(a := b)) x = c \<and> (\<exists>p n. L p = Some n \<and> p \<le> x \<and> x < p + n)"
  proof cases
    case 1
    then show ?thesis using assms(2-4) by auto
  next
    case 2
    then show ?thesis using assms(1) unfolding intact_def by simp
  qed
qed

lemma fst_diff: "\<forall>k'. (p, k') \<in> S \<longrightarrow> k' = k \<Longrightarrow> fst ` (S - {(p, k)}) = fst ` S - {p}"
  by force

locale allocator =
  fixes inv :: "'s \<Rightarrow> (int \<rightharpoonup> int) \<Rightarrow> bool"
    and bytes :: "'s \<Rightarrow> int \<Rightarrow> int"
    and acquire :: "int \<Rightarrow> 's \<Rightarrow> (int option \<times> 's) option"
    and release :: "int \<Rightarrow> 's \<Rightarrow> 's option"
    and poke :: "int \<Rightarrow> int \<Rightarrow> 's \<Rightarrow> 's"
    and legal :: "int \<Rightarrow> bool"
  assumes acquire_ok: "inv s L \<Longrightarrow> legal n \<Longrightarrow> \<exists>r s'. acquire n s = Some (r, s') \<and> same_buffers (bytes s) (bytes s') L \<and>
      (case r of None \<Rightarrow> inv s' L | Some p \<Rightarrow> L p = None \<and> inv s' (L(p \<mapsto> n)))"
    and release_ok: "inv s L \<Longrightarrow> L p = Some n \<Longrightarrow> \<exists>s'. release p s = Some s' \<and> inv s' (L(p := None)) \<and>
      same_buffers (bytes s) (bytes s') (L(p := None))"
    and poke_ok: "inv s L \<Longrightarrow> L p = Some n \<Longrightarrow> p \<le> a \<Longrightarrow> a < p + n \<Longrightarrow>
      inv (poke a b s) L \<and> bytes (poke a b s) = (bytes s)(a := b)"
    and separate: "inv s L \<Longrightarrow> L p = Some n \<Longrightarrow> L q = Some k \<Longrightarrow> p \<noteq> q \<Longrightarrow> p + n \<le> q \<or> q + k \<le> p"
begin

lemma intact_acquire:
  assumes "intact (bytes s) L D" "same_buffers (bytes s) (bytes s') L" "L p = None"
  shows "intact (bytes s') (L(p \<mapsto> n)) (D |` (- {p..<p + n}))"
  unfolding intact_def
proof (intro allI impI)
  fix a b assume "(D |` (- {p..<p + n})) a = Some b"
  then have "D a = Some b" by (simp add: restrict_map_def split: if_splits)
  then obtain q k where "bytes s a = b" "L q = Some k" "q \<le> a" "a < q + k" using assms(1) unfolding intact_def by blast
  moreover from this have "bytes s' a = b" "q \<noteq> p" using assms(2,3) unfolding same_buffers_def by auto
  ultimately show "bytes s' a = b \<and> (\<exists>q k. (L(p \<mapsto> n)) q = Some k \<and> q \<le> a \<and> a < q + k)"
    by (intro conjI exI [of _ q] exI [of _ k]) simp_all
qed

lemma intact_release:
  assumes "intact (bytes s) L D" "L p = Some n" "same_buffers (bytes s) (bytes s') (L(p := None))"
  shows "intact (bytes s') (L(p := None)) (D |` (- {p..<p + n}))"
  unfolding intact_def
proof (intro allI impI)
  fix a b assume d: "(D |` (- {p..<p + n})) a = Some b"
  then have "D a = Some b" "\<not> (p \<le> a \<and> a < p + n)" by (auto simp: restrict_map_def split: if_splits)
  then obtain q k where q: "bytes s a = b" "L q = Some k" "q \<le> a" "a < q + k" using assms(1) unfolding intact_def by blast
  then have "q \<noteq> p" using assms(2) \<open>\<not> (p \<le> a \<and> a < p + n)\<close> by auto
  moreover from this q have "bytes s' a = b" using assms(3) unfolding same_buffers_def by (metis fun_upd_other)
  ultimately show "bytes s' a = b \<and> (\<exists>q k. (L(p := None)) q = Some k \<and> q \<le> a \<and> a < q + k)"
    using q by (intro conjI exI [of _ q] exI [of _ k]) simp_all
qed

lemma client_step_ok:
  assumes i: "inv s L" and d: "intact (bytes s) L D" and l: "\<forall>n. x = Request n \<longrightarrow> legal n"
  shows "\<exists>s' L' D'. client_step acquire release poke x (s, L, D) = Some (s', L', D') \<and> inv s' L' \<and> intact (bytes s') L' D'"
proof (cases x)
  case (Request n)
  from acquire_ok [OF i, of n] l Request obtain r s' where a: "acquire n s = Some (r, s')"
    "same_buffers (bytes s) (bytes s') L" "case r of None \<Rightarrow> inv s' L | Some p \<Rightarrow> L p = None \<and> inv s' (L(p \<mapsto> n))" by blast
  show ?thesis
  proof (cases r)
    case None
    have "intact (bytes s') L D" using d a(2) unfolding intact_def same_buffers_def by metis
    then show ?thesis using Request None a by simp
  next
    case (Some p)
    then show ?thesis using Request a intact_acquire [OF d a(2)] by simp
  qed
next
  case (Release p)
  show ?thesis
  proof (cases "L p")
    case None
    then show ?thesis using Release i d by simp
  next
    case (Some n)
    from release_ok [OF i Some] obtain s' where "release p s = Some s'" "inv s' (L(p := None))"
      "same_buffers (bytes s) (bytes s') (L(p := None))" by blast
    then show ?thesis using Release Some intact_release [OF d Some] by simp
  qed
next
  case (Store p j b)
  show ?thesis
  proof (cases "\<exists>n. L p = Some n \<and> 0 \<le> j \<and> j < n")
    case True
    then obtain n where n: "L p = Some n" "0 \<le> j" "j < n" by blast
    have a: "p \<le> p + j" "p + j < p + n" using n by simp_all
    note P = poke_ok [OF i n(1) a, of b]
    have "intact (bytes (poke (p + j) b s)) L (D(p + j \<mapsto> b))"
      using intact_store [OF d n(1) a, of b] P by simp
    then show ?thesis using Store n P by simp
  next
    case False
    then show ?thesis using Store i d by (auto split: option.splits)
  qed
qed

lemma run_client_ok:
  "inv s L \<Longrightarrow> intact (bytes s) L D \<Longrightarrow> \<forall>n. Request n \<in> set xs \<longrightarrow> legal n \<Longrightarrow>
   \<exists>s' L' D'. run_client acquire release poke xs (s, L, D) = Some (s', L', D') \<and> inv s' L' \<and> intact (bytes s') L' D'"
proof (induction xs arbitrary: s L D)
  case (Cons x xs)
  have "\<forall>n. x = Request n \<longrightarrow> legal n" using Cons.prems(3) by simp
  from client_step_ok [OF Cons.prems(1,2) this] obtain s1 L1 D1 where
    s1: "client_step acquire release poke x (s, L, D) = Some (s1, L1, D1)" "inv s1 L1" "intact (bytes s1) L1 D1" by blast
  have "\<forall>n. Request n \<in> set xs \<longrightarrow> legal n" using Cons.prems(3) by simp
  from Cons.IH [OF s1(2,3) this] s1(1) show ?case by simp
qed simp

lemma run_client_from_start:
  assumes "inv s Map.empty" "\<forall>n. Request n \<in> set xs \<longrightarrow> legal n"
  shows "\<exists>s' L D. run_client acquire release poke xs (s, Map.empty, Map.empty) = Some (s', L, D) \<and> inv s' L \<and>
    (\<forall>a b. D a = Some b \<longrightarrow> bytes s' a = b) \<and>
    (\<forall>p q n k. L p = Some n \<and> L q = Some k \<and> p \<noteq> q \<longrightarrow> p + n \<le> q \<or> q + k \<le> p)"
proof -
  have "intact (bytes s) Map.empty Map.empty" by (simp add: intact_def)
  from run_client_ok [OF assms(1) this assms(2)] obtain s' L D where
    r: "run_client acquire release poke xs (s, Map.empty, Map.empty) = Some (s', L, D)" "inv s' L" "intact (bytes s') L D" by blast
  then show ?thesis using separate [OF r(2)] unfolding intact_def by blast
qed

end

section \<open>Serial writers\<close>

text \<open>
  A component that accepts messages and writes them to a stream through asynchronous operations.  \<open>finish k\<close>
  is the completion of the operation in flight, if there is one, after at most \<open>k\<close> bytes.
\<close>

datatype 'a writer_op = Submit "'a list" | Finish nat

fun run_writer :: "('a list \<Rightarrow> 's \<Rightarrow> 's outcome) \<Rightarrow> (nat \<Rightarrow> 's \<Rightarrow> 's outcome) \<Rightarrow> 'a writer_op list \<Rightarrow> 's \<Rightarrow> 's outcome" where
  "run_writer submit finish [] s = Inr s"
| "run_writer submit finish (Submit b # xs) s = andThen (submit b s) (run_writer submit finish xs)"
| "run_writer submit finish (Finish k # xs) s = andThen (finish k s) (run_writer submit finish xs)"

fun submitted :: "'a writer_op list \<Rightarrow> 'a list" where
  "submitted [] = []"
| "submitted (Submit b # xs) = b @ submitted xs"
| "submitted (Finish k # xs) = submitted xs"

locale serial_writer =
  fixes inv :: "'s \<Rightarrow> bool"
    and wire :: "'s \<Rightarrow> 'a list"
    and unsent :: "'s \<Rightarrow> 'a list"
    and work :: "'s \<Rightarrow> nat"
    and submit :: "'a list \<Rightarrow> 's \<Rightarrow> 's outcome"
    and finish :: "nat \<Rightarrow> 's \<Rightarrow> 's outcome"
  assumes submit_ok: "inv s \<Longrightarrow> \<exists>s'. submit b s = Inr s' \<and> inv s' \<and> wire s' = wire s \<and> unsent s' = unsent s @ b"
    and finish_ok: "inv s \<Longrightarrow> \<exists>s'. finish k s = Inr s' \<and> inv s' \<and> wire s' @ unsent s' = wire s @ unsent s \<and>
      (0 < k \<and> work s \<noteq> 0 \<longrightarrow> work s' < work s) \<and> (work s = 0 \<longrightarrow> s' = s)"
    and work_unsent: "inv s \<Longrightarrow> work s = 0 \<Longrightarrow> unsent s = []"
begin

lemma run_writer_ok:
  "inv s \<Longrightarrow> \<exists>s'. run_writer submit finish xs s = Inr s' \<and> inv s' \<and> wire s' @ unsent s' = wire s @ unsent s @ submitted xs"
proof (induction xs arbitrary: s)
  case Nil
  then show ?case by simp
next
  case (Cons x xs)
  show ?case
  proof (cases x)
    case (Submit b)
    from submit_ok [OF Cons.prems, of b] obtain s1 where
      s1: "submit b s = Inr s1" "inv s1" "wire s1 = wire s" "unsent s1 = unsent s @ b" by blast
    from Cons.IH [OF s1(2)] obtain s' where
      "run_writer submit finish xs s1 = Inr s'" "inv s'" "wire s' @ unsent s' = wire s @ unsent s @ b @ submitted xs"
      unfolding s1(3,4) by auto
    then show ?thesis using s1(1) Submit by simp
  next
    case (Finish k)
    from finish_ok [OF Cons.prems, of k] obtain s1 where
      s1: "finish k s = Inr s1" "inv s1" "wire s1 @ unsent s1 = wire s @ unsent s" by blast
    from Cons.IH [OF s1(2)] obtain s' where
      s': "run_writer submit finish xs s1 = Inr s'" "inv s'" "wire s' @ unsent s' = (wire s1 @ unsent s1) @ submitted xs" by auto
    then show ?thesis using s1 Finish by simp
  qed
qed

lemma drain_ok:
  "inv s \<Longrightarrow> work s \<le> length ks \<Longrightarrow> \<forall>k \<in> set ks. 0 < k \<Longrightarrow>
   \<exists>s'. run_writer submit finish (map Finish ks) s = Inr s' \<and> inv s' \<and> unsent s' = [] \<and> wire s' = wire s @ unsent s"
proof (induction ks arbitrary: s)
  case Nil
  then show ?case using work_unsent by simp
next
  case (Cons k ks)
  obtain s1 where
    s1: "finish k s = Inr s1" "inv s1" "wire s1 @ unsent s1 = wire s @ unsent s"
    "0 < k \<and> work s \<noteq> 0 \<longrightarrow> work s1 < work s" "work s = 0 \<longrightarrow> s1 = s"
    using finish_ok [OF Cons.prems(1), of k] by (elim exE conjE) (rule that; assumption)
  have "work s1 \<le> length ks"
  proof (cases "work s = 0")
    case True
    then show ?thesis using s1(5) by simp
  next
    case False
    then have "work s1 < work s" using s1(4) Cons.prems(3) by simp
    then show ?thesis using Cons.prems(2) by simp
  qed
  moreover have "\<forall>k \<in> set ks. 0 < k" using Cons.prems(3) by simp
  ultimately obtain s' where "run_writer submit finish (map Finish ks) s1 = Inr s'" "inv s'" "unsent s' = []"
    "wire s' = wire s1 @ unsent s1" using Cons.IH [OF s1(2)] by blast
  then show ?case using s1(1,3) by simp
qed

end

section \<open>Undo\<close>

text \<open>
  A component whose actions can be taken back one at a time.  A session of actions and undos amounts to the actions
  that were not taken back.
\<close>

datatype 'c undo_op = Do 'c | Undo

fun run_undo :: "('c \<Rightarrow> 's \<Rightarrow> 's) \<Rightarrow> ('s \<Rightarrow> 's) \<Rightarrow> 'c undo_op list \<Rightarrow> 's \<Rightarrow> 's" where
  "run_undo act undo [] s = s"
| "run_undo act undo (Do c # xs) s = run_undo act undo xs (act c s)"
| "run_undo act undo (Undo # xs) s = run_undo act undo xs (undo s)"

text \<open>The actions that remain, the latest first.\<close>

fun remaining_after :: "'c undo_op list \<Rightarrow> 'c list \<Rightarrow> 'c list" where
  "remaining_after [] cs = cs"
| "remaining_after (Do c # xs) cs = remaining_after xs (c # cs)"
| "remaining_after (Undo # xs) cs = remaining_after xs (tl cs)"

locale undo_stack =
  fixes inv :: "'s \<Rightarrow> bool"
    and fresh :: "'s \<Rightarrow> bool"
    and act :: "'c \<Rightarrow> 's \<Rightarrow> 's"
    and undo :: "'s \<Rightarrow> 's"
  assumes act_inv: "inv s \<Longrightarrow> inv (act c s)"
    and undo_act: "inv s \<Longrightarrow> undo (act c s) = s"
    and undo_fresh: "fresh s \<Longrightarrow> undo s = s"
begin

lemma foldr_inv: "inv s \<Longrightarrow> inv (foldr act cs s)"
  by (induction cs) (simp_all add: act_inv)

lemma run_from: "inv s \<Longrightarrow> fresh s \<Longrightarrow> run_undo act undo xs (foldr act cs s) = foldr act (remaining_after xs cs) s"
proof (induction xs arbitrary: cs)
  case (Cons x xs)
  show ?case
  proof (cases x)
    case (Do c)
    then show ?thesis using Cons.IH [OF Cons.prems, of "c # cs"] by simp
  next
    case Undo
    have "undo (foldr act cs s) = foldr act (tl cs) s"
      using Cons.prems undo_fresh undo_act foldr_inv by (cases cs) simp_all
    then show ?thesis using Undo Cons.IH [OF Cons.prems, of "tl cs"] by simp
  qed
qed simp

lemma session: "inv s \<Longrightarrow> fresh s \<Longrightarrow> run_undo act undo xs s = foldr act (remaining_after xs []) s"
  using run_from [of s xs "[]"] by simp

lemma undo_all: "inv s \<Longrightarrow> fresh s \<Longrightarrow> run_undo act undo (map Do cs @ replicate (length cs) Undo) s = s"
proof -
  have d: "remaining_after (map Do cs @ ys) ds = remaining_after ys (rev cs @ ds)" for ds ys by (induction cs arbitrary: ds) simp_all
  have u: "remaining_after (replicate k Undo) ds = drop k ds" for k and ds :: "'c list"
    by (induction k arbitrary: ds) (simp_all add: drop_Suc)
  assume "inv s" "fresh s"
  from session [OF this] show ?thesis by (simp add: d u)
qed

end

end
