(* ===== verification/Avl_Map.thy ===== *)
theory Avl_Map
  imports Interfaces
begin

text \<open>
  The AVL map \<open>sen_std::avl_map::map\<close> of
  src/cplusplus/basement/base\_code/src/base\_stl/map\_demo.h. A subtree that a node
  owns through \<open>_left\<close>/\<open>_right\<close> is a subterm; \<open>Nullptr\<close> is the null pointer. The
  recursive members return the new root of the subtree they were given, exactly as the
  definitions below do; a null dereference is \<open>None\<close>. Heights are C++ \<open>int\<close>s, far below
  overflow for any tree that fits in memory, so they are mathematical integers here.
\<close>

section \<open>The code\<close>

datatype ('k, 'v) tree_node =
    Nullptr
  | Node (node_key: 'k) (node_value: 'v) (node_height: int)
      (node_left: "('k, 'v) tree_node") (node_right: "('k, 'v) tree_node")

fun get_height :: "('k, 'v) tree_node \<Rightarrow> int" where
  "get_height Nullptr = 0"
| "get_height (Node k v h l r) = h"

fun get_balance :: "('k, 'v) tree_node \<Rightarrow> int" where
  "get_balance Nullptr = 0"
| "get_balance (Node k v h l r) = get_height l - get_height r"

definition update_height :: "'k \<Rightarrow> 'v \<Rightarrow> ('k, 'v) tree_node \<Rightarrow> ('k, 'v) tree_node \<Rightarrow> ('k, 'v) tree_node" where
  "update_height k v l r = Node k v (1 + max (get_height l) (get_height r)) l r"

fun right_rotate :: "('k, 'v) tree_node \<Rightarrow> ('k, 'v) tree_node option" where
  "right_rotate (Node yk yv yh (Node xk xv xh xl t2) yr) =
     Some (update_height xk xv xl (update_height yk yv t2 yr))"
| "right_rotate _ = None"

fun left_rotate :: "('k, 'v) tree_node \<Rightarrow> ('k, 'v) tree_node option" where
  "left_rotate (Node yk yv yh yl (Node xk xv xh t2 xr)) =
     Some (update_height xk xv (update_height yk yv yl t2) xr)"
| "left_rotate _ = None"

fun get_min :: "('k, 'v) tree_node \<Rightarrow> ('k \<times> 'v) option" where
  "get_min Nullptr = None"
| "get_min (Node k v h l r) = (if l = Nullptr then Some (k, v) else get_min l)"

text \<open>
  The part of \<open>insert\<close> after the recursive call: the height update and the four
  rotation cases LL, RR, LR, RL. The tests on \<open>balance\<close> exclude each other, so the
  cases of one sign are grouped; reading \<open>node->_left->_key\<close> (\<open>node->_right->_key\<close>)
  when that child is null is the \<open>None\<close> branch.
\<close>

definition insert_fixup :: "'k::linorder \<Rightarrow> 'k \<Rightarrow> 'v \<Rightarrow> ('k, 'v) tree_node \<Rightarrow> ('k, 'v) tree_node
    \<Rightarrow> ('k, 'v) tree_node option" where
  "insert_fixup key nk nv l r =
     (let node = update_height nk nv l r; balance = get_balance node in
      if balance > 1 then
        (case l of Nullptr \<Rightarrow> None
         | Node lk lv lh ll lr \<Rightarrow>
             if key < lk then right_rotate node
             else if key > lk then
               do { l' \<leftarrow> left_rotate l; right_rotate (Node nk nv (get_height node) l' r) }
             else Some node)
      else if balance < -1 then
        (case r of Nullptr \<Rightarrow> None
         | Node rk rv rh rl rr \<Rightarrow>
             if key > rk then left_rotate node
             else if key < rk then
               do { r' \<leftarrow> right_rotate r; left_rotate (Node nk nv (get_height node) l r') }
             else Some node)
      else Some node)"

fun avl_insert :: "('k::linorder, 'v) tree_node \<Rightarrow> 'k \<Rightarrow> 'v \<Rightarrow> ('k, 'v) tree_node option" where
  "avl_insert Nullptr key val = Some (Node key val 1 Nullptr Nullptr)"
| "avl_insert (Node nk nv nh l r) key val =
     (if key < nk then do { l' \<leftarrow> avl_insert l key val; insert_fixup key nk nv l' r }
      else if key > nk then do { r' \<leftarrow> avl_insert r key val; insert_fixup key nk nv l r' }
      else Some (Node nk val nh l r))"

text \<open>The part of \<open>erase\<close> after the structural deletion, with \<open>root\<close> not null.\<close>

definition erase_fixup :: "'k \<Rightarrow> 'v \<Rightarrow> ('k, 'v) tree_node \<Rightarrow> ('k, 'v) tree_node
    \<Rightarrow> ('k, 'v) tree_node option" where
  "erase_fixup k v l r =
     (let root = update_height k v l r; balance = get_balance root in
      if balance > 1 \<and> get_balance l \<ge> 0 then right_rotate root
      else if balance > 1 \<and> get_balance l < 0 then
        do { l' \<leftarrow> left_rotate l; right_rotate (Node k v (get_height root) l' r) }
      else if balance < -1 \<and> get_balance r < 0 then left_rotate root
      else if balance < -1 \<and> get_balance r \<ge> 0 then
        do { r' \<leftarrow> right_rotate r; left_rotate (Node k v (get_height root) l r') }
      else Some root)"

fun avl_erase :: "('k::linorder, 'v) tree_node \<Rightarrow> 'k \<Rightarrow> ('k, 'v) tree_node option" where
  "avl_erase Nullptr key = Some Nullptr"
| "avl_erase (Node k v h l r) key =
     (if key < k then do { l' \<leftarrow> avl_erase l key; erase_fixup k v l' r }
      else if key > k then do { r' \<leftarrow> avl_erase r key; erase_fixup k v l r' }
      else if l = Nullptr \<or> r = Nullptr then
        (case (if l = Nullptr then r else l) of
           Nullptr \<Rightarrow> Some Nullptr
         | Node k' v' h' l' r' \<Rightarrow> erase_fixup k' v' l' r')
      else
        do { (sk, sv) \<leftarrow> get_min r; r' \<leftarrow> avl_erase r sk; erase_fixup sk sv l r' })"

fun avl_find :: "('k::linorder, 'v) tree_node \<Rightarrow> 'k \<Rightarrow> 'v option" where
  "avl_find Nullptr key = None"
| "avl_find (Node k v h l r) key =
     (if key = k then Some v else if key < k then avl_find l key else avl_find r key)"

fun inorder_helper :: "('k, 'v) tree_node \<Rightarrow> ('k \<times> 'v) list \<Rightarrow> ('k \<times> 'v) list" where
  "inorder_helper Nullptr res = res"
| "inorder_helper (Node k v h l r) res = inorder_helper r (inorder_helper l res @ [(k, v)])"

text \<open>The public members of \<open>map\<close>: the object is its \<open>_root\<close>.\<close>

definition avl_new :: "('k, 'v) tree_node" where
  "avl_new = Nullptr"

definition avl_put :: "'k::linorder \<Rightarrow> 'v \<Rightarrow> ('k, 'v) tree_node \<Rightarrow> ('k, 'v) tree_node option" where
  "avl_put key val root = avl_insert root key val"

definition avl_get :: "('k::linorder, 'v) tree_node \<Rightarrow> 'k \<Rightarrow> 'v option" where
  "avl_get root key = avl_find root key"

definition avl_remove :: "'k::linorder \<Rightarrow> ('k, 'v) tree_node \<Rightarrow> ('k, 'v) tree_node option" where
  "avl_remove key root = avl_erase root key"

definition inorder_traversal :: "('k, 'v) tree_node \<Rightarrow> ('k \<times> 'v) list" where
  "inorder_traversal root = inorder_helper root []"

text \<open>The destructor's \<open>destory\<close> visits both subtrees and then deletes the node: the keys in
  the order in which their nodes are deleted.\<close>

fun destory :: "('k, 'v) tree_node \<Rightarrow> 'k list" where
  "destory Nullptr = []"
| "destory (Node k v h l r) = destory l @ destory r @ [k]"

section \<open>Invariants\<close>

text \<open>
  \<open>inorder\<close> is the in-order sequence of the tree. \<open>bst\<close> is the search-tree order,
  \<open>heights\<close> says that every stored height is the real one, and \<open>avl\<close> adds the balance
  condition at every node.
\<close>

fun inorder :: "('k, 'v) tree_node \<Rightarrow> ('k \<times> 'v) list" where
  "inorder Nullptr = []"
| "inorder (Node k v h l r) = inorder l @ (k, v) # inorder r"

definition bst :: "('k::linorder, 'v) tree_node \<Rightarrow> bool" where
  "bst t \<longleftrightarrow> ordered (inorder t)"

fun heights :: "('k, 'v) tree_node \<Rightarrow> bool" where
  "heights Nullptr \<longleftrightarrow> True"
| "heights (Node k v h l r) \<longleftrightarrow>
     heights l \<and> heights r \<and> h = 1 + max (get_height l) (get_height r)"

fun avl :: "('k, 'v) tree_node \<Rightarrow> bool" where
  "avl Nullptr \<longleftrightarrow> True"
| "avl (Node k v h l r) \<longleftrightarrow>
     avl l \<and> avl r \<and> h = 1 + max (get_height l) (get_height r) \<and>
     \<bar>get_height l - get_height r\<bar> \<le> 1"

lemma bst_NodeD:
  assumes "bst (Node k v h l r)"
  shows "bst l" "bst r" "ordered (inorder l @ (k, v) # inorder r)"
  using assms by (auto simp: bst_def ordered_mid)

lemma avl_heights: "avl t \<Longrightarrow> heights t"
  by (induction t) auto

lemma heights_nonneg: "heights t \<Longrightarrow> get_height t \<ge> 0"
  by (induction t) auto

lemma heights_zero: "heights t \<Longrightarrow> get_height t = 0 \<longleftrightarrow> t = Nullptr"
  by (cases t) (auto dest: heights_nonneg simp: max_def split: if_splits)

lemma avl_nonneg: "avl t \<Longrightarrow> get_height t \<ge> 0"
  by (simp add: avl_heights heights_nonneg)

lemma get_height_update [simp]:
  "get_height (update_height k v l r) = 1 + max (get_height l) (get_height r)"
  by (simp add: update_height_def)

lemma get_balance_update [simp]:
  "get_balance (update_height k v l r) = get_height l - get_height r"
  by (simp add: update_height_def)

lemma heights_update [simp]: "heights (update_height k v l r) \<longleftrightarrow> heights l \<and> heights r"
  by (auto simp: update_height_def)

lemma inorder_update [simp]: "inorder (update_height k v l r) = inorder l @ (k, v) # inorder r"
  by (simp add: update_height_def)

lemma avl_update [simp]:
  "avl (update_height k v l r) \<longleftrightarrow> avl l \<and> avl r \<and> \<bar>get_height l - get_height r\<bar> \<le> 1"
  by (auto simp: update_height_def)

lemma inorder_traversal_eq: "inorder_traversal t = inorder t"
proof -
  have "inorder_helper t res = res @ inorder t" for res
    by (induction t arbitrary: res) auto
  then show ?thesis by (simp add: inorder_traversal_def)
qed

lemma avl_find_map_of: "bst t \<Longrightarrow> avl_find t key = map_of (inorder t) key"
proof (induction t)
  case Nullptr
  then show ?case by simp
next
  case (Node k v h l r)
  then have "bst l" "bst r" by (auto simp: bst_def ordered_mid)
  with Node show ?case
    by (cases key k rule: linorder_cases) (auto simp: bst_def assoc_cases simp del: map_of_append)
qed

section \<open>Rotations and the two fixups keep the sequence\<close>

lemma inorder_right_rotate: "right_rotate t = Some t' \<Longrightarrow> inorder t' = inorder t"
  by (induction t rule: right_rotate.induct) auto

lemma inorder_left_rotate: "left_rotate t = Some t' \<Longrightarrow> inorder t' = inorder t"
  by (induction t rule: left_rotate.induct) auto

lemma heights_right_rotate: "right_rotate t = Some t' \<Longrightarrow> heights t \<Longrightarrow> heights t'"
  by (induction t rule: right_rotate.induct) auto

lemma heights_left_rotate: "left_rotate t = Some t' \<Longrightarrow> heights t \<Longrightarrow> heights t'"
  by (induction t rule: left_rotate.induct) auto

lemmas rotate_inorder = inorder_right_rotate inorder_left_rotate

lemma inorder_insert_fixup:
  "insert_fixup key k v l r = Some t \<Longrightarrow> inorder t = inorder l @ (k, v) # inorder r"
  by (auto simp: insert_fixup_def Let_def dest!: rotate_inorder elim!: bind_eq_SomeE
      split: if_splits tree_node.splits)

lemma inorder_erase_fixup:
  "erase_fixup k v l r = Some t \<Longrightarrow> inorder t = inorder l @ (k, v) # inorder r"
  by (auto simp: erase_fixup_def Let_def dest!: rotate_inorder elim!: bind_eq_SomeE
      split: if_splits)

lemma inorder_avl_insert:
  "bst t \<Longrightarrow> avl_insert t key val = Some t' \<Longrightarrow> inorder t' = upd_assoc key val (inorder t)"
proof (induction t arbitrary: t')
  case Nullptr
  then show ?case by (auto simp: upd_assoc_def)
next
  case (Node k v h l r)
  note sub = bst_NodeD(1,2) [OF Node.prems(1)] and ord = bst_NodeD(3) [OF Node.prems(1)]
  show ?case
  proof (cases key k rule: linorder_cases)
    case less
    with Node.prems(2) obtain l' where
      rec: "avl_insert l key val = Some l'" and fx: "insert_fixup key k v l' r = Some t'"
      by (auto elim!: bind_eq_SomeE split: if_splits)
    with Node.IH(1) [OF sub(1) rec] inorder_insert_fixup [OF fx] less ord show ?thesis
      by (simp add: upd_assoc_left)
  next
    case equal
    with Node.prems ord show ?thesis by (auto simp: upd_assoc_here)
  next
    case greater
    with Node.prems(2) obtain r' where
      rec: "avl_insert r key val = Some r'" and fx: "insert_fixup key k v l r' = Some t'"
      by (auto elim!: bind_eq_SomeE split: if_splits)
    with Node.IH(2) [OF sub(2) rec] inorder_insert_fixup [OF fx] greater ord show ?thesis
      by (simp add: upd_assoc_right)
  qed
qed

lemma get_min_inorder: "get_min t = Some kv \<Longrightarrow> \<exists>rest. inorder t = kv # rest"
  by (induction t) (auto split: if_splits)

lemma inorder_avl_erase:
  "bst t \<Longrightarrow> avl_erase t key = Some t' \<Longrightarrow> inorder t' = del_assoc key (inorder t)"
proof (induction t arbitrary: t' key)
  case Nullptr
  then show ?case by (auto simp: del_assoc_def)
next
  case (Node k v h l r)
  note sub = bst_NodeD(1,2) [OF Node.prems(1)] and ord = bst_NodeD(3) [OF Node.prems(1)]
  consider (less) "key < k" | (greater) "key > k" | (one) "key = k" "l = Nullptr \<or> r = Nullptr"
    | (two) "key = k" "l \<noteq> Nullptr" "r \<noteq> Nullptr"
    by (metis linorder_neqE)
  then show ?case
  proof cases
    case less
    with Node.prems(2) obtain l' where
      rec: "avl_erase l key = Some l'" and fx: "erase_fixup k v l' r = Some t'"
      by (auto elim!: bind_eq_SomeE split: if_splits)
    with Node.IH(1) [OF sub(1) rec] inorder_erase_fixup [OF fx] less ord show ?thesis
      by (simp add: del_assoc_left)
  next
    case greater
    with Node.prems(2) obtain r' where
      rec: "avl_erase r key = Some r'" and fx: "erase_fixup k v l r' = Some t'"
      by (auto elim!: bind_eq_SomeE split: if_splits)
    with Node.IH(2) [OF sub(2) rec] inorder_erase_fixup [OF fx] greater ord show ?thesis
      by (simp add: del_assoc_right)
  next
    case one
    then have "del_assoc key (inorder (Node k v h l r)) = inorder l @ inorder r"
      using ord by (simp add: del_assoc_here)
    with one Node.prems(2) show ?thesis
      by (auto dest!: inorder_erase_fixup split: if_splits tree_node.splits)
  next
    case two
    with Node.prems obtain sk sv r' where
      m: "get_min r = Some (sk, sv)" and e: "avl_erase r sk = Some r'"
      and f: "erase_fixup sk sv l r' = Some t'"
      by (auto elim!: bind_eq_SomeE split: if_splits)
    from get_min_inorder [OF m] obtain rest where rest: "inorder r = (sk, sv) # rest" by blast
    with sub(2) have "del_assoc sk (inorder r) = rest"
      by (simp add: bst_def del_assoc_hd)
    with Node.IH(2) [OF sub(2) e] have "inorder r' = rest" by simp
    with inorder_erase_fixup [OF f] rest two ord show ?thesis
      by (simp add: del_assoc_here)
  qed
qed

section \<open>Insertion is safe and keeps the tree balanced\<close>

text \<open>
  If an insertion makes a subtree higher, the key went into its higher half: this is why
  comparing keys in \<open>insert\<close> picks the right rotation.
\<close>

fun grown :: "'k::linorder \<Rightarrow> ('k, 'v) tree_node \<Rightarrow> bool" where
  "grown key Nullptr \<longleftrightarrow> False"
| "grown key (Node k v h l r) \<longleftrightarrow>
     key = k \<and> l = Nullptr \<and> r = Nullptr \<or>
     key < k \<and> get_height l = get_height r + 1 \<or>
     k < key \<and> get_height r = get_height l + 1"

lemma height_cases:
  assumes "avl t" "get_height t > 0"
  obtains k v h l r where "t = Node k v h l r" "avl l" "avl r"
    "h = 1 + max (get_height l) (get_height r)" "\<bar>get_height l - get_height r\<bar> \<le> 1"
    "get_height l \<ge> 0" "get_height r \<ge> 0"
  using assms by (cases t) (auto simp: avl_nonneg)

lemma insert_fixup_left:
  assumes avl: "avl l" "avl r" "avl l'" and bal: "\<bar>get_height l - get_height r\<bar> \<le> 1"
    and grow: "get_height l' = get_height l \<or> get_height l' = get_height l + 1 \<and> grown key l'"
    and key: "key < k"
  shows "\<exists>t. insert_fixup key k v l' r = Some t \<and> avl t \<and>
    (get_height t = 1 + max (get_height l) (get_height r) \<or>
     get_height t = 2 + max (get_height l) (get_height r) \<and> grown key t)"
proof (cases "get_height l' - get_height r > 1")
  case False
  with assms show ?thesis
    by (auto simp: insert_fixup_def Let_def update_height_def max_def)
next
  case True
  with bal grow have g: "get_height l' = get_height r + 2" "get_height l = get_height r + 1"
    "grown key l'" by auto
  then have pos: "get_height l' > 0" using avl_nonneg [OF avl(2)] by simp
  obtain lk lv lh ll lr where l': "l' = Node lk lv lh ll lr" "avl ll" "avl lr"
    "lh = 1 + max (get_height ll) (get_height lr)"
    "\<bar>get_height ll - get_height lr\<bar> \<le> 1" "get_height ll \<ge> 0" "get_height lr \<ge> 0"
    using avl(3) pos by (rule height_cases)
  have "get_height r \<ge> 0" using avl_nonneg [OF avl(2)] .
  show ?thesis
  proof (cases "key < lk")
    case True
    with g l' avl show ?thesis
      by (auto simp: insert_fixup_def Let_def update_height_def max_def split: if_splits)
  next
    case False
    with g l' \<open>get_height r \<ge> 0\<close> have lr: "key > lk" "get_height lr = get_height ll + 1"
      by auto
    then have pos2: "get_height lr > 0" using l' by simp
    obtain xk xv xh xl xr where x: "lr = Node xk xv xh xl xr" "avl xl" "avl xr"
      "xh = 1 + max (get_height xl) (get_height xr)" "\<bar>get_height xl - get_height xr\<bar> \<le> 1"
      "get_height xl \<ge> 0" "get_height xr \<ge> 0"
      using l'(3) pos2 by (rule height_cases)
    with False lr g l' avl show ?thesis
      by (auto simp: insert_fixup_def Let_def update_height_def max_def split: if_splits)
  qed
qed

lemma insert_fixup_right:
  assumes avl: "avl l" "avl r" "avl r'" and bal: "\<bar>get_height l - get_height r\<bar> \<le> 1"
    and grow: "get_height r' = get_height r \<or> get_height r' = get_height r + 1 \<and> grown key r'"
    and key: "k < key"
  shows "\<exists>t. insert_fixup key k v l r' = Some t \<and> avl t \<and>
    (get_height t = 1 + max (get_height l) (get_height r) \<or>
     get_height t = 2 + max (get_height l) (get_height r) \<and> grown key t)"
proof (cases "get_height l - get_height r' < -1")
  case False
  with assms show ?thesis
    by (auto simp: insert_fixup_def Let_def update_height_def max_def)
next
  case True
  with bal grow have g: "get_height r' = get_height l + 2" "get_height r = get_height l + 1"
    "grown key r'" by auto
  then have pos: "get_height r' > 0" using avl_nonneg [OF avl(1)] by simp
  obtain rk rv rh rl rr where r': "r' = Node rk rv rh rl rr" "avl rl" "avl rr"
    "rh = 1 + max (get_height rl) (get_height rr)"
    "\<bar>get_height rl - get_height rr\<bar> \<le> 1" "get_height rl \<ge> 0" "get_height rr \<ge> 0"
    using avl(3) pos by (rule height_cases)
  have "get_height l \<ge> 0" using avl_nonneg [OF avl(1)] .
  show ?thesis
  proof (cases "key > rk")
    case True
    with g r' avl show ?thesis
      by (auto simp: insert_fixup_def Let_def update_height_def max_def split: if_splits)
  next
    case False
    with g r' \<open>get_height l \<ge> 0\<close> have rl: "key < rk" "get_height rl = get_height rr + 1"
      by auto
    then have pos2: "get_height rl > 0" using r' by simp
    obtain xk xv xh xl xr where x: "rl = Node xk xv xh xl xr" "avl xl" "avl xr"
      "xh = 1 + max (get_height xl) (get_height xr)" "\<bar>get_height xl - get_height xr\<bar> \<le> 1"
      "get_height xl \<ge> 0" "get_height xr \<ge> 0"
      using r'(2) pos2 by (rule height_cases)
    with False rl g r' avl show ?thesis
      by (auto simp: insert_fixup_def Let_def update_height_def max_def split: if_splits)
  qed
qed

lemma avl_insert_ok:
  "avl t \<Longrightarrow> \<exists>t'. avl_insert t key val = Some t' \<and> avl t' \<and>
     (get_height t' = get_height t \<or> get_height t' = get_height t + 1 \<and> grown key t')"
proof (induction t)
  case Nullptr
  then show ?case by simp
next
  case (Node k v h l r)
  show ?case
  proof (cases key k rule: linorder_cases)
    case less
    from Node obtain l' where l': "avl_insert l key val = Some l'" "avl l'"
      "get_height l' = get_height l \<or> get_height l' = get_height l + 1 \<and> grown key l'" by auto
    with Node.prems insert_fixup_left [of l r l' key k v] less show ?thesis by auto
  next
    case equal
    with Node.prems show ?thesis by simp
  next
    case greater
    from Node obtain r' where r': "avl_insert r key val = Some r'" "avl r'"
      "get_height r' = get_height r \<or> get_height r' = get_height r + 1 \<and> grown key r'" by auto
    with Node.prems insert_fixup_right [of l r r' key k v] greater show ?thesis by auto
  qed
qed

section \<open>Erasure is safe and keeps the heights exact\<close>

lemma erase_fixup_ok:
  assumes "heights l" "heights r"
  shows "\<exists>t. erase_fixup k v l r = Some t \<and> heights t"
proof -
  have child: "\<exists>xk xv xh xl xr. t = Node xk xv xh xl xr \<and> heights xl \<and> heights xr \<and>
      get_height xl \<ge> 0 \<and> get_height xr \<ge> 0"
    if "heights t" "get_height t > 0" for t :: "('a, 'b) tree_node"
    using that by (cases t) (auto simp: heights_nonneg)
  show ?thesis
    using assms child [of l] child [of r] heights_nonneg [of l] heights_nonneg [of r]
      child [of "node_right l"] child [of "node_left r"]
    by (auto simp: erase_fixup_def Let_def update_height_def max_def split: if_splits)
qed

lemma erase_fixup_balance:
  assumes "avl l" "avl r" "\<bar>get_height l - get_height r\<bar> \<le> 2"
  shows "\<exists>t. erase_fixup k v l r = Some t \<and>
    (avl t \<longleftrightarrow> \<not> (get_height r = get_height l + 2 \<and> get_balance r = 0 \<and> get_balance (node_left r) = 1))"
proof -
  have n: "get_height l \<ge> 0" "get_height r \<ge> 0" using assms(1,2) avl_nonneg by auto
  consider (even) "\<bar>get_height l - get_height r\<bar> \<le> 1" | (left) "get_height l = get_height r + 2" | (right) "get_height r = get_height l + 2"
    using assms(3) by linarith
  then show ?thesis
  proof cases
    case even
    then show ?thesis using assms(1,2) by (auto simp: erase_fixup_def Let_def)
  next
    case left
    then have "get_height l > 0" using n by simp
    from height_cases [OF assms(1) this] obtain xk xv xh a b where l: "l = Node xk xv xh a b" "avl a" "avl b"
      "xh = 1 + max (get_height a) (get_height b)" "\<bar>get_height a - get_height b\<bar> \<le> 1" "get_height a \<ge> 0" "get_height b \<ge> 0" .
    show ?thesis
    proof (cases "get_height a \<ge> get_height b")
      case True
      then show ?thesis using l left n assms(2) by (auto simp: erase_fixup_def Let_def update_height_def)
    next
      case False
      then have "get_height b > 0" using l by simp
      from height_cases [OF l(3) this] obtain yk yv yh c d where "b = Node yk yv yh c d" "avl c" "avl d"
        "yh = 1 + max (get_height c) (get_height d)" "\<bar>get_height c - get_height d\<bar> \<le> 1" "get_height c \<ge> 0" "get_height d \<ge> 0" .
      then show ?thesis using l left n assms(2) False by (auto simp: erase_fixup_def Let_def update_height_def)
    qed
  next
    case right
    then have "get_height r > 0" using n by simp
    from height_cases [OF assms(2) this] obtain xk xv xh a b where r: "r = Node xk xv xh a b" "avl a" "avl b"
      "xh = 1 + max (get_height a) (get_height b)" "\<bar>get_height a - get_height b\<bar> \<le> 1" "get_height a \<ge> 0" "get_height b \<ge> 0" .
    show ?thesis
    proof (cases "get_height a < get_height b")
      case True
      then show ?thesis using r right n assms(1) by (auto simp: erase_fixup_def Let_def update_height_def)
    next
      case False
      then have "get_height a > 0" using r right n by simp
      from height_cases [OF r(2) this] obtain yk yv yh c d where "a = Node yk yv yh c d" "avl c" "avl d"
        "yh = 1 + max (get_height c) (get_height d)" "\<bar>get_height c - get_height d\<bar> \<le> 1" "get_height c \<ge> 0" "get_height d \<ge> 0" .
      then show ?thesis using r right n assms(1) False by (auto simp: erase_fixup_def Let_def update_height_def)
    qed
  qed
qed

lemma avl_erase_ok: "heights t \<Longrightarrow> \<exists>t'. avl_erase t key = Some t' \<and> heights t'"
proof (induction t arbitrary: key)
  case Nullptr
  then show ?case by simp
next
  case (Node k v h l r)
  have min: "t \<noteq> Nullptr \<Longrightarrow> \<exists>kv. get_min t = Some kv" for t :: "('a, 'b) tree_node"
    by (induction t) auto
  from Node.prems have sub: "heights l" "heights r" by auto
  obtain l1 where l1: "avl_erase l key = Some l1" "heights l1"
    using Node.IH(1) [OF sub(1)] by blast
  obtain r1 where r1: "avl_erase r key = Some r1" "heights r1"
    using Node.IH(2) [OF sub(2)] by blast
  obtain t1 where t1: "erase_fixup k v l1 r = Some t1" "heights t1"
    using erase_fixup_ok [OF l1(2) sub(2)] by blast
  obtain t2 where t2: "erase_fixup k v l r1 = Some t2" "heights t2"
    using erase_fixup_ok [OF sub(1) r1(2)] by blast
  have two: "\<exists>t'. (do { (sk, sv) \<leftarrow> get_min r; r' \<leftarrow> avl_erase r sk; erase_fixup sk sv l r' }) = Some t'
      \<and> heights t'" if "r \<noteq> Nullptr"
  proof -
    from min [OF that] obtain sk sv where "get_min r = Some (sk, sv)" by fastforce
    moreover from Node.IH(2) [OF sub(2)] obtain r' where "avl_erase r sk = Some r'" "heights r'"
      by blast
    ultimately show ?thesis using erase_fixup_ok [OF sub(1)] by auto
  qed
  show ?case
    using sub l1 r1 t1 t2 two erase_fixup_ok
    by (auto split: tree_node.splits)
qed

section \<open>The contract of the map\<close>

lemma avl_put_ok:
  assumes "avl t" "bst t"
  shows "\<exists>t'. avl_put k v t = Some t' \<and> avl t' \<and> bst t' \<and> inorder t' = upd_assoc k v (inorder t)"
proof -
  from avl_insert_ok [OF assms(1)] obtain t' where t': "avl_insert t k v = Some t'" "avl t'" by blast
  have "inorder t' = upd_assoc k v (inorder t)"
    using inorder_avl_insert [OF assms(2) t'(1)] .
  with t' assms(2) show ?thesis by (simp add: avl_put_def bst_def assoc_simps)
qed

lemma avl_get_eq: "bst t \<Longrightarrow> avl_get t = map_of (inorder t)"
  by (simp add: fun_eq_iff avl_get_def avl_find_map_of)

interpretation avlm: put_map avl_new avl_put avl_get "\<lambda>t. avl t \<and> bst t"
proof unfold_locales
  show "avl avl_new \<and> bst avl_new" by (simp add: avl_new_def bst_def)
  show "avl_get avl_new = Map.empty" by (simp add: fun_eq_iff avl_new_def avl_get_def)
next
  fix t :: "('a::linorder, 'b) tree_node" and k v
  assume inv: "avl t \<and> bst t"
  then show "\<exists>t'. avl_put k v t = Some t' \<and> (avl t' \<and> bst t') \<and> avl_get t' = (avl_get t)(k \<mapsto> v)"
    using avl_put_ok [of t k v] by (auto simp: avl_get_eq assoc_simps)
qed

lemma avl_remove_ok:
  assumes "heights t" "bst t"
  shows "\<exists>t'. avl_remove k t = Some t' \<and> heights t' \<and> bst t' \<and> inorder t' = del_assoc k (inorder t)"
proof -
  from avl_erase_ok [OF assms(1)] obtain t' where t': "avl_erase t k = Some t'" "heights t'" by blast
  have "inorder t' = del_assoc k (inorder t)"
    using inorder_avl_erase [OF assms(2) t'(1)] .
  with t' assms(2) show ?thesis by (simp add: avl_remove_def bst_def assoc_simps)
qed

fun node_count :: "('k, 'v) tree_node \<Rightarrow> nat" where
  "node_count Nullptr = 0"
| "node_count (Node k v h l r) = Suc (node_count l + node_count r)"

lemma node_count_inorder: "node_count t = length (inorder t)"
  by (induction t) auto

lemma pow_half_bound: "avl t \<Longrightarrow> nat (get_height t) = n \<Longrightarrow> 2 ^ (n div 2) \<le> node_count t + 1"
proof (induction n arbitrary: t rule: less_induct)
  case (less n)
  show ?case
  proof (cases "n < 2")
    case True
    then show ?thesis by simp
  next
    case False
    with less.prems obtain k v h l r where t: "t = Node k v h l r" by (cases t) auto
    from less.prems t have a: "avl l" "avl r" "\<bar>get_height l - get_height r\<bar> \<le> 1"
      "get_height t = 1 + max (get_height l) (get_height r)" by auto
    have n_eq: "get_height t = int n" using less.prems(2) False by linarith
    define m where "m = n - 2"
    have pow: "2 ^ (m div 2) \<le> node_count s + 1" if "avl s" "int n - 2 \<le> get_height s" "get_height s < int n" for s :: "('a, 'b) tree_node"
    proof -
      have "2 ^ (nat (get_height s) div 2) \<le> node_count s + 1"
        using less.IH [of "nat (get_height s)" s] that False by (simp add: nat_less_iff)
      moreover have "m \<le> nat (get_height s)" using that m_def by linarith
      then have "(2::nat) ^ (m div 2) \<le> 2 ^ (nat (get_height s) div 2)"
        by (intro power_increasing) (auto intro: div_le_mono)
      ultimately show ?thesis by linarith
    qed
    have n: "n = m + 2" using m_def False by simp
    have "2 ^ (m div 2) \<le> node_count l + 1" "2 ^ (m div 2) \<le> node_count r + 1"
      using pow [OF a(1)] pow [OF a(2)] a(3,4) n_eq by linarith+
    then show ?thesis unfolding n t by simp
  qed
qed

text \<open>C1: \<open>put\<close> on a balanced search tree never dereferences a null pointer; the result is again a
  balanced search tree with exact stored heights, it lists the old entries in key order with
  the new binding inserted or overwritten, and \<open>get\<close> sees exactly that update.\<close>

theorem avl_put_correct:
  assumes "avl t" "bst t"
  shows "\<exists>t'. avl_put k v t = Some t' \<and> avl t' \<and> bst t' \<and>
    inorder_traversal t' = upd_assoc k v (inorder_traversal t) \<and> avl_get t' = (avl_get t)(k \<mapsto> v)"
  using avl_put_ok [OF assms, of k v] assms
  by (auto simp: avl_get_eq assoc_simps inorder_traversal_eq)

theorem avl_put_correct_witness:
  "\<exists>t'. avl_put 3 ''c'' (Node (5::int) ''e'' 1 Nullptr Nullptr) = Some t' \<and> avl t' \<and> bst t' \<and>
    inorder_traversal t' = upd_assoc 3 ''c'' (inorder_traversal (Node 5 ''e'' 1 Nullptr Nullptr)) \<and>
    avl_get t' = (avl_get (Node 5 ''e'' 1 Nullptr Nullptr))(3 \<mapsto> ''c'')"
  by (rule avl_put_correct) (simp_all add: bst_def)

text \<open>C3: \<open>remove\<close> on any search tree with exact heights never dereferences a null pointer; the
  result is a search tree with exact heights that lists the old entries without the key.\<close>

theorem avl_remove_correct:
  assumes "heights t" "bst t"
  shows "\<exists>t'. avl_remove k t = Some t' \<and> heights t' \<and> bst t' \<and>
    inorder_traversal t' = del_assoc k (inorder_traversal t) \<and> avl_get t' = (avl_get t)(k := None)"
  using avl_remove_ok [OF assms, of k] assms
  by (auto simp: avl_get_eq assoc_simps inorder_traversal_eq)

theorem avl_remove_correct_witness:
  "\<exists>t'. avl_remove 5 (Node (5::int) ''e'' 1 Nullptr Nullptr) = Some t' \<and> heights t' \<and> bst t' \<and>
    inorder_traversal t' = del_assoc 5 (inorder_traversal (Node 5 ''e'' 1 Nullptr Nullptr)) \<and>
    avl_get t' = (avl_get (Node 5 ''e'' 1 Nullptr Nullptr))(5 := None)"
  by (rule avl_remove_correct) (simp_all add: bst_def)

text \<open>The nodes on the longest path from the root: how deep the recursion of a member function can get.\<close>

fun depth :: "('k, 'v) tree_node \<Rightarrow> nat" where
  "depth Nullptr = 0"
| "depth (Node k v h l r) = Suc (max (depth l) (depth r))"

lemma height_depth: "heights t \<Longrightarrow> get_height t = int (depth t)"
  by (induction t) auto

lemma count_keys: "bst t \<Longrightarrow> node_count t = card (dom (avl_get t))"
proof -
  assume t: "bst t"
  have "distinct (map fst xs)" if "ordered xs" for xs :: "('a \<times> 'b) list" using that by (induction xs) auto
  then have "distinct (map fst (inorder t))" using t by (simp add: bst_def)
  then have "card (dom (map_of (inorder t))) = length (inorder t)"
    by (simp add: dom_map_of_conv_image_fst distinct_card flip: set_map)
  then show ?thesis by (simp add: node_count_inorder avl_get_eq [OF t])
qed

text \<open>C39: Every history of \<open>put\<close> calls on an empty map succeeds, binds each key to the value put last, and leaves a tree
  whose longest path is at most logarithmic in the number of different keys: twice the logarithm and one more.  So
  does the recursion of \<open>put\<close>, \<open>get\<close> and the other members on it.\<close>

theorem avl_height_bound:
  "\<exists>t. put_all avl_put kvs avl_new = Some t \<and> avl_get t = map_of (rev kvs) \<and>
     2 ^ (depth t div 2) \<le> card (fst ` set kvs) + 1"
proof -
  from avlm.put_all_from_empty [of kvs] obtain t where
    t: "put_all avl_put kvs avl_new = Some t" "avl t" "bst t" "avl_get t = map_of (rev kvs)" by blast
  have "2 ^ (depth t div 2) \<le> node_count t + 1"
    using pow_half_bound [OF t(2) refl] height_depth [OF avl_heights [OF t(2)]] by simp
  moreover have "node_count t = card (fst ` set kvs)"
    unfolding count_keys [OF t(3)] t(4) by (simp add: dom_map_of_conv_image_fst)
  ultimately show ?thesis using t(1,4) by auto
qed

text \<open>\<open>remove\<close> does not keep the tree balanced: after this short history, started from the
  empty map, some node has subtrees whose heights differ by two. (When the right child has
  balance 0 the code rotates it to the right first, where a single left rotation is right.)\<close>

theorem avl_remove_unbalances:
  "\<exists>t. run_ops avl_put avl_remove
      [Put 3 (), Put 0 (), Put 9 (), Put 2 (), Put 7 (), Put 6 (), Put 8 (), Put 5 (), Remove (0::int)]
      avl_new = Some t \<and> bst t \<and> \<not> avl t"
  by (simp add: avl_put_def avl_remove_def avl_new_def insert_fixup_def erase_fixup_def
      update_height_def bst_def)

text \<open>C12: What the rotations of \<open>erase\<close> do to a node whose subtrees are balanced and differ in height by at most two, as after a
  deletion in one of them: they succeed, keep the sequence and the exact heights, and the result is
  balanced except in one case, where it never is: the right subtree is the higher one by two, its own balance is 0 and the
  left subtree of it leans to the left.  There the code rotates twice where one rotation is right.\<close>

theorem avl_erase_rebalances:
  assumes "avl l" "avl r" "\<bar>get_height l - get_height r\<bar> \<le> 2"
  shows "\<exists>t. erase_fixup k v l r = Some t \<and> inorder_traversal t = inorder_traversal l @ (k, v) # inorder_traversal r \<and> heights t \<and>
    (avl t \<longleftrightarrow> \<not> (get_height r = get_height l + 2 \<and> get_balance r = 0 \<and> get_balance (node_left r) = 1))"
proof -
  obtain t where t: "erase_fixup k v l r = Some t" "heights t"
    using erase_fixup_ok [OF avl_heights [OF assms(1)] avl_heights [OF assms(2)], of k v] by blast
  have "inorder t = inorder l @ (k, v) # inorder r" by (rule inorder_erase_fixup [OF t(1)])
  moreover from erase_fixup_balance [OF assms, of k v] obtain t' where t': "erase_fixup k v l r = Some t'"
    "avl t' \<longleftrightarrow> \<not> (get_height r = get_height l + 2 \<and> get_balance r = 0 \<and> get_balance (node_left r) = 1)" by blast
  moreover have "t' = t" using t(1) t'(1) by simp
  ultimately show ?thesis using t unfolding inorder_traversal_eq by blast
qed

theorem avl_erase_rebalances_witness:
  "\<exists>t. erase_fixup 3 () (Node 2 () 1 Nullptr Nullptr)
      (Node (7::int) () 3 (Node 6 () 2 (Node 5 () 1 Nullptr Nullptr) Nullptr) (Node 9 () 2 (Node 8 () 1 Nullptr Nullptr) Nullptr)) = Some t \<and> \<not> avl t"
  using avl_erase_rebalances [of "Node 2 () 1 Nullptr Nullptr"
      "Node (7::int) () 3 (Node 6 () 2 (Node 5 () 1 Nullptr Nullptr) Nullptr) (Node 9 () 2 (Node 8 () 1 Nullptr Nullptr) Nullptr)" 3 "()"] by auto

text \<open>The lost balance can make a later \<open>put\<close> crash: on an initially empty map the calls of this history succeed, and the
  \<open>put\<close> after them dereferences null.\<close>

theorem avl_history_null_deref:
  "\<exists>t. run_ops avl_put avl_remove
     [Put 10 (), Put 21 (), Put 39 (), Put 15 (), Put 30 (), Put 34 (), Put 17 (), Put 1 (), Put 14 (),
      Put 2 (), Put 22 (), Put 11 (), Put 26 (), Put 12 (), Put 19 (), Put 24 (), Put 13 (), Put 9 (),
      Put 6 (), Put 36 (), Remove 26, Remove 15, Put 5 (), Put 31 (), Put 37 (), Remove 21, Put 28 (),
      Remove (19::int)] avl_new = Some t \<and> avl_put 31 () t = None"
  by (simp add: avl_put_def avl_remove_def avl_new_def insert_fixup_def erase_fixup_def
      update_height_def)

end
