(* ===== verification/Ring_Deque.thy ===== *)
theory Ring_Deque
  imports Interfaces
begin

text \<open>
  The ring-buffer deque \<open>sen_std::deque\<close> of
  src/cplusplus/basement/base\_code/src/base\_stl/deque\_demo.h. The buffer is a list of
  cells; \<open>None\<close> is a cell of \<open>new T[n]\<close> that was never assigned. Index arithmetic is
  that of \<open>size_t\<close>, with the wrap-around at \<open>2 ^ 64\<close> written out; a division by a zero
  capacity and an access outside the buffer are undefined behaviour.
\<close>

section \<open>The code\<close>

record 'a deque =
  d_buffer :: "'a option list"
  d_capacity :: nat
  d_count :: nat
  d_front_index :: nat
  d_back_index :: nat

abbreviation size_max :: nat where
  "size_max \<equiv> 2 ^ 64"

definition pred_index :: "nat \<Rightarrow> nat \<Rightarrow> nat" where
  "pred_index i cap = ((i + (size_max - 1)) mod size_max + cap) mod size_max mod cap"

definition deque_new :: "nat \<Rightarrow> 'a deque" where
  "deque_new cap = \<lparr>d_buffer = replicate cap None, d_capacity = cap, d_count = 0,
     d_front_index = 0, d_back_index = 0\<rparr>"

definition deque_empty :: "'a deque \<Rightarrow> bool" where
  "deque_empty d \<longleftrightarrow> d_count d = 0"

definition deque_size :: "'a deque \<Rightarrow> nat" where
  "deque_size d = d_count d"

fun copy_cells :: "'a deque \<Rightarrow> nat list \<Rightarrow> 'a option list \<Rightarrow> 'a option list outcome" where
  "copy_cells d [] new_buf = Inr new_buf"
| "copy_cells d (i # is) new_buf =
     (if d_capacity d = 0 then Inl UB
      else andThen (read_cell (d_buffer d) ((d_front_index d + i) mod size_max mod d_capacity d)) (\<lambda>x.
           andThen (write_cell new_buf i x) (copy_cells d is)))"

definition deque_resize :: "nat \<Rightarrow> 'a deque \<Rightarrow> 'a deque outcome" where
  "deque_resize new_capacity d =
     andThen (copy_cells d [0..<d_count d] (replicate new_capacity None)) (\<lambda>new_buf.
       Inr (d\<lparr>d_front_index := 0, d_back_index := d_count d, d_buffer := new_buf,
              d_capacity := new_capacity\<rparr>))"

definition deque_push_front :: "'a \<Rightarrow> 'a deque \<Rightarrow> 'a deque outcome" where
  "deque_push_front x d =
     andThen (if d_front_index d = d_back_index d \<or> d_count d = d_capacity d
              then deque_resize (d_capacity d * 2 mod size_max) d else Inr d) (\<lambda>d.
       if d_capacity d = 0 then Inl UB
       else let f = pred_index (d_front_index d) (d_capacity d) in
         andThen (write_cell (d_buffer d) f x) (\<lambda>b.
           Inr (d\<lparr>d_front_index := f, d_buffer := b, d_count := (d_count d + 1) mod size_max\<rparr>)))"

definition deque_push_back :: "'a \<Rightarrow> 'a deque \<Rightarrow> 'a deque outcome" where
  "deque_push_back x d =
     andThen (if d_count d = d_capacity d
              then deque_resize (d_capacity d * 2 mod size_max) d else Inr d) (\<lambda>d.
         andThen (write_cell (d_buffer d) (d_back_index d) x) (\<lambda>b.
           if d_capacity d = 0 then Inl UB
           else Inr (d\<lparr>d_buffer := b, d_back_index := (d_back_index d + 1) mod size_max mod d_capacity d,
                       d_count := (d_count d + 1) mod size_max\<rparr>)))"

definition deque_pop_front :: "'a deque \<Rightarrow> 'a deque outcome" where
  "deque_pop_front d =
     (if deque_empty d then Inl OutOfRange
      else if d_capacity d = 0 then Inl UB
      else Inr (d\<lparr>d_front_index := (d_front_index d + 1) mod size_max mod d_capacity d,
                  d_count := d_count d - 1\<rparr>))"

definition deque_pop_back :: "'a deque \<Rightarrow> 'a deque outcome" where
  "deque_pop_back d =
     (if deque_empty d then Inl OutOfRange
      else if d_capacity d = 0 then Inl UB
      else Inr (d\<lparr>d_back_index := pred_index (d_back_index d) (d_capacity d),
                  d_count := d_count d - 1\<rparr>))"

definition deque_front :: "'a deque \<Rightarrow> 'a outcome" where
  "deque_front d =
     (if deque_empty d then Inl OutOfRange else read_cell (d_buffer d) (d_front_index d))"

definition deque_back :: "'a deque \<Rightarrow> 'a outcome" where
  "deque_back d =
     (if deque_empty d then Inl OutOfRange
      else if d_capacity d = 0 then Inl UB
      else read_cell (d_buffer d) (pred_index (d_back_index d) (d_capacity d)))"

text \<open>
  The iterator holds the deque and a position. \<open>operator*\<close> computes
  \<open>(_deque->front() + _pos) % _capacity\<close>: it adds the front \<^emph>\<open>element\<close> to the position, so
  it only exists for element types that convert to an index; they are \<open>nat\<close> here.
\<close>

definition deque_begin :: nat where
  "deque_begin = 0"

definition deque_end :: "'a deque \<Rightarrow> nat" where
  "deque_end d = d_count d"

definition iter_incr :: "nat \<Rightarrow> nat" where
  "iter_incr pos = (pos + 1) mod size_max"

definition iter_decr :: "nat \<Rightarrow> nat" where
  "iter_decr pos = (pos + (size_max - 1)) mod size_max"

definition iter_deref :: "nat deque \<Rightarrow> nat \<Rightarrow> nat outcome" where
  "iter_deref d pos =
     andThen (deque_front d) (\<lambda>v.
       if d_capacity d = 0 then Inl UB
       else read_cell (d_buffer d) ((v + pos) mod size_max mod d_capacity d))"

section \<open>Invariant and abstraction\<close>

definition deque_inv :: "'a deque \<Rightarrow> bool" where
  "deque_inv d \<longleftrightarrow>
     length (d_buffer d) = d_capacity d \<and> 0 < d_capacity d \<and> d_capacity d \<le> 2 ^ 63 \<and>
     d_count d \<le> d_capacity d \<and> d_front_index d < d_capacity d \<and>
     d_back_index d = (d_front_index d + d_count d) mod d_capacity d \<and>
     (\<forall>i < d_count d. d_buffer d ! ((d_front_index d + i) mod d_capacity d) \<noteq> None)"

definition contents :: "'a deque \<Rightarrow> 'a list" where
  "contents d = map (\<lambda>i. the (d_buffer d ! ((d_front_index d + i) mod d_capacity d))) [0..<d_count d]"

definition can_grow :: "'a deque \<Rightarrow> bool" where
  "can_grow d \<longleftrightarrow> d_capacity d * 2 \<le> 2 ^ 63"

section \<open>Index arithmetic\<close>

lemma add_mod_inj:
  assumes "(a + i) mod n = (a + j) mod n" "i < n" "j < (n::nat)"
  shows "i = j"
proof -
  have "(int a + int i) mod int n = (int a + int j) mod int n"
    using assms(1) by (metis of_nat_add zmod_int)
  then have "(int a + int i - int a) mod int n = (int a + int j - int a) mod int n"
    by (rule mod_diff_cong) simp
  then show ?thesis using assms by simp
qed

lemma pred_index_eq:
  assumes "i < cap" "cap \<le> 2 ^ 63"
  shows "pred_index i cap = (i + (cap - 1)) mod cap"
proof (cases i)
  case 0
  have "size_max - 1 + cap = (cap - 1) + size_max" using assms by simp
  then have "(size_max - 1 + cap) mod size_max = (cap - 1) mod size_max"
    by (metis mod_add_self2)
  also have "\<dots> = cap - 1" using assms by simp
  finally show ?thesis using 0 assms by (simp add: pred_index_def)
next
  case (Suc j)
  have "(i + (size_max - 1)) mod size_max = (j + size_max) mod size_max"
    using Suc by simp
  also have "\<dots> = j" using Suc assms by simp
  finally show ?thesis using Suc assms by (simp add: pred_index_def)
qed

lemma pred_index_less: "i < cap \<Longrightarrow> cap \<le> 2 ^ 63 \<Longrightarrow> pred_index i cap < cap"
  by (simp add: pred_index_eq)

lemma pred_index_add:
  assumes "i < cap" "cap \<le> 2 ^ 63"
  shows "(pred_index i cap + Suc j) mod cap = (i + j) mod cap"
proof -
  have "(pred_index i cap + Suc j) mod cap = (i + (cap - 1) + Suc j) mod cap"
    unfolding pred_index_eq [OF assms] by (rule mod_add_left_eq)
  also have "i + (cap - 1) + Suc j = i + j + cap" using assms by simp
  finally show ?thesis by simp
qed

lemmas cell_defs = read_cell_def write_cell_def

section \<open>The operations refine list operations\<close>

lemma deque_inv_new: "0 < cap \<Longrightarrow> cap \<le> 2 ^ 63 \<Longrightarrow> deque_inv (deque_new cap)"
  by (simp add: deque_inv_def deque_new_def)

lemma contents_new: "contents (deque_new cap) = []"
  by (simp add: contents_def deque_new_def)

lemma length_contents: "length (contents d) = d_count d"
  by (simp add: contents_def)

lemma contents_nth:
  "i < d_count d \<Longrightarrow> contents d ! i = the (d_buffer d ! ((d_front_index d + i) mod d_capacity d))"
  by (simp add: contents_def)

lemma contents_empty_iff: "contents d = [] \<longleftrightarrow> d_count d = 0"
  by (simp add: contents_def)

lemma fold_fill:
  "m \<le> n \<Longrightarrow> fold (\<lambda>i b. b[i := Some (f i)]) [0..<m] (replicate n None) =
     map (\<lambda>i. Some (f i)) [0..<m] @ replicate (n - m) None"
proof (induction m)
  case 0
  then show ?case by simp
next
  case (Suc m)
  then have "replicate (n - m) None = None # replicate (n - Suc m) (None :: 'a option)"
    by (metis Suc_diff_le diff_Suc_Suc replicate_Suc)
  with Suc show ?case by (simp add: list_update_append)
qed

lemma copy_cells_fold:
  assumes "deque_inv d" "\<forall>i\<in>set is. i < d_count d \<and> i < length buf"
  shows "copy_cells d is buf = Inr (fold (\<lambda>i b. b[i := Some (contents d ! i)]) is buf)"
  using assms(2)
proof (induction "is" arbitrary: buf)
  case Nil
  then show ?case by simp
next
  case (Cons i "is")
  then have i: "i < d_count d" "i < length buf" by auto
  have small: "d_front_index d + i < size_max"
    using assms(1) i by (simp add: deque_inv_def)
  have "(d_front_index d + i) mod d_capacity d < d_capacity d"
    using assms(1) by (simp add: deque_inv_def)
  then have "read_cell (d_buffer d) ((d_front_index d + i) mod d_capacity d) = Inr (contents d ! i)"
    using assms(1) i by (auto simp: deque_inv_def contents_def read_cell_def)
  with Cons i small show ?case
    using assms(1) by (simp add: write_cell_def deque_inv_def)
qed

lemma deque_resize_ok:
  assumes "deque_inv d" "d_count d < n" "n \<le> 2 ^ 63"
  shows "\<exists>d'. deque_resize n d = Inr d' \<and> deque_inv d' \<and> contents d' = contents d \<and>
    d_count d' = d_count d \<and> d_capacity d' = n"
proof -
  let ?buf = "map (\<lambda>i. Some (contents d ! i)) [0..<d_count d] @ replicate (n - d_count d) None"
  let ?d = "d\<lparr>d_front_index := 0, d_back_index := d_count d, d_buffer := ?buf, d_capacity := n\<rparr>"
  have "copy_cells d [0..<d_count d] (replicate n None) = Inr ?buf"
    using assms fold_fill [of "d_count d" n "\<lambda>i. contents d ! i"]
    by (simp add: copy_cells_fold)
  then have "deque_resize n d = Inr ?d" by (simp add: deque_resize_def)
  moreover have "deque_inv ?d"
    using assms by (auto simp: deque_inv_def nth_append)
  moreover have "contents ?d = contents d"
    using assms by (auto simp: contents_def nth_append intro!: nth_equalityI)
  ultimately show ?thesis by simp
qed

lemma push_front_core:
  assumes "deque_inv d" "d_count d < d_capacity d"
  shows "\<exists>d'. andThen (write_cell (d_buffer d) (pred_index (d_front_index d) (d_capacity d)) x) (\<lambda>b.
      Inr (d\<lparr>d_front_index := pred_index (d_front_index d) (d_capacity d), d_buffer := b,
             d_count := (d_count d + 1) mod size_max\<rparr>)) = Inr d' \<and>
    deque_inv d' \<and> contents d' = x # contents d \<and> d_capacity d' = d_capacity d"
proof -
  let ?f = "pred_index (d_front_index d) (d_capacity d)"
  let ?cap = "d_capacity d"
  let ?d = "d\<lparr>d_front_index := ?f, d_buffer := (d_buffer d)[?f := Some x], d_count := Suc (d_count d)\<rparr>"
  have inv: "length (d_buffer d) = ?cap" "0 < ?cap" "?cap \<le> 2 ^ 63" "d_front_index d < ?cap"
    "d_back_index d = (d_front_index d + d_count d) mod ?cap"
    using assms(1) by (auto simp: deque_inv_def)
  have f: "?f < ?cap" using inv by (simp add: pred_index_less)
  have shift: "(?f + Suc i) mod ?cap = (d_front_index d + i) mod ?cap" for i
    using inv by (simp only: pred_index_add)
  have other: "(d_front_index d + i) mod ?cap \<noteq> ?f" if "i < d_count d" for i
  proof
    assume "(d_front_index d + i) mod ?cap = ?f"
    then have eq: "(d_front_index d + i) mod ?cap = (d_front_index d + (?cap - 1)) mod ?cap"
      by (simp only: pred_index_eq [OF inv(4) inv(3)])
    have "i < ?cap" "?cap - 1 < ?cap" using that assms(2) inv(2) by linarith+
    with add_mod_inj [OF eq] have "i = ?cap - 1" by blast
    with that assms(2) show False by linarith
  qed
  have "d_buffer ?d ! ((?f + i) mod ?cap) \<noteq> None" if "i < Suc (d_count d)" for i
  proof (cases i)
    case 0
    then show ?thesis using f inv by simp
  next
    case (Suc j)
    then show ?thesis
      using that other [of j] assms(1) shift [of j] by (auto simp: deque_inv_def)
  qed
  then have "deque_inv ?d"
    using inv f assms shift [of "d_count d"] by (auto simp: deque_inv_def)
  moreover have "contents ?d = x # contents d"
  proof -
    have "[0..<Suc (d_count d)] = 0 # map Suc [0..<d_count d]"
      by (simp add: map_Suc_upt upt_conv_Cons)
    then show ?thesis
      using f inv other [symmetric] shift by (simp add: contents_def del: upt_Suc)
  qed
  moreover have "Suc (d_count d) mod size_max = Suc (d_count d)" using assms inv by simp
  ultimately show ?thesis using f inv by (simp add: write_cell_def)
qed

lemma push_back_core:
  assumes "deque_inv d" "d_count d < d_capacity d"
  shows "\<exists>d'. andThen (write_cell (d_buffer d) (d_back_index d) x) (\<lambda>b.
      if d_capacity d = 0 then Inl UB
      else Inr (d\<lparr>d_buffer := b, d_back_index := (d_back_index d + 1) mod size_max mod d_capacity d,
             d_count := (d_count d + 1) mod size_max\<rparr>)) = Inr d' \<and>
    deque_inv d' \<and> contents d' = contents d @ [x]"
proof -
  let ?cap = "d_capacity d"
  let ?b = "d_back_index d"
  let ?d = "d\<lparr>d_buffer := (d_buffer d)[?b := Some x], d_back_index := (?b + 1) mod ?cap,
    d_count := Suc (d_count d)\<rparr>"
  have inv: "length (d_buffer d) = ?cap" "0 < ?cap" "?cap \<le> 2 ^ 63" "d_front_index d < ?cap"
    "?b = (d_front_index d + d_count d) mod ?cap"
    using assms(1) by (auto simp: deque_inv_def)
  have b: "?b < ?cap" using inv by simp
  have other: "(d_front_index d + i) mod ?cap \<noteq> ?b" if "i < d_count d" for i
    using that assms inv add_mod_inj [of "d_front_index d" i ?cap "d_count d"] by auto
  have "d_buffer ?d ! ((d_front_index d + i) mod ?cap) \<noteq> None" if "i < Suc (d_count d)" for i
    using that other [of i] assms(1) b inv by (cases "i = d_count d") (auto simp: deque_inv_def)
  then have "deque_inv ?d"
    using inv b assms by (auto simp: deque_inv_def mod_simps)
  moreover have "contents ?d = contents d @ [x]"
    using inv b other [symmetric] by (simp add: contents_def)
  moreover have "Suc (d_count d) < size_max" "Suc ?b < size_max"
    using assms(2) inv(3) b by simp_all
  ultimately show ?thesis using b inv by (simp add: write_cell_def)
qed

lemma deque_push_front_ok:
  assumes "deque_inv d" "can_grow d"
  shows "\<exists>d'. deque_push_front x d = Inr d' \<and> deque_inv d' \<and> contents d' = x # contents d \<and>
    d_capacity d' = (if d_front_index d = d_back_index d \<or> d_count d = d_capacity d
                     then 2 * d_capacity d else d_capacity d)"
proof (cases "d_front_index d = d_back_index d \<or> d_count d = d_capacity d")
  case True
  have grow: "d_count d < d_capacity d * 2" "d_capacity d * 2 \<le> 2 ^ 63"
    using assms by (auto simp: deque_inv_def can_grow_def)
  from deque_resize_ok [OF assms(1) grow] obtain d1 where
    d1: "deque_resize (d_capacity d * 2) d = Inr d1" "deque_inv d1" "contents d1 = contents d"
      "d_count d1 = d_count d" "d_capacity d1 = d_capacity d * 2" by blast
  moreover have "d_capacity d * 2 mod size_max = d_capacity d * 2" using grow by simp
  ultimately show ?thesis
    using True push_front_core [OF d1(2), of x] grow
    by (auto simp: deque_push_front_def Let_def)
next
  case False
  then have "d_count d < d_capacity d" using assms by (auto simp: deque_inv_def)
  with False push_front_core [OF assms(1), of x] show ?thesis
    by (auto simp: deque_push_front_def Let_def)
qed

lemma deque_push_back_ok:
  assumes "deque_inv d" "can_grow d"
  shows "\<exists>d'. deque_push_back x d = Inr d' \<and> deque_inv d' \<and> contents d' = contents d @ [x]"
proof (cases "d_count d = d_capacity d")
  case True
  have grow: "d_count d < d_capacity d * 2" "d_capacity d * 2 \<le> 2 ^ 63"
    using assms by (auto simp: deque_inv_def can_grow_def)
  from deque_resize_ok [OF assms(1) grow] obtain d1 where
    d1: "deque_resize (d_capacity d * 2) d = Inr d1" "deque_inv d1" "contents d1 = contents d"
      "d_count d1 = d_count d" "d_capacity d1 = d_capacity d * 2" by blast
  moreover have "d_capacity d * 2 mod size_max = d_capacity d * 2" using grow by simp
  ultimately show ?thesis
    using True push_back_core [OF d1(2), of x] grow by (auto simp: deque_push_back_def)
next
  case False
  then have "d_count d < d_capacity d" using assms by (auto simp: deque_inv_def)
  with False push_back_core [OF assms(1), of x] show ?thesis
    by (auto simp: deque_push_back_def)
qed

lemma deque_pop_front_ok:
  assumes "deque_inv d" "contents d \<noteq> []"
  shows "\<exists>d'. deque_pop_front d = Inr d' \<and> deque_inv d' \<and> contents d' = tl (contents d) \<and>
    d_capacity d' = d_capacity d"
proof -
  let ?cap = "d_capacity d"
  obtain m where m: "d_count d = Suc m" using assms(2) by (cases "d_count d") (auto simp: contents_def)
  let ?d = "d\<lparr>d_front_index := Suc (d_front_index d) mod ?cap, d_count := m\<rparr>"
  have small: "Suc (d_front_index d) mod size_max = Suc (d_front_index d)"
    using assms(1) by (simp add: deque_inv_def)
  have shift: "(Suc (d_front_index d) mod ?cap + i) mod ?cap = (d_front_index d + Suc i) mod ?cap" for i
    by (simp add: mod_simps)
  have "deque_inv ?d"
    using assms(1) m shift unfolding deque_inv_def by (auto simp: Suc_less_eq)
  moreover have "contents ?d = tl (contents d)"
    using m shift by (simp add: contents_def map_tl [symmetric] tl_upt map_Suc_upt [symmetric] del: upt_Suc)
  ultimately show ?thesis
    using assms(1) m small by (simp add: deque_pop_front_def deque_empty_def deque_inv_def)
qed

lemma back_index_pred:
  assumes "deque_inv d" "d_count d = Suc m"
  shows "pred_index (d_back_index d) (d_capacity d) = (d_front_index d + m) mod d_capacity d"
proof -
  let ?cap = "d_capacity d"
  have b: "d_back_index d = (d_front_index d + Suc m) mod ?cap" "0 < ?cap" "?cap \<le> 2 ^ 63"
    using assms by (auto simp: deque_inv_def)
  then have "pred_index (d_back_index d) ?cap = ((d_front_index d + Suc m) mod ?cap + (?cap - 1)) mod ?cap"
    by (simp add: pred_index_eq)
  also have "\<dots> = (d_front_index d + Suc m + (?cap - 1)) mod ?cap" by (rule mod_add_left_eq)
  also have "d_front_index d + Suc m + (?cap - 1) = d_front_index d + m + ?cap" using b by simp
  finally show ?thesis by simp
qed

lemma deque_pop_back_ok:
  assumes "deque_inv d" "contents d \<noteq> []"
  shows "\<exists>d'. deque_pop_back d = Inr d' \<and> deque_inv d' \<and> contents d' = butlast (contents d)"
proof -
  obtain m where m: "d_count d = Suc m" using assms(2) by (cases "d_count d") (auto simp: contents_def)
  let ?d = "d\<lparr>d_back_index := (d_front_index d + m) mod d_capacity d, d_count := m\<rparr>"
  have "deque_inv ?d" using assms(1) m by (auto simp: deque_inv_def)
  moreover have "contents ?d = butlast (contents d)"
    using m by (simp add: contents_def)
  ultimately show ?thesis
    using assms(1) m back_index_pred [OF assms(1) m]
    by (simp add: deque_pop_back_def deque_empty_def deque_inv_def)
qed

lemma deque_front_ok:
  assumes "deque_inv d" "contents d \<noteq> []"
  shows "deque_front d = Inr (hd (contents d))"
proof -
  have pos: "0 < d_count d" using assms(2) by (simp add: contents_empty_iff)
  then have hd: "hd (contents d) = the (d_buffer d ! d_front_index d)"
    using assms(1) by (simp add: hd_conv_nth [OF assms(2)] contents_nth deque_inv_def)
  have "d_buffer d ! d_front_index d \<noteq> None" "d_front_index d < length (d_buffer d)"
    using assms(1) pos by (auto simp: deque_inv_def dest: spec [of _ 0])
  with pos hd show ?thesis
    by (auto simp: deque_front_def deque_empty_def read_cell_def)
qed

lemma deque_back_ok:
  assumes "deque_inv d" "contents d \<noteq> []"
  shows "deque_back d = Inr (last (contents d))"
proof -
  obtain m where m: "d_count d = Suc m" using assms(2) by (cases "d_count d") (auto simp: contents_def)
  moreover have "last (contents d) = the (d_buffer d ! ((d_front_index d + m) mod d_capacity d))"
    using m by (simp add: contents_def)
  ultimately show ?thesis
    using assms(1) back_index_pred [OF assms(1) m]
    by (auto simp: deque_back_def deque_empty_def read_cell_def deque_inv_def split: option.splits)
qed

interpretation ring: checked_two_ended contents deque_inv can_grow deque_push_front deque_push_back
  deque_pop_front deque_pop_back deque_front deque_back
proof
  fix d :: "'a deque" and x
  show "deque_inv d \<Longrightarrow> can_grow d \<Longrightarrow>
      \<exists>d'. deque_push_front x d = Inr d' \<and> deque_inv d' \<and> contents d' = x # contents d"
    using deque_push_front_ok [of d x] by blast
  show "deque_inv d \<Longrightarrow> contents d \<noteq> [] \<Longrightarrow>
      \<exists>d'. deque_pop_front d = Inr d' \<and> deque_inv d' \<and> contents d' = tl (contents d)"
    using deque_pop_front_ok [of d] by blast
  show "deque_inv d \<Longrightarrow> contents d = [] \<Longrightarrow> deque_pop_front d = Inl OutOfRange"
    "deque_inv d \<Longrightarrow> contents d = [] \<Longrightarrow> deque_pop_back d = Inl OutOfRange"
    "deque_inv d \<Longrightarrow> contents d = [] \<Longrightarrow> deque_front d = Inl OutOfRange"
    "deque_inv d \<Longrightarrow> contents d = [] \<Longrightarrow> deque_back d = Inl OutOfRange"
    by (simp_all add: deque_pop_front_def deque_pop_back_def deque_front_def deque_back_def
        deque_empty_def contents_empty_iff)
qed (fact deque_push_back_ok deque_pop_back_ok deque_front_ok deque_back_ok)+

section \<open>Properties\<close>

text \<open>A queue of \<open>n\<close> rounds of \<open>push_front\<close> followed by \<open>pop_front\<close>.\<close>

fun churn :: "nat \<Rightarrow> 'a \<Rightarrow> 'a deque \<Rightarrow> 'a deque outcome" where
  "churn 0 x d = Inr d"
| "churn (Suc n) x d = andThen (deque_push_front x d) (\<lambda>d. andThen (deque_pop_front d) (churn n x))"

lemma churn_capacity:
  assumes "deque_inv d" "contents d = []" "2 ^ n * d_capacity d \<le> 2 ^ 63"
  shows "\<exists>d'. churn n x d = Inr d' \<and> contents d' = [] \<and> d_capacity d' = 2 ^ n * d_capacity d"
  using assms
proof (induction n arbitrary: d)
  case 0
  then show ?case by simp
next
  case (Suc n)
  have "d_capacity d * 2 \<le> 2 ^ Suc n * d_capacity d" by simp
  also have "\<dots> \<le> 2 ^ 63" using Suc.prems(3) .
  finally have grow: "can_grow d" unfolding can_grow_def .
  have "d_front_index d = d_back_index d"
    using Suc.prems by (auto simp: deque_inv_def contents_empty_iff)
  with deque_push_front_ok [OF Suc.prems(1) grow, of x] Suc.prems(2) obtain d1 where
    d1: "deque_push_front x d = Inr d1" "deque_inv d1" "contents d1 = [x]" "d_capacity d1 = 2 * d_capacity d"
    by auto
  then obtain d2 where
    d2: "deque_pop_front d1 = Inr d2" "deque_inv d2" "contents d2 = []" "d_capacity d2 = 2 * d_capacity d"
    using deque_pop_front_ok [OF d1(2)] by auto
  with Suc.IH [OF d2(2,3)] Suc.prems(3) d1(1) show ?case
    by (auto simp: algebra_simps)
qed

text \<open>C6: the deque implements a double-ended list: in every state that satisfies the invariant
  and whose capacity can still be doubled, \<open>push_front\<close> and \<open>push_back\<close> return normally (with
  and without growing), keep the invariant, and add exactly the one element at their end.\<close>

theorem deque_push_correct:
  assumes "deque_inv d" "can_grow d"
  shows "(\<exists>d'. deque_push_front x d = Inr d' \<and> deque_inv d' \<and> contents d' = x # contents d) \<and>
         (\<exists>d'. deque_push_back x d = Inr d' \<and> deque_inv d' \<and> contents d' = contents d @ [x])"
  using ring.push_front_ok [OF assms] ring.push_back_ok [OF assms] by blast

theorem deque_push_correct_witness:
  "(\<exists>d'. deque_push_front (7::int) (deque_new 1) = Inr d' \<and> deque_inv d' \<and> contents d' = [7]) \<and>
   (\<exists>d'. deque_push_back (7::int) (deque_new 1) = Inr d' \<and> deque_inv d' \<and> contents d' = [7])"
proof -
  have "can_grow (deque_new 1)" by (simp add: can_grow_def deque_new_def)
  with deque_push_correct [OF deque_inv_new, of 1 "7::int"] show ?thesis
    by (simp add: contents_new)
qed

text \<open>the removing and reading members: on a non-empty deque they return the first or last
  element or drop it, on an empty one they throw \<open>std::out_of_range\<close>; they never touch memory
  outside the buffer or an unwritten cell.\<close>

theorem deque_pop_correct:
  assumes "deque_inv d"
  shows "case contents d of
      [] \<Rightarrow> deque_pop_front d = Inl OutOfRange \<and> deque_pop_back d = Inl OutOfRange \<and>
            deque_front d = Inl OutOfRange \<and> deque_back d = Inl OutOfRange
    | x # xs \<Rightarrow> deque_front d = Inr x \<and> deque_back d = Inr (last (x # xs)) \<and>
        (\<exists>d'. deque_pop_front d = Inr d' \<and> deque_inv d' \<and> contents d' = xs) \<and>
        (\<exists>d'. deque_pop_back d = Inr d' \<and> deque_inv d' \<and> contents d' = butlast (x # xs))"
  using assms ring.pop_front_empty [OF assms] ring.pop_back_empty [OF assms] ring.front_empty [OF assms]
    ring.back_empty [OF assms] ring.front_ok [OF assms] ring.back_ok [OF assms]
    ring.pop_front_ok [OF assms] ring.pop_back_ok [OF assms]
  by (cases "contents d") (simp_all del: last.simps butlast.simps)

theorem deque_pop_correct_witness:
  "deque_pop_front (deque_new 10 :: int deque) = Inl OutOfRange"
  using deque_pop_correct [OF deque_inv_new [of 10], where ?'a = int] by (simp add: contents_new)

text \<open>\<open>push_front\<close> doubles the capacity of an empty deque even though there is room: after
  \<open>n\<close> rounds of pushing one element to the front and popping it again, the still empty deque
  has \<open>2 ^ n\<close> times its initial capacity.\<close>

theorem deque_churn_doubles_capacity:
  assumes "0 < cap" "2 ^ n * cap \<le> 2 ^ 63"
  shows "\<exists>d. churn n x (deque_new cap) = Inr d \<and> contents d = [] \<and> d_capacity d = 2 ^ n * cap"
proof -
  have "cap \<le> 2 ^ n * cap" by simp
  with assms have "cap \<le> 2 ^ 63" by linarith
  with churn_capacity [of "deque_new cap" n x] assms show ?thesis
    by (simp add: deque_inv_new contents_new) (simp add: deque_new_def)
qed

theorem deque_churn_doubles_capacity_witness:
  "\<exists>d. churn 20 (0::int) (deque_new 10) = Inr d \<and> contents d = [] \<and> d_capacity d = 10485760"
  using deque_churn_doubles_capacity [of 10 20 "0::int"] by simp

text \<open>the iterator does not read the deque: in a deque whose two elements are 1 and 0,
  dereferencing \<open>begin()\<close> yields 0, not the front element 1, and dereferencing the next
  position reads a cell that was never written.\<close>

theorem deque_iterator_wrong:
  "\<exists>d. andThen (deque_push_back 1 (deque_new 10)) (deque_push_back 0) = Inr d \<and>
     contents d = [1, 0] \<and> iter_deref d deque_begin = Inr 0 \<and> iter_deref d (iter_incr deque_begin) = Inl UB"
  by (simp add: deque_push_back_def deque_new_def write_cell_def iter_deref_def deque_front_def
      deque_empty_def read_cell_def deque_begin_def iter_incr_def contents_def upt_rec)

end
