(* ===== verification/Hash_Map.thy ===== *)
theory Hash_Map
  imports Interfaces Complex_Main "HOL-Library.Multiset"
begin

text \<open>
  The chained hash map \<open>sen_std::unordered_map\<close> of
  src/cplusplus/basement/base\_code/src/base\_stl/umap\_demo.h. A bucket is the list of the
  (key, value) pairs of its chain, first node first. The hash functor is a parameter; the
  \<open>double\<close> load factors are exact reals; element and bucket counts stay far below the range
  of \<open>size_t\<close>, so they are natural numbers. \<open>None\<close> is undefined behaviour (a modulus by a
  zero bucket count, an index outside the bucket vector).
\<close>

section \<open>The code\<close>

type_synonym ('k, 'v) chain = "('k \<times> 'v) list"

record ('k, 'v) umap =
  u_buckets :: "('k, 'v) chain list"
  u_bucket_count :: nat
  u_elem_count :: nat
  u_max_load_factor :: real

definition MIN_BUCKETS :: nat where
  "MIN_BUCKETS = 8"

definition umap_new :: "nat \<Rightarrow> real \<Rightarrow> ('k, 'v) umap" where
  "umap_new init_capacity max_load_factor =
     \<lparr>u_buckets = replicate init_capacity [], u_bucket_count = init_capacity, u_elem_count = 0,
      u_max_load_factor = max_load_factor\<rparr>"

text \<open>The chain and its index for a key, as \<open>insert\<close>, \<open>find\<close> and \<open>erase\<close> all compute them.\<close>

definition bucket_of :: "('k \<Rightarrow> nat) \<Rightarrow> 'k \<Rightarrow> ('k, 'v) umap \<Rightarrow> (nat \<times> ('k, 'v) chain) option" where
  "bucket_of hash key m =
     (if u_bucket_count m = 0 then None
      else let idx = hash key mod u_bucket_count m in
        if idx < length (u_buckets m) then Some (idx, u_buckets m ! idx) else None)"

text \<open>The search loop of \<open>insert\<close>: overwrite the value of the first node with the key.\<close>

fun chain_assign :: "'k \<Rightarrow> 'v \<Rightarrow> ('k, 'v) chain \<Rightarrow> ('k, 'v) chain option" where
  "chain_assign key val [] = None"
| "chain_assign key val ((k, v) # c) =
     (if k = key then Some ((k, val) # c) else map_option ((#) (k, v)) (chain_assign key val c))"

text \<open>The search loop of \<open>erase\<close>: unlink the first node with the key.\<close>

fun chain_unlink :: "'k \<Rightarrow> ('k, 'v) chain \<Rightarrow> ('k, 'v) chain option" where
  "chain_unlink key [] = None"
| "chain_unlink key ((k, v) # c) =
     (if k = key then Some c else map_option ((#) (k, v)) (chain_unlink key c))"

fun chain_find :: "'k \<Rightarrow> ('k, 'v) chain \<Rightarrow> 'v option" where
  "chain_find key [] = None"
| "chain_find key ((k, v) # c) = (if k = key then Some v else chain_find key c)"

definition relink :: "('k \<Rightarrow> nat) \<Rightarrow> nat \<Rightarrow> 'k \<times> 'v \<Rightarrow> ('k, 'v) chain list \<Rightarrow> ('k, 'v) chain list" where
  "relink hash n node new_buckets =
     (let new_idx = hash (fst node) mod n in new_buckets[new_idx := node # new_buckets ! new_idx])"

definition rehash :: "('k \<Rightarrow> nat) \<Rightarrow> nat \<Rightarrow> ('k, 'v) umap \<Rightarrow> ('k, 'v) umap" where
  "rehash hash n m =
     (if n = 0 \<or> n = u_bucket_count m then m
      else m\<lparr>u_buckets := fold (\<lambda>chain. fold (relink hash n) chain) (u_buckets m) (replicate n []),
             u_bucket_count := n\<rparr>)"

definition umap_insert :: "('k \<Rightarrow> nat) \<Rightarrow> 'k \<Rightarrow> 'v \<Rightarrow> ('k, 'v) umap \<Rightarrow> ('k, 'v) umap option" where
  "umap_insert hash key val m =
     do { (idx, chain) \<leftarrow> bucket_of hash key m;
          (case chain_assign key val chain of
             Some chain' \<Rightarrow> Some (m\<lparr>u_buckets := (u_buckets m)[idx := chain']\<rparr>)
           | None \<Rightarrow>
               let m = m\<lparr>u_buckets := (u_buckets m)[idx := (key, val) # chain],
                         u_elem_count := u_elem_count m + 1\<rparr>;
                   load_factor = real (u_elem_count m) / real (u_bucket_count m)
               in Some (if load_factor > u_max_load_factor m then rehash hash (u_bucket_count m * 2) m
                        else m)) }"

definition umap_find :: "('k \<Rightarrow> nat) \<Rightarrow> 'k \<Rightarrow> ('k, 'v) umap \<Rightarrow> 'v option option" where
  "umap_find hash key m =
     do { (idx, chain) \<leftarrow> bucket_of hash key m; Some (chain_find key chain) }"

definition umap_erase :: "('k \<Rightarrow> nat) \<Rightarrow> 'k \<Rightarrow> ('k, 'v) umap \<Rightarrow> (bool \<times> ('k, 'v) umap) option" where
  "umap_erase hash key m =
     do { (idx, chain) \<leftarrow> bucket_of hash key m;
          (case chain_unlink key chain of
             None \<Rightarrow> Some (False, m)
           | Some chain' \<Rightarrow>
               let m = m\<lparr>u_buckets := (u_buckets m)[idx := chain'], u_elem_count := u_elem_count m - 1\<rparr> in
               if u_elem_count m > 0 then
                 let load_factor = real (u_elem_count m) / real (u_bucket_count m);
                     new_count = max (u_bucket_count m div 2) MIN_BUCKETS
                 in Some (True, if load_factor < u_max_load_factor m / 4 \<and> new_count < u_bucket_count m
                                then rehash hash new_count m else m)
               else Some (True, m)) }"

definition umap_size :: "('k, 'v) umap \<Rightarrow> nat" where
  "umap_size m = u_elem_count m"

definition umap_empty :: "('k, 'v) umap \<Rightarrow> bool" where
  "umap_empty m \<longleftrightarrow> u_elem_count m = 0"

definition umap_clear :: "('k \<Rightarrow> nat) \<Rightarrow> ('k, 'v) umap \<Rightarrow> ('k, 'v) umap" where
  "umap_clear hash m =
     (let m = m\<lparr>u_buckets := map (\<lambda>_. []) (u_buckets m), u_elem_count := 0\<rparr> in
      if u_bucket_count m > MIN_BUCKETS then rehash hash MIN_BUCKETS m else m)"

text \<open>
  The iterator: a bucket index and the rest of that bucket's chain from the current node
  (\<open>[]\<close> is a null \<open>_curr\<close>). \<open>advance_loop\<close> is the while loop of \<open>advance\<close>.
\<close>

type_synonym ('k, 'v) uiter = "nat \<times> ('k, 'v) chain"

function advance_loop :: "('k, 'v) umap \<Rightarrow> ('k, 'v) uiter \<Rightarrow> ('k, 'v) uiter" where
  "advance_loop m (i, cur) =
     (if i + 1 < u_bucket_count m \<and> cur = [] then advance_loop m (i + 1, u_buckets m ! (i + 1))
      else (i, cur))"
  by pat_completeness auto
termination
  by (relation "measure (\<lambda>(m, i, cur). u_bucket_count m - i)") auto

definition advance :: "('k, 'v) umap \<Rightarrow> ('k, 'v) uiter \<Rightarrow> ('k, 'v) uiter" where
  "advance m it =
     (let (i, cur) = advance_loop m (fst it, tl (snd it))
      in (if cur = [] then u_bucket_count m else i, cur))"

definition umap_end :: "('k, 'v) umap \<Rightarrow> ('k, 'v) uiter" where
  "umap_end m = (u_bucket_count m, [])"

definition umap_begin :: "('k, 'v) umap \<Rightarrow> ('k, 'v) uiter" where
  "umap_begin m =
     (case filter (\<lambda>i. u_buckets m ! i \<noteq> []) [0..<u_bucket_count m] of
        [] \<Rightarrow> umap_end m | i # _ \<Rightarrow> (i, u_buckets m ! i))"

definition iter_get :: "('k, 'v) uiter \<Rightarrow> ('k \<times> 'v) outcome" where
  "iter_get it = (case snd it of [] \<Rightarrow> Inl OutOfRange | p # _ \<Rightarrow> Inr p)"

text \<open>A range-for loop over the map, with a bound on the number of iterations.\<close>

fun iterate :: "nat \<Rightarrow> ('k, 'v) umap \<Rightarrow> ('k, 'v) uiter \<Rightarrow> ('k \<times> 'v) list option" where
  "iterate 0 m it = (if it = umap_end m then Some [] else None)"
| "iterate (Suc fuel) m it =
     (if it = umap_end m then Some []
      else (case iter_get it of Inl e \<Rightarrow> None
            | Inr p \<Rightarrow> map_option ((#) p) (iterate fuel m (advance m it))))"

section \<open>Invariant and abstraction\<close>

definition placed :: "('k \<Rightarrow> nat) \<Rightarrow> nat \<Rightarrow> ('k, 'v) chain list \<Rightarrow> bool" where
  "placed hash n bs \<longleftrightarrow> length bs = n \<and> (\<forall>i < n. \<forall>p \<in> set (bs ! i). hash (fst p) mod n = i)"

definition umap_inv :: "('k \<Rightarrow> nat) \<Rightarrow> ('k, 'v) umap \<Rightarrow> bool" where
  "umap_inv hash m \<longleftrightarrow>
     0 < u_bucket_count m \<and> placed hash (u_bucket_count m) (u_buckets m) \<and>
     distinct (map fst (concat (u_buckets m))) \<and> u_elem_count m = length (concat (u_buckets m))"

definition load_ok :: "('k, 'v) umap \<Rightarrow> bool" where
  "load_ok m \<longleftrightarrow> 1 \<le> u_max_load_factor m \<and> real (u_elem_count m) \<le> u_max_load_factor m * real (u_bucket_count m)"

definition entries :: "('k, 'v) umap \<Rightarrow> 'k \<Rightarrow> 'v option" where
  "entries m = map_of (concat (u_buckets m))"

section \<open>Chains\<close>

lemma chain_find_map_of: "chain_find key c = map_of c key"
  by (induction key c rule: chain_find.induct) auto

lemma chain_assign_None: "chain_assign key val c = None \<longleftrightarrow> key \<notin> fst ` set c"
  by (induction key val c rule: chain_assign.induct) auto

lemma chain_assign_Some:
  "chain_assign key val c = Some c' \<Longrightarrow>
     map fst c' = map fst c \<and> map_of c' = (map_of c)(key \<mapsto> val) \<and> key \<in> fst ` set c"
  by (induction key val c arbitrary: c' rule: chain_assign.induct)
    (auto simp: fun_upd_twist split: if_splits)

lemma chain_unlink_None: "chain_unlink key c = None \<longleftrightarrow> key \<notin> fst ` set c"
  by (induction key c rule: chain_unlink.induct) auto

lemma chain_unlink_Some:
  "chain_unlink key c = Some c' \<Longrightarrow> \<exists>xs v ys. c = xs @ (key, v) # ys \<and> c' = xs @ ys"
proof (induction key c arbitrary: c' rule: chain_unlink.induct)
  case (2 key k v c)
  show ?case
  proof (cases "k = key")
    case True
    with 2 show ?thesis by (auto intro!: exI [of _ "[]"])
  next
    case False
    with 2 obtain c1 where c1: "chain_unlink key c = Some c1" "c' = (k, v) # c1" by auto
    with 2(1) [OF False] obtain xs w ys where "c = xs @ (key, w) # ys" "c1 = xs @ ys" by blast
    with c1 show ?thesis by (auto intro!: exI [of _ "(k, v) # xs"])
  qed
qed simp

section \<open>Buckets\<close>

lemma concat_split:
  assumes "i < length bs"
  obtains A B where "concat bs = A @ bs ! i @ B" "\<And>c. concat (bs[i := c]) = A @ c @ B"
proof
  show "concat bs = concat (take i bs) @ bs ! i @ concat (drop (Suc i) bs)"
    using assms by (metis concat.simps(2) concat_append id_take_nth_drop)
  show "concat (bs[i := c]) = concat (take i bs) @ c @ concat (drop (Suc i) bs)" for c
    using assms by (simp add: upd_conv_take_nth_drop)
qed

lemma placed_mem:
  "placed hash n bs \<Longrightarrow> p \<in> set (concat bs) \<Longrightarrow> p \<in> set (bs ! (hash (fst p) mod n))"
proof -
  assume pl: "placed hash n bs" and "p \<in> set (concat bs)"
  then obtain i where i: "i < n" "p \<in> set (bs ! i)"
    unfolding placed_def set_concat by (metis UN_E in_set_conv_nth)
  with pl have "hash (fst p) mod n = i" by (simp add: placed_def)
  with i show ?thesis by simp
qed

lemma placed_update:
  assumes "placed hash n bs" "\<forall>p \<in> set c. hash (fst p) mod n = i"
  shows "placed hash n (bs[i := c])"
  unfolding placed_def
proof (intro conjI allI impI ballI)
  show "length (bs[i := c]) = n" using assms by (simp add: placed_def)
  fix j p assume "j < n" "p \<in> set (bs[i := c] ! j)"
  then show "hash (fst p) mod n = j"
    using assms by (cases "i = j") (auto simp: placed_def)
qed

lemma umap_inv_length: "umap_inv hash m \<Longrightarrow> length (u_buckets m) = u_bucket_count m"
  by (simp add: umap_inv_def placed_def)

lemma bucket_of_inv:
  assumes "umap_inv hash m"
  shows "bucket_of hash key m =
    Some (hash key mod u_bucket_count m, u_buckets m ! (hash key mod u_bucket_count m))"
  using assms umap_inv_length [OF assms] by (simp add: bucket_of_def umap_inv_def Let_def)

lemma bucket_lookup:
  assumes "umap_inv hash m"
  shows "map_of (u_buckets m ! (hash key mod u_bucket_count m)) key = entries m key"
proof -
  let ?i = "hash key mod u_bucket_count m"
  let ?bs = "u_buckets m"
  have i: "?i < length ?bs" using assms umap_inv_length [OF assms] by (simp add: umap_inv_def)
  have dist: "distinct (map fst (concat ?bs))" using assms by (simp add: umap_inv_def)
  show ?thesis
  proof (cases "map_of (?bs ! ?i) key")
    case None
    have "key \<notin> fst ` set (concat ?bs)"
    proof
      assume "key \<in> fst ` set (concat ?bs)"
      then obtain v where "(key, v) \<in> set (concat ?bs)" by (auto simp del: set_concat)
      with assms have "(key, v) \<in> set (?bs ! ?i)"
        using placed_mem [of hash "u_bucket_count m" ?bs "(key, v)"] by (simp add: umap_inv_def)
      with None show False by (force simp: map_of_eq_None_iff)
    qed
    then have "entries m key = None" unfolding entries_def map_of_eq_None_iff .
    with None show ?thesis by simp
  next
    case (Some v)
    then have "(key, v) \<in> set (?bs ! ?i)" by (rule map_of_SomeD)
    then have "(key, v) \<in> set (concat ?bs)" using i by auto
    with Some dist show ?thesis by (simp add: entries_def map_of_is_SomeI)
  qed
qed

section \<open>Rehashing\<close>

lemma relink_placed:
  assumes "placed hash n bs" "0 < n"
  shows "placed hash n (relink hash n p bs)"
  unfolding relink_def Let_def
  by (rule placed_update [OF assms(1)]) (use assms in \<open>auto simp: placed_def\<close>)

lemma relink_mset:
  assumes "length bs = n" "0 < n"
  shows "mset (concat (relink hash n p bs)) = add_mset p (mset (concat bs))"
proof -
  have "hash (fst p) mod n < length bs" using assms by simp
  then obtain A B where "concat bs = A @ bs ! (hash (fst p) mod n) @ B"
    "\<And>c. concat (bs[hash (fst p) mod n := c]) = A @ c @ B" by (rule concat_split) auto
  then show ?thesis by (simp add: relink_def Let_def)
qed

lemma relink_fold:
  assumes "placed hash n bs" "0 < n"
  shows "placed hash n (fold (relink hash n) ps bs) \<and>
    mset (concat (fold (relink hash n) ps bs)) = mset ps + mset (concat bs)"
  using assms
proof (induction ps arbitrary: bs)
  case (Cons p ps)
  have "length bs = n" using Cons.prems by (simp add: placed_def)
  with Cons relink_placed [OF Cons.prems] relink_mset [of bs n hash p] show ?case by simp
qed simp

lemma fold_fold_concat: "fold (\<lambda>c. fold f c) cs x = fold f (concat cs) x"
  by (induction cs arbitrary: x) auto

lemma placed_empty: "placed hash n (replicate n [])"
  by (simp add: placed_def)

lemma rehash_buckets:
  assumes "0 < n" "n \<noteq> u_bucket_count m"
  shows "placed hash n (u_buckets (rehash hash n m)) \<and>
    mset (concat (u_buckets (rehash hash n m))) = mset (concat (u_buckets m))"
  using relink_fold [OF placed_empty assms(1)] assms by (simp add: rehash_def fold_fold_concat)

lemma rehash_ok:
  assumes "umap_inv hash m" "0 < n"
  shows "umap_inv hash (rehash hash n m)" "entries (rehash hash n m) = entries m"
proof -
  show "umap_inv hash (rehash hash n m)"
  proof (cases "n = u_bucket_count m")
    case False
    from rehash_buckets [OF assms(2) False] have r: "placed hash n (u_buckets (rehash hash n m))"
      "mset (concat (u_buckets (rehash hash n m))) = mset (concat (u_buckets m))" by auto
    then have "mset (map fst (concat (u_buckets (rehash hash n m)))) = mset (map fst (concat (u_buckets m)))"
      by (metis mset_map)
    then have "distinct (map fst (concat (u_buckets (rehash hash n m))))"
      using assms(1) mset_eq_imp_distinct_iff unfolding umap_inv_def by blast
    moreover have "length (concat (u_buckets (rehash hash n m))) = length (concat (u_buckets m))"
      using r(2) by (metis size_mset)
    moreover have "u_bucket_count (rehash hash n m) = n" "u_elem_count (rehash hash n m) = u_elem_count m"
      using assms False by (auto simp: rehash_def)
    ultimately show ?thesis
      using assms r by (simp add: umap_inv_def)
  qed (use assms in \<open>simp add: rehash_def\<close>)
  then have d: "distinct (map fst (concat (u_buckets (rehash hash n m))))" by (simp add: umap_inv_def)
  show "entries (rehash hash n m) = entries m"
  proof (cases "n = u_bucket_count m")
    case False
    have "set (concat (u_buckets (rehash hash n m))) = set (concat (u_buckets m))"
      using rehash_buckets [OF assms(2) False, of hash] by (metis set_mset_mset)
    with d assms(1) show ?thesis
      by (simp add: entries_def umap_inv_def map_of_inject_set del: set_concat)
  qed (simp add: rehash_def)
qed

lemma rehash_fields:
  "u_elem_count (rehash hash n m) = u_elem_count m"
  "u_max_load_factor (rehash hash n m) = u_max_load_factor m"
  "u_bucket_count (rehash hash n m) = (if n = 0 then u_bucket_count m else n)"
  by (auto simp: rehash_def)

section \<open>The operations\<close>

text \<open>What storing a new chain under index \<open>i\<close> does to the whole table.\<close>

lemma store_chain:
  assumes "umap_inv hash m" "i < u_bucket_count m"
    and "\<forall>p \<in> set c. hash (fst p) mod u_bucket_count m = i"
    and "\<And>A B. concat (u_buckets m) = A @ u_buckets m ! i @ B \<Longrightarrow>
           distinct (map fst (A @ c @ B)) \<and> n = length (A @ c @ B) \<and> map_of (A @ c @ B) = f"
  shows "umap_inv hash (m\<lparr>u_buckets := (u_buckets m)[i := c], u_elem_count := n\<rparr>) \<and>
    entries (m\<lparr>u_buckets := (u_buckets m)[i := c], u_elem_count := n\<rparr>) = f"
proof -
  have "i < length (u_buckets m)" using assms umap_inv_length by metis
  then obtain A B where AB: "concat (u_buckets m) = A @ u_buckets m ! i @ B"
    "\<And>c. concat ((u_buckets m)[i := c]) = A @ c @ B" by (rule concat_split) auto
  have pl: "placed hash (u_bucket_count m) ((u_buckets m)[i := c])"
    using assms(1,3) by (intro placed_update) (simp_all add: umap_inv_def)
  show ?thesis
    using assms(1) pl assms(4) [OF AB(1)] AB(2) [of c] by (simp add: umap_inv_def entries_def)
qed

lemma chain_hash:
  assumes "umap_inv hash m" "p \<in> set (u_buckets m ! (hash key mod u_bucket_count m))"
  shows "hash (fst p) mod u_bucket_count m = hash key mod u_bucket_count m"
  using assms by (simp add: umap_inv_def placed_def)

lemma umap_insert_ok:
  assumes "umap_inv hash m"
  shows "\<exists>m'. umap_insert hash key val m = Some m' \<and> umap_inv hash m' \<and>
    entries m' = (entries m)(key \<mapsto> val) \<and> u_max_load_factor m' = u_max_load_factor m \<and>
    (load_ok m \<longrightarrow> load_ok m')"
proof -
  let ?i = "hash key mod u_bucket_count m"
  let ?c = "u_buckets m ! ?i"
  have i: "?i < u_bucket_count m" using assms by (simp add: umap_inv_def)
  have dist: "distinct (map fst (concat (u_buckets m)))" and
    len: "u_elem_count m = length (concat (u_buckets m))" using assms by (auto simp: umap_inv_def)
  show ?thesis
  proof (cases "chain_assign key val ?c")
    case (Some c')
    note c' = chain_assign_Some [OF Some]
    let ?m = "m\<lparr>u_buckets := (u_buckets m)[?i := c'], u_elem_count := u_elem_count m\<rparr>"
    have "\<forall>p \<in> set c'. hash (fst p) mod u_bucket_count m = ?i"
    proof
      fix p assume "p \<in> set c'"
      then have "fst p \<in> set (map fst ?c)" using c' by (metis image_eqI list.set_map)
      then obtain q where "q \<in> set ?c" "fst q = fst p" by auto
      with chain_hash [OF assms] show "hash (fst p) mod u_bucket_count m = ?i" by metis
    qed
    moreover have "distinct (map fst (A @ c' @ B)) \<and> u_elem_count m = length (A @ c' @ B) \<and>
        map_of (A @ c' @ B) = (entries m)(key \<mapsto> val)"
      if AB: "concat (u_buckets m) = A @ ?c @ B" for A B
    proof -
      have "key \<notin> fst ` set A" using c' dist AB by (auto simp: dest: bspec)
      then have "map_of A key = None" by (simp add: map_of_eq_None_iff)
      then have "map_of (A @ c' @ B) = (map_of (A @ ?c @ B))(key \<mapsto> val)"
        using c' by (auto simp: fun_eq_iff map_add_def split: option.splits)
      moreover have "length c' = length ?c" using c' by (metis length_map)
      ultimately show ?thesis
        using dist len AB c' by (simp add: entries_def)
    qed
    ultimately have "umap_inv hash ?m \<and> entries ?m = (entries m)(key \<mapsto> val)"
      by (intro store_chain [OF assms i]) auto
    then have "umap_inv hash ?m" "entries ?m = (entries m)(key \<mapsto> val)" by auto
    moreover have "?m = m\<lparr>u_buckets := (u_buckets m)[?i := c']\<rparr>" by simp
    ultimately show ?thesis
      using Some bucket_of_inv [OF assms, of key] by (simp add: umap_insert_def load_ok_def)
  next
    case None
    let ?m = "m\<lparr>u_buckets := (u_buckets m)[?i := (key, val) # ?c], u_elem_count := u_elem_count m + 1\<rparr>"
    have new: "key \<notin> fst ` set (concat (u_buckets m))"
      using bucket_lookup [OF assms, of key] None
      by (metis chain_assign_None entries_def map_of_eq_None_iff)
    have "\<forall>p \<in> set ((key, val) # ?c). hash (fst p) mod u_bucket_count m = ?i"
      using chain_hash [OF assms] by auto
    moreover have "distinct (map fst (A @ ((key, val) # ?c) @ B)) \<and>
        u_elem_count m + 1 = length (A @ ((key, val) # ?c) @ B) \<and>
        map_of (A @ ((key, val) # ?c) @ B) = (entries m)(key \<mapsto> val)"
      if AB: "concat (u_buckets m) = A @ ?c @ B" for A B
    proof -
      have "key \<notin> fst ` set A" using new AB by (simp add: AB image_Un del: set_concat)
      then have "map_of A key = None" by (simp add: map_of_eq_None_iff)
      then have "map_of (A @ ((key, val) # ?c) @ B) = (map_of (A @ ?c @ B))(key \<mapsto> val)"
        by (auto simp: fun_eq_iff map_add_def split: option.splits)
      then show ?thesis
        using dist len new unfolding AB by (auto simp: entries_def AB)
    qed
    ultimately have "umap_inv hash ?m \<and> entries ?m = (entries m)(key \<mapsto> val)"
      by (intro store_chain [OF assms i]) auto
    then have m1: "umap_inv hash ?m" "entries ?m = (entries m)(key \<mapsto> val)" by auto
    let ?m' = "if real (u_elem_count ?m) / real (u_bucket_count ?m) > u_max_load_factor ?m
      then rehash hash (u_bucket_count ?m * 2) ?m else ?m"
    have pos: "0 < u_bucket_count ?m * 2" using assms by (simp add: umap_inv_def)
    have "umap_inv hash ?m'" "entries ?m' = (entries m)(key \<mapsto> val)"
      using m1 rehash_ok [OF m1(1) pos] by auto
    moreover have "load_ok ?m'" if "load_ok m"
    proof -
      have "1 * 1 \<le> u_max_load_factor m * real (u_bucket_count m)"
        using that pos by (intro mult_mono) (auto simp: load_ok_def)
      with that show ?thesis
        using pos by (auto simp: load_ok_def rehash_fields field_simps)
    qed
    moreover have "umap_insert hash key val m = Some ?m'"
      using None bucket_of_inv [OF assms, of key] by (simp add: umap_insert_def)
    moreover have "u_max_load_factor ?m' = u_max_load_factor m" by (simp add: rehash_fields)
    ultimately show ?thesis by blast
  qed
qed

lemma umap_find_ok: "umap_inv hash m \<Longrightarrow> umap_find hash key m = Some (entries m key)"
  by (simp add: umap_find_def bucket_of_inv chain_find_map_of bucket_lookup)

lemma umap_erase_ok:
  assumes "umap_inv hash m"
  shows "\<exists>m'. umap_erase hash key m = Some (entries m key \<noteq> None, m') \<and> umap_inv hash m' \<and>
    entries m' = (entries m)(key := None) \<and> (load_ok m \<longrightarrow> load_ok m')"
proof -
  let ?i = "hash key mod u_bucket_count m"
  let ?c = "u_buckets m ! ?i"
  have i: "?i < u_bucket_count m" using assms by (simp add: umap_inv_def)
  have dist: "distinct (map fst (concat (u_buckets m)))" and
    len: "u_elem_count m = length (concat (u_buckets m))" using assms by (auto simp: umap_inv_def)
  have found: "entries m key = None \<longleftrightarrow> chain_unlink key ?c = None"
    by (metis assms bucket_lookup chain_unlink_None map_of_eq_None_iff)
  show ?thesis
  proof (cases "chain_unlink key ?c")
    case None
    with found have "entries m key = None" by simp
    moreover from this have "(entries m)(key := None) = entries m" by (simp add: fun_eq_iff)
    ultimately show ?thesis
      using None assms bucket_of_inv [OF assms, of key] by (simp add: umap_erase_def)
  next
    case (Some c')
    from chain_unlink_Some [OF Some] obtain xs v ys where
      c: "?c = xs @ (key, v) # ys" "c' = xs @ ys" by blast
    let ?m = "m\<lparr>u_buckets := (u_buckets m)[?i := c'], u_elem_count := u_elem_count m - 1\<rparr>"
    have "\<forall>p \<in> set c'. hash (fst p) mod u_bucket_count m = ?i"
      using c chain_hash [OF assms] by auto
    moreover have "distinct (map fst (A @ c' @ B)) \<and> u_elem_count m - 1 = length (A @ c' @ B) \<and>
        map_of (A @ c' @ B) = (entries m)(key := None)"
      if AB: "concat (u_buckets m) = A @ ?c @ B" for A B
    proof -
      have d: "distinct (map fst ((A @ xs) @ (key, v) # (ys @ B)))" using dist c AB by simp
      then have "key \<notin> fst ` set (A @ xs @ ys @ B)" by auto
      then have "map_of (A @ xs @ ys @ B) key = None" unfolding map_of_eq_None_iff .
      then have "map_of (A @ c' @ B) = (map_of ((A @ xs) @ (key, v) # (ys @ B)))(key := None)"
        unfolding c by (auto simp: fun_eq_iff map_add_def split: option.splits)
      then show ?thesis using d len c AB by (simp add: entries_def)
    qed
    ultimately have "umap_inv hash ?m \<and> entries ?m = (entries m)(key := None)"
      by (intro store_chain [OF assms i]) auto
    then have m1: "umap_inv hash ?m" "entries ?m = (entries m)(key := None)" by auto
    let ?n = "max (u_bucket_count m div 2) MIN_BUCKETS"
    have n: "0 < ?n" by (simp add: MIN_BUCKETS_def)
    let ?m' = "if 0 < u_elem_count ?m \<and> real (u_elem_count ?m) / real (u_bucket_count ?m) < u_max_load_factor ?m / 4
        \<and> ?n < u_bucket_count ?m then rehash hash ?n ?m else ?m"
    have "umap_inv hash ?m'" "entries ?m' = (entries m)(key := None)"
      using m1 rehash_ok [OF m1(1) n] by auto
    moreover have "load_ok ?m'" if "load_ok m"
    proof (cases "0 < u_elem_count ?m \<and> real (u_elem_count ?m) / real (u_bucket_count ?m) < u_max_load_factor ?m / 4
        \<and> ?n < u_bucket_count ?m")
      case True
      then have pos: "0 < real (u_bucket_count m)" by simp
      have "real (u_bucket_count m) / 4 \<le> real ?n"
        using True by (simp add: MIN_BUCKETS_def)
      then have "u_max_load_factor m * (real (u_bucket_count m) / 4) \<le> u_max_load_factor m * real ?n"
        using that by (intro mult_left_mono) (auto simp: load_ok_def)
      moreover from True have "real (u_elem_count ?m) / real (u_bucket_count ?m) < u_max_load_factor ?m / 4"
        by blast
      then have "real (u_elem_count m - 1) / real (u_bucket_count m) < u_max_load_factor m / 4" by simp
      then have "real (u_elem_count m - 1) < u_max_load_factor m / 4 * real (u_bucket_count m)"
        using pos by (simp only: pos_divide_less_eq)
      ultimately have "real (u_elem_count m - 1) \<le> u_max_load_factor m * real ?n" by linarith
      with True n that show ?thesis by (simp add: load_ok_def rehash_fields)
    next
      case False
      have "real (u_elem_count m - 1) \<le> real (u_elem_count m)" by simp
      also have "\<dots> \<le> u_max_load_factor m * real (u_bucket_count m)" using that by (simp add: load_ok_def)
      finally have "load_ok ?m" using that by (simp add: load_ok_def)
      with False show ?thesis by presburger
    qed
    moreover have "umap_erase hash key m = Some (entries m key \<noteq> None, ?m')"
      using Some found bucket_of_inv [OF assms, of key] by (auto simp: umap_erase_def Let_def)
    ultimately show ?thesis by blast
  qed
qed

lemma umap_clear_ok:
  assumes "umap_inv hash m"
  shows "umap_inv hash (umap_clear hash m)" "entries (umap_clear hash m) = Map.empty"
    "umap_size (umap_clear hash m) = 0"
proof -
  let ?m = "m\<lparr>u_buckets := map (\<lambda>_. []) (u_buckets m), u_elem_count := 0\<rparr>"
  have c: "concat (map (\<lambda>_. []) (u_buckets m)) = []"
    by simp
  have m1: "umap_inv hash ?m" "entries ?m = Map.empty"
    using assms by (simp_all add: umap_inv_def placed_def entries_def c del: concat_eq_Nil_conv)
  have pos: "0 < MIN_BUCKETS" by (simp add: MIN_BUCKETS_def)
  show "umap_inv hash (umap_clear hash m)" "entries (umap_clear hash m) = Map.empty"
    using m1 rehash_ok [OF m1(1) pos] by (auto simp: umap_clear_def Let_def)
  show "umap_size (umap_clear hash m) = 0"
    by (simp add: umap_clear_def Let_def umap_size_def rehash_fields)
qed

lemma umap_inv_new: "0 < c \<Longrightarrow> umap_inv hash (umap_new c f)"
  by (simp add: umap_inv_def umap_new_def placed_def)

lemma entries_new: "entries (umap_new c f) = Map.empty"
  by (simp add: entries_def umap_new_def)

interpretation umapm: erase_map "umap_new 8 1" "umap_insert hash" entries "umap_inv hash"
  "\<lambda>k m. map_option snd (umap_erase hash k m)" for hash
proof
  show "umap_inv hash (umap_new 8 1)" by (simp add: umap_inv_new)
  show "entries (umap_new 8 1) = Map.empty" by (rule entries_new)
  show "umap_inv hash m \<Longrightarrow> \<exists>m'. umap_insert hash k v m = Some m' \<and> umap_inv hash m' \<and>
      entries m' = (entries m)(k \<mapsto> v)" for m k v
    using umap_insert_ok [of hash m k v] by blast
  show "umap_inv hash m \<Longrightarrow> \<exists>m'. map_option snd (umap_erase hash k m) = Some m' \<and> umap_inv hash m' \<and>
      entries m' = (entries m)(k := None)" for m k
    using umap_erase_ok [of hash m k] by auto
qed

section \<open>Iteration\<close>

declare advance_loop.simps [simp del]

text \<open>What is still to be visited from an iterator position.\<close>

definition pending :: "('k, 'v) umap \<Rightarrow> ('k, 'v) uiter \<Rightarrow> ('k \<times> 'v) list" where
  "pending m it = snd it @ concat (drop (Suc (fst it)) (u_buckets m))"

definition good_iter :: "('k, 'v) umap \<Rightarrow> ('k, 'v) uiter \<Rightarrow> bool" where
  "good_iter m it \<longleftrightarrow> it = umap_end m \<or> fst it < u_bucket_count m \<and> snd it \<noteq> []"

lemma advance_loop_pending:
  assumes "length (u_buckets m) = u_bucket_count m" "fst it < u_bucket_count m"
  shows "pending m (advance_loop m it) = pending m it \<and> fst (advance_loop m it) < u_bucket_count m \<and>
    (snd (advance_loop m it) = [] \<longrightarrow> Suc (fst (advance_loop m it)) = u_bucket_count m)"
  using assms
proof (induction m it rule: advance_loop.induct)
  case (1 m i cur)
  show ?case
  proof (cases "i + 1 < u_bucket_count m \<and> cur = []")
    case True
    then have "pending m (i + 1, u_buckets m ! (i + 1)) = pending m (i, cur)"
      using 1(2) by (simp add: pending_def Cons_nth_drop_Suc [symmetric])
    moreover have "advance_loop m (i, cur) = advance_loop m (i + 1, u_buckets m ! (i + 1))"
      using True by (subst advance_loop.simps) simp
    ultimately show ?thesis using True 1 by simp
  next
    case False
    then have "advance_loop m (i, cur) = (i, cur)" by (subst advance_loop.simps) argo
    with False 1(3) show ?thesis by auto
  qed
qed

lemma advance_pending:
  assumes "length (u_buckets m) = u_bucket_count m" "good_iter m it" "it \<noteq> umap_end m"
  shows "good_iter m (advance m it) \<and> pending m it = hd (snd it) # pending m (advance m it)"
proof -
  from assms have it: "fst it < u_bucket_count m" "snd it \<noteq> []" by (auto simp: good_iter_def)
  obtain j cur where j: "advance_loop m (fst it, tl (snd it)) = (j, cur)" by fastforce
  with advance_loop_pending [of m "(fst it, tl (snd it))"] assms(1) it have
    p: "pending m (j, cur) = pending m (fst it, tl (snd it))" "j < u_bucket_count m"
      "cur = [] \<longrightarrow> Suc j = u_bucket_count m" by auto
  have "pending m it = hd (snd it) # pending m (fst it, tl (snd it))"
    using it by (simp add: pending_def)
  with p j assms(1) show ?thesis
    by (auto simp: advance_def good_iter_def umap_end_def pending_def)
qed

lemma iterate_pending:
  assumes "length (u_buckets m) = u_bucket_count m" "good_iter m it" "length (pending m it) \<le> fuel"
  shows "iterate fuel m it = Some (pending m it)"
  using assms(2,3)
proof (induction fuel arbitrary: it)
  case 0
  then have "it = umap_end m" by (auto simp: good_iter_def pending_def)
  then show ?case using assms(1) by (simp add: umap_end_def pending_def)
next
  case (Suc fuel)
  show ?case
  proof (cases "it = umap_end m")
    case True
    then show ?thesis using assms(1) by (simp add: umap_end_def pending_def)
  next
    case False
    then obtain p c where "snd it = p # c"
      using Suc.prems(1) by (auto simp: good_iter_def neq_Nil_conv)
    with advance_pending [OF assms(1) Suc.prems(1) False] Suc.prems Suc.IH [of "advance m it"] False
    show ?thesis by (simp add: iter_get_def)
  qed
qed

lemma begin_pending:
  assumes "length (u_buckets m) = u_bucket_count m"
  shows "good_iter m (umap_begin m) \<and> pending m (umap_begin m) = concat (u_buckets m)"
proof (cases "filter (\<lambda>i. u_buckets m ! i \<noteq> []) [0..<u_bucket_count m]")
  case Nil
  then have "\<forall>c \<in> set (u_buckets m). c = []"
    using assms by (auto simp: filter_empty_conv in_set_conv_nth)
  then have "concat (u_buckets m) = []" by simp
  with Nil assms show ?thesis
    by (simp add: umap_begin_def good_iter_def pending_def umap_end_def del: concat_eq_Nil_conv)
next
  case (Cons i rest)
  have "i \<in> set (filter (\<lambda>i. u_buckets m ! i \<noteq> []) [0..<u_bucket_count m])"
    unfolding Cons by simp
  then have i: "i < u_bucket_count m" "u_buckets m ! i \<noteq> []" by auto
  from Cons obtain us vs where split: "[0..<u_bucket_count m] = us @ i # vs"
    "\<forall>j \<in> set us. u_buckets m ! j = []" by (auto simp: filter_eq_Cons_iff)
  have "length us < length [0..<u_bucket_count m]" unfolding split(1) by simp
  then have "[0..<u_bucket_count m] ! length us = length us" by simp
  then have "length us = i" using split(1) by (metis nth_append_length)
  then have "us = take i [0..<u_bucket_count m]" using split(1) by simp
  then have "us = [0..<i]" using i(1) by simp
  with split have "\<forall>c \<in> set (take i (u_buckets m)). c = []"
    using assms i by (auto simp: in_set_conv_nth)
  then have "concat (take i (u_buckets m)) = []" by simp
  moreover have "u_buckets m = take i (u_buckets m) @ u_buckets m ! i # drop (Suc i) (u_buckets m)"
    using i assms by (metis id_take_nth_drop)
  ultimately have "concat (u_buckets m) = u_buckets m ! i @ concat (drop (Suc i) (u_buckets m))"
    by (metis append_Nil concat.simps(2) concat_append)
  with Cons i show ?thesis
    by (simp add: umap_begin_def good_iter_def pending_def)
qed

section \<open>Properties\<close>

text \<open>C8: a hash map built with the default constructor behaves as a finite map: whatever
  history of \<open>insert\<close> and \<open>erase\<close> calls is run on it, growing and shrinking the table on the
  way, the run never leaves the bucket vector, and \<open>find\<close> then answers for every key what a
  plain map would answer after that history, for every hash function.\<close>

theorem umap_history_correct:
  "\<exists>m. run_ops (umap_insert hash) (\<lambda>k m. map_option snd (umap_erase hash k m)) cs (umap_new 8 1) = Some m \<and>
     umap_inv hash m \<and> (\<forall>k. umap_find hash k m = Some (spec_ops cs Map.empty k))"
  using umapm.run_ops_from_empty [of hash cs] umap_find_ok [of hash] by fastforce

text \<open>one \<open>insert\<close> and one \<open>erase\<close> on a well-formed map: \<open>insert\<close> binds exactly the key, \<open>erase\<close>
  unbinds exactly the key and returns whether it was bound; both keep the table well formed
  (every node in the bucket of its hash, no duplicate key, \<open>size()\<close> the number of nodes) and,
  for a maximal load factor of at least 1, keep the load below it.\<close>

theorem umap_insert_erase_correct:
  assumes "umap_inv hash m" "load_ok m"
  shows "(\<exists>m'. umap_insert hash key val m = Some m' \<and> umap_inv hash m' \<and> load_ok m' \<and>
            entries m' = (entries m)(key \<mapsto> val) \<and>
            umap_size m' = (if entries m key = None then umap_size m + 1 else umap_size m)) \<and>
         (\<exists>m'. umap_erase hash key m = Some (entries m key \<noteq> None, m') \<and> umap_inv hash m' \<and> load_ok m' \<and>
            entries m' = (entries m)(key := None) \<and>
            umap_size m' = (if entries m key = None then umap_size m else umap_size m - 1))"
proof -
  have size: "umap_size m' = card (dom (entries m'))" "finite (dom (entries m'))"
    if "umap_inv hash m'" for m' :: "('a, 'b) umap"
  proof -
    have "card (fst ` set (concat (u_buckets m'))) = length (concat (u_buckets m'))"
      using that by (metis distinct_card length_map list.set_map umap_inv_def)
    with that show "umap_size m' = card (dom (entries m'))"
      by (simp add: umap_size_def umap_inv_def entries_def dom_map_of_conv_image_fst del: set_concat)
    show "finite (dom (entries m'))" by (simp add: entries_def finite_dom_map_of)
  qed
  from umap_insert_ok [OF assms(1), of key val] assms(2) obtain m1 where
    m1: "umap_insert hash key val m = Some m1" "umap_inv hash m1" "load_ok m1"
      "entries m1 = (entries m)(key \<mapsto> val)" by blast
  from umap_erase_ok [OF assms(1), of key] assms(2) obtain m2 where
    m2: "umap_erase hash key m = Some (entries m key \<noteq> None, m2)" "umap_inv hash m2" "load_ok m2"
      "entries m2 = (entries m)(key := None)" by blast
  have "umap_size m1 = (if entries m key = None then umap_size m + 1 else umap_size m)"
    using size [OF m1(2)] size [OF assms(1)] m1(4)
    by (auto simp: domIff insert_absorb domI)
  moreover have "umap_size m2 = (if entries m key = None then umap_size m else umap_size m - 1)"
    using size [OF m2(2)] size [OF assms(1)] m2(4) by (simp add: domIff)
  ultimately show ?thesis using m1 m2 by blast
qed

theorem umap_insert_erase_correct_witness:
  "\<exists>m'. umap_insert (\<lambda>k. k) (11::nat) ''x'' (umap_new 8 1) = Some m' \<and> load_ok m' \<and> umap_size m' = 1"
proof -
  have "load_ok (umap_new 8 1 :: (nat, string) umap)" by (simp add: load_ok_def umap_new_def)
  moreover have "umap_inv (\<lambda>k. k) (umap_new 8 1 :: (nat, string) umap)" by (simp add: umap_inv_new)
  ultimately show ?thesis
    using umap_insert_erase_correct [of "\<lambda>k. k" "umap_new 8 1" 11 "''x''"]
    by (auto simp: entries_new) (auto simp: umap_new_def umap_size_def)
qed

text \<open>C36: iterating from \<open>begin()\<close> to \<open>end()\<close> visits every node of a well-formed map exactly once and
  stops: after at most \<open>size()\<close> increments the loop has produced a list that holds every
  binding, without repetition of a key.\<close>

theorem umap_iteration_complete:
  assumes "umap_inv hash m"
  shows "\<exists>ps. iterate (umap_size m) m (umap_begin m) = Some ps \<and> distinct (map fst ps) \<and> map_of ps = entries m"
proof -
  have len: "length (u_buckets m) = u_bucket_count m" using assms by (rule umap_inv_length)
  have "length (pending m (umap_begin m)) \<le> umap_size m"
    using begin_pending [OF len] assms by (simp add: umap_size_def umap_inv_def)
  with begin_pending [OF len] iterate_pending [OF len] have
    "iterate (umap_size m) m (umap_begin m) = Some (concat (u_buckets m))" by simp
  with assms show ?thesis by (simp add: umap_inv_def entries_def)
qed

theorem umap_iteration_complete_witness:
  "\<exists>ps. iterate 0 (umap_new 8 1 :: (nat, string) umap) (umap_begin (umap_new 8 1)) = Some ps \<and>
     distinct (map fst ps) \<and> map_of ps = entries (umap_new 8 1 :: (nat, string) umap)"
proof -
  have "umap_inv (\<lambda>k. k) (umap_new 8 1 :: (nat, string) umap)" by (simp add: umap_inv_new)
  from umap_iteration_complete [OF this] show ?thesis by (simp add: umap_size_def umap_new_def)
qed

end
