(* ===== verification/Net_Frame.thy ===== *)
theory Net_Frame
  imports Interfaces
begin

unbundle bit_operations_syntax

text \<open>
  Byte order and the length-prefixed framings of the network code:
  \<^item> the blocking socket helpers of src/cplusplus/concurrent/code/base\_linux\_net\_api/net.hpp
    (\<open>send_all\<close>, \<open>recv_exact\<close>, \<open>send_frame\<close>, \<open>recv_frame\<close>);
  \<^item> the type-length-value echo server and client of
    src/cplusplus/net\_program/code/cpp\_net/base\_byteorder (server.cpp, client.cpp);
  \<^item> the framing and dispatch of base\_protobuf (echo\_server.cpp, echo\_client.cpp), with the
    generated protobuf code as a parameter.
  A host is little or big endian (\<open>le\<close>), a \<open>memcpy\<close> between an integer and bytes follows the
  host's order, and \<open>htonl\<close>/\<open>htons\<close> swap bytes on a little-endian host.
\<close>

section \<open>Integers in memory and byte order\<close>

definition bytes16 :: "u16 \<Rightarrow> byte list" where
  "bytes16 w = [ucast w, ucast (drop_bit 8 w)]"

definition bytes32 :: "u32 \<Rightarrow> byte list" where
  "bytes32 w = [ucast w, ucast (drop_bit 8 w), ucast (drop_bit 16 w), ucast (drop_bit 24 w)]"

definition unbytes16 :: "byte list \<Rightarrow> u16" where
  "unbytes16 bs = ucast (bs ! 0) OR push_bit 8 (ucast (bs ! 1))"

definition unbytes32 :: "byte list \<Rightarrow> u32" where
  "unbytes32 bs = ucast (bs ! 0) OR push_bit 8 (ucast (bs ! 1)) OR
     push_bit 16 (ucast (bs ! 2)) OR push_bit 24 (ucast (bs ! 3))"

text \<open>The object representation of an integer on the host, and reading it back.\<close>

definition store16 :: "bool \<Rightarrow> u16 \<Rightarrow> byte list" where
  "store16 le w = (if le then bytes16 w else rev (bytes16 w))"

definition store32 :: "bool \<Rightarrow> u32 \<Rightarrow> byte list" where
  "store32 le w = (if le then bytes32 w else rev (bytes32 w))"

definition load16 :: "bool \<Rightarrow> byte list \<Rightarrow> u16" where
  "load16 le bs = (if le then unbytes16 bs else unbytes16 (rev bs))"

definition load32 :: "bool \<Rightarrow> byte list \<Rightarrow> u32" where
  "load32 le bs = (if le then unbytes32 bs else unbytes32 (rev bs))"

definition htons :: "bool \<Rightarrow> u16 \<Rightarrow> u16" where
  "htons le w = (if le then unbytes16 (rev (bytes16 w)) else w)"

definition htonl :: "bool \<Rightarrow> u32 \<Rightarrow> u32" where
  "htonl le w = (if le then unbytes32 (rev (bytes32 w)) else w)"

abbreviation ntohs :: "bool \<Rightarrow> u16 \<Rightarrow> u16" where
  "ntohs \<equiv> htons"

abbreviation ntohl :: "bool \<Rightarrow> u32 \<Rightarrow> u32" where
  "ntohl \<equiv> htonl"

lemma length_bytes [simp]: "length (bytes16 w) = 2" "length (bytes32 v) = 4"
  by (simp_all add: bytes16_def bytes32_def)

lemma unbytes16_bytes16 [simp]: "unbytes16 (bytes16 w) = w"
  by (rule bit_word_eqI) (auto simp: unbytes16_def bytes16_def bit_simps)

lemma unbytes32_bytes32 [simp]: "unbytes32 (bytes32 w) = w"
proof (rule bit_word_eqI)
  fix n :: nat
  assume "n < LENGTH(32)"
  then consider "n < 8" | "8 \<le> n" "n < 16" | "16 \<le> n" "n < 24" | "24 \<le> n" "n < 32" by fastforce
  then show "bit (unbytes32 (bytes32 w)) n = bit w n"
    by cases (auto simp: unbytes32_def bytes32_def bit_simps)
qed

lemma byte_no_high_bits [simp]: "\<not> bit (y :: byte) (8 + n)" "\<not> bit (y :: byte) (16 + n)"
  "\<not> bit (y :: byte) (24 + n)"
  by (auto dest: bit_imp_le_length)

lemma bytes16_unbytes16 [simp]: "length bs = 2 \<Longrightarrow> bytes16 (unbytes16 bs) = bs"
  by (auto simp: numeral_2_eq_2 length_Suc_conv)
    (auto intro!: bit_word_eqI simp: unbytes16_def bytes16_def bit_simps)

lemma bytes32_unbytes32 [simp]: "length bs = 4 \<Longrightarrow> bytes32 (unbytes32 bs) = bs"
  by (auto simp: length_Suc_conv eval_nat_numeral(2,3))
    (auto intro!: bit_word_eqI simp: unbytes32_def bytes32_def bit_simps)

text \<open>Whatever the host, an integer converted to network order lies in memory big-endian.\<close>

lemma store_hton:
  "store16 le (htons le w) = rev (bytes16 w)" "store32 le (htonl le v) = rev (bytes32 v)"
  by (simp_all add: store16_def store32_def htons_def htonl_def)

lemma ntoh_load:
  "ntohs le (load16 le (rev (bytes16 w))) = w" "ntohl le (load32 le (rev (bytes32 v))) = v"
  by (simp_all add: load16_def load32_def htons_def htonl_def)

lemmas wire_simps = store_hton ntoh_load

section \<open>Blocking sockets: \<open>send_all\<close>, \<open>recv_exact\<close>\<close>

text \<open>
  What the kernel does at one \<open>::send\<close> or \<open>::recv\<close> call is an event: it moves at most \<open>k\<close> bytes
  (short counts included), the call is interrupted (\<open>EINTR\<close>), or it fails with another \<open>errno\<close>.
  A loop consumes one event per system call; when the events run out it is still blocked, and its
  result is \<open>None\<close>.  The byte stream a receiver reads ends where its peer closes, so a \<open>recv\<close> on an
  exhausted stream returns 0.
\<close>

datatype io_ev = Moved nat | Interrupted | Failed

fun send_all :: "io_ev list \<Rightarrow> byte list \<Rightarrow> unit outcome option \<times> byte list \<times> io_ev list" where
  "send_all es [] = (Some (Inr ()), [], es)"
| "send_all [] (b # bs) = (None, [], [])"
| "send_all (Interrupted # es) (b # bs) = send_all es (b # bs)"
| "send_all (Failed # es) (b # bs) = (Some (Inl (RuntimeError ''send'')), [], es)"
| "send_all (Moved k # es) (b # bs) =
     (if k = 0 then (Some (Inl (RuntimeError ''send made no progress'')), [], es)
      else let (r, sent, es') = send_all es (drop k (b # bs)) in (r, take k (b # bs) @ sent, es'))"

text \<open>
  \<open>recv_exact es want done stream\<close>: the value is the filled buffer (\<open>true\<close>), or \<open>None\<close> inside
  \<open>Inr\<close> for the return value \<open>false\<close>.  \<open>done\<close> holds the bytes already in the buffer.
\<close>

fun recv_exact ::
  "io_ev list \<Rightarrow> nat \<Rightarrow> byte list \<Rightarrow> byte list \<Rightarrow>
    byte list option outcome option \<times> byte list \<times> io_ev list" where
  "recv_exact es want got stream =
     (if \<not> length got < want then (Some (Inr (Some got)), stream, es)
      else case es of
        [] \<Rightarrow> (None, stream, [])
      | Interrupted # es' \<Rightarrow> recv_exact es' want got stream
      | Failed # es' \<Rightarrow> (Some (Inl (RuntimeError ''recv'')), stream, es')
      | Moved k # es' \<Rightarrow>
          let n = min (min k (want - length got)) (length stream) in
          if n = 0 then
            (if got = [] then (Some (Inr None), stream, es')
             else (Some (Inl (RuntimeError ''EOF in the middle of a field'')), stream, es'))
          else recv_exact es' want (got @ take n stream) (drop n stream))"

declare recv_exact.simps [simp del]

lemma recv_exact_Moved:
  assumes "length got < want" "n = min (min k (want - length got)) (length stream)" "0 < n"
  shows "recv_exact (Moved k # es) want got stream = recv_exact es want (got @ take n stream) (drop n stream)"
  by (subst recv_exact.simps) (use assms in \<open>simp only: assms(2) [symmetric] Let_def io_ev.case list.case if_True if_False refl not_gr_zero\<close>; simp)

text \<open>A working connection: every call moves at least one byte or is interrupted, and at least \<open>n\<close>
  of the calls move bytes.\<close>

definition working :: "nat \<Rightarrow> io_ev list \<Rightarrow> bool" where
  "working n es \<longleftrightarrow> (\<forall>e \<in> set es. e \<noteq> Failed \<and> e \<noteq> Moved 0) \<and>
     n \<le> length (filter (\<lambda>e. e \<noteq> Interrupted) es)"

lemma working_Cons [simp]:
  "working n (Interrupted # es) \<longleftrightarrow> working n es"
  "working n (Failed # es) \<longleftrightarrow> False"
  "working n (Moved k # es) \<longleftrightarrow> 0 < k \<and> working (n - 1) es"
  by (auto simp: working_def)

lemma working_Nil [simp]: "working n [] \<longleftrightarrow> n = 0"
  by (simp add: working_def)

lemma working_mono: "working n es \<Longrightarrow> m \<le> n \<Longrightarrow> working m es"
  by (auto simp: working_def)

text \<open>On a working connection the loops return, whatever the fragmentation.\<close>

lemma send_all_ok:
  "working (length bs + m) es \<Longrightarrow> \<exists>es'. send_all es bs = (Some (Inr ()), bs, es') \<and> working m es'"
proof (induction es bs rule: send_all.induct)
  case (5 k es b bs)
  then have k: "0 < k" and w: "working (length (b # bs) + m - 1) es" by simp_all
  have "working (length (drop k (b # bs)) + m) es" using working_mono [OF w] k by simp
  from "5.IH" [OF _ this] k show ?case by auto
qed (auto dest: working_mono)

lemma recv_exact_ok:
  "working (want - length got + m) es \<Longrightarrow> length got \<le> want \<Longrightarrow> want - length got \<le> length stream \<Longrightarrow>
   \<exists>es'. recv_exact es want got stream =
     (Some (Inr (Some (got @ take (want - length got) stream))), drop (want - length got) stream, es')
     \<and> working m es'"
proof (induction es arbitrary: got stream)
  case Nil
  then show ?case by (subst recv_exact.simps) auto
next
  case (Cons e es)
  show ?case
  proof (cases "length got < want")
    case False
    with Cons.prems show ?thesis by (subst recv_exact.simps) auto
  next
    case less: True
    show ?thesis
    proof (cases e)
      case (Moved k)
      define n where "n = min (min k (want - length got)) (length stream)"
      have n: "0 < n" "n \<le> want - length got" "n \<le> length stream"
        using Moved Cons.prems less by (auto simp: n_def)
      have len: "length (got @ take n stream) = length got + n" using n by simp
      have "working (want - length (got @ take n stream) + m) es"
        using Cons.prems(1) Moved n by (auto simp: len elim: working_mono)
      moreover have "length (got @ take n stream) \<le> want" using n by (simp only: len)
      moreover have "want - length (got @ take n stream) \<le> length (drop n stream)"
        using n Cons.prems(3) by (simp add: len)
      ultimately obtain es' where
        rec: "recv_exact es want (got @ take n stream) (drop n stream) =
          (Some (Inr (Some ((got @ take n stream) @ take (want - (length got + n)) (drop n stream)))),
           drop (want - (length got + n)) (drop n stream), es')" "working m es'"
        using Cons.IH [of "got @ take n stream" "drop n stream"] unfolding len by blast
      have split: "want - length got = n + (want - (length got + n))" using n less by simp
      have "take n stream @ take (want - (length got + n)) (drop n stream) = take (want - length got) stream"
        by (subst split) (simp add: take_add)
      moreover have "recv_exact (e # es) want got stream =
          recv_exact es want (got @ take n stream) (drop n stream)"
        unfolding Moved by (rule recv_exact_Moved [OF less n_def n(1)])
      ultimately show ?thesis using rec n less by simp
    next
      case Interrupted
      with Cons less show ?thesis by (subst recv_exact.simps) simp
    next
      case Failed
      with Cons.prems show ?thesis by simp
    qed
  qed
qed


text \<open>A stream that ends early: \<open>recv_exact\<close> reports the end of file between fields as \<open>false\<close> and
  inside a field as an error.\<close>

lemma recv_exact_eof:
  "working (Suc (length stream)) es \<Longrightarrow> length got + length stream < want \<Longrightarrow>
   fst (recv_exact es want got stream) =
     (if got = [] \<and> stream = [] then Some (Inr None)
      else Some (Inl (RuntimeError ''EOF in the middle of a field'')))"
proof (induction es arbitrary: got stream)
  case Nil
  then show ?case by simp
next
  case (Cons e es)
  then have less: "length got < want" by simp
  show ?case
  proof (cases e)
    case (Moved k)
    then have k: "0 < k" and w: "working (length stream) es" using Cons.prems by simp_all
    show ?thesis
    proof (cases "stream = []")
      case True
      with less Moved show ?thesis by (subst recv_exact.simps) simp
    next
      case False
      define n where "n = min (min k (want - length got)) (length stream)"
      have n: "0 < n" "n \<le> length stream" using False k less by (auto simp: n_def)
      have "recv_exact (e # es) want got stream = recv_exact es want (got @ take n stream) (drop n stream)"
        unfolding Moved by (rule recv_exact_Moved [OF less n_def n(1)])
      moreover have "working (Suc (length (drop n stream))) es"
        by (rule working_mono [OF w]) (use n in simp)
      moreover have "length (got @ take n stream) + length (drop n stream) < want"
        using n Cons.prems(2) by simp
      moreover have "got @ take n stream \<noteq> []" using n False by simp
      ultimately show ?thesis using Cons.IH [of "drop n stream" "got @ take n stream"] False by simp
    qed
  next
    case Interrupted
    with Cons less show ?thesis by (subst recv_exact.simps) simp
  next
    case Failed
    with Cons.prems show ?thesis by simp
  qed
qed

section \<open>Length-prefixed frames: \<open>send_frame\<close>, \<open>recv_frame\<close>\<close>

definition max_frame :: nat where
  "max_frame = 1024 * 1024"

definition send_frame ::
  "bool \<Rightarrow> io_ev list \<Rightarrow> byte list \<Rightarrow> unit outcome option \<times> byte list \<times> io_ev list" where
  "send_frame le es body =
     (if length body > max_frame then (Some (Inl (RuntimeError ''frame too large'')), [], es)
      else let len = htonl le (of_nat (length body)) in
        case send_all es (store32 le len) of
          (Some (Inr _), out, es') \<Rightarrow>
            (let (r, out', es'') = send_all es' body in (r, out @ out', es''))
        | stuck \<Rightarrow> stuck)"

definition recv_frame ::
  "bool \<Rightarrow> io_ev list \<Rightarrow> byte list \<Rightarrow> byte list option outcome option \<times> byte list \<times> io_ev list" where
  "recv_frame le es stream =
     (case recv_exact es 4 [] stream of
        (Some (Inr (Some lenb)), stream', es') \<Rightarrow>
          let sz = ntohl le (load32 le lenb) in
          if unat sz > max_frame then (Some (Inl (RuntimeError ''frame too large'')), stream', es')
          else (case recv_exact es' (unat sz) [] stream' of
              (Some (Inr None), stream'', es'') \<Rightarrow>
                (Some (Inl (RuntimeError ''EOF before body'')), stream'', es'')
            | r \<Rightarrow> r)
      | r \<Rightarrow> r)"

definition frame_bytes :: "byte list \<Rightarrow> byte list" where
  "frame_bytes body = rev (bytes32 (of_nat (length body))) @ body"

lemma length_frame_bytes [simp]: "length (frame_bytes body) = 4 + length body"
  by (simp add: frame_bytes_def)

lemma unat_length_u32 [simp]: "n \<le> max_frame \<Longrightarrow> unat (of_nat n :: u32) = n"
  by (simp add: max_frame_def unsigned_of_nat take_bit_nat_eq_self)

lemma send_frame_ok:
  assumes "length body \<le> max_frame" "working (4 + length body + m) es"
  shows "\<exists>es'. send_frame le es body = (Some (Inr ()), frame_bytes body, es') \<and> working m es'"
proof -
  have "working (length (rev (bytes32 (of_nat (length body)))) + (length body + m)) es"
    using assms(2) by (simp add: ac_simps)
  from send_all_ok [OF this] obtain es1 where
    1: "send_all es (rev (bytes32 (of_nat (length body)))) =
        (Some (Inr ()), rev (bytes32 (of_nat (length body))), es1)"
    and w: "working (length body + m) es1" by blast
  from send_all_ok [OF w] obtain es2 where
    "send_all es1 body = (Some (Inr ()), body, es2)" "working m es2" by blast
  with 1 assms(1) show ?thesis by (simp add: send_frame_def wire_simps frame_bytes_def)
qed

lemma recv_frame_ok:
  assumes "length body \<le> max_frame" "working (4 + length body + m) es"
  shows "\<exists>es'. recv_frame le es (frame_bytes body @ rest) = (Some (Inr (Some body)), rest, es') \<and> working m es'"
proof -
  let ?len = "rev (bytes32 (of_nat (length body)))"
  have "working (4 - length ([] :: byte list) + (length body + m)) es"
    using assms(2) by (simp add: ac_simps)
  from recv_exact_ok [OF this, of "frame_bytes body @ rest"] obtain es1 where
    1: "recv_exact es 4 [] (frame_bytes body @ rest) = (Some (Inr (Some ?len)), body @ rest, es1)"
    and w: "working (length body + m) es1" by (auto simp: frame_bytes_def)
  from w have "working (length body - length ([] :: byte list) + m) es1" by simp
  from recv_exact_ok [OF this, of "body @ rest"] obtain es2 where
    "recv_exact es1 (length body) [] (body @ rest) = (Some (Inr (Some body)), rest, es2)" "working m es2"
    by auto
  with 1 assms(1) show ?thesis by (simp add: recv_frame_def wire_simps)
qed


lemma send_all_events: "send_all es bs = (r, out, es') \<Longrightarrow> length es' \<le> length es"
proof (induction es bs arbitrary: r out es' rule: send_all.induct)
  case (5 k es b bs)
  show ?case
  proof (cases "k = 0")
    case False
    obtain r1 o1 e1 where rec: "send_all es (drop k (b # bs)) = (r1, o1, e1)" by (rule prod_cases3)
    from "5.IH" [OF False rec] "5.prems" False rec show ?thesis by simp
  qed (use "5.prems" in simp)
next
  case (3 es b bs)
  from "3.IH" "3.prems" show ?case by fastforce
qed auto

lemma recv_exact_events:
  "recv_exact es want got stream = (r, stream', es') \<Longrightarrow>
   length es' \<le> length es \<and> (length got < want \<longrightarrow> r \<noteq> None \<longrightarrow> length es' < length es)"
proof (induction es arbitrary: got stream)
  case Nil
  then show ?case by (simp add: recv_exact.simps [of "[]"] split: if_splits)
next
  case (Cons e es)
  show ?case
  proof (cases "length got < want")
    case False
    with Cons.prems show ?thesis by (simp add: recv_exact.simps [of "e # es"])
  next
    case less: True
    with Cons.prems consider "es' = es"
      | g s where "recv_exact es want g s = (r, stream', es')"
      by (cases e) (simp_all add: recv_exact.simps [of "_ # es"] Let_def split: if_splits)
    then show ?thesis
    proof cases
      case 2
      from Cons.IH [OF this] show ?thesis by auto
    qed simp
  qed
qed

lemma recv_frame_events:
  assumes "recv_frame le es stream = (Some (Inr (Some body)), stream', es')"
  shows "length es' < length es"
proof -
  obtain r s1 es1 where 1: "recv_exact es 4 [] stream = (r, s1, es1)" by (rule prod_cases3)
  with assms obtain lenb where r: "r = Some (Inr (Some lenb))"
    by (auto simp: recv_frame_def split: option.splits sum.splits)
  obtain r2 s2 es2 where
    2: "recv_exact es1 (unat (ntohl le (load32 le lenb))) [] s1 = (r2, s2, es2)" by (rule prod_cases3)
  with 1 r assms have "es' = es2"
    by (auto simp: recv_frame_def Let_def split: if_splits option.splits sum.splits)
  with recv_exact_events [OF 1] recv_exact_events [OF 2] r show ?thesis by simp
qed

lemma send_frame_events: "send_frame le es body = (r, out, es') \<Longrightarrow> length es' \<le> length es"
proof -
  assume a: "send_frame le es body = (r, out, es')"
  obtain r1 o1 es1 where 1: "send_all es (store32 le (htonl le (of_nat (length body)))) = (r1, o1, es1)"
    by (rule prod_cases3)
  obtain r2 o2 es2 where 2: "send_all es1 body = (r2, o2, es2)" by (rule prod_cases3)
  from a 1 2 have "es' = es \<or> es' = es1 \<or> es' = es2"
    by (auto simp: send_frame_def Let_def split: if_splits option.splits sum.splits)
  with send_all_events [OF 1] send_all_events [OF 2] show ?thesis by auto
qed

section \<open>The TCP echo server and client of tcp\_cpp20.cpp\<close>

text \<open>The server's \<open>while (recv_frame(peer, body)) send_frame(peer, body)\<close>; the third component is
  what it has written.  It terminates because every received frame costs a system call.\<close>

function echo_loop ::
  "bool \<Rightarrow> io_ev list \<Rightarrow> byte list \<Rightarrow> unit outcome option \<times> byte list \<times> byte list \<times> io_ev list" where
  "echo_loop le es stream =
     (case recv_frame le es stream of
        (None, stream', es') \<Rightarrow> (None, [], stream', es')
      | (Some (Inl e), stream', es') \<Rightarrow> (Some (Inl e), [], stream', es')
      | (Some (Inr None), stream', es') \<Rightarrow> (Some (Inr ()), [], stream', es')
      | (Some (Inr (Some body)), stream', es') \<Rightarrow>
          (case send_frame le es' body of
             (Some (Inr _), out, es'') \<Rightarrow>
               (let (r, out', rest) = echo_loop le es'' stream' in (r, out @ out', rest))
           | (r, out, es'') \<Rightarrow> (r, out, stream', es'')))"
  by pat_completeness auto
termination
  by (relation "measure (\<lambda>(le, es, stream). length es)")
    (auto dest!: recv_frame_events [OF sym] send_frame_events [OF sym])

declare echo_loop.simps [simp del]

text \<open>The client: sends its text, then expects one reply frame and the end of the stream.  \<open>reply\<close>
  is the byte stream the server sends back.\<close>

definition tcp_client ::
  "bool \<Rightarrow> io_ev list \<Rightarrow> byte list \<Rightarrow> byte list \<Rightarrow> byte list outcome option \<times> byte list" where
  "tcp_client le es text reply =
     (case send_frame le es text of
        (Some (Inr _), out, es1) \<Rightarrow>
          (case recv_frame le es1 reply of
             (Some (Inr (Some body)), reply1, es2) \<Rightarrow>
               (case recv_frame le es2 reply1 of
                  (Some (Inr (Some _)), _, _) \<Rightarrow> (Some (Inl (RuntimeError ''unexpected extra frame'')), out)
                | (Some (Inr None), _, _) \<Rightarrow> (Some (Inr body), out)
                | (Some (Inl e), _, _) \<Rightarrow> (Some (Inl e), out)
                | (None, _, _) \<Rightarrow> (None, out))
           | (Some (Inr None), _, _) \<Rightarrow> (Some (Inl (RuntimeError ''missing response'')), out)
           | (Some (Inl e), _, _) \<Rightarrow> (Some (Inl e), out)
           | (None, _, _) \<Rightarrow> (None, out))
      | (Some (Inl e), out, _) \<Rightarrow> (Some (Inl e), out)
      | (None, out, _) \<Rightarrow> (None, out))"

lemma recv_frame_end:
  "working (Suc m) es \<Longrightarrow> fst (recv_frame le es []) = Some (Inr None)"
proof -
  assume "working (Suc m) es"
  then have "working (Suc (length ([] :: byte list))) es" by (rule working_mono) simp
  from recv_exact_eof [OF this, of "[]" 4]
  show ?thesis by (auto simp: recv_frame_def split: prod.split)
qed

text \<open>The system calls that are enough for the frames \<open>ms\<close>, one per byte read or written.\<close>

definition echo_calls :: "byte list list \<Rightarrow> nat" where
  "echo_calls ms = Suc (2 * sum_list (map (\<lambda>body. 4 + length body) ms))"

lemma echo_loop_frames:
  "\<forall>body \<in> set ms. length body \<le> max_frame \<Longrightarrow> working (echo_calls ms) es \<Longrightarrow>
   \<exists>rest es'. echo_loop le es (concat (map frame_bytes ms)) =
     (Some (Inr ()), concat (map frame_bytes ms), rest, es')"
proof (induction ms arbitrary: es)
  case Nil
  then have "fst (recv_frame le es []) = Some (Inr None)"
    by (intro recv_frame_end) (simp add: echo_calls_def)
  then obtain s e where "recv_frame le es [] = (Some (Inr None), s, e)" by (metis prod.collapse)
  then show ?case by (simp add: echo_loop.simps)
next
  case (Cons body ms)
  have small: "length body \<le> max_frame" "\<forall>b \<in> set ms. length b \<le> max_frame" using Cons.prems(1) by simp_all
  let ?m = "echo_calls ms"
  have "working (4 + length body + (4 + length body + ?m)) es"
    using Cons.prems(2) by (simp add: echo_calls_def algebra_simps)
  from recv_frame_ok [OF small(1) this, of le "concat (map frame_bytes ms)"] obtain es1 where
    r: "recv_frame le es (frame_bytes body @ concat (map frame_bytes ms)) =
        (Some (Inr (Some body)), concat (map frame_bytes ms), es1)" "working (4 + length body + ?m) es1"
    by blast
  from send_frame_ok [OF small(1) r(2), of le] obtain es2 where
    s: "send_frame le es1 body = (Some (Inr ()), frame_bytes body, es2)" "working ?m es2" by blast
  from Cons.IH [OF small(2) s(2)] obtain rest es' where
    "echo_loop le es2 (concat (map frame_bytes ms)) =
      (Some (Inr ()), concat (map frame_bytes ms), rest, es')" by blast
  with r(1) s(1) show ?case by (simp add: echo_loop.simps [of le es])
qed

text \<open>C7: A client and the echo server of tcp\_cpp20.cpp, on hosts of any byte order and over
  connections that split and interrupt the transfers in any way: for a text of at most
  \<open>max_frame\<close> bytes the server echoes the client's bytes and returns from its loop, and the client
  finishes with exactly its own text.\<close>

theorem tcp_echo_correct:
  assumes "length text \<le> max_frame"
    and "working (echo_calls [text]) server_calls"
    and "working (echo_calls [text]) client_calls"
  shows "\<exists>wire rest es'.
    echo_loop server_le server_calls wire = (Some (Inr ()), wire, rest, es') \<and>
    tcp_client client_le client_calls text wire = (Some (Inr text), wire)"
proof -
  from echo_loop_frames [of "[text]", OF _ assms(2), of server_le] assms(1) obtain rest es' where
    server: "echo_loop server_le server_calls (frame_bytes text) = (Some (Inr ()), frame_bytes text, rest, es')"
    by auto
  have "working (4 + length text + (4 + length text + 1)) client_calls"
    using assms(3) by (simp add: echo_calls_def algebra_simps)
  from send_frame_ok [OF assms(1) this, of client_le] obtain es1 where
    s: "send_frame client_le client_calls text = (Some (Inr ()), frame_bytes text, es1)"
      "working (4 + length text + 1) es1" by blast
  from recv_frame_ok [OF assms(1) s(2), of client_le "[]"] obtain es2 where
    r: "recv_frame client_le es1 (frame_bytes text) = (Some (Inr (Some text)), [], es2)" "working 1 es2"
    by auto
  have "fst (recv_frame client_le es2 []) = Some (Inr None)"
    using r(2) by (intro recv_frame_end [of 0]) simp
  then have "tcp_client client_le client_calls text (frame_bytes text) = (Some (Inr text), frame_bytes text)"
    using s(1) r(1) by (auto simp: tcp_client_def split: prod.split)
  with server show ?thesis by blast
qed

theorem tcp_echo_correct_witness:
  "\<exists>wire rest es'.
    echo_loop False (replicate 13 (Moved 3)) wire = (Some (Inr ()), wire, rest, es') \<and>
    tcp_client True (Interrupted # replicate 13 (Moved 1)) [72, 105] wire = (Some (Inr [72, 105]), wire)"
  by (rule tcp_echo_correct) (simp_all add: max_frame_def echo_calls_def working_def)


section \<open>Streams of frames and rejected frames\<close>

text \<open>One frame taken off a stream by a kernel that delivers all it is asked for; what arbitrary
  kernels do is the same by \<open>recv_frame_ok\<close>.\<close>

definition take_frame :: "bool \<Rightarrow> byte list \<Rightarrow> (byte list \<times> byte list) option" where
  "take_frame le stream =
     (case recv_frame le (replicate (Suc (length stream)) (Moved (Suc (length stream)))) stream of
        (Some (Inr (Some body)), rest, _) \<Rightarrow> Some (body, rest)
      | _ \<Rightarrow> None)"

lemma working_replicate [simp]: "0 < m \<Longrightarrow> working n (replicate k (Moved m)) \<longleftrightarrow> n \<le> k"
  by (auto simp: working_def)

interpretation frames: framing frame_bytes "take_frame le" "\<lambda>body. length body \<le> max_frame" for le
proof
  fix body rest :: "byte list"
  assume "length body \<le> max_frame"
  let ?n = "Suc (length (frame_bytes body @ rest))"
  have "working (4 + length body + 0) (replicate ?n (Moved ?n))" by simp
  from recv_frame_ok [OF \<open>length body \<le> max_frame\<close> this, of le rest]
  show "take_frame le (frame_bytes body @ rest) = Some (body, rest)"
    unfolding take_frame_def by auto
next
  show "take_frame le [] = None"
    using recv_frame_end [of 0 "[Moved 1]" le] by (auto simp: take_frame_def split: prod.split)
qed

lemma frame_error_cases:
  assumes calls: "working (Suc (length stream)) es"
  shows "stream = [] \<Longrightarrow> fst (recv_frame le es stream) = Some (Inr None)"
    and "0 < length stream \<Longrightarrow> length stream < 4 \<Longrightarrow>
      fst (recv_frame le es stream) = Some (Inl (RuntimeError ''EOF in the middle of a field''))"
    and "4 \<le> length stream \<Longrightarrow> max_frame < unat (unbytes32 (rev (take 4 stream))) \<Longrightarrow>
      \<exists>es'. recv_frame le es stream = (Some (Inl (RuntimeError ''frame too large'')), drop 4 stream, es')"
    and "4 \<le> length stream \<Longrightarrow> unat (unbytes32 (rev (take 4 stream))) \<le> max_frame \<Longrightarrow>
      length stream - 4 < unat (unbytes32 (rev (take 4 stream))) \<Longrightarrow>
      fst (recv_frame le es stream) = Some (Inl (RuntimeError
        (if length stream = 4 then ''EOF before body'' else ''EOF in the middle of a field'')))"
    and "max_frame < length body \<Longrightarrow>
      send_frame le es body = (Some (Inl (RuntimeError ''frame too large'')), [], es)"
proof -
  show "stream = [] \<Longrightarrow> fst (recv_frame le es stream) = Some (Inr None)"
    using calls recv_frame_end by blast
  show "0 < length stream \<Longrightarrow> length stream < 4 \<Longrightarrow>
      fst (recv_frame le es stream) = Some (Inl (RuntimeError ''EOF in the middle of a field''))"
    using recv_exact_eof [OF calls, of "[]" 4]
    by (auto simp: recv_frame_def split: prod.split)
  show "max_frame < length body \<Longrightarrow>
      send_frame le es body = (Some (Inl (RuntimeError ''frame too large'')), [], es)"
    by (simp add: send_frame_def)
  assume four: "4 \<le> length stream"
  define hdr where "hdr = unbytes32 (rev (take 4 stream))"
  have "rev (take 4 stream) = bytes32 hdr" using four by (simp add: hdr_def)
  then have hdr: "take 4 stream = rev (bytes32 hdr)" by (metis rev_rev_ident)
  have "working (4 - length ([] :: byte list) + Suc (length stream - 4)) es"
    by (rule working_mono [OF calls]) (use four in simp)
  from recv_exact_ok [OF this, of stream] four obtain es1 where
    1: "recv_exact es 4 [] stream = (Some (Inr (Some (rev (bytes32 hdr)))), drop 4 stream, es1)"
    and w: "working (Suc (length (drop 4 stream))) es1"
    by (auto simp: hdr)
  show "max_frame < unat hdr \<Longrightarrow>
      \<exists>es'. recv_frame le es stream = (Some (Inl (RuntimeError ''frame too large'')), drop 4 stream, es')"
    using 1 by (simp add: recv_frame_def wire_simps)
  assume fits: "unat hdr \<le> max_frame" and short: "length stream - 4 < unat hdr"
  have "fst (recv_exact es1 (unat hdr) [] (drop 4 stream)) =
     (if drop 4 stream = [] then Some (Inr None)
      else Some (Inl (RuntimeError ''EOF in the middle of a field'')))"
    using recv_exact_eof [OF w, of "[]" "unat hdr"] short by simp
  then show "fst (recv_frame le es stream) = Some (Inl (RuntimeError
        (if length stream = 4 then ''EOF before body'' else ''EOF in the middle of a field'')))"
    using 1 fits four by (auto simp: recv_frame_def wire_simps split: prod.split if_splits)
qed

text \<open>What \<open>recv_frame\<close> does with a stream that is not a sequence of legal frames: it returns
  \<open>false\<close> only on a clean end of stream, and throws on a truncated length, on a length above
  \<open>max_frame\<close> (before it allocates or reads a body), and on a truncated body; \<open>send_frame\<close> throws on
  an oversized body before it writes a byte.\<close>

theorem frame_errors:
  assumes "working (Suc (length stream)) es"
  shows "(stream = [] \<longrightarrow> fst (recv_frame le es stream) = Some (Inr None)) \<and>
    (0 < length stream \<and> length stream < 4 \<longrightarrow>
      fst (recv_frame le es stream) = Some (Inl (RuntimeError ''EOF in the middle of a field''))) \<and>
    (4 \<le> length stream \<and> max_frame < unat (unbytes32 (rev (take 4 stream))) \<longrightarrow>
      (\<exists>es'. recv_frame le es stream = (Some (Inl (RuntimeError ''frame too large'')), drop 4 stream, es'))) \<and>
    (4 \<le> length stream \<and> unat (unbytes32 (rev (take 4 stream))) \<le> max_frame \<and>
      length stream - 4 < unat (unbytes32 (rev (take 4 stream))) \<longrightarrow>
      fst (recv_frame le es stream) = Some (Inl (RuntimeError
        (if length stream = 4 then ''EOF before body'' else ''EOF in the middle of a field'')))) \<and>
    (max_frame < length body \<longrightarrow>
      send_frame le es body = (Some (Inl (RuntimeError ''frame too large'')), [], es))"
  by (intro conjI impI; (elim conjE)?) (rule frame_error_cases [OF assms]; assumption)+

theorem frame_errors_witness:
  "fst (recv_frame True (replicate 6 (Moved 4)) [0, 0, 0, 2, 7]) =
     Some (Inl (RuntimeError ''EOF in the middle of a field'')) \<and>
   (\<exists>es'. recv_frame True (replicate 5 (Moved 4)) [1, 0, 0, 0] =
     (Some (Inl (RuntimeError ''frame too large'')), [], es')) \<and>
   send_frame True [Moved 1] (replicate (Suc max_frame) 0) =
     (Some (Inl (RuntimeError ''frame too large'')), [], [Moved 1])"
proof (intro conjI)
  show "fst (recv_frame True (replicate 6 (Moved 4)) [0, 0, 0, 2, 7]) =
     Some (Inl (RuntimeError ''EOF in the middle of a field''))"
    using frame_errors [of "[0, 0, 0, 2, 7]" "replicate 6 (Moved 4)" True]
    by (simp add: unbytes32_def max_frame_def)
  show "\<exists>es'. recv_frame True (replicate 5 (Moved 4)) [1, 0, 0, 0] =
     (Some (Inl (RuntimeError ''frame too large'')), [], es')"
    using frame_errors [of "[1, 0, 0, 0]" "replicate 5 (Moved 4)" True]
    by (simp add: unbytes32_def max_frame_def)
  show "send_frame True [Moved 1] (replicate (Suc max_frame) 0) =
     (Some (Inl (RuntimeError ''frame too large'')), [], [Moved 1])"
    using frame_errors [of "[]" "[Moved 1]" True "replicate (Suc max_frame) 0"] by simp
qed

end
