(* ===== verification/Tlv_Echo.thy ===== *)
theory Tlv_Echo
  imports Net_Frame
begin

text \<open>
  The two Boost.Asio echo protocols of src/cplusplus/net\_program/code/cpp\_net:
  \<^item> base\_byteorder (server.cpp, client.cpp): type (2 bytes), body length (4 bytes), body;
  \<^item> base\_protobuf (echo\_server.cpp, echo\_client.cpp): total length (4 bytes, header included),
    type (2 bytes), a protobuf body.
  \<open>asio::read\<close> and \<open>asio::async_read\<close> are the parameter \<open>rd\<close>: \<open>rd n s\<close> takes \<open>n\<close> bytes off the
  stream \<open>s\<close>, or reports an error code.  The documented contract of these composed operations is
  \<open>reads_exactly\<close>.  The generated protobuf code is given by its parse and serialize functions.
\<close>

type_synonym reader = "nat \<Rightarrow> byte list \<Rightarrow> (byte list \<times> byte list) option"

definition reads_exactly :: "reader \<Rightarrow> bool" where
  "reads_exactly rd \<longleftrightarrow>
     (\<forall>bs rest. rd (length bs) (bs @ rest) = Some (bs, rest)) \<and>
     (\<forall>n s. length s < n \<longrightarrow> rd n s = None)"

definition exact_read :: reader where
  "exact_read n s = (if n \<le> length s then Some (take n s, drop n s) else None)"

lemma reads_exactly_exact_read: "reads_exactly exact_read"
  by (simp add: reads_exactly_def exact_read_def)

lemma reads_exactly_unique: "reads_exactly rd \<Longrightarrow> rd = exact_read"
proof (intro ext)
  fix n s
  assume rd: "reads_exactly rd"
  show "rd n s = exact_read n s"
  proof (cases "n \<le> length s")
    case True
    then have "rd (length (take n s)) (take n s @ drop n s) = Some (take n s, drop n s)"
      using rd unfolding reads_exactly_def by blast
    with True show ?thesis by (simp add: exact_read_def)
  next
    case False
    with rd show ?thesis by (simp add: reads_exactly_def exact_read_def)
  qed
qed

lemma exact_read_append [simp]: "length bs = n \<Longrightarrow> exact_read n (bs @ rest) = Some (bs, rest)"
  by (auto simp: exact_read_def)

lemma exact_read_short [simp]: "length s < n \<Longrightarrow> exact_read n s = None"
  by (simp add: exact_read_def)

section \<open>The type-length-value protocol\<close>

definition MAX_BODY :: u32 where
  "MAX_BODY = 4 * 1024 * 1024"

definition HEADER_SIZE :: nat where
  "HEADER_SIZE = 6"

record message =
  m_type :: u16
  m_body :: "byte list"

definition send_message :: "bool \<Rightarrow> u16 \<Rightarrow> byte list \<Rightarrow> byte list" where
  "send_message le type body =
     (let net_type = htons le type; net_len = htonl le (of_nat (length body)) in
      store16 le net_type @ store32 le net_len @ body)"

definition recv_message :: "reader \<Rightarrow> bool \<Rightarrow> byte list \<Rightarrow> (message \<times> byte list) outcome" where
  "recv_message rd le s =
     (case rd HEADER_SIZE s of
        None \<Rightarrow> Inl (RuntimeError ''asio::read'')
      | Some (header, s1) \<Rightarrow>
          let type = ntohs le (load16 le (take 2 header));
              body_len = ntohl le (load32 le (take 4 (drop 2 header)))
          in if body_len > 0
             then (case rd (unat body_len) s1 of
                     None \<Rightarrow> Inl (RuntimeError ''asio::read'')
                   | Some (body, s2) \<Rightarrow> Inr (\<lparr>m_type = type, m_body = body\<rparr>, s2))
             else Inr (\<lparr>m_type = type, m_body = []\<rparr>, s1))"

text \<open>
  The server session.  \<open>Reply\<close> carries the message handed to \<open>echo_back\<close> and the unread stream;
  \<open>Dropped\<close> is a session that starts no further operation (error, end of file, oversized body).
\<close>

datatype next_step = Dropped | Reply message "byte list"

definition read_body :: "reader \<Rightarrow> u16 \<Rightarrow> u32 \<Rightarrow> byte list \<Rightarrow> next_step" where
  "read_body rd type len s =
     (if len = 0 then Reply \<lparr>m_type = type, m_body = []\<rparr> s
      else case rd (unat len) s of
          None \<Rightarrow> Dropped
        | Some (body, s') \<Rightarrow> Reply \<lparr>m_type = type, m_body = body\<rparr> s')"

definition read_header :: "reader \<Rightarrow> bool \<Rightarrow> byte list \<Rightarrow> next_step" where
  "read_header rd le s =
     (case rd HEADER_SIZE s of
        None \<Rightarrow> Dropped
      | Some (header, s') \<Rightarrow>
          let host_type = ntohs le (load16 le (take 2 header));
              host_len = ntohl le (load32 le (take 4 (drop 2 header)))
          in if host_len > MAX_BODY then Dropped else read_body rd host_type host_len s')"

text \<open>
  \<open>echo_back\<close> hands \<open>async_write\<close> buffers that point to its own locals \<open>net_type\<close> and \<open>net_len\<close>.
  \<open>held = None\<close>: the six bytes left for the socket before the function returned; \<open>held = Some stack\<close>:
  the write was deferred and transmits what the dead stack slots then hold.  The body is kept alive
  by the handler.
\<close>

definition echo_back :: "bool \<Rightarrow> byte list option \<Rightarrow> message \<Rightarrow> byte list" where
  "echo_back le held m =
     (let net_type = htons le (m_type m); net_len = htonl le (of_nat (length (m_body m))) in
      (case held of
         None \<Rightarrow> store16 le net_type @ store32 le net_len
       | Some stack \<Rightarrow> take HEADER_SIZE stack) @ m_body m)"

text \<open>The chain of handlers, one round per message; \<open>None\<close> is a chain longer than the bound.\<close>

fun session_run :: "reader \<Rightarrow> bool \<Rightarrow> (nat \<Rightarrow> byte list option) \<Rightarrow> nat \<Rightarrow> nat \<Rightarrow> byte list \<Rightarrow> byte list option" where
  "session_run rd le held i 0 s = None"
| "session_run rd le held i (Suc n) s =
     (case read_header rd le s of
        Dropped \<Rightarrow> Some []
      | Reply m s' \<Rightarrow> map_option ((@) (echo_back le (held i) m)) (session_run rd le held (Suc i) n s'))"

definition tlv_bytes :: "message \<Rightarrow> byte list" where
  "tlv_bytes m = rev (bytes16 (m_type m)) @ rev (bytes32 (of_nat (length (m_body m)))) @ m_body m"

abbreviation tlv_fits :: "message \<Rightarrow> bool" where
  "tlv_fits m \<equiv> length (m_body m) \<le> unat MAX_BODY"

lemma send_message_bytes: "send_message le (m_type m) (m_body m) = tlv_bytes m"
  by (simp add: send_message_def tlv_bytes_def wire_simps)

lemma echo_back_bytes [simp]: "echo_back le None m = tlv_bytes m"
  by (simp add: echo_back_def tlv_bytes_def wire_simps)

lemma unat_MAX_BODY: "unat MAX_BODY = 4194304"
  by (simp add: MAX_BODY_def)

lemma exact_read_header:
  "exact_read HEADER_SIZE (tlv_bytes m @ rest) =
     Some (rev (bytes16 (m_type m)) @ rev (bytes32 (of_nat (length (m_body m)))), m_body m @ rest)"
  unfolding tlv_bytes_def append_assoc
  by (subst append_assoc [symmetric], subst exact_read_append) (simp_all add: HEADER_SIZE_def)

lemma unat_u32: "n < 2 ^ 32 \<Longrightarrow> unat (of_nat n :: u32) = n"
  by (simp add: unsigned_of_nat take_bit_nat_eq_self)

lemma of_nat_u32_eq_0: "n < 2 ^ 32 \<Longrightarrow> (of_nat n :: u32) = 0 \<longleftrightarrow> n = 0"
  using unat_u32 [of n] by auto

lemma recv_message_bytes:
  assumes "length (m_body m) < 2 ^ 32"
  shows "recv_message exact_read le (tlv_bytes m @ rest) = Inr (m, rest)"
  using of_nat_u32_eq_0 [OF assms] unat_u32 [OF assms]
  by (simp add: recv_message_def exact_read_header wire_simps Let_def word_neq_0_conv [symmetric])

lemma read_header_bytes:
  assumes "tlv_fits m"
  shows "read_header exact_read le (tlv_bytes m @ rest) = Reply m rest"
proof -
  have len: "length (m_body m) < 2 ^ 32" using assms by (simp add: unat_MAX_BODY)
  have "\<not> MAX_BODY < of_nat (length (m_body m))"
    using assms unat_u32 [OF len] by (simp add: word_less_nat_alt not_less)
  then show ?thesis using of_nat_u32_eq_0 [OF len] unat_u32 [OF len]
    by (simp add: read_header_def read_body_def exact_read_header wire_simps Let_def)
qed

definition recv_some :: "bool \<Rightarrow> byte list \<Rightarrow> (message \<times> byte list) option" where
  "recv_some le s = (case recv_message exact_read le s of Inl _ \<Rightarrow> None | Inr r \<Rightarrow> Some r)"

interpretation tlv: framing tlv_bytes "recv_some le" "\<lambda>m. length (m_body m) < 2 ^ 32" for le
proof
  show "recv_some le (tlv_bytes m @ rest) = Some (m, rest)" if "length (m_body m) < 2 ^ 32" for m rest
    using that by (simp add: recv_some_def recv_message_bytes)
  show "recv_some le [] = None" by (simp add: recv_some_def recv_message_def HEADER_SIZE_def)
qed

lemma session_run_echo:
  "\<forall>m \<in> set ms. tlv_fits m \<Longrightarrow> read_header exact_read le tail = Dropped \<Longrightarrow> length ms < n \<Longrightarrow>
   \<forall>j. held j = None \<Longrightarrow>
   session_run exact_read le held i n (concat (map tlv_bytes ms) @ tail) = Some (concat (map tlv_bytes ms))"
proof (induction ms arbitrary: n i)
  case Nil
  then obtain n' where "n = Suc n'" by (cases n) auto
  with Nil show ?case by simp
next
  case (Cons m ms)
  obtain n' where n: "n = Suc n'" "length ms < n'" using Cons.prems(3) by (cases n) auto
  have fits: "tlv_fits m" "\<forall>m \<in> set ms. tlv_fits m" using Cons.prems(1) by simp_all
  note IH = Cons.IH [OF fits(2) Cons.prems(2) n(2) Cons.prems(4)]
  have "held i = None" using Cons.prems(4) by blast
  then show ?case by (simp add: n(1) read_header_bytes [OF fits(1)] IH)
qed

text \<open>The base\_byteorder echo server, for clients and servers of any byte order: if every write
  leaves before \<open>echo_back\<close> returns, a session that is sent any sequence of messages with bodies up to
  MAX\_BODY, followed by bytes that are no acceptable message (a truncated header or body, an oversized
  length), writes back exactly the bytes of the complete messages, and the client's
  \<open>recv_message\<close> reads the messages it sent, in order.\<close>

theorem tlv_echo_correct:
  assumes "reads_exactly rd" "\<forall>m \<in> set ms. tlv_fits m" "read_header rd server_le tail = Dropped"
    and "\<forall>j. held j = None" "length ms < rounds"
  shows "\<exists>reply.
    session_run rd server_le held 0 rounds
      (concat (map (\<lambda>m. send_message client_le (m_type m) (m_body m)) ms) @ tail) = Some reply \<and>
    decode_all (\<lambda>s. case recv_message rd client_le s of Inl _ \<Rightarrow> None | Inr r \<Rightarrow> Some r)
      (length ms) reply = ms"
proof -
  note rd = reads_exactly_unique [OF assms(1)]
  have "session_run rd server_le held 0 rounds (concat (map tlv_bytes ms) @ tail) =
      Some (concat (map tlv_bytes ms))"
    using session_run_echo assms(2-5) unfolding rd by blast
  moreover have "decode_all (recv_some client_le) (length ms) (concat (map tlv_bytes ms)) = ms"
    using assms(2) by (intro tlv.decode_all_stream) (auto simp: unat_MAX_BODY)
  ultimately show ?thesis
    by (simp add: rd send_message_bytes recv_some_def [abs_def])
qed

theorem tlv_echo_correct_witness:
  "\<exists>reply.
    session_run exact_read True (\<lambda>_. None) 0 2
      (concat (map (\<lambda>m. send_message False (m_type m) (m_body m)) [\<lparr>m_type = 1, m_body = [72, 105]\<rparr>])
        @ [0, 1, 255]) = Some reply \<and>
    decode_all (\<lambda>s. case recv_message exact_read False s of Inl _ \<Rightarrow> None | Inr r \<Rightarrow> Some r)
      (length [\<lparr>m_type = 1, m_body = [72, 105 :: byte]\<rparr>]) reply = [\<lparr>m_type = 1, m_body = [72, 105]\<rparr>]"
  by (rule tlv_echo_correct)
    (simp_all add: reads_exactly_exact_read unat_MAX_BODY read_header_def HEADER_SIZE_def)

text \<open>A deferred write transmits the dead stack frame: whenever the six bytes found there are not
  the header that \<open>echo_back\<close> built, the client does not receive the echo of its message.\<close>

theorem tlv_deferred_write_corrupts:
  assumes "tlv_fits m" "length stack = HEADER_SIZE"
    and "stack \<noteq> rev (bytes16 (m_type m)) @ rev (bytes32 (of_nat (length (m_body m))))"
  shows "session_run exact_read le (\<lambda>_. Some stack) 0 2 (tlv_bytes m) = Some (stack @ m_body m) \<and>
    stack @ m_body m \<noteq> tlv_bytes m"
proof -
  have "read_header exact_read le (tlv_bytes m) = Reply m []"
    using read_header_bytes [OF assms(1), of le "[]"] by simp
  moreover have "read_header exact_read le [] = Dropped" by (simp add: read_header_def HEADER_SIZE_def)
  ultimately have "session_run exact_read le (\<lambda>_. Some stack) 0 2 (tlv_bytes m) = Some (stack @ m_body m)"
    using assms(2) by (simp add: eval_nat_numeral echo_back_def)
  then show ?thesis using assms(3) unfolding tlv_bytes_def append_assoc [symmetric] append_same_eq by simp
qed

theorem tlv_deferred_write_corrupts_witness:
  "session_run exact_read True (\<lambda>_. Some [0, 0, 0, 0, 0, 0]) 0 2 (tlv_bytes \<lparr>m_type = 1, m_body = [72]\<rparr>) =
     Some ([0, 0, 0, 0, 0, 0] @ [72]) \<and>
   [0, 0, 0, 0, 0, 0] @ [72] \<noteq> tlv_bytes \<lparr>m_type = 1, m_body = [72]\<rparr>"
  using tlv_deferred_write_corrupts [of "\<lparr>m_type = 1, m_body = [72]\<rparr>" "[0, 0, 0, 0, 0, 0]" True]
  by (simp add: unat_MAX_BODY HEADER_SIZE_def bytes16_def bytes32_def)

section \<open>The protobuf protocol\<close>

definition LOGIN_REQUEST :: u16 where "LOGIN_REQUEST = 1"
definition LOGIN_RESPONSE :: u16 where "LOGIN_RESPONSE = 2"
definition CHAT_MESSAGE :: u16 where "CHAT_MESSAGE = 3"
definition HEARTBEAT :: u16 where "HEARTBEAT = 4"

text \<open>\<open>send_protobuf\<close>: \<open>None\<close> when \<open>SerializeToString\<close> fails, otherwise the bytes written.\<close>

definition send_protobuf :: "('m \<Rightarrow> byte list option) \<Rightarrow> bool \<Rightarrow> u16 \<Rightarrow> 'm \<Rightarrow> byte list option" where
  "send_protobuf serialize le msg_type msg =
     (case serialize msg of
        None \<Rightarrow> None
      | Some body \<Rightarrow>
          let total = of_nat (HEADER_SIZE + length body);
              net_total = htonl le total;
              net_type = htons le msg_type
          in Some (store32 le net_total @ store16 le net_type @ body))"

text \<open>\<open>recv_protobuf\<close> of the server, and that of the client, which has no length check.\<close>

definition recv_protobuf :: "reader \<Rightarrow> bool \<Rightarrow> byte list \<Rightarrow> ((u16 \<times> byte list) \<times> byte list) option" where
  "recv_protobuf rd le s =
     (case rd HEADER_SIZE s of
        None \<Rightarrow> None
      | Some (header, s1) \<Rightarrow>
          let total = ntohl le (load32 le (take 4 header));
              msg_type = ntohs le (load16 le (take 2 (drop 4 header)))
          in if total < of_nat HEADER_SIZE \<or> total > MAX_BODY then None
             else let body_len = total - of_nat HEADER_SIZE in
               if body_len > 0
               then (case rd (unat body_len) s1 of
                       None \<Rightarrow> None | Some (body, s2) \<Rightarrow> Some ((msg_type, body), s2))
               else Some ((msg_type, []), s1))"

definition recv_protobuf_client ::
  "reader \<Rightarrow> bool \<Rightarrow> byte list \<Rightarrow> ((u16 \<times> byte list) \<times> byte list) option" where
  "recv_protobuf_client rd le s =
     (case rd HEADER_SIZE s of
        None \<Rightarrow> None
      | Some (header, s1) \<Rightarrow>
          let total = ntohl le (load32 le (take 4 header));
              msg_type = ntohs le (load16 le (take 2 (drop 4 header)));
              body_len = total - of_nat HEADER_SIZE
          in if body_len > 0
             then (case rd (unat body_len) s1 of
                     None \<Rightarrow> None | Some (body, s2) \<Rightarrow> Some ((msg_type, body), s2))
             else Some ((msg_type, []), s1))"

text \<open>The session's \<open>on_header\<close>: the type and body for \<open>on_body\<close>, or \<open>None\<close> when it stops.\<close>

definition on_header :: "reader \<Rightarrow> bool \<Rightarrow> byte list \<Rightarrow> byte list \<Rightarrow> ((u16 \<times> byte list) \<times> byte list) option" where
  "on_header rd le header s =
     (let total = ntohl le (load32 le (take 4 header));
          msg_type = ntohs le (load16 le (take 2 (drop 4 header)))
      in if total < of_nat HEADER_SIZE \<or> total > MAX_BODY then None
         else let body_len = total - of_nat HEADER_SIZE in
           if body_len = 0 then Some ((msg_type, []), s)
           else case rd (unat body_len) s of
               None \<Rightarrow> None | Some (body, s') \<Rightarrow> Some ((msg_type, body), s'))"

text \<open>The protobuf messages the server knows, by the parse and serialize functions of the generated
  classes.\<close>

record ('c, 'h) pb_code =
  parse_chat :: "byte list \<Rightarrow> 'c option"
  ser_chat :: "'c \<Rightarrow> byte list option"
  parse_hb :: "byte list \<Rightarrow> 'h option"
  ser_hb :: "'h \<Rightarrow> byte list option"

definition on_body :: "('c, 'h) pb_code \<Rightarrow> bool \<Rightarrow> u16 \<Rightarrow> byte list \<Rightarrow> byte list" where
  "on_body pb le msg_type raw =
     (if msg_type = CHAT_MESSAGE then
        (case parse_chat pb raw of
           None \<Rightarrow> []
         | Some msg \<Rightarrow> (case send_protobuf (ser_chat pb) le CHAT_MESSAGE msg of None \<Rightarrow> [] | Some out \<Rightarrow> out))
      else if msg_type = HEARTBEAT then
        (case parse_hb pb raw of
           None \<Rightarrow> []
         | Some hb \<Rightarrow> (case send_protobuf (ser_hb pb) le HEARTBEAT hb of None \<Rightarrow> [] | Some out \<Rightarrow> out))
      else [])"

fun read_loop :: "('c, 'h) pb_code \<Rightarrow> reader \<Rightarrow> bool \<Rightarrow> nat \<Rightarrow> byte list \<Rightarrow> byte list option" where
  "read_loop pb rd le 0 s = None"
| "read_loop pb rd le (Suc n) s =
     (case rd HEADER_SIZE s of
        None \<Rightarrow> Some []
      | Some (header, s1) \<Rightarrow>
          (case on_header rd le header s1 of
             None \<Rightarrow> Some []
           | Some ((msg_type, raw), s2) \<Rightarrow>
               map_option ((@) (on_body pb le msg_type raw)) (read_loop pb rd le n s2)))"

definition pb_bytes :: "u16 \<Rightarrow> byte list \<Rightarrow> byte list" where
  "pb_bytes ty body = rev (bytes32 (of_nat (HEADER_SIZE + length body))) @ rev (bytes16 ty) @ body"

lemma length_pb_bytes [simp]: "length (pb_bytes ty body) = HEADER_SIZE + length body"
  by (simp add: pb_bytes_def HEADER_SIZE_def)

lemma send_protobuf_bytes: "send_protobuf ser le ty m = map_option (pb_bytes ty) (ser m)"
  by (simp add: send_protobuf_def pb_bytes_def wire_simps split: option.split)

lemma exact_read_pb_header:
  "exact_read HEADER_SIZE (pb_bytes ty body @ rest) =
     Some (rev (bytes32 (of_nat (HEADER_SIZE + length body))) @ rev (bytes16 ty), body @ rest)"
  unfolding pb_bytes_def append_assoc
  by (subst append_assoc [symmetric], subst exact_read_append) (simp_all add: HEADER_SIZE_def)

lemma pb_total:
  assumes "HEADER_SIZE + length body \<le> unat MAX_BODY"
  shows "\<not> (of_nat (HEADER_SIZE + length body) :: u32) < of_nat HEADER_SIZE"
    and "\<not> MAX_BODY < of_nat (HEADER_SIZE + length body)"
    and "of_nat (HEADER_SIZE + length body) - (of_nat HEADER_SIZE :: u32) = of_nat (length body)"
    and "unat (of_nat (length body) :: u32) = length body"
    and "(of_nat (length body) :: u32) = 0 \<longleftrightarrow> body = []"
    and "(of_nat (HEADER_SIZE + length body) :: u32) = of_nat HEADER_SIZE \<longleftrightarrow> body = []"
proof -
  have len: "HEADER_SIZE + length body < 2 ^ 32" "HEADER_SIZE < 2 ^ 32" "length body < 2 ^ 32"
    using assms by (simp_all add: unat_MAX_BODY HEADER_SIZE_def)
  note u = len [THEN unat_u32]
  show "\<not> (of_nat (HEADER_SIZE + length body) :: u32) < of_nat HEADER_SIZE"
    unfolding word_less_nat_alt u by simp
  show "\<not> MAX_BODY < of_nat (HEADER_SIZE + length body)"
    unfolding word_less_nat_alt u using assms by simp
  show "of_nat (HEADER_SIZE + length body) - (of_nat HEADER_SIZE :: u32) = of_nat (length body)" by simp
  show "unat (of_nat (length body) :: u32) = length body" by (rule u(3))
  show "(of_nat (length body) :: u32) = 0 \<longleftrightarrow> body = []" using of_nat_u32_eq_0 [OF len(3)] by simp
  then show "(of_nat (HEADER_SIZE + length body) :: u32) = of_nat HEADER_SIZE \<longleftrightarrow> body = []" by simp
qed

lemma on_header_bytes:
  assumes "HEADER_SIZE + length body \<le> unat MAX_BODY"
  shows "on_header exact_read le (rev (bytes32 (of_nat (HEADER_SIZE + length body))) @ rev (bytes16 ty))
     (body @ rest) = Some ((ty, body), rest)"
  using pb_total [OF assms]
  by (auto simp del: of_nat_add simp: on_header_def wire_simps Let_def)

lemma recv_protobuf_bytes:
  assumes "HEADER_SIZE + length body \<le> unat MAX_BODY"
  shows "recv_protobuf exact_read le (pb_bytes ty body @ rest) = Some ((ty, body), rest)"
    and "recv_protobuf_client exact_read le (pb_bytes ty body @ rest) = Some ((ty, body), rest)"
  using pb_total [OF assms]
  by (simp_all del: of_nat_add add: recv_protobuf_def recv_protobuf_client_def exact_read_pb_header
      wire_simps Let_def word_neq_0_conv [symmetric])

interpretation pb: framing "\<lambda>(ty, body). pb_bytes ty body" "recv_protobuf exact_read le"
  "\<lambda>(ty, body). HEADER_SIZE + length body \<le> unat MAX_BODY" for le
proof
  show "recv_protobuf exact_read le ((\<lambda>(ty, body). pb_bytes ty body) m @ rest) = Some (m, rest)"
    if "(\<lambda>(ty, body). HEADER_SIZE + length body \<le> unat MAX_BODY) m" for m rest
    using that recv_protobuf_bytes(1) by (cases m) simp
  show "recv_protobuf exact_read le [] = None" by (simp add: recv_protobuf_def HEADER_SIZE_def)
qed

text \<open>What the session relies on of protobuf: a serialized message parses back to itself.\<close>

definition pb_roundtrips :: "('c, 'h) pb_code \<Rightarrow> bool" where
  "pb_roundtrips pb \<longleftrightarrow>
     (\<forall>m raw. ser_chat pb m = Some raw \<longrightarrow> parse_chat pb raw = Some m) \<and>
     (\<forall>m raw. ser_hb pb m = Some raw \<longrightarrow> parse_hb pb raw = Some m)"

datatype ('c, 'h) pb_msg = Chat 'c | Beat 'h

definition client_send :: "('c, 'h) pb_code \<Rightarrow> bool \<Rightarrow> ('c, 'h) pb_msg \<Rightarrow> byte list option" where
  "client_send pb le m = (case m of
     Chat c \<Rightarrow> send_protobuf (ser_chat pb) le CHAT_MESSAGE c
   | Beat h \<Rightarrow> send_protobuf (ser_hb pb) le HEARTBEAT h)"

lemma client_send_echo:
  assumes "pb_roundtrips pb" "client_send pb le m = Some out"
  shows "\<exists>ty raw. out = pb_bytes ty raw \<and> on_body pb le' ty raw = out"
proof (cases m)
  case (Chat c)
  with assms obtain raw where "ser_chat pb c = Some raw" "out = pb_bytes CHAT_MESSAGE raw"
    by (auto simp: client_send_def send_protobuf_bytes)
  with assms(1) show ?thesis
    by (intro exI [of _ CHAT_MESSAGE] exI [of _ raw])
      (simp add: pb_roundtrips_def on_body_def send_protobuf_bytes)
next
  case (Beat h)
  with assms obtain raw where "ser_hb pb h = Some raw" "out = pb_bytes HEARTBEAT raw"
    by (auto simp: client_send_def send_protobuf_bytes)
  with assms(1) show ?thesis
    by (intro exI [of _ HEARTBEAT] exI [of _ raw])
      (simp add: pb_roundtrips_def on_body_def send_protobuf_bytes CHAT_MESSAGE_def HEARTBEAT_def)
qed

text \<open>The base\_protobuf session answers every chat message and heartbeat a client sends with
  exactly the bytes it received, whatever the byte orders, provided the messages serialize to at most
  MAX\_BODY bytes with their header, and it ends with the stream.\<close>

theorem protobuf_echo_correct:
  assumes "reads_exactly rd" "pb_roundtrips pb"
    and "list_all2 (\<lambda>m out. client_send pb client_le m = Some out \<and> length out \<le> unat MAX_BODY) ms outs"
    and "length ms < rounds"
  shows "read_loop pb rd server_le rounds (concat outs) = Some (concat outs)"
  unfolding reads_exactly_unique [OF assms(1)] using assms(3,4)
proof (induction arbitrary: rounds rule: list_all2_induct)
  case Nil
  then obtain n where "rounds = Suc n" by (cases rounds) auto
  then show ?case by (simp add: HEADER_SIZE_def)
next
  case (Cons m ms out outs)
  obtain n where n: "rounds = Suc n" "length ms < n" using Cons.prems by (cases rounds) auto
  from client_send_echo [OF assms(2)] Cons.hyps(1) obtain ty raw where
    out: "out = pb_bytes ty raw" "on_body pb server_le ty raw = out" by blast
  have fits: "HEADER_SIZE + length raw \<le> unat MAX_BODY" using Cons.hyps(1) by (simp add: out(1))
  have "read_loop pb exact_read server_le rounds (out @ concat outs) =
      map_option ((@) out) (read_loop pb exact_read server_le n (concat outs))"
    using out(2) unfolding n(1) by (simp add: out(1) exact_read_pb_header on_header_bytes [OF fits] del: of_nat_add)
  then show ?case using Cons.IH [OF n(2)] by simp
qed

theorem protobuf_echo_correct_witness:
  "read_loop \<lparr>parse_chat = Some, ser_chat = Some, parse_hb = Some, ser_hb = Some\<rparr> exact_read True 3
     (concat [[0, 0, 0, 8, 0, 3, 72, 105], [0, 0, 0, 6, 0, 4]]) =
   Some (concat [[0, 0, 0, 8, 0, 3, 72, 105], [0, 0, 0, 6, 0, 4]])"
  by (rule protobuf_echo_correct [where ms = "[Chat [72, 105], Beat []]" and client_le = False])
    (simp_all add: reads_exactly_exact_read pb_roundtrips_def client_send_def send_protobuf_bytes
      pb_bytes_def HEADER_SIZE_def bytes32_def bytes16_def CHAT_MESSAGE_def HEARTBEAT_def unat_MAX_BODY)

text \<open>A header whose total is below the header size is refused by the server, while the client
  computes the body length modulo \<open>2 ^ 32\<close>: it then asks for a body of more than 4294967289 bytes.\<close>

theorem protobuf_client_underflow:
  assumes "reads_exactly rd" "tot < of_nat HEADER_SIZE"
    and stream: "s = rev (bytes32 tot) @ rev (bytes16 ty) @ rest"
  shows "recv_protobuf rd le s = None \<and>
    unat (tot - of_nat HEADER_SIZE) \<ge> 2 ^ 32 - HEADER_SIZE \<and>
    recv_protobuf_client rd le s =
      map_option (\<lambda>(body, rest'). ((ty, body), rest')) (rd (unat (tot - of_nat HEADER_SIZE)) rest)"
proof -
  note rd = reads_exactly_unique [OF assms(1)]
  have hdr: "rd HEADER_SIZE s = Some (rev (bytes32 tot) @ rev (bytes16 ty), rest)"
    unfolding rd stream
    by (subst append_assoc [symmetric], subst exact_read_append) (simp_all add: HEADER_SIZE_def)
  have u: "unat tot < HEADER_SIZE"
    using assms(2) by (simp add: word_less_nat_alt HEADER_SIZE_def)
  have "unat (tot - of_nat HEADER_SIZE) = 2 ^ 32 + unat tot - HEADER_SIZE"
    using u by (simp add: unat_sub_if_size word_size HEADER_SIZE_def not_le)
  moreover from this have "tot - of_nat HEADER_SIZE > 0"
    using u by (simp add: word_less_nat_alt HEADER_SIZE_def)
  ultimately show ?thesis using assms(2) hdr
    by (auto simp: recv_protobuf_def recv_protobuf_client_def wire_simps split: option.split)
qed

theorem protobuf_client_underflow_witness:
  "recv_protobuf exact_read True [0, 0, 0, 0, 0, 3] = None \<and>
   unat (0 - of_nat HEADER_SIZE :: u32) \<ge> 2 ^ 32 - HEADER_SIZE \<and>
   recv_protobuf_client exact_read True [0, 0, 0, 0, 0, 3] =
     map_option (\<lambda>(body, rest'). ((3, body), rest')) (exact_read (unat (0 - of_nat HEADER_SIZE :: u32)) [])"
  by (rule protobuf_client_underflow)
    (simp_all add: reads_exactly_exact_read HEADER_SIZE_def bytes32_def bytes16_def)

end
