(* ===== verification/Order_Flow.thy ===== *)
theory Order_Flow
  imports Prelude Complex_Main
begin

text \<open>
  The order workflow of src/cplusplus/design\_patterns/finial/order: the order with its state
  objects (state.hpp), pricing strategies (strategy.hpp), builder (builder.hpp), observers
  (observer.hpp), the chain of validators (cor.hpp), the payment adapter (adapter.hpp), the shop
  facade (facade.hpp) and the checkout command (command.hpp).

  A class hierarchy whose leaves are final is a datatype with one constructor per leaf, a
  \<open>unique_ptr\<close> is an option (\<open>None\<close> the null pointer, whose dereference is \<open>UB\<close>).  What the code
  prints or hands to others is a list of events.  The type of doubles is a parameter \<open>'d\<close> with its
  arithmetic in a record, so nothing depends on how products are rounded.  Messages of exceptions are
  translated to English.
\<close>

section \<open>Data\<close>

record 'd fp =
  f_lit :: "rat \<Rightarrow> 'd"
  f_int :: "int \<Rightarrow> 'd"
  f_add :: "'d \<Rightarrow> 'd \<Rightarrow> 'd"
  f_mul :: "'d \<Rightarrow> 'd \<Rightarrow> 'd"
  f_trunc :: "'d \<Rightarrow> int option"

datatype order_state = Draft | AwaitingPayment | Paid | Shipped | Cancelled

datatype pricing = RegularPricing | VipPricing

record 'd order_item =
  name :: string
  quantity :: int
  unitPrice :: 'd
  stock :: int

datatype 'd event =
    StateChanged nat string order_state
  | Refund
  | Amounts 'd 'd
  | MakePayment string int

record 'd order =
  o_id :: string
  o_items :: "'d order_item list"
  o_state :: order_state
  o_pricing :: "pricing option"
  o_observers :: "nat list"
  out :: "'d event list"

type_synonym 'd order_act = "('d order, unit) act"

section \<open>Pricing, order construction\<close>

fun calculate :: "'d fp \<Rightarrow> pricing \<Rightarrow> 'd \<Rightarrow> 'd" where
  "calculate F RegularPricing original = original"
| "calculate F VipPricing original = f_mul F original (f_lit F (9 / 10))"

definition mk_order :: "string \<Rightarrow> 'd order_item list \<Rightarrow> 'd order" where
  "mk_order i items =
     \<lparr>o_id = i, o_items = items, o_state = Draft, o_pricing = Some RegularPricing, o_observers = [], out = []\<rparr>"

record 'd builder =
  b_id :: string
  b_items :: "'d order_item list"

definition order_builder :: "string \<Rightarrow> 'd builder" where
  "order_builder i = \<lparr>b_id = i, b_items = []\<rparr>"

definition addItem :: "string \<Rightarrow> int \<Rightarrow> 'd \<Rightarrow> int \<Rightarrow> 'd builder \<Rightarrow> 'd builder" where
  "addItem n q u st b = b\<lparr>b_items := b_items b @ [\<lparr>name = n, quantity = q, unitPrice = u, stock = st\<rparr>]\<rparr>"

text \<open>\<open>build\<close> moves the fields out of the builder, which is left empty.\<close>

definition build :: "'d builder \<Rightarrow> 'd order \<times> 'd builder" where
  "build b = (mk_order (b_id b) (b_items b), \<lparr>b_id = [], b_items = []\<rparr>)"

definition originalAmount :: "'d fp \<Rightarrow> 'd order \<Rightarrow> 'd" where
  "originalAmount F ord =
     foldl (\<lambda>result item. f_add F result (f_mul F (f_int F (quantity item)) (unitPrice item)))
       (f_lit F 0) (o_items ord)"

definition payableAmount :: "'d fp \<Rightarrow> 'd order \<Rightarrow> 'd outcome" where
  "payableAmount F ord =
     (case o_pricing ord of
        None \<Rightarrow> Inl UB
      | Some strategy \<Rightarrow> Inr (calculate F strategy (originalAmount F ord)))"

definition setPricing :: "pricing option \<Rightarrow> 'd order_act" where
  "setPricing strategy = modify (o_pricing_update (\<lambda>_. strategy))"

definition addObserver :: "nat \<Rightarrow> 'd order_act" where
  "addObserver observer = modify (o_observers_update (\<lambda>os. os @ [observer]))"

section \<open>The state machine\<close>

definition transitionTo :: "order_state \<Rightarrow> 'd order_act" where
  "transitionTo next = modify (\<lambda>ord.
     ord\<lparr>o_state := next,
         out := out ord @ map (\<lambda>observer. StateChanged observer (o_id ord) next) (o_observers ord)\<rparr>)"

fun state_submit :: "order_state \<Rightarrow> 'd order_act" where
  "state_submit Draft = transitionTo AwaitingPayment"
| "state_submit _ = throw (LogicError ''cannot submit in this state'')"

fun state_pay :: "order_state \<Rightarrow> 'd order_act" where
  "state_pay AwaitingPayment = transitionTo Paid"
| "state_pay _ = throw (LogicError ''cannot pay in this state'')"

fun state_ship :: "order_state \<Rightarrow> 'd order_act" where
  "state_ship Paid = transitionTo Shipped"
| "state_ship _ = throw (LogicError ''cannot ship in this state'')"

fun state_cancel :: "order_state \<Rightarrow> 'd order_act" where
  "state_cancel Draft = transitionTo Cancelled"
| "state_cancel AwaitingPayment = transitionTo Cancelled"
| "state_cancel Paid =
     seq (modify (\<lambda>ord. ord\<lparr>out := out ord @ [Refund]\<rparr>)) (\<lambda>_. transitionTo Cancelled)"
| "state_cancel _ = throw (LogicError ''cannot cancel in this state'')"

definition submit :: "'d order_act" where "submit ord = state_submit (o_state ord) ord"
definition pay :: "'d order_act" where "pay ord = state_pay (o_state ord) ord"
definition ship :: "'d order_act" where "ship ord = state_ship (o_state ord) ord"
definition cancel :: "'d order_act" where "cancel ord = state_cancel (o_state ord) ord"

section \<open>Validators\<close>

datatype validator = NonEmptyValidator | StockValidator

datatype vchain = VNode validator "vchain option"

fun setNext :: "vchain \<Rightarrow> vchain \<Rightarrow> vchain" where
  "setNext (VNode v _) nxt = VNode v (Some nxt)"

fun stock_loop :: "'d order_item list \<Rightarrow> unit outcome" where
  "stock_loop [] = Inr ()"
| "stock_loop (item # items) =
     (if quantity item \<le> 0 \<or> quantity item > stock item
      then Inl (RuntimeError (name item @ '' out of stock or illegal quantity''))
      else stock_loop items)"

fun check :: "validator \<Rightarrow> 'd order \<Rightarrow> unit outcome" where
  "check NonEmptyValidator ord =
     (if o_items ord = [] then Inl (RuntimeError ''the cart must not be empty'') else Inr ())"
| "check StockValidator ord = stock_loop (o_items ord)"

fun validate :: "vchain \<Rightarrow> 'd order \<Rightarrow> unit outcome" where
  "validate (VNode v nxt) ord =
     andThen (check v ord) (\<lambda>_. case nxt of None \<Rightarrow> Inr () | Some n \<Rightarrow> validate n ord)"

section \<open>Payment, checkout\<close>

text \<open>A payment gateway: its answer and what it does; the adapter calls the legacy SDK, which
  reports success by 0.  A conversion to \<open>long\<close> out of range is undefined.\<close>

type_synonym 'd gateway = "string \<Rightarrow> 'd \<Rightarrow> (bool \<times> 'd event list) outcome"

definition makePayment :: "string \<Rightarrow> int \<Rightarrow> int \<times> 'd event list" where
  "makePayment tradeNo cents = (0, [MakePayment tradeNo cents])"

definition adapter_pay :: "'d fp \<Rightarrow> 'd gateway" where
  "adapter_pay F orderId amount =
     (case f_trunc F (f_add F (f_mul F amount (f_lit F 100)) (f_lit F (1 / 2))) of
        None \<Rightarrow> Inl UB
      | Some cents \<Rightarrow> let (rc, evs) = makePayment orderId cents in Inr (rc = 0, evs))"

definition payable :: "'d fp \<Rightarrow> ('d order, 'd) act" where
  "payable F ord = (payableAmount F ord, ord)"

definition gateway_pay :: "'d gateway \<Rightarrow> 'd \<Rightarrow> ('d order, bool) act" where
  "gateway_pay G amount ord =
     (case G (o_id ord) amount of
        Inl e \<Rightarrow> (Inl e, ord)
      | Inr (ok, evs) \<Rightarrow> (Inr ok, ord\<lparr>out := out ord @ evs\<rparr>))"

definition checkout :: "'d fp \<Rightarrow> vchain \<Rightarrow> 'd gateway \<Rightarrow> pricing option \<Rightarrow> 'd order_act" where
  "checkout F V G strategy =
     seq (\<lambda>ord. (validate V ord, ord)) (\<lambda>_.
     seq (setPricing strategy) (\<lambda>_.
     seq (payable F) (\<lambda>amount.
     seq (modify (\<lambda>ord. ord\<lparr>out := out ord @ [Amounts (originalAmount F ord) amount]\<rparr>)) (\<lambda>_.
     seq submit (\<lambda>_.
     seq (payable F) (\<lambda>amount.
     seq (gateway_pay G amount) (\<lambda>ok.
     if \<not> ok then seq cancel (\<lambda>_. throw (RuntimeError ''payment failed''))
     else pay)))))))"

section \<open>The checkout command\<close>

text \<open>The command holds the strategy until it is moved into \<open>checkout\<close>; the order is shared by
  reference, so it is part of the state the command acts on.\<close>

record 'd command =
  c_order :: "'d order"
  c_pricing :: "pricing option"
  c_executed :: bool

definition execute :: "'d fp \<Rightarrow> vchain \<Rightarrow> 'd gateway \<Rightarrow> ('d command, unit) act" where
  "execute F V G c =
     (if c_executed c then (Inl (LogicError ''the command must not be executed twice''), c)
      else case checkout F V G (c_pricing c) (c_order c) of
          (Inl e, ord) \<Rightarrow> (Inl e, c\<lparr>c_order := ord, c_pricing := None\<rparr>)
        | (Inr _, ord) \<Rightarrow> (Inr (), c\<lparr>c_order := ord, c_pricing := None, c_executed := True\<rparr>))"

definition undo :: "('d command, unit) act" where
  "undo c =
     (if \<not> c_executed c then (Inl (LogicError ''not executed, cannot undo''), c)
      else case cancel (c_order c) of
          (Inl e, ord) \<Rightarrow> (Inl e, c\<lparr>c_order := ord\<rparr>)
        | (Inr _, ord) \<Rightarrow> (Inr (), c\<lparr>c_order := ord, c_executed := False\<rparr>))"

section \<open>Histories of an order\<close>

datatype order_request = Submit | Pay | Ship | Cancel

text \<open>The life cycle as a table: the state a request leads to, and the message of a refusal.\<close>

fun life_cycle :: "order_request \<Rightarrow> order_state \<Rightarrow> order_state option" where
  "life_cycle Submit Draft = Some AwaitingPayment"
| "life_cycle Pay AwaitingPayment = Some Paid"
| "life_cycle Ship Paid = Some Shipped"
| "life_cycle Cancel Draft = Some Cancelled"
| "life_cycle Cancel AwaitingPayment = Some Cancelled"
| "life_cycle Cancel Paid = Some Cancelled"
| "life_cycle _ _ = None"

fun refusal :: "order_request \<Rightarrow> string" where
  "refusal Submit = ''cannot submit in this state''"
| "refusal Pay = ''cannot pay in this state''"
| "refusal Ship = ''cannot ship in this state''"
| "refusal Cancel = ''cannot cancel in this state''"

text \<open>The states a sequence of requests enters, from a given one.\<close>

fun life_path :: "order_request list \<Rightarrow> order_state \<Rightarrow> order_state list" where
  "life_path [] s = []"
| "life_path (r # rs) s = (case life_cycle r s of None \<Rightarrow> life_path rs s | Some s' \<Rightarrow> s' # life_path rs s')"

text \<open>The requests a client may make at any time.\<close>

fun request :: "order_request \<Rightarrow> 'd order_act" where
  "request Submit = submit"
| "request Pay = pay"
| "request Ship = ship"
| "request Cancel = cancel"

text \<open>The client catches the exceptions and goes on.\<close>

definition requests :: "order_request list \<Rightarrow> 'd order \<Rightarrow> 'd order" where
  "requests rs ord = fold (\<lambda>r ord. snd (request r ord)) rs ord"

definition notify :: "'d order \<Rightarrow> order_state \<Rightarrow> 'd event list" where
  "notify ord s = map (\<lambda>observer. StateChanged observer (o_id ord) s) (o_observers ord)"

definition enter :: "'d order \<Rightarrow> order_state \<Rightarrow> 'd event list" where
  "enter ord s = (if s = Cancelled \<and> o_state ord = Paid then [Refund] else []) @ notify ord s"

lemmas order_ops = submit_def pay_def ship_def cancel_def transitionTo_def act_simps

lemma request_table:
  "request r ord = (case life_cycle r (o_state ord) of
     None \<Rightarrow> (Inl (LogicError (refusal r)), ord)
   | Some s \<Rightarrow> (Inr (), ord\<lparr>o_state := s, out := out ord @ enter ord s\<rparr>))"
  by (cases r; cases "o_state ord"; simp add: order_ops enter_def notify_def seq_def)

text \<open>The events of a path of states entered one after the other, from the state \<open>s0\<close>.\<close>

fun path_events :: "'d order \<Rightarrow> order_state \<Rightarrow> order_state list \<Rightarrow> 'd event list" where
  "path_events ord s0 [] = []"
| "path_events ord s0 (s # path) = enter (ord\<lparr>o_state := s0\<rparr>) s @ path_events ord s path"

lemma path_events_static [simp]:
  "path_events (ord\<lparr>o_state := s, out := es\<rparr>) s0 path = path_events ord s0 path"
  by (induction path arbitrary: s0) (simp_all add: enter_def notify_def)

text \<open>Each change brings an order nearer to its end.\<close>

fun changes_left :: "order_state \<Rightarrow> nat" where
  "changes_left Draft = 3"
| "changes_left AwaitingPayment = 2"
| "changes_left Paid = 1"
| "changes_left _ = 0"

lemma life_cycle_progress: "life_cycle r s = Some s' \<Longrightarrow> changes_left s' < changes_left s"
  by (cases r; cases s; auto)

lemma life_path_length: "length (life_path rs s) \<le> changes_left s"
proof (induction rs arbitrary: s)
  case (Cons r rs)
  show ?case
  proof (cases "life_cycle r s")
    case None
    then show ?thesis using Cons.IH [of s] by simp
  next
    case (Some s')
    then show ?thesis using Cons.IH [of s'] life_cycle_progress [OF Some] by simp
  qed
qed simp

lemma requests_path:
  "requests rs ord = ord\<lparr>o_state := last (o_state ord # life_path rs (o_state ord)),
     out := out ord @ path_events ord (o_state ord) (life_path rs (o_state ord))\<rparr>"
proof (induction rs arbitrary: ord)
  case Nil
  show ?case by (simp add: requests_def)
next
  case (Cons r rs)
  have e: "requests (r # rs) ord = requests rs (snd (request r ord))" by (simp add: requests_def)
  show ?case unfolding e
    by (cases "life_cycle r (o_state ord)") (simp_all add: Cons.IH request_table)
qed

text \<open>C13: The life cycle of an order, request by request.  Submitting takes a draft to awaiting payment, paying from there to
  paid, shipping from there to shipped, cancelling a draft, an unpaid or a paid order to cancelled; every other
  request throws its \<open>logic_error\<close> and leaves the order as it was.  On a change every observer is told of the
  state entered, after a refund exactly when a paid order is cancelled.  So for every sequence of requests whose
  exceptions the client catches, the order ends in the last state of the path that the table gives, with the
  events of that path in order, and at most three changes happen.\<close>

theorem order_history:
  "request r ord = (case life_cycle r (o_state ord) of
     None \<Rightarrow> (Inl (LogicError (refusal r)), ord)
   | Some s \<Rightarrow> (Inr (), ord\<lparr>o_state := s, out := out ord @
       (if r = Cancel \<and> o_state ord = Paid then [Refund] else []) @
       map (\<lambda>observer. StateChanged observer (o_id ord) s) (o_observers ord)\<rparr>)) \<and>
   requests rs ord = ord\<lparr>o_state := last (o_state ord # life_path rs (o_state ord)),
     out := out ord @ path_events ord (o_state ord) (life_path rs (o_state ord))\<rparr> \<and>
   length (life_path rs (o_state ord)) \<le> 3"
proof (intro conjI)
  show "request r ord = (case life_cycle r (o_state ord) of
     None \<Rightarrow> (Inl (LogicError (refusal r)), ord)
   | Some s \<Rightarrow> (Inr (), ord\<lparr>o_state := s, out := out ord @
       (if r = Cancel \<and> o_state ord = Paid then [Refund] else []) @
       map (\<lambda>observer. StateChanged observer (o_id ord) s) (o_observers ord)\<rparr>))"
    unfolding request_table by (cases r; cases "o_state ord"; simp add: enter_def notify_def)
  show "requests rs ord = ord\<lparr>o_state := last (o_state ord # life_path rs (o_state ord)),
     out := out ord @ path_events ord (o_state ord) (life_path rs (o_state ord))\<rparr>" by (rule requests_path)
  have "changes_left s \<le> 3" for s by (cases s) simp_all
  then show "length (life_path rs (o_state ord)) \<le> 3" using life_path_length le_trans by blast
qed

section \<open>Checkout\<close>

lemma stock_loop_ok:
  "stock_loop items = Inr () \<longleftrightarrow> (\<forall>item \<in> set items. 0 < quantity item \<and> quantity item \<le> stock item)"
  by (induction items) auto

text \<open>The chain that \<open>main\<close> assembles accepts exactly the orders that can be delivered.\<close>

definition shop_validators :: vchain where
  "shop_validators = setNext (VNode NonEmptyValidator None) (VNode StockValidator None)"

definition deliverable :: "'d order \<Rightarrow> bool" where
  "deliverable ord \<longleftrightarrow> o_items ord \<noteq> [] \<and>
     (\<forall>item \<in> set (o_items ord). 0 < quantity item \<and> quantity item \<le> stock item)"

lemma stock_loop_refused:
  "stock_loop items \<noteq> Inr () \<Longrightarrow> \<exists>msg. stock_loop items = Inl (RuntimeError msg)"
  by (induction items) (auto split: if_splits)

lemma shop_validators_ok: "deliverable ord \<Longrightarrow> validate shop_validators ord = Inr ()"
  by (simp add: shop_validators_def deliverable_def flip: stock_loop_ok)

lemma shop_validators_refuse:
  "\<not> deliverable ord \<Longrightarrow> \<exists>msg. validate shop_validators ord = Inl (RuntimeError msg)"
proof (cases "o_items ord = []")
  case False
  assume "\<not> deliverable ord"
  with False have "stock_loop (o_items ord) \<noteq> Inr ()" by (simp add: deliverable_def stock_loop_ok)
  with False show ?thesis by (auto simp: shop_validators_def dest: stock_loop_refused)
qed (simp add: shop_validators_def)

definition priced :: "'d fp \<Rightarrow> pricing \<Rightarrow> 'd order \<Rightarrow> 'd" where
  "priced F strategy ord = calculate F strategy (originalAmount F ord)"

lemma originalAmount_cong [simp]:
  "originalAmount F (ord\<lparr>o_pricing := p\<rparr>) = originalAmount F ord"
  "originalAmount F (ord\<lparr>o_state := s\<rparr>) = originalAmount F ord"
  "originalAmount F (ord\<lparr>out := es\<rparr>) = originalAmount F ord"
  by (simp_all add: originalAmount_def)

lemmas checkout_ops = checkout_def setPricing_def payable_def payableAmount_def gateway_pay_def priced_def

lemma checkout_rejected: "validate V ord = Inl e \<Longrightarrow> checkout F V G p ord = (Inl e, ord)"
  by (simp add: checkout_def seq_def)

lemma checkout_null: "validate V ord = Inr () \<Longrightarrow> fst (checkout F V G None ord) = Inl UB"
  by (simp add: checkout_ops seq_def modify_def)

lemma checkout_not_draft:
  assumes "validate V ord = Inr ()" "o_state ord \<noteq> Draft"
  shows "checkout F V G (Some p) ord =
    (Inl (LogicError ''cannot submit in this state''),
     ord\<lparr>o_pricing := Some p, out := out ord @ [Amounts (originalAmount F ord) (priced F p ord)]\<rparr>)"
  using assms by (cases "o_state ord") (simp_all add: checkout_ops seq_def modify_def submit_def throw_def)

lemma checkout_draft:
  assumes "validate V ord = Inr ()" "o_state ord = Draft"
    and "G (o_id ord) (priced F p ord) = Inr (ok, evs)"
  shows "checkout F V G (Some p) ord =
    (if ok then Inr () else Inl (RuntimeError ''payment failed''),
     ord\<lparr>o_pricing := Some p, o_state := (if ok then Paid else Cancelled),
         out := out ord @ [Amounts (originalAmount F ord) (priced F p ord)] @ notify ord AwaitingPayment @
           evs @ notify ord (if ok then Paid else Cancelled)\<rparr>)"
  using assms
  by (simp add: checkout_ops seq_def modify_def order_ops notify_def)

text \<open>C14: What \<open>ShopService::checkout\<close> does with the validators of main.cpp: an order that is empty or
  asks for more than the stock is refused and untouched; a draft order is charged once, at the price of
  the strategy, and becomes paid, or cancelled when the gateway refuses; an order in any other state is
  never charged nor moved, but its pricing is replaced before the refusal.\<close>

theorem checkout_outcomes:
  "let r = checkout F shop_validators (\<lambda>i amount. Inr (accepts i amount, does i amount)) (Some p) ord;
       price = priced F p ord; shown = Amounts (originalAmount F ord) price; ok = accepts (o_id ord) price;
       final = if ok then Paid else Cancelled
   in (\<not> deliverable ord \<longrightarrow> (\<exists>msg. r = (Inl (RuntimeError msg), ord))) \<and>
      (deliverable ord \<and> o_state ord \<noteq> Draft \<longrightarrow>
        r = (Inl (LogicError ''cannot submit in this state''),
             ord\<lparr>o_pricing := Some p, out := out ord @ [shown]\<rparr>)) \<and>
      (deliverable ord \<and> o_state ord = Draft \<longrightarrow>
        r = (if ok then Inr () else Inl (RuntimeError ''payment failed''),
             ord\<lparr>o_pricing := Some p, o_state := final,
                 out := out ord @ [shown] @ notify ord AwaitingPayment @ does (o_id ord) price @
                   notify ord final\<rparr>))"
proof -
  note refused = checkout_rejected [of shop_validators ord]
  note late = checkout_not_draft [OF shop_validators_ok]
  note drafted = checkout_draft [OF shop_validators_ok _ refl]
  show ?thesis
    unfolding Let_def using shop_validators_refuse refused late drafted by blast
qed

theorem checkout_outcomes_witness:
  "checkout \<lparr>f_lit = \<lambda>q. q, f_int = of_int, f_add = (+), f_mul = (*), f_trunc = \<lambda>q. Some (if 0 \<le> q then \<lfloor>q\<rfloor> else \<lceil>q\<rceil>)\<rparr>
     shop_validators (\<lambda>i amount. Inr (amount < 1000, [MakePayment i \<lfloor>amount\<rfloor>])) (Some VipPricing)
     (mk_order ''A'' [\<lparr>name = ''book'', quantity = 2, unitPrice = 80 :: rat, stock = 10\<rparr>]) =
   (Inr (), \<lparr>o_id = ''A'', o_items = [\<lparr>name = ''book'', quantity = 2, unitPrice = 80, stock = 10\<rparr>],
      o_state = Paid, o_pricing = Some VipPricing, o_observers = [],
      out = [Amounts 160 144, MakePayment ''A'' 144]\<rparr>)"
  using checkout_outcomes [of "\<lparr>f_lit = \<lambda>q. q, f_int = of_int, f_add = (+), f_mul = (*), f_trunc = \<lambda>q. Some (if 0 \<le> q then \<lfloor>q\<rfloor> else \<lceil>q\<rceil>)\<rparr>"
      "\<lambda>i amount. amount < 1000" "\<lambda>i amount. [MakePayment i \<lfloor>amount\<rfloor>]" VipPricing
      "mk_order ''A'' [\<lparr>name = ''book'', quantity = 2, unitPrice = 80 :: rat, stock = 10\<rparr>]"]
  by (simp add: deliverable_def mk_order_def priced_def originalAmount_def notify_def Let_def)

section \<open>The command\<close>

lemma checkout_paid:
  assumes "checkout F V G p ord = (Inr (), ord')"
  shows "o_state ord' = Paid"
proof -
  obtain u where v: "validate V ord = Inr u"
    using assms checkout_rejected [of V ord] by (cases "validate V ord") auto
  obtain q where q: "p = Some q" using assms checkout_null [of V ord F G] v by (cases p) auto
  have draft: "o_state ord = Draft" using assms checkout_not_draft [of V ord F G q] v q by auto
  obtain ok evs where "G (o_id ord) (priced F q ord) = Inr (ok, evs)"
    using assms v q draft
    by (cases "G (o_id ord) (priced F q ord)")
      (auto simp: checkout_ops seq_def modify_def order_ops)
  from checkout_draft [where G = G and F = F and p = q and V = V, OF _ draft this] assms v q
  show ?thesis by (auto split: if_splits)
qed

lemma execute_retry:
  assumes "c_pricing c = None" "\<not> c_executed c" "validate V (c_order c) = Inr ()"
  shows "fst (execute F V G c) = Inl UB"
  using checkout_null [OF assms(3), of F G] assms(1,2)
  by (auto simp: execute_def split: prod.split sum.split)

lemma execute_result:
  assumes "execute F V G c = (r, c')" "\<not> c_executed c"
  shows "c_pricing c' = None \<and> c_executed c' = (r = Inr ()) \<and>
    (r = Inr () \<longrightarrow> o_state (c_order c') = Paid)"
proof -
  obtain r0 ord where co: "checkout F V G (c_pricing c) (c_order c) = (r0, ord)" by fastforce
  then show ?thesis using assms checkout_paid [of F V G "c_pricing c" "c_order c" ord]
    by (auto simp: execute_def split: sum.splits)
qed

text \<open>The checkout command on an order that passes validation: while it is executed it refuses
  another \<open>execute\<close>; \<open>undo\<close> cancels the order with a refund unless it has been shipped, in which case it
  throws and nothing changes.  Its strategy is moved out by the first attempt, whether that succeeds,
  fails or is undone: any later attempt on a deliverable order dereferences a null strategy.\<close>

theorem command_protocol:
  assumes first: "execute F V G c = (r, c')" "\<not> c_executed c"
  shows "(r = Inr () \<longrightarrow>
      c_executed c' \<and> fst (execute F V G c') = Inl (LogicError ''the command must not be executed twice'') \<and>
      o_state (c_order c') = Paid \<and>
      (\<exists>c''. undo c' = (Inr (), c'') \<and> o_state (c_order c'') = Cancelled \<and>
        out (c_order c'') = out (c_order c') @ Refund # notify (c_order c') Cancelled \<and>
        (validate V (c_order c'') = Inr () \<longrightarrow> fst (execute F V G c'') = Inl UB)) \<and>
      undo (c'\<lparr>c_order := snd (ship (c_order c'))\<rparr>) =
        (Inl (LogicError ''cannot cancel in this state''), c'\<lparr>c_order := snd (ship (c_order c'))\<rparr>)) \<and>
    (r \<noteq> Inr () \<longrightarrow> \<not> c_executed c' \<and>
      undo c' = (Inl (LogicError ''not executed, cannot undo''), c') \<and>
      (validate V (c_order c') = Inr () \<longrightarrow> fst (execute F V G c') = Inl UB))"
proof (intro conjI impI)
  note c' = execute_result [OF first]
  assume r: "r = Inr ()"
  with c' show "c_executed c'" and "o_state (c_order c') = Paid" by simp_all
  then show "fst (execute F V G c') = Inl (LogicError ''the command must not be executed twice'')"
    by (simp add: execute_def)
  show "\<exists>c''. undo c' = (Inr (), c'') \<and> o_state (c_order c'') = Cancelled \<and>
        out (c_order c'') = out (c_order c') @ Refund # notify (c_order c') Cancelled \<and>
        (validate V (c_order c'') = Inr () \<longrightarrow> fst (execute F V G c'') = Inl UB)"
    using c' r by (auto simp: undo_def order_ops seq_def notify_def intro: execute_retry)
  show "undo (c'\<lparr>c_order := snd (ship (c_order c'))\<rparr>) =
        (Inl (LogicError ''cannot cancel in this state''), c'\<lparr>c_order := snd (ship (c_order c'))\<rparr>)"
    using c' r by (simp add: undo_def order_ops)
next
  note c' = execute_result [OF first]
  assume r: "r \<noteq> Inr ()"
  with c' show "\<not> c_executed c'" by simp
  then show "undo c' = (Inl (LogicError ''not executed, cannot undo''), c')" by (simp add: undo_def)
  show "fst (execute F V G c') = Inl UB" if "validate V (c_order c') = Inr ()"
    using c' r that execute_retry by blast
qed

definition exact_fp :: "rat fp" where
  "exact_fp = \<lparr>f_lit = \<lambda>q. q, f_int = of_int, f_add = (+), f_mul = (*), f_trunc = \<lambda>q. Some (if 0 \<le> q then \<lfloor>q\<rfloor> else \<lceil>q\<rceil>)\<rparr>"

definition book_command :: "rat command" where
  "book_command = \<lparr>c_order = mk_order ''A'' [\<lparr>name = ''book'', quantity = 2, unitPrice = 80, stock = 10\<rparr>],
     c_pricing = Some VipPricing, c_executed = False\<rparr>"

lemma book_command_executes:
  "fst (execute exact_fp shop_validators (adapter_pay exact_fp) book_command) = Inr ()"
  by (simp add: execute_def checkout_ops seq_def modify_def order_ops shop_validators_def mk_order_def
      adapter_pay_def makePayment_def exact_fp_def book_command_def)

theorem command_protocol_witness:
  "\<exists>c'. execute exact_fp shop_validators (adapter_pay exact_fp) book_command = (Inr (), c') \<and>
     o_state (c_order c') = Paid \<and> fst (undo c') = Inr ()"
proof -
  obtain c' where c': "execute exact_fp shop_validators (adapter_pay exact_fp) book_command = (Inr (), c')"
    using book_command_executes by (metis prod.collapse)
  have "o_state (c_order c') = Paid \<and> fst (undo c') = Inr ()"
    using command_protocol [OF c'] by (auto simp: book_command_def)
  with c' show ?thesis by blast
qed

end
