(* ===== verification/Cpp_Text.thy ===== *)
theory Cpp_Text
  imports Prelude
begin

text \<open>
  What the sources use of the standard library's text functions: \<open>std::to_string\<close>, \<open>std::stoi\<close>,
  \<open>std::getline\<close> with a delimiter, \<open>find\<close>/\<open>substr\<close> of single characters, and the formatted extraction
  \<open>>>\<close> of integers and words.  Strings are lists of bytes (\<open>char\<close>).
\<close>

section \<open>Decimal numbers\<close>

definition digit :: "nat \<Rightarrow> char" where
  "digit n = char_of (48 + n)"

fun show_nat :: "nat \<Rightarrow> string" where
  "show_nat n = (if n < 10 then [digit n] else show_nat (n div 10) @ [digit (n mod 10)])"

declare show_nat.simps [simp del]

definition show_int :: "int \<Rightarrow> string" where
  "show_int i = (if i < 0 then CHR ''-'' # show_nat (nat (- i)) else show_nat (nat i))"

definition is_digit :: "char \<Rightarrow> bool" where
  "is_digit c \<longleftrightarrow> 48 \<le> (of_char c :: nat) \<and> (of_char c :: nat) \<le> 57"

definition digit_val :: "char \<Rightarrow> nat" where
  "digit_val c = of_char c - 48"

definition parse_nat :: "string \<Rightarrow> nat" where
  "parse_nat s = foldl (\<lambda>n c. 10 * n + digit_val c) 0 s"

definition is_space :: "char \<Rightarrow> bool" where
  "is_space c \<longleftrightarrow> c = CHR '' '' \<or> 9 \<le> (of_char c :: nat) \<and> (of_char c :: nat) \<le> 13"

lemma of_char_digit [simp]: "n < 10 \<Longrightarrow> of_char (digit n) = 48 + n"
  by (simp add: digit_def)

lemma is_digit_digit [simp]: "n < 10 \<Longrightarrow> is_digit (digit n)"
  by (simp add: is_digit_def)

lemma digit_val_digit [simp]: "n < 10 \<Longrightarrow> digit_val (digit n) = n"
  by (simp add: digit_val_def)

lemma parse_nat_append [simp]: "parse_nat (s @ [c]) = 10 * parse_nat s + digit_val c"
  by (simp add: parse_nat_def)

lemma parse_show_nat [simp]: "parse_nat (show_nat n) = n"
proof (induction n rule: less_induct)
  case (less n)
  then show ?case
    by (subst show_nat.simps) (simp add: parse_nat_def [of "[_]"])
qed

lemma show_nat_digits [simp]: "c \<in> set (show_nat n) \<Longrightarrow> is_digit c"
proof (induction n rule: less_induct)
  case (less n)
  from less.IH [of "n div 10"] less.prems show ?case
    by (cases "n < 10") (auto simp: show_nat.simps [of n])
qed

lemma show_nat_not_Nil [simp]: "show_nat n \<noteq> []"
  by (simp add: show_nat.simps [of n])

lemma show_nat_inject [simp]: "show_nat m = show_nat n \<longleftrightarrow> m = n"
  by (metis parse_show_nat)

lemma is_digit_not_space: "is_digit c \<Longrightarrow> \<not> is_space c"
  by (auto simp: is_digit_def is_space_def)

lemma is_digit_not_sign: "is_digit c \<Longrightarrow> c \<noteq> CHR ''-'' \<and> c \<noteq> CHR ''+'' \<and> c \<noteq> CHR '','' \<and> c \<noteq> CHR ''.''"
  by (auto simp: is_digit_def)

section \<open>Reading integers\<close>

text \<open>
  The common part of \<open>std::stoi\<close> and \<open>istream >> int\<close>: white space, an optional sign, digits; the rest of
  the text is returned.  \<open>None\<close>: there is no digit.
\<close>

definition scan_int :: "string \<Rightarrow> (int \<times> string) option" where
  "scan_int s =
     (let s1 = dropWhile is_space s;
          neg = (s1 \<noteq> [] \<and> hd s1 = CHR ''-'');
          s2 = (if s1 \<noteq> [] \<and> (hd s1 = CHR ''-'' \<or> hd s1 = CHR ''+'') then tl s1 else s1);
          ds = takeWhile is_digit s2;
          n = int (parse_nat ds)
      in if ds = [] then None else Some (if neg then - n else n, dropWhile is_digit s2))"

definition int_min :: int where "int_min = - (2 ^ 31)"
definition int_max :: int where "int_max = 2 ^ 31 - 1"

abbreviation int_range :: "int \<Rightarrow> bool" where
  "int_range i \<equiv> int_min \<le> i \<and> i \<le> int_max"

definition stoi :: "string \<Rightarrow> int outcome" where
  "stoi s = (case scan_int s of
     None \<Rightarrow> Inl InvalidArgument
   | Some (i, _) \<Rightarrow> if int_range i then Inr i else Inl OutOfRange)"

definition starts_no_digit :: "string \<Rightarrow> bool" where
  "starts_no_digit s \<longleftrightarrow> (case s of [] \<Rightarrow> True | c # _ \<Rightarrow> \<not> is_digit c)"

lemma takeWhile_show_nat:
  assumes "starts_no_digit rest"
  shows "takeWhile is_digit (show_nat n @ rest) = show_nat n" "dropWhile is_digit (show_nat n @ rest) = rest"
proof -
  have "takeWhile is_digit rest = []" "dropWhile is_digit rest = rest"
    using assms by (cases rest; simp add: starts_no_digit_def)+
  then show "takeWhile is_digit (show_nat n @ rest) = show_nat n" "dropWhile is_digit (show_nat n @ rest) = rest"
    by (simp_all add: takeWhile_append2 dropWhile_append2)
qed

lemma show_nat_hd:
  obtains c cs where "show_nat n = c # cs" "is_digit c"
  by (cases "show_nat n") (use show_nat_digits [of _ n] in auto)

lemma scan_show_int:
  assumes "starts_no_digit rest" "\<forall>c \<in> set sp. is_space c"
  shows "scan_int (sp @ show_int i @ rest) = Some (i, rest)"
proof -
  note tw = takeWhile_show_nat [OF assms(1)]
  have skip: "dropWhile is_space (sp @ show_int i @ rest) = show_int i @ rest"
  proof -
    have "\<exists>c cs. show_int i = c # cs \<and> \<not> is_space c"
    proof (cases "i < 0")
      case False
      then show ?thesis using show_nat_hd [of "nat i"] is_digit_not_space
        by (metis show_int_def)
    qed (simp add: show_int_def is_space_def)
    then obtain c cs where "show_int i = c # cs" "\<not> is_space c" by blast
    then show ?thesis using assms(2) by (simp add: dropWhile_append2)
  qed
  show ?thesis
  proof (cases "i < 0")
    case True
    then show ?thesis using skip tw [of "nat (- i)"] by (simp add: scan_int_def show_int_def Let_def)
  next
    case False
    have "is_digit (hd (show_nat (nat i)))" by (rule show_nat_digits [of _ "nat i"]) simp
    from is_digit_not_sign [OF this] have "hd (show_nat (nat i) @ rest) \<noteq> CHR ''-''"
      "hd (show_nat (nat i) @ rest) \<noteq> CHR ''+''" by simp_all
    with False skip tw [of "nat i"] show ?thesis by (simp add: scan_int_def show_int_def Let_def)
  qed
qed

lemma stoi_show_int: "int_range i \<Longrightarrow> starts_no_digit rest \<Longrightarrow> stoi (show_int i @ rest) = Inr i"
  using scan_show_int [of rest "[]" i] by (simp add: stoi_def)

section \<open>Delimiters\<close>

text \<open>\<open>std::getline(in, s, d)\<close>: the text up to the first \<open>d\<close>, and what follows it.\<close>

definition getline :: "char \<Rightarrow> string \<Rightarrow> string \<times> string" where
  "getline d s = (takeWhile (\<lambda>c. c \<noteq> d) s, drop 1 (dropWhile (\<lambda>c. c \<noteq> d) s))"

lemma getline_append [simp]:
  assumes "d \<notin> set s"
  shows "getline d (s @ d # rest) = (s, rest)"
proof -
  have "\<forall>c \<in> set s. c \<noteq> d" using assms by auto
  then show ?thesis by (simp add: getline_def takeWhile_append2 dropWhile_append2)
qed

lemma getline_last [simp]: "d \<notin> set s \<Longrightarrow> getline d s = (s, [])"
proof -
  assume "d \<notin> set s"
  then have "\<forall>c \<in> set s. c \<noteq> d" by auto
  then have "takeWhile (\<lambda>c. c \<noteq> d) s = s" "dropWhile (\<lambda>c. c \<noteq> d) s = []"
    by (simp_all only: takeWhile_eq_all_conv dropWhile_eq_Nil_conv)
  then show ?thesis by (simp only: getline_def drop_Nil)
qed

end
