(* ===== verification/File_Audit.thy ===== *)
theory File_Audit
  imports Cpp_Text
begin

text \<open>
  The file auditor of src/cplusplus/design\_patterns/finial/audit: shared file types (flyweight.hpp),
  the tree of files and directories (composite.hpp), visitors and rules (visitor.hpp,
  interpreter.hpp), the scan service with its access-control proxy (proxy.hpp), the report exporters
  (template\_factory\_method.hpp) and the facade (facade.hpp).

  A \<open>shared_ptr<const FileType>\<close> is the index of an object in the factory's list of objects made so
  far; \<open>size_t\<close> is \<open>u64\<close>, so sums wrap.  Literals of the reports are translated to English.
\<close>

section \<open>Shared file types\<close>

record file_type =
  extension :: string
  category :: string

record type_factory =
  objects :: "file_type list"
  cache :: "(string \<times> nat) list"

definition new_factory :: type_factory where
  "new_factory = \<lparr>objects = [], cache = []\<rparr>"

definition get_type :: "string \<Rightarrow> string \<Rightarrow> type_factory \<Rightarrow> nat \<times> type_factory" where
  "get_type ext cat fac =
     (case map_of (cache fac) ext of
        Some p \<Rightarrow> (p, fac)
      | None \<Rightarrow>
          let p = length (objects fac) in
          (p, \<lparr>objects = objects fac @ [\<lparr>extension = ext, category = cat\<rparr>], cache = (ext, p) # cache fac\<rparr>))"

definition typeCount :: "type_factory \<Rightarrow> nat" where
  "typeCount fac = length (cache fac)"

text \<open>Every cached pointer refers to an object of its extension, and there is one per extension.\<close>

definition factory_ok :: "type_factory \<Rightarrow> bool" where
  "factory_ok fac \<longleftrightarrow> distinct (map fst (cache fac)) \<and>
     (\<forall>e \<in> set (cache fac). snd e < length (objects fac) \<and> extension (objects fac ! snd e) = fst e) \<and>
     length (cache fac) = length (objects fac)"

fun get_types :: "(string \<times> string) list \<Rightarrow> type_factory \<Rightarrow> nat list \<times> type_factory" where
  "get_types [] fac = ([], fac)"
| "get_types ((ext, cat) # rest) fac =
     (let (p, fac) = get_type ext cat fac; (ps, fac) = get_types rest fac in (p # ps, fac))"

lemma factory_okD:
  assumes "factory_ok fac" "(e, p) \<in> set (cache fac)"
  shows "p < length (objects fac)" "extension (objects fac ! p) = e"
  using assms(1) bspec [OF _ assms(2), of "\<lambda>e. snd e < length (objects fac) \<and> extension (objects fac ! snd e) = fst e"]
  by (simp_all add: factory_ok_def)

lemma get_type_ok:
  assumes "factory_ok fac" "get_type ext cat fac = (p, fac')"
  shows "factory_ok fac'" "map_of (cache fac') ext = Some p"
    "map_of (cache fac) \<subseteq>\<^sub>m map_of (cache fac')"
    "fst ` set (cache fac') = insert ext (fst ` set (cache fac))"
proof -
  have "factory_ok fac' \<and> map_of (cache fac') ext = Some p \<and>
    map_of (cache fac) \<subseteq>\<^sub>m map_of (cache fac') \<and> fst ` set (cache fac') = insert ext (fst ` set (cache fac))"
  proof (cases "map_of (cache fac) ext")
    case None
    then have "ext \<notin> fst ` set (cache fac)" by (simp add: map_of_eq_None_iff)
    have new: "fac' = \<lparr>objects = objects fac @ [\<lparr>extension = ext, category = cat\<rparr>],
        cache = (ext, length (objects fac)) # cache fac\<rparr>" "p = length (objects fac)"
      using assms(2) None by (auto simp: get_type_def Let_def)
    have "snd e < length (objects fac') \<and> extension (objects fac' ! snd e) = fst e"
      if "e \<in> set (cache fac')" for e
      using that factory_okD [OF assms(1), of "fst e" "snd e"] by (auto simp: new nth_append)
    then have "factory_ok fac'"
      using assms(1) \<open>ext \<notin> fst ` set (cache fac)\<close> by (simp add: factory_ok_def new)
    moreover have "map_of (cache fac) \<subseteq>\<^sub>m map_of (cache fac')"
      using None by (auto simp: map_le_def new)
    ultimately show ?thesis by (simp add: new)
  next
    case (Some q)
    then have "ext \<in> fst ` set (cache fac)" by (metis domI dom_map_of_conv_image_fst)
    with assms Some show ?thesis by (auto simp: get_type_def)
  qed
  then show "factory_ok fac'" "map_of (cache fac') ext = Some p"
    "map_of (cache fac) \<subseteq>\<^sub>m map_of (cache fac')"
    "fst ` set (cache fac') = insert ext (fst ` set (cache fac))" by blast+
qed

lemma get_types_ok:
  "factory_ok fac \<Longrightarrow> get_types reqs fac = (ps, fac') \<Longrightarrow>
   factory_ok fac' \<and> map_of (cache fac) \<subseteq>\<^sub>m map_of (cache fac') \<and>
   list_all2 (\<lambda>(ext, cat) p. map_of (cache fac') ext = Some p) reqs ps \<and>
   fst ` set (cache fac') = fst ` set reqs \<union> fst ` set (cache fac)"
proof (induction reqs arbitrary: fac ps fac')
  case Nil
  then show ?case by simp
next
  case (Cons r reqs)
  obtain ext cat where r: "r = (ext, cat)" by (cases r)
  obtain p fac1 where 1: "get_type ext cat fac = (p, fac1)" by (cases "get_type ext cat fac")
  obtain qs fac2 where 2: "get_types reqs fac1 = (qs, fac2)" by (cases "get_types reqs fac1")
  have eq: "ps = p # qs" "fac' = fac2" using Cons.prems(2) 1 2 r by simp_all
  note ok = get_type_ok [OF Cons.prems(1) 1]
  note IH = Cons.IH [OF ok(1) 2]
  then have le: "map_of (cache fac1) \<subseteq>\<^sub>m map_of (cache fac2)" by blast
  from map_le_trans [OF ok(3) le] have "map_of (cache fac) \<subseteq>\<^sub>m map_of (cache fac2)" .
  moreover have "map_of (cache fac2) ext = Some p"
    using le ok(2) unfolding map_le_def by (metis domI)
  ultimately show ?case using IH ok(4) unfolding eq r by (simp add: Un_ac)
qed

lemma same_pointer:
  assumes "factory_ok fac" "map_of (cache fac) e = Some p" "map_of (cache fac) e' = Some q"
  shows "p = q \<longleftrightarrow> e = e'"
proof -
  have "extension (objects fac ! p) = e" "extension (objects fac ! q) = e'"
    using factory_okD(2) [OF assms(1)] map_of_SomeD [OF assms(2)] map_of_SomeD [OF assms(3)] by simp_all
  moreover have "p = q" if "e = e'" using assms(2,3) that by simp
  ultimately show ?thesis by blast
qed

text \<open>However the factory is used, two requests yield the same object exactly when they name the
  same extension, and \<open>typeCount\<close> is the number of different extensions requested.\<close>

theorem flyweight_sharing:
  assumes "get_types reqs new_factory = (ps, fac)" "i < length reqs" "j < length reqs"
  shows "(ps ! i = ps ! j \<longleftrightarrow> fst (reqs ! i) = fst (reqs ! j)) \<and>
    extension (objects fac ! (ps ! i)) = fst (reqs ! i) \<and>
    typeCount fac = card (fst ` set reqs)"
proof -
  have "factory_ok new_factory" by (simp add: factory_ok_def new_factory_def)
  note ok = get_types_ok [OF this assms(1)]
  then have fac: "factory_ok fac" and dom: "fst ` set (cache fac) = fst ` set reqs"
    by (simp_all add: new_factory_def)
  have at: "map_of (cache fac) (fst (reqs ! k)) = Some (ps ! k)" if "k < length reqs" for k
    using ok that by (fastforce simp: list_all2_conv_all_nth)
  have "card (fst ` set reqs) = length (cache fac)"
    using fac distinct_card [of "map fst (cache fac)"] by (simp add: factory_ok_def dom [symmetric])
  moreover have "extension (objects fac ! (ps ! i)) = fst (reqs ! i)"
    using factory_okD(2) [OF fac map_of_SomeD [OF at [OF assms(2)]]] .
  ultimately show ?thesis
    using same_pointer [OF fac at [OF assms(2)] at [OF assms(3)]] by (simp add: typeCount_def)
qed

theorem flyweight_sharing_witness:
  "typeCount (snd (get_types [(''.cpp'', ''source''), (''.log'', ''log''), (''.cpp'', ''text'')] new_factory)) =
     card (fst ` set [(''.cpp'', ''source''), (''.log'', ''log''), (''.cpp'', ''text'')])"
  using flyweight_sharing [of "[(''.cpp'', ''source''), (''.log'', ''log''), (''.cpp'', ''text'')]" _ _ 0 0]
  by (metis length_Cons prod.collapse zero_less_Suc)

section \<open>The tree and its visitors\<close>

record file_entry =
  f_name :: string
  sizeKb :: u64
  f_type :: file_type

datatype node =
    FileNode file_entry
  | Directory (d_name: string) (sensitive: bool) (children: "node list")

text \<open>\<open>add\<close> appends a child; a node is owned by one directory, so a tree is a value.\<close>

fun add_child :: "node \<Rightarrow> node \<Rightarrow> node" where
  "add_child (Directory n s cs) child = Directory n s (cs @ [child])"
| "add_child (FileNode f) child = FileNode f"

record 's visitor =
  visit_file :: "file_entry \<Rightarrow> 's \<Rightarrow> 's"
  visit_directory :: "node \<Rightarrow> 's \<Rightarrow> 's"

fun accept :: "'s visitor \<Rightarrow> node \<Rightarrow> 's \<Rightarrow> 's" where
  "accept v (FileNode f) s = visit_file v f s"
| "accept v (Directory n sens cs) s = fold (accept v) cs (visit_directory v (Directory n sens cs) s)"

text \<open>The files and directories of a tree, in the order of the traversal.\<close>

fun files :: "node \<Rightarrow> file_entry list" where
  "files (FileNode f) = [f]"
| "files (Directory n sens cs) = concat (map files cs)"

fun directories :: "node \<Rightarrow> nat" where
  "directories (FileNode f) = 0"
| "directories (Directory n sens cs) = Suc (sum_list (map directories cs))"

section \<open>Rules and visitors\<close>

datatype rule = ExtensionIs string | SizeGreaterThan u64 | AndExpression rule rule

fun interpret_rule :: "rule \<Rightarrow> file_entry \<Rightarrow> bool" where
  "interpret_rule (ExtensionIs ext) f = (extension (f_type f) = ext)"
| "interpret_rule (SizeGreaterThan kb) f = (sizeKb f > kb)"
| "interpret_rule (AndExpression l r) f = (interpret_rule l f \<and> interpret_rule r f)"

fun describe :: "rule \<Rightarrow> string" where
  "describe (ExtensionIs ext) = ''extension is '' @ ext"
| "describe (SizeGreaterThan kb) = ''larger than '' @ show_nat (unat kb) @ ''KB''"
| "describe (AndExpression l r) = ''('' @ describe l @ '' AND '' @ describe r @ '')''"

record statistics =
  n_files :: u64
  n_directories :: u64
  totalKb :: u64

definition statistics_visitor :: "statistics visitor" where
  "statistics_visitor =
     \<lparr>visit_file = \<lambda>f s. s\<lparr>n_files := n_files s + 1, totalKb := totalKb s + sizeKb f\<rparr>,
      visit_directory = \<lambda>d s. s\<lparr>n_directories := n_directories s + 1\<rparr>\<rparr>"

definition no_statistics :: statistics where
  "no_statistics = \<lparr>n_files = 0, n_directories = 0, totalKb = 0\<rparr>"

definition statistics_result :: "statistics \<Rightarrow> string" where
  "statistics_result s = ''directories='' @ show_nat (unat (n_directories s)) @ '', files='' @
     show_nat (unat (n_files s)) @ '', total='' @ show_nat (unat (totalKb s)) @ ''KB''"

definition risk_visitor :: "rule \<Rightarrow> string list visitor" where
  "risk_visitor r =
     \<lparr>visit_file = \<lambda>f risks. if interpret_rule r f then risks @ [f_name f] else risks,
      visit_directory = \<lambda>d risks. risks\<rparr>"

lemma accept_risks:
  "accept (risk_visitor r) t risks = risks @ map f_name (filter (interpret_rule r) (files t))"
proof (induction "risk_visitor r" t risks rule: accept.induct)
  case (2 n sens cs risks)
  have "fold (accept (risk_visitor r)) cs' acc =
      acc @ map f_name (filter (interpret_rule r) (concat (map files cs')))"
    if "set cs' \<subseteq> set cs" for cs' acc
    using that by (induction cs' arbitrary: acc) (simp_all add: "2.hyps")
  from this [of cs] show ?case by (simp add: risk_visitor_def)
qed (simp add: risk_visitor_def)

lemma accept_statistics:
  "accept statistics_visitor t s =
     s\<lparr>n_files := n_files s + of_nat (length (files t)),
       n_directories := n_directories s + of_nat (directories t),
       totalKb := totalKb s + sum_list (map sizeKb (files t))\<rparr>"
proof (induction statistics_visitor t s rule: accept.induct)
  case (2 n sens cs s)
  have "fold (accept statistics_visitor) cs' acc =
      acc\<lparr>n_files := n_files acc + of_nat (length (concat (map files cs'))),
       n_directories := n_directories acc + of_nat (sum_list (map directories cs')),
       totalKb := totalKb acc + sum_list (map sizeKb (concat (map files cs')))\<rparr>"
    if "set cs' \<subseteq> set cs" for cs' acc
    using that by (induction cs' arbitrary: acc) (simp_all add: "2.hyps" algebra_simps)
  from this [of cs] show ?case by (simp add: statistics_visitor_def algebra_simps)
qed (simp add: statistics_visitor_def)

section \<open>Scanning, reports, the facade\<close>

datatype role = Employee | Admin

definition real_scan :: "node \<Rightarrow> role \<Rightarrow> rule \<Rightarrow> string list" where
  "real_scan root role r = accept (risk_visitor r) root []"

text \<open>The proxy: the risks or the exception, and what it writes to the audit log.\<close>

definition proxy_scan :: "node \<Rightarrow> role \<Rightarrow> rule \<Rightarrow> string list outcome \<times> string list" where
  "proxy_scan root role r =
     (if sensitive root \<and> role \<noteq> Admin
      then (Inl (RuntimeError ''sensitive directories are for administrators only''), [])
      else (Inr (real_scan root role r), [d_name root]))"

datatype exporter = TextReport | JsonReport

fun report_header :: "exporter \<Rightarrow> string" where
  "report_header TextReport = ''=== security audit report ==='' @ [CHR 0x0A]"
| "report_header JsonReport = ''{'' @ [CHR 0x22] @ ''risks'' @ [CHR 0x22] @ '':[''"

fun json_items :: "nat \<Rightarrow> string list \<Rightarrow> string" where
  "json_items i [] = []"
| "json_items i (name # names) =
     (if i \<noteq> 0 then '','' else []) @ [CHR 0x22] @ name @ [CHR 0x22] @ json_items (Suc i) names"

fun report_body :: "exporter \<Rightarrow> string list \<Rightarrow> string" where
  "report_body TextReport risks =
     concat (map (\<lambda>n. ''- risky file: '' @ n @ [CHR 0x0A]) risks) @
     (if risks = [] then ''- no risk found'' @ [CHR 0x0A] else [])"
| "report_body JsonReport risks = json_items 0 risks"

fun report_footer :: "exporter \<Rightarrow> string" where
  "report_footer TextReport = ''=== end of report ==='' @ [CHR 0x0A]"
| "report_footer JsonReport = '']}'' @ [CHR 0x0A]"

definition exportReport :: "exporter \<Rightarrow> string list \<Rightarrow> string" where
  "exportReport ex risks = report_header ex @ report_body ex risks @ report_footer ex"

definition audit :: "node \<Rightarrow> role \<Rightarrow> rule \<Rightarrow> exporter \<Rightarrow> string outcome \<times> string list" where
  "audit root role r ex =
     (let (risks, log) = proxy_scan root role r in
      (andThen risks (\<lambda>risks. Inr (exportReport ex risks)), log))"

text \<open>C35: An audit reports exactly the files that satisfy the rule, in the order of the tree, unless the
  root is sensitive and the caller is no administrator, in which case it throws and logs nothing; the
  statistics count every file and directory and add the sizes modulo \<open>2 ^ 64\<close>.\<close>

theorem audit_correct:
  "audit root role r ex =
     (if sensitive root \<and> role = Employee
      then (Inl (RuntimeError ''sensitive directories are for administrators only''), [])
      else (Inr (exportReport ex (map f_name (filter (interpret_rule r) (files root)))), [d_name root])) \<and>
   (let s = accept statistics_visitor root no_statistics in
      n_files s = of_nat (length (files root)) \<and> n_directories s = of_nat (directories root) \<and>
      unat (totalKb s) = sum_list (map (unat \<circ> sizeKb) (files root)) mod 2 ^ 64)"
proof -
  have "unat (sum_list (ws :: u64 list)) = sum_list (map unat ws) mod 2 ^ 64" for ws
    by (induction ws) (simp_all add: unat_word_ariths mod_add_right_eq)
  note sum = this [of "map sizeKb (files root)", unfolded map_map]
  have "audit root role r ex =
     (if sensitive root \<and> role = Employee
      then (Inl (RuntimeError ''sensitive directories are for administrators only''), [])
      else (Inr (exportReport ex (map f_name (filter (interpret_rule r) (files root)))), [d_name root]))"
    by (cases role) (simp_all add: audit_def proxy_scan_def real_scan_def accept_risks)
  with sum show ?thesis by (simp add: accept_statistics no_statistics_def Let_def comp_def)
qed

text \<open>The access check looks at the root only: an employee who starts from a public directory gets
  the report of every sensitive directory below it.\<close>

theorem nested_sensitive_leak:
  assumes "Directory n True cs \<in> set ds"
    and "f \<in> set (files (Directory n True cs))" "interpret_rule r f"
  shows "\<exists>risks. fst (proxy_scan (Directory m False ds) Employee r) = Inr risks \<and> f_name f \<in> set risks"
proof -
  have "f \<in> set (files (Directory m False ds))" 
    using assms(1,2) unfolding files.simps(2) [of m] set_concat set_map by blast
  then have "f_name f \<in> set (real_scan (Directory m False ds) Employee r)"
    using assms(3) unfolding real_scan_def accept_risks by auto
  then show ?thesis by (simp add: proxy_scan_def)
qed

theorem nested_sensitive_leak_witness:
  "\<exists>risks. fst (proxy_scan
     (Directory ''home'' False [Directory ''secret'' True
        [FileNode \<lparr>f_name = ''key'', sizeKb = 2, f_type = \<lparr>extension = ''.pem'', category = ''key''\<rparr>\<rparr>]])
     Employee (ExtensionIs ''.pem'')) = Inr risks \<and> ''key'' \<in> set risks"
  using nested_sensitive_leak [of "''secret''"
      "[FileNode \<lparr>f_name = ''key'', sizeKb = 2, f_type = \<lparr>extension = ''.pem'', category = ''key''\<rparr>\<rparr>]"
      "[Directory ''secret'' True
        [FileNode \<lparr>f_name = ''key'', sizeKb = 2, f_type = \<lparr>extension = ''.pem'', category = ''key''\<rparr>\<rparr>]]"
      "\<lparr>f_name = ''key'', sizeKb = 2, f_type = \<lparr>extension = ''.pem'', category = ''key''\<rparr>\<rparr>"
      "ExtensionIs ''.pem''" "''home''"]
  by simp

section \<open>Reading a JSON report back\<close>

text \<open>The strings between double quotes, and from them the names of a report, whose first quoted string
  is the key.\<close>

function quoted :: "string \<Rightarrow> string list" where
  "quoted s =
     (case dropWhile (\<lambda>c. c \<noteq> CHR 0x22) s of
        [] \<Rightarrow> []
      | _ # s1 \<Rightarrow> let (q, s2) = getline (CHR 0x22) s1 in q # quoted s2)"
  by pat_completeness auto
termination
proof (relation "measure length")
  fix s x21 s1 q s2 p
  assume s1: "dropWhile (\<lambda>c. c \<noteq> CHR 0x22) s = x21 # s1" and p: "p = getline (CHR 0x22) s1" "(q, s2) = p"
  have "length s2 \<le> length s1"
    using p length_dropWhile_le [of "\<lambda>c. c \<noteq> CHR 0x22" s1] by (simp add: getline_def)
  moreover have "length (x21 # s1) \<le> length s" unfolding s1 [symmetric] by (rule length_dropWhile_le)
  ultimately show "(s2, s) \<in> measure length" by simp
qed simp

declare quoted.simps [simp del]

definition report_names :: "string \<Rightarrow> string list" where
  "report_names text = tl (quoted text)"

lemma quoted_string:
  assumes "CHR 0x22 \<notin> set pre" "CHR 0x22 \<notin> set q"
  shows "quoted (pre @ CHR 0x22 # q @ CHR 0x22 # rest) = q # quoted rest"
proof -
  have "\<forall>c \<in> set pre. c \<noteq> CHR 0x22" using assms(1) by auto
  then have "dropWhile (\<lambda>c. c \<noteq> CHR 0x22) (pre @ CHR 0x22 # q @ CHR 0x22 # rest) =
      CHR 0x22 # q @ CHR 0x22 # rest"
    by (simp add: dropWhile_append2)
  with assms(2) show ?thesis by (subst quoted.simps) simp
qed

lemma quoted_none: "CHR 0x22 \<notin> set s \<Longrightarrow> quoted s = []"
proof -
  assume "CHR 0x22 \<notin> set s"
  then have "dropWhile (\<lambda>c. c \<noteq> CHR 0x22) s = []" by (auto simp only: dropWhile_eq_Nil_conv)
  then show ?thesis by (subst quoted.simps) (simp only: list.case)
qed

lemma quoted_json_items:
  "\<forall>n \<in> set names. CHR 0x22 \<notin> set n \<Longrightarrow> CHR 0x22 \<notin> set tail \<Longrightarrow>
   quoted (json_items i names @ tail) = names"
proof (induction names arbitrary: i)
  case Nil
  then show ?case by (simp add: quoted_none)
next
  case (Cons n names)
  have n: "CHR 0x22 \<notin> set n" and ns: "\<forall>n \<in> set names. CHR 0x22 \<notin> set n" using Cons.prems(1) by simp_all
  have "CHR 0x22 \<notin> set (if i \<noteq> 0 then '','' else [])" by simp
  from quoted_string [OF this n] Cons.IH [OF ns Cons.prems(2)] show ?case by simp
qed

text \<open>A JSON report of names without double quotes can be read back exactly; with a quote in a name
  two different scans give the same report.\<close>

theorem json_report_roundtrip:
  "(\<forall>names. (\<forall>n \<in> set names. CHR 0x22 \<notin> set n) \<longrightarrow>
      report_names (exportReport JsonReport names) = names) \<and>
   (\<exists>xs ys. xs \<noteq> ys \<and> exportReport JsonReport xs = exportReport JsonReport ys)"
proof (intro conjI allI impI)
  fix names :: "string list"
  assume names: "\<forall>n \<in> set names. CHR 0x22 \<notin> set n"
  have "exportReport JsonReport names =
      ''{'' @ CHR 0x22 # ''risks'' @ CHR 0x22 # ('':['' @ json_items 0 names @ '']}'' @ [CHR 0x0A])"
    by (simp add: exportReport_def)
  then have "quoted (exportReport JsonReport names) =
      ''risks'' # quoted ('':['' @ json_items 0 names @ '']}'' @ [CHR 0x0A])"
    using quoted_string [of "''{''" "''risks''"] by simp
  moreover have "quoted ('':['' @ json_items 0 names @ '']}'' @ [CHR 0x0A]) = names"
  proof (cases names)
    case Nil
    then show ?thesis by (simp add: quoted_none)
  next
    case (Cons n ns)
    have n: "CHR 0x22 \<notin> set n" and ns: "\<forall>n \<in> set ns. CHR 0x22 \<notin> set n" using names Cons by simp_all
    have "CHR 0x22 \<notin> set ('']}'' @ [CHR 0x0A])" by simp
    with quoted_string [of "'':[''" n] quoted_json_items [OF ns] n show ?thesis by (simp add: Cons)
  qed
  ultimately show "report_names (exportReport JsonReport names) = names" by (simp add: report_names_def)
next
  have "exportReport JsonReport [''a'', ''b''] = exportReport JsonReport [''a'' @ [CHR 0x22] @ '','' @ [CHR 0x22] @ ''b'']"
    by (simp add: exportReport_def)
  then show "\<exists>xs ys. xs \<noteq> ys \<and> exportReport JsonReport xs = exportReport JsonReport ys" by force
qed

theorem json_report_roundtrip_witness:
  "report_names (exportReport JsonReport [''leak.log'', ''core'']) = [''leak.log'', ''core'']"
  using json_report_roundtrip by simp

end
