(* ===== verification/Task_Manager.thy ===== *)
theory Task_Manager
  imports Cpp_Text "HOL-Library.AList" "HOL-Library.Char_ord" "HOL-Library.List_Lexorder" "HOL-Library.Multiset" "HOL-Library.Sublist"
begin

text \<open>
  The command-line task manager of src/cplusplus/basement/base\_code/src/task/task\_management\_sys:
  tasks (task.cpp), the manager with its file (task\_manager.cpp), the commands (command.cpp), their
  registry (command\_registry.cpp) and the main loop (main.cpp).

  \<open>int\<close> values are integers in range, \<open>size_t\<close> is \<open>u64\<close>; the file \<open>tasks.txt\<close> is a string or absent, the
  terminal and the log are lists of lines (the time stamps of the log are left out).  \<open>std::sort\<close> is a
  parameter of which only the documented postcondition is used.
\<close>

section \<open>State\<close>

record task =
  t_id :: int
  t_description :: string
  t_priority :: int
  t_ddl :: string

record app =
  tasks :: "task list"
  next_id :: u64
  disk :: "string option"
  disk_writable :: bool
  cout :: "string list"
  log_file :: "string list"

type_synonym 'a app_act = "(app, 'a) act"

definition print :: "string \<Rightarrow> unit app_act" where
  "print line = modify (\<lambda>s. s\<lparr>cout := cout s @ [line]\<rparr>)"

definition log :: "string \<Rightarrow> unit app_act" where
  "log msg = modify (\<lambda>s. s\<lparr>log_file := log_file s @ [msg]\<rparr>)"

definition newline :: char where
  "newline = CHR 0x0A"

definition task_to_string :: "task \<Rightarrow> string" where
  "task_to_string t = ''ID: '' @ show_int (t_id t) @ '', Description: '' @ t_description t @
     '', Priority: '' @ show_int (t_priority t) @ '', Deadline: '' @ t_ddl t"

section \<open>Saving and loading\<close>

definition save_line :: "task \<Rightarrow> string" where
  "save_line t = show_int (t_id t) @ '', '' @ t_description t @ '', '' @ show_int (t_priority t) @ '', '' @
     t_ddl t @ [newline]"

definition save :: "unit app_act" where
  "save s =
     (if \<not> disk_writable s then log ''Failed to open tasks file for writing.'' s
      else log ''Tasks saved successfully.'' (s\<lparr>disk := Some (concat (map save_line (tasks s)))\<rparr>))"

text \<open>
  An \<open>istringstream\<close>: the text left, and whether its state is good.  An extraction from a stream that is not good, or
  with only white space left, leaves its target unwritten (\<open>None\<close>); reading an integer where there is other text stores
  0, out of range the nearest bound.  A line read to the end of the text leaves the stream at its end, not good.
\<close>

type_synonym 'a scanner = "string \<times> bool \<Rightarrow> 'a option \<times> string \<times> bool"

definition extract_int :: "int scanner" where
  "extract_int = (\<lambda>(s, ok).
     if \<not> ok \<or> dropWhile is_space s = [] then (None, s, False)
     else case scan_int s of
         None \<Rightarrow> (Some 0, s, False)
       | Some (i, s') \<Rightarrow>
           if i < int_min then (Some int_min, s', False)
           else if i > int_max then (Some int_max, s', False)
           else (Some i, s', True))"

definition extract_char :: "char scanner" where
  "extract_char = (\<lambda>(s, ok).
     if \<not> ok then (None, s, False)
     else case dropWhile is_space s of [] \<Rightarrow> (None, [], False) | c # s' \<Rightarrow> (Some c, s', True))"

definition extract_line :: "char \<Rightarrow> string scanner" where
  "extract_line d = (\<lambda>(s, ok).
     if \<not> ok then (None, s, False)
     else if s = [] then (Some [], [], False)
     else let (l, s') = getline d s in (Some l, s', d \<in> set s))"

definition extract_word :: "string scanner" where
  "extract_word = (\<lambda>(s, ok).
     if \<not> ok then (None, s, False)
     else case dropWhile is_space s of
         [] \<Rightarrow> (None, [], False)
       | s1 \<Rightarrow> (Some (takeWhile (\<lambda>c. \<not> is_space c) s1), dropWhile (\<lambda>c. \<not> is_space c) s1, True))"

definition is_blank :: "char \<Rightarrow> bool" where
  "is_blank c \<longleftrightarrow> c = CHR '' '' \<or> c = CHR 0x09"

definition trim :: "string \<Rightarrow> string" where
  "trim s = rev (dropWhile is_blank (rev (dropWhile is_blank s)))"

text \<open>One line of the file.  Copying a task whose identifier or priority was never written is undefined.\<close>

definition load_line :: "string \<Rightarrow> task outcome" where
  "load_line line =
     (let (i, st) = extract_int (line, True);
          (_, st) = extract_char st;
          (d, st) = extract_line (CHR '','') st;
          (p, st) = extract_int st;
          (_, st) = extract_char st;
          (w, st) = extract_word st
      in case (i, p) of
          (Some i, Some p) \<Rightarrow> Inr \<lparr>t_id = i, t_description = trim (case d of None \<Rightarrow> [] | Some d \<Rightarrow> d),
            t_priority = p, t_ddl = (case w of None \<Rightarrow> [] | Some w \<Rightarrow> w)\<rparr>
        | _ \<Rightarrow> Inl UB)"

function file_lines :: "string \<Rightarrow> string list" where
  "file_lines s = (if s = [] then [] else let (l, s') = getline newline s in l # file_lines s')"
  by pat_completeness auto
termination
proof (relation "measure length")
  fix s :: string and x l s'
  assume "s \<noteq> []" "x = getline newline s" "(l, s') = x"
  then show "(s', s) \<in> measure length"
    using length_dropWhile_le [of "\<lambda>c. c \<noteq> newline" s] by (cases s) (auto simp: getline_def)
qed simp

declare file_lines.simps [simp del]

text \<open>The loop of \<open>load\<close>: an \<open>int\<close> compared with a \<open>size_t\<close> is converted to it, and \<open>_id + 1\<close> overflows
  at the largest \<open>int\<close>.\<close>

fun load_loop :: "string list \<Rightarrow> unit app_act" where
  "load_loop [] s = (Inr (), s)"
| "load_loop (line # lines) s =
     (case load_line line of
        Inl e \<Rightarrow> (Inl e, s)
      | Inr tsk \<Rightarrow>
          let s = s\<lparr>tasks := tasks s @ [tsk]\<rparr> in
          if of_int (t_id tsk) \<ge> next_id s
          then (if t_id tsk = int_max then (Inl UB, s)
                else load_loop lines (s\<lparr>next_id := of_int (t_id tsk + 1)\<rparr>))
          else load_loop lines s)"

definition load :: "unit app_act" where
  "load s =
     (case disk s of
        None \<Rightarrow> log ''Falied to open tasks file.'' s
      | Some text \<Rightarrow> seq (load_loop (file_lines text)) (\<lambda>_. log ''Tasks loaded successfully.'') s)"

definition task_manager :: "string option \<Rightarrow> bool \<Rightarrow> unit outcome \<times> app" where
  "task_manager file writable =
     load \<lparr>tasks = [], next_id = 1, disk = file, disk_writable = writable, cout = [], log_file = []\<rparr>"

section \<open>Operations of the manager\<close>

definition size_to_int :: "u64 \<Rightarrow> int" where
  "size_to_int w = sint (ucast w :: 32 word)"

definition add :: "string \<Rightarrow> int \<Rightarrow> string \<Rightarrow> unit app_act" where
  "add description priority date s =
     (let tsk = \<lparr>t_id = size_to_int (next_id s), t_description = description, t_priority = priority, t_ddl = date\<rparr>
      in seq (modify (\<lambda>s. s\<lparr>next_id := next_id s + 1\<rparr>)) (\<lambda>_.
         seq (log (''Task added: '' @ task_to_string tsk)) (\<lambda>_.
         seq (modify (\<lambda>s. s\<lparr>tasks := tasks s @ [tsk]\<rparr>)) (\<lambda>_. save))) s)"

fun find_task :: "int \<Rightarrow> task list \<Rightarrow> nat option" where
  "find_task i [] = None"
| "find_task i (t # ts) = (if t_id t = i then Some 0 else map_option Suc (find_task i ts))"

definition not_found :: "unit app_act" where
  "not_found = seq (print ''Task not found.'') (\<lambda>_. log ''Task not found.'')"

definition remove :: "int \<Rightarrow> unit app_act" where
  "remove i s =
     (case find_task i (tasks s) of
        None \<Rightarrow> not_found s
      | Some k \<Rightarrow>
          seq (log (''Task deleted: '' @ task_to_string (tasks s ! k))) (\<lambda>_.
          seq (modify (\<lambda>s. s\<lparr>tasks := take k (tasks s) @ drop (Suc k) (tasks s)\<rparr>)) (\<lambda>_. save)) s)"

definition update :: "int \<Rightarrow> string \<Rightarrow> int \<Rightarrow> string \<Rightarrow> unit app_act" where
  "update i description priority date s =
     (case find_task i (tasks s) of
        None \<Rightarrow> not_found s
      | Some k \<Rightarrow>
          let tsk = (tasks s ! k)\<lparr>t_description := description, t_priority := priority, t_ddl := date\<rparr> in
          seq (modify (\<lambda>s. s\<lparr>tasks := (tasks s)[k := tsk]\<rparr>)) (\<lambda>_.
          seq (log (''Task updated: '' @ task_to_string tsk)) (\<lambda>_. save)) s)"

definition cmp_by_priority :: "task \<Rightarrow> task \<Rightarrow> bool" where
  "cmp_by_priority ta tb \<longleftrightarrow> t_priority ta < t_priority tb"

definition cmp_by_date :: "task \<Rightarrow> task \<Rightarrow> bool" where
  "cmp_by_date ta tb \<longleftrightarrow> t_ddl ta < t_ddl tb"

type_synonym sorter = "(task \<Rightarrow> task \<Rightarrow> bool) \<Rightarrow> task list \<Rightarrow> task list"

definition print_all :: "task list \<Rightarrow> unit app_act" where
  "print_all ts = modify (\<lambda>s. s\<lparr>cout := cout s @ map task_to_string ts\<rparr>)"

definition list_tasks :: "sorter \<Rightarrow> int \<Rightarrow> unit app_act" where
  "list_tasks srt option s =
     print_all (if option = 1 then srt cmp_by_priority (tasks s)
                else if option = 2 then srt cmp_by_date (tasks s)
                else tasks s) s"

record filter_args =
  fa_keyword :: string
  fa_priority :: int
  fa_st :: string
  fa_ed :: string

definition no_filter :: filter_args where
  "no_filter = \<lparr>fa_keyword = [], fa_priority = 0, fa_st = [], fa_ed = []\<rparr>"

fun contains :: "string \<Rightarrow> string \<Rightarrow> bool" where
  "contains kw [] = (kw = [])"
| "contains kw (c # s) = (take (length kw) (c # s) = kw \<or> contains kw s)"

definition filter_preds :: "filter_args \<Rightarrow> (task \<Rightarrow> bool) list" where
  "filter_preds a =
     (if fa_keyword a \<noteq> [] then [\<lambda>t. contains (fa_keyword a) (t_description t)] else []) @
     (if fa_priority a \<noteq> 0 then [\<lambda>t. t_priority t = fa_priority a] else []) @
     (if fa_st a \<noteq> [] \<and> fa_ed a \<noteq> [] then [\<lambda>t. t_ddl t \<ge> fa_st a \<and> t_ddl t \<le> fa_ed a] else [])"

definition filter_tasks :: "filter_args \<Rightarrow> unit app_act" where
  "filter_tasks a s =
     (if filter_preds a = []
      then print ''Usage: filter -k <keyword> -p <priority>-d <date_begin> <date_end>'' s
      else print_all (filter (\<lambda>t. list_all (\<lambda>pred. pred t) (filter_preds a)) (tasks s)) s)"

section \<open>Commands\<close>

text \<open>\<open>find(c, pos)\<close> and \<open>pos + 1\<close>, which is 0 for \<open>npos\<close>; \<open>stoi\<close> with the index of the first character
  it did not read.\<close>

definition find_char :: "char \<Rightarrow> string \<Rightarrow> nat \<Rightarrow> nat option" where
  "find_char c s i =
     (if c \<in> set (drop i s) then Some (i + length (takeWhile (\<lambda>x. x \<noteq> c) (drop i s))) else None)"

definition after :: "nat option \<Rightarrow> nat" where
  "after p = (case p of None \<Rightarrow> 0 | Some i \<Rightarrow> Suc i)"

definition substr :: "string \<Rightarrow> nat \<Rightarrow> nat \<Rightarrow> string" where
  "substr s i n = take n (drop i s)"

definition stoi_idx :: "string \<Rightarrow> (int \<times> nat) outcome" where
  "stoi_idx s = (case scan_int s of
     None \<Rightarrow> Inl InvalidArgument
   | Some (i, rest) \<Rightarrow> if int_range i then Inr (i, length s - length rest) else Inl OutOfRange)"

definition add_command :: "string \<Rightarrow> unit app_act" where
  "add_command args =
     (let pos1 = find_char (CHR '','') args 0; pos2 = find_char (CHR '','') args (after pos1) in
      case (pos1, pos2) of
        (Some p1, Some p2) \<Rightarrow>
          if p1 = 0 then print ''Description cannot be empty.''
          else
            let description = trim (substr args 0 p1);
                priority_str = substr args (p1 + 1) (p2 - p1 - 1);
                deadline = trim (drop (p2 + 1) args)
            in (case stoi priority_str of
                  Inl InvalidArgument \<Rightarrow> print ''Priority must be a number (1/2/3).''
                | Inl OutOfRange \<Rightarrow> print ''Priority out of range.''
                | Inl e \<Rightarrow> throw e
                | Inr priority \<Rightarrow>
                    seq (add description priority deadline) (\<lambda>_. print ''Successfully add task.''))
      | _ \<Rightarrow> print ''Incorrect parameter format. Please use: add <description>, <priority>, <deadline>'')"

definition del_command :: "string \<Rightarrow> unit app_act" where
  "del_command args =
     (case stoi_idx args of
        Inl InvalidArgument \<Rightarrow> print ''Incorrect parameter format. Please use: delete <ID>''
      | Inl OutOfRange \<Rightarrow> print ''ID was our of range. Please use valid task ID.''
      | Inl e \<Rightarrow> throw e
      | Inr (i, idx) \<Rightarrow>
          if idx \<noteq> length args then print ''Incorrect parameter format. Please use: delete <ID>''
          else seq (remove i) (\<lambda>_. print (''Successfully delete task '' @ show_int i @ ''.'')))"

definition ls_command :: "sorter \<Rightarrow> string \<Rightarrow> unit app_act" where
  "ls_command srt args =
     (if args \<noteq> [] then (case stoi args of Inl e \<Rightarrow> throw e | Inr option \<Rightarrow> list_tasks srt option)
      else list_tasks srt 0)"

definition update_command :: "string \<Rightarrow> unit app_act" where
  "update_command args =
     (let pos_d = find_char (CHR '','') args 0;
          pos_p = find_char (CHR '','') args (after pos_d);
          pos_l = find_char (CHR '','') args (after pos_p)
      in case (pos_d, pos_p, pos_l) of
        (Some pd, Some pp, Some pl) \<Rightarrow>
          (case andThen (stoi (substr args 0 pd)) (\<lambda>i.
                andThen (stoi (substr args (pp + 1) (pl - pp - 1))) (\<lambda>priority. Inr (i, priority))) of
             Inl InvalidArgument \<Rightarrow> print ''Incorrect parameter format. Please use: delete <ID>''
           | Inl OutOfRange \<Rightarrow> print ''ID was our of range. Please use valid task ID.''
           | Inl e \<Rightarrow> throw e
           | Inr (i, priority) \<Rightarrow>
               seq (update i (substr args (pd + 1) (pp - pd - 1)) priority (drop (pl + 1) args))
                 (\<lambda>_. print ''Successfully update task.''))
      | _ \<Rightarrow> print ''Incorrect parameter format. Please use: update <ID>, <DESCRIPTION>, <PRIORITY>, <DEADLINE>'')"

text \<open>The words of the arguments (\<open>while (iss >> token)\<close>).\<close>

function tokens_of :: "string \<Rightarrow> string list" where
  "tokens_of s =
     (case dropWhile is_space s of
        [] \<Rightarrow> []
      | c # s1 \<Rightarrow> takeWhile (\<lambda>c. \<not> is_space c) (c # s1) # tokens_of (dropWhile (\<lambda>c. \<not> is_space c) s1))"
  by pat_completeness auto
termination
proof (relation "measure length")
  fix s c s1
  assume "dropWhile is_space s = c # s1"
  then have "length (c # s1) \<le> length s" by (metis length_dropWhile_le)
  then show "(dropWhile (\<lambda>c. \<not> is_space c) s1, s) \<in> measure length"
    using length_dropWhile_le [of "\<lambda>c. \<not> is_space c" s1] by simp
qed simp

declare tokens_of.simps [simp del]

text \<open>The option loop of \<open>filter_command\<close> over the tokens from \<open>i\<close> on; \<open>None\<close> is the early return.\<close>

function filter_options :: "string list \<Rightarrow> nat \<Rightarrow> filter_args \<Rightarrow> filter_args option outcome" where
  "filter_options ts i a =
     (if \<not> i < length ts then Inr (Some a)
      else if ts ! i = ''-k'' \<and> i + 1 < length ts
        then filter_options ts (i + 2) (a\<lparr>fa_keyword := ts ! (i + 1)\<rparr>)
      else if ts ! i = ''-p'' \<and> i + 2 < length ts
        then (case stoi (ts ! (i + 1)) of
                Inl InvalidArgument \<Rightarrow> Inr None
              | Inl e \<Rightarrow> Inl e
              | Inr p \<Rightarrow> filter_options ts (i + 2) (a\<lparr>fa_priority := p\<rparr>))
      else if ts ! i = ''-d'' \<and> i + 2 < length ts
        then filter_options ts (i + 3) (a\<lparr>fa_st := ts ! (i + 1), fa_ed := ts ! (i + 2)\<rparr>)
      else filter_options ts (i + 1) a)"
  by pat_completeness auto
termination
  by (relation "measure (\<lambda>(ts, i, a). length ts - i)") auto

declare filter_options.simps [simp del]

definition filter_command :: "string \<Rightarrow> unit app_act" where
  "filter_command args =
     (case filter_options (tokens_of args) 0 no_filter of
        Inl e \<Rightarrow> throw e
      | Inr None \<Rightarrow> print ''Incorrect parameter format. Please use: filter -k <keyword> -p <proirity> -d <start> <end>''
      | Inr (Some a) \<Rightarrow> filter_tasks a)"

section \<open>Registry and main loop\<close>

type_synonym creators = "(string \<times> (string \<Rightarrow> unit app_act)) list"

definition register_command :: "string \<Rightarrow> (string \<Rightarrow> unit app_act) \<Rightarrow> creators \<Rightarrow> creators" where
  "register_command name creator cs = AList.update name creator cs"

definition create :: "creators \<Rightarrow> string \<Rightarrow> (string \<Rightarrow> unit app_act) outcome" where
  "create cs name = (case map_of cs name of
     Some creator \<Rightarrow> Inr creator
   | None \<Rightarrow> Inl (RuntimeError (''Unknown command: '' @ name)))"

definition registry :: "sorter \<Rightarrow> creators" where
  "registry srt =
     register_command ''filter'' filter_command
       (register_command ''ls'' (ls_command srt)
         (register_command ''update'' update_command
           (register_command ''delete'' del_command
             (register_command ''add'' add_command []))))"

text \<open>One line of input.  The value says whether the loop goes on; only \<open>runtime_error\<close> is caught.\<close>

definition run_line :: "sorter \<Rightarrow> string \<Rightarrow> bool app_act" where
  "run_line srt input =
     (if input = [] then ret True
      else
        let space_pos = find_char (CHR '' '') input 0;
            cmd = (case space_pos of None \<Rightarrow> input | Some p \<Rightarrow> substr input 0 p);
            args = (case space_pos of None \<Rightarrow> [] | Some p \<Rightarrow> drop (p + 1) input)
        in if cmd = ''exit'' then seq (print ''Exiting program...'') (\<lambda>_. ret False)
           else (\<lambda>s. case (case create (registry srt) cmd of Inl e \<Rightarrow> (Inl e, s) | Inr f \<Rightarrow> f args s) of
                (Inl (RuntimeError m), s') \<Rightarrow> seq (print (''Unknown command: '' @ cmd)) (\<lambda>_. ret True) s'
              | (Inl e, s') \<Rightarrow> (Inl e, s')
              | (Inr _, s') \<Rightarrow> (Inr True, s')))"

text \<open>The loop over the lines of standard input.  At its end \<open>getline\<close> leaves \<open>input\<close> empty at every
  turn; \<open>None\<close> is a loop that has not returned after the given number of turns.\<close>

fun main_loop :: "sorter \<Rightarrow> nat \<Rightarrow> string list \<Rightarrow> app \<Rightarrow> (unit outcome \<times> app) option" where
  "main_loop srt 0 lines s = None"
| "main_loop srt (Suc n) lines s =
     (let (input, rest) = (case lines of [] \<Rightarrow> ([], []) | l # ls \<Rightarrow> (l, ls)) in
      case run_line srt input s of
        (Inl e, s') \<Rightarrow> Some (Inl e, s')
      | (Inr True, s') \<Rightarrow> main_loop srt n rest s'
      | (Inr False, s') \<Rightarrow> Some (Inr (), s'))"

section \<open>Reading a saved file back\<close>

text \<open>Tasks that can be read back: no comma or line break in the description, no line break in the deadline; the commands
  pass no others.  Reading trims the description and takes the first word of the deadline.\<close>

definition storable :: "string \<Rightarrow> string \<Rightarrow> bool" where
  "storable description ddl \<longleftrightarrow>
     CHR '','' \<notin> set description \<and> newline \<notin> set description \<and> newline \<notin> set ddl"

definition storable_task :: "task \<Rightarrow> bool" where
  "storable_task t \<longleftrightarrow> int_range (t_id t) \<and> int_range (t_priority t) \<and> storable (t_description t) (t_ddl t)"

definition first_word :: "string \<Rightarrow> string" where
  "first_word s = takeWhile (\<lambda>c. \<not> is_space c) (dropWhile is_space s)"

definition reloaded :: "task \<Rightarrow> task" where
  "reloaded t = t\<lparr>t_description := trim (t_description t), t_ddl := first_word (t_ddl t)\<rparr>"

lemma reloaded_simps [simp]: "t_id (reloaded t) = t_id t" "t_priority (reloaded t) = t_priority t"
  by (simp_all add: reloaded_def)

lemma set_trim: "set (trim s) \<subseteq> set s"
proof
  fix c assume "c \<in> set (trim s)"
  then have "c \<in> set (dropWhile is_blank (rev (dropWhile is_blank s)))" by (simp add: trim_def)
  then have "c \<in> set (dropWhile is_blank s)" using set_dropWhileD by fastforce
  then show "c \<in> set s" by (rule set_dropWhileD)
qed

lemma set_first_word: "set (first_word s) \<subseteq> set s" "\<forall>c \<in> set (first_word s). \<not> is_space c"
  using set_takeWhileD set_dropWhileD by (fastforce simp: first_word_def)+

lemma trim_trim: "trim (trim s) = trim s"
proof -
  have front: "dropWhile is_blank (rev (dropWhile is_blank (rev xs))) = rev (dropWhile is_blank (rev xs))"
    if "xs = [] \<or> \<not> is_blank (hd xs)" for xs
  proof (cases "rev (dropWhile is_blank (rev xs))")
    case (Cons c cs)
    have "suffix (dropWhile is_blank (rev xs)) (rev xs)" by (rule suffix_dropWhile)
    then have "prefix (c # cs) xs" unfolding Cons [symmetric] by (simp add: suffix_to_prefix)
    then have "hd xs = c" "xs \<noteq> []" by (auto simp: prefix_def)
    then show ?thesis using that Cons by simp
  next
    case Nil
    then show ?thesis by (simp only: Nil dropWhile.simps)
  qed
  have "dropWhile is_blank s = [] \<or> \<not> is_blank (hd (dropWhile is_blank s))" using hd_dropWhile by blast
  from front [OF this] show ?thesis by (simp add: trim_def dropWhile_idem)
qed

lemma reloaded_storable: "storable_task t \<Longrightarrow> storable_task (reloaded t)"
  using set_trim [of "t_description t"] set_first_word(1) [of "t_ddl t"] by (auto simp: storable_task_def storable_def reloaded_def)

text \<open>A task with a trimmed description and a deadline of one word is read back as it was.\<close>

lemma reloaded_same:
  assumes "trim (t_description t) = t_description t" "\<forall>c \<in> set (t_ddl t). \<not> is_space c"
  shows "reloaded t = t"
proof -
  have "dropWhile is_space (t_ddl t) = t_ddl t" using assms(2) by (cases "t_ddl t") simp_all
  then have "first_word (t_ddl t) = t_ddl t" using assms(2) by (simp add: first_word_def takeWhile_eq_all_conv)
  then show ?thesis using assms(1) by (simp add: reloaded_def)
qed

lemma reloaded_again: "reloaded (reloaded t) = reloaded t"
  by (rule reloaded_same) (use set_first_word(2) in \<open>simp_all add: reloaded_def trim_trim\<close>)

definition saved_line :: "task \<Rightarrow> string" where
  "saved_line t = show_int (t_id t) @ '', '' @ t_description t @ '', '' @ show_int (t_priority t) @ '', '' @ t_ddl t"

lemma save_line_eq: "save_line t = saved_line t @ [newline]"
  by (simp add: save_line_def saved_line_def)

lemma is_space_simps [simp]: "is_space (CHR '' '')" "\<not> is_space (CHR '','')" "is_space newline"
  by (simp_all add: is_space_def newline_def)

lemma starts_no_digit_comma [simp]: "starts_no_digit (CHR '','' # s)"
  by (simp add: starts_no_digit_def is_digit_def)

lemma trim_blank [simp]: "trim (CHR '' '' # s) = trim s"
  by (simp add: trim_def is_blank_def)

lemma extract_show_int:
  assumes "int_range i" "\<forall>c \<in> set sp. is_space c"
  shows "extract_int (sp @ show_int i @ CHR '','' # rest, True) = (Some i, CHR '','' # rest, True)"
proof -
  have "dropWhile is_space (sp @ show_int i @ CHR '','' # rest) \<noteq> []" by (simp add: dropWhile_eq_Nil_conv)
  then show ?thesis using assms(1) by (simp add: extract_int_def scan_show_int [OF _ assms(2)])
qed

lemma extract_comma: "extract_char (CHR '','' # s, True) = (Some (CHR '',''), s, True)"
  by (simp add: extract_char_def)

lemma extract_description:
  assumes "CHR '','' \<notin> set d"
  shows "extract_line (CHR '','') (CHR '' '' # d @ CHR '','' # rest, True) = (Some (CHR '' '' # d), rest, True)"
  using getline_append [of "CHR '',''" "CHR '' '' # d" rest] assms by (simp add: extract_line_def)

lemma extract_ddl: "(case fst (extract_word (CHR '' '' # w, True)) of None \<Rightarrow> [] | Some w \<Rightarrow> w) = first_word w"
proof (cases "dropWhile is_space w")
  case Nil
  then show ?thesis by (simp only: extract_word_def first_word_def case_prod_conv dropWhile.simps is_space_simps(1) if_True Nil list.case) simp
next
  case (Cons c cs)
  then show ?thesis by (simp add: extract_word_def first_word_def)
qed

lemma load_saved_line:
  assumes "storable_task t"
  shows "load_line (saved_line t) = Inr (reloaded t)"
proof -
  let ?p = "'', '' @ show_int (t_priority t) @ '', '' @ t_ddl t"
  have ranges: "int_range (t_id t)" "int_range (t_priority t)" and d: "CHR '','' \<notin> set (t_description t)"
    using assms by (simp_all add: storable_task_def storable_def)
  have 1: "extract_int (saved_line t, True) = (Some (t_id t), '', '' @ t_description t @ ?p, True)"
    using extract_show_int [OF ranges(1), of "[]"] by (simp add: saved_line_def)
  have 2: "extract_line (CHR '','') ('' '' @ t_description t @ ?p, True) =
      (Some (CHR '' '' # t_description t), '' '' @ show_int (t_priority t) @ '', '' @ t_ddl t, True)"
    using extract_description [OF d] by simp
  have 3: "extract_int ('' '' @ show_int (t_priority t) @ '', '' @ t_ddl t, True) =
      (Some (t_priority t), '', '' @ t_ddl t, True)"
    using extract_show_int [OF ranges(2), of "'' ''"] by simp
  obtain w' st where 4: "extract_word (CHR '' '' # t_ddl t, True) = (w', st)"
    by (cases "extract_word (CHR '' '' # t_ddl t, True)")
  with extract_ddl [of "t_ddl t"] have "(case w' of None \<Rightarrow> [] | Some w \<Rightarrow> w) = first_word (t_ddl t)" by simp
  with 1 2 3 4 show ?thesis by (simp add: load_line_def extract_comma Let_def reloaded_def)
qed

lemma newline_show_int: "newline \<notin> set (show_int i)"
proof
  assume "newline \<in> set (show_int i)"
  then have "is_digit newline" by (auto simp: show_int_def newline_def split: if_splits)
  then show False by (simp add: is_digit_def newline_def)
qed

lemma newline_saved_line:
  assumes "storable_task t"
  shows "newline \<notin> set (saved_line t)"
proof -
  have "newline \<notin> set '', ''" by (simp add: newline_def)
  then show ?thesis using assms newline_show_int
    unfolding saved_line_def set_append Un_iff storable_task_def storable_def by blast
qed

lemma file_lines_Cons: "newline \<notin> set l \<Longrightarrow> file_lines (l @ newline # rest) = l # file_lines rest"
  by (subst file_lines.simps) simp

lemma file_lines_saved: "\<forall>t \<in> set ts. storable_task t \<Longrightarrow> file_lines (concat (map save_line ts)) = map saved_line ts"
  by (induction ts) (simp_all add: file_lines.simps [of "[]"] save_line_eq file_lines_Cons newline_saved_line)

text \<open>The identifier that follows those of the tasks.\<close>

definition next_after :: "task list \<Rightarrow> int \<Rightarrow> int" where
  "next_after ts n = fold (\<lambda>t n. max n (t_id t + 1)) ts n"

lemma next_after_simps [simp]:
  "next_after [] n = n" "next_after (t # ts) n = next_after ts (max n (t_id t + 1))"
  by (simp_all add: next_after_def)

lemma next_after_bounds:
  "\<forall>t \<in> set ts. t_id t < b \<Longrightarrow> n \<le> b \<Longrightarrow> n \<le> next_after ts n \<and> next_after ts n \<le> b"
proof (induction ts arbitrary: n)
  case (Cons t ts)
  then have "t_id t + 1 \<le> b" "\<forall>t \<in> set ts. t_id t < b" by simp_all
  with Cons.IH [of "max n (t_id t + 1)"] Cons.prems(2) show ?case by simp
qed simp

lemma load_loop_saved:
  "\<forall>t \<in> set ts. storable_task t \<and> 0 \<le> t_id t \<and> t_id t < int_max \<Longrightarrow> uint (next_id s) \<le> int_max \<Longrightarrow>
   load_loop (map saved_line ts) s =
     (Inr (), s\<lparr>tasks := tasks s @ map reloaded ts, next_id := of_int (next_after ts (uint (next_id s)))\<rparr>)"
proof (induction ts arbitrary: s)
  case (Cons t ts)
  have t: "storable_task t" "0 \<le> t_id t" "t_id t < int_max"
    and ts: "\<forall>t \<in> set ts. storable_task t \<and> 0 \<le> t_id t \<and> t_id t < int_max" using Cons.prems(1) by simp_all
  have u: "uint (of_int (t_id t) :: u64) = t_id t" "uint (of_int (t_id t + 1) :: u64) = t_id t + 1"
    using t(2,3) by (simp_all add: unsigned_of_int take_bit_int_eq_self int_max_def del: of_int_add)
  have cmp: "next_id s \<le> of_int (t_id t) \<longleftrightarrow> uint (next_id s) < t_id t + 1"
    by (simp add: word_le_def u(1))
  let ?s = "s\<lparr>tasks := tasks s @ [reloaded t]\<rparr>"
  show ?case
  proof (cases "uint (next_id s) < t_id t + 1")
    case True
    let ?s' = "?s\<lparr>next_id := of_int (t_id t + 1)\<rparr>"
    have "load_loop (map saved_line (t # ts)) s = load_loop (map saved_line ts) ?s'"
      using True t(3) by (simp add: load_saved_line [OF t(1)] cmp Let_def)
    moreover have "uint (next_id ?s') \<le> int_max" using t(3) u(2) by (simp del: of_int_add)
    ultimately show ?thesis using Cons.IH [OF ts, of ?s'] True u(2)
      by (simp add: max_absorb2 del: of_int_add)
  next
    case False
    have "load_loop (map saved_line (t # ts)) s = load_loop (map saved_line ts) ?s"
      using False by (simp add: load_saved_line [OF t(1)] cmp Let_def)
    then show ?thesis using Cons.IH [OF ts, of ?s] Cons.prems(2) False by (simp add: max_absorb1)
  qed
qed simp


lemma next_after_above: "t \<in> set ts \<Longrightarrow> t_id t < next_after ts n"
proof (induction ts arbitrary: n)
  case (Cons a ts)
  have "next_after ts m \<ge> m" for m
    by (induction ts arbitrary: m) (auto intro: order_trans [OF max.cobounded1])
  from this [of "max n (t_id a + 1)"] Cons show ?case by auto
qed simp

lemma load_keeps_disk: "load s = (r, s') \<Longrightarrow> disk s' = disk s \<and> disk_writable s' = disk_writable s"
proof -
  have loop: "disk (snd (load_loop ls s)) = disk s \<and> disk_writable (snd (load_loop ls s)) = disk_writable s" for ls s
    by (induction ls s rule: load_loop.induct) (auto simp: Let_def split: sum.split)
  assume "load s = (r, s')"
  then show ?thesis using loop [of "file_lines (the (disk s))" s]
    by (auto simp: load_def seq_def log_def modify_def split: option.splits prod.splits sum.splits)
qed

lemma reload_tasks:
  assumes "\<forall>t \<in> set ts. storable_task t \<and> 0 < t_id t \<and> t_id t < int_max"
  shows "\<exists>s. task_manager (Some (concat (map save_line ts))) w = (Inr (), s) \<and> tasks s = map reloaded ts \<and>
    uint (next_id s) = next_after ts 1 \<and> (\<forall>t \<in> set ts. t_id t < uint (next_id s)) \<and> cout s = []"
proof -
  let ?s = "\<lparr>tasks = [], next_id = 1, disk = Some (concat (map save_line ts)), disk_writable = w, cout = [],
    log_file = []\<rparr>"
  have "\<forall>t \<in> set ts. storable_task t" "\<forall>t \<in> set ts. storable_task t \<and> 0 \<le> t_id t \<and> t_id t < int_max" using assms by auto
  then have load: "load_loop (file_lines (concat (map save_line ts))) ?s =
      (Inr (), ?s\<lparr>tasks := map reloaded ts, next_id := of_int (next_after ts 1)\<rparr>)"
    by (simp add: file_lines_saved load_loop_saved int_max_def)
  have b: "1 \<le> next_after ts 1" "next_after ts 1 \<le> int_max"
    using next_after_bounds [of ts int_max 1] assms by (auto simp: int_max_def)
  have u: "uint (of_int (next_after ts 1) :: u64) = next_after ts 1"
    using b by (simp add: unsigned_of_int take_bit_int_eq_self int_max_def)
  show ?thesis using load u next_after_above
    by (simp add: task_manager_def load_def seq_def log_def modify_def)
qed

text \<open>Restarting the program reads exactly the tasks that \<open>save\<close> wrote, in order, for every list of
  storable_task tasks with identifiers below the largest \<open>int\<close>, and the next identifier follows the largest one.\<close>

theorem task_reload:
  assumes "\<forall>t \<in> set ts. storable_task t \<and> 0 < t_id t \<and> t_id t < int_max"
  shows "\<exists>s. task_manager (Some (concat (map save_line ts))) w = (Inr (), s) \<and> tasks s = map reloaded ts \<and>
    uint (next_id s) = next_after ts 1 \<and> (\<forall>t \<in> set ts. t_id t < uint (next_id s)) \<and> cout s = []"
  using reload_tasks [OF assms] .

theorem task_reload_witness:
  "\<exists>s. task_manager (Some (concat (map save_line
       [\<lparr>t_id = 2, t_description = ''buy milk'', t_priority = 1, t_ddl = ''2026-06-15''\<rparr>]))) True = (Inr (), s) \<and>
     tasks s = map reloaded [\<lparr>t_id = 2, t_description = ''buy milk'', t_priority = 1, t_ddl = ''2026-06-15''\<rparr>] \<and>
     uint (next_id s) = next_after [\<lparr>t_id = 2, t_description = ''buy milk'', t_priority = 1, t_ddl = ''2026-06-15''\<rparr>] 1 \<and>
     (\<forall>t \<in> set [\<lparr>t_id = 2, t_description = ''buy milk'', t_priority = 1, t_ddl = ''2026-06-15''\<rparr>].
        t_id t < uint (next_id s)) \<and> cout s = []"
  by (rule task_reload)
    (simp add: storable_task_def storable_def int_min_def int_max_def newline_def)

section \<open>Sessions\<close>

datatype task_op = Add string int string | Remove int | Update int string int string

fun run_op :: "task_op \<Rightarrow> unit app_act" where
  "run_op (Add d p w) = add d p w"
| "run_op (Remove i) = remove i"
| "run_op (Update i d p w) = update i d p w"

fun run_session :: "task_op list \<Rightarrow> unit app_act" where
  "run_session [] = ret ()"
| "run_session (op # ops) = seq (run_op op) (\<lambda>_. run_session ops)"

text \<open>The contract: a counter and a list of tasks with different identifiers.\<close>

fun spec_op :: "task_op \<Rightarrow> int \<times> task list \<Rightarrow> int \<times> task list" where
  "spec_op (Add d p w) (n, ts) = (n + 1, ts @ [\<lparr>t_id = n, t_description = d, t_priority = p, t_ddl = w\<rparr>])"
| "spec_op (Remove i) (n, ts) = (n, filter (\<lambda>t. t_id t \<noteq> i) ts)"
| "spec_op (Update i d p w) (n, ts) =
     (n, map (\<lambda>t. if t_id t = i then t\<lparr>t_description := d, t_priority := p, t_ddl := w\<rparr> else t) ts)"

text \<open>The texts of an operation as the commands pass them.\<close>

fun passed_op :: "task_op \<Rightarrow> bool" where
  "passed_op (Add d p w) = (int_range p \<and> storable d w)"
| "passed_op (Remove i) = True"
| "passed_op (Update i d p w) = (int_range p \<and> storable d w)"

definition abs_app :: "app \<Rightarrow> int \<times> task list" where
  "abs_app s = (uint (next_id s), tasks s)"

fun spec_ok :: "int \<times> task list \<Rightarrow> bool" where
  "spec_ok (n, ts) \<longleftrightarrow> distinct (map t_id ts) \<and> 1 \<le> n \<and> (\<forall>t \<in> set ts. storable_task t \<and> 0 < t_id t \<and> t_id t < n)"

text \<open>The file holds the tasks, or a program started now would read them as it would from their file.\<close>

definition file_ok :: "app \<Rightarrow> bool" where
  "file_ok s \<longleftrightarrow> disk_writable s \<and>
     (disk s = Some (concat (map save_line (tasks s))) \<or>
      (\<exists>s'. task_manager (disk s) True = (Inr (), s') \<and> tasks s' = map reloaded (tasks s)))"

lemma find_task_None: "find_task i ts = None \<Longrightarrow> t \<in> set ts \<Longrightarrow> t_id t \<noteq> i"
  by (induction ts) (auto split: if_splits)

lemma find_task_Some:
  "distinct (map t_id ts) \<Longrightarrow> find_task i ts = Some k \<Longrightarrow>
   k < length ts \<and> t_id (ts ! k) = i \<and> take k ts @ drop (Suc k) ts = filter (\<lambda>t. t_id t \<noteq> i) ts \<and>
   (\<forall>f. ts[k := f (ts ! k)] = map (\<lambda>t. if t_id t = i then f t else t) ts)"
proof (induction ts arbitrary: k)
  case (Cons t ts)
  show ?case
  proof (cases "t_id t = i")
    case True
    then have "\<forall>u \<in> set ts. t_id u \<noteq> i" using Cons.prems(1) by (auto simp: image_iff)
    then have "filter (\<lambda>t. t_id t \<noteq> i) ts = ts" "map (\<lambda>t. if t_id t = i then f t else t) ts = ts" for f
      by (simp_all add: filter_id_conv map_idI)
    with True Cons.prems show ?thesis by simp
  next
    case False
    with Cons.prems obtain j where "find_task i ts = Some j" "k = Suc j" by auto
    with Cons.IH [of j] Cons.prems False show ?thesis by simp
  qed
qed simp

lemma size_to_int_small: "uint w \<le> int_max \<Longrightarrow> size_to_int w = uint w"
proof -
  assume "uint w \<le> int_max"
  then have "uint w < 2 ^ 31" by (simp add: int_max_def)
  moreover have "- (2 ^ 31) \<le> uint w" by (rule order_trans [of _ 0]) simp_all
  ultimately have "signed_take_bit 31 (uint w) = uint w" by (intro signed_take_bit_int_eq_self)
  then show ?thesis
    by (simp add: size_to_int_def signed_ucast_eq uint_word_of_int sint_uint signed_take_bit_take_bit unsigned_ucast_eq)
qed

lemmas op_simps = seq_def modify_def log_def print_def save_def not_found_def

lemma add_step:
  assumes "disk_writable s" "uint (next_id s) < int_max"
  shows "\<exists>s'. add d p w s = (Inr (), s') \<and> abs_app s' = spec_op (Add d p w) (abs_app s) \<and> file_ok s'"
proof -
  have "uint (next_id s + 1) = uint (next_id s) + 1"
    using assms(2) by (simp add: uint_plus_if' int_max_def)
  with assms show ?thesis
    by (simp add: add_def op_simps abs_app_def file_ok_def size_to_int_small Let_def)
qed

lemma remove_step:
  assumes "file_ok s" "distinct (map t_id (tasks s))"
  shows "\<exists>s'. remove i s = (Inr (), s') \<and> abs_app s' = spec_op (Remove i) (abs_app s) \<and> file_ok s'"
proof (cases "find_task i (tasks s)")
  case None
  from find_task_None [OF this] have "filter (\<lambda>t. t_id t \<noteq> i) (tasks s) = tasks s"
    by (auto simp: filter_id_conv)
  with None assms(1) show ?thesis by (simp add: remove_def op_simps abs_app_def file_ok_def)
next
  case (Some k)
  from find_task_Some [OF assms(2) this] Some assms(1) show ?thesis
    by (simp add: remove_def op_simps abs_app_def file_ok_def)
qed

lemma update_step:
  assumes "file_ok s" "distinct (map t_id (tasks s))"
  shows "\<exists>s'. update i d p w s = (Inr (), s') \<and> abs_app s' = spec_op (Update i d p w) (abs_app s) \<and> file_ok s'"
proof (cases "find_task i (tasks s)")
  case None
  from find_task_None [OF this] have
    "map (\<lambda>t. if t_id t = i then t\<lparr>t_description := d, t_priority := p, t_ddl := w\<rparr> else t) (tasks s) = tasks s"
    by (auto intro!: map_idI)
  with None assms(1) show ?thesis by (simp add: update_def op_simps abs_app_def file_ok_def)
next
  case (Some k)
  let ?f = "\<lambda>t. t\<lparr>t_description := d, t_priority := p, t_ddl := w\<rparr>"
  have "\<forall>f. (tasks s)[k := f (tasks s ! k)] = map (\<lambda>t. if t_id t = i then f t else t) (tasks s)"
    using find_task_Some [OF assms(2) Some] by blast
  then have "(tasks s)[k := ?f (tasks s ! k)] = map (\<lambda>t. if t_id t = i then ?f t else t) (tasks s)"
    by (rule spec)
  with Some assms(1) show ?thesis
    by (simp add: update_def op_simps abs_app_def file_ok_def Let_def)
qed

lemma spec_op_ok:
  assumes "spec_ok (n, ts)" "passed_op op" "n < int_max"
  shows "spec_ok (spec_op op (n, ts)) \<and> fst (spec_op op (n, ts)) \<le> n + 1"
proof (cases op)
  case (Add d p w)
  with assms show ?thesis by (auto simp: storable_task_def int_min_def dest: less_imp_le)
next
  case (Remove i)
  with assms(1) show ?thesis by (auto simp: distinct_map_filter)
next
  case (Update i d p w)
  have "t_id \<circ> (\<lambda>t :: task. if t_id t = i then t\<lparr>t_description := d, t_priority := p, t_ddl := w\<rparr> else t) = t_id"
    by (rule ext) simp
  with assms Update show ?thesis by (auto simp: storable_task_def)
qed


lemma run_op_step:
  assumes "file_ok s" "spec_ok (abs_app s)" "uint (next_id s) < int_max" "passed_op op"
  shows "\<exists>s'. run_op op s = (Inr (), s') \<and> abs_app s' = spec_op op (abs_app s) \<and> file_ok s' \<and>
    spec_ok (abs_app s') \<and> uint (next_id s') \<le> uint (next_id s) + 1"
proof -
  have d: "distinct (map t_id (tasks s))" "disk_writable s"
    using assms(1,2) by (simp_all add: abs_app_def file_ok_def)
  have "\<exists>s'. run_op op s = (Inr (), s') \<and> abs_app s' = spec_op op (abs_app s) \<and> file_ok s'"
    using add_step [OF d(2) assms(3)] remove_step [OF assms(1) d(1)] update_step [OF assms(1) d(1)]
    by (cases op) simp_all
  then obtain s' where s': "run_op op s = (Inr (), s')" "abs_app s' = spec_op op (abs_app s)" "file_ok s'"
    by blast
  have "spec_ok (abs_app s') \<and> fst (abs_app s') \<le> uint (next_id s) + 1"
    using spec_op_ok [OF assms(2) [unfolded abs_app_def] assms(4,3)]
    unfolding s'(2) unfolding abs_app_def [of s] .
  moreover have "fst (abs_app s') = uint (next_id s')" by (simp add: abs_app_def)
  ultimately show ?thesis using s' by auto
qed

lemma run_session_refines:
  "file_ok s \<Longrightarrow> spec_ok (abs_app s) \<Longrightarrow> uint (next_id s) + int (length ops) \<le> int_max \<Longrightarrow>
   \<forall>op \<in> set ops. passed_op op \<Longrightarrow>
   \<exists>s'. run_session ops s = (Inr (), s') \<and> abs_app s' = fold spec_op ops (abs_app s) \<and> file_ok s' \<and>
     spec_ok (abs_app s') \<and> uint (next_id s') \<le> int_max"
proof (induction ops arbitrary: s)
  case Nil
  then show ?case by (simp add: ret_def)
next
  case (Cons op ops)
  have "uint (next_id s) < int_max" "passed_op op" using Cons.prems(3,4) by simp_all
  from run_op_step [OF Cons.prems(1,2) this] obtain s1 where
    s1: "run_op op s = (Inr (), s1)" "abs_app s1 = spec_op op (abs_app s)" "file_ok s1" "spec_ok (abs_app s1)"
      "uint (next_id s1) \<le> uint (next_id s) + 1" by blast
  have "uint (next_id s1) + int (length ops) \<le> int_max" "\<forall>op \<in> set ops. passed_op op"
    using s1(5) Cons.prems(3,4) by simp_all
  from Cons.IH [OF s1(3,4) this] s1(1,2) show ?case by (simp add: seq_def)
qed

lemma manager_starts:
  assumes "file = None \<and> ts = [] \<or> file = Some (concat (map save_line ts))"
    and "\<forall>t \<in> set ts. storable_task t \<and> 0 < t_id t \<and> t_id t < int_max" "distinct (map t_id ts)"
  shows "\<exists>s. task_manager file True = (Inr (), s) \<and> abs_app s = (next_after ts 1, map reloaded ts) \<and> file_ok s \<and> spec_ok (abs_app s)"
proof -
  have "\<exists>s. task_manager file True = (Inr (), s) \<and> tasks s = map reloaded ts \<and> uint (next_id s) = next_after ts 1 \<and>
      (\<forall>t \<in> set ts. t_id t < uint (next_id s)) \<and> disk s = file \<and> disk_writable s"
    using assms(1)
  proof (elim disjE conjE)
    assume "file = None" "ts = []"
    then show ?thesis by (simp add: task_manager_def load_def log_def modify_def)
  next
    assume f: "file = Some (concat (map save_line ts))"
    from reload_tasks [OF assms(2), of True] f obtain s where "task_manager file True = (Inr (), s)" "tasks s = map reloaded ts"
      "uint (next_id s) = next_after ts 1" "\<forall>t \<in> set ts. t_id t < uint (next_id s)" by auto
    moreover from this(1) have "disk s = file" "disk_writable s" using load_keeps_disk by (auto simp: task_manager_def)
    ultimately show ?thesis by blast
  qed
  then obtain s where s: "task_manager file True = (Inr (), s)" "tasks s = map reloaded ts" "uint (next_id s) = next_after ts 1"
    "\<forall>t \<in> set ts. t_id t < uint (next_id s)" "disk s = file" "disk_writable s" by blast
  have "file_ok s" using s(1,2,5,6) by (simp add: file_ok_def reloaded_again)
  moreover have "1 \<le> next_after ts 1" using next_after_bounds [of ts int_max 1] assms(2) by (simp add: int_max_def)
  then have "spec_ok (abs_app s)" using assms(2,3) s(2,3,4) reloaded_storable by (simp add: abs_app_def comp_def)
  ultimately show ?thesis using s by (simp add: abs_app_def)
qed

text \<open>C4: A session of additions, removals and updates with texts as the commands pass them (no comma or line break in a description,
  no line break in a deadline), with a writable file that is absent or was written by an earlier session, and
  fewer operations than there are identifiers left: it behaves as a list of tasks with a counter of identifiers;
  identifiers are never reused nor duplicated, a removal or update touches the named task only, and a program started
  afterwards reads the same tasks from the file in the same order, each description trimmed of blanks and
  each deadline cut to its first word.\<close>

theorem task_session_persistent:
  assumes "file = None \<and> ts = [] \<or> file = Some (concat (map save_line ts))"
    and "\<forall>t \<in> set ts. storable_task t \<and> 0 < t_id t" "distinct (map t_id ts)"
    and "\<forall>op \<in> set ops. passed_op op" "next_after ts 1 + int (length ops) \<le> int_max"
  shows "\<exists>s0 s s'. task_manager file True = (Inr (), s0) \<and> run_session ops s0 = (Inr (), s) \<and>
    (uint (next_id s), tasks s) = fold spec_op ops (next_after ts 1, map reloaded ts) \<and>
    distinct (map t_id (tasks s)) \<and>
    task_manager (disk s) True = (Inr (), s') \<and> tasks s' = map reloaded (tasks s)"
proof -
  have "next_after ts 1 \<le> int_max" using assms(5) by simp
  then have "t_id t < int_max" if "t \<in> set ts" for t using next_after_above [OF that, of 1] by linarith
  then have "\<forall>t \<in> set ts. storable_task t \<and> 0 < t_id t \<and> t_id t < int_max" using assms(2) by blast
  from manager_starts [OF assms(1) this assms(3)] obtain s0 where
    s0: "task_manager file True = (Inr (), s0)" "abs_app s0 = (next_after ts 1, map reloaded ts)" "file_ok s0" "spec_ok (abs_app s0)" by blast
  have "uint (next_id s0) + int (length ops) \<le> int_max" using s0(2) assms(5) by (simp add: abs_app_def)
  from run_session_refines [OF s0(3,4) this assms(4)] obtain s where
    s: "run_session ops s0 = (Inr (), s)" "abs_app s = fold spec_op ops (abs_app s0)" "file_ok s"
      "spec_ok (abs_app s)" "uint (next_id s) \<le> int_max" by blast
  have stored: "\<forall>t \<in> set (tasks s). storable_task t \<and> 0 < t_id t \<and> t_id t < int_max"
    using s(4,5) by (auto simp: abs_app_def)
  have "\<exists>s'. task_manager (disk s) True = (Inr (), s') \<and> tasks s' = map reloaded (tasks s)"
    using s(3) reload_tasks [OF stored, of True] unfolding file_ok_def by auto
  moreover have "distinct (map t_id (tasks s))" using s(4) by (simp add: abs_app_def)
  moreover have "(uint (next_id s), tasks s) = fold spec_op ops (next_after ts 1, map reloaded ts)" using s(2) s0(2) by (simp add: abs_app_def)
  ultimately show ?thesis using s0(1) s(1) by blast
qed

text \<open>A file with one task; \<open>update\<close> passes its texts with the blanks after the commas.\<close>

theorem task_session_persistent_witness:
  "\<exists>s0 s s'. task_manager (Some (concat (map save_line [\<lparr>t_id = 1, t_description = ''a'', t_priority = 1, t_ddl = ''d''\<rparr>]))) True = (Inr (), s0) \<and>
     run_session [Add ''b'' 2 ''e'', Remove 1, Update 2 '' c'' 3 '' f g''] s0 = (Inr (), s) \<and>
     (uint (next_id s), tasks s) = fold spec_op [Add ''b'' 2 ''e'', Remove 1, Update 2 '' c'' 3 '' f g'']
       (next_after [\<lparr>t_id = 1, t_description = ''a'', t_priority = 1, t_ddl = ''d''\<rparr>] 1,
        map reloaded [\<lparr>t_id = 1, t_description = ''a'', t_priority = 1, t_ddl = ''d''\<rparr>]) \<and>
     distinct (map t_id (tasks s)) \<and> task_manager (disk s) True = (Inr (), s') \<and> tasks s' = map reloaded (tasks s)"
  by (rule task_session_persistent)
    (simp_all add: storable_task_def storable_def int_min_def int_max_def newline_def)

section \<open>Listing and filtering\<close>

text \<open>What \<open>std::sort\<close> promises for the two comparisons: a permutation without inversions.\<close>

definition sorts :: "sorter \<Rightarrow> bool" where
  "sorts srt \<longleftrightarrow> (\<forall>cmp \<in> {cmp_by_priority, cmp_by_date}. \<forall>ts.
     mset (srt cmp ts) = mset ts \<and> sorted_wrt (\<lambda>x y. \<not> cmp y x) (srt cmp ts))"

fun insert_by :: "('a \<Rightarrow> 'a \<Rightarrow> bool) \<Rightarrow> 'a \<Rightarrow> 'a list \<Rightarrow> 'a list" where
  "insert_by cmp x [] = [x]"
| "insert_by cmp x (y # ys) = (if cmp y x then y # insert_by cmp x ys else x # y # ys)"

definition insertion_sort :: sorter where
  "insertion_sort cmp ts = foldr (insert_by cmp) ts []"

lemma mset_insert_by [simp]: "mset (insert_by cmp x ys) = add_mset x (mset ys)"
  by (induction ys) auto

lemma set_insert_by [simp]: "set (insert_by cmp x ys) = insert x (set ys)"
  by (induction ys) auto

lemma sorted_insert_by:
  fixes f :: "'a \<Rightarrow> 'b :: linorder"
  assumes "\<And>x y. cmp x y \<longleftrightarrow> f x < f y"
  shows "sorted_wrt (\<lambda>x y. \<not> cmp y x) ys \<Longrightarrow> sorted_wrt (\<lambda>x y. \<not> cmp y x) (insert_by cmp x ys)"
  by (induction ys) (fastforce simp: assms)+

lemma sorts_insertion_sort: "sorts insertion_sort"
proof -
  have "mset (insertion_sort cmp ts) = mset ts" for cmp ts
    by (induction ts) (simp_all add: insertion_sort_def)
  moreover have "sorted_wrt (\<lambda>x y. \<not> cmp_by_priority y x) (insertion_sort cmp_by_priority ts)" for ts
    by (induction ts)
      (simp_all add: insertion_sort_def sorted_insert_by [of _ t_priority] cmp_by_priority_def [abs_def])
  moreover have "sorted_wrt (\<lambda>x y. \<not> cmp_by_date y x) (insertion_sort cmp_by_date ts)" for ts
    by (induction ts)
      (simp_all add: insertion_sort_def sorted_insert_by [of _ t_ddl] cmp_by_date_def [abs_def])
  ultimately show ?thesis by (simp add: sorts_def)
qed

lemma contains_iff: "contains kw s \<longleftrightarrow> (\<exists>pre post. s = pre @ kw @ post)"
proof (induction s)
  case (Cons c s)
  have "take (length kw) (c # s) = kw \<longleftrightarrow> (\<exists>post. c # s = kw @ post)"
    by (metis append_eq_conv_conj append_take_drop_id)
  then show ?case using Cons.IH by (auto simp: Cons_eq_append_conv)
qed simp

text \<open>\<open>ls\<close> prints every task once, by priority for option 1, by deadline for option 2 and in order of
  insertion otherwise; \<open>filter\<close> prints exactly the tasks that meet all the conditions given, in order of
  insertion; neither changes the tasks or the file.\<close>

theorem list_and_filter_correct:
  assumes "sorts srt"
  shows "(\<exists>ts s'. list_tasks srt option s = (Inr (), s') \<and> cout s' = cout s @ map task_to_string ts \<and>
      mset ts = mset (tasks s) \<and>
      (option = 1 \<longrightarrow> sorted (map t_priority ts)) \<and> (option = 2 \<longrightarrow> sorted (map t_ddl ts)) \<and>
      (option \<noteq> 1 \<and> option \<noteq> 2 \<longrightarrow> ts = tasks s) \<and> tasks s' = tasks s \<and> disk s' = disk s) \<and>
    (filter_preds a \<noteq> [] \<longrightarrow> filter_tasks a s = (Inr (), s\<lparr>cout := cout s @ map task_to_string (filter (\<lambda>t.
        (fa_keyword a \<noteq> [] \<longrightarrow> (\<exists>pre post. t_description t = pre @ fa_keyword a @ post)) \<and>
        (fa_priority a \<noteq> 0 \<longrightarrow> t_priority t = fa_priority a) \<and>
        (fa_st a \<noteq> [] \<and> fa_ed a \<noteq> [] \<longrightarrow> fa_st a \<le> t_ddl t \<and> t_ddl t \<le> fa_ed a)) (tasks s))\<rparr>))"
proof
  let ?ts = "if option = 1 then srt cmp_by_priority (tasks s)
     else if option = 2 then srt cmp_by_date (tasks s) else tasks s"
  have p: "mset (srt cmp_by_priority ts) = mset ts" "sorted (map t_priority (srt cmp_by_priority ts))" for ts
    using assms by (simp_all add: sorts_def sorted_map cmp_by_priority_def not_less)
  have d: "mset (srt cmp_by_date ts) = mset ts" "sorted (map t_ddl (srt cmp_by_date ts))" for ts
    using assms by (simp_all add: sorts_def sorted_map cmp_by_date_def not_less)
  show "\<exists>ts s'. list_tasks srt option s = (Inr (), s') \<and> cout s' = cout s @ map task_to_string ts \<and>
      mset ts = mset (tasks s) \<and>
      (option = 1 \<longrightarrow> sorted (map t_priority ts)) \<and> (option = 2 \<longrightarrow> sorted (map t_ddl ts)) \<and>
      (option \<noteq> 1 \<and> option \<noteq> 2 \<longrightarrow> ts = tasks s) \<and> tasks s' = tasks s \<and> disk s' = disk s"
    by (rule exI [of _ ?ts]) (simp add: list_tasks_def print_all_def modify_def p d)
  show "filter_preds a \<noteq> [] \<longrightarrow> filter_tasks a s = (Inr (), s\<lparr>cout := cout s @ map task_to_string (filter (\<lambda>t.
        (fa_keyword a \<noteq> [] \<longrightarrow> (\<exists>pre post. t_description t = pre @ fa_keyword a @ post)) \<and>
        (fa_priority a \<noteq> 0 \<longrightarrow> t_priority t = fa_priority a) \<and>
        (fa_st a \<noteq> [] \<and> fa_ed a \<noteq> [] \<longrightarrow> fa_st a \<le> t_ddl t \<and> t_ddl t \<le> fa_ed a)) (tasks s))\<rparr>)"
    by (auto simp: filter_tasks_def print_all_def modify_def filter_preds_def contains_iff [symmetric]
        intro!: arg_cong [of _ _ "map task_to_string"] filter_cong)
qed

theorem list_and_filter_correct_witness:
  "\<exists>ts s'. list_tasks insertion_sort 1 (snd (task_manager None True)) = (Inr (), s') \<and>
     mset ts = mset (tasks (snd (task_manager None True))) \<and> sorted (map t_priority ts)"
  using list_and_filter_correct [OF sorts_insertion_sort, of 1 "snd (task_manager None True)" no_filter]
  by auto

section \<open>What the commands do with their input\<close>

text \<open>\<open>add\<close> parses a description, a priority and a deadline separated by commas, trims the texts and adds
  the task.\<close>

theorem add_command_parses:
  assumes "d \<noteq> []" "CHR '','' \<notin> set d" "int_range p"
  shows "add_command (d @ '','' @ show_int p @ '','' @ w) =
    seq (add (trim d) p (trim w)) (\<lambda>_. print ''Successfully add task.'')"
proof -
  let ?args = "d @ '','' @ show_int p @ '','' @ w"
  have tw: "takeWhile (\<lambda>x. x \<noteq> CHR '','') (xs @ CHR '','' # ys) = xs" if "CHR '','' \<notin> set xs" for xs ys
    using that by (auto intro!: takeWhile_eq_all_conv [THEN iffD2] simp: takeWhile_append)
  have comma: "CHR '','' \<notin> set (show_int p)"
    using is_digit_not_sign show_nat_digits by (fastforce simp: show_int_def split: if_splits)
  have "drop (Suc (length d)) ?args = show_int p @ CHR '','' # w" by simp
  then have pos: "find_char (CHR '','') ?args 0 = Some (length d)"
    "find_char (CHR '','') ?args (Suc (length d)) = Some (Suc (length d) + length (show_int p))"
    using tw [OF assms(2)] tw [OF comma] by (simp_all add: find_char_def)
  have "stoi (substr ?args (length d + 1) (length (show_int p))) = Inr p"
    using stoi_show_int [OF assms(3), of "[]"] by (simp add: substr_def starts_no_digit_def)
  with pos assms(1) show ?thesis
    by (simp add: add_command_def after_def substr_def Let_def)
qed

theorem add_command_parses_witness:
  "add_command (''milk'' @ '','' @ show_int 2 @ '','' @ '' 2026-06-15'') =
    seq (add (trim ''milk'') 2 (trim '' 2026-06-15'')) (\<lambda>_. print ''Successfully add task.'')"
  by (rule add_command_parses) (simp_all add: int_min_def int_max_def)


text \<open>A priority option at the end of a filter command is ignored, whatever precedes it: the documented
  \<open>filter -p 1\<close> prints the usage line, and \<open>filter -k sb -p 1\<close> filters by the keyword alone.\<close>

theorem filter_priority_ignored:
  "filter_options (pre @ [''-p'', x]) (length pre) a = Inr (Some a) \<and>
   filter_command ''-p 1'' s = (Inr (), s\<lparr>cout := cout s @
     [''Usage: filter -k <keyword> -p <priority>-d <date_begin> <date_end>'']\<rparr>) \<and>
   filter_command ''-k sb -p 1'' = filter_tasks (no_filter\<lparr>fa_keyword := ''sb''\<rparr>)"
proof -
  have last: "filter_options (pre @ [''-p'', x]) (length pre) a = Inr (Some a)" for pre x a
    by (subst filter_options.simps, simp add: nth_append)
      (subst filter_options.simps, simp add: nth_append, subst filter_options.simps, simp)
  have t1: "tokens_of ''-p 1'' = [''-p'', ''1'']"
    by (simp add: tokens_of.simps is_space_def)
  have t2: "tokens_of ''-k sb -p 1'' = [''-k'', ''sb''] @ [''-p'', ''1'']"
    by (simp add: tokens_of.simps is_space_def)
  have "filter_command ''-p 1'' s = (Inr (), s\<lparr>cout := cout s @
     [''Usage: filter -k <keyword> -p <priority>-d <date_begin> <date_end>'']\<rparr>)"
    using last [of "[]" "''1''" no_filter]
    by (simp add: filter_command_def t1 filter_tasks_def filter_preds_def no_filter_def print_def modify_def)
  moreover have "filter_options (tokens_of ''-k sb -p 1'') 0 no_filter =
      Inr (Some (no_filter\<lparr>fa_keyword := ''sb''\<rparr>))"
    using last [of "[''-k'', ''sb'']" "''1''" "no_filter\<lparr>fa_keyword := ''sb''\<rparr>"]
    by (subst filter_options.simps) (simp add: t2 eval_nat_numeral)
  ultimately show ?thesis using last by (simp add: filter_command_def)
qed

text \<open>The main loop ends on \<open>exit\<close>, but a listing option that is no number escapes it as an uncaught
  exception, and at the end of its input the loop never returns.\<close>

theorem main_loop_ends:
  "(\<exists>s'. main_loop srt (Suc n) (''exit'' # lines) s = Some (Inr (), s')) \<and>
   main_loop srt (Suc n) (''ls x'' # lines) s = Some (Inl InvalidArgument, s) \<and>
   main_loop srt k [] s = None"
proof (intro conjI)
  show "\<exists>s'. main_loop srt (Suc n) (''exit'' # lines) s = Some (Inr (), s')"
    by (simp add: run_line_def find_char_def seq_def print_def modify_def ret_def)
  have "map_of (registry srt) ''ls'' = Some (ls_command srt)"
    by (simp add: registry_def register_command_def)
  moreover have "stoi ''x'' = Inl InvalidArgument"
    by (simp add: stoi_def scan_int_def is_space_def is_digit_def)
  ultimately show "main_loop srt (Suc n) (''ls x'' # lines) s = Some (Inl InvalidArgument, s)"
    by (simp add: run_line_def find_char_def substr_def create_def ls_command_def throw_def)
  show "main_loop srt k [] s = None"
    by (induction k) (simp_all add: run_line_def ret_def)
qed

end
