(* ===== verification/Async_Logger.thy ===== *)
theory Async_Logger
  imports Cpp_Text
begin

text \<open>
  The asynchronous logger of
  src/cplusplus/basement/base\_code/src/task/asynchronous\_log\_sys\_demo/logger.h: message formatting, the
  blocking queue, the console and rotating file sinks, and the logger whose worker thread moves messages
  from the queue to the sinks.

  The clock is a parameter (the date at each write, the time at each call of \<open>log\<close>).  Every access to
  shared data happens under its mutex, so the threads are interleavings of the critical sections: a step
  relation on the logger.  A file system maps names to contents and knows which names can be opened.
\<close>

section \<open>Message format\<close>

datatype log_level = INFO | DEBUG | WARN | ERROR

fun level_to_str :: "log_level \<Rightarrow> string" where
  "level_to_str INFO = ''[INFO]   ''"
| "level_to_str DEBUG = ''[DEBUG]  ''"
| "level_to_str WARN = ''[WARN]   ''"
| "level_to_str ERROR = ''[ERROR]  ''"

text \<open>\<open>format.find("{}", pos)\<close>.\<close>

fun placeholder_in :: "string \<Rightarrow> nat option" where
  "placeholder_in [] = None"
| "placeholder_in (c # s) =
     (if c = CHR ''{'' \<and> s \<noteq> [] \<and> hd s = CHR ''}'' then Some 0 else map_option Suc (placeholder_in s))"

definition find_placeholder :: "string \<Rightarrow> nat \<Rightarrow> nat option" where
  "find_placeholder format pos = map_option ((+) pos) (placeholder_in (drop pos format))"

lemma find_placeholder_bound:
  assumes "find_placeholder format pos = Some p"
  shows "pos \<le> p \<and> p + 2 \<le> length format"
proof -
  have b: "placeholder_in s = Some k \<Longrightarrow> k + 2 \<le> length s" for s k
    by (induction s arbitrary: k) (auto simp: Suc_le_eq split: if_splits)
  from assms obtain k where k: "placeholder_in (drop pos format) = Some k" "p = pos + k"
    by (auto simp: find_placeholder_def)
  from b [OF k(1)] k(2) show ?thesis by auto
qed

function format_loop :: "string \<Rightarrow> string list \<Rightarrow> nat \<Rightarrow> nat \<Rightarrow> string \<Rightarrow> string" where
  "format_loop format args arg_idx pos oss =
     (case find_placeholder format pos of
        Some p \<Rightarrow>
          format_loop format args (if arg_idx < length args then arg_idx + 1 else arg_idx) (p + 2)
            (oss @ take (p - pos) (drop pos format) @ (if arg_idx < length args then args ! arg_idx else ''{}''))
      | None \<Rightarrow> oss @ drop pos format @ concat (drop arg_idx args))"
  by pat_completeness auto
termination
  by (relation "measure (\<lambda>(format, args, arg_idx, pos, oss). length format - pos)")
    (auto dest!: find_placeholder_bound)

declare format_loop.simps [simp del]

definition format_msg :: "string \<Rightarrow> string \<Rightarrow> string list \<Rightarrow> string" where
  "format_msg now format args = ''['' @ now @ ''] '' @ format_loop format args 0 0 []"

text \<open>The reference: placeholders are replaced from left to right, missing arguments leave the placeholder,
  surplus arguments are appended.\<close>

fun format_ref :: "string \<Rightarrow> string list \<Rightarrow> string" where
  "format_ref [] args = concat args"
| "format_ref (c # s) args =
     (if c = CHR ''{'' \<and> s \<noteq> [] \<and> hd s = CHR ''}''
      then (case args of [] \<Rightarrow> ''{}'' @ format_ref (tl s) [] | a # as \<Rightarrow> a @ format_ref (tl s) as)
      else c # format_ref s args)"

lemma format_ref_None: "placeholder_in s = None \<Longrightarrow> format_ref s args = s @ concat args"
  by (induction s) (auto split: if_splits)

lemma format_ref_Some:
  "placeholder_in s = Some k \<Longrightarrow>
   format_ref s args = take k s @ (case args of [] \<Rightarrow> ''{}'' | a # as \<Rightarrow> a) @ format_ref (drop (k + 2) s) (tl args)"
proof (induction s arbitrary: k)
  case (Cons c s)
  show ?case
  proof (cases "c = CHR ''{'' \<and> s \<noteq> [] \<and> hd s = CHR ''}''")
    case True
    with Cons.prems have "k = 0" by simp
    with True show ?thesis by (cases s; cases args) simp_all
  next
    case False
    with Cons.prems obtain j where "placeholder_in s = Some j" "k = Suc j" by (auto split: if_splits)
    with Cons.IH [of j] False show ?thesis by auto
  qed
qed simp

lemma format_loop_ref:
  "arg_idx \<le> length args \<Longrightarrow>
   format_loop format args arg_idx pos oss = oss @ format_ref (drop pos format) (drop arg_idx args)"
proof (induction format args arg_idx pos oss rule: format_loop.induct)
  case (1 format args arg_idx pos oss)
  show ?case
  proof (cases "find_placeholder format pos")
    case None
    then have "placeholder_in (drop pos format) = None" by (simp add: find_placeholder_def)
    from format_ref_None [OF this] None show ?thesis by (simp add: format_loop.simps [of format])
  next
    case (Some p)
    then obtain k where k: "placeholder_in (drop pos format) = Some k" "p = pos + k"
      by (auto simp: find_placeholder_def)
    have drop2: "drop (k + 2) (drop pos format) = drop (p + 2) format" by (simp add: k(2) add.commute add.left_commute)
    let ?arg = "if arg_idx < length args then args ! arg_idx else ''{}''"
    let ?idx = "if arg_idx < length args then arg_idx + 1 else arg_idx"
    have arg: "(case drop arg_idx args of [] \<Rightarrow> ''{}'' | a # as \<Rightarrow> a) = ?arg"
      by (auto simp: Cons_nth_drop_Suc [symmetric] split: list.split)
    have tl: "drop ?idx args = tl (drop arg_idx args)" by (simp add: drop_Suc tl_drop)
    have "format_loop format args arg_idx pos oss =
        format_loop format args ?idx (p + 2) (oss @ take (p - pos) (drop pos format) @ ?arg)"
      by (subst format_loop.simps) (simp only: Some option.case)
    also have "\<dots> = (oss @ take (p - pos) (drop pos format) @ ?arg) @ format_ref (drop (p + 2) format) (drop ?idx args)"
      using "1.prems" by (intro "1.IH" [OF Some]) simp
    finally show ?thesis
      unfolding tl format_ref_Some [OF k(1)] arg drop2 by (simp only: append_assoc k(2) add_diff_cancel_left')
  qed
qed

text \<open>C38: The scanning loop of \<open>format_msg\<close> computes the reference substitution for every format and every
  list of arguments.\<close>

theorem format_msg_correct: "format_msg now format args = ''['' @ now @ ''] '' @ format_ref format args"
  by (simp add: format_msg_def format_loop_ref)

section \<open>The rotating file sink\<close>

type_synonym filename = string

record fs =
  files :: "filename \<Rightarrow> string option"
  openable :: "filename \<Rightarrow> bool"

record rotating =
  base_name :: string
  ext :: string
  max_byte :: nat
  curr_size :: nat
  rotate_by_date :: bool
  curr_date :: string
  file_idx :: nat
  ofs :: filename

definition make_file_name :: "string \<Rightarrow> string \<Rightarrow> string \<Rightarrow> nat \<Rightarrow> filename" where
  "make_file_name base e date idx = base @ ''_'' @ date @ ''_'' @ show_nat idx @ e"

text \<open>Opening for appending creates the file; the size is that of the file found.\<close>

definition open_file :: "(rotating \<times> fs, unit) act" where
  "open_file = (\<lambda>(r, w).
     let name = make_file_name (base_name r) (ext r) (curr_date r) (file_idx r) in
     if \<not> openable w name then (Inl (RuntimeError (''Failed to open log files: '' @ name)), (r, w))
     else let content = (case files w name of None \<Rightarrow> [] | Some c \<Rightarrow> c) in
       (Inr (), (r\<lparr>ofs := name, curr_size := length content\<rparr>, w\<lparr>files := (files w)(name := Some content)\<rparr>)))"

definition rotate_if_need :: "string \<Rightarrow> nat \<Rightarrow> (rotating \<times> fs, unit) act" where
  "rotate_if_need today next_size = (\<lambda>(r, w).
     if rotate_by_date r \<and> today \<noteq> curr_date r
     then open_file (r\<lparr>curr_date := today, file_idx := 0\<rparr>, w)
     else if max_byte r > 0 \<and> curr_size r + next_size > max_byte r
     then open_file (r\<lparr>file_idx := file_idx r + 1\<rparr>, w)
     else (Inr (), (r, w)))"

definition append_file :: "filename \<Rightarrow> string \<Rightarrow> fs \<Rightarrow> fs" where
  "append_file name line w =
     w\<lparr>files := (files w)(name := Some ((case files w name of None \<Rightarrow> [] | Some c \<Rightarrow> c) @ line))\<rparr>"

definition rotating_write :: "string \<Rightarrow> string \<Rightarrow> (rotating \<times> fs, unit) act" where
  "rotating_write today msg =
     (let line = msg @ [CHR 0x0A] in
      seq (rotate_if_need today (length line)) (\<lambda>_.
      modify (\<lambda>(r, w). (r\<lparr>curr_size := curr_size r + length line\<rparr>, append_file (ofs r) line w))))"

definition rotating_file_sink ::
  "string \<Rightarrow> nat \<Rightarrow> bool \<Rightarrow> string \<Rightarrow> string \<Rightarrow> fs \<Rightarrow> unit outcome \<times> rotating \<times> fs" where
  "rotating_file_sink base mx by_date e today w =
     open_file (\<lparr>base_name = base, ext = e, max_byte = mx, curr_size = 0, rotate_by_date = by_date,
       curr_date = today, file_idx = 0, ofs = []\<rparr>, w)"

text \<open>A sequence of writes, each with the date of its day.\<close>

fun write_all :: "(string \<times> string) list \<Rightarrow> (rotating \<times> fs, unit) act" where
  "write_all [] = ret ()"
| "write_all ((today, msg) # rest) = seq (rotating_write today msg) (\<lambda>_. write_all rest)"

definition content :: "fs \<Rightarrow> filename \<Rightarrow> string" where
  "content w name = (case files w name of None \<Rightarrow> [] | Some c \<Rightarrow> c)"

text \<open>
  A sink that has only met files of its own making: its file exists, has the size recorded, every file is
  within the limit, and there are no files of a higher index of the current date, nor of dates not yet seen.
\<close>

abbreviation file_of :: "rotating \<Rightarrow> string \<Rightarrow> nat \<Rightarrow> filename" where
  "file_of r date idx \<equiv> make_file_name (base_name r) (ext r) date idx"

definition own_files :: "string set \<Rightarrow> rotating \<Rightarrow> fs \<Rightarrow> bool" where
  "own_files seen r w \<longleftrightarrow> ofs r = file_of r (curr_date r) (file_idx r) \<and>
     length (content w (ofs r)) = curr_size r \<and>
     (\<forall>name. length (content w name) \<le> max_byte r) \<and>
     (\<forall>j > file_idx r. files w (file_of r (curr_date r) j) = None) \<and>
     curr_date r \<in> seen \<and>
     (\<forall>d j. d \<notin> seen \<longrightarrow> length d = length (curr_date r) \<longrightarrow> files w (file_of r d j) = None)"

definition written :: "string \<Rightarrow> rotating \<Rightarrow> fs \<Rightarrow> rotating \<Rightarrow> fs \<Rightarrow> bool" where
  "written line r w r' w' \<longleftrightarrow> openable w' = openable w \<and> max_byte r' = max_byte r \<and>
     length (curr_date r') = length (curr_date r) \<and> rotate_by_date r' = rotate_by_date r \<and>
     (\<forall>name. content w' name = content w name @ (if name = ofs r' then line else []))"

lemma make_file_name_inject:
  assumes "length d = length d'"
  shows "make_file_name b e d i = make_file_name b e d' j \<longleftrightarrow> d = d' \<and> i = j"
  using assms by (auto simp: make_file_name_def)

lemma append_file_simps [simp]:
  "content (append_file name line w) n = content w n @ (if n = name then line else [])"
  "n \<noteq> name \<Longrightarrow> files (append_file name line w) n = files w n"
  "openable (append_file name line w) = openable w"
  by (simp_all add: append_file_def content_def)

lemma write_within:
  assumes own: "own_files seen r w" and day: "\<not> rotate_by_date r \<or> today = curr_date r"
    and room: "max_byte r = 0 \<or> \<not> curr_size r + Suc (length msg) > max_byte r"
    and fits: "Suc (length msg) \<le> max_byte r"
  shows "\<exists>r' w'. rotating_write today msg (r, w) = (Inr (), (r', w')) \<and> own_files seen r' w' \<and>
    curr_date r' = curr_date r \<and> written (msg @ [CHR 0x0A]) r w r' w'"
proof -
  let ?line = "msg @ [CHR 0x0A]"
  let ?r = "r\<lparr>curr_size := curr_size r + Suc (length msg)\<rparr>" and ?w = "append_file (ofs r) ?line w"
  have name: "ofs r = file_of r (curr_date r) (file_idx r)"
    and size: "length (content w (ofs r)) = curr_size r" using own unfolding own_files_def by blast+
  have other: "file_of r d j \<noteq> ofs r"
    if "length d = length (curr_date r)" "d \<noteq> curr_date r \<or> j > file_idx r" for d j
    using that unfolding name by (auto simp: make_file_name_inject)
  have "rotating_write today msg (r, w) = (Inr (), (?r, ?w))"
    using day room fits by (auto simp: rotating_write_def rotate_if_need_def seq_def modify_def Let_def)
  moreover have "files ?w (file_of r (curr_date r) j) = None" if "j > file_idx r" for j
    using own that other by (simp add: own_files_def)
  moreover have "files ?w (file_of r d j) = None"
    if "d \<notin> seen" "length d = length (curr_date r)" for d j
  proof -
    have "d \<noteq> curr_date r" using own that by (auto simp: own_files_def)
    with own that other [of d j] show ?thesis by (simp add: own_files_def)
  qed
  moreover have "length (content ?w n) \<le> max_byte r" for n
    using own room fits size by (auto simp: own_files_def)
  ultimately have "rotating_write today msg (r, w) = (Inr (), (?r, ?w))" "own_files seen ?r ?w"
    using own size by (simp_all add: own_files_def)
  moreover have "written ?line r w ?r ?w" by (simp add: written_def)
  ultimately show ?thesis by fastforce
qed

text \<open>Writing into a file just opened under a new name.\<close>

lemma write_rotated:
  assumes new: "files w (file_of r date idx) = None" and open_ok: "\<And>n. openable w n"
    and fits: "Suc (length msg) \<le> max_byte r"
    and limit: "\<And>name. length (content w name) \<le> max_byte r"
    and higher: "\<And>j. j > idx \<Longrightarrow> files w (file_of r date j) = None"
    and unseen: "\<And>d j. d \<notin> insert date seen \<Longrightarrow> length d = length date \<Longrightarrow> files w (file_of r d j) = None"
    and rot: "rotate_if_need today (Suc (length msg)) (r, w) = open_file (r\<lparr>curr_date := date, file_idx := idx\<rparr>, w)"
    and len: "length date = length (curr_date r)"
  shows "\<exists>r' w'. rotating_write today msg (r, w) = (Inr (), (r', w')) \<and> own_files (insert date seen) r' w' \<and>
    curr_date r' = date \<and> written (msg @ [CHR 0x0A]) r w r' w'"
proof -
  let ?name = "file_of r date idx" and ?line = "msg @ [CHR 0x0A]"
  let ?r = "r\<lparr>curr_date := date, file_idx := idx, ofs := ?name, curr_size := Suc (length msg)\<rparr>"
  let ?w = "w\<lparr>files := (files w)(?name := Some ?line)\<rparr>"
  have "rotating_write today msg (r, w) = (Inr (), (?r, ?w))"
    using new open_ok rot
    by (simp add: rotating_write_def seq_def modify_def open_file_def append_file_def Let_def)
  moreover have "own_files (insert date seen) ?r ?w"
    using fits limit higher unseen
    by (auto simp: own_files_def content_def make_file_name_inject)
  moreover have "written ?line r w ?r ?w" using new len by (simp add: written_def content_def)
  ultimately show ?thesis by simp
qed

lemma rotating_write_ok:
  assumes own: "own_files seen r w" and open_ok: "\<And>n. openable w n"
    and fits: "Suc (length msg) \<le> max_byte r"
    and day: "\<not> rotate_by_date r \<or> today = curr_date r \<or> today \<notin> seen \<and> length today = length (curr_date r)"
  shows "\<exists>r' w'. rotating_write today msg (r, w) = (Inr (), (r', w')) \<and> own_files (insert (curr_date r') seen) r' w' \<and>
    curr_date r' = (if rotate_by_date r then today else curr_date r) \<and> written (msg @ [CHR 0x0A]) r w r' w'"
proof -
  have limit: "length (content w name) \<le> max_byte r" for name using own by (simp add: own_files_def)
  have unseen: "files w (file_of r d j) = None" if "d \<notin> seen" "length d = length (curr_date r)" for d j
    using own that by (simp add: own_files_def)
  have cur: "curr_date r \<in> seen" using own by (simp add: own_files_def)
  consider (within) "\<not> rotate_by_date r \<or> today = curr_date r" "\<not> curr_size r + Suc (length msg) > max_byte r"
    | (full) "\<not> rotate_by_date r \<or> today = curr_date r" "curr_size r + Suc (length msg) > max_byte r"
    | (new_day) "rotate_by_date r" "today \<noteq> curr_date r" "today \<notin> seen" "length today = length (curr_date r)"
    using day by blast
  then show ?thesis
  proof cases
    case within
    from write_within [OF own within(1) _ fits] within(2) obtain r' w' where
      "rotating_write today msg (r, w) = (Inr (), (r', w'))" "own_files seen r' w'" "curr_date r' = curr_date r"
      "written (msg @ [CHR 0x0A]) r w r' w'" by blast
    with within(1) cur show ?thesis by (auto simp: insert_absorb)
  next
    case full
    let ?idx = "Suc (file_idx r)"
    have "rotate_if_need today (Suc (length msg)) (r, w) =
        open_file (r\<lparr>curr_date := curr_date r, file_idx := ?idx\<rparr>, w)"
      using full fits by (auto simp: rotate_if_need_def)
    moreover have "files w (file_of r (curr_date r) j) = None" if "j > file_idx r" for j
      using own that by (simp add: own_files_def)
    ultimately obtain r' w' where
      "rotating_write today msg (r, w) = (Inr (), (r', w'))" "own_files (insert (curr_date r) seen) r' w'"
      "curr_date r' = curr_date r" "written (msg @ [CHR 0x0A]) r w r' w'"
      using write_rotated [of w r "curr_date r" ?idx msg seen today] open_ok fits limit unseen by force
    with full(1) show ?thesis by auto
  next
    case new_day
    have "rotate_if_need today (Suc (length msg)) (r, w) = open_file (r\<lparr>curr_date := today, file_idx := 0\<rparr>, w)"
      using new_day by (simp add: rotate_if_need_def)
    then obtain r' w' where
      "rotating_write today msg (r, w) = (Inr (), (r', w'))" "own_files (insert today seen) r' w'"
      "curr_date r' = today" "written (msg @ [CHR 0x0A]) r w r' w'"
      using write_rotated [of w r today 0 msg seen today] open_ok fits limit unseen new_day by force
    with new_day(1) show ?thesis by auto
  qed
qed

text \<open>Days that follow each other: a date that was left does not come back.\<close>

fun forward_days :: "string set \<Rightarrow> string \<Rightarrow> (string \<times> string) list \<Rightarrow> bool" where
  "forward_days seen cur [] = True"
| "forward_days seen cur ((d, m) # rest) =
     ((d = cur \<or> d \<notin> seen \<and> length d = length cur) \<and> forward_days (insert d seen) d rest)"

text \<open>The lines of a list of writes that went to the file \<open>name\<close>.\<close>

definition lines_in :: "filename list \<Rightarrow> (string \<times> string) list \<Rightarrow> filename \<Rightarrow> string" where
  "lines_in placed writes name =
     concat (map (\<lambda>(n, d, m). if n = name then m @ [CHR 0x0A] else []) (zip placed writes))"

lemma write_all_ok:
  "own_files seen r w \<Longrightarrow> (\<And>n. openable w n) \<Longrightarrow> rotate_by_date r \<Longrightarrow>
   \<forall>(d, m) \<in> set writes. Suc (length m) \<le> max_byte r \<Longrightarrow> forward_days seen (curr_date r) writes \<Longrightarrow>
   \<exists>r' w' placed seen'. write_all writes (r, w) = (Inr (), (r', w')) \<and> own_files seen' r' w' \<and>
     max_byte r' = max_byte r \<and> length placed = length writes \<and>
     (\<forall>name. content w' name = content w name @ lines_in placed writes name)"
proof (induction writes arbitrary: seen r w)
  case Nil
  then show ?case by (force simp: ret_def lines_in_def)
next
  case (Cons x writes)
  obtain d m where x: "x = (d, m)" by (cases x)
  have fits: "Suc (length m) \<le> max_byte r" "\<forall>(d, m) \<in> set writes. Suc (length m) \<le> max_byte r"
    and day: "d = curr_date r \<or> d \<notin> seen \<and> length d = length (curr_date r)"
      "forward_days (insert d seen) d writes"
    using Cons.prems(4,5) by (auto simp: x)
  have days: "\<not> rotate_by_date r \<or> d = curr_date r \<or> d \<notin> seen \<and> length d = length (curr_date r)"
    using day(1) by blast
  from rotating_write_ok [OF Cons.prems(1,2) fits(1) days] Cons.prems(3) obtain r1 w1 where
    1: "rotating_write d m (r, w) = (Inr (), (r1, w1))" "own_files (insert d seen) r1 w1"
      "curr_date r1 = d" "written (m @ [CHR 0x0A]) r w r1 w1"
    by auto
  have keep: "openable w1 n" "rotate_by_date r1" "max_byte r1 = max_byte r" for n
    using 1(4) Cons.prems(2,3) by (simp_all add: written_def)
  have "\<forall>(d, m) \<in> set writes. Suc (length m) \<le> max_byte r1" "forward_days (insert d seen) (curr_date r1) writes"
    using fits(2) day(2) keep(3) 1(3) by simp_all
  from Cons.IH [OF 1(2) keep(1,2) this] obtain r2 w2 placed seen' where
    2: "write_all writes (r1, w1) = (Inr (), (r2, w2))" "own_files seen' r2 w2" "max_byte r2 = max_byte r1"
      "length placed = length writes" "\<forall>name. content w2 name = content w1 name @ lines_in placed writes name"
    by blast
  have "content w2 name = content w name @ lines_in (ofs r1 # placed) (x # writes) name" for name
    using 2(5) 1(4) by (auto simp: written_def lines_in_def x)
  with 1(1) 2 keep(3) show ?case
    by (intro exI [of _ r2] exI [of _ w2] exI [of _ "ofs r1 # placed"] exI [of _ seen']) (simp add: seq_def x)
qed

text \<open>A rotating sink that starts without older log files and rotates by date and size never lets a file
  grow beyond its limit, as long as every line fits and the clock does not return to an earlier date, and
  loses no line: each line is in one file, whole, and each file holds its lines in the order of the calls.\<close>

theorem rotation_bounded:
  assumes "0 < mx" "\<forall>(d, m) \<in> set writes. length m < mx" "forward_days {today} today writes"
  shows "\<exists>r w r' w' placed.
    rotating_file_sink base mx True e today \<lparr>files = \<lambda>_. None, openable = \<lambda>_. True\<rparr> = (Inr (), (r, w)) \<and>
    write_all writes (r, w) = (Inr (), (r', w')) \<and> length placed = length writes \<and>
    (\<forall>name. content w' name = lines_in placed writes name \<and> length (content w' name) \<le> mx)"
proof -
  define r where "r = \<lparr>base_name = base, ext = e, max_byte = mx, curr_size = 0, rotate_by_date = True,
    curr_date = today, file_idx = 0, ofs = make_file_name base e today 0\<rparr>"
  define w where "w = \<lparr>files = (\<lambda>_. None)(make_file_name base e today 0 \<mapsto> []), openable = \<lambda>_. True\<rparr>"
  have new: "rotating_file_sink base mx True e today \<lparr>files = \<lambda>_. None, openable = \<lambda>_. True\<rparr> = (Inr (), (r, w))"
    by (simp add: rotating_file_sink_def open_file_def r_def w_def Let_def)
  have empty: "content w name = []" for name by (simp add: content_def w_def)
  have own: "own_files {today} r w"
    using empty by (auto simp: own_files_def r_def w_def content_def make_file_name_inject)
  have "openable w n" "rotate_by_date r" "\<forall>(d, m) \<in> set writes. Suc (length m) \<le> max_byte r"
    "forward_days {today} (curr_date r) writes" for n
    using assms(2,3) by (auto simp: r_def w_def)
  from write_all_ok [OF own this] obtain r' w' placed seen' where
    all: "write_all writes (r, w) = (Inr (), (r', w'))" "own_files seen' r' w'" "max_byte r' = mx"
    "length placed = length writes" "\<forall>name. content w' name = content w name @ lines_in placed writes name"
    by (auto simp: r_def)
  from all(2,3) have "length (content w' name) \<le> mx" for name unfolding own_files_def by metis
  with new all(1,4,5) empty show ?thesis by auto
qed

theorem rotation_bounded_witness:
  "\<exists>r w r' w' placed.
    rotating_file_sink ''log'' 8 True ''.txt'' ''d1'' \<lparr>files = \<lambda>_. None, openable = \<lambda>_. True\<rparr> = (Inr (), (r, w)) \<and>
    write_all [(''d1'', ''abcd''), (''d1'', ''efgh''), (''d2'', ''ij'')] (r, w) = (Inr (), (r', w')) \<and>
    length placed = length [(''d1'', ''abcd''), (''d1'', ''efgh''), (''d2'', ''ij'')] \<and>
    (\<forall>name. content w' name = lines_in placed [(''d1'', ''abcd''), (''d1'', ''efgh''), (''d2'', ''ij'')] name \<and>
      length (content w' name) \<le> 8)"
  by (rule rotation_bounded) simp_all

text \<open>After a restart the sink begins again with index 0 and opens the next file without looking at its
  size: when two full files are left from an earlier run of the same day, the second grows beyond the
  limit.\<close>

theorem rotation_restart_exceeds:
  assumes "files w (make_file_name base e today 0) = Some ca" "length ca = mx"
    and "files w (make_file_name base e today 1) = Some cb" "length cb = mx"
    and "\<And>n. openable w n" "0 < mx"
  shows "\<exists>r1 w1 r2 w2. rotating_file_sink base mx by_date e today w = (Inr (), (r1, w1)) \<and>
    rotating_write today msg (r1, w1) = (Inr (), (r2, w2)) \<and>
    mx < length (content w2 (make_file_name base e today 1))"
proof -
  have "make_file_name base e today 0 \<noteq> make_file_name base e today 1"
    by (simp add: make_file_name_inject)
  with assms show ?thesis
    by (simp add: rotating_file_sink_def rotating_write_def rotate_if_need_def open_file_def seq_def modify_def
        append_file_def content_def Let_def)
qed

theorem rotation_restart_exceeds_witness:
  "\<exists>r1 w1 r2 w2. rotating_file_sink ''log'' 2 True ''.txt'' ''d''
      \<lparr>files = \<lambda>_. Some ''ab'', openable = \<lambda>_. True\<rparr> = (Inr (), (r1, w1)) \<and>
    rotating_write ''d'' ''x'' (r1, w1) = (Inr (), (r2, w2)) \<and>
    2 < length (content w2 (make_file_name ''log'' ''.txt'' ''d'' 1))"
  by (rule rotation_restart_exceeds [where ca = "''ab''" and cb = "''ab''"]) simp_all

section \<open>The queue\<close>

record log_queue =
  queue :: "string list"
  is_shutdown :: bool

definition push :: "string \<Rightarrow> log_queue \<Rightarrow> bool \<times> log_queue" where
  "push msg q = (if is_shutdown q then (False, q) else (True, q\<lparr>queue := queue q @ [msg]\<rparr>))"

text \<open>\<open>None\<close>: the condition of the wait is false and the caller sleeps; otherwise the return value (\<open>None\<close>
  inside for \<open>false\<close>, or the message) and the queue.\<close>

definition pop :: "log_queue \<Rightarrow> (string option \<times> log_queue) option" where
  "pop q =
     (if \<not> (queue q \<noteq> [] \<or> is_shutdown q) then None
      else if queue q = [] \<and> is_shutdown q then Some (None, q)
      else Some (Some (hd (queue q)), q\<lparr>queue := tl (queue q)\<rparr>))"

definition shutdown :: "log_queue \<Rightarrow> log_queue" where
  "shutdown q = q\<lparr>is_shutdown := True\<rparr>"

section \<open>Sinks and the worker thread\<close>

datatype sink = Console "string list" | Rotating rotating

definition sink_write :: "string \<Rightarrow> string \<Rightarrow> (sink \<times> fs, unit) act" where
  "sink_write today msg = (\<lambda>(snk, w). case snk of
     Console lines \<Rightarrow> (Inr (), (Console (lines @ [msg]), w))
   | Rotating r \<Rightarrow> (let (res, (r', w')) = rotating_write today msg (r, w) in (res, (Rotating r', w'))))"

text \<open>The loop over the sinks; a null pointer is skipped, an exception leaves it.\<close>

fun write_sinks :: "string \<Rightarrow> string \<Rightarrow> (sink option list \<times> fs, unit) act" where
  "write_sinks today msg ([], w) = (Inr (), ([], w))"
| "write_sinks today msg (None # snks, w) =
     (let (res, (snks', w')) = write_sinks today msg (snks, w) in (res, (None # snks', w')))"
| "write_sinks today msg (Some snk # snks, w) =
     (case sink_write today msg (snk, w) of
        (Inl e, (snk', w')) \<Rightarrow> (Inl e, (Some snk' # snks, w'))
      | (Inr _, (snk', w')) \<Rightarrow>
          (let (res, (snks', w'')) = write_sinks today msg (snks, w') in (res, (Some snk' # snks', w''))))"

text \<open>The worker is in \<open>pop\<close>, holds a message, has left its loop, or was terminated by an exception.\<close>

datatype worker = Popping | Holding string | Exited | Terminated cpp_error

record logger =
  lqueue :: log_queue
  worker :: worker
  sinks :: "sink option list"
  disk :: fs

definition new_logger :: "fs \<Rightarrow> logger" where
  "new_logger w = \<lparr>lqueue = \<lparr>queue = [], is_shutdown = False\<rparr>, worker = Popping, sinks = [], disk = w\<rparr>"

definition add_sink :: "sink option \<Rightarrow> logger \<Rightarrow> logger" where
  "add_sink snk l = l\<lparr>sinks := sinks l @ [snk]\<rparr>"

definition log_call :: "string \<Rightarrow> log_level \<Rightarrow> string \<Rightarrow> string list \<Rightarrow> logger \<Rightarrow> bool \<times> logger" where
  "log_call now level format args l =
     (let (ok, q) = push (level_to_str level @ format_msg now format args) (lqueue l) in (ok, l\<lparr>lqueue := q\<rparr>))"

text \<open>One critical section of some thread.  Labels say which, and what it did.\<close>

datatype label = Accept string | Reject string | Take string | Deliver string | Fail string | Leave | Stop | Sink

inductive log_step :: "logger \<Rightarrow> label \<Rightarrow> logger \<Rightarrow> bool" where
  call: "log_call now level format args l = (ok, l') \<Longrightarrow> m = level_to_str level @ format_msg now format args \<Longrightarrow>
    log_step l (if ok then Accept m else Reject m) l'"
| sink: "log_step l Sink (add_sink snk l)"
| stop: "log_step l Stop (l\<lparr>lqueue := shutdown (lqueue l)\<rparr>)"
| take: "worker l = Popping \<Longrightarrow> pop (lqueue l) = Some (Some m, q) \<Longrightarrow>
    log_step l (Take m) (l\<lparr>lqueue := q, worker := Holding m\<rparr>)"
| leave: "worker l = Popping \<Longrightarrow> pop (lqueue l) = Some (None, q) \<Longrightarrow>
    log_step l Leave (l\<lparr>lqueue := q, worker := Exited\<rparr>)"
| deliver: "worker l = Holding m \<Longrightarrow> write_sinks today m (sinks l, disk l) = (Inr (), (snks, w)) \<Longrightarrow>
    log_step l (Deliver m) (l\<lparr>worker := Popping, sinks := snks, disk := w\<rparr>)"
| fail: "worker l = Holding m \<Longrightarrow> write_sinks today m (sinks l, disk l) = (Inl e, (snks, w)) \<Longrightarrow>
    log_step l (Fail m) (l\<lparr>worker := Terminated e, sinks := snks, disk := w\<rparr>)"

inductive_cases log_stepE: "log_step l lab l'"

inductive log_run :: "logger \<Rightarrow> label list \<Rightarrow> logger \<Rightarrow> bool" where
  start: "log_run l [] l"
| step: "log_run l tr l' \<Longrightarrow> log_step l' lab l'' \<Longrightarrow> log_run l (tr @ [lab]) l''"

definition accepted :: "label list \<Rightarrow> string list" where
  "accepted tr = concat (map (\<lambda>lab. case lab of Accept m \<Rightarrow> [m] | _ \<Rightarrow> []) tr)"

definition delivered :: "label list \<Rightarrow> string list" where
  "delivered tr = concat (map (\<lambda>lab. case lab of Deliver m \<Rightarrow> [m] | Fail m \<Rightarrow> [m] | _ \<Rightarrow> []) tr)"

definition in_hand :: "logger \<Rightarrow> string list" where
  "in_hand l = (case worker l of Holding m \<Rightarrow> [m] | _ \<Rightarrow> [])"

lemma trace_simps [simp]:
  "accepted [] = []" "delivered [] = []" "accepted (tr @ tr') = accepted tr @ accepted tr'"
  "delivered (tr @ tr') = delivered tr @ delivered tr'"
  "accepted [lab] = (case lab of Accept m \<Rightarrow> [m] | _ \<Rightarrow> [])"
  "delivered [lab] = (case lab of Deliver m \<Rightarrow> [m] | Fail m \<Rightarrow> [m] | _ \<Rightarrow> [])"
  by (simp_all add: accepted_def delivered_def)

text \<open>The queue between producers and worker, before termination by an exception.\<close>

definition queue_inv :: "label list \<Rightarrow> logger \<Rightarrow> bool" where
  "queue_inv tr l \<longleftrightarrow> accepted tr = delivered tr @ in_hand l @ queue (lqueue l) \<and>
     (worker l = Exited \<longrightarrow> queue (lqueue l) = [] \<and> is_shutdown (lqueue l))"

lemma log_step_inv: "log_step l lab l' \<Longrightarrow> queue_inv tr l \<Longrightarrow> queue_inv (tr @ [lab]) l'"
  by (erule log_step.cases)
    (auto simp: queue_inv_def log_call_def push_def pop_def shutdown_def add_sink_def in_hand_def
      split: if_splits worker.splits)

lemma log_run_inv: "log_run l tr l' \<Longrightarrow> queue_inv [] l \<Longrightarrow> queue_inv tr l'"
  by (induction rule: log_run.induct) (auto intro: log_step_inv)

lemma write_sinks_console:
  "write_sinks today m (snks, w) = (Inr (), (snks', w')) \<Longrightarrow>
   length snks' = length snks \<and>
   (\<forall>i < length snks. \<forall>lines. snks ! i = Some (Console lines) \<longrightarrow> snks' ! i = Some (Console (lines @ [m])))"
proof (induction today m "(snks, w)" arbitrary: snks w snks' w' rule: write_sinks.induct)
  case (2 today msg snks w)
  obtain res s1 w1 where rec: "write_sinks today msg (snks, w) = (res, (s1, w1))" by (metis prod_cases3)
  with "2.prems" have "res = Inr ()" "snks' = None # s1" by simp_all
  with "2.hyps" [of s1 w1] rec show ?case by (auto simp: nth_Cons split: nat.split)
next
  case (3 today msg snk snks w)
  from "3.prems" obtain snk1 w1 where 1: "sink_write today msg (snk, w) = (Inr (), (snk1, w1))"
    by (auto split: prod.splits sum.splits)
  obtain res s2 w2 where rec: "write_sinks today msg (snks, w1) = (res, (s2, w2))" by (metis prod_cases3)
  with "3.prems" 1 have "res = Inr ()" "snks' = Some snk1 # s2" by simp_all
  moreover have "snk1 = Console (lines @ [msg])" if "snk = Console lines" for lines
    using 1 that by (simp add: sink_write_def)
  ultimately show ?case using "3.hyps" [OF 1 [symmetric] refl refl, of s2 w2] rec
    by (auto simp: nth_Cons split: nat.split)
qed simp

definition console_at :: "nat \<Rightarrow> label list \<Rightarrow> logger \<Rightarrow> bool" where
  "console_at i tr l \<longleftrightarrow> i < length (sinks l) \<and>
     ((\<exists>e. worker l = Terminated e) \<or> sinks l ! i = Some (Console (delivered tr)))"

lemma log_step_console:
  assumes "log_step l lab l'" "console_at i tr l"
  shows "console_at i (tr @ [lab]) l'"
  using assms
proof (cases rule: log_step.cases)
  case (deliver m today snks w)
  with assms(2) write_sinks_console [OF deliver(4)] show ?thesis by (auto simp: console_at_def)
next
  case (fail m today e snks w)
  have "length (fst (snd (write_sinks today m (ss, w0)))) = length ss" for ss w0
    by (induction today m "(ss, w0)" arbitrary: ss w0 rule: write_sinks.induct)
      (auto split: prod.splits sum.splits)
  from this [of "sinks l" "disk l"] fail assms(2) show ?thesis by (auto simp: console_at_def)
qed (auto simp: console_at_def log_call_def push_def add_sink_def nth_append split: if_splits)

lemma log_run_console: "log_run l tr l' \<Longrightarrow> console_at i [] l \<Longrightarrow> console_at i tr l'"
  by (induction rule: log_run.induct) (auto intro: log_step_console)

text \<open>C15: For every interleaving of callers, \<open>add_sink\<close>, shutdown and the worker, and as long as no sink has
  thrown: the messages accepted are those delivered, then the one in the worker's hand, then the queue; a
  console installed at the start shows exactly the messages delivered, in order; once the worker has left its
  loop nothing accepted is missing.\<close>

theorem logger_fifo:
  assumes run: "log_run (add_sink (Some (Console [])) (new_logger w)) tr l" and alive: "\<forall>e. worker l \<noteq> Terminated e"
  shows "accepted tr = delivered tr @ in_hand l @ queue (lqueue l) \<and>
    sinks l ! 0 = Some (Console (delivered tr)) \<and>
    (worker l = Exited \<longrightarrow> sinks l ! 0 = Some (Console (accepted tr)))"
proof -
  let ?l = "add_sink (Some (Console [])) (new_logger w)"
  have "queue_inv [] ?l" "console_at 0 [] ?l"
    by (simp_all add: queue_inv_def console_at_def add_sink_def new_logger_def in_hand_def)
  with run have inv: "queue_inv tr l" "console_at 0 tr l" by (blast intro: log_run_inv log_run_console)+
  with alive show ?thesis by (auto simp: queue_inv_def console_at_def in_hand_def)
qed

theorem logger_fifo_witness:
  "\<exists>tr l. log_run (add_sink (Some (Console [])) (new_logger \<lparr>files = \<lambda>_. None, openable = \<lambda>_. True\<rparr>)) tr l \<and>
     tr \<noteq> [] \<and> accepted tr = delivered tr @ in_hand l @ queue (lqueue l) \<and>
     sinks l ! 0 = Some (Console (delivered tr))"
proof -
  let ?l0 = "add_sink (Some (Console [])) (new_logger \<lparr>files = \<lambda>_. None, openable = \<lambda>_. True\<rparr>)"
  let ?m = "level_to_str INFO @ format_msg ''t'' ''x'' []"
  let ?l1 = "?l0\<lparr>lqueue := \<lparr>queue = [?m], is_shutdown = False\<rparr>\<rparr>"
  have "log_call ''t'' INFO ''x'' [] ?l0 = (True, ?l1)"
    by (simp add: log_call_def push_def add_sink_def new_logger_def)
  from log_step.call [OF this refl] have "log_step ?l0 (Accept ?m) ?l1" by simp
  from log_run.step [OF log_run.start this] have run: "log_run ?l0 [Accept ?m] ?l1" by simp
  have "\<forall>e. worker ?l1 \<noteq> Terminated e" by (simp add: add_sink_def new_logger_def)
  from logger_fifo [OF run this] run show ?thesis by blast
qed

section \<open>The destructor returns\<close>

lemma log_run_trans: "log_run l2 tr2 l3 \<Longrightarrow> log_run l1 tr1 l2 \<Longrightarrow> log_run l1 (tr1 @ tr2) l3"
proof (induction rule: log_run.induct)
  case (step l tr l' lab l'')
  from log_run.step [OF step.IH [OF step.prems] step.hyps(2)] show ?case by simp
qed simp

text \<open>A sink throws only when its next file cannot be opened.\<close>

lemma open_file_ok:
  assumes "\<forall>n. openable w n"
  shows "\<exists>r' w'. open_file (r, w) = (Inr (), (r', w')) \<and> openable w' = openable w"
  using assms by (simp add: open_file_def Let_def)

lemma rotating_write_opens:
  assumes "\<forall>n. openable w n"
  shows "\<exists>r' w'. rotating_write today m (r, w) = (Inr (), (r', w')) \<and> openable w' = openable w"
proof -
  have "\<exists>r' w'. rotate_if_need today k (r, w) = (Inr (), (r', w')) \<and> openable w' = openable w" for k
    using open_file_ok [OF assms] by (simp add: rotate_if_need_def)
  then obtain r' w' where "rotate_if_need today (Suc (length m)) (r, w) = (Inr (), (r', w'))" "openable w' = openable w" by blast
  then show ?thesis by (simp add: rotating_write_def seq_def modify_def)
qed

lemma write_sinks_ok:
  "\<forall>n. openable w n \<Longrightarrow> \<exists>snks' w'. write_sinks today m (snks, w) = (Inr (), (snks', w')) \<and> openable w' = openable w"
proof (induction snks arbitrary: w)
  case (Cons snk snks)
  show ?case
  proof (cases snk)
    case None
    then show ?thesis using Cons.IH [OF Cons.prems] by auto
  next
    case (Some x)
    have "\<exists>x' w'. sink_write today m (x, w) = (Inr (), (x', w')) \<and> openable w' = openable w"
    proof (cases x)
      case (Rotating r)
      obtain r' w' where "rotating_write today m (r, w) = (Inr (), (r', w'))" "openable w' = openable w"
        using rotating_write_opens [OF Cons.prems] by blast
      then show ?thesis using Rotating by (simp add: sink_write_def)
    qed (simp add: sink_write_def)
    then obtain x' w1 where x: "sink_write today m (x, w) = (Inr (), (x', w1))" "openable w1 = openable w" by blast
    have "\<forall>n. openable w1 n" using Cons.prems x(2) by simp
    from Cons.IH [OF this] obtain snks' w' where
      "write_sinks today m (snks, w1) = (Inr (), (snks', w'))" "openable w' = openable w1" by blast
    then show ?thesis using Some x by simp
  qed
qed simp

definition sound :: "logger \<Rightarrow> bool" where
  "sound l \<longleftrightarrow> (\<forall>n. openable (disk l) n) \<and> (\<forall>e. worker l \<noteq> Terminated e)"

lemma sound_step:
  assumes "log_step l lab l'" "sound l"
  shows "sound l'"
  using assms(1)
proof (cases rule: log_step.cases)
  case (deliver m today snks w)
  with write_sinks_ok [of "disk l" today m "sinks l"] assms(2) show ?thesis by (auto simp: sound_def)
next
  case (fail m today e snks w)
  with write_sinks_ok [of "disk l" today m "sinks l"] assms(2) show ?thesis by (auto simp: sound_def)
qed (use assms(2) in \<open>auto simp: sound_def log_call_def add_sink_def split: prod.splits\<close>)

lemma sound_run: "log_run l tr l' \<Longrightarrow> sound l \<Longrightarrow> sound l'"
  by (induction rule: log_run.induct) (auto intro: sound_step)

text \<open>The steps of the worker, and how many it has left before the end of its loop.\<close>

definition worker_label :: "label \<Rightarrow> bool" where
  "worker_label lab \<longleftrightarrow> (case lab of Take m \<Rightarrow> True | Deliver m \<Rightarrow> True | Fail m \<Rightarrow> True | Leave \<Rightarrow> True | _ \<Rightarrow> False)"

lemma worker_label_simps [simp]:
  "worker_label (Take m)" "worker_label (Deliver m)" "worker_label (Fail m)" "worker_label Leave"
  "\<not> worker_label (Accept m)" "\<not> worker_label (Reject m)" "\<not> worker_label Stop" "\<not> worker_label Sink"
  by (simp_all add: worker_label_def)

definition steps_left :: "logger \<Rightarrow> nat" where
  "steps_left l = 2 * length (queue (lqueue l)) + (case worker l of Popping \<Rightarrow> 1 | Holding m \<Rightarrow> 2 | _ \<Rightarrow> 0)"

lemma worker_step_counts:
  assumes "log_step l lab l'" "worker_label lab" "sound l" "is_shutdown (lqueue l)"
  shows "steps_left l = Suc (steps_left l') \<and> is_shutdown (lqueue l') \<and> accepted [lab] = []"
  using assms(1)
proof (cases rule: log_step.cases)
  case (take m q)
  then show ?thesis using assms(4) by (cases "queue (lqueue l)") (auto simp: pop_def steps_left_def split: if_splits)
next
  case (leave q)
  then show ?thesis using assms(4) by (auto simp: pop_def steps_left_def split: if_splits)
next
  case (fail m today e snks w)
  then show ?thesis using sound_step [OF assms(1,3)] by (simp add: sound_def)
qed (use assms(2,4) in \<open>auto simp: steps_left_def split: if_splits\<close>)

lemma worker_progress:
  assumes "sound l" "is_shutdown (lqueue l)" "worker l \<noteq> Exited"
  shows "\<exists>lab l'. log_step l lab l' \<and> worker_label lab"
proof (cases "worker l")
  case Popping
  show ?thesis
  proof (cases "queue (lqueue l)")
    case Nil
    then have "pop (lqueue l) = Some (None, lqueue l)" using assms(2) by (simp add: pop_def)
    from log_step.leave [OF Popping this] show ?thesis by (intro exI [of _ Leave]) auto
  next
    case (Cons m ms)
    then have "pop (lqueue l) = Some (Some m, (lqueue l)\<lparr>queue := ms\<rparr>)" by (simp add: pop_def)
    from log_step.take [OF Popping this] show ?thesis by (intro exI [of _ "Take m"]) auto
  qed
next
  case (Holding m)
  from write_sinks_ok [of "disk l" "''''" m "sinks l"] assms(1) obtain snks w where
    "write_sinks '''' m (sinks l, disk l) = (Inr (), (snks, w))" by (auto simp: sound_def)
  from log_step.deliver [OF Holding this] show ?thesis by (intro exI [of _ "Deliver m"]) auto
qed (use assms in \<open>simp_all add: sound_def\<close>)

lemma worker_run_counts:
  "log_run l tr l' \<Longrightarrow> list_all worker_label tr \<Longrightarrow> sound l \<Longrightarrow> is_shutdown (lqueue l) \<Longrightarrow>
   steps_left l = length tr + steps_left l' \<and> is_shutdown (lqueue l') \<and> accepted tr = []"
proof (induction rule: log_run.induct)
  case (step l tr l' lab l'')
  then have h: "steps_left l = length tr + steps_left l'" "is_shutdown (lqueue l')" "accepted tr = []" "worker_label lab" "sound l'"
    using sound_run by auto
  from worker_step_counts [OF step.hyps(2) h(4,5,2)] h(1,3) show ?case by simp
qed simp

lemma worker_finishes:
  "sound l \<Longrightarrow> is_shutdown (lqueue l) \<Longrightarrow> \<exists>tr l'. log_run l tr l' \<and> list_all worker_label tr \<and> worker l' = Exited"
proof (induction "steps_left l" arbitrary: l rule: less_induct)
  case less
  show ?case
  proof (cases "worker l = Exited")
    case True
    then show ?thesis by (intro exI [of _ "[]"] exI [of _ l]) (simp add: log_run.start)
  next
    case False
    from worker_progress [OF less.prems False] obtain lab l1 where s: "log_step l lab l1" "worker_label lab" by blast
    note c = worker_step_counts [OF s less.prems]
    from less.hyps [of l1] c sound_step [OF s(1) less.prems(1)] obtain tr l' where
      t: "log_run l1 tr l'" "list_all worker_label tr" "worker l' = Exited" by auto
    from log_run_trans [OF t(1) log_run.step [OF log_run.start s(1)]] t(2,3) s(2) show ?thesis
      by (intro exI [of _ "[lab] @ tr"] exI [of _ l']) simp
  qed
qed

text \<open>C16: Once the queue is shut down, with consoles and rotating files of any kind as sinks and a disk on which every file can be
  opened, the worker drains the queue in every schedule: whatever it was doing and whatever dates it reads, its own
  steps never end in an exception, it is able to take another one until it has left its loop, and it takes at most two per
  message and two more; when it has left, everything accepted has been delivered in order.  It
  does leave, so the join in the destructor returns.\<close>

theorem logger_shutdown_drains:
  assumes run: "log_run (new_logger w) tr l" and stop: "is_shutdown (lqueue l)" and disk: "\<forall>n. openable w n"
  shows "(\<forall>tr' l'. log_run l tr' l' \<and> list_all worker_label tr' \<longrightarrow>
      length tr' \<le> 2 * length (queue (lqueue l)) + 2 \<and> (\<forall>e. worker l' \<noteq> Terminated e) \<and>
      (if worker l' = Exited then delivered (tr @ tr') = accepted tr
       else \<exists>lab l''. log_step l' lab l'' \<and> worker_label lab)) \<and>
    (\<exists>tr' l'. log_run l tr' l' \<and> list_all worker_label tr' \<and> worker l' = Exited)"
proof (intro conjI allI impI)
  have "sound (new_logger w)" using disk by (simp add: sound_def new_logger_def)
  note S = sound_run [OF run this]
  show "\<exists>tr' l'. log_run l tr' l' \<and> list_all worker_label tr' \<and> worker l' = Exited" by (rule worker_finishes [OF S stop])
  fix tr' l' assume h: "log_run l tr' l' \<and> list_all worker_label tr'"
  then have c: "steps_left l = length tr' + steps_left l'" "is_shutdown (lqueue l')" "accepted tr' = []" and S': "sound l'"
    using worker_run_counts [OF _ _ S stop] sound_run [OF _ S] by blast+
  have "steps_left l \<le> 2 * length (queue (lqueue l)) + 2" by (simp add: steps_left_def split: worker.split)
  then show "length tr' \<le> 2 * length (queue (lqueue l)) + 2" using c(1) by linarith
  show "\<And>e. worker l' \<noteq> Terminated e" using S' by (simp add: sound_def)
  have "queue_inv [] (new_logger w)" by (simp add: queue_inv_def new_logger_def in_hand_def)
  from log_run_inv [OF log_run_trans [OF conjunct1 [OF h] run] this] have inv: "queue_inv (tr @ tr') l'" .
  show "if worker l' = Exited then delivered (tr @ tr') = accepted tr else \<exists>lab l''. log_step l' lab l'' \<and> worker_label lab"
  proof (cases "worker l' = Exited")
    case True
    then show ?thesis using inv c(3) by (simp add: queue_inv_def in_hand_def)
  next
    case False
    then show ?thesis using worker_progress [OF S' c(2)] by simp
  qed
qed

text \<open>The sinks of the program's own main, one message in the queue.\<close>

theorem logger_shutdown_drains_witness:
  "\<exists>tr l tr' l'. log_run (new_logger \<lparr>files = \<lambda>_. None, openable = \<lambda>_. True\<rparr>) tr l \<and> length (sinks l) = 2 \<and>
     length (queue (lqueue l)) = 1 \<and> log_run l tr' l' \<and> worker l' = Exited \<and> delivered (tr @ tr') = accepted tr"
proof -
  let ?w = "\<lparr>files = \<lambda>_. None, openable = \<lambda>_. True\<rparr>"
  let ?r = "fst (snd (rotating_file_sink ''log'' 1048576 True ''.txt'' ''2026-06-15'' ?w))"
  let ?m = "level_to_str INFO @ format_msg ''t'' ''START...'' []"
  let ?l1 = "add_sink (Some (Console [])) (new_logger ?w)"
  let ?l2 = "add_sink (Some (Rotating ?r)) ?l1"
  let ?l3 = "?l2\<lparr>lqueue := \<lparr>queue = [?m], is_shutdown = False\<rparr>\<rparr>"
  let ?l4 = "?l3\<lparr>lqueue := shutdown (lqueue ?l3)\<rparr>"
  have "log_call ''t'' INFO ''START...'' [] ?l2 = (True, ?l3)" by (simp add: log_call_def push_def add_sink_def new_logger_def)
  from log_step.call [OF this refl] have c: "log_step ?l2 (Accept ?m) ?l3" by simp
  have run: "log_run (new_logger ?w) (((([] @ [Sink]) @ [Sink]) @ [Accept ?m]) @ [Stop]) ?l4"
    by (intro log_run.step [OF _ log_step.stop] log_run.step [OF _ c] log_run.step [OF _ log_step.sink] log_run.start)
  have "is_shutdown (lqueue ?l4)" "\<forall>n. openable ?w n" by (simp_all add: shutdown_def)
  note D = logger_shutdown_drains [OF run this]
  from D obtain tr' l' where t: "log_run ?l4 tr' l'" "list_all worker_label tr'" "worker l' = Exited" by blast
  with D have "delivered ((((([] @ [Sink]) @ [Sink]) @ [Accept ?m]) @ [Stop]) @ tr') = accepted (((([] @ [Sink]) @ [Sink]) @ [Accept ?m]) @ [Stop])"
    by (auto split: if_splits)
  moreover have "length (sinks ?l4) = 2" "length (queue (lqueue ?l4)) = 1" by (simp_all add: add_sink_def new_logger_def shutdown_def)
  ultimately show ?thesis using run t(1,3) by blast
qed

end
