(* ===== verification/Shared_Ptr.thy ===== *)
theory Shared_Ptr
  imports Prelude
begin

text \<open>
  The reference-counted pointer of
  src/cplusplus/basement/base\_code/src/base\_memory/simple\_shared\_ptr.h.

  The heap holds the live objects and the live control blocks with their counts; the program's
  \<open>SimpleSharedPtr\<close> variables are slots with a raw pointer and a control pointer (\<open>None\<close> is null).
  Deleting or touching something that is not live is undefined behaviour.  \<open>new\<close> yields an address that was
  never used.
\<close>

type_synonym addr = nat

record sptr =
  sp_ptr :: "addr option"
  sp_control :: "addr option"

record heap =
  objs :: "addr set"
  ctrls :: "addr \<rightharpoonup> int"
  slots :: "nat \<rightharpoonup> sptr"
  fresh :: addr

section \<open>Operations\<close>

text \<open>\<open>release\<close> on the fields of one variable.\<close>

definition delete_obj :: "addr option \<Rightarrow> heap \<Rightarrow> heap outcome" where
  "delete_obj p h = (case p of
     None \<Rightarrow> Inr h
   | Some a \<Rightarrow> if a \<in> objs h then Inr (h\<lparr>objs := objs h - {a}\<rparr>) else Inl UB)"

definition release :: "sptr \<Rightarrow> heap \<Rightarrow> (sptr \<times> heap) outcome" where
  "release sp h = (case sp_control sp of
     None \<Rightarrow> Inr (sp, h)
   | Some c \<Rightarrow>
       (case ctrls h c of
          None \<Rightarrow> Inl UB
        | Some n \<Rightarrow>
            if n - 1 = 0
            then andThen (delete_obj (sp_ptr sp) h) (\<lambda>h.
              Inr (\<lparr>sp_ptr = None, sp_control = None\<rparr>, h\<lparr>ctrls := (ctrls h)(c := None)\<rparr>))
            else Inr (sp, h\<lparr>ctrls := (ctrls h)(c \<mapsto> n - 1)\<rparr>)))"

definition null_sp :: sptr where
  "null_sp = \<lparr>sp_ptr = None, sp_control = None\<rparr>"

definition get_slot :: "nat \<Rightarrow> heap \<Rightarrow> sptr outcome" where
  "get_slot i h = (case slots h i of None \<Rightarrow> Inl UB | Some sp \<Rightarrow> Inr sp)"

definition set_slot :: "nat \<Rightarrow> sptr \<Rightarrow> heap \<Rightarrow> heap" where
  "set_slot i sp h = h\<lparr>slots := (slots h)(i \<mapsto> sp)\<rparr>"

definition new_obj :: "heap \<Rightarrow> addr \<times> heap" where
  "new_obj h = (fresh h, h\<lparr>objs := insert (fresh h) (objs h), fresh := fresh h + 1\<rparr>)"

definition new_control :: "heap \<Rightarrow> addr \<times> heap" where
  "new_control h = (fresh h, h\<lparr>ctrls := (ctrls h)(fresh h \<mapsto> 1), fresh := fresh h + 1\<rparr>)"

definition incr :: "addr option \<Rightarrow> heap \<Rightarrow> heap outcome" where
  "incr c h = (case c of
     None \<Rightarrow> Inr h
   | Some a \<Rightarrow> (case ctrls h a of None \<Rightarrow> Inl UB | Some n \<Rightarrow> Inr (h\<lparr>ctrls := (ctrls h)(a \<mapsto> n + 1)\<rparr>)))"

definition sp_default :: "nat \<Rightarrow> heap \<Rightarrow> heap outcome" where
  "sp_default i h = Inr (set_slot i null_sp h)"

definition sp_of_raw :: "nat \<Rightarrow> addr option \<Rightarrow> heap \<Rightarrow> heap outcome" where
  "sp_of_raw i p h = (case p of
     None \<Rightarrow> Inr (set_slot i null_sp h)
   | Some a \<Rightarrow> let (c, h) = new_control h in Inr (set_slot i \<lparr>sp_ptr = Some a, sp_control = Some c\<rparr> h))"

definition sp_destroy :: "nat \<Rightarrow> heap \<Rightarrow> heap outcome" where
  "sp_destroy i h =
     andThen (get_slot i h) (\<lambda>sp.
     andThen (release sp h) (\<lambda>(_, h).
     Inr (h\<lparr>slots := (slots h)(i := None)\<rparr>)))"

definition sp_copy :: "nat \<Rightarrow> nat \<Rightarrow> heap \<Rightarrow> heap outcome" where
  "sp_copy i j h =
     andThen (get_slot j h) (\<lambda>sp.
     andThen (incr (sp_control sp) (set_slot i sp h)) Inr)"

definition sp_copy_assign :: "nat \<Rightarrow> nat \<Rightarrow> heap \<Rightarrow> heap outcome" where
  "sp_copy_assign i j h =
     (if i = j then Inr h
      else
        andThen (get_slot i h) (\<lambda>sp.
        andThen (release sp h) (\<lambda>(_, h).
        andThen (get_slot j h) (\<lambda>other.
        incr (sp_control other) (set_slot i other h)))))"

definition sp_move :: "nat \<Rightarrow> nat \<Rightarrow> heap \<Rightarrow> heap outcome" where
  "sp_move i j h = andThen (get_slot j h) (\<lambda>other. Inr (set_slot j null_sp (set_slot i other h)))"

definition sp_move_assign :: "nat \<Rightarrow> nat \<Rightarrow> heap \<Rightarrow> heap outcome" where
  "sp_move_assign i j h =
     (if i = j then Inr h
      else
        andThen (get_slot i h) (\<lambda>sp.
        andThen (release sp h) (\<lambda>(_, h).
        andThen (get_slot j h) (\<lambda>other.
        Inr (set_slot j null_sp (set_slot i other h))))))"

definition sp_reset :: "nat \<Rightarrow> addr option \<Rightarrow> heap \<Rightarrow> heap outcome" where
  "sp_reset i objp h =
     andThen (get_slot i h) (\<lambda>sp.
     if sp_ptr sp = objp then Inr h
     else andThen (release sp h) (\<lambda>(_, h).
       case objp of
         None \<Rightarrow> Inr (set_slot i null_sp h)
       | Some a \<Rightarrow> let (c, h) = new_control h in Inr (set_slot i \<lparr>sp_ptr = Some a, sp_control = Some c\<rparr> h)))"

definition use_cnt :: "nat \<Rightarrow> heap \<Rightarrow> int outcome" where
  "use_cnt i h =
     andThen (get_slot i h) (\<lambda>sp.
     case sp_control sp of
       None \<Rightarrow> Inr 0
     | Some c \<Rightarrow> (case ctrls h c of None \<Rightarrow> Inl UB | Some n \<Rightarrow> Inr n))"

section \<open>Counts\<close>

text \<open>The variables that share a control block, and the counts they give.\<close>

definition users :: "(nat \<rightharpoonup> sptr) \<Rightarrow> addr \<Rightarrow> nat set" where
  "users sl c = {i. \<exists>sp. sl i = Some sp \<and> sp_control sp = Some c}"

definition counts :: "(nat \<rightharpoonup> sptr) \<Rightarrow> addr \<rightharpoonup> int" where
  "counts sl c = (if users sl c = {} then None else Some (int (card (users sl c))))"

text \<open>
  The invariant, with \<open>own\<close> the object each control block stands for and \<open>X\<close> the objects made but not yet
  handed to a pointer: counts are exact, the other live objects are those of the live blocks, one each, and
  all addresses in use are below \<open>fresh\<close>.
\<close>

definition owned :: "(addr \<Rightarrow> addr) \<Rightarrow> addr set \<Rightarrow> heap \<Rightarrow> bool" where
  "owned own X h \<longleftrightarrow> finite (dom (slots h)) \<and> ctrls h = counts (slots h) \<and>
     inj_on own (dom (ctrls h)) \<and> objs h = own ` dom (ctrls h) \<union> X \<and> own ` dom (ctrls h) \<inter> X = {} \<and>
     (\<forall>i sp. slots h i = Some sp \<longrightarrow> sp_ptr sp = map_option own (sp_control sp)) \<and>
     (\<forall>c \<in> dom (ctrls h). c < fresh h) \<and> (\<forall>a \<in> objs h. a < fresh h)"

definition heap_ok :: "heap \<Rightarrow> bool" where
  "heap_ok h \<longleftrightarrow> (\<exists>own. owned own {} h)"

lemma ownedD:
  assumes "owned own X h"
  shows "finite (dom (slots h))" "ctrls h = counts (slots h)" "inj_on own (dom (ctrls h))"
    "objs h = own ` dom (ctrls h) \<union> X" "own ` dom (ctrls h) \<inter> X = {}"
    "\<forall>i sp. slots h i = Some sp \<longrightarrow> sp_ptr sp = map_option own (sp_control sp)"
    "\<forall>c \<in> dom (ctrls h). c < fresh h" "\<forall>a \<in> objs h. a < fresh h"
  using assms unfolding owned_def by blast+

lemma finite_users [simp]: "finite (dom sl) \<Longrightarrow> finite (users sl c)"
  by (rule finite_subset [of _ "dom sl"]) (auto simp: users_def)

lemma users_upd:
  "users (sl(i \<mapsto> sp)) c = (if sp_control sp = Some c then insert i (users sl c) else users sl c - {i})"
  "users (sl(i := None)) c = users sl c - {i}"
  by (auto simp: users_def)

lemma counts_detach:
  assumes "finite (dom sl)" "sl i = Some sp"
  shows "counts (sl(i := None)) = (case sp_control sp of
      None \<Rightarrow> counts sl
    | Some c \<Rightarrow> if counts sl c = Some 1 then (counts sl)(c := None)
        else (counts sl)(c \<mapsto> the (counts sl c) - 1))"
proof (cases "sp_control sp")
  case None
  then have "users (sl(i := None)) c = users sl c" for c using assms(2) by (auto simp: users_def)
  with None show ?thesis by (simp add: counts_def fun_eq_iff)
next
  case (Some c)
  have i: "i \<in> users sl c" using assms(2) Some by (simp add: users_def)
  have other: "users sl d - {i} = users sl d" if "d \<noteq> c" for d
    using assms(2) Some that by (auto simp: users_def)
  have card: "card (users sl c - {i}) = card (users sl c) - 1" "0 < card (users sl c)"
    using i assms(1) by (auto simp: card_gt_0_iff)
  have "users sl c - {i} = {} \<longleftrightarrow> card (users sl c - {i}) = 0" using assms(1) by (simp add: card_0_eq)
  then have "users sl c - {i} = {} \<longleftrightarrow> card (users sl c) = 1" unfolding card(1) using card(2) by linarith
  with i Some other card show ?thesis
    by (auto simp: fun_eq_iff counts_def users_upd)
qed

lemma counts_attach:
  assumes "finite (dom sl)" "sl i = None"
  shows "counts (sl(i \<mapsto> sp)) = (case sp_control sp of
      None \<Rightarrow> counts sl
    | Some c \<Rightarrow> (counts sl)(c \<mapsto> (case counts sl c of None \<Rightarrow> 0 | Some n \<Rightarrow> n) + 1))"
proof -
  have "i \<notin> users sl c" for c using assms(2) by (simp add: users_def)
  with assms(1) show ?thesis by (auto simp: fun_eq_iff counts_def users_upd split: option.split)
qed


lemma counts_move:
  assumes "finite (dom sl)" "sl j = Some sp" "sl i = None"
  shows "counts (sl(i \<mapsto> sp, j \<mapsto> null_sp)) = counts sl"
proof -
  have ij: "i \<noteq> j" using assms by auto
  have "counts (sl(i \<mapsto> sp, j \<mapsto> null_sp)) c = counts sl c" for c
  proof (cases "sp_control sp = Some c")
    case True
    have "j \<in> users sl c" "i \<notin> users sl c" using assms True by (auto simp: users_def)
    moreover have "users (sl(i \<mapsto> sp, j \<mapsto> null_sp)) c = insert i (users sl c - {j})"
      using ij True by (auto simp: users_def null_sp_def)
    moreover have "card (insert i (users sl c - {j})) = card (users sl c)"
      using calculation assms(1) card_Suc_Diff1 [of "users sl c" j]
      by (simp add: card_insert_disjoint del: card_Diff_insert card_Diff_singleton)
    ultimately show ?thesis by (auto simp: counts_def)
  next
    case False
    then have "users (sl(i \<mapsto> sp, j \<mapsto> null_sp)) c = users sl c"
      using assms ij by (auto simp: users_def null_sp_def)
    then show ?thesis by (simp add: counts_def)
  qed
  then show ?thesis by (simp add: fun_eq_iff)
qed

section \<open>Steps\<close>

lemma counts_user: "counts sl c \<noteq> None \<longleftrightarrow> (\<exists>i sp. sl i = Some sp \<and> sp_control sp = Some c)"
  by (auto simp: counts_def users_def)

lemma counts_pos: "finite (dom sl) \<Longrightarrow> counts sl c = Some n \<Longrightarrow> 1 \<le> n"
  by (auto simp: counts_def card_gt_0_iff Suc_le_eq split: if_splits)

text \<open>Releasing a variable leaves the heap as if the variable did not exist.\<close>

lemma release_ok:
  assumes h: "owned own X h" and i: "slots h i = Some sp"
  shows "\<exists>sp' h'. release sp h = Inr (sp', h') \<and> slots h' = slots h \<and> fresh h' = fresh h \<and>
    owned own X (h'\<lparr>slots := (slots h)(i := None)\<rparr>)"
proof -
  have fin: "finite (dom (slots h))" and ct: "ctrls h = counts (slots h)" and inj: "inj_on own (dom (ctrls h))"
    and ob: "objs h = own ` dom (ctrls h) \<union> X" "own ` dom (ctrls h) \<inter> X = {}"
    and ptr: "\<And>i sp. slots h i = Some sp \<Longrightarrow> sp_ptr sp = map_option own (sp_control sp)"
    and lt: "\<forall>c \<in> dom (ctrls h). c < fresh h" "\<forall>a \<in> objs h. a < fresh h"
    using h unfolding owned_def by blast+
  note det = counts_detach [OF fin i]
  show ?thesis
  proof (cases "sp_control sp")
    case None
    with det have "counts ((slots h)(i := None)) = ctrls h" using ct by simp
    with fin inj ob ptr lt have "owned own X (h\<lparr>slots := (slots h)(i := None)\<rparr>)" unfolding owned_def by simp
    with None show ?thesis by (simp add: release_def)
  next
    case (Some c)
    then obtain n where n: "ctrls h c = Some n" using i ct counts_user by (metis not_None_eq)
    have c: "c \<in> dom (ctrls h)" using n by auto
    have p: "sp_ptr sp = Some (own c)" using ptr [OF i] Some by simp
    show ?thesis
    proof (cases "n = 1")
      case True
      let ?h = "h\<lparr>objs := objs h - {own c}, ctrls := (ctrls h)(c := None)\<rparr>"
      have "own c \<in> objs h" using ob c by auto
      then have "release sp h = Inr (\<lparr>sp_ptr = None, sp_control = None\<rparr>, ?h)"
        using Some n True p by (simp add: release_def delete_obj_def)
      moreover have "counts ((slots h)(i := None)) = (ctrls h)(c := None)"
        using det Some n True ct by simp
      moreover have "own ` (dom (ctrls h) - {c}) = own ` dom (ctrls h) - {own c}"
        using inj c by (auto simp: inj_on_def)
      moreover have "own c \<notin> X" using ob(2) c by blast
      then have "objs h - {own c} = (own ` dom (ctrls h) - {own c}) \<union> X" using ob(1) by blast
      moreover have "(own ` dom (ctrls h) - {own c}) \<inter> X = {}" using ob(2) by blast
      moreover have "inj_on own (dom (ctrls h) - {c})" using inj by (rule inj_on_diff)
      moreover have "\<forall>a \<in> (own ` dom (ctrls h) - {own c}) \<union> X. a < fresh h" using lt(2) ob(1) by blast
      ultimately have "owned own X (?h\<lparr>slots := (slots h)(i := None)\<rparr>)"
        using fin ptr lt unfolding owned_def by simp
      with \<open>release sp h = _\<close> show ?thesis by simp
    next
      case False
      let ?h = "h\<lparr>ctrls := (ctrls h)(c \<mapsto> n - 1)\<rparr>"
      have "release sp h = Inr (sp, ?h)" using Some n False by (simp add: release_def)
      moreover have "counts ((slots h)(i := None)) = (ctrls h)(c \<mapsto> n - 1)"
        using det Some n False ct by simp
      moreover have "dom ((ctrls h)(c \<mapsto> n - 1)) = dom (ctrls h)" using c by auto
      ultimately show ?thesis using fin inj ob ptr lt by (auto simp: owned_def)
    qed
  qed
qed


text \<open>Filling an empty slot: with null, with a share of another variable, with a new object.\<close>

lemma set_null_ok:
  assumes "owned own X h" "slots h i = None"
  shows "owned own X (set_slot i null_sp h)"
proof -
  have "finite (dom (slots h))" using assms(1) by (simp add: owned_def)
  from counts_attach [OF this assms(2), of null_sp]
  have "counts ((slots h)(i \<mapsto> null_sp)) = counts (slots h)" by (simp add: null_sp_def)
  with ownedD [OF assms(1)] show ?thesis unfolding owned_def set_slot_def by (simp add: null_sp_def)
qed

lemma set_shared_ok:
  assumes h: "owned own X h" and i: "slots h i = None" and j: "slots h j = Some sp"
  shows "\<exists>h'. incr (sp_control sp) (set_slot i sp h) = Inr h' \<and> owned own X h'"
proof -
  have fin: "finite (dom (slots h))" and ct: "ctrls h = counts (slots h)" using h unfolding owned_def by blast+
  note at = counts_attach [OF fin i, of sp]
  have ptr: "sp_ptr sp = map_option own (sp_control sp)" using h j unfolding owned_def by blast
  show ?thesis
  proof (cases "sp_control sp")
    case None
    with at have "counts ((slots h)(i \<mapsto> sp)) = ctrls h" using ct by simp
    with ownedD [OF h] ptr have "owned own X (set_slot i sp h)" unfolding owned_def set_slot_def by simp
    with None show ?thesis by (simp add: incr_def)
  next
    case (Some c)
    then obtain n where n: "ctrls h c = Some n" using j ct counts_user by (metis not_None_eq)
    let ?h = "(set_slot i sp h)\<lparr>ctrls := (ctrls h)(c \<mapsto> n + 1)\<rparr>"
    have "incr (sp_control sp) (set_slot i sp h) = Inr ?h" using Some n by (simp add: incr_def set_slot_def)
    moreover have "counts ((slots h)(i \<mapsto> sp)) = (ctrls h)(c \<mapsto> n + 1)" using at Some n ct by simp
    moreover have "dom ((ctrls h)(c \<mapsto> n + 1)) = dom (ctrls h)" using n by auto
    ultimately show ?thesis using ownedD [OF h] ptr unfolding owned_def set_slot_def by simp
  qed
qed

lemma set_new_ok:
  assumes h: "owned own {a} h" and i: "slots h i = None"
  shows "heap_ok (let (c, h) = new_control h in set_slot i \<lparr>sp_ptr = Some a, sp_control = Some c\<rparr> h)"
proof -
  let ?c = "fresh h" and ?sp = "\<lparr>sp_ptr = Some a, sp_control = Some (fresh h)\<rparr>"
  let ?own = "own(?c := a)"
  have fin: "finite (dom (slots h))" and ct: "ctrls h = counts (slots h)" and inj: "inj_on own (dom (ctrls h))"
    and ob: "objs h = own ` dom (ctrls h) \<union> {a}" "own ` dom (ctrls h) \<inter> {a} = {}"
    and ptr: "\<forall>i sp. slots h i = Some sp \<longrightarrow> sp_ptr sp = map_option own (sp_control sp)"
    and lt: "\<forall>c \<in> dom (ctrls h). c < fresh h" "\<forall>a \<in> objs h. a < fresh h"
    using h unfolding owned_def by blast+
  have new: "?c \<notin> dom (ctrls h)" using lt(1) by auto
  then have "counts (slots h) ?c = None" using ct by auto
  then have cnt: "counts ((slots h)(i \<mapsto> ?sp)) = (ctrls h)(?c \<mapsto> 1)"
    using counts_attach [OF fin i, of ?sp] ct by simp
  have same: "?own c = own c" if "c \<in> dom (ctrls h)" for c using that new by auto
  have "?own ` dom (ctrls h) = own ` dom (ctrls h)" using same by (intro image_cong refl)
  then have img: "?own ` insert ?c (dom (ctrls h)) = own ` dom (ctrls h) \<union> {a}" by (simp only: image_insert) simp
  have "inj_on ?own (insert ?c (dom (ctrls h)))"
    using inj ob(2) new same by (auto simp: inj_on_def)
  moreover have "sp_ptr sp = map_option ?own (sp_control sp)" if "slots h k = Some sp" for k sp
  proof -
    have "sp_control sp \<noteq> Some ?c" using that new ct counts_user [of "slots h" ?c] by auto
    then show ?thesis using ptr that by (cases "sp_control sp") auto
  qed
  ultimately have "owned ?own {} ((h\<lparr>ctrls := (ctrls h)(?c \<mapsto> 1), fresh := fresh h + 1\<rparr>)\<lparr>slots := (slots h)(i \<mapsto> ?sp)\<rparr>)"
    using fin cnt img ob lt by (auto simp: owned_def dom_fun_upd less_Suc_eq)
  then show ?thesis by (auto simp: heap_ok_def new_control_def set_slot_def)
qed

lemma move_ok:
  assumes h: "owned own X h" and i: "slots h i = None" and j: "slots h j = Some sp"
  shows "owned own X (set_slot j null_sp (set_slot i sp h))"
proof -
  have fin: "finite (dom (slots h))" and ct: "ctrls h = counts (slots h)" using h unfolding owned_def by blast+
  have "sp_ptr sp = map_option own (sp_control sp)" using h j unfolding owned_def by blast
  with ownedD [OF h] counts_move [OF fin j i] show ?thesis unfolding owned_def set_slot_def
    by (simp add: null_sp_def)
qed

lemma new_obj_ok:
  assumes "owned own {} h"
  shows "owned own {fresh h} (snd (new_obj h))"
proof -
  note h = ownedD [OF assms]
  have "fresh h \<notin> objs h" by (metis h(8) less_irrefl)
  moreover have im: "objs h = own ` dom (ctrls h)" using h(4) by simp
  ultimately have "own ` dom (ctrls h) \<inter> {fresh h} = {}" by simp
  moreover have "\<forall>a \<in> insert (fresh h) (objs h). a < fresh h + 1" using h(8) by auto
  moreover have "\<forall>c \<in> dom (ctrls h). c < fresh h + 1" by (metis h(7) less_SucI Suc_eq_plus1)
  moreover have "insert (fresh h) (objs h) = own ` dom (ctrls h) \<union> {fresh h}" by (simp add: im)
  ultimately show ?thesis using h(1-3,6) unfolding owned_def new_obj_def snd_conv
    by simp
qed


section \<open>Programs\<close>

text \<open>What a program may do with pointer variables; a constructor needs a variable that does not exist yet.
  Raw pointers come straight from \<open>new\<close>.\<close>

datatype sp_op =
    Default nat | Make nat | Copy nat nat | Move nat nat | CopyAssign nat nat | MoveAssign nat nat
  | ResetNew nat | ResetNull nat | Destroy nat

fun sp_run :: "sp_op \<Rightarrow> heap \<Rightarrow> heap outcome" where
  "sp_run (Default i) h = sp_default i h"
| "sp_run (Make i) h = (let (a, h) = new_obj h in sp_of_raw i (Some a) h)"
| "sp_run (Copy i j) h = sp_copy i j h"
| "sp_run (Move i j) h = sp_move i j h"
| "sp_run (CopyAssign i j) h = sp_copy_assign i j h"
| "sp_run (MoveAssign i j) h = sp_move_assign i j h"
| "sp_run (ResetNew i) h = (let (a, h) = new_obj h in sp_reset i (Some a) h)"
| "sp_run (ResetNull i) h = sp_reset i None h"
| "sp_run (Destroy i) h = sp_destroy i h"

fun sp_legal :: "sp_op \<Rightarrow> nat set \<Rightarrow> bool" where
  "sp_legal (Default i) V \<longleftrightarrow> i \<notin> V"
| "sp_legal (Make i) V \<longleftrightarrow> i \<notin> V"
| "sp_legal (Copy i j) V \<longleftrightarrow> i \<notin> V \<and> j \<in> V"
| "sp_legal (Move i j) V \<longleftrightarrow> i \<notin> V \<and> j \<in> V"
| "sp_legal (CopyAssign i j) V \<longleftrightarrow> i \<in> V \<and> j \<in> V"
| "sp_legal (MoveAssign i j) V \<longleftrightarrow> i \<in> V \<and> j \<in> V"
| "sp_legal (ResetNew i) V \<longleftrightarrow> i \<in> V"
| "sp_legal (ResetNull i) V \<longleftrightarrow> i \<in> V"
| "sp_legal (Destroy i) V \<longleftrightarrow> i \<in> V"

fun sp_vars :: "sp_op \<Rightarrow> nat set \<Rightarrow> nat set" where
  "sp_vars (Default i) V = insert i V"
| "sp_vars (Make i) V = insert i V"
| "sp_vars (Copy i j) V = insert i V"
| "sp_vars (Move i j) V = insert i V"
| "sp_vars (Destroy i) V = V - {i}"
| "sp_vars _ V = V"

definition vacated :: "nat \<Rightarrow> heap \<Rightarrow> heap" where
  "vacated i h = h\<lparr>slots := (slots h)(i := None)\<rparr>"

lemma set_slot_vacated [simp]: "set_slot i sp (vacated i h) = set_slot i sp h"
  by (simp add: set_slot_def vacated_def)

lemma release_vacated:
  assumes "owned own X h" "slots h i = Some sp"
  obtains sp' h' where "release sp h = Inr (sp', h')" "slots h' = slots h" "owned own X (vacated i h')"
    "slots (vacated i h') i = None" "\<And>j. j \<noteq> i \<Longrightarrow> slots (vacated i h') j = slots h j"
  using release_ok [OF assms] by (auto simp: vacated_def)

lemma dom_set_slot [simp]: "dom (slots (set_slot i sp h)) = insert i (dom (slots h))"
  by (auto simp: set_slot_def)

lemma incr_slots: "incr c h = Inr h' \<Longrightarrow> slots h' = slots h"
  by (auto simp: incr_def split: option.splits)

lemma construct_step:
  assumes h: "owned own {} h" and i: "slots h i = None"
  shows "\<exists>h'. sp_run (Default i) h = Inr h' \<and> heap_ok h' \<and> dom (slots h') = insert i (dom (slots h))"
    and "\<exists>h'. sp_run (Make i) h = Inr h' \<and> heap_ok h' \<and> dom (slots h') = insert i (dom (slots h))"
    and "slots h j = Some sp \<Longrightarrow>
      \<exists>h'. sp_run (Copy i j) h = Inr h' \<and> heap_ok h' \<and> dom (slots h') = insert i (dom (slots h))"
    and "slots h j = Some sp \<Longrightarrow>
      \<exists>h'. sp_run (Move i j) h = Inr h' \<and> heap_ok h' \<and> dom (slots h') = insert i (dom (slots h))"
proof -
  show "\<exists>h'. sp_run (Default i) h = Inr h' \<and> heap_ok h' \<and> dom (slots h') = insert i (dom (slots h))"
    using set_null_ok [OF h i] by (auto simp: sp_default_def heap_ok_def)
  have "slots (snd (new_obj h)) i = None" using i by (simp add: new_obj_def)
  from set_new_ok [OF new_obj_ok [OF h] this]
  show "\<exists>h'. sp_run (Make i) h = Inr h' \<and> heap_ok h' \<and> dom (slots h') = insert i (dom (slots h))"
    by (simp add: sp_of_raw_def new_obj_def new_control_def)
  assume j: "slots h j = Some sp"
  from set_shared_ok [OF h i j] obtain h' where "incr (sp_control sp) (set_slot i sp h) = Inr h'" "owned own {} h'"
    by blast
  with incr_slots [OF this(1)] j
  show "\<exists>h'. sp_run (Copy i j) h = Inr h' \<and> heap_ok h' \<and> dom (slots h') = insert i (dom (slots h))"
    by (auto simp: sp_copy_def get_slot_def heap_ok_def)
  show "\<exists>h'. sp_run (Move i j) h = Inr h' \<and> heap_ok h' \<and> dom (slots h') = insert i (dom (slots h))"
    using move_ok [OF h i j] j by (auto simp: sp_move_def get_slot_def heap_ok_def)
qed

lemma assign_step:
  assumes h: "owned own {} h" and i: "slots h i = Some sp" and j: "slots h j = Some other"
  shows "\<exists>h'. sp_run (CopyAssign i j) h = Inr h' \<and> heap_ok h' \<and> dom (slots h') = dom (slots h)"
    and "\<exists>h'. sp_run (MoveAssign i j) h = Inr h' \<and> heap_ok h' \<and> dom (slots h') = dom (slots h)"
proof -
  have ok: "heap_ok h" using h by (auto simp: heap_ok_def)
  obtain sp' h1 where 1: "release sp h = Inr (sp', h1)" "slots h1 = slots h" "owned own {} (vacated i h1)"
    "slots (vacated i h1) i = None" "\<And>j. j \<noteq> i \<Longrightarrow> slots (vacated i h1) j = slots h j"
    using release_vacated [OF h i] by blast
  have dom: "insert i (dom (slots h) - {i}) = dom (slots h)" "insert j (dom (slots h)) = dom (slots h)"
    "insert i (dom (slots h)) = dom (slots h)" using i j by auto
  show "\<exists>h'. sp_run (CopyAssign i j) h = Inr h' \<and> heap_ok h' \<and> dom (slots h') = dom (slots h)"
  proof (cases "i = j")
    case False
    then have "slots (vacated i h1) j = Some other" using 1(5) j by simp
    from set_shared_ok [OF 1(3,4) this] obtain h2 where
      2: "incr (sp_control other) (set_slot i other h1) = Inr h2" "owned own {} h2" by auto
    with incr_slots [OF 2(1)] 1(1,2) i j False show ?thesis
      by (auto simp: sp_copy_assign_def get_slot_def heap_ok_def dom)
  qed (use ok in \<open>simp add: sp_copy_assign_def\<close>)
  show "\<exists>h'. sp_run (MoveAssign i j) h = Inr h' \<and> heap_ok h' \<and> dom (slots h') = dom (slots h)"
  proof (cases "i = j")
    case False
    then have "slots (vacated i h1) j = Some other" using 1(5) j by simp
    from move_ok [OF 1(3,4) this] 1(1,2) i j False show ?thesis
      by (auto simp: sp_move_assign_def get_slot_def heap_ok_def dom)
  qed (use ok in \<open>simp add: sp_move_assign_def\<close>)
qed


lemma destroy_step:
  assumes h: "owned own {} h" and i: "slots h i = Some sp"
  shows "\<exists>h'. sp_run (Destroy i) h = Inr h' \<and> heap_ok h' \<and> dom (slots h') = dom (slots h) - {i}"
    and "\<exists>h'. sp_run (ResetNull i) h = Inr h' \<and> heap_ok h' \<and> dom (slots h') = dom (slots h)"
    and "\<exists>h'. sp_run (ResetNew i) h = Inr h' \<and> heap_ok h' \<and> dom (slots h') = dom (slots h)"
proof -
  obtain sp' h1 where 1: "release sp h = Inr (sp', h1)" "slots h1 = slots h" "owned own {} (vacated i h1)"
    "slots (vacated i h1) i = None" using release_vacated [OF h i] by blast
  have dom: "insert i (dom (slots h)) = dom (slots h)" using i by auto
  show "\<exists>h'. sp_run (Destroy i) h = Inr h' \<and> heap_ok h' \<and> dom (slots h') = dom (slots h) - {i}"
    using 1 i by (auto simp: sp_destroy_def get_slot_def heap_ok_def vacated_def)
  have "owned own {} (set_slot i null_sp h1)" using set_null_ok [OF 1(3,4)] by simp
  with 1(1,2) h i show "\<exists>h'. sp_run (ResetNull i) h = Inr h' \<and> heap_ok h' \<and> dom (slots h') = dom (slots h)"
    by (auto simp: sp_reset_def get_slot_def heap_ok_def dom)
  let ?h = "snd (new_obj h)" and ?a = "fresh h"
  have i': "slots ?h i = Some sp" using i by (simp add: new_obj_def)
  obtain sp'' h2 where 2: "release sp ?h = Inr (sp'', h2)" "slots h2 = slots ?h" "owned own {?a} (vacated i h2)"
    "slots (vacated i h2) i = None" using release_vacated [OF new_obj_ok [OF h] i'] by blast
  have fresh: "sp_ptr sp \<noteq> Some ?a"
  proof
    assume p: "sp_ptr sp = Some ?a"
    then obtain c where c: "sp_control sp = Some c" "own c = ?a" using ownedD(6) [OF h] i by fastforce
    then have "c \<in> dom (ctrls h)" using i counts_user ownedD(2) [OF h] by (metis domIff)
    then have "own c \<in> objs h" unfolding ownedD(4) [OF h] by simp
    then have "?a \<in> objs h" using c(2) by simp
    then show False using ownedD(8) [OF h] by auto
  qed
  have new: "heap_ok (let (c, h) = new_control h2 in set_slot i \<lparr>sp_ptr = Some ?a, sp_control = Some c\<rparr> h)"
    using set_new_ok [OF 2(3,4)] by (simp add: new_control_def set_slot_def vacated_def)
  have "sp_run (ResetNew i) h =
      Inr (let (c, h) = new_control h2 in set_slot i \<lparr>sp_ptr = Some ?a, sp_control = Some c\<rparr> h)"
    using 2(1) i' fresh by (simp add: sp_reset_def get_slot_def new_obj_def new_control_def)
  moreover have "slots h2 = slots h" using 2(2) by (simp add: new_obj_def)
  ultimately show "\<exists>h'. sp_run (ResetNew i) h = Inr h' \<and> heap_ok h' \<and> dom (slots h') = dom (slots h)"
    using new dom by (simp add: new_control_def Let_def)
qed

lemma sp_step:
  assumes "heap_ok h" "sp_legal op (dom (slots h))"
  shows "\<exists>h'. sp_run op h = Inr h' \<and> heap_ok h' \<and> dom (slots h') = sp_vars op (dom (slots h))"
proof -
  obtain own where h: "owned own {} h" using assms(1) by (auto simp: heap_ok_def)
  note c = construct_step [OF h] and a = assign_step [OF h] and d = destroy_step [OF h]
  show ?thesis
  proof (cases op)
    case (Default i)
    then have "slots h i = None" using assms(2) by (simp add: domIff)
    from c(1) [OF this] show ?thesis unfolding Default sp_vars.simps .
  next
    case (Make i)
    then have "slots h i = None" using assms(2) by (simp add: domIff)
    from c(2) [OF this] show ?thesis unfolding Make sp_vars.simps .
  next
    case (Copy i j)
    then obtain sp where "slots h i = None" "slots h j = Some sp" using assms(2) by (auto simp: domIff)
    from c(3) [OF this] show ?thesis unfolding Copy sp_vars.simps .
  next
    case (Move i j)
    then obtain sp where "slots h i = None" "slots h j = Some sp" using assms(2) by (auto simp: domIff)
    from c(4) [OF this] show ?thesis unfolding Move sp_vars.simps .
  next
    case (CopyAssign i j)
    then obtain sp sq where "slots h i = Some sp" "slots h j = Some sq" using assms(2) by auto
    from a(1) [OF this] show ?thesis unfolding CopyAssign sp_vars.simps .
  next
    case (MoveAssign i j)
    then obtain sp sq where "slots h i = Some sp" "slots h j = Some sq" using assms(2) by auto
    from a(2) [OF this] show ?thesis unfolding MoveAssign sp_vars.simps .
  next
    case (ResetNew i)
    then obtain sp where "slots h i = Some sp" using assms(2) by auto
    from d(3) [OF this] show ?thesis unfolding ResetNew sp_vars.simps .
  next
    case (ResetNull i)
    then obtain sp where "slots h i = Some sp" using assms(2) by auto
    from d(2) [OF this] show ?thesis unfolding ResetNull sp_vars.simps .
  next
    case (Destroy i)
    then obtain sp where "slots h i = Some sp" using assms(2) by auto
    from d(1) [OF this] show ?thesis unfolding Destroy sp_vars.simps .
  qed
qed

fun run_program :: "sp_op list \<Rightarrow> heap \<Rightarrow> heap outcome" where
  "run_program [] h = Inr h"
| "run_program (op # ops) h = andThen (sp_run op h) (run_program ops)"

fun legal_program :: "sp_op list \<Rightarrow> nat set \<Rightarrow> bool" where
  "legal_program [] V = True"
| "legal_program (op # ops) V = (sp_legal op V \<and> legal_program ops (sp_vars op V))"

lemma program_ok:
  "heap_ok h \<Longrightarrow> legal_program ops (dom (slots h)) \<Longrightarrow>
   \<exists>h'. run_program ops h = Inr h' \<and> heap_ok h' \<and> dom (slots h') = fold sp_vars ops (dom (slots h))"
proof (induction ops arbitrary: h)
  case (Cons op ops)
  have l: "sp_legal op (dom (slots h))" "legal_program ops (sp_vars op (dom (slots h)))"
    using Cons.prems(2) by simp_all
  from sp_step [OF Cons.prems(1) l(1)] obtain h1 where
    1: "sp_run op h = Inr h1" "heap_ok h1" "dom (slots h1) = sp_vars op (dom (slots h))" by blast
  from Cons.IH [OF 1(2)] l(2) 1 show ?case by simp
qed simp

definition empty_heap :: heap where
  "empty_heap = \<lparr>objs = {}, ctrls = Map.empty, slots = Map.empty, fresh = 0\<rparr>"

text \<open>C2: A program that constructs, copies, moves, assigns, resets and destroys shared pointers, each variable
  constructed once before its use, never deletes twice or touches a dead control block; at every point the
  reported count is the number of variables that share the object, which is alive; and when no variable is left
  neither an object nor a control block remains.\<close>

theorem shared_ptr_safe:
  assumes "legal_program ops {}"
  shows "\<exists>h. run_program ops empty_heap = Inr h \<and>
    (\<forall>i sp c. slots h i = Some sp \<longrightarrow> sp_control sp = Some c \<longrightarrow>
       use_cnt i h = Inr (int (card {j. \<exists>sq. slots h j = Some sq \<and> sp_control sq = Some c})) \<and>
       (\<exists>a. sp_ptr sp = Some a \<and> a \<in> objs h)) \<and>
    (slots h = Map.empty \<longrightarrow> objs h = {} \<and> ctrls h = Map.empty)"
proof -
  have "owned (\<lambda>_. 0) {} empty_heap"
    by (auto simp: owned_def empty_heap_def counts_def users_def fun_eq_iff)
  then have "heap_ok empty_heap" by (auto simp: heap_ok_def)
  moreover have "legal_program ops (dom (slots empty_heap))" using assms by (simp add: empty_heap_def)
  ultimately obtain h where run: "run_program ops empty_heap = Inr h" and "heap_ok h"
    using program_ok by blast
  then obtain own where h: "owned own {} h" by (auto simp: heap_ok_def)
  note D = ownedD [OF h]
  have "use_cnt i h = Inr (int (card {j. \<exists>sq. slots h j = Some sq \<and> sp_control sq = Some c})) \<and>
       (\<exists>a. sp_ptr sp = Some a \<and> a \<in> objs h)"
    if "slots h i = Some sp" "sp_control sp = Some c" for i sp c
  proof -
    have u: "users (slots h) c \<noteq> {}" using that by (auto simp: users_def)
    then have n: "ctrls h c = Some (int (card (users (slots h) c)))" using D(2) by (simp add: counts_def)
    then have "own c \<in> objs h" using D(4) by auto
    with n that D(6) show ?thesis by (simp add: use_cnt_def get_slot_def users_def)
  qed
  moreover have "objs h = {} \<and> ctrls h = Map.empty" if "slots h = Map.empty"
    using D(2,4) that by (auto simp: counts_def users_def fun_eq_iff)
  ultimately show ?thesis using run by blast
qed

theorem shared_ptr_safe_witness:
  "\<exists>h. run_program [Make 0, Copy 1 0, Default 2, CopyAssign 2 1, MoveAssign 1 2, ResetNew 0, Destroy 0, Destroy 1,
       Destroy 2] empty_heap = Inr h \<and> (slots h = Map.empty \<longrightarrow> objs h = {} \<and> ctrls h = Map.empty)"
  using shared_ptr_safe [of "[Make 0, Copy 1 0, Default 2, CopyAssign 2 1, MoveAssign 1 2, ResetNew 0, Destroy 0,
      Destroy 1, Destroy 2]"] by auto

end
