(* ===== verification/Chat_Server.thy ===== *)
theory Chat_Server
  imports Net_Frame
begin

text \<open>
  The poll-based chat server of src/cplusplus/concurrent/code/base\_io\_multiplexing/chat\_demo.cpp: the
  vector of poll entries (the listener first), the vector of client sockets, accepting, reading,
  broadcasting and removing clients, and one round of the poll loop.

  What the kernel does is a parameter: the result of \<open>accept\<close>, of each \<open>recv\<close>, and whether sending to a
  client succeeds; the sending loop itself is \<open>send_all\<close> below.  An index outside a vector is undefined
  behaviour.
\<close>

section \<open>Sending\<close>

text \<open>\<open>send_all\<close>, over the events of the calls to \<open>::send\<close>: the return value (\<open>None\<close>: still blocked), and the
  bytes sent.\<close>

fun chat_send_all :: "io_ev list \<Rightarrow> byte list \<Rightarrow> bool option \<times> byte list" where
  "chat_send_all es [] = (Some True, [])"
| "chat_send_all [] (b # bs) = (None, [])"
| "chat_send_all (Interrupted # es) (b # bs) = chat_send_all es (b # bs)"
| "chat_send_all (Failed # es) (b # bs) = (Some False, [])"
| "chat_send_all (Moved k # es) (b # bs) =
     (if k = 0 then (Some False, [])
      else let (r, sent) = chat_send_all es (drop k (b # bs)) in (r, take k (b # bs) @ sent))"

lemma chat_send_all_true:
  "chat_send_all es bs = (r, sent) \<Longrightarrow>
   (r = Some True \<longrightarrow> sent = bs) \<and> (\<exists>rest. bs = sent @ rest)"
proof (induction es bs arbitrary: r sent rule: chat_send_all.induct)
  case (5 k es b bs)
  show ?case
  proof (cases "k = 0")
    case False
    obtain r1 s1 where rec: "chat_send_all es (drop k (b # bs)) = (r1, s1)" by fastforce
    from "5.IH" [OF False rec] obtain rest where
      1: "r1 = Some True \<longrightarrow> s1 = drop k (b # bs)" "drop k (b # bs) = s1 @ rest" by blast
    have eq: "r = r1" "sent = take k (b # bs) @ s1" using "5.prems" False rec by simp_all
    have "b # bs = take k (b # bs) @ s1 @ rest" using 1(2) by (metis append_take_drop_id)
    with 1(1) eq show ?thesis by (metis append.assoc append_take_drop_id)
  qed (use "5.prems" in auto)
qed auto

section \<open>State\<close>

record pollfd =
  fd :: int
  pollin :: bool
  pollerr :: bool

record server =
  clients :: "int list"
  fds :: "pollfd list"
  sent :: "(int \<times> byte list) list"
  closed :: "int list"

definition MAX_CLIENTS :: nat where
  "MAX_CLIENTS = 64"

datatype recv_result = Got "byte list" | RecvIntr | RecvEnd

section \<open>Operations\<close>

definition start :: "int \<Rightarrow> server" where
  "start listener = \<lparr>clients = [], fds = [\<lparr>fd = listener, pollin = False, pollerr = False\<rparr>], sent = [], closed = []\<rparr>"

text \<open>\<open>accept\<close> returned \<open>client_fd\<close>, negative for an error.\<close>

definition accept_client :: "int \<Rightarrow> server \<Rightarrow> server" where
  "accept_client client_fd s =
     (if client_fd < 0 then s
      else if length (clients s) \<ge> MAX_CLIENTS then s\<lparr>closed := closed s @ [client_fd]\<rparr>
      else s\<lparr>clients := clients s @ [client_fd],
             fds := fds s @ [\<lparr>fd = client_fd, pollin = False, pollerr = False\<rparr>]\<rparr>)"

definition remove_client :: "nat \<Rightarrow> server \<Rightarrow> server outcome" where
  "remove_client index s =
     (if 1 \<le> index \<and> index < length (fds s) \<and> index - 1 < length (clients s)
      then Inr (s\<lparr>clients := take (index - 1) (clients s) @ drop index (clients s),
                  fds := take index (fds s) @ drop (Suc index) (fds s),
                  closed := closed s @ [clients s ! (index - 1)]\<rparr>)
      else Inl UB)"

lemma remove_client_length:
  "remove_client index s = Inr s' \<Longrightarrow> Suc (length (fds s')) = length (fds s) \<and> index < length (fds s)"
  by (auto simp: remove_client_def split: if_splits)

text \<open>The loop of \<open>broadcast\<close> from index \<open>i\<close>; \<open>sends c\<close> says whether \<open>send_all\<close> to the descriptor \<open>c\<close> returns
  true.\<close>

function broadcast_loop :: "(int \<Rightarrow> bool) \<Rightarrow> nat \<Rightarrow> nat \<Rightarrow> byte list \<Rightarrow> server \<Rightarrow> server outcome" where
  "broadcast_loop sends i sender msg s =
     (if \<not> i < length (fds s) then Inr s
      else if i = sender then broadcast_loop sends (i + 1) sender msg s
      else if \<not> sends (fd (fds s ! i))
        then (case remove_client i s of
                Inl e \<Rightarrow> Inl e
              | Inr s' \<Rightarrow> broadcast_loop sends i (if i < sender then sender - 1 else sender) msg s')
      else broadcast_loop sends (i + 1) sender msg (s\<lparr>sent := sent s @ [(fd (fds s ! i), msg)]\<rparr>))"
  by pat_completeness auto
termination
  by (relation "measure (\<lambda>(sends, i, sender, msg, s). length (fds s) - i)")
    (auto dest: remove_client_length)

declare broadcast_loop.simps [simp del]

definition broadcast :: "(int \<Rightarrow> bool) \<Rightarrow> nat \<Rightarrow> byte list \<Rightarrow> server \<Rightarrow> server outcome" where
  "broadcast sends sender msg s = broadcast_loop sends 1 sender msg s"

definition read_client :: "(int \<Rightarrow> recv_result) \<Rightarrow> (int \<Rightarrow> bool) \<Rightarrow> nat \<Rightarrow> server \<Rightarrow> (bool \<times> server) outcome" where
  "read_client rcv sends index s =
     (if \<not> index < length (fds s) then Inl UB
      else case rcv (fd (fds s ! index)) of
          Got msg \<Rightarrow> andThen (broadcast sends index msg s) (\<lambda>s. Inr (True, s))
        | RecvIntr \<Rightarrow> Inr (True, s)
        | RecvEnd \<Rightarrow> andThen (remove_client index s) (\<lambda>s. Inr (False, s)))"

text \<open>The loop over the poll entries, from the last index down to 1.\<close>

fun scan :: "(int \<Rightarrow> recv_result) \<Rightarrow> (int \<Rightarrow> bool) \<Rightarrow> nat \<Rightarrow> server \<Rightarrow> server outcome" where
  "scan rcv sends 0 s = Inr s"
| "scan rcv sends (Suc k) s =
     (let i = Suc k in
      if \<not> i < length (fds s) then Inl UB
      else
        let e = fds s ! i in
        andThen (if pollin e then read_client rcv sends i s else Inr (True, s)) (\<lambda>(go_on, s).
        andThen (if go_on \<and> pollerr e then remove_client i s else Inr s) (\<lambda>s.
        scan rcv sends k s)))"

text \<open>One round of \<open>run\<close> after \<open>poll\<close> has stored its results: the listener first, then the clients.\<close>

definition poll_round :: "int \<Rightarrow> (int \<Rightarrow> recv_result) \<Rightarrow> (int \<Rightarrow> bool) \<Rightarrow> server \<Rightarrow> server outcome" where
  "poll_round accepted rcv sends s =
     (if fds s = [] then Inl UB
      else
        let s = (if pollin (fds s ! 0) then accept_client accepted s else s) in
        scan rcv sends (length (fds s) - 1) s)"

section \<open>Correctness\<close>

text \<open>The comment of the class: \<open>clients_[i]\<close> owns the descriptor of \<open>fds_[i+1]\<close>.\<close>

definition server_ok :: "server \<Rightarrow> bool" where
  "server_ok s \<longleftrightarrow> fds s \<noteq> [] \<and> clients s = map fd (tl (fds s)) \<and> length (clients s) \<le> MAX_CLIENTS"

lemma server_ok_sent [simp]: "server_ok (s\<lparr>sent := x\<rparr>) = server_ok s"
  by (simp add: server_ok_def)

definition keeps :: "(int \<Rightarrow> bool) \<Rightarrow> pollfd list \<Rightarrow> pollfd list" where
  "keeps sends es = filter (\<lambda>e. sends (fd e)) es"

definition deliveries :: "(int \<Rightarrow> bool) \<Rightarrow> byte list \<Rightarrow> pollfd list \<Rightarrow> (int \<times> byte list) list" where
  "deliveries sends msg es = map (\<lambda>e. (fd e, msg)) (keeps sends es)"

definition losses :: "(int \<Rightarrow> bool) \<Rightarrow> pollfd list \<Rightarrow> int list" where
  "losses sends es = map fd (filter (\<lambda>e. \<not> sends (fd e)) es)"

lemma keeps_simps [simp]:
  "keeps sends [] = []" "keeps sends (e # es) = (if sends (fd e) then e # keeps sends es else keeps sends es)"
  "deliveries sends msg [] = []"
  "deliveries sends msg (e # es) =
     (if sends (fd e) then (fd e, msg) # deliveries sends msg es else deliveries sends msg es)"
  "losses sends [] = []"
  "losses sends (e # es) = (if sends (fd e) then losses sends es else fd e # losses sends es)"
  by (simp_all add: keeps_def deliveries_def losses_def)

lemma remove_client_ok:
  assumes "server_ok s" "fds s = dn @ e # todo" "dn \<noteq> []"
  shows "\<exists>s'. remove_client (length dn) s = Inr s' \<and> server_ok s' \<and> fds s' = dn @ todo \<and>
    sent s' = sent s \<and> closed s' = closed s @ [fd e]"
proof -
  obtain l ds where dn: "dn = l # ds" using assms(3) by (cases dn) auto
  have c: "clients s = map fd (ds @ e # todo)" using assms(1,2) by (simp add: server_ok_def dn)
  then show ?thesis using assms by (auto simp: remove_client_def server_ok_def dn nth_append)
qed

text \<open>After the sender's position the loop treats every entry alike.\<close>

lemma broadcast_after:
  "server_ok s \<Longrightarrow> fds s = dn @ todo \<Longrightarrow> dn \<noteq> [] \<Longrightarrow> sender < length dn \<Longrightarrow>
   \<exists>s'. broadcast_loop sends (length dn) sender msg s = Inr s' \<and> server_ok s' \<and>
     fds s' = dn @ keeps sends todo \<and> sent s' = sent s @ deliveries sends msg todo \<and>
     closed s' = closed s @ losses sends todo"
proof (induction todo arbitrary: s "dn")
  case Nil
  then show ?case by (simp add: broadcast_loop.simps)
next
  case (Cons e todo)
  have at: "fds s ! length dn = e" "length dn < length (fds s)" "length dn \<noteq> sender"
    using Cons.prems(2,4) by simp_all
  show ?case
  proof (cases "sends (fd e)")
    case True
    let ?s = "s\<lparr>sent := sent s @ [(fd e, msg)]\<rparr>"
    have "broadcast_loop sends (length dn) sender msg s = broadcast_loop sends (length (dn @ [e])) sender msg ?s"
      using at True by (subst broadcast_loop.simps) simp
    moreover have "server_ok ?s" "fds ?s = (dn @ [e]) @ todo" "dn @ [e] \<noteq> []" "sender < length (dn @ [e])"
      using Cons.prems by simp_all
    ultimately show ?thesis using Cons.IH [of ?s "dn @ [e]"] True by simp
  next
    case False
    from remove_client_ok [OF Cons.prems(1-3)] obtain s1 where
      s1: "remove_client (length dn) s = Inr s1" "server_ok s1" "fds s1 = dn @ todo"
        "sent s1 = sent s" "closed s1 = closed s @ [fd e]" by blast
    have "broadcast_loop sends (length dn) sender msg s = broadcast_loop sends (length dn) sender msg s1"
      using at False s1(1) Cons.prems(4) by (subst broadcast_loop.simps) simp
    with Cons.IH [OF s1(2,3) Cons.prems(3,4)] s1(4,5) False show ?thesis by simp
  qed
qed

lemma broadcast_before:
  "server_ok s \<Longrightarrow> fds s = dn @ pre @ e # post \<Longrightarrow> dn \<noteq> [] \<Longrightarrow>
   \<exists>s'. broadcast_loop sends (length dn) (length dn + length pre) msg s = Inr s' \<and> server_ok s' \<and>
     fds s' = dn @ keeps sends pre @ e # keeps sends post \<and>
     sent s' = sent s @ deliveries sends msg pre @ deliveries sends msg post \<and>
     closed s' = closed s @ losses sends pre @ losses sends post"
proof (induction pre arbitrary: s "dn")
  case Nil
  have "broadcast_loop sends (length dn) (length dn + length []) msg s =
      broadcast_loop sends (length (dn @ [e])) (length dn) msg s"
    using Nil.prems by (subst broadcast_loop.simps) simp
  with broadcast_after [OF Nil.prems(1), of "dn @ [e]" post "length dn" sends msg] Nil.prems
  show ?case by simp
next
  case (Cons a pre)
  have at: "fds s ! length dn = a" "length dn < length (fds s)"
    using Cons.prems(2) by simp_all
  show ?case
  proof (cases "sends (fd a)")
    case True
    let ?s = "s\<lparr>sent := sent s @ [(fd a, msg)]\<rparr>"
    have "broadcast_loop sends (length dn) (length dn + length (a # pre)) msg s =
        broadcast_loop sends (length (dn @ [a])) (length (dn @ [a]) + length pre) msg ?s"
      using at True by (subst broadcast_loop.simps) simp
    moreover have "server_ok ?s" "fds ?s = (dn @ [a]) @ pre @ e # post" "dn @ [a] \<noteq> []"
      using Cons.prems by simp_all
    ultimately show ?thesis using Cons.IH [of ?s "dn @ [a]"] True by simp
  next
    case False
    have "fds s = dn @ a # (pre @ e # post)" using Cons.prems(2) by simp
    from remove_client_ok [OF Cons.prems(1) this Cons.prems(3)] obtain s1 where
      s1: "remove_client (length dn) s = Inr s1" "server_ok s1" "fds s1 = dn @ pre @ e # post"
        "sent s1 = sent s" "closed s1 = closed s @ [fd a]" by blast
    have "broadcast_loop sends (length dn) (length dn + length (a # pre)) msg s =
        broadcast_loop sends (length dn) (length dn + length pre) msg s1"
      using at False s1(1) by (subst broadcast_loop.simps) simp
    with Cons.IH [OF s1(2,3) Cons.prems(3)] s1(4,5) False show ?thesis by simp
  qed
qed

text \<open>C25: A broadcast reaches every client but the sender exactly once, in the order of the table, removes and
  closes exactly the clients that cannot be sent to, keeps the sender although the indices shift, and keeps
  sockets and poll entries aligned.\<close>

theorem broadcast_correct:
  assumes "server_ok s" "fds s = listener # pre @ e # post"
  shows "\<exists>s'. broadcast sends (Suc (length pre)) msg s = Inr s' \<and> server_ok s' \<and>
    fds s' = listener # keeps sends pre @ e # keeps sends post \<and>
    sent s' = sent s @ deliveries sends msg (pre @ post) \<and>
    closed s' = closed s @ losses sends (pre @ post)"
  using broadcast_before [OF assms(1), of "[listener]" pre e post sends msg] assms(2)
  by (simp add: broadcast_def deliveries_def losses_def keeps_def)

theorem broadcast_correct_witness:
  "\<exists>s'. broadcast (\<lambda>c. c \<noteq> 4) 2 [72] \<lparr>clients = [4, 5, 6], fds = [\<lparr>fd = 3, pollin = False, pollerr = False\<rparr>,
       \<lparr>fd = 4, pollin = False, pollerr = False\<rparr>, \<lparr>fd = 5, pollin = True, pollerr = False\<rparr>,
       \<lparr>fd = 6, pollin = False, pollerr = False\<rparr>], sent = [], closed = []\<rparr> = Inr s' \<and>
     sent s' = [(6, [72])] \<and> closed s' = [4]"
  using broadcast_correct [of "\<lparr>clients = [4, 5, 6], fds = [\<lparr>fd = 3, pollin = False, pollerr = False\<rparr>,
       \<lparr>fd = 4, pollin = False, pollerr = False\<rparr>, \<lparr>fd = 5, pollin = True, pollerr = False\<rparr>,
       \<lparr>fd = 6, pollin = False, pollerr = False\<rparr>], sent = [], closed = []\<rparr>"
     "\<lparr>fd = 3, pollin = False, pollerr = False\<rparr>" "[\<lparr>fd = 4, pollin = False, pollerr = False\<rparr>]"
     "\<lparr>fd = 5, pollin = True, pollerr = False\<rparr>" "[\<lparr>fd = 6, pollin = False, pollerr = False\<rparr>]" "\<lambda>c. c \<noteq> 4" "[72]"]
  by (auto simp: server_ok_def MAX_CLIENTS_def eval_nat_numeral)


section \<open>Rounds of the poll loop\<close>

lemma broadcast_all_send:
  assumes "server_ok s" "1 \<le> i" "i < length (fds s)" "\<forall>c. sends c"
  shows "\<exists>s'. broadcast sends i msg s = Inr s' \<and> server_ok s' \<and> fds s' = fds s"
proof -
  obtain l es where fds: "fds s = l # es" using assms(1) by (cases "fds s") (auto simp: server_ok_def)
  obtain k where i: "i = Suc k" using assms(2) by (cases i) auto
  have k: "k < length es" using assms(3) fds i by simp
  have eq: "fds s = l # take k es @ es ! k # drop (Suc k) es"
    unfolding fds by (simp only: id_take_nth_drop [OF k, symmetric])
  have "keeps sends xs = xs" for xs using assms(4) by (simp add: keeps_def)
  with broadcast_correct [OF assms(1) eq, of sends msg] eq k i show ?thesis by auto
qed

lemma remove_client_index:
  assumes "server_ok s" "1 \<le> i" "i < length (fds s)"
  shows "\<exists>s'. remove_client i s = Inr s' \<and> server_ok s' \<and> length (fds s') = length (fds s) - 1 \<and>
    take i (fds s') = take i (fds s)"
proof -
  have "fds s = take i (fds s) @ fds s ! i # drop (Suc i) (fds s)" "take i (fds s) \<noteq> []" "length (take i (fds s)) = i"
    using assms(2,3) by (simp_all only: id_take_nth_drop [OF assms(3), symmetric]) auto
  from remove_client_ok [OF assms(1) this(1,2)] this(3) show ?thesis using assms by auto
qed

lemma scan_ok:
  "server_ok s \<Longrightarrow> k < length (fds s) \<Longrightarrow> \<forall>c. sends c \<Longrightarrow> \<exists>s'. scan rcv sends k s = Inr s' \<and> server_ok s'"
proof (induction k arbitrary: s)
  case (Suc k)
  let ?i = "Suc k" and ?e = "fds s ! Suc k"
  have read: "\<exists>go s1. (if pollin ?e then read_client rcv sends ?i s else Inr (True, s)) = Inr (go, s1) \<and>
      server_ok s1 \<and> k < length (fds s1) \<and> (go \<longrightarrow> ?i < length (fds s1))"
  proof (cases "pollin ?e")
    case True
    show ?thesis
    proof (cases "rcv (fd ?e)")
      case (Got msg)
      from broadcast_all_send [OF Suc.prems(1) _ Suc.prems(2,3), of msg] obtain s1 where
        "broadcast sends ?i msg s = Inr s1" "server_ok s1" "fds s1 = fds s" by auto
      with True Got Suc.prems(2) show ?thesis
        by (intro exI [of _ True] exI [of _ s1]) (simp add: read_client_def)
    next
      case RecvIntr
      with True Suc.prems show ?thesis
        by (intro exI [of _ True] exI [of _ s]) (simp add: read_client_def)
    next
      case RecvEnd
      from remove_client_index [OF Suc.prems(1) _ Suc.prems(2)] obtain s1 where
        "remove_client ?i s = Inr s1" "server_ok s1" "length (fds s1) = length (fds s) - 1" by auto
      with True RecvEnd Suc.prems(2) show ?thesis
        by (intro exI [of _ False] exI [of _ s1]) (simp add: read_client_def)
    qed
  qed (use Suc.prems in \<open>auto\<close>)
  then obtain go s1 where 1: "(if pollin ?e then read_client rcv sends ?i s else Inr (True, s)) = Inr (go, s1)"
    "server_ok s1" "k < length (fds s1)" "go \<longrightarrow> ?i < length (fds s1)" by blast
  have "\<exists>s2. (if go \<and> pollerr ?e then remove_client ?i s1 else Inr s1) = Inr s2 \<and> server_ok s2 \<and> k < length (fds s2)"
    using 1(2-4) remove_client_index [of s1 ?i] by auto
  then obtain s2 where 2: "(if go \<and> pollerr ?e then remove_client ?i s1 else Inr s1) = Inr s2" "server_ok s2"
    "k < length (fds s2)" by blast
  from Suc.IH [OF 2(2,3) Suc.prems(3)] Suc.prems(2) show ?case by (simp add: 1(1) 2(1) Let_def)
qed simp

lemma accept_client_ok: "server_ok s \<Longrightarrow> server_ok (accept_client c s)"
  by (cases "fds s") (auto simp: server_ok_def accept_client_def)

text \<open>While every send succeeds, any round of the poll loop stays inside its vectors, whatever is accepted,
  received, closed or reported as an error, and keeps the table aligned and bounded by MAX\_CLIENTS.\<close>

theorem poll_round_safe:
  assumes "server_ok s" "\<forall>c. sends c"
  shows "\<exists>s'. poll_round accepted rcv sends s = Inr s' \<and> server_ok s'"
proof -
  let ?s = "if pollin (fds s ! 0) then accept_client accepted s else s"
  have ok: "server_ok ?s" "fds s \<noteq> []" using assms(1) accept_client_ok by (auto simp: server_ok_def [of s])
  then have "length (fds ?s) - 1 < length (fds ?s)" by (simp add: server_ok_def [of ?s])
  from scan_ok [OF ok(1) this assms(2)] ok(2) show ?thesis by (simp add: poll_round_def Let_def)
qed

theorem poll_round_safe_witness:
  "\<exists>s'. poll_round 7 (\<lambda>_. Got [72]) (\<lambda>_. True) (start 3) = Inr s' \<and> server_ok s'"
  by (rule poll_round_safe) (simp_all add: server_ok_def start_def)

text \<open>When the last of at least three clients sends a message and none of the others can be sent to, the
  broadcast shrinks the table below the index the loop continues with: the round reads outside its vector.\<close>

theorem poll_round_out_of_range:
  assumes "server_ok s" "fds s = listener # es @ [e]" "2 \<le> length es" "pollin e" "\<not> pollin listener"
    and "rcv (fd e) = Got msg" "\<forall>x \<in> set es. \<not> sends (fd x)"
  shows "poll_round accepted rcv sends s = Inl UB"
proof -
  have keeps: "keeps sends es = []" using assms(7) by (simp add: keeps_def filter_empty_conv)
  from broadcast_correct [OF assms(1,2), of sends msg] obtain s1 where
    s1: "broadcast sends (Suc (length es)) msg s = Inr s1" "server_ok s1" "fds s1 = [listener, e]"
    by (auto simp: keeps)
  have at: "fds s ! Suc (length es) = e" "Suc (length es) < length (fds s)" using assms(2) by (simp_all add: nth_append)
  have rd: "read_client rcv sends (Suc (length es)) s = Inr (True, s1)"
    using at s1(1) assms(6) by (simp add: read_client_def)
  obtain n where n: "length es = Suc (Suc n)" using assms(3) by (metis add_2_eq_Suc le_Suc_ex)
  have "scan rcv sends (Suc (length es)) s = Inl UB"
    using at rd s1(3) assms(4) by (simp add: Let_def n remove_client_def)
  then show ?thesis using assms(2,5) by (simp add: poll_round_def)
qed

theorem poll_round_out_of_range_witness:
  "poll_round 0 (\<lambda>_. Got [72]) (\<lambda>_. False) \<lparr>clients = [4, 5, 6], fds = [\<lparr>fd = 3, pollin = False, pollerr = False\<rparr>,
       \<lparr>fd = 4, pollin = False, pollerr = False\<rparr>, \<lparr>fd = 5, pollin = False, pollerr = False\<rparr>,
       \<lparr>fd = 6, pollin = True, pollerr = False\<rparr>], sent = [], closed = []\<rparr> = Inl UB"
  by (rule poll_round_out_of_range [where es = "[\<lparr>fd = 4, pollin = False, pollerr = False\<rparr>,
       \<lparr>fd = 5, pollin = False, pollerr = False\<rparr>]" and e = "\<lparr>fd = 6, pollin = True, pollerr = False\<rparr>"
       and listener = "\<lparr>fd = 3, pollin = False, pollerr = False\<rparr>" and msg = "[72]"])
    (simp_all add: server_ok_def MAX_CLIENTS_def)

end
