(* ===== verification/Line_Server.thy ===== *)
theory Line_Server
  imports Cpp_Text "HOL-Library.Sublist" "HOL-Library.Multiset"
begin

text \<open>
  The epoll server with a thread pool of
  src/cplusplus/concurrent/code/base\_server\_application\_framework/framework\_server.cpp: connections as
  state machines, line dispatch, the pool's workers, the completion queue and the event loop.

  A connection also carries what arrived on its socket and what was sent on it (\<open>rx\<close>, \<open>tx\<close>).  The loop
  thread and the workers share the two queues under their mutexes, so a run interleaves accepting, socket
  events, the swap of the completion queue, and workers that take a job and finish one.  What the kernel
  does at an event (bytes received, bytes accepted for sending, errors) is chosen by the environment.
\<close>

section \<open>Connections\<close>

datatype cstate = Reading | Processing | Writing | Closed

record connection =
  cstate :: cstate
  input :: string
  outbuf :: string
  nsent :: nat
  peer_eof :: bool
  rx :: string
  tx :: string

definition new_connection :: connection where
  "new_connection = \<lparr>cstate = Reading, input = [], outbuf = [], nsent = 0, peer_eof = False, rx = [], tx = []\<rparr>"

definition newline :: char where "newline = CHR 0x0A"

definition max_line :: nat where "max_line = 4096"

definition strip_cr :: "string \<Rightarrow> string" where
  "strip_cr line = (if line \<noteq> [] \<and> last line = CHR 0x0D then butlast line else line)"

text \<open>\<open>dispatch_line\<close>: the return value, the connection, and the job submitted.\<close>

definition dispatch_line :: "connection \<Rightarrow> bool \<times> connection \<times> string option" where
  "dispatch_line c =
     (if cstate c \<noteq> Reading then (True, c, None)
      else if newline \<notin> set (input c)
        then (if length (input c) > max_line then (False, c\<lparr>cstate := Closed\<rparr>, None) else (True, c, None))
      else let (line, rest) = getline newline (input c) in
        if length line > max_line then (False, c\<lparr>cstate := Closed\<rparr>, None)
        else (True, c\<lparr>input := rest, cstate := Processing\<rparr>, Some (strip_cr line)))"

definition interest :: "connection \<Rightarrow> bool \<times> bool" where
  "interest c = (cstate c = Reading \<and> \<not> peer_eof c, cstate c = Writing)"

section \<open>Workers\<close>

definition upper :: "char \<Rightarrow> char" where
  "upper ch = (if 97 \<le> (of_char ch :: nat) \<and> (of_char ch :: nat) \<le> 122 then char_of ((of_char ch :: nat) - 32) else ch)"

definition respond :: "string \<Rightarrow> string" where
  "respond line = ''OK '' @ map upper line @ [newline]"

section \<open>Socket events\<close>

text \<open>How the receiving or sending loop ended: nothing more for now, end of file, or an error.\<close>

datatype ending = Again | Eof | Error

definition on_readable :: "string \<Rightarrow> ending \<Rightarrow> connection \<Rightarrow> bool \<times> connection \<times> string option" where
  "on_readable data en c =
     (let c = c\<lparr>input := input c @ data, rx := rx c @ data\<rparr>;
          c = (if en = Eof then c\<lparr>peer_eof := True\<rparr> else c)
      in if en = Error then (False, c, None) else dispatch_line c)"

definition on_writable :: "nat \<Rightarrow> ending \<Rightarrow> connection \<Rightarrow> bool \<times> connection \<times> string option" where
  "on_writable k en c =
     (let n = min k (length (outbuf c) - nsent c);
          c = c\<lparr>nsent := nsent c + n, tx := tx c @ take n (drop (nsent c) (outbuf c))\<rparr>
      in if nsent c = length (outbuf c)
         then dispatch_line (c\<lparr>outbuf := [], nsent := 0, cstate := Reading\<rparr>)
         else (en = Again, c, None))"

record event =
  ev_in :: "(string \<times> ending) option"
  ev_out :: "(nat \<times> ending) option"
  ev_hup :: bool

text \<open>The branch of the loop for a client's descriptor.  At most one of the three dispatches submits.\<close>

definition or_job :: "string option \<Rightarrow> string option \<Rightarrow> string option" where
  "or_job a b = (case a of Some x \<Rightarrow> Some x | None \<Rightarrow> b)"

definition handle_event :: "event \<Rightarrow> connection \<Rightarrow> bool \<times> connection \<times> string option" where
  "handle_event e c =
     (let (alive, c, job1) = (case ev_in e of None \<Rightarrow> (True, c, None) | Some (d, en) \<Rightarrow> on_readable d en c);
          (alive, c, job2) = (case ev_out e of
             None \<Rightarrow> (alive, c, None)
           | Some (k, en) \<Rightarrow> if alive \<and> cstate c = Writing then on_writable k en c else (alive, c, None));
          c = (if ev_hup e then c\<lparr>peer_eof := True\<rparr> else c);
          (alive, c, job3) = (if alive \<and> peer_eof c \<and> cstate c = Reading
            then let (ok, c, job) = dispatch_line c in (ok \<and> cstate c \<noteq> Reading, c, job)
            else (alive, c, None))
      in (alive, if alive then c else c\<lparr>cstate := Closed\<rparr>, or_job job1 (or_job job2 job3)))"

section \<open>The server\<close>

record fserver =
  conns :: "nat \<rightharpoonup> connection"
  clients :: "nat set"
  armed :: "nat \<Rightarrow> bool \<times> bool"
  jobs :: "(nat \<times> string) list"
  held :: "(nat \<times> string) list"
  completions :: "(nat \<times> string) list"

definition init_server :: fserver where
  "init_server = \<lparr>conns = Map.empty, clients = {}, armed = \<lambda>_. (False, False), jobs = [], held = [], completions = []\<rparr>"

text \<open>One completion: it is dropped when its connection is gone or closed.\<close>

fun complete :: "nat \<times> string \<Rightarrow> fserver \<Rightarrow> fserver" where
  "complete (i, response) s =
     (case conns s i of
        None \<Rightarrow> s
      | Some c \<Rightarrow>
          if i \<notin> clients s \<or> cstate c = Closed then s
          else let c = c\<lparr>outbuf := response, nsent := 0, cstate := Writing\<rparr> in
            s\<lparr>conns := (conns s)(i \<mapsto> c), armed := (armed s)(i := interest c)\<rparr>)"

definition on_notify :: "fserver \<Rightarrow> fserver" where
  "on_notify s = fold complete (completions s) (s\<lparr>completions := []\<rparr>)"

definition on_event :: "nat \<Rightarrow> event \<Rightarrow> fserver \<Rightarrow> fserver" where
  "on_event i e s =
     (if i \<notin> clients s then s
      else case conns s i of
        None \<Rightarrow> s
      | Some c \<Rightarrow>
          let (alive, c, job) = handle_event e c;
              s = s\<lparr>conns := (conns s)(i \<mapsto> c), jobs := jobs s @ (case job of None \<Rightarrow> [] | Some l \<Rightarrow> [(i, l)])\<rparr>
          in if alive then s\<lparr>armed := (armed s)(i := interest c)\<rparr> else s\<lparr>clients := clients s - {i}\<rparr>)"

definition on_accept :: "nat \<Rightarrow> fserver \<Rightarrow> fserver" where
  "on_accept i s = s\<lparr>conns := (conns s)(i \<mapsto> new_connection), clients := insert i (clients s),
     armed := (armed s)(i := interest new_connection)\<rparr>"

text \<open>A run of the loop thread and the workers.  The kernel reports reading and writing only for what is
  armed; a connection object is new.\<close>

inductive fstep :: "fserver \<Rightarrow> fserver \<Rightarrow> bool" where
  accept: "conns s i = None \<Longrightarrow> fstep s (on_accept i s)"
| event: "(ev_in e \<noteq> None \<longrightarrow> fst (armed s i)) \<Longrightarrow> (ev_out e \<noteq> None \<longrightarrow> snd (armed s i)) \<Longrightarrow>
    fstep s (on_event i e s)"
| notify: "fstep s (on_notify s)"
| take: "jobs s = job # rest \<Longrightarrow> fstep s (s\<lparr>jobs := rest, held := job # held s\<rparr>)"
| finish: "held s = pre @ (i, line) # post \<Longrightarrow>
    fstep s (s\<lparr>held := pre @ post, completions := completions s @ [(i, respond line)]\<rparr>)"

inductive freach :: "fserver \<Rightarrow> bool" where
  init: "freach init_server"
| step: "freach s \<Longrightarrow> fstep s s' \<Longrightarrow> freach s'"

inductive_cases fstepE: "fstep s s'"

section \<open>What a connection has done so far\<close>

definition answer :: "string \<Rightarrow> string" where
  "answer line = respond (strip_cr line)"

definition answers :: "string list \<Rightarrow> string" where
  "answers L = concat (map answer L)"

text \<open>The lines \<open>L\<close> have been taken from the stream; what follows them is still in the buffer.\<close>

definition consumed :: "string list \<Rightarrow> connection \<Rightarrow> bool" where
  "consumed L c \<longleftrightarrow> rx c = concat (map (\<lambda>l. l @ [newline]) L) @ input c \<and>
     (\<forall>l \<in> set L. newline \<notin> set l \<and> length l \<le> max_line)"

definition idle_inv :: "string list \<Rightarrow> connection \<Rightarrow> bool" where
  "idle_inv L c \<longleftrightarrow> consumed L c \<and> cstate c = Reading \<and> tx c = answers L"

definition proc_inv :: "string list \<Rightarrow> connection \<Rightarrow> bool" where
  "proc_inv L c \<longleftrightarrow> consumed L c \<and> cstate c = Processing \<and> L \<noteq> [] \<and> tx c = answers (butlast L)"

definition write_inv :: "string list \<Rightarrow> connection \<Rightarrow> bool" where
  "write_inv L c \<longleftrightarrow> consumed L c \<and> cstate c = Writing \<and> L \<noteq> [] \<and> outbuf c = answer (last L) \<and>
     nsent c \<le> length (outbuf c) \<and> tx c = answers (butlast L) @ take (nsent c) (outbuf c)"

definition closed_inv :: "string list \<Rightarrow> connection \<Rightarrow> bool" where
  "closed_inv L c \<longleftrightarrow> consumed L c \<and> cstate c = Closed \<and> prefix (tx c) (answers L)"

lemmas conn_defs = consumed_def idle_inv_def proc_inv_def write_inv_def closed_inv_def

lemma inv_peer_eof [simp]:
  "idle_inv L (c\<lparr>peer_eof := b\<rparr>) = idle_inv L c" "proc_inv L (c\<lparr>peer_eof := b\<rparr>) = proc_inv L c"
  "write_inv L (c\<lparr>peer_eof := b\<rparr>) = write_inv L c" "closed_inv L (c\<lparr>peer_eof := b\<rparr>) = closed_inv L c"
  by (simp_all add: conn_defs)

lemma answers_last: "L \<noteq> [] \<Longrightarrow> answers L = answers (butlast L) @ answer (last L)"
  by (cases L rule: rev_cases) (simp_all add: answers_def)

lemma closing:
  "idle_inv L c \<or> write_inv L c \<or> proc_inv L c \<or> closed_inv L c \<Longrightarrow> closed_inv L (c\<lparr>cstate := Closed\<rparr>)"
  by (auto simp: conn_defs answers_last take_is_prefix)

text \<open>The result of a handler on a connection without a pending job.\<close>

definition handled :: "bool \<times> connection \<times> string option \<Rightarrow> bool" where
  "handled r \<longleftrightarrow> (case r of (alive, c, job) \<Rightarrow> \<exists>L.
     (job = None \<and> (idle_inv L c \<or> write_inv L c \<or> closed_inv L c \<and> \<not> alive)) \<or>
     (job = Some (strip_cr (last L)) \<and> proc_inv L c \<and> alive))"

lemma dispatch_handled:
  assumes "idle_inv L c"
  shows "handled (dispatch_line c)"
proof (cases "newline \<in> set (input c)")
  case False
  with assms closing [of L c] show ?thesis
    by (auto simp: handled_def dispatch_line_def idle_inv_def)
next
  case True
  obtain line rest where g: "getline newline (input c) = (line, rest)" by fastforce
  from split_list_first [OF True] obtain ys zs where ys: "input c = ys @ newline # zs" "newline \<notin> set ys" by blast
  with g have line: "line = ys" "rest = zs" by simp_all
  show ?thesis
  proof (cases "length line > max_line")
    case True
    with assms g \<open>newline \<in> _\<close> closing [of L c] show ?thesis
      by (auto simp: handled_def dispatch_line_def idle_inv_def)
  next
    case False
    let ?c = "c\<lparr>input := rest, cstate := Processing\<rparr>"
    have "proc_inv (L @ [line]) ?c" using assms False ys line by (simp add: conn_defs)
    moreover have "dispatch_line c = (True, ?c, Some (strip_cr line))"
      using assms g False True by (simp add: dispatch_line_def idle_inv_def)
    ultimately show ?thesis by (auto simp: handled_def intro!: exI [of _ "L @ [line]"])
  qed
qed

lemma readable_handled:
  assumes "idle_inv L c"
  shows "handled (on_readable d en c)"
proof -
  let ?c = "c\<lparr>input := input c @ d, rx := rx c @ d\<rparr>"
  have "idle_inv L ?c" using assms by (simp add: conn_defs)
  then show ?thesis using dispatch_handled [of L ?c] dispatch_handled [of L "?c\<lparr>peer_eof := True\<rparr>"]
    by (auto simp: on_readable_def Let_def handled_def [of "(False, _, _)"])
qed

lemma writable_handled:
  assumes "write_inv L c"
  shows "handled (on_writable k en c)"
proof -
  define n where "n = min k (length (outbuf c) - nsent c)"
  let ?c = "c\<lparr>nsent := nsent c + n, tx := tx c @ take n (drop (nsent c) (outbuf c))\<rparr>"
  have "nsent c \<le> length (outbuf c)" using assms unfolding write_inv_def by blast
  then have n: "nsent c + n \<le> length (outbuf c)" by (simp add: n_def)
  have w: "write_inv L ?c" using assms n by (simp add: conn_defs take_add)
  show ?thesis
  proof (cases "nsent ?c = length (outbuf c)")
    case True
    then have "idle_inv L (?c\<lparr>outbuf := [], nsent := 0, cstate := Reading\<rparr>)"
      using w by (auto simp: conn_defs answers_last [of L])
    from dispatch_handled [OF this] True show ?thesis by (simp add: on_writable_def n_def Let_def)
  next
    case False
    with w show ?thesis by (auto simp: on_writable_def n_def Let_def handled_def)
  qed
qed


lemma handledE:
  assumes "handled (alive, c, job)"
  obtains L where "job = None" "idle_inv L c \<or> write_inv L c"
  | L where "job = None" "closed_inv L c" "\<not> alive"
  | L where "job = Some (strip_cr (last L))" "proc_inv L c" alive
  using assms by (auto simp: handled_def)

text \<open>The last part of the handler: the end of the stream, then closing.\<close>

definition eof_part :: "bool \<Rightarrow> bool \<times> connection \<times> string option \<Rightarrow> bool \<times> connection \<times> string option" where
  "eof_part hup = (\<lambda>(alive, c, job).
     let c = (if hup then c\<lparr>peer_eof := True\<rparr> else c);
         (alive, c, job3) = (if alive \<and> peer_eof c \<and> cstate c = Reading
            then let (ok, c, job) = dispatch_line c in (ok \<and> cstate c \<noteq> Reading, c, job)
            else (alive, c, None))
     in (alive, if alive then c else c\<lparr>cstate := Closed\<rparr>, or_job job job3))"

definition settled :: "bool \<times> connection \<times> string option \<Rightarrow> bool" where
  "settled r \<longleftrightarrow> (case r of (alive, c, job) \<Rightarrow> \<exists>L.
     (job = None \<and> alive \<and> (idle_inv L c \<or> write_inv L c)) \<or> (job = None \<and> \<not> alive \<and> closed_inv L c) \<or>
     (job = Some (strip_cr (last L)) \<and> proc_inv L c \<and> alive))"

lemma settledI:
  "idle_inv L c \<or> write_inv L c \<Longrightarrow> settled (True, c, None)"
  "closed_inv L c \<Longrightarrow> settled (False, c, None)"
  "proc_inv L c \<Longrightarrow> settled (True, c, Some (strip_cr (last L)))"
  by (auto simp: settled_def)

lemma eof_part_settled:
  assumes "handled (alive, c, job)"
  shows "settled (eof_part hup (alive, c, job))"
proof -
  let ?c = "if hup then c\<lparr>peer_eof := True\<rparr> else c"
  from assms have h: "handled (alive, ?c, job)" by (simp add: handled_def)
  show ?thesis
  proof (cases "alive \<and> peer_eof ?c \<and> cstate ?c = Reading")
    case True
    from h True obtain L where L: "job = None" "idle_inv L ?c"
      by (elim handledE) (auto simp: conn_defs)
    obtain ok c2 job2 where d: "dispatch_line ?c = (ok, c2, job2)" by (rule prod_cases3)
    have e: "eof_part hup (alive, c, job) =
        (ok \<and> cstate c2 \<noteq> Reading, if ok \<and> cstate c2 \<noteq> Reading then c2 else c2\<lparr>cstate := Closed\<rparr>, job2)"
      using True d L(1) by (auto simp: eof_part_def Let_def or_job_def)
    from dispatch_handled [OF L(2)] have "handled (ok, c2, job2)" unfolding d .
    then show ?thesis unfolding e
    proof (cases rule: handledE)
      case (1 L')
      have "cstate c2 = Reading \<or> \<not> ok"
        using d L(2) by (auto simp: dispatch_line_def conn_defs Let_def 1(1) split: if_splits prod.splits)
      with 1 closing [of L' c2] show "settled (ok \<and> cstate c2 \<noteq> Reading,
        if ok \<and> cstate c2 \<noteq> Reading then c2 else c2\<lparr>cstate := Closed\<rparr>, job2)" by (auto intro: settledI)
    next
      case (2 L')
      with closing [of L' c2] show "settled (ok \<and> cstate c2 \<noteq> Reading,
        if ok \<and> cstate c2 \<noteq> Reading then c2 else c2\<lparr>cstate := Closed\<rparr>, job2)" by (auto intro: settledI)
    next
      case (3 L')
      then have "cstate c2 = Processing" by (simp add: proc_inv_def)
      with 3 settledI(3) [of L' c2] show "settled (ok \<and> cstate c2 \<noteq> Reading,
        if ok \<and> cstate c2 \<noteq> Reading then c2 else c2\<lparr>cstate := Closed\<rparr>, job2)" by simp
    qed
  next
    case False
    then have e: "eof_part hup (alive, c, job) = (alive, if alive then ?c else ?c\<lparr>cstate := Closed\<rparr>, job)"
      by (auto simp: eof_part_def Let_def or_job_def split: option.split)
    from h show ?thesis unfolding e
    proof (cases rule: handledE)
      case (1 L')
      then show "settled (alive, if alive then ?c else ?c\<lparr>cstate := Closed\<rparr>, job)"
        using closing [of L' ?c] by (cases alive) (auto intro: settledI)
    next
      case (2 L')
      then show "settled (alive, if alive then ?c else ?c\<lparr>cstate := Closed\<rparr>, job)"
        using closing [of L' ?c] by (auto intro: settledI)
    next
      case (3 L')
      then show "settled (alive, if alive then ?c else ?c\<lparr>cstate := Closed\<rparr>, job)"
        using settledI(3) [of L' ?c] by simp
    qed
  qed
qed


lemma handle_event_in:
  assumes "ev_out e = None"
  shows "handle_event e c = eof_part (ev_hup e)
    (case ev_in e of None \<Rightarrow> (True, c, None) | Some (d, en) \<Rightarrow> on_readable d en c)"
  using assms by (auto simp: handle_event_def eof_part_def or_job_def Let_def split: prod.split option.split)

lemma handle_event_out:
  assumes "ev_in e = None" "ev_out e = Some (k, en)" "cstate c = Writing"
  shows "handle_event e c = eof_part (ev_hup e) (on_writable k en c)"
  using assms by (auto simp: handle_event_def eof_part_def or_job_def Let_def split: prod.split option.split)

lemma handle_event_settled:
  assumes "idle_inv L c \<or> write_inv L c" and armed: "ev_in e \<noteq> None \<longrightarrow> fst (interest c)" "ev_out e \<noteq> None \<longrightarrow> snd (interest c)"
  shows "settled (handle_event e c)"
proof -
  have none: "handled (True, c, None)" using assms(1) by (auto simp: handled_def)
  show ?thesis
  proof (cases "ev_out e")
    case None
    show ?thesis
    proof (cases "ev_in e")
      case (Some de)
      then have "cstate c = Reading" using armed(1) by (simp add: interest_def)
      then have "idle_inv L c" using assms(1) by (auto simp: conn_defs)
      obtain d en where de: "de = (d, en)" by (cases de)
      obtain a c1 j where r: "on_readable d en c = (a, c1, j)" by (rule prod_cases3)
      from readable_handled [OF \<open>idle_inv L c\<close>, of d en] None Some de r show ?thesis
        by (simp add: handle_event_in eof_part_settled)
    qed (use None none in \<open>simp add: handle_event_in eof_part_settled\<close>)
  next
    case (Some ke)
    then have w: "cstate c = Writing" using armed(2) by (simp add: interest_def)
    then have "ev_in e = None" "write_inv L c" using armed(1) assms(1) by (auto simp: interest_def conn_defs simp del: not_None_eq)
    obtain k en where ke: "ke = (k, en)" by (cases ke)
    obtain a c1 j where r: "on_writable k en c = (a, c1, j)" by (rule prod_cases3)
    from writable_handled [OF \<open>write_inv L c\<close>, of k en] handle_event_out [OF \<open>ev_in e = None\<close> _ w] Some ke r
    show ?thesis by (simp add: eof_part_settled)
  qed
qed

lemma handle_event_processing:
  assumes "proc_inv L c" "ev_in e \<noteq> None \<longrightarrow> fst (interest c)" "ev_out e \<noteq> None \<longrightarrow> snd (interest c)"
  shows "\<exists>c'. handle_event e c = (True, c', None) \<and> proc_inv L c'"
proof -
  have "cstate c = Processing" using assms(1) by (simp add: proc_inv_def)
  with assms(2,3) have "ev_in e = None" "ev_out e = None" by (auto simp: interest_def simp del: not_None_eq)
  with assms(1) \<open>cstate c = Processing\<close> show ?thesis
    by (simp add: handle_event_in eof_part_def or_job_def Let_def)
qed

section \<open>The whole server\<close>

definition pending :: "fserver \<Rightarrow> nat \<Rightarrow> string multiset" where
  "pending s i = image_mset snd (filter_mset (\<lambda>p. fst p = i) (mset (jobs s) + mset (held s)))"

definition finished :: "(nat \<times> string) list \<Rightarrow> nat \<Rightarrow> string multiset" where
  "finished D i = image_mset snd (filter_mset (\<lambda>p. fst p = i) (mset D))"

text \<open>One connection with its jobs and completions: a job is outstanding exactly while processing.\<close>

definition conn_ok :: "connection \<Rightarrow> string multiset \<Rightarrow> string multiset \<Rightarrow> bool" where
  "conn_ok c pj pd \<longleftrightarrow> (\<exists>L.
     (idle_inv L c \<or> write_inv L c) \<and> pj = {#} \<and> pd = {#} \<or>
     proc_inv L c \<and> (pj = {#strip_cr (last L)#} \<and> pd = {#} \<or> pj = {#} \<and> pd = {#answer (last L)#}) \<or>
     closed_inv L c)"

definition server_inv :: "(nat \<times> string) list \<Rightarrow> fserver \<Rightarrow> bool" where
  "server_inv D s \<longleftrightarrow>
     (\<forall>i c. conns s i = Some c \<longrightarrow> conn_ok c (pending s i) (finished D i) \<and>
        (i \<in> clients s \<longleftrightarrow> cstate c \<noteq> Closed) \<and> (i \<in> clients s \<longrightarrow> armed s i = interest c)) \<and>
     (\<forall>i. conns s i = None \<longrightarrow> i \<notin> clients s \<and> pending s i = {#} \<and> finished D i = {#})"

lemma server_inv_conn:
  assumes "server_inv D s" "conns s i = Some c"
  shows "conn_ok c (pending s i) (finished D i)" "i \<in> clients s \<longleftrightarrow> cstate c \<noteq> Closed"
    "i \<in> clients s \<Longrightarrow> armed s i = interest c"
  using assms unfolding server_inv_def by blast+

lemma server_inv_none:
  assumes "server_inv D s" "conns s i = None"
  shows "i \<notin> clients s" "pending s i = {#}" "finished D i = {#}"
  using assms unfolding server_inv_def by blast+

text \<open>A change that concerns one connection only.\<close>

lemma server_inv_update:
  assumes inv: "server_inv D s" and c: "conns s' = (conns s)(i \<mapsto> c)"
    and others: "\<And>j. j \<noteq> i \<Longrightarrow> pending s' j = pending s j \<and> finished D' j = finished D j \<and>
      (j \<in> clients s' \<longleftrightarrow> j \<in> clients s) \<and> armed s' j = armed s j"
    and here: "conn_ok c (pending s' i) (finished D' i)" "i \<in> clients s' \<longleftrightarrow> cstate c \<noteq> Closed"
      "i \<in> clients s' \<Longrightarrow> armed s' i = interest c"
  shows "server_inv D' s'"
  unfolding server_inv_def
proof (intro conjI allI impI)
  fix j d
  assume j: "conns s' j = Some d"
  show "conn_ok d (pending s' j) (finished D' j)" "(j \<in> clients s') = (cstate d \<noteq> Closed)"
    "j \<in> clients s' \<Longrightarrow> armed s' j = interest d"
    using j c here others [of j] server_inv_conn [OF inv, of j d] by (cases "j = i"; simp)+
next
  fix j
  assume "conns s' j = None"
  then have "j \<noteq> i" "conns s j = None" using c by (auto split: if_splits)
  with others [of j] server_inv_none [OF inv, of j]
  show "j \<notin> clients s'" "pending s' j = {#}" "finished D' j = {#}" by auto
qed


lemma pending_simps [simp]:
  "pending (s\<lparr>conns := x\<rparr>) i = pending s i" "pending (s\<lparr>clients := y\<rparr>) i = pending s i"
  "pending (s\<lparr>armed := z\<rparr>) i = pending s i" "pending (s\<lparr>completions := d\<rparr>) i = pending s i"
  "pending (s\<lparr>jobs := jobs s @ [(i', l)]\<rparr>) i = (if i' = i then {#l#} else {#}) + pending s i"
  by (simp_all add: pending_def)

lemma finished_simps [simp]:
  "finished [] i = {#}" "finished (x # D) i = (if fst x = i then {#snd x#} else {#}) + finished D i"
  "finished (D @ [x]) i = (if fst x = i then {#snd x#} else {#}) + finished D i"
  by (simp_all add: finished_def)

lemma conn_ok_cases:
  assumes "conn_ok c pj pd" "cstate c \<noteq> Closed"
  obtains (free) L where "idle_inv L c \<or> write_inv L c" "pj = {#}" "pd = {#}"
  | (queued) L where "proc_inv L c" "pj = {#strip_cr (last L)#}" "pd = {#}"
  | (ready) L where "proc_inv L c" "pj = {#}" "pd = {#answer (last L)#}"
  using assms by (auto simp: conn_ok_def closed_inv_def)

lemma complete_inv:
  assumes "server_inv ((i, r) # D) s"
  shows "server_inv D (complete (i, r) s)"
proof (cases "conns s i")
  case None
  from server_inv_none(3) [OF assms None] show ?thesis by simp
next
  case (Some c)
  note c = server_inv_conn [OF assms Some]
  show ?thesis
  proof (cases "cstate c = Closed")
    case True
    then have "conn_ok c (pending s i) (finished D i)"
      using c(1) by (auto simp: conn_ok_def conn_defs)
    moreover have "complete (i, r) s = s" using True Some by simp
    moreover have "conns s = (conns s)(i \<mapsto> c)" using Some by auto
    ultimately show ?thesis using c(2) True
      by (intro server_inv_update [OF assms, of _ i c]) simp_all
  next
    case False
    let ?c = "c\<lparr>outbuf := r, nsent := 0, cstate := Writing\<rparr>"
    from c(1) False obtain L where L: "proc_inv L c" "pending s i = {#}" "r = answer (last L)" "finished D i = {#}"
      by (cases rule: conn_ok_cases) auto
    then have "conn_ok ?c (pending s i) (finished D i)" by (auto simp: conn_ok_def conn_defs)
    moreover have "complete (i, r) s = s\<lparr>conns := (conns s)(i \<mapsto> ?c), armed := (armed s)(i := interest ?c)\<rparr>"
      using Some False c(2) by (simp add: Let_def)
    ultimately show ?thesis using c(2) False
      by (intro server_inv_update [OF assms, of _ i ?c]) simp_all
  qed
qed

lemma complete_all_inv: "server_inv D s \<Longrightarrow> server_inv [] (fold complete D s)"
proof (induction D arbitrary: s)
  case (Cons x D)
  obtain i r where "x = (i, r)" by (cases x)
  with Cons complete_inv [of i r D s] show ?case by simp
qed simp

lemma server_inv_completions [simp]: "server_inv D (s\<lparr>completions := d\<rparr>) = server_inv D s"
  by (simp add: server_inv_def)

lemma complete_completions: "completions (complete x s) = completions s"
  by (cases x) (auto simp: Let_def split: option.split)

lemma notify_inv: "server_inv (completions s) s \<Longrightarrow> server_inv (completions (on_notify s)) (on_notify s)"
proof -
  assume "server_inv (completions s) s"
  then have "server_inv [] (on_notify s)" by (simp add: on_notify_def complete_all_inv)
  moreover have "completions (fold complete D s') = completions s'" for D s'
    by (induction D arbitrary: s') (simp_all add: complete_completions)
  then have "completions (on_notify s) = []" by (simp add: on_notify_def)
  ultimately show ?thesis by simp
qed

lemma accept_inv:
  assumes "server_inv D s" "conns s i = None"
  shows "server_inv D (on_accept i s)"
proof -
  have "conn_ok new_connection {#} {#}"
    unfolding conn_ok_def by (rule exI [of _ "[]"]) (simp add: conn_defs new_connection_def answers_def)
  with server_inv_none [OF assms] show ?thesis
    by (intro server_inv_update [OF assms(1), of _ i new_connection])
      (auto simp: on_accept_def new_connection_def)
qed

lemma event_inv:
  assumes inv: "server_inv D s" and armed: "ev_in e \<noteq> None \<longrightarrow> fst (armed s i)" "ev_out e \<noteq> None \<longrightarrow> snd (armed s i)"
  shows "server_inv D (on_event i e s)"
proof (cases "i \<in> clients s")
  case True
  then obtain c where Some: "conns s i = Some c" using server_inv_none(1) [OF inv, of i] by (cases "conns s i") auto
  note c = server_inv_conn [OF inv Some]
  have int: "ev_in e \<noteq> None \<longrightarrow> fst (interest c)" "ev_out e \<noteq> None \<longrightarrow> snd (interest c)"
    using armed c(3) True by simp_all
  obtain alive c' job where h: "handle_event e c = (alive, c', job)" by (rule prod_cases3)
  let ?s = "on_event i e s"
  have s': "conns ?s = (conns s)(i \<mapsto> c')" "\<And>j. j \<noteq> i \<Longrightarrow> pending ?s j = pending s j"
    "\<And>j. j \<noteq> i \<Longrightarrow> (j \<in> clients ?s \<longleftrightarrow> j \<in> clients s) \<and> armed ?s j = armed s j"
    "i \<in> clients ?s \<longleftrightarrow> alive" "alive \<Longrightarrow> armed ?s i = interest c'"
    "pending ?s i = (case job of None \<Rightarrow> {#} | Some l \<Rightarrow> {#l#}) + pending s i"
    using True Some h by (auto simp: on_event_def Let_def pending_def split: option.split)
  have "conn_ok c' (pending ?s i) (finished D i) \<and> (alive \<longleftrightarrow> cstate c' \<noteq> Closed)"
    using c(1) c(2) [THEN iffD1, OF True]
  proof (cases rule: conn_ok_cases)
    case (free L)
    from handle_event_settled [OF free(1) int] have "settled (alive, c', job)" unfolding h .
    then show ?thesis using free(2,3) s'(6)
      by (auto simp: settled_def conn_ok_def conn_defs)
  next
    case (queued L)
    from handle_event_processing [OF queued(1) int] h have "alive" "job = None" "proc_inv L c'" by auto
    then show ?thesis using queued(2,3) s'(6) by (auto simp: conn_ok_def conn_defs)
  next
    case (ready L)
    from handle_event_processing [OF ready(1) int] h have "alive" "job = None" "proc_inv L c'" by auto
    then show ?thesis using ready(2,3) s'(6) by (auto simp: conn_ok_def conn_defs)
  qed
  then show ?thesis using s'
    by (intro server_inv_update [OF inv s'(1)]) simp_all
qed (use inv in \<open>simp add: on_event_def\<close>)


lemma take_inv:
  assumes "server_inv D s" "jobs s = job # rest"
  shows "server_inv D (s\<lparr>jobs := rest, held := job # held s\<rparr>)"
proof -
  have "pending (s\<lparr>jobs := rest, held := job # held s\<rparr>) i = pending s i" for i
    using assms(2) by (simp add: pending_def)
  with assms(1) show ?thesis by (simp add: server_inv_def)
qed

lemma finish_inv:
  assumes inv: "server_inv D s" and held: "held s = pre @ (i, line) # post"
  shows "server_inv (D @ [(i, respond line)]) (s\<lparr>held := pre @ post, completions := d\<rparr>)" (is "server_inv ?D ?s")
proof -
  have pend: "pending s j = (if j = i then {#line#} else {#}) + pending ?s j" for j
    using held by (simp add: pending_def)
  then have "pending s i \<noteq> {#}" by simp
  then obtain c where Some: "conns s i = Some c" using server_inv_none(2) [OF inv] by (cases "conns s i") auto
  note c = server_inv_conn [OF inv Some]
  have "conn_ok c (pending ?s i) (finished ?D i)"
  proof (cases "cstate c = Closed")
    case True
    with c(1) show ?thesis by (auto simp: conn_ok_def conn_defs)
  next
    case False
    from c(1) False obtain L where "proc_inv L c" "line = strip_cr (last L)" "pending ?s i = {#}" "finished D i = {#}"
      using pend [of i] by (cases rule: conn_ok_cases) (auto simp: add_mset_eq_single)
    then show ?thesis by (auto simp: conn_ok_def answer_def)
  qed
  moreover have "conns s = (conns s)(i \<mapsto> c)" using Some by auto
  ultimately show ?thesis using c(2,3) pend
    by (intro server_inv_update [OF inv, of _ i c]) simp_all
qed

lemma freach_inv: "freach s \<Longrightarrow> server_inv (completions s) s"
proof (induction rule: freach.induct)
  case init
  show ?case by (simp add: server_inv_def init_server_def pending_def)
next
  case (step s s')
  from step.hyps(2) show ?case
  proof (cases rule: fstep.cases)
    case (accept i)
    with accept_inv [OF step.IH] show ?thesis by (simp add: on_accept_def)
  next
    case (event e i)
    have "completions (on_event i e s) = completions s"
      by (auto simp: on_event_def Let_def split: option.split prod.split)
    with event event_inv [OF step.IH] show ?thesis by simp
  next
    case notify
    with notify_inv [OF step.IH] show ?thesis by simp
  next
    case (take job rest)
    with take_inv [OF step.IH] show ?thesis by simp
  next
    case (finish pre i line post)
    with finish_inv [OF step.IH] show ?thesis by simp
  qed
qed

text \<open>C19: Whatever the interleaving of clients, event loop and workers: the bytes received on a connection are the
  lines taken so far followed by the buffer; the bytes sent are a prefix of the answers to these lines, in
  order, each answered once, and all of them whenever the connection is waiting for input; exactly one job or
  completion of an open connection exists while it is processing and none otherwise; and every open connection
  is registered for what its state needs, so no wake-up is lost.\<close>

theorem line_server_correct:
  assumes "freach s" "conns s i = Some c"
  shows "\<exists>L. rx c = concat (map (\<lambda>l. l @ [newline]) L) @ input c \<and> (\<forall>l \<in> set L. newline \<notin> set l) \<and>
    prefix (tx c) (answers L) \<and> (cstate c = Reading \<longrightarrow> tx c = answers L) \<and>
    (cstate c \<noteq> Closed \<longrightarrow> i \<in> clients s \<and> armed s i = interest c \<and>
      size (pending s i) + size (finished (completions s) i) = (if cstate c = Processing then 1 else 0))"
proof -
  note c = server_inv_conn [OF freach_inv [OF assms(1)] assms(2)]
  show ?thesis
  proof (cases "cstate c = Closed")
    case True
    with c(1) obtain L where "closed_inv L c" by (auto simp: conn_ok_def conn_defs)
    then show ?thesis by (auto simp: conn_defs)
  next
    case False
    have reg: "i \<in> clients s \<and> armed s i = interest c" using c(2,3) False by simp
    from c(1) False show ?thesis
    proof (cases rule: conn_ok_cases)
      case (free L)
      with reg show ?thesis by (intro exI [of _ L]) (auto simp: conn_defs answers_last take_is_prefix)
    next
      case (queued L)
      with reg show ?thesis by (intro exI [of _ L]) (auto simp: conn_defs answers_last)
    next
      case (ready L)
      with reg show ?thesis by (intro exI [of _ L]) (auto simp: conn_defs answers_last)
    qed
  qed
qed

theorem line_server_correct_witness:
  "\<exists>s c. freach s \<and> conns s 0 = Some c \<and> cstate c = Processing \<and>
     (\<exists>L. rx c = concat (map (\<lambda>l. l @ [newline]) L) @ input c \<and> prefix (tx c) (answers L))"
proof -
  let ?s1 = "on_accept 0 init_server"
  let ?e = "\<lparr>ev_in = Some (''hi'' @ [newline], Again), ev_out = None, ev_hup = False\<rparr>"
  let ?s2 = "on_event 0 ?e ?s1"
  have "freach ?s1" by (rule freach.step [OF freach.init fstep.accept]) (simp add: init_server_def)
  then have r: "freach ?s2"
    by (rule freach.step [OF _ fstep.event]) (simp_all add: on_accept_def new_connection_def interest_def)
  have "\<exists>c. conns ?s2 0 = Some c \<and> cstate c = Processing"
    by (simp add: on_event_def on_accept_def handle_event_def on_readable_def dispatch_line_def new_connection_def
        or_job_def newline_def getline_def max_line_def Let_def)
  then obtain c where c: "conns ?s2 0 = Some c" "cstate c = Processing" by blast
  from line_server_correct [OF r c(1)] r c show ?thesis by blast
qed

end
