(* ===== verification/Node_Heap.thy ===== *)
theory Node_Heap
  imports Prelude
begin

text \<open>
  A heap of nodes of one type, for the containers that link their nodes by pointers.  \<open>None\<close> is the
  null pointer; loading, storing or deleting through a pointer that is null or no longer allocated is
  undefined behaviour, the result \<open>None\<close> of the operation.  Addresses are never reused.
\<close>

type_synonym ptr = "nat option"

record 'n mem =
  cells :: "nat \<rightharpoonup> 'n"
  brk :: nat

definition mem_empty :: "'n mem" where
  "mem_empty = \<lparr>cells = Map.empty, brk = 0\<rparr>"

definition load :: "'n mem \<Rightarrow> ptr \<Rightarrow> 'n option" where
  "load h p = (case p of None \<Rightarrow> None | Some a \<Rightarrow> cells h a)"

definition upd :: "ptr \<Rightarrow> ('n \<Rightarrow> 'n) \<Rightarrow> 'n mem \<Rightarrow> 'n mem option" where
  "upd p f h = (case p of
     None \<Rightarrow> None
   | Some a \<Rightarrow> (case cells h a of None \<Rightarrow> None | Some n \<Rightarrow> Some (h\<lparr>cells := (cells h)(a \<mapsto> f n)\<rparr>)))"

definition alloc :: "'n \<Rightarrow> 'n mem \<Rightarrow> ptr \<times> 'n mem" where
  "alloc n h = (Some (brk h), h\<lparr>cells := (cells h)(brk h \<mapsto> n), brk := brk h + 1\<rparr>)"

definition dealloc :: "ptr \<Rightarrow> 'n mem \<Rightarrow> 'n mem option" where
  "dealloc p h = (case p of
     None \<Rightarrow> Some h
   | Some a \<Rightarrow> if a \<in> dom (cells h) then Some (h\<lparr>cells := (cells h)(a := None)\<rparr>) else None)"

definition mem_ok :: "'n mem \<Rightarrow> bool" where
  "mem_ok h \<longleftrightarrow> (\<forall>a \<in> dom (cells h). a < brk h)"

named_theorems heap_simps

lemma load_simps [heap_simps]: "load h None = None" "load h (Some a) = cells h a"
  by (simp_all add: load_def)

lemma upd_simps [heap_simps]:
  "cells h a = Some n \<Longrightarrow> upd (Some a) f h = Some (h\<lparr>cells := (cells h)(a \<mapsto> f n)\<rparr>)"
  by (simp add: upd_def)

lemma alloc_simps [heap_simps]:
  "alloc n h = (Some (brk h), h\<lparr>cells := (cells h)(brk h \<mapsto> n), brk := brk h + 1\<rparr>)"
  by (simp add: alloc_def)

lemma dealloc_simps [heap_simps]:
  "cells h a = Some n \<Longrightarrow> dealloc (Some a) h = Some (h\<lparr>cells := (cells h)(a := None)\<rparr>)"
  by (auto simp: dealloc_def)

lemma mem_ok_fresh: "mem_ok h \<Longrightarrow> cells h (brk h) = None"
  by (auto simp: mem_ok_def)

lemma mem_ok_upd: "mem_ok h \<Longrightarrow> cells h a = Some n \<Longrightarrow> mem_ok (h\<lparr>cells := (cells h)(a \<mapsto> m)\<rparr>)"
  by (auto simp: mem_ok_def)

text \<open>An undefined operation, as an outcome of the program.\<close>

definition ub :: "'a option \<Rightarrow> 'a outcome" where
  "ub r = (case r of None \<Rightarrow> Inl UB | Some x \<Rightarrow> Inr x)"

lemma ub_Some [simp]: "ub (Some x) = Inr x" "ub None = Inl UB"
  by (simp_all add: ub_def)

end
