(* ===== verification/Linked_List.thy ===== *)
theory Linked_List
  imports Node_Heap Interfaces
begin

text \<open>
  The doubly linked list of src/cplusplus/basement/base\_code/src/base\_stl/list\_demo.h: two sentinel
  nodes, nodes linked both ways on a heap, iterators as node pointers.
\<close>

section \<open>Nodes and lists\<close>

record 'a lnode =
  l_data :: 'a
  l_next :: ptr
  l_prev :: ptr

record 'a dlist =
  d_mem :: "'a lnode mem"
  d_head :: ptr
  d_tail :: ptr

definition new_lnode :: "'a \<Rightarrow> 'a lnode" where
  "new_lnode x = \<lparr>l_data = x, l_next = None, l_prev = None\<rparr>"

text \<open>The constructor; \<open>dflt\<close> is the default value of the element type, held by the sentinels.\<close>

definition list_new :: "'a \<Rightarrow> 'a lnode mem \<Rightarrow> 'a dlist option" where
  "list_new dflt h =
     (let (hd, h) = alloc (new_lnode dflt) h; (tl, h) = alloc (new_lnode dflt) h in
      do { h \<leftarrow> upd hd (l_next_update (\<lambda>_. tl)) h;
           h \<leftarrow> upd tl (l_prev_update (\<lambda>_. hd)) h;
           Some \<lparr>d_mem = h, d_head = hd, d_tail = tl\<rparr> })"

section \<open>Iterators\<close>

definition it_deref :: "'a dlist \<Rightarrow> ptr \<Rightarrow> 'a option" where
  "it_deref l it = map_option l_data (load (d_mem l) it)"

definition it_next :: "'a dlist \<Rightarrow> ptr \<Rightarrow> ptr option" where
  "it_next l it = (if it = None then Some None else map_option l_next (load (d_mem l) it))"

definition it_prev :: "'a dlist \<Rightarrow> ptr \<Rightarrow> ptr option" where
  "it_prev l it = (if it = None then Some None else map_option l_prev (load (d_mem l) it))"

definition list_begin :: "'a dlist \<Rightarrow> ptr option" where
  "list_begin l = map_option l_next (load (d_mem l) (d_head l))"

definition list_end :: "'a dlist \<Rightarrow> ptr" where
  "list_end l = d_tail l"

section \<open>Operations\<close>

definition list_insert :: "ptr \<Rightarrow> 'a \<Rightarrow> 'a dlist \<Rightarrow> (ptr \<times> 'a dlist) option" where
  "list_insert pos x l =
     (let (new_n, h) = alloc (new_lnode x) (d_mem l) in
      do { h \<leftarrow> upd new_n (l_next_update (\<lambda>_. pos)) h;
           p \<leftarrow> load h pos;
           h \<leftarrow> upd new_n (l_prev_update (\<lambda>_. l_prev p)) h;
           p \<leftarrow> load h pos;
           h \<leftarrow> upd (l_prev p) (l_next_update (\<lambda>_. new_n)) h;
           h \<leftarrow> upd pos (l_prev_update (\<lambda>_. new_n)) h;
           Some (new_n, l\<lparr>d_mem := h\<rparr>) })"

definition list_erase :: "ptr \<Rightarrow> 'a dlist \<Rightarrow> (ptr \<times> 'a dlist) option" where
  "list_erase pos l =
     (if pos = d_head l \<or> pos = d_tail l then Some (d_tail l, l)
      else do {
        n \<leftarrow> load (d_mem l) pos;
        h \<leftarrow> upd (l_prev n) (l_next_update (\<lambda>_. l_next n)) (d_mem l);
        n \<leftarrow> load h pos;
        h \<leftarrow> upd (l_next n) (l_prev_update (\<lambda>_. l_prev n)) h;
        n \<leftarrow> load h pos;
        h \<leftarrow> dealloc pos h;
        Some (l_next n, l\<lparr>d_mem := h\<rparr>) })"

definition list_push_front :: "'a \<Rightarrow> 'a dlist \<Rightarrow> 'a dlist option" where
  "list_push_front x l = do { b \<leftarrow> list_begin l; (it, l) \<leftarrow> list_insert b x l; Some l }"

definition list_push_back :: "'a \<Rightarrow> 'a dlist \<Rightarrow> 'a dlist option" where
  "list_push_back x l = do { (it, l) \<leftarrow> list_insert (list_end l) x l; Some l }"

definition list_empty :: "'a dlist \<Rightarrow> bool option" where
  "list_empty l = do { n \<leftarrow> load (d_mem l) (d_head l); Some (l_next n = d_tail l) }"

definition list_pop_front :: "'a dlist \<Rightarrow> 'a dlist option" where
  "list_pop_front l = do { e \<leftarrow> list_empty l;
     if e then Some l else do { b \<leftarrow> list_begin l; (it, l) \<leftarrow> list_erase b l; Some l } }"

definition list_pop_back :: "'a dlist \<Rightarrow> 'a dlist option" where
  "list_pop_back l = do { e \<leftarrow> list_empty l;
     if e then Some l
     else do { t \<leftarrow> load (d_mem l) (d_tail l); (it, l) \<leftarrow> list_erase (l_prev t) l; Some l } }"

definition list_front :: "'a dlist \<Rightarrow> 'a option" where
  "list_front l = do { n \<leftarrow> load (d_mem l) (d_head l); it_deref l (l_next n) }"

definition list_back :: "'a dlist \<Rightarrow> 'a option" where
  "list_back l = do { n \<leftarrow> load (d_mem l) (d_tail l); it_deref l (l_prev n) }"

text \<open>The loops.  \<open>size\<close> steps an iterator, \<open>print\<close> follows the pointers.\<close>

partial_function (option) count_from :: "'a dlist \<Rightarrow> ptr \<Rightarrow> nat \<Rightarrow> nat option" where
  "count_from l it count =
     (if it = list_end l then Some count
      else Option.bind (it_next l it) (\<lambda>it. count_from l it (count + 1)))"

definition list_size :: "'a dlist \<Rightarrow> nat option" where
  "list_size l = do { b \<leftarrow> list_begin l; count_from l b 0 }"

partial_function (option) print_from :: "'a dlist \<Rightarrow> ptr \<Rightarrow> 'a list \<Rightarrow> 'a list option" where
  "print_from l current out =
     (if current = d_tail l then Some out
      else Option.bind (load (d_mem l) current) (\<lambda>n. print_from l (l_next n) (out @ [l_data n])))"

definition list_print :: "'a dlist \<Rightarrow> 'a list option" where
  "list_print l = do { n \<leftarrow> load (d_mem l) (d_head l); print_from l (l_next n) [] }"

partial_function (option) clear_from :: "ptr \<Rightarrow> ptr \<Rightarrow> 'a lnode mem \<Rightarrow> 'a lnode mem option" where
  "clear_from tail current h =
     (if current = tail then Some h
      else Option.bind (load h current) (\<lambda>n.
           Option.bind (dealloc current h) (clear_from tail (l_next n))))"

definition list_clear :: "'a dlist \<Rightarrow> 'a dlist option" where
  "list_clear l = do {
     n \<leftarrow> load (d_mem l) (d_head l);
     h \<leftarrow> clear_from (d_tail l) (l_next n) (d_mem l);
     h \<leftarrow> upd (d_head l) (l_next_update (\<lambda>_. d_tail l)) h;
     h \<leftarrow> upd (d_tail l) (l_prev_update (\<lambda>_. d_head l)) h;
     Some (l\<lparr>d_mem := h\<rparr>) }"

definition list_destroy :: "'a dlist \<Rightarrow> 'a lnode mem option" where
  "list_destroy l = do { l \<leftarrow> list_clear l; h \<leftarrow> dealloc (d_head l) (d_mem l); dealloc (d_tail l) h }"

text \<open>\<open>remove\<close> takes its argument by reference: an object of the caller, or an element of the list.\<close>

datatype 'a vref = Outside 'a | Element ptr

definition ref_value :: "'a dlist \<Rightarrow> 'a vref \<Rightarrow> 'a option" where
  "ref_value l r = (case r of Outside x \<Rightarrow> Some x | Element p \<Rightarrow> it_deref l p)"

partial_function (option) remove_from :: "'a vref \<Rightarrow> ptr \<Rightarrow> 'a dlist \<Rightarrow> 'a dlist option" where
  "remove_from r it l =
     (if it = list_end l then Some l
      else Option.bind (it_deref l it) (\<lambda>x. Option.bind (ref_value l r) (\<lambda>value.
        if x = value
        then Option.bind (list_erase it l) (\<lambda>(it, l). remove_from r it l)
        else Option.bind (it_next l it) (\<lambda>it. remove_from r it l))))"

definition list_remove :: "'a vref \<Rightarrow> 'a dlist \<Rightarrow> 'a dlist option" where
  "list_remove r l = do { b \<leftarrow> list_begin l; remove_from r b l }"

section \<open>Chains of links\<close>

fun chain :: "(nat \<Rightarrow> ptr) \<Rightarrow> nat \<Rightarrow> nat list \<Rightarrow> nat \<Rightarrow> bool" where
  "chain f a [] z \<longleftrightarrow> f a = Some z"
| "chain f a (x # xs) z \<longleftrightarrow> f a = Some x \<and> chain f x xs z"

lemma chain_cong: "\<forall>b \<in> insert a (set xs). f b = g b \<Longrightarrow> chain f a xs z = chain g a xs z"
  by (induction xs arbitrary: a) auto

lemma chain_mono: "chain f a xs z \<Longrightarrow> \<forall>b \<in> insert a (set xs). g b = f b \<Longrightarrow> chain g a xs z"
  using chain_cong by blast

lemma chain_link: "chain f a (us @ vs) z \<Longrightarrow> f (last (a # us)) = Some (hd (vs @ [z]))"
  by (induction us arbitrary: a) (cases vs; auto)+

lemma chain_insert:
  "chain f a (us @ vs) z \<Longrightarrow> distinct (n # a # us @ vs) \<Longrightarrow>
   chain (f(last (a # us) := Some n, n := Some (hd (vs @ [z])))) a (us @ n # vs) z"
proof (induction us arbitrary: a)
  case Nil
  then show ?case
    by (cases vs) (auto elim!: chain_mono)
next
  case (Cons u us)
  let ?f = "f(last (u # us) := Some n, n := Some (hd (vs @ [z])))"
  have "chain ?f u (us @ n # vs) z" by (rule Cons.IH) (use Cons.prems in auto)
  moreover have "a \<noteq> last (u # us)" "a \<noteq> n" using Cons.prems(2) by (auto dest: last_in_set split: if_splits)
  ultimately show ?case using Cons.prems(1) by (simp del: last.simps fun_upd_apply add: fun_upd_other last_ConsR [of "u # us" a])
qed

lemma chain_delete:
  "chain f a (us @ x # vs) z \<Longrightarrow> distinct (a # us @ x # vs) \<Longrightarrow>
   chain (f(last (a # us) := f x, x := w)) a (us @ vs) z"
proof (induction us arbitrary: a)
  case Nil
  then show ?case
    by (cases vs) (auto elim!: chain_mono)
next
  case (Cons u us)
  let ?f = "f(last (u # us) := f x, x := w)"
  have "chain ?f u (us @ vs) z" by (rule Cons.IH) (use Cons.prems in auto)
  moreover have "a \<noteq> last (u # us)" "a \<noteq> x" using Cons.prems(2) by (auto dest: last_in_set split: if_splits)
  ultimately show ?case using Cons.prems(1) by (simp del: last.simps fun_upd_apply add: fun_upd_other last_ConsR [of "u # us" a])
qed

section \<open>The invariant\<close>

definition nxt :: "'a lnode mem \<Rightarrow> nat \<Rightarrow> ptr" where
  "nxt h a = Option.bind (cells h a) l_next"

definition prv :: "'a lnode mem \<Rightarrow> nat \<Rightarrow> ptr" where
  "prv h a = Option.bind (cells h a) l_prev"

definition dat :: "'a lnode mem \<Rightarrow> nat \<Rightarrow> 'a" where
  "dat h a = l_data (the (cells h a))"

lemma links_upd [simp]:
  "nxt (h\<lparr>cells := (cells h)(a \<mapsto> n)\<rparr>) = (nxt h)(a := l_next n)"
  "prv (h\<lparr>cells := (cells h)(a \<mapsto> n)\<rparr>) = (prv h)(a := l_prev n)"
  "dat (h\<lparr>cells := (cells h)(a \<mapsto> n)\<rparr>) = (dat h)(a := l_data n)"
  "nxt (h\<lparr>cells := (cells h)(a := None)\<rparr>) = (nxt h)(a := None)"
  "prv (h\<lparr>cells := (cells h)(a := None)\<rparr>) = (prv h)(a := None)"
  "nxt (h\<lparr>brk := b\<rparr>) = nxt h" "prv (h\<lparr>brk := b\<rparr>) = prv h" "dat (h\<lparr>brk := b\<rparr>) = dat h"
  by (auto simp: nxt_def prv_def dat_def)

text \<open>The nodes of \<open>l\<close> between the sentinels are \<open>xs\<close>, and the list owns its heap.\<close>

definition rep :: "nat \<Rightarrow> nat \<Rightarrow> nat list \<Rightarrow> 'a dlist \<Rightarrow> bool" where
  "rep h t xs l \<longleftrightarrow> d_head l = Some h \<and> d_tail l = Some t \<and> distinct (h # t # xs) \<and>
     dom (cells (d_mem l)) = set (h # t # xs) \<and> mem_ok (d_mem l) \<and>
     chain (nxt (d_mem l)) h xs t \<and> chain (prv (d_mem l)) t (rev xs) h"

lemma repD:
  assumes "rep h t xs l"
  shows "d_head l = Some h" "d_tail l = Some t" "distinct (h # t # xs)"
    "dom (cells (d_mem l)) = set (h # t # xs)" "mem_ok (d_mem l)"
    "chain (nxt (d_mem l)) h xs t" "chain (prv (d_mem l)) t (rev xs) h"
  using assms unfolding rep_def by blast+

lemma rep_node:
  assumes "rep h t xs l" "a \<in> set (h # t # xs)"
  obtains n where "cells (d_mem l) a = Some n" "nxt (d_mem l) a = l_next n" "prv (d_mem l) a = l_prev n"
    "dat (d_mem l) a = l_data n"
proof -
  have "a \<in> dom (cells (d_mem l))" using repD(4) [OF assms(1)] assms(2) by simp
  then obtain n where "cells (d_mem l) a = Some n" by blast
  then show thesis using that by (simp add: nxt_def prv_def dat_def)
qed

lemma rep_links:
  assumes "rep h t (us @ vs) l"
  shows "nxt (d_mem l) (last (h # us)) = Some (hd (vs @ [t]))"
    "prv (d_mem l) (hd (vs @ [t])) = Some (last (h # us))"
proof -
  show "nxt (d_mem l) (last (h # us)) = Some (hd (vs @ [t]))"
    using chain_link [OF repD(6) [OF assms]] .
  have "chain (prv (d_mem l)) t (rev vs @ rev us) h" using repD(7) [OF assms] by simp
  from chain_link [OF this] show "prv (d_mem l) (hd (vs @ [t])) = Some (last (h # us))"
    by (cases vs; cases us rule: rev_cases) simp_all
qed

lemma rep_around:
  assumes r: "rep h t (us @ vs) l"
  obtains p q np nq where "p = last (h # us)" "q = hd (vs @ [t])" "p \<in> set (h # us)" "q \<in> set (t # vs)" "p \<noteq> q"
    "cells (d_mem l) p = Some np" "cells (d_mem l) q = Some nq" "l_next np = Some q" "l_prev nq = Some p"
proof -
  let ?p = "last (h # us)" and ?q = "hd (vs @ [t])"
  have p: "?p \<in> set (h # us)" by (rule last_in_set) simp
  have q: "?q \<in> set (t # vs)" by (cases vs) simp_all
  have pd: "?p \<in> set (h # t # us @ vs)" and qd: "?q \<in> set (h # t # us @ vs)" using p q by auto
  have "set (h # us) \<inter> set (t # vs) = {}" using repD(3) [OF r] by auto
  then have ne: "?p \<noteq> ?q" using p q disjoint_iff by metis
  from rep_node [OF r pd] obtain np where np: "cells (d_mem l) ?p = Some np" "nxt (d_mem l) ?p = l_next np" by blast
  from rep_node [OF r qd] obtain nq where nq: "cells (d_mem l) ?q = Some nq" "prv (d_mem l) ?q = l_prev nq" by blast
  have "l_next np = Some ?q" "l_prev nq = Some ?p" using rep_links [OF r] unfolding np(2) nq(2) .
  then show thesis by (rule that [OF refl refl p q ne np(1) nq(1)])
qed

section \<open>Insertion and removal of one node\<close>

text \<open>The links between a node before a position and a node after it, in both directions.\<close>

lemma rev_ends:
  "last (t # rev vs) = hd (vs @ [t])" "hd (rev us @ [h]) = last (h # us)"
  by (cases vs; simp) (cases us rule: rev_cases; simp)

lemma insert_ok:
  assumes r: "rep h t (us @ vs) l"
  shows "\<exists>n l'. list_insert (Some (hd (vs @ [t]))) x l = Some (Some n, l') \<and> rep h t (us @ n # vs) l' \<and>
    dat (d_mem l') = (dat (d_mem l))(n := x) \<and> n \<notin> set (h # t # us @ vs)"
proof -
  let ?m = "d_mem l"
  obtain n where nb: "n = brk ?m" by simp
  obtain p q np nq where p: "p = last (h # us)" and q: "q = hd (vs @ [t])" and
    mem: "p \<in> set (h # us)" "q \<in> set (t # vs)" and pq: "p \<noteq> q" and
    c: "cells ?m p = Some np" "cells ?m q = Some nq" "l_next np = Some q" "l_prev nq = Some p"
    by (rule rep_around [OF r])
  have fresh: "cells ?m n = None" using mem_ok_fresh [OF repD(5) [OF r]] nb by simp
  then have n: "n \<notin> set (h # t # us @ vs)" using repD(4) [OF r] by blast
  have ne: "n \<noteq> p" "n \<noteq> q" using fresh c by auto
  let ?m' = "?m\<lparr>cells := (cells ?m)(n \<mapsto> \<lparr>l_data = x, l_next = Some q, l_prev = Some p\<rparr>,
     p \<mapsto> np\<lparr>l_next := Some n\<rparr>, q \<mapsto> nq\<lparr>l_prev := Some n\<rparr>), brk := Suc n\<rparr>"
  have run: "list_insert (Some q) x l = Some (Some n, l\<lparr>d_mem := ?m'\<rparr>)"
    using ne pq c nb by (simp add: list_insert_def new_lnode_def heap_simps)
  have links: "nxt ?m' = (nxt ?m)(p := Some n, n := Some q)" "prv ?m' = (prv ?m)(q := Some n, n := Some p)"
    "dat ?m' = (dat ?m)(n := x)"
    using ne pq c by (auto simp: fun_eq_iff nxt_def prv_def dat_def)
  have dom: "dom (cells ?m') = set (h # t # us @ n # vs)"
    using repD(4) [OF r] mem by auto
  have "mem_ok ?m'" using repD(5) [OF r] c nb by (auto simp: mem_ok_def less_Suc_eq)
  moreover have "chain (nxt ?m') h (us @ n # vs) t"
    unfolding links(1) unfolding p q by (rule chain_insert [OF repD(6) [OF r]]) (use repD(3) [OF r] n in auto)
  moreover have "chain (prv ?m') t (rev vs @ n # rev us) h"
    using chain_insert [of "prv ?m" t "rev vs" "rev us" h n] repD(3,7) [OF r] n
    unfolding links(2) unfolding p q rev_ends by (simp add: Int_commute del: last.simps)
  ultimately have "rep h t (us @ n # vs) (l\<lparr>d_mem := ?m'\<rparr>)"
    using repD(1-3) [OF r] dom n by (simp add: rep_def)
  with run links(3) n q show ?thesis by (intro exI [of _ n] exI [of _ "l\<lparr>d_mem := ?m'\<rparr>"]) simp
qed

lemma erase_ok:
  assumes r: "rep h t (us @ a # vs) l"
  shows "\<exists>l'. list_erase (Some a) l = Some (Some (hd (vs @ [t])), l') \<and> rep h t (us @ vs) l' \<and>
    (\<forall>b \<in> set (us @ vs). dat (d_mem l') b = dat (d_mem l) b)"
proof -
  let ?m = "d_mem l"
  have r': "rep h t ((us @ [a]) @ vs) l" using r by simp
  obtain p np where p: "p = last (h # us)" and pm: "p \<in> set (h # us)" and
    cp: "cells ?m p = Some np" "l_next np = Some a"
    using rep_around [OF r] by (metis append_Cons list.sel(1))
  obtain q nq where q: "q = hd (vs @ [t])" and qm: "q \<in> set (t # vs)" and
    cq: "cells ?m q = Some nq" "l_prev nq = Some a"
    using rep_around [OF r'] by (metis last.simps last_snoc snoc_eq_iff_butlast)
  from rep_node [OF r, of a] obtain na where
    na: "cells ?m a = Some na" "nxt ?m a = l_next na" "prv ?m a = l_prev na" by auto
  have links0: "l_next na = Some q" "l_prev na = Some p"
    using rep_links(1) [OF r'] rep_links(2) [OF r] na unfolding p q by simp_all
  have d: "a \<notin> set (us @ vs)" "a \<noteq> h" "a \<noteq> t" "set (h # us) \<inter> set (t # vs) = {}" using repD(3) [OF r] by auto
  then have ne: "a \<noteq> p" "a \<noteq> q" "p \<noteq> q" using pm qm by auto
  let ?m' = "?m\<lparr>cells := (cells ?m)(p \<mapsto> np\<lparr>l_next := Some q\<rparr>, q \<mapsto> nq\<lparr>l_prev := Some p\<rparr>, a := None)\<rparr>"
  have run: "list_erase (Some a) l = Some (Some q, l\<lparr>d_mem := ?m'\<rparr>)"
    using ne na(1) cp cq links0 d repD(1,2) [OF r] by (simp add: list_erase_def heap_simps)
  have links: "nxt ?m' = (nxt ?m)(p := nxt ?m a, a := None)" "prv ?m' = (prv ?m)(q := prv ?m a, a := None)"
    "\<And>b. b \<noteq> a \<Longrightarrow> dat ?m' b = dat ?m b"
    using ne cp cq na links0 by (auto simp: fun_eq_iff nxt_def prv_def dat_def)
  have dom: "dom (cells ?m') = set (h # t # us @ vs)"
    using repD(4) [OF r] pm qm d ne by auto
  have "mem_ok ?m'" using repD(5) [OF r] cp cq by (auto simp: mem_ok_def)
  moreover have "chain (nxt ?m') h (us @ vs) t"
    unfolding links(1) unfolding p by (rule chain_delete [OF repD(6) [OF r]]) (use repD(3) [OF r] in auto)
  moreover have "chain (prv ?m') t (rev vs @ rev us) h"
    using chain_delete [of "prv ?m" t "rev vs" a "rev us" h None] repD(3,7) [OF r]
    unfolding links(2) unfolding q rev_ends by (simp add: Int_commute del: last.simps)
  ultimately have "rep h t (us @ vs) (l\<lparr>d_mem := ?m'\<rparr>)"
    using repD(1-3) [OF r] dom by (simp add: rep_def)
  moreover have "\<forall>b \<in> set (us @ vs). dat ?m' b = dat ?m b" by (rule ballI, rule links(3)) (use d in auto)
  ultimately show ?thesis using run q by (intro exI [of _ "l\<lparr>d_mem := ?m'\<rparr>"]) simp
qed

section \<open>Walking the list\<close>

lemma rep_step:
  assumes r: "rep h t (us @ v # vs) l"
  shows "\<exists>n. cells (d_mem l) v = Some n \<and> l_next n = Some (hd (vs @ [t])) \<and> l_data n = dat (d_mem l) v"
    "Some v \<noteq> d_tail l" "Some v \<noteq> d_head l"
proof -
  have r': "rep h t ((us @ [v]) @ vs) l" using r by simp
  from rep_node [OF r, of v] obtain n where
    "cells (d_mem l) v = Some n" "nxt (d_mem l) v = l_next n" "dat (d_mem l) v = l_data n" by auto
  then show "\<exists>n. cells (d_mem l) v = Some n \<and> l_next n = Some (hd (vs @ [t])) \<and> l_data n = dat (d_mem l) v"
    using rep_links(1) [OF r'] by simp
  show "Some v \<noteq> d_tail l" "Some v \<noteq> d_head l" using repD(1-3) [OF r] by auto
qed

lemma begin_ok:
  assumes r: "rep h t xs l"
  shows "list_begin l = Some (Some (hd (xs @ [t])))" "list_empty l = Some (xs = [])"
proof -
  have r0: "rep h t ([] @ xs) l" using r by simp
  from rep_node [OF r, of h] obtain n where
    n: "cells (d_mem l) h = Some n" "nxt (d_mem l) h = l_next n" by auto
  then have ln: "l_next n = Some (hd (xs @ [t]))" using rep_links(1) [OF r0] by simp
  then show "list_begin l = Some (Some (hd (xs @ [t])))"
    using n(1) repD(1) [OF r] by (simp add: list_begin_def heap_simps)
  have "hd (xs @ [t]) = t \<longleftrightarrow> xs = []" using repD(3) [OF r] by (cases xs) auto
  then show "list_empty l = Some (xs = [])"
    using n(1) ln repD(1,2) [OF r] by (simp add: list_empty_def heap_simps)
qed

lemma print_from_ok:
  "rep h t (us @ vs) l \<Longrightarrow> print_from l (Some (hd (vs @ [t]))) out = Some (out @ map (dat (d_mem l)) vs)"
proof (induction vs arbitrary: us out)
  case Nil
  then show ?case using repD(2) [OF Nil] by (simp add: print_from.simps)
next
  case (Cons v vs)
  from rep_step [OF Cons.prems] obtain n where n: "cells (d_mem l) v = Some n" "l_next n = Some (hd (vs @ [t]))"
    "l_data n = dat (d_mem l) v" and t: "Some v \<noteq> d_tail l" by blast
  have "rep h t ((us @ [v]) @ vs) l" using Cons.prems by simp
  from Cons.IH [OF this] n t show ?case by (subst print_from.simps) (simp add: heap_simps)
qed

lemma count_from_ok:
  "rep h t (us @ vs) l \<Longrightarrow> count_from l (Some (hd (vs @ [t]))) k = Some (k + length vs)"
proof (induction vs arbitrary: us k)
  case Nil
  then show ?case using repD(2) [OF Nil] by (simp add: count_from.simps list_end_def)
next
  case (Cons v vs)
  from rep_step [OF Cons.prems] obtain n where n: "cells (d_mem l) v = Some n" "l_next n = Some (hd (vs @ [t]))"
    and t: "Some v \<noteq> d_tail l" by blast
  have "rep h t ((us @ [v]) @ vs) l" using Cons.prems by simp
  from Cons.IH [OF this] n t show ?case
    by (subst count_from.simps) (simp add: heap_simps list_end_def it_next_def)
qed

definition contents_of :: "'a dlist \<Rightarrow> 'a list" where
  "contents_of l = (case list_print l of None \<Rightarrow> [] | Some xs \<Rightarrow> xs)"

definition list_inv :: "'a dlist \<Rightarrow> bool" where
  "list_inv l \<longleftrightarrow> (\<exists>h t xs. rep h t xs l)"

lemma rep_inv: "rep h t xs l \<Longrightarrow> list_inv l"
  by (auto simp: list_inv_def)

lemma whole_ok:
  assumes r: "rep h t xs l"
  shows "list_print l = Some (map (dat (d_mem l)) xs)" "list_size l = Some (length xs)"
    "contents_of l = map (dat (d_mem l)) xs"
proof -
  have r0: "rep h t ([] @ xs) l" using r by simp
  from rep_node [OF r, of h] obtain n where "cells (d_mem l) h = Some n" by auto
  moreover from this have "l_next n = Some (hd (xs @ [t]))"
    using begin_ok(1) [OF r] repD(1) [OF r] by (simp add: list_begin_def heap_simps)
  ultimately show p: "list_print l = Some (map (dat (d_mem l)) xs)"
    using print_from_ok [OF r0] repD(1) [OF r] by (simp add: list_print_def heap_simps)
  show "list_size l = Some (length xs)"
    using begin_ok(1) [OF r] count_from_ok [OF r0] by (simp add: list_size_def)
  show "contents_of l = map (dat (d_mem l)) xs" using p by (simp add: contents_of_def)
qed

text \<open>The iterator at position \<open>i\<close>, reached by \<open>i\<close> increments.\<close>

fun it_plus :: "'a dlist \<Rightarrow> nat \<Rightarrow> ptr \<Rightarrow> ptr option" where
  "it_plus l 0 it = Some it"
| "it_plus l (Suc i) it = Option.bind (it_next l it) (it_plus l i)"

lemma it_plus_ok:
  "rep h t (us @ vs) l \<Longrightarrow> i \<le> length vs \<Longrightarrow>
   it_plus l i (Some (hd (vs @ [t]))) = Some (Some (hd (drop i vs @ [t])))"
proof (induction i arbitrary: us vs)
  case 0
  then show ?case by simp
next
  case (Suc i)
  then obtain v vs' where vs: "vs = v # vs'" "i \<le> length vs'" by (cases vs) auto
  from rep_step(1) Suc.prems(1) obtain n where
    n: "cells (d_mem l) v = Some n" "l_next n = Some (hd (vs' @ [t]))" unfolding vs(1) by fast
  have "rep h t ((us @ [v]) @ vs') l" using Suc.prems(1) vs(1) by simp
  from Suc.IH [OF this vs(2)] n vs(1) show ?case by (simp add: it_next_def heap_simps)
qed

section \<open>Operations on the contents\<close>

lemma insert_contents:
  assumes r: "rep h t (us @ vs) l"
  shows "\<exists>n l'. list_insert (Some (hd (vs @ [t]))) x l = Some (Some n, l') \<and> rep h t (us @ n # vs) l' \<and>
    it_deref l' (Some n) = Some x \<and>
    contents_of l' = map (dat (d_mem l)) us @ x # map (dat (d_mem l)) vs"
proof -
  from insert_ok [OF r] obtain n l' where run: "list_insert (Some (hd (vs @ [t]))) x l = Some (Some n, l')"
    and r': "rep h t (us @ n # vs) l'" and d: "dat (d_mem l') = (dat (d_mem l))(n := x)"
    and n: "n \<notin> set (h # t # us @ vs)" by blast
  have "contents_of l' = map (dat (d_mem l)) us @ x # map (dat (d_mem l)) vs"
    using n unfolding whole_ok(3) [OF r'] d by simp
  moreover have "it_deref l' (Some n) = Some x"
    using rep_step(1) [OF r'] d by (auto simp: it_deref_def heap_simps)
  ultimately show ?thesis using run r' by blast
qed

lemma erase_contents:
  assumes r: "rep h t (us @ a # vs) l"
  shows "\<exists>l'. list_erase (Some a) l = Some (Some (hd (vs @ [t])), l') \<and> rep h t (us @ vs) l' \<and>
    map (dat (d_mem l')) us = map (dat (d_mem l)) us \<and> map (dat (d_mem l')) vs = map (dat (d_mem l)) vs"
  using erase_ok [OF r] by fastforce

lemma push_ok:
  assumes r: "rep h t xs l"
  shows "\<exists>l'. list_push_front x l = Some l' \<and> list_inv l' \<and> contents_of l' = x # contents_of l"
    "\<exists>l'. list_push_back x l = Some l' \<and> list_inv l' \<and> contents_of l' = contents_of l @ [x]"
proof -
  have f: "rep h t ([] @ xs) l" and b: "rep h t (xs @ []) l" using r by simp_all
  show "\<exists>l'. list_push_front x l = Some l' \<and> list_inv l' \<and> contents_of l' = x # contents_of l"
    using insert_contents [OF f, of x] begin_ok(1) [OF r] whole_ok(3) [OF r]
    by (auto simp: list_push_front_def dest!: rep_inv)
  show "\<exists>l'. list_push_back x l = Some l' \<and> list_inv l' \<and> contents_of l' = contents_of l @ [x]"
    using insert_contents [OF b, of x] repD(2) [OF r] whole_ok(3) [OF r]
    by (auto simp: list_push_back_def list_end_def dest!: rep_inv)
qed

lemma tail_node:
  assumes r: "rep h t xs l"
  obtains n where "cells (d_mem l) t = Some n" "l_prev n = Some (last (h # xs))" "l_data n = dat (d_mem l) t"
proof -
  have r0: "rep h t (xs @ []) l" using r by simp
  from rep_node [OF r, of t] obtain n where
    "cells (d_mem l) t = Some n" "prv (d_mem l) t = l_prev n" "dat (d_mem l) t = l_data n" by auto
  then show thesis using that rep_links(2) [OF r0] by simp
qed

lemma pop_front_ok:
  assumes r: "rep h t (v # vs) l"
  shows "\<exists>l'. list_pop_front l = Some l' \<and> rep h t vs l' \<and> contents_of l' = map (dat (d_mem l)) vs"
proof -
  have r0: "rep h t ([] @ v # vs) l" using r by simp
  from erase_contents [OF r0] obtain l' where l': "list_erase (Some v) l = Some (Some (hd (vs @ [t])), l')"
    "rep h t vs l'" "map (dat (d_mem l')) vs = map (dat (d_mem l)) vs" by auto
  then show ?thesis using begin_ok [OF r] whole_ok(3) [OF l'(2)] by (simp add: list_pop_front_def)
qed

lemma pop_back_ok:
  assumes r: "rep h t (vs @ [v]) l"
  shows "\<exists>l'. list_pop_back l = Some l' \<and> rep h t vs l' \<and> contents_of l' = map (dat (d_mem l)) vs"
proof -
  from erase_contents [OF r] obtain l' where l': "list_erase (Some v) l = Some (Some t, l')"
    "rep h t vs l'" "map (dat (d_mem l')) vs = map (dat (d_mem l)) vs" by auto
  obtain n where n: "cells (d_mem l) t = Some n" "l_prev n = Some v" using tail_node [OF r] by auto
  then show ?thesis using l' begin_ok [OF r] whole_ok(3) [OF l'(2)] repD(2) [OF r]
    by (simp add: list_pop_back_def heap_simps)
qed

lemma pop_empty:
  assumes r: "rep h t [] l"
  shows "list_pop_front l = Some l" "list_pop_back l = Some l"
  using begin_ok [OF r] by (simp_all add: list_pop_front_def list_pop_back_def)

text \<open>\<open>front\<close> and \<open>back\<close> of an empty list read the sentinels.\<close>

lemma front_back_ok:
  assumes r: "rep h t xs l"
  shows "list_front l = Some (dat (d_mem l) (hd (xs @ [t])))" "list_back l = Some (dat (d_mem l) (last (h # xs)))"
proof -
  have "hd (xs @ [t]) \<in> set (h # t # xs)" by (cases xs) simp_all
  from rep_node [OF r this] obtain n where n: "cells (d_mem l) (hd (xs @ [t])) = Some n"
    "dat (d_mem l) (hd (xs @ [t])) = l_data n" by blast
  show "list_front l = Some (dat (d_mem l) (hd (xs @ [t])))"
    using begin_ok(1) [OF r] n by (auto simp: list_front_def list_begin_def it_deref_def heap_simps)
  have "last (h # xs) \<in> set (h # t # xs)" using last_in_set [of "h # xs"] by (simp split: if_splits)
  from rep_node [OF r this] obtain m where m: "cells (d_mem l) (last (h # xs)) = Some m"
    "dat (d_mem l) (last (h # xs)) = l_data m" by blast
  obtain k where "cells (d_mem l) t = Some k" "l_prev k = Some (last (h # xs))" using tail_node [OF r] by blast
  then show "list_back l = Some (dat (d_mem l) (last (h # xs)))"
    using m repD(2) [OF r] by (simp add: list_back_def it_deref_def heap_simps del: last.simps)
qed

interpretation dl: two_ended contents_of list_inv "\<lambda>_. True" "\<lambda>x l. ub (list_push_front x l)"
  "\<lambda>x l. ub (list_push_back x l)" "\<lambda>l. ub (list_pop_front l)" "\<lambda>l. ub (list_pop_back l)"
  "\<lambda>l. ub (list_front l)" "\<lambda>l. ub (list_back l)"
proof unfold_locales
  fix l :: "'a dlist" and x assume "list_inv l"
  then obtain h t xs where r: "rep h t xs l" by (auto simp: list_inv_def)
  note c = whole_ok(3) [OF r]
  show "\<exists>s'. ub (list_push_front x l) = Inr s' \<and> list_inv s' \<and> contents_of s' = x # contents_of l"
    "\<exists>s'. ub (list_push_back x l) = Inr s' \<and> list_inv s' \<and> contents_of s' = contents_of l @ [x]"
    using push_ok [OF r, of x] by auto
  assume "contents_of l \<noteq> []"
  then have ne: "xs \<noteq> []" using c by simp
  then obtain y ys zs z where f: "xs = y # ys" and b: "xs = zs @ [z]" by (meson neq_Nil_conv rev_exhaust)
  show "\<exists>s'. ub (list_pop_front l) = Inr s' \<and> list_inv s' \<and> contents_of s' = tl (contents_of l)"
    using pop_front_ok r c f by (fastforce dest: rep_inv)
  show "\<exists>s'. ub (list_pop_back l) = Inr s' \<and> list_inv s' \<and> contents_of s' = butlast (contents_of l)"
    using pop_back_ok r c b by (fastforce dest: rep_inv)
  show "ub (list_front l) = Inr (hd (contents_of l))" using front_back_ok(1) [OF r] c f by simp
  show "ub (list_back l) = Inr (last (contents_of l))" using front_back_ok(2) [OF r] c b by simp
qed

section \<open>Construction, clearing and removal by value\<close>

lemma list_new_ok: "\<exists>l. list_new d mem_empty = Some l \<and> rep 0 1 [] l \<and> contents_of l = []"
proof -
  let ?l = "\<lparr>d_mem = \<lparr>cells = [0 \<mapsto> \<lparr>l_data = d, l_next = Some 1, l_prev = None\<rparr>,
    1 \<mapsto> \<lparr>l_data = d, l_next = None, l_prev = Some 0\<rparr>], brk = 2\<rparr>, d_head = Some 0, d_tail = Some 1\<rparr>"
  have "list_new d mem_empty = Some ?l"
    by (simp add: list_new_def mem_empty_def new_lnode_def heap_simps fun_upd_twist)
  moreover have r: "rep 0 1 [] ?l"
    by (auto simp: rep_def mem_ok_def nxt_def prv_def)
  ultimately show ?thesis using whole_ok(3) [OF r] by simp
qed

lemma clear_from_ok:
  "distinct vs \<Longrightarrow> t \<notin> set vs \<Longrightarrow> set vs \<subseteq> dom (cells m) \<Longrightarrow>
   (\<forall>us v ws. vs = us @ v # ws \<longrightarrow> nxt m v = Some (hd (ws @ [t]))) \<Longrightarrow>
   clear_from (Some t) (Some (hd (vs @ [t]))) m = Some (m\<lparr>cells := cells m |` (- set vs)\<rparr>)"
proof (induction vs arbitrary: m)
  case Nil
  then show ?case by (simp add: clear_from.simps)
next
  case (Cons v vs)
  obtain n where n: "cells m v = Some n" using Cons.prems(3) by auto
  have "nxt m v = Some (hd (vs @ [t]))" using Cons.prems(4) by blast
  then have nx: "l_next n = Some (hd (vs @ [t]))" using n by (simp add: nxt_def)
  let ?m = "m\<lparr>cells := (cells m)(v := None)\<rparr>"
  have "clear_from (Some t) (Some (hd (vs @ [t]))) ?m = Some (?m\<lparr>cells := cells ?m |` (- set vs)\<rparr>)"
  proof (rule Cons.IH)
    show "distinct vs" "t \<notin> set vs" "set vs \<subseteq> dom (cells ?m)" using Cons.prems(1-3) by auto
    show "\<forall>us w ws. vs = us @ w # ws \<longrightarrow> nxt ?m w = Some (hd (ws @ [t]))"
    proof (intro allI impI)
      fix us w ws assume e: "vs = us @ w # ws"
      then have "w \<noteq> v" using Cons.prems(1) by auto
      moreover have "nxt m w = Some (hd (ws @ [t]))" using Cons.prems(4) e by (metis append_Cons)
      ultimately show "nxt ?m w = Some (hd (ws @ [t]))" by simp
    qed
  qed
  moreover have "cells ?m |` (- set vs) = cells m |` (- set (v # vs))"
    by (auto simp: restrict_map_def fun_eq_iff)
  ultimately show ?case using n nx Cons.prems(2)
    by (subst clear_from.simps) (simp add: heap_simps)
qed

lemma clear_ok:
  assumes r: "rep h t xs l"
  shows "\<exists>l'. list_clear l = Some l' \<and> rep h t [] l'"
proof -
  let ?m = "d_mem l"
  obtain nh where h: "cells ?m h = Some nh" using rep_node [OF r, of h] by auto
  obtain nt where t: "cells ?m t = Some nt" using tail_node [OF r] by blast
  have nx: "l_next nh = Some (hd (xs @ [t]))"
    using begin_ok(1) [OF r] repD(1) [OF r] h by (simp add: list_begin_def heap_simps)
  have d: "h \<noteq> t" "h \<notin> set xs" "t \<notin> set xs" "distinct xs" using repD(3) [OF r] by auto
  have "clear_from (Some t) (Some (hd (xs @ [t]))) ?m = Some (?m\<lparr>cells := cells ?m |` (- set xs)\<rparr>)"
  proof (rule clear_from_ok [OF d(4,3)])
    show "set xs \<subseteq> dom (cells ?m)" using repD(4) [OF r] by auto
    show "\<forall>us v ws. xs = us @ v # ws \<longrightarrow> nxt ?m v = Some (hd (ws @ [t]))"
      using rep_step(1) r by (fastforce simp: nxt_def)
  qed
  then have "list_clear l = Some (l\<lparr>d_mem := ?m\<lparr>cells := (cells ?m |` (- set xs))(h \<mapsto> nh\<lparr>l_next := Some t\<rparr>,
      t \<mapsto> nt\<lparr>l_prev := Some h\<rparr>)\<rparr>\<rparr>)" (is "_ = Some ?l")
    using h t nx d repD(1,2) [OF r] by (simp add: list_clear_def heap_simps)
  moreover have "rep h t [] ?l"
    using repD(1,2,4,5) [OF r] d by (auto simp: rep_def nxt_def prv_def mem_ok_def)
  ultimately show ?thesis by blast
qed

lemma destroy_ok:
  assumes r: "rep h t xs l"
  shows "\<exists>m. list_destroy l = Some m \<and> cells m = Map.empty"
proof -
  from clear_ok [OF r] obtain l' where l': "list_clear l = Some l'" "rep h t [] l'" by blast
  have ht: "h \<noteq> t" using repD(3) [OF r] by simp
  obtain nh where h: "cells (d_mem l') h = Some nh" using rep_node [OF l'(2), of h] by auto
  obtain nt where t: "cells (d_mem l') t = Some nt" using tail_node [OF l'(2)] by blast
  have "(cells (d_mem l'))(h := None, t := None) = Map.empty"
    using repD(4) [OF l'(2)] by (auto simp: fun_eq_iff domIff)
  then show ?thesis using l'(1) h t ht repD(1,2) [OF l'(2)] by (simp add: list_destroy_def heap_simps)
qed

lemma remove_from_ok:
  "rep h t (us @ vs) l \<Longrightarrow>
   \<exists>l' ws. remove_from (Outside x) (Some (hd (vs @ [t]))) l = Some l' \<and> rep h t (us @ ws) l' \<and>
     map (dat (d_mem l')) us = map (dat (d_mem l)) us \<and>
     map (dat (d_mem l')) ws = filter (\<lambda>y. y \<noteq> x) (map (dat (d_mem l)) vs)"
proof (induction vs arbitrary: us l)
  case Nil
  then show ?case using repD(2) [OF Nil] by (subst remove_from.simps) (simp add: list_end_def)
next
  case (Cons v vs)
  from rep_step [OF Cons.prems] obtain n where n: "cells (d_mem l) v = Some n" "l_next n = Some (hd (vs @ [t]))"
    "l_data n = dat (d_mem l) v" and t: "Some v \<noteq> list_end l" unfolding list_end_def by blast
  then have it: "it_deref l (Some v) = Some (dat (d_mem l) v)" "it_next l (Some v) = Some (Some (hd (vs @ [t])))"
    by (simp_all add: it_deref_def it_next_def heap_simps)
  show ?case
  proof (cases "dat (d_mem l) v = x")
    case True
    from erase_contents [OF Cons.prems] obtain l' where l': "list_erase (Some v) l = Some (Some (hd (vs @ [t])), l')"
      "rep h t (us @ vs) l'" "map (dat (d_mem l')) us = map (dat (d_mem l)) us"
      "map (dat (d_mem l')) vs = map (dat (d_mem l)) vs" by blast
    have "remove_from (Outside x) (Some (hd ((v # vs) @ [t]))) l = remove_from (Outside x) (Some (hd (vs @ [t]))) l'"
      using True it l'(1) t by (subst remove_from.simps) (simp add: ref_value_def)
    with Cons.IH [OF l'(2)] l'(3,4) True show ?thesis by simp
  next
    case False
    have "rep h t ((us @ [v]) @ vs) l" using Cons.prems by simp
    from Cons.IH [OF this] obtain l' ws where
      l': "remove_from (Outside x) (Some (hd (vs @ [t]))) l = Some l'" "rep h t ((us @ [v]) @ ws) l'"
      "map (dat (d_mem l')) (us @ [v]) = map (dat (d_mem l)) (us @ [v])"
      "map (dat (d_mem l')) ws = filter (\<lambda>y. y \<noteq> x) (map (dat (d_mem l)) vs)" by blast
    have "remove_from (Outside x) (Some (hd ((v # vs) @ [t]))) l = Some l'"
      using False it l'(1) t by (subst remove_from.simps) (simp add: ref_value_def)
    moreover have "rep h t (us @ v # ws) l'" using l'(2) by simp
    moreover have "map (dat (d_mem l')) (v # ws) = filter (\<lambda>y. y \<noteq> x) (map (dat (d_mem l)) (v # vs))"
      using l'(3,4) False by simp
    moreover have "map (dat (d_mem l')) us = map (dat (d_mem l)) us" using l'(3) by simp
    ultimately show ?thesis by blast
  qed
qed

text \<open>With an element of the list as argument, the comparison after its erasure reads a deleted node.\<close>

lemma remove_from_alias:
  "rep h t (us @ vs @ a # ws) l \<Longrightarrow> ws \<noteq> [] \<Longrightarrow>
   remove_from (Element (Some a)) (Some (hd (vs @ [a]))) l = None"
proof (induction vs arbitrary: us l)
  case Nil
  then have r: "rep h t (us @ a # ws) l" by simp
  obtain w ws' where ws: "ws = w # ws'" using Nil.prems(2) by (cases ws) auto
  from rep_step [OF r] have it: "it_deref l (Some a) = Some (dat (d_mem l) a)" and t: "Some a \<noteq> list_end l"
    by (auto simp: it_deref_def heap_simps list_end_def)
  from erase_contents [OF r] obtain l' where l': "list_erase (Some a) l = Some (Some w, l')" "rep h t (us @ ws) l'"
    using ws by auto
  have "a \<notin> dom (cells (d_mem l'))" using repD(4) [OF l'(2)] repD(3) [OF r] by auto
  then have gone: "ref_value l' (Element (Some a)) = None" by (auto simp: ref_value_def it_deref_def heap_simps)
  have "Some w \<noteq> list_end l'" using rep_step(2) l'(2) ws unfolding list_end_def by blast
  then have "remove_from (Element (Some a)) (Some w) l' = None"
    using gone by (subst remove_from.simps) (cases "it_deref l' (Some w)"; simp)
  then show ?case using it t l'(1) by (subst remove_from.simps) (simp add: ref_value_def)
next
  case (Cons v vs)
  have r: "rep h t (us @ v # vs @ a # ws) l" using Cons.prems(1) by simp
  have hd: "hd ((vs @ a # ws) @ [t]) = hd (vs @ [a])" by (cases vs) simp_all
  from rep_step [OF r] have it: "it_deref l (Some v) = Some (dat (d_mem l) v)"
    "it_next l (Some v) = Some (Some (hd (vs @ [a])))" and t: "Some v \<noteq> list_end l"
    unfolding hd by (auto simp: it_deref_def it_next_def heap_simps list_end_def)
  have "a \<in> set (h # t # us @ v # vs @ a # ws)" by simp
  from rep_node [OF r this] obtain n where "cells (d_mem l) a = Some n" by blast
  then obtain y where y: "ref_value l (Element (Some a)) = Some y" by (simp add: ref_value_def it_deref_def heap_simps)
  show ?case
  proof (cases "dat (d_mem l) v = y")
    case True
    from erase_contents [OF r] obtain l' where l': "list_erase (Some v) l = Some (Some (hd (vs @ [a])), l')"
      "rep h t (us @ vs @ a # ws) l'" unfolding hd by blast
    with Cons.IH [OF l'(2) Cons.prems(2)] it t y True show ?thesis by (subst remove_from.simps) simp
  next
    case False
    have "rep h t ((us @ [v]) @ vs @ a # ws) l" using r by simp
    from Cons.IH [OF this Cons.prems(2)] it t y False show ?thesis by (subst remove_from.simps) simp
  qed
qed

section \<open>Properties\<close>

lemma two_elements:
  obtains l l1 l2 where "list_new (0::nat) mem_empty = Some l" "list_push_back 7 l = Some l1"
    "list_push_back 8 l1 = Some l2" "list_inv l2" "contents_of l2 = [7, 8]"
proof -
  from list_new_ok [of "0::nat"] obtain l where
    l: "list_new (0::nat) mem_empty = Some l" "rep 0 1 [] l" "contents_of l = []" by blast
  from push_ok(2) [OF l(2), of 7] obtain l1 where
    l1: "list_push_back 7 l = Some l1" "list_inv l1" "contents_of l1 = [7]" unfolding l(3) by auto
  then obtain h t xs where "rep h t xs l1" by (auto simp: list_inv_def)
  from push_ok(2) [OF this, of 8] obtain l2 where
    "list_push_back 8 l1 = Some l2" "list_inv l2" "contents_of l2 = [7, 8]" unfolding l1(3) by auto
  then show thesis by (rule that [OF l(1) l1(1)])
qed

text \<open>A position of the contents and the iterator that denotes it.\<close>

lemma positionE:
  assumes "list_inv l" "i \<le> length (contents_of l)"
  obtains h t us vs where "rep h t (us @ vs) l" "length us = i" "map (dat (d_mem l)) us = take i (contents_of l)"
    "map (dat (d_mem l)) vs = drop i (contents_of l)"
    "Option.bind (list_begin l) (it_plus l i) = Some (Some (hd (vs @ [t])))"
proof -
  from assms(1) obtain h t xs where r: "rep h t xs l" by (auto simp: list_inv_def)
  note c = whole_ok(3) [OF r]
  have i: "i \<le> length xs" using assms(2) c by simp
  have "rep h t ([] @ xs) l" using r by simp
  from it_plus_ok [OF this i] begin_ok(1) [OF r]
  have "Option.bind (list_begin l) (it_plus l i) = Some (Some (hd (drop i xs @ [t])))" by simp
  with that [of h t "take i xs" "drop i xs"] r i c show thesis by (simp add: take_map drop_map)
qed

text \<open>C27: Positions.  The iterator reached from \<open>begin()\<close> by \<open>i\<close> increments denotes position \<open>i\<close> of the printed
  contents: inserting there puts the value before that position and returns an iterator to it, erasing
  there removes exactly that element and frees its node, and at the end position it is \<open>end()\<close>, where
  erasing does nothing.  No operation touches a null or deleted node.\<close>

theorem list_positions_correct:
  assumes "list_inv l" "i \<le> length (contents_of l)"
  shows "\<exists>it. Option.bind (list_begin l) (it_plus l i) = Some it \<and>
    (\<exists>it' l'. list_insert it x l = Some (it', l') \<and> list_inv l' \<and> it_deref l' it' = Some x \<and>
       contents_of l' = take i (contents_of l) @ x # drop i (contents_of l)) \<and>
    (i < length (contents_of l) \<longrightarrow> it_deref l it = Some (contents_of l ! i) \<and>
       (\<exists>it' l'. list_erase it l = Some (it', l') \<and> list_inv l' \<and>
          contents_of l' = take i (contents_of l) @ drop (Suc i) (contents_of l))) \<and>
    (i = length (contents_of l) \<longrightarrow> it = list_end l \<and> list_erase it l = Some (it, l))"
proof -
  obtain h t us vs where r: "rep h t (us @ vs) l" and us: "map (dat (d_mem l)) us = take i (contents_of l)"
    and vs: "map (dat (d_mem l)) vs = drop i (contents_of l)"
    and it: "Option.bind (list_begin l) (it_plus l i) = Some (Some (hd (vs @ [t])))"
    by (rule positionE [OF assms])
  have ins: "\<exists>it' l'. list_insert (Some (hd (vs @ [t]))) x l = Some (it', l') \<and> list_inv l' \<and>
      it_deref l' it' = Some x \<and> contents_of l' = take i (contents_of l) @ x # drop i (contents_of l)"
    using insert_contents [OF r, of x] unfolding us vs by (blast intro: rep_inv)
  have er: "it_deref l (Some (hd (vs @ [t]))) = Some (contents_of l ! i) \<and>
      (\<exists>it' l'. list_erase (Some (hd (vs @ [t]))) l = Some (it', l') \<and> list_inv l' \<and>
        contents_of l' = take i (contents_of l) @ drop (Suc i) (contents_of l))"
    if i: "i < length (contents_of l)"
  proof -
    obtain v vs' where v: "vs = v # vs'" using vs i by (cases vs) auto
    then have d: "dat (d_mem l) v = contents_of l ! i" "map (dat (d_mem l)) vs' = drop (Suc i) (contents_of l)"
      using vs i by (simp_all add: Cons_nth_drop_Suc [symmetric])
    from rep_step(1) [OF r [unfolded v]] have "it_deref l (Some v) = Some (contents_of l ! i)"
      using d by (auto simp: it_deref_def heap_simps)
    moreover from erase_contents [OF r [unfolded v]] obtain l' where
      l': "list_erase (Some v) l = Some (Some (hd (vs' @ [t])), l')" "rep h t (us @ vs') l'"
      "map (dat (d_mem l')) us = map (dat (d_mem l)) us" "map (dat (d_mem l')) vs' = map (dat (d_mem l)) vs'" by blast
    moreover have "contents_of l' = take i (contents_of l) @ drop (Suc i) (contents_of l)"
      unfolding whole_ok(3) [OF l'(2)] using l'(3,4) us d by simp
    ultimately show ?thesis using v rep_inv [OF l'(2)] by simp
  qed
  have en: "Some (hd (vs @ [t])) = list_end l \<and> list_erase (Some (hd (vs @ [t]))) l = Some (Some (hd (vs @ [t])), l)"
    if "i = length (contents_of l)"
    using that vs repD(2) [OF r] by (simp add: list_end_def list_erase_def)
  show ?thesis
    by (rule exI, rule conjI [OF it conjI [OF ins conjI [OF impI [OF er] impI [OF en]]]])
qed

theorem list_positions_correct_witness:
  "\<exists>l. list_new (0::nat) mem_empty = Some l \<and> (\<exists>it. Option.bind (list_begin l) (it_plus l 0) = Some it \<and>
     (\<exists>it' l'. list_insert it 7 l = Some (it', l') \<and> contents_of l' = [7]))"
proof -
  from list_new_ok [of "0::nat"] obtain l where
    l: "list_new (0::nat) mem_empty = Some l" "rep 0 1 [] l" "contents_of l = []" by blast
  have "0 \<le> length (contents_of l)" by simp
  from list_positions_correct [OF rep_inv [OF l(2)] this, of 7] l show ?thesis by auto
qed

text \<open>The whole list.  \<open>size\<close> counts and \<open>print\<close> writes the contents, \<open>remove\<close> of a value outside the list
  deletes exactly the equal elements, \<open>clear\<close> empties the list, and the destructor deletes every node
  exactly once: the heap is empty afterwards.\<close>

theorem list_whole_correct:
  assumes "list_inv l"
  shows "list_size l = Some (length (contents_of l)) \<and> list_print l = Some (contents_of l) \<and>
    (\<exists>l'. list_remove (Outside x) l = Some l' \<and> list_inv l' \<and> contents_of l' = filter (\<lambda>y. y \<noteq> x) (contents_of l)) \<and>
    (\<exists>l'. list_clear l = Some l' \<and> list_inv l' \<and> contents_of l' = []) \<and>
    (\<exists>m. list_destroy l = Some m \<and> cells m = Map.empty)"
proof -
  from assms obtain h t xs where r: "rep h t xs l" by (auto simp: list_inv_def)
  have "rep h t ([] @ xs) l" using r by simp
  from remove_from_ok [OF this, of x] obtain l' ws where
    rm: "remove_from (Outside x) (Some (hd (xs @ [t]))) l = Some l'" "rep h t ws l'"
    "map (dat (d_mem l')) ws = filter (\<lambda>y. y \<noteq> x) (map (dat (d_mem l)) xs)" by auto
  have "list_remove (Outside x) l = Some l' \<and> list_inv l' \<and> contents_of l' = filter (\<lambda>y. y \<noteq> x) (contents_of l)"
    using rm begin_ok(1) [OF r] rep_inv [OF rm(2)] whole_ok(3) [OF r] whole_ok(3) [OF rm(2)]
    by (simp add: list_remove_def)
  moreover from clear_ok [OF r] obtain lc where "list_clear l = Some lc" "rep h t [] lc" by blast
  moreover from this whole_ok(3) [of h t "[]" lc] have "list_inv lc \<and> contents_of lc = []"
    by (simp add: rep_inv)
  ultimately show ?thesis using whole_ok [OF r] destroy_ok [OF r] by auto
qed

theorem list_whole_correct_witness:
  "\<exists>l l1 l2. list_new (0::nat) mem_empty = Some l \<and> list_push_back 7 l = Some l1 \<and> list_push_back 8 l1 = Some l2 \<and>
     list_size l2 = Some 2 \<and> (\<exists>l3. list_remove (Outside 7) l2 = Some l3 \<and> contents_of l3 = [8])"
proof -
  obtain l l1 l2 where l: "list_new (0::nat) mem_empty = Some l" "list_push_back 7 l = Some l1"
    "list_push_back 8 l1 = Some l2" and l2: "list_inv l2" "contents_of l2 = [7, 8]" by (rule two_elements)
  from list_whole_correct [OF l2(1), of 7] obtain l3 where
    "list_size l2 = Some 2" "list_remove (Outside 7) l2 = Some l3" "contents_of l3 = [8]" using l2(2) by auto
  with l show ?thesis by blast
qed

text \<open>\<open>remove\<close> takes its argument by reference.  When that argument is an element of the list other than the
  last (\<open>l.remove(l.front())\<close>), the loop compares with a deleted node after erasing it: undefined behaviour.\<close>

theorem list_remove_own_element:
  assumes "list_inv l" "Suc i < length (contents_of l)"
  shows "\<exists>it. Option.bind (list_begin l) (it_plus l i) = Some it \<and> list_remove (Element it) l = None"
proof -
  have "i \<le> length (contents_of l)" using assms(2) by simp
  then obtain h t us vs where r: "rep h t (us @ vs) l"
    and vs: "map (dat (d_mem l)) vs = drop i (contents_of l)"
    and it: "Option.bind (list_begin l) (it_plus l i) = Some (Some (hd (vs @ [t])))"
    by (rule positionE [OF assms(1)])
  have "length vs = length (contents_of l) - i" using arg_cong [OF vs, of length] by simp
  then obtain a ws where a: "vs = a # ws" "ws \<noteq> []" using assms(2) by (cases vs; cases "tl vs") auto
  have r': "rep h t ([] @ us @ a # ws) l" using r a(1) by simp
  have "hd ((us @ a # ws) @ [t]) = hd (us @ [a])" by (cases us) simp_all
  then have "list_begin l = Some (Some (hd (us @ [a])))" using begin_ok(1) [OF r] a(1) by simp
  with remove_from_alias [OF r' a(2)] it a(1) show ?thesis by (simp add: list_remove_def)
qed

theorem list_remove_own_element_witness:
  "\<exists>l l1 l2. list_new (0::nat) mem_empty = Some l \<and> list_push_back 7 l = Some l1 \<and> list_push_back 8 l1 = Some l2 \<and>
     (\<exists>it. Option.bind (list_begin l2) (it_plus l2 0) = Some it \<and> list_remove (Element it) l2 = None)"
proof -
  obtain l l1 l2 where l: "list_new (0::nat) mem_empty = Some l" "list_push_back 7 l = Some l1"
    "list_push_back 8 l1 = Some l2" and l2: "list_inv l2" "contents_of l2 = [7, 8]" by (rule two_elements)
  have "Suc 0 < length (contents_of l2)" using l2(2) by simp
  from list_remove_own_element [OF l2(1) this] l show ?thesis by blast
qed

end
