(* ===== verification/Bst_Map.thy ===== *)
theory Bst_Map
  imports Node_Heap Interfaces "HOL-Library.Tree"
begin

text \<open>
  The search-tree map with parent pointers of
  src/cplusplus/basement/base\_code/src/base\_stl/map\_demo.h (namespace \<open>bst_map\<close>): nodes on a heap, the
  loops of \<open>find\<close>, \<open>insert\<close>, \<open>erase\<close> and \<open>successor\<close> on pointers, and the iterator.  A loop that follows
  pointers for ever, like an access through a null or deleted pointer, has the result \<open>None\<close>.
\<close>

section \<open>Nodes and maps\<close>

record ('k, 'v) bnode =
  b_data :: "'k \<times> 'v"
  b_left :: ptr
  b_right :: ptr
  b_parent :: ptr

record ('k, 'v) bmap =
  b_mem :: "('k, 'v) bnode mem"
  b_root :: ptr

definition new_bnode :: "'k \<Rightarrow> 'v \<Rightarrow> ptr \<Rightarrow> ('k, 'v) bnode" where
  "new_bnode key val parent = \<lparr>b_data = (key, val), b_left = None, b_right = None, b_parent = parent\<rparr>"

definition bmap_new :: "('k, 'v) bmap" where
  "bmap_new = \<lparr>b_mem = mem_empty, b_root = None\<rparr>"

section \<open>Moving in the tree\<close>

partial_function (option) minium_loop :: "('k, 'v) bnode mem \<Rightarrow> ptr \<Rightarrow> ptr option" where
  "minium_loop h node = Option.bind (load h node) (\<lambda>n.
     if b_left n \<noteq> None then minium_loop h (b_left n) else Some node)"

definition minium :: "('k, 'v) bnode mem \<Rightarrow> ptr \<Rightarrow> ptr option" where
  "minium h node = (if node = None then Some None else minium_loop h node)"

partial_function (option) maximun_loop :: "('k, 'v) bnode mem \<Rightarrow> ptr \<Rightarrow> ptr option" where
  "maximun_loop h node = Option.bind (load h node) (\<lambda>n.
     if b_right n \<noteq> None then maximun_loop h (b_right n) else Some node)"

definition maximun :: "('k, 'v) bnode mem \<Rightarrow> ptr \<Rightarrow> ptr outcome" where
  "maximun h node = (if node = None then Inl OutOfRange else ub (maximun_loop h node))"

partial_function (option) climb :: "('k, 'v) bnode mem \<Rightarrow> ptr \<Rightarrow> ptr \<Rightarrow> ptr option" where
  "climb h node p =
     (if p = None then Some None
      else Option.bind (load h p) (\<lambda>n. if node = b_right n then climb h p (b_parent n) else Some p))"

definition successor :: "('k, 'v) bnode mem \<Rightarrow> ptr \<Rightarrow> ptr option" where
  "successor h node = do { n \<leftarrow> load h node;
     if b_right n \<noteq> None then minium h (b_right n) else climb h node (b_parent n) }"

section \<open>Operations\<close>

partial_function (option) find_loop :: "('k::linorder, 'v) bnode mem \<Rightarrow> 'k \<Rightarrow> ptr \<Rightarrow> ptr option" where
  "find_loop h key cur =
     (if cur = None then Some None
      else Option.bind (load h cur) (\<lambda>n.
        if key < fst (b_data n) then find_loop h key (b_left n)
        else if fst (b_data n) < key then find_loop h key (b_right n)
        else Some cur))"

definition bmap_find :: "'k::linorder \<Rightarrow> ('k, 'v) bmap \<Rightarrow> ptr option" where
  "bmap_find key m = find_loop (b_mem m) key (b_root m)"

text \<open>The loop of \<open>insert\<close>: it returns after overwriting a value (\<open>Inl\<close>), or ends with the parent of the
  place for the new node (\<open>Inr\<close>).\<close>

partial_function (option) insert_loop ::
    "'k::linorder \<Rightarrow> 'v \<Rightarrow> ('k, 'v) bnode mem \<Rightarrow> ptr \<Rightarrow> ptr \<Rightarrow> (('k, 'v) bnode mem + ptr) option" where
  "insert_loop key val h cur parent =
     (if cur = None then Some (Inr parent)
      else Option.bind (load h cur) (\<lambda>n.
        if key < fst (b_data n) then insert_loop key val h (b_left n) cur
        else if fst (b_data n) < key then insert_loop key val h (b_right n) cur
        else map_option Inl (upd cur (b_data_update (\<lambda>d. (fst d, val))) h)))"

definition bmap_insert :: "'k::linorder \<Rightarrow> 'v \<Rightarrow> ('k, 'v) bmap \<Rightarrow> ('k, 'v) bmap option" where
  "bmap_insert key val m =
     (if b_root m = None
      then let (p, h) = alloc (new_bnode key val None) (b_mem m) in Some \<lparr>b_mem = h, b_root = p\<rparr>
      else do {
        r \<leftarrow> insert_loop key val (b_mem m) (b_root m) None;
        case r of
          Inl h \<Rightarrow> Some (m\<lparr>b_mem := h\<rparr>)
        | Inr parent \<Rightarrow> do {
            n \<leftarrow> load (b_mem m) parent;
            let (p, h) = alloc (new_bnode key val parent) (b_mem m);
            h \<leftarrow> (if key < fst (b_data n) then upd parent (b_left_update (\<lambda>_. p)) h
                  else upd parent (b_right_update (\<lambda>_. p)) h);
            Some (m\<lparr>b_mem := h\<rparr>) } })"

text \<open>\<open>operator[]\<close>: the node whose value it refers to.\<close>

definition bmap_index :: "'v \<Rightarrow> 'k::linorder \<Rightarrow> ('k, 'v) bmap \<Rightarrow> (ptr \<times> ('k, 'v) bmap) option" where
  "bmap_index dflt key m = do {
     node \<leftarrow> bmap_find key m;
     if node \<noteq> None then Some (node, m)
     else do { m \<leftarrow> bmap_insert key dflt m; node \<leftarrow> bmap_find key m; n \<leftarrow> load (b_mem m) node; Some (node, m) } }"

text \<open>The end of \<open>erase\<close>: a node with at most one child is replaced by it and deleted.\<close>

definition unlink :: "ptr \<Rightarrow> ('k, 'v) bmap \<Rightarrow> ('k, 'v) bmap option" where
  "unlink node m = do {
     n \<leftarrow> load (b_mem m) node;
     let child = (if b_left n \<noteq> None then b_left n else b_right n);
     h \<leftarrow> (if child \<noteq> None then upd child (b_parent_update (\<lambda>_. b_parent n)) (b_mem m) else Some (b_mem m));
     n \<leftarrow> load h node;
     m \<leftarrow> (if b_parent n = None then Some \<lparr>b_mem = h, b_root = child\<rparr>
           else do {
             p \<leftarrow> load h (b_parent n);
             h \<leftarrow> (if node = b_left p then upd (b_parent n) (b_left_update (\<lambda>_. child)) h
                   else upd (b_parent n) (b_right_update (\<lambda>_. child)) h);
             Some (m\<lparr>b_mem := h\<rparr>) });
     h \<leftarrow> dealloc node (b_mem m);
     Some (m\<lparr>b_mem := h\<rparr>) }"

definition bmap_erase :: "'k::linorder \<Rightarrow> ('k, 'v) bmap \<Rightarrow> ('k, 'v) bmap option" where
  "bmap_erase key m = do {
     node \<leftarrow> bmap_find key m;
     if node = None then Some m
     else do {
       n \<leftarrow> load (b_mem m) node;
       if b_left n \<noteq> None \<and> b_right n \<noteq> None
       then do {
         succ \<leftarrow> successor (b_mem m) node;
         s \<leftarrow> load (b_mem m) succ;
         h \<leftarrow> upd node (b_data_update (\<lambda>_. b_data s)) (b_mem m);
         unlink succ (m\<lparr>b_mem := h\<rparr>) }
       else unlink node m } }"

partial_function (option) clear_nodes :: "ptr \<Rightarrow> ('k, 'v) bnode mem \<Rightarrow> ('k, 'v) bnode mem option" where
  "clear_nodes node h =
     (if node = None then Some h
      else Option.bind (load h node) (\<lambda>n. Option.bind (clear_nodes (b_left n) h) (\<lambda>h.
           Option.bind (load h node) (\<lambda>n. Option.bind (clear_nodes (b_right n) h) (dealloc node)))))"

definition bmap_clear :: "('k, 'v) bmap \<Rightarrow> ('k, 'v) bmap option" where
  "bmap_clear m = do { h \<leftarrow> clear_nodes (b_root m) (b_mem m); Some \<lparr>b_mem = h, b_root = None\<rparr> }"

section \<open>The iterator\<close>

definition bmap_begin :: "('k, 'v) bmap \<Rightarrow> ptr option" where
  "bmap_begin m = minium (b_mem m) (b_root m)"

definition bmap_end :: "('k, 'v) bmap \<Rightarrow> ptr" where
  "bmap_end m = None"

definition biter_deref :: "('k, 'v) bmap \<Rightarrow> ptr \<Rightarrow> ('k \<times> 'v) option" where
  "biter_deref m it = map_option b_data (load (b_mem m) it)"

text \<open>\<open>++it\<close>: the new position, and the pair of the reference it returns.\<close>

definition biter_inc :: "('k, 'v) bmap \<Rightarrow> ptr \<Rightarrow> (ptr \<times> 'k \<times> 'v) option" where
  "biter_inc m it = do { it \<leftarrow> successor (b_mem m) it; d \<leftarrow> biter_deref m it; Some (it, d) }"

section \<open>Shapes: trees of addresses, and trees with a hole\<close>

fun ptr_of :: "nat tree \<Rightarrow> ptr" where
  "ptr_of \<langle>\<rangle> = None"
| "ptr_of \<langle>l, a, r\<rangle> = Some a"

lemma ptr_of_None [simp]: "ptr_of t = None \<longleftrightarrow> t = \<langle>\<rangle>"
  by (cases t) simp_all

type_synonym links = "nat \<Rightarrow> (ptr \<times> ptr \<times> ptr) option"

fun owns :: "links \<Rightarrow> ptr \<Rightarrow> nat tree \<Rightarrow> bool" where
  "owns f p \<langle>\<rangle> \<longleftrightarrow> True"
| "owns f p \<langle>l, a, r\<rangle> \<longleftrightarrow> f a = Some (ptr_of l, ptr_of r, p) \<and> owns f (Some a) l \<and> owns f (Some a) r"

text \<open>The way from a hole up to the root.\<close>

datatype frame = InLeft nat "nat tree" | InRight "nat tree" nat

fun plug :: "frame list \<Rightarrow> nat tree \<Rightarrow> nat tree" where
  "plug [] t = t"
| "plug (InLeft a r # c) t = plug c \<langle>t, a, r\<rangle>"
| "plug (InRight l a # c) t = plug c \<langle>l, a, t\<rangle>"

fun up :: "frame list \<Rightarrow> ptr" where
  "up [] = None"
| "up (InLeft a r # c) = Some a"
| "up (InRight l a # c) = Some a"

fun before :: "frame list \<Rightarrow> nat list" where
  "before [] = []"
| "before (InLeft a r # c) = before c"
| "before (InRight l a # c) = before c @ inorder l @ [a]"

fun after :: "frame list \<Rightarrow> nat list" where
  "after [] = []"
| "after (InLeft a r # c) = a # inorder r @ after c"
| "after (InRight l a # c) = after c"

fun owns_ctx :: "links \<Rightarrow> ptr \<Rightarrow> frame list \<Rightarrow> bool" where
  "owns_ctx f q [] \<longleftrightarrow> True"
| "owns_ctx f q (InLeft a r # c) \<longleftrightarrow>
     f a = Some (q, ptr_of r, up c) \<and> owns f (Some a) r \<and> owns_ctx f (Some a) c"
| "owns_ctx f q (InRight l a # c) \<longleftrightarrow>
     f a = Some (ptr_of l, q, up c) \<and> owns f (Some a) l \<and> owns_ctx f (Some a) c"

lemma inorder_plug [simp]: "inorder (plug c t) = before c @ inorder t @ after c"
  by (induction c t rule: plug.induct) simp_all

lemma owns_plug: "owns f None (plug c t) \<longleftrightarrow> owns f (up c) t \<and> owns_ctx f (ptr_of t) c"
  by (induction c t rule: plug.induct) auto

lemma plug_append: "plug (c @ d) t = plug d (plug c t)"
  by (induction c t rule: plug.induct) simp_all

lemma before_append: "before (c @ d) = before d @ before c"
  by (induction c rule: before.induct) simp_all

lemma after_append: "after (c @ d) = after c @ after d"
  by (induction c rule: after.induct) simp_all

lemma plug_root: "c \<noteq> [] \<or> ptr_of t = ptr_of t' \<Longrightarrow> ptr_of (plug c t) = ptr_of (plug c t')"
proof (induction c arbitrary: t t')
  case (Cons x c)
  show ?case by (cases x) (simp_all add: Cons.IH)
qed simp

lemma split_tree: "a \<in> set_tree t \<Longrightarrow> \<exists>c l r. t = plug c \<langle>l, a, r\<rangle>"
proof (induction t)
  case (Node l x r)
  consider "a = x" | "a \<in> set_tree l" | "a \<in> set_tree r" using Node.prems by auto
  then show ?case
  proof cases
    case 1 then show ?thesis by (intro exI [of _ "[]"]) simp
  next
    case 2
    then obtain c l' r' where "l = plug c \<langle>l', a, r'\<rangle>" using Node.IH(1) by blast
    then have "\<langle>l, x, r\<rangle> = plug (c @ [InLeft x r]) \<langle>l', a, r'\<rangle>" by (simp add: plug_append)
    then show ?thesis by blast
  next
    case 3
    then obtain c l' r' where "r = plug c \<langle>l', a, r'\<rangle>" using Node.IH(2) by blast
    then have "\<langle>l, x, r\<rangle> = plug (c @ [InRight l x]) \<langle>l', a, r'\<rangle>" by (simp add: plug_append)
    then show ?thesis by blast
  qed
qed simp

lemma leftmost:
  "t \<noteq> \<langle>\<rangle> \<Longrightarrow> \<exists>c r. t = plug c \<langle>\<langle>\<rangle>, hd (inorder t), r\<rangle> \<and> before c = []"
proof (induction t)
  case (Node l x r)
  show ?case
  proof (cases "l = \<langle>\<rangle>")
    case True
    then show ?thesis by (intro exI [of _ "[]"]) simp
  next
    case False
    then obtain c r' where c: "l = plug c \<langle>\<langle>\<rangle>, hd (inorder l), r'\<rangle>" "before c = []" using Node.IH(1) by blast
    have "hd (inorder \<langle>l, x, r\<rangle>) = hd (inorder l)" using False by simp
    moreover have "\<langle>l, x, r\<rangle> = plug (c @ [InLeft x r]) \<langle>\<langle>\<rangle>, hd (inorder l), r'\<rangle>"
      using c(1) by (simp add: plug_append)
    ultimately show ?thesis using c(2) by (intro exI [of _ "c @ [InLeft x r]"]) (auto simp: before_append)
  qed
qed simp

lemma owns_cong: "\<forall>a \<in> set (inorder t). f a = g a \<Longrightarrow> owns f p t = owns g p t"
  by (induction t arbitrary: p) auto

lemma owns_ctx_cong: "\<forall>a \<in> set (before c @ after c). f a = g a \<Longrightarrow> owns_ctx f q c = owns_ctx g q c"
proof (induction c arbitrary: q)
  case (Cons x c)
  show ?case
  proof (cases x)
    case (InLeft a r)
    have "owns f (Some a) r = owns g (Some a) r" by (rule owns_cong) (use Cons.prems InLeft in auto)
    moreover have "owns_ctx f (Some a) c = owns_ctx g (Some a) c" by (rule Cons.IH) (use Cons.prems InLeft in auto)
    ultimately show ?thesis using Cons.prems InLeft by auto
  next
    case (InRight l a)
    have "owns f (Some a) l = owns g (Some a) l" by (rule owns_cong) (use Cons.prems InRight in auto)
    moreover have "owns_ctx f (Some a) c = owns_ctx g (Some a) c" by (rule Cons.IH) (use Cons.prems InRight in auto)
    ultimately show ?thesis using Cons.prems InRight by auto
  qed
qed simp

lemma owns_up: "owns f p t \<Longrightarrow> t \<noteq> \<langle>\<rangle> \<Longrightarrow> distinct (inorder t) \<Longrightarrow>
  owns (f(the (ptr_of t) := map_option (\<lambda>(l, r, p). (l, r, q)) (f (the (ptr_of t))))) q t"
proof (cases t)
  case (Node l a r)
  assume o: "owns f p t" "distinct (inorder t)"
  let ?g = "f(a := Some (ptr_of l, ptr_of r, q))"
  have "owns ?g (Some a) l = owns f (Some a) l" "owns ?g (Some a) r = owns f (Some a) r"
    by (rule owns_cong; use o Node in auto)+
  then show ?thesis using o Node by simp
qed simp

text \<open>Replacing the pointer into the hole.\<close>

fun relink :: "frame list \<Rightarrow> ptr \<Rightarrow> links \<Rightarrow> links" where
  "relink [] q f = f"
| "relink (InLeft a r # c) q f = f(a := map_option (\<lambda>(_, r, p). (q, r, p)) (f a))"
| "relink (InRight l a # c) q f = f(a := map_option (\<lambda>(l, _, p). (l, q, p)) (f a))"

lemma owns_ctx_relink:
  assumes "owns_ctx f q c" "distinct (before c @ after c)"
  shows "owns_ctx (relink c q' f) q' c"
proof (cases c rule: up.cases)
  case (2 a r d)
  let ?g = "f(a := Some (q', ptr_of r, up d))"
  have "owns ?g (Some a) r = owns f (Some a) r" "owns_ctx ?g (Some a) d = owns_ctx f (Some a) d"
    by (rule owns_cong owns_ctx_cong; use assms(2) 2 in auto)+
  then show ?thesis using assms(1) 2 by simp
next
  case (3 l a d)
  let ?g = "f(a := Some (ptr_of l, q', up d))"
  have "owns ?g (Some a) l = owns f (Some a) l" "owns_ctx ?g (Some a) d = owns_ctx f (Some a) d"
    by (rule owns_cong owns_ctx_cong; use assms(2) 3 in auto)+
  then show ?thesis using assms(1) 3 by simp
qed simp

lemma relink_other: "up c \<noteq> Some a \<Longrightarrow> relink c q f a = f a"
  by (cases c rule: up.cases) auto

lemma up_in: "up c = Some a \<Longrightarrow> a \<in> set (before c @ after c)"
  by (cases c rule: up.cases) auto

section \<open>The invariant\<close>

definition lnk :: "('k, 'v) bnode mem \<Rightarrow> links" where
  "lnk h a = map_option (\<lambda>n. (b_left n, b_right n, b_parent n)) (cells h a)"

definition bdat :: "('k, 'v) bnode mem \<Rightarrow> nat \<Rightarrow> 'k \<times> 'v" where
  "bdat h a = b_data (the (cells h a))"

definition tree_of :: "nat tree \<Rightarrow> ('k::linorder, 'v) bmap \<Rightarrow> bool" where
  "tree_of t m \<longleftrightarrow> b_root m = ptr_of t \<and> owns (lnk (b_mem m)) None t \<and> distinct (inorder t) \<and>
     dom (cells (b_mem m)) = set (inorder t) \<and> mem_ok (b_mem m) \<and> ordered (map (bdat (b_mem m)) (inorder t))"

lemma tree_ofD:
  assumes "tree_of t m"
  shows "b_root m = ptr_of t" "owns (lnk (b_mem m)) None t" "distinct (inorder t)"
    "dom (cells (b_mem m)) = set (inorder t)" "mem_ok (b_mem m)" "ordered (map (bdat (b_mem m)) (inorder t))"
  using assms unfolding tree_of_def by blast+

lemma lnkE:
  assumes "lnk h a = Some (l, r, p)"
  obtains n where "cells h a = Some n" "b_left n = l" "b_right n = r" "b_parent n = p" "b_data n = bdat h a"
  using assms unfolding lnk_def bdat_def by (cases "cells h a") auto

lemma find_loop_ok:
  "owns (lnk h) p t \<Longrightarrow> ordered (map (bdat h) (inorder t)) \<Longrightarrow>
   \<exists>q. find_loop h k (ptr_of t) = Some q \<and>
     (case q of None \<Rightarrow> map_of (map (bdat h) (inorder t)) k = None
      | Some a \<Rightarrow> a \<in> set (inorder t) \<and> fst (bdat h a) = k \<and> map_of (map (bdat h) (inorder t)) k = Some (snd (bdat h a)))"
proof (induction t arbitrary: p)
  case Leaf
  then show ?case by (simp add: find_loop.simps)
next
  case (Node l a r)
  obtain n where n: "cells h a = Some n" "b_left n = ptr_of l" "b_right n = ptr_of r" "b_data n = bdat h a"
    using Node.prems(1) by (auto elim: lnkE)
  let ?L = "map (bdat h) (inorder l)" and ?R = "map (bdat h) (inorder r)"
  have o: "ordered (?L @ bdat h a # ?R)" using Node.prems(2) by simp
  then have ol: "ordered ?L" and "or": "ordered ?R" by (simp_all only: ordered_mid)
  obtain d v where dv: "bdat h a = (d, v)" by fastforce
  have step: "find_loop h k (Some a) = (if k < d then find_loop h k (ptr_of l)
      else if d < k then find_loop h k (ptr_of r) else Some (Some a))"
    using n dv by (subst find_loop.simps) (simp add: heap_simps)
  consider "k < d" | "d < k" | "k = d" by force
  then show ?case
  proof cases
    case 1
    have "map_of (?L @ bdat h a # ?R) k = map_of ?L k" using map_of_ordered_left [OF o] 1 dv by simp
    moreover have "owns (lnk h) (Some a) l" using Node.prems(1) by simp
    ultimately show ?thesis using Node.IH(1) [OF _ ol] step 1 by (fastforce split: option.splits)
  next
    case 2
    have "map_of (?L @ bdat h a # ?R) k = map_of ?R k" using map_of_ordered_right [OF o] 2 dv by simp
    moreover have "owns (lnk h) (Some a) r" using Node.prems(1) by simp
    ultimately show ?thesis using Node.IH(2) [OF _ "or"] step 2 by (fastforce split: option.splits)
  next
    case 3
    have "map_of (?L @ (k, v) # ?R) k = Some v" using map_of_ordered_here [of ?L k v ?R] o dv 3 by simp
    then show ?thesis using step 3 dv by simp
  qed
qed

definition entries_of :: "('k, 'v) bmap \<Rightarrow> nat tree \<Rightarrow> ('k \<times> 'v) list" where
  "entries_of m t = map (bdat (b_mem m)) (inorder t)"

lemma bmap_find_ok:
  assumes "tree_of t m"
  obtains "bmap_find k m = Some None" "map_of (entries_of m t) k = None"
  | a v where "bmap_find k m = Some (Some a)" "a \<in> set (inorder t)" "bdat (b_mem m) a = (k, v)"
    "map_of (entries_of m t) k = Some v"
proof -
  from find_loop_ok [OF tree_ofD(2,6) [OF assms], of k] obtain q where
    q: "find_loop (b_mem m) k (ptr_of t) = Some q"
    "case q of None \<Rightarrow> map_of (entries_of m t) k = None
      | Some a \<Rightarrow> a \<in> set (inorder t) \<and> fst (bdat (b_mem m) a) = k \<and>
        map_of (entries_of m t) k = Some (snd (bdat (b_mem m) a))" unfolding entries_of_def by blast
  have f: "bmap_find k m = Some q" using q(1) tree_ofD(1) [OF assms] by (simp add: bmap_find_def)
  show thesis
  proof (cases q)
    case None
    then show thesis using that(1) f q(2) by simp
  next
    case (Some a)
    obtain d v where dv: "bdat (b_mem m) a = (d, v)" by fastforce
    show thesis by (rule that(2) [of a v]) (use f q(2) Some dv in simp_all)
  qed
qed

section \<open>Moving in the tree\<close>

definition hd_ptr :: "nat list \<Rightarrow> ptr" where
  "hd_ptr xs = (case xs of [] \<Rightarrow> None | x # _ \<Rightarrow> Some x)"

lemma minium_loop_ok:
  "owns (lnk h) p t \<Longrightarrow> t \<noteq> \<langle>\<rangle> \<Longrightarrow> minium_loop h (ptr_of t) = Some (Some (hd (inorder t)))"
proof (induction t arbitrary: p)
  case (Node l a r)
  obtain n where n: "cells h a = Some n" "b_left n = ptr_of l" using Node.prems(1) by (auto elim: lnkE)
  show ?case
  proof (cases "l = \<langle>\<rangle>")
    case False
    have "minium_loop h (ptr_of l) = Some (Some (hd (inorder l)))" by (rule Node.IH(1) [of "Some a"]) (use Node.prems(1) False in simp_all)
    with n False show ?thesis by (subst minium_loop.simps) (simp add: heap_simps)
  next
    case True
    with n show ?thesis by (subst minium_loop.simps) (simp add: heap_simps)
  qed
qed simp

lemma minium_ok: "owns (lnk h) p t \<Longrightarrow> minium h (ptr_of t) = Some (hd_ptr (inorder t))"
  by (cases "t = \<langle>\<rangle>") (auto simp: minium_def minium_loop_ok hd_ptr_def split: list.splits)

lemma climb_ok:
  "owns_ctx (lnk h) (Some x) c \<Longrightarrow> distinct (x # before c @ after c) \<Longrightarrow>
   climb h (Some x) (up c) = Some (hd_ptr (after c))"
proof (induction c arbitrary: x)
  case Nil
  then show ?case by (simp add: climb.simps hd_ptr_def)
next
  case (Cons y c)
  show ?case
  proof (cases y)
    case (InLeft a r)
    obtain n where n: "cells h a = Some n" "b_right n = ptr_of r" using Cons.prems(1) InLeft by (auto elim: lnkE)
    have "ptr_of r \<noteq> Some x" using Cons.prems(2) InLeft by (cases r) auto
    then show ?thesis using n InLeft by (subst climb.simps) (simp add: heap_simps hd_ptr_def)
  next
    case (InRight l a)
    obtain n where n: "cells h a = Some n" "b_right n = Some x" "b_parent n = up c"
      using Cons.prems(1) InRight by (auto elim: lnkE)
    have "climb h (Some a) (up c) = Some (hd_ptr (after c))"
      by (rule Cons.IH) (use Cons.prems InRight in auto)
    then show ?thesis using n InRight by (subst climb.simps) (simp add: heap_simps)
  qed
qed

lemma successor_ok:
  assumes "owns (lnk h) None (plug c \<langle>l, a, r\<rangle>)" "distinct (inorder (plug c \<langle>l, a, r\<rangle>))"
  shows "successor h (Some a) = Some (hd_ptr (inorder r @ after c))"
proof -
  have o: "owns (lnk h) (up c) \<langle>l, a, r\<rangle>" "owns_ctx (lnk h) (Some a) c" using assms(1) by (simp_all add: owns_plug)
  then obtain n where n: "cells h a = Some n" "b_right n = ptr_of r" "b_parent n = up c" by (auto elim: lnkE)
  show ?thesis
  proof (cases "r = \<langle>\<rangle>")
    case True
    have "climb h (Some a) (up c) = Some (hd_ptr (after c))" by (rule climb_ok [OF o(2)]) (use assms(2) in auto)
    then show ?thesis using n True by (simp add: successor_def heap_simps)
  next
    case False
    then have "hd_ptr (inorder r @ after c) = hd_ptr (inorder r)" by (auto simp: hd_ptr_def split: list.splits)
    with n False minium_ok [of h "Some a" r] o(1) show ?thesis by (simp add: successor_def heap_simps)
  qed
qed

section \<open>Insertion\<close>

lemma upd_assoc_gap:
  assumes "\<forall>q \<in> set xs. fst q < k" "\<forall>q \<in> set ys. k < fst q"
  shows "upd_assoc k v (xs @ ys) = xs @ (k, v) # ys"
  using assms filter_below [of xs k k] filter_above [of ys k k] by (simp add: upd_assoc_def)

text \<open>The keys before and after the hole enclose \<open>k\<close>.\<close>

definition gap :: "('k::linorder, 'v) bnode mem \<Rightarrow> 'k \<Rightarrow> frame list \<Rightarrow> bool" where
  "gap h k c \<longleftrightarrow> (\<forall>a \<in> set (before c). fst (bdat h a) < k) \<and> (\<forall>a \<in> set (after c). k < fst (bdat h a))"

lemma b_data_set: "b_data n = (d, w) \<Longrightarrow> b_data_update (\<lambda>d. (fst d, v)) n = n\<lparr>b_data := (d, v)\<rparr>"
  by (cases n) simp

lemma insert_loop_ok:
  "owns (lnk h) None (plug c t) \<Longrightarrow> ordered (map (bdat h) (inorder (plug c t))) \<Longrightarrow> gap h k c \<Longrightarrow>
   (\<exists>a w n. a \<in> set (inorder t) \<and> cells h a = Some n \<and> b_data n = (k, w) \<and>
      insert_loop k v h (ptr_of t) (up c) = Some (Inl (h\<lparr>cells := (cells h)(a \<mapsto> n\<lparr>b_data := (k, v)\<rparr>)\<rparr>))) \<or>
   (\<exists>d. insert_loop k v h (ptr_of t) (up c) = Some (Inr (up d)) \<and> plug d \<langle>\<rangle> = plug c t \<and> gap h k d)"
proof (induction t arbitrary: c)
  case Leaf
  then show ?case by (subst (2) insert_loop.simps) auto
next
  case (Node l a r)
  have "owns (lnk h) (up c) \<langle>l, a, r\<rangle>" using Node.prems(1) by (simp add: owns_plug)
  then obtain n where n: "cells h a = Some n" "b_left n = ptr_of l" "b_right n = ptr_of r" "b_data n = bdat h a"
    by (auto elim: lnkE)
  obtain d w where dv: "bdat h a = (d, w)" by fastforce
  have step: "insert_loop k v h (Some a) (up c) = (if k < d then insert_loop k v h (ptr_of l) (Some a)
      else if d < k then insert_loop k v h (ptr_of r) (Some a)
      else Some (Inl (h\<lparr>cells := (cells h)(a \<mapsto> n\<lparr>b_data := (fst (b_data n), v)\<rparr>)\<rparr>)))"
    using n dv by (subst insert_loop.simps) (simp add: heap_simps b_data_set)
  have "ordered ((map (bdat h) (before c) @ map (bdat h) (inorder l)) @ bdat h a #
      map (bdat h) (inorder r) @ map (bdat h) (after c))" using Node.prems(2) by simp
  then have keys: "\<forall>b \<in> set (inorder l). fst (bdat h b) < d" "\<forall>b \<in> set (inorder r). d < fst (bdat h b)"
    unfolding ordered_mid by (simp_all add: dv)
  consider "k < d" | "d < k" | "k = d" by force
  then show ?case
  proof cases
    case 1
    let ?c = "InLeft a r # c"
    have g: "gap h k ?c" using Node.prems(3) keys(2) 1 dv by (auto simp: gap_def)
    have "plug ?c l = plug c \<langle>l, a, r\<rangle>" "up ?c = Some a" by simp_all
    with Node.IH(1) [of ?c] Node.prems(1,2) g step 1 show ?thesis
      by (simp only: ptr_of.simps if_True inorder.simps set_append) auto
  next
    case 2
    let ?c = "InRight l a # c"
    have g: "gap h k ?c" using Node.prems(3) keys(1) 2 dv by (auto simp: gap_def)
    have "plug ?c r = plug c \<langle>l, a, r\<rangle>" "up ?c = Some a" "\<not> k < d" using 2 by simp_all
    with Node.IH(2) [of ?c] Node.prems(1,2) g step 2 show ?thesis
      by (simp only: ptr_of.simps if_True if_False inorder.simps set_append) auto
  next
    case 3
    then have "insert_loop k v h (Some a) (up c) = Some (Inl (h\<lparr>cells := (cells h)(a \<mapsto> n\<lparr>b_data := (k, v)\<rparr>)\<rparr>))"
      using step n(4) dv by simp
    moreover have "b_data n = (k, w)" using n(4) dv 3 by simp
    moreover have "a \<in> set (inorder \<langle>l, a, r\<rangle>)" by simp
    ultimately show ?thesis using n(1) unfolding ptr_of.simps by blast
  qed
qed

lemma overwrite_ok:
  assumes t: "tree_of t m" and a: "a \<in> set (inorder t)" "cells (b_mem m) a = Some n" "b_data n = (k, w)"
  shows "tree_of t (m\<lparr>b_mem := (b_mem m)\<lparr>cells := (cells (b_mem m))(a \<mapsto> n\<lparr>b_data := (k, v)\<rparr>)\<rparr>\<rparr>) \<and>
    entries_of (m\<lparr>b_mem := (b_mem m)\<lparr>cells := (cells (b_mem m))(a \<mapsto> n\<lparr>b_data := (k, v)\<rparr>)\<rparr>\<rparr>) t =
      upd_assoc k v (entries_of m t)" (is "tree_of t ?m \<and> _")
proof -
  obtain us vs where uv: "inorder t = us @ a # vs" using split_list [OF a(1)] by blast
  have d: "a \<notin> set us" "a \<notin> set vs" using tree_ofD(3) [OF t] uv by auto
  have lnk: "lnk (b_mem ?m) = lnk (b_mem m)" using a(2) by (auto simp: lnk_def fun_eq_iff)
  have dat: "bdat (b_mem ?m) = (bdat (b_mem m))(a := (k, v))" by (auto simp: bdat_def fun_eq_iff)
  have da: "bdat (b_mem m) a = (k, w)" using a(2,3) by (simp add: bdat_def)
  have e: "entries_of ?m t = map (bdat (b_mem m)) us @ (k, v) # map (bdat (b_mem m)) vs"
    unfolding entries_of_def dat uv using d by simp
  have o: "ordered (map (bdat (b_mem m)) us @ (k, w) # map (bdat (b_mem m)) vs)"
    using tree_ofD(6) [OF t] uv da by simp
  then have eq: "entries_of ?m t = upd_assoc k v (entries_of m t)"
    unfolding e by (simp add: upd_assoc_here entries_of_def uv da)
  have "ordered (entries_of ?m t)" unfolding eq by (rule ordered_upd_assoc) (use tree_ofD(6) [OF t] in \<open>simp add: entries_of_def\<close>)
  then show ?thesis using tree_ofD [OF t] lnk eq a(1,2) mem_ok_upd [OF tree_ofD(5) [OF t] a(2)]
    by (auto simp: tree_of_def entries_of_def)
qed

lemma lnk_upd: "lnk (h\<lparr>cells := (cells h)(a \<mapsto> n)\<rparr>) = (lnk h)(a := Some (b_left n, b_right n, b_parent n))"
  by (auto simp: lnk_def fun_eq_iff)

lemma bdat_upd: "bdat (h\<lparr>cells := (cells h)(a \<mapsto> n)\<rparr>) = (bdat h)(a := b_data n)"
  by (auto simp: bdat_def fun_eq_iff)

lemma attach_ok:
  assumes t: "tree_of (plug d \<langle>\<rangle>) m" and g: "gap (b_mem m) k d" and ne: "d \<noteq> []"
  shows "\<exists>n h m' a. load (b_mem m) (up d) = Some n \<and> alloc (new_bnode k v (up d)) (b_mem m) = (Some a, h) \<and>
    (if k < fst (b_data n) then upd (up d) (b_left_update (\<lambda>_. Some a)) h
     else upd (up d) (b_right_update (\<lambda>_. Some a)) h) = Some (b_mem m') \<and> b_root m' = b_root m \<and>
    tree_of (plug d \<langle>\<langle>\<rangle>, a, \<langle>\<rangle>\<rangle>) m' \<and> entries_of m' (plug d \<langle>\<langle>\<rangle>, a, \<langle>\<rangle>\<rangle>) = upd_assoc k v (entries_of m (plug d \<langle>\<rangle>))"
proof -
  let ?h = "b_mem m" and ?a = "brk (b_mem m)"
  have ctx: "owns_ctx (lnk ?h) None d" using tree_ofD(2) [OF t] by (simp add: owns_plug)
  have dis: "distinct (before d @ after d)" using tree_ofD(3) [OF t] by simp
  obtain p where p: "up d = Some p" using ne by (cases d rule: up.cases) auto
  have pin: "p \<in> set (before d @ after d)" using up_in [OF p] .
  then obtain n where n: "cells ?h p = Some n" using tree_ofD(4) [OF t] by auto
  have fresh: "cells ?h ?a = None" using mem_ok_fresh [OF tree_ofD(5) [OF t]] .
  then have a: "?a \<notin> set (before d @ after d)" "?a \<noteq> p" using tree_ofD(4) [OF t] n by auto
  let ?f = "if k < fst (b_data n) then b_left_update (\<lambda>_. Some ?a) else b_right_update (\<lambda>_. Some ?a)"
  let ?h' = "?h\<lparr>cells := (cells ?h)(?a \<mapsto> new_bnode k v (Some p), p \<mapsto> ?f n), brk := Suc ?a\<rparr>"
  let ?m' = "m\<lparr>b_mem := ?h'\<rparr>"
  have l0: "lnk ?h' = (lnk ?h)(?a := Some (None, None, Some p), p := Some (b_left (?f n), b_right (?f n), b_parent (?f n)))"
    by (auto simp: lnk_def fun_eq_iff new_bnode_def)
  have side: "relink d (Some ?a) (lnk ?h) p = Some (b_left (?f n), b_right (?f n), b_parent (?f n))"
    using p g n by (cases d rule: up.cases) (auto simp: gap_def lnk_def bdat_def)
  have l1: "lnk ?h' b = relink d (Some ?a) (lnk ?h) b" if "b \<noteq> ?a" for b
    using l0 side relink_other [of d b] p that by auto
  have "owns_ctx (lnk ?h') (Some ?a) d = owns_ctx (relink d (Some ?a) (lnk ?h)) (Some ?a) d"
    by (rule owns_ctx_cong, rule ballI, rule l1) (use a(1) in auto)
  then have "owns_ctx (lnk ?h') (Some ?a) d" using owns_ctx_relink [OF ctx dis] by simp
  then have owns: "owns (lnk ?h') None (plug d \<langle>\<langle>\<rangle>, ?a, \<langle>\<rangle>\<rangle>)" using l0 a(2) p by (simp add: owns_plug)
  have dat: "bdat ?h' = (bdat ?h)(?a := (k, v))"
    using n a(2) by (auto simp: bdat_def fun_eq_iff new_bnode_def)
  have e: "entries_of ?m' (plug d \<langle>\<langle>\<rangle>, ?a, \<langle>\<rangle>\<rangle>) = map (bdat ?h) (before d) @ (k, v) # map (bdat ?h) (after d)"
    using a(1) dat by (simp add: entries_of_def)
  have eq: "entries_of ?m' (plug d \<langle>\<langle>\<rangle>, ?a, \<langle>\<rangle>\<rangle>) = upd_assoc k v (entries_of m (plug d \<langle>\<rangle>))"
    unfolding e using g by (simp add: entries_of_def gap_def upd_assoc_gap)
  have ord: "ordered (entries_of ?m' (plug d \<langle>\<langle>\<rangle>, ?a, \<langle>\<rangle>\<rangle>))" unfolding eq
    by (rule ordered_upd_assoc) (use tree_ofD(6) [OF t] in \<open>simp add: entries_of_def\<close>)
  have dom: "dom (cells ?h') = set (inorder (plug d \<langle>\<langle>\<rangle>, ?a, \<langle>\<rangle>\<rangle>))"
    using tree_ofD(4) [OF t] pin by auto
  have ok: "mem_ok ?h'" using tree_ofD(5) [OF t] n by (auto simp: mem_ok_def less_Suc_eq)
  have root: "b_root m = ptr_of (plug d \<langle>\<langle>\<rangle>, ?a, \<langle>\<rangle>\<rangle>)"
    using tree_ofD(1) [OF t] plug_root [of d "\<langle>\<rangle>"] ne by metis
  have "tree_of (plug d \<langle>\<langle>\<rangle>, ?a, \<langle>\<rangle>\<rangle>) ?m'"
    using owns dis a(1) dom ok ord root by (simp add: tree_of_def entries_of_def)
  moreover have "(if k < fst (b_data n) then upd (up d) (b_left_update (\<lambda>_. Some ?a))
        (snd (alloc (new_bnode k v (up d)) ?h)) else upd (up d) (b_right_update (\<lambda>_. Some ?a))
        (snd (alloc (new_bnode k v (up d)) ?h))) = Some ?h'"
    using n a(2) p by (simp add: heap_simps)
  moreover have "load ?h (up d) = Some n" using n p by (simp add: heap_simps)
  moreover have "alloc (new_bnode k v (up d)) ?h = (Some ?a, snd (alloc (new_bnode k v (up d)) ?h))"
    by (simp add: heap_simps)
  ultimately show ?thesis using eq by (intro exI [of _ n] exI [of _ "snd (alloc (new_bnode k v (up d)) ?h)"]
        exI [of _ ?m'] exI [of _ ?a] conjI) simp_all
qed

lemma bmap_insert_ok:
  assumes t: "tree_of t m"
  shows "\<exists>t' m'. bmap_insert k v m = Some m' \<and> tree_of t' m' \<and> entries_of m' t' = upd_assoc k v (entries_of m t)"
proof (cases "t = \<langle>\<rangle>")
  case True
  let ?a = "brk (b_mem m)"
  let ?m = "\<lparr>b_mem = (b_mem m)\<lparr>cells := (cells (b_mem m))(?a \<mapsto> new_bnode k v None), brk := Suc ?a\<rparr>, b_root = Some ?a\<rparr>"
  have "cells (b_mem m) = Map.empty" using tree_ofD(4) [OF t] True by simp
  then have "tree_of \<langle>\<langle>\<rangle>, ?a, \<langle>\<rangle>\<rangle> ?m" "entries_of ?m \<langle>\<langle>\<rangle>, ?a, \<langle>\<rangle>\<rangle> = [(k, v)]"
    by (auto simp: tree_of_def lnk_def new_bnode_def mem_ok_def entries_of_def bdat_def)
  moreover have "bmap_insert k v m = Some ?m"
    using tree_ofD(1) [OF t] True by (simp add: bmap_insert_def heap_simps)
  moreover have "upd_assoc k v (entries_of m t) = [(k, v)]" using True by (simp add: entries_of_def upd_assoc_def)
  ultimately show ?thesis by metis
next
  case False
  have root: "b_root m = ptr_of t" "b_root m \<noteq> None" using tree_ofD(1) [OF t] False by simp_all
  have "owns (lnk (b_mem m)) None (plug [] t)" "ordered (map (bdat (b_mem m)) (inorder (plug [] t)))"
    "gap (b_mem m) k []" using tree_ofD(2,6) [OF t] by (simp_all add: gap_def)
  from insert_loop_ok [OF this, of v] consider
    a w n where "a \<in> set (inorder t)" "cells (b_mem m) a = Some n" "b_data n = (k, w)"
      "insert_loop k v (b_mem m) (ptr_of t) None =
        Some (Inl ((b_mem m)\<lparr>cells := (cells (b_mem m))(a \<mapsto> n\<lparr>b_data := (k, v)\<rparr>)\<rparr>))"
  | d where "insert_loop k v (b_mem m) (ptr_of t) None = Some (Inr (up d))" "plug d \<langle>\<rangle> = t" "gap (b_mem m) k d"
    by (auto simp: gap_def)
  then show ?thesis
  proof cases
    case 1
    from overwrite_ok [OF t 1(1-3), of v] show ?thesis using 1(4) root by (auto simp: bmap_insert_def)
  next
    case 2
    have "d \<noteq> []" using 2(2) False by auto
    from attach_ok [OF t [folded 2(2)] 2(3) this, of v] obtain n h m' a where
      n: "load (b_mem m) (up d) = Some n" "alloc (new_bnode k v (up d)) (b_mem m) = (Some a, h)"
      "(if k < fst (b_data n) then upd (up d) (b_left_update (\<lambda>_. Some a)) h
         else upd (up d) (b_right_update (\<lambda>_. Some a)) h) = Some (b_mem m')" "b_root m' = b_root m"
      "tree_of (plug d \<langle>\<langle>\<rangle>, a, \<langle>\<rangle>\<rangle>) m'"
      "entries_of m' (plug d \<langle>\<langle>\<rangle>, a, \<langle>\<rangle>\<rangle>) = upd_assoc k v (entries_of m (plug d \<langle>\<rangle>))" by blast
    have "bmap_insert k v m = Some (m\<lparr>b_mem := b_mem m'\<rparr>)"
      using 2(1) root n(1-3) by (simp add: bmap_insert_def)
    moreover have "m\<lparr>b_mem := b_mem m'\<rparr> = m'" using n(4) by (cases m; cases m') simp
    ultimately show ?thesis using n(5,6) 2(2) by auto
  qed
qed

section \<open>Removal\<close>

text \<open>A node with at most one child gives way to it.\<close>

definition single :: "nat tree \<Rightarrow> nat \<Rightarrow> nat tree \<Rightarrow> bool" where
  "single s a u \<longleftrightarrow> s = \<langle>\<langle>\<rangle>, a, u\<rangle> \<or> (s = \<langle>u, a, \<langle>\<rangle>\<rangle> \<and> u \<noteq> \<langle>\<rangle>)"

lemma singleD:
  assumes "single s a u" "owns f p s"
  shows "inorder s = a # inorder u \<or> inorder s = inorder u @ [a]" "ptr_of s = Some a"
    "\<exists>l r. f a = Some (l, r, p) \<and> (if l \<noteq> None then l else r) = ptr_of u" "owns f (Some a) u"
proof -
  consider "s = \<langle>\<langle>\<rangle>, a, u\<rangle>" | "s = \<langle>u, a, \<langle>\<rangle>\<rangle>" "u \<noteq> \<langle>\<rangle>" using assms(1) by (auto simp: single_def)
  then show "\<exists>l r. f a = Some (l, r, p) \<and> (if l \<noteq> None then l else r) = ptr_of u"
  proof cases
    case 1
    with assms(2) show ?thesis by (intro exI [of _ None] exI [of _ "ptr_of u"]) simp
  next
    case 2
    with assms(2) show ?thesis by (intro exI [of _ "ptr_of u"] exI [of _ None]) simp
  qed
qed (use assms in \<open>auto simp: single_def\<close>)

text \<open>The heap after \<open>child->_parent = node->_parent\<close>.\<close>

definition lift_child :: "ptr \<Rightarrow> ptr \<Rightarrow> ('k, 'v) bnode mem \<Rightarrow> ('k, 'v) bnode mem option" where
  "lift_child child p h = (if child \<noteq> None then upd child (b_parent_update (\<lambda>_. p)) h else Some h)"

lemma lift_child_ok:
  assumes "owns (lnk h) q u" "distinct (inorder u)" "set (inorder u) \<subseteq> dom (cells h)"
  shows "\<exists>h'. lift_child (ptr_of u) p h = Some h' \<and> owns (lnk h') p u \<and> bdat h' = bdat h \<and> brk h' = brk h \<and>
    dom (cells h') = dom (cells h) \<and> (\<forall>b. b \<notin> set (inorder u) \<longrightarrow> cells h' b = cells h b)"
proof (cases u)
  case Leaf
  then show ?thesis by (simp add: lift_child_def)
next
  case (Node l a r)
  then obtain n where n: "cells h a = Some n" using assms(3) by auto
  let ?h = "h\<lparr>cells := (cells h)(a \<mapsto> n\<lparr>b_parent := p\<rparr>)\<rparr>"
  have "owns ((lnk h)(a := map_option (\<lambda>(l, r, q). (l, r, p)) (lnk h a))) p u"
    using owns_up [OF assms(1) _ assms(2), of p] Node by simp
  moreover have "lnk ?h = (lnk h)(a := map_option (\<lambda>(l, r, q). (l, r, p)) (lnk h a))"
    using n by (auto simp: lnk_def fun_eq_iff)
  moreover have "bdat ?h = bdat h" using n by (auto simp: bdat_def fun_eq_iff)
  moreover have "lift_child (ptr_of u) p h = Some ?h" using n Node by (simp add: lift_child_def heap_simps)
  moreover have "dom (cells ?h) = dom (cells h)" using n by auto
  moreover have "\<forall>b. b \<notin> set (inorder u) \<longrightarrow> cells ?h b = cells h b" using Node by auto
  ultimately show ?thesis by (intro exI [of _ ?h]) simp
qed

lemma unlink_lift: "unlink node m = do {
     n \<leftarrow> load (b_mem m) node;
     h \<leftarrow> lift_child (if b_left n \<noteq> None then b_left n else b_right n) (b_parent n) (b_mem m);
     n' \<leftarrow> load h node;
     m \<leftarrow> (if b_parent n' = None
           then Some \<lparr>b_mem = h, b_root = (if b_left n \<noteq> None then b_left n else b_right n)\<rparr>
           else do {
             p \<leftarrow> load h (b_parent n');
             h \<leftarrow> (if node = b_left p
                   then upd (b_parent n') (b_left_update (\<lambda>_. if b_left n \<noteq> None then b_left n else b_right n)) h
                   else upd (b_parent n') (b_right_update (\<lambda>_. if b_left n \<noteq> None then b_left n else b_right n)) h);
             Some (m\<lparr>b_mem := h\<rparr>) });
     h \<leftarrow> dealloc node (b_mem m);
     Some (m\<lparr>b_mem := h\<rparr>) }"
  by (simp only: unlink_def lift_child_def Let_def)

text \<open>Setting the pointer of the parent to the child.\<close>

lemma relink_heap:
  assumes ctx: "owns_ctx (lnk h) (Some a) c" and up: "up c = Some p" and a: "a \<notin> set (before c @ after c)"
    and ps: "cells h p = Some n"
  shows "\<exists>n'. (if Some a = b_left n then upd (Some p) (b_left_update (\<lambda>_. q)) h
      else upd (Some p) (b_right_update (\<lambda>_. q)) h) = Some (h\<lparr>cells := (cells h)(p \<mapsto> n')\<rparr>) \<and>
    b_data n' = b_data n \<and> lnk (h\<lparr>cells := (cells h)(p \<mapsto> n')\<rparr>) = relink c q (lnk h)"
proof (cases c rule: up.cases)
  case (2 x r d)
  then have "x = p" "b_left n = Some a" using ctx up ps by (auto simp: lnk_def)
  then show ?thesis using 2 ps by (intro exI [of _ "n\<lparr>b_left := q\<rparr>"]) (auto simp: heap_simps lnk_def fun_eq_iff)
next
  case (3 l x d)
  then have "x = p" "b_left n = ptr_of l" using ctx up ps by (auto simp: lnk_def)
  moreover have "ptr_of l \<noteq> Some a" using a 3 by (cases l) auto
  ultimately show ?thesis using 3 ps by (intro exI [of _ "n\<lparr>b_right := q\<rparr>"]) (auto simp: heap_simps lnk_def fun_eq_iff)
qed (use up in simp)

definition shape_of :: "nat tree \<Rightarrow> ('k, 'v) bmap \<Rightarrow> bool" where
  "shape_of t m \<longleftrightarrow> b_root m = ptr_of t \<and> owns (lnk (b_mem m)) None t \<and> distinct (inorder t) \<and>
     dom (cells (b_mem m)) = set (inorder t) \<and> mem_ok (b_mem m)"

lemma tree_of_shape: "tree_of t m \<longleftrightarrow> shape_of t m \<and> ordered (entries_of m t)"
  by (auto simp: tree_of_def shape_of_def entries_of_def)

lemma shape_ofD:
  assumes "shape_of t m"
  shows "b_root m = ptr_of t" "owns (lnk (b_mem m)) None t" "distinct (inorder t)"
    "dom (cells (b_mem m)) = set (inorder t)" "mem_ok (b_mem m)"
  using assms unfolding shape_of_def by blast+

text \<open>Deleting a node that is no longer part of the tree.\<close>

lemma dealloc_shape:
  assumes r: "b_root m = ptr_of t" and o: "owns (lnk (b_mem m)) None t" and d: "distinct (inorder t)"
    and dom: "dom (cells (b_mem m)) = insert a (set (inorder t))" and a: "a \<notin> set (inorder t)" and ok: "mem_ok (b_mem m)"
  shows "\<exists>h. dealloc (Some a) (b_mem m) = Some h \<and> shape_of t (m\<lparr>b_mem := h\<rparr>) \<and>
    (\<forall>b. b \<noteq> a \<longrightarrow> bdat h b = bdat (b_mem m) b)"
proof -
  let ?h = "(b_mem m)\<lparr>cells := (cells (b_mem m))(a := None)\<rparr>"
  obtain n where n: "cells (b_mem m) a = Some n" using dom by auto
  have "owns (lnk ?h) None t = owns (lnk (b_mem m)) None t"
    by (rule owns_cong) (use a in \<open>auto simp: lnk_def\<close>)
  then have "shape_of t (m\<lparr>b_mem := ?h\<rparr>)"
    using r o d dom a ok by (auto simp: shape_of_def mem_ok_def)
  moreover have "\<forall>b. b \<noteq> a \<longrightarrow> bdat ?h b = bdat (b_mem m) b" by (simp add: bdat_def)
  ultimately show ?thesis using n by (intro exI [of _ ?h]) (simp add: heap_simps)
qed

lemma unlink_ok:
  assumes sh: "shape_of (plug c s) m" and sg: "single s a u"
  shows "\<exists>m'. unlink (Some a) m = Some m' \<and> shape_of (plug c u) m' \<and>
    (\<forall>b. b \<noteq> a \<longrightarrow> bdat (b_mem m') b = bdat (b_mem m) b)"
proof -
  let ?h = "b_mem m"
  have os: "owns (lnk ?h) (up c) s" and oc: "owns_ctx (lnk ?h) (ptr_of s) c"
    using shape_ofD(2) [OF sh] by (simp_all add: owns_plug)
  note s = singleD [OF sg os]
  have io: "set (inorder s) = insert a (set (inorder u))" using s(1) by (auto simp del: set_inorder)
  have dis: "distinct (before c @ after c)" "distinct (inorder u)" "a \<notin> set (inorder u)" "a \<notin> set (before c @ after c)"
    "set (inorder u) \<inter> set (before c @ after c) = {}" using shape_ofD(3) [OF sh] s(1) by (auto simp del: set_inorder)
  from s(3) obtain n where n: "cells ?h a = Some n" "(if b_left n \<noteq> None then b_left n else b_right n) = ptr_of u"
    "b_parent n = up c" by (auto elim!: lnkE)
  have "set (inorder u) \<subseteq> dom (cells ?h)" using shape_ofD(4) [OF sh] io by auto
  from lift_child_ok [OF s(4) dis(2) this, of "up c"] obtain h1 where
    h1: "lift_child (ptr_of u) (up c) ?h = Some h1" "owns (lnk h1) (up c) u" "bdat h1 = bdat ?h" "brk h1 = brk ?h"
    "dom (cells h1) = dom (cells ?h)" "\<forall>b. b \<notin> set (inorder u) \<longrightarrow> cells h1 b = cells ?h b" by blast
  have ca: "cells h1 a = Some n" using h1(6) dis(3) n(1) by simp
  have ok1: "mem_ok h1" using shape_ofD(5) [OF sh] h1(4,5) by (simp add: mem_ok_def)
  have dom1: "dom (cells h1) = insert a (set (inorder (plug c u)))" using h1(5) shape_ofD(4) [OF sh] io by auto
  have a: "a \<notin> set (inorder (plug c u))" and dpl: "distinct (inorder (plug c u))" using dis by auto
  have "owns_ctx (lnk h1) (Some a) c = owns_ctx (lnk ?h) (Some a) c"
    by (rule owns_ctx_cong) (use h1(6) dis(5) in \<open>auto simp: lnk_def\<close>)
  then have oc1: "owns_ctx (lnk h1) (Some a) c" using oc s(2) by simp
  show ?thesis
  proof (cases "up c")
    case None
    then have c: "c = []" by (cases c rule: up.cases) auto
    let ?m = "\<lparr>b_mem = h1, b_root = ptr_of u\<rparr>"
    from dealloc_shape [of ?m "plug c u" a] h1(2) None c dpl dom1 a ok1 obtain h2 where
      h2: "dealloc (Some a) h1 = Some h2" "shape_of (plug c u) (?m\<lparr>b_mem := h2\<rparr>)" "\<forall>b. b \<noteq> a \<longrightarrow> bdat h2 b = bdat h1 b"
      by auto
    have "unlink (Some a) m = Some (?m\<lparr>b_mem := h2\<rparr>)"
      unfolding unlink_lift using n ca h1(1) h2(1) None by (simp add: heap_simps)
    then show ?thesis using h2(2,3) h1(3) by auto
  next
    case (Some p)
    have p: "p \<in> set (before c @ after c)" using up_in [OF Some] .
    then obtain np where np: "cells h1 p = Some np" using dom1 by auto
    from relink_heap [OF oc1 Some dis(4) np, of "ptr_of u"] obtain n' where
      up2: "(if Some a = b_left np then upd (Some p) (b_left_update (\<lambda>_. ptr_of u)) h1
      else upd (Some p) (b_right_update (\<lambda>_. ptr_of u)) h1) = Some (h1\<lparr>cells := (cells h1)(p \<mapsto> n')\<rparr>)"
      "b_data n' = b_data np" "lnk (h1\<lparr>cells := (cells h1)(p \<mapsto> n')\<rparr>) = relink c (ptr_of u) (lnk h1)" by blast
    let ?h2 = "h1\<lparr>cells := (cells h1)(p \<mapsto> n')\<rparr>"
    let ?m = "m\<lparr>b_mem := ?h2\<rparr>"
    have "owns_ctx (lnk ?h2) (ptr_of u) c" unfolding up2(3) by (rule owns_ctx_relink [OF oc1 dis(1)])
    moreover have "owns (lnk ?h2) (up c) u = owns (lnk h1) (up c) u"
      unfolding up2(3) by (rule owns_cong, rule ballI, rule relink_other) (use Some p dis(5) in auto)
    ultimately have o2: "owns (lnk ?h2) None (plug c u)" using h1(2) by (simp add: owns_plug)
    have "c \<noteq> []" using Some by auto
    then have r2: "b_root ?m = ptr_of (plug c u)" using shape_ofD(1) [OF sh] plug_root [of c s u] by simp
    have dom2: "dom (cells ?h2) = insert a (set (inorder (plug c u)))" using dom1 p by auto
    have ok2: "mem_ok ?h2" using mem_ok_upd [OF ok1 np] .
    from dealloc_shape [of ?m "plug c u" a] o2 r2 dpl dom2 a ok2 obtain h3 where
      h3: "dealloc (Some a) ?h2 = Some h3" "shape_of (plug c u) (m\<lparr>b_mem := h3\<rparr>)" "\<forall>b. b \<noteq> a \<longrightarrow> bdat h3 b = bdat ?h2 b"
      by auto
    have "unlink (Some a) m = Some (m\<lparr>b_mem := h3\<rparr>)"
      unfolding unlink_lift using n ca h1(1) h3(1) Some np up2(1)
      by (cases "b_left np = Some a") (simp_all add: load_simps eq_commute [of "Some a"])
    moreover have "bdat ?h2 = bdat ?h" unfolding h1(3) [symmetric] using np up2(2) by (auto simp: bdat_def fun_eq_iff)
    ultimately show ?thesis using h3(2,3) by auto
  qed
qed

lemma del_assoc_mid:
  assumes "tree_of (plug c \<langle>l, a, r\<rangle>) m" "bdat (b_mem m) a = (k, w)"
  shows "del_assoc k (entries_of m (plug c \<langle>l, a, r\<rangle>)) = map (bdat (b_mem m)) (before c @ inorder l @ inorder r @ after c)"
proof -
  have "ordered ((map (bdat (b_mem m)) (before c) @ map (bdat (b_mem m)) (inorder l)) @ (k, w) #
      (map (bdat (b_mem m)) (inorder r) @ map (bdat (b_mem m)) (after c)))"
    using tree_ofD(6) [OF assms(1)] assms(2) by simp
  from del_assoc_here [OF this] show ?thesis using assms(2) by (simp add: entries_of_def)
qed

lemma bmap_erase_ok:
  assumes t: "tree_of t m"
  shows "\<exists>t' m'. bmap_erase k m = Some m' \<and> tree_of t' m' \<and> entries_of m' t' = del_assoc k (entries_of m t)"
proof (rule bmap_find_ok [OF t, of k])
  assume "bmap_find k m = Some None" "map_of (entries_of m t) k = None"
  moreover from this(2) have "del_assoc k (entries_of m t) = entries_of m t"
    by (auto simp: del_assoc_def map_of_eq_None_iff intro!: filter_True)
  ultimately show ?thesis using t by (auto simp: bmap_erase_def)
next
  fix a w
  assume f: "bmap_find k m = Some (Some a)" "a \<in> set (inorder t)" and d: "bdat (b_mem m) a = (k, w)"
  let ?h = "b_mem m"
  obtain c l r where tc: "t = plug c \<langle>l, a, r\<rangle>" using split_tree f(2) by fastforce
  note t' = t [unfolded tc]
  have sh: "shape_of (plug c \<langle>l, a, r\<rangle>) m" using t' by (simp add: tree_of_shape)
  have "owns (lnk ?h) (up c) \<langle>l, a, r\<rangle>" using tree_ofD(2) [OF t'] by (simp add: owns_plug)
  then obtain n where n: "cells ?h a = Some n" "b_left n = ptr_of l" "b_right n = ptr_of r" by (auto elim: lnkE)
  have dis: "distinct (before c @ (inorder l @ a # inorder r) @ after c)" using tree_ofD(3) [OF t'] by simp
  have od: "ordered (del_assoc k (entries_of m t))"
    by (rule ordered_del_assoc) (use t in \<open>simp add: tree_of_shape\<close>)
  show ?thesis
  proof (cases "l = \<langle>\<rangle> \<or> r = \<langle>\<rangle>")
    case True
    obtain u where u: "single \<langle>l, a, r\<rangle> a u" "inorder u = inorder l @ inorder r"
      using True by (cases "l = \<langle>\<rangle>") (auto simp: single_def)
    from unlink_ok [OF sh u(1)] obtain m' where
      m': "unlink (Some a) m = Some m'" "shape_of (plug c u) m'" "\<forall>b. b \<noteq> a \<longrightarrow> bdat (b_mem m') b = bdat ?h b" by blast
    have "entries_of m' (plug c u) = map (bdat ?h) (before c @ inorder l @ inorder r @ after c)"
      using m'(3) dis u(2) by (auto simp: entries_of_def)
    then have e: "entries_of m' (plug c u) = del_assoc k (entries_of m t)"
      unfolding tc del_assoc_mid [OF t' d] .
    have "bmap_erase k m = Some m'" using f(1) n m'(1) True by (auto simp: bmap_erase_def heap_simps)
    moreover have "tree_of (plug c u) m'" using m'(2) e od by (simp add: tree_of_shape)
    ultimately show ?thesis using e by blast
  next
    case False
    define s where "s = hd (inorder r)"
    from leftmost [of r] False obtain c2 r2 where c2: "r = plug c2 \<langle>\<langle>\<rangle>, s, r2\<rangle>" "before c2 = []"
      unfolding s_def by blast
    let ?c = "c2 @ InRight l a # c"
    have pl: "plug c \<langle>l, a, r\<rangle> = plug ?c \<langle>\<langle>\<rangle>, s, r2\<rangle>" using c2(1) by (simp add: plug_append)
    have ir: "inorder r = s # inorder r2 @ after c2" using c2 by simp
    have s: "successor ?h (Some a) = Some (Some s)"
      using successor_ok [OF tree_ofD(2,3) [OF t']] ir by (simp add: hd_ptr_def)
    obtain ns where ns: "cells ?h s = Some ns" using tree_ofD(4) [OF t'] ir by auto
    have ne: "s \<noteq> a" using dis ir by auto
    let ?h1 = "?h\<lparr>cells := (cells ?h)(a \<mapsto> n\<lparr>b_data := b_data ns\<rparr>)\<rparr>"
    let ?m1 = "m\<lparr>b_mem := ?h1\<rparr>"
    have lnk1: "lnk ?h1 = lnk ?h" using n(1) by (auto simp: lnk_def fun_eq_iff)
    have dat1: "bdat ?h1 = (bdat ?h)(a := bdat ?h s)" using ns by (auto simp: bdat_def fun_eq_iff)
    have "shape_of (plug ?c \<langle>\<langle>\<rangle>, s, r2\<rangle>) ?m1"
      using sh lnk1 n(1) mem_ok_upd [OF tree_ofD(5) [OF t'] n(1)] unfolding pl [symmetric]
      by (auto simp: shape_of_def)
    from unlink_ok [OF this, of s r2] obtain m' where
      m': "unlink (Some s) ?m1 = Some m'" "shape_of (plug ?c r2) m'" "\<forall>b. b \<noteq> s \<longrightarrow> bdat (b_mem m') b = bdat ?h1 b"
      by (auto simp: single_def)
    have "inorder (plug ?c r2) = before c @ inorder l @ a # inorder r2 @ after c2 @ after c"
      using c2(2) by (simp add: before_append after_append)
    then have "entries_of m' (plug ?c r2) = map (bdat ?h) (before c @ inorder l @ s # inorder r2 @ after c2 @ after c)"
      using m'(3) dis ir ne dat1 by (auto simp: entries_of_def)
    then have e: "entries_of m' (plug ?c r2) = del_assoc k (entries_of m t)"
      unfolding tc del_assoc_mid [OF t' d] ir by simp
    have "bmap_erase k m = Some m'"
      using f(1) n ns s m'(1) False by (simp add: bmap_erase_def heap_simps)
    moreover have "tree_of (plug ?c r2) m'" using m'(2) e od by (simp add: tree_of_shape)
    ultimately show ?thesis using e by blast
  qed
qed

section \<open>Clearing\<close>

lemma clear_nodes_ok:
  "owns (lnk h) p t \<Longrightarrow> distinct (inorder t) \<Longrightarrow>
   clear_nodes (ptr_of t) h = Some (h\<lparr>cells := cells h |` (- set (inorder t))\<rparr>)"
proof (induction t arbitrary: p h)
  case Leaf
  then show ?case by (simp add: clear_nodes.simps)
next
  case (Node l a r)
  obtain n where n: "cells h a = Some n" "b_left n = ptr_of l" "b_right n = ptr_of r"
    using Node.prems(1) by (auto elim: lnkE)
  let ?h1 = "h\<lparr>cells := cells h |` (- set (inorder l))\<rparr>"
  let ?h2 = "h\<lparr>cells := cells h |` (- set (inorder l @ inorder r))\<rparr>"
  have "clear_nodes (ptr_of l) h = Some ?h1" by (rule Node.IH(1) [of h "Some a"]) (use Node.prems in auto)
  moreover have "owns (lnk ?h1) (Some a) r = owns (lnk h) (Some a) r"
    by (rule owns_cong) (use Node.prems(2) in \<open>auto simp: lnk_def restrict_map_def\<close>)
  then have "clear_nodes (ptr_of r) ?h1 = Some (?h1\<lparr>cells := cells ?h1 |` (- set (inorder r))\<rparr>)"
    by (intro Node.IH(2) [of ?h1 "Some a"]) (use Node.prems in auto)
  moreover have "cells ?h1 |` (- set (inorder r)) = cells ?h2" by (auto simp: restrict_map_def fun_eq_iff)
  moreover have "cells ?h1 a = Some n" "cells ?h2 a = Some n" using n(1) Node.prems(2) by (auto simp: restrict_map_def)
  moreover have "(cells ?h2)(a := None) = cells h |` (- set (inorder \<langle>l, a, r\<rangle>))"
    by (auto simp: restrict_map_def fun_eq_iff)
  ultimately show ?case using n by (subst clear_nodes.simps) (simp add: heap_simps)
qed

lemma bmap_clear_ok:
  assumes "tree_of t m"
  shows "\<exists>m'. bmap_clear m = Some m' \<and> cells (b_mem m') = Map.empty \<and> tree_of \<langle>\<rangle> m'"
proof -
  let ?h = "(b_mem m)\<lparr>cells := cells (b_mem m) |` (- set (inorder t))\<rparr>"
  have "cells ?h = Map.empty" using tree_ofD(4) [OF assms] by (auto simp: restrict_map_def fun_eq_iff domIff)
  moreover have "bmap_clear m = Some \<lparr>b_mem = ?h, b_root = None\<rparr>"
    using clear_nodes_ok [OF tree_ofD(2,3) [OF assms]] tree_ofD(1) [OF assms] by (simp add: bmap_clear_def)
  ultimately show ?thesis by (simp add: tree_of_def mem_ok_def)
qed

section \<open>Iteration\<close>

lemma successor_inorder:
  assumes t: "tree_of t m" and uv: "inorder t = us @ a # vs"
  shows "successor (b_mem m) (Some a) = Some (hd_ptr vs)"
proof -
  have "a \<in> set_tree t" using uv by (metis in_set_conv_decomp set_inorder)
  then obtain c l r where tc: "t = plug c \<langle>l, a, r\<rangle>" using split_tree by blast
  have "us @ a # vs = (before c @ inorder l) @ a # (inorder r @ after c)" using uv tc by simp
  moreover have "distinct (us @ a # vs)" using tree_ofD(3) [OF t] uv by simp
  ultimately have "vs = inorder r @ after c" by (metis append_Cons_eq_iff distinct.simps(2) distinct_append not_distinct_conv_prefix)
  then show ?thesis using successor_ok [OF tree_ofD(2,3) [OF t, unfolded tc]] by simp
qed

text \<open>The pairs a loop from \<open>it\<close> to \<open>end()\<close> sees.\<close>

partial_function (option) walk :: "('k, 'v) bmap \<Rightarrow> ptr \<Rightarrow> ('k \<times> 'v) list option" where
  "walk m it = (if it = bmap_end m then Some []
     else Option.bind (biter_deref m it) (\<lambda>d. Option.bind (successor (b_mem m) it) (\<lambda>it.
       Option.bind (walk m it) (\<lambda>ds. Some (d # ds)))))"

lemma tree_node:
  assumes "tree_of t m" "a \<in> set (inorder t)"
  shows "biter_deref m (Some a) = Some (bdat (b_mem m) a)"
proof -
  have "a \<in> dom (cells (b_mem m))" unfolding tree_ofD(4) [OF assms(1)] by (rule assms(2))
  then obtain n where "cells (b_mem m) a = Some n" by blast
  then show ?thesis by (simp add: biter_deref_def heap_simps bdat_def)
qed

lemma walk_ok: "tree_of t m \<Longrightarrow> inorder t = us @ vs \<Longrightarrow> walk m (hd_ptr vs) = Some (map (bdat (b_mem m)) vs)"
proof (induction vs arbitrary: us)
  case Nil
  then show ?case by (simp add: walk.simps hd_ptr_def bmap_end_def)
next
  case (Cons a vs)
  have "biter_deref m (Some a) = Some (bdat (b_mem m) a)" by (rule tree_node [OF Cons.prems(1)]) (simp add: Cons.prems(2) del: set_inorder)
  moreover have "inorder t = (us @ [a]) @ vs" using Cons.prems(2) by simp
  from Cons.IH [OF Cons.prems(1) this] have "walk m (hd_ptr vs) = Some (map (bdat (b_mem m)) vs)" .
  ultimately show ?case using successor_inorder [OF Cons.prems]
    by (subst walk.simps) (simp add: bmap_end_def hd_ptr_def [of "a # vs"])
qed

lemma begin_hd: "tree_of t m \<Longrightarrow> bmap_begin m = Some (hd_ptr (inorder t))"
  using minium_ok tree_ofD(1,2) by (fastforce simp: bmap_begin_def)

section \<open>The map contract\<close>

definition bmap_get :: "('k::linorder, 'v) bmap \<Rightarrow> 'k \<Rightarrow> 'v option" where
  "bmap_get m key = do { node \<leftarrow> bmap_find key m; d \<leftarrow> biter_deref m node; Some (snd d) }"

definition bmap_inv :: "('k::linorder, 'v) bmap \<Rightarrow> bool" where
  "bmap_inv m \<longleftrightarrow> (\<exists>t. tree_of t m)"

lemma bmap_get_ok:
  assumes "tree_of t m"
  shows "bmap_get m = map_of (entries_of m t)"
proof
  fix k
  show "bmap_get m k = map_of (entries_of m t) k"
  proof (rule bmap_find_ok [OF assms, of k])
    assume "bmap_find k m = Some None" "map_of (entries_of m t) k = None"
    then show ?thesis by (simp add: bmap_get_def biter_deref_def heap_simps)
  next
    fix a v
    assume "bmap_find k m = Some (Some a)" "a \<in> set (inorder t)" "bdat (b_mem m) a = (k, v)"
      "map_of (entries_of m t) k = Some v"
    then show ?thesis using tree_node [OF assms] by (simp add: bmap_get_def)
  qed
qed

lemma bmap_new_tree: "tree_of \<langle>\<rangle> bmap_new"
  by (simp add: tree_of_def bmap_new_def mem_empty_def mem_ok_def)

interpretation bstm: erase_map "bmap_new :: ('k::linorder, 'v) bmap" bmap_insert bmap_get bmap_inv bmap_erase
proof unfold_locales
  show "bmap_inv (bmap_new :: ('k, 'v) bmap)" using bmap_new_tree by (auto simp: bmap_inv_def)
  show "bmap_get (bmap_new :: ('k, 'v) bmap) = Map.empty"
    unfolding bmap_get_ok [OF bmap_new_tree] by (simp add: entries_of_def)
next
  fix m :: "('k, 'v) bmap" and k v
  assume "bmap_inv m"
  then obtain t where t: "tree_of t m" by (auto simp: bmap_inv_def)
  from bmap_insert_ok [OF t, of k v] obtain t' m' where
    m': "bmap_insert k v m = Some m'" "tree_of t' m'" "entries_of m' t' = upd_assoc k v (entries_of m t)" by blast
  then have "bmap_get m' = (bmap_get m)(k \<mapsto> v)"
    unfolding bmap_get_ok [OF t] bmap_get_ok [OF m'(2)] by (simp add: assoc_simps)
  then show "\<exists>m'. bmap_insert k v m = Some m' \<and> bmap_inv m' \<and> bmap_get m' = (bmap_get m)(k \<mapsto> v)"
    using m' by (auto simp: bmap_inv_def)
  from bmap_erase_ok [OF t, of k] obtain t'' m'' where
    m'': "bmap_erase k m = Some m''" "tree_of t'' m''" "entries_of m'' t'' = del_assoc k (entries_of m t)" by blast
  then have "bmap_get m'' = (bmap_get m)(k := None)"
    unfolding bmap_get_ok [OF t] bmap_get_ok [OF m''(2)] by (simp add: assoc_simps)
  then show "\<exists>m'. bmap_erase k m = Some m' \<and> bmap_inv m' \<and> bmap_get m' = (bmap_get m)(k := None)"
    using m'' by (auto simp: bmap_inv_def)
qed

fun biter_plus :: "('k, 'v) bmap \<Rightarrow> nat \<Rightarrow> ptr \<Rightarrow> ptr option" where
  "biter_plus m 0 it = Some it"
| "biter_plus m (Suc i) it = Option.bind (successor (b_mem m) it) (biter_plus m i)"

lemma biter_plus_ok:
  "tree_of t m \<Longrightarrow> inorder t = us @ vs \<Longrightarrow> i \<le> length vs \<Longrightarrow> biter_plus m i (hd_ptr vs) = Some (hd_ptr (drop i vs))"
proof (induction i arbitrary: us vs)
  case (Suc i)
  then obtain a vs' where vs: "vs = a # vs'" "i \<le> length vs'" by (cases vs) auto
  have "inorder t = (us @ [a]) @ vs'" using Suc.prems(2) vs by simp
  from Suc.IH [OF Suc.prems(1) this vs(2)] successor_inorder [OF Suc.prems(1) Suc.prems(2) [unfolded vs(1)]] vs(1)
  show ?case by (simp add: hd_ptr_def [of "a # vs'"])
qed simp

section \<open>Properties\<close>

text \<open>C9: A search-tree map refines a finite map: whatever history of \<open>insert\<close> and \<open>erase\<close> calls is run on a new
  map, no null or deleted node is touched and no loop runs for ever; \<open>find\<close> then answers every key as the
  finite map does, stepping from \<open>begin()\<close> to \<open>end()\<close> by \<open>successor\<close> yields exactly its bindings in
  increasing order, and \<open>clear\<close> deletes every node exactly once.\<close>

theorem bst_history_correct:
  "\<exists>m. run_ops bmap_insert bmap_erase cs bmap_new = Some m \<and> bmap_get m = spec_ops cs Map.empty \<and>
     (\<exists>it kvs. bmap_begin m = Some it \<and> walk m it = Some kvs \<and> ordered kvs \<and> map_of kvs = spec_ops cs Map.empty) \<and>
     (\<exists>m'. bmap_clear m = Some m' \<and> cells (b_mem m') = Map.empty)"
proof -
  from bstm.run_ops_from_empty [of cs] obtain m where m: "run_ops bmap_insert bmap_erase cs bmap_new = Some m"
    "bmap_inv m" "bmap_get m = spec_ops cs Map.empty" by blast
  from m(2) obtain t where t: "tree_of t m" by (auto simp: bmap_inv_def)
  have "walk m (hd_ptr (inorder t)) = Some (entries_of m t)"
    using walk_ok [OF t, of "[]" "inorder t"] by (simp add: entries_of_def)
  moreover have "ordered (entries_of m t)" using tree_ofD(6) [OF t] by (simp add: entries_of_def)
  moreover have "map_of (entries_of m t) = spec_ops cs Map.empty" using bmap_get_ok [OF t] m(3) by simp
  moreover obtain m' where "bmap_clear m = Some m'" "cells (b_mem m') = Map.empty" using bmap_clear_ok [OF t] by blast
  ultimately show ?thesis using m(1,3) begin_hd [OF t] by blast
qed

text \<open>\<open>operator[]\<close> refers to the value bound to the key, and for a missing key inserts the default value
  first; no other binding changes.\<close>

theorem bst_index_correct:
  assumes "bmap_inv m"
  shows "\<exists>p m'. bmap_index dflt k m = Some (p, m') \<and> bmap_inv m' \<and>
    biter_deref m' p = Some (k, case bmap_get m k of None \<Rightarrow> dflt | Some v \<Rightarrow> v) \<and>
    bmap_get m' = (bmap_get m)(k \<mapsto> (case bmap_get m k of None \<Rightarrow> dflt | Some v \<Rightarrow> v))"
proof -
  from assms obtain t where t: "tree_of t m" by (auto simp: bmap_inv_def)
  note g = bmap_get_ok [OF t]
  show ?thesis
  proof (rule bmap_find_ok [OF t, of k])
    fix a v
    assume a: "bmap_find k m = Some (Some a)" "a \<in> set (inorder t)" "bdat (b_mem m) a = (k, v)"
      "map_of (entries_of m t) k = Some v"
    have "biter_deref m (Some a) = Some (k, v)" using tree_node [OF t a(2)] a(3) by simp
    moreover have "bmap_index dflt k m = Some (Some a, m)" using a(1) by (simp add: bmap_index_def)
    ultimately show ?thesis using assms a(4) g by (auto simp: fun_eq_iff)
  next
    assume n: "bmap_find k m = Some None" "map_of (entries_of m t) k = None"
    from bmap_insert_ok [OF t, of k dflt] obtain t' m' where m': "bmap_insert k dflt m = Some m'" "tree_of t' m'"
      "entries_of m' t' = upd_assoc k dflt (entries_of m t)" by blast
    have g': "bmap_get m' = (bmap_get m)(k \<mapsto> dflt)" unfolding g bmap_get_ok [OF m'(2)] m'(3) by (simp add: assoc_simps)
    then have "map_of (entries_of m' t') k = Some dflt" using bmap_get_ok [OF m'(2)] by simp
    then obtain a where a: "bmap_find k m' = Some (Some a)" "a \<in> set (inorder t')" "bdat (b_mem m') a = (k, dflt)"
      by (rule_tac bmap_find_ok [OF m'(2), of k]) auto
    have d: "biter_deref m' (Some a) = Some (k, dflt)" using tree_node [OF m'(2) a(2)] a(3) by simp
    then have "bmap_index dflt k m = Some (Some a, m')"
      using n(1) m'(1) a(1) by (auto simp: bmap_index_def biter_deref_def)
    moreover have "bmap_get m k = None" using n(2) g by simp
    ultimately show ?thesis using d g' m'(2) by (auto simp: bmap_inv_def)
  qed
qed

theorem bst_index_correct_witness:
  "\<exists>p m'. bmap_index (7::nat) (3::nat) bmap_new = Some (p, m') \<and> biter_deref m' p = Some (3, 7)"
proof -
  have g: "bmap_get bmap_new (3::nat) = (None :: nat option)" using bstm.get_empty by metis
  from bst_index_correct [OF bstm.invar_empty, of "7::nat" "3::nat"] show ?thesis unfolding g by auto
qed

text \<open>The increment operator returns a reference through the new position, so on the last element, where
  \<open>successor\<close> gives \<open>end()\<close>, it forms a reference through a null pointer: undefined behaviour.  On every
  other element it moves to the next binding and returns it.\<close>

theorem bst_increment:
  assumes "bmap_inv m" "bmap_begin m = Some it" "walk m it = Some kvs" "i < length kvs"
  shows "\<exists>jt. biter_plus m i it = Some jt \<and> biter_deref m jt = Some (kvs ! i) \<and>
    (if Suc i < length kvs then \<exists>jt'. biter_inc m jt = Some (jt', kvs ! Suc i)
     else successor (b_mem m) jt = Some (bmap_end m) \<and> biter_inc m jt = None)"
proof -
  from assms(1) obtain t where t: "tree_of t m" by (auto simp: bmap_inv_def)
  have it: "it = hd_ptr (inorder t)" using begin_hd [OF t] assms(2) by simp
  then have kvs: "kvs = map (bdat (b_mem m)) (inorder t)"
    using walk_ok [OF t, of "[]" "inorder t"] assms(3) by simp
  then have i: "i < length (inorder t)" using assms(4) by simp
  let ?a = "inorder t ! i"
  have sp: "inorder t = take i (inorder t) @ ?a # drop (Suc i) (inorder t)" using id_take_nth_drop [OF i] .
  have p: "biter_plus m i it = Some (Some ?a)"
    using biter_plus_ok [OF t, of "[]" "inorder t" i] i it by (simp add: hd_ptr_def Cons_nth_drop_Suc [symmetric])
  have d: "biter_deref m (Some ?a) = Some (kvs ! i)"
    using tree_node [OF t, of ?a] i kvs by (metis nth_map nth_mem)
  have s: "successor (b_mem m) (Some ?a) = Some (hd_ptr (drop (Suc i) (inorder t)))" by (rule successor_inorder [OF t sp])
  show ?thesis
  proof (cases "Suc i < length kvs")
    case True
    then have j: "Suc i < length (inorder t)" using kvs by simp
    have "successor (b_mem m) (Some ?a) = Some (Some (inorder t ! Suc i))"
      using s j by (simp add: hd_ptr_def Cons_nth_drop_Suc [symmetric])
    moreover have "biter_deref m (Some (inorder t ! Suc i)) = Some (kvs ! Suc i)"
      using tree_node [OF t, of "inorder t ! Suc i"] j kvs by (metis nth_map nth_mem)
    ultimately show ?thesis using p d True by (simp add: biter_inc_def)
  next
    case False
    then have "drop (Suc i) (inorder t) = []" using kvs by simp
    then have "successor (b_mem m) (Some ?a) = Some (bmap_end m)" using s by (simp add: hd_ptr_def bmap_end_def)
    then show ?thesis using p d False by (simp add: biter_inc_def bmap_end_def biter_deref_def heap_simps)
  qed
qed

theorem bst_increment_witness:
  "\<exists>m it jt. bmap_insert (1::nat) (2::nat) bmap_new = Some m \<and> bmap_begin m = Some it \<and> biter_plus m 0 it = Some jt \<and>
     successor (b_mem m) jt = Some (bmap_end m) \<and> biter_inc m jt = None"
proof -
  from bmap_insert_ok [OF bmap_new_tree, of "1::nat" "2::nat"] obtain t m where
    m: "bmap_insert (1::nat) (2::nat) bmap_new = Some m" "tree_of t m"
    "entries_of m t = upd_assoc 1 2 (entries_of bmap_new \<langle>\<rangle>)" by blast
  then have e: "entries_of m t = [(1, 2)]" by (simp add: entries_of_def upd_assoc_def)
  have b: "bmap_begin m = Some (hd_ptr (inorder t))" by (rule begin_hd [OF m(2)])
  have w: "walk m (hd_ptr (inorder t)) = Some [(1, 2)]"
    using walk_ok [OF m(2), of "[]" "inorder t"] e by (simp add: entries_of_def)
  have inv: "bmap_inv m" using m(2) by (auto simp: bmap_inv_def)
  from bst_increment [OF inv b w, of 0] m(1) b show ?thesis by auto
qed

end
