(* ===== verification/Heap_Alloc.thy ===== *)
theory Heap_Alloc
  imports Interfaces
begin

text \<open>
  The boundary-tag allocator of src/csapp/chapter9/malloc/mm.c on the simulated memory system of memlib.c:
  an implicit free list, first fit, splitting and coalescing.

  The memory is the array \<open>mem_heap\<close> of bytes, addressed from its start; what it holds before it is
  written is arbitrary.  \<open>None\<close> is a word access outside the part obtained by \<open>mem_sbrk\<close> or a
  misaligned one.  Sizes of type \<open>size_t\<close> are reduced modulo $2^{64}$ and header words modulo $2^{32}$.
\<close>

unbundle bit_operations_syntax

section \<open>The memory system\<close>

record mm =
  byte_at :: "int \<Rightarrow> int"
  mem_brk :: int
  heap_listp :: "int option"

definition MAX_HEAP :: int where "MAX_HEAP = 20 * 2 ^ 20"

text \<open>The conversion of a \<open>size_t\<close> to the \<open>int\<close> parameter.\<close>

definition to_int :: "int \<Rightarrow> int" where
  "to_int n = (if n mod 2 ^ 32 < 2 ^ 31 then n mod 2 ^ 32 else n mod 2 ^ 32 - 2 ^ 32)"

definition mem_sbrk :: "int \<Rightarrow> mm \<Rightarrow> int option \<times> mm" where
  "mem_sbrk incr m =
     (if incr < 0 \<or> mem_brk m + incr > MAX_HEAP then (None, m)
      else (Some (mem_brk m), m\<lparr>mem_brk := mem_brk m + incr\<rparr>))"

definition mem_heapsize :: "mm \<Rightarrow> int" where
  "mem_heapsize m = mem_brk m"

definition mem_reset_brk :: "mm \<Rightarrow> mm" where
  "mem_reset_brk m = m\<lparr>mem_brk := 0\<rparr>"

section \<open>Words and the macros\<close>

definition word_at :: "(int \<Rightarrow> int) \<Rightarrow> int \<Rightarrow> int" where
  "word_at f p = f p + 2 ^ 8 * f (p + 1) + 2 ^ 16 * f (p + 2) + 2 ^ 24 * f (p + 3)"

definition put_word :: "int \<Rightarrow> int \<Rightarrow> (int \<Rightarrow> int) \<Rightarrow> (int \<Rightarrow> int)" where
  "put_word p v f = f(p := v mod 2 ^ 8, p + 1 := v div 2 ^ 8 mod 2 ^ 8, p + 2 := v div 2 ^ 16 mod 2 ^ 8,
     p + 3 := v div 2 ^ 24 mod 2 ^ 8)"

definition valid :: "int \<Rightarrow> mm \<Rightarrow> bool" where
  "valid p m \<longleftrightarrow> 0 \<le> p \<and> p mod 4 = 0 \<and> p + 4 \<le> mem_brk m"

definition GET :: "mm \<Rightarrow> int \<Rightarrow> int option" where
  "GET m p = (if valid p m then Some (word_at (byte_at m) p) else None)"

definition PUT :: "int \<Rightarrow> int \<Rightarrow> mm \<Rightarrow> mm option" where
  "PUT p v m = (if valid p m then Some (m\<lparr>byte_at := put_word p (v mod 2 ^ 32) (byte_at m)\<rparr>) else None)"

definition PACK :: "int \<Rightarrow> int \<Rightarrow> int" where
  "PACK sz alloc = sz OR alloc"

definition GET_SIZE :: "mm \<Rightarrow> int \<Rightarrow> int option" where
  "GET_SIZE m p = map_option (\<lambda>v. v - v mod 8) (GET m p)"

definition GET_ALLOC :: "mm \<Rightarrow> int \<Rightarrow> int option" where
  "GET_ALLOC m p = map_option (\<lambda>v. v mod 2) (GET m p)"

definition HDRP :: "int \<Rightarrow> int" where "HDRP bp = bp - 4"

definition FTRP :: "mm \<Rightarrow> int \<Rightarrow> int option" where
  "FTRP m bp = map_option (\<lambda>s. bp + s - 8) (GET_SIZE m (HDRP bp))"

definition NEXT_BLKP :: "mm \<Rightarrow> int \<Rightarrow> int option" where
  "NEXT_BLKP m bp = map_option (\<lambda>s. bp + s) (GET_SIZE m (bp - 4))"

definition PREV_BLKP :: "mm \<Rightarrow> int \<Rightarrow> int option" where
  "PREV_BLKP m bp = map_option (\<lambda>s. bp - s) (GET_SIZE m (bp - 8))"

section \<open>Helper routines\<close>

definition coalesce :: "int \<Rightarrow> mm \<Rightarrow> (int \<times> mm) option" where
  "coalesce bp m = do {
     pb \<leftarrow> PREV_BLKP m bp; pf \<leftarrow> FTRP m pb; prev_alloc \<leftarrow> GET_ALLOC m pf;
     nb \<leftarrow> NEXT_BLKP m bp; next_alloc \<leftarrow> GET_ALLOC m (HDRP nb);
     sz \<leftarrow> GET_SIZE m (HDRP bp);
     if prev_alloc \<noteq> 0 \<and> next_alloc \<noteq> 0 then Some (bp, m)
     else if prev_alloc \<noteq> 0 \<and> next_alloc = 0 then do {
       nb \<leftarrow> NEXT_BLKP m bp; n \<leftarrow> GET_SIZE m (HDRP nb);
       let sz = (sz + n) mod 2 ^ 64;
       m \<leftarrow> PUT (HDRP bp) (PACK sz 0) m;
       f \<leftarrow> FTRP m bp; m \<leftarrow> PUT f (PACK sz 0) m;
       Some (bp, m) }
     else if prev_alloc = 0 \<and> next_alloc \<noteq> 0 then do {
       pb \<leftarrow> PREV_BLKP m bp; n \<leftarrow> GET_SIZE m (HDRP pb);
       let sz = (sz + n) mod 2 ^ 64;
       f \<leftarrow> FTRP m bp; m \<leftarrow> PUT f (PACK sz 0) m;
       pb \<leftarrow> PREV_BLKP m bp; m \<leftarrow> PUT (HDRP pb) (PACK sz 0) m;
       pb \<leftarrow> PREV_BLKP m bp;
       Some (pb, m) }
     else do {
       pb \<leftarrow> PREV_BLKP m bp; n1 \<leftarrow> GET_SIZE m (HDRP pb);
       nb \<leftarrow> NEXT_BLKP m bp; nf \<leftarrow> FTRP m nb; n2 \<leftarrow> GET_SIZE m nf;
       let sz = (sz + (n1 + n2)) mod 2 ^ 64;
       m \<leftarrow> PUT (HDRP pb) (PACK sz 0) m;
       nb \<leftarrow> NEXT_BLKP m bp; nf \<leftarrow> FTRP m nb; m \<leftarrow> PUT nf (PACK sz 0) m;
       pb \<leftarrow> PREV_BLKP m bp;
       Some (pb, m) } }"

definition extend_heap :: "int \<Rightarrow> mm \<Rightarrow> (int option \<times> mm) option" where
  "extend_heap words m =
     (let sz = (if words mod 2 \<noteq> 0 then (words + 1) * 4 mod 2 ^ 64 else words * 4 mod 2 ^ 64) in
      case mem_sbrk (to_int sz) m of
        (None, m) \<Rightarrow> Some (None, m)
      | (Some bp, m) \<Rightarrow> do {
          m \<leftarrow> PUT (HDRP bp) (PACK sz 0) m;
          f \<leftarrow> FTRP m bp; m \<leftarrow> PUT f (PACK sz 0) m;
          nb \<leftarrow> NEXT_BLKP m bp; m \<leftarrow> PUT (HDRP nb) (PACK 0 1) m;
          (bp, m) \<leftarrow> coalesce bp m;
          Some (Some bp, m) })"

definition place :: "int \<Rightarrow> int \<Rightarrow> mm \<Rightarrow> mm option" where
  "place bp asize m = do {
     csize \<leftarrow> GET_SIZE m (HDRP bp);
     if (csize - asize) mod 2 ^ 64 \<ge> 16 then do {
       m \<leftarrow> PUT (HDRP bp) (PACK asize 1) m;
       f \<leftarrow> FTRP m bp; m \<leftarrow> PUT f (PACK asize 1) m;
       bp \<leftarrow> NEXT_BLKP m bp;
       m \<leftarrow> PUT (HDRP bp) (PACK ((csize - asize) mod 2 ^ 64) 0) m;
       f \<leftarrow> FTRP m bp; PUT f (PACK ((csize - asize) mod 2 ^ 64) 0) m }
     else do {
       m \<leftarrow> PUT (HDRP bp) (PACK csize 1) m;
       f \<leftarrow> FTRP m bp; PUT f (PACK csize 1) m } }"

text \<open>First fit (the file is compiled without \<open>NEXT_FIT\<close>).\<close>

partial_function (option) fit_loop :: "int \<Rightarrow> mm \<Rightarrow> int \<Rightarrow> int option option" where
  "fit_loop asize m bp =
     Option.bind (GET_SIZE m (HDRP bp)) (\<lambda>sz.
       if sz > 0
       then Option.bind (GET_ALLOC m (HDRP bp)) (\<lambda>alloc.
         if alloc = 0 \<and> asize \<le> sz then Some (Some bp)
         else Option.bind (NEXT_BLKP m bp) (fit_loop asize m))
       else Some None)"

definition find_fit :: "int \<Rightarrow> mm \<Rightarrow> int option option" where
  "find_fit asize m = (case heap_listp m of None \<Rightarrow> None | Some bp \<Rightarrow> fit_loop asize m bp)"

section \<open>The interface\<close>

definition mm_init :: "mm \<Rightarrow> (int \<times> mm) option" where
  "mm_init m = (case mem_sbrk 16 m of
     (None, m) \<Rightarrow> Some (-1, m\<lparr>heap_listp := Some (-1)\<rparr>)
   | (Some p, m) \<Rightarrow> do {
       m \<leftarrow> PUT p 0 m;
       m \<leftarrow> PUT (p + 4) (PACK 8 1) m;
       m \<leftarrow> PUT (p + 8) (PACK 8 1) m;
       m \<leftarrow> PUT (p + 12) (PACK 0 1) m;
       let m = m\<lparr>heap_listp := Some (p + 8)\<rparr>;
       (r, m) \<leftarrow> extend_heap (4096 div 4) m;
       Some (if r = None then -1 else 0, m) })"

definition adjust :: "int \<Rightarrow> int" where
  "adjust sz = (if sz \<le> 8 then 16 else 8 * ((sz + 8 + 7) mod 2 ^ 64 div 8))"

definition mm_malloc :: "int \<Rightarrow> mm \<Rightarrow> (int option \<times> mm) option" where
  "mm_malloc sz m = do {
     m \<leftarrow> (if heap_listp m = None then map_option snd (mm_init m) else Some m);
     if sz = 0 then Some (None, m)
     else do {
       let asize = adjust sz;
       r \<leftarrow> find_fit asize m;
       case r of
         Some bp \<Rightarrow> do { m \<leftarrow> place bp asize m; Some (Some bp, m) }
       | None \<Rightarrow> do {
           (r, m) \<leftarrow> extend_heap (max asize 4096 div 4) m;
           case r of
             None \<Rightarrow> Some (None, m)
           | Some bp \<Rightarrow> do { m \<leftarrow> place bp asize m; Some (Some bp, m) } } } }"

definition mm_free :: "int option \<Rightarrow> mm \<Rightarrow> mm option" where
  "mm_free p m = (case p of
     None \<Rightarrow> Some m
   | Some bp \<Rightarrow> do {
       sz \<leftarrow> GET_SIZE m (HDRP bp);
       m \<leftarrow> (if heap_listp m = None then map_option snd (mm_init m) else Some m);
       m \<leftarrow> PUT (HDRP bp) (PACK sz 0) m;
       f \<leftarrow> FTRP m bp; m \<leftarrow> PUT f (PACK sz 0) m;
       (bp, m) \<leftarrow> coalesce bp m;
       Some m })"

definition memcpy :: "int \<Rightarrow> int \<Rightarrow> int \<Rightarrow> mm \<Rightarrow> mm option" where
  "memcpy dst src n m =
     (if 0 \<le> dst \<and> 0 \<le> src \<and> dst + n \<le> mem_brk m \<and> src + n \<le> mem_brk m \<and> (dst + n \<le> src \<or> src + n \<le> dst)
      then Some (m\<lparr>byte_at := (\<lambda>a. if dst \<le> a \<and> a < dst + n then byte_at m (src + (a - dst)) else byte_at m a)\<rparr>)
      else None)"

definition mm_realloc :: "int option \<Rightarrow> int \<Rightarrow> mm \<Rightarrow> (int option \<times> mm) option" where
  "mm_realloc p sz m =
     (if sz = 0 then do { m \<leftarrow> mm_free p m; Some (None, m) }
      else case p of
        None \<Rightarrow> mm_malloc sz m
      | Some bp \<Rightarrow> do {
          (r, m) \<leftarrow> mm_malloc sz m;
          case r of
            None \<Rightarrow> Some (None, m)
          | Some newptr \<Rightarrow> do {
              oldsize \<leftarrow> GET_SIZE m (HDRP bp);
              let oldsize = (if sz < oldsize then sz else oldsize);
              m \<leftarrow> memcpy newptr bp oldsize m;
              m \<leftarrow> mm_free (Some bp) m;
              Some (Some newptr, m) } })"

section \<open>Words in memory\<close>

lemma four_bytes:
  assumes "0 \<le> (v::int)" "v < 2 ^ 32"
  shows "v mod 2 ^ 8 + 2 ^ 8 * (v div 2 ^ 8 mod 2 ^ 8) + 2 ^ 16 * (v div 2 ^ 16 mod 2 ^ 8) +
    2 ^ 24 * (v div 2 ^ 24 mod 2 ^ 8) = v"
proof -
  define a b c where "a = v div 256" and "b = a div 256" and "c = b div 256"
  define x y z where "x = v mod 256" and "y = a mod 256" and "z = b mod 256"
  have b: "v div 65536 = b" unfolding a_def b_def using zdiv_zmult2_eq [of 256 v 256] by simp
  have c: "v div 16777216 = c" unfolding a_def b_def c_def
    using zdiv_zmult2_eq [of 256 "v div 256" 256] zdiv_zmult2_eq [of 65536 v 256] zdiv_zmult2_eq [of 256 v 65536] by simp
  have "0 \<le> v div 16777216" "v div 16777216 < 256"
    using assms by (simp_all add: pos_imp_zdiv_nonneg_iff int_div_less_self)
  then have c': "c mod 256 = c" unfolding c by simp
  have e: "256 * a + x = v" "256 * b + y = a" "256 * c + z = b"
    unfolding a_def b_def c_def x_def y_def z_def by simp_all
  have "x + 256 * y + 65536 * z + 16777216 * c = v" using e by linarith
  moreover have "(2::int) ^ 8 = 256" "(2::int) ^ 16 = 65536" "(2::int) ^ 24 = 16777216" by simp_all
  ultimately show ?thesis by (simp only: b c c' x_def y_def z_def a_def)
qed

lemma word_put_same: "0 \<le> v \<Longrightarrow> v < 2 ^ 32 \<Longrightarrow> word_at (put_word p v f) p = v"
proof -
  assume v: "0 \<le> v" "v < 2 ^ 32"
  have "word_at (put_word p v f) p = v mod 2 ^ 8 + 2 ^ 8 * (v div 2 ^ 8 mod 2 ^ 8) + 2 ^ 16 * (v div 2 ^ 16 mod 2 ^ 8) +
      2 ^ 24 * (v div 2 ^ 24 mod 2 ^ 8)" by (simp add: word_at_def put_word_def)
  also have "\<dots> = v" by (rule four_bytes [OF v])
  finally show ?thesis .
qed

lemma word_put_other: "q + 4 \<le> p \<or> p + 4 \<le> q \<Longrightarrow> word_at (put_word p v f) q = word_at f q"
  by (auto simp: word_at_def put_word_def)

lemma put_word_outside: "a < p \<or> p + 4 \<le> a \<Longrightarrow> put_word p v f a = f a"
  by (auto simp: put_word_def)

lemma word_cong: "\<forall>a. p \<le> a \<and> a < p + 4 \<longrightarrow> f a = g a \<Longrightarrow> word_at f p = word_at g p"
  by (simp add: word_at_def)

lemma PACK_simps: "PACK s 0 = s" "s mod 8 = 0 \<Longrightarrow> PACK s 1 = s + 1"
proof -
  show "PACK s 0 = s" by (simp add: PACK_def)
  assume "s mod 8 = 0"
  then have "even s" by presburger
  then show "PACK s 1 = s + 1" by (simp add: PACK_def or_one_eq)
qed

section \<open>Sequences of blocks\<close>

type_synonym block = "int \<times> bool"

fun span :: "block list \<Rightarrow> int" where
  "span [] = 0"
| "span ((s, a) # bs) = s + span bs"

text \<open>The blocks \<open>bs\<close> lie one after the other from \<open>p\<close>, each with its size and its allocated bit in the
  first and in the last word.\<close>

fun lay :: "(int \<Rightarrow> int) \<Rightarrow> int \<Rightarrow> block list \<Rightarrow> bool" where
  "lay f p [] \<longleftrightarrow> True"
| "lay f p ((s, a) # bs) \<longleftrightarrow> word_at f p = s + of_bool a \<and> word_at f (p + s - 4) = s + of_bool a \<and>
     8 \<le> s \<and> s mod 8 = 0 \<and> lay f (p + s) bs"

lemma span_append [simp]: "span (xs @ ys) = span xs + span ys"
  by (induction xs rule: span.induct) simp_all

lemma lay_append: "lay f p (xs @ ys) \<longleftrightarrow> lay f p xs \<and> lay f (p + span xs) ys"
  by (induction f p xs rule: lay.induct) (auto simp: add.assoc)

lemma lay_span: "lay f p bs \<Longrightarrow> 0 \<le> span bs \<and> span bs mod 8 = 0"
  by (induction f p bs rule: lay.induct) (auto simp: mod_add_eq [symmetric])

lemma lay_cong: "\<forall>a. p \<le> a \<and> a < p + span bs \<longrightarrow> f a = g a \<Longrightarrow> lay f p bs \<Longrightarrow> lay g p bs"
proof (induction f p bs rule: lay.induct)
  case (2 f p s a bs)
  have s: "8 \<le> s" "0 \<le> span bs" using 2(3) lay_span by auto
  have "word_at f p = word_at g p" "word_at f (p + s - 4) = word_at g (p + s - 4)"
    by (rule word_cong; use 2(2) s in auto)+
  moreover have "lay g (p + s) bs" by (rule 2(1)) (use 2(2,3) s in auto)
  ultimately show ?case using 2(3) by simp
qed simp

definition blocks :: "mm \<Rightarrow> block list \<Rightarrow> bool" where
  "blocks m bs \<longleftrightarrow> mem_brk m = 8 + span bs \<and> mem_brk m \<le> MAX_HEAP \<and> lay (byte_at m) 4 bs \<and>
     word_at (byte_at m) (4 + span bs) = 1"

lemma blocksD:
  assumes "blocks m bs"
  shows "mem_brk m = 8 + span bs" "mem_brk m \<le> MAX_HEAP" "lay (byte_at m) 4 bs" "word_at (byte_at m) (4 + span bs) = 1"
    "0 \<le> span bs" "span bs mod 8 = 0"
  using assms lay_span unfolding blocks_def by blast+

text \<open>The words of a block, seen from its block pointer.\<close>

definition next_used :: "block list \<Rightarrow> bool" where
  "next_used ys = (case ys of [] \<Rightarrow> True | b # _ \<Rightarrow> snd b)"

lemma tag_simps:
  "s mod 8 = (0::int) \<Longrightarrow> s + of_bool a - (s + of_bool a) mod 8 = s" "s mod 8 = (0::int) \<Longrightarrow> (s + of_bool a) mod 2 = of_bool a"
proof -
  assume s: "s mod 8 = 0"
  show "s + of_bool a - (s + of_bool a) mod 8 = s" "(s + of_bool a) mod 2 = of_bool a"
    using s by (cases a; simp; presburger)+
qed

lemma block_at:
  assumes b: "blocks m (xs @ (s, a) # ys)" and bp: "bp = 8 + span xs"
  shows "valid (bp - 4) m" "valid (bp + s - 8) m" "8 \<le> s" "s mod 8 = 0" "0 \<le> span xs" "0 \<le> span ys" "span xs mod 8 = 0"
    "GET m (bp - 4) = Some (s + of_bool a)" "GET_SIZE m (bp - 4) = Some s" "GET_ALLOC m (bp - 4) = Some (of_bool a)"
    "FTRP m bp = Some (bp + s - 8)" "NEXT_BLKP m bp = Some (bp + s)"
    "GET_ALLOC m (bp + s - 8) = Some (of_bool a)" "GET_SIZE m (bp + s - 8) = Some s"
    "PREV_BLKP m (bp + s) = Some bp" "GET_ALLOC m (bp + s - 4) = Some (of_bool (next_used ys))"
proof -
  have l: "lay (byte_at m) 4 xs" "lay (byte_at m) (bp - 4) ((s, a) # ys)"
    using blocksD(3) [OF b] bp by (simp_all add: lay_append)
  show s: "8 \<le> s" "s mod 8 = 0" using l(2) by simp_all
  show x: "0 \<le> span xs" "span xs mod 8 = 0" using lay_span [OF l(1)] by simp_all
  have "lay (byte_at m) (bp - 4 + s) ys" using l(2) by simp
  from lay_span [OF this] show y: "0 \<le> span ys" by simp
  have B: "mem_brk m = 8 + (span xs + (s + span ys))" using blocksD(1) [OF b] by simp
  show v1: "valid (bp - 4) m" unfolding valid_def B bp using s x y by presburger
  show v2: "valid (bp + s - 8) m" unfolding valid_def B bp using s x y by presburger
  have v3: "valid (bp + s - 4) m" unfolding valid_def B bp using s x y by presburger
  show g1: "GET m (bp - 4) = Some (s + of_bool a)" using v1 l(2) by (simp add: GET_def)
  have g2: "GET m (bp + s - 8) = Some (s + of_bool a)" using v2 l(2) by (simp add: GET_def algebra_simps)
  show g: "GET_SIZE m (bp - 4) = Some s" "GET_ALLOC m (bp - 4) = Some (of_bool a)"
    "GET_ALLOC m (bp + s - 8) = Some (of_bool a)" "GET_SIZE m (bp + s - 8) = Some s"
    using g1 g2 by (simp_all add: GET_SIZE_def GET_ALLOC_def tag_simps [OF s(2)])
  show "FTRP m bp = Some (bp + s - 8)" "NEXT_BLKP m bp = Some (bp + s)" "PREV_BLKP m (bp + s) = Some bp"
    using g by (simp_all add: FTRP_def NEXT_BLKP_def PREV_BLKP_def HDRP_def)
  have "\<exists>s'. s' mod 8 = 0 \<and> word_at (byte_at m) (bp + s - 4) = s' + of_bool (next_used ys)"
  proof (cases ys)
    case Nil
    have "word_at (byte_at m) (bp + s - 4) = 1" using blocksD(4) [OF b] bp Nil by (simp add: algebra_simps)
    then show ?thesis using Nil by (intro exI [of _ 0]) (simp add: next_used_def)
  next
    case (Cons y ys')
    obtain s' a' where y: "y = (s', a')" by fastforce
    have "lay (byte_at m) (bp - 4 + s) ((s', a') # ys')" using l(2) Cons y by simp
    then show ?thesis using Cons y by (intro exI [of _ s']) (simp add: next_used_def algebra_simps)
  qed
  then obtain s' where "s' mod 8 = 0" "word_at (byte_at m) (bp + s - 4) = s' + of_bool (next_used ys)" by (elim exE conjE)
  then show "GET_ALLOC m (bp + s - 4) = Some (of_bool (next_used ys))"
    using v3 by (simp add: GET_ALLOC_def GET_def tag_simps)
qed

text \<open>Rewriting a stretch of blocks in place.\<close>

lemma replace_blocks:
  assumes b: "blocks m (xs @ mid @ ys)" and l: "lay g (4 + span xs) mid'" and sp: "span mid' = span mid"
    and out: "\<forall>p. p < 4 + span xs \<or> 4 + span xs + span mid \<le> p \<longrightarrow> g p = byte_at m p"
    and m': "byte_at m' = g" "mem_brk m' = mem_brk m"
  shows "blocks m' (xs @ mid' @ ys)"
proof -
  note L = blocksD(3) [OF b, unfolded lay_append]
  have nn: "0 \<le> span mid" "0 \<le> span ys" "0 \<le> span xs" using L lay_span by blast+
  have "lay g 4 xs" by (rule lay_cong [of _ _ "byte_at m"]) (use L out in auto)
  moreover have "lay g (4 + span xs + span mid) ys"
    by (rule lay_cong [of _ _ "byte_at m"]) (use L out nn in \<open>auto simp: algebra_simps\<close>)
  moreover have "word_at g (4 + span (xs @ mid @ ys)) = word_at (byte_at m) (4 + span (xs @ mid @ ys))"
    by (rule word_cong) (use out nn in auto)
  ultimately show ?thesis using b l sp m' by (simp add: blocks_def lay_append algebra_simps)
qed

section \<open>Writing the tags of a block\<close>

definition set_block :: "int \<Rightarrow> int \<Rightarrow> bool \<Rightarrow> (int \<Rightarrow> int) \<Rightarrow> (int \<Rightarrow> int)" where
  "set_block h s a f = put_word (h + s - 4) (s + of_bool a) (put_word h (s + of_bool a) f)"

lemma put_word_inside: "p \<le> a \<Longrightarrow> a < p + 4 \<Longrightarrow> put_word p v f a = put_word p v g a"
proof -
  assume "p \<le> a" "a < p + 4"
  then consider "a = p" | "a = p + 1" | "a = p + 2" | "a = p + 3" by linarith
  then show ?thesis by cases (simp_all add: put_word_def)
qed

lemma put_word_commute:
  assumes "p + 4 \<le> q \<or> q + 4 \<le> p"
  shows "put_word p v (put_word q w f) = put_word q w (put_word p v f)"
proof
  fix a
  consider "p \<le> a" "a < p + 4" | "q \<le> a" "a < q + 4" | "a < p \<or> p + 4 \<le> a" "a < q \<or> q + 4 \<le> a" by linarith
  then show "put_word p v (put_word q w f) a = put_word q w (put_word p v f) a"
  proof cases
    case 1
    then have "a < q \<or> q + 4 \<le> a" using assms by linarith
    then show ?thesis using put_word_inside [OF 1, of v "put_word q w f" f] by (simp add: put_word_outside)
  next
    case 2
    then have "a < p \<or> p + 4 \<le> a" using assms by linarith
    then show ?thesis using put_word_inside [OF 2, of w "put_word p v f" f] by (simp add: put_word_outside)
  qed (simp add: put_word_outside)
qed

lemma lay_set_block:
  "8 \<le> s \<Longrightarrow> s mod 8 = 0 \<Longrightarrow> s < 2 ^ 31 \<Longrightarrow> lay (set_block h s a f) h [(s, a)]"
  by (cases a) (simp_all add: set_block_def word_put_same word_put_other)

lemma set_block_outside: "8 \<le> s \<Longrightarrow> p < h \<or> h + s \<le> p \<Longrightarrow> set_block h s a f p = f p"
  by (auto simp: set_block_def put_word_outside)

lemma valid_bytes [simp]: "valid p (m\<lparr>byte_at := g\<rparr>) = valid p m"
  by (simp add: valid_def)

lemma PUT_ok: "valid p m \<Longrightarrow> 0 \<le> v \<Longrightarrow> v < 2 ^ 32 \<Longrightarrow> PUT p v m = Some (m\<lparr>byte_at := put_word p v (byte_at m)\<rparr>)"
  by (simp add: PUT_def)

lemma GET_SIZE_word:
  "valid p m \<Longrightarrow> word_at (byte_at m) p = s + of_bool a \<Longrightarrow> s mod 8 = 0 \<Longrightarrow> GET_SIZE m p = Some s"
  by (simp add: GET_SIZE_def GET_def tag_simps)

lemma tag_block:
  assumes v: "valid (bp - 4) m" "valid (bp + s - 8) m" and s: "8 \<le> s" "s mod 8 = 0" "s < 2 ^ 31"
  shows "Option.bind (PUT (HDRP bp) (PACK s (of_bool a)) m) (\<lambda>m. Option.bind (FTRP m bp) (\<lambda>f.
      Option.bind (PUT f (PACK s (of_bool a)) m) k)) = k (m\<lparr>byte_at := set_block (bp - 4) s a (byte_at m)\<rparr>)"
proof -
  have p: "PACK s (of_bool a) = s + of_bool a" using PACK_simps s by (cases a) simp_all
  have w: "0 \<le> s + of_bool a" "s + of_bool a < 2 ^ 32" using s by (cases a; simp)+
  let ?m = "m\<lparr>byte_at := put_word (bp - 4) (s + of_bool a) (byte_at m)\<rparr>"
  have "GET_SIZE ?m (bp - 4) = Some s"
    by (rule GET_SIZE_word [where a = a]) (use v s w in \<open>simp_all add: word_put_same\<close>)
  then show ?thesis unfolding p HDRP_def FTRP_def using v w
    by (simp add: PUT_ok set_block_def HDRP_def algebra_simps)
qed

lemmas tag_free = tag_block [where a = False, simplified of_bool_eq(1)]
lemmas tag_used = tag_block [where a = True, simplified of_bool_eq(2)]

text \<open>Replacing a stretch of blocks by one block of the same length.\<close>

lemma set_block_ok:
  assumes b: "blocks m (xs @ mid @ ys)" and s: "span mid = s" "8 \<le> s" "s mod 8 = 0" "s < 2 ^ 31"
  shows "blocks (m\<lparr>byte_at := set_block (4 + span xs) s a (byte_at m)\<rparr>) (xs @ (s, a) # ys)"
proof -
  have "blocks (m\<lparr>byte_at := set_block (4 + span xs) s a (byte_at m)\<rparr>) (xs @ [(s, a)] @ ys)"
  proof (rule replace_blocks [OF b])
    show "lay (set_block (4 + span xs) s a (byte_at m)) (4 + span xs) [(s, a)]" by (rule lay_set_block [OF s(2-4)])
    show "\<forall>p. p < 4 + span xs \<or> 4 + span xs + span mid \<le> p \<longrightarrow>
        set_block (4 + span xs) s a (byte_at m) p = byte_at m p" using set_block_outside [OF s(2)] s(1) by simp
  qed (simp_all add: s(1))
  then show ?thesis by simp
qed

lemma blocks_small:
  assumes b: "blocks m (xs @ mid @ ys)"
  shows "0 \<le> span xs" "0 \<le> span ys" "0 \<le> span mid" "span mid < 2 ^ 31" "span mid mod 8 = 0" "span xs mod 8 = 0"
proof -
  note L = blocksD(3) [OF b, unfolded lay_append]
  show "0 \<le> span xs" "0 \<le> span ys" "0 \<le> span mid" "span mid mod 8 = 0" "span xs mod 8 = 0" using L lay_span by blast+
  then show "span mid < 2 ^ 31" using blocksD(1,2) [OF b] by (simp add: MAX_HEAP_def)
qed

section \<open>Coalescing\<close>

text \<open>What happened to the bytes: only those of a stretch changed.\<close>

definition same_outside :: "int \<Rightarrow> int \<Rightarrow> mm \<Rightarrow> mm \<Rightarrow> bool" where
  "same_outside p q m m' \<longleftrightarrow> (\<forall>a. a < p \<or> q \<le> a \<longrightarrow> byte_at m' a = byte_at m a) \<and> heap_listp m' = heap_listp m"

lemma same_outside_trans:
  "same_outside p q m m' \<Longrightarrow> same_outside p' q' m' m'' \<Longrightarrow> p' \<le> p \<Longrightarrow> q \<le> q' \<Longrightarrow> same_outside p' q' m m''"
  by (simp add: same_outside_def)

lemma same_outside_set_block:
  "8 \<le> s \<Longrightarrow> same_outside h (h + s) m (m\<lparr>byte_at := set_block h s a (byte_at m)\<rparr>)"
  by (simp add: same_outside_def set_block_outside)

definition merge_left :: "block list \<Rightarrow> int \<Rightarrow> block list \<times> int" where
  "merge_left xs s = (if snd (last xs) then (xs, s) else (butlast xs, fst (last xs) + s))"

definition merge_right :: "block list \<Rightarrow> int \<Rightarrow> block list \<times> int" where
  "merge_right ys s = (if next_used ys then (ys, s) else (tl ys, s + fst (hd ys)))"

lemma coalesce_ok:
  assumes b: "blocks m (xs @ (s, False) # ys)" and ne: "xs \<noteq> []" and bp: "bp = 8 + span xs"
    and mg: "merge_left xs s = (xs', l)" "merge_right ys l = (ys', r)"
  shows "\<exists>m'. coalesce bp m = Some (8 + span xs', m') \<and> blocks m' (xs' @ (r, False) # ys') \<and>
    same_outside (4 + span xs') (4 + span xs' + r) m m'"
proof -
  obtain us t a where xs: "xs = us @ [(t, a)]" using ne by (metis rev_exhaust surj_pair)
  have bt: "blocks m (us @ (t, a) # (s, False) # ys)" using b xs by simp
  have p0: "bp - t = 8 + span us" using bp xs by simp
  note P = block_at [OF bt p0]
  note C = block_at [OF b bp]
  have prev: "PREV_BLKP m bp = Some (bp - t)" "FTRP m (bp - t) = Some (bp - 8)" "GET_ALLOC m (bp - 8) = Some (of_bool a)"
    "GET_SIZE m (bp - t - 4) = Some t" using P by simp_all
  note simps = coalesce_def prev C(9,11,12,16) HDRP_def add_diff_eq
  show ?thesis
  proof (cases "next_used ys")
    case nu: True
    show ?thesis
    proof (cases a)
      case True
      have "xs' = xs" "ys' = ys" "r = s" using mg xs True nu by (simp_all add: merge_left_def merge_right_def)
      moreover have "coalesce bp m = Some (bp, m)" using True nu by (simp add: simps)
      ultimately show ?thesis using b bp by (simp add: same_outside_def)
    next
      case False
      have mv: "xs' = us" "ys' = ys" "r = t + s" using mg xs False nu by (simp_all add: merge_left_def merge_right_def)
      have bm: "blocks m (us @ [(t, a), (s, False)] @ ys)" using bt by simp
      note S = blocks_small [OF bm]
      have st: "t + s < 2 ^ 31" "(t + s) mod 8 = 0" "8 \<le> t + s" using S P(3) C(3) by simp_all
      let ?f1 = "put_word (bp + s - 8) (t + s) (byte_at m)"
      let ?m1 = "m\<lparr>byte_at := ?f1\<rparr>"
      have v8: "valid (bp - 8) m" using P(2) by simp
      have g1: "GET_SIZE ?m1 (bp - 8) = Some t"
        using P(14) C(3) v8 by (simp add: GET_SIZE_def GET_def word_put_other)
      let ?f2 = "put_word (bp - t - 4) (t + s) ?f1"
      have g2: "GET_SIZE (m\<lparr>byte_at := ?f2\<rparr>) (bp - 8) = Some t"
        using P(3,14) C(3) v8 by (simp add: GET_SIZE_def GET_def word_put_other)
      have f2: "?f2 = set_block (bp - t - 4) (t + s) False (byte_at m)"
        using P(3) C(3) put_word_commute [of "bp - t - 4" "bp + s - 8"] by (simp add: set_block_def algebra_simps)
      have "coalesce bp m = Some (bp - t, m\<lparr>byte_at := ?f2\<rparr>)"
        using False nu st P(1) C(2) PREV_BLKP_def [of ?m1 bp] PREV_BLKP_def [of "m\<lparr>byte_at := ?f2\<rparr>" bp]
        by (simp add: simps Let_def PUT_ok PACK_simps g1 g2 add.commute [of s t])
      moreover have "bp - t - 4 = 4 + span us" using p0 by simp
      ultimately show ?thesis
        using set_block_ok [OF bm, of "t + s" False] st f2 mv p0 same_outside_set_block [OF st(3), of "4 + span us" m False] by simp
    qed
  next
    case nu: False
    then obtain n zs where ys: "ys = (n, False) # zs" by (cases ys) (auto simp: next_used_def)
    have bn: "blocks m ((xs @ [(s, False)]) @ (n, False) # zs)" using b ys by simp
    have n0: "bp + s = 8 + span (xs @ [(s, False)])" using bp by simp
    note N = block_at [OF bn n0]
    show ?thesis
    proof (cases a)
      case True
      have mv: "xs' = xs" "ys' = zs" "r = s + n" using mg xs True nu ys by (simp_all add: merge_left_def merge_right_def)
      have bm: "blocks m (xs @ [(s, False), (n, False)] @ zs)" using b ys by simp
      note S = blocks_small [OF bm]
      have st: "s + n < 2 ^ 31" "(s + n) mod 8 = 0" "8 \<le> s + n" using S N(3) C(3) by simp_all
      have v: "valid (bp + (s + n) - 8) m" using N(2) by (simp add: algebra_simps)
      have "coalesce bp m = Some (bp, m\<lparr>byte_at := set_block (bp - 4) (s + n) False (byte_at m)\<rparr>)"
        using True nu st N(9) tag_free [OF C(1) v st(3,2,1), of "\<lambda>m. Some (bp, m)"]
        by (simp add: simps)
      moreover have "bp - 4 = 4 + span xs" using bp by simp
      ultimately show ?thesis
        using set_block_ok [OF bm, of "s + n" False] st mv bp same_outside_set_block [OF st(3), of "4 + span xs" m False] by simp
    next
      case False
      have mv: "xs' = us" "ys' = zs" "r = t + s + n" using mg xs False nu ys by (simp_all add: merge_left_def merge_right_def)
      have bm: "blocks m (us @ [(t, a), (s, False), (n, False)] @ zs)" using bt ys by simp
      note S = blocks_small [OF bm]
      let ?z = "t + s + n"
      have st: "?z < 2 ^ 31" "?z mod 8 = 0" "8 \<le> ?z" using S P(3) C(3) N(3) by (simp_all add: add.assoc)
      let ?f1 = "put_word (bp - t - 4) ?z (byte_at m)"
      have v: "valid (bp - 8) m" "valid (bp - 4) m" "valid (bp + s - 4) m" using P(2) C(1) N(1) by simp_all
      have g1: "GET_SIZE (m\<lparr>byte_at := ?f1\<rparr>) (bp - 4) = Some s" "GET_SIZE (m\<lparr>byte_at := ?f1\<rparr>) (bp + s - 4) = Some n"
        using P(3) C(3,9) N(9) v by (simp_all add: GET_SIZE_def GET_def word_put_other)
      let ?f2 = "put_word (bp + s + n - 8) ?z ?f1"
      have g2: "GET_SIZE (m\<lparr>byte_at := ?f2\<rparr>) (bp - 8) = Some t"
        using P(3,14) C(3) N(3) v by (simp add: GET_SIZE_def GET_def word_put_other)
      have f2: "?f2 = set_block (bp - t - 4) ?z False (byte_at m)"
        by (simp add: set_block_def algebra_simps)
      have "coalesce bp m = Some (bp - t, m\<lparr>byte_at := ?f2\<rparr>)"
        using False nu st P(1) N(2,9,11,14) NEXT_BLKP_def [of "m\<lparr>byte_at := ?f1\<rparr>" bp]
          FTRP_def [of "m\<lparr>byte_at := ?f1\<rparr>" "bp + s"] PREV_BLKP_def [of "m\<lparr>byte_at := ?f2\<rparr>" bp]
        by (simp add: simps Let_def PUT_ok PACK_simps g1 g2 add.assoc [symmetric] add.commute [of s t])
      moreover have "bp - t - 4 = 4 + span us" using p0 by simp
      moreover have "span [(t, a), (s, False), (n, False)] = ?z" by simp
      ultimately show ?thesis
        using set_block_ok [OF bm, of ?z False] st f2 mv p0 same_outside_set_block [OF st(3), of "4 + span us" m False] by simp
    qed
  qed
qed

section \<open>Placement, search and growth\<close>

definition split_block :: "int \<Rightarrow> int \<Rightarrow> block list" where
  "split_block s n = (if s - n \<ge> 16 then [(n, True), (s - n, False)] else [(s, True)])"

text \<open>The tags after a block has been cut in two.\<close>

lemma split_tags_ok:
  assumes b: "blocks m (xs @ (s, False) # ys)" and n: "8 \<le> n" "n mod 8 = 0" "16 \<le> s - n"
  shows "blocks (m\<lparr>byte_at := set_block (4 + span xs + n) (s - n) False (set_block (4 + span xs) n True (byte_at m))\<rparr>)
      (xs @ [(n, True), (s - n, False)] @ ys)"
    "\<forall>a. a < 4 + span xs \<or> 4 + span xs + s \<le> a \<longrightarrow>
      set_block (4 + span xs + n) (s - n) False (set_block (4 + span xs) n True (byte_at m)) a = byte_at m a"
proof -
  let ?h = "4 + span xs"
  let ?f = "set_block (?h + n) (s - n) False (set_block ?h n True (byte_at m))"
  note C = block_at [OF b refl]
  have bm: "blocks m (xs @ [(s, False)] @ ys)" using b by simp
  have s: "s < 2 ^ 31" using blocks_small(4) [OF bm] by simp
  have n31: "n < 2 ^ 31" "s - n < 2 ^ 31" "8 \<le> s - n" "(s - n) mod 8 = 0"
    using s n C(4) by (simp_all add: mod_diff_eq [symmetric, of s])
  show out: "\<forall>a. a < ?h \<or> ?h + s \<le> a \<longrightarrow> ?f a = byte_at m a"
    using n31 n by (auto simp: set_block_outside)
  have "lay ?f (?h + n) [(s - n, False)]" by (rule lay_set_block [OF n31(3,4,2)])
  moreover have "lay ?f ?h [(n, True)]"
    by (rule lay_cong [OF _ lay_set_block [OF n(1,2) n31(1), of ?h True "byte_at m"]])
      (use n31 in \<open>simp add: set_block_outside\<close>)
  ultimately have "lay ?f ?h [(n, True), (s - n, False)]" by simp
  then show "blocks (m\<lparr>byte_at := ?f\<rparr>) (xs @ [(n, True), (s - n, False)] @ ys)"
    by (rule replace_blocks [OF bm]) (use out in simp_all)
qed

lemma place_ok:
  assumes b: "blocks m (xs @ (s, False) # ys)" and bp: "bp = 8 + span xs"
    and n: "8 \<le> n" "n \<le> s" "n mod 8 = 0"
  shows "\<exists>m'. place bp n m = Some m' \<and> blocks m' (xs @ split_block s n @ ys) \<and>
    same_outside (4 + span xs) (4 + span xs + s) m m'"
proof -
  note C = block_at [OF b bp]
  have bm: "blocks m (xs @ [(s, False)] @ ys)" using b by simp
  have s: "s < 2 ^ 31" using blocks_small(4) [OF bm] by simp
  have h: "bp - 4 = 4 + span xs" using bp by simp
  have md: "(s - n) mod 2 ^ 64 = s - n" using s n by simp
  show ?thesis
  proof (cases "s - n \<ge> 16")
    case False
    let ?m = "m\<lparr>byte_at := set_block (bp - 4) s True (byte_at m)\<rparr>"
    have "place bp n m = Some ?m"
      using False C(9) md tag_used [OF C(1,2,3,4) s, of Some] by (simp add: place_def HDRP_def)
    moreover have "blocks ?m (xs @ [(s, True)] @ ys)"
      using set_block_ok [OF bm, of s True] C(3,4) s h by simp
    ultimately show ?thesis using False h same_outside_set_block [OF C(3), of "bp - 4" m True]
      by (auto simp: split_block_def)
  next
    case True
    let ?g = "set_block (bp - 4) n True (byte_at m)"
    let ?f = "set_block (bp + n - 4) (s - n) False ?g"
    let ?m1 = "m\<lparr>byte_at := ?g\<rparr>" and ?m2 = "m\<lparr>byte_at := ?f\<rparr>"
    have n31: "n < 2 ^ 31" "8 \<le> n" "s - n < 2 ^ 31" "8 \<le> s - n" "(s - n) mod 8 = 0"
      using s n True C(4) by (simp_all add: mod_diff_eq [symmetric, of s])
    have B: "mem_brk m = 8 + (span xs + (s + span ys))" using blocksD(1) [OF b] by simp
    have v: "valid (bp + n - 8) m" "valid (bp + n - 4) m" "valid ((bp + n) + (s - n) - 8) m"
      using C(2,5,6,7) n True unfolding valid_def B bp by presburger+
    have g: "GET_SIZE ?m1 (bp - 4) = Some n"
      by (rule GET_SIZE_word [where a = True]) (use C(1) n lay_set_block [OF n31(2) n(3) n31(1), of "bp - 4" True] in simp_all)
    then have nb: "NEXT_BLKP ?m1 bp = Some (bp + n)" by (simp add: NEXT_BLKP_def)
    have "place bp n m = Option.bind (NEXT_BLKP ?m1 bp) (\<lambda>bp. Option.bind (PUT (HDRP bp) (PACK (s - n) 0) ?m1)
        (\<lambda>m. Option.bind (FTRP m bp) (\<lambda>f. PUT f (PACK (s - n) 0) m)))"
      using True C(9) md tag_used [OF C(1) v(1) n31(2) n(3) n31(1)] by (simp add: place_def HDRP_def)
    also have "\<dots> = Some ?m2"
      using nb tag_free [of "bp + n" ?m1 "s - n" Some] v n31 by simp
    finally have run: "place bp n m = Some ?m2" .
    have f: "?f = set_block (4 + span xs + n) (s - n) False (set_block (4 + span xs) n True (byte_at m))"
      using h by (simp add: algebra_simps)
    have out: "\<forall>a. a < 4 + span xs \<or> 4 + span xs + s \<le> a \<longrightarrow> ?f a = byte_at m a"
      and "blocks ?m2 (xs @ [(n, True), (s - n, False)] @ ys)"
      unfolding f using split_tags_ok [OF b n(1,3) True] by simp_all
    then show ?thesis using run out True by (auto simp: split_block_def same_outside_def)
  qed
qed

text \<open>First fit on the list of blocks.\<close>

definition fits :: "int \<Rightarrow> block \<Rightarrow> bool" where
  "fits n b \<longleftrightarrow> \<not> snd b \<and> n \<le> fst b"

lemma fit_loop_ok:
  "blocks m (xs @ ys) \<Longrightarrow> 0 < n \<Longrightarrow>
   (\<exists>us s vs. ys = us @ (s, False) # vs \<and> n \<le> s \<and> fit_loop n m (8 + span xs) = Some (Some (8 + span (xs @ us)))) \<or>
   ((\<forall>b \<in> set ys. \<not> fits n b) \<and> fit_loop n m (8 + span xs) = Some None)"
proof (induction ys arbitrary: xs)
  case Nil
  have v: "valid (4 + span xs) m" using blocksD(1,5,6) [OF Nil(1)] by (simp add: valid_def) presburger
  then have "GET_SIZE m (HDRP (8 + span xs)) = Some 0"
    using blocksD(4) [OF Nil(1)] by (simp add: GET_SIZE_def GET_def HDRP_def)
  then show ?case by (subst (2) fit_loop.simps) simp
next
  case (Cons y ys)
  obtain s a where y: "y = (s, a)" by fastforce
  note C = block_at [OF Cons.prems(1) [unfolded y] refl]
  have step: "fit_loop n m (8 + span xs) =
      (if \<not> a \<and> n \<le> s then Some (Some (8 + span xs)) else fit_loop n m (8 + span (xs @ [(s, a)])))"
    using C(3,9,10,12) by (subst fit_loop.simps) (simp add: HDRP_def add.assoc)
  show ?case
  proof (cases "\<not> a \<and> n \<le> s")
    case True
    then show ?thesis using step y by (intro disjI1 exI [of _ "[]"]) simp
  next
    case False
    have "blocks m ((xs @ [y]) @ ys)" using Cons.prems(1) by simp
    from Cons.IH [OF this Cons.prems(2)] show ?thesis
    proof (elim disjE exE conjE)
      fix us t vs
      assume h: "ys = us @ (t, False) # vs" "n \<le> t" "fit_loop n m (8 + span (xs @ [y])) = Some (Some (8 + span ((xs @ [y]) @ us)))"
      then show ?thesis using step False y by (intro disjI1 exI [of _ "y # us"] exI [of _ t] exI [of _ vs]) simp
    next
      assume "\<forall>b \<in> set ys. \<not> fits n b" "fit_loop n m (8 + span (xs @ [y])) = Some None"
      then show ?thesis using step False y by (simp add: fits_def)
    qed
  qed
qed

text \<open>The tags after the heap has been extended.\<close>

lemma grow_tags_ok:
  assumes b: "blocks m bs" and s: "8 \<le> s" "s mod 8 = 0" "s < 2 ^ 31" "mem_brk m + s \<le> MAX_HEAP"
  shows "blocks (m\<lparr>mem_brk := mem_brk m + s,
      byte_at := put_word (8 + span bs + s - 4) 1 (set_block (4 + span bs) s False (byte_at m))\<rparr>) (bs @ [(s, False)])"
    "\<forall>a. a < 4 + span bs \<longrightarrow> put_word (8 + span bs + s - 4) 1 (set_block (4 + span bs) s False (byte_at m)) a = byte_at m a"
proof -
  let ?g = "set_block (4 + span bs) s False (byte_at m)"
  let ?f = "put_word (8 + span bs + s - 4) 1 ?g"
  have L: "lay ?g (4 + span bs) [(s, False)]" by (rule lay_set_block [OF s(1-3)])
  show out: "\<forall>a. a < 4 + span bs \<longrightarrow> ?f a = byte_at m a"
    using s by (simp add: put_word_outside set_block_outside)
  have "lay ?f 4 bs" by (rule lay_cong [OF _ blocksD(3) [OF b]]) (use out in simp)
  moreover have "lay ?f (4 + span bs) [(s, False)]"
    by (rule lay_cong [OF _ L]) (simp add: put_word_outside)
  moreover have "word_at ?f (4 + (span bs + s)) = 1" using word_put_same [of 1 "8 + span bs + s - 4"] by (simp add: algebra_simps)
  ultimately show "blocks (m\<lparr>mem_brk := mem_brk m + s, byte_at := ?f\<rparr>) (bs @ [(s, False)])"
    using blocksD(1) [OF b] s(4) by (simp add: blocks_def lay_append)
qed

lemma extend_heap_ok:
  assumes b: "blocks m bs" and ne: "bs \<noteq> []" and w: "0 < w" "w * 4 < 2 ^ 31" "w mod 2 = 0"
    and mg: "merge_left bs (w * 4) = (xs', r)"
  shows "if mem_brk m + w * 4 > MAX_HEAP then extend_heap w m = Some (None, m)
    else \<exists>m'. extend_heap w m = Some (Some (8 + span xs'), m') \<and> blocks m' (xs' @ [(r, False)]) \<and>
      (\<forall>a. a < 4 + span xs' \<longrightarrow> byte_at m' a = byte_at m a) \<and> heap_listp m' = heap_listp m"
proof (cases "mem_brk m + w * 4 > MAX_HEAP")
  case True
  then show ?thesis using w by (simp add: extend_heap_def mem_sbrk_def to_int_def)
next
  case False
  let ?s = "w * 4" and ?bp = "8 + span bs"
  let ?m0 = "m\<lparr>mem_brk := mem_brk m + ?s\<rparr>"
  have brk: "mem_brk m = ?bp" and sp: "0 \<le> span bs" "span bs mod 8 = 0" using blocksD [OF b] by simp_all
  have s: "8 \<le> ?s" "?s mod 8 = 0" "?s < 2 ^ 31" using w by presburger+
  let ?g = "set_block (4 + span bs) ?s False (byte_at m)"
  let ?f = "put_word (?bp + ?s - 4) 1 ?g"
  let ?m1 = "?m0\<lparr>byte_at := ?g\<rparr>" and ?m2 = "?m0\<lparr>byte_at := ?f\<rparr>"
  have v: "valid (?bp - 4) ?m0" "valid (?bp + ?s - 8) ?m0" "valid (?bp + ?s - 4) ?m0"
    using sp s brk unfolding valid_def by simp_all presburger+
  have h: "?bp - 4 = 4 + span bs" by simp
  have g: "GET_SIZE ?m1 (?bp - 4) = Some ?s"
    by (rule GET_SIZE_word [where a = False]) (use v s lay_set_block [OF s, of "4 + span bs" False] in simp_all)
  have b2: "blocks ?m2 (bs @ [(?s, False)])" and out: "\<forall>a. a < 4 + span bs \<longrightarrow> ?f a = byte_at m a"
    using grow_tags_ok [OF b s] False by simp_all
  have "merge_right [] r = ([], r)" by (simp add: merge_right_def next_used_def)
  from coalesce_ok [OF b2 ne refl mg this] obtain m' where
    m': "coalesce ?bp ?m2 = Some (8 + span xs', m')" "blocks m' (xs' @ [(r, False)])"
    "same_outside (4 + span xs') (4 + span xs' + r) ?m2 m'" by auto
  have le: "span xs' \<le> span bs"
  proof (cases "snd (last bs)")
    case False
    obtain us t a where bs: "bs = us @ [(t, a)]" using ne by (metis rev_exhaust surj_pair)
    have "blocks m (us @ (t, a) # [])" using b bs by simp
    from block_at(3) [OF this refl] show ?thesis using mg False bs by (simp add: merge_left_def)
  qed (use mg in \<open>simp add: merge_left_def\<close>)
  have "NEXT_BLKP ?m1 ?bp = Some (?bp + ?s)" using g by (simp add: NEXT_BLKP_def)
  moreover have "PUT (?bp + ?s - 4) 1 ?m1 = Some ?m2" using v by (simp add: PUT_ok)
  moreover have "PACK 0 1 = 1" by (simp add: PACK_def)
  ultimately have "extend_heap w m = Some (Some (8 + span xs'), m')"
    using w False m'(1) brk tag_free [OF v(1,2) s, of "\<lambda>m. Option.bind (NEXT_BLKP m ?bp) (\<lambda>nb.
        Option.bind (PUT (nb - 4) 1 m) (\<lambda>m. Option.bind (coalesce ?bp m) (\<lambda>(bp, m). Some (Some bp, m))))"]
    by (simp add: extend_heap_def Let_def mem_sbrk_def to_int_def HDRP_def add_diff_eq)
  then show ?thesis using False m'(2,3) out le by (simp add: same_outside_def)
qed

section \<open>The invariant of the heap\<close>

abbreviation sparse :: "block list \<Rightarrow> bool" where
  "sparse \<equiv> successively (\<lambda>b c. snd b \<or> snd c)"

definition big :: "block list \<Rightarrow> bool" where
  "big bs \<longleftrightarrow> bs \<noteq> [] \<and> hd bs = (8, True) \<and> (\<forall>b \<in> set (tl bs). 16 \<le> fst b)"

definition heap_ok :: "mm \<Rightarrow> block list \<Rightarrow> bool" where
  "heap_ok m bs \<longleftrightarrow> blocks m bs \<and> heap_listp m = Some 8 \<and> big bs \<and> sparse bs"

text \<open>The allocated blocks of a stretch: payload address and payload length.\<close>

fun lives :: "int \<Rightarrow> block list \<Rightarrow> (int \<times> int) set" where
  "lives p [] = {}"
| "lives p ((s, a) # bs) = (if a then {(p + 4, s - 8)} else {}) \<union> lives (p + s) bs"

definition live :: "block list \<Rightarrow> (int \<times> int) set" where
  "live bs = lives 12 (tl bs)"

lemma lives_append: "lives p (xs @ ys) = lives p xs \<union> lives (p + span xs) ys"
  by (induction p xs rule: lives.induct) (auto simp: add.assoc)

lemma live_append: "big xs \<Longrightarrow> live (xs @ ys) = live xs \<union> lives (4 + span xs) ys"
  by (cases xs) (auto simp: live_def big_def lives_append)

lemma big_append: "xs \<noteq> [] \<Longrightarrow> big (xs @ ys) \<longleftrightarrow> big xs \<and> (\<forall>b \<in> set ys. 16 \<le> fst b)"
  by (cases xs) (auto simp: big_def)

lemma lives_split: "(q, n) \<in> lives p bs \<Longrightarrow> \<exists>xs ys. bs = xs @ (n + 8, True) # ys \<and> q = p + span xs + 4"
proof (induction p bs rule: lives.induct)
  case (2 p s a bs)
  then consider "a" "q = p + 4" "n = s - 8" | "(q, n) \<in> lives (p + s) bs" by (auto split: if_splits)
  then show ?case
  proof cases
    case 1
    then show ?thesis by (intro exI [of _ "[]"] exI [of _ bs]) simp
  next
    case 2
    then obtain xs ys where "bs = xs @ (n + 8, True) # ys" "q = p + s + span xs + 4" using "2.IH" by blast
    then show ?thesis by (intro exI [of _ "(s, a) # xs"] exI [of _ ys]) simp
  qed
qed simp

lemma lives_range:
  assumes "lay f p bs" "(q, n) \<in> lives p bs"
  shows "p + 4 \<le> q" "q + n + 4 \<le> p + span bs" "0 \<le> n" "(q - p) mod 8 = 4" "n mod 8 = 0"
proof -
  from lives_split [OF assms(2)] obtain xs ys where bs: "bs = xs @ (n + 8, True) # ys" "q = p + span xs + 4" by blast
  have l: "lay f p xs" "8 \<le> n + 8" "(n + 8) mod 8 = 0" "lay f (p + span xs + (n + 8)) ys"
    using assms(1) bs by (simp_all add: lay_append)
  have x: "0 \<le> span xs" "span xs mod 8 = 0" "0 \<le> span ys" using lay_span [OF l(1)] lay_span [OF l(4)] by simp_all
  show "p + 4 \<le> q" "q + n + 4 \<le> p + span bs" "0 \<le> n" "n mod 8 = 0" using x l bs by simp_all
  have "q - p = span xs + 4" using bs by simp
  then show "(q - p) mod 8 = 4" using x by presburger
qed

text \<open>Distinct allocated blocks do not overlap, headers and footers included.\<close>

lemma lives_disjoint:
  "lay f p bs \<Longrightarrow> (q, n) \<in> lives p bs \<Longrightarrow> (q', n') \<in> lives p bs \<Longrightarrow> (q, n) \<noteq> (q', n') \<Longrightarrow>
   q + n + 8 \<le> q' \<or> q' + n' + 8 \<le> q"
proof (induction p bs rule: lives.induct)
  case (2 p s a bs)
  have l: "lay f (p + s) bs" "8 \<le> s" using "2.prems"(1) by simp_all
  consider "(q, n) \<in> lives (p + s) bs" "(q', n') \<in> lives (p + s) bs"
    | "a" "q = p + 4" "n = s - 8" "(q', n') \<in> lives (p + s) bs"
    | "a" "q' = p + 4" "n' = s - 8" "(q, n) \<in> lives (p + s) bs"
    using "2.prems"(2-4) by (auto split: if_splits)
  then show ?case
  proof cases
    case 1
    then show ?thesis using "2.IH" [OF l(1)] "2.prems"(4) by blast
  next
    case 2
    then show ?thesis using lives_range(1) [OF l(1) 2(4)] by simp
  next
    case 3
    then show ?thesis using lives_range(1) [OF l(1) 3(4)] by simp
  qed
qed simp

lemma live_lives: "big bs \<Longrightarrow> live bs = lives 4 bs - {(8, 0)} \<and> (8, 0) \<notin> live bs" if "lay f 4 bs" for bs
proof -
  assume "big bs"
  then obtain rest where bs: "bs = (8, True) # rest" by (cases bs) (auto simp: big_def)
  have l: "lay f 12 rest" using that bs by simp
  have "(8, 0) \<notin> lives 12 rest" using lives_range(1) [OF l, of 8 0] by auto
  then show ?thesis using bs by (auto simp: live_def)
qed

section \<open>Lists of blocks under the operations\<close>

lemma merge_ok:
  assumes sp: "sparse (xs @ (s, a) # ys)" and bg: "big xs" and s: "16 \<le> s" "\<forall>b \<in> set ys. 16 \<le> fst b"
    and mg: "merge_left xs s = (xs', l)" "merge_right ys l = (ys', r)"
  shows "sparse (xs' @ (r, False) # ys')" "big (xs' @ (r, False) # ys')" "live (xs' @ (r, False) # ys') = live xs \<union> lives (4 + span xs + s) ys"
    "s \<le> r" "big xs'"
proof -
  have left: "big xs' \<and> sparse xs' \<and> snd (last xs') \<and> live xs' = live xs \<and> s \<le> l \<and> span xs' + l = span xs + s"
  proof (cases "snd (last xs)")
    case True
    then show ?thesis using mg(1) bg sp by (auto simp: merge_left_def successively_append_iff)
  next
    case False
    obtain us t b where xs: "xs = us @ [(t, b)]" using bg by (metis big_def rev_exhaust surj_pair)
    have b: "\<not> b" using False xs by simp
    have us: "us \<noteq> []" using bg xs b by (auto simp: big_def)
    then have "big us" "16 \<le> t" using bg xs by (simp_all add: big_append)
    moreover have "snd (last us)" "sparse us" using sp xs us b by (auto simp: successively_append_iff)
    moreover have "live xs = live us" using xs b live_append [OF calculation(1)] by simp
    ultimately show ?thesis using mg(1) False xs s(1) by (simp add: merge_left_def)
  qed
  have right: "sparse ys' \<and> (ys' = [] \<or> snd (hd ys')) \<and> (\<forall>b \<in> set ys'. 16 \<le> fst b) \<and> l \<le> r \<and>
      (\<forall>p. lives (p + r) ys' = lives (p + l) ys)"
  proof (cases "next_used ys")
    case True
    then show ?thesis using mg(2) sp s(2)
      by (cases ys) (auto simp: merge_right_def next_used_def successively_append_iff)
  next
    case False
    then obtain n b zs where ys: "ys = (n, b) # zs" "\<not> b" by (cases ys) (auto simp: next_used_def)
    then show ?thesis using mg(2) sp s(2) False
      by (cases zs) (auto simp: merge_right_def successively_append_iff add.assoc)
  qed
  have ne: "xs' \<noteq> []" using left by (auto simp: big_def)
  show "sparse (xs' @ (r, False) # ys')"
    using left right by (cases ys') (auto simp: successively_append_iff)
  show "big xs'" "s \<le> r" using left right by simp_all
  show "big (xs' @ (r, False) # ys')" using left right s(1) by (simp add: big_append [OF ne])
  have "lives (4 + span xs' + r) ys' = lives (4 + span xs' + l) ys" using right by blast
  moreover have "4 + span xs' + l = 4 + span xs + s" using left by simp
  ultimately show "live (xs' @ (r, False) # ys') = live xs \<union> lives (4 + span xs + s) ys"
    using left by (simp add: live_append)
qed

lemma split_ok:
  assumes sp: "sparse (xs @ (s, False) # ys)" and bg: "big xs" and s: "16 \<le> n" "n \<le> s" "\<forall>b \<in> set ys. 16 \<le> fst b"
  obtains k where "sparse (xs @ split_block s n @ ys)" "big (xs @ split_block s n @ ys)" "n - 8 \<le> k"
    "live (xs @ split_block s n @ ys) = insert (8 + span xs, k) (live (xs @ (s, False) # ys))"
proof -
  have nb: "snd (last xs)" "ys = [] \<or> snd (hd ys)" "sparse xs" "sparse ys" "xs \<noteq> []"
    using sp bg by (cases ys; auto simp: successively_append_iff big_def)+
  show thesis
  proof (rule that [of "if s - n \<ge> 16 then n - 8 else s - 8"])
    show "sparse (xs @ split_block s n @ ys)"
      using nb by (cases ys) (auto simp: split_block_def successively_append_iff)
    show "big (xs @ split_block s n @ ys)" using bg s by (simp add: big_append [OF nb(5)] split_block_def)
    show "live (xs @ split_block s n @ ys) =
        insert (8 + span xs, if s - n \<ge> 16 then n - 8 else s - 8) (live (xs @ (s, False) # ys))"
      using live_append [OF bg] by (auto simp: split_block_def algebra_simps)
  qed (use s in simp)
qed

section \<open>The interface on well-formed heaps\<close>

lemma heap_okD:
  assumes "heap_ok m bs"
  shows "blocks m bs" "heap_listp m = Some 8" "big bs" "sparse bs" "bs \<noteq> []"
  using assms unfolding heap_ok_def big_def by blast+

text \<open>The bytes of the live blocks of \<open>L\<close> are as before.\<close>

definition kept :: "(int \<times> int) set \<Rightarrow> mm \<Rightarrow> mm \<Rightarrow> bool" where
  "kept L m m' \<longleftrightarrow> (\<forall>q k a. (q, k) \<in> L \<and> q \<le> a \<and> a < q + k \<longrightarrow> byte_at m' a = byte_at m a)"

lemma live_outside:
  assumes b: "blocks m (xs @ mid @ ys)" and bg: "big xs"
    and qk: "(q, k) \<in> live xs \<union> lives (4 + span xs + span mid) ys" and a: "q \<le> a" "a < q + k"
  shows "a < 4 + span xs \<or> 4 + span xs + span mid \<le> a"
proof -
  note L = blocksD(3) [OF b, unfolded lay_append]
  have lx: "lay (byte_at m) 4 xs" and ly: "lay (byte_at m) (4 + span xs + span mid) ys" using L by (simp_all add: add.assoc)
  have "live xs \<subseteq> lives 4 xs" using live_lives [OF lx bg] by blast
  then consider "(q, k) \<in> lives 4 xs" | "(q, k) \<in> lives (4 + span xs + span mid) ys" using qk by blast
  then show ?thesis
  proof cases
    case 1
    then show ?thesis using lives_range(2) [OF lx 1] a by simp
  next
    case 2
    then show ?thesis using lives_range(1) [OF ly 2] a by simp
  qed
qed

lemma kept_outside:
  assumes "blocks m (xs @ mid @ ys)" "big xs" "L \<subseteq> live xs \<union> lives (4 + span xs + span mid) ys"
    "\<forall>a. a < 4 + span xs \<or> 4 + span xs + span mid \<le> a \<longrightarrow> byte_at m' a = byte_at m a"
  shows "kept L m m'"
  unfolding kept_def
proof (intro allI impI, elim conjE)
  fix q k a assume "(q, k) \<in> L" "q \<le> a" "a < q + k"
  then have "a < 4 + span xs \<or> 4 + span xs + span mid \<le> a"
    using live_outside [OF assms(1,2), of q k a] assms(3) by blast
  then show "byte_at m' a = byte_at m a" using assms(4) by blast
qed

lemma kept_trans: "kept L m m' \<Longrightarrow> kept L m' m'' \<Longrightarrow> kept L m m''"
  by (auto simp: kept_def)

lemma keptD: "kept L m m' \<Longrightarrow> (q, k) \<in> L \<Longrightarrow> q \<le> a \<Longrightarrow> a < q + k \<Longrightarrow> byte_at m' a = byte_at m a"
  by (simp add: kept_def)

lemma kept_sym: "kept L m m' \<Longrightarrow> kept L m' m"
  by (simp add: kept_def)

lemma kept_mono: "kept L m m' \<Longrightarrow> K \<subseteq> L \<Longrightarrow> kept K m m'"
  by (auto simp: kept_def)

lemma prologue: "big bs \<Longrightarrow> bs = us @ (s, False) # vs \<Longrightarrow> us \<noteq> [] \<and> big us \<and> 16 \<le> s \<and> (\<forall>b \<in> set vs. 16 \<le> fst b)"
proof -
  assume h: "big bs" "bs = us @ (s, False) # vs"
  then have "us \<noteq> []" by (auto simp: big_def)
  then show ?thesis using h by (simp add: big_append)
qed

lemma free_not_live:
  assumes b: "blocks m (us @ (s, False) # vs)" and bg: "big us"
  shows "8 + span us \<notin> fst ` live (us @ (s, False) # vs)"
proof
  assume "8 + span us \<in> fst ` live (us @ (s, False) # vs)"
  then obtain k where k: "(8 + span us, k) \<in> live us \<union> lives (4 + span us + s) vs"
    unfolding live_append [OF bg] by force
  note L = blocksD(3) [OF b, unfolded lay_append]
  have l: "lay (byte_at m) 4 us" "lay (byte_at m) (4 + span us + s) vs" "8 \<le> s" using L by (simp_all add: add.assoc)
  have "live us \<subseteq> lives 4 us" using live_lives [OF l(1) bg] by blast
  then consider "(8 + span us, k) \<in> lives 4 us" | "(8 + span us, k) \<in> lives (4 + span us + s) vs" using k by blast
  then show False
  proof cases
    case 1
    then show ?thesis using lives_range(2,3) [OF l(1) 1] by simp
  next
    case 2
    then show ?thesis using lives_range(1) [OF l(2) 2] l(3) by simp
  qed
qed

lemma place_step:
  assumes ok: "heap_ok m (us @ (s, False) # vs)" and n: "16 \<le> n" "n \<le> s" "n mod 8 = 0"
  shows "\<exists>m' bs' k. place (8 + span us) n m = Some m' \<and> heap_ok m' bs' \<and> n - 8 \<le> k \<and>
    live bs' = insert (8 + span us, k) (live (us @ (s, False) # vs)) \<and> kept (live (us @ (s, False) # vs)) m m' \<and>
    8 + span us \<notin> fst ` live (us @ (s, False) # vs)"
proof -
  note H = heap_okD [OF ok]
  note P = prologue [OF H(3) refl]
  have new: "8 + span us \<notin> fst ` live (us @ (s, False) # vs)" by (rule free_not_live [OF H(1)]) (use P in simp)
  from place_ok [OF H(1) refl _ n(2,3)] n obtain m' where
    m': "place (8 + span us) n m = Some m'" "blocks m' (us @ split_block s n @ vs)"
    "same_outside (4 + span us) (4 + span us + s) m m'" by auto
  obtain k where k: "sparse (us @ split_block s n @ vs)" "big (us @ split_block s n @ vs)" "n - 8 \<le> k"
    "live (us @ split_block s n @ vs) = insert (8 + span us, k) (live (us @ (s, False) # vs))"
    by (rule split_ok [OF H(4) _ n(1,2)]) (use P in auto)
  have "kept (live (us @ (s, False) # vs)) m m'"
    by (rule kept_outside [of m us "[(s, False)]" vs]) (use H(1) P m'(3) live_append in \<open>auto simp: same_outside_def\<close>)
  moreover have "heap_ok m' (us @ split_block s n @ vs)"
    using m' k H(2) by (simp add: heap_ok_def same_outside_def)
  ultimately show ?thesis using m'(1) k(3,4) new by blast
qed

definition ok_request :: "int \<Rightarrow> bool" where
  "ok_request n \<longleftrightarrow> 0 < n \<and> n < 2 ^ 31 - 16"

lemma adjust_ok:
  assumes "ok_request n"
  shows "16 \<le> adjust n" "adjust n mod 8 = 0" "n \<le> adjust n - 8" "adjust n < 2 ^ 31"
proof -
  have n: "0 < n" "n < 2 ^ 31 - 16" using assms by (simp_all add: ok_request_def)
  then have e: "adjust n = (if n \<le> 8 then 16 else 8 * ((n + 15) div 8))" by (simp add: adjust_def add.commute)
  show "16 \<le> adjust n" "adjust n mod 8 = 0" "n \<le> adjust n - 8" "adjust n < 2 ^ 31"
    unfolding e using n by (simp_all split: if_split) presburger+
qed

lemma find_fit_ok:
  assumes ok: "heap_ok m bs" and n: "0 < n"
  shows "(\<exists>us s vs. bs = us @ (s, False) # vs \<and> n \<le> s \<and> find_fit n m = Some (Some (8 + span us))) \<or>
    ((\<forall>b \<in> set bs. \<not> fits n b) \<and> find_fit n m = Some None)"
  using fit_loop_ok [of m "[]" bs n] heap_okD(1,2) [OF ok] n by (auto simp: find_fit_def)

lemma grow_step:
  assumes ok: "heap_ok m bs" and n: "16 \<le> n" "n mod 8 = 0" "n < 2 ^ 31"
  shows "if mem_brk m + max n 4096 > MAX_HEAP then extend_heap (max n 4096 div 4) m = Some (None, m)
    else \<exists>m' us s. extend_heap (max n 4096 div 4) m = Some (Some (8 + span us), m') \<and> n \<le> s \<and>
      heap_ok m' (us @ [(s, False)]) \<and> live (us @ [(s, False)]) = live bs \<and> kept (live bs) m m'"
proof -
  note H = heap_okD [OF ok]
  let ?w = "max n 4096 div 4"
  have w: "0 < ?w" "?w * 4 < 2 ^ 31" "?w mod 2 = 0" "?w * 4 = max n 4096" using n by (simp_all add: max_def split: if_splits) presburger+
  obtain us s where mg: "merge_left bs (?w * 4) = (us, s)" by fastforce
  have mr: "merge_right [] s = ([], s)" by (simp add: merge_right_def next_used_def)
  have sp: "sparse (bs @ (?w * 4, True) # [])" using H(4,5) by (simp add: successively_append_iff)
  have M: "sparse (us @ (s, False) # [])" "big (us @ (s, False) # [])" "live (us @ (s, False) # []) = live bs"
    "?w * 4 \<le> s" "big us" using merge_ok [OF sp H(3) _ _ mg mr] w(4) by auto
  show ?thesis
  proof (cases "mem_brk m + max n 4096 > MAX_HEAP")
    case True
    then show ?thesis using extend_heap_ok [OF H(1,5) w(1-3) mg] w(4) by simp
  next
    case False
    from extend_heap_ok [OF H(1,5) w(1-3) mg] False w(4) obtain m' where
      m': "extend_heap ?w m = Some (Some (8 + span us), m')" "blocks m' (us @ [(s, False)])"
      "\<forall>a. a < 4 + span us \<longrightarrow> byte_at m' a = byte_at m a" "heap_listp m' = heap_listp m" by auto
    have pre: "\<exists>zs. bs = us @ zs \<and> lives (4 + span us) zs = {}"
    proof (cases "snd (last bs)")
      case True
      then show ?thesis using mg by (simp add: merge_left_def)
    next
      case False
      then show ?thesis using mg H(5) by (cases bs rule: rev_cases) (auto simp: merge_left_def)
    qed
    then obtain zs where zs: "bs = us @ zs" "lives (4 + span us) zs = {}" by blast
    have lu: "lay (byte_at m) 4 us" using blocksD(3) [OF H(1)] zs(1) by (simp add: lay_append)
    have "live bs \<subseteq> lives 4 us" using zs live_append [OF M(5)] live_lives [OF lu M(5)] by auto
    then have "kept (live bs) m m'"
      using lives_range(2) [OF lu] m'(3) unfolding kept_def by fastforce
    then show ?thesis using False m' M w(4) H(2) by (auto simp: heap_ok_def)
  qed
qed

lemma malloc_ok:
  assumes ok: "heap_ok m bs" and n: "ok_request n"
  shows "(\<exists>p m' bs' k. mm_malloc n m = Some (Some p, m') \<and> heap_ok m' bs' \<and> n \<le> k \<and>
      live bs' = insert (p, k) (live bs) \<and> kept (live bs) m m' \<and> p \<notin> fst ` live bs) \<or>
    (mm_malloc n m = Some (None, m) \<and> (\<forall>b \<in> set bs. \<not> fits (adjust n) b) \<and> mem_brk m + max (adjust n) 4096 > MAX_HEAP)"
proof -
  note H = heap_okD [OF ok]
  note A = adjust_ok [OF n]
  have n0: "n \<noteq> 0" using n by (simp add: ok_request_def)
  from find_fit_ok [OF ok, of "adjust n"] A(1) consider
    us s vs where "bs = us @ (s, False) # vs" "adjust n \<le> s" "find_fit (adjust n) m = Some (Some (8 + span us))"
  | "\<forall>b \<in> set bs. \<not> fits (adjust n) b" "find_fit (adjust n) m = Some None" by auto
  then show ?thesis
  proof cases
    case 1
    from place_step [OF ok [unfolded 1(1)] A(1) 1(2) A(2)] obtain m' bs' k where
      "place (8 + span us) (adjust n) m = Some m'" "heap_ok m' bs'" "adjust n - 8 \<le> k"
      "live bs' = insert (8 + span us, k) (live bs)" "kept (live bs) m m'" "8 + span us \<notin> fst ` live bs"
      unfolding 1(1) by blast
    moreover from this(1) have "mm_malloc n m = Some (Some (8 + span us), m')"
      using 1(3) H(2) n0 by (simp add: mm_malloc_def)
    moreover have "n \<le> k" using A(3) calculation(3) by linarith
    ultimately show ?thesis by blast
  next
    case 2
    show ?thesis
    proof (cases "mem_brk m + max (adjust n) 4096 > MAX_HEAP")
      case True
      then show ?thesis using grow_step [OF ok A(1,2,4)] 2 H(2) n0 by (simp add: mm_malloc_def)
    next
      case False
      from grow_step [OF ok A(1,2,4)] False obtain m1 us s where
        g: "extend_heap (max (adjust n) 4096 div 4) m = Some (Some (8 + span us), m1)" "adjust n \<le> s"
        "heap_ok m1 (us @ [(s, False)])" "live (us @ [(s, False)]) = live bs" "kept (live bs) m m1" by auto
      from place_step [OF g(3) A(1) g(2) A(2)] obtain m' bs' k where
        p: "place (8 + span us) (adjust n) m1 = Some m'" "heap_ok m' bs'" "adjust n - 8 \<le> k"
        "live bs' = insert (8 + span us, k) (live bs)" "kept (live bs) m1 m'" "8 + span us \<notin> fst ` live bs"
        unfolding g(4) by blast
      have "mm_malloc n m = Some (Some (8 + span us), m')"
        using 2(2) g(1) p(1) H(2) n0 by (simp add: mm_malloc_def)
      moreover have "n \<le> k" using A(3) p(3) by linarith
      ultimately show ?thesis using p(2,4,6) kept_trans [OF g(5) p(5)] by blast
    qed
  qed
qed

lemma malloc_fits:
  assumes "heap_ok m bs" "ok_request n" "b \<in> set bs" "fits (adjust n) b"
  obtains p m' bs' k where "mm_malloc n m = Some (Some p, m')" "heap_ok m' bs'" "n \<le> k" "(p, k) \<in> live bs'"
  using malloc_ok [OF assms(1,2)]
proof (elim disjE exE conjE)
  fix p m' bs' k
  assume "mm_malloc n m = Some (Some p, m')" "heap_ok m' bs'" "n \<le> k" "live bs' = insert (p, k) (live bs)"
  then show thesis using that [of p m' bs' k] by simp
next
  assume "\<forall>b \<in> set bs. \<not> fits (adjust n) b"
  then show thesis using assms(3,4) by blast
qed

lemma free_ok:
  assumes ok: "heap_ok m bs" and p: "(p, k) \<in> live bs"
  shows "\<exists>m' bs'. mm_free (Some p) m = Some m' \<and> heap_ok m' bs' \<and> live bs' = live bs - {(p, k)} \<and>
    kept (live bs - {(p, k)}) m m'"
proof -
  note H = heap_okD [OF ok]
  obtain rest where rest: "bs = (8, True) # rest" using H(3) by (cases bs) (auto simp: big_def)
  from lives_split [of p k 12 rest] p rest obtain ws ys where
    w: "rest = ws @ (k + 8, True) # ys" "p = 12 + span ws + 4" by (auto simp: live_def)
  define xs where "xs = (8, True) # ws"
  have bs: "bs = xs @ (k + 8, True) # ys" "p = 8 + span xs" "xs \<noteq> []" using rest w by (simp_all add: xs_def)
  have bg: "big xs" "16 \<le> k + 8" "\<forall>b \<in> set ys. 16 \<le> fst b" using H(3) bs by (simp_all add: big_append)
  have bm: "blocks m (xs @ [(k + 8, True)] @ ys)" using H(1) bs by simp
  note C = block_at [OF H(1) [unfolded bs(1)] bs(2)]
  have s: "k + 8 < 2 ^ 31" using blocks_small(4) [OF bm] by simp
  let ?m = "m\<lparr>byte_at := set_block (p - 4) (k + 8) False (byte_at m)\<rparr>"
  have b1: "blocks ?m (xs @ (k + 8, False) # ys)"
    using set_block_ok [OF bm _ C(3,4) s, of False] bs(2) by simp
  obtain xs' l where ml: "merge_left xs (k + 8) = (xs', l)" by fastforce
  obtain ys' r where mr: "merge_right ys l = (ys', r)" by fastforce
  from coalesce_ok [OF b1 bs(3,2) ml mr] obtain m' where
    m': "coalesce p ?m = Some (8 + span xs', m')" "blocks m' (xs' @ (r, False) # ys')"
    "same_outside (4 + span xs') (4 + span xs' + r) ?m m'" by blast
  note M = merge_ok [OF H(4) [unfolded bs(1)] bg ml mr]
  have run: "mm_free (Some p) m = Some m'"
    using C(9) H(2) m'(1) tag_free [OF C(1,2,3,4) s, of "\<lambda>m. Option.bind (coalesce p m) (\<lambda>(bp, m). Some m)"]
    by (simp add: mm_free_def HDRP_def)
  have lx: "live bs = live xs \<union> insert (p, k) (lives (4 + span xs + (k + 8)) ys)"
    using live_append [OF bg(1)] bs by simp
  have L: "lay (byte_at m) 4 bs" by (rule blocksD(3) [OF H(1)])
  have "(p, k) \<notin> live xs \<union> lives (4 + span xs + (k + 8)) ys"
    using live_outside [OF bm bg(1), of p k p] C(3) bg(2) bs(2) by auto
  then have live': "live (xs' @ (r, False) # ys') = live bs - {(p, k)}" using M(3) lx by auto
  have "kept (live bs - {(p, k)}) m ?m"
    by (rule kept_outside [OF bm bg(1)]) (use lx C(3) bs(2) in \<open>auto simp: set_block_outside\<close>)
  moreover have "kept (live bs - {(p, k)}) ?m m'"
  proof (rule kept_sym, rule kept_outside [of m' xs' "[(r, False)]" ys'])
    show "live bs - {(p, k)} \<subseteq> live xs' \<union> lives (4 + span xs' + span [(r, False)]) ys'"
      using live' live_append [OF M(5)] by auto
  qed (use m' M(5) in \<open>auto simp: same_outside_def\<close>)
  ultimately have "kept (live bs - {(p, k)}) m m'" by (rule kept_trans)
  moreover have "heap_ok m' (xs' @ (r, False) # ys')"
    using m'(2,3) M(1,2) H(2) by (simp add: heap_ok_def same_outside_def)
  ultimately show ?thesis using run live' by blast
qed

lemma init_ok:
  assumes "mem_brk m = 0"
  shows "\<exists>m'. mm_init m = Some (0, m') \<and> heap_ok m' [(8, True), (4096, False)]"
proof -
  let ?f = "put_word 12 1 (put_word 8 9 (put_word 4 9 (put_word 0 0 (byte_at m))))"
  let ?m = "m\<lparr>mem_brk := 16, byte_at := ?f, heap_listp := Some 8\<rparr>"
  have w: "word_at ?f 4 = 9" "word_at ?f 8 = 9" "word_at ?f 12 = 1"
    by (simp_all add: word_put_other word_put_same)
  then have b: "blocks ?m [(8, True)]" by (simp add: blocks_def MAX_HEAP_def)
  have "merge_left [(8, True)] (1024 * 4) = ([(8, True)], 4096)" by (simp add: merge_left_def)
  from extend_heap_ok [OF b _ _ _ _ this] obtain m' where
    m': "extend_heap 1024 ?m = Some (Some 16, m')" "blocks m' [(8, True), (4096, False)]" "heap_listp m' = Some 8"
    by (auto simp: MAX_HEAP_def)
  have "PACK 8 1 = 9" "PACK 0 1 = 1" using PACK_simps(2) [of 8] PACK_simps(2) [of 0] by simp_all
  then have "mm_init m = Some (0, m')"
    using assms m'(1) by (simp add: mm_init_def mem_sbrk_def MAX_HEAP_def PUT_def valid_def)
  then show ?thesis using m'(2,3) by (simp add: heap_ok_def big_def)
qed

section \<open>The allocator contract\<close>

definition poke :: "int \<Rightarrow> int \<Rightarrow> mm \<Rightarrow> mm" where
  "poke a b m = m\<lparr>byte_at := (byte_at m)(a := b)\<rparr>"

text \<open>The client holds exactly the live blocks, each at least as long as requested.\<close>

definition mm_inv :: "mm \<Rightarrow> (int \<rightharpoonup> int) \<Rightarrow> bool" where
  "mm_inv m L \<longleftrightarrow> (\<exists>bs. heap_ok m bs \<and> fst ` live bs = dom L \<and> (\<forall>p n. L p = Some n \<longrightarrow> (\<exists>k \<ge> n. (p, k) \<in> live bs)))"

lemma live_lay:
  assumes "heap_ok m bs"
  shows "lay (byte_at m) 12 (tl bs)" "mem_brk m = 16 + span (tl bs)"
  using heap_okD [OF assms] blocksD(1,3) [of m bs] by (cases bs; auto simp: big_def)+

lemma live_unique:
  assumes ok: "heap_ok m bs" and p: "(p, k) \<in> live bs" "(p, k') \<in> live bs"
  shows "k = k'"
proof (rule ccontr)
  assume "k \<noteq> k'"
  then have "p + k + 8 \<le> p \<or> p + k' + 8 \<le> p"
    using lives_disjoint [OF live_lay(1) [OF ok], of p k p k'] p by (simp add: live_def)
  then show False using lives_range(3) [OF live_lay(1) [OF ok]] p unfolding live_def by fastforce
qed

lemma kept_buffers:
  assumes "kept K m m'" "\<forall>p n. L p = Some n \<longrightarrow> (\<exists>k \<ge> n. (p, k) \<in> K)"
  shows "same_buffers (byte_at m) (byte_at m') L"
  unfolding same_buffers_def
proof (intro allI impI, elim conjE)
  fix p n a assume "L p = Some n" "p \<le> a" "a < p + n"
  moreover from this(1) assms(2) obtain k where "k \<ge> n" "(p, k) \<in> K" by blast
  ultimately show "byte_at m' a = byte_at m a" using assms(1) unfolding kept_def by force
qed

text \<open>The client may write anything into the payload of a live block.\<close>

lemma payload_heap_ok:
  assumes ok: "heap_ok m bs" and p: "(p, k) \<in> live bs" and out: "\<forall>a. a < p \<or> p + k \<le> a \<longrightarrow> g a = byte_at m a"
  shows "heap_ok (m\<lparr>byte_at := g\<rparr>) bs" "GET_SIZE m (HDRP p) = Some (k + 8)"
proof -
  note H = heap_okD [OF ok]
  obtain rest where rest: "bs = (8, True) # rest" using H(3) by (cases bs) (auto simp: big_def)
  from lives_split [of p k 12 rest] p rest obtain ws ys where
    w: "rest = ws @ (k + 8, True) # ys" "p = 12 + span ws + 4" by (auto simp: live_def)
  define xs where "xs = (8, True) # ws"
  have bs: "bs = xs @ [(k + 8, True)] @ ys" "p = 8 + span xs" using rest w by (simp_all add: xs_def)
  let ?h = "4 + span xs"
  have l: "word_at (byte_at m) ?h = k + 9" "word_at (byte_at m) (?h + (k + 8) - 4) = k + 9" "8 \<le> k + 8" "(k + 8) mod 8 = 0"
    using blocksD(3) [OF H(1)] bs(1) by (simp_all add: lay_append)
  have "word_at g ?h = word_at (byte_at m) ?h" "word_at g (?h + (k + 8) - 4) = word_at (byte_at m) (?h + (k + 8) - 4)"
    by (rule word_cong; use out bs(2) in auto)+
  then have "lay g ?h [(k + 8, True)]" using l by simp
  then have "blocks (m\<lparr>byte_at := g\<rparr>) (xs @ [(k + 8, True)] @ ys)"
    by (rule replace_blocks [OF H(1) [unfolded bs(1)]]) (use out bs(2) in auto)
  then show "heap_ok (m\<lparr>byte_at := g\<rparr>) bs" using H bs(1) by (simp add: heap_ok_def)
  show "GET_SIZE m (HDRP p) = Some (k + 8)"
    using block_at(9) [of m xs "k + 8" True ys p] H(1) bs by (simp add: HDRP_def)
qed

interpretation bt: allocator mm_inv byte_at mm_malloc "\<lambda>p. mm_free (Some p)" poke ok_request
proof unfold_locales
  fix m L n assume "mm_inv m L" "ok_request n"
  then obtain bs where bs: "heap_ok m bs" "fst ` live bs = dom L" "\<forall>p n. L p = Some n \<longrightarrow> (\<exists>k \<ge> n. (p, k) \<in> live bs)"
    by (auto simp: mm_inv_def)
  from malloc_ok [OF bs(1) \<open>ok_request n\<close>]
  show "\<exists>r m'. mm_malloc n m = Some (r, m') \<and> same_buffers (byte_at m) (byte_at m') L \<and>
      (case r of None \<Rightarrow> mm_inv m' L | Some p \<Rightarrow> L p = None \<and> mm_inv m' (L(p \<mapsto> n)))"
  proof (elim disjE exE conjE)
    fix p m' bs' k
    assume r: "mm_malloc n m = Some (Some p, m')" "heap_ok m' bs'" "n \<le> k" "live bs' = insert (p, k) (live bs)"
      "kept (live bs) m m'" "p \<notin> fst ` live bs"
    have "L p = None" using r(6) bs(2) by blast
    moreover have "mm_inv m' (L(p \<mapsto> n))" unfolding mm_inv_def
      using r(2,3,4) bs(2,3) by (intro exI [of _ bs']) auto
    ultimately show ?thesis using r(1) kept_buffers [OF r(5) bs(3)] by simp
  next
    assume "mm_malloc n m = Some (None, m)"
    then show ?thesis using \<open>mm_inv m L\<close> by (simp add: same_buffers_def)
  qed
next
  fix m L p n assume "mm_inv m L" "L p = Some n"
  then obtain bs where bs: "heap_ok m bs" "fst ` live bs = dom L" "\<forall>p n. L p = Some n \<longrightarrow> (\<exists>k \<ge> n. (p, k) \<in> live bs)"
    by (auto simp: mm_inv_def)
  then obtain k where k: "(p, k) \<in> live bs" using \<open>L p = Some n\<close> by blast
  from free_ok [OF bs(1) k] obtain m' bs' where
    r: "mm_free (Some p) m = Some m'" "heap_ok m' bs'" "live bs' = live bs - {(p, k)}" "kept (live bs - {(p, k)}) m m'" by blast
  have "fst ` live bs' = dom (L(p := None))"
    unfolding r(3) using fst_diff [of p "live bs" k] live_unique [OF bs(1) _ k] bs(2) by auto
  moreover have sub: "\<forall>q j. (L(p := None)) q = Some j \<longrightarrow> (\<exists>k' \<ge> j. (q, k') \<in> live bs - {(p, k)})"
    using bs(3) by (auto split: if_splits)
  ultimately have "mm_inv m' (L(p := None))" unfolding mm_inv_def using r(2,3) by (intro exI [of _ bs']) simp
  then show "\<exists>m'. mm_free (Some p) m = Some m' \<and> mm_inv m' (L(p := None)) \<and> same_buffers (byte_at m) (byte_at m') (L(p := None))"
    using r(1) kept_buffers [OF r(4) sub] by blast
next
  fix m L p n a b assume h: "mm_inv m L" "L p = Some n" "p \<le> a" "a < p + n"
  then obtain bs where bs: "heap_ok m bs" "fst ` live bs = dom L" "\<forall>p n. L p = Some n \<longrightarrow> (\<exists>k \<ge> n. (p, k) \<in> live bs)"
    by (auto simp: mm_inv_def)
  from bs(3) h(2) obtain k where k: "k \<ge> n" "(p, k) \<in> live bs" by blast
  have "heap_ok (poke a b m) bs" unfolding poke_def by (rule payload_heap_ok(1) [OF bs(1) k(2)]) (use h k in auto)
  then show "mm_inv (poke a b m) L \<and> byte_at (poke a b m) = (byte_at m)(a := b)"
    using bs unfolding mm_inv_def by (auto simp: poke_def)
next
  fix m L p n q j assume h: "mm_inv m L" "L p = Some n" "L q = Some j" "p \<noteq> q"
  then obtain bs where bs: "heap_ok m bs" "\<forall>p n. L p = Some n \<longrightarrow> (\<exists>k \<ge> n. (p, k) \<in> live bs)" by (auto simp: mm_inv_def)
  from bs(2) h(2) obtain k where k: "k \<ge> n" "(p, k) \<in> live bs" by blast
  from bs(2) h(3) obtain i where i: "i \<ge> j" "(q, i) \<in> live bs" by blast
  show "p + n \<le> q \<or> q + j \<le> p"
    using lives_disjoint [OF live_lay(1) [OF bs(1)], of p k q i] k i h(4) by (auto simp: live_def)
qed

lemma mm_inv_buffer:
  assumes "mm_inv m L" "L p = Some n"
  shows "p mod 8 = 0" "16 \<le> p" "p + n \<le> mem_brk m"
proof -
  from assms obtain bs k where bs: "heap_ok m bs" "k \<ge> n" "(p, k) \<in> live bs" unfolding mm_inv_def by blast
  have "(p, k) \<in> lives 12 (tl bs)" using bs(3) by (simp add: live_def)
  note R = lives_range [OF live_lay(1) [OF bs(1)] this]
  show "16 \<le> p" "p + n \<le> mem_brk m" using R bs(2) live_lay(2) [OF bs(1)] by simp_all
  show "p mod 8 = 0" using R(4) by presburger
qed

lemma realloc_ok:
  assumes ok: "heap_ok m bs" and p: "(p, k) \<in> live bs" and n: "ok_request n"
  shows "mm_realloc (Some p) n m = Some (None, m) \<or>
    (\<exists>q k' m' bs'. mm_realloc (Some p) n m = Some (Some q, m') \<and> heap_ok m' bs' \<and> n \<le> k' \<and>
      live bs' = insert (q, k') (live bs - {(p, k)}) \<and> kept (live bs - {(p, k)}) m m' \<and>
      (\<forall>i. 0 \<le> i \<and> i < n \<and> i < k \<longrightarrow> byte_at m' (q + i) = byte_at m (p + i)))"
proof (cases "mm_malloc n m = Some (None, m)")
  case True
  then show ?thesis using n by (simp add: mm_realloc_def ok_request_def)
next
  case False
  from malloc_ok [OF ok n] False obtain q m1 bs1 k1 where
    q: "mm_malloc n m = Some (Some q, m1)" "heap_ok m1 bs1" "n \<le> k1" "live bs1 = insert (q, k1) (live bs)"
    "kept (live bs) m m1" "q \<notin> fst ` live bs" by auto
  have p1: "(p, k) \<in> live bs1" and q1: "(q, k1) \<in> live bs1" using p q(4) by simp_all
  note lay1 = live_lay [OF q(2)]
  have apart: "r + l + 8 \<le> q \<or> q + k1 + 8 \<le> r" if "(r, l) \<in> live bs" for r l
  proof -
    have "(r, l) \<noteq> (q, k1)" using that q(6) by force
    then show ?thesis using lives_disjoint [OF lay1(1), of r l q k1] that q(4) by (auto simp: live_def)
  qed
  define c where "c = (if n < k + 8 then n else k + 8)"
  let ?g = "\<lambda>a. if q \<le> a \<and> a < q + c then byte_at m1 (p + (a - q)) else byte_at m1 a"
  let ?m2 = "m1\<lparr>byte_at := ?g\<rparr>"
  have c: "0 \<le> c" "c \<le> n" "c \<le> k + 8"
    using n lives_range(3) [OF live_lay(1) [OF ok], of p k] p by (auto simp: c_def ok_request_def live_def)
  have rp: "16 \<le> p" "p + k + 8 \<le> mem_brk m1" using lives_range(1,2) [OF lay1(1), of p k] p1 lay1(2) by (simp_all add: live_def)
  have rq: "16 \<le> q" "q + k1 + 8 \<le> mem_brk m1" using lives_range(1,2) [OF lay1(1), of q k1] q1 lay1(2) by (simp_all add: live_def)
  have cpy: "memcpy q p c m1 = Some ?m2" using rp rq c q(3) apart [OF p] by (auto simp: memcpy_def)
  have g: "GET_SIZE m1 (HDRP p) = Some (k + 8)" by (rule payload_heap_ok(2) [OF q(2) p1]) auto
  have ok2: "heap_ok ?m2 bs1" by (rule payload_heap_ok(1) [OF q(2) q1]) (use c q(3) in auto)
  from free_ok [OF ok2 p1] obtain m3 bs3 where
    f: "mm_free (Some p) ?m2 = Some m3" "heap_ok m3 bs3" "live bs3 = live bs1 - {(p, k)}" "kept (live bs1 - {(p, k)}) ?m2 m3" by blast
  have run: "mm_realloc (Some p) n m = Some (Some q, m3)"
    using n q(1) g cpy f(1) by (simp add: mm_realloc_def c_def ok_request_def)
  have qp: "(q, k1) \<noteq> (p, k)" using q(6) p by force
  then have lv: "live bs3 = insert (q, k1) (live bs - {(p, k)})" using f(3) q(4) by auto
  have "kept (live bs) m1 ?m2" unfolding kept_def
  proof (intro allI impI, elim conjE)
    fix r l a assume "(r, l) \<in> live bs" "r \<le> a" "a < r + l"
    then show "byte_at ?m2 a = byte_at m1 a" using apart [of r l] c q(3) by auto
  qed
  then have "kept (live bs) m ?m2" by (rule kept_trans [OF q(5)])
  then have kept3: "kept (live bs - {(p, k)}) m m3"
    by (rule kept_trans [OF kept_mono [OF _] kept_mono [OF f(4)]]) (use q(4) in auto)
  have "byte_at m3 (q + i) = byte_at m (p + i)" if i: "0 \<le> i" "i < n" "i < k" for i
  proof -
    have "(q, k1) \<in> live bs1 - {(p, k)}" using q1 qp by simp
    then have "byte_at m3 (q + i) = byte_at ?m2 (q + i)" by (rule keptD [OF f(4)]) (use i q(3) in simp_all)
    also have "\<dots> = byte_at m1 (p + i)" using i by (simp add: c_def)
    also have "\<dots> = byte_at m (p + i)" by (rule keptD [OF q(5) p]) (use i in simp_all)
    finally show ?thesis .
  qed
  then show ?thesis using run f(2) q(3) lv kept3 by blast
qed

section \<open>Properties\<close>

text \<open>C5: A client that requests, releases and fills buffers in any order, from the initialisation on, with
  requests of up to 2147483631 bytes: no call leaves the heap, every buffer is 8-byte aligned,
  lies inside the heap and is disjoint from all others, every stored byte is still there when its buffer is
  still held, and the heap stays a sequence of tagged blocks without two free neighbours, whose
  allocated blocks are exactly the buffers the client holds.\<close>

theorem malloc_client_correct:
  assumes "mem_brk m0 = 0" "\<forall>n. Request n \<in> set ops \<longrightarrow> ok_request n"
  shows "\<exists>m1 m L D. mm_init m0 = Some (0, m1) \<and>
    run_client mm_malloc (\<lambda>p. mm_free (Some p)) poke ops (m1, Map.empty, Map.empty) = Some (m, L, D) \<and>
    (\<exists>bs. heap_ok m bs \<and> fst ` live bs = dom L) \<and>
    (\<forall>p n. L p = Some n \<longrightarrow> p mod 8 = 0 \<and> 16 \<le> p \<and> p + n \<le> mem_brk m) \<and>
    (\<forall>p q n k. L p = Some n \<and> L q = Some k \<and> p \<noteq> q \<longrightarrow> p + n \<le> q \<or> q + k \<le> p) \<and>
    (\<forall>a b. D a = Some b \<longrightarrow> byte_at m a = b)"
proof -
  from init_ok [OF assms(1)] obtain m1 where m1: "mm_init m0 = Some (0, m1)" "heap_ok m1 [(8, True), (4096, False)]" by blast
  have "mm_inv m1 Map.empty" unfolding mm_inv_def using m1(2)
    by (intro exI [of _ "[(8, True), (4096, False)]"]) (simp add: live_def)
  from bt.run_client_from_start [OF this assms(2)] obtain m L D where
    r: "run_client mm_malloc (\<lambda>p. mm_free (Some p)) poke ops (m1, Map.empty, Map.empty) = Some (m, L, D)" "mm_inv m L"
    "\<forall>a b. D a = Some b \<longrightarrow> byte_at m a = b"
    "\<forall>p q n k. L p = Some n \<and> L q = Some k \<and> p \<noteq> q \<longrightarrow> p + n \<le> q \<or> q + k \<le> p" by blast
  moreover have "\<exists>bs. heap_ok m bs \<and> fst ` live bs = dom L" using r(2) unfolding mm_inv_def by blast
  moreover have "\<forall>p n. L p = Some n \<longrightarrow> p mod 8 = 0 \<and> 16 \<le> p \<and> p + n \<le> mem_brk m" using mm_inv_buffer [OF r(2)] by blast
  ultimately show ?thesis using m1(1) by blast
qed

definition fresh_mm :: mm where
  "fresh_mm = \<lparr>byte_at = \<lambda>_. 0, mem_brk = 0, heap_listp = None\<rparr>"

theorem malloc_client_correct_witness:
  "\<exists>m1 m L D. mm_init fresh_mm = Some (0, m1) \<and>
     run_client mm_malloc (\<lambda>p. mm_free (Some p)) poke [Request 10, Store 16 0 7, Request 20, Release 16]
       (m1, Map.empty, Map.empty) = Some (m, L, D) \<and> (\<forall>a b. D a = Some b \<longrightarrow> byte_at m a = b)"
proof -
  have z: "mem_brk fresh_mm = 0" by (simp add: fresh_mm_def)
  have r: "\<forall>n. Request n \<in> set [Request 10, Store 16 0 7, Request 20, Release 16] \<longrightarrow> ok_request n"
    by (simp add: ok_request_def)
  from malloc_client_correct [OF z r] show ?thesis by blast
qed

text \<open>C22: Allocation and release on every branch.  A request returns a new block of at least the requested
  length, or null, leaving the heap unchanged, and null only when no free block fits and the heap cannot
  grow by the needed amount; releasing a live block removes exactly it; neither changes a byte of the other
  live blocks, and both keep the heap well formed and coalesced.\<close>

theorem malloc_free_correct:
  assumes "heap_ok m bs"
  shows "(ok_request n \<longrightarrow>
      (\<exists>p m' bs' k. mm_malloc n m = Some (Some p, m') \<and> heap_ok m' bs' \<and> n \<le> k \<and>
        live bs' = insert (p, k) (live bs) \<and> p \<notin> fst ` live bs \<and> kept (live bs) m m') \<or>
      (mm_malloc n m = Some (None, m) \<and> (\<forall>b \<in> set bs. \<not> fits (adjust n) b) \<and>
        mem_brk m + max (adjust n) 4096 > MAX_HEAP)) \<and>
    mm_malloc 0 m = Some (None, m) \<and> mm_free None m = Some m \<and>
    (\<forall>p k. (p, k) \<in> live bs \<longrightarrow> (\<exists>m' bs'. mm_free (Some p) m = Some m' \<and> heap_ok m' bs' \<and>
      live bs' = live bs - {(p, k)} \<and> kept (live bs - {(p, k)}) m m'))"
proof (intro conjI impI allI)
  show "mm_malloc 0 m = Some (None, m)" using heap_okD(2) [OF assms] by (simp add: mm_malloc_def)
  show "mm_free None m = Some m" by (simp add: mm_free_def)
  show "\<exists>m' bs'. mm_free (Some p) m = Some m' \<and> heap_ok m' bs' \<and> live bs' = live bs - {(p, k)} \<and>
      kept (live bs - {(p, k)}) m m'" if "(p, k) \<in> live bs" for p k
    by (rule free_ok [OF assms that])
  show "(\<exists>p m' bs' k. mm_malloc n m = Some (Some p, m') \<and> heap_ok m' bs' \<and> n \<le> k \<and>
        live bs' = insert (p, k) (live bs) \<and> p \<notin> fst ` live bs \<and> kept (live bs) m m') \<or>
      (mm_malloc n m = Some (None, m) \<and> (\<forall>b \<in> set bs. \<not> fits (adjust n) b) \<and>
        mem_brk m + max (adjust n) 4096 > MAX_HEAP)" if "ok_request n"
    using malloc_ok [OF assms that] by blast
qed

theorem malloc_free_correct_witness:
  "\<exists>m1. mm_init fresh_mm = Some (0, m1) \<and> mm_malloc 0 m1 = Some (None, m1) \<and> mm_free None m1 = Some m1"
proof -
  from init_ok [of fresh_mm] obtain m1 where
    "mm_init fresh_mm = Some (0, m1)" "heap_ok m1 [(8, True), (4096, False)]" by (auto simp: fresh_mm_def)
  with malloc_free_correct [of m1] show ?thesis by blast
qed

text \<open>\<open>mm_realloc\<close> of a live block either returns null and changes nothing, or moves the block: the new one
  has at least the requested length, starts with the old contents as far as both reach, the old one is
  released and all others keep their bytes, although the copy may read past the old payload.\<close>

theorem realloc_correct:
  assumes "heap_ok m bs" "(p, k) \<in> live bs" "ok_request n"
  shows "mm_realloc (Some p) n m = Some (None, m) \<or>
    (\<exists>q k' m' bs'. mm_realloc (Some p) n m = Some (Some q, m') \<and> heap_ok m' bs' \<and> n \<le> k' \<and>
      live bs' = insert (q, k') (live bs - {(p, k)}) \<and> kept (live bs - {(p, k)}) m m' \<and>
      (\<forall>i. 0 \<le> i \<and> i < n \<and> i < k \<longrightarrow> byte_at m' (q + i) = byte_at m (p + i)))"
  by (rule realloc_ok [OF assms])

theorem realloc_correct_witness:
  "\<exists>m1 p m2 r m3. mm_init fresh_mm = Some (0, m1) \<and> mm_malloc 10 m1 = Some (Some p, m2) \<and>
     mm_realloc (Some p) 20 m2 = Some (r, m3) \<and> (r \<noteq> None \<longrightarrow> byte_at m3 (the r) = byte_at m2 p)"
proof -
  have r: "ok_request 10" "ok_request 20" by (simp_all add: ok_request_def)
  from init_ok [of fresh_mm] obtain m1 where
    m1: "mm_init fresh_mm = Some (0, m1)" "heap_ok m1 [(8, True), (4096, False)]" by (auto simp: fresh_mm_def)
  obtain p m2 bs2 k where
    m2: "mm_malloc 10 m1 = Some (Some p, m2)" "heap_ok m2 bs2" "10 \<le> k" and pk: "(p, k) \<in> live bs2"
    by (rule malloc_fits [OF m1(2) r(1), of "(4096, False)"]) (simp_all add: fits_def adjust_def)
  from realloc_correct [OF m2(2) pk r(2)] show ?thesis
  proof (elim disjE exE conjE)
    assume "mm_realloc (Some p) 20 m2 = Some (None, m2)"
    then have "\<exists>r m3. mm_realloc (Some p) 20 m2 = Some (r, m3) \<and> (r \<noteq> None \<longrightarrow> byte_at m3 (the r) = byte_at m2 p)"
      by (intro exI [of _ None] exI [of _ m2]) simp
    then show ?thesis using m1(1) m2(1) by blast
  next
    fix q k' m' bs'
    assume q: "mm_realloc (Some p) 20 m2 = Some (Some q, m')"
      "\<forall>i. 0 \<le> i \<and> i < 20 \<and> i < k \<longrightarrow> byte_at m' (q + i) = byte_at m2 (p + i)"
    then have "byte_at m' (the (Some q)) = byte_at m2 p" using q(2) [rule_format, of 0] m2(3) by simp
    then have "\<exists>r m3. mm_realloc (Some p) 20 m2 = Some (r, m3) \<and> (r \<noteq> None \<longrightarrow> byte_at m3 (the r) = byte_at m2 p)"
      using q(1) by (intro exI [of _ "Some q"] exI [of _ m']) simp
    then show ?thesis using m1(1) m2(1) by blast
  qed
qed

text \<open>The size computation of \<open>mm_malloc\<close> wraps around: a request for nearly $2^{64}$ bytes is answered with a
  block of at most 16 bytes, tags included, as long as any block is free.\<close>

theorem malloc_wraps_around:
  assumes "heap_ok m bs" "(s, False) \<in> set bs" "2 ^ 64 - 7 \<le> n" "n < 2 ^ 64"
  shows "\<exists>p m' z. mm_malloc n m = Some (Some p, m') \<and> GET_SIZE m' (HDRP p) = Some z \<and> z \<le> 16"
proof -
  note H = heap_okD [OF assms(1)]
  have "(n + 15) mod 2 ^ 64 = (n + 15 - 2 ^ 64) mod 2 ^ 64" by (rule minus_mod_self2 [symmetric])
  also have "\<dots> = n + 15 - 2 ^ 64" using assms(3,4) by (intro mod_pos_pos_trivial) simp_all
  finally have "adjust n = 8 * ((n + 15 - 2 ^ 64) div 8)" using assms(3) by (simp add: adjust_def add.commute)
  moreover have "8 \<le> n + 15 - 2 ^ 64" "n + 15 - 2 ^ 64 < 16" using assms(3,4) by simp_all
  ultimately have A: "adjust n = 8" by presburger
  have "16 \<le> s"
  proof -
    obtain us vs where "bs = us @ (s, False) # vs" using assms(2) split_list by fast
    then show ?thesis using prologue [OF H(3)] by blast
  qed
  then have "fits 8 (s, False)" by (simp add: fits_def)
  with find_fit_ok [OF assms(1), of 8] assms(2) obtain us t vs where
    t: "bs = us @ (t, False) # vs" "find_fit 8 m = Some (Some (8 + span us))" by auto
  have b: "blocks m (us @ (t, False) # vs)" using H(1) t(1) by simp
  have t16: "16 \<le> t" using prologue [OF H(3) t(1)] by blast
  then have "8 \<le> t" by simp
  from place_ok [OF b refl _ this] obtain m' where
    m': "place (8 + span us) 8 m = Some m'" "blocks m' (us @ split_block t 8 @ vs)" by auto
  have n0: "n \<noteq> 0" using assms(3) by auto
  have run: "mm_malloc n m = Some (Some (8 + span us), m')" using A t(2) m'(1) H(2) n0 by (simp add: mm_malloc_def)
  have t8: "t mod 8 = 0" using block_at(4) [OF b refl] .
  obtain z rest where z: "split_block t 8 = (z, True) # rest" "z \<le> 16"
    using t16 t8 by (cases "t - 8 \<ge> 16") (auto simp: split_block_def)
  have "GET_SIZE m' (HDRP (8 + span us)) = Some z"
    using block_at(9) [of m' us z True "rest @ vs" "8 + span us"] m'(2) z(1) by (simp add: HDRP_def)
  then show ?thesis using run z(2) by blast
qed

theorem malloc_wraps_around_witness:
  "\<exists>m1 p m2 z. mm_init fresh_mm = Some (0, m1) \<and> mm_malloc (2 ^ 64 - 1) m1 = Some (Some p, m2) \<and>
     GET_SIZE m2 (HDRP p) = Some z \<and> z \<le> 16"
proof -
  from init_ok [of fresh_mm] obtain m1 where
    m1: "mm_init fresh_mm = Some (0, m1)" "heap_ok m1 [(8, True), (4096, False)]" by (auto simp: fresh_mm_def)
  from malloc_wraps_around [OF m1(2), of 4096 "2 ^ 64 - 1"] m1(1) show ?thesis by auto
qed

end
