(* ===== verification/Asio_Session.thy ===== *)
theory Asio_Session
  imports Interfaces
begin

text \<open>
  Sessions over asynchronous sockets: the client session of
  src/cplusplus/net\_program/code/cpp\_net/base\_asio/session.cpp (a write queue with partial writes, and the
  variants next to it), and the server session of base\_asio\_plus/session.cpp (a send queue with complete
  writes).

  An asynchronous operation is a pending entry with its handler; the environment completes pending
  operations, and a completion runs the handler.  The bytes a write operation transfers appear on
  \<open>wire\<close>.  Message nodes are shared objects, named by their position in \<open>nodes\<close>.  Messages are shorter
  than $2^{31}$ bytes, so the \<open>int\<close> lengths do not wrap.
\<close>

section \<open>The client session\<close>

record 'a node =
  n_msg :: "'a list"
  n_cur :: nat

datatype handler = OnWriteErr nat | OnWrite | OnWriteAll | OnRead

datatype 'a aop = Send handler "'a list" | Recv handler nat

record 'a asess =
  nodes :: "'a node list"
  send_node :: "nat option"
  send_queue :: "nat list"
  send_pending :: bool
  recv_node :: "(nat \<times> nat) option"
  recv_pending :: bool
  aops :: "'a aop list"
  wire :: "'a list"

definition RECVSIZE :: nat where "RECVSIZE = 1024"

definition new_session :: "'a asess" where
  "new_session = \<lparr>nodes = [], send_node = None, send_queue = [], send_pending = False, recv_node = None,
     recv_pending = False, aops = [], wire = []\<rparr>"

definition new_node :: "'a list \<Rightarrow> 'a asess \<Rightarrow> nat \<times> 'a asess" where
  "new_node buf s = (length (nodes s), s\<lparr>nodes := nodes s @ [\<lparr>n_msg = buf, n_cur = 0\<rparr>]\<rparr>)"

definition async :: "'a aop \<Rightarrow> 'a asess \<Rightarrow> 'a asess" where
  "async x s = s\<lparr>aops := aops s @ [x]\<rparr>"

definition rest :: "'a asess \<Rightarrow> nat \<Rightarrow> 'a list" where
  "rest s i = drop (n_cur (nodes s ! i)) (n_msg (nodes s ! i))"

definition advance :: "nat \<Rightarrow> nat \<Rightarrow> 'a asess \<Rightarrow> 'a asess" where
  "advance i k s = s\<lparr>nodes := (nodes s)[i := (nodes s ! i)\<lparr>n_cur := n_cur (nodes s ! i) + k\<rparr>]\<rparr>"

definition unfinished :: "'a asess \<Rightarrow> nat \<Rightarrow> bool" where
  "unfinished s i \<longleftrightarrow> n_cur (nodes s ! i) < length (n_msg (nodes s ! i))"

subsection \<open>The first attempt\<close>

definition write_callback_err :: "nat \<Rightarrow> nat \<Rightarrow> 'a asess \<Rightarrow> 'a asess outcome" where
  "write_callback_err i k s =
     (let s = advance i k s in
      if unfinished s i
      then (case send_node s of
              None \<Rightarrow> Inl UB
            | Some j \<Rightarrow> Inr (async (Send (OnWriteErr i) (rest s j)) s))
      else Inr s)"

definition write2socket_err :: "'a list \<Rightarrow> 'a asess \<Rightarrow> 'a asess" where
  "write2socket_err buf s =
     (let (i, s) = new_node buf s in async (Send (OnWriteErr i) (rest s i)) (s\<lparr>send_node := Some i\<rparr>))"

subsection \<open>The write queue\<close>

definition write_callback :: "nat \<Rightarrow> 'a asess \<Rightarrow> 'a asess outcome" where
  "write_callback k s = (case send_queue s of
     [] \<Rightarrow> Inl UB
   | i # q \<Rightarrow>
       let s = advance i k s in
       if unfinished s i then Inr (async (Send OnWrite (rest s i)) s)
       else let s = s\<lparr>send_queue := q\<rparr> in
         (case q of
            [] \<Rightarrow> Inr (s\<lparr>send_pending := False\<rparr>)
          | j # _ \<Rightarrow> Inr (async (Send OnWrite (rest s j)) s)))"

definition write2socket :: "'a list \<Rightarrow> 'a asess \<Rightarrow> 'a asess" where
  "write2socket buf s =
     (let (i, s) = new_node buf s; s = s\<lparr>send_queue := send_queue s @ [i]\<rparr> in
      if send_pending s then s
      else let s = s\<lparr>send_pending := True\<rparr> in
        async (Send OnWrite (n_msg (nodes s ! hd (send_queue s)))) s)"

subsection \<open>Whole messages\<close>

definition write_all_callback :: "'a asess \<Rightarrow> 'a asess outcome" where
  "write_all_callback s = (case send_queue s of
     [] \<Rightarrow> Inl UB
   | _ # q \<Rightarrow>
       let s = s\<lparr>send_queue := q\<rparr> in
       (case q of
          [] \<Rightarrow> Inr (s\<lparr>send_pending := False\<rparr>)
        | j # _ \<Rightarrow> Inr (async (Send OnWrite (rest s j)) s)))"

definition write_all_to_socket :: "'a list \<Rightarrow> 'a asess \<Rightarrow> 'a asess" where
  "write_all_to_socket buf s =
     (let (i, s) = new_node buf s; s = s\<lparr>send_queue := send_queue s @ [i]\<rparr> in
      if send_pending s then s else (async (Send OnWriteAll buf) s)\<lparr>send_pending := True\<rparr>)"

subsection \<open>Reading\<close>

definition read_from_socket :: "'a asess \<Rightarrow> 'a asess" where
  "read_from_socket s =
     (if recv_pending s then s
      else (async (Recv OnRead RECVSIZE) (s\<lparr>recv_node := Some (RECVSIZE, 0)\<rparr>))\<lparr>recv_pending := True\<rparr>)"

definition read_call_back :: "nat \<Rightarrow> 'a asess \<Rightarrow> 'a asess outcome" where
  "read_call_back k s = (case recv_node s of
     None \<Rightarrow> Inl UB
   | Some (tot, c) \<Rightarrow>
       let s = s\<lparr>recv_node := Some (tot, c + k)\<rparr> in
       if c + k < tot then Inr (async (Recv OnWrite (tot - (c + k))) s)
       else Inr (s\<lparr>recv_pending := False, recv_node := None\<rparr>))"

definition read_all_from_socket :: "'a asess \<Rightarrow> 'a asess" where
  "read_all_from_socket s = read_from_socket s"

definition read_all_callback :: "'a asess \<Rightarrow> 'a asess outcome" where
  "read_all_callback s = (case recv_node s of
     None \<Rightarrow> Inl UB
   | Some _ \<Rightarrow> Inr (s\<lparr>recv_node := None, recv_pending := False\<rparr>))"

subsection \<open>Completions\<close>

text \<open>A handler runs with an error code (\<open>err\<close>) and a number of bytes; the read handlers do not look at the
  error.\<close>

definition invoke :: "handler \<Rightarrow> bool \<Rightarrow> nat \<Rightarrow> 'a asess \<Rightarrow> 'a asess outcome" where
  "invoke h err k s = (case h of
     OnWriteErr i \<Rightarrow> if err then Inr s else write_callback_err i k s
   | OnWrite \<Rightarrow> if err then Inr s else write_callback k s
   | OnWriteAll \<Rightarrow> if err then Inr s else write_all_callback s
   | OnRead \<Rightarrow> read_call_back k s)"

definition remove_nth :: "nat \<Rightarrow> 'b list \<Rightarrow> 'b list" where
  "remove_nth i xs = take i xs @ drop (Suc i) xs"

text \<open>The operation at position \<open>i\<close> ends after at most \<open>k\<close> bytes, or fails after none.\<close>

definition complete_op :: "nat \<Rightarrow> bool \<Rightarrow> nat \<Rightarrow> 'a asess \<Rightarrow> 'a asess outcome" where
  "complete_op i err k s =
     (if i < length (aops s)
      then let x = aops s ! i; s = s\<lparr>aops := remove_nth i (aops s)\<rparr> in
        (case x of
           Send h buf \<Rightarrow>
             let n = (if err then 0 else min k (length buf)) in invoke h err n (s\<lparr>wire := wire s @ take n buf\<rparr>)
         | Recv h room \<Rightarrow> invoke h err (if err then 0 else min k room) s)
      else Inr s)"

section \<open>The server session\<close>

text \<open>\<open>async_write\<close> transfers its whole buffer.  \<open>p_reads\<close> counts the pending reads, \<open>p_ops\<close> holds the buffers of the pending writes, \<open>p_closed\<close>
  tells that the session was removed from the server.\<close>

record 'a psess =
  p_reads :: nat
  p_queue :: "'a list list"
  p_ops :: "'a list list"
  p_wire :: "'a list"
  p_closed :: bool

definition new_psess :: "'a psess" where
  "new_psess = \<lparr>p_reads = 0, p_queue = [], p_ops = [], p_wire = [], p_closed = False\<rparr>"

definition start :: "'a psess \<Rightarrow> 'a psess" where
  "start s = s\<lparr>p_reads := p_reads s + 1\<rparr>"

definition psend :: "'a list \<Rightarrow> 'a psess \<Rightarrow> 'a psess" where
  "psend msg s =
     (let pending = (p_queue s \<noteq> []); s = s\<lparr>p_queue := p_queue s @ [msg]\<rparr> in
      if pending then s else s\<lparr>p_ops := p_ops s @ [msg]\<rparr>)"

definition handle_write :: "bool \<Rightarrow> 'a psess \<Rightarrow> 'a psess outcome" where
  "handle_write err s =
     (if err then Inr (s\<lparr>p_closed := True\<rparr>)
      else case p_queue s of
        [] \<Rightarrow> Inl UB
      | _ # q \<Rightarrow>
          let s = s\<lparr>p_queue := q\<rparr> in
          (case q of [] \<Rightarrow> Inr s | b # _ \<Rightarrow> Inr (s\<lparr>p_ops := p_ops s @ [b]\<rparr>)))"

definition handle_read :: "bool \<Rightarrow> 'a list \<Rightarrow> 'a psess \<Rightarrow> 'a psess" where
  "handle_read err data s =
     (if err then s\<lparr>p_closed := True\<rparr>
      else let s = psend data s in s\<lparr>p_ops := p_ops s @ [data]\<rparr>)"

text \<open>The events of the I/O context: a pending read ends with some bytes or fails, the write at position \<open>i\<close>
  ends or fails.\<close>

definition complete_read :: "bool \<Rightarrow> 'a list \<Rightarrow> 'a psess \<Rightarrow> 'a psess" where
  "complete_read err data s = (if p_reads s = 0 then s else handle_read err data (s\<lparr>p_reads := p_reads s - 1\<rparr>))"

definition complete_write :: "nat \<Rightarrow> bool \<Rightarrow> 'a psess \<Rightarrow> 'a psess outcome" where
  "complete_write i err s =
     (if i < length (p_ops s)
      then let b = p_ops s ! i; s = s\<lparr>p_ops := remove_nth i (p_ops s)\<rparr> in
        handle_write err (if err then s else s\<lparr>p_wire := p_wire s @ b\<rparr>)
      else Inr s)"

section \<open>The write queue sends in order\<close>

definition write_inv :: "'a asess \<Rightarrow> bool" where
  "write_inv s \<longleftrightarrow> distinct (send_queue s) \<and> (\<forall>i \<in> set (send_queue s). i < length (nodes s)) \<and>
     send_pending s = (send_queue s \<noteq> []) \<and>
     aops s = (case send_queue s of [] \<Rightarrow> [] | i # _ \<Rightarrow> [Send OnWrite (rest s i)])"

lemma write_invD:
  assumes "write_inv s"
  shows "distinct (send_queue s)" "\<forall>i \<in> set (send_queue s). i < length (nodes s)"
    "send_pending s = (send_queue s \<noteq> [])" "aops s = (case send_queue s of [] \<Rightarrow> [] | i # _ \<Rightarrow> [Send OnWrite (rest s i)])"
  using assms unfolding write_inv_def by blast+

definition unsent_of :: "'a asess \<Rightarrow> 'a list" where
  "unsent_of s = concat (map (rest s) (send_queue s))"

definition work_of :: "'a asess \<Rightarrow> nat" where
  "work_of s = sum_list (map (\<lambda>i. length (rest s i) + 1) (send_queue s))"

lemma rest_advance: "i < length (nodes s) \<Longrightarrow> rest (advance i k s) j = (if j = i then drop k (rest s i) else rest s j)"
  by (simp add: rest_def advance_def add.commute)

lemma unfinished_rest: "unfinished s i \<longleftrightarrow> rest s i \<noteq> []"
  by (simp add: unfinished_def rest_def not_le)

lemma advance_simps [simp]:
  "send_queue (advance i k s) = send_queue s" "aops (advance i k s) = aops s" "wire (advance i k s) = wire s"
  "send_pending (advance i k s) = send_pending s" "length (nodes (advance i k s)) = length (nodes s)"
  by (simp_all add: advance_def)

lemma async_simps [simp]:
  "send_queue (async x s) = send_queue s" "aops (async x s) = aops s @ [x]" "wire (async x s) = wire s"
  "send_pending (async x s) = send_pending s" "nodes (async x s) = nodes s" "rest (async x s) = rest s"
  by (simp_all add: async_def rest_def fun_eq_iff)

lemma rest_frame [simp]:
  "rest (s\<lparr>send_queue := q\<rparr>) = rest s" "rest (s\<lparr>send_pending := b\<rparr>) = rest s" "rest (s\<lparr>aops := x\<rparr>) = rest s"
  "rest (s\<lparr>wire := w\<rparr>) = rest s"
  by (simp_all add: rest_def fun_eq_iff)

lemma write2socket_ok:
  assumes "write_inv s"
  shows "write_inv (write2socket b s)" "wire (write2socket b s) = wire s" "unsent_of (write2socket b s) = unsent_of s @ b"
proof -
  note I = write_invD [OF assms]
  let ?i = "length (nodes s)" and ?s = "snd (new_node b s)"
  have r: "rest ?s j = (if j = ?i then b else rest s j)" if "j \<le> ?i" for j
    using that by (auto simp: new_node_def rest_def nth_append)
  have q: "map (rest ?s) (send_queue s) = map (rest s) (send_queue s)" using I(2) r by auto
  then have qc: "concat (map (rest ?s) (send_queue s)) = concat (map (rest s) (send_queue s))" by (rule arg_cong)
  have e: "send_queue ?s = send_queue s" "aops ?s = aops s" "wire ?s = wire s" "send_pending ?s = send_pending s"
    "length (nodes ?s) = Suc ?i" "n_msg (nodes ?s ! ?i) = b" by (simp_all add: new_node_def)
  have w: "write2socket b s = (if send_pending s then ?s\<lparr>send_queue := send_queue s @ [?i]\<rparr>
      else async (Send OnWrite b) (?s\<lparr>send_queue := [?i], send_pending := True\<rparr>))"
    using I(3) by (auto simp: write2socket_def new_node_def)
  show "wire (write2socket b s) = wire s" using e w by simp
  show "unsent_of (write2socket b s) = unsent_of s @ b"
    using w r [of ?i] I(3) e by (simp add: unsent_of_def qc)
  have "?i \<notin> set (send_queue s)" using I(2) by auto
  then show "write_inv (write2socket b s)"
    using w e q I r [of ?i] by (cases "send_queue s") (auto simp: write_inv_def less_Suc_eq)
qed

lemma complete_write_ok:
  assumes I: "write_inv s"
  shows "\<exists>s'. complete_op 0 False k s = Inr s' \<and> write_inv s' \<and> wire s' @ unsent_of s' = wire s @ unsent_of s \<and>
    (0 < k \<and> work_of s \<noteq> 0 \<longrightarrow> work_of s' < work_of s) \<and> (work_of s = 0 \<longrightarrow> s' = s)"
proof (cases "send_queue s")
  case Nil
  then show ?thesis using write_invD(4) [OF I] I by (simp add: complete_op_def work_of_def)
next
  case (Cons i q)
  note D = write_invD [OF I]
  let ?r = "rest s i"
  define n where "n = min k (length ?r)"
  let ?s0 = "s\<lparr>aops := [], wire := wire s @ take n ?r\<rparr>"
  let ?s1 = "advance i n ?s0"
  have i: "i < length (nodes s)" "i \<notin> set q" "distinct q" "\<forall>j \<in> set q. j < length (nodes s)" using D Cons by auto
  have run: "complete_op 0 False k s = write_callback n ?s0"
    using D(4) Cons by (simp add: complete_op_def invoke_def remove_nth_def n_def Let_def)
  have r1: "rest ?s1 j = (if j = i then drop n ?r else rest s j)" for j using i(1) by (simp add: rest_advance)
  have q1: "map (rest ?s1) q = map (rest s) q" using r1 i(2) by auto
  have w1: "map (\<lambda>j. length (rest ?s1 j) + 1) q = map (\<lambda>j. length (rest s j) + 1) q" using r1 i(2) by auto
  have q1c: "concat (map (rest ?s1) q) = concat (map (rest s) q)" using q1 by (rule arg_cong)
  have w1s: "(\<Sum>j\<leftarrow>q. length (rest ?s1 j) + 1) = (\<Sum>j\<leftarrow>q. length (rest s j) + 1)" using w1 by (rule arg_cong)
  have tk: "take n ?r @ drop n ?r = ?r" by (rule append_take_drop_id)
  have ws: "work_of s = length ?r + 1 + (\<Sum>j\<leftarrow>q. length (rest s j) + 1)" using Cons by (simp add: work_of_def)
  show ?thesis
  proof (cases "drop n ?r = []")
    case False
    let ?s' = "async (Send OnWrite (rest ?s1 i)) ?s1"
    have "write_callback n ?s0 = Inr ?s'" using Cons False r1 by (simp add: write_callback_def unfinished_rest)
    moreover have "write_inv ?s'" using D i Cons by (simp add: write_inv_def)
    moreover have "wire ?s' @ unsent_of ?s' = wire s @ unsent_of s"
      using Cons r1 tk by (simp add: unsent_of_def q1c)
    moreover have ws': "work_of ?s' = length (drop n ?r) + 1 + (\<Sum>j\<leftarrow>q. length (rest s j) + 1)"
      unfolding work_of_def w1s [symmetric] using Cons r1 [of i] by simp
    moreover have "0 < k \<longrightarrow> work_of ?s' < work_of s"
    proof
      assume "0 < k"
      then have "length (drop n ?r) < length ?r" using False by (simp add: n_def)
      then show "work_of ?s' < work_of s" unfolding ws' ws by simp
    qed
    moreover have "work_of s \<noteq> 0" using Cons by (simp add: work_of_def)
    ultimately show ?thesis unfolding run by (intro exI [of _ ?s']) blast
  next
    case True
    then have tr: "take n ?r = ?r" using tk by simp
    let ?s2 = "?s1\<lparr>send_queue := q\<rparr>"
    define s' where "s' = (case q of [] \<Rightarrow> ?s2\<lparr>send_pending := False\<rparr> | j # _ \<Rightarrow> async (Send OnWrite (rest ?s2 j)) ?s2)"
    have "write_callback n ?s0 = Inr s'"
      using Cons True r1 by (simp add: write_callback_def unfinished_rest s'_def Let_def split: list.splits)
    moreover have s': "send_queue s' = q" "rest s' = rest ?s1" "wire s' = wire s @ ?r"
      using tr by (simp_all add: s'_def split: list.splits)
    moreover have "write_inv s'" using D i Cons by (cases q) (auto simp: write_inv_def s'_def)
    moreover have "wire s' @ unsent_of s' = wire s @ unsent_of s" using Cons s' by (simp add: unsent_of_def q1c)
    moreover have "work_of s' < work_of s" using Cons s' w1s by (simp add: work_of_def)
    moreover have "work_of s \<noteq> 0" using Cons by (simp add: work_of_def)
    ultimately show ?thesis unfolding run by (intro exI [of _ s']) blast
  qed
qed

interpretation wq: serial_writer write_inv wire unsent_of work_of "\<lambda>b s. Inr (write2socket b s)" "complete_op 0 False"
proof unfold_locales
  fix s :: "'a asess" and b assume i: "write_inv s"
  show "\<exists>s'. Inr (write2socket b s) = (Inr s' :: 'a asess outcome) \<and> write_inv s' \<and> wire s' = wire s \<and> unsent_of s' = unsent_of s @ b"
    using write2socket_ok [OF i] by simp
next
  fix s :: "'a asess" and k assume i: "write_inv s"
  show "\<exists>s'. complete_op 0 False k s = Inr s' \<and> write_inv s' \<and> wire s' @ unsent_of s' = wire s @ unsent_of s \<and>
      (0 < k \<and> work_of s \<noteq> 0 \<longrightarrow> work_of s' < work_of s) \<and> (work_of s = 0 \<longrightarrow> s' = s)" by (rule complete_write_ok [OF i])
next
  fix s :: "'a asess" assume "work_of s = 0"
  then show "unsent_of s = []" by (cases "send_queue s") (simp_all add: work_of_def unsent_of_def)
qed

section \<open>The send queue of the server\<close>

definition psend_inv :: "'a psess \<Rightarrow> bool" where
  "psend_inv s \<longleftrightarrow> p_ops s = (case p_queue s of [] \<Rightarrow> [] | b # _ \<Rightarrow> [b])"

interpretation sq: serial_writer psend_inv p_wire "\<lambda>s. concat (p_queue s)" "\<lambda>s. length (p_queue s)"
  "\<lambda>b s. Inr (psend b s)" "\<lambda>k. complete_write 0 False"
proof unfold_locales
  fix s :: "'a psess" and b assume "psend_inv s"
  then show "\<exists>s'. Inr (psend b s) = (Inr s' :: 'a psess outcome) \<and> psend_inv s' \<and> p_wire s' = p_wire s \<and>
      concat (p_queue s') = concat (p_queue s) @ b"
    by (cases "p_queue s") (auto simp: psend_inv_def psend_def)
next
  fix s :: "'a psess" and k :: nat assume i: "psend_inv s"
  show "\<exists>s'. complete_write 0 False s = Inr s' \<and> psend_inv s' \<and> p_wire s' @ concat (p_queue s') = p_wire s @ concat (p_queue s) \<and>
      (0 < k \<and> length (p_queue s) \<noteq> 0 \<longrightarrow> length (p_queue s') < length (p_queue s)) \<and> (length (p_queue s) = 0 \<longrightarrow> s' = s)"
  proof (cases "p_queue s")
    case Nil
    then show ?thesis using i by (simp add: psend_inv_def complete_write_def)
  next
    case (Cons b q)
    then show ?thesis using i
      by (cases q) (auto simp: psend_inv_def complete_write_def handle_write_def remove_nth_def)
  qed
qed simp

section \<open>Properties\<close>

text \<open>C20: Whatever messages a client submits with \<open>write2socket\<close> and however the socket splits them into
  partial writes, no step is undefined, the bytes on the wire followed by the bytes still queued are the
  submitted messages in order, at most one write is in flight, and the session is idle only when everything
  was sent.  From there, as many completions as there are bytes and messages left send everything.\<close>

theorem asio_client_order:
  "\<exists>s. run_writer (\<lambda>b s. Inr (write2socket b s)) (complete_op 0 False) xs new_session = Inr s \<and>
     wire s @ unsent_of s = submitted xs \<and> length (aops s) \<le> 1 \<and>
     (aops s = [] \<longrightarrow> wire s = submitted xs \<and> \<not> send_pending s) \<and>
     (\<forall>ks. work_of s \<le> length ks \<and> (\<forall>k \<in> set ks. 0 < k) \<longrightarrow>
        (\<exists>s'. run_writer (\<lambda>b s. Inr (write2socket b s)) (complete_op 0 False) (map Finish ks) s = Inr s' \<and>
           wire s' = submitted xs))"
proof -
  have i0: "write_inv (new_session :: 'a asess)" by (simp add: write_inv_def new_session_def)
  obtain s where s: "run_writer (\<lambda>b s. Inr (write2socket b s)) (complete_op 0 False) xs new_session = Inr s"
    "write_inv s" "wire s @ unsent_of s = wire (new_session :: 'a asess) @ unsent_of (new_session :: 'a asess) @ submitted xs"
    using wq.run_writer_ok [OF i0, of xs] by (elim exE conjE) (rule that; assumption)
  have w: "wire s @ unsent_of s = submitted xs" using s(3) by (simp add: new_session_def unsent_of_def)
  note q = write_invD(3,4) [OF s(2)]
  have "length (aops s) \<le> 1" using q(2) by (simp split: list.splits)
  moreover have "aops s = [] \<longrightarrow> wire s = submitted xs \<and> \<not> send_pending s"
    using q w by (cases "send_queue s") (simp_all add: unsent_of_def)
  moreover have "\<exists>s'. run_writer (\<lambda>b s. Inr (write2socket b s)) (complete_op 0 False) (map Finish ks) s = Inr s' \<and>
      wire s' = submitted xs" if "work_of s \<le> length ks \<and> (\<forall>k \<in> set ks. 0 < k)" for ks
    using wq.drain_ok [OF s(2) that [THEN conjunct1] that [THEN conjunct2]] unfolding w by (elim exE conjE) (intro exI conjI)
  ultimately show ?thesis using s(1) w by (intro exI [of _ s] conjI) (assumption | simp)+
qed

theorem asio_client_order_witness:
  "\<exists>s :: char asess. run_writer (\<lambda>b s. Inr (write2socket b s)) (complete_op 0 False)
      [Submit ''AB'', Finish 1, Submit ''CD'', Finish 7, Finish 7] new_session = Inr s \<and>
     aops s = [] \<and> wire s = ''ABCD''"
proof -
  obtain s :: "char asess" where s: "run_writer (\<lambda>b s. Inr (write2socket b s)) (complete_op 0 False)
      [Submit ''AB'', Finish 1, Submit ''CD'', Finish 7, Finish 7] new_session = Inr s"
    "aops s = [] \<longrightarrow> wire s = submitted [Submit ''AB'', Finish 1, Submit ''CD'', Finish 7, Finish 7] \<and> \<not> send_pending s"
    using asio_client_order [of "[Submit ''AB'', Finish 1, Submit ''CD'', Finish 7, Finish 7]"] by (elim exE conjE) (rule that; assumption)
  have "aops s = []"
    using s(1) by (simp add: write2socket_def new_node_def new_session_def complete_op_def invoke_def write_callback_def
        advance_def unfinished_def rest_def async_def remove_nth_def Let_def) (auto simp del: not_None_eq)
  then show ?thesis using s by simp
qed

text \<open>The same holds for the send queue of the server session: the bytes written followed by the bytes
  queued are the sent messages in order, there is at most one write in flight, and an idle session has sent
  everything; completing the writes empties the queue.\<close>

theorem asio_server_send_order:
  "\<exists>s. run_writer (\<lambda>b s. Inr (psend b s)) (\<lambda>k. complete_write 0 False) xs new_psess = Inr s \<and>
     p_wire s @ concat (p_queue s) = submitted xs \<and> length (p_ops s) \<le> 1 \<and>
     (p_ops s = [] \<longrightarrow> p_wire s = submitted xs) \<and>
     (\<forall>ks. length (p_queue s) \<le> length ks \<and> (\<forall>k \<in> set ks. 0 < k) \<longrightarrow>
        (\<exists>s'. run_writer (\<lambda>b s. Inr (psend b s)) (\<lambda>k. complete_write 0 False) (map Finish ks) s = Inr s' \<and>
           p_wire s' = submitted xs))"
proof -
  have i0: "psend_inv (new_psess :: 'a psess)" by (simp add: psend_inv_def new_psess_def)
  obtain s where s: "run_writer (\<lambda>b s. Inr (psend b s)) (\<lambda>k. complete_write 0 False) xs new_psess = Inr s"
    "psend_inv s" "p_wire s @ concat (p_queue s) =
      p_wire (new_psess :: 'a psess) @ concat (p_queue (new_psess :: 'a psess)) @ submitted xs"
    using sq.run_writer_ok [OF i0, of xs] by (elim exE conjE) (rule that; assumption)
  have w: "p_wire s @ concat (p_queue s) = submitted xs" using s(3) by (simp add: new_psess_def)
  have "length (p_ops s) \<le> 1" using s(2) by (simp add: psend_inv_def split: list.splits)
  moreover have "p_ops s = [] \<longrightarrow> p_wire s = submitted xs"
    using s(2) w by (cases "p_queue s") (simp_all add: psend_inv_def)
  moreover have "\<exists>s'. run_writer (\<lambda>b s. Inr (psend b s)) (\<lambda>k. complete_write 0 False) (map Finish ks) s = Inr s' \<and>
      p_wire s' = submitted xs" if "length (p_queue s) \<le> length ks \<and> (\<forall>k \<in> set ks. 0 < k)" for ks
    using sq.drain_ok [OF s(2) that [THEN conjunct1] that [THEN conjunct2]] unfolding w by (elim exE conjE) (intro exI conjI)
  ultimately show ?thesis using s(1) w by (intro exI [of _ s] conjI) (assumption | simp)+
qed

theorem asio_server_send_order_witness:
  "\<exists>s :: char psess. run_writer (\<lambda>b s. Inr (psend b s)) (\<lambda>k. complete_write 0 False)
      [Submit ''AB'', Submit ''CD'', Finish 1, Finish 1] new_psess = Inr s \<and> p_ops s = [] \<and> p_wire s = ''ABCD''"
proof -
  obtain s :: "char psess" where s: "run_writer (\<lambda>b s. Inr (psend b s)) (\<lambda>k. complete_write 0 False)
      [Submit ''AB'', Submit ''CD'', Finish 1, Finish 1] new_psess = Inr s"
    "p_ops s = [] \<longrightarrow> p_wire s = submitted [Submit ''AB'', Submit ''CD'', Finish 1, Finish 1]"
    using asio_server_send_order [of "[Submit ''AB'', Submit ''CD'', Finish 1, Finish 1]"] by (elim exE conjE) (rule that; assumption)
  have "p_ops s = []"
    using s(1) by (simp add: psend_def new_psess_def complete_write_def handle_write_def remove_nth_def) auto
  then show ?thesis using s by simp
qed

text \<open>A read that does not fill the buffer of 1024 bytes continues with the handler of writes: when no
  message is queued, the next completion without error takes the front of an empty queue.\<close>

theorem asio_read_continuation_undefined:
  assumes "write_inv s" "send_queue s = []" "\<not> recv_pending s" "0 < k" "k < RECVSIZE"
  shows "\<exists>s'. complete_op 0 False k (read_from_socket s) = Inr s' \<and> recv_pending s' \<and> (\<forall>k'. complete_op 0 False k' s' = Inl UB)"
proof -
  have "aops s = []" using write_invD(4) [OF assms(1)] assms(2) by simp
  then show ?thesis using assms
    by (simp add: read_from_socket_def complete_op_def invoke_def read_call_back_def async_def remove_nth_def Let_def
        write_callback_def min_def)
qed

theorem asio_read_continuation_undefined_witness:
  "\<exists>s' :: char asess. complete_op 0 False 5 (read_from_socket new_session) = Inr s' \<and> recv_pending s' \<and>
     (\<forall>k'. complete_op 0 False k' s' = Inl UB)"
  using asio_read_continuation_undefined [of "new_session :: char asess" 5]
  by (simp add: write_inv_def new_session_def RECVSIZE_def)

text \<open>With the first attempt at writing, a message that overtakes another loses bytes: after two overlapping
  messages the tail of the first is never sent.\<close>

theorem asio_first_attempt_loses_bytes:
  "\<exists>s. andThen (complete_op 0 False 1 (write2socket_err ''CD'' (write2socket_err ''AB'' new_session)))
         (\<lambda>s. andThen (complete_op 0 False 2 s) (complete_op 0 False 2)) = Inr s \<and> aops s = [] \<and> wire s = ''ACDCD''"
  by (simp add: write2socket_err_def new_node_def new_session_def complete_op_def invoke_def write_callback_err_def
      advance_def unfinished_def rest_def async_def remove_nth_def Let_def)

text \<open>A received message is echoed twice, once through the queue and once directly, and completing both
  writes pops the send queue when it is empty; the session never reads again.\<close>

theorem asio_echo_twice:
  "let s = complete_read False msg (start new_psess) in
     p_ops s = [msg, msg] \<and> p_reads s = 0 \<and> andThen (complete_write 0 False s) (complete_write 0 False) = Inl UB"
  by (simp add: complete_read_def start_def handle_read_def psend_def new_psess_def complete_write_def
      handle_write_def remove_nth_def)

end
