(* ===== verification/Task_Queue.thy ===== *)
theory Task_Queue
  imports Node_Heap Interfaces "HOL-Library.Multiset"
begin

text \<open>
  The task queue of src/cplusplus/concurrent/code/c\_tasks\_queue.c: a singly linked list of tasks on the heap,
  guarded by a mutex, with worker threads that wait on a condition variable, and its shutdown.

  Every access to the queue happens while the mutex is held, so the threads are interleavings of their
  critical sections.  A task is executed outside the lock, as a step of its own.  A waiting worker goes on
  after a signal or a spurious wake-up; the schedule chooses which waiting worker a signal wakes.
\<close>

section \<open>The queue\<close>

record ('f, 'a) task =
  t_func :: 'f
  t_arg :: 'a
  t_next :: ptr

record ('f, 'a) tqueue =
  tmem :: "('f, 'a) task mem"
  thead :: ptr
  ttail :: ptr
  stop :: bool

definition initQueue :: "('f, 'a) tqueue" where
  "initQueue = \<lparr>tmem = mem_empty, thead = None, ttail = None, stop = False\<rparr>"

text \<open>\<open>ok\<close> tells that \<open>malloc\<close> succeeds; otherwise the process exits.\<close>

definition enqueue :: "bool \<Rightarrow> 'f \<times> 'a \<Rightarrow> ('f, 'a) tqueue \<Rightarrow> ('f, 'a) tqueue outcome" where
  "enqueue ok x q =
     (if \<not> ok then Inl (RuntimeError ''exit'')
      else let (p, h) = alloc \<lparr>t_func = fst x, t_arg = snd x, t_next = None\<rparr> (tmem q) in
        if ttail q \<noteq> None
        then andThen (ub (upd (ttail q) (\<lambda>t. t\<lparr>t_next := p\<rparr>) h)) (\<lambda>h. Inr (q\<lparr>tmem := h, ttail := p\<rparr>))
        else Inr (q\<lparr>tmem := h, thead := p, ttail := p\<rparr>))"

definition dequeue :: "('f, 'a) tqueue \<Rightarrow> (ptr \<times> ('f, 'a) tqueue) outcome" where
  "dequeue q =
     (if thead q \<noteq> None
      then andThen (ub (load (tmem q) (thead q))) (\<lambda>t.
        let q' = q\<lparr>thead := t_next t\<rparr> in
        Inr (thead q, if thead q' = None then q'\<lparr>ttail := None\<rparr> else q'))
      else Inr (thead q, q))"

section \<open>Workers\<close>

text \<open>\<open>W_Lock\<close>: before taking the mutex; \<open>W_Wait\<close>: in \<open>pthread_cond_wait\<close>; \<open>W_Run p\<close>: about to run task \<open>p\<close>.\<close>

datatype wloc = W_Lock | W_Wait | W_Run ptr | W_Exit

record ('f, 'a) tsys =
  tq :: "('f, 'a) tqueue"
  workers :: "wloc list"
  ran :: "('f \<times> 'a) list"

definition init_sys :: "nat \<Rightarrow> ('f, 'a) tsys" where
  "init_sys n = \<lparr>tq = initQueue, workers = replicate n W_Lock, ran = []\<rparr>"

fun wake_first :: "wloc list \<Rightarrow> wloc list" where
  "wake_first [] = []"
| "wake_first (w # ws) = (if w = W_Wait then W_Lock # ws else w # wake_first ws)"

definition cond_signal :: "nat \<Rightarrow> wloc list \<Rightarrow> wloc list" where
  "cond_signal i ws = (if i < length ws \<and> ws ! i = W_Wait then ws[i := W_Lock] else wake_first ws)"

definition worker_locked :: "('f, 'a) tqueue \<Rightarrow> (wloc \<times> ('f, 'a) tqueue) outcome" where
  "worker_locked q =
     (if thead q = None \<and> \<not> stop q then Inr (W_Wait, q)
      else if stop q \<and> thead q = None then Inr (W_Exit, q)
      else andThen (dequeue q) (\<lambda>(p, q). Inr (if p \<noteq> None then W_Run p else W_Lock, q)))"

text \<open>\<open>task->func(task->arg); free(task);\<close>\<close>

definition worker_run :: "ptr \<Rightarrow> ('f, 'a) tqueue \<Rightarrow> (('f \<times> 'a) \<times> ('f, 'a) tqueue) outcome" where
  "worker_run p q =
     andThen (ub (load (tmem q) p)) (\<lambda>t.
     andThen (ub (dealloc p (tmem q))) (\<lambda>h. Inr ((t_func t, t_arg t), q\<lparr>tmem := h\<rparr>)))"

definition worker_step :: "nat \<Rightarrow> ('f, 'a) tsys \<Rightarrow> ('f, 'a) tsys outcome" where
  "worker_step i s =
     (if i < length (workers s) then
        (case workers s ! i of
           W_Lock \<Rightarrow> andThen (worker_locked (tq s)) (\<lambda>(w, q). Inr (s\<lparr>tq := q, workers := (workers s)[i := w]\<rparr>))
         | W_Run p \<Rightarrow> andThen (worker_run p (tq s))
             (\<lambda>(x, q). Inr (s\<lparr>tq := q, workers := (workers s)[i := W_Lock], ran := ran s @ [x]\<rparr>))
         | W_Wait \<Rightarrow> Inr s
         | W_Exit \<Rightarrow> Inr s)
      else Inr s)"

text \<open>What may happen next: a producer enqueues and signals, the main thread sets \<open>stop\<close> and signals, a worker
  goes on, a waiting worker wakes up without a signal.\<close>

datatype ('f, 'a) tev = Enq "'f \<times> 'a" nat | Stop nat | Work nat | Spurious nat

fun tstep :: "('f, 'a) tev \<Rightarrow> ('f, 'a) tsys \<Rightarrow> ('f, 'a) tsys outcome" where
  "tstep (Enq x i) s = andThen (enqueue True x (tq s)) (\<lambda>q. Inr (s\<lparr>tq := q, workers := cond_signal i (workers s)\<rparr>))"
| "tstep (Stop i) s = Inr (s\<lparr>tq := (tq s)\<lparr>stop := True\<rparr>, workers := cond_signal i (workers s)\<rparr>)"
| "tstep (Work i) s = worker_step i s"
| "tstep (Spurious i) s =
     Inr (if i < length (workers s) \<and> workers s ! i = W_Wait then s\<lparr>workers := (workers s)[i := W_Lock]\<rparr> else s)"

fun trun :: "('f, 'a) tev list \<Rightarrow> ('f, 'a) tsys \<Rightarrow> ('f, 'a) tsys outcome" where
  "trun [] s = Inr s"
| "trun (e # es) s = andThen (tstep e s) (trun es)"

lemma trun_append: "trun (es @ fs) s = andThen (trun es s) (trun fs)"
proof (induction es arbitrary: s)
  case (Cons e es)
  then show ?case by (cases "tstep e s") simp_all
qed simp

section \<open>The queue is a list\<close>

fun chain :: "('f, 'a) task mem \<Rightarrow> ptr \<Rightarrow> nat list \<Rightarrow> bool" where
  "chain h p [] \<longleftrightarrow> p = None"
| "chain h p (a # as) \<longleftrightarrow> p = Some a \<and> (\<exists>t. cells h a = Some t \<and> chain h (t_next t) as)"

definition payload :: "('f, 'a) task mem \<Rightarrow> nat \<Rightarrow> 'f \<times> 'a" where
  "payload h a = (case cells h a of Some t \<Rightarrow> (t_func t, t_arg t) | None \<Rightarrow> undefined)"

definition queue_at :: "('f, 'a) tqueue \<Rightarrow> nat list \<Rightarrow> bool" where
  "queue_at q as \<longleftrightarrow> mem_ok (tmem q) \<and> distinct as \<and> chain (tmem q) (thead q) as \<and>
     ttail q = (if as = [] then None else Some (last as))"

lemma queue_atD:
  assumes "queue_at q as"
  shows "mem_ok (tmem q)" "distinct as" "chain (tmem q) (thead q) as" "ttail q = (if as = [] then None else Some (last as))"
  using assms unfolding queue_at_def by blast+

lemma tchain_dom: "chain h p as \<Longrightarrow> set as \<subseteq> dom (cells h)"
  by (induction h p as rule: chain.induct) auto

lemma tchain_cong: "chain h p as \<Longrightarrow> (\<And>a. a \<in> set as \<Longrightarrow> cells h' a = cells h a) \<Longrightarrow> chain h' p as"
  by (induction h p as rule: chain.induct) auto

lemma tchain_snoc:
  assumes "chain h p (as @ [a])" "distinct (as @ [a])" "b \<notin> set (as @ [a])" "cells h a = Some t"
  shows "chain (h\<lparr>cells := (cells h)(b \<mapsto> u\<lparr>t_next := None\<rparr>, a \<mapsto> t\<lparr>t_next := Some b\<rparr>), brk := n\<rparr>) p (as @ [a, b])"
  using assms(1,2,3)
proof (induction as arbitrary: p)
  case Nil
  then show ?case using assms(4) by auto
next
  case (Cons c as)
  from Cons.prems obtain t' where "p = Some c" "cells h c = Some t'" "chain h (t_next t') (as @ [a])" by auto
  then show ?case using Cons.IH [of "t_next t'"] Cons.prems by auto
qed

text \<open>\<open>enqueue\<close> appends a fresh node, \<open>dequeue\<close> takes the first, and neither touches the payload of other nodes.\<close>

lemma enqueue_ok:
  assumes q: "queue_at q as"
  shows "\<exists>q'. enqueue True x q = Inr q' \<and> queue_at q' (as @ [brk (tmem q)]) \<and> stop q' = stop q \<and>
    payload (tmem q') = (payload (tmem q))(brk (tmem q) := x) \<and> brk (tmem q) \<notin> dom (cells (tmem q)) \<and>
    dom (cells (tmem q')) = insert (brk (tmem q)) (dom (cells (tmem q)))"
proof -
  note D = queue_atD [OF q]
  let ?b = "brk (tmem q)" and ?u = "\<lparr>t_func = fst x, t_arg = snd x, t_next = None\<rparr>"
  have fresh: "cells (tmem q) ?b = None" by (rule mem_ok_fresh [OF D(1)])
  have ok: "\<forall>a \<in> dom (cells (tmem q)). a < ?b" using D(1) by (simp add: mem_ok_def)
  show ?thesis
  proof (cases as rule: rev_cases)
    case Nil
    then show ?thesis using D fresh
      by (auto simp: enqueue_def alloc_simps queue_at_def mem_ok_def payload_def fun_eq_iff less_Suc_eq)
  next
    case (snoc bs a)
    have a: "a \<in> dom (cells (tmem q))" "?b \<notin> set as" using tchain_dom [OF D(3)] snoc fresh by auto
    then obtain t where t: "cells (tmem q) a = Some t" by blast
    have ab: "a \<noteq> ?b" using t fresh by auto
    let ?h = "(tmem q)\<lparr>cells := (cells (tmem q))(?b \<mapsto> ?u, a \<mapsto> t\<lparr>t_next := Some ?b\<rparr>), brk := ?b + 1\<rparr>"
    have "enqueue True x q = Inr (q\<lparr>tmem := ?h, ttail := Some ?b\<rparr>)"
      using D(4) snoc t ab by (simp add: enqueue_def alloc_simps upd_def)
    moreover have "chain ?h (thead q) (bs @ [a, ?b])"
      using tchain_snoc [where h = "tmem q" and p = "thead q" and as = bs and a = a and b = ?b and t = t and u = ?u and n = "?b + 1"] D(2,3) a(2) t snoc by simp
    then have "queue_at (q\<lparr>tmem := ?h, ttail := Some ?b\<rparr>) (as @ [?b])"
      using D(2) a ok t snoc by (auto simp: queue_at_def mem_ok_def less_Suc_eq)
    moreover have "payload ?h = (payload (tmem q))(?b := x)"
      using t ab by (auto simp: payload_def fun_eq_iff)
    moreover have "dom (cells ?h) = insert ?b (dom (cells (tmem q)))" using t by auto
    ultimately show ?thesis using fresh by auto
  qed
qed

lemma dequeue_ok:
  assumes q: "queue_at q (a # as)"
  shows "\<exists>q'. dequeue q = Inr (Some a, q') \<and> queue_at q' as \<and> tmem q' = tmem q \<and> stop q' = stop q"
proof -
  note D = queue_atD [OF q]
  from D(3) obtain t where t: "thead q = Some a" "cells (tmem q) a = Some t" "chain (tmem q) (t_next t) as" by auto
  have n: "t_next t = None \<longleftrightarrow> as = []" using t(3) by (cases as) auto
  show ?thesis using D t n by (auto simp: dequeue_def load_simps queue_at_def Let_def)
qed

section \<open>Every task runs once, in order\<close>

fun run_of :: "wloc \<Rightarrow> nat list" where
  "run_of (W_Run (Some a)) = [a]"
| "run_of (W_Run None) = []"
| "run_of W_Lock = []"
| "run_of W_Wait = []"
| "run_of W_Exit = []"

definition running :: "wloc list \<Rightarrow> nat list" where
  "running ws = concat (map run_of ws)"

fun enqueued :: "('f, 'a) tev list \<Rightarrow> ('f \<times> 'a) list" where
  "enqueued [] = []"
| "enqueued (Enq x i # es) = x # enqueued es"
| "enqueued (Stop i # es) = enqueued es"
| "enqueued (Work i # es) = enqueued es"
| "enqueued (Spurious i # es) = enqueued es"

lemma enqueued_append: "enqueued (es @ fs) = enqueued es @ enqueued fs"
  by (induction es rule: enqueued.induct) auto

text \<open>The nodes allocated are those queued (\<open>as\<close>) and those being run, and the tasks dequeued so far (\<open>d\<close>)
  are those that ran or are being run.\<close>

definition sys_inv :: "('f \<times> 'a) list \<Rightarrow> nat list \<Rightarrow> ('f, 'a) tsys \<Rightarrow> bool" where
  "sys_inv xs as s \<longleftrightarrow> queue_at (tq s) as \<and> W_Run None \<notin> set (workers s) \<and>
     distinct (as @ running (workers s)) \<and> set (as @ running (workers s)) = dom (cells (tmem (tq s))) \<and>
     (\<exists>d. xs = d @ map (payload (tmem (tq s))) as \<and>
        mset d = mset (ran s) + mset (map (payload (tmem (tq s))) (running (workers s))))"

lemma sys_invD:
  assumes "sys_inv xs as s"
  shows "queue_at (tq s) as" "W_Run None \<notin> set (workers s)" "distinct (as @ running (workers s))"
    "set (as @ running (workers s)) = dom (cells (tmem (tq s)))"
    "\<exists>d. xs = d @ map (payload (tmem (tq s))) as \<and>
        mset d = mset (ran s) + mset (map (payload (tmem (tq s))) (running (workers s)))"
  using assms unfolding sys_inv_def by blast+

lemma running_split:
  assumes "i < length ws"
  shows "running ws = running (take i ws) @ run_of (ws ! i) @ running (drop (Suc i) ws)"
    "running (ws[i := w]) = running (take i ws) @ run_of w @ running (drop (Suc i) ws)"
proof -
  have "ws = take i ws @ ws ! i # drop (Suc i) ws" using assms by (rule id_take_nth_drop)
  then have "running ws = running (take i ws @ ws ! i # drop (Suc i) ws)" by (rule arg_cong)
  then show "running ws = running (take i ws) @ run_of (ws ! i) @ running (drop (Suc i) ws)" by (simp add: running_def)
  show "running (ws[i := w]) = running (take i ws) @ run_of w @ running (drop (Suc i) ws)"
    using assms by (simp add: upd_conv_take_nth_drop running_def)
qed

lemma running_idle:
  assumes "i < length ws" "run_of (ws ! i) = []" "run_of w = []"
  shows "running (ws[i := w]) = running ws"
  using running_split [OF assms(1)] assms(2,3) by simp

lemma running_wake_first: "running (wake_first ws) = running ws"
  by (induction ws) (auto simp: running_def)

lemma running_signal [simp]: "running (cond_signal i ws) = running ws"
  by (simp add: cond_signal_def running_idle running_wake_first)

lemma set_wake_first: "set (wake_first ws) \<subseteq> insert W_Lock (set ws)"
  by (induction ws) auto

lemma set_signal: "set (cond_signal i ws) \<subseteq> insert W_Lock (set ws)"
  using set_wake_first [of ws] set_update_subset_insert [of ws i W_Lock] by (simp add: cond_signal_def)

lemma length_wake_first: "length (wake_first ws) = length ws"
  by (induction ws) auto

lemma length_signal: "length (cond_signal i ws) = length ws"
  by (simp add: cond_signal_def length_wake_first)

lemma map_payload_upd: "b \<notin> set as \<Longrightarrow> map ((payload h)(b := x)) as = map (payload h) as"
  by auto

lemma sys_inv_enq:
  assumes I: "sys_inv xs as s"
  shows "\<exists>s'. tstep (Enq x i) s = Inr s' \<and> sys_inv (xs @ [x]) (as @ [brk (tmem (tq s))]) s' \<and>
    ran s' = ran s \<and> workers s' = cond_signal i (workers s) \<and> stop (tq s') = stop (tq s)"
proof -
  note D = sys_invD [OF I]
  let ?b = "brk (tmem (tq s))" and ?ws = "workers s"
  obtain q' where q': "enqueue True x (tq s) = Inr q'" "queue_at q' (as @ [?b])" "stop q' = stop (tq s)"
    "payload (tmem q') = (payload (tmem (tq s)))(?b := x)" "?b \<notin> dom (cells (tmem (tq s)))"
    "dom (cells (tmem q')) = insert ?b (dom (cells (tmem (tq s))))"
    using enqueue_ok [OF D(1), of x] by (elim exE conjE) (rule that; assumption)
  let ?s = "s\<lparr>tq := q', workers := cond_signal i ?ws\<rparr>"
  have b: "?b \<notin> set as" "?b \<notin> set (running ?ws)" using q'(5) D(4) by auto
  obtain d where d: "xs = d @ map (payload (tmem (tq s))) as"
    "mset d = mset (ran s) + mset (map (payload (tmem (tq s))) (running ?ws))" using D(5) by (elim exE conjE) (rule that; assumption)
  have "xs @ [x] = d @ map (payload (tmem q')) (as @ [?b])"
    unfolding q'(4) map_append map_payload_upd [OF b(1)] d(1) by simp
  moreover have "mset d = mset (ran s) + mset (map (payload (tmem q')) (running ?ws))"
    unfolding q'(4) map_payload_upd [OF b(2)] by (rule d(2))
  moreover have "W_Run None \<notin> set (cond_signal i ?ws)" using set_signal [of i ?ws] D(2) by auto
  moreover have "distinct ((as @ [?b]) @ running ?ws)" using D(3) b by auto
  moreover have "set ((as @ [?b]) @ running ?ws) = dom (cells (tmem q'))" unfolding q'(6) D(4) [symmetric] by auto
  ultimately have "sys_inv (xs @ [x]) (as @ [?b]) ?s" unfolding sys_inv_def using q'(2) by simp
  then show ?thesis using q'(1,3) by simp
qed

lemma sys_inv_frame:
  assumes "sys_inv xs as s" "running ws = running (workers s)" "set ws \<subseteq> insert W_Lock (insert W_Wait (insert W_Exit (set (workers s))))"
  shows "sys_inv xs as (s\<lparr>tq := (tq s)\<lparr>stop := b\<rparr>, workers := ws\<rparr>)"
  using assms by (auto simp: sys_inv_def queue_at_def)

lemma sys_inv_run:
  assumes I: "sys_inv xs as s" and i: "i < length (workers s)" "workers s ! i = W_Run p"
  shows "\<exists>s' a. p = Some a \<and> tstep (Work i) s = Inr s' \<and> sys_inv xs as s' \<and> workers s' = (workers s)[i := W_Lock] \<and>
    ran s' = ran s @ [payload (tmem (tq s)) a] \<and> stop (tq s') = stop (tq s) \<and>
    payload (tmem (tq s')) = (payload (tmem (tq s)))(a := undefined)"
proof -
  note D = sys_invD [OF I]
  let ?ws = "workers s" and ?h = "tmem (tq s)"
  have "p \<noteq> None" using D(2) i by (metis nth_mem)
  then obtain a where p: "p = Some a" by blast
  let ?l = "running (take i ?ws)" and ?r = "running (drop (Suc i) ?ws)"
  have r: "running ?ws = ?l @ a # ?r" and r': "running (?ws[i := W_Lock]) = ?l @ ?r"
    using running_split [OF i(1)] i(2) p by simp_all
  have a: "a \<notin> set as" "a \<notin> set ?l" "a \<notin> set ?r" using D(3) unfolding r by auto
  have "a \<in> dom (cells ?h)" using D(4) unfolding r by auto
  then obtain t where t: "cells ?h a = Some t" by blast
  let ?h' = "?h\<lparr>cells := (cells ?h)(a := None)\<rparr>"
  let ?s = "s\<lparr>tq := (tq s)\<lparr>tmem := ?h'\<rparr>, workers := ?ws[i := W_Lock], ran := ran s @ [payload ?h a]\<rparr>"
  have run: "tstep (Work i) s = Inr ?s"
    using i p t by (simp add: worker_step_def worker_run_def load_simps dealloc_simps payload_def)
  have pay: "payload ?h' = (payload ?h)(a := undefined)" by (auto simp: payload_def fun_eq_iff)
  obtain d where d: "xs = d @ map (payload ?h) as" "mset d = mset (ran s) + mset (map (payload ?h) (running ?ws))"
    using D(5) by (elim exE conjE) (rule that; assumption)
  have "xs = d @ map (payload ?h') as" unfolding pay map_payload_upd [OF a(1)] by (rule d(1))
  moreover have "mset d = mset (ran s @ [payload ?h a]) + mset (map (payload ?h') (?l @ ?r))"
    unfolding pay map_append map_payload_upd [OF a(2)] map_payload_upd [OF a(3)] using d(2) unfolding r by simp
  moreover have "queue_at ((tq s)\<lparr>tmem := ?h'\<rparr>) as"
  proof -
    note Q = queue_atD [OF D(1)]
    have "chain ?h' (thead (tq s)) as" using Q(3) by (rule tchain_cong) (use a(1) in auto)
    then show ?thesis using Q by (auto simp: queue_at_def mem_ok_def)
  qed
  moreover have "W_Run None \<notin> set (?ws[i := W_Lock])" using D(2) set_update_subset_insert [of ?ws i W_Lock] by auto
  moreover have "distinct (as @ ?l @ ?r)" using D(3) unfolding r by auto
  moreover have "set (as @ ?l @ ?r) = dom (cells ?h')"
  proof -
    have "dom (cells ?h') = dom (cells ?h) - {a}" by auto
    also have "\<dots> = set (as @ ?l @ ?r)" unfolding D(4) [symmetric] r using a by auto
    finally show ?thesis by simp
  qed
  ultimately have "sys_inv xs as ?s" unfolding sys_inv_def using r' by simp
  then show ?thesis using run p pay by simp
qed

lemma sys_inv_take:
  assumes I: "sys_inv xs (a # as) s" and i: "i < length (workers s)" "workers s ! i = W_Lock"
  shows "\<exists>s'. tstep (Work i) s = Inr s' \<and> sys_inv xs as s' \<and> workers s' = (workers s)[i := W_Run (Some a)] \<and>
    ran s' = ran s \<and> stop (tq s') = stop (tq s) \<and> payload (tmem (tq s')) = payload (tmem (tq s))"
proof -
  note D = sys_invD [OF I]
  let ?ws = "workers s" and ?h = "tmem (tq s)"
  obtain q' where q': "dequeue (tq s) = Inr (Some a, q')" "queue_at q' as" "tmem q' = ?h" "stop q' = stop (tq s)"
    using dequeue_ok [OF D(1)] by (elim exE conjE) (rule that; assumption)
  let ?s = "s\<lparr>tq := q', workers := ?ws[i := W_Run (Some a)]\<rparr>"
  have "thead (tq s) = Some a" using queue_atD(3) [OF D(1)] by simp
  then have run: "tstep (Work i) s = Inr ?s" using i q'(1) by (simp add: worker_step_def worker_locked_def)
  let ?l = "running (take i ?ws)" and ?r = "running (drop (Suc i) ?ws)"
  have r: "running ?ws = ?l @ ?r" and r': "running (?ws[i := W_Run (Some a)]) = ?l @ a # ?r"
    using running_split [OF i(1)] i(2) by simp_all
  obtain d where d: "xs = d @ map (payload ?h) (a # as)" "mset d = mset (ran s) + mset (map (payload ?h) (running ?ws))"
    using D(5) by (elim exE conjE) (rule that; assumption)
  have "xs = (d @ [payload ?h a]) @ map (payload ?h) as" using d(1) by simp
  moreover have "mset (d @ [payload ?h a]) = mset (ran s) + mset (map (payload ?h) (?l @ a # ?r))"
    using d(2) unfolding r by simp
  ultimately have "\<exists>d. xs = d @ map (payload ?h) as \<and> mset d = mset (ran s) + mset (map (payload ?h) (?l @ a # ?r))" by blast
  moreover have "W_Run None \<notin> set (?ws[i := W_Run (Some a)])" using D(2) set_update_subset_insert [of ?ws i "W_Run (Some a)"] by auto
  moreover have "distinct (as @ ?l @ a # ?r)" using D(3) unfolding r by auto
  moreover have "set (as @ ?l @ a # ?r) = dom (cells ?h)" unfolding D(4) [symmetric] r by auto
  ultimately have "sys_inv xs as ?s" unfolding sys_inv_def using r' q'(2,3) by simp
  then show ?thesis using run q' by simp
qed

lemma sys_inv_step:
  assumes I: "sys_inv xs as s"
  shows "\<exists>s' as'. tstep e s = Inr s' \<and> sys_inv (xs @ enqueued [e]) as' s' \<and> length (workers s') = length (workers s)"
proof (cases e)
  case (Enq x i)
  obtain s' where "tstep (Enq x i) s = Inr s'" "sys_inv (xs @ [x]) (as @ [brk (tmem (tq s))]) s'" "workers s' = cond_signal i (workers s)"
    using sys_inv_enq [OF I, of x i] by (elim exE conjE) (rule that; assumption)
  then show ?thesis using Enq by (intro exI [of _ s'] exI conjI) (auto simp: length_signal)
next
  case (Stop i)
  have "set (cond_signal i (workers s)) \<subseteq> insert W_Lock (insert W_Wait (insert W_Exit (set (workers s))))"
    using set_signal [of i "workers s"] by auto
  from sys_inv_frame [OF I running_signal this, of True] show ?thesis
    unfolding Stop
    by (intro exI [of _ "s\<lparr>tq := (tq s)\<lparr>stop := True\<rparr>, workers := cond_signal i (workers s)\<rparr>"] exI [of _ as])
      (simp add: length_signal)
next
  case (Spurious i)
  show ?thesis
  proof (cases "i < length (workers s) \<and> workers s ! i = W_Wait")
    case True
    have "running ((workers s)[i := W_Lock]) = running (workers s)" using True by (intro running_idle) auto
    from sys_inv_frame [OF I this, of "stop (tq s)"] set_update_subset_insert [of "workers s" i W_Lock] True
    have "sys_inv xs as (s\<lparr>workers := (workers s)[i := W_Lock]\<rparr>)" by simp blast
    then show ?thesis using Spurious True by (intro exI [of _ "s\<lparr>workers := (workers s)[i := W_Lock]\<rparr>"] exI [of _ as]) simp
  next
    case False
    then show ?thesis using I unfolding Spurious by (intro exI [of _ s] exI [of _ as]) (simp only: tstep.simps if_False; simp)
  qed
next
  case (Work i)
  show ?thesis
  proof (cases "i < length (workers s)")
    case False
    then show ?thesis using I Work by (intro exI [of _ s] exI [of _ as]) (simp add: worker_step_def)
  next
    case i: True
    show ?thesis
    proof (cases "workers s ! i")
      case W_Lock
      show ?thesis
      proof (cases as)
        case Nil
        have h: "thead (tq s) = None" using queue_atD(3) [OF sys_invD(1) [OF I]] Nil by simp
        let ?w = "if stop (tq s) then W_Exit else W_Wait"
        have "running ((workers s)[i := ?w]) = running (workers s)" using W_Lock i by (intro running_idle) auto
        from sys_inv_frame [OF I this, of "stop (tq s)"] set_update_subset_insert [of "workers s" i ?w]
        have "sys_inv xs as (s\<lparr>workers := (workers s)[i := ?w]\<rparr>)" by (simp split: if_splits) blast+
        moreover have "tstep (Work i) s = Inr (s\<lparr>workers := (workers s)[i := ?w]\<rparr>)"
          using i W_Lock h by (simp add: worker_step_def worker_locked_def)
        ultimately show ?thesis using Work by (intro exI [of _ "s\<lparr>workers := (workers s)[i := ?w]\<rparr>"] exI [of _ as]) simp
      next
        case (Cons a bs)
        obtain s' where "tstep (Work i) s = Inr s'" "sys_inv xs bs s'" "workers s' = (workers s)[i := W_Run (Some a)]"
          using sys_inv_take [OF I [unfolded Cons] i W_Lock] by (elim exE conjE) (rule that; assumption)
        then show ?thesis using Work by (intro exI [of _ s'] exI [of _ bs]) simp
      qed
    next
      case (W_Run p)
      obtain s' where "tstep (Work i) s = Inr s'" "sys_inv xs as s'" "workers s' = (workers s)[i := W_Lock]"
        using sys_inv_run [OF I i W_Run] by (elim exE conjE) (rule that; assumption)
      then show ?thesis using Work by (intro exI [of _ s'] exI [of _ as]) simp
    qed (use I Work i in \<open>auto simp: worker_step_def\<close>)
  qed
qed

lemma sys_inv_trun:
  "sys_inv xs as s \<Longrightarrow>
   \<exists>s' as'. trun es s = Inr s' \<and> sys_inv (xs @ enqueued es) as' s' \<and> length (workers s') = length (workers s)"
proof (induction es arbitrary: xs as s)
  case Nil
  then show ?case by auto
next
  case (Cons e es)
  obtain s1 as1 where s1: "tstep e s = Inr s1" "sys_inv (xs @ enqueued [e]) as1 s1" "length (workers s1) = length (workers s)"
    using sys_inv_step [OF Cons.prems, of e] by (elim exE conjE) (rule that; assumption)
  obtain s' as' where s': "trun es s1 = Inr s'" "sys_inv ((xs @ enqueued [e]) @ enqueued es) as' s'"
    "length (workers s') = length (workers s1)" using Cons.IH [OF s1(2)] by (elim exE conjE) (rule that; assumption)
  have "(xs @ enqueued [e]) @ enqueued es = xs @ enqueued (e # es)" using enqueued_append [of "[e]" es] by simp
  then show ?case using s1 s' by (intro exI [of _ s'] exI [of _ as']) simp
qed

lemma sys_inv_init: "sys_inv [] [] (init_sys n)"
  by (auto simp: sys_inv_def init_sys_def initQueue_def queue_at_def mem_ok_def mem_empty_def running_def)

section \<open>One worker\<close>

definition one_inv :: "('f \<times> 'a) list \<Rightarrow> nat list \<Rightarrow> ('f, 'a) tsys \<Rightarrow> bool" where
  "one_inv xs as s \<longleftrightarrow> sys_inv xs as s \<and>
     xs = ran s @ map (payload (tmem (tq s))) (running (workers s)) @ map (payload (tmem (tq s))) as \<and>
     (\<exists>w. workers s = [w] \<and> (w = W_Wait \<longrightarrow> as = [] \<and> \<not> stop (tq s)) \<and> (w = W_Exit \<longrightarrow> stop (tq s)))"

lemma one_invD:
  assumes "one_inv xs as s"
  obtains w where "sys_inv xs as s" "workers s = [w]"
    "xs = ran s @ map (payload (tmem (tq s))) (run_of w) @ map (payload (tmem (tq s))) as"
    "w = W_Wait \<longrightarrow> as = [] \<and> \<not> stop (tq s)" "w = W_Exit \<longrightarrow> stop (tq s)"
  using assms unfolding one_inv_def by (auto simp: running_def)

lemma signal_one: "cond_signal i [w] = [if w = W_Wait then W_Lock else w]"
  by (cases i) (simp_all add: cond_signal_def)

lemma one_inv_enq:
  assumes "one_inv xs as s"
  shows "\<exists>s' as'. tstep (Enq x i) s = Inr s' \<and> one_inv (xs @ [x]) as' s' \<and> stop (tq s') = stop (tq s)"
proof -
  obtain w where w: "sys_inv xs as s" "workers s = [w]"
    "xs = ran s @ map (payload (tmem (tq s))) (run_of w) @ map (payload (tmem (tq s))) as"
    "w = W_Wait \<longrightarrow> as = [] \<and> \<not> stop (tq s)" "w = W_Exit \<longrightarrow> stop (tq s)" using assms by (rule one_invD)
  let ?b = "brk (tmem (tq s))"
  note D = sys_invD [OF w(1)]
  obtain q' where q': "enqueue True x (tq s) = Inr q'" "stop q' = stop (tq s)"
    "payload (tmem q') = (payload (tmem (tq s)))(?b := x)" "?b \<notin> dom (cells (tmem (tq s)))"
    using enqueue_ok [OF D(1), of x] by (elim exE conjE) (rule that; assumption)
  let ?s = "s\<lparr>tq := q', workers := cond_signal i (workers s)\<rparr>"
  have b: "?b \<notin> set as" "?b \<notin> set (run_of w)" using q'(4) D(4) w(2) by (auto simp: running_def)
  have "tstep (Enq x i) s = Inr ?s" using q'(1) by simp
  moreover from this have "sys_inv (xs @ [x]) (as @ [?b]) ?s" using sys_inv_enq [OF w(1), of x i] by auto
  moreover have "xs @ [x] = ran s @ map (payload (tmem q')) (run_of w) @ map (payload (tmem q')) (as @ [?b])"
    unfolding q'(3) map_append map_payload_upd [OF b(1)] map_payload_upd [OF b(2)] w(3) by simp
  ultimately have "one_inv (xs @ [x]) (as @ [?b]) ?s" "tstep (Enq x i) s = Inr ?s" using w(2,5) q'(2)
    unfolding one_inv_def by (cases w; simp add: signal_one running_def)+
  then show ?thesis using q'(2) by (intro exI [of _ ?s] exI [of _ "as @ [?b]"]) simp
qed

lemma one_inv_stop:
  assumes "one_inv xs as s"
  shows "\<exists>s'. tstep (Stop i) s = Inr s' \<and> one_inv xs as s' \<and> stop (tq s') \<and>
    (hd (workers s) \<noteq> W_Exit \<longrightarrow> hd (workers s') \<noteq> W_Exit)"
proof -
  obtain w where w: "sys_inv xs as s" "workers s = [w]"
    "xs = ran s @ map (payload (tmem (tq s))) (run_of w) @ map (payload (tmem (tq s))) as" using assms by (rule one_invD)
  let ?s = "s\<lparr>tq := (tq s)\<lparr>stop := True\<rparr>, workers := cond_signal i (workers s)\<rparr>"
  have "set (cond_signal i (workers s)) \<subseteq> insert W_Lock (insert W_Wait (insert W_Exit (set (workers s))))"
    using set_signal [of i "workers s"] by auto
  from sys_inv_frame [OF w(1) running_signal this, of True] have "sys_inv xs as ?s" .
  then have "one_inv xs as ?s" using w(2,3) unfolding one_inv_def by (cases w) (simp_all add: signal_one running_def)
  then show ?thesis using w(2) by (simp add: signal_one)
qed

text \<open>A step of the worker.\<close>

lemma one_inv_work:
  assumes "one_inv xs as s"
  shows "\<exists>s' as'. tstep (Work 0) s = Inr s' \<and> one_inv xs as' s' \<and> stop (tq s') = stop (tq s) \<and>
    (case hd (workers s) of
       W_Lock \<Rightarrow> (case as of [] \<Rightarrow> as' = [] \<and> workers s' = [if stop (tq s) then W_Exit else W_Wait]
                | a # bs \<Rightarrow> as' = bs \<and> workers s' = [W_Run (Some a)])
     | W_Run p \<Rightarrow> as' = as \<and> workers s' = [W_Lock]
     | _ \<Rightarrow> s' = s)"
proof -
  obtain w where w: "sys_inv xs as s" "workers s = [w]"
    "xs = ran s @ map (payload (tmem (tq s))) (run_of w) @ map (payload (tmem (tq s))) as"
    "w = W_Wait \<longrightarrow> as = [] \<and> \<not> stop (tq s)" "w = W_Exit \<longrightarrow> stop (tq s)" using assms by (rule one_invD)
  note D = sys_invD [OF w(1)]
  have i: "0 < length (workers s)" "workers s ! 0 = w" using w(2) by simp_all
  show ?thesis
  proof (cases w)
    case W_Lock
    show ?thesis
    proof (cases as)
      case Nil
      have h: "thead (tq s) = None" using queue_atD(3) [OF D(1)] Nil by simp
      let ?w = "if stop (tq s) then W_Exit else W_Wait" and ?s = "s\<lparr>workers := [if stop (tq s) then W_Exit else W_Wait]\<rparr>"
      have run: "tstep (Work 0) s = Inr ?s" using w(2) W_Lock h by (simp add: worker_step_def worker_locked_def)
      have "sys_inv xs as ?s" using sys_inv_frame [OF w(1), of "[?w]" "stop (tq s)"] w(2) W_Lock by (simp add: running_def)
      then have "one_inv xs as ?s" using w(2,3) W_Lock Nil unfolding one_inv_def by (simp add: running_def)
      then show ?thesis using run w(2) W_Lock Nil by (intro exI [of _ ?s] exI [of _ as]) simp
    next
      case (Cons a bs)
      obtain s' where s': "tstep (Work 0) s = Inr s'" "sys_inv xs bs s'" "workers s' = [W_Run (Some a)]" "ran s' = ran s"
        "stop (tq s') = stop (tq s)" "payload (tmem (tq s')) = payload (tmem (tq s))"
        using sys_inv_take [OF w(1) [unfolded Cons] i(1) i(2) [unfolded W_Lock]] unfolding w(2) list_update_code
        by (elim exE conjE) (rule that; assumption)
      have "one_inv xs bs s'" using s' w(3) W_Lock Cons unfolding one_inv_def by (simp add: running_def)
      then show ?thesis using s' w(2) W_Lock Cons by (intro exI [of _ s'] exI [of _ bs]) simp
    qed
  next
    case (W_Run p)
    obtain s' a where s': "p = Some a" "tstep (Work 0) s = Inr s'" "sys_inv xs as s'" "workers s' = [W_Lock]"
      "ran s' = ran s @ [payload (tmem (tq s)) a]" "stop (tq s') = stop (tq s)"
      "payload (tmem (tq s')) = (payload (tmem (tq s)))(a := undefined)"
      using sys_inv_run [OF w(1) i(1) i(2) [unfolded W_Run]] unfolding w(2) list_update_code
      by (elim exE conjE) (rule that; assumption)
    have "a \<notin> set as" using D(3) w(2) W_Run s'(1) by (simp add: running_def)
    then have "one_inv xs as s'" using s' w(3) W_Run map_payload_upd [of a as]
      unfolding one_inv_def by (simp add: running_def)
    then show ?thesis using s' w(2) W_Run by (intro exI [of _ s'] exI [of _ as]) simp
  qed (use assms w(2) in \<open>auto simp: worker_step_def\<close>)
qed

lemma one_inv_other:
  assumes "one_inv xs as s" "i \<noteq> 0"
  shows "tstep (Work i) s = Inr s" "tstep (Spurious i) s = Inr s"
proof -
  obtain w where "workers s = [w]" using assms(1) by (rule one_invD)
  then show "tstep (Work i) s = Inr s" "tstep (Spurious i) s = Inr s" using assms(2) by (simp_all add: worker_step_def)
qed

lemma one_inv_spurious:
  assumes "one_inv xs as s"
  shows "\<exists>s'. tstep (Spurious 0) s = Inr s' \<and> one_inv xs as s' \<and> stop (tq s') = stop (tq s)"
proof -
  obtain w where w: "sys_inv xs as s" "workers s = [w]"
    "xs = ran s @ map (payload (tmem (tq s))) (run_of w) @ map (payload (tmem (tq s))) as" using assms by (rule one_invD)
  show ?thesis
  proof (cases "w = W_Wait")
    case True
    let ?s = "s\<lparr>workers := [W_Lock]\<rparr>"
    have "sys_inv xs as ?s" using sys_inv_frame [OF w(1), of "[W_Lock]" "stop (tq s)"] w(2) True by (simp add: running_def)
    then have "one_inv xs as ?s" using w True unfolding one_inv_def by (simp add: running_def)
    then show ?thesis using w(2) True by simp
  qed (use assms w(2) in simp)
qed

lemma one_inv_trun:
  "one_inv xs as s \<Longrightarrow> \<not> stop (tq s) \<Longrightarrow> \<forall>i. Stop i \<notin> set es \<Longrightarrow>
   \<exists>s' as'. trun es s = Inr s' \<and> one_inv (xs @ enqueued es) as' s' \<and> \<not> stop (tq s')"
proof (induction es arbitrary: xs as s)
  case Nil
  then show ?case by auto
next
  case (Cons e es)
  have "\<exists>s1 as1. tstep e s = Inr s1 \<and> one_inv (xs @ enqueued [e]) as1 s1 \<and> stop (tq s1) = stop (tq s)"
  proof (cases e)
    case (Enq x i)
    then show ?thesis using one_inv_enq [OF Cons.prems(1), of x i] by simp
  next
    case (Stop i)
    then show ?thesis using Cons.prems(3) by auto
  next
    case (Work i)
    then show ?thesis using one_inv_work [OF Cons.prems(1)] one_inv_other(1) [OF Cons.prems(1), of i] Cons.prems(1)
      by (cases "i = 0") auto
  next
    case (Spurious i)
    then show ?thesis using one_inv_spurious [OF Cons.prems(1)] one_inv_other(2) [OF Cons.prems(1), of i] Cons.prems(1)
      by (cases "i = 0") (auto simp del: tstep.simps)
  qed
  then obtain s1 as1 where s1: "tstep e s = Inr s1" "one_inv (xs @ enqueued [e]) as1 s1" "stop (tq s1) = stop (tq s)"
    by (elim exE conjE) (rule that; assumption)
  have ns: "\<not> stop (tq s1)" "\<forall>i. Stop i \<notin> set es" using Cons.prems(2,3) s1(3) by simp_all
  obtain s' as' where s': "trun es s1 = Inr s'" "one_inv ((xs @ enqueued [e]) @ enqueued es) as' s'" "\<not> stop (tq s')"
    using Cons.IH [OF s1(2) ns] by (elim exE conjE) (rule that; assumption)
  have "(xs @ enqueued [e]) @ enqueued es = xs @ enqueued (e # es)" using enqueued_append [of "[e]" es] by simp
  then show ?case using s1 s' by (intro exI [of _ s'] exI [of _ as']) simp
qed

lemma exit_stays: "workers s = [W_Exit] \<Longrightarrow> trun (replicate k (Work 0)) s = Inr s"
  by (induction k) (simp_all add: worker_step_def)

text \<open>After \<open>stop\<close> the worker empties the queue and leaves.\<close>

lemma drain_one:
  "one_inv xs as s \<Longrightarrow> stop (tq s) \<Longrightarrow> hd (workers s) = W_Lock \<and> 2 * length as + 1 \<le> k \<or>
     (\<exists>p. hd (workers s) = W_Run p) \<and> 2 * length as + 2 \<le> k \<Longrightarrow>
   \<exists>s'. trun (replicate k (Work 0)) s = Inr s' \<and> one_inv xs [] s' \<and> workers s' = [W_Exit]"
proof (induction k arbitrary: as s)
  case 0
  then show ?case by simp
next
  case (Suc k)
  obtain s1 as1 where s1: "tstep (Work 0) s = Inr s1" "one_inv xs as1 s1" "stop (tq s1) = stop (tq s)"
    "case hd (workers s) of
       W_Lock \<Rightarrow> (case as of [] \<Rightarrow> as1 = [] \<and> workers s1 = [if stop (tq s) then W_Exit else W_Wait]
                | a # bs \<Rightarrow> as1 = bs \<and> workers s1 = [W_Run (Some a)])
     | W_Run p \<Rightarrow> as1 = as \<and> workers s1 = [W_Lock]
     | _ \<Rightarrow> s1 = s" using one_inv_work [OF Suc.prems(1)] by (elim exE conjE) (rule that; assumption)
  have k: "trun (replicate (Suc k) (Work 0)) s = trun (replicate k (Work 0)) s1" using s1(1) by simp
  note ih = Suc.IH [OF s1(2)] Suc.prems(2,3) s1(2-4)
  show ?case
  proof (cases "hd (workers s) = W_Lock \<and> as = []")
    case True
    then have "as1 = []" "workers s1 = [W_Exit]" using s1(4) Suc.prems(2) by simp_all
    then show ?thesis unfolding k using exit_stays s1(2) by auto
  next
    case False
    then show ?thesis unfolding k using ih by (cases as) (auto split: wloc.splits)
  qed
qed

section \<open>Properties\<close>

text \<open>C17: Whatever the interleaving of producers, the shutdown and any number of workers, no step touches a
  node that is null or freed, the nodes allocated are exactly those queued or being run, tasks are dequeued in the
  order they were enqueued, and a task dequeued has been run or is being run, once.\<close>

theorem task_queue_safe:
  "\<exists>s as. trun es (init_sys n) = Inr s \<and> queue_at (tq s) as \<and>
     dom (cells (tmem (tq s))) = set as \<union> set (running (workers s)) \<and> distinct (as @ running (workers s)) \<and>
     (\<exists>d. enqueued es = d @ map (payload (tmem (tq s))) as \<and>
        mset d = mset (ran s) + mset (map (payload (tmem (tq s))) (running (workers s))))"
proof -
  obtain s as where s: "trun es (init_sys n) = Inr s" "sys_inv (enqueued es) as s"
    using sys_inv_trun [OF sys_inv_init [of n], of es] by (elim exE conjE) (rule that; simp)
  show ?thesis using s(1) sys_invD [OF s(2)] by (intro exI [of _ s] exI [of _ as]) (simp add: Un_commute)
qed

text \<open>C29: With the one worker of the program: after the shutdown, when nothing is enqueued any more, the worker
  runs all remaining tasks, every task has then run exactly once and in order, the worker has left, and no task
  is leaked.  The single signal of the shutdown is never lost.\<close>

theorem task_queue_drains:
  assumes "\<forall>i. Stop i \<notin> set es" "2 * length (enqueued es) + 2 \<le> k"
  shows "\<exists>s. trun (es @ Stop j # replicate k (Work 0)) (init_sys 1) = Inr s \<and>
    ran s = enqueued es \<and> workers s = [W_Exit] \<and> cells (tmem (tq s)) = Map.empty"
proof -
  have "one_inv [] [] (init_sys 1 :: ('a, 'b) tsys)"
    using sys_inv_init [of 1] unfolding one_inv_def by (simp add: init_sys_def running_def)
  then obtain s1 as1 where s1: "trun es (init_sys 1) = Inr s1" "one_inv ([] @ enqueued es) as1 s1" "\<not> stop (tq s1)"
    using one_inv_trun [OF _ _ assms(1), of "[]" "[]" "init_sys 1"] by (auto simp: init_sys_def initQueue_def)
  obtain w where w: "sys_inv (enqueued es) as1 s1" "workers s1 = [w]"
    "enqueued es = ran s1 @ map (payload (tmem (tq s1))) (run_of w) @ map (payload (tmem (tq s1))) as1"
    "w = W_Wait \<longrightarrow> as1 = [] \<and> \<not> stop (tq s1)" "w = W_Exit \<longrightarrow> stop (tq s1)"
    using s1(2) unfolding append_Nil by (rule one_invD)
  define s2 where "s2 = s1\<lparr>tq := (tq s1)\<lparr>stop := True\<rparr>, workers := cond_signal j (workers s1)\<rparr>"
  have s2: "tstep (Stop j) s1 = Inr s2" "one_inv (enqueued es) as1 s2" "stop (tq s2)"
    using one_inv_stop [OF s1(2), of j] unfolding s2_def by auto
  have len: "length as1 \<le> length (enqueued es)" using arg_cong [OF w(3), of length] by simp
  have "hd (workers s2) = W_Lock \<or> (\<exists>p. hd (workers s2) = W_Run p)"
    using w(2,5) s1(3) by (cases w) (simp_all add: s2_def signal_one)
  then obtain s where s: "trun (replicate k (Work 0)) s2 = Inr s" "one_inv (enqueued es) [] s" "workers s = [W_Exit]"
    using drain_one [OF s2(2,3), of k] len assms(2) by auto
  obtain w' where w': "sys_inv (enqueued es) [] s" "workers s = [w']"
    "enqueued es = ran s @ map (payload (tmem (tq s))) (run_of w') @ map (payload (tmem (tq s))) []"
    using s(2) by (rule one_invD)
  have "dom (cells (tmem (tq s))) = {}" using sys_invD(4) [OF w'(1)] s(3) by (simp add: running_def)
  then have "cells (tmem (tq s)) = Map.empty" by simp
  then show ?thesis using s1(1) s2(1) s(1,3) w' by (simp add: trun_append)
qed

theorem task_queue_drains_witness:
  "\<exists>s :: (nat, nat) tsys. trun ([Work 0, Enq (7, 1) 0, Enq (7, 2) 0, Work 0] @ Stop 0 # replicate 6 (Work 0)) (init_sys 1) = Inr s \<and>
    ran s = [(7, 1), (7, 2)] \<and> workers s = [W_Exit] \<and> cells (tmem (tq s)) = Map.empty"
  using task_queue_drains [of "[Work 0, Enq (7 :: nat, 1 :: nat) 0, Enq (7, 2) 0, Work 0]" 6 0] by simp

end
