(* ===== verification/Semaphores.thy ===== *)
theory Semaphores
  imports Prelude
begin

text \<open>
  The semaphore programs of src/csapp/chapter12/threads: the producer and the consumer over a ring buffer of
  p\_and\_c\_demo.c, and the shared counter of mutex\_cnt\_demo.c.

  Each statement is a step of its thread, the threads interleave freely.  \<open>sem_wait\<close> on a semaphore that is 0
  blocks: the thread has no step.
\<close>

section \<open>Producer and consumer\<close>

definition BUF_SIZE :: nat where "BUF_SIZE = 5"

definition ITEMS :: nat where "ITEMS = 10"

datatype ploc = P_slots | P_mutex | P_store | P_print | P_rear | P_unlock | P_items | P_done

datatype cloc = C_items | C_mutex | C_load | C_print | C_front | C_unlock | C_slots | C_done

datatype line = Put nat nat | Got nat nat

record pc =
  buffer :: "nat list"
  front :: nat
  rear :: nat
  mutex :: nat
  slots :: nat
  items :: nat
  p_at :: ploc
  p_i :: nat
  c_at :: cloc
  c_i :: nat
  c_item :: nat
  printed :: "line list"

definition pc_init :: pc where
  "pc_init = \<lparr>buffer = replicate BUF_SIZE 0, front = 0, rear = 0, mutex = 1, slots = BUF_SIZE, items = 0,
     p_at = P_slots, p_i = 1, c_at = C_items, c_i = 1, c_item = 0, printed = []\<rparr>"

definition producer :: "pc \<Rightarrow> pc option" where
  "producer s = (case p_at s of
     P_slots \<Rightarrow> if slots s > 0 then Some (s\<lparr>slots := slots s - 1, p_at := P_mutex\<rparr>) else None
   | P_mutex \<Rightarrow> if mutex s > 0 then Some (s\<lparr>mutex := mutex s - 1, p_at := P_store\<rparr>) else None
   | P_store \<Rightarrow> Some (s\<lparr>buffer := (buffer s)[rear s := p_i s], p_at := P_print\<rparr>)
   | P_print \<Rightarrow> Some (s\<lparr>printed := printed s @ [Put (p_i s) (rear s)], p_at := P_rear\<rparr>)
   | P_rear \<Rightarrow> Some (s\<lparr>rear := (rear s + 1) mod BUF_SIZE, p_at := P_unlock\<rparr>)
   | P_unlock \<Rightarrow> Some (s\<lparr>mutex := mutex s + 1, p_at := P_items\<rparr>)
   | P_items \<Rightarrow> Some (s\<lparr>items := items s + 1, p_i := p_i s + 1, p_at := if p_i s + 1 \<le> ITEMS then P_slots else P_done\<rparr>)
   | P_done \<Rightarrow> None)"

definition consumer :: "pc \<Rightarrow> pc option" where
  "consumer s = (case c_at s of
     C_items \<Rightarrow> if items s > 0 then Some (s\<lparr>items := items s - 1, c_at := C_mutex\<rparr>) else None
   | C_mutex \<Rightarrow> if mutex s > 0 then Some (s\<lparr>mutex := mutex s - 1, c_at := C_load\<rparr>) else None
   | C_load \<Rightarrow> Some (s\<lparr>c_item := buffer s ! front s, c_at := C_print\<rparr>)
   | C_print \<Rightarrow> Some (s\<lparr>printed := printed s @ [Got (c_item s) (front s)], c_at := C_front\<rparr>)
   | C_front \<Rightarrow> Some (s\<lparr>front := (front s + 1) mod BUF_SIZE, c_at := C_unlock\<rparr>)
   | C_unlock \<Rightarrow> Some (s\<lparr>mutex := mutex s + 1, c_at := C_slots\<rparr>)
   | C_slots \<Rightarrow> Some (s\<lparr>slots := slots s + 1, c_i := c_i s + 1, c_at := if c_i s + 1 \<le> ITEMS then C_items else C_done\<rparr>)
   | C_done \<Rightarrow> None)"

inductive pc_step :: "pc \<Rightarrow> pc \<Rightarrow> bool" where
  produce: "producer s = Some s' \<Longrightarrow> pc_step s s'"
| consume: "consumer s = Some s' \<Longrightarrow> pc_step s s'"

inductive_cases pc_stepE: "pc_step s s'"

inductive reach :: "pc \<Rightarrow> bool" where
  reach_init: "reach pc_init"
| reach_step: "reach s \<Longrightarrow> pc_step s s' \<Longrightarrow> reach s'"

section \<open>The shared counter\<close>

definition NITERS :: nat where "NITERS = 100"

datatype tloc = T_wait | T_load | T_store | T_post | T_done

text \<open>\<open>cnt++\<close> reads \<open>cnt\<close> into a register and writes the successor back.\<close>

record thread =
  t_at :: tloc
  t_i :: nat
  t_reg :: nat

record counter =
  cnt :: nat
  cmutex :: nat
  threads :: "thread list"

definition counter_init :: "nat \<Rightarrow> counter" where
  "counter_init n = \<lparr>cnt = 0, cmutex = 1, threads = replicate n \<lparr>t_at = T_wait, t_i = 0, t_reg = 0\<rparr>\<rparr>"

definition set_thread :: "nat \<Rightarrow> thread \<Rightarrow> counter \<Rightarrow> counter" where
  "set_thread k t s = s\<lparr>threads := (threads s)[k := t]\<rparr>"

definition thread_routine :: "nat \<Rightarrow> counter \<Rightarrow> counter option" where
  "thread_routine k s = (let t = threads s ! k in case t_at t of
     T_wait \<Rightarrow> if cmutex s > 0 then Some (set_thread k (t\<lparr>t_at := T_load\<rparr>) (s\<lparr>cmutex := cmutex s - 1\<rparr>)) else None
   | T_load \<Rightarrow> Some (set_thread k (t\<lparr>t_reg := cnt s, t_at := T_store\<rparr>) s)
   | T_store \<Rightarrow> Some (set_thread k (t\<lparr>t_at := T_post\<rparr>) (s\<lparr>cnt := t_reg t + 1\<rparr>))
   | T_post \<Rightarrow> Some (set_thread k (t\<lparr>t_i := t_i t + 1, t_at := if t_i t + 1 < NITERS then T_wait else T_done\<rparr>)
       (s\<lparr>cmutex := cmutex s + 1\<rparr>))
   | T_done \<Rightarrow> None)"

inductive counter_reach :: "nat \<Rightarrow> counter \<Rightarrow> bool" for n where
  counter_init: "counter_reach n (counter_init n)"
| counter_step: "counter_reach n s \<Longrightarrow> k < n \<Longrightarrow> thread_routine k s = Some s' \<Longrightarrow> counter_reach n s'"

section \<open>Invariant\<close>

text \<open>Where a thread holds a slot (an item) it has not handed on, is past storing (reading), is past
  advancing the index, and is inside the critical section.\<close>

fun p_claim :: "ploc \<Rightarrow> nat" where
  "p_claim P_slots = 0"
| "p_claim P_mutex = 1"
| "p_claim P_store = 1"
| "p_claim P_print = 1"
| "p_claim P_rear = 1"
| "p_claim P_unlock = 1"
| "p_claim P_items = 1"
| "p_claim P_done = 0"

fun p_stored :: "ploc \<Rightarrow> nat" where
  "p_stored P_slots = 0"
| "p_stored P_mutex = 0"
| "p_stored P_store = 0"
| "p_stored P_print = 1"
| "p_stored P_rear = 1"
| "p_stored P_unlock = 1"
| "p_stored P_items = 1"
| "p_stored P_done = 0"

fun p_moved :: "ploc \<Rightarrow> nat" where
  "p_moved P_slots = 0"
| "p_moved P_mutex = 0"
| "p_moved P_store = 0"
| "p_moved P_print = 0"
| "p_moved P_rear = 0"
| "p_moved P_unlock = 1"
| "p_moved P_items = 1"
| "p_moved P_done = 0"

fun p_in :: "ploc \<Rightarrow> nat" where
  "p_in P_slots = 0"
| "p_in P_mutex = 0"
| "p_in P_store = 1"
| "p_in P_print = 1"
| "p_in P_rear = 1"
| "p_in P_unlock = 1"
| "p_in P_items = 0"
| "p_in P_done = 0"

fun c_claim :: "cloc \<Rightarrow> nat" where
  "c_claim C_items = 0"
| "c_claim C_mutex = 1"
| "c_claim C_load = 1"
| "c_claim C_print = 1"
| "c_claim C_front = 1"
| "c_claim C_unlock = 1"
| "c_claim C_slots = 1"
| "c_claim C_done = 0"

fun c_loaded :: "cloc \<Rightarrow> nat" where
  "c_loaded C_items = 0"
| "c_loaded C_mutex = 0"
| "c_loaded C_load = 0"
| "c_loaded C_print = 1"
| "c_loaded C_front = 1"
| "c_loaded C_unlock = 1"
| "c_loaded C_slots = 1"
| "c_loaded C_done = 0"

fun c_shown :: "cloc \<Rightarrow> nat" where
  "c_shown C_items = 0"
| "c_shown C_mutex = 0"
| "c_shown C_load = 0"
| "c_shown C_print = 0"
| "c_shown C_front = 1"
| "c_shown C_unlock = 1"
| "c_shown C_slots = 1"
| "c_shown C_done = 0"

fun c_moved :: "cloc \<Rightarrow> nat" where
  "c_moved C_items = 0"
| "c_moved C_mutex = 0"
| "c_moved C_load = 0"
| "c_moved C_print = 0"
| "c_moved C_front = 0"
| "c_moved C_unlock = 1"
| "c_moved C_slots = 1"
| "c_moved C_done = 0"

fun c_in :: "cloc \<Rightarrow> nat" where
  "c_in C_items = 0"
| "c_in C_mutex = 0"
| "c_in C_load = 1"
| "c_in C_print = 1"
| "c_in C_front = 1"
| "c_in C_unlock = 1"
| "c_in C_slots = 0"
| "c_in C_done = 0"

definition stored :: "pc \<Rightarrow> nat" where
  "stored s = p_i s - 1 + p_stored (p_at s)"

definition loaded :: "pc \<Rightarrow> nat" where
  "loaded s = c_i s - 1 + c_loaded (c_at s)"

definition got :: "pc \<Rightarrow> nat list" where
  "got s = concat (map (\<lambda>l. case l of Got x k \<Rightarrow> [x] | Put x k \<Rightarrow> []) (printed s))"

definition sem_inv :: "pc \<Rightarrow> bool" where
  "sem_inv s \<longleftrightarrow> 1 \<le> p_i s \<and> p_i s \<le> ITEMS + 1 \<and> (p_at s = P_done \<longleftrightarrow> p_i s = ITEMS + 1) \<and>
     1 \<le> c_i s \<and> c_i s \<le> ITEMS + 1 \<and> (c_at s = C_done \<longleftrightarrow> c_i s = ITEMS + 1) \<and>
     slots s + p_i s + p_claim (p_at s) = BUF_SIZE + c_i s \<and> items s + c_i s + c_claim (c_at s) = p_i s \<and>
     mutex s + p_in (p_at s) + c_in (c_at s) = 1"

definition ring_inv :: "pc \<Rightarrow> bool" where
  "ring_inv s \<longleftrightarrow> length (buffer s) = BUF_SIZE \<and>
     rear s = (p_i s - 1 + p_moved (p_at s)) mod BUF_SIZE \<and>
     front s = (c_i s - 1 + c_moved (c_at s)) mod BUF_SIZE \<and>
     (\<forall>k. loaded s \<le> k \<and> k < stored s \<longrightarrow> buffer s ! (k mod BUF_SIZE) = Suc k)"

definition got_inv :: "pc \<Rightarrow> bool" where
  "got_inv s \<longleftrightarrow> (c_at s = C_print \<longrightarrow> c_item s = c_i s) \<and>
     got s = [1..<c_i s + c_shown (c_at s)]"

lemma sem_inv_step:
  assumes "sem_inv s" "pc_step s s'"
  shows "sem_inv s'"
  using assms(2)
proof (rule pc_stepE)
  assume "producer s = Some s'"
  then show ?thesis using assms(1)
    by (cases "p_at s"; clarsimp simp: producer_def sem_inv_def split: if_splits)
next
  assume "consumer s = Some s'"
  then show ?thesis using assms(1)
    by (cases "c_at s"; clarsimp simp: consumer_def sem_inv_def split: if_splits)
qed

lemma mod_apart:
  fixes k n :: nat
  assumes "k < n" "n < k + m"
  shows "k mod m \<noteq> n mod m"
proof
  assume "k mod m = n mod m"
  then have "m dvd n - k" using assms(1) mod_eq_dvd_iff_nat [of k n m] by simp
  then show False using assms by (auto dest: dvd_imp_le)
qed

lemma ring_frame:
  assumes "ring_inv s" "buffer s' = buffer s" "stored s' = stored s" "loaded s \<le> loaded s'"
    "rear s' = (p_i s' - 1 + p_moved (p_at s')) mod BUF_SIZE" "front s' = (c_i s' - 1 + c_moved (c_at s')) mod BUF_SIZE"
  shows "ring_inv s'"
  using assms(1,4,5,6) unfolding ring_inv_def assms(2,3) by (auto intro: le_trans)

lemma BUF_SIZE_pos: "0 < BUF_SIZE" "0 < ITEMS"
  by (simp_all add: BUF_SIZE_def ITEMS_def)

lemma ring_inv_store:
  assumes "sem_inv s" "ring_inv s" "p_at s = P_store"
  shows "ring_inv (s\<lparr>buffer := (buffer s)[rear s := p_i s], p_at := P_print\<rparr>)"
proof -
  from assms(1,3) have r: "1 \<le> p_i s" "p_i s + 1 \<le> BUF_SIZE + c_i s" "1 \<le> c_i s" by (auto simp: sem_inv_def)
  from assms(2,3) have i: "length (buffer s) = BUF_SIZE" "rear s = (p_i s - 1) mod BUF_SIZE" "stored s = p_i s - 1"
    by (auto simp: ring_inv_def stored_def)
  have "rear s < BUF_SIZE" using i(2) BUF_SIZE_pos by simp
  have "(buffer s)[rear s := p_i s] ! (k mod BUF_SIZE) = Suc k" if k: "loaded s \<le> k" "k < p_i s" for k
  proof (cases "k = p_i s - 1")
    case True
    then show ?thesis using i \<open>rear s < BUF_SIZE\<close> r(1) by simp
  next
    case False
    have "k < p_i s - 1" "p_i s - 1 < k + BUF_SIZE" using False k r by (auto simp: loaded_def)
    from mod_apart [OF this] have "k mod BUF_SIZE \<noteq> rear s" unfolding i(2) .
    moreover have "buffer s ! (k mod BUF_SIZE) = Suc k" using assms(2) k(1) \<open>k < p_i s - 1\<close> i(3) unfolding ring_inv_def by simp
    ultimately show ?thesis by simp
  qed
  then show ?thesis using assms(2,3) r(1) unfolding ring_inv_def by (simp add: stored_def loaded_def)
qed

lemma ring_inv_step:
  assumes "sem_inv s" "ring_inv s" "pc_step s s'"
  shows "ring_inv s'"
proof -
  have pos: "1 \<le> p_i s" "1 \<le> c_i s" using assms(1) by (auto simp: sem_inv_def)
  have mods: "rear s = (p_i s - 1 + p_moved (p_at s)) mod BUF_SIZE" "front s = (c_i s - 1 + c_moved (c_at s)) mod BUF_SIZE"
    using assms(2) unfolding ring_inv_def by blast+
  from assms(3) show ?thesis
  proof (rule pc_stepE)
    assume st: "producer s = Some s'"
    show ?thesis
    proof (cases "p_at s = P_store")
      case True
      then show ?thesis using ring_inv_store [OF assms(1,2) True] st by (simp add: producer_def)
    next
      case False
      show ?thesis by (rule ring_frame [OF assms(2)])
        (use st mods pos False in \<open>cases "p_at s"; clarsimp simp: producer_def stored_def loaded_def mod_Suc_eq split: if_splits\<close>)+
    qed
  next
    assume st: "consumer s = Some s'"
    show ?thesis by (rule ring_frame [OF assms(2)])
      (use st mods pos in \<open>cases "c_at s"; clarsimp simp: consumer_def stored_def loaded_def mod_Suc_eq split: if_splits\<close>)+
  qed
qed

lemma got_append: "got (s\<lparr>printed := printed s @ [l]\<rparr>) = got s @ (case l of Got x k \<Rightarrow> [x] | Put x k \<Rightarrow> [])"
  by (simp add: got_def split: line.splits)

lemma got_inv_step:
  assumes "sem_inv s" "ring_inv s" "got_inv s" "pc_step s s'"
  shows "got_inv s'"
  using assms(4)
proof (rule pc_stepE)
  assume "producer s = Some s'"
  then show ?thesis using assms(3)
    by (cases "p_at s"; clarsimp simp: producer_def got_inv_def got_def split: if_splits)
next
  assume st: "consumer s = Some s'"
  show ?thesis
  proof (cases "c_at s = C_load")
    case True
    have "loaded s \<le> c_i s - 1" "c_i s - 1 < stored s" "front s = (c_i s - 1) mod BUF_SIZE" "1 \<le> c_i s"
      using assms(1,2) True by (auto simp: sem_inv_def ring_inv_def loaded_def stored_def)
    then have "buffer s ! front s = c_i s" using assms(2) unfolding ring_inv_def by simp
    then show ?thesis using assms(3) st True by (clarsimp simp: consumer_def got_inv_def got_def)
  next
    case False
    have "1 \<le> c_i s" using assms(1) by (simp add: sem_inv_def)
    then show ?thesis using assms(3) st False
      by (cases "c_at s"; clarsimp simp: consumer_def got_inv_def got_def split: if_splits)
  qed
qed

lemma reach_inv: "reach s \<Longrightarrow> sem_inv s \<and> ring_inv s \<and> got_inv s"
proof (induction rule: reach.induct)
  case reach_init
  then show ?case
    by (simp add: pc_init_def sem_inv_def ring_inv_def got_inv_def got_def stored_def loaded_def BUF_SIZE_def ITEMS_def)
next
  case (reach_step s s')
  then show ?case using sem_inv_step ring_inv_step got_inv_step by blast
qed

section \<open>Progress\<close>

fun p_left :: "ploc \<Rightarrow> nat" where
  "p_left P_slots = 7"
| "p_left P_mutex = 6"
| "p_left P_store = 5"
| "p_left P_print = 4"
| "p_left P_rear = 3"
| "p_left P_unlock = 2"
| "p_left P_items = 1"
| "p_left P_done = 0"

fun c_left :: "cloc \<Rightarrow> nat" where
  "c_left C_items = 7"
| "c_left C_mutex = 6"
| "c_left C_load = 5"
| "c_left C_print = 4"
| "c_left C_front = 3"
| "c_left C_unlock = 2"
| "c_left C_slots = 1"
| "c_left C_done = 0"

text \<open>The number of steps that remain.\<close>

definition remaining :: "pc \<Rightarrow> nat" where
  "remaining s = 7 * (ITEMS - p_i s) + p_left (p_at s) + 7 * (ITEMS - c_i s) + c_left (c_at s)"

lemma remaining_step:
  assumes "sem_inv s" "pc_step s s'"
  shows "remaining s = Suc (remaining s')"
  using assms(2)
proof (rule pc_stepE)
  assume "producer s = Some s'"
  then show ?thesis using assms(1)
    by (cases "p_at s"; clarsimp simp: producer_def remaining_def sem_inv_def split: if_splits; arith?)
next
  assume "consumer s = Some s'"
  then show ?thesis using assms(1)
    by (cases "c_at s"; clarsimp simp: consumer_def remaining_def sem_inv_def split: if_splits; arith?)
qed

lemma not_stuck:
  assumes "sem_inv s" "producer s = None" "consumer s = None"
  shows "p_at s = P_done \<and> c_at s = C_done"
proof -
  have m: "mutex s + p_in (p_at s) + c_in (c_at s) = 1" using assms(1) by (simp add: sem_inv_def)
  have p: "p_at s \<in> {P_slots, P_mutex, P_done}" using assms(2) by (cases "p_at s") (auto simp: producer_def)
  have c: "c_at s \<in> {C_items, C_mutex, C_done}" using assms(3) by (cases "c_at s") (auto simp: consumer_def)
  have "mutex s = 1" using m p c by auto
  then have p': "p_at s \<noteq> P_mutex" and c': "c_at s \<noteq> C_mutex" using assms(2,3) by (auto simp: producer_def consumer_def)
  show ?thesis
  proof (cases "p_at s = P_slots")
    case True
    then have "slots s = 0" using assms(2) by (simp add: producer_def split: if_splits)
    then have "p_i s = BUF_SIZE + c_i s" "p_i s \<le> ITEMS" using assms(1) True by (auto simp: sem_inv_def)
    then have "items s > 0" "c_at s \<noteq> C_done" using assms(1) c c' BUF_SIZE_pos by (auto simp: sem_inv_def)
    then show ?thesis using assms(3) c c' by (auto simp: consumer_def)
  next
    case False
    then have d: "p_at s = P_done" using p p' by auto
    then have "p_i s = ITEMS + 1" using assms(1) by (simp add: sem_inv_def)
    then have "c_at s \<noteq> C_items \<or> items s > 0" using assms(1) by (auto simp: sem_inv_def)
    then show ?thesis using d c c' assms(3) by (auto simp: consumer_def)
  qed
qed

section \<open>The counter\<close>

fun t_in :: "tloc \<Rightarrow> nat" where
  "t_in T_wait = 0"
| "t_in T_load = 1"
| "t_in T_store = 1"
| "t_in T_post = 1"
| "t_in T_done = 0"

fun t_left :: "tloc \<Rightarrow> nat" where
  "t_left T_wait = 4"
| "t_left T_load = 3"
| "t_left T_store = 2"
| "t_left T_post = 1"
| "t_left T_done = 0"

definition increments :: "thread \<Rightarrow> nat" where
  "increments t = t_i t + (if t_at t = T_post then 1 else 0)"

definition steps_left :: "thread \<Rightarrow> nat" where
  "steps_left t = 4 * (NITERS - 1 - t_i t) + t_left (t_at t)"

definition thread_ok :: "nat \<Rightarrow> thread \<Rightarrow> bool" where
  "thread_ok c t \<longleftrightarrow> (t_at t = T_done \<longrightarrow> t_i t = NITERS) \<and> (t_at t \<noteq> T_done \<longrightarrow> t_i t < NITERS) \<and>
     (t_at t = T_store \<longrightarrow> t_reg t = c)"

definition counter_inv :: "nat \<Rightarrow> counter \<Rightarrow> bool" where
  "counter_inv n s \<longleftrightarrow> length (threads s) = n \<and> cmutex s + (\<Sum>t\<leftarrow>threads s. t_in (t_at t)) = 1 \<and>
     (\<Sum>t\<leftarrow>threads s. increments t) = cnt s \<and> (\<forall>t \<in> set (threads s). thread_ok (cnt s) t)"

lemma sum_update:
  fixes f :: "'b \<Rightarrow> nat"
  assumes "k < length xs"
  shows "(\<Sum>x\<leftarrow>xs[k := y]. f x) + f (xs ! k) = (\<Sum>x\<leftarrow>xs. f x) + f y"
  using assms
proof (induction xs arbitrary: k)
  case (Cons a xs)
  then show ?case by (cases k) auto
qed simp

lemma only_one_in:
  assumes "counter_inv n s" "k < n" "t_in (t_at (threads s ! k)) = 1" "j < n" "j \<noteq> k"
  shows "t_in (t_at (threads s ! j)) = 0"
proof -
  let ?f = "\<lambda>t. t_in (t_at t)" and ?ts = "threads s" and ?t = "\<lparr>t_at = T_done, t_i = 0, t_reg = 0\<rparr>"
  have len: "length ?ts = n" using assms(1) by (simp add: counter_inv_def)
  have "(\<Sum>t\<leftarrow>?ts. ?f t) \<le> 1" using assms(1) by (simp add: counter_inv_def)
  moreover have "(\<Sum>t\<leftarrow>?ts[k := ?t]. ?f t) + ?f (?ts ! k) = (\<Sum>t\<leftarrow>?ts. ?f t) + ?f ?t"
    using len assms(2) by (intro sum_update) simp
  moreover have "?f ?t = 0" by simp
  ultimately have "(\<Sum>t\<leftarrow>?ts[k := ?t]. ?f t) = 0" using assms(3) by linarith
  moreover have "?ts ! j \<in> set (?ts[k := ?t])" using assms(4,5) len by (metis length_list_update nth_list_update_neq nth_mem)
  ultimately show ?thesis by auto
qed

lemma counter_inv_update:
  assumes I: "counter_inv n s" and k: "k < n" and t: "thread_ok c t"
    and sem: "m + t_in (t_at t) = cmutex s + t_in (t_at (threads s ! k))"
    and inc: "c + increments (threads s ! k) = cnt s + increments t"
    and others: "c = cnt s \<or> t_in (t_at (threads s ! k)) = 1"
  shows "counter_inv n (set_thread k t (s\<lparr>cnt := c, cmutex := m\<rparr>))"
proof -
  let ?ts = "threads s"
  have len: "length ?ts = n" and sums: "cmutex s + (\<Sum>t\<leftarrow>?ts. t_in (t_at t)) = 1" "(\<Sum>t\<leftarrow>?ts. increments t) = cnt s"
    and ok: "\<forall>t \<in> set ?ts. thread_ok (cnt s) t" using I by (auto simp: counter_inv_def)
  have "m + (\<Sum>t\<leftarrow>?ts[k := t]. t_in (t_at t)) = 1"
    using sum_update [of k ?ts "\<lambda>t. t_in (t_at t)" t] len k sums(1) sem by simp
  moreover have "(\<Sum>t\<leftarrow>?ts[k := t]. increments t) = c"
    using sum_update [of k ?ts increments t] len k sums(2) inc by simp
  moreover have "thread_ok c u" if "u \<in> set (?ts[k := t])" for u
  proof -
    from that obtain j where j: "j < n" "u = ?ts[k := t] ! j" using len by (auto simp: in_set_conv_nth)
    show ?thesis
    proof (cases "j = k")
      case False
      have u: "u = ?ts ! j" "thread_ok (cnt s) u" using j False ok len by simp_all
      have "c = cnt s \<or> t_at u \<noteq> T_store" using others only_one_in [OF I k _ j(1) False] u(1) by auto
      then show ?thesis using u(2) by (auto simp: thread_ok_def)
    qed (use j k len t in simp)
  qed
  ultimately show ?thesis using len by (simp add: counter_inv_def set_thread_def)
qed

lemma counter_inv_step:
  assumes I: "counter_inv n s" and k: "k < n" and st: "thread_routine k s = Some s'"
  shows "counter_inv n s'"
proof -
  let ?t = "threads s ! k"
  have ok: "thread_ok (cnt s) ?t" using I k by (auto simp: counter_inv_def)
  note upd = counter_inv_update [OF I k]
  show ?thesis
  proof (cases "t_at ?t")
    case T_wait
    then show ?thesis using upd [of "cnt s" "?t\<lparr>t_at := T_load\<rparr>" "cmutex s - 1"] ok st
      by (auto simp: thread_routine_def thread_ok_def increments_def Let_def split: if_splits)
  next
    case T_load
    then show ?thesis using upd [of "cnt s" "?t\<lparr>t_reg := cnt s, t_at := T_store\<rparr>" "cmutex s"] ok st
      by (auto simp: thread_routine_def thread_ok_def increments_def Let_def)
  next
    case T_store
    then show ?thesis using upd [of "t_reg ?t + 1" "?t\<lparr>t_at := T_post\<rparr>" "cmutex s"] ok st
      by (auto simp: thread_routine_def thread_ok_def increments_def Let_def)
  next
    case T_post
    then show ?thesis using ok st
        upd [of "cnt s" "?t\<lparr>t_i := t_i ?t + 1, t_at := if t_i ?t + 1 < NITERS then T_wait else T_done\<rparr>" "cmutex s + 1"]
      by (auto simp: thread_routine_def thread_ok_def increments_def Let_def split: if_splits)
  qed (use st in \<open>simp add: thread_routine_def\<close>)
qed

lemma counter_reach_inv: "counter_reach n s \<Longrightarrow> counter_inv n s"
proof (induction rule: counter_reach.induct)
  case counter_init
  then show ?case
    by (simp add: counter_init_def counter_inv_def increments_def thread_ok_def NITERS_def sum_list_replicate)
next
  case (counter_step s k s')
  then show ?case using counter_inv_step by blast
qed

lemma counter_stuck:
  assumes I: "counter_inv n s" and stuck: "\<forall>k < n. thread_routine k s = None"
  shows "cnt s = NITERS * n" "\<forall>t \<in> set (threads s). t_at t = T_done"
proof -
  have len: "length (threads s) = n" using I by (simp add: counter_inv_def)
  have at: "t_at t = T_done \<or> t_at t = T_wait \<and> cmutex s = 0" if t: "t \<in> set (threads s)" for t
  proof -
    obtain k where k: "k < n" "t = threads s ! k" using t len by (auto simp: in_set_conv_nth)
    have none: "thread_routine k s = None" using stuck k(1) by blast
    show ?thesis using none k(2) by (cases "t_at t") (auto simp: thread_routine_def Let_def split: if_splits)
  qed
  have "(\<Sum>t\<leftarrow>threads s. t_in (t_at t)) = 0" using at by force
  moreover have "cmutex s + (\<Sum>t\<leftarrow>threads s. t_in (t_at t)) = 1" using I unfolding counter_inv_def by blast
  ultimately have "cmutex s = 1" by linarith
  then show fin: "\<forall>t \<in> set (threads s). t_at t = T_done" using at by auto
  have "(\<Sum>t\<leftarrow>threads s. increments t) = (\<Sum>t\<leftarrow>threads s. NITERS)"
    by (rule arg_cong [where f = sum_list], rule map_cong) (use fin I in \<open>auto simp: counter_inv_def thread_ok_def increments_def\<close>)
  then show "cnt s = NITERS * n" using I len by (simp add: counter_inv_def sum_list_triv mult.commute)
qed

lemma counter_decreases:
  assumes I: "counter_inv n s" and k: "k < n" and st: "thread_routine k s = Some s'"
  shows "Suc (\<Sum>t\<leftarrow>threads s'. steps_left t) = (\<Sum>t\<leftarrow>threads s. steps_left t)"
proof -
  let ?t = "threads s ! k"
  have len: "k < length (threads s)" and ok: "thread_ok (cnt s) ?t" using I k by (auto simp: counter_inv_def)
  obtain t where t: "threads s' = (threads s)[k := t]" "Suc (steps_left t) = steps_left ?t"
    using st ok by (cases "t_at ?t") (auto simp: thread_routine_def set_thread_def steps_left_def thread_ok_def Let_def split: if_splits)
  then show ?thesis using sum_update [OF len, of steps_left t] by simp
qed

section \<open>Properties\<close>

text \<open>C26: In every interleaving, producer and consumer are never both inside the critical section, the indices
  stay inside the buffer, an item is never overwritten before it was read, and the consumer has printed the items
  in the order they were produced, without a gap.\<close>

theorem producer_consumer_safe:
  assumes "reach s"
  shows "p_in (p_at s) + c_in (c_at s) \<le> 1 \<and> rear s < BUF_SIZE \<and> front s < BUF_SIZE \<and>
    stored s \<le> loaded s + BUF_SIZE \<and> (\<exists>n \<le> p_i s. got s = [1..<n]) \<and>
    (\<forall>k. loaded s \<le> k \<and> k < stored s \<longrightarrow> buffer s ! (k mod BUF_SIZE) = Suc k)"
proof -
  have I: "sem_inv s" "ring_inv s" "got_inv s" using reach_inv [OF assms] by blast+
  have "stored s \<le> loaded s + BUF_SIZE" using I(1) by (cases "p_at s") (auto simp: sem_inv_def stored_def loaded_def)
  moreover have "c_i s + c_shown (c_at s) \<le> p_i s" using I(1) by (cases "c_at s") (auto simp: sem_inv_def)
  moreover have "rear s < BUF_SIZE" "front s < BUF_SIZE" using I(2) BUF_SIZE_pos unfolding ring_inv_def by simp_all
  ultimately show ?thesis using I unfolding sem_inv_def ring_inv_def got_inv_def by (intro conjI exI) auto
qed

theorem producer_consumer_safe_witness:
  "\<exists>s. consumer pc_init = None \<and> producer pc_init = Some s \<and> p_in (p_at s) + c_in (c_at s) \<le> 1"
proof -
  let ?s = "pc_init\<lparr>slots := 4, p_at := P_mutex\<rparr>"
  have st: "producer pc_init = Some ?s" by (simp add: producer_def pc_init_def BUF_SIZE_def)
  have "reach ?s" by (rule reach_step [OF reach_init produce [OF st]])
  from producer_consumer_safe [OF this] show ?thesis using st by (intro exI [of _ ?s]) (simp add: consumer_def pc_init_def)
qed

text \<open>C34: There is no deadlock and no endless run: in every reachable state a thread can go on or both have
  finished, every step brings the end one step nearer (140 steps in all), and at the end the consumer has printed
  the ten items in order and the semaphores have their initial values.\<close>

theorem producer_consumer_completes:
  assumes "reach s"
  shows "(\<forall>s'. pc_step s s' \<longrightarrow> remaining s = Suc (remaining s')) \<and> remaining s \<le> 140 \<and>
    ((\<exists>s'. pc_step s s') \<or> p_at s = P_done \<and> c_at s = C_done \<and> got s = [1..<11] \<and>
       mutex s = 1 \<and> slots s = BUF_SIZE \<and> items s = 0)"
proof -
  have I: "sem_inv s" "got_inv s" using reach_inv [OF assms] by blast+
  have "remaining s \<le> 140"
    using I(1) by (cases "p_at s"; cases "c_at s") (auto simp: remaining_def sem_inv_def ITEMS_def)
  moreover have "p_at s = P_done \<and> c_at s = C_done \<and> got s = [1..<11] \<and> mutex s = 1 \<and> slots s = BUF_SIZE \<and> items s = 0"
    if "\<nexists>s'. pc_step s s'"
  proof -
    have "producer s = None" "consumer s = None" using that produce consume by (metis not_None_eq)+
    then have d: "p_at s = P_done" "c_at s = C_done" using not_stuck [OF I(1)] by blast+
    then show ?thesis using I by (auto simp: sem_inv_def got_inv_def ITEMS_def)
  qed
  ultimately show ?thesis using remaining_step [OF I(1)] by blast
qed

theorem producer_consumer_completes_witness:
  "remaining pc_init = 140 \<and> (\<exists>s'. pc_step pc_init s')"
  using producer_consumer_completes [OF reach_init] by (simp add: remaining_def pc_init_def ITEMS_def)

text \<open>With the semaphore no increment is lost: any number of threads that each increment the counter 100 times
  run to the end without deadlock, and the counter then shows 100 times their number.\<close>

theorem counter_correct:
  assumes "counter_reach n s"
  shows "(\<Sum>t\<leftarrow>threads s. t_in (t_at t)) \<le> 1 \<and> (\<Sum>t\<leftarrow>threads s. steps_left t) \<le> 400 * n \<and>
    (\<forall>k < n. \<forall>s'. thread_routine k s = Some s' \<longrightarrow> (\<Sum>t\<leftarrow>threads s'. steps_left t) < (\<Sum>t\<leftarrow>threads s. steps_left t)) \<and>
    ((\<exists>k < n. \<exists>s'. thread_routine k s = Some s') \<or> cnt s = 100 * n)"
proof -
  have I: "counter_inv n s" by (rule counter_reach_inv [OF assms])
  have "(\<Sum>t\<leftarrow>threads s. t_in (t_at t)) \<le> 1" using I by (simp add: counter_inv_def)
  moreover have "(\<Sum>t\<leftarrow>threads s. steps_left t) \<le> (\<Sum>t\<leftarrow>threads s. 400)"
  proof (rule sum_list_mono)
    fix t assume "t \<in> set (threads s)"
    then have "thread_ok (cnt s) t" using I by (simp add: counter_inv_def)
    then show "steps_left t \<le> 400" by (cases "t_at t") (auto simp: steps_left_def thread_ok_def NITERS_def)
  qed
  moreover have "length (threads s) = n" using I by (simp add: counter_inv_def)
  moreover have "\<forall>k < n. \<forall>s'. thread_routine k s = Some s' \<longrightarrow> (\<Sum>t\<leftarrow>threads s'. steps_left t) < (\<Sum>t\<leftarrow>threads s. steps_left t)"
    using counter_decreases [OF I] by fastforce
  moreover have "(\<exists>k < n. \<exists>s'. thread_routine k s = Some s') \<or> cnt s = 100 * n"
    using counter_stuck(1) [OF I] unfolding NITERS_def by (metis not_None_eq)
  ultimately show ?thesis by (simp add: sum_list_triv mult.commute)
qed

theorem counter_correct_witness:
  "\<exists>s'. thread_routine 0 (counter_init 2) = Some s' \<and> (\<Sum>t\<leftarrow>threads s'. steps_left t) < 800"
  using counter_correct [OF counter_reach.counter_init, of 2]
  by (auto simp: thread_routine_def set_thread_def counter_init_def numeral_2_eq_2 steps_left_def NITERS_def)

end
