(* ===== verification/Rio.thy ===== *)
theory Rio
  imports Net_Frame
begin

text \<open>
  The robust I/O package of src/csapp/csapp\_lib/csapp.c: \<open>rio_readn\<close>, \<open>rio_writen\<close>, the buffered readers
  \<open>rio_read\<close>, \<open>rio_readnb\<close> and \<open>rio_readlineb\<close>, and their wrappers, which exit on errors.

  As for the socket helpers, the kernel is a list of events, one per system call: \<open>Moved k\<close> (at most \<open>k\<close>
  bytes), \<open>Interrupted\<close> (\<open>EINTR\<close>) or \<open>Failed\<close>; a call without an event blocks, and the result is \<open>None\<close>.  A read
  at the end of the input returns 0.  Return values are integers, with the bytes stored in the caller's buffer
  next to them.
\<close>

section \<open>Unbuffered input and output\<close>

fun rio_readn :: "io_ev list \<Rightarrow> nat \<Rightarrow> string \<Rightarrow> string \<Rightarrow> (int \<times> string) option \<times> string \<times> io_ev list" where
  "rio_readn es nleft got stream =
     (if nleft = 0 then (Some (int (length got), got), stream, es)
      else case es of
        [] \<Rightarrow> (None, stream, [])
      | Interrupted # es' \<Rightarrow> rio_readn es' nleft got stream
      | Failed # es' \<Rightarrow> (Some (-1, got), stream, es')
      | Moved k # es' \<Rightarrow>
          let n = min (min k nleft) (length stream) in
          if n = 0 then (Some (int (length got), got), stream, es')
          else rio_readn es' (nleft - n) (got @ take n stream) (drop n stream))"

declare rio_readn.simps [simp del]

text \<open>\<open>eintr\<close> tells that \<open>errno\<close> is \<open>EINTR\<close>: a \<open>write\<close> that returns 0 leaves the old value, which the code
  inspects.  The bytes written are the second component.\<close>

fun rio_writen :: "bool \<Rightarrow> io_ev list \<Rightarrow> string \<Rightarrow> int option \<times> string \<times> io_ev list" where
  "rio_writen eintr es [] = (Some 0, [], es)"
| "rio_writen eintr [] (c # cs) = (None, [], [])"
| "rio_writen eintr (Interrupted # es) (c # cs) = rio_writen True es (c # cs)"
| "rio_writen eintr (Failed # es) (c # cs) = (Some (-1), [], es)"
| "rio_writen eintr (Moved k # es) (c # cs) =
     (if k = 0 then (if eintr then rio_writen eintr es (c # cs) else (Some (-1), [], es))
      else let (r, sent, es') = rio_writen eintr es (drop k (c # cs)) in
        (map_option (\<lambda>n. if n < 0 then n else int (length (c # cs))) r, take k (c # cs) @ sent, es'))"

section \<open>Buffered input\<close>

definition RIO_BUFSIZE :: nat where "RIO_BUFSIZE = 8192"

record rio =
  rio_cnt :: int
  rio_bufptr :: nat
  rio_buf :: string

definition rio_readinitb :: "rio \<Rightarrow> rio" where
  "rio_readinitb r = r\<lparr>rio_cnt := 0, rio_bufptr := 0\<rparr>"

text \<open>The loop that refills the buffer: \<open>Some 1\<close> when there are bytes, else the value that \<open>rio_read\<close> returns.\<close>

fun rio_fill :: "io_ev list \<Rightarrow> rio \<Rightarrow> string \<Rightarrow> int option \<times> rio \<times> string \<times> io_ev list" where
  "rio_fill es r stream =
     (if rio_cnt r > 0 then (Some 1, r, stream, es)
      else case es of
        [] \<Rightarrow> (None, r, stream, [])
      | Interrupted # es' \<Rightarrow> rio_fill es' (r\<lparr>rio_cnt := -1\<rparr>) stream
      | Failed # es' \<Rightarrow> (Some (-1), r\<lparr>rio_cnt := -1\<rparr>, stream, es')
      | Moved k # es' \<Rightarrow>
          let n = min (min k RIO_BUFSIZE) (length stream);
              r' = r\<lparr>rio_cnt := int n, rio_buf := take n stream @ drop n (rio_buf r)\<rparr> in
          if n = 0 then (Some 0, r', stream, es')
          else (Some 1, r'\<lparr>rio_bufptr := 0\<rparr>, drop n stream, es'))"

declare rio_fill.simps [simp del]

definition rio_read :: "io_ev list \<Rightarrow> nat \<Rightarrow> rio \<Rightarrow> string \<Rightarrow> (int \<times> string) option \<times> rio \<times> string \<times> io_ev list" where
  "rio_read es n r stream = (case rio_fill es r stream of
     (None, r, stream, es) \<Rightarrow> (None, r, stream, es)
   | (Some v, r, stream, es) \<Rightarrow>
       if v \<le> 0 then (Some (v, []), r, stream, es)
       else let c = (if rio_cnt r < int n then nat (rio_cnt r) else n) in
         (Some (int c, take c (drop (rio_bufptr r) (rio_buf r))),
          r\<lparr>rio_bufptr := rio_bufptr r + c, rio_cnt := rio_cnt r - int c\<rparr>, stream, es))"

lemma rio_fill_cnt: "rio_fill es r stream = (Some v, r', s', es') \<Longrightarrow> 0 < v \<Longrightarrow> 0 < rio_cnt r'"
  by (induction es r stream rule: rio_fill.induct)
    (subst (asm) (2) rio_fill.simps, auto simp: Let_def split: if_splits list.splits io_ev.splits)

lemma rio_read_bound: "rio_read es n r stream = (Some (v, bs), r', s', es') \<Longrightarrow> 0 < n \<Longrightarrow> v \<noteq> 0 \<Longrightarrow> 0 \<le> v \<Longrightarrow> 0 < nat v \<and> nat v \<le> n"
  by (auto simp: rio_read_def Let_def split: prod.splits option.splits if_splits dest: rio_fill_cnt)

function rio_readnb :: "io_ev list \<Rightarrow> nat \<Rightarrow> string \<Rightarrow> rio \<Rightarrow> string \<Rightarrow> (int \<times> string) option \<times> rio \<times> string \<times> io_ev list" where
  "rio_readnb es nleft got r stream =
     (if nleft = 0 then (Some (int (length got), got), r, stream, es)
      else case rio_read es nleft r stream of
        (None, r, stream, es) \<Rightarrow> (None, r, stream, es)
      | (Some (nread, bs), r, stream, es) \<Rightarrow>
          if nread < 0 then (Some (-1, got), r, stream, es)
          else if nread = 0 then (Some (int (length got), got), r, stream, es)
          else rio_readnb es (nleft - nat nread) (got @ bs) r stream)"
  by pat_completeness auto
termination
  by (relation "measure (\<lambda>(es, nleft, got, r, stream). nleft)") (auto dest!: sym [of _ "rio_read _ _ _ _"] rio_read_bound)

declare rio_readnb.simps [simp del]

text \<open>The loop of \<open>rio_readlineb\<close>: \<open>n\<close> counts from 1, \<open>got\<close> is what was stored so far.  The terminating zero is not
  part of the bytes.\<close>

function rio_line :: "io_ev list \<Rightarrow> nat \<Rightarrow> nat \<Rightarrow> string \<Rightarrow> rio \<Rightarrow> string \<Rightarrow> (int \<times> string) option \<times> rio \<times> string \<times> io_ev list" where
  "rio_line es n maxlen got r stream =
     (if \<not> n < maxlen then (Some (int n - 1, got), r, stream, es)
      else case rio_read es 1 r stream of
        (None, r, stream, es) \<Rightarrow> (None, r, stream, es)
      | (Some (rc, bs), r, stream, es) \<Rightarrow>
          if rc = 1 then
            (if hd bs = CHR 0x0A then (Some (int (n + 1) - 1, got @ [hd bs]), r, stream, es)
             else rio_line es (n + 1) maxlen (got @ [hd bs]) r stream)
          else if rc = 0 then (if n = 1 then (Some (0, got), r, stream, es) else (Some (int n - 1, got), r, stream, es))
          else (Some (-1, got), r, stream, es))"
  by pat_completeness auto
termination
  by (relation "measure (\<lambda>(es, n, maxlen, got, r, stream). maxlen - n)") auto

declare rio_line.simps [simp del]

definition rio_readlineb :: "io_ev list \<Rightarrow> nat \<Rightarrow> rio \<Rightarrow> string \<Rightarrow> (int \<times> string) option \<times> rio \<times> string \<times> io_ev list" where
  "rio_readlineb es maxlen r stream = rio_line es 1 maxlen [] r stream"

section \<open>Wrappers\<close>

text \<open>\<open>unix_error\<close> prints a message and exits.\<close>

definition checked :: "string \<Rightarrow> (int \<times> 'a) option \<Rightarrow> (int \<times> 'a) outcome option" where
  "checked msg r = map_option (\<lambda>(n, x). if n < 0 then Inl (RuntimeError msg) else Inr (n, x)) r"

definition Rio_readlineb :: "io_ev list \<Rightarrow> nat \<Rightarrow> rio \<Rightarrow> string \<Rightarrow> (int \<times> string) outcome option \<times> rio \<times> string \<times> io_ev list" where
  "Rio_readlineb es maxlen r stream =
     (let (v, r, stream, es) = rio_readlineb es maxlen r stream in (checked ''Rio_readlineb error'' v, r, stream, es))"

definition Rio_writen :: "bool \<Rightarrow> io_ev list \<Rightarrow> string \<Rightarrow> unit outcome option \<times> string \<times> io_ev list" where
  "Rio_writen eintr es bs =
     (let (v, sent, es) = rio_writen eintr es bs in
      (map_option (\<lambda>n. if n \<noteq> int (length bs) then Inl (RuntimeError ''Rio_writen error'') else Inr ()) v, sent, es))"

section \<open>The readers on a working connection\<close>

text \<open>What is still to be read: the unread part of the buffer, then the rest of the input.\<close>

definition unread :: "rio \<Rightarrow> string" where
  "unread r = take (nat (rio_cnt r)) (drop (rio_bufptr r) (rio_buf r))"

definition rio_ok :: "rio \<Rightarrow> bool" where
  "rio_ok r \<longleftrightarrow> length (rio_buf r) = RIO_BUFSIZE \<and> (0 < rio_cnt r \<longrightarrow> rio_bufptr r + nat (rio_cnt r) \<le> RIO_BUFSIZE)"

lemma rio_initb_ok: "length (rio_buf r) = RIO_BUFSIZE \<Longrightarrow> rio_ok (rio_readinitb r) \<and> unread (rio_readinitb r) = []"
  by (simp add: rio_ok_def rio_readinitb_def unread_def)

lemma unread_pos: "rio_ok r \<Longrightarrow> unread r \<noteq> [] \<longleftrightarrow> 0 < rio_cnt r"
  by (auto simp: rio_ok_def unread_def)

lemma rio_fill_ok:
  "rio_ok r \<Longrightarrow> working (Suc m) es \<Longrightarrow>
   \<exists>r' s' es'. rio_fill es r stream = (Some (if unread r @ stream = [] then 0 else 1), r', s', es') \<and> rio_ok r' \<and>
     unread r' @ s' = unread r @ stream \<and> working m es' \<and> (unread r @ stream \<noteq> [] \<longrightarrow> 0 < rio_cnt r')"
proof (induction es arbitrary: r)
  case Nil
  then show ?case by simp
next
  case (Cons e es)
  show ?case
  proof (cases "0 < rio_cnt r")
    case True
    then have "unread r \<noteq> []" using unread_pos [OF Cons.prems(1)] by simp
    then show ?thesis using True Cons.prems working_mono [OF Cons.prems(2), of m] by (subst rio_fill.simps) simp
  next
    case False
    then have u: "unread r = []" using unread_pos [OF Cons.prems(1)] by simp
    show ?thesis
    proof (cases e)
      case Interrupted
      let ?r = "r\<lparr>rio_cnt := -1\<rparr>"
      have "rio_ok ?r" "unread ?r = []" using Cons.prems(1) by (simp_all add: rio_ok_def unread_def)
      moreover have "rio_fill (e # es) r stream = rio_fill es ?r stream"
        using Interrupted False by (subst rio_fill.simps) simp
      ultimately show ?thesis using Cons.IH [of ?r] Cons.prems(2) Interrupted u by simp
    next
      case (Moved k)
      define n where "n = min (min k RIO_BUFSIZE) (length stream)"
      have k: "0 < k" "working m es" using Cons.prems(2) Moved by simp_all
      have bound: "n \<le> RIO_BUFSIZE" "n \<le> length stream" by (simp_all add: n_def)
      have n0: "n = 0 \<longleftrightarrow> stream = []" using k by (auto simp: n_def RIO_BUFSIZE_def min_def split: if_splits)
      let ?r = "r\<lparr>rio_cnt := int n, rio_buf := take n stream @ drop n (rio_buf r)\<rparr>"
      have eq: "rio_fill (e # es) r stream =
          (if n = 0 then (Some 0, ?r, stream, es) else (Some 1, ?r\<lparr>rio_bufptr := 0\<rparr>, drop n stream, es))"
        unfolding Moved n_def using False by (subst rio_fill.simps) (simp only: Let_def io_ev.case list.case if_False)
      show ?thesis
      proof (cases "n = 0")
        case True
        then show ?thesis using eq n0 u k Cons.prems(1) by (simp add: rio_ok_def unread_def)
      next
        case pos: False
        have "rio_ok (?r\<lparr>rio_bufptr := 0\<rparr>)" using Cons.prems(1) bound by (simp add: rio_ok_def)
        moreover have "unread (?r\<lparr>rio_bufptr := 0\<rparr>) = take n stream" using bound by (simp add: unread_def)
        ultimately show ?thesis using eq pos n0 u k(2) by simp
      qed
    qed (use Cons.prems(2) in simp)
  qed
qed

lemma rio_read_ok:
  assumes "rio_ok r" "working (Suc m) es" "0 < n"
  shows "\<exists>c r' s' es'. rio_read es n r stream = (Some (int c, take c (unread r @ stream)), r', s', es') \<and> rio_ok r' \<and>
    unread r' @ s' = drop c (unread r @ stream) \<and> working m es' \<and> c \<le> n \<and> c \<le> length (unread r @ stream) \<and>
    (c = 0 \<longleftrightarrow> unread r @ stream = [])"
proof -
  obtain r1 s1 es1 where f: "rio_fill es r stream = (Some (if unread r @ stream = [] then 0 else 1), r1, s1, es1)" "rio_ok r1"
    "unread r1 @ s1 = unread r @ stream" "working m es1" "unread r @ stream \<noteq> [] \<longrightarrow> 0 < rio_cnt r1"
    using rio_fill_ok [OF assms(1,2), of stream] by (elim exE conjE) (rule that; assumption)
  show ?thesis
  proof (cases "unread r @ stream = []")
    case True
    then show ?thesis using f by (intro exI [of _ 0] exI [of _ r1] exI [of _ s1] exI [of _ es1]) (simp add: rio_read_def)
  next
    case False
    define c where "c = (if rio_cnt r1 < int n then nat (rio_cnt r1) else n)"
    let ?r = "r1\<lparr>rio_bufptr := rio_bufptr r1 + c, rio_cnt := rio_cnt r1 - int c\<rparr>"
    have pos: "0 < rio_cnt r1" using f(5) False by blast
    have c: "0 < c" "c \<le> n" "c \<le> nat (rio_cnt r1)" using pos assms(3) by (auto simp: c_def)
    have len: "length (unread r1) = nat (rio_cnt r1)" using f(2) pos by (auto simp: rio_ok_def unread_def min_def)
    have run: "rio_read es n r stream = (Some (int c, take c (drop (rio_bufptr r1) (rio_buf r1))), ?r, s1, es1)"
      unfolding rio_read_def f(1) c_def using False by (simp only: prod.case option.case Let_def if_False) simp
    have "take c (drop (rio_bufptr r1) (rio_buf r1)) = take c (unread r1)" using c by (simp add: unread_def min_def)
    also have "\<dots> = take c (unread r1 @ s1)" using c len by simp
    finally have t: "take c (drop (rio_bufptr r1) (rio_buf r1)) = take c (unread r @ stream)" unfolding f(3) .
    have n: "nat (rio_cnt r1 - int c) = nat (rio_cnt r1) - c" by simp
    have "unread ?r = drop c (unread r1)" using n by (simp add: unread_def drop_take add.commute)
    then have "unread ?r @ s1 = drop c (unread r @ stream)" using c len f(3) [symmetric] by simp
    moreover have "rio_ok ?r" using f(2) pos c by (auto simp: rio_ok_def)
    moreover have "c \<le> length (unread r @ stream)" unfolding f(3) [symmetric] using c len by simp
    ultimately show ?thesis using run t c f(4) False
      by (intro exI [of _ c] exI [of _ ?r] exI [of _ s1] exI [of _ es1]) simp
  qed
qed

lemma rio_readnb_ok:
  "rio_ok r \<Longrightarrow> working (nleft + m) es \<Longrightarrow>
   \<exists>r' s' es'. rio_readnb es nleft got r stream =
       (Some (int (length got + min nleft (length (unread r @ stream))), got @ take nleft (unread r @ stream)), r', s', es') \<and>
     rio_ok r' \<and> unread r' @ s' = drop nleft (unread r @ stream) \<and> working m es'"
proof (induction nleft arbitrary: es got r stream rule: less_induct)
  case (less nleft)
  show ?case
  proof (cases "nleft = 0")
    case True
    then show ?thesis using less.prems by (subst rio_readnb.simps) simp
  next
    case False
    then have npos: "0 < nleft" by simp
    have w: "working (Suc (nleft - 1 + m)) es" using less.prems(2) False by simp
    obtain c r1 s1 es1 where r1: "rio_read es nleft r stream = (Some (int c, take c (unread r @ stream)), r1, s1, es1)"
      "rio_ok r1" "unread r1 @ s1 = drop c (unread r @ stream)" "working (nleft - 1 + m) es1" "c \<le> nleft"
      "c \<le> length (unread r @ stream)" "c = 0 \<longleftrightarrow> unread r @ stream = []"
      using rio_read_ok [OF less.prems(1) w npos, of stream] by (elim exE conjE) (rule that; assumption)
    show ?thesis
    proof (cases "c = 0")
      case True
      then show ?thesis using r1 False working_mono [OF r1(4), of m] by (subst rio_readnb.simps) simp
    next
      case pos: False
      then have fewer: "nleft - c < nleft" using npos by simp
      have w1: "working (nleft - c + m) es1" using working_mono [OF r1(4)] pos by simp
      have step: "rio_readnb es nleft got r stream = rio_readnb es1 (nleft - c) (got @ take c (unread r @ stream)) r1 s1"
        using r1(1) False pos by (subst rio_readnb.simps) simp
      obtain r' s' es' where ih: "rio_readnb es1 (nleft - c) (got @ take c (unread r @ stream)) r1 s1 =
          (Some (int (length (got @ take c (unread r @ stream)) + min (nleft - c) (length (unread r1 @ s1))),
            (got @ take c (unread r @ stream)) @ take (nleft - c) (unread r1 @ s1)), r', s', es')"
        "rio_ok r'" "unread r' @ s' = drop (nleft - c) (unread r1 @ s1)" "working m es'"
        using less.IH [OF fewer r1(2) w1, of "got @ take c (unread r @ stream)" s1] by (elim exE conjE) (rule that; assumption)
      have val: "length (got @ take c (unread r @ stream)) + min (nleft - c) (length (unread r1 @ s1)) =
          length got + min nleft (length (unread r @ stream))" unfolding r1(3) using r1(5,6) by simp
      have app: "take c X @ take (nleft - c) (drop c X) = take nleft X" for X :: string
        using r1(5) by (metis le_add_diff_inverse take_add)
      have dr: "drop (nleft - c) (drop c X) = drop nleft X" for X :: string using r1(5) by simp
      show ?thesis unfolding step ih(1) val using ih(2-4) unfolding r1(3) append_assoc app dr by simp
    qed
  qed
qed

section \<open>Lines\<close>

text \<open>The first line of a text, newline included, cut after \<open>m\<close> characters.\<close>

fun line_of :: "nat \<Rightarrow> string \<Rightarrow> string" where
  "line_of 0 s = []"
| "line_of (Suc m) [] = []"
| "line_of (Suc m) (c # s) = (if c = CHR 0x0A then [c] else c # line_of m s)"

lemma line_of_whole: "CHR 0x0A \<notin> set b \<Longrightarrow> length b < m \<Longrightarrow> line_of m (b @ CHR 0x0A # s) = b @ [CHR 0x0A]"
  by (induction m b rule: line_of.induct) auto

lemma line_of_Nil [simp]: "line_of m [] = []"
  by (cases m) simp_all

lemma rio_line_ok:
  "rio_ok r \<Longrightarrow> 1 \<le> n \<Longrightarrow> working (maxlen - n + m) es \<Longrightarrow>
   \<exists>r' s' es'. rio_line es n maxlen got r stream =
       (Some (int (n - 1 + length (line_of (maxlen - n) (unread r @ stream))), got @ line_of (maxlen - n) (unread r @ stream)), r', s', es') \<and>
     rio_ok r' \<and> unread r' @ s' = drop (length (line_of (maxlen - n) (unread r @ stream))) (unread r @ stream) \<and> working m es'"
proof (induction "maxlen - n" arbitrary: n es got r stream)
  case 0
  then have "\<not> n < maxlen" "maxlen - n = 0" by simp_all
  then show ?case using "0.prems" by (subst rio_line.simps) (simp add: of_nat_diff)
next
  case (Suc k)
  have lt: "n < maxlen" "maxlen - n = Suc k" "maxlen - (n + 1) = k" using Suc.hyps(2) by simp_all
  have w: "working (Suc (k + m)) es" using Suc.prems(3) lt by simp
  obtain c r1 s1 es1 where r1: "rio_read es 1 r stream = (Some (int c, take c (unread r @ stream)), r1, s1, es1)"
    "rio_ok r1" "unread r1 @ s1 = drop c (unread r @ stream)" "working (k + m) es1" "c \<le> 1"
    "c \<le> length (unread r @ stream)" "c = 0 \<longleftrightarrow> unread r @ stream = []"
    using rio_read_ok [OF Suc.prems(1) w zero_less_one, of stream] by (elim exE conjE) (rule that; assumption)
  show ?case
  proof (cases "unread r @ stream")
    case Nil
    then have "c = 0" using r1(7) by simp
    then show ?thesis using r1 lt Nil working_mono [OF r1(4), of m] Suc.prems(2) by (subst rio_line.simps) (simp add: of_nat_diff)
  next
    case (Cons x xs)
    then have c: "c = 1" using r1(5,7) by simp
    have in1: "unread r1 @ s1 = xs" using r1(3) c Cons by simp
    show ?thesis
    proof (cases "x = CHR 0x0A")
      case True
      then show ?thesis using r1(1,2,4) c Cons lt in1 working_mono [OF r1(4), of m] Suc.prems(2)
        by (subst rio_line.simps) simp
    next
      case False
      have step: "rio_line es n maxlen got r stream = rio_line es1 (n + 1) maxlen (got @ [x]) r1 s1"
        using r1(1) c Cons lt False by (subst rio_line.simps) simp
      have w1: "working (maxlen - (n + 1) + m) es1" using r1(4) lt by simp
      obtain r' s' es' where ih: "rio_line es1 (n + 1) maxlen (got @ [x]) r1 s1 =
          (Some (int (n + 1 - 1 + length (line_of (maxlen - (n + 1)) (unread r1 @ s1))),
            (got @ [x]) @ line_of (maxlen - (n + 1)) (unread r1 @ s1)), r', s', es')" "rio_ok r'"
        "unread r' @ s' = drop (length (line_of (maxlen - (n + 1)) (unread r1 @ s1))) (unread r1 @ s1)" "working m es'"
        using Suc.hyps(1) [OF lt(3) [symmetric] r1(2) _ w1, of "got @ [x]" s1] by auto
      show ?thesis unfolding step using ih Suc.prems(2) Cons lt False in1 by simp
    qed
  qed
qed

text \<open>A client that reads \<open>k\<close> lines, one call after the other.\<close>

fun read_lines :: "nat \<Rightarrow> io_ev list \<Rightarrow> nat \<Rightarrow> rio \<Rightarrow> string \<Rightarrow> string list outcome option" where
  "read_lines 0 es maxlen r stream = Some (Inr [])"
| "read_lines (Suc k) es maxlen r stream =
     (case Rio_readlineb es maxlen r stream of
        (None, _) \<Rightarrow> None
      | (Some (Inl e), _) \<Rightarrow> Some (Inl e)
      | (Some (Inr (n, l)), r, stream, es) \<Rightarrow>
          map_option (\<lambda>res. andThen res (\<lambda>ls. Inr (l # ls))) (read_lines k es maxlen r stream))"

lemma Rio_readlineb_ok:
  assumes "rio_ok r" "1 \<le> maxlen" "working (maxlen + m) es"
  shows "\<exists>r' s' es'. Rio_readlineb es maxlen r stream =
      (Some (Inr (int (length (line_of (maxlen - 1) (unread r @ stream))), line_of (maxlen - 1) (unread r @ stream))), r', s', es') \<and>
    rio_ok r' \<and> unread r' @ s' = drop (length (line_of (maxlen - 1) (unread r @ stream))) (unread r @ stream) \<and> working m es'"
proof -
  have w: "working (maxlen - 1 + m) es" using working_mono [OF assms(3)] by simp
  obtain r' s' es' where "rio_line es 1 maxlen [] r stream =
       (Some (int (1 - 1 + length (line_of (maxlen - 1) (unread r @ stream))), [] @ line_of (maxlen - 1) (unread r @ stream)), r', s', es')"
     "rio_ok r'" "unread r' @ s' = drop (length (line_of (maxlen - 1) (unread r @ stream))) (unread r @ stream)" "working m es'"
    using rio_line_ok [OF assms(1) order_refl w, of "[]" stream] by (elim exE conjE) (rule that; assumption)
  then show ?thesis by (simp add: Rio_readlineb_def rio_readlineb_def checked_def)
qed

lemma read_lines_ok:
  "rio_ok r \<Longrightarrow> \<forall>b \<in> set bs. CHR 0x0A \<notin> set b \<and> length b + 2 \<le> maxlen \<Longrightarrow> unread r @ stream = concat (map (\<lambda>b. b @ [CHR 0x0A]) bs) \<Longrightarrow>
   1 \<le> maxlen \<Longrightarrow> working (Suc (length bs) * maxlen) es \<Longrightarrow>
   read_lines (Suc (length bs)) es maxlen r stream = Some (Inr (map (\<lambda>b. b @ [CHR 0x0A]) bs @ [[]]))"
proof (induction bs arbitrary: r stream es)
  case Nil
  have w: "working (maxlen + 0) es" using Nil.prems(5) by simp
  show ?case using Rio_readlineb_ok [OF Nil.prems(1,4) w, of stream] Nil.prems(3) by auto
next
  case (Cons b bs)
  let ?nl = "\<lambda>b. b @ [CHR 0x0A]"
  let ?in = "unread r @ stream"
  have w: "working (maxlen + Suc (length bs) * maxlen) es" using Cons.prems(5) by simp
  have l: "line_of (maxlen - 1) ?in = ?nl b"
    unfolding Cons.prems(3) using Cons.prems(2) line_of_whole [of b "maxlen - 1" "concat (map ?nl bs)"] by simp linarith
  obtain r' s' es' where r': "Rio_readlineb es maxlen r stream = (Some (Inr (int (length (?nl b)), ?nl b)), r', s', es')" "rio_ok r'"
    "unread r' @ s' = drop (length (?nl b)) ?in" "working (Suc (length bs) * maxlen) es'"
    using Rio_readlineb_ok [OF Cons.prems(1,4) w, of stream] unfolding l by (elim exE conjE) (rule that; assumption)
  have in1: "unread r' @ s' = concat (map ?nl bs)" unfolding r'(3) Cons.prems(3) by simp
  have "read_lines (Suc (length bs)) es' maxlen r' s' = Some (Inr (map ?nl bs @ [[]]))"
    by (rule Cons.IH [OF r'(2) _ in1 Cons.prems(4) r'(4)]) (use Cons.prems(2) in simp)
  then show ?case using r'(1) by simp
qed

lemma rio_writen_ok:
  "working (length bs + m) es \<Longrightarrow> \<exists>es'. rio_writen eintr es bs = (Some (int (length bs)), bs, es') \<and> working m es'"
proof (induction eintr es bs rule: rio_writen.induct)
  case (5 eintr k es c cs)
  then have k: "0 < k" and w: "working (length (c # cs) + m - 1) es" by simp_all
  have "working (length (drop k (c # cs)) + m) es" using working_mono [OF w] k by simp
  from "5.IH"(2) [OF _ this] k show ?case by auto
qed (auto dest: working_mono)

lemma rio_readn_ok:
  "working (nleft + m) es \<Longrightarrow>
   \<exists>es'. rio_readn es nleft got stream =
     (Some (int (length got + min nleft (length stream)), got @ take nleft stream), drop nleft stream, es') \<and> working m es'"
proof (induction es arbitrary: nleft got stream)
  case Nil
  then show ?case by (subst rio_readn.simps) simp
next
  case (Cons e es)
  show ?case
  proof (cases "nleft = 0")
    case True
    then show ?thesis using Cons.prems by (subst rio_readn.simps) simp
  next
    case False
    show ?thesis
    proof (cases e)
      case (Moved k)
      define n where "n = min (min k nleft) (length stream)"
      have k: "0 < k" "working (nleft + m - 1) es" using Cons.prems Moved by simp_all
      have n: "n \<le> nleft" "n \<le> length stream" by (simp_all add: n_def)
      show ?thesis
      proof (cases "n = 0")
        case True
        then have "stream = []" using False k(1) by (auto simp: n_def min_def split: if_splits)
        then show ?thesis using True Moved False working_mono [OF k(2), of m] by (subst rio_readn.simps) (simp add: n_def)
      next
        case pos: False
        have step: "rio_readn (e # es) nleft got stream = rio_readn es (nleft - n) (got @ take n stream) (drop n stream)"
          using Moved False pos by (subst rio_readn.simps) (simp only: n_def Let_def io_ev.case list.case if_False)
        have "working (nleft - n + m) es" using working_mono [OF k(2)] pos n by simp
        from Cons.IH [OF this, of "got @ take n stream" "drop n stream"]
        show ?thesis unfolding step using n by (auto simp: take_add [symmetric] min_def)
      qed
    qed (use Cons False in \<open>simp_all add: rio_readn.simps [of "Interrupted # es"]\<close>)
  qed
qed

lemma rio_fill_at_end: "rio_fill es r [] = (v, r', t, es') \<Longrightarrow> t = []"
proof (induction es arbitrary: r)
  case Nil
  then show ?case by (subst (asm) rio_fill.simps) (simp split: if_splits)
next
  case (Cons e es)
  then show ?case by (subst (asm) rio_fill.simps) (auto simp: Let_def split: if_splits io_ev.splits)
qed

lemma rio_read_at_end: "rio_read es n r [] = (v, r', t, es') \<Longrightarrow> t = []"
  by (auto simp: rio_read_def Let_def split: prod.splits option.splits if_splits dest: rio_fill_at_end)

lemma rio_line_at_end: "rio_line es n maxlen got r [] = (v, r', t, es') \<Longrightarrow> t = []"
proof (induction "maxlen - n" arbitrary: n es got r)
  case 0
  then show ?case by (subst (asm) rio_line.simps) simp
next
  case (Suc k)
  obtain v1 r1 t1 es1 where r: "rio_read es 1 r [] = (v1, r1, t1, es1)" by (cases "rio_read es 1 r []") auto
  then have t1: "t1 = []" by (rule rio_read_at_end)
  have lt: "n < maxlen" "k = maxlen - (n + 1)" using Suc.hyps(2) by simp_all
  show ?case
  proof (cases "\<exists>bs. v1 = Some (1, bs) \<and> hd bs \<noteq> CHR 0x0A")
    case True
    then obtain bs where bs: "v1 = Some (1, bs)" "hd bs \<noteq> CHR 0x0A" by blast
    have "rio_line es n maxlen got r [] = rio_line es1 (n + 1) maxlen (got @ [hd bs]) r1 []"
      using r bs lt(1) t1 by (subst rio_line.simps) simp
    then show ?thesis using Suc.hyps(1) [OF lt(2)] Suc.prems by simp
  next
    case False
    then show ?thesis using Suc.prems r t1 lt(1) by (subst (asm) rio_line.simps) (auto split: if_splits option.splits)
  qed
qed

section \<open>Properties\<close>

text \<open>C28: A text written with \<open>rio_writen\<close> and read line by line with \<open>rio_readlineb\<close> comes back line by line,
  followed by the end of the input, however the kernel splits and interrupts the writes and the reads.\<close>

theorem rio_lines_roundtrip:
  assumes "\<forall>b \<in> set bs. CHR 0x0A \<notin> set b \<and> length b + 2 \<le> maxlen" "1 \<le> maxlen"
    "working (length (concat (map (\<lambda>b. b @ [CHR 0x0A]) bs))) ws" "working (Suc (length bs) * maxlen) es" "length (rio_buf r) = RIO_BUFSIZE"
  shows "\<exists>sent ws'. rio_writen eintr ws (concat (map (\<lambda>b. b @ [CHR 0x0A]) bs)) =
      (Some (int (length sent)), sent, ws') \<and>
    read_lines (Suc (length bs)) es maxlen (rio_readinitb r) sent = Some (Inr (map (\<lambda>b. b @ [CHR 0x0A]) bs @ [[]]))"
proof -
  let ?text = "concat (map (\<lambda>b. b @ [CHR 0x0A]) bs)"
  obtain ws' where w: "rio_writen eintr ws ?text = (Some (int (length ?text)), ?text, ws')"
    using rio_writen_ok [of ?text 0 ws eintr, unfolded add_0_right, OF assms(3)] by (elim exE conjE) (rule that; assumption)
  have r: "rio_ok (rio_readinitb r)" "unread (rio_readinitb r) @ ?text = ?text" using rio_initb_ok [OF assms(5)] by simp_all
  show ?thesis using w read_lines_ok [OF r(1) assms(1) r(2) assms(2,4)] by blast
qed

theorem rio_lines_roundtrip_witness:
  "\<exists>sent ws'. rio_writen False (replicate 4 (Moved 1)) [CHR ''a'', CHR ''b'', CHR 0x0A, CHR 0x0A] =
      (Some (int (length sent)), sent, ws') \<and>
    read_lines 3 (replicate 12 (Moved 3)) 4 (rio_readinitb \<lparr>rio_cnt = 0, rio_bufptr = 0, rio_buf = replicate RIO_BUFSIZE CHR 0x00\<rparr>) sent =
      Some (Inr [[CHR ''a'', CHR ''b'', CHR 0x0A], [CHR 0x0A], []])"
  using rio_lines_roundtrip [of "[[CHR ''a'', CHR ''b''], []]" 4 "replicate 4 (Moved 1)" "replicate 12 (Moved 3)"
      "\<lparr>rio_cnt = 0, rio_bufptr = 0, rio_buf = replicate RIO_BUFSIZE CHR 0x00\<rparr>" False]
  by (simp add: working_def del: read_lines.simps) (simp add: numeral_3_eq_3 del: read_lines.simps)

text \<open>\<open>rio_readn\<close> and \<open>rio_readnb\<close> return the next \<open>n\<close> bytes, or all that are left, and consume exactly them;
  the buffered reader also from what an earlier call left in the buffer.\<close>

theorem rio_readers_correct:
  assumes "working n es" "rio_ok r"
  shows "\<exists>es1 r' s' es2. rio_readn es n [] stream = (Some (int (min n (length stream)), take n stream), drop n stream, es1) \<and>
    rio_readnb es n [] r stream = (Some (int (min n (length (unread r @ stream))), take n (unread r @ stream)), r', s', es2) \<and>
    unread r' @ s' = drop n (unread r @ stream)"
  using rio_readn_ok [of n 0 es "[]" stream, unfolded add_0_right, OF assms(1)]
    rio_readnb_ok [OF assms(2), of n 0 es "[]" stream, unfolded add_0_right, OF assms(1)]
  unfolding append_Nil list.size(3) add_0 by blast

theorem rio_readers_correct_witness:
  "\<exists>es1 r' s' es2. rio_readn [Moved 2, Interrupted, Moved 5, Moved 1] 3 [] ''abcde'' = (Some (3, ''abc''), ''de'', es1) \<and>
    rio_readnb [Moved 2, Interrupted, Moved 5, Moved 1] 3 [] \<lparr>rio_cnt = 0, rio_bufptr = 0, rio_buf = replicate RIO_BUFSIZE CHR 0x00\<rparr> ''abcde'' =
      (Some (3, ''abc''), r', s', es2) \<and> unread r' @ s' = ''de''"
  using rio_readers_correct [of 3 "[Moved 2, Interrupted, Moved 5, Moved 1]"
      "\<lparr>rio_cnt = 0, rio_bufptr = 0, rio_buf = replicate RIO_BUFSIZE CHR 0x00\<rparr>" "''abcde''"]
  by (simp add: unread_def rio_ok_def)

end
