(* ===== verification/Sock_Net.thy ===== *)
theory Sock_Net
  imports Net_Frame
begin

text \<open>
  Sockets of the single-threaded C servers: a socket carries the events of its future reads and writes, the
  input not yet read and the output so far; a step of a server may return, fail or block.
\<close>

type_synonym fd = int

record sock =
  r_ev :: "io_ev list"
  w_ev :: "io_ev list"
  inq :: string
  sent :: string
  closed :: bool

text \<open>A step may also block: \<open>None\<close>.\<close>

type_synonym 'a step = "'a outcome option"

definition bindB :: "'a step \<Rightarrow> ('a \<Rightarrow> 'b step) \<Rightarrow> 'b step" where
  "bindB m f = (case m of None \<Rightarrow> None | Some (Inl e) \<Rightarrow> Some (Inl e) | Some (Inr x) \<Rightarrow> f x)"

lemma bindB_simps [simp]: "bindB None f = None" "bindB (Some (Inl e)) f = Some (Inl e)" "bindB (Some (Inr x)) f = f x"
  by (simp_all add: bindB_def)

text \<open>Serving the descriptors \<open>C\<close> of a net: each of them changes as \<open>rel\<close> says, the others do not change.\<close>

definition serves :: "(sock \<Rightarrow> sock \<Rightarrow> bool) \<Rightarrow> fd set \<Rightarrow> (fd \<Rightarrow> sock) \<Rightarrow> (fd \<Rightarrow> sock) \<Rightarrow> bool" where
  "serves rel C n n' \<longleftrightarrow> (\<forall>c \<in> C. rel (n c) (n' c)) \<and> (\<forall>c. c \<notin> C \<longrightarrow> n' c = n c)"

lemma serves_insert: "serves rel C (n(c := k)) n' \<Longrightarrow> rel (n c) k \<Longrightarrow> c \<notin> C \<Longrightarrow> serves rel (insert c C) n n'"
  by (simp add: serves_def) (metis)

end
