(* ===== verification/Select_Echo.thy ===== *)
theory Select_Echo
  imports Rio Sock_Net
begin

text \<open>
  The echo servers on \<open>select\<close>: the pool of src/csapp/chapter12/echoservers.c over the robust I/O package, and
  the loop of src/csapp/chapter12/select\_server\_demo.c on plain system calls.

  A descriptor set is a set of descriptors below \<open>FD_SETSIZE\<close>; using another descriptor with it is undefined.
  What \<open>select\<close> and \<open>accept\<close> return are arguments of a round.
\<close>

definition FD_SETSIZE :: nat where "FD_SETSIZE = 1024"

definition MAXLINE :: nat where "MAXLINE = 8192"

definition INT_MAX :: int where "INT_MAX = 2147483647"

definition FD_SET :: "fd \<Rightarrow> fd set \<Rightarrow> fd set step" where
  "FD_SET fd X = (if 0 \<le> fd \<and> fd < int FD_SETSIZE then Some (Inr (insert fd X)) else Some (Inl UB))"

definition FD_CLR :: "fd \<Rightarrow> fd set \<Rightarrow> fd set step" where
  "FD_CLR fd X = (if 0 \<le> fd \<and> fd < int FD_SETSIZE then Some (Inr (X - {fd})) else Some (Inl UB))"

definition FD_ISSET :: "fd \<Rightarrow> fd set \<Rightarrow> bool step" where
  "FD_ISSET fd X = (if 0 \<le> fd \<and> fd < int FD_SETSIZE then Some (Inr (fd \<in> X)) else Some (Inl UB))"

section \<open>The pool of echoservers.c\<close>

record pool =
  maxfd :: fd
  read_set :: "fd set"
  ready_set :: "fd set"
  nready :: int
  maxi :: int
  clientfd :: "fd list"
  clientrio :: "rio list"

record server =
  pl :: pool
  byte_cnt :: int
  net :: "fd \<Rightarrow> sock"

definition init_pool :: "fd \<Rightarrow> pool \<Rightarrow> pool step" where
  "init_pool listenfd p =
     bindB (FD_SET listenfd {}) (\<lambda>X.
     Some (Inr (p\<lparr>maxi := -1, clientfd := replicate FD_SETSIZE (-1), maxfd := listenfd, read_set := X\<rparr>)))"

fun free_slot :: "fd list \<Rightarrow> nat" where
  "free_slot [] = 0"
| "free_slot (fd # fds) = (if fd < 0 then 0 else Suc (free_slot fds))"

definition add_client :: "fd \<Rightarrow> pool \<Rightarrow> pool step" where
  "add_client connfd p =
     (let p = p\<lparr>nready := nready p - 1\<rparr>; i = free_slot (clientfd p) in
      if i = length (clientfd p) then Some (Inl (RuntimeError ''add_client error: Too many clients''))
      else
        let p = p\<lparr>clientfd := (clientfd p)[i := connfd], clientrio := (clientrio p)[i := rio_readinitb (clientrio p ! i)]\<rparr> in
        bindB (FD_SET connfd (read_set p)) (\<lambda>X.
        let p = p\<lparr>read_set := X\<rparr>;
            p = (if connfd > maxfd p then p\<lparr>maxfd := connfd\<rparr> else p);
            p = (if int i > maxi p then p\<lparr>maxi := int i\<rparr> else p)
        in Some (Inr p)))"

text \<open>The body of the loop of \<open>check_clients\<close> for a ready descriptor.  \<open>rio\<close> is a copy of the client's buffer
  state; what the call leaves in it is dropped.\<close>

definition serve :: "nat \<Rightarrow> fd \<Rightarrow> server \<Rightarrow> server step" where
  "serve i connfd s =
     (let k = net s connfd; rio = clientrio (pl s) ! i in
      case Rio_readlineb (r_ev k) MAXLINE rio (inq k) of
        (None, _) \<Rightarrow> None
      | (Some (Inl e), _) \<Rightarrow> Some (Inl e)
      | (Some (Inr (n, buf)), _, input, es) \<Rightarrow>
          let k = k\<lparr>r_ev := es, inq := input\<rparr> in
          if n \<noteq> 0 then
            (if byte_cnt s + n > INT_MAX then Some (Inl UB)
             else (case Rio_writen False (w_ev k) (take (nat n) buf) of
                 (None, _) \<Rightarrow> None
               | (Some (Inl e), _) \<Rightarrow> Some (Inl e)
               | (Some (Inr _), out, ws) \<Rightarrow>
                   Some (Inr (s\<lparr>byte_cnt := byte_cnt s + n, net := (net s)(connfd := k\<lparr>sent := sent k @ out, w_ev := ws\<rparr>)\<rparr>))))
          else
            bindB (FD_CLR connfd (read_set (pl s))) (\<lambda>X.
            Some (Inr (s\<lparr>pl := (pl s)\<lparr>read_set := X, clientfd := (clientfd (pl s))[i := -1]\<rparr>,
              net := (net s)(connfd := k\<lparr>closed := True\<rparr>)\<rparr>))))"

definition check_client :: "nat \<Rightarrow> server \<Rightarrow> server step" where
  "check_client i s =
     (let connfd = clientfd (pl s) ! i in
      if connfd > 0 then
        bindB (FD_ISSET connfd (ready_set (pl s))) (\<lambda>b.
        if b then serve i connfd (s\<lparr>pl := (pl s)\<lparr>nready := nready (pl s) - 1\<rparr>\<rparr>) else Some (Inr s))
      else Some (Inr s))"

fun check_loop :: "nat \<Rightarrow> nat \<Rightarrow> server \<Rightarrow> server step" where
  "check_loop 0 i s = Some (Inr s)"
| "check_loop (Suc left) i s =
     (if int i \<le> maxi (pl s) \<and> nready (pl s) > 0 then bindB (check_client i s) (check_loop left (i + 1)) else Some (Inr s))"

definition check_clients :: "server \<Rightarrow> server step" where
  "check_clients s = check_loop FD_SETSIZE 0 s"

text \<open>One round of the main loop: \<open>select\<close> answers the descriptors \<open>R\<close>, \<open>accept\<close> would answer \<open>connfd\<close>.\<close>

definition server_round :: "fd \<Rightarrow> fd set \<Rightarrow> fd \<Rightarrow> server \<Rightarrow> server step" where
  "server_round listenfd R connfd s =
     (let s = s\<lparr>pl := (pl s)\<lparr>ready_set := R, nready := int (card R)\<rparr>\<rparr> in
      bindB (FD_ISSET listenfd R) (\<lambda>b.
      bindB (if b then bindB (add_client connfd (pl s)) (\<lambda>p. Some (Inr (s\<lparr>pl := p\<rparr>))) else Some (Inr s)) (\<lambda>s.
      check_clients s)))"

section \<open>The loop of select\_server\_demo.c\<close>

record demo =
  dset :: "fd set"
  fd_list :: "fd list"
  max_idx :: int
  dnet :: "fd \<Rightarrow> sock"

definition demo_init :: "fd \<Rightarrow> (fd \<Rightarrow> sock) \<Rightarrow> demo step" where
  "demo_init listenfd n =
     bindB (FD_SET listenfd {}) (\<lambda>X. Some (Inr \<lparr>dset = X, fd_list = replicate FD_SETSIZE (-1), max_idx = -1, dnet = n\<rparr>))"

definition demo_accept :: "fd \<Rightarrow> demo \<Rightarrow> demo step" where
  "demo_accept connfd d =
     bindB (FD_SET connfd (dset d)) (\<lambda>X.
     let i = free_slot (fd_list d);
         d = d\<lparr>dset := X, fd_list := (if i < length (fd_list d) then (fd_list d)[i := connfd] else fd_list d)\<rparr>
     in Some (Inr (if int i > max_idx d then d\<lparr>max_idx := int i\<rparr> else d)))"

text \<open>\<open>read\<close> and \<open>write\<close> are called once: a failed or interrupted read closes the connection, the result of the
  write is not looked at.\<close>

definition demo_serve :: "nat \<Rightarrow> fd \<Rightarrow> demo \<Rightarrow> demo step" where
  "demo_serve i fd d =
     (let k = dnet d fd in
      case r_ev k of
        [] \<Rightarrow> None
      | e # es \<Rightarrow>
          let n = (case e of Moved m \<Rightarrow> min (min m MAXLINE) (length (inq k)) | _ \<Rightarrow> 0);
              buf = take n (inq k); k = k\<lparr>r_ev := es, inq := drop n (inq k)\<rparr> in
          if n > 0 then
            (case w_ev k of
               [] \<Rightarrow> None
             | w # ws \<Rightarrow>
                 let out = (case w of Moved m \<Rightarrow> take m buf | _ \<Rightarrow> []) in
                 Some (Inr (d\<lparr>dnet := (dnet d)(fd := k\<lparr>w_ev := ws, sent := sent k @ out\<rparr>)\<rparr>)))
          else bindB (FD_CLR fd (dset d)) (\<lambda>X.
            Some (Inr (d\<lparr>dset := X, fd_list := (fd_list d)[i := -1], dnet := (dnet d)(fd := k\<lparr>closed := True\<rparr>)\<rparr>))))"

text \<open>An index beyond the array reads outside of it.\<close>

fun demo_scan :: "nat \<Rightarrow> nat \<Rightarrow> fd set \<Rightarrow> demo \<Rightarrow> demo step" where
  "demo_scan 0 i R d = Some (Inr d)"
| "demo_scan (Suc left) i R d =
     (if int i \<le> max_idx d then
        (if i < length (fd_list d) then
           (let fd = fd_list d ! i in
            bindB (if fd > 0 then bindB (FD_ISSET fd R) (\<lambda>b. if b then demo_serve i fd d else Some (Inr d)) else Some (Inr d))
              (demo_scan left (i + 1) R))
         else Some (Inl UB))
      else Some (Inr d))"

definition demo_round :: "fd \<Rightarrow> fd set \<Rightarrow> fd \<Rightarrow> demo \<Rightarrow> demo step" where
  "demo_round listenfd R connfd d =
     bindB (FD_ISSET listenfd R) (\<lambda>b.
     bindB (if b then demo_accept connfd d else Some (Inr d)) (\<lambda>d. demo_scan (FD_SETSIZE + 1) 0 R d))"

section \<open>The table of clients\<close>

text \<open>The descriptor set holds the listener and the clients of the table; the table has each client once.\<close>

definition slots_inv :: "fd \<Rightarrow> fd set \<Rightarrow> fd list \<Rightarrow> int \<Rightarrow> bool" where
  "slots_inv l X fds mx \<longleftrightarrow> length fds = FD_SETSIZE \<and> 0 \<le> l \<and> l < int FD_SETSIZE \<and>
     (\<forall>c \<in> set fds. c = -1 \<or> 0 < c \<and> c < int FD_SETSIZE \<and> c \<noteq> l) \<and> distinct (filter (\<lambda>c. c \<noteq> -1) fds) \<and>
     X = insert l (set fds - {-1}) \<and> (\<forall>i < length fds. fds ! i \<noteq> -1 \<longrightarrow> int i \<le> mx) \<and> mx < int FD_SETSIZE"

lemma slots_invD:
  assumes "slots_inv l X fds mx"
  shows "length fds = FD_SETSIZE" "0 \<le> l" "l < int FD_SETSIZE"
    "\<forall>c \<in> set fds. c = -1 \<or> 0 < c \<and> c < int FD_SETSIZE \<and> c \<noteq> l" "distinct (filter (\<lambda>c. c \<noteq> -1) fds)"
    "X = insert l (set fds - {-1})" "\<forall>i < length fds. fds ! i \<noteq> -1 \<longrightarrow> int i \<le> mx" "mx < int FD_SETSIZE"
  using assms unfolding slots_inv_def by blast+

lemma free_slot_props:
  "free_slot fds \<le> length fds" "free_slot fds < length fds \<Longrightarrow> fds ! free_slot fds < 0"
  "free_slot fds = length fds \<Longrightarrow> \<forall>c \<in> set fds. 0 \<le> c"
  by (induction fds) (auto split: if_splits)

text \<open>There is always a free slot: the descriptors below \<open>FD_SETSIZE\<close> other than the listener are fewer.\<close>

lemma free_slot_exists:
  assumes "slots_inv l X fds mx"
  shows "free_slot fds < length fds" "fds ! free_slot fds = -1"
proof -
  note D = slots_invD [OF assms]
  show lt: "free_slot fds < length fds"
  proof (rule ccontr)
    assume "\<not> free_slot fds < length fds"
    then have "free_slot fds = length fds" using free_slot_props(1) [of fds] by simp
    then have nn: "\<forall>c \<in> set fds. 0 \<le> c" by (rule free_slot_props(3))
    then have "filter (\<lambda>c. c \<noteq> -1) fds = fds" by (intro filter_True) force
    then have "card (set fds) = FD_SETSIZE" using D(1,5) distinct_card by fastforce
    moreover have "set fds \<subseteq> {0 <..< int FD_SETSIZE}" using D(4) nn by force
    then have "card (set fds) \<le> card {0 <..< int FD_SETSIZE}" by (intro card_mono) auto
    ultimately show False by (simp add: FD_SETSIZE_def)
  qed
  have "fds ! free_slot fds < 0" by (rule free_slot_props(2) [OF lt])
  moreover have "fds ! free_slot fds \<in> set fds" using lt by simp
  ultimately show "fds ! free_slot fds = -1" using D(4) by force
qed

lemma filter_update:
  assumes "i < length fds"
  shows "filter P (fds[i := c]) = filter P (take i fds) @ (if P c then [c] else []) @ filter P (drop (Suc i) fds)"
    "filter P fds = filter P (take i fds) @ (if P (fds ! i) then [fds ! i] else []) @ filter P (drop (Suc i) fds)"
proof -
  show "filter P (fds[i := c]) = filter P (take i fds) @ (if P c then [c] else []) @ filter P (drop (Suc i) fds)"
    using assms by (simp add: upd_conv_take_nth_drop)
  have "filter P fds = filter P (take i fds @ fds ! i # drop (Suc i) fds)" using id_take_nth_drop [OF assms] by simp
  then show "filter P fds = filter P (take i fds) @ (if P (fds ! i) then [fds ! i] else []) @ filter P (drop (Suc i) fds)" by simp
qed

lemma set_update:
  fixes fds :: "fd list"
  assumes "i < length fds" "fds ! i = -1 \<or> c = -1" "distinct (filter (\<lambda>c. c \<noteq> -1) fds)"
  shows "set (fds[i := c]) - {-1} = (set fds - {-1} - {fds ! i}) \<union> ({c} - {-1})"
proof -
  let ?P = "\<lambda>c :: fd. c \<noteq> -1"
  note f = filter_update [OF assms(1), of ?P]
  have fs: "set fds - {-1} = set (filter ?P fds)" and fs': "set (fds[i := c]) - {-1} = set (filter ?P (fds[i := c]))" by auto
  show ?thesis unfolding fs fs' f(1) [of c] using assms(3) unfolding f(2) by auto
qed

lemma slots_add:
  assumes I: "slots_inv l X fds mx" and c: "0 < c" "c < int FD_SETSIZE" "c \<notin> X"
  shows "slots_inv l (insert c X) (fds[free_slot fds := c]) (max mx (int (free_slot fds)))"
proof -
  note D = slots_invD [OF I] and F = free_slot_exists [OF I]
  let ?i = "free_slot fds"
  have "distinct (filter (\<lambda>c. c \<noteq> -1) (fds[?i := c]))"
    using D(5,6) c F unfolding filter_update(2) [OF F(1)] filter_update(1) [OF F(1)] by (auto dest: in_set_takeD in_set_dropD)
  moreover have "set (fds[?i := c]) - {-1} = insert c (set fds - {-1})"
    using set_update [OF F(1), of c] F(2) D(5) c(1) by auto
  moreover have "\<forall>d \<in> set (fds[?i := c]). d = -1 \<or> 0 < d \<and> d < int FD_SETSIZE \<and> d \<noteq> l"
    using D(4,6) c set_update_subset_insert [of fds ?i c] by auto
  moreover have "\<forall>j < length fds. fds[?i := c] ! j \<noteq> -1 \<longrightarrow> int j \<le> max mx (int ?i)"
    using D(7) by (auto simp: nth_list_update)
  ultimately show ?thesis using D F(1) by (simp add: slots_inv_def insert_commute)
qed

lemma slots_remove:
  assumes I: "slots_inv l X fds mx" and i: "i < length fds" "fds ! i = c" "0 < c"
  shows "slots_inv l (X - {c}) (fds[i := -1]) mx"
proof -
  note D = slots_invD [OF I]
  have cl: "c \<noteq> l" "c \<noteq> -1" using D(4) i nth_mem by force+
  have "distinct (filter (\<lambda>c. c \<noteq> -1) (fds[i := -1]))"
    using D(5) unfolding filter_update(2) [OF i(1)] filter_update(1) [OF i(1)] by auto
  moreover have "set (fds[i := -1]) - {-1} = set fds - {-1} - {c}" using set_update [OF i(1), of "-1"] D(5) i(2) by auto
  moreover have "\<forall>d \<in> set (fds[i := -1]). d = -1 \<or> 0 < d \<and> d < int FD_SETSIZE \<and> d \<noteq> l"
    using D(4) set_update_subset_insert [of fds i "-1"] by auto
  moreover have "\<forall>j < length fds. fds[i := -1] ! j \<noteq> -1 \<longrightarrow> int j \<le> mx"
    using D(7) by (metis nth_list_update_eq nth_list_update_neq)
  ultimately show ?thesis using D cl by (auto simp: slots_inv_def)
qed

text \<open>The clients among the descriptors \<open>R\<close> from position \<open>i\<close> on.\<close>

definition due :: "fd list \<Rightarrow> nat \<Rightarrow> fd set \<Rightarrow> fd set" where
  "due fds i R = {c \<in> set (drop i fds). 0 < c \<and> c \<in> R}"

lemma finite_due [simp]: "finite (due fds i R)"
  by (simp add: due_def)

lemma due_step:
  assumes "slots_inv l X fds mx" "i < length fds"
  shows "due fds i R = (if 0 < fds ! i \<and> fds ! i \<in> R then insert (fds ! i) (due fds (Suc i) R) else due fds (Suc i) R)"
    "0 < fds ! i \<Longrightarrow> fds ! i \<notin> due fds (Suc i) R"
proof -
  have d: "drop i fds = fds ! i # drop (Suc i) fds" using assms(2) by (simp add: Cons_nth_drop_Suc)
  show "due fds i R = (if 0 < fds ! i \<and> fds ! i \<in> R then insert (fds ! i) (due fds (Suc i) R) else due fds (Suc i) R)"
    unfolding due_def d by auto
  show "fds ! i \<notin> due fds (Suc i) R" if "0 < fds ! i"
    using slots_invD(5) [OF assms(1)] that unfolding filter_update(2) [OF assms(2)] by (auto simp: due_def)
qed

lemma due_beyond:
  assumes "slots_inv l X fds mx" "mx < int i"
  shows "due fds i R = {}"
proof -
  have "c = -1" if c: "c \<in> set (drop i fds)" for c
  proof -
    from c obtain m where "m < length fds - i" "c = fds ! (i + m)" by (auto simp: in_set_conv_nth)
    moreover from this have "i + m < length fds" by simp
    ultimately show ?thesis using slots_invD(7) [OF assms(1)] assms(2) by force
  qed
  then show ?thesis by (force simp: due_def)
qed

section \<open>One round of the pool\<close>

definition pool_inv :: "fd \<Rightarrow> pool \<Rightarrow> bool" where
  "pool_inv l p \<longleftrightarrow> slots_inv l (read_set p) (clientfd p) (maxi p) \<and> length (clientrio p) = FD_SETSIZE \<and>
     (\<forall>r \<in> set (clientrio p). length (rio_buf r) = RIO_BUFSIZE \<and> rio_cnt r = 0) \<and> (\<forall>c \<in> read_set p. c \<le> maxfd p)"

lemma pool_invD:
  assumes "pool_inv l p"
  shows "slots_inv l (read_set p) (clientfd p) (maxi p)" "length (clientrio p) = FD_SETSIZE"
    "\<forall>r \<in> set (clientrio p). length (rio_buf r) = RIO_BUFSIZE \<and> rio_cnt r = 0" "\<forall>c \<in> read_set p. c \<le> maxfd p"
  using assms unfolding pool_inv_def by blast+

text \<open>A socket served: its next line was echoed, or it was closed at the end of its input.\<close>

definition echoed :: "sock \<Rightarrow> sock \<Rightarrow> bool" where
  "echoed k k' \<longleftrightarrow> sent k' = sent k @ line_of (MAXLINE - 1) (inq k) \<and> closed k' = (closed k \<or> inq k = []) \<and>
     (\<exists>m \<ge> length (line_of (MAXLINE - 1) (inq k)). inq k' = drop m (inq k))"

definition ready_sock :: "sock \<Rightarrow> bool" where
  "ready_sock k \<longleftrightarrow> working MAXLINE (r_ev k) \<and> working MAXLINE (w_ev k)"

lemma add_client_ok:
  assumes I: "pool_inv l p" and c: "0 < c" "c < int FD_SETSIZE" "c \<notin> read_set p"
  shows "\<exists>p'. add_client c p = Some (Inr p') \<and> pool_inv l p' \<and> nready p' = nready p - 1 \<and> ready_set p' = ready_set p \<and>
    read_set p' = insert c (read_set p) \<and> clientfd p' = (clientfd p)[free_slot (clientfd p) := c]"
proof -
  note D = pool_invD [OF I] and F = free_slot_exists [OF pool_invD(1) [OF I]]
  let ?i = "free_slot (clientfd p)"
  let ?p = "p\<lparr>nready := nready p - 1, clientfd := (clientfd p)[?i := c], clientrio := (clientrio p)[?i := rio_readinitb (clientrio p ! ?i)],
    read_set := insert c (read_set p), maxfd := max (maxfd p) c, maxi := max (maxi p) (int ?i)\<rparr>"
  have run: "add_client c p = Some (Inr ?p)"
    using F(1) c by (simp add: add_client_def FD_SET_def Let_def max_def)
  have "?i < length (clientrio p)" using F(1) D(2) slots_invD(1) [OF D(1)] by simp
  then have "\<forall>r \<in> set ((clientrio p)[?i := rio_readinitb (clientrio p ! ?i)]). length (rio_buf r) = RIO_BUFSIZE \<and> rio_cnt r = 0"
    using D(3) set_update_subset_insert [of "clientrio p" ?i "rio_readinitb (clientrio p ! ?i)"] by (auto simp: rio_readinitb_def)
  moreover have "\<forall>d \<in> insert c (read_set p). d \<le> max (maxfd p) c" using D(4) by auto
  ultimately have "pool_inv l ?p" using slots_add [OF D(1) c] D(2) by (simp add: pool_inv_def)
  then show ?thesis using run by simp
qed

lemma line_of_empty: "line_of (Suc m) s = [] \<longleftrightarrow> s = []"
  by (cases s) auto

lemma length_line_of: "length (line_of m s) \<le> m" "length (line_of m s) \<le> length s"
  by (induction m s rule: line_of.induct) auto

lemma serve_ok:
  assumes I: "pool_inv l (pl s)" and i: "i < FD_SETSIZE" "clientfd (pl s) ! i = c" "0 < c"
    and k: "ready_sock (net s c)" and total: "byte_cnt s + int MAXLINE \<le> INT_MAX"
  shows "\<exists>k' p'. serve i c s = Some (Inr (s\<lparr>pl := p', byte_cnt := byte_cnt s + int (length (line_of (MAXLINE - 1) (inq (net s c)))),
      net := (net s)(c := k')\<rparr>)) \<and> echoed (net s c) k' \<and> pool_inv l p' \<and> ready_set p' = ready_set (pl s) \<and> nready p' = nready (pl s) \<and>
    drop (Suc i) (clientfd p') = drop (Suc i) (clientfd (pl s)) \<and> clientrio p' = clientrio (pl s) \<and>
    inq k' = fst (snd (snd (Rio_readlineb (r_ev (net s c)) MAXLINE (clientrio (pl s) ! i) (inq (net s c))))) \<and>
    read_set p' = read_set (pl s) - (if inq (net s c) = [] then {c} else {})"
proof -
  note D = pool_invD [OF I]
  let ?k = "net s c" and ?r = "clientrio (pl s) ! i" and ?p = "pl s"
  let ?l = "line_of (MAXLINE - 1) (inq (net s c))"
  have r: "?r \<in> set (clientrio ?p)" using i(1) D(2) by simp
  then have ok: "rio_ok ?r" "unread ?r = []" using D(3) by (auto simp: rio_ok_def unread_def)
  have w: "working (MAXLINE + 0) (r_ev ?k)" "working (length ?l + 0) (w_ev ?k)"
    using k working_mono [of MAXLINE "w_ev ?k" "length ?l"] length_line_of(1) [of "MAXLINE - 1" "inq ?k"] by (auto simp: ready_sock_def)
  obtain r' t es where rd: "Rio_readlineb (r_ev ?k) MAXLINE ?r (inq ?k) = (Some (Inr (int (length ?l), ?l)), r', t, es)"
    "unread r' @ t = drop (length ?l) (inq ?k)"
    using Rio_readlineb_ok [OF ok(1) _ w(1), of "inq ?k"] ok(2) by (auto simp: MAXLINE_def)
  have t: "t = drop (length ?l + length (unread r')) (inq ?k)"
    using arg_cong [OF rd(2), of "drop (length (unread r'))"] by (simp add: add.commute)
  obtain ws where wr: "rio_writen False (w_ev ?k) ?l = (Some (int (length ?l)), ?l, ws)"
    using rio_writen_ok [OF w(2), of False] by (elim exE conjE) (rule that; assumption)
  have wr': "Rio_writen False (w_ev ?k) ?l = (Some (Inr ()), ?l, ws)" using wr by (simp add: Rio_writen_def)
  have empty: "?l = [] \<longleftrightarrow> inq ?k = []" using line_of_empty [of 8190 "inq ?k"] by (simp add: MAXLINE_def)
  have fds: "length (clientfd ?p) = FD_SETSIZE" by (rule slots_invD(1) [OF D(1)])
  show ?thesis
  proof (cases "inq ?k = []")
    case True
    let ?p' = "?p\<lparr>read_set := read_set ?p - {c}, clientfd := (clientfd ?p)[i := -1]\<rparr>"
    let ?k' = "?k\<lparr>r_ev := es, inq := t, closed := True\<rparr>"
    have "c \<in> set (clientfd ?p)" using i fds by (metis nth_mem)
    then have "c < int FD_SETSIZE" using slots_invD(4) [OF D(1)] i(3) by force
    then have "serve i c s = Some (Inr (s\<lparr>pl := ?p', byte_cnt := byte_cnt s + int (length ?l), net := (net s)(c := ?k')\<rparr>))"
      using rd(1) True empty i(3) by (simp add: serve_def FD_CLR_def Let_def)
    moreover have "pool_inv l ?p'" using slots_remove [OF D(1) _ i(2,3)] fds i(1) D by (simp add: pool_inv_def)
    moreover have "echoed ?k ?k'" using True t empty by (simp add: echoed_def)
    ultimately show ?thesis using True rd(1) by (intro exI [of _ ?k'] exI [of _ ?p']) simp
  next
    case False
    let ?k' = "?k\<lparr>r_ev := es, inq := t, sent := sent ?k @ ?l, w_ev := ws\<rparr>"
    have "int (length ?l) \<le> int MAXLINE" using length_line_of(1) [of "MAXLINE - 1" "inq ?k"] by simp
    then have "\<not> byte_cnt s + int (length ?l) > INT_MAX" using total by simp
    then have "serve i c s = Some (Inr (s\<lparr>pl := ?p, byte_cnt := byte_cnt s + int (length ?l), net := (net s)(c := ?k')\<rparr>))"
      using rd(1) False empty wr' by (simp add: serve_def Let_def)
    moreover have "echoed ?k ?k'" using False t unfolding echoed_def by (auto intro: exI [of _ "length ?l + length (unread r')"])
    ultimately show ?thesis using False I rd(1) by (intro exI [of _ ?k'] exI [of _ ?p]) simp
  qed
qed

lemma check_loop_ok:
  "pool_inv l (pl s) \<Longrightarrow> i + left = FD_SETSIZE \<Longrightarrow> nready (pl s) = int (card (due (clientfd (pl s)) i (ready_set (pl s)))) \<Longrightarrow>
   \<forall>c \<in> due (clientfd (pl s)) i (ready_set (pl s)). ready_sock (net s c) \<Longrightarrow>
   byte_cnt s + int left * int MAXLINE \<le> INT_MAX \<Longrightarrow>
   \<exists>s'. check_loop left i s = Some (Inr s') \<and> pool_inv l (pl s') \<and>
     serves echoed (due (clientfd (pl s)) i (ready_set (pl s))) (net s) (net s') \<and>
     read_set (pl s') = read_set (pl s) - {c \<in> due (clientfd (pl s)) i (ready_set (pl s)). inq (net s c) = []}"
proof (induction left arbitrary: i s)
  case 0
  then have "due (clientfd (pl s)) i (ready_set (pl s)) = {}"
    using slots_invD(1) [OF pool_invD(1) [OF "0.prems"(1)]] by (simp add: due_def)
  then show ?case using "0.prems"(1) by (simp add: serves_def)
next
  case (Suc left)
  let ?p = "pl s" and ?fds = "clientfd (pl s)" and ?R = "ready_set (pl s)"
  note D = pool_invD [OF Suc.prems(1)]
  have i: "i < FD_SETSIZE" "i < length ?fds" using Suc.prems(2) slots_invD(1) [OF D(1)] by simp_all
  note step = due_step [OF D(1) i(2), of ?R]
  show ?case
  proof (cases "int i \<le> maxi ?p \<and> nready ?p > 0")
    case False
    then have "due ?fds i ?R = {}" using due_beyond [OF D(1)] Suc.prems(3) by (auto simp: not_le card_gt_0_iff)
    moreover have "check_loop (Suc left) i s = Some (Inr s)" using False by (simp only: check_loop.simps if_False)
    ultimately show ?thesis using Suc.prems(1) by (simp add: serves_def del: check_loop.simps)
  next
    case go: True
    show ?thesis
    proof (cases "0 < ?fds ! i \<and> ?fds ! i \<in> ?R")
      case False
      have d: "due ?fds i ?R = due ?fds (Suc i) ?R" using step(1) False by simp
      have "?fds ! i \<in> set ?fds" using i(2) by simp
      then have "?fds ! i < int FD_SETSIZE" using slots_invD(4) [OF D(1)] by (force simp: FD_SETSIZE_def)
      then have "check_client i s = Some (Inr s)" using False by (simp add: check_client_def FD_ISSET_def Let_def)
      then have run: "check_loop (Suc left) i s = check_loop left (Suc i) s" using go by simp
      have b: "byte_cnt s + int left * int MAXLINE \<le> INT_MAX" using Suc.prems(5) by (simp add: distrib_right)
      show ?thesis unfolding run d using Suc.IH [OF Suc.prems(1) _ Suc.prems(3,4) [unfolded d] b] Suc.prems(2) by simp
    next
      case True
      define c where "c = ?fds ! i"
      define D' where "D' = due ?fds (Suc i) ?R"
      have c: "0 < c" "c \<in> ?R" "c \<notin> D'" and d: "due ?fds i ?R = insert c D'" using True step by (simp_all add: c_def D'_def)
      let ?s0 = "s\<lparr>pl := ?p\<lparr>nready := nready ?p - 1\<rparr>\<rparr>"
      have I0: "pool_inv l (pl ?s0)" using Suc.prems(1) by (simp add: pool_inv_def)
      have k0: "ready_sock (net ?s0 c)" using Suc.prems(4) d by simp
      have b0: "byte_cnt ?s0 + int MAXLINE \<le> INT_MAX" using Suc.prems(5) by (simp add: distrib_right MAXLINE_def)
      have fi: "clientfd (pl ?s0) ! i = c" by (simp add: c_def)
      let ?n = "int (length (line_of (MAXLINE - 1) (inq (net s c))))"
      obtain k' p' where sv: "serve i c ?s0 = Some (Inr (?s0\<lparr>pl := p', byte_cnt := byte_cnt ?s0 + ?n, net := (net ?s0)(c := k')\<rparr>))"
        "echoed (net s c) k'" "pool_inv l p'" "ready_set p' = ?R" "nready p' = nready ?p - 1"
        "drop (Suc i) (clientfd p') = drop (Suc i) ?fds"
        "read_set p' = read_set ?p - (if inq (net s c) = [] then {c} else {})"
        using serve_ok [OF I0 i(1) fi c(1) k0 b0] by auto
      define s1 where "s1 = ?s0\<lparr>pl := p', byte_cnt := byte_cnt ?s0 + ?n, net := (net ?s0)(c := k')\<rparr>"
      have s1: "pl s1 = p'" "net s1 = (net s)(c := k')" "byte_cnt s1 = byte_cnt s + ?n" by (simp_all add: s1_def)
      have "c < int FD_SETSIZE" using slots_invD(4) [OF D(1)] c(1) i(2) nth_mem unfolding c_def by force
      then have "check_client i s = Some (Inr s1)" using c sv(1)
        unfolding check_client_def FD_ISSET_def c_def [symmetric] s1_def by (simp add: Let_def)
      then have run: "check_loop (Suc left) i s = check_loop left (Suc i) s1" using go by simp
      have d1: "due (clientfd p') (Suc i) ?R = D'" by (simp add: due_def D'_def sv(6))
      have nr: "nready p' = int (card D')" using Suc.prems(3) unfolding d sv(5) using c(3) by (simp add: D'_def)
      have rs: "\<forall>x \<in> D'. ready_sock (net s1 x)" using Suc.prems(4) c(3) d s1(2) by auto
      have "?n \<le> int MAXLINE" using length_line_of(1) [of "MAXLINE - 1" "inq (net s c)"] by simp
      then have b1: "byte_cnt s1 + int left * int MAXLINE \<le> INT_MAX" using Suc.prems(5) s1(3) by (simp add: distrib_right)
      obtain s' where s': "check_loop left (Suc i) s1 = Some (Inr s')" "pool_inv l (pl s')" "serves echoed D' (net s1) (net s')"
        "read_set (pl s') = read_set p' - {x \<in> D'. inq (net s1 x) = []}"
        using Suc.IH [of s1 "Suc i"] sv(3,4) nr rs b1 Suc.prems(2) unfolding s1(1) d1 sv(4) by auto
      have "serves echoed (insert c D') (net s) (net s')"
        using s'(3) [unfolded s1(2)] sv(2) c(3) by (rule serves_insert)
      moreover have "read_set (pl s') = read_set ?p - {x \<in> insert c D'. inq (net s x) = []}"
        unfolding s'(4) sv(7) s1(2) using c(3) by auto
      ultimately show ?thesis unfolding run d using s'(1,2) by simp
    qed
  qed
qed

section \<open>One round of the demonstration server\<close>

lemma demo_accept_ok:
  assumes I: "slots_inv l (dset d) (fd_list d) (max_idx d)" and c: "0 < c" "c < int FD_SETSIZE" "c \<notin> dset d"
  shows "\<exists>d'. demo_accept c d = Some (Inr d') \<and> slots_inv l (dset d') (fd_list d') (max_idx d') \<and>
    dset d' = insert c (dset d) \<and> dnet d' = dnet d \<and> fd_list d' = (fd_list d)[free_slot (fd_list d) := c]"
proof -
  have "demo_accept c d = Some (Inr (d\<lparr>dset := insert c (dset d), fd_list := (fd_list d)[free_slot (fd_list d) := c],
      max_idx := max (max_idx d) (int (free_slot (fd_list d)))\<rparr>))"
    using free_slot_exists(1) [OF I] c by (simp add: demo_accept_def FD_SET_def Let_def max_def)
  then show ?thesis using slots_add [OF I c] by simp
qed

text \<open>A socket served by the demonstration: what one \<open>read\<close> returns was echoed whole, or the connection closed.\<close>

definition demo_echoed :: "sock \<Rightarrow> sock \<Rightarrow> bool" where
  "demo_echoed k k' \<longleftrightarrow> (\<exists>n. sent k' = sent k @ take n (inq k) \<and> inq k' = drop n (inq k) \<and> closed k' = (closed k \<or> n = 0) \<and>
     (n = 0 \<longleftrightarrow> inq k = []))"

text \<open>One event for the read and one for the write, which takes all bytes.\<close>

definition demo_ready :: "sock \<Rightarrow> bool" where
  "demo_ready k \<longleftrightarrow> (\<exists>m es w ws. r_ev k = Moved m # es \<and> 0 < m \<and> w_ev k = Moved w # ws \<and> min m MAXLINE \<le> w)"

lemma demo_serve_ok:
  assumes I: "slots_inv l (dset d) (fd_list d) (max_idx d)" and i: "i < length (fd_list d)" "fd_list d ! i = c" "0 < c"
    and k: "demo_ready (dnet d c)"
  shows "\<exists>d'. demo_serve i c d = Some (Inr d') \<and> slots_inv l (dset d') (fd_list d') (max_idx d') \<and> max_idx d' = max_idx d \<and>
    (\<exists>k'. dnet d' = (dnet d)(c := k') \<and> demo_echoed (dnet d c) k') \<and> drop (Suc i) (fd_list d') = drop (Suc i) (fd_list d) \<and>
    dset d' = dset d - (if inq (dnet d c) = [] then {c} else {})"
proof -
  let ?k = "dnet d c"
  obtain m es w ws where e: "r_ev ?k = Moved m # es" "0 < m" "w_ev ?k = Moved w # ws" "min m MAXLINE \<le> w"
    using k by (auto simp: demo_ready_def)
  define n where "n = min (min m MAXLINE) (length (inq ?k))"
  have n: "n = 0 \<longleftrightarrow> inq ?k = []" "take w (take n (inq ?k)) = take n (inq ?k)"
    using e(2,4) by (auto simp: n_def MAXLINE_def min_def split: if_splits)
  show ?thesis
  proof (cases "inq ?k = []")
    case True
    let ?k' = "?k\<lparr>r_ev := es, inq := [], closed := True\<rparr>"
    let ?d = "d\<lparr>dset := dset d - {c}, fd_list := (fd_list d)[i := -1], dnet := (dnet d)(c := ?k')\<rparr>"
    have "c < int FD_SETSIZE" using slots_invD(4) [OF I] i nth_mem by force
    then have "demo_serve i c d = Some (Inr ?d)" using e(1) True i(3) by (simp add: demo_serve_def FD_CLR_def Let_def)
    moreover have "demo_echoed ?k ?k'" using True by (simp add: demo_echoed_def)
    ultimately show ?thesis using slots_remove [OF I i] True by (intro exI [of _ ?d]) auto
  next
    case False
    let ?k' = "?k\<lparr>r_ev := es, inq := drop n (inq ?k), w_ev := ws, sent := sent ?k @ take n (inq ?k)\<rparr>"
    have pos: "0 < n" using n(1) False by simp
    have run: "demo_serve i c d = Some (Inr (d\<lparr>dnet := (dnet d)(c := ?k')\<rparr>))"
      unfolding demo_serve_def Let_def e(1) list.case io_ev.case n_def [symmetric] using pos e(3) n(2) by simp
    have "demo_echoed ?k ?k'" unfolding demo_echoed_def using n(1) False by (intro exI [of _ n]) simp
    then show ?thesis using run I False by (intro exI [of _ "d\<lparr>dnet := (dnet d)(c := ?k')\<rparr>"]) auto
  qed
qed

lemma demo_scan_ok:
  "slots_inv l (dset d) (fd_list d) (max_idx d) \<Longrightarrow> i + left = FD_SETSIZE \<Longrightarrow>
   \<forall>c \<in> due (fd_list d) i R. demo_ready (dnet d c) \<Longrightarrow>
   \<exists>d'. demo_scan (Suc left) i R d = Some (Inr d') \<and> slots_inv l (dset d') (fd_list d') (max_idx d') \<and>
     serves demo_echoed (due (fd_list d) i R) (dnet d) (dnet d') \<and>
     dset d' = dset d - {c \<in> due (fd_list d) i R. inq (dnet d c) = []}"
proof (induction left arbitrary: i d)
  case 0
  note D = slots_invD [OF "0.prems"(1)]
  have "due (fd_list d) i R = {}" using "0.prems"(2) D(1) by (simp add: due_def)
  moreover have "\<not> int i \<le> max_idx d" using "0.prems"(2) D(8) by simp
  ultimately show ?case using "0.prems"(1) by (simp add: serves_def)
next
  case (Suc left)
  note I = Suc.prems(1) and D = slots_invD [OF Suc.prems(1)]
  let ?fds = "fd_list d"
  have i: "i < length ?fds" using Suc.prems(2) D(1) by simp
  note step = due_step [OF I i, of R]
  show ?case
  proof (cases "int i \<le> max_idx d")
    case False
    then show ?thesis using due_beyond [OF I, of i R] I by (simp add: serves_def)
  next
    case go: True
    show ?thesis
    proof (cases "0 < ?fds ! i \<and> ?fds ! i \<in> R")
      case False
      have d: "due ?fds i R = due ?fds (Suc i) R" using step(1) False by simp
      have "?fds ! i \<in> set ?fds" using i by simp
      then have lt: "?fds ! i < int FD_SETSIZE" using D(4) by (force simp: FD_SETSIZE_def)
      have run: "demo_scan (Suc (Suc left)) i R d = demo_scan (Suc left) (Suc i) R d"
        unfolding demo_scan.simps(2) [of "Suc left"] using go i False lt by (simp add: FD_ISSET_def Let_def del: demo_scan.simps)
      show ?thesis unfolding run d using Suc.IH [OF I _ Suc.prems(3) [unfolded d]] Suc.prems(2) by simp
    next
      case True
      define c where "c = ?fds ! i"
      define D' where "D' = due ?fds (Suc i) R"
      have c: "0 < c" "c \<in> R" "c \<notin> D'" and d: "due ?fds i R = insert c D'" using True step by (simp_all add: c_def D'_def)
      have lt: "c < int FD_SETSIZE" using D(4) c(1) i nth_mem unfolding c_def by force
      have k: "demo_ready (dnet d c)" using Suc.prems(3) d by simp
      obtain d1 k' where d1: "demo_serve i c d = Some (Inr d1)" "slots_inv l (dset d1) (fd_list d1) (max_idx d1)"
        "dnet d1 = (dnet d)(c := k')" "demo_echoed (dnet d c) k'" "drop (Suc i) (fd_list d1) = drop (Suc i) ?fds"
        "dset d1 = dset d - (if inq (dnet d c) = [] then {c} else {})"
        using demo_serve_ok [OF I i c_def [symmetric] c(1) k] by (elim exE conjE) (rule that; assumption)
      have run: "demo_scan (Suc (Suc left)) i R d = demo_scan (Suc left) (Suc i) R d1"
        unfolding demo_scan.simps(2) [of "Suc left"] Let_def c_def [symmetric]
        using go i c d1(1) lt by (simp add: FD_ISSET_def del: demo_scan.simps)
      have due1: "due (fd_list d1) (Suc i) R = D'" by (simp add: due_def D'_def d1(5))
      have rdy: "\<forall>x \<in> D'. demo_ready (dnet d1 x)" using Suc.prems(3) c(3) d d1(3) by auto
      obtain d' where d': "demo_scan (Suc left) (Suc i) R d1 = Some (Inr d')" "slots_inv l (dset d') (fd_list d') (max_idx d')"
        "serves demo_echoed D' (dnet d1) (dnet d')" "dset d' = dset d1 - {x \<in> D'. inq (dnet d1 x) = []}"
        using Suc.IH [OF d1(2), of "Suc i"] rdy Suc.prems(2) unfolding due1 by auto
      have "serves demo_echoed (insert c D') (dnet d) (dnet d')" using d'(3) [unfolded d1(3)] d1(4) c(3) by (rule serves_insert)
      moreover have "dset d' = dset d - {x \<in> insert c D'. inq (dnet d x) = []}" unfolding d'(4) d1(6) d1(3) using c(3) by auto
      ultimately show ?thesis unfolding run d using d'(1,2) by simp
    qed
  qed
qed

section \<open>Properties\<close>

lemma due_clients:
  assumes I: "slots_inv l X fds mx" and R: "R \<subseteq> X"
  shows "due fds 0 R = R - {l}"
  using slots_invD(4,6) [OF I] R by (fastforce simp: due_def)

lemma init_pool_ok:
  assumes "0 \<le> l" "l < int FD_SETSIZE" "length (clientrio p) = FD_SETSIZE"
    "\<forall>r \<in> set (clientrio p). length (rio_buf r) = RIO_BUFSIZE \<and> rio_cnt r = 0"
  shows "\<exists>p'. init_pool l p = Some (Inr p') \<and> pool_inv l p'"
  using assms by (simp add: init_pool_def FD_SET_def pool_inv_def slots_inv_def)

text \<open>C31: In a round of the pool, whatever \<open>select\<close> reports, every client that is ready is served once: its next
  line is echoed, or it is closed and forgotten at the end of its input; no other client is touched, a new
  connection finds a free slot, and the table, the descriptor set and the high-water marks stay consistent.\<close>

theorem select_round_correct:
  assumes I: "pool_inv l (pl s)" and R: "R \<subseteq> read_set (pl s)"
    and new: "l \<in> R \<longrightarrow> 0 < c \<and> c < int FD_SETSIZE \<and> c \<notin> read_set (pl s)"
    and ready: "\<forall>x \<in> R - {l}. ready_sock (net s x)" and total: "byte_cnt s + int FD_SETSIZE * int MAXLINE \<le> INT_MAX"
  shows "\<exists>s'. server_round l R c s = Some (Inr s') \<and> pool_inv l (pl s') \<and> serves echoed (R - {l}) (net s) (net s') \<and>
    read_set (pl s') = (read_set (pl s) \<union> (if l \<in> R then {c} else {})) - {x \<in> R - {l}. inq (net s x) = []}"
proof -
  define s0 where "s0 = s\<lparr>pl := (pl s)\<lparr>ready_set := R, nready := int (card R)\<rparr>\<rparr>"
  have I0: "pool_inv l (pl s0)" using I by (simp add: pool_inv_def s0_def)
  have s0: "read_set (pl s0) = read_set (pl s)" "net s0 = net s" "byte_cnt s0 = byte_cnt s" "ready_set (pl s0) = R"
    "nready (pl s0) = int (card R)" by (simp_all add: s0_def)
  have fin: "finite R" using R slots_invD(6) [OF pool_invD(1) [OF I]] by (auto intro: finite_subset)
  have l: "0 \<le> l" "l < int FD_SETSIZE" using slots_invD(2,3) [OF pool_invD(1) [OF I]] by simp_all
  obtain s1 where s1: "(if l \<in> R then bindB (add_client c (pl s0)) (\<lambda>p. Some (Inr (s0\<lparr>pl := p\<rparr>))) else Some (Inr s0)) = Some (Inr s1)"
    "pool_inv l (pl s1)" "net s1 = net s" "byte_cnt s1 = byte_cnt s" "ready_set (pl s1) = R" "nready (pl s1) = int (card (R - {l}))"
    "read_set (pl s1) = read_set (pl s) \<union> (if l \<in> R then {c} else {})"
  proof (cases "l \<in> R")
    case True
    then have c: "0 < c" "c < int FD_SETSIZE" "c \<notin> read_set (pl s0)" using new s0(1) by simp_all
    obtain p' where p: "add_client c (pl s0) = Some (Inr p')" "pool_inv l p'" "nready p' = int (card R) - 1" "ready_set p' = R"
      "read_set p' = insert c (read_set (pl s))"
      using add_client_ok [OF I0 c] unfolding s0 by (elim exE conjE) (rule that; assumption)
    have e: "int (card R) - 1 = int (card (R - {l}))" using card.remove [OF fin True] by simp
    show ?thesis
    proof (rule that [of "s0\<lparr>pl := p'\<rparr>"])
      show "nready (pl (s0\<lparr>pl := p'\<rparr>)) = int (card (R - {l}))" unfolding e [symmetric] using p(3) by simp
    qed (use True p(1,2,4,5) s0(2,3) in simp_all)
  next
    case False
    then show ?thesis using that [of s0] I0 s0 by simp
  qed
  have d: "due (clientfd (pl s1)) 0 (ready_set (pl s1)) = R - {l}"
    unfolding s1(5) using due_clients [OF pool_invD(1) [OF s1(2)], of R] R s1(7) by auto
  have tot: "byte_cnt s1 + int FD_SETSIZE * int MAXLINE \<le> INT_MAX" using total s1(4) by simp
  obtain s' where s': "check_loop FD_SETSIZE 0 s1 = Some (Inr s')" "pool_inv l (pl s')" "serves echoed (R - {l}) (net s1) (net s')"
    "read_set (pl s') = read_set (pl s1) - {x \<in> R - {l}. inq (net s1 x) = []}"
    using check_loop_ok [OF s1(2) add_0 _ _ tot] ready unfolding d s1(3,6) by auto
  have "server_round l R c s = Some (Inr s')"
    using s1(1) s'(1) l unfolding server_round_def Let_def s0_def [symmetric] FD_ISSET_def check_clients_def by simp
  then show ?thesis using s'(2-4) unfolding s1(3,7) by blast
qed

definition idle_sock :: sock where
  "idle_sock = \<lparr>r_ev = replicate 8192 (Moved 10), w_ev = replicate 8192 (Moved 10), inq = [CHR ''a'', CHR 0x0A], sent = [], closed = False\<rparr>"

definition zero_pool :: pool where
  "zero_pool = \<lparr>maxfd = 0, read_set = {}, ready_set = {}, nready = 0, maxi = 0, clientfd = [],
     clientrio = replicate FD_SETSIZE \<lparr>rio_cnt = 0, rio_bufptr = 0, rio_buf = replicate RIO_BUFSIZE CHR 0x00\<rparr>\<rparr>"

theorem select_round_correct_witness:
  "\<exists>p s'. init_pool 3 zero_pool = Some (Inr p) \<and>
     server_round 3 {3} 4 \<lparr>pl = p, byte_cnt = 0, net = \<lambda>_. idle_sock\<rparr> = Some (Inr s') \<and> read_set (pl s') = {3, 4}"
proof -
  obtain p where p: "init_pool 3 zero_pool = Some (Inr p)" "pool_inv 3 p"
    using init_pool_ok [of 3 zero_pool] by (auto simp: FD_SETSIZE_def zero_pool_def)
  have r: "read_set p = {3}" using p(1) by (auto simp: init_pool_def FD_SET_def zero_pool_def FD_SETSIZE_def)
  have "pool_inv 3 (pl \<lparr>pl = p, byte_cnt = 0, net = \<lambda>_. idle_sock\<rparr>)" using p(2) by simp
  from select_round_correct [OF this, of "{3}" 4] show ?thesis using p(1) r
    by (auto simp: FD_SETSIZE_def MAXLINE_def INT_MAX_def)
qed

text \<open>\<open>check_clients\<close> reads through a copy of the client's buffer and drops it: when several lines arrive
  together, the first is echoed and the others are lost, neither echoed nor left to be read.\<close>

theorem select_loses_lines:
  assumes I: "pool_inv l (pl s)" and i: "i < FD_SETSIZE" "clientfd (pl s) ! i = c" "0 < c"
    and k: "r_ev (net s c) = Moved m # es" "working MAXLINE es" "working MAXLINE (w_ev (net s c))"
    and arrived: "inq (net s c) \<noteq> []" "length (inq (net s c)) \<le> m" "length (inq (net s c)) \<le> RIO_BUFSIZE"
    and total: "byte_cnt s + int MAXLINE \<le> INT_MAX"
  shows "\<exists>s'. serve i c s = Some (Inr s') \<and> sent (net s' c) = sent (net s c) @ line_of (MAXLINE - 1) (inq (net s c)) \<and>
    inq (net s' c) = [] \<and> unread (clientrio (pl s') ! i) = []"
proof -
  let ?k = "net s c" and ?r = "clientrio (pl s) ! i"
  have "0 < m" using arrived(1,2) by (cases m) auto
  then have rdy: "ready_sock ?k" using k by (auto simp: ready_sock_def intro: working_mono)
  obtain k' p' where sv: "serve i c s = Some (Inr (s\<lparr>pl := p', byte_cnt := byte_cnt s + int (length (line_of (MAXLINE - 1) (inq ?k))),
      net := (net s)(c := k')\<rparr>))" "echoed ?k k'" "clientrio p' = clientrio (pl s)"
      "inq k' = fst (snd (snd (Rio_readlineb (r_ev ?k) MAXLINE ?r (inq ?k))))" using serve_ok [OF I i rdy total] by (elim exE conjE) (rule that; assumption)
  note D = pool_invD [OF I]
  have r: "?r \<in> set (clientrio (pl s))" using i(1) D(2) by simp
  then have r0: "rio_cnt ?r = 0" "length (rio_buf ?r) = RIO_BUFSIZE" using D(3) by auto
  let ?n = "length (inq ?k)"
  have n: "min (min m RIO_BUFSIZE) ?n = ?n" using arrived(2,3) by simp
  let ?r1 = "?r\<lparr>rio_cnt := int ?n, rio_buf := inq ?k @ drop ?n (rio_buf ?r), rio_bufptr := 0\<rparr>"
  have fill: "rio_fill (r_ev ?k) ?r (inq ?k) = (Some 1, ?r1, [], es)"
    unfolding k(1) using r0 arrived(1) n by (subst rio_fill.simps) (simp add: Let_def)
  obtain v r' t es' where ln: "Rio_readlineb (r_ev ?k) MAXLINE ?r (inq ?k) = (v, r', t, es')"
    by (cases "Rio_readlineb (r_ev ?k) MAXLINE ?r (inq ?k)") auto
  obtain v1 r1 es1 where rd: "rio_read (r_ev ?k) 1 ?r (inq ?k) = (Some (1, v1), r1, [], es1)"
    using fill arrived(1) by (auto simp: rio_read_def Let_def)
  have t: "t = []"
  proof -
    obtain v' where "rio_line (r_ev ?k) 1 MAXLINE [] ?r (inq ?k) = (v', r', t, es')"
      using ln by (auto simp: Rio_readlineb_def rio_readlineb_def split: prod.splits)
    then show ?thesis using rd rio_line_at_end
      by (subst (asm) rio_line.simps) (auto simp: MAXLINE_def split: if_splits)
  qed
  have "inq k' = []" using sv(4) ln t by simp
  then show ?thesis using sv(1-3) r0 by (simp add: echoed_def unread_def)
qed

theorem select_loses_lines_witness:
  "\<exists>p s'. pool_inv 3 p \<and> clientfd p ! 0 = 4 \<and>
     serve 0 4 \<lparr>pl = p, byte_cnt = 0, net = \<lambda>_. idle_sock\<lparr>r_ev := replicate 8193 (Moved 10), inq := [CHR ''a'', CHR 0x0A, CHR ''b'', CHR 0x0A]\<rparr>\<rparr> = Some (Inr s') \<and>
     sent (net s' 4) = [CHR ''a'', CHR 0x0A] \<and> inq (net s' 4) = []"
proof -
  obtain p0 where p0: "init_pool 3 zero_pool = Some (Inr p0)" "pool_inv 3 p0"
    using init_pool_ok [of 3 zero_pool] by (auto simp: FD_SETSIZE_def zero_pool_def)
  have r: "read_set p0 = {3}" "clientfd p0 = replicate FD_SETSIZE (-1)"
    using p0(1) by (auto simp: init_pool_def FD_SET_def zero_pool_def FD_SETSIZE_def)
  obtain p where p: "pool_inv 3 p" "clientfd p = (replicate FD_SETSIZE (-1))[free_slot (replicate FD_SETSIZE (-1)) := 4]"
    using add_client_ok [OF p0(2), of 4] r by (auto simp: FD_SETSIZE_def)
  have "replicate FD_SETSIZE (-1 :: int) = -1 # replicate 1023 (-1)" by (simp add: FD_SETSIZE_def numeral_eq_Suc)
  then have c: "clientfd p ! 0 = 4" unfolding p(2) by simp
  let ?k = "idle_sock\<lparr>r_ev := replicate 8193 (Moved 10), inq := [CHR ''a'', CHR 0x0A, CHR ''b'', CHR 0x0A]\<rparr>"
  let ?s = "\<lparr>pl = p, byte_cnt = 0, net = \<lambda>_. ?k\<rparr>"
  have e: "r_ev (net ?s 4) = Moved 10 # replicate 8192 (Moved 10)" by (simp add: replicate_Suc [symmetric])
  have "\<exists>s'. serve 0 4 ?s = Some (Inr s') \<and> sent (net s' 4) = sent (net ?s 4) @ line_of (MAXLINE - 1) (inq (net ?s 4)) \<and>
    inq (net s' 4) = [] \<and> unread (clientrio (pl s') ! 0) = []"
    by (rule select_loses_lines [OF _ _ _ _ e])
      (use p(1) c in \<open>simp_all add: FD_SETSIZE_def MAXLINE_def INT_MAX_def RIO_BUFSIZE_def working_def idle_sock_def\<close>)
  moreover have "line_of (MAXLINE - 1) (inq (net ?s 4)) = [CHR ''a'', CHR 0x0A]"
    by (simp add: MAXLINE_def numeral_eq_Suc)
  ultimately show ?thesis using p(1) c by (auto simp: idle_sock_def)
qed

text \<open>A round of the demonstration server serves every ready client once, when a write takes all bytes it
  is given: what one read returns is echoed, an ended connection is closed and forgotten, the others are not
  touched, and the scan stays inside its table.\<close>

theorem demo_round_correct:
  assumes I: "slots_inv l (dset d) (fd_list d) (max_idx d)" and R: "R \<subseteq> dset d"
    and new: "l \<in> R \<longrightarrow> 0 < c \<and> c < int FD_SETSIZE \<and> c \<notin> dset d" and ready: "\<forall>x \<in> R - {l}. demo_ready (dnet d x)"
  shows "\<exists>d'. demo_round l R c d = Some (Inr d') \<and> slots_inv l (dset d') (fd_list d') (max_idx d') \<and>
    serves demo_echoed (R - {l}) (dnet d) (dnet d') \<and>
    dset d' = (dset d \<union> (if l \<in> R then {c} else {})) - {x \<in> R - {l}. inq (dnet d x) = []}"
proof -
  have l: "0 \<le> l" "l < int FD_SETSIZE" using slots_invD(2,3) [OF I] by simp_all
  obtain d1 where d1: "(if l \<in> R then demo_accept c d else Some (Inr d)) = Some (Inr d1)"
    "slots_inv l (dset d1) (fd_list d1) (max_idx d1)" "dnet d1 = dnet d" "dset d1 = dset d \<union> (if l \<in> R then {c} else {})"
  proof (cases "l \<in> R")
    case True
    then have c: "0 < c" "c < int FD_SETSIZE" "c \<notin> dset d" using new by simp_all
    obtain d1 where "demo_accept c d = Some (Inr d1)" "slots_inv l (dset d1) (fd_list d1) (max_idx d1)"
      "dset d1 = insert c (dset d)" "dnet d1 = dnet d" using demo_accept_ok [OF I c] by (elim exE conjE) (rule that; assumption)
    then show ?thesis using that [of d1] True by simp
  next
    case False
    then show ?thesis using that [of d] I by simp
  qed
  have due: "due (fd_list d1) 0 R = R - {l}" using due_clients [OF d1(2), of R] R d1(4) by auto
  obtain d' where "demo_scan (Suc FD_SETSIZE) 0 R d1 = Some (Inr d')" "slots_inv l (dset d') (fd_list d') (max_idx d')"
    "serves demo_echoed (R - {l}) (dnet d) (dnet d')" "dset d' = dset d1 - {x \<in> R - {l}. inq (dnet d x) = []}"
    using demo_scan_ok [OF d1(2) add_0, of R, unfolded due d1(3), OF ready] by (elim exE conjE) (rule that; assumption)
  then show ?thesis using d1(1,3,4) l unfolding demo_round_def FD_ISSET_def by (simp del: demo_scan.simps)
qed

theorem demo_round_correct_witness:
  "\<exists>d d'. demo_init 3 (\<lambda>_. idle_sock) = Some (Inr d) \<and> demo_round 3 {3} 4 d = Some (Inr d') \<and> dset d' = {3, 4}"
proof -
  let ?d = "\<lparr>dset = {3}, fd_list = replicate FD_SETSIZE (-1), max_idx = -1, dnet = \<lambda>_. idle_sock\<rparr>"
  have i: "demo_init 3 (\<lambda>_. idle_sock) = Some (Inr ?d)" by (simp add: demo_init_def FD_SET_def FD_SETSIZE_def)
  have "slots_inv 3 (dset ?d) (fd_list ?d) (max_idx ?d)" by (simp add: slots_inv_def FD_SETSIZE_def)
  from demo_round_correct [OF this, of "{3}" 4] show ?thesis using i by (auto simp: FD_SETSIZE_def)
qed

text \<open>The demonstration server does not check \<open>accept\<close>: when it fails, the descriptor -1 goes into the
  descriptor set, which is undefined.\<close>

theorem demo_accept_unchecked:
  assumes "0 \<le> l" "l < int FD_SETSIZE" "l \<in> R"
  shows "demo_round l R (-1) d = Some (Inl UB)"
  using assms by (simp add: demo_round_def demo_accept_def FD_ISSET_def FD_SET_def)

theorem demo_accept_unchecked_witness:
  "demo_round 3 {3} (-1) \<lparr>dset = {3}, fd_list = replicate FD_SETSIZE (-1), max_idx = -1, dnet = \<lambda>_. idle_sock\<rparr> = Some (Inl UB)"
  by (rule demo_accept_unchecked) (simp_all add: FD_SETSIZE_def)

end
