(* ===== verification/Poll_Chat.thy ===== *)
theory Poll_Chat
  imports Sock_Net Cpp_Text
begin

text \<open>
  The chat program in C of src/cplusplus/concurrent/code/base\_io\_multiplexing/chat\_poll.c: the server, which
  multiplexes its listener and at most 64 clients with \<open>poll\<close> over a fixed array, the client, and the port
  argument.

  What \<open>poll\<close> reports and what \<open>accept\<close> returns are arguments of a round; \<open>poll\<close> reports nothing for negative
  descriptors.  \<open>revents\<close> is kept as two flags, \<open>POLLIN\<close> and one of \<open>POLLHUP\<close>, \<open>POLLERR\<close>, \<open>POLLNVAL\<close>.
\<close>

section \<open>The server\<close>

definition MAX_CLIENTS :: nat where "MAX_CLIENTS = 64"

definition LINE_SIZE :: nat where "LINE_SIZE = 2048"

record pollfd =
  pfd :: fd
  pin :: bool
  perr :: bool

record chat =
  fds :: "pollfd list"
  cnet :: "fd \<Rightarrow> sock"

definition chat_init :: "fd \<Rightarrow> (fd \<Rightarrow> sock) \<Rightarrow> chat" where
  "chat_init l n =
     \<lparr>fds = \<lparr>pfd = l, pin = False, perr = False\<rparr> # replicate MAX_CLIENTS \<lparr>pfd = -1, pin = False, perr = False\<rparr>, cnet = n\<rparr>"

text \<open>The loop that sends to one client: the bytes sent, and whether the client is given up.\<close>

fun send_loop :: "io_ev list \<Rightarrow> string \<Rightarrow> (string \<times> bool \<times> io_ev list) option" where
  "send_loop es [] = Some ([], False, es)"
| "send_loop [] (b # bs) = None"
| "send_loop (Interrupted # es) (b # bs) = send_loop es (b # bs)"
| "send_loop (Failed # es) (b # bs) = Some ([], True, es)"
| "send_loop (Moved k # es) (b # bs) =
     (if k = 0 then Some ([], False, es)
      else map_option (\<lambda>(out, failed, es). (take k (b # bs) @ out, failed, es)) (send_loop es (drop k (b # bs))))"

definition close_client :: "nat \<Rightarrow> chat \<Rightarrow> chat" where
  "close_client i s =
     (let c = pfd (fds s ! i) in
      s\<lparr>fds := (fds s)[i := (fds s ! i)\<lparr>pfd := -1\<rparr>], cnet := (cnet s)(c := (cnet s c)\<lparr>closed := True\<rparr>)\<rparr>)"

definition send_to :: "nat \<Rightarrow> string \<Rightarrow> chat \<Rightarrow> chat option" where
  "send_to i data s =
     (let c = pfd (fds s ! i); k = cnet s c in
      map_option (\<lambda>(out, failed, es).
        let s = s\<lparr>cnet := (cnet s)(c := k\<lparr>w_ev := es, sent := sent k @ out\<rparr>)\<rparr> in
        if failed then close_client i s else s) (send_loop (w_ev k) data))"

fun broadcast_from :: "nat \<Rightarrow> nat \<Rightarrow> nat \<Rightarrow> string \<Rightarrow> chat \<Rightarrow> chat option" where
  "broadcast_from 0 i from data s = Some s"
| "broadcast_from (Suc left) i from data s =
     (if pfd (fds s ! i) \<ge> 0 \<and> i \<noteq> from
      then Option.bind (send_to i data s) (broadcast_from left (i + 1) from data)
      else broadcast_from left (i + 1) from data s)"

definition broadcast :: "nat \<Rightarrow> string \<Rightarrow> chat \<Rightarrow> chat option" where
  "broadcast from data s = broadcast_from MAX_CLIENTS 1 from data s"

text \<open>The first free entry from position \<open>i\<close> on, or \<open>MAX_CLIENTS + 1\<close>.\<close>

fun free_entry :: "nat \<Rightarrow> nat \<Rightarrow> pollfd list \<Rightarrow> nat" where
  "free_entry 0 i ps = i"
| "free_entry (Suc left) i ps = (if pfd (ps ! i) < 0 then i else free_entry left (i + 1) ps)"

definition joined :: "fd \<Rightarrow> string" where
  "joined c = ''[user '' @ show_int c @ '' joined]'' @ [CHR 0x0A]"

text \<open>\<open>True\<close> in the second place: the round ends with \<open>continue\<close>.\<close>

definition accept_client :: "fd \<Rightarrow> chat \<Rightarrow> (chat \<times> bool) option" where
  "accept_client c s =
     (if c \<ge> 0 then
        let i = free_entry MAX_CLIENTS 1 (fds s) in
        if i > MAX_CLIENTS then Some (s\<lparr>cnet := (cnet s)(c := (cnet s c)\<lparr>closed := True\<rparr>)\<rparr>, True)
        else map_option (\<lambda>s. (s, False))
          (broadcast 0 (joined c) (s\<lparr>fds := (fds s)[i := \<lparr>pfd = c, pin = False, perr = False\<rparr>]\<rparr>))
      else Some (s, False))"

text \<open>The value of \<open>recv\<close>: at most \<open>LINE_SIZE\<close> bytes; an empty result stands for 0 and for an error, which the
  code treats alike.\<close>

definition recv_some :: "sock \<Rightarrow> (string \<times> sock) option" where
  "recv_some k = (case r_ev k of
     [] \<Rightarrow> None
   | Moved m # es \<Rightarrow>
       let n = min (min m LINE_SIZE) (length (inq k)) in Some (take n (inq k), k\<lparr>r_ev := es, inq := drop n (inq k)\<rparr>)
   | e # es \<Rightarrow> Some ([], k\<lparr>r_ev := es\<rparr>))"

definition client_event :: "nat \<Rightarrow> chat \<Rightarrow> chat option" where
  "client_event i s =
     (let p = fds s ! i; c = pfd p in
      if c \<ge> 0 \<and> (pin p \<or> perr p) then
        (if perr p then Some (close_client i s)
         else Option.bind (recv_some (cnet s c)) (\<lambda>(b, k).
           let s = s\<lparr>cnet := (cnet s)(c := k)\<rparr> in
           if b = [] then Some (close_client i s) else broadcast i b s))
      else Some s)"

fun scan_clients :: "nat \<Rightarrow> nat \<Rightarrow> chat \<Rightarrow> chat option" where
  "scan_clients 0 i s = Some s"
| "scan_clients (Suc left) i s = Option.bind (client_event i s) (scan_clients left (i + 1))"

datatype poll_ret = Polled "(bool \<times> bool) list" | PollIntr | PollErr

datatype verdict = Continue chat | Return int

definition set_revents :: "(bool \<times> bool) list \<Rightarrow> pollfd list \<Rightarrow> pollfd list" where
  "set_revents rv ps = map2 (\<lambda>(a, b) p. p\<lparr>pin := a \<and> pfd p \<ge> 0, perr := b \<and> pfd p \<ge> 0\<rparr>) rv ps"

definition server_round :: "poll_ret \<Rightarrow> fd \<Rightarrow> chat \<Rightarrow> verdict option" where
  "server_round r c s = (case r of
     PollIntr \<Rightarrow> Some (Continue s)
   | PollErr \<Rightarrow> Some (Return 1)
   | Polled rv \<Rightarrow>
       let s = s\<lparr>fds := set_revents rv (fds s)\<rparr> in
       Option.bind (if pin (fds s ! 0) then accept_client c s else Some (s, False)) (\<lambda>(s, skip).
       if skip then Some (Continue s) else map_option Continue (scan_clients MAX_CLIENTS 1 s)))"

section \<open>The client\<close>

text \<open>Standard input is \<open>inq\<close> of \<open>tty\<close>, standard output its \<open>sent\<close>; \<open>typing\<close> tells that standard input is still
  polled, \<open>half_closed\<close> that the sending direction is shut down.\<close>

record chat_client =
  tty :: sock
  srv :: sock
  typing :: bool
  half_closed :: bool

datatype client_verdict = Go chat_client | Leave int chat_client

text \<open>Writing to standard output gives up on an error or on 0 bytes, sending to the server only on an error.\<close>

fun put_loop :: "io_ev list \<Rightarrow> string \<Rightarrow> (string \<times> io_ev list) option" where
  "put_loop es [] = Some ([], es)"
| "put_loop [] (b # bs) = None"
| "put_loop (Interrupted # es) (b # bs) = put_loop es (b # bs)"
| "put_loop (Failed # es) (b # bs) = Some ([], es)"
| "put_loop (Moved k # es) (b # bs) =
     (if k = 0 then Some ([], es) else map_option (\<lambda>(out, es). (take k (b # bs) @ out, es)) (put_loop es (drop k (b # bs))))"

fun client_send :: "io_ev list \<Rightarrow> string \<Rightarrow> (string \<times> bool \<times> io_ev list) option" where
  "client_send es [] = Some ([], False, es)"
| "client_send [] (b # bs) = None"
| "client_send (Interrupted # es) (b # bs) = client_send es (b # bs)"
| "client_send (Failed # es) (b # bs) = Some ([], True, es)"
| "client_send (Moved k # es) (b # bs) =
     map_option (\<lambda>(out, failed, es). (take k (b # bs) @ out, failed, es)) (client_send es (drop k (b # bs)))"

text \<open>The part of a round for the server's socket, and the part for standard input.\<close>

definition from_server :: "chat_client \<Rightarrow> client_verdict option" where
  "from_server s =
     Option.bind (recv_some (srv s)) (\<lambda>(b, k).
     if b = [] then Some (Leave 0 (s\<lparr>srv := k\<lparr>closed := True\<rparr>\<rparr>))
     else map_option (\<lambda>(out, es). Go (s\<lparr>srv := k, tty := (tty s)\<lparr>w_ev := es, sent := sent (tty s) @ out\<rparr>\<rparr>))
       (put_loop (w_ev (tty s)) b))"

definition from_tty :: "chat_client \<Rightarrow> client_verdict option" where
  "from_tty s =
     Option.bind (recv_some (tty s)) (\<lambda>(b, t).
     if b = [] then Some (Go (s\<lparr>tty := t, typing := False, half_closed := True\<rparr>))
     else map_option (\<lambda>(out, failed, es).
       let k = (srv s)\<lparr>w_ev := es, sent := sent (srv s) @ out\<rparr> in
       if failed then Leave 1 (s\<lparr>tty := t, srv := k\<lparr>closed := True\<rparr>\<rparr>) else Go (s\<lparr>tty := t, srv := k\<rparr>))
       (client_send (w_ev (srv s)) b))"

text \<open>\<open>t_in\<close>: standard input is readable; \<open>s_in\<close>, \<open>s_err\<close>: the socket is readable, hung up or in error.\<close>

definition client_round :: "bool \<Rightarrow> bool \<Rightarrow> bool \<Rightarrow> chat_client \<Rightarrow> client_verdict option" where
  "client_round t_in s_in s_err s =
     (if s_err then Some (Leave 0 (s\<lparr>srv := (srv s)\<lparr>closed := True\<rparr>\<rparr>))
      else Option.bind (if s_in then from_server s else Some (Go s)) (\<lambda>v. case v of
        Leave n s \<Rightarrow> Some (Leave n s)
      | Go s \<Rightarrow> if t_in \<and> typing s then from_tty s else Some (Go s)))"

section \<open>The port argument\<close>

text \<open>\<open>strtoul(s, &e, 10)\<close>: white space, a sign, digits; a negative number is negated modulo $2^{64}$, a value out
  of range gives \<open>ULONG_MAX\<close>.  Without digits nothing is consumed.\<close>

definition ULONG_MAX :: nat where "ULONG_MAX = 2 ^ 64 - 1"

definition strtoul :: "string \<Rightarrow> nat \<times> string" where
  "strtoul s =
     (let s1 = dropWhile is_space s;
          neg = (s1 \<noteq> [] \<and> hd s1 = CHR ''-'');
          s2 = (if s1 \<noteq> [] \<and> (hd s1 = CHR ''-'' \<or> hd s1 = CHR ''+'') then tl s1 else s1);
          ds = takeWhile is_digit s2; n = parse_nat ds
      in if ds = [] then (0, s)
         else (if n > ULONG_MAX then ULONG_MAX else if neg then (2 ^ 64 - n) mod 2 ^ 64 else n, dropWhile is_digit s2))"

definition port_arg :: "string \<Rightarrow> u16 option" where
  "port_arg s = (let (n, e) = strtoul s in if s = [] \<or> e \<noteq> [] \<or> n > 65535 then None else Some (word_of_nat n))"

section \<open>Broadcasts\<close>

definition chat_inv :: "fd \<Rightarrow> chat \<Rightarrow> bool" where
  "chat_inv l s \<longleftrightarrow> length (fds s) = Suc MAX_CLIENTS \<and> pfd (fds s ! 0) = l \<and> 0 \<le> l \<and>
     (\<forall>i < Suc MAX_CLIENTS. \<forall>j < Suc MAX_CLIENTS. pfd (fds s ! i) = pfd (fds s ! j) \<and> 0 \<le> pfd (fds s ! i) \<longrightarrow> i = j) \<and>
     (\<forall>i < Suc MAX_CLIENTS. 0 \<le> pfd (fds s ! i) \<longrightarrow> \<not> closed (cnet s (pfd (fds s ! i))))"

lemma chat_invD:
  assumes "chat_inv l s"
  shows "length (fds s) = Suc MAX_CLIENTS" "pfd (fds s ! 0) = l" "0 \<le> l"
    "\<forall>i < Suc MAX_CLIENTS. \<forall>j < Suc MAX_CLIENTS. pfd (fds s ! i) = pfd (fds s ! j) \<and> 0 \<le> pfd (fds s ! i) \<longrightarrow> i = j"
    "\<forall>i < Suc MAX_CLIENTS. 0 \<le> pfd (fds s ! i) \<longrightarrow> \<not> closed (cnet s (pfd (fds s ! i)))"
  using assms unfolding chat_inv_def by blast+

text \<open>A change at the socket of client \<open>i\<close>, and giving up client \<open>i\<close>.\<close>

lemma chat_other:
  assumes "chat_inv l s" "i < Suc MAX_CLIENTS" "0 \<le> pfd (fds s ! i)" "j < Suc MAX_CLIENTS" "j \<noteq> i"
  shows "pfd (fds s ! j) \<noteq> pfd (fds s ! i)"
  using chat_invD(4) [OF assms(1)] assms(2-5) by metis

lemma chat_inv_sock:
  assumes I: "chat_inv l s" and i: "i < Suc MAX_CLIENTS" "0 \<le> pfd (fds s ! i)" and k: "\<not> closed k"
  shows "chat_inv l (s\<lparr>cnet := (cnet s)(pfd (fds s ! i) := k)\<rparr>)"
  using chat_invD [OF I] k by (simp add: chat_inv_def)

lemma chat_inv_drop:
  assumes I: "chat_inv l s" and i: "0 < i" "i < Suc MAX_CLIENTS" "0 \<le> pfd (fds s ! i)"
  shows "chat_inv l (s\<lparr>cnet := (cnet s)(pfd (fds s ! i) := k), fds := (fds s)[i := (fds s ! i)\<lparr>pfd := -1\<rparr>]\<rparr>)"
proof -
  note D = chat_invD [OF I]
  let ?f = "(fds s)[i := (fds s ! i)\<lparr>pfd := -1\<rparr>]"
  have f: "pfd (?f ! j) = (if j = i then -1 else pfd (fds s ! j))" for j using D(1) i(2) by (cases "j = i") simp_all
  have "\<forall>a < Suc MAX_CLIENTS. \<forall>b < Suc MAX_CLIENTS. pfd (?f ! a) = pfd (?f ! b) \<and> 0 \<le> pfd (?f ! a) \<longrightarrow> a = b"
    unfolding f using D(4) by simp
  moreover have "\<forall>a < Suc MAX_CLIENTS. 0 \<le> pfd (?f ! a) \<longrightarrow> \<not> closed (((cnet s)(pfd (fds s ! i) := k)) (pfd (?f ! a)))"
    unfolding f using D(5) chat_other [OF I i(2,3)] by simp
  ultimately show ?thesis unfolding chat_inv_def using D(1-3) i(1) by simp
qed

text \<open>The clients a broadcast still has to reach from position \<open>i\<close> on.\<close>

definition rcpt :: "nat \<Rightarrow> nat \<Rightarrow> chat \<Rightarrow> nat \<Rightarrow> bool" where
  "rcpt i from s j \<longleftrightarrow> i \<le> j \<and> j < Suc MAX_CLIENTS \<and> j \<noteq> from \<and> 0 \<le> pfd (fds s ! j)"

definition sent_rel :: "string \<Rightarrow> sock \<Rightarrow> sock \<Rightarrow> bool" where
  "sent_rel data k k' \<longleftrightarrow> (\<exists>out failed es. send_loop (w_ev k) data = Some (out, failed, es) \<and>
     k' = k\<lparr>w_ev := es, sent := sent k @ out, closed := closed k \<or> failed\<rparr>)"

definition gives_up :: "string \<Rightarrow> sock \<Rightarrow> bool" where
  "gives_up data k \<longleftrightarrow> (\<exists>out es. send_loop (w_ev k) data = Some (out, True, es))"

lemma broadcast_from_ok:
  "chat_inv l s \<Longrightarrow> i + left = Suc MAX_CLIENTS \<Longrightarrow> 0 < i \<Longrightarrow>
   \<forall>j. rcpt i from s j \<longrightarrow> send_loop (w_ev (cnet s (pfd (fds s ! j)))) data \<noteq> None \<Longrightarrow>
   \<exists>s'. broadcast_from left i from data s = Some s' \<and> chat_inv l s' \<and>
     serves (sent_rel data) {pfd (fds s ! j) | j. rcpt i from s j} (cnet s) (cnet s') \<and>
     (\<forall>j < Suc MAX_CLIENTS. fds s' ! j =
        (if rcpt i from s j \<and> gives_up data (cnet s (pfd (fds s ! j))) then (fds s ! j)\<lparr>pfd := -1\<rparr> else fds s ! j))"
proof (induction left arbitrary: i s)
  case 0
  then show ?case by (auto simp: rcpt_def serves_def)
next
  case (Suc left)
  note D = chat_invD [OF Suc.prems(1)]
  have i: "i < Suc MAX_CLIENTS" "i < length (fds s)" using Suc.prems(2) D(1) by simp_all
  let ?c = "pfd (fds s ! i)"
  show ?case
  proof (cases "0 \<le> ?c \<and> i \<noteq> from")
    case False
    have rc: "rcpt i from s j \<longleftrightarrow> rcpt (Suc i) from s j" for j
      using False by (auto simp: rcpt_def Suc_le_eq order.order_iff_strict)
    have "broadcast_from (Suc left) i from data s = broadcast_from left (Suc i) from data s" using False by auto
    then show ?thesis unfolding rc using Suc.IH [OF Suc.prems(1), of "Suc i"] Suc.prems(2-4) unfolding rc by simp
  next
    case True
    have ri: "rcpt i from s i" using True i by (simp add: rcpt_def)
    obtain out failed es where sl: "send_loop (w_ev (cnet s ?c)) data = Some (out, failed, es)"
      using Suc.prems(4) ri by (cases "send_loop (w_ev (cnet s ?c)) data") auto
    let ?k = "(cnet s ?c)\<lparr>w_ev := es, sent := sent (cnet s ?c) @ out, closed := closed (cnet s ?c) \<or> failed\<rparr>"
    define s1 where "s1 = s\<lparr>cnet := (cnet s)(?c := ?k), fds := (if failed then (fds s)[i := (fds s ! i)\<lparr>pfd := -1\<rparr>] else fds s)\<rparr>"
    have step: "send_to i data s = Some s1"
      using sl by (simp add: send_to_def s1_def close_client_def Let_def)
    have f1: "fds s1 ! j = (if j = i \<and> failed then (fds s ! i)\<lparr>pfd := -1\<rparr> else fds s ! j)" for j
      using i(2) by (cases "j = i") (simp_all add: s1_def)
    have n1: "cnet s1 = (cnet s)(?c := ?k)" by (simp add: s1_def)
    have other: "pfd (fds s ! j) \<noteq> ?c" if "j < Suc MAX_CLIENTS" "j \<noteq> i" for j
      using D(4) True i(1) that by (metis)
    have inv1: "chat_inv l s1"
      using chat_inv_drop [OF Suc.prems(1,3) i(1), of ?k] chat_inv_sock [OF Suc.prems(1) i(1), of ?k] True D(5) i(1)
      by (cases failed) (simp_all add: s1_def)
    have rc: "rcpt i from s j \<longleftrightarrow> j = i \<or> rcpt (Suc i) from s1 j" for j
      using True i unfolding rcpt_def f1 by (auto simp: Suc_le_eq order.order_iff_strict)
    have rne: "j \<noteq> i" "j < Suc MAX_CLIENTS" if "rcpt (Suc i) from s1 j" for j using that by (simp_all add: rcpt_def)
    have "\<forall>j. rcpt (Suc i) from s1 j \<longrightarrow> send_loop (w_ev (cnet s1 (pfd (fds s1 ! j)))) data \<noteq> None"
      using Suc.prems(4) rc rne other by (simp add: f1 n1)
    then obtain s' where s': "broadcast_from left (Suc i) from data s1 = Some s'" "chat_inv l s'"
      "serves (sent_rel data) {pfd (fds s1 ! j) | j. rcpt (Suc i) from s1 j} (cnet s1) (cnet s')"
      "\<forall>j < Suc MAX_CLIENTS. fds s' ! j =
        (if rcpt (Suc i) from s1 j \<and> gives_up data (cnet s1 (pfd (fds s1 ! j))) then (fds s1 ! j)\<lparr>pfd := -1\<rparr> else fds s1 ! j)"
      using Suc.IH [OF inv1, of "Suc i"] Suc.prems(2) by auto
    let ?C1 = "{pfd (fds s1 ! j) | j. rcpt (Suc i) from s1 j}"
    have C: "{pfd (fds s ! j) | j. rcpt i from s j} = insert ?c ?C1" unfolding rc using rne by (auto simp: f1)
    have "?c \<notin> ?C1" using rne other by (fastforce simp: f1)
    moreover have "sent_rel data (cnet s ?c) ?k" using sl by (auto simp: sent_rel_def)
    ultimately have srv: "serves (sent_rel data) (insert ?c ?C1) (cnet s) (cnet s')"
      using serves_insert [OF s'(3) [unfolded n1]] by blast
    have fin: "fds s' ! j = (if rcpt i from s j \<and> gives_up data (cnet s (pfd (fds s ! j))) then (fds s ! j)\<lparr>pfd := -1\<rparr> else fds s ! j)"
      if j: "j < Suc MAX_CLIENTS" for j
    proof (cases "j = i")
      case True
      then show ?thesis using s'(4) i(1) ri sl rne by (auto simp: f1 gives_up_def)
    next
      case False
      then show ?thesis using s'(4) j rc other [OF j False] by (auto simp: f1 n1)
    qed
    show ?thesis unfolding C using s'(1,2) srv fin step True by simp
  qed
qed

section \<open>A round without failures\<close>

abbreviation sk :: "chat \<Rightarrow> nat \<Rightarrow> sock" where
  "sk s j \<equiv> cnet s (pfd (fds s ! j))"

abbreviation live :: "chat \<Rightarrow> nat \<Rightarrow> bool" where
  "live s j \<equiv> 0 < j \<and> j < Suc MAX_CLIENTS \<and> 0 \<le> pfd (fds s ! j)"

lemma send_loop_ok:
  "working (length bs + m) es \<Longrightarrow> \<exists>es'. send_loop es bs = Some (bs, False, es') \<and> working m es'"
proof (induction es bs rule: send_loop.induct)
  case (5 k es b bs)
  then have k: "0 < k" and w: "working (length (b # bs) + m - 1) es" by simp_all
  have "working (length (drop k (b # bs)) + m) es" using working_mono [OF w] k by simp
  from "5.IH" [OF _ this] k obtain es' where "send_loop es (drop k (b # bs)) = Some (drop k (b # bs), False, es')" "working m es'"
    by auto
  then show ?case using k append_take_drop_id [of k "b # bs"]
    by (intro exI [of _ es']) (simp only: send_loop.simps option.map prod.case if_False not_gr_zero; simp)
qed (auto dest: working_mono)

lemma sock_not_closed: "\<not> closed k \<Longrightarrow> k\<lparr>w_ev := e, sent := t, closed := False\<rparr> = k\<lparr>w_ev := e, sent := t\<rparr>"
  by (cases k) simp

lemma broadcast_healthy:
  assumes I: "chat_inv l s" and w: "\<forall>j. live s j \<and> j \<noteq> from \<longrightarrow> working (length data + m) (w_ev (sk s j))"
  shows "\<exists>s'. broadcast from data s = Some s' \<and> chat_inv l s' \<and> fds s' = fds s \<and>
    (\<forall>j. live s j \<and> j \<noteq> from \<longrightarrow> (\<exists>es. sk s' j = (sk s j)\<lparr>w_ev := es, sent := sent (sk s j) @ data\<rparr> \<and> working m es)) \<and>
    (\<forall>c. (\<forall>j. live s j \<and> j \<noteq> from \<longrightarrow> c \<noteq> pfd (fds s ! j)) \<longrightarrow> cnet s' c = cnet s c)"
proof -
  have rc: "rcpt 1 from s j \<longleftrightarrow> live s j \<and> j \<noteq> from" for j by (auto simp: rcpt_def)
  have sl: "\<exists>es. send_loop (w_ev (sk s j)) data = Some (data, False, es) \<and> working m es" if "live s j \<and> j \<noteq> from" for j
    using w that by (intro send_loop_ok) blast
  have none: "\<forall>j. rcpt 1 from s j \<longrightarrow> send_loop (w_ev (sk s j)) data \<noteq> None" unfolding rc using sl by fastforce
  obtain s' where s': "broadcast_from MAX_CLIENTS 1 from data s = Some s'" "chat_inv l s'"
    "serves (sent_rel data) {pfd (fds s ! j) | j. rcpt 1 from s j} (cnet s) (cnet s')"
    "\<forall>j < Suc MAX_CLIENTS. fds s' ! j =
        (if rcpt 1 from s j \<and> gives_up data (sk s j) then (fds s ! j)\<lparr>pfd := -1\<rparr> else fds s ! j)"
    using broadcast_from_ok [OF I _ zero_less_one none] by auto
  have "\<not> (rcpt 1 from s j \<and> gives_up data (sk s j))" for j unfolding rc gives_up_def using sl by fastforce
  then have f: "fds s' = fds s" using s'(4) chat_invD(1) [OF s'(2)] chat_invD(1) [OF I] by (intro nth_equalityI) auto
  have "\<exists>es. sk s' j = (sk s j)\<lparr>w_ev := es, sent := sent (sk s j) @ data\<rparr> \<and> working m es" if j: "live s j \<and> j \<noteq> from" for j
  proof -
    have "sent_rel data (sk s j) (sk s' j)" using s'(3) j unfolding serves_def f rc by blast
    then show ?thesis using sl [OF j] chat_invD(5) [OF I] j by (auto simp: sent_rel_def sock_not_closed)
  qed
  moreover have "cnet s' c = cnet s c" if "\<forall>j. live s j \<and> j \<noteq> from \<longrightarrow> c \<noteq> pfd (fds s ! j)" for c
    using s'(3) that unfolding serves_def rc by blast
  ultimately show ?thesis using s'(1,2) f by (simp add: broadcast_def)
qed

text \<open>What one \<open>recv\<close> returns, and the message of client \<open>i\<close> in this round.\<close>

definition chunk :: "sock \<Rightarrow> string" where
  "chunk k = (case r_ev k of Moved m # es \<Rightarrow> take (min m LINE_SIZE) (inq k) | _ \<Rightarrow> [])"

lemma chunk_frame [simp]: "chunk (k\<lparr>w_ev := es, sent := t\<rparr>) = chunk k"
  by (auto simp: chunk_def split: list.splits io_ev.splits)

definition message :: "chat \<Rightarrow> nat \<Rightarrow> string" where
  "message s i = (if 0 \<le> pfd (fds s ! i) \<and> pin (fds s ! i) then chunk (sk s i) else [])"

lemma take_min_length: "take (min n (length xs)) xs = take n xs"
  by (simp add: min_def)

lemma recv_some_chunk:
  assumes "chunk k \<noteq> []"
  shows "\<exists>es n. recv_some k = Some (chunk k, k\<lparr>r_ev := es, inq := drop n (inq k)\<rparr>)" "length (chunk k) \<le> LINE_SIZE"
proof -
  obtain m es where e: "r_ev k = Moved m # es" "chunk k = take (min m LINE_SIZE) (inq k)"
    using assms by (auto simp: chunk_def split: list.splits io_ev.splits)
  let ?n = "min (min m LINE_SIZE) (length (inq k))"
  have "take ?n (inq k) = chunk k" unfolding e(2) by (rule take_min_length)
  then have "recv_some k = Some (chunk k, k\<lparr>r_ev := es, inq := drop ?n (inq k)\<rparr>)" by (simp add: recv_some_def e(1) Let_def)
  then show "\<exists>es n. recv_some k = Some (chunk k, k\<lparr>r_ev := es, inq := drop n (inq k)\<rparr>)" by (intro exI)
  show "length (chunk k) \<le> LINE_SIZE" using e(2) by simp
qed

definition healthy :: "nat \<Rightarrow> nat \<Rightarrow> chat \<Rightarrow> bool" where
  "healthy n i s \<longleftrightarrow> (\<forall>j. live s j \<longrightarrow> working n (w_ev (sk s j)) \<and>
     (i \<le> j \<longrightarrow> \<not> perr (fds s ! j) \<and> (pin (fds s ! j) \<longrightarrow> chunk (sk s j) \<noteq> [])))"

lemma client_event_healthy:
  assumes I: "chat_inv l s" and i: "0 < i" "i < Suc MAX_CLIENTS" and h: "healthy (LINE_SIZE + m) i s"
  shows "\<exists>s'. client_event i s = Some s' \<and> chat_inv l s' \<and> fds s' = fds s \<and> healthy m (Suc i) s' \<and>
    (\<forall>j. live s j \<longrightarrow> sent (sk s' j) = sent (sk s j) @ (if j = i then [] else message s i) \<and>
       (j \<noteq> i \<longrightarrow> chunk (sk s' j) = chunk (sk s j)))"
proof (cases "0 \<le> pfd (fds s ! i) \<and> pin (fds s ! i)")
  case False
  have "\<not> (0 \<le> pfd (fds s ! i) \<and> (pin (fds s ! i) \<or> perr (fds s ! i)))" using h False i by (auto simp: healthy_def)
  then have "client_event i s = Some s" by (simp only: client_event_def Let_def if_False)
  moreover have "healthy m (Suc i) s" using h by (auto simp: healthy_def intro: working_mono)
  moreover have "message s i = []" using False by (auto simp: message_def)
  ultimately show ?thesis using I by simp
next
  case True
  let ?c = "pfd (fds s ! i)"
  have li: "live s i" using True i by simp
  have ne: "chunk (sk s i) \<noteq> []" "\<not> perr (fds s ! i)" using h li True by (simp_all add: healthy_def)
  obtain es n where rv: "recv_some (sk s i) = Some (chunk (sk s i), (sk s i)\<lparr>r_ev := es, inq := drop n (inq (sk s i))\<rparr>)"
    using recv_some_chunk(1) [OF ne(1)] by blast
  let ?k = "(sk s i)\<lparr>r_ev := es, inq := drop n (inq (sk s i))\<rparr>" and ?data = "chunk (sk s i)"
  define s1 where "s1 = s\<lparr>cnet := (cnet s)(?c := ?k)\<rparr>"
  have f1: "fds s1 = fds s" by (simp add: s1_def)
  have other: "pfd (fds s ! j) \<noteq> ?c" if "live s j" "j \<noteq> i" for j using chat_other [OF I i(2)] True that by blast
  have k1: "sk s1 j = (if j = i then ?k else sk s j)" if "live s j" for j using other [OF that] by (simp add: s1_def)
  have "\<not> closed (sk s i)" using chat_invD(5) [OF I] i True by blast
  then have I1: "chat_inv l s1" unfolding s1_def using True i by (intro chat_inv_sock [OF I]) simp_all
  have w1: "\<forall>j. live s1 j \<and> j \<noteq> i \<longrightarrow> working (length ?data + m) (w_ev (sk s1 j))"
  proof (intro allI impI)
    fix j assume j: "live s1 j \<and> j \<noteq> i"
    then have w: "working (LINE_SIZE + m) (w_ev (sk s j))" using h f1 by (simp add: healthy_def)
    have "working (length ?data + m) (w_ev (sk s j))" using recv_some_chunk(2) [OF ne(1)] by (intro working_mono [OF w]) simp
    then show "working (length ?data + m) (w_ev (sk s1 j))" using j k1 f1 by simp
  qed
  obtain s' where s': "broadcast i ?data s1 = Some s'" "chat_inv l s'" "fds s' = fds s1"
    "\<forall>j. live s1 j \<and> j \<noteq> i \<longrightarrow> (\<exists>es. sk s' j = (sk s1 j)\<lparr>w_ev := es, sent := sent (sk s1 j) @ ?data\<rparr> \<and> working m es)"
    "\<forall>c. (\<forall>j. live s1 j \<and> j \<noteq> i \<longrightarrow> c \<noteq> pfd (fds s1 ! j)) \<longrightarrow> cnet s' c = cnet s1 c"
    using broadcast_healthy [OF I1 w1] by (elim exE conjE) (rule that; assumption)
  have "Option.bind (recv_some (sk s i)) (\<lambda>(b, k). let s = s\<lparr>cnet := (cnet s)(?c := k)\<rparr> in
      if b = [] then Some (close_client i s) else broadcast i b s) = Some s'"
    unfolding rv bind.bind_lunit Let_def prod.case s1_def [symmetric] using ne(1) s'(1) by (simp only: if_False)
  then have ev: "client_event i s = Some s'"
    unfolding client_event_def Let_def using True ne(2) by (simp only: if_True if_False simp_thms)
  have "\<forall>j. live s1 j \<and> j \<noteq> i \<longrightarrow> ?c \<noteq> pfd (fds s1 ! j)" unfolding f1 using other by metis
  then have "cnet s' ?c = cnet s1 ?c" using s'(5) by blast
  then have ki: "sk s' i = ?k" using k1 [OF li] unfolding s'(3) f1 by simp
  have kj: "\<exists>es. sk s' j = (sk s j)\<lparr>w_ev := es, sent := sent (sk s j) @ ?data\<rparr> \<and> working m es" if "live s j" "j \<noteq> i" for j
  proof -
    have "live s1 j \<and> j \<noteq> i" using that f1 by simp
    then obtain es where "sk s' j = (sk s1 j)\<lparr>w_ev := es, sent := sent (sk s1 j) @ ?data\<rparr>" "working m es" using s'(4) by blast
    moreover have "sk s1 j = sk s j" using k1 [OF that(1)] that(2) by simp
    ultimately show ?thesis by (intro exI [of _ es]) simp
  qed
  have "healthy m (Suc i) s'" unfolding healthy_def s'(3) f1
  proof (intro allI impI)
    fix j assume j: "live s j"
    show "working m (w_ev (cnet s' (pfd (fds s ! j)))) \<and> (Suc i \<le> j \<longrightarrow> \<not> perr (fds s ! j) \<and>
        (pin (fds s ! j) \<longrightarrow> chunk (cnet s' (pfd (fds s ! j))) \<noteq> []))"
    proof (cases "j = i")
      case True
      then show ?thesis using ki h li s'(3) f1 by (auto simp: healthy_def intro: working_mono)
    next
      case False
      then show ?thesis using kj [OF j False] h j s'(3) f1 by (auto simp: healthy_def)
    qed
  qed
  moreover have "\<forall>j. live s j \<longrightarrow> sent (sk s' j) = sent (sk s j) @ (if j = i then [] else message s i) \<and>
      (j \<noteq> i \<longrightarrow> chunk (sk s' j) = chunk (sk s j))"
  proof (intro allI impI)
    fix j assume j: "live s j"
    show "sent (sk s' j) = sent (sk s j) @ (if j = i then [] else message s i) \<and> (j \<noteq> i \<longrightarrow> chunk (sk s' j) = chunk (sk s j))"
  proof (cases "j = i")
    case True
    then show ?thesis using ki by simp
  next
    case False
    have m: "message s i = ?data" unfolding message_def using True by (simp only: simp_thms if_True)
    obtain es where k: "sk s' j = (sk s j)\<lparr>w_ev := es, sent := sent (sk s j) @ ?data\<rparr>"
      using kj [OF j False] by (elim exE conjE) (rule that; assumption)
    show ?thesis unfolding m k using False by simp
  qed
  qed
  ultimately show ?thesis using ev s'(2) trans [OF s'(3) f1] by (intro exI [of _ s'] conjI)
qed

lemma scan_healthy:
  "chat_inv l s \<Longrightarrow> 0 < i \<Longrightarrow> i + left = Suc MAX_CLIENTS \<Longrightarrow> healthy (left * LINE_SIZE) i s \<Longrightarrow>
   \<exists>s'. scan_clients left i s = Some s' \<and> chat_inv l s' \<and> fds s' = fds s \<and>
     (\<forall>j. live s j \<longrightarrow> sent (sk s' j) = sent (sk s j) @ concat (map (\<lambda>i'. if j = i' then [] else message s i') [i..<Suc MAX_CLIENTS]))"
proof (induction left arbitrary: i s)
  case 0
  then show ?case by simp
next
  case (Suc left)
  have i: "i < Suc MAX_CLIENTS" using Suc.prems(3) by simp
  have h: "healthy (LINE_SIZE + left * LINE_SIZE) i s" using Suc.prems(4) by simp
  obtain s1 where s1: "client_event i s = Some s1" "chat_inv l s1" "fds s1 = fds s" "healthy (left * LINE_SIZE) (Suc i) s1"
    "\<forall>j. live s j \<longrightarrow> sent (sk s1 j) = sent (sk s j) @ (if j = i then [] else message s i) \<and> (j \<noteq> i \<longrightarrow> chunk (sk s1 j) = chunk (sk s j))"
    using client_event_healthy [OF Suc.prems(1,2) i h] by (elim exE conjE) (rule that; assumption)
  have left: "Suc i + left = Suc MAX_CLIENTS" using Suc.prems(3) by simp
  obtain s' where s': "scan_clients left (Suc i) s1 = Some s'" "chat_inv l s'" "fds s' = fds s1"
    "\<forall>j. live s1 j \<longrightarrow> sent (sk s' j) = sent (sk s1 j) @ concat (map (\<lambda>i'. if j = i' then [] else message s1 i') [Suc i..<Suc MAX_CLIENTS])"
    using Suc.IH [OF s1(2) _ left s1(4)] by auto
  have msg: "message s1 i' = message s i'" if "i' \<in> set [Suc i..<Suc MAX_CLIENTS]" for i'
    using s1(5) that by (auto simp: message_def s1(3))
  have "sent (sk s' j) = sent (sk s j) @ concat (map (\<lambda>i'. if j = i' then [] else message s i') [i..<Suc MAX_CLIENTS])"
    if j: "live s j" for j
  proof -
    let ?f = "\<lambda>s i'. if j = i' then [] else message s i'"
    have "map (?f s1) [Suc i..<Suc MAX_CLIENTS] = map (?f s) [Suc i..<Suc MAX_CLIENTS]" using msg by (intro map_cong) auto
    moreover have "sent (sk s' j) = sent (sk s1 j) @ concat (map (?f s1) [Suc i..<Suc MAX_CLIENTS])"
      using s'(4) j unfolding s1(3) s'(3) by blast
    moreover have "sent (sk s1 j) = sent (sk s j) @ ?f s i" using s1(5) j unfolding s1(3) by simp
    ultimately show ?thesis unfolding upt_conv_Cons [OF i] by (simp only: list.map concat.simps append_assoc)
  qed
  then show ?case using s1(1) s'(1-3) s1(3) by simp
qed

section \<open>Accepting\<close>

lemma free_entry_lower: "i \<le> free_entry left i ps"
proof (induction left arbitrary: i)
  case (Suc left)
  have "Suc i \<le> free_entry left (Suc i) ps" by (rule Suc)
  then show ?case by simp
qed simp

lemma free_entry_upper: "free_entry left i ps \<le> i + left"
proof (induction left arbitrary: i)
  case (Suc left)
  then show ?case using Suc [of "Suc i"] by simp
qed simp

lemma free_entry_free: "free_entry left i ps < i + left \<Longrightarrow> pfd (ps ! free_entry left i ps) < 0"
proof (induction left arbitrary: i)
  case (Suc left)
  then show ?case using Suc.IH [of "Suc i"] by (cases "pfd (ps ! i) < 0") simp_all
qed simp

lemma chat_inv_add:
  assumes I: "chat_inv l s" and i: "0 < i" "i < Suc MAX_CLIENTS" "pfd (fds s ! i) < 0"
    and c: "0 \<le> c" "\<forall>j < Suc MAX_CLIENTS. pfd (fds s ! j) \<noteq> c" "\<not> closed (cnet s c)"
  shows "chat_inv l (s\<lparr>fds := (fds s)[i := \<lparr>pfd = c, pin = False, perr = False\<rparr>]\<rparr>)"
proof -
  note D = chat_invD [OF I]
  let ?f = "(fds s)[i := \<lparr>pfd = c, pin = False, perr = False\<rparr>]"
  have f: "pfd (?f ! j) = (if j = i then c else pfd (fds s ! j))" for j using D(1) i(2) by (cases "j = i") simp_all
  have "\<forall>a < Suc MAX_CLIENTS. \<forall>b < Suc MAX_CLIENTS. pfd (?f ! a) = pfd (?f ! b) \<and> 0 \<le> pfd (?f ! a) \<longrightarrow> a = b"
    unfolding f using D(4) c(2) by auto
  moreover have "\<forall>a < Suc MAX_CLIENTS. 0 \<le> pfd (?f ! a) \<longrightarrow> \<not> closed (cnet s (pfd (?f ! a)))"
    unfolding f using D(5) c(3) by simp
  ultimately show ?thesis unfolding chat_inv_def using D(1-3) i(1) by simp
qed

lemma set_revents_nth:
  assumes "length rv = Suc MAX_CLIENTS" "length ps = Suc MAX_CLIENTS"
  shows "length (set_revents rv ps) = Suc MAX_CLIENTS"
    "j < Suc MAX_CLIENTS \<Longrightarrow> set_revents rv ps ! j =
      (ps ! j)\<lparr>pin := fst (rv ! j) \<and> pfd (ps ! j) \<ge> 0, perr := snd (rv ! j) \<and> pfd (ps ! j) \<ge> 0\<rparr>"
  using assms by (simp_all add: set_revents_def split: prod.splits)

lemma chat_inv_poll:
  assumes "chat_inv l s" "length rv = Suc MAX_CLIENTS"
  shows "chat_inv l (s\<lparr>fds := set_revents rv (fds s)\<rparr>)"
  using chat_invD [OF assms(1)] set_revents_nth [OF assms(2) chat_invD(1) [OF assms(1)]] by (simp add: chat_inv_def)

section \<open>Properties\<close>

text \<open>A broadcast, whatever the sends do, tries every client but the sender once and in isolation: a client gets
  what its own send loop delivers, is closed and forgotten exactly when a send to it fails, and nothing else changes;
  the table stays consistent.\<close>

theorem poll_broadcast_correct:
  assumes "chat_inv l s" "\<forall>j. live s j \<and> j \<noteq> from \<longrightarrow> send_loop (w_ev (sk s j)) data \<noteq> None"
  shows "\<exists>s'. broadcast from data s = Some s' \<and> chat_inv l s' \<and>
    serves (sent_rel data) {pfd (fds s ! j) | j. live s j \<and> j \<noteq> from} (cnet s) (cnet s') \<and>
    (\<forall>j < Suc MAX_CLIENTS. fds s' ! j =
       (if live s j \<and> j \<noteq> from \<and> gives_up data (sk s j) then (fds s ! j)\<lparr>pfd := -1\<rparr> else fds s ! j))"
proof -
  have rc: "rcpt 1 from s j \<longleftrightarrow> live s j \<and> j \<noteq> from" for j by (auto simp: rcpt_def)
  have "\<forall>j. rcpt 1 from s j \<longrightarrow> send_loop (w_ev (sk s j)) data \<noteq> None" unfolding rc by (rule assms(2))
  from broadcast_from_ok [OF assms(1) _ zero_less_one this] show ?thesis unfolding rc broadcast_def by simp
qed

definition quiet_sock :: sock where
  "quiet_sock = \<lparr>r_ev = [], w_ev = [], inq = [], sent = [], closed = False\<rparr>"

lemma chat_init_inv: "0 \<le> l \<Longrightarrow> \<not> closed (n l) \<Longrightarrow> chat_inv l (chat_init l n)"
  by (auto simp: chat_inv_def chat_init_def nth_Cons')

theorem poll_broadcast_correct_witness:
  "\<exists>s'. broadcast 0 ''hi'' (chat_init 3 (\<lambda>_. quiet_sock)) = Some s' \<and> chat_inv 3 s'"
proof -
  have "chat_inv 3 (chat_init 3 (\<lambda>_. quiet_sock))" by (rule chat_init_inv) (simp_all add: quiet_sock_def)
  moreover have "\<not> live (chat_init 3 (\<lambda>_. quiet_sock)) j" for j by (auto simp: chat_init_def nth_Cons')
  ultimately show ?thesis using poll_broadcast_correct [of 3 "chat_init 3 (\<lambda>_. quiet_sock)" 0 "''hi''"] by blast
qed

text \<open>C37: In a round without a new connection in which nothing fails, every client receives the messages of the other
  clients that are ready, in the order of the table, and never its own message.\<close>

theorem poll_round_delivers:
  assumes I: "chat_inv l s" and rv: "length rv = Suc MAX_CLIENTS" "\<not> fst (rv ! 0)"
    and h: "healthy (MAX_CLIENTS * LINE_SIZE) 1 (s\<lparr>fds := set_revents rv (fds s)\<rparr>)"
  shows "\<exists>s'. server_round (Polled rv) c s = Some (Continue s') \<and> chat_inv l s' \<and>
    (\<forall>j. live s j \<longrightarrow> sent (sk s' j) = sent (sk s j) @
       concat (map (\<lambda>i. if j = i \<or> \<not> live s i \<or> \<not> fst (rv ! i) then [] else chunk (sk s i)) [1..<Suc MAX_CLIENTS]))"
proof -
  let ?s = "s\<lparr>fds := set_revents rv (fds s)\<rparr>"
  note N = set_revents_nth [OF rv(1) chat_invD(1) [OF I]]
  have I1: "chat_inv l ?s" by (rule chat_inv_poll [OF I rv(1)])
  have p: "pfd (fds ?s ! j) = pfd (fds s ! j)" if "j < Suc MAX_CLIENTS" for j using N(2) [OF that] by simp
  obtain s' where s': "scan_clients MAX_CLIENTS 1 ?s = Some s'" "chat_inv l s'" "fds s' = fds ?s"
    "\<forall>j. live ?s j \<longrightarrow> sent (sk s' j) = sent (sk ?s j) @ concat (map (\<lambda>i'. if j = i' then [] else message ?s i') [1..<Suc MAX_CLIENTS])"
    using scan_healthy [OF I1 zero_less_one _ h] by auto
  have m: "message ?s i = (if \<not> live s i \<or> \<not> fst (rv ! i) then [] else chunk (sk s i))" if "i \<in> set [1..<Suc MAX_CLIENTS]" for i
    using that N(2) [of i] by (auto simp: message_def)
  have "sent (sk s' j) = sent (sk s j) @
       concat (map (\<lambda>i. if j = i \<or> \<not> live s i \<or> \<not> fst (rv ! i) then [] else chunk (sk s i)) [1..<Suc MAX_CLIENTS])" if j: "live s j" for j
  proof -
    have "map (\<lambda>i'. if j = i' then [] else message ?s i') [1..<Suc MAX_CLIENTS] =
        map (\<lambda>i. if j = i \<or> \<not> live s i \<or> \<not> fst (rv ! i) then [] else chunk (sk s i)) [1..<Suc MAX_CLIENTS]"
      by (intro map_cong refl) (simp only: m if_distrib split: if_split, blast)
    moreover have "live ?s j" "pfd (fds s' ! j) = pfd (fds s ! j)" "sk ?s j = sk s j" using j p [of j] s'(3) by simp_all
    moreover have "sent (sk s' j) = sent (sk ?s j) @ concat (map (\<lambda>i'. if j = i' then [] else message ?s i') [1..<Suc MAX_CLIENTS])"
      using s'(4) \<open>live ?s j\<close> by blast
    ultimately show ?thesis by (simp only:)
  qed
  moreover have "server_round (Polled rv) c s = Some (Continue s')"
    using s'(1) N(2) [of 0] rv(2) by (simp add: server_round_def Let_def)
  ultimately show ?thesis using s'(2) by blast
qed

definition talker :: sock where
  "talker = \<lparr>r_ev = [Moved 10], w_ev = replicate (MAX_CLIENTS * LINE_SIZE) (Moved 1), inq = ''x'', sent = [], closed = False\<rparr>"

definition table :: "nat \<Rightarrow> pollfd list" where
  "table n = map (\<lambda>i. \<lparr>pfd = (if i \<le> n then int i + 3 else -1), pin = False, perr = False\<rparr>) [0..<Suc MAX_CLIENTS]"

lemma table_nth: "i < Suc MAX_CLIENTS \<Longrightarrow> table n ! i = \<lparr>pfd = (if i \<le> n then int i + 3 else -1), pin = False, perr = False\<rparr>"
  by (simp add: table_def del: upt_Suc)

lemma table_inv: "\<not> closed k \<Longrightarrow> chat_inv 3 \<lparr>fds = table n, cnet = \<lambda>_. k\<rparr>"
  unfolding chat_inv_def by (simp add: table_nth) (simp add: table_def)

theorem poll_round_delivers_witness:
  "\<exists>s'. server_round (Polled ((False, False) # replicate MAX_CLIENTS (True, False))) 9 \<lparr>fds = table 2, cnet = \<lambda>_. talker\<rparr> =
     Some (Continue s') \<and> chat_inv 3 s'"
proof -
  let ?rv = "(False, False) # replicate MAX_CLIENTS (True, False)" and ?s = "\<lparr>fds = table 2, cnet = \<lambda>_. talker\<rparr>"
  have I: "chat_inv 3 ?s" by (rule table_inv) (simp add: talker_def)
  have N: "set_revents ?rv (table 2) ! j = (table 2 ! j)\<lparr>pin := fst (?rv ! j) \<and> pfd (table 2 ! j) \<ge> 0,
      perr := snd (?rv ! j) \<and> pfd (table 2 ! j) \<ge> 0\<rparr>" if "j < Suc MAX_CLIENTS" for j
    using set_revents_nth(2) [of ?rv "table 2" j] that by (simp add: table_def del: upt_Suc)
  have perr: "\<not> snd (?rv ! j)" if "j < Suc MAX_CLIENTS" for j using that by (cases j) simp_all
  have "healthy (MAX_CLIENTS * LINE_SIZE) 1 (?s\<lparr>fds := set_revents ?rv (fds ?s)\<rparr>)"
    unfolding healthy_def using perr by (auto simp: N talker_def working_def chunk_def LINE_SIZE_def)
  from poll_round_delivers [OF I _ _ this, of 9] show ?thesis by auto
qed

text \<open>When all 64 entries are taken, a round with a pending connection closes that connection and leaves the
  clients that are ready unserved.\<close>

theorem poll_full_starves:
  assumes I: "chat_inv l s" and rv: "length rv = Suc MAX_CLIENTS" "fst (rv ! 0)" and full: "\<forall>j. 0 < j \<and> j < Suc MAX_CLIENTS \<longrightarrow> 0 \<le> pfd (fds s ! j)"
    and c: "0 \<le> c"
  shows "server_round (Polled rv) c s =
    Some (Continue (s\<lparr>fds := set_revents rv (fds s), cnet := (cnet s)(c := (cnet s c)\<lparr>closed := True\<rparr>)\<rparr>))"
proof -
  note N = set_revents_nth [OF rv(1) chat_invD(1) [OF I]]
  let ?f = "set_revents rv (fds s)" and ?e = "free_entry MAX_CLIENTS 1 (set_revents rv (fds s))"
  have e: "?e \<le> 1 + MAX_CLIENTS" "1 \<le> ?e" by (rule free_entry_upper, rule free_entry_lower)
  have "\<not> ?e < 1 + MAX_CLIENTS"
  proof
    assume lt: "?e < 1 + MAX_CLIENTS"
    then have "pfd (?f ! ?e) < 0" by (rule free_entry_free)
    moreover have "pfd (?f ! ?e) = pfd (fds s ! ?e)" using N(2) [of ?e] lt by simp
    moreover have "0 \<le> pfd (fds s ! ?e)" using full lt e(2) by simp
    ultimately show False by simp
  qed
  then have "?e > MAX_CLIENTS" by simp
  then have "accept_client c (s\<lparr>fds := ?f\<rparr>) = Some (s\<lparr>fds := ?f, cnet := (cnet s)(c := (cnet s c)\<lparr>closed := True\<rparr>)\<rparr>, True)"
    using c by (simp add: accept_client_def Let_def)
  moreover have "pin (?f ! 0)" using N(2) [of 0] rv(2) chat_invD(2,3) [OF I] by simp
  ultimately show ?thesis by (simp add: server_round_def Let_def)
qed

theorem poll_full_starves_witness:
  "server_round (Polled (replicate (Suc MAX_CLIENTS) (True, False))) 99 \<lparr>fds = table 64, cnet = \<lambda>_. talker\<rparr> =
    Some (Continue \<lparr>fds = set_revents (replicate (Suc MAX_CLIENTS) (True, False)) (table 64), cnet = (\<lambda>_. talker)(99 := talker\<lparr>closed := True\<rparr>)\<rparr>)"
proof -
  have I: "chat_inv 3 \<lparr>fds = table 64, cnet = \<lambda>_. talker\<rparr>" by (rule table_inv) (simp add: talker_def)
  show ?thesis using poll_full_starves [OF I, of "replicate (Suc MAX_CLIENTS) (True, False)" 99]
    by (simp add: table_nth MAX_CLIENTS_def)
qed

text \<open>A port in plain decimal digits is accepted exactly when it is at most 65535, with its value.\<close>

theorem port_arg_decimal: "port_arg (show_nat n) = (if n \<le> 65535 then Some (word_of_nat n) else None)"
proof -
  have tw: "takeWhile is_digit (show_nat n) = show_nat n" "dropWhile is_digit (show_nat n) = []"
    using takeWhile_show_nat [of "[]" n] by (simp_all add: starts_no_digit_def)
  obtain c cs where c: "show_nat n = c # cs" "is_digit c" by (rule show_nat_hd)
  have "dropWhile is_space (show_nat n) = show_nat n" using c is_digit_not_space by simp
  moreover have "hd (show_nat n) \<noteq> CHR ''-''" "hd (show_nat n) \<noteq> CHR ''+''" using c is_digit_not_sign by auto
  ultimately have "strtoul (show_nat n) = (if n > ULONG_MAX then ULONG_MAX else n, [])"
    by (simp add: strtoul_def Let_def tw)
  then show ?thesis by (simp add: port_arg_def ULONG_MAX_def)
qed

text \<open>A client that finds its socket both readable and hung up leaves without reading: what the server sent last
  is lost.\<close>

theorem client_loses_last_message:
  "\<exists>s'. client_round t_in True True s = Some (Leave 0 s') \<and> inq (srv s') = inq (srv s) \<and> sent (tty s') = sent (tty s)"
  by (simp add: client_round_def)

end
