(* ===== verification/Region_Alloc.thy ===== *)
theory Region_Alloc
  imports Interfaces
begin

text \<open>
  The allocator of src/cplusplus/basement/base\_code/src/base\_memory/my\_realloc.cpp: blocks with a header,
  in one singly linked list over the regions that \<open>mmap\<close> returned.

  The memory is an array of bytes with the list of mapped regions; an access to a byte that is not mapped
  is \<open>None\<close>.  A pointer is its address, 0 the null pointer.  The kernel's choice of a region is the
  parameter \<open>os\<close>: the regions mapped so far and the size requested give the address, or failure.
  \<open>size_t\<close> and pointer arithmetic are modulo $2^{64}$.
\<close>

unbundle bit_operations_syntax

section \<open>Memory\<close>

record rheap =
  rbytes :: "int \<Rightarrow> int"
  maps :: "(int \<times> int) list"
  g_heap_head :: int

type_synonym os = "(int \<times> int) list \<Rightarrow> int \<Rightarrow> int option"

definition mapped :: "rheap \<Rightarrow> int \<Rightarrow> bool" where
  "mapped m a \<longleftrightarrow> list_ex (\<lambda>(s, n). s \<le> a \<and> a < s + n) (maps m)"

definition range_ok :: "rheap \<Rightarrow> int \<Rightarrow> int \<Rightarrow> bool" where
  "range_ok m p n \<longleftrightarrow> list_all (mapped m) [p..p + n - 1]"

fun le_val :: "nat \<Rightarrow> (int \<Rightarrow> int) \<Rightarrow> int \<Rightarrow> int" where
  "le_val 0 f p = 0"
| "le_val (Suc k) f p = f p + 256 * le_val k f (p + 1)"

fun put_le :: "nat \<Rightarrow> int \<Rightarrow> int \<Rightarrow> (int \<Rightarrow> int) \<Rightarrow> int \<Rightarrow> int" where
  "put_le 0 p v f = f"
| "put_le (Suc k) p v f = put_le k (p + 1) (v div 256) (f(p := v mod 256))"

text \<open>The fields of a header: \<open>size\<close> at offset 0, \<open>is_free\<close> at 8, \<open>next\<close> at 16.\<close>

definition get_size :: "rheap \<Rightarrow> int \<Rightarrow> int option" where
  "get_size m b = (if range_ok m b 8 then Some (le_val 8 (rbytes m) b) else None)"

definition get_free :: "rheap \<Rightarrow> int \<Rightarrow> bool option" where
  "get_free m b = (if range_ok m (b + 8) 1 then Some (rbytes m (b + 8) \<noteq> 0) else None)"

definition get_next :: "rheap \<Rightarrow> int \<Rightarrow> int option" where
  "get_next m b = (if range_ok m (b + 16) 8 then Some (le_val 8 (rbytes m) (b + 16)) else None)"

definition set_size :: "int \<Rightarrow> int \<Rightarrow> rheap \<Rightarrow> rheap option" where
  "set_size b v m = (if range_ok m b 8 then Some (m\<lparr>rbytes := put_le 8 b v (rbytes m)\<rparr>) else None)"

definition set_free :: "int \<Rightarrow> bool \<Rightarrow> rheap \<Rightarrow> rheap option" where
  "set_free b v m = (if range_ok m (b + 8) 1 then Some (m\<lparr>rbytes := (rbytes m)(b + 8 := of_bool v)\<rparr>) else None)"

definition set_next :: "int \<Rightarrow> int \<Rightarrow> rheap \<Rightarrow> rheap option" where
  "set_next b v m = (if range_ok m (b + 16) 8 then Some (m\<lparr>rbytes := put_le 8 (b + 16) v (rbytes m)\<rparr>) else None)"

section \<open>The program\<close>

definition ALIGN_UP :: "int \<Rightarrow> int \<Rightarrow> int" where
  "ALIGN_UP sz align = ((sz + align - 1) mod 2 ^ 64) AND NOT (align - 1)"

definition ALIGNMENT :: int where "ALIGNMENT = 16"
definition MMAP_THRESHOLED :: int where "MMAP_THRESHOLED = 4096"
definition HEADER_SIZE :: int where "HEADER_SIZE = ALIGN_UP 24 ALIGNMENT"

definition request_os_mem :: "os \<Rightarrow> int \<Rightarrow> rheap \<Rightarrow> int \<times> rheap" where
  "request_os_mem os sz m =
     (case os (maps m) sz of
        None \<Rightarrow> (0, m)
      | Some p \<Rightarrow> (p, m\<lparr>maps := maps m @ [(p, sz)], rbytes := (\<lambda>a. if p \<le> a \<and> a < p + sz then 0 else rbytes m a)\<rparr>))"

partial_function (option) last_block :: "rheap \<Rightarrow> int \<Rightarrow> int option" where [code]:
  "last_block m b = Option.bind (get_next m b) (\<lambda>n. if n \<noteq> 0 then last_block m n else Some b)"

definition init_new_region :: "os \<Rightarrow> int \<Rightarrow> rheap \<Rightarrow> (int \<times> rheap) option" where
  "init_new_region os payload_size m =
     (let total_size = (HEADER_SIZE + payload_size) mod 2 ^ 64;
          total_size = ALIGN_UP total_size MMAP_THRESHOLED;
          (block, m) = request_os_mem os total_size m
      in if block = 0 then Some (0, m)
         else do {
           m \<leftarrow> set_size block ((total_size - HEADER_SIZE) mod 2 ^ 64) m;
           m \<leftarrow> set_free block True m;
           m \<leftarrow> set_next block 0 m;
           if g_heap_head m = 0 then Some (block, m\<lparr>g_heap_head := block\<rparr>)
           else do {
             b \<leftarrow> last_block m (g_heap_head m);
             m \<leftarrow> set_next b block m;
             Some (block, m) } })"

partial_function (option) find_from :: "int \<Rightarrow> rheap \<Rightarrow> int \<Rightarrow> int option" where [code]:
  "find_from sz m b =
     (if b = 0 then Some 0
      else Option.bind (get_free m b) (\<lambda>fr. Option.bind (if fr then get_size m b else Some (- 1)) (\<lambda>s.
        if fr \<and> s \<ge> sz then Some b else Option.bind (get_next m b) (find_from sz m))))"

definition find_free_block :: "int \<Rightarrow> rheap \<Rightarrow> int option" where
  "find_free_block sz m = find_from sz m (g_heap_head m)"

definition split_block :: "int \<Rightarrow> int \<Rightarrow> rheap \<Rightarrow> rheap option" where
  "split_block block needed_payload m = do {
     sz \<leftarrow> get_size m block;
     let remaining = (sz - needed_payload) mod 2 ^ 64;
     if remaining > HEADER_SIZE + ALIGNMENT then do {
       let new_block = (block + HEADER_SIZE + needed_payload) mod 2 ^ 64;
       m \<leftarrow> set_size new_block ((remaining - HEADER_SIZE) mod 2 ^ 64) m;
       m \<leftarrow> set_free new_block True m;
       nx \<leftarrow> get_next m block;
       m \<leftarrow> set_next new_block nx m;
       m \<leftarrow> set_size block needed_payload m;
       set_next block new_block m }
     else Some m }"

partial_function (option) coalesce_from :: "int \<Rightarrow> rheap \<Rightarrow> rheap option" where [code]:
  "coalesce_from b m =
     (if b = 0 then Some m
      else Option.bind (get_next m b) (\<lambda>n. if n = 0 then Some m
        else Option.bind (get_free m b) (\<lambda>fb. Option.bind (if fb then get_free m n else Some False) (\<lambda>fn.
          if fb \<and> fn
          then Option.bind (get_size m b) (\<lambda>s. Option.bind (get_size m n) (\<lambda>t.
            Option.bind (set_size b ((s + (HEADER_SIZE + t)) mod 2 ^ 64) m) (\<lambda>m.
            Option.bind (get_next m n) (\<lambda>nn. Option.bind (set_next b nn m) (coalesce_from b)))))
          else coalesce_from n m))))"

definition region_coalesce :: "rheap \<Rightarrow> rheap option" where
  "region_coalesce m = coalesce_from (g_heap_head m) m"

definition my_malloc :: "os \<Rightarrow> int \<Rightarrow> rheap \<Rightarrow> (int \<times> rheap) option" where
  "my_malloc os sz m =
     (if sz = 0 then Some (0, m)
      else do {
        let sz = ALIGN_UP sz ALIGNMENT;
        block \<leftarrow> find_free_block sz m;
        (block, m) \<leftarrow> (if block = 0 then init_new_region os sz m else Some (block, m));
        if block = 0 then Some (0, m)
        else do {
          m \<leftarrow> set_free block False m;
          m \<leftarrow> split_block block sz m;
          Some ((block + HEADER_SIZE) mod 2 ^ 64, m) } })"

definition my_free :: "int \<Rightarrow> rheap \<Rightarrow> rheap option" where
  "my_free ptr m =
     (if ptr = 0 then Some m
      else do {
        let block = (ptr - HEADER_SIZE) mod 2 ^ 64;
        m \<leftarrow> set_free block True m;
        region_coalesce m })"

definition copy_bytes :: "int \<Rightarrow> int \<Rightarrow> int \<Rightarrow> rheap \<Rightarrow> rheap option" where
  "copy_bytes dst src n m =
     (if range_ok m dst n \<and> range_ok m src n
      then Some (m\<lparr>rbytes := (\<lambda>a. if dst \<le> a \<and> a < dst + n then rbytes m (src + (a - dst)) else rbytes m a)\<rparr>)
      else None)"

definition my_realloc :: "os \<Rightarrow> int \<Rightarrow> int \<Rightarrow> rheap \<Rightarrow> (int \<times> rheap) option" where
  "my_realloc os ptr new_size m =
     (if new_size = 0 then do { m \<leftarrow> my_free ptr m; Some (0, m) }
      else if ptr = 0 then my_malloc os new_size m
      else do {
        let new_size = ALIGN_UP new_size ALIGNMENT;
        let block = (ptr - HEADER_SIZE) mod 2 ^ 64;
        old_size \<leftarrow> get_size m block;
        if old_size \<ge> new_size then do { m \<leftarrow> split_block block new_size m; Some (ptr, m) }
        else do {
          nx \<leftarrow> get_next m block;
          nfree \<leftarrow> (if nx \<noteq> 0 then get_free m nx else Some False);
          nsize \<leftarrow> (if nfree then get_size m nx else Some 0);
          let combined = (old_size + HEADER_SIZE + nsize) mod 2 ^ 64;
          if nfree \<and> combined \<ge> new_size then do {
            m \<leftarrow> set_size block new_size m;
            let leftover = (combined - new_size) mod 2 ^ 64;
            if leftover > HEADER_SIZE + ALIGNMENT then do {
              let remainder = (block + HEADER_SIZE + new_size) mod 2 ^ 64;
              m \<leftarrow> set_size remainder ((leftover - HEADER_SIZE) mod 2 ^ 64) m;
              m \<leftarrow> set_free remainder True m;
              nx \<leftarrow> get_next m block; nn \<leftarrow> get_next m nx;
              m \<leftarrow> set_next remainder nn m;
              m \<leftarrow> set_next block remainder m;
              Some (ptr, m) }
            else do {
              nx \<leftarrow> get_next m block; nn \<leftarrow> get_next m nx;
              m \<leftarrow> set_next block nn m;
              Some (ptr, m) } }
          else do {
            (new_ptr, m) \<leftarrow> my_malloc os new_size m;
            if new_ptr = 0 then Some (0, m)
            else do {
              m \<leftarrow> copy_bytes new_ptr ptr old_size m;
              m \<leftarrow> my_free ptr m;
              Some (new_ptr, m) } } } })"

definition store_int :: "int \<Rightarrow> int \<Rightarrow> rheap \<Rightarrow> rheap option" where
  "store_int p v m = (if range_ok m p 4 then Some (m\<lparr>rbytes := put_le 4 p v (rbytes m)\<rparr>) else None)"

definition load_int :: "rheap \<Rightarrow> int \<Rightarrow> int option" where
  "load_int m p = (if range_ok m p 4 then Some (le_val 4 (rbytes m) p) else None)"

fun store_ints :: "int \<Rightarrow> int list \<Rightarrow> rheap \<Rightarrow> rheap option" where
  "store_ints p [] m = Some m"
| "store_ints p (v # vs) m = store_int p v m \<bind> store_ints (p + 4) vs"

fun load_ints :: "nat \<Rightarrow> rheap \<Rightarrow> int \<Rightarrow> int list option" where
  "load_ints 0 m p = Some []"
| "load_ints (Suc k) m p = do { v \<leftarrow> load_int m p; vs \<leftarrow> load_ints k m (p + 4); Some (v # vs) }"

text \<open>The program's \<open>main\<close>: what it prints up to the last call, the array and the heap there; then that call.\<close>

definition main_prefix :: "os \<Rightarrow> rheap \<Rightarrow> (int list \<times> int \<times> rheap) option" where
  "main_prefix os m = do {
     (arr, m) \<leftarrow> my_realloc os 0 16 m;
     m \<leftarrow> store_ints arr [0, 10, 20, 30] m;
     (arr, m) \<leftarrow> my_realloc os arr 32 m;
     out \<leftarrow> load_ints 8 m arr;
     (arr, m) \<leftarrow> my_realloc os arr 8 m;
     out2 \<leftarrow> load_ints 2 m arr;
     Some (out @ out2, arr, m) }"

definition region_main :: "os \<Rightarrow> rheap \<Rightarrow> (int list \<times> rheap) option" where
  "region_main os m = do {
     (out, arr, m) \<leftarrow> main_prefix os m;
     (_, m) \<leftarrow> my_realloc os arr 0 m;
     Some (out, m) }"

definition no_heap :: rheap where
  "no_heap = \<lparr>rbytes = (\<lambda>_. 0), maps = [], g_heap_head = 0\<rparr>"

section \<open>Numbers in memory\<close>

lemma put_le_outside: "a < p \<or> p + int k \<le> a \<Longrightarrow> put_le k p v f a = f a"
  by (induction k arbitrary: p v f) auto

lemma le_val_cong: "(\<And>a. p \<le> a \<Longrightarrow> a < p + int k \<Longrightarrow> f a = g a) \<Longrightarrow> le_val k f p = le_val k g p"
  by (induction k arbitrary: p) auto

lemma le_val_put: "0 \<le> v \<Longrightarrow> v < 256 ^ k \<Longrightarrow> le_val k (put_le k p v f) p = v"
proof (induction k arbitrary: p v f)
  case (Suc k)
  have "put_le k (p + 1) (v div 256) (f(p := v mod 256)) p = v mod 256" by (simp add: put_le_outside)
  moreover have "v div 256 < 256 ^ k" using Suc.prems(2) by (simp add: div_less_iff_less_mult mult.commute)
  ultimately show ?case using Suc.IH [of "v div 256" "p + 1"] Suc.prems(1) by simp
qed simp

lemma le_val_put_other: "p + int k \<le> q \<or> q + int k \<le> p \<Longrightarrow> le_val k (put_le k p v f) q = le_val k f q"
  by (rule le_val_cong) (auto simp: put_le_outside)

lemma and_not_mask: "(x::int) AND NOT (2 ^ k - 1) = x - x mod 2 ^ k"
proof -
  have "x = (x AND mask k) + (x AND NOT (mask k))"
    by (subst disjunctive_add) (auto simp: bit_simps simp flip: bit.conj_disj_distrib)
  moreover have "x AND mask k = x mod 2 ^ k" by (simp flip: take_bit_eq_mask take_bit_eq_mod)
  ultimately show ?thesis by (simp add: mask_eq_exp_minus_1)
qed

lemma ALIGN_UP_16: "ALIGN_UP n 16 = (n + 15) mod 2 ^ 64 - (n + 15) mod 2 ^ 64 mod 16"
  using and_not_mask [of "(n + 15) mod 2 ^ 64" 4] by (simp add: ALIGN_UP_def add.commute)

lemma ALIGN_UP_4096: "ALIGN_UP n 4096 = (n + 4095) mod 2 ^ 64 - (n + 4095) mod 2 ^ 64 mod 4096"
  using and_not_mask [of "(n + 4095) mod 2 ^ 64" 12] by (simp add: ALIGN_UP_def add.commute)

lemma HEADER_SIZE_32 [simp]: "HEADER_SIZE = 32"
  by (simp add: HEADER_SIZE_def ALIGNMENT_def ALIGN_UP_16)

lemma round_up:
  fixes n :: int
  assumes "0 < k" "n \<le> k * c"
  shows "n \<le> n + (k - 1) - (n + (k - 1)) mod k" "(n + (k - 1) - (n + (k - 1)) mod k) mod k = 0"
    "n + (k - 1) - (n + (k - 1)) mod k < n + k" "n + (k - 1) - (n + (k - 1)) mod k \<le> k * c"
proof -
  have q: "n + (k - 1) - (n + (k - 1)) mod k = k * ((n + (k - 1)) div k)" by (simp add: minus_mod_eq_mult_div)
  show "n \<le> n + (k - 1) - (n + (k - 1)) mod k" "n + (k - 1) - (n + (k - 1)) mod k < n + k"
    using pos_mod_bound [OF assms(1), of "n + (k - 1)"] pos_mod_sign [OF assms(1), of "n + (k - 1)"] by linarith+
  show "(n + (k - 1) - (n + (k - 1)) mod k) mod k = 0" unfolding q by simp
  have "(n + (k - 1)) div k \<le> (k * c + (k - 1)) div k" by (rule zdiv_mono1) (use assms in auto)
  also have "\<dots> = c" using assms(1) by (simp add: div_add1_eq)
  finally show "n + (k - 1) - (n + (k - 1)) mod k \<le> k * c" unfolding q using assms(1) by simp
qed

lemma align_16:
  assumes "0 \<le> n" "n \<le> 2 ^ 64 - 4128"
  shows "n \<le> ALIGN_UP n 16" "ALIGN_UP n 16 mod 16 = 0" "ALIGN_UP n 16 < n + 16" "ALIGN_UP n 16 \<le> 2 ^ 64 - 4128"
proof -
  have "ALIGN_UP n 16 = (n + 15) - (n + 15) mod 16" using assms by (simp add: ALIGN_UP_16)
  then show "n \<le> ALIGN_UP n 16" "ALIGN_UP n 16 mod 16 = 0" "ALIGN_UP n 16 < n + 16" "ALIGN_UP n 16 \<le> 2 ^ 64 - 4128"
    using round_up [of 16 n "(2 ^ 64 - 4128) div 16"] assms(2) by simp_all
qed

lemma align_page:
  assumes "0 \<le> n" "n \<le> 2 ^ 64 - 4096"
  shows "n \<le> ALIGN_UP n 4096" "ALIGN_UP n 4096 mod 4096 = 0" "ALIGN_UP n 4096 \<le> 2 ^ 64 - 4096"
proof -
  have "ALIGN_UP n 4096 = (n + 4095) - (n + 4095) mod 4096" using assms by (simp add: ALIGN_UP_4096)
  then show "n \<le> ALIGN_UP n 4096" "ALIGN_UP n 4096 mod 4096 = 0" "ALIGN_UP n 4096 \<le> 2 ^ 64 - 4096"
    using round_up [of 4096 n "(2 ^ 64 - 4096) div 4096"] assms(2) by simp_all
qed

section \<open>The list of blocks\<close>

text \<open>A block as address, payload size and whether it is free.  \<open>linked\<close>: the headers of the list are in memory,
  the last one pointing to \<open>p\<close>.\<close>

type_synonym blk = "int \<times> int \<times> bool"

fun start_of :: "blk list \<Rightarrow> int \<Rightarrow> int" where
  "start_of [] p = p"
| "start_of ((a, s, fr) # r) p = a"

definition header_at :: "(int \<Rightarrow> int) \<Rightarrow> int \<Rightarrow> int \<Rightarrow> bool \<Rightarrow> int \<Rightarrow> bool" where
  "header_at f a s fr nx \<longleftrightarrow> le_val 8 f a = s \<and> (f (a + 8) \<noteq> 0) = fr \<and> le_val 8 f (a + 16) = nx"

fun linked :: "(int \<Rightarrow> int) \<Rightarrow> blk list \<Rightarrow> int \<Rightarrow> bool" where
  "linked f [] p = True"
| "linked f ((a, s, fr) # r) p = (header_at f a s fr (start_of r p) \<and> linked f r p)"

lemma start_of_append [simp]: "start_of (xs @ ys) p = start_of xs (start_of ys p)"
  by (induction xs) auto

lemma linked_append: "linked f (xs @ ys) p \<longleftrightarrow> linked f xs (start_of ys p) \<and> linked f ys p"
  by (induction xs) auto

lemma header_cong: "(\<And>x. a \<le> x \<Longrightarrow> x < a + 24 \<Longrightarrow> f x = g x) \<Longrightarrow> header_at f a s fr nx = header_at g a s fr nx"
  unfolding header_at_def by (intro arg_cong2 [where f = conj] arg_cong2 [where f = "(=)"] le_val_cong refl) auto

lemma linked_cong:
  "(\<And>a s fr x. (a, s, fr) \<in> set bs \<Longrightarrow> a \<le> x \<Longrightarrow> x < a + 24 \<Longrightarrow> f x = g x) \<Longrightarrow> linked f bs p = linked g bs p"
proof (induction bs)
  case (Cons b bs)
  obtain a s fr where b: "b = (a, s, fr)" by (cases b)
  have "header_at f a s fr (start_of bs p) = header_at g a s fr (start_of bs p)"
    by (rule header_cong) (use Cons.prems b in auto)
  moreover have "linked f bs p = linked g bs p" by (rule Cons.IH) (use Cons.prems in auto)
  ultimately show ?case by (simp add: b)
qed simp

text \<open>What the list operations need: headers in mapped memory, apart from each other.\<close>

definition hmapped :: "rheap \<Rightarrow> int \<Rightarrow> bool" where
  "hmapped m a \<longleftrightarrow> (\<forall>x. a \<le> x \<and> x < a + 32 \<longrightarrow> mapped m x)"

definition apart :: "blk \<Rightarrow> blk \<Rightarrow> bool" where
  "apart b c \<longleftrightarrow> fst b + 32 \<le> fst c \<or> fst c + 32 \<le> fst b"

definition blk_ok :: "rheap \<Rightarrow> blk \<Rightarrow> bool" where
  "blk_ok m b \<longleftrightarrow> (case b of (a, s, fr) \<Rightarrow> 0 < a \<and> a < 2 ^ 64 \<and> 0 \<le> s \<and> s < 2 ^ 64 \<and> hmapped m a)"

definition chain_ok :: "rheap \<Rightarrow> blk list \<Rightarrow> bool" where
  "chain_ok m bs \<longleftrightarrow> linked (rbytes m) bs 0 \<and> g_heap_head m = start_of bs 0 \<and> (\<forall>b\<in>set bs. blk_ok m b) \<and> sorted_wrt apart bs"

lemma mapped_bytes [simp]:
  "mapped (m\<lparr>rbytes := g\<rparr>) = mapped m" "range_ok (m\<lparr>rbytes := g\<rparr>) = range_ok m" "hmapped (m\<lparr>rbytes := g\<rparr>) = hmapped m"
proof -
  show m: "mapped (m\<lparr>rbytes := g\<rparr>) = mapped m" by (simp add: mapped_def fun_eq_iff)
  show "range_ok (m\<lparr>rbytes := g\<rparr>) = range_ok m" "hmapped (m\<lparr>rbytes := g\<rparr>) = hmapped m"
    by (intro ext; simp only: range_ok_def hmapped_def m)+
qed

lemma range_okI: "(\<And>x. p \<le> x \<Longrightarrow> x < p + n \<Longrightarrow> mapped m x) \<Longrightarrow> range_ok m p n"
  by (auto simp: range_ok_def list_all_iff)

lemma fields_mapped:
  assumes "hmapped m a"
  shows "range_ok m a 8" "range_ok m (a + 8) 1" "range_ok m (a + 16) 8"
  using assms by (auto intro!: range_okI simp: hmapped_def)

lemma blk_ok_bytes [simp]: "blk_ok (m\<lparr>rbytes := g\<rparr>) b = blk_ok m b"
  by (simp add: blk_ok_def hmapped_def mapped_def split: prod.splits)

lemma header_writes:
  assumes "header_at f a s fr nx"
  shows "0 \<le> v \<Longrightarrow> v < 2 ^ 64 \<Longrightarrow> header_at (put_le 8 a v f) a v fr nx"
    "header_at (f(a + 8 := of_bool b)) a s b nx"
    "0 \<le> v \<Longrightarrow> v < 2 ^ 64 \<Longrightarrow> header_at (put_le 8 (a + 16) v f) a s fr v"
proof -
  show "header_at (put_le 8 a v f) a v fr nx" if "0 \<le> v" "v < 2 ^ 64"
    using assms that le_val_put [of v 8 a f] le_val_put_other [of a 8 "a + 16" v f] put_le_outside [of "a + 8" a 8 v f]
    by (simp add: header_at_def)
  have "le_val 8 (f(a + 8 := of_bool b)) p = le_val 8 f p" if "p = a \<or> p = a + 16" for p
    by (rule le_val_cong) (use that in auto)
  then show "header_at (f(a + 8 := of_bool b)) a s b nx" using assms by (simp add: header_at_def)
  show "header_at (put_le 8 (a + 16) v f) a s fr v" if "0 \<le> v" "v < 2 ^ 64"
    using assms that le_val_put [of v 8 "a + 16" f] le_val_put_other [of "a + 16" 8 a v f] put_le_outside [of "a + 8" "a + 16" 8 v f]
    by (simp add: header_at_def)
qed

lemma chain_okD:
  assumes "chain_ok m (xs @ (a, s, fr) # ys)"
  shows "header_at (rbytes m) a s fr (start_of ys 0)" "hmapped m a" "0 < a" "a < 2 ^ 64" "0 \<le> s" "s < 2 ^ 64"
    "chain_ok m ((xs @ [(a, s, fr)]) @ ys)" "g_heap_head m = start_of xs a"
    "range_ok m a 8" "range_ok m (a + 8) 1" "range_ok m (a + 16) 8"
    "\<And>b t g. (b, t, g) \<in> set xs \<union> set ys \<Longrightarrow> a + 32 \<le> b \<or> b + 32 \<le> a"
proof -
  show "header_at (rbytes m) a s fr (start_of ys 0)" "0 < a" "a < 2 ^ 64" "0 \<le> s" "s < 2 ^ 64"
    "chain_ok m ((xs @ [(a, s, fr)]) @ ys)" "g_heap_head m = start_of xs a"
    using assms by (simp_all add: chain_ok_def linked_append blk_ok_def)
  show hm: "hmapped m a" using assms by (simp add: chain_ok_def blk_ok_def)
  show "range_ok m a 8" "range_ok m (a + 8) 1" "range_ok m (a + 16) 8" using fields_mapped [OF hm] .
  show "a + 32 \<le> b \<or> b + 32 \<le> a" if "(b, t, g) \<in> set xs \<union> set ys" for b t g
  proof -
    have w: "sorted_wrt apart (xs @ (a, s, fr) # ys)" using assms unfolding chain_ok_def by blast
    from that have "apart (b, t, g) (a, s, fr) \<or> apart (a, s, fr) (b, t, g)"
      using w unfolding sorted_wrt_append by auto
    then show ?thesis by (auto simp: apart_def)
  qed
qed

lemma chain_get:
  assumes "chain_ok m (xs @ (a, s, fr) # ys)"
  shows "get_size m a = Some s" "get_free m a = Some fr" "get_next m a = Some (start_of ys 0)"
  using chain_okD [OF assms] by (simp_all add: get_size_def get_free_def get_next_def header_at_def)

lemma start_of_bounds: "\<forall>b\<in>set bs. blk_ok m b \<Longrightarrow> 0 \<le> start_of bs 0 \<and> start_of bs 0 < 2 ^ 64"
  by (cases bs) (auto simp: blk_ok_def)

text \<open>Writing one header, and dropping blocks after it.\<close>

lemma chain_update:
  assumes c: "chain_ok m (xs @ (a, s, fr) # zs @ ys)"
    and out: "\<And>x. x < a \<or> a + 24 \<le> x \<Longrightarrow> g x = rbytes m x"
    and h: "header_at g a s' fr' (start_of ys 0)" and s': "0 \<le> s'" "s' < 2 ^ 64"
  shows "chain_ok (m\<lparr>rbytes := g\<rparr>) (xs @ (a, s', fr') # ys)"
proof -
  note D = chain_okD [OF c]
  have "linked g xs a = linked (rbytes m) xs a" "linked g ys 0 = linked (rbytes m) ys 0"
    by (rule linked_cong; rule out; use D(12) in fastforce)+
  moreover have "linked (rbytes m) xs a" "linked (rbytes m) ys 0" using c by (simp_all add: chain_ok_def linked_append)
  ultimately have "linked g (xs @ (a, s', fr') # ys) 0" using h by (simp add: linked_append)
  moreover have "sorted_wrt apart (xs @ (a, s', fr') # ys)"
    using c by (simp add: chain_ok_def sorted_wrt_append apart_def)
  moreover have "blk_ok m (a, s', fr')" using D(2-4) s' by (simp add: blk_ok_def)
  then have "\<forall>b\<in>set (xs @ (a, s', fr') # ys). blk_ok m b" using c unfolding chain_ok_def by auto
  ultimately show ?thesis using D(8) unfolding chain_ok_def by simp
qed

lemma set_free_ok:
  assumes c: "chain_ok m (xs @ (a, s, fr) # ys)"
  shows "set_free a b m = Some (m\<lparr>rbytes := (rbytes m)(a + 8 := of_bool b)\<rparr>)"
    "chain_ok (m\<lparr>rbytes := (rbytes m)(a + 8 := of_bool b)\<rparr>) (xs @ (a, s, b) # ys)"
proof -
  note D = chain_okD [OF c]
  show "set_free a b m = Some (m\<lparr>rbytes := (rbytes m)(a + 8 := of_bool b)\<rparr>)" using D(10) by (simp add: set_free_def)
  show "chain_ok (m\<lparr>rbytes := (rbytes m)(a + 8 := of_bool b)\<rparr>) (xs @ (a, s, b) # ys)"
    by (rule chain_update [where zs = "[]"]) (use c D(5,6) header_writes(2) [OF D(1)] in auto)
qed

section \<open>Walking the list\<close>

lemma last_block_ok: "chain_ok m (xs @ bs) \<Longrightarrow> bs \<noteq> [] \<Longrightarrow> last_block m (start_of bs 0) = Some (fst (last bs))"
proof (induction bs arbitrary: xs)
  case (Cons b bs)
  obtain a s fr where b: "b = (a, s, fr)" by (cases b)
  note c = Cons.prems(1) [unfolded b]
  show ?case
  proof (cases bs)
    case Nil
    then show ?thesis using chain_get(3) [OF c] b by (subst last_block.simps) simp
  next
    case (Cons b' bs')
    then have "start_of bs 0 \<noteq> 0" using c by (cases b') (auto simp: chain_ok_def blk_ok_def)
    then show ?thesis using chain_get(3) [OF c] Cons.IH [OF chain_okD(7) [OF c]] Cons b by (subst last_block.simps) simp
  qed
qed simp

definition fits :: "int \<Rightarrow> blk \<Rightarrow> bool" where
  "fits sz b \<longleftrightarrow> (case b of (a, s, fr) \<Rightarrow> fr \<and> s \<ge> sz)"

lemma find_from_ok:
  "chain_ok m (xs @ bs) \<Longrightarrow> find_from sz m (start_of bs 0) = Some (start_of (dropWhile (\<lambda>b. \<not> fits sz b) bs) 0)"
proof (induction bs arbitrary: xs)
  case Nil
  then show ?case by (subst find_from.simps) simp
next
  case (Cons b bs)
  obtain a s fr where b: "b = (a, s, fr)" by (cases b)
  note c = Cons.prems(1) [unfolded b]
  have "a \<noteq> 0" using chain_okD(3) [OF c] by simp
  then show ?case using chain_get [OF c] Cons.IH [OF chain_okD(7) [OF c]] b
    by (subst find_from.simps) (simp add: fits_def)
qed

fun merge_blks :: "blk list \<Rightarrow> blk list" where
  "merge_blks [] = []"
| "merge_blks [b] = [b]"
| "merge_blks ((a, s, f) # (b, t, g) # r) =
     (if f \<and> g then merge_blks ((a, (s + (32 + t)) mod 2 ^ 64, True) # r) else (a, s, f) # merge_blks ((b, t, g) # r))"

definition off_headers :: "blk list \<Rightarrow> int \<Rightarrow> bool" where
  "off_headers bs x \<longleftrightarrow> (\<forall>(a, s, fr) \<in> set bs. x < a \<or> a + 32 \<le> x)"

lemma absorb_ok:
  assumes c: "chain_ok m (xs @ (a, s, True) # (b, t, True) # r)"
  defines "g \<equiv> put_le 8 (a + 16) (start_of r 0) (put_le 8 a ((s + (32 + t)) mod 2 ^ 64) (rbytes m))"
  shows "coalesce_from a m = coalesce_from a (m\<lparr>rbytes := g\<rparr>)"
    "chain_ok (m\<lparr>rbytes := g\<rparr>) (xs @ (a, (s + (32 + t)) mod 2 ^ 64, True) # r)"
    "x < a \<or> a + 32 \<le> x \<Longrightarrow> g x = rbytes m x"
proof -
  note D = chain_okD [OF c]
  have c2: "chain_ok m ((xs @ [(a, s, True)]) @ (b, t, True) # r)" using c by simp
  note E = chain_okD [OF c2]
  let ?v = "(s + (32 + t)) mod 2 ^ 64" and ?n = "start_of r 0"
  let ?h = "put_le 8 a ?v (rbytes m)"
  have v: "0 \<le> ?v" "?v < 2 ^ 64" by simp_all
  have n: "0 \<le> ?n" "?n < 2 ^ 64" using c start_of_bounds [of r m] by (simp_all add: chain_ok_def)
  have H: "header_at ?h a ?v True b" using header_writes(1) [OF D(1) v] by simp
  show hdr: "chain_ok (m\<lparr>rbytes := g\<rparr>) (xs @ (a, ?v, True) # r)"
    by (rule chain_update [where zs = "[(b, t, True)]" and s = s and fr = True])
      (use c v header_writes(3) [OF H n] in \<open>auto simp: g_def put_le_outside\<close>)
  show "g x = rbytes m x" if "x < a \<or> a + 32 \<le> x" using that by (auto simp: g_def put_le_outside)
  have ab: "a + 32 \<le> b \<or> b + 32 \<le> a" by (rule D(12) [of b t True]) simp
  have "get_next (m\<lparr>rbytes := ?h\<rparr>) b = Some ?n"
    using ab E(1,11) le_val_put_other [of a 8 "b + 16" ?v "rbytes m"] by (auto simp: get_next_def header_at_def)
  moreover have "set_size a ?v m = Some (m\<lparr>rbytes := ?h\<rparr>)" "set_next a ?n (m\<lparr>rbytes := ?h\<rparr>) = Some (m\<lparr>rbytes := g\<rparr>)"
    using D(9,11) by (simp_all add: set_size_def set_next_def g_def)
  ultimately show "coalesce_from a m = coalesce_from a (m\<lparr>rbytes := g\<rparr>)"
    using D(3) E(3) chain_get [OF c] chain_get [OF c2] by (subst coalesce_from.simps) simp
qed

lemma coalesce_from_ok:
  "chain_ok m (xs @ bs) \<Longrightarrow> \<exists>g. coalesce_from (start_of bs 0) m = Some (m\<lparr>rbytes := g\<rparr>) \<and>
     chain_ok (m\<lparr>rbytes := g\<rparr>) (xs @ merge_blks bs) \<and> (\<forall>x. off_headers bs x \<longrightarrow> g x = rbytes m x)"
proof (induction bs arbitrary: xs m rule: merge_blks.induct)
  case 1
  then show ?case by (intro exI [of _ "rbytes m"]) (subst coalesce_from.simps, simp)
next
  case (2 b)
  obtain a s fr where b: "b = (a, s, fr)" by (cases b)
  have "coalesce_from a m = Some m" using chain_get(3) 2 [unfolded b] by (subst coalesce_from.simps) simp
  then show ?case using 2 b by (intro exI [of _ "rbytes m"]) simp
next
  case (3 a s f b t g r)
  have c2: "chain_ok m ((xs @ [(a, s, f)]) @ (b, t, g) # r)" using 3(3) by simp
  show ?case
  proof (cases "f \<and> g")
    case True
    then have c: "chain_ok m (xs @ (a, s, True) # (b, t, True) # r)" using 3(3) by simp
    from 3(1) [OF True absorb_ok(2) [OF c]] obtain h where h:
      "coalesce_from a m = Some (m\<lparr>rbytes := h\<rparr>)"
      "chain_ok (m\<lparr>rbytes := h\<rparr>) (xs @ merge_blks ((a, (s + (32 + t)) mod 2 ^ 64, True) # r))"
      "\<forall>x. off_headers ((a, (s + (32 + t)) mod 2 ^ 64, True) # r) x \<longrightarrow>
         h x = put_le 8 (a + 16) (start_of r 0) (put_le 8 a ((s + (32 + t)) mod 2 ^ 64) (rbytes m)) x"
      unfolding absorb_ok(1) [OF c] by auto
    have "h x = rbytes m x" if "off_headers ((a, s, f) # (b, t, g) # r) x" for x
      using h(3) absorb_ok(3) [OF c, of x] that by (simp add: off_headers_def)
    then show ?thesis using h(1,2) True by (intro exI [of _ h]) simp
  next
    case False
    from 3(2) [OF False c2] obtain h where h: "coalesce_from b m = Some (m\<lparr>rbytes := h\<rparr>)"
      "chain_ok (m\<lparr>rbytes := h\<rparr>) ((xs @ [(a, s, f)]) @ merge_blks ((b, t, g) # r))"
      "\<forall>x. off_headers ((b, t, g) # r) x \<longrightarrow> h x = rbytes m x" by auto
    have "coalesce_from a m = coalesce_from b m"
      using chain_okD(3) [OF 3(3)] chain_okD(3) [OF c2] chain_get [OF 3(3)] chain_get [OF c2] False
      by (subst coalesce_from.simps) auto
    then show ?thesis using h False by (intro exI [of _ h]) (auto simp: off_headers_def)
  qed
qed

section \<open>The heap\<close>

text \<open>What \<open>mmap\<close> documents of an anonymous mapping whose address the kernel chooses: it is page aligned, not null,
  inside the address space and apart from the mappings there are.\<close>

definition mmap_ok :: "os \<Rightarrow> bool" where
  "mmap_ok os \<longleftrightarrow> (\<forall>rs n a. os rs n = Some a \<longrightarrow>
     0 < a \<and> a mod 4096 = 0 \<and> a + n < 2 ^ 64 \<and> (\<forall>(s, k) \<in> set rs. a + n \<le> s \<or> s + k \<le> a))"

text \<open>The blocks are aligned, in mapped memory, and do not overlap; their order in memory is not that of the list.\<close>

definition blk_in :: "rheap \<Rightarrow> blk \<Rightarrow> bool" where
  "blk_in m b \<longleftrightarrow> (case b of (a, s, fr) \<Rightarrow> 0 < a \<and> a mod 16 = 0 \<and> 0 \<le> s \<and> s mod 16 = 0 \<and> a + 32 + s < 2 ^ 64 \<and>
     (\<forall>x. a \<le> x \<and> x < a + 32 + s \<longrightarrow> mapped m x))"

definition clear :: "blk \<Rightarrow> blk \<Rightarrow> bool" where
  "clear b c \<longleftrightarrow> fst b + 32 + fst (snd b) \<le> fst c \<or> fst c + 32 + fst (snd c) \<le> fst b"

definition laid :: "rheap \<Rightarrow> blk list \<Rightarrow> bool" where
  "laid m bs \<longleftrightarrow> (\<forall>b\<in>set bs. blk_in m b) \<and> sorted_wrt clear bs"

definition heap_good :: "rheap \<Rightarrow> blk list \<Rightarrow> bool" where
  "heap_good m bs \<longleftrightarrow> linked (rbytes m) bs 0 \<and> g_heap_head m = start_of bs 0 \<and> laid m bs"

text \<open>Neighbours of the list that are both free are neighbours in memory; and a block that does not follow its
  predecessor in memory is the first of a region.\<close>

fun joins :: "blk list \<Rightarrow> bool" where
  "joins ((a, s, f) # (b, t, g) # r) = ((f \<and> g \<longrightarrow> b = a + 32 + s) \<and> joins ((b, t, g) # r))"
| "joins _ = True"

fun seams :: "rheap \<Rightarrow> blk list \<Rightarrow> bool" where
  "seams m [] = True"
| "seams m ((a, s, f) # r) = ((r = [] \<or> start_of r 0 = a + 32 + s \<or> start_of r 0 \<in> fst ` set (maps m)) \<and> seams m r)"

definition used :: "blk list \<Rightarrow> (int \<times> int) set" where
  "used bs = {(a + 32, s) |a s. (a, s, False) \<in> set bs}"

lemma used_simps [simp]: "used [] = {}" "used ((a, s, fr) # bs) = (if fr then {} else {(a + 32, s)}) \<union> used bs"
  "used (xs @ ys) = used xs \<union> used ys"
  by (auto simp: used_def)

lemma blk_in_bytes [simp]: "blk_in (m\<lparr>rbytes := g\<rparr>) = blk_in m" "laid (m\<lparr>rbytes := g\<rparr>) = laid m" "seams (m\<lparr>rbytes := g\<rparr>) bs = seams m bs"
proof -
  show b: "blk_in (m\<lparr>rbytes := g\<rparr>) = blk_in m" by (intro ext) (simp add: blk_in_def)
  show "laid (m\<lparr>rbytes := g\<rparr>) = laid m" by (intro ext) (simp only: laid_def b)
  show "seams (m\<lparr>rbytes := g\<rparr>) bs = seams m bs" by (induction bs) auto
qed

lemma clear_sym: "clear b c = clear c b"
  by (auto simp: clear_def)

lemma laid_mid:
  "laid m (xs @ b # ys) \<longleftrightarrow> laid m (xs @ ys) \<and> blk_in m b \<and> (\<forall>c\<in>set xs \<union> set ys. clear b c)"
  by (auto simp: laid_def sorted_wrt_append clear_sym)

lemma laid_blk: "laid m bs \<Longrightarrow> (a, s, fr) \<in> set bs \<Longrightarrow>
    0 < a \<and> a mod 16 = 0 \<and> 0 \<le> s \<and> s mod 16 = 0 \<and> a + 32 + s < 2 ^ 64 \<and> (\<forall>x. a \<le> x \<and> x < a + 32 + s \<longrightarrow> mapped m x)"
  by (auto simp: laid_def blk_in_def)

lemma laid_apart:
  assumes "laid m bs"
  shows "sorted_wrt apart bs"
proof (rule sorted_wrt_mono_rel)
  show "sorted_wrt clear bs" using assms by (simp add: laid_def)
  fix b c assume "b \<in> set bs" "c \<in> set bs" "clear b c"
  then show "apart b c"
    using laid_blk [OF assms, of "fst b" "fst (snd b)" "snd (snd b)"] laid_blk [OF assms, of "fst c" "fst (snd c)" "snd (snd c)"]
    by (auto simp: clear_def apart_def)
qed

lemma heap_chain:
  assumes "heap_good m bs"
  shows "chain_ok m bs"
proof -
  have l: "laid m bs" using assms by (simp add: heap_good_def)
  have "blk_ok m b" if "b \<in> set bs" for b
    using laid_blk [OF l, of "fst b" "fst (snd b)" "snd (snd b)"] that by (auto simp: blk_ok_def hmapped_def split: prod.splits)
  then show ?thesis using assms laid_apart [OF l] by (simp add: heap_good_def chain_ok_def)
qed

lemma heap_goodI: "chain_ok (m\<lparr>rbytes := g\<rparr>) bs \<Longrightarrow> laid m bs \<Longrightarrow> heap_good (m\<lparr>rbytes := g\<rparr>) bs"
  by (simp add: heap_good_def chain_ok_def)

lemma laid_disjoint:
  assumes "laid m (xs @ (a, s, fr) # ys)" "(b, t, g) \<in> set xs \<union> set ys"
  shows "b + 32 + t \<le> a \<or> a + 32 + s \<le> b"
proof -
  have "clear (a, s, fr) (b, t, g)" using assms unfolding laid_mid by blast
  then show ?thesis by (auto simp: clear_def)
qed

lemma laid_flag: "laid m (xs @ (a, s, f) # ys) = laid m (xs @ (a, s, g) # ys)"
  by (simp add: laid_mid blk_in_def clear_def)

lemma seams_append: "seams m (xs @ (a, s, f) # ys) \<longleftrightarrow> seams m (xs @ [(a, s, g)]) \<and> seams m ((a, s, h) # ys)"
  by (induction xs rule: seams.induct [of _ m]) (auto simp: append_eq_Cons_conv)

lemma merge_Nil [simp]: "merge_blks bs = [] \<longleftrightarrow> bs = []"
  by (induction bs rule: merge_blks.induct) auto

lemma merge_start [simp]: "start_of (merge_blks bs) p = start_of bs p"
  by (induction bs rule: merge_blks.induct) auto

text \<open>Joining two free blocks that are neighbours in memory.\<close>

lemma laid_join:
  assumes "laid m (xs @ (a, s, f) # (a + 32 + s, t, g) # r)"
  shows "laid m (xs @ (a, s + (32 + t), h) # r)" "(s + (32 + t)) mod 2 ^ 64 = s + (32 + t)"
proof -
  have l: "laid m (xs @ r)" "blk_in m (a, s, f)" "blk_in m (a + 32 + s, t, g)"
    and c: "\<forall>c\<in>set xs \<union> set r. clear (a, s, f) c \<and> clear (a + 32 + s, t, g) c"
    using assms laid_mid [of m "xs @ [(a, s, f)]" "(a + 32 + s, t, g)" r] by (auto simp: laid_mid)
  have s: "0 \<le> s" "0 \<le> t" "s mod 16 = 0" "t mod 16 = 0" "0 < a" "a + 32 + s + 32 + t < 2 ^ 64" using l(2,3) by (simp_all add: blk_in_def)
  then show "(s + (32 + t)) mod 2 ^ 64 = s + (32 + t)" by simp
  have "(s + (32 + t)) mod 16 = 0" using s(3,4) by presburger
  then have b: "blk_in m (a, s + (32 + t), h)" using l(2,3) unfolding blk_in_def by (auto simp: algebra_simps) (smt (verit))
  have "clear (a, s + (32 + t), h) c" if c': "c \<in> set xs \<union> set r" for c
  proof -
    have "clear (a, s, f) c" "clear (a + 32 + s, t, g) c" using c c' by blast+
    moreover have "0 \<le> fst (snd c)" using laid_blk [OF l(1), of "fst c" "fst (snd c)" "snd (snd c)"] c' by simp
    ultimately show ?thesis using s(1,2) unfolding clear_def fst_conv snd_conv by linarith
  qed
  then show "laid m (xs @ (a, s + (32 + t), h) # r)" using l(1) b by (simp add: laid_mid)
qed

lemma merge_laid:
  "laid m (xs @ bs) \<Longrightarrow> joins bs \<Longrightarrow>
     laid m (xs @ merge_blks bs) \<and> used (merge_blks bs) = used bs \<and> (seams m bs \<longrightarrow> seams m (merge_blks bs))"
proof (induction bs arbitrary: xs rule: merge_blks.induct)
  case (3 a s f b t g r)
  show ?case
  proof (cases "f \<and> g")
    case True
    then have b: "b = a + 32 + s" using 3(4) by simp
    note J = laid_join [OF 3(3) [unfolded b]]
    have "joins ((a, s + (32 + t), True) # r)" using 3(4) True b by (cases r) auto
    moreover have "seams m ((a, s, f) # (b, t, g) # r) \<Longrightarrow> seams m ((a, s + (32 + t), True) # r)" by (auto simp: b algebra_simps)
    ultimately show ?thesis using 3(1) [OF True, of xs] J True by (simp add: J(2))
  next
    case False
    have "joins ((b, t, g) # r)" using 3(4) by simp
    from 3(2) [OF False _ this, of "xs @ [(a, s, f)]"] 3(3) have
      "laid m (xs @ (a, s, f) # merge_blks ((b, t, g) # r))" "used (merge_blks ((b, t, g) # r)) = used ((b, t, g) # r)"
      "seams m ((b, t, g) # r) \<longrightarrow> seams m (merge_blks ((b, t, g) # r))" by simp_all
    moreover have "merge_blks ((a, s, f) # (b, t, g) # r) = (a, s, f) # merge_blks ((b, t, g) # r)" using False by (simp only: merge_blks.simps if_False)
    ultimately show ?thesis by (simp del: merge_blks.simps)
  qed
qed auto

text \<open>Payloads do not meet headers or other payloads.\<close>

lemma payload_off:
  assumes "laid m (xs @ (a, s, fr) # ys)" "a + 32 \<le> x" "x < a + 32 + s"
  shows "off_headers (xs @ (a, s, fr) # ys) x"
proof -
  have "x < b \<or> b + 32 \<le> x" if "(b, t, g) \<in> set xs \<union> set ys" for b t g
  proof -
    have "0 \<le> t" using laid_blk [OF assms(1), of b t g] that by auto
    then show ?thesis using laid_disjoint [OF assms(1) that] assms(2,3) by auto
  qed
  then show ?thesis using assms(2) unfolding off_headers_def by fastforce
qed

lemma usedE:
  assumes "(p, k) \<in> used bs"
  obtains xs ys where "bs = xs @ (p - 32, k, False) # ys"
proof -
  have "(p - 32, k, False) \<in> set bs" using assms by (auto simp: used_def)
  then show thesis using that by (meson split_list)
qed

definition kept_used :: "(int \<times> int) set \<Rightarrow> rheap \<Rightarrow> rheap \<Rightarrow> bool" where
  "kept_used K m m' \<longleftrightarrow> (\<forall>(p, k) \<in> K. \<forall>x. p \<le> x \<and> x < p + k \<longrightarrow> rbytes m' x = rbytes m x)"

lemma kept_usedI:
  "(\<And>p k x. (p, k) \<in> K \<Longrightarrow> p \<le> x \<Longrightarrow> x < p + k \<Longrightarrow> rbytes m' x = rbytes m x) \<Longrightarrow> kept_used K m m'"
  unfolding kept_used_def by blast

lemma kept_off:
  assumes "laid m bs" "\<And>x. off_headers bs x \<Longrightarrow> mapped m x \<Longrightarrow> rbytes m2 x = rbytes m1 x"
  shows "kept_used (used bs) m1 m2"
proof (rule kept_usedI)
  fix p k x assume x: "(p, k) \<in> used bs" "p \<le> x" "x < p + k"
  from x(1) obtain xs ys where bs: "bs = xs @ (p - 32, k, False) # ys" by (rule usedE)
  have "mapped m x" using laid_blk [OF assms(1), of "p - 32" k False] x(2,3) by (simp add: bs)
  then show "rbytes m2 x = rbytes m1 x" using payload_off [of m xs "p - 32" k False ys x] assms bs x(2,3) by simp
qed

lemma region_kept_trans: "kept_used K m m' \<Longrightarrow> kept_used K' m' m'' \<Longrightarrow> K \<subseteq> K' \<Longrightarrow> kept_used K m m''"
  unfolding kept_used_def by fastforce

section \<open>Releasing\<close>

lemma my_free_chain:
  assumes c: "chain_ok m (xs @ (a, k, f) # ys)" and a: "a + 32 < 2 ^ 64"
  shows "\<exists>g. my_free (a + 32) m = Some (m\<lparr>rbytes := g\<rparr>) \<and> chain_ok (m\<lparr>rbytes := g\<rparr>) (merge_blks (xs @ (a, k, True) # ys)) \<and>
    (\<forall>x. off_headers (xs @ (a, k, True) # ys) x \<longrightarrow> g x = rbytes m x)"
proof -
  let ?bs = "xs @ (a, k, True) # ys" and ?m = "m\<lparr>rbytes := (rbytes m)(a + 8 := of_bool True)\<rparr>"
  note D = chain_okD [OF c]
  have c1: "chain_ok ?m ([] @ ?bs)" using set_free_ok(2) [OF c, of True] by simp
  from coalesce_from_ok [OF c1] obtain g where g: "coalesce_from (start_of ?bs 0) ?m = Some (?m\<lparr>rbytes := g\<rparr>)"
    "chain_ok (?m\<lparr>rbytes := g\<rparr>) (merge_blks ?bs)" "\<forall>x. off_headers ?bs x \<longrightarrow> g x = rbytes ?m x" by auto
  have "my_free (a + 32) m = Some (m\<lparr>rbytes := g\<rparr>)"
    using D(3,4) a set_free_ok(1) [OF c, of True] g(1) D(8) by (simp add: my_free_def region_coalesce_def)
  moreover have "g x = rbytes m x" if "off_headers ?bs x" for x using g(3) that by (auto simp: off_headers_def)
  ultimately show ?thesis using g(2) by (intro exI [of _ g]) simp
qed

lemma my_free_ok:
  assumes h: "heap_good m (xs @ (a, k, False) # ys)" and j: "joins (xs @ (a, k, True) # ys)"
  shows "\<exists>m' bs'. my_free (a + 32) m = Some m' \<and> heap_good m' bs' \<and> used bs' = used xs \<union> used ys \<and>
    kept_used (used xs \<union> used ys) m m' \<and> maps m' = maps m \<and> (seams m (xs @ (a, k, False) # ys) \<longrightarrow> seams m' bs')"
proof -
  let ?bs = "xs @ (a, k, True) # ys"
  have l: "laid m ?bs" using h laid_flag [of m xs a k True ys False] by (simp add: heap_good_def)
  have "a + 32 < 2 ^ 64" using laid_blk [OF l, of a k True] by simp
  from my_free_chain [OF heap_chain [OF h] this] obtain g where g: "my_free (a + 32) m = Some (m\<lparr>rbytes := g\<rparr>)"
    "chain_ok (m\<lparr>rbytes := g\<rparr>) (merge_blks ?bs)" "\<forall>x. off_headers ?bs x \<longrightarrow> g x = rbytes m x" by blast
  have M: "laid m (merge_blks ?bs)" "used (merge_blks ?bs) = used ?bs" "seams m ?bs \<longrightarrow> seams m (merge_blks ?bs)"
    using merge_laid [of m "[]" ?bs] l j by simp_all
  have "heap_good (m\<lparr>rbytes := g\<rparr>) (merge_blks ?bs)" by (rule heap_goodI [OF g(2) M(1)])
  moreover have "kept_used (used ?bs) m (m\<lparr>rbytes := g\<rparr>)" by (rule kept_off [OF l]) (use g(3) in simp)
  moreover have "seams m (xs @ (a, k, False) # ys) = seams m ?bs" by (simp only: seams_append [of m xs a k _ ys True True])
  ultimately show ?thesis using g(1) M(2,3) by (intro exI [of _ "m\<lparr>rbytes := g\<rparr>"] exI [of _ "merge_blks ?bs"]) simp
qed

section \<open>Splitting and acquiring\<close>

lemma header_new:
  assumes "0 \<le> v" "v < 2 ^ 64" "0 \<le> nx" "nx < 2 ^ 64"
  shows "header_at (put_le 8 (c + 16) nx ((put_le 8 c v f)(c + 8 := of_bool b))) c v b nx"
proof -
  have "header_at f c (le_val 8 f c) (f (c + 8) \<noteq> 0) (le_val 8 f (c + 16))" by (simp add: header_at_def)
  then show ?thesis by (intro header_writes(3) header_writes(2) header_writes(1)) (use assms in auto)
qed

lemma region_chain_insert:
  assumes c: "chain_ok m (xs @ (a, s, fr) # zs @ ys)"
    and out: "\<And>x. x < a \<or> a + 24 \<le> x \<Longrightarrow> x < b \<or> b + 24 \<le> x \<Longrightarrow> g x = rbytes m x"
    and h: "header_at g a n fr b" "0 \<le> n" "n < 2 ^ 64"
    and k: "header_at g b t True (start_of ys 0)" "blk_ok m (b, t, True)"
    and ab: "a + 32 \<le> b" and ap: "\<forall>d\<in>set xs \<union> set ys. apart (b, t, True) d"
  shows "chain_ok (m\<lparr>rbytes := g\<rparr>) (xs @ (a, n, fr) # (b, t, True) # ys)"
proof -
  note D = chain_okD [OF c]
  have o: "g x = rbytes m x" if "(d, e, f) \<in> set xs \<union> set ys" "d \<le> x" "x < d + 24" for d e f x
  proof -
    have "a + 32 \<le> d \<or> d + 32 \<le> a" by (rule D(12)) (use that(1) in auto)
    moreover have "b + 32 \<le> d \<or> d + 32 \<le> b" using bspec [OF ap that(1)] by (simp add: apart_def)
    ultimately show ?thesis using that(2,3) by (intro out) auto
  qed
  have "linked g xs a = linked (rbytes m) xs a" "linked g ys 0 = linked (rbytes m) ys 0"
    by (rule linked_cong; rule o; auto)+
  moreover have "linked (rbytes m) xs a" "linked (rbytes m) ys 0" using c by (simp_all add: chain_ok_def linked_append)
  ultimately have "linked g (xs @ (a, n, fr) # (b, t, True) # ys) 0" using h k by (simp add: linked_append)
  moreover have "sorted_wrt apart (xs @ (a, n, fr) # (b, t, True) # ys)"
  proof -
    have "sorted_wrt apart (xs @ (a, s, fr) # zs @ ys)" using c by (simp add: chain_ok_def)
    then have "sorted_wrt apart xs" "sorted_wrt apart ys" "\<forall>d\<in>set xs. apart d (a, s, fr)" "\<forall>d\<in>set ys. apart (a, s, fr) d"
      "\<forall>d\<in>set xs. \<forall>e\<in>set ys. apart d e" by (simp_all add: sorted_wrt_append)
    then show ?thesis using ap ab by (auto simp: sorted_wrt_append apart_def)
  qed
  moreover have "blk_ok m (a, n, fr)" using D(2-4) h by (simp add: blk_ok_def)
  then have "\<forall>d\<in>set (xs @ (a, n, fr) # (b, t, True) # ys). blk_ok m d" using c k(2) unfolding chain_ok_def by auto
  ultimately show ?thesis using D(8) unfolding chain_ok_def by simp
qed

definition cut :: "int \<Rightarrow> int \<Rightarrow> int \<Rightarrow> bool \<Rightarrow> blk list" where
  "cut a s n fr = (if s - n > 48 then [(a, n, fr), (a + 32 + n, s - n - 32, True)] else [(a, s, fr)])"

lemma blk_in_cut:
  assumes "blk_in m (a, s, fr)" "0 \<le> n" "n mod 16 = 0" "s - n > 48"
  shows "blk_in m (a, n, fr)" "blk_in m (a + 32 + n, s - n - 32, True)"
proof -
  have "s mod 16 = 0" "a mod 16 = 0" using assms(1) by (simp_all add: blk_in_def)
  then have "(s - n - 32) mod 16 = 0" "(a + 32 + n) mod 16 = 0" using assms(3) by presburger+
  then show "blk_in m (a, n, fr)" "blk_in m (a + 32 + n, s - n - 32, True)" using assms by (auto simp: blk_in_def)
qed

lemma cut_laid:
  assumes "laid m (xs @ (a, s, fr) # ys)" "0 \<le> n" "n \<le> s" "n mod 16 = 0"
  shows "laid m (xs @ cut a s n fr @ ys)"
proof (cases "s - n > 48")
  case True
  have l: "laid m (xs @ ys)" "blk_in m (a, s, fr)" "\<forall>c\<in>set xs \<union> set ys. clear (a, s, fr) c" using assms(1) by (simp_all add: laid_mid)
  have "clear (a, n, fr) c \<and> clear (a + 32 + n, s - n - 32, True) c" if "c \<in> set xs \<union> set ys" for c
  proof -
    have "clear (a, s, fr) c" using l(3) that by blast
    then show ?thesis using assms(2,3) True by (auto simp: clear_def)
  qed
  moreover have "clear (a, n, fr) (a + 32 + n, s - n - 32, True)" by (simp add: clear_def)
  ultimately show ?thesis using l(1) blk_in_cut [OF l(2) assms(2,4) True] True by (auto simp: cut_def laid_mid)
qed (use assms in \<open>simp add: cut_def\<close>)

lemma cut_seams:
  assumes "seams m (xs @ (a, s, f) # ys)"
  shows "seams m (xs @ cut a s n g @ ys)"
proof -
  have "seams m ((a, s, f) # ys)" using assms seams_append [of m xs a s f ys f f] by blast
  then have "seams m (cut a s n g @ ys)" by (auto simp: cut_def algebra_simps)
  moreover have "seams m (xs @ [(a, t, h)])" for t h
    using assms by (induction xs rule: seams.induct [of _ m]) (auto simp: append_eq_Cons_conv)
  ultimately show ?thesis using seams_append [of m xs a n g _ g g] seams_append [of m xs a s g ys g g] by (auto simp: cut_def)
qed

lemma region_split_ok:
  assumes h: "heap_good m (xs @ (a, s, fr) # ys)" and n: "0 \<le> n" "n \<le> s" "n mod 16 = 0"
  shows "\<exists>g. split_block a n m = Some (m\<lparr>rbytes := g\<rparr>) \<and> heap_good (m\<lparr>rbytes := g\<rparr>) (xs @ cut a s n fr @ ys) \<and>
    (\<forall>x. off_headers (xs @ cut a s n fr @ ys) x \<longrightarrow> g x = rbytes m x)"
proof (cases "s - n > 48")
  case False
  have "split_block a n m = Some m"
    using chain_get(1) [OF heap_chain [OF h]] False n chain_okD(5,6) [OF heap_chain [OF h]]
    by (simp add: split_block_def ALIGNMENT_def Let_def)
  then show ?thesis using h False by (intro exI [of _ "rbytes m"]) (simp add: cut_def)
next
  case True
  note c = heap_chain [OF h]
  note D = chain_okD [OF c]
  have l: "laid m (xs @ (a, s, fr) # ys)" using h by (simp add: heap_good_def)
  let ?b = "a + 32 + n" and ?t = "s - n - 32" and ?nx = "start_of ys 0"
  have nx: "0 \<le> ?nx" "?nx < 2 ^ 64" using c start_of_bounds [of ys m] by (simp_all add: chain_ok_def)
  have bo: "blk_ok m (?b, ?t, True)" using laid_blk [OF l, of a s fr] n True by (auto simp: blk_ok_def hmapped_def)
  note F = fields_mapped [of m ?b]
  define f1 where "f1 = (put_le 8 ?b ?t (rbytes m))(?b + 8 := of_bool True)"
  define f2 where "f2 = put_le 8 (?b + 16) ?nx f1"
  define f3 where "f3 = put_le 8 a n f2"
  define f4 where "f4 = put_le 8 (a + 16) ?b f3"
  note defs = f1_def f2_def f3_def f4_def
  have o1: "f1 x = rbytes m x" "f2 x = rbytes m x" if "x < ?b \<or> ?b + 24 \<le> x" for x
    using that by (auto simp: f1_def f2_def put_le_outside)
  have o3: "f4 x = f2 x" if "x < a \<or> a + 24 \<le> x" for x using that by (auto simp: f3_def f4_def put_le_outside)
  have H1: "header_at f1 a s fr ?nx" "header_at f2 a s fr ?nx"
    using D(1) header_cong [of a f1 "rbytes m"] header_cong [of a f2 "rbytes m"] o1 n(1) by auto
  have H4: "header_at f4 a n fr ?b"
    unfolding f4_def f3_def
    by (rule header_writes(3) [OF header_writes(1) [OF H1(2)]]) (use bo n D(5,6) in \<open>auto simp: blk_ok_def\<close>)
  have "header_at f2 ?b ?t True ?nx" unfolding f2_def f1_def by (rule header_new) (use bo nx in \<open>auto simp: blk_ok_def\<close>)
  then have K4: "header_at f4 ?b ?t True ?nx" using header_cong [of ?b f4 f2] o3 n(1) by auto
  have "apart (?b, ?t, True) d" if "d \<in> set xs \<union> set ys" for d
    using laid_disjoint [OF l, of "fst d" "fst (snd d)" "snd (snd d)"] laid_blk [OF l, of "fst d" "fst (snd d)" "snd (snd d)"] that n True
    by (auto simp: apart_def)
  then have ch: "chain_ok (m\<lparr>rbytes := f4\<rparr>) (xs @ (a, n, fr) # (?b, ?t, True) # ys)"
    by (intro region_chain_insert [where zs = "[]" and s = s]) (use c o1 o3 H4 K4 bo n D(5,6) in auto)
  have "heap_good (m\<lparr>rbytes := f4\<rparr>) (xs @ cut a s n fr @ ys)"
    by (rule heap_goodI) (use ch True cut_laid [OF l n] in \<open>simp_all add: cut_def\<close>)
  moreover have "split_block a n m = Some (m\<lparr>rbytes := f4\<rparr>)"
  proof -
    have r: "(s - n) mod 18446744073709551616 = s - n" "?t mod 18446744073709551616 = ?t" "?b mod 18446744073709551616 = ?b"
      using bo n D(5,6) True by (simp_all add: blk_ok_def)
    have "get_next (m\<lparr>rbytes := f1\<rparr>) a = Some ?nx" using H1(1) D(11) by (simp add: get_next_def header_at_def)
    moreover have "hmapped m ?b" using bo by (simp add: blk_ok_def)
    ultimately show ?thesis
      using chain_get(1) [OF c] F D(9,11) True
      by (simp add: split_block_def r ALIGNMENT_def Let_def set_size_def set_free_def set_next_def f4_def f3_def f2_def f1_def)
  qed
  moreover have "\<forall>x. off_headers (xs @ cut a s n fr @ ys) x \<longrightarrow> f4 x = rbytes m x"
    using o1(2) o3 True by (auto simp: off_headers_def cut_def)
  ultimately show ?thesis by blast
qed

lemma chain_extend:
  assumes c: "chain_ok m bs" "bs \<noteq> []" and k: "header_at (rbytes m) a s True 0" "blk_ok m (a, s, True)"
    and ap: "\<forall>d\<in>set bs. apart d (a, s, True)"
  defines "g \<equiv> put_le 8 (fst (last bs) + 16) a (rbytes m)"
  shows "chain_ok (m\<lparr>rbytes := g\<rparr>) (bs @ [(a, s, True)])" "set_next (fst (last bs)) a m = Some (m\<lparr>rbytes := g\<rparr>)"
    "off_headers bs x \<Longrightarrow> g x = rbytes m x"
proof -
  obtain xs b t f where bs: "bs = xs @ [(b, t, f)]" using c(2) by (metis prod_cases3 rev_exhaust)
  note D = chain_okD [of m xs b t f "[]", folded bs, OF c(1)]
  have g: "g = put_le 8 (b + 16) a (rbytes m)" by (simp add: g_def bs)
  have a: "0 \<le> a" "a < 2 ^ 64" using k(2) by (simp_all add: blk_ok_def)
  have o: "g x = rbytes m x" if "x < b + 16 \<or> b + 24 \<le> x" for x using that by (auto simp: g put_le_outside)
  show "set_next (fst (last bs)) a m = Some (m\<lparr>rbytes := g\<rparr>)" using D(11) by (simp add: set_next_def g bs)
  show "g x = rbytes m x" if "off_headers bs x" using that by (intro o) (auto simp: off_headers_def bs)
  have ab: "b + 32 \<le> a \<or> a + 32 \<le> b" using ap by (simp add: bs apart_def)
  have "header_at g a s True 0" using k(1) header_cong [of a g "rbytes m" s True 0] o ab by auto
  moreover have "header_at g b t f a" unfolding g using header_writes(3) [OF D(1)] a by simp
  moreover have "linked g xs b = linked (rbytes m) xs b"
  proof (rule linked_cong, rule o)
    fix a s fr x assume "(a, s, fr) \<in> set xs" "a \<le> x" "x < a + 24"
    then show "x < b + 16 \<or> b + 24 \<le> x" using D(12) [of a s fr] by auto
  qed
  ultimately have "linked g (bs @ [(a, s, True)]) 0" using c(1) by (simp add: chain_ok_def bs linked_append)
  then show "chain_ok (m\<lparr>rbytes := g\<rparr>) (bs @ [(a, s, True)])"
    using c k(2) ap unfolding chain_ok_def by (simp add: bs sorted_wrt_append ball_Un)
qed

lemma page_aligned: "(x::int) mod 4096 = 0 \<Longrightarrow> x mod 16 = 0"
  using mod_mod_cancel [of 16 4096 x] by simp

text \<open>A mapped region of \<open>T\<close> bytes at \<open>a\<close> with its header written, not yet linked.\<close>

definition region_bytes :: "int \<Rightarrow> int \<Rightarrow> (int \<Rightarrow> int) \<Rightarrow> int \<Rightarrow> int" where
  "region_bytes a T f = put_le 8 (a + 16) 0 ((put_le 8 a (T - 32) (\<lambda>x. if a \<le> x \<and> x < a + T then 0 else f x))(a + 8 := 1))"

definition with_region :: "int \<Rightarrow> int \<Rightarrow> rheap \<Rightarrow> rheap" where
  "with_region a T m = m\<lparr>maps := maps m @ [(a, T)], rbytes := region_bytes a T (rbytes m)\<rparr>"

lemma with_region_simps [simp]:
  "rbytes (with_region a T m) = region_bytes a T (rbytes m)" "maps (with_region a T m) = maps m @ [(a, T)]"
  "g_heap_head (with_region a T m) = g_heap_head m"
  by (simp_all add: with_region_def)

lemma with_region_ok:
  assumes "0 < a" "32 \<le> T" "a + T < 2 ^ 64"
  shows "header_at (region_bytes a T f) a (T - 32) True 0" "a \<le> x \<Longrightarrow> x < a + T \<Longrightarrow> mapped (with_region a T m) x"
    "mapped m x \<Longrightarrow> mapped (with_region a T m) x" "blk_ok (with_region a T m) (a, T - 32, True)"
    "x < a \<or> a + T \<le> x \<Longrightarrow> region_bytes a T f x = f x"
proof -
  show "header_at (region_bytes a T f) a (T - 32) True 0"
    using header_new [of "T - 32" 0 a _ True] assms by (simp add: region_bytes_def)
  show ma: "mapped (with_region a T m) x" if "a \<le> x" "x < a + T" for x using that by (simp add: mapped_def)
  show "mapped (with_region a T m) x" if "mapped m x" using that by (simp add: mapped_def)
  show "blk_ok (with_region a T m) (a, T - 32, True)" using ma assms by (auto simp: blk_ok_def hmapped_def)
  show "region_bytes a T f x = f x" if "x < a \<or> a + T \<le> x" using that assms(2) by (auto simp: region_bytes_def put_le_outside)
qed

lemma init_run:
  assumes "os (maps m) T = Some a" "T = ALIGN_UP (32 + sz) 4096" "0 \<le> sz" "sz \<le> 2 ^ 64 - 4128" "0 < a" "32 \<le> T" "a + T < 2 ^ 64"
  shows "init_new_region os sz m = (if g_heap_head m = 0 then Some (a, with_region a T m\<lparr>g_heap_head := a\<rparr>)
      else do { b \<leftarrow> last_block (with_region a T m) (g_heap_head m); m \<leftarrow> set_next b a (with_region a T m); Some (a, m) })"
proof -
  define m1 where "m1 = m\<lparr>maps := maps m @ [(a, T)], rbytes := (\<lambda>x. if a \<le> x \<and> x < a + T then 0 else rbytes m x)\<rparr>"
  have w: "with_region a T m = m1\<lparr>rbytes := region_bytes a T (rbytes m)\<rparr>" by (simp add: with_region_def m1_def)
  have "hmapped m1 a" using with_region_ok(4) [OF assms(5-7), of m] by (simp add: w blk_ok_def)
  note F = fields_mapped [OF this]
  let ?z = "\<lambda>x. if a \<le> x \<and> x < a + T then 0 else rbytes m x"
  have m1: "rbytes m1 = ?z" "g_heap_head m1 = g_heap_head m" by (simp_all add: m1_def)
  have "request_os_mem os T m = (a, m1)" by (simp add: request_os_mem_def m1_def assms(1))
  moreover have "set_size a (T - 32) m1 \<bind> (\<lambda>m. set_free a True m \<bind> set_next a 0) = Some (with_region a T m)"
    using F by (simp add: set_size_def set_free_def set_next_def w region_bytes_def m1)
  moreover have "(T - 32) mod 18446744073709551616 = T - 32" "(32 + sz) mod 18446744073709551616 = 32 + sz" using assms by simp_all
  ultimately show ?thesis using assms(5)
    by (simp add: init_new_region_def MMAP_THRESHOLED_def flip: assms(2)) (auto elim!: bind_eq_SomeE)
qed

text \<open>A region the kernel has just placed: its bytes were not mapped before.\<close>

lemma mmap_okD:
  assumes "mmap_ok os" "os (maps m) T = Some a"
  shows "0 < a" "a mod 4096 = 0" "a + T < 2 ^ 64" "mapped m x \<Longrightarrow> x < a \<or> a + T \<le> x"
proof -
  have D: "0 < a \<and> a mod 4096 = 0 \<and> a + T < 2 ^ 64 \<and> (\<forall>(s, k) \<in> set (maps m). a + T \<le> s \<or> s + k \<le> a)"
    using assms unfolding mmap_ok_def by blast
  then show "0 < a" "a mod 4096 = 0" "a + T < 2 ^ 64" by blast+
  assume "mapped m x"
  then obtain s k where "(s, k) \<in> set (maps m)" "s \<le> x" "x < s + k" by (auto simp: mapped_def list_ex_iff)
  moreover from this(1) D have "a + T \<le> s \<or> s + k \<le> a" by blast
  ultimately show "x < a \<or> a + T \<le> x" by auto
qed

lemma seams_snoc: "seams m bs \<Longrightarrow> seams (with_region a T m) (bs @ [(a, s, f)])"
proof (induction bs)
  case (Cons b bs)
  obtain d t g where b: "b = (d, t, g)" by (cases b)
  have "start_of bs a = start_of bs 0" if "bs \<noteq> []" using that by (cases bs) auto
  then show ?case using Cons b by (cases "bs = []", simp) (simp, blast)
qed simp

text \<open>The first region of the heap, and a further one.\<close>

lemma init_first:
  assumes "0 < a" "a mod 4096 = 0" "32 \<le> T" "T mod 16 = 0" "a + T < 2 ^ 64"
  shows "heap_good (with_region a T m\<lparr>g_heap_head := a\<rparr>) [(a, T - 32, True)]"
proof -
  have m: "mapped (with_region a T m\<lparr>g_heap_head := a\<rparr>) x" if "a \<le> x" "x < a + T" for x using that by (simp add: mapped_def)
  have "(T - 32) mod 16 = 0" using assms(4) by presburger
  then have "blk_in (with_region a T m\<lparr>g_heap_head := a\<rparr>) (a, T - 32, True)" using assms page_aligned m by (simp add: blk_in_def)
  then show ?thesis using with_region_ok(1) [OF assms(1,3,5)] by (simp add: heap_good_def laid_def)
qed

lemma init_next:
  assumes h: "heap_good m bs" and bs: "bs \<noteq> []" and a: "0 < a" "a mod 4096 = 0" "32 \<le> T" "T mod 16 = 0" "a + T < 2 ^ 64"
    and fresh: "\<And>x. mapped m x \<Longrightarrow> x < a \<or> a + T \<le> x"
  shows "\<exists>m'. last_block (with_region a T m) (g_heap_head m) \<bind> (\<lambda>b. set_next b a (with_region a T m)) = Some m' \<and>
    heap_good m' (bs @ [(a, T - 32, True)]) \<and> kept_used (used bs) m m' \<and> (seams m bs \<longrightarrow> seams m' (bs @ [(a, T - 32, True)])) \<and>
    maps m' = maps m @ [(a, T)]"
proof -
  let ?m = "with_region a T m" and ?f = "region_bytes a T (rbytes m)"
  let ?g = "put_le 8 (fst (last bs) + 16) a ?f"
  have l: "laid m bs" "g_heap_head m = start_of bs 0" "linked (rbytes m) bs 0" using h by (auto simp: heap_good_def)
  note W = with_region_ok [OF a(1,3,5)]
  have out: "d + 32 + s \<le> a \<or> a + T \<le> d" if "(d, s, f) \<in> set bs" for d s f
  proof (rule ccontr)
    assume n: "\<not> (d + 32 + s \<le> a \<or> a + T \<le> d)"
    have B: "0 \<le> s" "\<forall>x. d \<le> x \<and> x < d + 32 + s \<longrightarrow> mapped m x" using laid_blk [OF l(1) that] by blast+
    have "d \<le> max a d \<and> max a d < d + 32 + s" "a \<le> max a d \<and> max a d < a + T" using n a(3) B(1) by auto
    then show False using fresh [of "max a d"] B(2) by (meson leD)
  qed
  have ch: "chain_ok ?m bs" unfolding chain_ok_def
  proof (intro conjI ballI)
    have "linked ?f bs 0 = linked (rbytes m) bs 0"
      by (rule linked_cong, rule W(5)) (use out laid_blk [OF l(1)] in fastforce)
    then show "linked (rbytes ?m) bs 0" using l(3) by simp
    show "sorted_wrt apart bs" using l(1) by (rule laid_apart)
    fix b assume "b \<in> set bs"
    then have "blk_ok m b" using heap_chain [OF h] by (simp add: chain_ok_def)
    then show "blk_ok ?m b" using W(3) by (auto simp: blk_ok_def hmapped_def)
  qed (simp add: l(2))
  have cl: "clear d (a, T - 32, True)" if "d \<in> set bs" for d
    using out [of "fst d" "fst (snd d)" "snd (snd d)"] that by (simp add: clear_def)
  have ap: "\<forall>d\<in>set bs. apart d (a, T - 32, True)"
  proof
    fix d assume "d \<in> set bs"
    then show "apart d (a, T - 32, True)" using cl [of d] laid_blk [OF l(1), of "fst d" "fst (snd d)" "snd (snd d)"] a(3)
      by (auto simp: apart_def clear_def)
  qed
  have hd: "header_at (rbytes ?m) a (T - 32) True 0" using W(1) by simp
  note X = chain_extend [OF ch bs hd W(4) ap, unfolded with_region_simps]
  have "heap_good (?m\<lparr>rbytes := ?g\<rparr>) (bs @ [(a, T - 32, True)])"
  proof (rule heap_goodI [OF X(1)])
    have "(T - 32) mod 16 = 0" using a(4) by presburger
    then have "blk_in ?m (a, T - 32, True)" using a page_aligned W(2) by (simp add: blk_in_def)
    moreover have "\<forall>b\<in>set bs. blk_in ?m b" using l(1) W(3) by (auto simp: laid_def blk_in_def)
    ultimately show "laid ?m (bs @ [(a, T - 32, True)])" using l(1) cl by (simp add: laid_def sorted_wrt_append)
  qed
  moreover have "kept_used (used bs) m (?m\<lparr>rbytes := ?g\<rparr>)" by (rule kept_off [OF l(1)]) (use X(3) W(5) fresh in auto)
  moreover have "seams m bs \<longrightarrow> seams (?m\<lparr>rbytes := ?g\<rparr>) (bs @ [(a, T - 32, True)])" by (simp add: seams_snoc)
  ultimately show ?thesis using last_block_ok [of ?m "[]" bs] ch bs X(2) l(2)
    by (intro exI [of _ "?m\<lparr>rbytes := ?g\<rparr>"]) simp
qed

lemma init_at:
  assumes os: "mmap_ok os" and h: "heap_good m bs" and sz: "0 \<le> sz" "sz \<le> 2 ^ 64 - 4128"
    and T: "T = ALIGN_UP (32 + sz) 4096" and a: "os (maps m) T = Some a"
  shows "\<exists>m'. init_new_region os sz m = Some (a, m') \<and> heap_good m' (bs @ [(a, T - 32, True)]) \<and> sz \<le> T - 32 \<and> a \<noteq> 0 \<and>
    kept_used (used bs) m m' \<and> (seams m bs \<longrightarrow> seams m' (bs @ [(a, T - 32, True)])) \<and> maps m' = maps m @ [(a, T)]"
proof -
  have A: "32 + sz \<le> T" "T mod 4096 = 0" using align_page [of "32 + sz"] sz T by simp_all
  have t: "32 \<le> T" "T mod 16 = 0" using A(1) sz page_aligned [OF A(2)] by simp_all
  note a' = mmap_okD [OF os a]
  note run = init_run [of os m T a sz, OF a T sz a'(1) t(1) a'(3)]
  show ?thesis
  proof (cases "bs = []")
    case True
    then have "g_heap_head m = 0" using h by (simp add: heap_good_def)
    then show ?thesis using run init_first [OF a'(1,2) t a'(3), of m] A(1) a'(1) True by (auto simp: kept_used_def)
  next
    case False
    then have "g_heap_head m \<noteq> 0" using heap_chain [OF h] by (cases bs) (auto simp: chain_ok_def blk_ok_def)
    moreover from init_next [OF h False a'(1,2) t a'(3,4)] obtain m' where m':
      "last_block (with_region a T m) (g_heap_head m) \<bind> (\<lambda>b. set_next b a (with_region a T m)) = Some m'"
      "heap_good m' (bs @ [(a, T - 32, True)])" "kept_used (used bs) m m'"
      "seams m bs \<longrightarrow> seams m' (bs @ [(a, T - 32, True)])" "maps m' = maps m @ [(a, T)]" by blast
    ultimately have "init_new_region os sz m = Some (a, m')" using run by (auto elim!: bind_eq_SomeE)
    then show ?thesis using m' A(1) a'(1) by simp
  qed
qed

lemma region_init_ok:
  assumes os: "mmap_ok os" and h: "heap_good m bs" and sz: "0 \<le> sz" "sz \<le> 2 ^ 64 - 4128"
  shows "init_new_region os sz m = Some (0, m) \<or>
    (\<exists>a s m'. init_new_region os sz m = Some (a, m') \<and> a \<noteq> 0 \<and> sz \<le> s \<and> heap_good m' (bs @ [(a, s, True)]) \<and>
       kept_used (used bs) m m' \<and> (seams m bs \<longrightarrow> seams m' (bs @ [(a, s, True)])))"
proof (cases "os (maps m) (ALIGN_UP (32 + sz) 4096)")
  case None
  moreover have "(32 + sz) mod 18446744073709551616 = 32 + sz" using sz by simp
  ultimately show ?thesis by (simp add: init_new_region_def request_os_mem_def MMAP_THRESHOLED_def)
next
  case (Some a)
  from init_at [OF os h sz refl Some] show ?thesis by blast
qed

lemma used_cut: "\<exists>k \<ge> n. used (cut a s n False) = {(a + 32, k)} \<and> k \<le> max n s" if "n \<le> s"
  using that by (auto simp: cut_def)

lemma kept_cut:
  assumes "laid m (xs @ (a, s, fr) # ys)" "0 \<le> n" "n \<le> s" "n mod 16 = 0"
    "\<And>x. off_headers (xs @ cut a s n fr @ ys) x \<Longrightarrow> rbytes m' x = rbytes m x"
  shows "kept_used (used xs \<union> used ys \<union> (if fr then {} else {(a + 32, n)})) m m'"
proof -
  have "kept_used (used (xs @ cut a s n fr @ ys)) m m'" by (rule kept_off [OF cut_laid [OF assms(1-4)]]) (rule assms(5))
  then show ?thesis using assms(3) unfolding kept_used_def by (auto simp: cut_def split: if_splits)
qed

text \<open>Taking a free block of the list.\<close>

lemma take_ok:
  assumes h: "heap_good m (xs @ (a, s, True) # ys)" and n: "0 \<le> n" "n \<le> s" "n mod 16 = 0"
  shows "\<exists>m' bs' k. set_free a False m \<bind> split_block a n = Some m' \<and> heap_good m' bs' \<and> n \<le> k \<and>
    used bs' = insert (a + 32, k) (used (xs @ (a, s, True) # ys)) \<and> a + 32 \<notin> fst ` used (xs @ (a, s, True) # ys) \<and>
    kept_used (used (xs @ (a, s, True) # ys)) m m' \<and> (seams m (xs @ (a, s, True) # ys) \<longrightarrow> seams m' bs')"
proof -
  note c = heap_chain [OF h]
  let ?m = "m\<lparr>rbytes := (rbytes m)(a + 8 := of_bool False)\<rparr>"
  have l: "laid m (xs @ (a, s, False) # ys)" using h laid_flag [of m xs a s False ys True] by (simp add: heap_good_def)
  have h1: "heap_good ?m (xs @ (a, s, False) # ys)"
    by (rule heap_goodI) (use set_free_ok(2) [OF c, of False] l in simp_all)
  from region_split_ok [OF h1 n] obtain g where g: "split_block a n ?m = Some (?m\<lparr>rbytes := g\<rparr>)"
    "heap_good (?m\<lparr>rbytes := g\<rparr>) (xs @ cut a s n False @ ys)"
    "\<forall>x. off_headers (xs @ cut a s n False @ ys) x \<longrightarrow> g x = rbytes ?m x" by blast
  from used_cut [OF n(2), of a] obtain k where k: "n \<le> k" "used (cut a s n False) = {(a + 32, k)}" by blast
  have "kept_used (used xs \<union> used ys) m (?m\<lparr>rbytes := g\<rparr>)"
  proof -
    have "rbytes (?m\<lparr>rbytes := g\<rparr>) x = rbytes m x" if "off_headers (xs @ cut a s n False @ ys) x" for x
      using g(3) that by (auto simp: off_headers_def cut_def split: if_splits)
    from kept_cut [OF l n this] show ?thesis unfolding kept_used_def by auto
  qed
  moreover have "a + 32 \<notin> fst ` (used xs \<union> used ys)" using chain_okD(12) [OF c] by (force simp: used_def)
  moreover have "seams m (xs @ (a, s, True) # ys) \<longrightarrow> seams m (xs @ cut a s n False @ ys)" by (simp add: cut_seams)
  ultimately show ?thesis using g(1,2) k set_free_ok(1) [OF c, of False]
    by (intro exI [of _ "?m\<lparr>rbytes := g\<rparr>"] exI [of _ "xs @ cut a s n False @ ys"] exI [of _ k]) auto
qed

lemma heap_addr: "heap_good m (xs @ (a, s, fr) # ys) \<Longrightarrow> 0 < a \<and> a + 32 < 2 ^ 64"
  using laid_blk [of m "xs @ (a, s, fr) # ys" a s fr] by (simp add: heap_good_def)

lemma malloc_finish:
  assumes f: "find_free_block (ALIGN_UP n 16) m = Some b"
    and r: "(if b = 0 then init_new_region os (ALIGN_UP n 16) m else Some (b, m)) = Some (a, m1)"
    and h1: "heap_good m1 (xs @ (a, s, True) # ys)" and s: "ALIGN_UP n 16 \<le> s"
    and u: "used (xs @ (a, s, True) # ys) = used bs" and k1: "kept_used (used bs) m m1"
    and j: "seams m bs \<longrightarrow> seams m1 (xs @ (a, s, True) # ys)"
    and n: "0 < n" "n \<le> 2 ^ 64 - 4128"
  shows "\<exists>p k m' bs'. my_malloc os n m = Some (p, m') \<and> p \<noteq> 0 \<and> heap_good m' bs' \<and> n \<le> k \<and>
       used bs' = insert (p, k) (used bs) \<and> p \<notin> fst ` used bs \<and> kept_used (used bs) m m' \<and> (seams m bs \<longrightarrow> seams m' bs')"
proof -
  let ?sz = "ALIGN_UP n 16"
  have sz: "n \<le> ?sz" "?sz mod 16 = 0" "0 \<le> ?sz" using align_16 [of n] n by simp_all
  from take_ok [OF h1 sz(3) s sz(2)] obtain m' bs' k where t: "set_free a False m1 \<bind> split_block a ?sz = Some m'"
    "heap_good m' bs'" "?sz \<le> k" "used bs' = insert (a + 32, k) (used bs)" "a + 32 \<notin> fst ` used bs"
    "kept_used (used bs) m1 m'" "seams m1 (xs @ (a, s, True) # ys) \<longrightarrow> seams m' bs'" unfolding u by blast
  have a: "0 < a" "a + 32 < 2 ^ 64" using heap_addr [OF h1] by simp_all
  from t(1) obtain m2 where "set_free a False m1 = Some m2" "split_block a ?sz m2 = Some m'" by (rule bind_eq_SomeE)
  then have "my_malloc os n m = Some (a + 32, m')" using f r a n(1) by (simp add: my_malloc_def ALIGNMENT_def Let_def)
  then show ?thesis using t sz(1) a region_kept_trans [OF k1 t(6)]
    by (intro exI [of _ "a + 32"] exI [of _ k] exI [of _ m'] exI [of _ bs'] conjI) (use j in auto)
qed

lemma my_malloc_ok:
  assumes os: "mmap_ok os" and h: "heap_good m bs" and n: "0 < n" "n \<le> 2 ^ 64 - 4128"
  shows "my_malloc os n m = Some (0, m) \<or>
    (\<exists>p k m' bs'. my_malloc os n m = Some (p, m') \<and> p \<noteq> 0 \<and> heap_good m' bs' \<and> n \<le> k \<and>
       used bs' = insert (p, k) (used bs) \<and> p \<notin> fst ` used bs \<and> kept_used (used bs) m m' \<and> (seams m bs \<longrightarrow> seams m' bs'))"
proof -
  let ?sz = "ALIGN_UP n 16"
  let ?rest = "dropWhile (\<lambda>b. \<not> fits ?sz b) bs" and ?front = "takeWhile (\<lambda>b. \<not> fits ?sz b) bs"
  have sz: "?sz \<le> 2 ^ 64 - 4128" "0 \<le> ?sz" using align_16 [of n] n by simp_all
  have find: "find_free_block ?sz m = Some (start_of ?rest 0)"
    using find_from_ok [of m "[]" bs ?sz] heap_chain [OF h] by (simp add: find_free_block_def chain_ok_def)
  show ?thesis
  proof (cases ?rest)
    case Nil
    from region_init_ok [OF os h sz(2,1)] show ?thesis
    proof (elim disjE exE conjE)
      assume "init_new_region os ?sz m = Some (0, m)"
      then show ?thesis using find Nil by (simp add: my_malloc_def ALIGNMENT_def Let_def)
    next
      fix a s m1 assume "init_new_region os ?sz m = Some (a, m1)" "?sz \<le> s"
        "heap_good m1 (bs @ [(a, s, True)])" "kept_used (used bs) m m1"
        "seams m bs \<longrightarrow> seams m1 (bs @ [(a, s, True)])"
      then show ?thesis using find Nil n by (intro disjI2 malloc_finish [of n m 0 os a m1 bs s "[]"]) auto
    qed
  next
    case (Cons b ys)
    obtain a s fr where b: "b = (a, s, fr)" by (cases b)
    have bs: "?front @ (a, s, fr) # ys = bs" using Cons b takeWhile_dropWhile_id [of "\<lambda>b. \<not> fits ?sz b" bs] by simp
    have "\<not> (\<not> fits ?sz (hd ?rest))" by (rule hd_dropWhile) (use Cons in simp)
    then have f: "fr" "?sz \<le> s" using Cons b by (simp_all add: fits_def)
    have h2: "heap_good m (?front @ (a, s, True) # ys)" using h bs f by simp
    have "a \<noteq> 0" using heap_addr [OF h2] by simp
    moreover have "used (?front @ (a, s, True) # ys) = used bs" using bs f by simp
    moreover have "kept_used (used bs) m m" by (simp add: kept_used_def)
    moreover have "seams m bs \<longrightarrow> seams m (?front @ (a, s, True) # ys)" using bs f by simp
    ultimately show ?thesis using Cons b f find n by (intro disjI2 malloc_finish [OF find _ h2]) simp_all
  qed
qed

section \<open>Merging across regions\<close>

text \<open>Releasing \<open>p\<close> merges across regions: two blocks that follow each other in the list and are free once \<open>p\<close> is
  released do not follow each other in memory, the second being the first block of another region.\<close>

inductive on_list :: "rheap \<Rightarrow> int \<Rightarrow> bool" for m where
  head: "g_heap_head m \<noteq> 0 \<Longrightarrow> on_list m (g_heap_head m)"
| tail: "on_list m a \<Longrightarrow> get_next m a = Some b \<Longrightarrow> b \<noteq> 0 \<Longrightarrow> on_list m b"

definition freed :: "int \<Rightarrow> rheap \<Rightarrow> int \<Rightarrow> bool" where
  "freed p m a \<longleftrightarrow> a + HEADER_SIZE = p \<or> get_free m a = Some True"

definition crosses :: "int \<Rightarrow> rheap \<Rightarrow> bool" where
  "crosses p m \<longleftrightarrow> (\<exists>a b s. on_list m a \<and> get_next m a = Some b \<and> get_size m a = Some s \<and> b \<noteq> a + HEADER_SIZE + s \<and>
     b \<in> fst ` set (maps m) \<and> freed p m a \<and> freed p m b)"

lemma chain_on_list: "chain_ok m (xs @ ys) \<Longrightarrow> ys \<noteq> [] \<Longrightarrow> on_list m (start_of ys 0)"
proof (induction xs arbitrary: ys rule: rev_induct)
  case Nil
  then have "g_heap_head m = start_of ys 0" "start_of ys 0 \<noteq> 0" by (cases ys; auto simp: chain_ok_def blk_ok_def)+
  then show ?case using head [of m] by simp
next
  case (snoc b xs)
  obtain a s f where b: "b = (a, s, f)" by (cases b)
  have c: "chain_ok m (xs @ (a, s, f) # ys)" using snoc.prems(1) b by simp
  have "start_of ys 0 \<noteq> 0" using snoc.prems by (cases ys) (auto simp: chain_ok_def blk_ok_def)
  then show ?case using snoc.IH [OF c] chain_get(3) [OF c] tail [of m a] by simp
qed

definition mark :: "int \<Rightarrow> blk \<Rightarrow> blk" where
  "mark p b = (fst b, fst (snd b), snd (snd b) \<or> fst b + 32 = p)"

lemma mark_simp: "mark p (a, s, f) = (a, s, f \<or> a + 32 = p)"
  by (simp add: mark_def)

lemma uncrossed_marks:
  "chain_ok m (us @ vs) \<Longrightarrow> seams m vs \<Longrightarrow> \<not> crosses p m \<Longrightarrow> joins (map (mark p) vs)"
proof (induction vs arbitrary: us rule: joins.induct)
  case (1 a s f b t g r)
  have c: "chain_ok m (us @ (a, s, f) # (b, t, g) # r)" "chain_ok m ((us @ [(a, s, f)]) @ (b, t, g) # r)" using 1(2) by simp_all
  have "b = a + 32 + s" if "f \<or> a + 32 = p" "g \<or> b + 32 = p"
  proof (rule ccontr)
    assume n: "b \<noteq> a + 32 + s"
    have "on_list m a" using chain_on_list [OF c(1)] by simp
    moreover have "b \<in> fst ` set (maps m)" using 1(3) n by simp
    moreover have "freed p m a" "freed p m b" using that chain_get(2) [OF c(1)] chain_get(2) [OF c(2)] by (auto simp: freed_def)
    ultimately have "crosses p m" unfolding crosses_def using n chain_get(1,3) [OF c(1)]
      by (intro exI [of _ a] exI [of _ b] exI [of _ s]) simp
    then show False using 1(4) by simp
  qed
  moreover have "joins (map (mark p) ((b, t, g) # r))" by (rule 1(1) [OF c(2)]) (use 1(3,4) in simp_all)
  ultimately show ?case by (simp add: mark_simp)
qed auto

lemma uncrossed_joins:
  assumes h: "heap_good m (xs @ (a, k, False) # ys)" and s: "seams m (xs @ (a, k, False) # ys)" and n: "\<not> crosses (a + 32) m"
  shows "joins (xs @ (a, k, True) # ys)"
proof -
  note c = heap_chain [OF h]
  have "mark (a + 32) b = b" if "b \<in> set xs \<union> set ys" for b
    using chain_okD(12) [OF c, of "fst b" "fst (snd b)" "snd (snd b)"] that by (cases b) (auto simp: mark_def)
  then have "map (mark (a + 32)) (xs @ (a, k, False) # ys) = xs @ (a, k, True) # ys" by (simp add: mark_def map_idI)
  then show ?thesis using uncrossed_marks [of m "[]", OF _ s n] c by simp
qed

section \<open>The allocator contract\<close>

definition region_acquire :: "os \<Rightarrow> int \<Rightarrow> rheap \<Rightarrow> (int option \<times> rheap) option" where
  "region_acquire os n m = map_option (\<lambda>(p, m). (if p = 0 then None else Some p, m)) (my_malloc os n m)"

definition region_poke :: "int \<Rightarrow> int \<Rightarrow> rheap \<Rightarrow> rheap" where
  "region_poke a b m = m\<lparr>rbytes := (rbytes m)(a := b)\<rparr>"

text \<open>The contract holds for releases that do not merge across regions; the others are left out here.\<close>

definition local_free :: "int \<Rightarrow> rheap \<Rightarrow> rheap option" where
  "local_free p m = (if crosses p m then Some m else my_free p m)"

definition region_inv :: "os \<Rightarrow> rheap \<Rightarrow> (int \<rightharpoonup> int) \<Rightarrow> bool" where
  "region_inv os m L \<longleftrightarrow> mmap_ok os \<and> (\<exists>bs. heap_good m bs \<and> seams m bs \<and>
     (\<forall>p n. L p = Some n \<longrightarrow> (\<exists>k \<ge> n. (p, k) \<in> used bs)))"

lemma used_unique:
  assumes "heap_good m bs" "(p, k) \<in> used bs" "(p, j) \<in> used bs"
  shows "k = j"
proof -
  from assms(2) obtain xs ys where bs: "bs = xs @ (p - 32, k, False) # ys" by (rule usedE)
  have "(p - 32, j, False) \<in> set bs" using assms(3) by (auto simp: used_def)
  then show ?thesis using chain_okD(12) [OF heap_chain [OF assms(1), unfolded bs], of "p - 32" j False] by (auto simp: bs)
qed

lemma used_range:
  assumes "heap_good m bs" "(p, k) \<in> used bs"
  shows "0 \<le> k" "32 < p" "p + k < 2 ^ 64" "p mod 16 = 0" "\<forall>x. p \<le> x \<and> x < p + k \<longrightarrow> mapped m x"
proof -
  from assms(2) obtain xs ys where bs: "bs = xs @ (p - 32, k, False) # ys" by (rule usedE)
  have L: "0 < p - 32" "0 \<le> k" "p + k < 2 ^ 64" "(p - 32) mod 16 = 0" "\<forall>x. p - 32 \<le> x \<and> x < p + k \<longrightarrow> mapped m x"
    using assms(1) laid_blk [of m bs "p - 32" k False] by (auto simp: heap_good_def bs)
  show "0 \<le> k" "32 < p" "p + k < 2 ^ 64" "\<forall>x. p \<le> x \<and> x < p + k \<longrightarrow> mapped m x" using L by auto
  show "p mod 16 = 0" using L(4) by presburger
qed

lemma used_disjoint:
  assumes "heap_good m bs" "(p, k) \<in> used bs" "(q, j) \<in> used bs" "p \<noteq> q"
  shows "p + k \<le> q \<or> q + j \<le> p"
proof -
  from assms(2) obtain xs ys where bs: "bs = xs @ (p - 32, k, False) # ys" by (rule usedE)
  have "(q - 32, j, False) \<in> set xs \<union> set ys" using assms(3,4) by (auto simp: used_def bs)
  moreover have "laid m (xs @ (p - 32, k, False) # ys)" using assms(1) by (simp add: heap_good_def bs)
  ultimately show ?thesis using laid_disjoint [of m xs "p - 32" k False ys "q - 32" j False] by auto
qed

lemma payload_good:
  assumes h: "heap_good m bs" and p: "(p, k) \<in> used bs" and out: "\<And>x. x < p \<or> p + k \<le> x \<Longrightarrow> g x = rbytes m x"
  shows "heap_good (m\<lparr>rbytes := g\<rparr>) bs"
proof -
  from p obtain xs ys where bs: "bs = xs @ (p - 32, k, False) # ys" by (rule usedE)
  have l: "laid m bs" "linked (rbytes m) bs 0" using h by (simp_all add: heap_good_def)
  have "linked g bs 0 = linked (rbytes m) bs 0"
  proof (rule linked_cong, rule out)
    fix a s fr x assume a: "(a, s, fr) \<in> set bs" "a \<le> x" "x < a + 24"
    show "x < p \<or> p + k \<le> x"
    proof (rule ccontr)
      assume "\<not> (x < p \<or> p + k \<le> x)"
      then have "off_headers bs x" using payload_off [of m xs "p - 32" k False ys x] l(1) by (simp add: bs)
      then show False using a by (auto simp: off_headers_def)
    qed
  qed
  then show ?thesis using h by (simp add: heap_good_def)
qed

lemma kept_same:
  assumes "kept_used K m m'" "\<forall>p n. L p = Some n \<longrightarrow> (\<exists>k \<ge> n. (p, k) \<in> K)"
  shows "same_buffers (rbytes m) (rbytes m') L"
  unfolding same_buffers_def
proof (intro allI impI, elim conjE)
  fix p n a assume "L p = Some n" "p \<le> a" "a < p + n"
  moreover from this(1) assms(2) obtain k where "k \<ge> n" "(p, k) \<in> K" by blast
  ultimately show "rbytes m' a = rbytes m a" using assms(1) unfolding kept_used_def by fastforce
qed

lemma region_invE:
  assumes "region_inv os m L"
  obtains bs where "mmap_ok os" "heap_good m bs" "seams m bs" "\<forall>p n. L p = Some n \<longrightarrow> (\<exists>k \<ge> n. (p, k) \<in> used bs)"
  using assms unfolding region_inv_def by blast

lemma region_acquire_ok:
  assumes "mmap_ok os" "heap_good m bs" "0 \<le> n" "n \<le> 2 ^ 64 - 4128"
  shows "region_acquire os n m = Some (None, m) \<or>
    (\<exists>p k m' bs'. region_acquire os n m = Some (Some p, m') \<and> heap_good m' bs' \<and> n \<le> k \<and>
       used bs' = insert (p, k) (used bs) \<and> p \<notin> fst ` used bs \<and> kept_used (used bs) m m' \<and> (seams m bs \<longrightarrow> seams m' bs'))"
proof (cases "n = 0")
  case False
  then have "0 < n" using assms(3) by simp
  from my_malloc_ok [OF assms(1,2) this assms(4)] show ?thesis
  proof (elim disjE exE conjE)
    fix p k m' bs' assume "my_malloc os n m = Some (p, m')" "p \<noteq> 0" "heap_good m' bs'" "n \<le> k"
      "used bs' = insert (p, k) (used bs)" "p \<notin> fst ` used bs" "kept_used (used bs) m m'" "seams m bs \<longrightarrow> seams m' bs'"
    then show ?thesis by (intro disjI2 exI [of _ p] exI [of _ k] exI [of _ m'] exI [of _ bs']) (simp add: region_acquire_def)
  qed (simp add: region_acquire_def)
qed (simp add: region_acquire_def my_malloc_def)

lemma local_free_ok:
  assumes h: "heap_good m bs" "seams m bs" and p: "(p, k) \<in> used bs"
  shows "\<exists>m' bs'. local_free p m = Some m' \<and> heap_good m' bs' \<and> seams m' bs' \<and> used bs - {(p, k)} \<subseteq> used bs' \<and>
    kept_used (used bs - {(p, k)}) m m'"
proof (cases "crosses p m")
  case True
  then show ?thesis using h by (intro exI [of _ m] exI [of _ bs]) (auto simp: local_free_def kept_used_def)
next
  case False
  from p obtain xs ys where bs: "bs = xs @ (p - 32, k, False) # ys" by (rule usedE)
  note h' = h [unfolded bs]
  have "joins (xs @ (p - 32, k, True) # ys)" by (rule uncrossed_joins [OF h']) (use False in simp)
  from my_free_ok [OF h'(1) this] h'(2) False obtain m' bs' where "local_free p m = Some m'" "heap_good m' bs'" "seams m' bs'"
    "used bs' = used xs \<union> used ys" "kept_used (used xs \<union> used ys) m m'" by (auto simp: local_free_def)
  moreover have "used bs - {(p, k)} \<subseteq> used xs \<union> used ys" by (auto simp: bs)
  ultimately show ?thesis unfolding kept_used_def by (intro exI [of _ m'] exI [of _ bs']) blast
qed

interpretation reg: allocator "region_inv os" rbytes "region_acquire os" local_free region_poke "\<lambda>n. 0 \<le> n \<and> n \<le> 2 ^ 64 - 4128" for os
proof unfold_locales
  fix m L and n :: int assume i: "region_inv os m L" and n: "0 \<le> n \<and> n \<le> 2 ^ 64 - 4128"
  from i obtain bs where b: "mmap_ok os" "heap_good m bs" "seams m bs" "\<forall>p n. L p = Some n \<longrightarrow> (\<exists>k \<ge> n. (p, k) \<in> used bs)"
    by (rule region_invE)
  have n': "0 \<le> n" "n \<le> 2 ^ 64 - 4128" using n by blast+
  from region_acquire_ok [OF b(1,2) n'] show "\<exists>r m'. region_acquire os n m = Some (r, m') \<and> same_buffers (rbytes m) (rbytes m') L \<and>
      (case r of None \<Rightarrow> region_inv os m' L | Some p \<Rightarrow> L p = None \<and> region_inv os m' (L(p \<mapsto> n)))"
  proof (elim disjE exE conjE)
    assume "region_acquire os n m = Some (None, m)"
    then show ?thesis using i by (simp add: same_buffers_def)
  next
    fix p k m' bs'
    assume r: "region_acquire os n m = Some (Some p, m')" "heap_good m' bs'" "n \<le> k"
      "used bs' = insert (p, k) (used bs)" "p \<notin> fst ` used bs" "kept_used (used bs) m m'" "seams m bs \<longrightarrow> seams m' bs'"
    have "L p = None" using r(5) b(4) [rule_format, of p] by (cases "L p") force+
    moreover have "\<exists>k' \<ge> j. (q, k') \<in> used bs'" if "(L(p \<mapsto> n)) q = Some j" for q j
      using that b(4) [rule_format, of q j] r(3,4) by (auto split: if_splits)
    then have "region_inv os m' (L(p \<mapsto> n))" unfolding region_inv_def
      using b r by (intro conjI exI [of _ bs']) auto
    ultimately show ?thesis using r(1) kept_same [OF r(6) b(4)] by simp
  qed
next
  fix m L p n assume i: "region_inv os m L" "L p = Some n"
  from i(1) obtain bs where b: "mmap_ok os" "heap_good m bs" "seams m bs" "\<forall>p n. L p = Some n \<longrightarrow> (\<exists>k \<ge> n. (p, k) \<in> used bs)"
    by (rule region_invE)
  from b(4) [rule_format, OF i(2)] obtain k where k: "(p, k) \<in> used bs" by blast
  from local_free_ok [OF b(2,3) k] obtain m' bs' where r: "local_free p m = Some m'" "heap_good m' bs'" "seams m' bs'"
    "used bs - {(p, k)} \<subseteq> used bs'" "kept_used (used bs - {(p, k)}) m m'" by blast
  have sub: "\<exists>k' \<ge> j. (q, k') \<in> used bs - {(p, k)}" if "(L(p := None)) q = Some j" for q j
    using that b(4) [rule_format, of q j] by (auto split: if_splits)
  then have "region_inv os m' (L(p := None))" unfolding region_inv_def
    using b(1) r by (intro conjI exI [of _ bs'] allI impI) blast+
  then show "\<exists>m'. local_free p m = Some m' \<and> region_inv os m' (L(p := None)) \<and> same_buffers (rbytes m) (rbytes m') (L(p := None))"
    using r(1) kept_same [OF r(5)] sub by blast
next
  fix m L p n a b assume i: "region_inv os m L" "L p = Some n" "p \<le> a" "a < p + n"
  from i(1) obtain bs where b: "mmap_ok os" "heap_good m bs" "seams m bs" "\<forall>p n. L p = Some n \<longrightarrow> (\<exists>k \<ge> n. (p, k) \<in> used bs)"
    by (rule region_invE)
  from b(4) [rule_format, OF i(2)] obtain k where k: "k \<ge> n" "(p, k) \<in> used bs" by blast
  have "heap_good (region_poke a b m) bs" unfolding region_poke_def
    by (rule payload_good [OF b(2) k(2)]) (use i(3,4) k(1) in auto)
  then have "region_inv os (region_poke a b m) L" unfolding region_inv_def using b
    by (intro conjI exI [of _ bs]) (simp_all add: region_poke_def)
  then show "region_inv os (region_poke a b m) L \<and> rbytes (region_poke a b m) = (rbytes m)(a := b)"
    by (simp add: region_poke_def)
next
  fix m L p n q j assume i: "region_inv os m L" "L p = Some n" "L q = Some j" "p \<noteq> q"
  from i(1) obtain bs where b: "mmap_ok os" "heap_good m bs" "seams m bs" "\<forall>p n. L p = Some n \<longrightarrow> (\<exists>k \<ge> n. (p, k) \<in> used bs)"
    by (rule region_invE)
  from b(4) [rule_format, OF i(2)] obtain k where k: "k \<ge> n" "(p, k) \<in> used bs" by blast
  from b(4) [rule_format, OF i(3)] obtain l where l: "l \<ge> j" "(q, l) \<in> used bs" by blast
  show "p + n \<le> q \<or> q + j \<le> p" using used_disjoint [OF b(2) k(2) l(2) i(4)] k(1) l(1) by auto
qed

text \<open>A run with \<open>my_free\<close> is the run with \<open>local_free\<close> up to the first release that merges across regions.\<close>

lemma run_until_cross:
  "run_client acq my_free poke xs c = run_client acq local_free poke xs c \<or>
   (\<exists>ys p zs m L D. xs = ys @ Release p # zs \<and> run_client acq my_free poke ys c = Some (m, L, D) \<and>
      run_client acq local_free poke ys c = Some (m, L, D) \<and> L p \<noteq> None \<and> crosses p m)"
proof (induction xs arbitrary: c)
  case (Cons x xs)
  obtain m L D where c: "c = (m, L, D)" by (cases c)
  show ?case
  proof (cases "\<exists>p. x = Release p \<and> L p \<noteq> None \<and> crosses p m")
    case True
    then obtain p where "x = Release p" "L p \<noteq> None" "crosses p m" by blast
    then show ?thesis using c by (intro disjI2 exI [of _ "[]"] exI [of _ p] exI [of _ xs] exI [of _ m] exI [of _ L] exI [of _ D]) simp
  next
    case False
    then have step: "client_step acq my_free poke x c = client_step acq local_free poke x c"
      unfolding c by (cases x) (auto simp: local_free_def split: option.splits)
    show ?thesis
    proof (cases "client_step acq local_free poke x c")
      case (Some c1)
      from Cons.IH [of c1] show ?thesis
      proof (elim disjE exE conjE)
        fix ys p zs m L D assume "xs = ys @ Release p # zs" "run_client acq my_free poke ys c1 = Some (m, L, D)"
          "run_client acq local_free poke ys c1 = Some (m, L, D)" "L p \<noteq> None" "crosses p m"
        then show ?thesis using step Some
          by (intro disjI2 exI [of _ "x # ys"] exI [of _ p] exI [of _ zs] exI [of _ m] exI [of _ L] exI [of _ D]) simp
      qed (use step Some in simp)
    qed (use step in simp)
  qed
qed simp

section \<open>Reallocation\<close>

text \<open>The outcome of a successful reallocation of \<open>p\<close>, of \<open>k\<close> bytes, to \<open>n\<close> bytes.\<close>

definition moved :: "blk list \<Rightarrow> int \<Rightarrow> int \<Rightarrow> int \<Rightarrow> rheap \<Rightarrow> int \<Rightarrow> rheap \<Rightarrow> bool" where
  "moved bs p k n m q m' \<longleftrightarrow> q \<noteq> 0 \<and> (\<exists>bs' k'. heap_good m' bs' \<and> n \<le> k' \<and>
     used bs' = insert (q, k') (used bs - {(p, k)}) \<and> q \<notin> fst ` (used bs - {(p, k)}) \<and>
     kept_used (used bs - {(p, k)}) m m' \<and> (\<forall>i. 0 \<le> i \<and> i < min k n \<longrightarrow> rbytes m' (q + i) = rbytes m (p + i)))"

lemma used_others:
  assumes "heap_good m (xs @ (a, k, False) # ys)"
  shows "used (xs @ (a, k, False) # ys) - {(a + 32, k)} = used xs \<union> used ys" "a + 32 \<notin> fst ` (used xs \<union> used ys)"
proof -
  show "a + 32 \<notin> fst ` (used xs \<union> used ys)" using chain_okD(12) [OF heap_chain [OF assms]] by (force simp: used_def)
  then show "used (xs @ (a, k, False) # ys) - {(a + 32, k)} = used xs \<union> used ys" by force
qed

lemma movedI:
  assumes "heap_good m (xs @ (a, k, False) # ys)" "heap_good m' bs'" "n \<le> k'"
    "used bs' = insert (a + 32, k') (used xs \<union> used ys)" "kept_used (used xs \<union> used ys \<union> {(a + 32, j)}) m m'" "min k n \<le> j"
  shows "moved (xs @ (a, k, False) # ys) (a + 32) k n m (a + 32) m'"
proof -
  have "0 < a" using heap_addr [OF assms(1)] by simp
  moreover have "rbytes m' (a + 32 + i) = rbytes m (a + 32 + i)" if "0 \<le> i" "i < min k n" for i
    using assms(5,6) that unfolding kept_used_def by auto
  moreover have "kept_used (used xs \<union> used ys) m m'" using assms(5) unfolding kept_used_def by blast
  ultimately show ?thesis unfolding moved_def used_others(1) [OF assms(1)]
    using assms(2-4) used_others(2) [OF assms(1)] by (intro conjI exI [of _ bs'] exI [of _ k']) auto
qed

lemma realloc_shrink:
  assumes h: "heap_good m (xs @ (a, k, False) # ys)" and n: "0 < n" "n \<le> 2 ^ 64 - 4128" "ALIGN_UP n 16 \<le> k"
  shows "\<exists>m'. my_realloc os (a + 32) n m = Some (a + 32, m') \<and> moved (xs @ (a, k, False) # ys) (a + 32) k n m (a + 32) m'"
proof -
  let ?n = "ALIGN_UP n 16"
  have sz: "n \<le> ?n" "?n mod 16 = 0" "0 \<le> ?n" using align_16 [of n] n by simp_all
  have a: "0 < a" "a + 32 < 2 ^ 64" using heap_addr [OF h] by simp_all
  have l: "laid m (xs @ (a, k, False) # ys)" using h by (simp add: heap_good_def)
  from region_split_ok [OF h sz(3) n(3) sz(2)] obtain g where g: "split_block a ?n m = Some (m\<lparr>rbytes := g\<rparr>)"
    "heap_good (m\<lparr>rbytes := g\<rparr>) (xs @ cut a k ?n False @ ys)"
    "\<forall>x. off_headers (xs @ cut a k ?n False @ ys) x \<longrightarrow> g x = rbytes m x" by blast
  from used_cut [OF n(3), of a] obtain k' where k': "?n \<le> k'" "used (cut a k ?n False) = {(a + 32, k')}" by blast
  have K: "kept_used (used xs \<union> used ys \<union> {(a + 32, ?n)}) m (m\<lparr>rbytes := g\<rparr>)"
    using kept_cut [OF l sz(3) n(3) sz(2), of "m\<lparr>rbytes := g\<rparr>"] g(3) by simp
  have "moved (xs @ (a, k, False) # ys) (a + 32) k n m (a + 32) (m\<lparr>rbytes := g\<rparr>)"
    by (rule movedI [OF h g(2) _ _ K, where k' = k']) (use k' sz in auto)
  moreover have "my_realloc os (a + 32) n m = Some (a + 32, m\<lparr>rbytes := g\<rparr>)"
    using g(1) n a chain_get(1) [OF heap_chain [OF h]] by (simp add: my_realloc_def ALIGNMENT_def Let_def)
  ultimately show ?thesis by blast
qed

lemma laid_within:
  assumes "laid m (xs @ (a, s, f) # ys)" "0 \<le> n" "n \<le> s" "n mod 16 = 0"
  shows "laid m (xs @ (a, n, g) # ys)"
proof -
  have "clear (a, n, g) c" if "clear (a, s, f) c" for c using that assms(3) by (auto simp: clear_def)
  then show ?thesis using assms by (auto simp: laid_mid blk_in_def)
qed

text \<open>Growing into the free neighbour, without and with a remainder.\<close>

lemma realloc_swallow:
  assumes h: "heap_good m (xs @ (a, k, False) # (b, t, True) # zs)" and b: "b = a + 32 + k" and n: "0 < n" "n \<le> 2 ^ 64 - 4128"
    and g: "k < ALIGN_UP n 16" "ALIGN_UP n 16 \<le> k + 32 + t" "k + 32 + t - ALIGN_UP n 16 \<le> 48"
  shows "\<exists>m'. my_realloc os (a + 32) n m = Some (a + 32, m') \<and>
    moved (xs @ (a, k, False) # (b, t, True) # zs) (a + 32) k n m (a + 32) m'"
proof -
  let ?n = "ALIGN_UP n 16" and ?bs = "xs @ (a, k, False) # (b, t, True) # zs" and ?nn = "start_of zs 0"
  have sz: "n \<le> ?n" "?n mod 16 = 0" "0 \<le> ?n" "?n < 2 ^ 64" using align_16 [of n] n by simp_all
  note c = heap_chain [OF h]
  have c2: "chain_ok m ((xs @ [(a, k, False)]) @ (b, t, True) # zs)" using c by simp
  note D = chain_okD [OF c] and E = chain_okD [OF c2]
  have l: "laid m ?bs" using h by (simp add: heap_good_def)
  have ab: "a + 32 + k \<le> b" "b + 32 + t < 2 ^ 64" "0 \<le> t" using laid_blk [OF l, of b t True] b by simp_all
  have nn: "0 \<le> ?nn" "?nn < 2 ^ 64" using c start_of_bounds [of zs m] by (simp_all add: chain_ok_def)
  define f1 where "f1 = put_le 8 a ?n (rbytes m)"
  define f2 where "f2 = put_le 8 (a + 16) ?nn f1"
  have o: "f2 x = rbytes m x" "f1 x = rbytes m x" if "x < a \<or> a + 24 \<le> x" for x using that by (auto simp: f1_def f2_def put_le_outside)
  have H1: "header_at f1 a ?n False b" unfolding f1_def using header_writes(1) [OF D(1), of ?n] sz by simp
  have H2: "header_at f2 a ?n False ?nn" unfolding f2_def using header_writes(3) [OF H1, of ?nn] nn by simp
  have ch: "chain_ok (m\<lparr>rbytes := f2\<rparr>) (xs @ (a, ?n, False) # zs)"
    by (rule chain_update [where zs = "[(b, t, True)]" and s = k and fr = False]) (use c o H2 sz in auto)
  have "laid m (xs @ (a, ?n, False) # zs)" by (rule laid_within [OF laid_join(1) [OF l [unfolded b], of False]]) (use sz g(2) in auto)
  then have good: "heap_good (m\<lparr>rbytes := f2\<rparr>) (xs @ (a, ?n, False) # zs)" by (rule heap_goodI [OF ch])
  have "kept_used (used ?bs) m (m\<lparr>rbytes := f2\<rparr>)" by (rule kept_off [OF l]) (use o in \<open>auto simp: off_headers_def\<close>)
  then have "kept_used (used xs \<union> used ((b, t, True) # zs) \<union> {(a + 32, k)}) m (m\<lparr>rbytes := f2\<rparr>)" unfolding kept_used_def by auto
  from movedI [OF h good, of n ?n, OF sz(1) _ this] have "moved ?bs (a + 32) k n m (a + 32) (m\<lparr>rbytes := f2\<rparr>)" by simp
  moreover have "my_realloc os (a + 32) n m = Some (a + 32, m\<lparr>rbytes := f2\<rparr>)"
  proof -
    have "header_at f1 b t True ?nn" using E(1) header_cong [of b f1 "rbytes m"] o(2) ab(1) D(5) by auto
    then have "get_next (m\<lparr>rbytes := f1\<rparr>) b = Some ?nn" "get_next (m\<lparr>rbytes := f1\<rparr>) a = Some b"
      using H1 D(11) E(11) by (simp_all add: get_next_def header_at_def)
    moreover have "set_size a ?n m = Some (m\<lparr>rbytes := f1\<rparr>)" "set_next a ?nn (m\<lparr>rbytes := f1\<rparr>) = Some (m\<lparr>rbytes := f2\<rparr>)"
      using D(9,11) by (simp_all add: set_size_def set_next_def f1_def f2_def)
    moreover have "(k + 32 + t) mod 18446744073709551616 = k + 32 + t" "(k + 32 + t - ?n) mod 18446744073709551616 = k + 32 + t - ?n"
      using D(3,5) ab g sz(3) by simp_all
    ultimately show ?thesis using g n D(3) heap_addr [OF h] E(3) chain_get [OF c] chain_get [OF c2]
      by (simp add: my_realloc_def ALIGNMENT_def Let_def)
  qed
  ultimately show ?thesis by blast
qed

lemma aligned_apart: "(r::int) mod 16 = 0 \<Longrightarrow> b mod 16 = 0 \<Longrightarrow> r \<noteq> b + 16 \<Longrightarrow> r + 16 \<le> b + 16 \<or> b + 24 \<le> r"
  by presburger

text \<open>The bytes after the neighbour at \<open>b\<close> has been cut: the block at \<open>a\<close> has \<open>n\<close> bytes, the remainder
  at \<open>r\<close> has \<open>u\<close> bytes and points to \<open>nn\<close>.\<close>

definition grow_bytes :: "int \<Rightarrow> int \<Rightarrow> int \<Rightarrow> int \<Rightarrow> int \<Rightarrow> (int \<Rightarrow> int) \<Rightarrow> int \<Rightarrow> int" where
  "grow_bytes a n r u nn f = put_le 8 (a + 16) r (put_le 8 (r + 16) nn ((put_le 8 r u (put_le 8 a n f))(r + 8 := of_bool True)))"

lemma grow_bytes_ok:
  assumes "header_at f a k fr nx" "a + 32 \<le> r" "0 \<le> n" "n < 2 ^ 64" "0 \<le> r" "r < 2 ^ 64" "0 \<le> u" "u < 2 ^ 64" "0 \<le> nn" "nn < 2 ^ 64"
  shows "header_at (grow_bytes a n r u nn f) a n fr r" "header_at (grow_bytes a n r u nn f) r u True nn"
    "\<And>x. x < a \<or> a + 24 \<le> x \<Longrightarrow> x < r \<or> r + 24 \<le> x \<Longrightarrow> grow_bytes a n r u nn f x = f x"
proof -
  let ?f1 = "put_le 8 a n f" and ?f3 = "put_le 8 (r + 16) nn ((put_le 8 r u (put_le 8 a n f))(r + 8 := of_bool True))"
  have o: "?f3 x = ?f1 x" if "x < r \<or> r + 24 \<le> x" for x using that by (auto simp: put_le_outside)
  have o4: "grow_bytes a n r u nn f x = ?f3 x" if "x < a \<or> a + 24 \<le> x" for x using that by (auto simp: grow_bytes_def put_le_outside)
  have "header_at ?f1 a n fr nx" using header_writes(1) [OF assms(1), of n] assms by simp
  then have "header_at ?f3 a n fr nx" using header_cong [of a ?f3 ?f1] o assms(2) by auto
  then show "header_at (grow_bytes a n r u nn f) a n fr r" unfolding grow_bytes_def using header_writes(3) assms by simp
  have "header_at ?f3 r u True nn" by (rule header_new) (use assms in auto)
  then show "header_at (grow_bytes a n r u nn f) r u True nn" using header_cong [of r "grow_bytes a n r u nn f" ?f3] o4 assms(2) by auto
  show "grow_bytes a n r u nn f x = f x" if "x < a \<or> a + 24 \<le> x" "x < r \<or> r + 24 \<le> x" for x
    using o4 [OF that(1)] o [OF that(2)] that(1) by (auto simp: put_le_outside)
qed

lemma grow_good:
  assumes h: "heap_good m (xs @ (a, k, False) # (b, t, True) # zs)" and b: "b = a + 32 + k" and n: "n mod 16 = 0" "k < n" "n < 2 ^ 64"
    and left: "48 < k + 32 + t - n"
  defines "f \<equiv> grow_bytes a n (a + 32 + n) (k + t - n) (start_of zs 0) (rbytes m)"
  shows "heap_good (m\<lparr>rbytes := f\<rparr>) (xs @ (a, n, False) # (a + 32 + n, k + t - n, True) # zs)"
    "kept_used (used xs \<union> used zs \<union> {(a + 32, k)}) m (m\<lparr>rbytes := f\<rparr>)" "blk_ok m (a + 32 + n, k + t - n, True)"
proof -
  let ?bs = "xs @ (a, k, False) # (b, t, True) # zs" and ?r = "a + 32 + n" and ?u = "k + t - n"
  note c = heap_chain [OF h]
  note D = chain_okD [OF c]
  have l: "laid m ?bs" using h by (simp add: heap_good_def)
  have "laid m (xs @ cut a (k + (32 + t)) n False @ zs)"
    by (rule cut_laid [OF laid_join(1) [OF l [unfolded b]]]) (use n left D(5) in auto)
  moreover have "cut a (k + (32 + t)) n False = [(a, n, False), (?r, ?u, True)]" using left by (simp add: cut_def algebra_simps)
  ultimately have l': "laid m (xs @ (a, n, False) # (?r, ?u, True) # zs)" by simp
  then have l2: "laid m ((xs @ [(a, n, False)]) @ (?r, ?u, True) # zs)" by simp
  have nn: "0 \<le> start_of zs 0" "start_of zs 0 < 2 ^ 64" using c start_of_bounds [of zs m] by (simp_all add: chain_ok_def)
  show ok: "blk_ok m (?r, ?u, True)" using laid_blk [OF l2, of ?r ?u True] by (auto simp: blk_ok_def hmapped_def)
  note G = grow_bytes_ok [OF D(1), of ?r n ?u "start_of zs 0", folded f_def]
  have "sorted_wrt apart (xs @ (a, n, False) # (?r, ?u, True) # zs)" by (rule laid_apart [OF l'])
  then have "\<forall>d\<in>set xs \<union> set zs. apart (?r, ?u, True) d" by (auto simp: sorted_wrt_append apart_def)
  then have ch: "chain_ok (m\<lparr>rbytes := f\<rparr>) (xs @ (a, n, False) # (?r, ?u, True) # zs)"
    by (intro region_chain_insert [where zs = "[(b, t, True)]" and s = k]) (use c G ok n nn D(5) in \<open>auto simp: blk_ok_def\<close>)
  show "heap_good (m\<lparr>rbytes := f\<rparr>) (xs @ (a, n, False) # (?r, ?u, True) # zs)" by (rule heap_goodI [OF ch l'])
  show "kept_used (used xs \<union> used zs \<union> {(a + 32, k)}) m (m\<lparr>rbytes := f\<rparr>)"
  proof (rule kept_usedI)
    fix p j x assume p: "(p, j) \<in> used xs \<union> used zs \<union> {(a + 32, k)}" "p \<le> x" "x < p + j"
    have "(x < a \<or> a + 24 \<le> x) \<and> (x < ?r \<or> ?r + 24 \<le> x)"
    proof (cases "(p, j) = (a + 32, k)")
      case False
      then have q: "(p - 32, j, False) \<in> set xs \<union> set zs" using p(1) by (auto simp: used_def)
      have "p + j \<le> a \<or> ?r \<le> p - 32" "p + j \<le> ?r \<or> ?r + 32 + ?u \<le> p - 32"
        using laid_disjoint [OF l', of "p - 32" j False] laid_disjoint [OF l2, of "p - 32" j False] q by auto
      moreover have "0 \<le> n" "0 \<le> ?u" using n(2) D(5) ok by (simp_all add: blk_ok_def)
      ultimately show ?thesis using p(2,3) by linarith
    qed (use p n in auto)
    then show "rbytes (m\<lparr>rbytes := f\<rparr>) x = rbytes m x" using G(3) ok n nn D(5) by (simp add: blk_ok_def)
  qed
qed

text \<open>The call: when the remainder starts 16 bytes into the neighbour's header, its size overwrites the link that is
  read next.\<close>

lemma grow_run:
  assumes h: "heap_good m (xs @ (a, k, False) # (b, t, True) # zs)" and b: "b = a + 32 + k" and n: "0 < n" "n \<le> 2 ^ 64 - 4128"
    and g: "k < ALIGN_UP n 16" "48 < k + 32 + t - ALIGN_UP n 16"
  defines "nn \<equiv> (if b = a + 16 + ALIGN_UP n 16 then k + t - ALIGN_UP n 16 else start_of zs 0)"
  shows "my_realloc os (a + 32) n m = Some (a + 32, m\<lparr>rbytes :=
    grow_bytes a (ALIGN_UP n 16) (a + 32 + ALIGN_UP n 16) (k + t - ALIGN_UP n 16) nn (rbytes m)\<rparr>)"
proof -
  let ?n = "ALIGN_UP n 16"
  let ?r = "a + 32 + ?n" and ?u = "k + t - ?n"
  have sz: "?n mod 16 = 0" "0 \<le> ?n" "?n < 2 ^ 64" using align_16 [of n] n by simp_all
  note c = heap_chain [OF h]
  have c2: "chain_ok m ((xs @ [(a, k, False)]) @ (b, t, True) # zs)" using c by simp
  note D = chain_okD [OF c] and E = chain_okD [OF c2]
  have l: "laid m (xs @ (a, k, False) # (b, t, True) # zs)" using h by (simp add: heap_good_def)
  have ab: "a + 32 + k \<le> b" "b + 32 + t < 2 ^ 64" "0 \<le> t" "a mod 16 = 0" "b mod 16 = 0"
    using laid_blk [OF l, of b t True] laid_blk [OF l, of a k False] b by simp_all
  note ok = grow_good(3) [OF h b sz(1) g(1) sz(3) g(2)]
  define f1 where "f1 = put_le 8 a ?n (rbytes m)"
  define f2 where "f2 = (put_le 8 ?r ?u f1)(?r + 8 := of_bool True)"
  have o1: "f1 x = rbytes m x" if "x < a \<or> a + 24 \<le> x" for x using that by (auto simp: f1_def put_le_outside)
  have o2: "f2 x = f1 x" if "x < ?r \<or> ?r + 16 \<le> x" for x using that by (auto simp: f2_def put_le_outside)
  have "header_at f1 a ?n False b" unfolding f1_def using header_writes(1) [OF D(1), of ?n] sz by simp
  then have H2: "header_at f2 a ?n False b" using header_cong [of a f2 f1] o2 sz(2) by auto
  have "le_val 8 f2 (b + 16) = nn"
  proof (cases "b = a + 16 + ?n")
    case True
    have "le_val 8 f2 ?r = le_val 8 (put_le 8 ?r ?u f1) ?r" by (rule le_val_cong) (simp add: f2_def)
    then show ?thesis using True le_val_put [of ?u 8 ?r f1] ok by (simp add: nn_def blk_ok_def add.commute add.left_commute)
  next
    case False
    have "?r mod 16 = 0" using ab(4) sz(1) by presburger
    then have "le_val 8 f2 (b + 16) = le_val 8 f1 (b + 16)"
      by (intro le_val_cong o2) (use aligned_apart [OF _ ab(5), of ?r] False in auto)
    moreover have "header_at f1 b t True (start_of zs 0)" using E(1) header_cong [of b f1 "rbytes m"] o1 ab(1) D(5) by auto
    ultimately show ?thesis using False by (simp add: nn_def header_at_def)
  qed
  then have "get_next (m\<lparr>rbytes := f2\<rparr>) b = Some nn" "get_next (m\<lparr>rbytes := f2\<rparr>) a = Some b"
    using H2 D(11) E(11) by (simp_all add: get_next_def header_at_def)
  moreover have "set_size a ?n m = Some (m\<lparr>rbytes := f1\<rparr>)" using D(9) by (simp add: set_size_def f1_def)
  moreover have "set_size ?r ?u (m\<lparr>rbytes := f1\<rparr>) \<bind> set_free ?r True = Some (m\<lparr>rbytes := f2\<rparr>)"
    "set_next ?r nn (m\<lparr>rbytes := f2\<rparr>) \<bind> set_next a ?r = Some (m\<lparr>rbytes := grow_bytes a ?n ?r ?u nn (rbytes m)\<rparr>)"
    using ok fields_mapped [of m ?r] D(11)
    by (simp_all add: blk_ok_def set_size_def set_free_def set_next_def f2_def f1_def grow_bytes_def)
  moreover have "(k + 32 + t) mod 18446744073709551616 = k + 32 + t" "(k + 32 + t - ?n) mod 18446744073709551616 = k + 32 + t - ?n"
    "(k + 32 + t - ?n - 32) mod 18446744073709551616 = ?u" "?r mod 18446744073709551616 = ?r"
    using D(3,5) ab g sz(2) ok by (simp_all add: blk_ok_def)
  ultimately show ?thesis using g n D(3) heap_addr [OF h] E(3) chain_get [OF c] chain_get [OF c2]
    by (simp add: my_realloc_def ALIGNMENT_def Let_def) (auto elim!: bind_eq_SomeE simp: add_diff_eq)
qed

lemma realloc_remainder:
  assumes h: "heap_good m (xs @ (a, k, False) # (b, t, True) # zs)" and b: "b = a + 32 + k" and n: "0 < n" "n \<le> 2 ^ 64 - 4128"
    and g: "k < ALIGN_UP n 16" "48 < k + 32 + t - ALIGN_UP n 16" and clash: "b \<noteq> a + 16 + ALIGN_UP n 16"
  shows "\<exists>m'. my_realloc os (a + 32) n m = Some (a + 32, m') \<and>
    moved (xs @ (a, k, False) # (b, t, True) # zs) (a + 32) k n m (a + 32) m'"
proof -
  have sz: "n \<le> ALIGN_UP n 16" "ALIGN_UP n 16 mod 16 = 0" "ALIGN_UP n 16 < 2 ^ 64" using align_16 [of n] n by simp_all
  note G = grow_good [OF h b sz(2) g(1) sz(3) g(2)]
  from movedI [OF h G(1) sz(1), of k] G(2) grow_run [OF h b n g] clash show ?thesis by simp
qed

lemma realloc_move_call:
  assumes h: "heap_good m (xs @ (a, k, False) # ys)" and n: "0 < n"
    and g: "k < ALIGN_UP n 16" "\<forall>b t zs. ys = (b, t, True) # zs \<longrightarrow> k + 32 + t < ALIGN_UP n 16"
  shows "my_realloc os (a + 32) n m = my_malloc os (ALIGN_UP n 16) m \<bind> (\<lambda>(q, m). if q = 0 then Some (0, m)
      else copy_bytes q (a + 32) k m \<bind> (\<lambda>m. my_free (a + 32) m \<bind> (\<lambda>m. Some (q, m))))"
proof (cases ys)
  case Nil
  then show ?thesis using heap_addr [OF h] n g chain_get [OF heap_chain [OF h]] by (simp add: my_realloc_def ALIGNMENT_def Let_def)
next
  case (Cons y zs)
  obtain b t f where y: "y = (b, t, f)" by (cases y)
  note h1 = h [unfolded Cons y]
  note c = heap_chain [OF h1]
  have c2: "chain_ok m ((xs @ [(a, k, False)]) @ (b, t, f) # zs)" using c by simp
  have l: "laid m (xs @ (a, k, False) # (b, t, f) # zs)" using h1 by (simp add: heap_good_def)
  have "b + 32 + t \<le> a \<or> a + 32 + k \<le> b" using laid_disjoint [OF l, of b t f] by simp
  moreover have "0 < a" "0 \<le> k" "a + 32 + k < 2 ^ 64" "0 < b" "0 \<le> t" "b + 32 + t < 2 ^ 64"
    using laid_blk [OF l, of a k False] laid_blk [OF l, of b t f] by simp_all
  ultimately have "0 \<le> k + 32 + t" "k + 32 + t < 2 ^ 64" by linarith+
  then have "(k + 32 + t) mod 18446744073709551616 = k + 32 + t" by simp
  then show ?thesis using heap_addr [OF h] n g Cons y chain_get [OF c] chain_get [OF c2] chain_okD(3) [OF c2]
    by (cases f) (simp_all add: my_realloc_def ALIGNMENT_def Let_def)
qed

lemma realloc_move_copy:
  assumes h: "heap_good m1 bs1" and u: "used bs1 = insert (q, j) (used bs)" "q \<notin> fst ` used bs" "(p, k) \<in> used bs"
    and kj: "k \<le> j" "n \<le> j" and kept1: "kept_used (used bs) m m1" and q: "q \<noteq> 0" and seam: "seams m1 bs1"
  shows "\<exists>m2. copy_bytes q p k m1 = Some m2 \<and> (crosses p m2 \<or> (\<exists>m'. my_free p m2 = Some m' \<and> moved bs p k n m q m'))"
proof -
  have u1: "(q, j) \<in> used bs1" "(p, k) \<in> used bs1" and pq: "q \<noteq> p" using u by force+
  define g where "g = (\<lambda>x. if q \<le> x \<and> x < q + k then rbytes m1 (p + (x - q)) else rbytes m1 x)"
  have "range_ok m1 q k" "range_ok m1 p k"
    using used_range(5) [OF h u1(1)] used_range(5) [OF h u1(2)] kj(1) by (auto intro!: range_okI)
  then have copy: "copy_bytes q p k m1 = Some (m1\<lparr>rbytes := g\<rparr>)" by (simp add: copy_bytes_def g_def)
  have h2: "heap_good (m1\<lparr>rbytes := g\<rparr>) bs1"
    by (rule payload_good [OF h u1(1)]) (use kj(1) in \<open>auto simp: g_def\<close>)
  show ?thesis
  proof (cases "crosses p (m1\<lparr>rbytes := g\<rparr>)")
    case True
    then show ?thesis using copy by blast
  next
  case False
  from u1(2) obtain xs ys where bs1: "bs1 = xs @ (p - 32, k, False) # ys" by (rule usedE)
  note h3 = h2 [unfolded bs1]
  have "joins (xs @ (p - 32, k, True) # ys)" by (rule uncrossed_joins [OF h3]) (use False seam bs1 in simp_all)
  from my_free_ok [OF h3 this] used_others(1) [OF h3] obtain m' bs' where
    f: "my_free p (m1\<lparr>rbytes := g\<rparr>) = Some m'" "heap_good m' bs'"
    "used bs' = used bs1 - {(p, k)}" "kept_used (used bs1 - {(p, k)}) (m1\<lparr>rbytes := g\<rparr>) m'" by (auto simp: bs1)
  have k1: "rbytes m1 x = rbytes m x" if "(s, e) \<in> used bs" "s \<le> x" "x < s + e" for s e x
    using kept1 that unfolding kept_used_def by blast
  have k2: "rbytes m' x = g x" if "(s, e) \<in> used bs1" "s \<noteq> p" "s \<le> x" "x < s + e" for s e x
    using f(4) that unfolding kept_used_def by fastforce
  have bytes: "rbytes m' (q + i) = rbytes m (p + i)" if "0 \<le> i" "i < min k n" for i :: int
    using k2 [OF u1(1) pq, of "q + i"] k1 [OF u(3), of "p + i"] that kj(1) by (simp add: g_def)
  have "kept_used (used bs - {(p, k)}) m m'"
  proof (rule kept_usedI)
    fix s e x assume "(s, e) \<in> used bs - {(p, k)}" and r: "s \<le> x" "x < s + e"
    then have s: "(s, e) \<in> used bs" "(s, e) \<noteq> (p, k)" "s \<le> x" "x < s + e" by blast+
    have s1: "(s, e) \<in> used bs1" "s \<noteq> q" using s(1) u by force+
    then have "s \<noteq> p" using used_unique [OF h u1(2)] s(2) by blast
    moreover have "g x = rbytes m1 x" using used_disjoint [OF h s1(1) u1(1) s1(2)] s(3,4) kj(1) by (auto simp: g_def)
    ultimately show "rbytes m' x = rbytes m x" using k1 [OF s(1,3,4)] k2 [OF s1(1) _ s(3,4)] by simp
  qed
  moreover have "used bs' = insert (q, j) (used bs - {(p, k)})" using f(3) u(1) pq by auto
  moreover have "q \<notin> fst ` (used bs - {(p, k)})" using u(2) by blast
  ultimately have "moved bs p k n m q m'" unfolding moved_def using q f(2) kj(2) bytes
    by (intro conjI exI [of _ bs'] exI [of _ j]) simp_all
  then show ?thesis using copy f(1) by blast
  qed
qed

text \<open>The call moves the block and its last step, the release of the old one, merges across regions.\<close>

definition release_crosses :: "os \<Rightarrow> int \<Rightarrow> int \<Rightarrow> int \<Rightarrow> rheap \<Rightarrow> bool" where
  "release_crosses os n k p m \<longleftrightarrow> (\<exists>q m1 m2. my_malloc os (ALIGN_UP n ALIGNMENT) m = Some (q, m1) \<and> q \<noteq> 0 \<and>
     copy_bytes q p k m1 = Some m2 \<and> crosses p m2)"

lemma realloc_move:
  assumes os: "mmap_ok os" and h: "heap_good m (xs @ (a, k, False) # ys)" "seams m (xs @ (a, k, False) # ys)" and n: "0 < n" "n \<le> 2 ^ 64 - 4128"
    and g: "k < ALIGN_UP n 16" "\<forall>b t zs. ys = (b, t, True) # zs \<longrightarrow> k + 32 + t < ALIGN_UP n 16"
  shows "my_realloc os (a + 32) n m = Some (0, m) \<or> release_crosses os n k (a + 32) m \<or>
    (\<exists>q m'. my_realloc os (a + 32) n m = Some (q, m') \<and> moved (xs @ (a, k, False) # ys) (a + 32) k n m q m')"
proof -
  have n': "0 < ALIGN_UP n 16" "ALIGN_UP n 16 \<le> 2 ^ 64 - 4128" "n \<le> ALIGN_UP n 16" using align_16 [of n] n by simp_all
  note call = realloc_move_call [OF h(1) n(1) g, of os]
  from my_malloc_ok [OF os h(1) n'(1,2)] show ?thesis
  proof (elim disjE exE conjE)
    assume "my_malloc os (ALIGN_UP n 16) m = Some (0, m)"
    then show ?thesis by (simp add: call)
  next
    fix q j m1 bs1
    assume r: "my_malloc os (ALIGN_UP n 16) m = Some (q, m1)" "q \<noteq> 0" "heap_good m1 bs1" "ALIGN_UP n 16 \<le> j"
      "used bs1 = insert (q, j) (used (xs @ (a, k, False) # ys))" "q \<notin> fst ` used (xs @ (a, k, False) # ys)"
      "kept_used (used (xs @ (a, k, False) # ys)) m m1" "seams m (xs @ (a, k, False) # ys) \<longrightarrow> seams m1 bs1"
    have "(a + 32, k) \<in> used (xs @ (a, k, False) # ys)" "k \<le> j" "n \<le> j" using r(4) g(1) n'(3) by simp_all
    from realloc_move_copy [OF r(3,5,6) this r(7,2)] r(8) h(2) obtain m2 where m2: "copy_bytes q (a + 32) k m1 = Some m2"
      "crosses (a + 32) m2 \<or> (\<exists>m'. my_free (a + 32) m2 = Some m' \<and> moved (xs @ (a, k, False) # ys) (a + 32) k n m q m')" by blast
    from m2(2) show ?thesis
    proof (elim disjE exE conjE)
      assume "crosses (a + 32) m2"
      then show ?thesis using r(1,2) m2(1) unfolding release_crosses_def ALIGNMENT_def by blast
    next
      fix m' assume "my_free (a + 32) m2 = Some m'" "moved (xs @ (a, k, False) # ys) (a + 32) k n m q m'"
      then show ?thesis using call r(1,2) m2(1) by auto
    qed
  qed
qed

lemma my_realloc_ok:
  assumes os: "mmap_ok os" and h: "heap_good m (xs @ (a, k, False) # ys)" "seams m (xs @ (a, k, False) # ys)" and n: "0 < n" "n \<le> 2 ^ 64 - 4128"
    and near: "\<forall>b t zs. ys = (b, t, True) # zs \<longrightarrow> b = a + 32 + k \<and> ALIGN_UP n 16 \<noteq> k + 16"
  shows "my_realloc os (a + 32) n m = Some (0, m) \<or> release_crosses os n k (a + 32) m \<or>
    (\<exists>q m'. my_realloc os (a + 32) n m = Some (q, m') \<and> moved (xs @ (a, k, False) # ys) (a + 32) k n m q m')"
proof -
  consider (shrink) "ALIGN_UP n 16 \<le> k" | (move) "k < ALIGN_UP n 16" "\<forall>b t zs. ys = (b, t, True) # zs \<longrightarrow> k + 32 + t < ALIGN_UP n 16"
    | (grow) b t zs where "k < ALIGN_UP n 16" "ys = (b, t, True) # zs" "ALIGN_UP n 16 \<le> k + 32 + t" by force
  then show ?thesis
  proof cases
    case shrink
    from realloc_shrink [OF h(1) n this] show ?thesis by blast
  next
    case move
    from realloc_move [OF os h n this] show ?thesis .
  next
    case grow
    note hg = h(1) [unfolded grow(2)]
    have b: "b = a + 32 + k" and clash: "b \<noteq> a + 16 + ALIGN_UP n 16" using near grow(2) by auto
    show ?thesis
    proof (cases "48 < k + 32 + t - ALIGN_UP n 16")
      case True
      from realloc_remainder [OF hg b n grow(1) True] clash show ?thesis unfolding grow(2) by auto
    next
      case False
      from realloc_swallow [OF hg b n grow(1,3)] False show ?thesis unfolding grow(2) by auto
    qed
  qed
qed

section \<open>Exact runs\<close>

text \<open>A request that no block of the list fits, served from a new region.\<close>

lemma malloc_region:
  assumes os: "mmap_ok os" and h: "heap_good m bs" and n: "0 < n" "n \<le> 2 ^ 64 - 4128"
    and f: "\<forall>b\<in>set bs. \<not> fits (ALIGN_UP n 16) b" and T: "T = ALIGN_UP (32 + ALIGN_UP n 16) 4096" and a: "os (maps m) T = Some a"
  shows "\<exists>m'. my_malloc os n m = Some (a + 32, m') \<and> heap_good m' (bs @ cut a (T - 32) (ALIGN_UP n 16) False) \<and>
    maps m' = maps m @ [(a, T)]"
proof -
  let ?sz = "ALIGN_UP n 16"
  have sz: "0 \<le> ?sz" "?sz \<le> 2 ^ 64 - 4128" "?sz mod 16 = 0" using align_16 [of n] n by simp_all
  from init_at [OF os h sz(1,2) T a] obtain m1 where m1: "init_new_region os ?sz m = Some (a, m1)"
    "heap_good m1 (bs @ (a, T - 32, True) # [])" "?sz \<le> T - 32" "a \<noteq> 0" "maps m1 = maps m @ [(a, T)]" by blast
  have d: "dropWhile (\<lambda>b. \<not> fits ?sz b) bs = []" using f by simp
  have find: "find_free_block ?sz m = Some 0"
    using find_from_ok [of m "[]" bs ?sz, unfolded d] heap_chain [OF h] by (simp add: find_free_block_def chain_ok_def)
  let ?m = "m1\<lparr>rbytes := (rbytes m1)(a + 8 := of_bool False)\<rparr>"
  note c = heap_chain [OF m1(2)]
  have h1: "heap_good ?m (bs @ (a, T - 32, False) # [])"
    by (rule heap_goodI) (use set_free_ok(2) [OF c, of False] m1(2) laid_flag [of m1 bs a "T - 32" False "[]" True] in \<open>simp_all add: heap_good_def\<close>)
  from region_split_ok [OF h1 sz(1) m1(3) sz(3)] obtain g where g: "split_block a ?sz ?m = Some (?m\<lparr>rbytes := g\<rparr>)"
    "heap_good (?m\<lparr>rbytes := g\<rparr>) (bs @ cut a (T - 32) ?sz False)" by auto
  have "my_malloc os n m = Some (a + 32, m1\<lparr>rbytes := g\<rparr>)"
    using find m1(1,4) g(1) n(1) heap_addr [OF h1] set_free_ok(1) [OF c, of False] by (simp add: my_malloc_def ALIGNMENT_def Let_def)
  then show ?thesis using g(2) m1(5) by simp
qed

text \<open>Integers in a buffer.\<close>

lemma load_ints_mapped:
  "\<forall>x. p \<le> x \<and> x < p + 4 * int k \<longrightarrow> mapped m x \<Longrightarrow>
   load_ints k m p = Some (map (\<lambda>i. le_val 4 (rbytes m) (p + 4 * int i)) [0..<k])"
proof (induction k arbitrary: p)
  case (Suc k)
  have "range_ok m p 4" by (rule range_okI) (use Suc.prems in auto)
  moreover have "load_ints k m (p + 4) = Some (map (\<lambda>i. le_val 4 (rbytes m) (p + 4 + 4 * int i)) [0..<k])"
    by (rule Suc.IH) (use Suc.prems in auto)
  moreover have "map (\<lambda>i. le_val 4 (rbytes m) (p + 4 * int i)) [0..<Suc k] =
      le_val 4 (rbytes m) p # map (\<lambda>i. le_val 4 (rbytes m) (p + 4 + 4 * int i)) [0..<k]"
    by (simp add: upt_conv_Cons map_Suc_upt [symmetric] del: upt_Suc) (simp add: algebra_simps)
  ultimately show ?case by (simp add: load_int_def)
qed simp

lemma store_ints_ok:
  "\<forall>x. p \<le> x \<and> x < p + 4 * int (length vs) \<longrightarrow> mapped m x \<Longrightarrow> \<forall>v\<in>set vs. 0 \<le> v \<and> v < 2 ^ 32 \<Longrightarrow>
   \<exists>g. store_ints p vs m = Some (m\<lparr>rbytes := g\<rparr>) \<and> (\<forall>x. x < p \<or> p + 4 * int (length vs) \<le> x \<longrightarrow> g x = rbytes m x) \<and>
     (\<forall>i<length vs. le_val 4 g (p + 4 * int i) = vs ! i)"
proof (induction vs arbitrary: p m)
  case (Cons v vs)
  let ?f = "put_le 4 p v (rbytes m)"
  have r: "range_ok m p 4" by (rule range_okI) (use Cons.prems(1) in auto)
  have "\<forall>x. p + 4 \<le> x \<and> x < p + 4 + 4 * int (length vs) \<longrightarrow> mapped (m\<lparr>rbytes := ?f\<rparr>) x" using Cons.prems(1) by auto
  from Cons.IH [OF this] Cons.prems(2) obtain g where g: "store_ints (p + 4) vs (m\<lparr>rbytes := ?f\<rparr>) = Some (m\<lparr>rbytes := g\<rparr>)"
    "\<forall>x. x < p + 4 \<or> p + 4 + 4 * int (length vs) \<le> x \<longrightarrow> g x = ?f x" "\<forall>i<length vs. le_val 4 g (p + 4 + 4 * int i) = vs ! i" by auto
  have "le_val 4 g p = le_val 4 ?f p" by (rule le_val_cong) (use g(2) in auto)
  also have "\<dots> = v" using Cons.prems(2) by (intro le_val_put) auto
  finally have "le_val 4 g (p + 4 * int i) = (v # vs) ! i" if "i < length (v # vs)" for i
    using that g(3) by (cases i) (auto simp: algebra_simps)
  moreover have "g x = rbytes m x" if "x < p \<or> p + 4 * int (length (v # vs)) \<le> x" for x
    using g(2) put_le_outside [of x p 4 v "rbytes m"] that by auto
  ultimately show ?case using g(1) r by (intro exI [of _ g]) (simp add: store_int_def)
next
  case Nil
  show ?case by (rule exI [of _ "rbytes m"]) simp
qed

text \<open>The growth of \<open>main\<close>'s array: the bytes of the buffer, and the release that follows.\<close>

lemma clash_release:
  assumes a: "0 < a" "a + 64 < 2 ^ 64" "range_ok m a 8" "range_ok m (a + 8) 1" "range_ok m (a + 16) 8" "hmapped m (a + 64)"
    and h: "header_at (rbytes m) a s f (a + 64)" "header_at (rbytes m) (a + 64) t True u" and g: "g_heap_head m = a"
    and u: "0 < u" "u < 2 ^ 64" "\<not> mapped m (u + 8)"
  shows "my_free (a + 32) m = None"
proof -
  let ?v = "(s + (32 + t)) mod 2 ^ 64"
  let ?f1 = "(rbytes m)(a + 8 := of_bool True)"
  let ?f2 = "put_le 8 a ?v ?f1"
  let ?f3 = "put_le 8 (a + 16) u ?f2"
  note F = fields_mapped [OF a(6)]
  have v: "0 \<le> ?v" "?v < 2 ^ 64" by simp_all
  have H1: "header_at ?f1 a s True (a + 64)" using header_writes(2) [OF h(1), of True] by simp
  have H2: "header_at ?f2 a ?v True (a + 64)" by (rule header_writes(1) [OF H1 v])
  have H3: "header_at ?f3 a ?v True u" using header_writes(3) [OF H2, of u] u by simp
  have K: "header_at ?f1 (a + 64) t True u" "header_at ?f2 (a + 64) t True u"
    using h(2) header_cong [of "a + 64" ?f1 "rbytes m"] header_cong [of "a + 64" ?f2 "rbytes m"] by (auto simp: put_le_outside)
  have "\<not> range_ok m (u + 8) 1" using u(3) by (auto simp: range_ok_def list_all_iff)
  then have "get_free (m\<lparr>rbytes := ?f3\<rparr>) u = None" by (simp add: get_free_def)
  moreover have "get_next (m\<lparr>rbytes := ?f3\<rparr>) a = Some u" "get_free (m\<lparr>rbytes := ?f3\<rparr>) a = Some True"
    using H3 a(3-5) by (simp_all add: get_next_def get_free_def header_at_def)
  ultimately have "coalesce_from a (m\<lparr>rbytes := ?f3\<rparr>) = None" using a(1) u(1) by (subst coalesce_from.simps) simp
  moreover have "get_next (m\<lparr>rbytes := ?f1\<rparr>) a = Some (a + 64)" "get_free (m\<lparr>rbytes := ?f1\<rparr>) a = Some True"
    "get_size (m\<lparr>rbytes := ?f1\<rparr>) a = Some s" "get_free (m\<lparr>rbytes := ?f1\<rparr>) (a + 64) = Some True"
    "get_size (m\<lparr>rbytes := ?f1\<rparr>) (a + 64) = Some t" "get_next (m\<lparr>rbytes := ?f2\<rparr>) (a + 64) = Some u"
    using H1 K a(3-5) F by (simp_all add: get_next_def get_free_def get_size_def header_at_def)
  moreover have "set_size a ?v (m\<lparr>rbytes := ?f1\<rparr>) = Some (m\<lparr>rbytes := ?f2\<rparr>)" "set_next a u (m\<lparr>rbytes := ?f2\<rparr>) = Some (m\<lparr>rbytes := ?f3\<rparr>)"
    using a(3,5) by (simp_all add: set_size_def set_next_def)
  ultimately have "coalesce_from a (m\<lparr>rbytes := ?f1\<rparr>) = None" using a(1) by (subst coalesce_from.simps) simp
  then show ?thesis using a g by (simp add: my_free_def region_coalesce_def set_free_def)
qed

lemma main_prefix_run:
  assumes os: "mmap_ok os" and m: "maps m = []" "g_heap_head m = 0" and a: "os [] 4096 = Some a"
  shows "\<exists>out m'. main_prefix os m = Some (out, a + 32, m') \<and> take 4 out = [0, 10, 20, 30] \<and> drop 8 out = [0, 10] \<and>
    my_free (a + 32) m' = None"
proof -
  have al: "ALIGN_UP 16 16 = 16" "ALIGN_UP 32 16 = 32" "ALIGN_UP 8 16 = 16" "ALIGN_UP (32 + 16) 4096 = 4096"
    by (simp_all add: ALIGN_UP_16 ALIGN_UP_4096)
  have A: "0 < a" "a mod 4096 = 0" "a + 4096 < 2 ^ 64" using mmap_okD(1-3) [of os m 4096 a] os a m(1) by simp_all
  have a4: "4096 \<le> a" using A(1,2) zmod_trivial_iff [of a 4096] by auto
  have "heap_good m []" using m(2) by (simp add: heap_good_def laid_def)
  moreover have "cut a (4096 - 32) 16 False = [(a, 16, False), (a + 48, 4016, True)]" by (simp add: cut_def)
  ultimately obtain m1 where m1: "my_malloc os 16 m = Some (a + 32, m1)"
    "heap_good m1 [(a, 16, False), (a + 48, 4016, True)]" "maps m1 = [(a, 4096)]"
    using malloc_region [OF os, of m "[]" 16 4096 a] al a m(1) by auto
  have M: "mapped m1 x \<longleftrightarrow> a \<le> x \<and> x < a + 4096" for x using m1(3) by (simp add: mapped_def)
  from store_ints_ok [of "a + 32" "[0, 10, 20, 30]" m1] M obtain g where
    g: "store_ints (a + 32) [0, 10, 20, 30] m1 = Some (m1\<lparr>rbytes := g\<rparr>)" "\<forall>x. x < a + 32 \<or> a + 48 \<le> x \<longrightarrow> g x = rbytes m1 x"
    "\<forall>i<4. le_val 4 g (a + 32 + 4 * int i) = [0, 10, 20, 30] ! i" by auto
  let ?m2 = "m1\<lparr>rbytes := g\<rparr>" and ?f = "grow_bytes a 32 (a + 64) 4000 4000 g"
  have h2: "heap_good ?m2 [(a, 16, False), (a + 48, 4016, True)]" by (rule payload_good [OF m1(2), of "a + 32" 16]) (use g(2) in auto)
  have eq: "a + 48 = a + 16 + 32 \<longleftrightarrow> True" "16 + 4016 - 32 = (4000::int)" "a + 32 + 32 = a + 64" by simp_all
  have r3: "my_realloc os (a + 32) 32 ?m2 = Some (a + 32, m1\<lparr>rbytes := ?f\<rparr>)"
    using grow_run [of ?m2 "[]" a 16 "a + 48" 4016 "[]" 32 os, unfolded al(2) eq if_True append_Nil, OF h2] by simp
  have c2: "chain_ok ?m2 ([] @ (a, 16, False) # [(a + 48, 4016, True)])" using heap_chain [OF h2] by simp
  note D = chain_okD [OF c2]
  have "header_at g a 16 False (a + 48)" using D(1) by simp
  note G = grow_bytes_ok [OF this, of "a + 64" 32 4000 4000]
  have hd: "header_at ?f a 32 False (a + 64)" "header_at ?f (a + 64) 4000 True 4000" using G(1,2) A(1,3) by simp_all
  have out: "?f x = g x" if "a + 24 \<le> x" "x < a + 64" for x using G(3) A(1,3) that by simp
  have le: "le_val 4 ?f (a + 32 + 4 * int i) = [0, 10, 20, 30] ! i" if "i < 4" for i
    using le_val_cong [of "a + 32 + 4 * int i" 4 ?f g] out g(3) that by auto
  let ?m3 = "m1\<lparr>rbytes := ?f\<rparr>"
  define out where "out k = map (\<lambda>i. le_val 4 ?f (a + 32 + 4 * int i)) [0..<k]" for k
  have ld: "load_ints k ?m3 (a + 32) = Some (out k)" if "k \<le> 8" for k
    using load_ints_mapped [of "a + 32" k ?m3] that M by (simp add: out_def)
  have o4: "take 4 (out 8) = [0, 10, 20, 30]" "out 2 = [0, 10]"
    using le [of 0] le [of 1] le [of 2] le [of 3] by (simp_all add: out_def take_map upt_rec)
  have gs: "get_size ?m3 a = Some 32" using hd(1) D(9) by (simp add: get_size_def header_at_def)
  then have "split_block a 16 ?m3 = Some ?m3" by (simp add: split_block_def ALIGNMENT_def Let_def)
  then have r5: "my_realloc os (a + 32) 8 ?m3 = Some (a + 32, ?m3)" using gs A al(3) by (simp add: my_realloc_def ALIGNMENT_def Let_def)
  have "my_free (a + 32) ?m3 = None"
    by (rule clash_release [where s = 32 and f = False and t = 4000 and u = 4000]) (use D A a4 hd M in \<open>auto simp: hmapped_def\<close>)
  moreover have "main_prefix os m = Some (out 8 @ out 2, a + 32, ?m3)"
    using m1(1) g(1) r3 r5 ld [of 8] ld [of 2] by (simp add: main_prefix_def my_realloc_def [of os 0] del: store_ints.simps)
  ultimately show ?thesis using o4 by (intro exI [of _ "out 8 @ out 2"] exI [of _ ?m3]) (simp add: out_def)
qed

section \<open>Properties\<close>

text \<open>C10: For every \<open>mmap\<close> that returns page aligned regions apart from each other, wherever it places them: a client
  that requests, releases and writes buffers in any order runs without an invalid access, and the buffers it
  holds are aligned to 16 bytes, in mapped memory, at least as large as requested, pairwise disjoint, and still hold what was
  written to them; this goes on to the end of the client, or up to a release of one of its buffers that
  makes two neighbours of the list free of which the second is the first block of a region and does not
  follow the first in memory.\<close>

theorem region_client_correct:
  assumes "mmap_ok os" "g_heap_head m = 0" "\<forall>n. Request n \<in> set xs \<longrightarrow> 0 \<le> n \<and> n \<le> 2 ^ 64 - 4128"
  shows "\<exists>ys zs m' L D. xs = ys @ zs \<and>
    run_client (region_acquire os) my_free region_poke ys (m, Map.empty, Map.empty) = Some (m', L, D) \<and>
    (\<forall>p n. L p = Some n \<longrightarrow> p mod 16 = 0 \<and> (\<forall>x. p \<le> x \<and> x < p + n \<longrightarrow> mapped m' x)) \<and>
    (\<forall>p q n k. L p = Some n \<and> L q = Some k \<and> p \<noteq> q \<longrightarrow> p + n \<le> q \<or> q + k \<le> p) \<and>
    (\<forall>a b. D a = Some b \<longrightarrow> rbytes m' a = b) \<and>
    (zs = [] \<or> (\<exists>p zs'. zs = Release p # zs' \<and> L p \<noteq> None \<and> crosses p m'))"
proof -
  have "heap_good m []" using assms(2) by (simp add: heap_good_def laid_def)
  then have inv: "region_inv os m Map.empty" using assms(1) unfolding region_inv_def by (intro conjI exI [of _ "[]"]) auto
  obtain ys zs where y: "xs = ys @ zs"
    "run_client (region_acquire os) my_free region_poke ys (m, Map.empty, Map.empty) =
     run_client (region_acquire os) local_free region_poke ys (m, Map.empty, Map.empty)"
    "zs = [] \<or> (\<exists>p zs' m' L D. zs = Release p # zs' \<and> L p \<noteq> None \<and> crosses p m' \<and>
       run_client (region_acquire os) my_free region_poke ys (m, Map.empty, Map.empty) = Some (m', L, D))"
    using run_until_cross [of "region_acquire os" region_poke xs "(m, Map.empty, Map.empty)"] by (metis append_Nil2)
  have "\<forall>n. Request n \<in> set ys \<longrightarrow> 0 \<le> n \<and> n \<le> 2 ^ 64 - 4128" using assms(3) y(1) by simp
  from reg.run_client_from_start [OF inv this] obtain m' L D where
    r: "run_client (region_acquire os) local_free region_poke ys (m, Map.empty, Map.empty) = Some (m', L, D)" "region_inv os m' L"
      "\<forall>a b. D a = Some b \<longrightarrow> rbytes m' a = b"
      "\<forall>p q n k. L p = Some n \<and> L q = Some k \<and> p \<noteq> q \<longrightarrow> p + n \<le> q \<or> q + k \<le> p" by blast
  have "p mod 16 = 0 \<and> (\<forall>x. p \<le> x \<and> x < p + n \<longrightarrow> mapped m' x)" if "L p = Some n" for p n
  proof -
    from r(2) that obtain bs k where k: "heap_good m' bs" "k \<ge> n" "(p, k) \<in> used bs" unfolding region_inv_def by blast
    show ?thesis using used_range(4,5) [OF k(1,3)] k(2) by simp
  qed
  moreover have "zs = [] \<or> (\<exists>p zs'. zs = Release p # zs' \<and> L p \<noteq> None \<and> crosses p m')" using y(2,3) r(1) by auto
  ultimately show ?thesis using y(1,2) r
    by (intro exI [of _ ys] exI [of _ zs] exI [of _ m'] exI [of _ L] exI [of _ D] conjI) simp_all
qed

text \<open>Kernels that place the next region right after or right before the last one, if there is room.\<close>

definition placed :: "(int \<times> int) list \<Rightarrow> int \<Rightarrow> int \<Rightarrow> int option" where
  "placed rs n a = (if 0 < a \<and> a mod 4096 = 0 \<and> a + n < 2 ^ 64 \<and> list_all (\<lambda>(s, k). a + n \<le> s \<or> s + k \<le> a) rs then Some a else None)"

definition upward_os :: os where
  "upward_os rs n = placed rs n (if rs = [] then 65536 else fst (last rs) + snd (last rs))"

definition downward_os :: os where
  "downward_os rs n = placed rs n (if rs = [] then 65536 else fst (last rs) - n)"

lemma placed_ok: "mmap_ok upward_os" "mmap_ok downward_os"
  by (auto simp: mmap_ok_def upward_os_def downward_os_def placed_def list_all_iff split: if_splits)

theorem region_client_correct_witness:
  "mmap_ok downward_os \<and> (\<exists>m' L D.
     run_client (region_acquire downward_os) my_free region_poke
       [Request 40, Request 5000, Request 4000, Store 65568 3 7] (no_heap, Map.empty, Map.empty) = Some (m', L, D) \<and>
     (\<forall>p n. L p = Some n \<longrightarrow> p mod 16 = 0 \<and> (\<forall>x. p \<le> x \<and> x < p + n \<longrightarrow> mapped m' x)) \<and>
     (\<forall>p q n k. L p = Some n \<and> L q = Some k \<and> p \<noteq> q \<longrightarrow> p + n \<le> q \<or> q + k \<le> p) \<and>
     (\<forall>a b. D a = Some b \<longrightarrow> rbytes m' a = b))"
proof -
  have n: "Release p # zs' \<noteq> zs" if "[Request 40, Request 5000, Request 4000, Store 65568 3 7] = ys @ zs" for p zs' ys zs
    using that by (auto simp: Cons_eq_append_conv)
  have "g_heap_head no_heap = 0" by (simp add: no_heap_def)
  from region_client_correct [OF placed_ok(2) this, of "[Request 40, Request 5000, Request 4000, Store 65568 3 7]"] n
  show ?thesis using placed_ok(2) by fastforce
qed

text \<open>Reallocation on every branch, wherever the regions are: it returns null and changes nothing when no memory can be
  had, or a block of at least the new size that holds the old contents up to the smaller size, with the other
  blocks and their contents as they were, or the release of the moved block merges across
  regions.  Left out are a free neighbour in the list that does not follow in memory, and a free neighbour that
  the block grows into by exactly 16 bytes.\<close>

theorem region_realloc_correct:
  assumes "mmap_ok os" "heap_good m (xs @ (p - 32, k, False) # ys)" "seams m (xs @ (p - 32, k, False) # ys)" "0 < n" "n \<le> 2 ^ 64 - 4128"
    and "\<forall>b t zs. ys = (b, t, True) # zs \<longrightarrow> b = p + k \<and> ALIGN_UP n 16 \<noteq> k + 16"
  shows "my_realloc os p n m = Some (0, m) \<or> release_crosses os n k p m \<or>
    (\<exists>q m'. my_realloc os p n m = Some (q, m') \<and> moved (xs @ (p - 32, k, False) # ys) p k n m q m')"
  using my_realloc_ok [OF assms(1-5)] assms(6) by simp

text \<open>One region, all of it allocated.\<close>

definition one_block :: rheap where
  "one_block = with_region 65536 4096 no_heap\<lparr>g_heap_head := 65536\<rparr>"

definition one_used :: rheap where
  "one_used = one_block\<lparr>rbytes := (rbytes one_block)(65544 := 0)\<rparr>"

lemma one_used_good: "heap_good one_used [(65536, 4064, False)]"
proof -
  have h: "heap_good one_block ([] @ [(65536, 4064, True)])"
    using init_first [of 65536 4096 no_heap] by (simp add: one_block_def)
  then have "laid one_block [(65536, 4064, False)]" using laid_flag [of one_block "[]" 65536 4064 True "[]" False] by (simp add: heap_good_def)
  then show ?thesis unfolding one_used_def
    by (rule heap_goodI [rotated]) (use set_free_ok(2) [OF heap_chain [OF h], of False] in simp)
qed

theorem region_realloc_correct_witness:
  "heap_good one_used ([] @ [(65568 - 32, 4064, False)]) \<and> (my_realloc downward_os 65568 5000 one_used = Some (0, one_used) \<or>
     release_crosses downward_os 5000 4064 65568 one_used \<or>
     (\<exists>q m'. my_realloc downward_os 65568 5000 one_used = Some (q, m') \<and> moved ([] @ [(65568 - 32, 4064, False)]) 65568 4064 5000 one_used q m'))"
proof -
  have h: "heap_good one_used ([] @ [(65568 - 32, 4064, False)])" using one_used_good by simp
  from region_realloc_correct [OF placed_ok(2) h, of 5000] h show ?thesis by simp
qed

text \<open>The exception is real: growing a block by 16 bytes into a free neighbour that leaves a remainder makes
  the remainder point to its own size, not to the next block.\<close>

theorem region_realloc_clash:
  assumes "heap_good m (xs @ (p - 32, k, False) # (p + k, t, True) # zs)" "0 < n" "n \<le> 2 ^ 64 - 4128" "ALIGN_UP n 16 = k + 16" "32 < t"
  shows "\<exists>m'. my_realloc os p n m = Some (p, m') \<and> get_next m' (p - 32) = Some (p + k + 16) \<and> get_next m' (p + k + 16) = Some (t - 16)"
proof -
  let ?n = "ALIGN_UP n 16" and ?a = "p - 32"
  let ?g = "grow_bytes ?a ?n (?a + 32 + ?n) (k + t - ?n) (k + t - ?n) (rbytes m)"
  have sz: "?n mod 16 = 0" "0 \<le> ?n" "?n < 2 ^ 64" using align_16 [of n] assms(2,3) by simp_all
  have b: "p + k = ?a + 32 + k" and g: "k < ?n" "48 < k + 32 + t - ?n" using assms(4,5) by simp_all
  note D = chain_okD [OF heap_chain [OF assms(1)]]
  have ok: "blk_ok m (?a + 32 + ?n, k + t - ?n, True)" by (rule grow_good(3) [OF assms(1) b sz(1) g(1) sz(3) g(2)])
  note G = grow_bytes_ok [OF D(1), of "?a + 32 + ?n" ?n "k + t - ?n" "k + t - ?n"]
  have "range_ok m (?a + 32 + ?n + 16) 8" using fields_mapped(3) [of m "?a + 32 + ?n"] ok by (simp add: blk_ok_def)
  moreover have "le_val 8 ?g (?a + 16) = ?a + 32 + ?n" "le_val 8 ?g (?a + 32 + ?n + 16) = k + t - ?n"
    using G(1,2) sz ok by (simp_all add: header_at_def blk_ok_def)
  ultimately have "get_next (m\<lparr>rbytes := ?g\<rparr>) ?a = Some (?a + 32 + ?n)" "get_next (m\<lparr>rbytes := ?g\<rparr>) (?a + 32 + ?n) = Some (k + t - ?n)"
    using D(11) by (simp_all add: get_next_def)
  then show ?thesis using grow_run [OF assms(1) b assms(2,3) g, of os] assms(4) by (simp add: algebra_simps)
qed

text \<open>C23: The program's own \<open>main\<close> never returns, whatever \<open>mmap\<close> answers.  When it fails, the first store goes through the null
  pointer.  When it succeeds, \<open>main\<close> prints the values it stored, but growing the array by 16 bytes wrote a wrong link, and the
  last call, which releases the array, follows it to an address that is not mapped.\<close>

theorem region_main_crashes:
  assumes "mmap_ok os" "maps m = []" "g_heap_head m = 0"
  shows "region_main os m = None \<and> (case os [] 4096 of
      None \<Rightarrow> my_realloc os 0 16 m = Some (0, m) \<and> store_ints 0 [0, 10, 20, 30] m = None
    | Some a \<Rightarrow> (\<exists>out m'. main_prefix os m = Some (out, a + 32, m') \<and> take 4 out = [0, 10, 20, 30] \<and> drop 8 out = [0, 10] \<and>
        my_realloc os (a + 32) 0 m' = None))"
proof (cases "os [] 4096")
  case None
  have "my_malloc os 16 m = Some (0, m)" using assms(2,3) None
    by (simp add: my_malloc_def ALIGNMENT_def find_free_block_def find_from.simps init_new_region_def request_os_mem_def
      MMAP_THRESHOLED_def ALIGN_UP_16 ALIGN_UP_4096)
  then have "my_realloc os 0 16 m = Some (0, m)" by (simp add: my_realloc_def)
  moreover have "\<not> mapped m 0" using assms(2) by (simp add: mapped_def)
  then have "store_int 0 0 m = None" by (simp add: store_int_def range_ok_def upto.simps)
  ultimately show ?thesis using None by (simp add: region_main_def main_prefix_def)
next
  case (Some a)
  from main_prefix_run [OF assms Some] obtain out m' where r: "main_prefix os m = Some (out, a + 32, m')"
    "take 4 out = [0, 10, 20, 30]" "drop 8 out = [0, 10]" "my_free (a + 32) m' = None" by blast
  then show ?thesis using Some by (simp add: region_main_def my_realloc_def)
qed

theorem region_main_crashes_witness:
  "region_main downward_os no_heap = None \<and> (\<exists>out m'. main_prefix downward_os no_heap = Some (out, 65568, m') \<and>
     take 4 out = [0, 10, 20, 30] \<and> drop 8 out = [0, 10] \<and> my_realloc downward_os 65568 0 m' = None)"
  using region_main_crashes [OF placed_ok(2), of no_heap] by (simp add: no_heap_def downward_os_def placed_def)

text \<open>What a release that merges across regions does: for every \<open>mmap\<close> that does not place its second region right after the first, the
  client that requests two buffers of 4064 bytes, releases them and requests 8128 bytes gets a buffer of which
  byte 4064 lies past the end of its region, in memory that is not mapped.\<close>

theorem region_coalesce_crosses:
  assumes "mmap_ok os" "maps m = []" "g_heap_head m = 0" "os [] 4096 = Some a" "os [(a, 4096)] 4096 = Some b" "b \<noteq> a + 4096"
  shows "\<exists>m' L D. run_client (region_acquire os) my_free region_poke
      [Request 4064, Request 4064, Release (a + 32), Release (b + 32), Request 8128] (m, Map.empty, Map.empty) = Some (m', L, D) \<and>
    L (a + 32) = Some 8128 \<and> \<not> mapped m' (a + 32 + 4064)"
proof -
  have al: "ALIGN_UP 4064 16 = 4064" "ALIGN_UP (32 + 4064) 4096 = 4096" "ALIGN_UP 8128 16 = 8128" by (simp_all add: ALIGN_UP_16 ALIGN_UP_4096)
  have cut: "cut x 4064 4064 False = [(x, 4064, False)]" for x by (simp add: cut_def)
  have h: "heap_good m []" using assms(3) by (simp add: heap_good_def laid_def)
  from malloc_region [OF assms(1) h, of 4064 4096 a] al cut assms(2,4) obtain m1 where m1: "my_malloc os 4064 m = Some (a + 32, m1)"
    "heap_good m1 [(a, 4064, False)]" "maps m1 = [(a, 4096)]" by auto
  from malloc_region [OF assms(1) m1(2), of 4064 4096 b] al cut assms(5) m1(3) obtain m2 where m2: "my_malloc os 4064 m1 = Some (b + 32, m2)"
    "heap_good m2 [(a, 4064, False), (b, 4064, False)]" "maps m2 = [(a, 4096), (b, 4096)]" by (auto simp: fits_def)
  have A: "0 < a" "a mod 4096 = 0" "a + 4096 < 2 ^ 64" using mmap_okD(1-3) [OF assms(1), of m 4096 a] assms(2,4) by simp_all
  have B: "0 < b" "b mod 4096 = 0" "b + 4096 < 2 ^ 64" using mmap_okD(1-3) [OF assms(1), of m1 4096 b] assms(5) m1(3) by simp_all
  have ab: "b + 4096 \<le> a \<or> a + 4096 \<le> b" using laid_disjoint [of m2 "[]" a 4064 False "[(b, 4064, False)]" b 4064 False] m2(2)
    by (auto simp: heap_good_def)
  have c2: "chain_ok m2 ([] @ (a, 4064, False) # [(b, 4064, False)])" using heap_chain [OF m2(2)] by simp
  from my_free_chain [OF c2] A(3) obtain g where g: "my_free (a + 32) m2 = Some (m2\<lparr>rbytes := g\<rparr>)"
    "chain_ok (m2\<lparr>rbytes := g\<rparr>) ([(a, 4064, True)] @ (b, 4064, False) # [])" by auto
  from my_free_chain [OF g(2)] B(3) obtain g' where g': "my_free (b + 32) (m2\<lparr>rbytes := g\<rparr>) = Some (m2\<lparr>rbytes := g'\<rparr>)"
    "chain_ok (m2\<lparr>rbytes := g'\<rparr>) ([] @ (a, 8160, True) # [])" by auto
  let ?m4 = "m2\<lparr>rbytes := g'\<rparr>"
  let ?m5 = "?m4\<lparr>rbytes := (rbytes ?m4)(a + 8 := of_bool False)\<rparr>"
  have "find_free_block 8128 ?m4 = Some a"
    using find_from_ok [of ?m4 "[]" "[(a, 8160, True)]" 8128] g'(2) by (simp add: find_free_block_def chain_ok_def fits_def)
  moreover have "split_block a 8128 ?m5 = Some ?m5"
    using chain_get(1) [OF set_free_ok(2) [OF g'(2), of False]] by (simp add: split_block_def ALIGNMENT_def Let_def)
  ultimately have "my_malloc os 8128 ?m4 = Some (a + 32, ?m5)"
    using A set_free_ok(1) [OF g'(2), of False] al(3) by (simp add: my_malloc_def ALIGNMENT_def Let_def)
  moreover have "\<not> mapped ?m5 (a + 32 + 4064)" using m2(3) ab assms(6) by (auto simp: mapped_def)
  moreover have "a + 32 \<noteq> b + 32" "a + 32 \<noteq> 0" "b + 32 \<noteq> 0" using ab A(1) B(1) by auto
  ultimately show ?thesis using m1(1) m2(1) g(1) g'(1) by (simp add: region_acquire_def)
qed

theorem region_coalesce_crosses_witness:
  "\<exists>m' L D. run_client (region_acquire downward_os) my_free region_poke
      [Request 4064, Request 4064, Release 65568, Release 61472, Request 8128] (no_heap, Map.empty, Map.empty) = Some (m', L, D) \<and>
    L 65568 = Some 8128 \<and> \<not> mapped m' 69632"
  using region_coalesce_crosses [OF placed_ok(2), of no_heap 65536 61440] by (simp add: no_heap_def downward_os_def placed_def)

text \<open>Requests near the end of \<open>size_t\<close> wrap around: the request for $2^{64} - 1$ bytes gets a block of size 0, and the
  request for $2^{64} - 16$ bytes gets a pointer although only 4064 bytes follow it.\<close>

theorem region_malloc_overflow:
  "(case my_malloc upward_os (2 ^ 64 - 1) no_heap of None \<Rightarrow> False | Some (p, m) \<Rightarrow> p = 65568 \<and> get_size m (p - 32) = Some 0) \<and>
   (case my_malloc upward_os (2 ^ 64 - 16) no_heap of None \<Rightarrow> False | Some (p, m) \<Rightarrow> p = 65568 \<and> \<not> mapped m (p + 4064))"
  by code_simp

end
