(* ===== verification/Coro_Loop.thy ===== *)
theory Coro_Loop
  imports Prelude
begin

text \<open>
  The coroutine program of src/cplusplus/concurrent/code/base\_coroutines/04\_epoll\_coroutines.cpp with the
  coroutine owner of task.hpp: an event loop on epoll resumes coroutines that wait for timers and sockets.

  A coroutine is its frame: the point where it is suspended, with the token that its waiter holds, and its local
  variables.  A socket pair is a pipe from the sender to the receiver; a timer is expired or not.  What the kernel may choose
  is a list of choices: a \<open>send\<close> or \<open>recv\<close> is interrupted, fails, or transfers up to a number of bytes (none
  at all for a \<open>send\<close> on a full buffer); a call that sets a timer up, reads it or shuts a socket down takes one choice and fails
  when it says so.  When the list is used up, calls succeed and transfer what they can.  \<open>epoll_wait\<close>
  reports those of the tokens it is asked for that are registered and ready.
\<close>

section \<open>State\<close>

datatype tid = Recv nat | Send nat | Idle
datatype fd = RecvSock nat | SendSock nat | Timer nat
datatype point = Initial | AtTimer nat | AtRead nat | AtWrite nat | Final
datatype choice = Eintr | Broken | Transfer nat

record frame =
  point :: point
  received :: string
  sent :: nat
  failed :: "string option"

record loop =
  next_token :: nat
  waiting :: "(nat \<times> fd \<times> tid) list"
  epoll :: "fd list"
  frames :: "tid \<Rightarrow> frame"
  pipe :: "nat \<Rightarrow> string"
  shut :: "nat \<Rightarrow> bool"
  expired :: "nat \<Rightarrow> bool"
  choices :: "choice list"
  printed :: "string list"

definition upd_frame :: "tid \<Rightarrow> (frame \<Rightarrow> frame) \<Rightarrow> loop \<Rightarrow> loop" where
  "upd_frame t f s = s\<lparr>frames := (frames s)(t := f (frames s t))\<rparr>"

definition say :: "string \<Rightarrow> loop \<Rightarrow> loop" where
  "say x s = s\<lparr>printed := printed s @ [x]\<rparr>"

section \<open>The event loop\<close>

definition cancel :: "nat \<Rightarrow> loop \<Rightarrow> loop" where
  "cancel token s = (case map_of (waiting s) token of
      None \<Rightarrow> s
    | Some (fd, h) \<Rightarrow> s\<lparr>epoll := filter (\<lambda>g. g \<noteq> fd) (epoll s), waiting := filter (\<lambda>w. fst w \<noteq> token) (waiting s)\<rparr>)"

definition watch :: "fd \<Rightarrow> tid \<Rightarrow> loop \<Rightarrow> (string + nat) \<times> loop" where
  "watch fd h s =
     (let token = next_token s;
          s = s\<lparr>next_token := next_token s + 1, waiting := waiting s @ [(token, fd, h)]\<rparr>
      in if fd \<in> set (epoll s)
         then (Inl ''epoll_ctl ADD'', s\<lparr>waiting := filter (\<lambda>w. fst w \<noteq> token) (waiting s)\<rparr>)
         else (Inr token, s\<lparr>epoll := fd # epoll s\<rparr>))"

definition pending :: "loop \<Rightarrow> nat" where
  "pending s = length (waiting s)"

section \<open>The coroutines\<close>

definition fail_task :: "tid \<Rightarrow> string \<Rightarrow> loop \<Rightarrow> loop" where
  "fail_task t e = upd_frame t (\<lambda>f. f\<lparr>point := Final, failed := Some e\<rparr>)"

text \<open>\<open>co_await\<close> on a waiter: an exception of \<open>watch\<close> ends the coroutine.\<close>

definition suspend :: "tid \<Rightarrow> fd \<Rightarrow> (nat \<Rightarrow> point) \<Rightarrow> loop \<Rightarrow> loop" where
  "suspend t fd at s = (case watch fd t s of
      (Inl e, s) \<Rightarrow> fail_task t e s
    | (Inr token, s) \<Rightarrow> upd_frame t (\<lambda>f. f\<lparr>point := at token\<rparr>) s)"

datatype io_end = Again | Complete | Failed

function (sequential) recv_loop :: "choice list \<Rightarrow> string \<Rightarrow> bool \<Rightarrow> string \<Rightarrow> io_end \<times> choice list \<times> string \<times> string" where
  "recv_loop (Eintr # cs) p sh acc = recv_loop cs p sh acc"
| "recv_loop (Broken # cs) p sh acc = (Failed, cs, p, acc)"
| "recv_loop (Transfer k # cs) p sh acc =
     (if p = [] then (if sh then Complete else Again, cs, p, acc)
      else let n = min 64 (max 1 k) in recv_loop cs (drop n p) sh (acc @ take n p))"
| "recv_loop [] p sh acc =
     (if p = [] then (if sh then Complete else Again, [], p, acc)
      else recv_loop [] (drop 64 p) sh (acc @ take 64 p))"
  by pat_completeness auto
termination by (relation "measure (\<lambda>(cs, p, sh, acc). length cs + length p)") auto

fun send_loop :: "choice list \<Rightarrow> string \<Rightarrow> nat \<Rightarrow> string \<Rightarrow> io_end \<times> choice list \<times> nat \<times> string" where
  "send_loop [] message n p = (Complete, [], length message, p @ drop n message)"
| "send_loop (c # cs) message n p =
     (if n < length message
      then (case c of
              Eintr \<Rightarrow> send_loop cs message n p
            | Broken \<Rightarrow> (Failed, cs, n, p)
            | Transfer k \<Rightarrow>
                if k = 0 then (Again, cs, n, p)
                else let m = min k (length message - n)
                     in send_loop cs message (n + m) (p @ take m (drop n message)))
      else (Complete, c # cs, n, p))"

text \<open>A call that only succeeds or fails.\<close>

definition sys_call :: "loop \<Rightarrow> bool \<times> loop" where
  "sys_call s = (choices s = [] \<or> hd (choices s) \<noteq> Broken, s\<lparr>choices := drop 1 (choices s)\<rparr>)"

definition message :: "string \<Rightarrow> string" where
  "message name = ''hello '' @ name @ [CHR 0x0A]"

definition receiver :: "string \<Rightarrow> nat \<Rightarrow> loop \<Rightarrow> loop" where
  "receiver name i s =
     (case recv_loop (choices s) (pipe s i) (shut s i) (received (frames s (Recv i))) of (r, cs, p, acc) \<Rightarrow>
        let s = upd_frame (Recv i) (\<lambda>f. f\<lparr>received := acc\<rparr>) (s\<lparr>choices := cs, pipe := (pipe s)(i := p)\<rparr>)
        in case r of
             Again \<Rightarrow> suspend (Recv i) (RecvSock i) AtRead s
           | Complete \<Rightarrow> upd_frame (Recv i) (\<lambda>f. f\<lparr>point := Final\<rparr>) (say (''receiver '' @ name @ '': '' @ acc) s)
           | Failed \<Rightarrow> fail_task (Recv i) ''recv'' s)"

definition sender :: "string \<Rightarrow> nat \<Rightarrow> loop \<Rightarrow> loop" where
  "sender name i s =
     (case send_loop (choices s) (message name) (sent (frames s (Send i))) (pipe s i) of (r, cs, n, p) \<Rightarrow>
        let s = upd_frame (Send i) (\<lambda>f. f\<lparr>sent := n\<rparr>) (s\<lparr>choices := cs, pipe := (pipe s)(i := p)\<rparr>)
        in case r of
             Again \<Rightarrow> suspend (Send i) (SendSock i) AtWrite s
           | Complete \<Rightarrow> (case sys_call s of
                 (False, s) \<Rightarrow> fail_task (Send i) ''shutdown'' s
               | (True, s) \<Rightarrow> upd_frame (Send i) (\<lambda>f. f\<lparr>point := Final\<rparr>)
                   (say (''sender '' @ name @ '': finished'') (s\<lparr>shut := (shut s)(i := True)\<rparr>)))
           | Failed \<Rightarrow> fail_task (Send i) ''send'' s)"

text \<open>\<open>coroutine_handle::resume\<close>: the coroutine goes on after its suspension point, where the waiter is
  destroyed first.  Resuming a coroutine that is done is undefined.\<close>

fun resume :: "(nat \<Rightarrow> string) \<Rightarrow> tid \<Rightarrow> loop \<Rightarrow> loop option" where
  "resume names (Recv i) s = (case point (frames s (Recv i)) of
      Initial \<Rightarrow> Some (receiver (names i) i s)
    | AtRead t \<Rightarrow> Some (receiver (names i) i (cancel t s))
    | _ \<Rightarrow> None)"
| "resume names (Send i) s = (case point (frames s (Send i)) of
      Initial \<Rightarrow> Some (case sys_call s of
          (False, s) \<Rightarrow> fail_task (Send i) ''timerfd_create'' s
        | (True, s) \<Rightarrow> (case sys_call s of
            (False, s) \<Rightarrow> fail_task (Send i) ''timerfd_settime'' s
          | (True, s) \<Rightarrow> suspend (Send i) (Timer i) AtTimer (say (''sender '' @ names i @ '': waiting for timer'') s)))
    | AtTimer t \<Rightarrow> Some (case sys_call (cancel t s) of (ok, s) \<Rightarrow>
        if ok \<and> expired s i then sender (names i) i (upd_frame (Send i) (\<lambda>f. f\<lparr>sent := 0\<rparr>) s)
        else fail_task (Send i) ''read timerfd'' s)
    | AtWrite t \<Rightarrow> Some (sender (names i) i (cancel t s))
    | _ \<Rightarrow> None)"
| "resume names Idle s = (case point (frames s Idle) of
      Initial \<Rightarrow> Some (suspend Idle (RecvSock 0) AtRead s)
    | AtRead t \<Rightarrow> Some (upd_frame Idle (\<lambda>f. f\<lparr>point := Final\<rparr>) (cancel t s))
    | _ \<Rightarrow> None)"

definition task_done :: "loop \<Rightarrow> tid \<Rightarrow> bool" where
  "task_done s t \<longleftrightarrow> point (frames s t) = Final"

text \<open>The owner's \<open>resume\<close>: \<open>Inl\<close> is the rethrown exception of the coroutine.\<close>

definition task_resume :: "(nat \<Rightarrow> string) \<Rightarrow> tid \<Rightarrow> loop \<Rightarrow> ((string + unit) \<times> loop) option" where
  "task_resume names t s = do {
     s \<leftarrow> (if task_done s t then Some s else resume names t s);
     Some (case failed (frames s t) of None \<Rightarrow> Inr () | Some e \<Rightarrow> Inl e, s) }"

fun waiter_token :: "point \<Rightarrow> nat" where
  "waiter_token (AtTimer t) = t"
| "waiter_token (AtRead t) = t"
| "waiter_token (AtWrite t) = t"
| "waiter_token _ = 0"

text \<open>Destroying a suspended coroutine destroys its waiter.\<close>

definition destroy :: "tid \<Rightarrow> loop \<Rightarrow> loop" where
  "destroy t s = cancel (waiter_token (point (frames s t))) s"

section \<open>Running\<close>

fun ready :: "loop \<Rightarrow> fd \<Rightarrow> bool" where
  "ready s (Timer i) = expired s i"
| "ready s (RecvSock i) = (pipe s i \<noteq> [] \<or> shut s i)"
| "ready s (SendSock i) = True"

definition token_ready :: "loop \<Rightarrow> nat \<Rightarrow> bool" where
  "token_ready s t = (case map_of (waiting s) t of None \<Rightarrow> False | Some (fd, h) \<Rightarrow> ready s fd)"

text \<open>The events of one \<open>epoll_wait\<close>, processed in order; stale tokens are dropped.\<close>

fun run_events :: "(nat \<Rightarrow> string) \<Rightarrow> nat list \<Rightarrow> loop \<Rightarrow> ((string + unit) \<times> loop) option" where
  "run_events names [] s = Some (Inr (), s)"
| "run_events names (t # ts) s = (case map_of (waiting s) t of
      None \<Rightarrow> run_events names ts s
    | Some (fd, h) \<Rightarrow> do {
        s \<leftarrow> resume names h (cancel t s);
        case failed (frames s h) of
          Some e \<Rightarrow> Some (Inl e, s)
        | None \<Rightarrow> run_events names ts s })"

text \<open>An answer of \<open>epoll_wait\<close>: interrupted, failed, or the timers that expire meanwhile and the tokens it looks at.\<close>

datatype answer = WaitEintr | WaitFails | Events "nat list" "nat list"

definition expire :: "nat list \<Rightarrow> loop \<Rightarrow> loop" where
  "expire ids s = s\<lparr>expired := (\<lambda>i. i \<in> set ids \<or> expired s i)\<rparr>"

datatype run_end = Returned | Threw string | Blocked

fun run :: "(nat \<Rightarrow> string) \<Rightarrow> answer list \<Rightarrow> loop \<Rightarrow> (run_end \<times> loop) option" where
  "run names [] s = Some (if waiting s = [] then Returned else Blocked, s)"
| "run names (a # as) s =
     (if waiting s = [] then Some (Returned, s)
      else case a of
        WaitEintr \<Rightarrow> run names as s
      | WaitFails \<Rightarrow> Some (Threw ''epoll_wait'', s)
      | Events ids ts \<Rightarrow>
          let s = expire ids s; ts = take 16 (filter (token_ready s) (remdups ts))
          in if ts = [] then Some (Threw ''demo made no I/O progress for 5 seconds'', s)
             else do {
               (r, s) \<leftarrow> run_events names ts s;
               case r of Inl e \<Rightarrow> Some (Threw e, s) | Inr _ \<Rightarrow> run names as s })"

fun start_all :: "(nat \<Rightarrow> string) \<Rightarrow> tid list \<Rightarrow> loop \<Rightarrow> ((string + unit) \<times> loop) option" where
  "start_all names [] s = Some (Inr (), s)"
| "start_all names (t # ts) s = do {
     (r, s) \<leftarrow> task_resume names t s;
     case r of Inl e \<Rightarrow> Some (Inl e, s) | Inr _ \<Rightarrow> start_all names ts s }"

definition fresh_frame :: frame where
  "fresh_frame = \<lparr>point = Initial, received = [], sent = 0, failed = None\<rparr>"

definition new_loop :: "choice list \<Rightarrow> loop" where
  "new_loop cs = \<lparr>next_token = 1, waiting = [], epoll = [], frames = (\<lambda>_. fresh_frame), pipe = (\<lambda>_. []),
     shut = (\<lambda>_. False), expired = (\<lambda>_. False), choices = cs, printed = []\<rparr>"

definition names_AB :: "nat \<Rightarrow> string" where
  "names_AB i = (if i = 0 then ''A'' else ''B'')"

definition the_tasks :: "tid list" where
  "the_tasks = [Recv 0, Recv 1, Send 0, Send 1]"

fun check_tasks :: "tid list \<Rightarrow> loop \<Rightarrow> string + unit" where
  "check_tasks [] s = Inr ()"
| "check_tasks (t # ts) s = (case failed (frames s t) of
      Some e \<Rightarrow> Inl e
    | None \<Rightarrow> if task_done s t then check_tasks ts s else Inl ''no registered I/O, but a task is unfinished'')"

definition coro_main :: "choice list \<Rightarrow> answer list \<Rightarrow> (run_end \<times> loop) option" where
  "coro_main cs as = do {
     (r, s) \<leftarrow> start_all names_AB the_tasks (new_loop cs);
     case r of
       Inl e \<Rightarrow> Some (Threw e, s)
     | Inr _ \<Rightarrow> do {
         (r, s) \<leftarrow> run names_AB as s;
         case r of
           Returned \<Rightarrow> (case check_tasks the_tasks s of
               Inl e \<Rightarrow> Some (Threw e, s)
             | Inr _ \<Rightarrow> Some (Returned, say ''all four tasks completed on one thread'' s))
         | _ \<Rightarrow> Some (r, s) } }"

text \<open>The demonstration of cancellation: the number of registrations before and after the task is destroyed.\<close>

definition cancel_demo :: "((string + unit) \<times> nat \<times> nat) option" where
  "cancel_demo = do {
     (r, s) \<leftarrow> task_resume names_AB Idle (new_loop []);
     Some (r, pending s, pending (destroy Idle s)) }"

section \<open>The transfer loops\<close>

lemma recv_loop_ok:
  "recv_loop cs p sh acc = (r, cs', p', acc') \<Longrightarrow> Broken \<notin> set cs \<Longrightarrow>
   acc' @ p' = acc @ p \<and> r = (if sh then Complete else Again) \<and> p' = [] \<and> set cs' \<subseteq> set cs \<and>
   length cs' \<le> length cs \<and> (p \<noteq> [] \<longrightarrow> length cs' + length p' < length cs + length p)"
proof (induction cs p sh acc rule: recv_loop.induct)
  case (3 k cs p sh acc)
  show ?case
  proof (cases "p = []")
    case False
    from 3(1) [OF False refl] 3(2,3) False show ?thesis by (auto simp: Let_def)
  qed (use 3 in auto)
next
  case (4 p sh acc)
  show ?case
  proof (cases "p = []")
    case False
    from 4(1) [OF False] 4(2,3) False show ?thesis by auto
  qed (use 4 in auto)
qed auto

lemma coro_send_loop_ok:
  "send_loop cs m n p = (r, cs', n', p') \<Longrightarrow> Broken \<notin> set cs \<Longrightarrow> n \<le> length m \<Longrightarrow>
   n \<le> n' \<and> n' \<le> length m \<and> p' = p @ take (n' - n) (drop n m) \<and> r \<noteq> Failed \<and> (r = Complete \<longrightarrow> n' = length m) \<and>
   set cs' \<subseteq> set cs \<and> length cs' \<le> length cs \<and> (r = Again \<longrightarrow> length cs' < length cs)"
proof (induction cs m n p rule: send_loop.induct)
  case (2 c cs m n p)
  show ?case
  proof (cases "n < length m")
    case True
    show ?thesis
    proof (cases c)
      case Eintr
      from 2(1) [OF True Eintr] 2(3-5) True Eintr show ?thesis by auto
    next
      case (Transfer k)
      show ?thesis
      proof (cases "k = 0")
        case False
        let ?m = "min k (length m - n)"
        have IH: "n + ?m \<le> n' \<and> n' \<le> length m \<and> p' = (p @ take ?m (drop n m)) @ take (n' - (n + ?m)) (drop (n + ?m) m) \<and> r \<noteq> Failed \<and>
          (r = Complete \<longrightarrow> n' = length m) \<and> set cs' \<subseteq> set cs \<and> length cs' \<le> length cs \<and> (r = Again \<longrightarrow> length cs' < length cs)"
          by (rule 2(2) [OF True Transfer False refl]) (use 2(3-5) True Transfer False in \<open>auto simp: Let_def\<close>)
        have "take (n' - n) (drop n m) = take ?m (drop n m) @ take (n' - (n + ?m)) (drop (n + ?m) m)"
        proof -
          have "n' - n = ?m + (n' - (n + ?m))" using IH by simp
          then show ?thesis by (metis add.commute drop_drop take_add)
        qed
        then show ?thesis using IH Transfer by auto
      qed (use 2(3-5) True Transfer in auto)
    qed (use 2(3-5) True in auto)
  qed (use 2(3-5) in auto)
qed auto

lemma sys_call_ok: "Broken \<notin> set (choices s) \<Longrightarrow> sys_call s = (True, s\<lparr>choices := drop 1 (choices s)\<rparr>)"
  by (cases "choices s") (auto simp: sys_call_def)

section \<open>Registrations\<close>

fun awaits :: "tid \<Rightarrow> point \<Rightarrow> (nat \<times> fd) option" where
  "awaits (Recv i) (AtRead t) = Some (t, RecvSock i)"
| "awaits (Send i) (AtTimer t) = Some (t, Timer i)"
| "awaits (Send i) (AtWrite t) = Some (t, SendSock i)"
| "awaits _ _ = None"

fun owner :: "fd \<Rightarrow> tid" where
  "owner (RecvSock i) = Recv i"
| "owner (SendSock i) = Send i"
| "owner (Timer i) = Send i"

lemma awaits_owner: "awaits h p = Some (t, fd) \<Longrightarrow> owner fd = h"
  by (cases "(h, p)" rule: awaits.cases) auto

definition registered :: "tid set \<Rightarrow> loop \<Rightarrow> bool" where
  "registered H s \<longleftrightarrow> distinct (map fst (waiting s)) \<and>
     (\<forall>t fd h. (t, fd, h) \<in> set (waiting s) \<longleftrightarrow> h \<in> H \<and> awaits h (point (frames s h)) = Some (t, fd)) \<and>
     (\<forall>fd. fd \<in> set (epoll s) \<longleftrightarrow> (\<exists>t h. (t, fd, h) \<in> set (waiting s))) \<and> (\<forall>w \<in> set (waiting s). fst w < next_token s)"

lemma registered_cong:
  assumes "registered H s" "waiting s' = waiting s" "epoll s' = epoll s" "next_token s' = next_token s"
    "\<And>h. h \<in> H \<Longrightarrow> point (frames s' h) = point (frames s h)"
  shows "registered H s'"
  using assms unfolding registered_def by auto

lemma registered_find:
  assumes "registered H s" "h \<in> H" "awaits h (point (frames s h)) = Some (t, fd)"
  shows "map_of (waiting s) t = Some (fd, h)"
proof -
  have "(t, fd, h) \<in> set (waiting s)" "distinct (map fst (waiting s))" using assms unfolding registered_def by blast+
  then show ?thesis by simp
qed

lemma registered_cancel:
  assumes r: "registered UNIV s" and a: "awaits h (point (frames s h)) = Some (t, fd)"
  shows "registered (- {h}) (cancel t s)" "frames (cancel t s) = frames s" "map_of (waiting (cancel t s)) t = None"
    "waiting (cancel t s) = filter (\<lambda>w. fst w \<noteq> t) (waiting s)" "next_token (cancel t s) = next_token s"
proof -
  have f: "map_of (waiting s) t = Some (fd, h)" using registered_find [OF r _ a] by simp
  have c: "cancel t s = s\<lparr>epoll := filter (\<lambda>g. g \<noteq> fd) (epoll s), waiting := filter (\<lambda>w. fst w \<noteq> t) (waiting s)\<rparr>"
    by (simp add: cancel_def f)
  show "frames (cancel t s) = frames s" "waiting (cancel t s) = filter (\<lambda>w. fst w \<noteq> t) (waiting s)"
    "next_token (cancel t s) = next_token s" by (simp_all add: c)
  show "map_of (waiting (cancel t s)) t = None" by (auto simp: c map_of_eq_None_iff)
  have R: "\<And>t fd h. (t, fd, h) \<in> set (waiting s) \<longleftrightarrow> awaits h (point (frames s h)) = Some (t, fd)"
    "\<And>fd. fd \<in> set (epoll s) \<longleftrightarrow> (\<exists>t h. (t, fd, h) \<in> set (waiting s))" "distinct (map fst (waiting s))"
    using r unfolding registered_def by simp_all
  have one: "h' = h \<and> fd' = fd" if "(t, fd', h') \<in> set (waiting s)" for fd' h'
    using map_of_is_SomeI [OF R(3) that] f by simp
  have same: "t' = t \<and> fd' = fd" if "(t', fd', h) \<in> set (waiting s)" for t' fd' using that R(1) a by simp
  show "registered (- {h}) (cancel t s)" unfolding registered_def
  proof (intro conjI allI)
    show "distinct (map fst (waiting (cancel t s)))" using R(3) by (simp add: c distinct_map_filter)
    show "\<forall>w\<in>set (waiting (cancel t s)). fst w < next_token (cancel t s)" using r by (simp add: c registered_def)
    show w: "(t', fd', h') \<in> set (waiting (cancel t s)) \<longleftrightarrow> h' \<in> - {h} \<and> awaits h' (point (frames (cancel t s) h')) = Some (t', fd')" for t' fd' h'
    proof -
      have "t' \<noteq> t \<longleftrightarrow> h' \<noteq> h" if "(t', fd', h') \<in> set (waiting s)" using one same that by blast
      then show ?thesis using R(1) by (auto simp: c)
    qed
    show "fd' \<in> set (epoll (cancel t s)) \<longleftrightarrow> (\<exists>t' h'. (t', fd', h') \<in> set (waiting (cancel t s)))" for fd'
    proof -
      have x: "fd' \<noteq> fd" if "(t', fd', h') \<in> set (waiting s)" "t' \<noteq> t" for t' h'
      proof
        assume "fd' = fd"
        then have "h' = h" using that(1) R(1) a awaits_owner by metis
        then show False using same that by blast
      qed
      have y: "t' \<noteq> t" if "(t', fd', h') \<in> set (waiting s)" "fd' \<noteq> fd" for t' h' using one that by blast
      have "fd' \<in> set (epoll (cancel t s)) \<longleftrightarrow> fd' \<noteq> fd \<and> (\<exists>t' h'. (t', fd', h') \<in> set (waiting s))" using R(2) by (auto simp: c)
      also have "\<dots> \<longleftrightarrow> (\<exists>t' h'. (t', fd', h') \<in> set (waiting s) \<and> t' \<noteq> t)" using x y by blast
      finally show ?thesis by (simp add: c)
    qed
  qed
qed

lemma cancel_absent: "map_of (waiting s) t = None \<Longrightarrow> cancel t s = s"
  by (simp add: cancel_def)

lemma registered_mono: "registered UNIV s \<Longrightarrow> awaits h (point (frames s h)) = None \<Longrightarrow> registered (- {h}) s"
  unfolding registered_def by (metis ComplI UNIV_I option.distinct(1) singletonD)

lemma registered_done:
  assumes "registered (- {h}) s" "awaits h p = None"
  shows "registered UNIV (upd_frame h (\<lambda>f. f\<lparr>point := p\<rparr>) s)"
  using assms unfolding registered_def upd_frame_def by auto

lemma suspend_ok:
  assumes r: "registered (- {h}) s" and a: "\<And>t. awaits h (at t) = Some (t, fd)"
  shows "suspend h fd at s = upd_frame h (\<lambda>f. f\<lparr>point := at (next_token s)\<rparr>)
      (s\<lparr>next_token := next_token s + 1, waiting := waiting s @ [(next_token s, fd, h)], epoll := fd # epoll s\<rparr>)"
    "registered UNIV (suspend h fd at s)"
proof -
  have W: "\<And>t g k. (t, g, k) \<in> set (waiting s) \<longleftrightarrow> k \<noteq> h \<and> awaits k (point (frames s k)) = Some (t, g)"
    "\<And>g. g \<in> set (epoll s) \<longleftrightarrow> (\<exists>t k. (t, g, k) \<in> set (waiting s))" "\<forall>w\<in>set (waiting s). fst w < next_token s"
    "distinct (map fst (waiting s))" using r unfolding registered_def by simp_all
  have "fd \<notin> set (epoll s)"
  proof
    assume "fd \<in> set (epoll s)"
    then obtain t k where "k \<noteq> h" "awaits k (point (frames s k)) = Some (t, fd)" using W(1,2) by blast
    then show False using awaits_owner a by metis
  qed
  then show e: "suspend h fd at s = upd_frame h (\<lambda>f. f\<lparr>point := at (next_token s)\<rparr>)
      (s\<lparr>next_token := next_token s + 1, waiting := waiting s @ [(next_token s, fd, h)], epoll := fd # epoll s\<rparr>)"
    by (simp add: suspend_def watch_def Let_def)
  have "next_token s \<notin> fst ` set (waiting s)" using W(3) by auto
  then show "registered UNIV (suspend h fd at s)"
    unfolding e registered_def upd_frame_def using W a by (auto simp: less_Suc_eq)
qed

section \<open>The invariant\<close>

definition pair_ok :: "(nat \<Rightarrow> string) \<Rightarrow> loop \<Rightarrow> nat \<Rightarrow> bool" where
  "pair_ok names s i \<longleftrightarrow> (let m = message (names i); n = sent (frames s (Send i)); ps = point (frames s (Send i)); pr = point (frames s (Recv i)) in
     n \<le> length m \<and> received (frames s (Recv i)) @ pipe s i = take n m \<and> (shut s i \<longleftrightarrow> ps = Final) \<and>
     (ps = Final \<longrightarrow> n = length m) \<and> (ps = Initial \<or> (\<exists>t. ps = AtTimer t) \<longrightarrow> n = 0) \<and> (pr = Final \<longrightarrow> shut s i \<and> pipe s i = []))"

fun point_ok :: "tid \<Rightarrow> point \<Rightarrow> bool" where
  "point_ok Idle p = (p = Initial)"
| "point_ok h p = (p = Initial \<or> p = Final \<or> awaits h p \<noteq> None)"

definition calm :: "(nat \<Rightarrow> string) \<Rightarrow> loop \<Rightarrow> bool" where
  "calm names s \<longleftrightarrow> (\<forall>i. pair_ok names s i) \<and> (\<forall>h. point_ok h (point (frames s h)) \<and> failed (frames s h) = None) \<and> Broken \<notin> set (choices s)"

definition loop_inv :: "(nat \<Rightarrow> string) \<Rightarrow> loop \<Rightarrow> bool" where
  "loop_inv names s \<longleftrightarrow> registered UNIV s \<and> calm names s"

text \<open>What is left to do for one pair, and in all.\<close>

definition pair_work :: "(nat \<Rightarrow> string) \<Rightarrow> loop \<Rightarrow> nat \<Rightarrow> nat" where
  "pair_work names s i = 2 * (length (message (names i)) - sent (frames s (Send i))) + length (pipe s i) +
     of_bool (point (frames s (Send i)) \<noteq> Final) + of_bool (point (frames s (Recv i)) \<noteq> Final)"

text \<open>One step of a coroutine: the other frames and pairs stay, other registrations too, and at most one token is used.\<close>

fun index_of :: "tid \<Rightarrow> nat" where
  "index_of (Recv i) = i"
| "index_of (Send i) = i"
| "index_of Idle = 0"

definition stepped :: "(nat \<Rightarrow> string) \<Rightarrow> tid \<Rightarrow> loop \<Rightarrow> loop \<Rightarrow> bool" where
  "stepped names h s s' \<longleftrightarrow> loop_inv names s' \<and> point (frames s' h) \<noteq> Initial \<and> (\<forall>k. k \<noteq> h \<longrightarrow> frames s' k = frames s k) \<and>
     (\<forall>j. j \<noteq> index_of h \<longrightarrow> pipe s' j = pipe s j) \<and> expired s' = expired s \<and>
     (\<forall>i. shut s i \<longrightarrow> shut s' i) \<and> (\<forall>i. h \<noteq> Recv i \<and> pipe s i \<noteq> [] \<longrightarrow> pipe s' i \<noteq> []) \<and>
     next_token s \<le> next_token s' \<and> next_token s' \<le> next_token s + 1 \<and> length (choices s') \<le> length (choices s)"

lemma pair_ok_cong:
  assumes "pair_ok names s i" "frames s' (Send i) = frames s (Send i)" "frames s' (Recv i) = frames s (Recv i)"
    "pipe s' i = pipe s i" "shut s' i = shut s i"
  shows "pair_ok names s' i"
  using assms by (simp add: pair_ok_def)

lemmas suspend_parts = suspend_ok(1) upd_frame_def

lemma cancel_parts:
  "frames (cancel t s) = frames s" "pipe (cancel t s) = pipe s" "shut (cancel t s) = shut s" "expired (cancel t s) = expired s"
  "choices (cancel t s) = choices s" "next_token (cancel t s) = next_token s"
  by (simp_all add: cancel_def split: option.splits)

lemma receiver_ok:
  assumes r: "registered (- {Recv i}) s" and c: "calm names s" and p: "point (frames s (Recv i)) \<noteq> Final"
  shows "stepped names (Recv i) s (receiver (names i) i s)"
    "pipe s i \<noteq> [] \<or> shut s i \<Longrightarrow> length (choices (receiver (names i) i s)) + pair_work names (receiver (names i) i s) i <
       length (choices s) + pair_work names s i"
    "length (choices (receiver (names i) i s)) + pair_work names (receiver (names i) i s) i \<le> length (choices s) + pair_work names s i"
proof -
  obtain e cs q acc where l: "recv_loop (choices s) (pipe s i) (shut s i) (received (frames s (Recv i))) = (e, cs, q, acc)"
    by (metis prod_cases4)
  have "Broken \<notin> set (choices s)" using c by (simp add: calm_def)
  note L = recv_loop_ok [OF l this]
  let ?s = "upd_frame (Recv i) (\<lambda>f. f\<lparr>received := acc\<rparr>) (s\<lparr>choices := cs, pipe := (pipe s)(i := q)\<rparr>)"
  have r1: "registered (- {Recv i}) ?s" by (rule registered_cong [OF r]) (auto simp: upd_frame_def)
  have C: "\<And>j. pair_ok names s j" "\<And>h. point_ok h (point (frames s h))" "\<And>h. failed (frames s h) = None" using c by (auto simp: calm_def)
  have d: "acc = take (sent (frames s (Send i))) (message (names i))" "q = []" using L C(1) [of i] by (auto simp: pair_ok_def Let_def)
  show "stepped names (Recv i) s (receiver (names i) i s)"
  proof (cases "shut s i")
    case True
    let ?t = "upd_frame (Recv i) (\<lambda>f. f\<lparr>point := Final\<rparr>) (say (''receiver '' @ names i @ '': '' @ acc) ?s)"
    have e: "receiver (names i) i s = ?t" using l L True by (simp add: receiver_def Let_def)
    have "registered (- {Recv i}) (say (''receiver '' @ names i @ '': '' @ acc) ?s)" by (rule registered_cong [OF r1]) (auto simp: say_def)
    then have "registered UNIV ?t" by (rule registered_done) simp
    moreover have "pair_ok names ?t j" for j
    proof (cases "j = i")
      case True
      then show ?thesis using C(1) [of i] d \<open>shut s i\<close> by (simp add: pair_ok_def upd_frame_def say_def Let_def)
    next
      case False
      show ?thesis by (rule pair_ok_cong [OF C(1)]) (use False in \<open>simp_all add: upd_frame_def say_def\<close>)
    qed
    moreover have "point_ok h (point (frames ?t h)) \<and> failed (frames ?t h) = None" for h using C by (simp add: upd_frame_def say_def)
    ultimately show ?thesis using L c unfolding stepped_def loop_inv_def calm_def e by (auto simp: upd_frame_def say_def)
  next
    case False
    let ?t = "suspend (Recv i) (RecvSock i) AtRead ?s"
    have e: "receiver (names i) i s = ?t" using l L False by (simp add: receiver_def Let_def)
    note S = suspend_ok [OF r1 awaits.simps(1)]
    have "pair_ok names ?t j" for j
    proof (cases "j = i")
      case True
      then show ?thesis using C(1) [of i] d False unfolding S(1) by (simp add: pair_ok_def upd_frame_def Let_def)
    next
      case False
      show ?thesis unfolding S(1) by (rule pair_ok_cong [OF C(1)]) (use False in \<open>simp_all add: upd_frame_def\<close>)
    qed
    moreover have "point_ok h (point (frames ?t h)) \<and> failed (frames ?t h) = None" for h using C unfolding S(1) by (simp add: upd_frame_def)
    moreover have "registered UNIV ?t" by (rule S(2))
    ultimately have "loop_inv names ?t" using L c unfolding loop_inv_def calm_def S(1) by (auto simp: upd_frame_def)
    then show ?thesis using L unfolding stepped_def e S(1) by (simp add: upd_frame_def)
  qed
  have "length (choices (receiver (names i) i s)) + pair_work names (receiver (names i) i s) i + of_bool (pipe s i \<noteq> [] \<or> shut s i)
     \<le> length (choices s) + pair_work names s i"
  proof (cases "shut s i")
    case True
    then show ?thesis using l L p by (simp add: receiver_def Let_def pair_work_def upd_frame_def say_def)
  next
    case False
    then have "receiver (names i) i s = suspend (Recv i) (RecvSock i) AtRead ?s" using l L by (simp add: receiver_def Let_def)
    then show ?thesis using L False p unfolding suspend_ok(1) [OF r1 awaits.simps(1)] by (auto simp: pair_work_def upd_frame_def)
  qed
  then show "length (choices (receiver (names i) i s)) + pair_work names (receiver (names i) i s) i \<le> length (choices s) + pair_work names s i"
    "pipe s i \<noteq> [] \<or> shut s i \<Longrightarrow> length (choices (receiver (names i) i s)) + pair_work names (receiver (names i) i s) i <
       length (choices s) + pair_work names s i" by auto
qed

lemma sender_ok:
  assumes r: "registered (- {Send i}) s" and c: "calm names s" and p: "point (frames s (Send i)) \<noteq> Final"
  shows "stepped names (Send i) s (sender (names i) i s)"
    "length (choices (sender (names i) i s)) + pair_work names (sender (names i) i s) i < length (choices s) + pair_work names s i"
proof -
  let ?m = "message (names i)" and ?n = "sent (frames s (Send i))"
  obtain e cs n q where l: "send_loop (choices s) ?m ?n (pipe s i) = (e, cs, n, q)" by (metis prod_cases4)
  have C: "\<And>j. pair_ok names s j" "\<And>h. point_ok h (point (frames s h))" "\<And>h. failed (frames s h) = None" "Broken \<notin> set (choices s)"
    using c by (auto simp: calm_def)
  have n: "?n \<le> length ?m" "received (frames s (Recv i)) @ pipe s i = take ?n ?m" "\<not> shut s i" "point (frames s (Recv i)) \<noteq> Final"
    using C(1) [of i] p by (auto simp: pair_ok_def Let_def)
  note L = coro_send_loop_ok [OF l C(4) n(1)]
  have d: "received (frames s (Recv i)) @ q = take n ?m"
  proof -
    have "take n ?m = take ?n ?m @ take (n - ?n) (drop ?n ?m)" using L by (metis le_add_diff_inverse take_add)
    then show ?thesis using L n(2) by (metis append.assoc)
  qed
  have nz: "pipe s i \<noteq> [] \<longrightarrow> q \<noteq> []" "length q = length (pipe s i) + (n - ?n)" using L by auto
  let ?s = "upd_frame (Send i) (\<lambda>f. f\<lparr>sent := n\<rparr>) (s\<lparr>choices := cs, pipe := (pipe s)(i := q)\<rparr>)"
  have r1: "registered (- {Send i}) ?s" by (rule registered_cong [OF r]) (auto simp: upd_frame_def)
  consider "e = Complete" | "e = Again" using L by (cases e) auto
  then have "stepped names (Send i) s (sender (names i) i s) \<and>
    length (choices (sender (names i) i s)) + pair_work names (sender (names i) i s) i < length (choices s) + pair_work names s i"
  proof cases
    case 1
    let ?s1 = "say (''sender '' @ names i @ '': finished'') (?s\<lparr>choices := drop 1 cs, shut := (shut ?s)(i := True)\<rparr>)"
    let ?t = "upd_frame (Send i) (\<lambda>f. f\<lparr>point := Final\<rparr>) ?s1"
    have "Broken \<notin> set (choices ?s)" using L C(4) by (auto simp: upd_frame_def)
    then have e: "sender (names i) i s = ?t" using l 1 by (simp add: sender_def Let_def sys_call_ok upd_frame_def)
    have sub: "set (drop 1 cs) \<subseteq> set (choices s)" "length (drop 1 cs) \<le> length cs" using L set_drop_subset [of 1 cs] by auto
    have "registered (- {Send i}) ?s1" by (rule registered_cong [OF r1]) (auto simp: say_def)
    then have "registered UNIV ?t" by (rule registered_done) simp
    moreover have "pair_ok names ?t j" for j
    proof (cases "j = i")
      case True
      then show ?thesis using d L 1 n by (simp add: pair_ok_def upd_frame_def say_def Let_def)
    next
      case False
      show ?thesis by (rule pair_ok_cong [OF C(1)]) (use False in \<open>simp_all add: upd_frame_def say_def\<close>)
    qed
    moreover have "point_ok h (point (frames ?t h)) \<and> failed (frames ?t h) = None" for h using C by (simp add: upd_frame_def say_def)
    ultimately have "loop_inv names ?t" using sub c unfolding loop_inv_def calm_def by (auto simp: upd_frame_def say_def)
    then show ?thesis using L sub(2) p n nz unfolding stepped_def e
      by (simp add: upd_frame_def say_def pair_work_def) linarith
  next
    case 2
    let ?t = "suspend (Send i) (SendSock i) AtWrite ?s"
    have e: "sender (names i) i s = ?t" using l 2 by (simp add: sender_def Let_def)
    note S = suspend_ok [OF r1 awaits.simps(3)]
    have "pair_ok names ?t j" for j
    proof (cases "j = i")
      case True
      then show ?thesis using d L n unfolding S(1) by (simp add: pair_ok_def upd_frame_def Let_def)
    next
      case False
      show ?thesis unfolding S(1) by (rule pair_ok_cong [OF C(1)]) (use False in \<open>simp_all add: upd_frame_def\<close>)
    qed
    moreover have "point_ok h (point (frames ?t h)) \<and> failed (frames ?t h) = None" for h using C unfolding S(1) by (simp add: upd_frame_def)
    moreover have "registered UNIV ?t" by (rule S(2))
    ultimately have "loop_inv names ?t" using L c unfolding loop_inv_def calm_def S(1) by (auto simp: upd_frame_def)
    then show ?thesis using L p n nz 2 unfolding stepped_def e S(1) by (simp add: upd_frame_def pair_work_def) linarith
  qed
  then show "stepped names (Send i) s (sender (names i) i s)"
    "length (choices (sender (names i) i s)) + pair_work names (sender (names i) i s) i < length (choices s) + pair_work names s i" by auto
qed

text \<open>The loop wakes a coroutine: its registration is cancelled and it runs to its next suspension.\<close>

lemma calm_cancel: "calm names s \<Longrightarrow> calm names (cancel t s)"
  by (simp add: calm_def pair_ok_def cancel_parts)

lemma stepped_cancel: "stepped names h (cancel t s) s' \<Longrightarrow> stepped names h s s'"
  by (simp add: stepped_def cancel_parts)

lemma pair_work_cancel: "pair_work names (cancel t s) i = pair_work names s i"
  by (simp add: pair_work_def cancel_parts)

text \<open>Choices that are used up on the way.\<close>

lemma spend_ok:
  fixes s :: loop and k :: nat
  defines "s' \<equiv> s\<lparr>choices := drop k (choices s)\<rparr>"
  shows "registered H s \<Longrightarrow> registered H s'" "calm names s \<Longrightarrow> calm names s'" "stepped names h s' t \<Longrightarrow> stepped names h s t"
    "pair_work names s' i = pair_work names s i" "length (choices s') \<le> length (choices s)"
proof -
  show "registered H s'" if "registered H s" by (rule registered_cong [OF that]) (simp_all add: s'_def)
  show "calm names s'" if "calm names s" using that in_set_dropD [of Broken k "choices s"] by (auto simp: s'_def calm_def pair_ok_def)
  show "stepped names h s t" if "stepped names h s' t" using that by (auto simp: s'_def stepped_def)
  show "pair_work names s' i = pair_work names s i" "length (choices s') \<le> length (choices s)" by (simp_all add: s'_def pair_work_def)
qed

lemma wake_ok:
  assumes i: "loop_inv names s" and f: "map_of (waiting s) t = Some (fd, h)" and rd: "ready s fd"
  shows "\<exists>s'. resume names h (cancel t s) = Some s' \<and> stepped names h s s' \<and>
    length (choices s') + pair_work names s' (index_of h) < length (choices s) + pair_work names s (index_of h)"
proof -
  have r: "registered UNIV s" and c: "calm names s" using i by (simp_all add: loop_inv_def)
  have a: "awaits h (point (frames s h)) = Some (t, fd)" using map_of_SomeD [OF f] r unfolding registered_def by blast
  note R = registered_cancel [OF r a]
  note again = cancel_absent [OF R(3)]
  note cc = calm_cancel [OF c, of t]
  consider (recv) j where "h = Recv j" "point (frames s h) = AtRead t" "fd = RecvSock j"
    | (timer) j where "h = Send j" "point (frames s h) = AtTimer t" "fd = Timer j"
    | (writable) j where "h = Send j" "point (frames s h) = AtWrite t" "fd = SendSock j"
    using a by (cases "(h, point (frames s h))" rule: awaits.cases) auto
  then show ?thesis
  proof cases
    case recv
    have "resume names h (cancel t s) = Some (receiver (names j) j (cancel t s))" using recv again by (simp add: cancel_parts)
    moreover note receiver_ok [OF R(1) [unfolded recv(1)] cc]
    ultimately show ?thesis using recv rd
      by (intro exI [of _ "receiver (names j) j (cancel t s)"]) (simp add: cancel_parts pair_work_cancel stepped_cancel)
  next
    case timer
    let ?s = "(cancel t s)\<lparr>choices := drop 1 (choices (cancel t s))\<rparr>"
    have "pair_ok names s j" using c by (simp add: calm_def)
    then have "sent (frames s (Send j)) = 0" using timer by (simp add: pair_ok_def Let_def)
    then have u: "upd_frame (Send j) (\<lambda>f. f\<lparr>sent := 0\<rparr>) ?s = ?s"
      unfolding upd_frame_def by (simp add: cancel_parts fun_upd_idem)
    have "sys_call (cancel t s) = (True, ?s)" by (rule sys_call_ok) (use cc in \<open>simp add: calm_def\<close>)
    then have "resume names h (cancel t s) = Some (sender (names j) j ?s)" using timer again rd u by (simp add: cancel_parts)
    moreover have nf: "point (frames ?s (Send j)) \<noteq> Final" using timer by (simp add: cancel_parts)
    note S = sender_ok [OF spend_ok(1) [where k = 1, OF R(1) [unfolded timer(1)]] spend_ok(2) [where k = 1, OF cc] nf]
    moreover have "stepped names h s (sender (names j) j ?s)"
      unfolding timer(1) by (rule stepped_cancel [OF spend_ok(3) [OF S(1)]])
    moreover have "length (choices ?s) \<le> length (choices s)" "pair_work names ?s j = pair_work names s j"
      by (simp_all only: spend_ok(4) pair_work_cancel) (simp add: cancel_parts)
    then have "length (choices (sender (names j) j ?s)) + pair_work names (sender (names j) j ?s) (index_of h) <
        length (choices s) + pair_work names s (index_of h)"
      using S(2) unfolding timer(1) index_of.simps by linarith
    ultimately show ?thesis by blast
  next
    case writable
    have "resume names h (cancel t s) = Some (sender (names j) j (cancel t s))" using writable again by (simp add: cancel_parts)
    moreover note sender_ok [OF R(1) [unfolded writable(1)] cc]
    ultimately show ?thesis using writable
      by (intro exI [of _ "sender (names j) j (cancel t s)"]) (simp add: cancel_parts pair_work_cancel stepped_cancel)
  qed
qed

lemma wake_keeps_ready:
  assumes i: "loop_inv names s" and f: "map_of (waiting s) t = Some (fd, h)" and st: "stepped names h s s'"
    and k: "token_ready s t'" "t' \<noteq> t"
  shows "token_ready s' t'"
proof -
  from k(1) obtain fd' h' where w: "map_of (waiting s) t' = Some (fd', h')" "ready s fd'"
    by (auto simp: token_ready_def split: option.splits prod.splits)
  have R: "\<And>t fd h. (t, fd, h) \<in> set (waiting s) \<longleftrightarrow> awaits h (point (frames s h)) = Some (t, fd)"
    using i unfolding loop_inv_def registered_def by simp
  have a: "awaits h (point (frames s h)) = Some (t, fd)" "awaits h' (point (frames s h')) = Some (t', fd')"
    using map_of_SomeD [OF f] map_of_SomeD [OF w(1)] R by blast+
  then have hh: "h' \<noteq> h" using k(2) by auto
  have "registered UNIV s'" "frames s' h' = frames s h'" using st hh unfolding stepped_def loop_inv_def by blast+
  then have "map_of (waiting s') t' = Some (fd', h')" using registered_find [of UNIV s' h' t' fd'] a(2) by simp
  moreover have "ready s' fd'"
    using w(2) awaits_owner [OF a(2)] hh st by (cases fd') (auto simp: stepped_def)
  ultimately show ?thesis by (simp add: token_ready_def)
qed

section \<open>The loop on two pairs\<close>

definition only_two :: "loop \<Rightarrow> bool" where
  "only_two s \<longleftrightarrow> (\<forall>i \<ge> 2. point (frames s (Recv i)) = Initial \<and> point (frames s (Send i)) = Initial)"

definition started :: "loop \<Rightarrow> tid set \<Rightarrow> bool" where
  "started s H \<longleftrightarrow> (\<forall>h\<in>H. point (frames s h) \<noteq> Initial)"

definition work :: "(nat \<Rightarrow> string) \<Rightarrow> loop \<Rightarrow> nat" where
  "work names s = length (choices s) + pair_work names s 0 + pair_work names s 1"

definition good :: "(nat \<Rightarrow> string) \<Rightarrow> tid set \<Rightarrow> loop \<Rightarrow> bool" where
  "good names H s \<longleftrightarrow> loop_inv names s \<and> only_two s \<and> started s H"

lemma good_stepped:
  assumes "good names H s" "stepped names h s s'" "h \<in> {Recv 0, Recv 1, Send 0, Send 1}"
  shows "good names (insert h H) s'"
proof -
  have f: "frames s' k = frames s k" if "k \<noteq> h" for k using assms(2) that by (simp add: stepped_def)
  have "point (frames s' h) \<noteq> Initial" "loop_inv names s'" using assms(2) by (simp_all add: stepped_def)
  moreover have "Recv i \<noteq> h \<and> Send i \<noteq> h" if "i \<ge> 2" for i using that assms(3) by auto
  ultimately show ?thesis using assms(1) f unfolding good_def only_two_def started_def by (metis insert_iff)
qed

lemma work_stepped:
  assumes "stepped names h s s'" "length (choices s') + pair_work names s' (index_of h) < length (choices s) + pair_work names s (index_of h)"
    "h \<in> {Recv 0, Recv 1, Send 0, Send 1}"
  shows "work names s' < work names s" "next_token s' + work names s' \<le> next_token s + work names s"
proof -
  have "pair_work names s' j = pair_work names s j" if "j \<noteq> index_of h" for j
  proof -
    have "Send j \<noteq> h" "Recv j \<noteq> h" using that by auto
    then show ?thesis using assms(1) that by (simp add: stepped_def pair_work_def)
  qed
  then show *: "work names s' < work names s" using assms(2,3) unfolding work_def by auto
  show "next_token s' + work names s' \<le> next_token s + work names s" using * assms(1) by (simp add: stepped_def)
qed

lemma waiting_tid:
  assumes "good names H s" "map_of (waiting s) t = Some (fd, h)"
  shows "h \<in> {Recv 0, Recv 1, Send 0, Send 1}"
proof -
  have "awaits h (point (frames s h)) = Some (t, fd)"
    using map_of_SomeD [OF assms(2)] assms(1) unfolding good_def loop_inv_def registered_def by blast
  then have "point (frames s h) \<noteq> Initial" "h \<noteq> Idle" by (cases h; cases "point (frames s h)"; simp)+
  then show ?thesis using assms(1) unfolding good_def only_two_def
    by (cases h) (metis One_nat_def Suc_1 insert_iff le_Suc_eq less_2_cases not_less_eq_eq linorder_not_less)+
qed

lemma run_events_ok:
  assumes "good names H s" "distinct ts" "\<forall>t\<in>set ts. token_ready s t"
  shows "\<exists>s'. run_events names ts s = Some (Inr (), s') \<and> good names H s' \<and> expired s' = expired s \<and>
    work names s' + length ts \<le> work names s \<and> next_token s' + work names s' \<le> next_token s + work names s"
  using assms
proof (induction ts arbitrary: s)
  case (Cons t ts)
  have "token_ready s t" using Cons.prems(3) by simp
  then obtain fd h where f: "map_of (waiting s) t = Some (fd, h)" "ready s fd"
    by (auto simp: token_ready_def split: option.splits prod.splits)
  have i: "loop_inv names s" using Cons.prems(1) by (simp add: good_def)
  from wake_ok [OF i f] obtain s1 where w: "resume names h (cancel t s) = Some s1" "stepped names h s s1"
    "length (choices s1) + pair_work names s1 (index_of h) < length (choices s) + pair_work names s (index_of h)" by blast
  note H = waiting_tid [OF Cons.prems(1) f(1)]
  have g: "good names H s1" using good_stepped [OF Cons.prems(1) w(2) H] by (simp add: good_def started_def)
  have "\<forall>t'\<in>set ts. token_ready s1 t'" using wake_keeps_ready [OF i f(1) w(2)] Cons.prems(2,3) by auto
  from Cons.IH [OF g _ this] Cons.prems(2) obtain s' where s': "run_events names ts s1 = Some (Inr (), s')" "good names H s'"
    "expired s' = expired s1" "work names s' + length ts \<le> work names s1" "next_token s' + work names s' \<le> next_token s1 + work names s1" by auto
  have "failed (frames s1 h) = None" using g by (simp add: good_def loop_inv_def calm_def)
  then have "run_events names (t # ts) s = Some (Inr (), s')" using f(1) w(1) s'(1) by simp
  moreover have "expired s1 = expired s" using w(2) by (simp add: stepped_def)
  ultimately show ?case using s' work_stepped [OF w(2,3) H] by (intro exI [of _ s']) simp
qed auto

lemma good_expire: "good names H s \<Longrightarrow> good names H (expire ids s)"
  by (simp add: good_def loop_inv_def registered_def calm_def pair_ok_def only_two_def started_def expire_def)

lemma expire_parts: "work names (expire ids s) = work names s" "next_token (expire ids s) = next_token s" "waiting (expire ids s) = waiting s"
  by (simp_all add: work_def pair_work_def expire_def)

definition no_progress :: string where
  "no_progress = ''demo made no I/O progress for 5 seconds''"

lemma some_events:
  "distinct (take k (filter (token_ready s) (remdups ts)))" "\<forall>t\<in>set (take k (filter (token_ready s) (remdups ts))). token_ready s t"
  by (simp_all, auto dest: in_set_takeD)

lemma run_wait:
  assumes "waiting s \<noteq> []" "take 16 (filter (token_ready (expire ids s)) (remdups ts)) = us"
  shows "us = [] \<Longrightarrow> run names (Events ids ts # as) s = Some (Threw no_progress, expire ids s)"
    "us \<noteq> [] \<Longrightarrow> run_events names us (expire ids s) = Some (Inr (), s1) \<Longrightarrow> run names (Events ids ts # as) s = run names as s1"
  unfolding run.simps(2) answer.case Let_def assms(2) no_progress_def using assms(1) by simp_all

lemma run_ok:
  "good names H s \<Longrightarrow> \<exists>r s'. run names as s = Some (r, s') \<and> good names H s' \<and> (r = Returned \<longrightarrow> waiting s' = []) \<and>
     (\<forall>e. r = Threw e \<longrightarrow> e = no_progress \<or> e = ''epoll_wait'' \<and> WaitFails \<in> set as)"
proof (induction as arbitrary: s)
  case (Cons a as)
  show ?case
  proof (cases "waiting s = []")
    case True
    then show ?thesis using Cons.prems by simp
  next
    case False
    show ?thesis
    proof (cases a)
      case WaitEintr
      then show ?thesis using False Cons.IH [OF Cons.prems] by auto
    next
      case WaitFails
      then show ?thesis using False Cons.prems by simp
    next
      case (Events ids ts)
      let ?s = "expire ids s"
      let ?ts = "take 16 (filter (token_ready ?s) (remdups ts))"
      from run_events_ok [OF good_expire [OF Cons.prems] some_events] obtain s1 where
        s1: "run_events names ?ts ?s = Some (Inr (), s1)" "good names H s1" by blast
      show ?thesis
      proof (cases "?ts = []")
        case True
        from run_wait(1) [OF False refl True] good_expire [OF Cons.prems, of ids] show ?thesis unfolding Events by simp
      next
        case F: False
        from run_wait(2) [OF False refl F s1(1)] Cons.IH [OF s1(2)] show ?thesis unfolding Events by auto
      qed
    qed
  qed
qed auto

section \<open>Starting the tasks\<close>

abbreviation four :: "tid set" where
  "four \<equiv> {Recv 0, Recv 1, Send 0, Send 1}"

lemma first_suspend:
  assumes r: "registered (- {Send i}) s" and c: "calm names s" and p: "point (frames s (Send i)) = Initial"
  shows "stepped names (Send i) s (suspend (Send i) (Timer i) AtTimer (say x s))"
    "pair_work names (suspend (Send i) (Timer i) AtTimer (say x s)) i = pair_work names s i"
proof -
  let ?t = "suspend (Send i) (Timer i) AtTimer (say x s)"
  have r1: "registered (- {Send i}) (say x s)" by (rule registered_cong [OF r]) (auto simp: say_def)
  note S = suspend_ok [OF r1 awaits.simps(2)]
  have C: "\<And>j. pair_ok names s j" "\<And>h. point_ok h (point (frames s h))" "\<And>h. failed (frames s h) = None" using c by (auto simp: calm_def)
  have "pair_ok names ?t j" for j
  proof (cases "j = i")
    case True
    then show ?thesis using C(1) [of i] p unfolding S(1) by (auto simp: pair_ok_def upd_frame_def say_def Let_def)
  next
    case False
    show ?thesis unfolding S(1) by (rule pair_ok_cong [OF C(1)]) (use False in \<open>simp_all add: upd_frame_def say_def\<close>)
  qed
  moreover have "point_ok h (point (frames ?t h)) \<and> failed (frames ?t h) = None" for h using C unfolding S(1) by (simp add: upd_frame_def say_def)
  moreover have "registered UNIV ?t" by (rule S(2))
  moreover have "choices ?t = choices s" unfolding S(1) by (simp add: upd_frame_def say_def)
  ultimately have "loop_inv names ?t" using c unfolding loop_inv_def calm_def by metis
  then show "stepped names (Send i) s ?t" unfolding stepped_def S(1) by (simp add: upd_frame_def say_def)
  show "pair_work names ?t i = pair_work names s i" unfolding S(1) using p by (simp add: pair_work_def upd_frame_def say_def)
qed

lemma task_start:
  assumes g: "good names H s" and p: "point (frames s h) = Initial" and h: "h \<in> four"
  shows "\<exists>s'. task_resume names h s = Some (Inr (), s') \<and> good names (insert h H) s' \<and> (\<forall>k. k \<noteq> h \<longrightarrow> frames s' k = frames s k) \<and>
    next_token s' \<le> next_token s + 1 \<and> work names s' \<le> work names s"
proof -
  have i: "registered UNIV s" "calm names s" using g by (simp_all add: good_def loop_inv_def)
  have a: "awaits h (point (frames s h)) = None" using p by (cases h) simp_all
  note r = registered_mono [OF i(1) a]
  have "\<exists>s'. resume names h s = Some s' \<and> stepped names h s s' \<and>
    length (choices s') + pair_work names s' (index_of h) \<le> length (choices s) + pair_work names s (index_of h)"
  proof (cases h)
    case (Recv j)
    then show ?thesis using receiver_ok(1,3) [of j s names] r i(2) p by auto
  next
    case (Send j)
    let ?s = "s\<lparr>choices := drop 2 (choices s)\<rparr>"
    let ?t = "suspend (Send j) (Timer j) AtTimer (say (''sender '' @ names j @ '': waiting for timer'') ?s)"
    note F = first_suspend [OF spend_ok(1) [where k = 2, OF r [unfolded Send]] spend_ok(2) [where k = 2, OF i(2)], of "''sender '' @ names j @ '': waiting for timer''"]
    have "Broken \<notin> set (choices s)" "Broken \<notin> set (drop 1 (choices s))" using i(2) in_set_dropD [of Broken 1 "choices s"] by (auto simp: calm_def)
    then have run: "resume names h s = Some ?t" using p Send by (simp add: sys_call_ok drop_drop numeral_2_eq_2)
    have st: "stepped names (Send j) ?s ?t" "pair_work names ?t j = pair_work names ?s j" using F p Send by simp_all
    then have "length (choices ?t) \<le> length (choices ?s)" unfolding stepped_def by blast
    then have "length (choices ?t) \<le> length (choices s)" using spend_ok(5) [of 2 s] by linarith
    then show ?thesis using run st spend_ok(3) [OF st(1)] Send by (simp add: spend_ok(4))
  qed (use h in auto)
  then obtain s' where s': "resume names h s = Some s'" "stepped names h s s'"
    "length (choices s') + pair_work names s' (index_of h) \<le> length (choices s) + pair_work names s (index_of h)" by blast
  have "pair_work names s' j = pair_work names s j" if "j \<noteq> index_of h" for j
  proof -
    have "Send j \<noteq> h" "Recv j \<noteq> h" using that by auto
    then show ?thesis using s'(2) that by (simp add: stepped_def pair_work_def)
  qed
  then have "work names s' \<le> work names s" using s'(3) h unfolding work_def by auto
  moreover have "failed (frames s' h) = None" using s'(2) by (simp add: stepped_def loop_inv_def calm_def)
  then have "task_resume names h s = Some (Inr (), s')" using s'(1) p by (simp add: task_resume_def task_done_def)
  ultimately show ?thesis using good_stepped [OF g s'(2) h] s'(2) by (intro exI [of _ s']) (simp add: stepped_def)
qed

lemma start_all_ok:
  assumes "good names H s" "\<forall>h\<in>set hs. point (frames s h) = Initial" "distinct hs" "set hs \<subseteq> four"
  shows "\<exists>s'. start_all names hs s = Some (Inr (), s') \<and> good names (H \<union> set hs) s' \<and>
    next_token s' \<le> next_token s + length hs \<and> work names s' \<le> work names s"
  using assms
proof (induction hs arbitrary: s H)
  case (Cons h hs)
  have "point (frames s h) = Initial" "h \<in> four" using Cons.prems by simp_all
  from task_start [OF Cons.prems(1) this] obtain s1 where s1: "task_resume names h s = Some (Inr (), s1)" "good names (insert h H) s1"
    "\<forall>k. k \<noteq> h \<longrightarrow> frames s1 k = frames s k" "next_token s1 \<le> next_token s + 1" "work names s1 \<le> work names s" by blast
  have "\<forall>k\<in>set hs. point (frames s1 k) = Initial" using Cons.prems(2,3) s1(3) by (metis distinct.simps(2) list.set_intros(2))
  from Cons.IH [OF s1(2) this] Cons.prems(3,4) obtain s' where s': "start_all names hs s1 = Some (Inr (), s')"
    "good names (insert h H \<union> set hs) s'" "next_token s' \<le> next_token s1 + length hs" "work names s' \<le> work names s1" by auto
  then show ?case using s1 by (intro exI [of _ s']) simp
qed auto

lemma new_loop_good: "Broken \<notin> set cs \<Longrightarrow> good names {} (new_loop cs)"
proof -
  assume "Broken \<notin> set cs"
  moreover have "point_ok h Initial" "awaits h Initial = None" for h by (cases h; simp)+
  ultimately show ?thesis
    by (simp add: good_def loop_inv_def registered_def calm_def pair_ok_def only_two_def started_def new_loop_def fresh_frame_def)
qed

text \<open>With no registration left every task is finished and its data has arrived.\<close>

lemma finished:
  assumes g: "good names four s" and w: "waiting s = []" and h: "h \<in> four"
  shows "point (frames s h) = Final" "failed (frames s h) = None"
proof -
  have "awaits h (point (frames s h)) = None" using g w unfolding good_def loop_inv_def registered_def
    by (metis UNIV_I empty_iff list.set(1) not_None_eq surj_pair)
  moreover have "point_ok h (point (frames s h))" "point (frames s h) \<noteq> Initial" "failed (frames s h) = None"
    using g h by (auto simp: good_def loop_inv_def calm_def started_def)
  ultimately show "point (frames s h) = Final" "failed (frames s h) = None" using h by (cases h; auto)+
qed

lemma arrived:
  assumes g: "good names four s" and w: "waiting s = []" and i: "i < 2"
  shows "received (frames s (Recv i)) = message (names i)"
proof -
  have "i = 0 \<or> i = 1" using i by auto
  then have "point (frames s (Recv i)) = Final" "point (frames s (Send i)) = Final" using finished(1) [OF g w] by auto
  moreover have "pair_ok names s i" using g by (simp add: good_def loop_inv_def calm_def)
  ultimately show ?thesis by (auto simp: pair_ok_def Let_def)
qed

lemma progress:
  assumes g: "good names four s" and e: "expired s 0" "expired s 1" and w: "waiting s \<noteq> []"
  shows "\<exists>t < next_token s. token_ready s t"
proof -
  have R: "\<And>t fd h. (t, fd, h) \<in> set (waiting s) \<longleftrightarrow> awaits h (point (frames s h)) = Some (t, fd)"
    "registered UNIV s" using g unfolding good_def loop_inv_def registered_def by simp_all
  have found: "\<exists>t < next_token s. token_ready s t" if "awaits h (point (frames s h)) = Some (t, fd)" "ready s fd" for t fd h
  proof -
    have "map_of (waiting s) t = Some (fd, h)" by (rule registered_find [OF R(2) _ that(1)]) simp
    moreover have "(t, fd, h) \<in> set (waiting s)" using that(1) R(1) by simp
    then have "t < next_token s" using R(2) unfolding registered_def by fastforce
    ultimately show ?thesis using that(2) by (auto simp: token_ready_def)
  qed
  obtain t fd h where m: "(t, fd, h) \<in> set (waiting s)" using w by (metis list.set_sel(1) prod_cases3)
  then have a: "awaits h (point (frames s h)) = Some (t, fd)" using R(1) by simp
  have send: ?thesis if i: "i < 2" and b: "awaits (Send i) (point (frames s (Send i))) = Some (u, f)" for i u f
  proof (rule found [OF b])
    have "i = 0 \<or> i = 1" using i by auto
    then show "ready s f" using b e by (cases "point (frames s (Send i))") auto
  qed
  have "map_of (waiting s) t = Some (fd, h)" by (rule registered_find [OF R(2) _ a]) simp
  from waiting_tid [OF g this] obtain i where i: "i < 2" "h = Recv i \<or> h = Send i" by auto
  show ?thesis
  proof (cases "h = Recv i")
    case False
    then show ?thesis using send [OF i(1)] i(2) a by auto
  next
    case True
    then have f: "fd = RecvSock i" using awaits_owner [OF a] a by (cases "point (frames s h)") auto
    have "point (frames s (Send i)) \<noteq> Initial" "point_ok (Send i) (point (frames s (Send i)))" "pair_ok names s i"
      using g i(1) by (auto simp: good_def started_def loop_inv_def calm_def less_2_cases_iff)
    then consider "shut s i" | u f' where "awaits (Send i) (point (frames s (Send i))) = Some (u, f')" by (auto simp: pair_ok_def Let_def)
    then show ?thesis
    proof cases
      case 1
      then show ?thesis by (intro found [OF a]) (simp add: f)
    next
      case 2
      then show ?thesis by (rule send [OF i(1)])
    qed
  qed
qed

text \<open>A kernel that does not fail a wait and looks at all tokens.\<close>

definition honest :: "nat \<Rightarrow> answer list \<Rightarrow> bool" where
  "honest K as \<longleftrightarrow> list_all (\<lambda>a. case a of WaitEintr \<Rightarrow> True | WaitFails \<Rightarrow> False | Events ids ts \<Rightarrow> {..<K} \<subseteq> set ts) as"

definition waits :: "answer list \<Rightarrow> nat" where
  "waits as = length (filter (\<lambda>a. a \<noteq> WaitEintr) as)"

lemma nothing_ready:
  assumes "good names four s" "next_token s \<le> K" "{..<K} \<subseteq> set ts" "take 16 (filter (token_ready s) (remdups ts)) = []" "waiting s \<noteq> []"
  shows "(\<not> expired s 0 \<or> \<not> expired s 1) \<and> (\<forall>t. \<not> token_ready s t)"
proof -
  have none: "\<not> token_ready s t" if "t < K" for t
    using assms(4) subsetD [OF assms(3), of t] that by (simp add: filter_empty_conv)
  have "t < next_token s" if "token_ready s t" for t
  proof -
    from that obtain fd h where "map_of (waiting s) t = Some (fd, h)" by (auto simp: token_ready_def split: option.splits)
    from map_of_SomeD [OF this] assms(1) show ?thesis unfolding good_def loop_inv_def registered_def by fastforce
  qed
  then have "\<forall>t. \<not> token_ready s t" using none assms(2) less_le_trans by blast
  then show ?thesis using progress [OF assms(1) _ _ assms(5)] by blast
qed

lemma run_outcome:
  "good names four s \<Longrightarrow> next_token s + work names s \<le> K \<Longrightarrow> honest K as \<Longrightarrow>
   \<exists>r s'. run names as s = Some (r, s') \<and> good names four s' \<and>
     (case r of
        Returned \<Rightarrow> waiting s' = []
      | Blocked \<Rightarrow> waits as \<le> work names s
      | Threw e \<Rightarrow> e = no_progress \<and> (\<not> expired s' 0 \<or> \<not> expired s' 1) \<and> (\<forall>t. \<not> token_ready s' t))"
proof (induction as arbitrary: s)
  case Nil
  then show ?case by (simp add: waits_def)
next
  case (Cons a as)
  show ?case
  proof (cases "waiting s = []")
    case True
    then show ?thesis using Cons.prems(1) by simp
  next
    case False
    have h: "honest K as" using Cons.prems(3) by (simp add: honest_def)
    show ?thesis
    proof (cases a)
      case WaitEintr
      then have "waits (a # as) = waits as" "run names (a # as) s = run names as s" using False by (simp_all add: waits_def)
      then show ?thesis using Cons.IH [OF Cons.prems(1,2) h] by metis
    next
      case WaitFails
      then show ?thesis using Cons.prems(3) by (simp add: honest_def)
    next
      case (Events ids ts)
      let ?s = "expire ids s"
      let ?ts = "take 16 (filter (token_ready ?s) (remdups ts))"
      note G = good_expire [OF Cons.prems(1), of ids]
      from run_events_ok [OF G some_events] obtain s1 where
        s1: "run_events names ?ts ?s = Some (Inr (), s1)" "good names four s1"
          "work names s1 + length ?ts \<le> work names ?s" "next_token s1 + work names s1 \<le> next_token ?s + work names ?s" by blast
      show ?thesis
      proof (cases "?ts = []")
        case True
        have "{..<K} \<subseteq> set ts" using Cons.prems(3) Events by (simp add: honest_def)
        from nothing_ready [OF G _ this True] False Cons.prems(2) show ?thesis
          unfolding Events run_wait(1) [OF False refl True] using G by (simp add: expire_parts)
      next
        case ne: False
        have l: "1 \<le> length ?ts" using ne by (metis One_nat_def Suc_leI length_greater_0_conv)
        have "next_token s1 + work names s1 \<le> K" using s1(4) Cons.prems(2) unfolding expire_parts by linarith
        from Cons.IH [OF s1(2) this h] obtain r s' where r: "run names as s1 = Some (r, s')" "good names four s'"
          "case r of Returned \<Rightarrow> waiting s' = [] | Blocked \<Rightarrow> waits as \<le> work names s1
           | Threw e \<Rightarrow> e = no_progress \<and> (\<not> expired s' 0 \<or> \<not> expired s' 1) \<and> (\<forall>t. \<not> token_ready s' t)" by blast
        have "waits as \<le> work names s1 \<Longrightarrow> waits (a # as) \<le> work names s"
          using s1(3) l Events unfolding expire_parts by (simp add: waits_def)
        then show ?thesis unfolding Events run_wait(2) [OF False refl ne s1(1)] using r Events by (cases r) auto
      qed
    qed
  qed
qed

lemma started_good:
  assumes "Broken \<notin> set cs"
  shows "\<exists>s. start_all names_AB the_tasks (new_loop cs) = Some (Inr (), s) \<and> good names_AB four s \<and>
    next_token s \<le> 5 \<and> work names_AB s \<le> length cs + 36"
proof -
  have "\<forall>h\<in>set the_tasks. point (frames (new_loop cs) h) = Initial" by (simp add: new_loop_def fresh_frame_def)
  from start_all_ok [OF new_loop_good [OF assms, of names_AB] this] obtain s where
    s: "start_all names_AB the_tasks (new_loop cs) = Some (Inr (), s)" "good names_AB (set the_tasks) s"
      "next_token s \<le> next_token (new_loop cs) + length the_tasks" "work names_AB s \<le> work names_AB (new_loop cs)"
    by (auto simp: the_tasks_def)
  have "set the_tasks = four" by (auto simp: the_tasks_def)
  moreover have "work names_AB (new_loop cs) = length cs + 36"
    by (simp add: work_def pair_work_def new_loop_def fresh_frame_def message_def names_AB_def)
  ultimately show ?thesis using s by (intro exI [of _ s]) (simp add: the_tasks_def new_loop_def)
qed

lemma checked:
  assumes "good names four s" "waiting s = []"
  shows "check_tasks the_tasks s = Inr ()" "\<forall>h\<in>set the_tasks. task_done s h"
  using finished [OF assms] by (simp_all add: the_tasks_def task_done_def)

section \<open>Properties\<close>

text \<open>C30: Whatever the kernel answers, as long as no call on a descriptor fails, the program does not resume a finished coroutine or
  register a descriptor twice; when the loop returns, all four tasks are done, nothing is registered and both receivers
  have got exactly the message of their sender.  It ends early only when a wait fails or reports nothing ready.\<close>

theorem coro_main_correct:
  assumes "Broken \<notin> set cs"
  shows "\<exists>r s. coro_main cs as = Some (r, s) \<and>
    (r = Returned \<longrightarrow> pending s = 0 \<and> (\<forall>h\<in>set the_tasks. task_done s h) \<and>
       received (frames s (Recv 0)) = message ''A'' \<and> received (frames s (Recv 1)) = message ''B'') \<and>
    (\<forall>e. r = Threw e \<longrightarrow> e = no_progress \<or> e = ''epoll_wait'' \<and> WaitFails \<in> set as)"
proof -
  from started_good [OF assms] obtain s0 where s0: "start_all names_AB the_tasks (new_loop cs) = Some (Inr (), s0)" "good names_AB four s0"
    by blast
  from run_ok [OF s0(2), of as] obtain r s where r: "run names_AB as s0 = Some (r, s)" "good names_AB four s" "r = Returned \<longrightarrow> waiting s = []"
    "\<forall>e. r = Threw e \<longrightarrow> e = no_progress \<or> e = ''epoll_wait'' \<and> WaitFails \<in> set as" by blast
  show ?thesis
  proof (cases r)
    case Returned
    let ?s = "say ''all four tasks completed on one thread'' s"
    have w: "waiting s = []" using r(3) Returned by simp
    have "coro_main cs as = Some (Returned, ?s)" using s0(1) r(1) Returned checked(1) [OF r(2) w] by (simp add: coro_main_def)
    then show ?thesis using checked(2) [OF r(2) w] arrived [OF r(2) w, of 0] arrived [OF r(2) w, of 1] w
      by (simp add: pending_def say_def task_done_def names_AB_def)
  qed (use s0(1) r(1,4) in \<open>simp_all add: coro_main_def\<close>)
qed

theorem coro_main_correct_witness:
  "Broken \<notin> set [Transfer 3, Eintr, Transfer 0] \<and>
   (\<exists>r s. coro_main [Transfer 3, Eintr, Transfer 0] [Events [1] [3, 4], WaitEintr, WaitFails] = Some (r, s) \<and>
    (r = Returned \<longrightarrow> pending s = 0 \<and> (\<forall>h\<in>set the_tasks. task_done s h) \<and>
       received (frames s (Recv 0)) = message ''A'' \<and> received (frames s (Recv 1)) = message ''B'') \<and>
    (\<forall>e. r = Threw e \<longrightarrow> e = no_progress \<or> e = ''epoll_wait'' \<and> WaitFails \<in> set [Events [1] [3, 4], WaitEintr, WaitFails]))"
  using coro_main_correct [of "[Transfer 3, Eintr, Transfer 0]" "[Events [1] [3, 4], WaitEintr, WaitFails]"] by simp

text \<open>C33: The program completes, in every schedule of timers and events.  As long as no call fails and every wait reports what is
  ready, the loop waits at most 36 times and once more for each choice of the kernel before it
  returns with both messages delivered, however the timers expire and in whatever order the events are reported; the only other
  end is the exception after a wait of five seconds in which nothing registered was ready, and then one of the timers (of
  30 and 80 ms) has not expired.\<close>

theorem coro_main_completes:
  assumes "Broken \<notin> set cs" "honest (length cs + 41) as" "length cs + 36 < waits as"
  shows "\<exists>r s. coro_main cs as = Some (r, s) \<and>
    (r = Returned \<and> (\<forall>h\<in>set the_tasks. task_done s h) \<and>
       received (frames s (Recv 0)) = message ''A'' \<and> received (frames s (Recv 1)) = message ''B'' \<or>
     r = Threw no_progress \<and> (\<not> expired s 0 \<or> \<not> expired s 1) \<and> (\<forall>t. \<not> token_ready s t))"
proof -
  from started_good [OF assms(1)] obtain s0 where s0: "start_all names_AB the_tasks (new_loop cs) = Some (Inr (), s0)"
    "good names_AB four s0" "next_token s0 \<le> 5" "work names_AB s0 \<le> length cs + 36" by blast
  have "next_token s0 + work names_AB s0 \<le> length cs + 41" using s0(3,4) by simp
  from run_outcome [OF s0(2) this assms(2)] obtain r s where r: "run names_AB as s0 = Some (r, s)" "good names_AB four s"
    "case r of Returned \<Rightarrow> waiting s = [] | Blocked \<Rightarrow> waits as \<le> work names_AB s0
     | Threw e \<Rightarrow> e = no_progress \<and> (\<not> expired s 0 \<or> \<not> expired s 1) \<and> (\<forall>t. \<not> token_ready s t)" by blast
  show ?thesis
  proof (cases r)
    case Returned
    then have w: "waiting s = []" using r(3) by simp
    have "coro_main cs as = Some (Returned, say ''all four tasks completed on one thread'' s)"
      using s0(1) r(1) Returned checked(1) [OF r(2) w] by (simp add: coro_main_def)
    then show ?thesis using checked(2) [OF r(2) w] arrived [OF r(2) w, of 0] arrived [OF r(2) w, of 1]
      by (simp add: say_def task_done_def names_AB_def)
  next
    case (Threw e)
    then show ?thesis using s0(1) r(1,3) by (simp add: coro_main_def)
  next
    case Blocked
    then show ?thesis using r(3) s0(4) assms(3) by simp
  qed
qed

text \<open>Timer B expires in the first wait, timer A only in the third.\<close>

theorem coro_main_completes_witness:
  "\<exists>r s. coro_main [Transfer 3] (Events [1] [0..<42] # WaitEintr # Events [] [0..<42] # replicate 36 (Events [0] [0..<42])) = Some (r, s) \<and>
    (r = Returned \<and> (\<forall>h\<in>set the_tasks. task_done s h) \<and>
       received (frames s (Recv 0)) = message ''A'' \<and> received (frames s (Recv 1)) = message ''B'' \<or>
     r = Threw no_progress \<and> (\<not> expired s 0 \<or> \<not> expired s 1) \<and> (\<forall>t. \<not> token_ready s t))"
  by (rule coro_main_completes) (auto simp: honest_def waits_def list_all_iff)

text \<open>Destroying a suspended task removes its registration; an error of a coroutine leaves the loop as the exception of
  \<open>main\<close>; here a receive, the set-up of a timer, its reading, a send and a shutdown that fail.\<close>

theorem coro_cancel_and_errors:
  "cancel_demo = Some (Inr (), 1, 0) \<and>
   map_option fst (coro_main [Transfer 1, Broken] []) = Some (Threw ''recv'') \<and>
   map_option fst (coro_main (replicate 2 (Transfer 1) @ [Broken]) []) = Some (Threw ''timerfd_create'') \<and>
   map_option fst (coro_main (replicate 3 (Transfer 1) @ [Broken]) []) = Some (Threw ''timerfd_settime'') \<and>
   map_option fst (coro_main (replicate 6 (Transfer 1) @ [Broken]) [Events [0, 1] [0..<9]]) = Some (Threw ''read timerfd'') \<and>
   map_option fst (coro_main (replicate 7 (Transfer 1) @ [Broken]) [Events [0, 1] [0..<9]]) = Some (Threw ''send'') \<and>
   map_option fst (coro_main (replicate 7 (Transfer 1) @ [Transfer 9, Broken]) [Events [0, 1] [0..<9]]) = Some (Threw ''shutdown'')"
  by code_simp

end
