(* ===== verification/Undo_Patterns.thy ===== *)
theory Undo_Patterns
  imports Interfaces
begin

text \<open>
  The two demonstrations of undo under src/cplusplus/design\_patterns/code: the remote control with its command objects
  (command/command.hpp) and the editor with its snapshots (memento/memento.hpp, originator.hpp, caretaker.hpp).

  A command object is its constructor; what an operation prints is returned beside the new state.  The volume is
  an integer: by the first theorem it exceeds its start by at most the length of the history.
\<close>

section \<open>The remote control\<close>

datatype command = TurnOnCommand | TurnOffCommand | VolumeUpCommand

datatype tv_event = On | Off | Volume int | NothingToUndo

definition VolumeUp :: "int \<Rightarrow> tv_event list \<times> int" where
  "VolumeUp v = ([Volume (v + 1)], v + 1)"

definition VolumeDown :: "int \<Rightarrow> tv_event list \<times> int" where
  "VolumeDown v = ([Volume (v - 1)], v - 1)"

fun exe :: "command \<Rightarrow> int \<Rightarrow> tv_event list \<times> int" where
  "exe TurnOnCommand v = ([On], v)"
| "exe TurnOffCommand v = ([Off], v)"
| "exe VolumeUpCommand v = VolumeUp v"

fun undo_cmd :: "command \<Rightarrow> int \<Rightarrow> tv_event list \<times> int" where
  "undo_cmd TurnOnCommand v = ([Off], v)"
| "undo_cmd TurnOffCommand v = ([On], v)"
| "undo_cmd VolumeUpCommand v = VolumeDown v"

record remote =
  volume :: int
  history :: "command list"

definition PressButton :: "command \<Rightarrow> remote \<Rightarrow> tv_event list \<times> remote" where
  "PressButton cmd r = (let (out, v) = exe cmd (volume r) in (out, r\<lparr>volume := v, history := history r @ [cmd]\<rparr>))"

definition PressUndo :: "remote \<Rightarrow> tv_event list \<times> remote" where
  "PressUndo r =
     (if history r = [] then ([NothingToUndo], r)
      else let (out, v) = undo_cmd (last (history r)) (volume r) in (out, r\<lparr>volume := v, history := butlast (history r)\<rparr>))"

definition new_remote :: remote where
  "new_remote = \<lparr>volume = 10, history = []\<rparr>"

section \<open>The editor\<close>

record memento =
  m_text :: string
  m_cursor :: int

record editor =
  etext :: string
  cursorPos :: int

text \<open>\<open>std::string::insert\<close> throws when the position lies behind the end.\<close>

definition Type_text :: "string \<Rightarrow> editor \<Rightarrow> editor outcome" where
  "Type_text input e =
     (if 0 \<le> cursorPos e \<and> cursorPos e \<le> int (length (etext e))
      then Inr (e\<lparr>etext := take (nat (cursorPos e)) (etext e) @ input @ drop (nat (cursorPos e)) (etext e),
                  cursorPos := cursorPos e + int (length input)\<rparr>)
      else Inl OutOfRange)"

definition MoveCursor :: "int \<Rightarrow> editor \<Rightarrow> editor" where
  "MoveCursor pos e = (if pos \<ge> 0 \<and> pos \<le> int (length (etext e)) then e\<lparr>cursorPos := pos\<rparr> else e)"

definition CreatrMemento :: "editor \<Rightarrow> memento" where
  "CreatrMemento e = \<lparr>m_text = etext e, m_cursor = cursorPos e\<rparr>"

definition Restore :: "memento \<Rightarrow> editor \<Rightarrow> editor" where
  "Restore m e = e\<lparr>etext := m_text m, cursorPos := m_cursor m\<rparr>"

type_synonym snapshots = "memento list"

definition Push :: "memento \<Rightarrow> snapshots \<Rightarrow> snapshots" where
  "Push m h = h @ [m]"

definition Pop :: "snapshots \<Rightarrow> memento option \<times> snapshots" where
  "Pop h = (if h = [] then (None, h) else (Some (last h), butlast h))"

definition new_editor :: editor where
  "new_editor = \<lparr>etext = [], cursorPos = 0\<rparr>"

datatype edit = Typing string | Moving int

fun edits :: "edit list \<Rightarrow> editor \<Rightarrow> editor outcome" where
  "edits [] e = Inr e"
| "edits (Typing x # es) e = andThen (Type_text x e) (edits es)"
| "edits (Moving p # es) e = edits es (MoveCursor p e)"

text \<open>As in \<open>main\<close>: a snapshot is pushed before some edits, and undoing pops it and restores it.\<close>

definition save_and_edit :: "edit list \<Rightarrow> editor \<times> snapshots \<Rightarrow> (editor \<times> snapshots) outcome" where
  "save_and_edit es s = (case s of (e, h) \<Rightarrow> andThen (edits es e) (\<lambda>e'. Inr (e', Push (CreatrMemento e) h)))"

definition undo_edits :: "editor \<times> snapshots \<Rightarrow> editor \<times> snapshots" where
  "undo_edits s = (case s of (e, h) \<Rightarrow> (case Pop h of (None, h) \<Rightarrow> (e, h) | (Some m, h) \<Rightarrow> (Restore m e, h)))"

definition memento_main :: "(editor list) outcome" where
  "memento_main =
     andThen (Type_text ''Hello'' new_editor) (\<lambda>e1. andThen (Type_text '' World'' e1) (\<lambda>e2.
     andThen (save_and_edit [Typing ''!!!'', Moving 0] (e2, [])) (\<lambda>(e3, h). Inr [e1, e2, e3, fst (undo_edits (e3, h))])))"

section \<open>Laws\<close>

lemma undo_exe: "snd (undo_cmd c (snd (exe c v))) = v"
  by (cases c) (simp_all add: VolumeUp_def VolumeDown_def)

interpretation rc: undo_stack "\<lambda>_. True" "\<lambda>r. history r = []" "\<lambda>c r. snd (PressButton c r)" "\<lambda>r. snd (PressUndo r)"
proof unfold_locales
  show "snd (PressUndo (snd (PressButton c r))) = r" for c r
    using undo_exe [of c "volume r"] by (auto simp: PressButton_def PressUndo_def split: prod.splits)
  show "history r = [] \<Longrightarrow> snd (PressUndo r) = r" for r by (simp add: PressUndo_def)
qed simp

definition editor_ok :: "editor \<Rightarrow> bool" where
  "editor_ok e \<longleftrightarrow> 0 \<le> cursorPos e \<and> cursorPos e \<le> int (length (etext e))"

lemma edits_ok: "editor_ok e \<Longrightarrow> \<exists>e'. edits es e = Inr e' \<and> editor_ok e'"
proof (induction es arbitrary: e)
  case (Cons x es)
  show ?case
  proof (cases x)
    case (Typing t)
    have "\<exists>e1. Type_text t e = Inr e1 \<and> editor_ok e1" using Cons.prems by (auto simp: Type_text_def editor_ok_def min_def)
    then show ?thesis using Typing Cons.IH by auto
  next
    case (Moving p)
    have "editor_ok (MoveCursor p e)" using Cons.prems by (simp add: MoveCursor_def editor_ok_def)
    then show ?thesis using Moving Cons.IH by simp
  qed
qed simp

definition session_step :: "edit list \<Rightarrow> editor \<times> snapshots \<Rightarrow> editor \<times> snapshots" where
  "session_step es s = (case save_and_edit es s of Inr s' \<Rightarrow> s' | Inl _ \<Rightarrow> s)"

lemma session_step_ok:
  assumes "editor_ok (fst s)"
  shows "save_and_edit es s = Inr (session_step es s)" "editor_ok (fst (session_step es s))" "undo_edits (session_step es s) = s"
proof -
  obtain e h where s: "s = (e, h)" by (cases s)
  from edits_ok [of e es] assms s obtain e' where "edits es e = Inr e'" "editor_ok e'" by auto
  then show "save_and_edit es s = Inr (session_step es s)" "editor_ok (fst (session_step es s))" "undo_edits (session_step es s) = s"
    by (simp_all add: s save_and_edit_def session_step_def undo_edits_def Pop_def Push_def Restore_def CreatrMemento_def)
qed

interpretation ed: undo_stack "\<lambda>s. editor_ok (fst s)" "\<lambda>s. snd s = []" session_step undo_edits
proof unfold_locales
  show "snd s = [] \<Longrightarrow> undo_edits s = s" for s by (cases s) (simp add: undo_edits_def Pop_def)
qed (simp_all add: session_step_ok)

section \<open>Properties\<close>

lemma foldr_volume: "volume (foldr (\<lambda>c r. snd (PressButton c r)) cs r) = volume r + int (count_list cs VolumeUpCommand)"
  by (induction cs) (auto simp: PressButton_def VolumeUp_def split: prod.splits elim!: exe.elims)

lemma foldr_history: "history (foldr (\<lambda>c r. snd (PressButton c r)) cs r) = history r @ rev cs"
  by (induction cs) (auto simp: PressButton_def split: prod.splits)

text \<open>After any session of buttons and undos, the volume and the history are those of pressing only the buttons that were
  not undone: the volume is 10 plus the number of volume commands among them.\<close>

theorem remote_session:
  "let r = run_undo (\<lambda>c r. snd (PressButton c r)) (\<lambda>r. snd (PressUndo r)) xs new_remote;
       left = rev (remaining_after xs [])
   in history r = left \<and> volume r = 10 + int (count_list left VolumeUpCommand)"
proof -
  have "run_undo (\<lambda>c r. snd (PressButton c r)) (\<lambda>r. snd (PressUndo r)) xs new_remote =
      foldr (\<lambda>c r. snd (PressButton c r)) (remaining_after xs []) new_remote"
    by (rule rc.session) (simp_all add: new_remote_def)
  moreover have "count_list (rev ys) VolumeUpCommand = count_list ys VolumeUpCommand" for ys by (induction ys) simp_all
  ultimately show ?thesis by (simp add: foldr_volume foldr_history new_remote_def)
qed

text \<open>In an editing session the cursor always lies within the text, so that typing never throws, and after any mix of saved
  edits and undos the editor is where the edits that were not undone lead.\<close>

theorem editor_session:
  assumes "editor_ok e"
  shows "(\<forall>es. \<exists>e'. edits es e = Inr e' \<and> editor_ok e') \<and>
    save_and_edit es (e, []) = Inr (session_step es (e, [])) \<and>
    run_undo session_step undo_edits xs (e, []) = foldr session_step (remaining_after xs []) (e, []) \<and>
    run_undo session_step undo_edits (map Do ess @ replicate (length ess) Undo) (e, []) = (e, [])"
  using edits_ok [OF assms] ed.session [of "(e, [])" xs] ed.undo_all [of "(e, [])" ess] session_step_ok(1) [of "(e, [])" es] assms
  by simp

theorem editor_session_witness:
  "editor_ok new_editor \<and> (\<exists>e'. edits [Typing ''ab'', Moving 1, Typing ''c''] new_editor = Inr e' \<and> etext e' = ''acb'' \<and> editor_ok e')"
proof -
  have "editor_ok new_editor" by (simp add: editor_ok_def new_editor_def)
  from editor_session [OF this] \<open>editor_ok new_editor\<close> show ?thesis
    by (simp add: Type_text_def MoveCursor_def new_editor_def) (simp add: editor_ok_def)
qed

text \<open>The program: the text and cursor it shows after each step.\<close>

theorem memento_main_shows:
  "memento_main = Inr [\<lparr>etext = ''Hello'', cursorPos = 5\<rparr>, \<lparr>etext = ''Hello World'', cursorPos = 11\<rparr>,
     \<lparr>etext = ''Hello World!!!'', cursorPos = 0\<rparr>, \<lparr>etext = ''Hello World'', cursorPos = 11\<rparr>]"
  by code_simp

end
