(* ===== verification/Object_Patterns.thy ===== *)
theory Object_Patterns
  imports Prelude
begin

text \<open>
  Demonstrations of object patterns under src/cplusplus/design\_patterns/code: the document with its states (state/*.cpp),
  the chain of approvers (cor/handler.hpp), the expression interpreter (interpreter/interpreter.hpp), the array list
  with its iterator (iterator/itlist.hpp) and the chat room (mediator/mediator.hpp).

  \<open>int\<close> results outside the 32-bit range and reads of cells that were never written are \<open>None\<close> or \<open>UB\<close>.  Messages are
  events.
\<close>

section \<open>The document\<close>

datatype doc_state = Draft | Review | Published

record document =
  doc_st :: doc_state
  content :: string

definition SetState :: "doc_state option \<Rightarrow> document \<Rightarrow> document" where
  "SetState nx d = (case nx of None \<Rightarrow> d | Some s \<Rightarrow> d\<lparr>doc_st := s\<rparr>)"

definition SetContent :: "string \<Rightarrow> document \<Rightarrow> document" where
  "SetContent t d = d\<lparr>content := t\<rparr>"

definition draft_Edit :: "string \<Rightarrow> document \<Rightarrow> bool \<times> document" where
  "draft_Edit t d = (True, SetContent t d)"

definition draft_Publish :: "document \<Rightarrow> document" where
  "draft_Publish d = SetState (Some Review) d"

definition review_Edit :: "string \<Rightarrow> document \<Rightarrow> bool \<times> document" where
  "review_Edit t d = (False, d)"

definition review_Publish :: "document \<Rightarrow> document" where
  "review_Publish d = SetState (Some Published) d"

definition published_Edit :: "string \<Rightarrow> document \<Rightarrow> bool \<times> document" where
  "published_Edit t d = (False, d)"

definition published_Publish :: "document \<Rightarrow> document" where
  "published_Publish d = d"

definition doc_Edit :: "string \<Rightarrow> document \<Rightarrow> bool \<times> document" where
  "doc_Edit t d = (case doc_st d of Draft \<Rightarrow> draft_Edit t d | Review \<Rightarrow> review_Edit t d | Published \<Rightarrow> published_Edit t d)"

definition doc_Publish :: "document \<Rightarrow> document" where
  "doc_Publish d = (case doc_st d of Draft \<Rightarrow> draft_Publish d | Review \<Rightarrow> review_Publish d | Published \<Rightarrow> published_Publish d)"

lemmas doc_Edit_simps = doc_Edit_def draft_Edit_def review_Edit_def published_Edit_def
lemmas doc_Publish_simps = doc_Publish_def draft_Publish_def review_Publish_def published_Publish_def

definition new_document :: document where
  "new_document = \<lparr>doc_st = Draft, content = []\<rparr>"

datatype doc_op = EditOp string | PublishOp

fun run_doc :: "doc_op list \<Rightarrow> document \<Rightarrow> bool list \<times> document" where
  "run_doc [] d = ([], d)"
| "run_doc (EditOp t # ops) d = (let (r, d) = doc_Edit t d; (rs, d) = run_doc ops d in (r # rs, d))"
| "run_doc (PublishOp # ops) d = run_doc ops (doc_Publish d)"

section \<open>The chain of approvers\<close>

datatype approver = TeamLeader | Manager | Director | Boss

datatype approval = Approves approver int | Reports approver int | Nobody approver

fun limit :: "approver \<Rightarrow> int option" where
  "limit TeamLeader = Some 1"
| "limit Manager = Some 3"
| "limit Director = Some 7"
| "limit Boss = None"

text \<open>A chain is the approver and those behind \<open>nxt_\<close>; \<open>None\<close> of \<open>limit\<close> is no limit.\<close>

fun HandleRequest :: "approver \<Rightarrow> approver list \<Rightarrow> int \<Rightarrow> approval list" where
  "HandleRequest a nxt days = (case limit a of
      None \<Rightarrow> [Approves a days]
    | Some l \<Rightarrow>
        if days \<le> l then [Approves a days]
        else (case nxt of
                b # bs \<Rightarrow> Reports a days # HandleRequest b bs days
              | [] \<Rightarrow> [Nobody a]))"

section \<open>The interpreter\<close>

type_synonym var_context = "string \<rightharpoonup> int"

datatype expression =
    NumberExpression int
  | VariableExpression string
  | AddExpression expression expression
  | MultiplyExpression expression expression

definition SetVariable :: "string \<Rightarrow> int \<Rightarrow> var_context \<Rightarrow> var_context" where
  "SetVariable x v c = c(x \<mapsto> v)"

definition GetVariable :: "var_context \<Rightarrow> string \<Rightarrow> int" where
  "GetVariable c x = (case c x of Some v \<Rightarrow> v | None \<Rightarrow> 0)"

definition in_int :: "int \<Rightarrow> bool" where
  "in_int v \<longleftrightarrow> - (2 ^ 31) \<le> v \<and> v < 2 ^ 31"

definition checked_int :: "int \<Rightarrow> int option" where
  "checked_int v = (if in_int v then Some v else None)"

fun Interpret :: "var_context \<Rightarrow> expression \<Rightarrow> int option" where
  "Interpret c (NumberExpression v) = Some v"
| "Interpret c (VariableExpression x) = Some (GetVariable c x)"
| "Interpret c (AddExpression l r) = do { a \<leftarrow> Interpret c l; b \<leftarrow> Interpret c r; checked_int (a + b) }"
| "Interpret c (MultiplyExpression l r) = do { a \<leftarrow> Interpret c l; b \<leftarrow> Interpret c r; checked_int (a * b) }"

section \<open>The array list and its iterator\<close>

record 'a mylist =
  l_data :: "'a option list"
  l_size :: nat
  l_capacity :: nat

definition new_mylist :: "'a mylist" where
  "new_mylist = \<lparr>l_data = [], l_size = 0, l_capacity = 0\<rparr>"

fun copy_items :: "nat \<Rightarrow> 'a option list \<Rightarrow> 'a option list \<Rightarrow> 'a option list" where
  "copy_items 0 src dst = dst"
| "copy_items (Suc i) src dst = (copy_items i src dst)[i := src ! i]"

definition mylist_push_back :: "'a \<Rightarrow> 'a mylist \<Rightarrow> 'a mylist outcome" where
  "mylist_push_back v l =
     (let l = (if l_size l \<ge> l_capacity l
               then (let cap = (if l_capacity l = 0 then 4 else l_capacity l * 2)
                     in l\<lparr>l_capacity := cap, l_data := copy_items (l_size l) (l_data l) (replicate cap None)\<rparr>)
               else l)
      in andThen (write_cell (l_data l) (l_size l) v) (\<lambda>d. Inr (l\<lparr>l_data := d, l_size := l_size l + 1\<rparr>)))"

definition get_item :: "'a mylist \<Rightarrow> nat \<Rightarrow> 'a outcome" where
  "get_item l i = read_cell (l_data l) i"

text \<open>The client loop: first, is done, current item, next.\<close>

function iterate_from :: "'a mylist \<Rightarrow> nat \<Rightarrow> 'a list outcome" where
  "iterate_from l i =
     (if i \<ge> l_size l then Inr []
      else andThen (get_item l i) (\<lambda>x. andThen (iterate_from l (i + 1)) (\<lambda>xs. Inr (x # xs))))"
  by pat_completeness auto
termination by (relation "measure (\<lambda>(l, i). l_size l - i)") auto

definition iterate :: "'a mylist \<Rightarrow> 'a list outcome" where
  "iterate l = iterate_from l 0"

fun push_all :: "'a list \<Rightarrow> 'a mylist \<Rightarrow> 'a mylist outcome" where
  "push_all [] l = Inr l"
| "push_all (x # xs) l = andThen (mylist_push_back x l) (push_all xs)"

section \<open>The chat room\<close>

text \<open>A user is an address with a name; what a user receives is kept in order.\<close>

record room =
  members :: "nat list"
  inbox :: "nat \<Rightarrow> (string \<times> string) list"

definition AddColleague :: "nat \<Rightarrow> room \<Rightarrow> room" where
  "AddColleague u r = r\<lparr>members := members r @ [u]\<rparr>"

definition Receive :: "nat \<Rightarrow> string \<Rightarrow> string \<Rightarrow> room \<Rightarrow> room" where
  "Receive u from msg r = r\<lparr>inbox := (inbox r)(u := inbox r u @ [(from, msg)])\<rparr>"

fun forward :: "nat list \<Rightarrow> nat \<Rightarrow> string \<Rightarrow> string \<Rightarrow> room \<Rightarrow> room" where
  "forward [] sender from msg r = r"
| "forward (m # ms) sender from msg r = forward ms sender from msg (if m \<noteq> sender then Receive m from msg r else r)"

definition SendMessage :: "(nat \<Rightarrow> string) \<Rightarrow> nat \<Rightarrow> string \<Rightarrow> room \<Rightarrow> room" where
  "SendMessage name sender msg r = forward (members r) sender (name sender) msg r"

datatype room_op = Join nat | Speak nat string

fun run_room :: "(nat \<Rightarrow> string) \<Rightarrow> room_op list \<Rightarrow> room \<Rightarrow> room" where
  "run_room name [] r = r"
| "run_room name (Join u # ops) r = run_room name ops (AddColleague u r)"
| "run_room name (Speak u msg # ops) r = run_room name ops (SendMessage name u msg r)"

section \<open>Properties\<close>

fun before_publish :: "doc_op list \<Rightarrow> string list" where
  "before_publish (EditOp t # ops) = t # before_publish ops"
| "before_publish _ = []"

lemma run_doc_frozen: "doc_st d \<noteq> Draft \<Longrightarrow> content (snd (run_doc ops d)) = content d \<and> set (fst (run_doc ops d)) \<subseteq> {False}"
proof (induction ops arbitrary: d)
  case (Cons x ops)
  show ?case
  proof (cases x)
    case (EditOp t)
    have "doc_Edit t d = (False, d)" using Cons.prems by (cases "doc_st d") (simp_all add: doc_Edit_simps)
    then show ?thesis using EditOp Cons.IH [OF Cons.prems] by (auto split: prod.splits)
  next
    case PublishOp
    have "doc_st (doc_Publish d) \<noteq> Draft" "content (doc_Publish d) = content d"
      using Cons.prems by (cases "doc_st d"; simp add: doc_Publish_simps SetState_def)+
    then show ?thesis using PublishOp Cons.IH [of "doc_Publish d"] by simp
  qed
qed simp

lemma run_doc_content:
  "doc_st d = Draft \<Longrightarrow> content (snd (run_doc ops d)) = last (content d # before_publish ops) \<and>
     (\<exists>rs. fst (run_doc ops d) = replicate (length (before_publish ops)) True @ rs \<and> set rs \<subseteq> {False})"
proof (induction ops arbitrary: d)
  case (Cons x ops)
  show ?case
  proof (cases x)
    case (EditOp t)
    let ?d = "SetContent t d"
    have IH: "content (snd (run_doc ops ?d)) = last (content ?d # before_publish ops)"
      "\<exists>rs. fst (run_doc ops ?d) = replicate (length (before_publish ops)) True @ rs \<and> set rs \<subseteq> {False}"
      using Cons.IH [of ?d] Cons.prems by (simp_all add: SetContent_def)
    then show ?thesis using EditOp Cons.prems by (auto simp: doc_Edit_simps SetContent_def split: prod.splits)
  next
    case PublishOp
    then show ?thesis using run_doc_frozen [of "doc_Publish d" ops] Cons.prems by (simp add: doc_Publish_simps SetState_def)
  qed
qed simp

fun published_times :: "nat \<Rightarrow> doc_state" where
  "published_times 0 = Draft"
| "published_times (Suc 0) = Review"
| "published_times _ = Published"

lemma run_doc_state: "doc_st d = published_times k \<Longrightarrow> doc_st (snd (run_doc ops d)) = published_times (k + count_list ops PublishOp)"
proof (induction ops arbitrary: d k)
  case (Cons x ops)
  show ?case
  proof (cases x)
    case (EditOp t)
    have "doc_st (snd (doc_Edit t d)) = published_times k" using Cons.prems by (cases "doc_st d") (auto simp: doc_Edit_simps SetContent_def)
    then show ?thesis using EditOp Cons.IH [of "snd (doc_Edit t d)" k] by (auto split: prod.splits)
  next
    case PublishOp
    have "doc_st (doc_Publish d) = published_times (Suc k)"
      using Cons.prems by (cases k rule: published_times.cases) (auto simp: doc_Publish_simps SetState_def)
    then show ?thesis using PublishOp Cons.IH [of "doc_Publish d" "Suc k"] by simp
  qed
qed simp

text \<open>The life of a document: it moves one state per publication and stays published; its content is that of the last edit
  before the first publication, and exactly the edits before it are accepted.\<close>

theorem document_life:
  "doc_st (snd (run_doc ops new_document)) = published_times (count_list ops PublishOp) \<and>
   content (snd (run_doc ops new_document)) = last ([] # before_publish ops) \<and>
   (\<exists>rs. fst (run_doc ops new_document) = replicate (length (before_publish ops)) True @ rs \<and> set rs \<subseteq> {False})"
  using run_doc_state [of new_document 0 ops] run_doc_content [of new_document ops] by (simp add: new_document_def)

definition may_approve :: "int \<Rightarrow> approver \<Rightarrow> bool" where
  "may_approve days a \<longleftrightarrow> (case limit a of None \<Rightarrow> True | Some l \<Rightarrow> days \<le> l)"

text \<open>A request passes those who may not approve it, in order, and ends with the first who may, or with nobody when it
  reaches the end of the chain.\<close>

theorem approval_chain:
  "HandleRequest a nxt days =
     (let chain = a # nxt; passed = takeWhile (\<lambda>x. \<not> may_approve days x) chain in
      if length passed < length chain then map (\<lambda>x. Reports x days) passed @ [Approves (chain ! length passed) days]
      else map (\<lambda>x. Reports x days) (butlast chain) @ [Nobody (last chain)])"
proof (induction a nxt days rule: HandleRequest.induct)
  case (1 a nxt days)
  show ?case
  proof (cases "may_approve days a")
    case True
    then show ?thesis by (auto simp: may_approve_def Let_def split: option.splits)
  next
    case False
    then obtain l where l: "limit a = Some l" "\<not> days \<le> l" by (auto simp: may_approve_def split: option.splits)
    show ?thesis
    proof (cases nxt)
      case Nil
      then show ?thesis using l False by simp
    next
      case (Cons b bs)
      have "HandleRequest a nxt days = Reports a days # HandleRequest b bs days" using l Cons by simp
      then show ?thesis using 1 [OF l Cons] False Cons by (simp add: Let_def)
    qed
  qed
qed

fun meaning :: "var_context \<Rightarrow> expression \<Rightarrow> int" where
  "meaning c (NumberExpression v) = v"
| "meaning c (VariableExpression x) = GetVariable c x"
| "meaning c (AddExpression l r) = meaning c l + meaning c r"
| "meaning c (MultiplyExpression l r) = meaning c l * meaning c r"

fun subterms :: "expression \<Rightarrow> expression list" where
  "subterms (AddExpression l r) = AddExpression l r # subterms l @ subterms r"
| "subterms (MultiplyExpression l r) = MultiplyExpression l r # subterms l @ subterms r"
| "subterms e = [e]"

text \<open>All literals of the expression and values of the context are of type \<open>int\<close>.\<close>

fun typed :: "expression \<Rightarrow> bool" where
  "typed (NumberExpression v) = in_int v"
| "typed (VariableExpression x) = True"
| "typed (AddExpression l r) = (typed l \<and> typed r)"
| "typed (MultiplyExpression l r) = (typed l \<and> typed r)"

definition typed_context :: "var_context \<Rightarrow> bool" where
  "typed_context c \<longleftrightarrow> (\<forall>v \<in> ran c. in_int v)"

lemma GetVariable_typed: "typed_context c \<Longrightarrow> in_int (GetVariable c x)"
  unfolding typed_context_def GetVariable_def by (cases "c x") (auto simp: ranI in_int_def)

text \<open>C40: Interpreting a well-typed expression: the result is of type \<open>int\<close> and the value of the expression; it is undefined exactly
  when the value of some subexpression does not fit.\<close>

theorem interpret_typed:
  assumes "typed e" "typed_context c"
  shows "(\<forall>v. Interpret c e = Some v \<longrightarrow> in_int v \<and> v = meaning c e) \<and>
    (Interpret c e = None \<longleftrightarrow> (\<exists>e' \<in> set (subterms e). \<not> in_int (meaning c e')))"
  using assms(1)
proof (induction e)
  case (AddExpression l r)
  then show ?case by (cases "Interpret c l"; cases "Interpret c r") (auto simp: checked_int_def)
next
  case (MultiplyExpression l r)
  then show ?case by (cases "Interpret c l"; cases "Interpret c r") (auto simp: checked_int_def)
qed (use GetVariable_typed [OF assms(2)] in simp_all)

theorem interpret_typed_witness:
  "Interpret [''x'' \<mapsto> 3] (MultiplyExpression (VariableExpression ''x'') (AddExpression (NumberExpression 4) (NumberExpression 5))) = Some 27"
proof -
  let ?e = "MultiplyExpression (VariableExpression ''x'') (AddExpression (NumberExpression 4) (NumberExpression 5))"
  have "typed ?e" "typed_context [''x'' \<mapsto> 3]" by (simp_all add: in_int_def typed_context_def)
  note it = interpret_typed [OF this]
  have "meaning [''x'' \<mapsto> 3] ?e = 27" "\<forall>e' \<in> set (subterms ?e). in_int (meaning [''x'' \<mapsto> 3] e')"
    by (simp_all add: in_int_def GetVariable_def)
  with it show ?thesis by (metis option.exhaust)
qed

definition mylist_rep :: "'a mylist \<Rightarrow> 'a list \<Rightarrow> bool" where
  "mylist_rep l xs \<longleftrightarrow> l_size l = length xs \<and> length (l_data l) = l_capacity l \<and> l_size l \<le> l_capacity l \<and>
     take (l_size l) (l_data l) = map Some xs \<and> (l_capacity l = 0 \<or> (\<exists>k. l_capacity l = 4 * 2 ^ k)) \<and> l_capacity l \<le> 4 + 2 * length xs"

lemma copy_items_take: "n \<le> length src \<Longrightarrow> n \<le> length dst \<Longrightarrow> copy_items n src dst = take n src @ drop n dst"
proof (induction n)
  case (Suc n)
  then have "copy_items n src dst = take n src @ drop n dst" by simp
  moreover have "drop n dst = dst ! n # drop (Suc n) dst" using Suc.prems(2) by (simp add: Cons_nth_drop_Suc)
  ultimately show ?case using Suc.prems by (simp add: list_update_append take_Suc_conv_app_nth)
qed simp

lemma write_end:
  assumes "n < length d" "take n d = map Some xs" "n = length xs"
  shows "take (Suc n) (d[n := Some v]) = map Some (xs @ [v])"
  using assms by (simp add: take_Suc_conv_app_nth)

lemma push_back_rep:
  assumes "mylist_rep l xs"
  shows "\<exists>l'. mylist_push_back v l = Inr l' \<and> mylist_rep l' (xs @ [v])"
proof -
  have R: "l_size l = length xs" "length (l_data l) = l_capacity l" "l_size l \<le> l_capacity l" "take (l_size l) (l_data l) = map Some xs"
    "l_capacity l = 0 \<or> (\<exists>k. l_capacity l = 4 * 2 ^ k)" "l_capacity l \<le> 4 + 2 * length xs"
    using assms unfolding mylist_rep_def by blast+
  show ?thesis
  proof (cases "l_size l \<ge> l_capacity l")
    case False
    then show ?thesis using R write_end [OF _ R(4) R(1), of v]
      by (simp add: mylist_push_back_def Let_def write_cell_def mylist_rep_def)
  next
    case True
    let ?cap = "if l_capacity l = 0 then 4 else l_capacity l * 2"
    let ?d = "copy_items (l_size l) (l_data l) (replicate ?cap None)"
    have lt: "l_size l < ?cap" "l_size l = l_capacity l" using True R(3) by auto
    then have d: "?d = map Some xs @ replicate (?cap - l_size l) None" using copy_items_take [of "l_size l" "l_data l" "replicate ?cap None"] R(2,4) by simp
    then have len: "length ?d = ?cap" "take (l_size l) ?d = map Some xs" using lt R(1) by simp_all
    have "mylist_push_back v l = Inr (l\<lparr>l_capacity := ?cap, l_data := ?d[l_size l := Some v], l_size := l_size l + 1\<rparr>)"
      using True lt len by (simp add: mylist_push_back_def Let_def write_cell_def)
    moreover have "\<exists>k. ?cap = 4 * 2 ^ k"
    proof (cases "l_capacity l = 0")
      case True
      then show ?thesis by (intro exI [of _ 0]) simp
    next
      case False
      then have "\<exists>k. l_capacity l = 4 * 2 ^ k" using R(5) by simp
      then obtain k :: nat where "l_capacity l = 4 * 2 ^ k" ..
      then show ?thesis by (intro exI [of _ "Suc k"]) simp
    qed
    moreover have "take (Suc (length xs)) (?d[length xs := Some v]) = map Some (xs @ [v])"
      by (rule write_end) (use len lt R(1) in simp_all)
    moreover have "?cap \<le> 4 + 2 * length (xs @ [v])" using lt(2) R(1) by simp
    ultimately show ?thesis using len(1) lt(1) R(1) by (simp add: mylist_rep_def)
  qed
qed

lemma push_all_rep: "mylist_rep l ys \<Longrightarrow> \<exists>l'. push_all xs l = Inr l' \<and> mylist_rep l' (ys @ xs)"
proof (induction xs arbitrary: l ys)
  case (Cons x xs)
  from push_back_rep [OF Cons.prems, of x] obtain l1 where "mylist_push_back x l = Inr l1" "mylist_rep l1 (ys @ [x])" by blast
  then show ?case using Cons.IH [of l1 "ys @ [x]"] by simp
qed simp

lemma iterate_from_rep: "mylist_rep l xs \<Longrightarrow> i \<le> length xs \<Longrightarrow> iterate_from l i = Inr (drop i xs)"
proof (induction l i rule: iterate_from.induct)
  case (1 l i)
  show ?case
  proof (cases "i < length xs")
    case True
    have s: "l_size l = length xs" "length xs \<le> length (l_data l)" "take (length xs) (l_data l) = map Some xs"
      using 1(2) unfolding mylist_rep_def by metis+
    have "l_data l ! i = Some (xs ! i)" using s(3) True by (metis nth_map nth_take)
    then have g: "get_item l i = Inr (xs ! i)" using True s by (simp add: get_item_def read_cell_def)
    have "iterate_from l (i + 1) = Inr (drop (i + 1) xs)" by (rule 1(1)) (use True s 1(2) g in auto)
    then show ?thesis using g True s(1) by (simp add: Cons_nth_drop_Suc)
  next
    case False
    then show ?thesis using 1(2,3) by (simp add: mylist_rep_def)
  qed
qed

text \<open>A list built with \<open>push_back\<close> holds the values in order: iterating yields all of them and then ends, no access is outside
  the array, and the capacity is 4 times a power of two and at most 4 more than twice the size.\<close>

theorem mylist_iterates:
  "\<exists>l. push_all xs new_mylist = Inr l \<and> iterate l = Inr xs \<and> l_size l = length xs \<and>
     (xs = [] \<or> (\<exists>k. l_capacity l = 4 * 2 ^ k)) \<and> l_capacity l \<le> 4 + 2 * length xs"
proof -
  have "mylist_rep new_mylist []" by (simp add: mylist_rep_def new_mylist_def)
  from push_all_rep [OF this, of xs] obtain l where l: "push_all xs new_mylist = Inr l" "mylist_rep l xs" by auto
  then have "iterate l = Inr xs" using iterate_from_rep [OF l(2), of 0] by (simp add: iterate_def)
  then show ?thesis using l by (intro exI [of _ l]) (auto simp: mylist_rep_def)
qed

text \<open>Every message another user speaks, once for each time the user has joined by then.\<close>

fun heard :: "(nat \<Rightarrow> string) \<Rightarrow> nat \<Rightarrow> nat \<Rightarrow> room_op list \<Rightarrow> (string \<times> string) list" where
  "heard name u k [] = []"
| "heard name u k (Join v # ops) = heard name u (if v = u then k + 1 else k) ops"
| "heard name u k (Speak v msg # ops) = (if v = u then [] else replicate k (name v, msg)) @ heard name u k ops"

lemma forward_inbox:
  "inbox (forward ms s from msg r) u = inbox r u @ (if u = s then [] else replicate (count_list ms u) (from, msg)) \<and>
   members (forward ms s from msg r) = members r"
  by (induction ms arbitrary: r) (auto simp: Receive_def replicate_append_same)

lemma run_room_inbox: "inbox (run_room name ops r) u = inbox r u @ heard name u (count_list (members r) u) ops"
proof (induction ops arbitrary: r)
  case (Cons x ops)
  then show ?case by (cases x) (auto simp: AddColleague_def SendMessage_def forward_inbox)
qed simp

text \<open>After any sequence of users joining and speaking, what a user has received is exactly what the others said after the
  user joined, in order, and never the user's own messages.\<close>

theorem chat_room_delivers:
  "inbox (run_room name ops \<lparr>members = [], inbox = (\<lambda>_. [])\<rparr>) u = heard name u 0 ops"
  by (simp add: run_room_inbox)

end
