(* ===== verification/Pools.thy ===== *)
theory Pools
  imports Prelude
begin

text \<open>
  The fixed-size pool of src/cplusplus/basement/base\_code/src/base\_memory/mempool.cpp and the growing array of
  darray\_demo.cpp.

  What \<open>malloc\<close> and \<open>realloc\<close> return is a parameter: an address, or failure.  Sizes are modulo $2^{64}$.
\<close>

section \<open>The pool\<close>

record pool =
  obj_size :: nat
  total_size :: nat
  pool_at :: nat
  pool_len :: nat
  free_stk :: "nat list"

text \<open>\<open>pool_len\<close> is what \<open>malloc\<close> was asked for; the top of the stack is the head of the list.\<close>

definition MemPool :: "nat option \<Rightarrow> nat \<Rightarrow> nat \<Rightarrow> pool option" where
  "MemPool mem osz n = (case mem of
      None \<Rightarrow> None
    | Some a \<Rightarrow> Some \<lparr>obj_size = osz, total_size = n, pool_at = a, pool_len = osz * n mod 2 ^ 64,
                      free_stk = rev (map (\<lambda>i. (a + i * osz) mod 2 ^ 64) [0..<n])\<rparr>)"

definition pool_allocate :: "pool \<Rightarrow> nat option \<times> pool" where
  "pool_allocate p = (case free_stk p of [] \<Rightarrow> (None, p) | x # xs \<Rightarrow> (Some x, p\<lparr>free_stk := xs\<rparr>))"

definition pool_deallocate :: "nat \<Rightarrow> pool \<Rightarrow> pool" where
  "pool_deallocate x p = p\<lparr>free_stk := x # free_stk p\<rparr>"

datatype pool_op = Alloc | Dealloc nat

text \<open>A client and the buffers it holds; it only gives back what it holds.\<close>

fun run_pool :: "pool_op list \<Rightarrow> pool \<times> nat list \<Rightarrow> pool \<times> nat list" where
  "run_pool [] s = s"
| "run_pool (Alloc # ops) (p, live) =
     (case pool_allocate p of (None, p) \<Rightarrow> run_pool ops (p, live) | (Some x, p) \<Rightarrow> run_pool ops (p, x # live))"
| "run_pool (Dealloc x # ops) (p, live) =
     (if x \<in> set live then run_pool ops (pool_deallocate x p, remove1 x live) else run_pool ops (p, live))"

section \<open>The array\<close>

datatype array_error = BadAlloc | IndexOutOfRange

record darray =
  d_capacity :: nat
  d_size :: nat
  d_data :: "int option list"

definition new_darray :: "bool \<Rightarrow> array_error + darray" where
  "new_darray ok = (if ok then Inr \<lparr>d_capacity = 2, d_size = 0, d_data = replicate 2 None\<rparr> else Inl BadAlloc)"

text \<open>\<open>realloc\<close> keeps the old contents; the number of elements it has room for is the requested size divided by 4.\<close>

definition darray_resize :: "bool \<Rightarrow> nat \<Rightarrow> darray \<Rightarrow> array_error + darray" where
  "darray_resize ok cap d =
     (if ok then let room = (cap * 4 mod 2 ^ 64) div 4
        in Inr (d\<lparr>d_data := take room (d_data d) @ replicate (room - length (d_data d)) None, d_capacity := cap\<rparr>)
      else Inl BadAlloc)"

text \<open>\<open>add\<close>: the array after the call and, \<open>Inl\<close>, what was thrown; a store outside the memory is \<open>None\<close>.\<close>

definition darray_add :: "bool \<Rightarrow> int \<Rightarrow> darray \<Rightarrow> ((array_error + unit) \<times> darray) option" where
  "darray_add ok v d =
     (case (if d_size d = d_capacity d then darray_resize ok (d_capacity d * 2 mod 2 ^ 64) d else Inr d) of
        Inl e \<Rightarrow> Some (Inl e, d)
      | Inr d \<Rightarrow>
          if d_size d < length (d_data d)
          then Some (Inr (), d\<lparr>d_data := (d_data d)[d_size d := Some v], d_size := d_size d + 1\<rparr>)
          else None)"

definition darray_get :: "nat \<Rightarrow> darray \<Rightarrow> (array_error + int) option" where
  "darray_get idx d =
     (if idx \<ge> d_size d then Some (Inl IndexOutOfRange)
      else if idx < length (d_data d) then map_option Inr (d_data d ! idx) else None)"

text \<open>Adding values, with the outcomes of the reallocations; the values whose call did not throw.\<close>

fun add_all :: "(bool \<times> int) list \<Rightarrow> darray \<Rightarrow> (int list \<times> darray) option" where
  "add_all [] d = Some ([], d)"
| "add_all ((ok, v) # xs) d = do {
     (r, d) \<leftarrow> darray_add ok v d;
     (vs, d) \<leftarrow> add_all xs d;
     Some ((case r of Inl _ \<Rightarrow> vs | Inr _ \<Rightarrow> v # vs), d) }"

section \<open>Properties\<close>

definition pool_inv :: "pool \<Rightarrow> nat list \<Rightarrow> bool" where
  "pool_inv p live \<longleftrightarrow> distinct (free_stk p @ live) \<and>
     set (free_stk p @ live) = (\<lambda>i. pool_at p + i * obj_size p) ` {..<total_size p}"

lemma run_pool_inv: "pool_inv p live \<Longrightarrow> run_pool ops (p, live) = (p', live') \<Longrightarrow>
   pool_inv p' live' \<and> pool_at p' = pool_at p \<and> obj_size p' = obj_size p \<and> total_size p' = total_size p"
proof (induction ops arbitrary: p live)
  case (Cons x ops)
  show ?case
  proof (cases x)
    case Alloc
    show ?thesis
    proof (cases "free_stk p")
      case Nil
      then show ?thesis using Cons Alloc by (simp add: pool_allocate_def)
    next
      case (Cons y ys)
      have "pool_inv (p\<lparr>free_stk := ys\<rparr>) (y # live)" using Cons.prems(1) Cons by (simp add: pool_inv_def)
      from Cons.IH [OF this] Cons.prems(2) show ?thesis using Alloc Cons by (simp add: pool_allocate_def)
    qed
  next
    case (Dealloc y)
    show ?thesis
    proof (cases "y \<in> set live")
      case True
      have "pool_inv (pool_deallocate y p) (remove1 y live)" using Cons.prems(1) True by (auto simp: pool_inv_def pool_deallocate_def)
      from Cons.IH [OF this] Cons.prems(2) show ?thesis using Dealloc True by (simp add: pool_deallocate_def)
    next
      case False
      then show ?thesis using Cons.IH [OF Cons.prems(1)] Cons.prems(2) Dealloc by simp
    qed
  qed
qed simp

lemma slots_apart: "i \<noteq> j \<Longrightarrow> (i::nat) * s + s \<le> j * s \<or> j * s + s \<le> i * s"
proof (cases i j rule: linorder_cases)
  case less
  then have "Suc i * s \<le> j * s" by (intro mult_le_mono1) simp
  then show ?thesis by simp
next
  case greater
  then have "Suc j * s \<le> i * s" by (intro mult_le_mono1) simp
  then show ?thesis by simp
qed simp

text \<open>When the size of the pool does not wrap around, a client that gives back only what it holds, once, has distinct buffers inside
  the pool that do not overlap, and is refused only when it holds all of them.\<close>

theorem pool_client_correct:
  assumes "MemPool (Some a) osz n = Some p" "0 < osz" "a + osz * n < 2 ^ 64" "run_pool ops (p, []) = (p', live)"
  shows "distinct live \<and> (\<forall>x \<in> set live. a \<le> x \<and> x + osz \<le> a + pool_len p) \<and>
    (\<forall>x \<in> set live. \<forall>y \<in> set live. x \<noteq> y \<longrightarrow> x + osz \<le> y \<or> y + osz \<le> x) \<and>
    (fst (pool_allocate p') = None \<longleftrightarrow> length live = n)"
proof -
  have p: "p = \<lparr>obj_size = osz, total_size = n, pool_at = a, pool_len = osz * n, free_stk = rev (map (\<lambda>i. a + i * osz) [0..<n])\<rparr>"
  proof -
    have "(a + i * osz) mod 2 ^ 64 = a + i * osz" if "i < n" for i
    proof -
      have "i * osz \<le> osz * n" using that by (simp add: mult.commute [of i])
      then have "a + i * osz < 2 ^ 64" using assms(3) by linarith
      then show ?thesis by (rule mod_less)
    qed
    then have m: "map (\<lambda>i. (a + i * osz) mod 2 ^ 64) [0..<n] = map (\<lambda>i. a + i * osz) [0..<n]" by (intro map_cong) auto
    have l: "osz * n mod 2 ^ 64 = osz * n" using assms(3) by simp
    show ?thesis using assms(1) unfolding MemPool_def option.case m l by simp
  qed
  have inj: "inj_on (\<lambda>i. a + i * osz) {..<n}" using assms(2) by (simp add: inj_on_def)
  have slots: "(\<lambda>i. a + i * osz) ` {0..<n} = (\<lambda>i. a + i * osz) ` {..<n}" by (simp add: atLeast0LessThan)
  have "pool_inv p []" using inj by (simp add: pool_inv_def p distinct_map atLeast0LessThan)
  from run_pool_inv [OF this assms(4)] have i: "distinct (free_stk p' @ live)"
    "set (free_stk p' @ live) = (\<lambda>i. a + i * osz) ` {..<n}" by (simp_all add: pool_inv_def p)
  have slot: "\<exists>i < n. x = a + i * osz" if "x \<in> set live" for x using i(2) that by auto
  have "length (free_stk p' @ live) = n" using distinct_card [OF i(1)] i(2) card_image [OF inj] by simp
  then have "fst (pool_allocate p') = None \<longleftrightarrow> length live = n" by (simp add: pool_allocate_def split: list.splits) auto
  moreover have "a \<le> x \<and> x + osz \<le> a + pool_len p" if "x \<in> set live" for x
  proof -
    from slot [OF that] obtain i where "i < n" "x = a + i * osz" by blast
    moreover from this have "Suc i * osz \<le> n * osz" by (intro mult_le_mono1) simp
    ultimately show ?thesis by (simp add: p mult.commute)
  qed
  moreover have "x + osz \<le> y \<or> y + osz \<le> x" if "x \<in> set live" "y \<in> set live" "x \<noteq> y" for x y
  proof -
    from slot [OF that(1)] slot [OF that(2)] obtain i j where "x = a + i * osz" "y = a + j * osz" by blast
    then show ?thesis using slots_apart [of i j osz] that(3) by auto
  qed
  ultimately show ?thesis using i(1) by simp
qed

theorem pool_client_correct_witness:
  "\<exists>p p' live. MemPool (Some 4096) 40 3 = Some p \<and> run_pool [Alloc, Alloc, Dealloc 4176, Alloc] (p, []) = (p', live) \<and>
     live = [4176, 4136] \<and> distinct live"
proof -
  obtain p where p: "MemPool (Some 4096) 40 3 = Some p" by (simp add: MemPool_def)
  have r: "run_pool [Alloc, Alloc, Dealloc 4176, Alloc] (p, []) = (p\<lparr>free_stk := [4096]\<rparr>, [4176, 4136])"
    using p by (auto simp: MemPool_def pool_allocate_def pool_deallocate_def upt_rec)
  from pool_client_correct [OF p _ _ r] p r show ?thesis by auto
qed

text \<open>Giving a buffer back twice is not noticed: the next two allocations return the same buffer.  A size that wraps around is
  not noticed either: a pool of $2^{61} + 1$ objects of 8 bytes has only 8 bytes, and its second slot lies behind them.\<close>

theorem pool_unchecked:
  "(\<forall>p x. let p = pool_deallocate x (pool_deallocate x p); (r1, p) = pool_allocate p; (r2, p) = pool_allocate p in r1 = Some x \<and> r2 = Some x) \<and>
   (\<exists>p. MemPool (Some a) 8 (2 ^ 61 + 1) = Some p \<and> pool_len p = 8 \<and> total_size p = 2 ^ 61 + 1 \<and>
      (a + 1 * 8) mod 2 ^ 64 \<in> set (free_stk p))"
proof
  show "\<forall>p x. let p = pool_deallocate x (pool_deallocate x p); (r1, p) = pool_allocate p; (r2, p) = pool_allocate p in r1 = Some x \<and> r2 = Some x"
    by (simp add: pool_deallocate_def pool_allocate_def)
  have "(1::nat) \<in> {0..<2 ^ 61 + 1}" by simp
  then have "(a + 1 * 8) mod 2 ^ 64 \<in> (\<lambda>i. (a + i * 8) mod 2 ^ 64) ` {0..<2 ^ 61 + 1}" by (rule imageI)
  then show "\<exists>p. MemPool (Some a) 8 (2 ^ 61 + 1) = Some p \<and> pool_len p = 8 \<and> total_size p = 2 ^ 61 + 1 \<and> (a + 1 * 8) mod 2 ^ 64 \<in> set (free_stk p)"
    by (simp add: MemPool_def del: upt_rec_numeral)
qed

definition darray_rep :: "darray \<Rightarrow> int list \<Rightarrow> bool" where
  "darray_rep d vs \<longleftrightarrow> d_size d = length vs \<and> length (d_data d) = d_capacity d \<and> d_size d \<le> d_capacity d \<and> 0 < d_capacity d \<and>
     take (d_size d) (d_data d) = map Some vs \<and> d_capacity d \<le> 2 + 2 * length vs"

lemma darray_add_rep:
  assumes r: "darray_rep d vs" and n: "length vs < 2 ^ 60"
  shows "(\<exists>d'. darray_add ok v d = Some (Inr (), d') \<and> darray_rep d' (vs @ [v])) \<or> (\<not> ok \<and> darray_add ok v d = Some (Inl BadAlloc, d))"
proof -
  have R: "d_size d = length vs" "length (d_data d) = d_capacity d" "d_size d \<le> d_capacity d" "0 < d_capacity d"
    "take (d_size d) (d_data d) = map Some vs" "d_capacity d \<le> 2 + 2 * length vs" using r unfolding darray_rep_def by blast+
  show ?thesis
  proof (cases "d_size d = d_capacity d")
    case False
    then have lt: "length vs < length (d_data d)" using R by simp
    then have "take (Suc (length vs)) ((d_data d)[length vs := Some v]) = map Some (vs @ [v])"
      using R(1,5) by (simp add: take_Suc_conv_app_nth)
    then show ?thesis using False R lt by (auto simp: darray_add_def darray_rep_def)
  next
    case True
    have cap: "d_capacity d * 2 mod 2 ^ 64 = d_capacity d * 2" "(d_capacity d * 2 * 4 mod 2 ^ 64) div 4 = d_capacity d * 2"
      using True R(1) n by simp_all
    show ?thesis
    proof (cases ok)
      case False
      then show ?thesis using True by (simp add: darray_add_def darray_resize_def)
    next
      case ok: True
      let ?n = "length vs"
      have e: "d_capacity d = ?n" "length (d_data d) = ?n" "d_data d = map Some vs" using True R by simp_all
      let ?d = "d\<lparr>d_data := d_data d @ replicate ?n None, d_capacity := ?n * 2\<rparr>"
      have rs: "darray_resize ok (d_capacity d * 2 mod 2 ^ 64) d = Inr ?d"
        unfolding cap(1) darray_resize_def Let_def cap(2) using ok e by simp
      have "0 < ?n" using R(4) e(1) by simp
      then have "darray_add ok v d = Some (Inr (), ?d\<lparr>d_data := (d_data ?d)[?n := Some v], d_size := ?n + 1\<rparr>)"
        using True rs R(1) e by (simp add: darray_add_def)
      moreover have "darray_rep (?d\<lparr>d_data := (d_data ?d)[?n := Some v], d_size := ?n + 1\<rparr>) (vs @ [v])"
        using \<open>0 < ?n\<close> e by (auto simp: darray_rep_def take_Suc_conv_app_nth nth_append list_update_append gr0_conv_Suc)
      ultimately show ?thesis by blast
    qed
  qed
qed

lemma add_all_rep:
  "darray_rep d vs \<Longrightarrow> length vs + length xs < 2 ^ 60 \<Longrightarrow>
   \<exists>ws d'. add_all xs d = Some (ws, d') \<and> darray_rep d' (vs @ ws) \<and> length ws \<le> length xs \<and> (list_all fst xs \<longrightarrow> ws = map snd xs)"
proof (induction xs arbitrary: d vs)
  case (Cons x xs)
  obtain ok v where x: "x = (ok, v)" by (cases x)
  have l: "length vs < 2 ^ 60" "length (vs @ [v]) + length xs < 2 ^ 60" "length vs + length xs < 2 ^ 60" using Cons.prems(2) by simp_all
  from darray_add_rep [OF Cons.prems(1) l(1), of ok v] show ?case
  proof (elim disjE exE conjE)
    fix d1 assume d1: "darray_add ok v d = Some (Inr (), d1)" "darray_rep d1 (vs @ [v])"
    from Cons.IH [OF d1(2) l(2)] obtain ws d' where w: "add_all xs d1 = Some (ws, d')" "darray_rep d' (vs @ v # ws)"
      "length ws \<le> length xs" "list_all fst xs \<longrightarrow> ws = map snd xs" by auto
    show ?thesis by (intro exI [of _ "v # ws"] exI [of _ d']) (use d1(1) x w in simp)
  next
    assume d1: "\<not> ok" "darray_add ok v d = Some (Inl BadAlloc, d)"
    from Cons.IH [OF Cons.prems(1) l(3)] obtain ws d' where w: "add_all xs d = Some (ws, d')" "darray_rep d' (vs @ ws)"
      "length ws \<le> length xs" by auto
    show ?thesis by (intro exI [of _ ws] exI [of _ d']) (use d1 x w in simp)
  qed
qed simp

text \<open>The array after any calls of \<open>add\<close>, some of which may throw because memory is refused: no access is outside its memory, a call
  that throws changes nothing, and \<open>get\<close> returns the values of the other calls in order and throws behind them.\<close>

theorem darray_correct:
  assumes "length xs < 2 ^ 60"
  shows "\<exists>d0 vs d. new_darray True = Inr d0 \<and> add_all xs d0 = Some (vs, d) \<and> d_size d = length vs \<and>
    (\<forall>i. darray_get i d = Some (if i < length vs then Inr (vs ! i) else Inl IndexOutOfRange)) \<and>
    d_capacity d \<le> 2 + 2 * length vs \<and> (list_all fst xs \<longrightarrow> vs = map snd xs)"
proof -
  let ?d0 = "\<lparr>d_capacity = 2, d_size = 0, d_data = replicate 2 None\<rparr>"
  have "darray_rep ?d0 []" by (simp add: darray_rep_def)
  from add_all_rep [OF this, of xs] assms obtain vs d where r: "add_all xs ?d0 = Some (vs, d)" "darray_rep d vs"
    "list_all fst xs \<longrightarrow> vs = map snd xs" by auto
  have D: "d_size d = length vs" "length vs \<le> length (d_data d)" "take (length vs) (d_data d) = map Some vs" "d_capacity d \<le> 2 + 2 * length vs"
    using r(2) unfolding darray_rep_def by metis+
  have "d_data d ! i = Some (vs ! i)" if "i < length vs" for i using D(3) that by (metis nth_map nth_take)
  then have "darray_get i d = Some (if i < length vs then Inr (vs ! i) else Inl IndexOutOfRange)" for i
    using D(1,2) by (simp add: darray_get_def)
  then show ?thesis using r D by (simp add: new_darray_def)
qed

theorem darray_correct_witness:
  "\<exists>d0 vs d. new_darray True = Inr d0 \<and> add_all [(True, 10), (True, 20), (False, 25), (True, 30)] d0 = Some (vs, d) \<and>
     darray_get 2 d = Some (if 2 < length vs then Inr (vs ! 2) else Inl IndexOutOfRange)"
  using darray_correct [of "[(True, 10), (True, 20), (False, 25), (True, 30)]"] by auto

end
