(* ===== verification/Logic_Layer.thy ===== *)
theory Logic_Layer
  imports Net_Frame "HOL-Library.AList" "HOL-Library.Sublist"
begin

text \<open>
  The layered server of src/cplusplus/net\_program/code/cpp\_net/base\_logic\_layer/test: sessions read
  length-prefixed messages on the thread of the \<open>io_context\<close> and post them to the queue of the logic system, whose
  thread dispatches them to handlers or echoes them; a signal stops the server.

  Two threads interleave.  The handlers of the \<open>io_context\<close> run one at a time; the logic thread is the point of its
  loop: the critical sections and the write to a socket are its steps.  What the kernel does is a list of events: a client
  connects, bytes arrive, a read completes or fails, a write succeeds or fails after some bytes, a
  condition variable wakes spuriously, a signal.  A connection is the stream of bytes that arrived with the number of bytes
  taken from it, and the bytes written.  Critical sections of one mutex do not interleave, so a mutex found
  locked is locked by the same thread, which is undefined.  Output to the console is left out.
\<close>

section \<open>Messages and sessions\<close>

definition HEAD_LEN :: nat where
  "HEAD_LEN = 4"

definition MAX_BODY :: u32 where
  "MAX_BODY = 4 * 1024 * 1024"

record logic_message =
  session_id :: u64
  msg_type :: u16
  msg_body :: "byte list"

definition MSG_LOGIN :: u16 where "MSG_LOGIN = 1"
definition MSG_CHAT :: u16 where "MSG_CHAT = 2"

text \<open>The pending read of a session; one that is started on a closed socket can only fail.\<close>

datatype reading = NoRead | ReadHeader | ReadBody u32 | ReadOnClosed

record session =
  sess_id :: u64
  arrived :: "byte list"
  taken :: nat
  peer_closed :: bool
  sock_open :: bool
  sent_bytes :: "byte list"
  reading :: reading

datatype msg_handler = HandleLogin | HandleChat

text \<open>The points of \<open>LogicSystem::run\<close>: the test of the loop, taking the mutex (also after a wake-up), between the predicate that
  was false and going to sleep (the mutex is held), asleep, with a message to dispatch, with a session to
  write to, returned.\<close>

datatype logic_point = LTest | LEnter | LBlocking | LWaiting | LPopped logic_message | LSend logic_message nat | LExited

record server =
  objs :: "session list"
  sessions :: "(u64 \<times> nat) list"
  mgr_locked :: bool
  queue :: "logic_message list"
  stopping :: bool
  handlers :: "(u16 \<times> msg_handler) list"
  online_users :: "u64 \<rightharpoonup> u64"
  session_to_user :: "u64 \<rightharpoonup> u64"
  logic :: logic_point
  acceptor_open :: bool
  io_stopped :: bool
  next_id :: u64

section \<open>SessionManager\<close>

definition lock_mgr :: "server \<Rightarrow> server option" where
  "lock_mgr s = (if mgr_locked s then None else Some (s\<lparr>mgr_locked := True\<rparr>))"

definition unlock_mgr :: "server \<Rightarrow> server" where
  "unlock_mgr s = s\<lparr>mgr_locked := False\<rparr>"

definition add_session :: "u64 \<Rightarrow> nat \<Rightarrow> server \<Rightarrow> server option" where
  "add_session i ob s = do {
     s \<leftarrow> lock_mgr s;
     Some (unlock_mgr (s\<lparr>sessions := AList.update i ob (sessions s)\<rparr>)) }"

definition remove_session :: "u64 \<Rightarrow> server \<Rightarrow> server option" where
  "remove_session i s = do {
     s \<leftarrow> lock_mgr s;
     Some (unlock_mgr (s\<lparr>sessions := AList.delete i (sessions s)\<rparr>)) }"

definition get_session :: "u64 \<Rightarrow> server \<Rightarrow> (nat option \<times> server) option" where
  "get_session i s = do {
     s \<leftarrow> lock_mgr s;
     Some (map_of (sessions s) i, unlock_mgr s) }"

text \<open>\<open>Session::close\<close>: whether or not \<open>shutdown\<close> fails, the socket is closed and the session removed.\<close>

definition on_obj :: "nat \<Rightarrow> (session \<Rightarrow> session) \<Rightarrow> server \<Rightarrow> server" where
  "on_obj ob f s = s\<lparr>objs := (objs s)[ob := f (objs s ! ob)]\<rparr>"

definition close_session :: "nat \<Rightarrow> server \<Rightarrow> server option" where
  "close_session ob s =
     remove_session (sess_id (objs s ! ob)) (on_obj ob (\<lambda>x. x\<lparr>sock_open := False\<rparr>) s)"

fun close_each :: "(u64 \<times> nat) list \<Rightarrow> server \<Rightarrow> server option" where
  "close_each [] s = Some s"
| "close_each ((i, ob) # rest) s = do { s \<leftarrow> close_session ob s; close_each rest s }"

definition close_all :: "server \<Rightarrow> server option" where
  "close_all s = do {
     s \<leftarrow> lock_mgr s;
     s \<leftarrow> close_each (sessions s) s;
     Some (unlock_mgr (s\<lparr>sessions := []\<rparr>)) }"

section \<open>LogicSystem, LoginMgr, ChatMgr\<close>

definition post_message :: "u64 \<Rightarrow> u16 \<Rightarrow> byte list \<Rightarrow> server \<Rightarrow> server" where
  "post_message i ty body s =
     s\<lparr>queue := queue s @ [\<lparr>session_id = i, msg_type = ty, msg_body = body\<rparr>],
       logic := (if logic s = LWaiting then LEnter else logic s)\<rparr>"

definition stop_logic :: "server \<Rightarrow> server" where
  "stop_logic s = s\<lparr>stopping := True, logic := (if logic s = LWaiting then LEnter else logic s)\<rparr>"

definition register_handler :: "u16 \<Rightarrow> msg_handler \<Rightarrow> server \<Rightarrow> server" where
  "register_handler ty h s = s\<lparr>handlers := AList.update ty h (handlers s)\<rparr>"

text \<open>\<open>std::hash<std::string>\<close> is the parameter \<open>hash\<close>.\<close>

definition handle_login :: "(byte list \<Rightarrow> u64) \<Rightarrow> logic_message \<Rightarrow> server \<Rightarrow> server" where
  "handle_login hash m s =
     (let user_id = hash (msg_body m) in
      s\<lparr>online_users := (online_users s)(user_id \<mapsto> session_id m),
        session_to_user := (session_to_user s)(session_id m \<mapsto> user_id)\<rparr>)"

definition handle_logout :: "u64 \<Rightarrow> server \<Rightarrow> server" where
  "handle_logout i s = (case session_to_user s i of
      None \<Rightarrow> s
    | Some user_id \<Rightarrow> s\<lparr>online_users := (online_users s)(user_id := None),
        session_to_user := (session_to_user s)(i := None)\<rparr>)"

definition is_online :: "u64 \<Rightarrow> server \<Rightarrow> bool" where
  "is_online u s \<longleftrightarrow> online_users s u \<noteq> None"

definition get_user_by_session :: "u64 \<Rightarrow> server \<Rightarrow> u64" where
  "get_user_by_session i s = (case session_to_user s i of Some u \<Rightarrow> u | None \<Rightarrow> 0)"

text \<open>The look-up that the default action of \<open>dispatch\<close> and \<open>handle_chat\<close> share; the write that follows is a step of its own.\<close>

definition reply_to :: "logic_message \<Rightarrow> server \<Rightarrow> server option" where
  "reply_to m s = do {
     (sess, s) \<leftarrow> get_session (session_id m) s;
     Some (s\<lparr>logic := (case sess of Some ob \<Rightarrow> LSend m ob | None \<Rightarrow> LTest)\<rparr>) }"

definition handle_chat :: "logic_message \<Rightarrow> server \<Rightarrow> server option" where
  "handle_chat m s = reply_to m s"

definition dispatch :: "(byte list \<Rightarrow> u64) \<Rightarrow> logic_message \<Rightarrow> server \<Rightarrow> server option" where
  "dispatch hash m s = (case map_of (handlers s) (msg_type m) of
      Some HandleLogin \<Rightarrow> Some ((handle_login hash m s)\<lparr>logic := LTest\<rparr>)
    | Some HandleChat \<Rightarrow> handle_chat m s
    | None \<Rightarrow> reply_to m s)"

section \<open>Session\<close>

definition handle_error :: "nat \<Rightarrow> server \<Rightarrow> server option" where
  "handle_error ob s = close_session ob s"

text \<open>\<open>asio::write\<close>: \<open>None\<close> writes everything, \<open>Some k\<close> fails after \<open>k\<close> bytes; a closed socket fails at once.\<close>

definition sess_send :: "bool \<Rightarrow> nat option \<Rightarrow> byte list \<Rightarrow> nat \<Rightarrow> server \<Rightarrow> server option" where
  "sess_send le w data ob s =
     (let net_len = htonl le (of_nat (length data));
          bufs = store32 le net_len @ data
      in if \<not> sock_open (objs s ! ob) then handle_error ob s
         else case w of
             None \<Rightarrow> Some (on_obj ob (\<lambda>x. x\<lparr>sent_bytes := sent_bytes x @ bufs\<rparr>) s)
           | Some k \<Rightarrow> handle_error ob (on_obj ob (\<lambda>x. x\<lparr>sent_bytes := sent_bytes x @ take k bufs\<rparr>) s))"

definition sess_read_header :: "nat \<Rightarrow> server \<Rightarrow> server" where
  "sess_read_header ob = on_obj ob (\<lambda>x. x\<lparr>reading := (if sock_open x then ReadHeader else ReadOnClosed)\<rparr>)"

definition sess_read_body :: "u32 \<Rightarrow> nat \<Rightarrow> server \<Rightarrow> server" where
  "sess_read_body n ob = on_obj ob (\<lambda>x. x\<lparr>reading := (if sock_open x then ReadBody n else ReadOnClosed)\<rparr>)"

definition on_message :: "byte list \<Rightarrow> nat \<Rightarrow> server \<Rightarrow> server" where
  "on_message body ob s = sess_read_header ob (post_message (sess_id (objs s ! ob)) 0 body s)"

text \<open>The completion of a read: the bytes are taken from the stream and the operation is over, then the handler runs.\<close>

definition take_bytes :: "nat \<Rightarrow> session \<Rightarrow> byte list \<times> session" where
  "take_bytes n x = (take n (drop (taken x) (arrived x)), x\<lparr>taken := taken x + n, reading := NoRead\<rparr>)"

definition header_done :: "bool \<Rightarrow> nat \<Rightarrow> server \<Rightarrow> server option" where
  "header_done le ob s =
     (let (header_buf, x) = take_bytes HEAD_LEN (objs s ! ob);
          s = on_obj ob (\<lambda>_. x) s;
          body_len = ntohl le (load32 le header_buf)
      in if body_len = 0 \<or> body_len > MAX_BODY then close_session ob s
         else Some (sess_read_body body_len ob s))"

definition body_done :: "u32 \<Rightarrow> nat \<Rightarrow> server \<Rightarrow> server option" where
  "body_done n ob s =
     (let (body, x) = take_bytes (unat n) (objs s ! ob)
      in Some (on_message body ob (on_obj ob (\<lambda>_. x) s)))"

definition read_failed :: "nat \<Rightarrow> server \<Rightarrow> server option" where
  "read_failed ob s = handle_error ob (on_obj ob (\<lambda>x. x\<lparr>reading := NoRead\<rparr>) s)"

definition sess_start :: "nat \<Rightarrow> server \<Rightarrow> server option" where
  "sess_start ob s = do {
     s \<leftarrow> add_session (sess_id (objs s ! ob)) ob s;
     Some (sess_read_header ob s) }"

section \<open>NetworkServer and the threads\<close>

definition new_session :: "u64 \<Rightarrow> session" where
  "new_session i = \<lparr>sess_id = i, arrived = [], taken = 0, peer_closed = False, sock_open = True, sent_bytes = [], reading = NoRead\<rparr>"

definition accepted :: "server \<Rightarrow> server option" where
  "accepted s = sess_start (length (objs s))
     (s\<lparr>next_id := next_id s + 1, objs := objs s @ [new_session (next_id s)]\<rparr>)"

definition stop_server :: "server \<Rightarrow> server option" where
  "stop_server s = do {
     s \<leftarrow> close_all (s\<lparr>acceptor_open := False\<rparr>);
     Some ((stop_logic s)\<lparr>io_stopped := True\<rparr>) }"

definition server_new :: server where
  "server_new = register_handler MSG_CHAT HandleChat (register_handler MSG_LOGIN HandleLogin
     \<lparr>objs = [], sessions = [], mgr_locked = False, queue = [], stopping = False, handlers = [],
      online_users = Map.empty, session_to_user = Map.empty, logic = LTest,
      acceptor_open = True, io_stopped = False, next_id = 1\<rparr>)"

datatype ev_result = Disabled | Undefined | To server

fun of_opt :: "server option \<Rightarrow> ev_result" where
  "of_opt None = Undefined"
| "of_opt (Some s) = To s"

text \<open>One step of \<open>LogicSystem::run\<close>.\<close>

definition logic_step :: "bool \<Rightarrow> (byte list \<Rightarrow> u64) \<Rightarrow> nat option \<Rightarrow> server \<Rightarrow> ev_result" where
  "logic_step le hash w s = (case logic s of
      LTest \<Rightarrow> To (s\<lparr>logic := (if stopping s then LExited else LEnter)\<rparr>)
    | LEnter \<Rightarrow>
        (if stopping s then To (s\<lparr>logic := LExited\<rparr>)
         else case queue s of
             [] \<Rightarrow> To (s\<lparr>logic := LBlocking\<rparr>)
           | m # q \<Rightarrow> To (s\<lparr>queue := q, logic := LPopped m\<rparr>))
    | LBlocking \<Rightarrow> To (s\<lparr>logic := LWaiting\<rparr>)
    | LPopped m \<Rightarrow> of_opt (dispatch hash m s)
    | LSend m ob \<Rightarrow> of_opt (map_option (\<lambda>s. s\<lparr>logic := LTest\<rparr>) (sess_send le w (msg_body m) ob s))
    | LWaiting \<Rightarrow> Disabled
    | LExited \<Rightarrow> Disabled)"

datatype event = Connect | Bytes nat "byte list" | PeerClose nat | ReadDone nat | ReadFails nat
  | Logic "nat option" | Spurious | Signal

text \<open>A handler that posts a message waits for the mutex of the queue, which the logic thread holds at \<open>LBlocking\<close>.  A read whose
  bytes have come can complete although the logic thread has closed the socket meanwhile: its completion may have been
  queued before.\<close>

definition read_done :: "bool \<Rightarrow> nat \<Rightarrow> server \<Rightarrow> ev_result" where
  "read_done le ob s =
     (let x = objs s ! ob in
      case reading x of
          NoRead \<Rightarrow> Disabled
        | ReadOnClosed \<Rightarrow> Disabled
        | ReadHeader \<Rightarrow> (if taken x + HEAD_LEN \<le> length (arrived x) then of_opt (header_done le ob s) else Disabled)
        | ReadBody n \<Rightarrow>
            (if taken x + unat n \<le> length (arrived x) \<and> logic s \<noteq> LBlocking then of_opt (body_done n ob s) else Disabled))"

fun do_event :: "bool \<Rightarrow> (byte list \<Rightarrow> u64) \<Rightarrow> event \<Rightarrow> server \<Rightarrow> ev_result" where
  "do_event le hash Connect s =
     (if acceptor_open s \<and> \<not> io_stopped s then of_opt (accepted s) else Disabled)"
| "do_event le hash (Bytes ob bs) s =
     (if ob < length (objs s) \<and> sock_open (objs s ! ob) \<and> \<not> peer_closed (objs s ! ob)
      then To (on_obj ob (\<lambda>x. x\<lparr>arrived := arrived x @ bs\<rparr>) s) else Disabled)"
| "do_event le hash (PeerClose ob) s =
     (if ob < length (objs s) then To (on_obj ob (\<lambda>x. x\<lparr>peer_closed := True\<rparr>) s) else Disabled)"
| "do_event le hash (ReadDone ob) s =
     (if ob < length (objs s) \<and> \<not> io_stopped s then read_done le ob s else Disabled)"
| "do_event le hash (ReadFails ob) s =
     (if ob < length (objs s) \<and> \<not> io_stopped s \<and> reading (objs s ! ob) \<noteq> NoRead then of_opt (read_failed ob s) else Disabled)"
| "do_event le hash (Logic w) s = logic_step le hash w s"
| "do_event le hash Spurious s = (if logic s = LWaiting then To (s\<lparr>logic := LEnter\<rparr>) else Disabled)"
| "do_event le hash Signal s = (if io_stopped s then Disabled else of_opt (stop_server s))"

fun run_events :: "bool \<Rightarrow> (byte list \<Rightarrow> u64) \<Rightarrow> event list \<Rightarrow> server \<Rightarrow> ev_result" where
  "run_events le hash [] s = To s"
| "run_events le hash (e # es) s =
     (case do_event le hash e s of To s' \<Rightarrow> run_events le hash es s' | r \<Rightarrow> r)"

section \<open>What one session has read and answered\<close>

abbreviation frames_of :: "byte list list \<Rightarrow> byte list" where
  "frames_of ms \<equiv> concat (map frame_bytes ms)"

definition ok_body :: "byte list \<Rightarrow> bool" where
  "ok_body b \<longleftrightarrow> 0 < length b \<and> length b \<le> unat MAX_BODY"

fun partial_header :: "reading \<Rightarrow> byte list \<Rightarrow> bool" where
  "partial_header ReadHeader hdr \<longleftrightarrow> hdr = []"
| "partial_header (ReadBody n) hdr \<longleftrightarrow> hdr = rev (bytes32 n) \<and> n \<noteq> 0 \<and> n \<le> MAX_BODY"
| "partial_header NoRead hdr \<longleftrightarrow> length hdr \<le> 4"
| "partial_header ReadOnClosed hdr \<longleftrightarrow> length hdr \<le> 4"

abbreviation reads :: "session \<Rightarrow> bool" where
  "reads x \<equiv> reading x \<noteq> NoRead \<and> reading x \<noteq> ReadOnClosed"

text \<open>\<open>W\<close>: the messages of the session that the logic system has not answered yet.\<close>

definition sess_ok :: "byte list list \<Rightarrow> session \<Rightarrow> bool" where
  "sess_ok W x \<longleftrightarrow> taken x \<le> length (arrived x) \<and>
     (\<exists>dn td hdr. list_all ok_body (dn @ td) \<and> take (taken x) (arrived x) = frames_of (dn @ td) @ hdr \<and>
        partial_header (reading x) hdr \<and>
        (if sock_open x then reads x \<and> td = W \<and> sent_bytes x = frames_of dn
         else prefix (sent_bytes x) (frames_of (dn @ td))))"

lemma sess_okE:
  assumes "sess_ok W x"
  obtains dn td hdr where "taken x \<le> length (arrived x)" "list_all ok_body (dn @ td)"
    "take (taken x) (arrived x) = frames_of (dn @ td) @ hdr" "partial_header (reading x) hdr"
    "sock_open x \<Longrightarrow> reads x \<and> td = W \<and> sent_bytes x = frames_of dn"
    "prefix (sent_bytes x) (frames_of (dn @ td))"
  using assms unfolding sess_ok_def by (auto split: if_splits)

lemma sess_ok_openE:
  assumes "sess_ok W x" "sock_open x"
  obtains dn hdr where "taken x \<le> length (arrived x)" "list_all ok_body (dn @ W)"
    "take (taken x) (arrived x) = frames_of (dn @ W) @ hdr" "partial_header (reading x) hdr"
    "reads x" "sent_bytes x = frames_of dn"
  using assms unfolding sess_ok_def by auto

lemma sess_ok_openI:
  assumes "taken x \<le> length (arrived x)" "list_all ok_body (dn @ W)"
    "take (taken x) (arrived x) = frames_of (dn @ W) @ hdr" "partial_header (reading x) hdr"
    "reads x" "sent_bytes x = frames_of dn" "sock_open x"
  shows "sess_ok W x"
  using assms unfolding sess_ok_def by auto

lemma sess_ok_closedI:
  assumes "taken x \<le> length (arrived x)" "list_all ok_body ms"
    "take (taken x) (arrived x) = frames_of ms @ hdr" "partial_header (reading x) hdr"
    "prefix (sent_bytes x) (frames_of ms)" "\<not> sock_open x"
  shows "sess_ok W x"
  unfolding sess_ok_def using assms by (intro conjI exI [of _ ms] exI [of _ "[]"] exI [of _ hdr]) auto

lemma ok_body_frame:
  assumes "n \<noteq> 0" "n \<le> MAX_BODY" "length b = unat n"
  shows "ok_body b" "frame_bytes b = rev (bytes32 n) @ b"
proof -
  from assms(1) have "0 < unat n" by (simp add: unat_gt_0)
  moreover from assms(2) have "unat n \<le> unat MAX_BODY" by (simp add: word_le_nat_alt)
  ultimately show "ok_body b" using assms(3) by (simp add: ok_body_def)
  show "frame_bytes b = rev (bytes32 n) @ b" using assms(3) by (simp add: frame_bytes_def)
qed

lemma sess_ok_new: "sess_ok [] ((new_session i)\<lparr>reading := ReadHeader\<rparr>)"
  by (rule sess_ok_openI [where dn = "[]" and hdr = "[]"]) (simp_all add: new_session_def)

lemma sess_ok_arrive: "sess_ok W x \<Longrightarrow> sess_ok W (x\<lparr>arrived := arrived x @ bs\<rparr>)"
  unfolding sess_ok_def by (simp split del: if_split cong: if_cong)

lemma sess_ok_peer: "sess_ok W (x\<lparr>peer_closed := b\<rparr>) \<longleftrightarrow> sess_ok W x"
  unfolding sess_ok_def by simp

lemma partial_short: "partial_header r hdr \<Longrightarrow> length hdr \<le> 4"
  by (cases r) auto

lemma sess_ok_close: "sess_ok W x \<Longrightarrow> sess_ok W' (x\<lparr>sock_open := False\<rparr>)"
proof (erule sess_okE)
  fix dn td hdr
  assume "taken x \<le> length (arrived x)" "list_all ok_body (dn @ td)"
    "take (taken x) (arrived x) = frames_of (dn @ td) @ hdr" "partial_header (reading x) hdr"
    "prefix (sent_bytes x) (frames_of (dn @ td))"
  then show ?thesis
    by (intro sess_ok_closedI [where ms = "dn @ td" and hdr = hdr]) (simp_all add: partial_short)
qed

lemma sess_ok_closed: "sess_ok W x \<Longrightarrow> \<not> sock_open x \<Longrightarrow> sess_ok W' x"
  by (erule sess_okE, rule sess_ok_closedI)

lemma sess_ok_fail: "sess_ok W x \<Longrightarrow> sess_ok W' (x\<lparr>reading := NoRead, sock_open := False\<rparr>)"
proof (erule sess_okE)
  fix dn td hdr
  assume "taken x \<le> length (arrived x)" "list_all ok_body (dn @ td)"
    "take (taken x) (arrived x) = frames_of (dn @ td) @ hdr" "partial_header (reading x) hdr"
    "prefix (sent_bytes x) (frames_of (dn @ td))"
  then show ?thesis
    by (intro sess_ok_closedI [where ms = "dn @ td" and hdr = hdr]) (simp_all add: partial_short)
qed

lemma sess_ok_header:
  assumes "sess_ok W x" "reading x = ReadHeader" "taken x + HEAD_LEN \<le> length (arrived x)"
    "take_bytes HEAD_LEN x = (h, y)"
  shows "ntohl le (load32 le h) \<noteq> 0 \<Longrightarrow> ntohl le (load32 le h) \<le> MAX_BODY \<Longrightarrow>
      sess_ok W (y\<lparr>reading := (if sock_open x then ReadBody (ntohl le (load32 le h)) else ReadOnClosed)\<rparr>)"
    and "sess_ok W' (y\<lparr>sock_open := False\<rparr>)"
proof -
  from assms(1) obtain dn td hdr where 1: "taken x \<le> length (arrived x)" "list_all ok_body (dn @ td)"
    "take (taken x) (arrived x) = frames_of (dn @ td) @ hdr" "partial_header (reading x) hdr"
    "sock_open x \<longrightarrow> td = W \<and> sent_bytes x = frames_of dn" "prefix (sent_bytes x) (frames_of (dn @ td))"
    using sess_okE by (metis (no_types, lifting))
  from assms(4) have y: "h = take 4 (drop (taken x) (arrived x))" "y = x\<lparr>taken := taken x + 4, reading := NoRead\<rparr>"
    by (simp_all add: take_bytes_def HEAD_LEN_def)
  have h: "length h = 4" using assms(3) y(1) by (simp add: HEAD_LEN_def)
  have t: "take (taken x + 4) (arrived x) = frames_of (dn @ td) @ h"
    using 1(3,4) assms(2) by (simp add: take_add y(1))
  have w: "h = rev (bytes32 (ntohl le (load32 le h)))"
    using h by (simp add: load32_def htonl_def)
  have closed: "sess_ok V z" if "z = y\<lparr>sock_open := False, reading := r\<rparr>" "r \<in> {NoRead, ReadOnClosed}" for V z r
    by (rule sess_ok_closedI [where ms = "dn @ td" and hdr = h]) (use 1 t h assms(3) that in \<open>auto simp: y(2) HEAD_LEN_def\<close>)
  show "sess_ok W (y\<lparr>reading := (if sock_open x then ReadBody (ntohl le (load32 le h)) else ReadOnClosed)\<rparr>)"
    if n: "ntohl le (load32 le h) \<noteq> 0" "ntohl le (load32 le h) \<le> MAX_BODY"
  proof (cases "sock_open x")
    case True
    then show ?thesis
      by (intro sess_ok_openI [where dn = dn and hdr = h]) (use 1(1-3) 1(5) t w n assms(3) in \<open>simp_all add: y(2) HEAD_LEN_def\<close>)
  next
    case False
    then show ?thesis by (intro closed [of _ ReadOnClosed]) (simp_all add: y(2))
  qed
  show "sess_ok W' (y\<lparr>sock_open := False\<rparr>)" by (rule closed [of _ NoRead]) (simp_all add: y(2))
qed

lemma sess_ok_body:
  assumes "sess_ok W x" "reading x = ReadBody n" "taken x + unat n \<le> length (arrived x)"
    "take_bytes (unat n) x = (b, y)"
  shows "sess_ok (W @ [b]) (y\<lparr>reading := (if sock_open x then ReadHeader else ReadOnClosed)\<rparr>)"
proof -
  from assms(1) obtain dn td hdr where 1: "taken x \<le> length (arrived x)" "list_all ok_body (dn @ td)"
    "take (taken x) (arrived x) = frames_of (dn @ td) @ hdr" "partial_header (reading x) hdr"
    "sock_open x \<longrightarrow> td = W \<and> sent_bytes x = frames_of dn" "prefix (sent_bytes x) (frames_of (dn @ td))"
    using sess_okE by (metis (no_types, lifting))
  from assms(4) have y: "b = take (unat n) (drop (taken x) (arrived x))" "y = x\<lparr>taken := taken x + unat n, reading := NoRead\<rparr>"
    by (simp_all add: take_bytes_def)
  have b: "length b = unat n" using assms(3) y(1) by simp
  from 1(4) assms(2) have n: "n \<noteq> 0" "n \<le> MAX_BODY" "hdr = rev (bytes32 n)" by simp_all
  have t: "take (taken x + unat n) (arrived x) = frames_of (dn @ td @ [b]) @ []"
    using 1(3) n(3) ok_body_frame(2) [OF n(1,2) b] by (simp add: take_add y(1))
  note ok = ok_body_frame(1) [OF n(1,2) b]
  show ?thesis
  proof (cases "sock_open x")
    case True
    then show ?thesis
      by (intro sess_ok_openI [where dn = dn and hdr = "[]"]) (use 1(1,2) 1(5) t assms(3) ok in \<open>simp_all add: y(2)\<close>)
  next
    case False
    moreover have "prefix (sent_bytes x) (frames_of (dn @ td @ [b]))" using prefix_prefix [OF 1(6), of "frame_bytes b"] by simp
    ultimately show ?thesis
      by (intro sess_ok_closedI [where ms = "dn @ td @ [b]" and hdr = "[]"]) (use 1(1,2) t assms(3) ok in \<open>simp_all add: y(2)\<close>)
  qed
qed

lemma sess_ok_send: "sess_ok (b # W) x \<Longrightarrow> sock_open x \<Longrightarrow> sess_ok W (x\<lparr>sent_bytes := sent_bytes x @ frame_bytes b\<rparr>)"
proof (erule (1) sess_ok_openE)
  fix dn hdr
  assume "taken x \<le> length (arrived x)" "list_all ok_body (dn @ b # W)"
    "take (taken x) (arrived x) = frames_of (dn @ b # W) @ hdr" "partial_header (reading x) hdr"
    "reads x" "sent_bytes x = frames_of dn" "sock_open x"
  then show "sess_ok W (x\<lparr>sent_bytes := sent_bytes x @ frame_bytes b\<rparr>)"
    by (intro sess_ok_openI [where dn = "dn @ [b]" and hdr = hdr]) simp_all
qed

lemma sess_ok_send_fails:
  "sess_ok (b # W) x \<Longrightarrow> sock_open x \<Longrightarrow>
   sess_ok W' (x\<lparr>sent_bytes := sent_bytes x @ take k (frame_bytes b), sock_open := False\<rparr>)"
proof (erule (1) sess_ok_openE)
  fix dn hdr
  assume "taken x \<le> length (arrived x)" "list_all ok_body (dn @ b # W)"
    "take (taken x) (arrived x) = frames_of (dn @ b # W) @ hdr" "partial_header (reading x) hdr"
    "reads x" "sent_bytes x = frames_of dn" "sock_open x"
  moreover have "prefix (take k (frame_bytes b)) (frame_bytes b @ frames_of W)"
    by (simp add: take_is_prefix prefix_prefix)
  ultimately show ?thesis
    by (intro sess_ok_closedI [where ms = "dn @ b # W" and hdr = hdr]) simp_all
qed

section \<open>The invariant of the server\<close>

definition in_flight :: "server \<Rightarrow> logic_message list" where
  "in_flight s = (case logic s of LPopped m \<Rightarrow> [m] | LSend m ob \<Rightarrow> [m] | _ \<Rightarrow> []) @ queue s"

definition unanswered :: "server \<Rightarrow> u64 \<Rightarrow> byte list list" where
  "unanswered s i = map msg_body (filter (\<lambda>m. session_id m = i) (in_flight s))"

text \<open>Identifiers are handed out from 1; they are distinct below $2^{64}$ connections.\<close>

definition ids_ok :: "server \<Rightarrow> bool" where
  "ids_ok s \<longleftrightarrow> next_id s = of_nat (Suc (length (objs s))) \<and> (\<forall>ob < length (objs s). sess_id (objs s ! ob) = of_nat (Suc ob))"

definition registered_ok :: "server \<Rightarrow> bool" where
  "registered_ok s \<longleftrightarrow> (\<forall>i ob. map_of (sessions s) i = Some ob \<longleftrightarrow>
     ob < length (objs s) \<and> sock_open (objs s ! ob) \<and> sess_id (objs s ! ob) = i)"

definition issued :: "session list \<Rightarrow> u64 list" where
  "issued xs = map sess_id xs"

definition flight_ok :: "server \<Rightarrow> bool" where
  "flight_ok s \<longleftrightarrow> (\<forall>m \<in> set (in_flight s). msg_type m = 0 \<and> session_id m \<in> set (issued (objs s))) \<and>
     (\<forall>m ob. logic s = LSend m ob \<longrightarrow> ob < length (objs s) \<and> sess_id (objs s ! ob) = session_id m)"

definition quiet :: "server \<Rightarrow> bool" where
  "quiet s \<longleftrightarrow> \<not> mgr_locked s \<and> handlers s = [(MSG_LOGIN, HandleLogin), (MSG_CHAT, HandleChat)] \<and>
     online_users s = Map.empty \<and> session_to_user s = Map.empty"

definition sessions_ok :: "server \<Rightarrow> bool" where
  "sessions_ok s \<longleftrightarrow> (\<forall>ob < length (objs s). sess_ok (unanswered s (sess_id (objs s ! ob))) (objs s ! ob))"

definition server_inv :: "server \<Rightarrow> bool" where
  "server_inv s \<longleftrightarrow> quiet s \<and> ids_ok s \<and> registered_ok s \<and> flight_ok s \<and> sessions_ok s"

lemma server_invD:
  assumes "server_inv s"
  shows "quiet s" "ids_ok s" "registered_ok s" "flight_ok s" "sessions_ok s"
  using assms by (simp_all add: server_inv_def)

lemma server_new_inv: "server_inv server_new"
  by (simp add: server_new_def server_inv_def quiet_def ids_ok_def registered_ok_def flight_ok_def sessions_ok_def in_flight_def
      register_handler_def MSG_LOGIN_def MSG_CHAT_def)

lemma issued_update: "ob < length xs \<Longrightarrow> sess_id x = sess_id (xs ! ob) \<Longrightarrow> issued (xs[ob := x]) = issued xs"
  by (simp add: issued_def map_update list_update_same_conv)

lemma ids_distinct:
  assumes "ids_ok s" "length (objs s) < 2 ^ 64" "a < length (objs s)" "b < length (objs s)"
    "sess_id (objs s ! a) = sess_id (objs s ! b)"
  shows "a = b"
proof -
  from assms have "(of_nat (Suc a) :: u64) = of_nat (Suc b)" by (simp add: ids_ok_def del: of_nat_Suc)
  then have "unat (of_nat (Suc a) :: u64) = unat (of_nat (Suc b) :: u64)" by (simp only:)
  then have "Suc a mod 2 ^ 64 = Suc b mod 2 ^ 64" by (simp add: unsigned_of_nat take_bit_eq_mod del: of_nat_Suc)
  moreover have "Suc a < 2 ^ 64" "Suc b < 2 ^ 64" using assms(2,3,4) by linarith+
  ultimately show ?thesis by simp
qed

lemma mgr_simps:
  assumes "\<not> mgr_locked s"
  shows "add_session i ob s = Some (s\<lparr>sessions := AList.update i ob (sessions s)\<rparr>)"
    "remove_session i s = Some (s\<lparr>sessions := AList.delete i (sessions s)\<rparr>)"
    "get_session i s = Some (map_of (sessions s) i, s)"
  using assms by (simp_all add: add_session_def remove_session_def get_session_def lock_mgr_def unlock_mgr_def)

lemma close_session_simp:
  assumes "\<not> mgr_locked s"
  shows "close_session ob s = Some (s\<lparr>objs := (objs s)[ob := (objs s ! ob)\<lparr>sock_open := False\<rparr>],
    sessions := AList.delete (sess_id (objs s ! ob)) (sessions s)\<rparr>)"
  using assms by (simp add: close_session_def on_obj_def mgr_simps)

text \<open>An update of one session that keeps its identifier and whether it is open.\<close>

lemma inv_obj:
  assumes "server_inv s" "ob < length (objs s)" "sess_id x = sess_id (objs s ! ob)" "sock_open x = sock_open (objs s ! ob)"
    "sess_ok (unanswered s (sess_id x)) x"
  shows "server_inv (s\<lparr>objs := (objs s)[ob := x]\<rparr>)"
proof -
  let ?t = "s\<lparr>objs := (objs s)[ob := x]\<rparr>"
  note i = server_invD [OF assms(1)]
  have "quiet ?t" using i(1) by (simp add: quiet_def)
  moreover have "ids_ok ?t" using i(2) assms(2,3) by (simp add: ids_ok_def nth_list_update del: of_nat_Suc)
  moreover have "registered_ok ?t" using i(3) assms(2-4) unfolding registered_ok_def by (simp add: nth_list_update)
  moreover have "flight_ok ?t" using i(4) assms(2,3) unfolding flight_ok_def in_flight_def by (simp add: nth_list_update issued_update)
  moreover have "unanswered ?t k = unanswered s k" for k by (simp add: unanswered_def in_flight_def)
  then have "sessions_ok ?t" using i(5) assms(2,5) unfolding sessions_ok_def by (simp add: nth_list_update)
  ultimately show ?thesis by (simp add: server_inv_def)
qed

lemma inv_close:
  assumes "server_inv s" "length (objs s) < 2 ^ 64" "ob < length (objs s)" "sess_id x = sess_id (objs s ! ob)" "\<not> sock_open x"
    "sess_ok [] x"
  shows "server_inv (s\<lparr>objs := (objs s)[ob := x], sessions := AList.delete (sess_id (objs s ! ob)) (sessions s)\<rparr>)"
proof -
  let ?t = "s\<lparr>objs := (objs s)[ob := x], sessions := AList.delete (sess_id (objs s ! ob)) (sessions s)\<rparr>"
  note i = server_invD [OF assms(1)]
  have "quiet ?t" using i(1) by (simp add: quiet_def)
  moreover have "ids_ok ?t" using i(2) assms(3,4) by (simp add: ids_ok_def nth_list_update del: of_nat_Suc)
  moreover have "registered_ok ?t"
    unfolding registered_ok_def
  proof (intro allI)
    fix k j
    have old: "map_of (sessions s) k = Some j \<longleftrightarrow> j < length (objs s) \<and> sock_open (objs s ! j) \<and> sess_id (objs s ! j) = k"
      using i(3) by (simp add: registered_ok_def)
    have d: "j < length (objs s) \<Longrightarrow> sess_id (objs s ! j) = sess_id (objs s ! ob) \<Longrightarrow> j = ob"
      using ids_distinct [OF i(2) assms(2) _ assms(3)] by blast
    show "map_of (sessions ?t) k = Some j \<longleftrightarrow> j < length (objs ?t) \<and> sock_open (objs ?t ! j) \<and> sess_id (objs ?t ! j) = k"
      using old d assms(3,5) by (cases "j = ob"; cases "k = sess_id (objs s ! ob)") (auto simp: delete_conv')
  qed
  moreover have "flight_ok ?t" using i(4) assms(3,4) unfolding flight_ok_def in_flight_def by (simp add: nth_list_update issued_update)
  moreover have "unanswered ?t k = unanswered s k" for k by (simp add: unanswered_def in_flight_def)
  then have "sessions_ok ?t"
    using i(5) assms(3) sess_ok_closed [OF assms(6,5)] unfolding sessions_ok_def by (simp add: nth_list_update)
  ultimately show ?thesis by (simp add: server_inv_def)
qed

text \<open>A change of the messages in flight that concerns only sessions that are closed, or answered by \<open>x\<close> meanwhile.\<close>

lemma inv_flight:
  assumes "server_inv s" "set (in_flight (s\<lparr>queue := q, logic := p\<rparr>)) \<subseteq> set (in_flight s)"
    "\<And>m ob. p = LSend m ob \<Longrightarrow> ob < length (objs s) \<and> sess_id (objs s ! ob) = session_id m"
    "\<And>ob. ob < length (objs s) \<Longrightarrow> sock_open (objs s ! ob) \<Longrightarrow>
      unanswered (s\<lparr>queue := q, logic := p\<rparr>) (sess_id (objs s ! ob)) = unanswered s (sess_id (objs s ! ob))"
  shows "server_inv (s\<lparr>queue := q, logic := p\<rparr>)"
proof -
  let ?t = "s\<lparr>queue := q, logic := p\<rparr>"
  note i = server_invD [OF assms(1)]
  have "quiet ?t" "ids_ok ?t" "registered_ok ?t" using i(1-3) by (simp_all add: quiet_def ids_ok_def registered_ok_def)
  moreover have "\<forall>m \<in> set (in_flight ?t). msg_type m = 0 \<and> session_id m \<in> set (issued (objs s))"
    using i(4) assms(2) unfolding flight_ok_def by blast
  then have "flight_ok ?t" using assms(3) by (simp add: flight_ok_def)
  moreover have "sessions_ok ?t"
    unfolding sessions_ok_def
  proof (intro allI impI)
    fix ob assume "ob < length (objs ?t)"
    then have ob: "ob < length (objs s)" by simp
    then have so: "sess_ok (unanswered s (sess_id (objs s ! ob))) (objs s ! ob)" using i(5) by (simp add: sessions_ok_def)
    show "sess_ok (unanswered ?t (sess_id (objs ?t ! ob))) (objs ?t ! ob)"
    proof (cases "sock_open (objs s ! ob)")
      case True
      with so assms(4) [OF ob] show ?thesis by simp
    next
      case False
      with sess_ok_closed [OF so] show ?thesis by simp
    qed
  qed
  ultimately show ?thesis by (simp add: server_inv_def)
qed

lemma inv_logic:
  assumes "server_inv s" "in_flight (s\<lparr>logic := p\<rparr>) = in_flight s"
    "\<And>m ob. p = LSend m ob \<Longrightarrow> ob < length (objs s) \<and> sess_id (objs s ! ob) = session_id m"
  shows "server_inv (s\<lparr>logic := p\<rparr>)"
  using inv_flight [OF assms(1), where q = "queue s" and p = p] assms(2,3) by (simp add: unanswered_def)

lemma in_flight_simps [simp]:
  "logic s = LPopped m \<Longrightarrow> in_flight s = m # queue s"
  "logic s = LSend m ob \<Longrightarrow> in_flight s = m # queue s"
  "logic s \<in> {LTest, LEnter, LBlocking, LWaiting, LExited} \<Longrightarrow> in_flight s = queue s"
  by (auto simp: in_flight_def)

lemma inv_post:
  assumes "server_inv s" "ob < length (objs s)" "length (objs s) < 2 ^ 64" "sess_id x = sess_id (objs s ! ob)"
    "sock_open x = sock_open (objs s ! ob)" "sess_ok (unanswered s (sess_id (objs s ! ob)) @ [b]) x"
  shows "server_inv ((post_message (sess_id (objs s ! ob)) 0 b s)\<lparr>objs := (objs s)[ob := x]\<rparr>)"
proof -
  let ?m = "\<lparr>session_id = sess_id (objs s ! ob), msg_type = 0, msg_body = b\<rparr>"
  let ?t = "(post_message (sess_id (objs s ! ob)) 0 b s)\<lparr>objs := (objs s)[ob := x]\<rparr>"
  note i = server_invD [OF assms(1)]
  have l: "logic ?t = (if logic s = LWaiting then LEnter else logic s)" "objs ?t = (objs s)[ob := x]"
    by (simp_all add: post_message_def)
  have f: "in_flight ?t = in_flight s @ [?m]" by (cases "logic s") (simp_all add: post_message_def in_flight_def)
  have "quiet ?t" using i(1) by (simp add: quiet_def post_message_def)
  moreover have "ids_ok ?t" using i(2) assms(2,4) by (simp add: ids_ok_def nth_list_update post_message_def del: of_nat_Suc)
  moreover have "registered_ok ?t" using i(3) assms(2,4,5) unfolding registered_ok_def by (simp add: nth_list_update post_message_def)
  moreover have "sess_id (objs s ! ob) \<in> set (issued (objs s))" using assms(2) by (simp add: issued_def)
  then have "flight_ok ?t"
    using i(4) assms(2,4) unfolding flight_ok_def f l by (simp add: nth_list_update issued_update)
  moreover have "sessions_ok ?t"
    unfolding sessions_ok_def
  proof (intro allI impI)
    fix j assume "j < length (objs ?t)"
    then have j: "j < length (objs s)" by (simp add: l)
    then have so: "sess_ok (unanswered s (sess_id (objs s ! j))) (objs s ! j)" using i(5) by (simp add: sessions_ok_def)
    have u: "unanswered ?t k = unanswered s k @ (if k = sess_id (objs s ! ob) then [b] else [])" for k
      unfolding unanswered_def f by simp
    show "sess_ok (unanswered ?t (sess_id (objs ?t ! j))) (objs ?t ! j)"
    proof (cases "j = ob")
      case True
      with assms(2,4,6) show ?thesis unfolding u by (simp add: l)
    next
      case False
      with ids_distinct [OF i(2) assms(3) j assms(2)] have "sess_id (objs s ! j) \<noteq> sess_id (objs s ! ob)" by blast
      with so False show ?thesis unfolding u by (simp add: l)
    qed
  qed
  ultimately show ?thesis by (simp add: server_inv_def)
qed

lemma id_fresh:
  assumes "ids_ok s" "Suc (length (objs s)) < 2 ^ 64" "ob < length (objs s)"
  shows "sess_id (objs s ! ob) \<noteq> next_id s"
proof -
  have "unat (of_nat (Suc ob) :: u64) \<noteq> unat (of_nat (Suc (length (objs s))) :: u64)"
    using assms(2,3) by (simp add: unsigned_of_nat take_bit_eq_mod del: of_nat_Suc)
  with assms(1,3) show ?thesis by (metis ids_ok_def)
qed

lemma accepted_ok:
  assumes "server_inv s" "Suc (length (objs s)) < 2 ^ 64"
  shows "\<exists>s'. accepted s = Some s' \<and> server_inv s' \<and> length (objs s') = Suc (length (objs s))"
proof -
  note i = server_invD [OF assms(1)]
  let ?n = "length (objs s)" and ?x = "(new_session (next_id s))\<lparr>reading := ReadHeader\<rparr>"
  let ?t = "s\<lparr>next_id := next_id s + 1, objs := objs s @ [?x], sessions := AList.update (next_id s) ?n (sessions s)\<rparr>"
  have x: "sess_id ?x = next_id s" "sock_open ?x" by (simp_all add: new_session_def)
  have fresh: "j < ?n \<Longrightarrow> sess_id (objs s ! j) \<noteq> next_id s" for j by (rule id_fresh [OF i(2) assms(2)])
  have "\<not> mgr_locked s" using i(1) by (simp add: quiet_def)
  then have "accepted s = Some ?t"
    by (simp add: accepted_def sess_start_def sess_read_header_def on_obj_def mgr_simps) (simp add: new_session_def)
  moreover have "quiet ?t" using i(1) by (simp add: quiet_def)
  moreover have "ids_ok ?t" using i(2) x(1) by (simp add: ids_ok_def nth_append less_Suc_eq)
  moreover have "registered_ok ?t"
    unfolding registered_ok_def
  proof (intro allI)
    fix k j
    have old: "map_of (sessions s) k = Some j \<longleftrightarrow> j < ?n \<and> sock_open (objs s ! j) \<and> sess_id (objs s ! j) = k"
      using i(3) by (simp add: registered_ok_def)
    show "map_of (sessions ?t) k = Some j \<longleftrightarrow> j < length (objs ?t) \<and> sock_open (objs ?t ! j) \<and> sess_id (objs ?t ! j) = k"
      using old fresh [of j] x by (cases "j = ?n"; cases "k = next_id s") (auto simp: update_conv' nth_append)
  qed
  moreover have f: "in_flight ?t = in_flight s" by (simp add: in_flight_def)
  have "flight_ok ?t"
    using i(4) unfolding flight_ok_def f by (auto simp: issued_def nth_append)
  moreover have "sessions_ok ?t"
    unfolding sessions_ok_def
  proof (intro allI impI)
    fix j assume j: "j < length (objs ?t)"
    have u: "unanswered ?t k = unanswered s k" for k by (simp add: unanswered_def f)
    have "next_id s \<notin> set (issued (objs s))" 
    proof
      assume "next_id s \<in> set (issued (objs s))"
      then obtain k where "k < ?n" "sess_id (objs s ! k) = next_id s" by (auto simp: issued_def in_set_conv_nth)
      with fresh show False by blast
    qed
    then have "unanswered s (next_id s) = []"
      using i(4) by (auto simp: unanswered_def flight_ok_def filter_empty_conv)
    then show "sess_ok (unanswered ?t (sess_id (objs ?t ! j))) (objs ?t ! j)"
      using i(5) j sess_ok_new [of "next_id s"] x(1) unfolding u sessions_ok_def
      by (cases "j = ?n") (simp_all add: nth_append)
  qed
  ultimately show ?thesis by (simp add: server_inv_def)
qed

text \<open>A handler: it is defined, keeps the invariant and the number of sessions.\<close>

definition keeps :: "server \<Rightarrow> server option \<Rightarrow> bool" where
  "keeps s r \<longleftrightarrow> (\<exists>s'. r = Some s' \<and> server_inv s' \<and> length (objs s') = length (objs s))"

lemma keepsI: "r = Some s' \<Longrightarrow> server_inv s' \<Longrightarrow> length (objs s') = length (objs s) \<Longrightarrow> keeps s r"
  by (simp add: keeps_def)

lemma inv_unlocked: "server_inv s \<Longrightarrow> \<not> mgr_locked s"
  by (simp add: server_inv_def quiet_def)

lemma inv_sess: "server_inv s \<Longrightarrow> ob < length (objs s) \<Longrightarrow> sess_ok (unanswered s (sess_id (objs s ! ob))) (objs s ! ob)"
  by (simp add: server_inv_def sessions_ok_def)

text \<open>Closing a session after an update that keeps its identifier.\<close>

lemma keeps_close:
  assumes "server_inv s" "length (objs s) < 2 ^ 64" "ob < length (objs s)" "sess_id x = sess_id (objs s ! ob)"
    "sess_ok [] (x\<lparr>sock_open := False\<rparr>)"
  shows "keeps s (close_session ob (s\<lparr>objs := (objs s)[ob := x]\<rparr>))"
proof (rule keepsI)
  show "close_session ob (s\<lparr>objs := (objs s)[ob := x]\<rparr>) = Some (s\<lparr>objs := (objs s)[ob := x\<lparr>sock_open := False\<rparr>],
      sessions := AList.delete (sess_id (objs s ! ob)) (sessions s)\<rparr>)"
    using inv_unlocked [OF assms(1)] assms(3,4) by (simp add: close_session_simp)
  show "server_inv (s\<lparr>objs := (objs s)[ob := x\<lparr>sock_open := False\<rparr>],
      sessions := AList.delete (sess_id (objs s ! ob)) (sessions s)\<rparr>)"
    by (rule inv_close [OF assms(1-3)]) (use assms(4,5) in simp_all)
qed simp

lemma header_done_ok:
  assumes "server_inv s" "length (objs s) < 2 ^ 64" "ob < length (objs s)"
    "reading (objs s ! ob) = ReadHeader" "taken (objs s ! ob) + HEAD_LEN \<le> length (arrived (objs s ! ob))"
  shows "keeps s (header_done le ob s)"
proof -
  obtain h y where t: "take_bytes HEAD_LEN (objs s ! ob) = (h, y)" by (rule prod.exhaust)
  note so = inv_sess [OF assms(1,3)]
  note sh = sess_ok_header(1) [OF so assms(4,5) t, where le = le] sess_ok_header(2) [OF so assms(4,5) t, where W' = "[]"]
  have y: "sess_id y = sess_id (objs s ! ob)" "sock_open y = sock_open (objs s ! ob)" using t by (auto simp: take_bytes_def)
  show ?thesis
  proof (cases "ntohl le (load32 le h) = 0 \<or> ntohl le (load32 le h) > MAX_BODY")
    case True
    then have "header_done le ob s = close_session ob (s\<lparr>objs := (objs s)[ob := y]\<rparr>)"
      by (simp add: header_done_def t on_obj_def)
    with keeps_close [OF assms(1-3) y(1) sh(2)] show ?thesis by simp
  next
    case False
    let ?x = "y\<lparr>reading := (if sock_open (objs s ! ob) then ReadBody (ntohl le (load32 le h)) else ReadOnClosed)\<rparr>"
    from False have "header_done le ob s = Some (s\<lparr>objs := (objs s)[ob := ?x]\<rparr>)"
      using assms(3) y(2) by (simp add: header_done_def t on_obj_def sess_read_body_def)
    moreover have "server_inv (s\<lparr>objs := (objs s)[ob := ?x]\<rparr>)"
      by (rule inv_obj [OF assms(1,3)]) (use False y sh(1) in \<open>simp_all add: not_less\<close>)
    ultimately show ?thesis by (rule keepsI) simp
  qed
qed

lemma body_done_ok:
  assumes "server_inv s" "length (objs s) < 2 ^ 64" "ob < length (objs s)"
    "reading (objs s ! ob) = ReadBody n" "taken (objs s ! ob) + unat n \<le> length (arrived (objs s ! ob))"
  shows "keeps s (body_done n ob s)"
proof -
  obtain b y where t: "take_bytes (unat n) (objs s ! ob) = (b, y)" by (rule prod.exhaust)
  have y: "sess_id y = sess_id (objs s ! ob)" "sock_open y = sock_open (objs s ! ob)" using t by (auto simp: take_bytes_def)
  let ?t = "(post_message (sess_id (objs s ! ob)) 0 b s)\<lparr>objs := (objs s)[ob := y\<lparr>reading := (if sock_open (objs s ! ob) then ReadHeader else ReadOnClosed)\<rparr>]\<rparr>"
  show ?thesis
  proof (rule keepsI)
    show "body_done n ob s = Some ?t"
      using assms(3) y by (simp add: body_done_def t on_message_def on_obj_def sess_read_header_def post_message_def)
    show "server_inv ?t"
      by (rule inv_post [OF assms(1,3,2)]) (use y sess_ok_body [OF inv_sess [OF assms(1,3)] assms(4,5) t] in simp_all)
    show "length (objs ?t) = length (objs s)" by simp
  qed
qed

lemma read_failed_ok:
  assumes "server_inv s" "length (objs s) < 2 ^ 64" "ob < length (objs s)"
  shows "keeps s (read_failed ob s)"
  using keeps_close [OF assms, of "(objs s ! ob)\<lparr>reading := NoRead\<rparr>"] sess_ok_fail [OF inv_sess [OF assms(1,3)]]
  by (simp add: read_failed_def handle_error_def on_obj_def)

lemma read_done_ok:
  assumes "server_inv s" "length (objs s) < 2 ^ 64" "ob < length (objs s)"
  shows "read_done le ob s = Disabled \<or> (\<exists>r. read_done le ob s = of_opt r \<and> keeps s r)"
  using header_done_ok [OF assms] body_done_ok [OF assms]
  by (cases "reading (objs s ! ob)") (auto simp: read_done_def Let_def)

text \<open>Shutdown: the first session that \<open>close_all\<close> closes locks the mutex again.\<close>

lemma stop_server_simp:
  assumes "\<not> mgr_locked s"
  shows "stop_server s = (if sessions s = [] then Some ((stop_logic (s\<lparr>acceptor_open := False\<rparr>))\<lparr>io_stopped := True\<rparr>) else None)"
proof (cases "sessions s")
  case Nil
  with assms show ?thesis
    by (simp add: stop_server_def close_all_def lock_mgr_def unlock_mgr_def stop_logic_def)
next
  case (Cons p ps)
  then show ?thesis using assms
    by (cases p) (simp add: stop_server_def close_all_def lock_mgr_def close_session_def remove_session_def on_obj_def)
qed

lemma stop_ok:
  assumes "server_inv s" "sessions s = []"
  shows "keeps s (stop_server s)"
proof (rule keepsI)
  let ?p = "if logic s = LWaiting then LEnter else logic s"
  let ?t = "(stop_logic (s\<lparr>acceptor_open := False\<rparr>))\<lparr>io_stopped := True\<rparr>"
  show "stop_server s = Some ?t"
    using stop_server_simp [OF inv_unlocked [OF assms(1)]] assms(2) by simp
  have "server_inv (s\<lparr>logic := ?p\<rparr>)"
    by (rule inv_logic [OF assms(1)]) (use server_invD(4) [OF assms(1)] in \<open>auto simp: in_flight_def flight_ok_def split: if_splits\<close>)
  moreover have "server_inv ?t \<longleftrightarrow> server_inv (s\<lparr>logic := ?p\<rparr>)"
    by (simp add: server_inv_def quiet_def ids_ok_def registered_ok_def flight_ok_def sessions_ok_def unanswered_def in_flight_def stop_logic_def)
  ultimately show "server_inv ?t" by simp
  show "length (objs ?t) = length (objs s)" by (simp add: stop_logic_def)
qed

lemma inv_drop:
  assumes "server_inv s" "in_flight s = m # queue s"
    "\<And>ob. ob < length (objs s) \<Longrightarrow> sock_open (objs s ! ob) \<Longrightarrow> sess_id (objs s ! ob) \<noteq> session_id m"
  shows "server_inv (s\<lparr>logic := LTest\<rparr>)"
proof -
  have "server_inv (s\<lparr>queue := queue s, logic := LTest\<rparr>)"
  proof (rule inv_flight [OF assms(1)])
    fix ob assume "ob < length (objs s)" "sock_open (objs s ! ob)"
    from assms(3) [OF this]
    show "unanswered (s\<lparr>queue := queue s, logic := LTest\<rparr>) (sess_id (objs s ! ob)) = unanswered s (sess_id (objs s ! ob))"
      by (auto simp: unanswered_def assms(2))
  qed (auto simp: assms(2))
  then show ?thesis by simp
qed

lemma inv_answer:
  assumes "server_inv s" "length (objs s) < 2 ^ 64" "logic s = LSend m ob" "sock_open (objs s ! ob)"
    "x = (objs s ! ob)\<lparr>sent_bytes := sent_bytes (objs s ! ob) @ frame_bytes (msg_body m)\<rparr>"
  shows "server_inv (s\<lparr>objs := (objs s)[ob := x], logic := LTest\<rparr>)"
proof -
  let ?t = "s\<lparr>objs := (objs s)[ob := x], logic := LTest\<rparr>"
  note i = server_invD [OF assms(1)]
  from i(4) assms(3) have ob: "ob < length (objs s)" "sess_id (objs s ! ob) = session_id m" by (simp_all add: flight_ok_def)
  have x: "sess_id x = session_id m" "sock_open x" using ob(2) assms(4,5) by simp_all
  have f: "in_flight s = m # queue s" "in_flight ?t = queue s" using assms(3) by simp_all
  have "quiet ?t" using i(1) by (simp add: quiet_def)
  moreover have "ids_ok ?t" using i(2) ob x(1) by (simp add: ids_ok_def nth_list_update del: of_nat_Suc)
  moreover have "registered_ok ?t" using i(3) ob x assms(4) unfolding registered_ok_def by (simp add: nth_list_update)
  moreover have "flight_ok ?t"
    using i(4) f ob x(1) unfolding flight_ok_def by (simp add: issued_update)
  moreover have "sessions_ok ?t"
    unfolding sessions_ok_def
  proof (intro allI impI)
    fix j assume "j < length (objs ?t)"
    then have j: "j < length (objs s)" by simp
    have u: "unanswered s k = (if k = session_id m then msg_body m # unanswered ?t k else unanswered ?t k)" for k
      unfolding unanswered_def f by auto
    show "sess_ok (unanswered ?t (sess_id (objs ?t ! j))) (objs ?t ! j)"
    proof (cases "j = ob")
      case True
      with inv_sess [OF assms(1) j] ob x show ?thesis
        using sess_ok_send [OF _ assms(4), of "msg_body m" "unanswered ?t (session_id m)"] by (simp add: u assms(5))
    next
      case False
      with ids_distinct [OF i(2) assms(2) j ob(1)] ob(2) have "sess_id (objs s ! j) \<noteq> session_id m" by auto
      with inv_sess [OF assms(1) j] u [of "sess_id (objs s ! j)"] False show ?thesis by simp
    qed
  qed
  ultimately show ?thesis by (simp add: server_inv_def)
qed

lemma sess_send_frame:
  "sess_send le w data ob s =
     (if \<not> sock_open (objs s ! ob) then handle_error ob s
      else case w of
          None \<Rightarrow> Some (on_obj ob (\<lambda>x. x\<lparr>sent_bytes := sent_bytes x @ frame_bytes data\<rparr>) s)
        | Some k \<Rightarrow> handle_error ob (on_obj ob (\<lambda>x. x\<lparr>sent_bytes := sent_bytes x @ take k (frame_bytes data)\<rparr>) s))"
  by (simp only: sess_send_def Let_def wire_simps frame_bytes_def)

text \<open>The write of the logic thread, with the return to its loop.\<close>

definition send_step :: "bool \<Rightarrow> nat option \<Rightarrow> logic_message \<Rightarrow> nat \<Rightarrow> server \<Rightarrow> server option" where
  "send_step le w m ob s = map_option (\<lambda>s. s\<lparr>logic := LTest\<rparr>) (sess_send le w (msg_body m) ob s)"

lemma send_closes:
  assumes "server_inv s" "length (objs s) < 2 ^ 64" "logic s = LSend m ob" "sess_id x = sess_id (objs s ! ob)"
    "sess_ok [] (x\<lparr>sock_open := False\<rparr>)"
  shows "keeps s (map_option (\<lambda>s. s\<lparr>logic := LTest\<rparr>) (close_session ob (s\<lparr>objs := (objs s)[ob := x]\<rparr>)))"
proof -
  from server_invD(4) [OF assms(1)] assms(3) have ob: "ob < length (objs s)" "sess_id (objs s ! ob) = session_id m"
    by (simp_all add: flight_ok_def)
  let ?t = "s\<lparr>objs := (objs s)[ob := x\<lparr>sock_open := False\<rparr>], sessions := AList.delete (sess_id (objs s ! ob)) (sessions s)\<rparr>"
  have c: "close_session ob (s\<lparr>objs := (objs s)[ob := x]\<rparr>) = Some ?t"
    using inv_unlocked [OF assms(1)] ob(1) assms(4) by (simp add: close_session_simp)
  have t: "server_inv ?t" by (rule inv_close [OF assms(1,2) ob(1)]) (use assms(4,5) in simp_all)
  have "server_inv (?t\<lparr>logic := LTest\<rparr>)"
  proof (rule inv_drop [OF t])
    show "in_flight ?t = m # queue ?t" using assms(3) by simp
    fix j assume j: "j < length (objs ?t)" "sock_open (objs ?t ! j)"
    then have "j \<noteq> ob" "j < length (objs s)" using ob(1) by auto
    with ids_distinct [OF server_invD(2) [OF assms(1)] assms(2) _ ob(1)] ob(2)
    show "sess_id (objs ?t ! j) \<noteq> session_id m" by auto
  qed
  then show ?thesis unfolding c by (auto simp: keeps_def)
qed

lemma send_step_ok:
  assumes "server_inv s" "length (objs s) < 2 ^ 64" "logic s = LSend m ob"
  shows "keeps s (send_step le w m ob s)"
proof -
  let ?x = "objs s ! ob"
  from server_invD(4) [OF assms(1)] assms(3) have ob: "ob < length (objs s)" "sess_id ?x = session_id m"
    by (simp_all add: flight_ok_def)
  note so = inv_sess [OF assms(1) ob(1)]
  have w: "unanswered s (sess_id ?x) = msg_body m # map msg_body (filter (\<lambda>m'. session_id m' = session_id m) (queue s))"
    using assms(3) ob(2) by (simp add: unanswered_def)
  consider "\<not> sock_open ?x" | k where "sock_open ?x" "w = Some k" | "sock_open ?x" "w = None" by (cases w) auto
  then show ?thesis
  proof cases
    case 1
    then have "send_step le w m ob s = map_option (\<lambda>s. s\<lparr>logic := LTest\<rparr>) (close_session ob (s\<lparr>objs := (objs s)[ob := ?x]\<rparr>))"
      by (simp add: send_step_def sess_send_frame handle_error_def)
    with send_closes [OF assms refl sess_ok_close [OF so]] show ?thesis by simp
  next
    case 2
    let ?y = "?x\<lparr>sent_bytes := sent_bytes ?x @ take k (frame_bytes (msg_body m))\<rparr>"
    have "sess_ok [] (?y\<lparr>sock_open := False\<rparr>)"
      using sess_ok_send_fails [OF so [unfolded w] 2(1), of "[]" k] by simp
    with send_closes [OF assms, of ?y] 2 show ?thesis
      by (simp add: send_step_def sess_send_frame handle_error_def on_obj_def)
  next
    case 3
    then have "send_step le w m ob s =
        Some (s\<lparr>objs := (objs s)[ob := ?x\<lparr>sent_bytes := sent_bytes ?x @ frame_bytes (msg_body m)\<rparr>], logic := LTest\<rparr>)"
      by (simp add: send_step_def sess_send_frame on_obj_def)
    then show ?thesis by (rule keepsI [OF _ inv_answer [OF assms 3(1) refl]]) simp
  qed
qed

lemma dispatch_ok:
  assumes "server_inv s" "logic s = LPopped m"
  shows "keeps s (dispatch hash m s)"
proof -
  note i = server_invD [OF assms(1)]
  have "msg_type m = 0" using i(4) assms(2) by (simp add: flight_ok_def)
  then have "map_of (handlers s) (msg_type m) = None" using i(1) by (simp add: quiet_def MSG_LOGIN_def MSG_CHAT_def)
  then have d: "dispatch hash m s = Some (s\<lparr>logic := (case map_of (sessions s) (session_id m) of Some ob \<Rightarrow> LSend m ob | None \<Rightarrow> LTest)\<rparr>)"
    using i(1) by (simp add: dispatch_def reply_to_def mgr_simps quiet_def)
  have r: "map_of (sessions s) (session_id m) = Some ob \<longleftrightarrow> ob < length (objs s) \<and> sock_open (objs s ! ob) \<and> sess_id (objs s ! ob) = session_id m" for ob
    using i(3) by (simp add: registered_ok_def)
  show ?thesis
  proof (cases "map_of (sessions s) (session_id m)")
    case None
    have "server_inv (s\<lparr>logic := LTest\<rparr>)"
      by (rule inv_drop [OF assms(1), of m]) (use assms(2) r None in auto)
    with d None show ?thesis by (simp add: keeps_def)
  next
    case (Some ob)
    have "server_inv (s\<lparr>logic := LSend m ob\<rparr>)"
      by (rule inv_logic [OF assms(1)]) (use assms(2) r [of ob] Some in auto)
    with d Some show ?thesis by (simp add: keeps_def)
  qed
qed

lemma logic_step_ok:
  assumes "server_inv s" "length (objs s) < 2 ^ 64"
  shows "logic_step le hash w s = Disabled \<or> (\<exists>r. logic_step le hash w s = of_opt r \<and> keeps s r)"
proof -
  have k: "server_inv t \<Longrightarrow> length (objs t) = length (objs s) \<Longrightarrow> \<exists>r. To t = of_opt r \<and> keeps s r" for t
    by (rule exI [of _ "Some t"]) (simp add: keeps_def)
  have m: "server_inv (s\<lparr>logic := p\<rparr>)"
    if "logic s \<in> {LTest, LEnter, LBlocking, LWaiting, LExited}" "p \<in> {LTest, LEnter, LBlocking, LWaiting, LExited}" for p
    by (rule inv_logic [OF assms(1)]) (use that in auto)
  show ?thesis
  proof (cases "logic s")
    case LEnter
    show ?thesis
    proof (cases "\<not> stopping s \<and> queue s \<noteq> []")
      case True
      then obtain a q where q: "queue s = a # q" by (cases "queue s") auto
      have "server_inv (s\<lparr>queue := q, logic := LPopped a\<rparr>)"
        by (rule inv_flight [OF assms(1)]) (use LEnter q in \<open>auto simp: unanswered_def\<close>)
      from k [OF this] LEnter True q show ?thesis by (simp add: logic_step_def)
    next
      case False
      with LEnter k [OF m] show ?thesis by (auto simp: logic_step_def)
    qed
  next
    case (LPopped m)
    with dispatch_ok [OF assms(1) LPopped] show ?thesis by (auto simp: logic_step_def)
  next
    case (LSend m ob)
    with send_step_ok [OF assms LSend] show ?thesis by (auto simp: logic_step_def send_step_def)
  qed (use k [OF m] in \<open>auto simp: logic_step_def\<close>)
qed

section \<open>Runs\<close>

lemma event_ok:
  assumes "server_inv s" "length (objs s) < 2 ^ 64" "e \<noteq> Connect"
  shows "do_event le hash e s = Disabled \<or> (\<exists>r. do_event le hash e s = of_opt r \<and> keeps s r) \<or>
    e = Signal \<and> \<not> io_stopped s \<and> sessions s \<noteq> [] \<and> do_event le hash e s = Undefined"
proof -
  have k: "\<exists>r. To (s\<lparr>objs := (objs s)[ob := x]\<rparr>) = of_opt r \<and> keeps s r"
    if "ob < length (objs s)" "sess_id x = sess_id (objs s ! ob)" "sock_open x = sock_open (objs s ! ob)"
      "sess_ok (unanswered s (sess_id (objs s ! ob))) x" for ob x
    using inv_obj [OF assms(1) that(1-3)] that(2,4)
    by (intro exI [of _ "Some (s\<lparr>objs := (objs s)[ob := x]\<rparr>)"]) (simp add: keeps_def)
  show ?thesis
  proof (cases e)
    case (Bytes ob bs)
    have "\<exists>r. To (on_obj ob (\<lambda>x. x\<lparr>arrived := arrived x @ bs\<rparr>) s) = of_opt r \<and> keeps s r" if "ob < length (objs s)"
      unfolding on_obj_def by (rule k [OF that]) (simp_all add: sess_ok_arrive [OF inv_sess [OF assms(1) that]])
    with Bytes show ?thesis by auto
  next
    case (PeerClose ob)
    have "\<exists>r. To (on_obj ob (\<lambda>x. x\<lparr>peer_closed := True\<rparr>) s) = of_opt r \<and> keeps s r" if "ob < length (objs s)"
      unfolding on_obj_def by (rule k [OF that]) (simp_all add: sess_ok_peer inv_sess [OF assms(1) that])
    with PeerClose show ?thesis by auto
  next
    case (ReadDone ob)
    with read_done_ok [OF assms(1,2), of ob le] show ?thesis by auto
  next
    case (ReadFails ob)
    with read_failed_ok [OF assms(1,2), of ob] show ?thesis by auto
  next
    case (Logic w)
    with logic_step_ok [OF assms(1,2), of le hash w] show ?thesis by auto
  next
    case Spurious
    have "server_inv (s\<lparr>logic := LEnter\<rparr>)" if "logic s = LWaiting"
      by (rule inv_logic [OF assms(1)]) (use that in auto)
    with Spurious have "\<exists>r. To (s\<lparr>logic := LEnter\<rparr>) = of_opt r \<and> keeps s r" if "logic s = LWaiting"
      using that by (intro exI [of _ "Some (s\<lparr>logic := LEnter\<rparr>)"]) (simp add: keeps_def)
    with Spurious show ?thesis by auto
  next
    case Signal
    show ?thesis
    proof (cases "sessions s = []")
      case True
      have "\<exists>r. of_opt (stop_server s) = of_opt r \<and> keeps s r"
        by (rule exI [of _ "stop_server s"]) (simp add: stop_ok [OF assms(1) True])
      with Signal show ?thesis by simp
    next
      case False
      with Signal stop_server_simp [OF inv_unlocked [OF assms(1)]] show ?thesis by simp
    qed
  qed (use assms(3) in simp)
qed

text \<open>What no handler touches.\<close>

lemma close_frame:
  "close_session ob s = Some s' \<Longrightarrow> logic s' = logic s \<and> queue s' = queue s \<and> stopping s' = stopping s \<and> length (objs s') = length (objs s)"
  by (auto simp: close_session_def remove_session_def lock_mgr_def unlock_mgr_def on_obj_def split: if_splits)

lemma send_frame_rule:
  "sess_send le w data ob s = Some s' \<Longrightarrow>
   logic s' = logic s \<and> queue s' = queue s \<and> stopping s' = stopping s \<and> length (objs s') = length (objs s)"
  by (auto simp: sess_send_frame handle_error_def on_obj_def split: if_splits option.splits dest!: close_frame)

lemma reply_frame:
  "reply_to m s = Some s' \<Longrightarrow> queue s' = queue s \<and> stopping s' = stopping s \<and> length (objs s') = length (objs s) \<and>
   (logic s' = LTest \<or> (\<exists>ob. logic s' = LSend m ob))"
  by (auto simp: reply_to_def get_session_def lock_mgr_def unlock_mgr_def split: if_splits option.splits)

lemma close_each_frame:
  "close_each ps s = Some s' \<Longrightarrow> logic s' = logic s \<and> queue s' = queue s \<and> stopping s' = stopping s \<and> length (objs s') = length (objs s)"
proof (induction ps arbitrary: s)
  case (Cons p ps)
  obtain i ob where p: "p = (i, ob)" by (rule prod.exhaust)
  from Cons.prems obtain t where t: "close_session ob s = Some t" "close_each ps t = Some s'"
    unfolding p by (auto elim: bind_eq_SomeE)
  from close_frame [OF t(1)] Cons.IH [OF t(2)] show ?case by simp
qed simp

text \<open>The logic thread goes to sleep, and returns, only as it should.\<close>

definition awake :: "server \<Rightarrow> bool" where
  "awake s \<longleftrightarrow> (logic s \<in> {LBlocking, LWaiting} \<longrightarrow> queue s = []) \<and> (logic s = LExited \<longrightarrow> stopping s)"

lemma read_done_awake:
  assumes "read_done le ob s = To s'" "awake s"
  shows "awake s' \<and> length (objs s) \<le> length (objs s')"
  using assms
  by (auto simp: read_done_def header_done_def body_done_def take_bytes_def on_message_def sess_read_header_def
      sess_read_body_def post_message_def on_obj_def awake_def Let_def
      split: if_splits reading.splits elim!: of_opt.elims dest!: close_frame)

lemma logic_step_awake:
  assumes "logic_step le hash w s = To s'" "awake s"
  shows "awake s' \<and> length (objs s) \<le> length (objs s')"
proof (cases "logic s")
  case (LPopped m)
  with assms(1) obtain t where t: "dispatch hash m s = Some t" "s' = t"
    by (auto simp: logic_step_def elim!: of_opt.elims)
  then have "length (objs t) = length (objs s) \<and> (logic t = LTest \<or> (\<exists>ob. logic t = LSend m ob))"
    by (auto simp: dispatch_def handle_chat_def handle_login_def Let_def split: option.splits msg_handler.splits dest!: reply_frame)
  with t(2) show ?thesis by (auto simp: awake_def)
next
  case (LSend m ob)
  with assms(1) obtain t where "sess_send le w (msg_body m) ob s = Some t" "s' = t\<lparr>logic := LTest\<rparr>"
    by (auto simp: logic_step_def elim!: of_opt.elims)
  then show ?thesis by (auto simp: awake_def dest!: send_frame_rule)
qed (use assms in \<open>auto simp: logic_step_def awake_def split: list.splits if_splits\<close>)

lemma stop_awake:
  assumes "stop_server s = Some s'" "awake s"
  shows "awake s' \<and> length (objs s) \<le> length (objs s')"
proof -
  from assms(1) obtain t where "close_each (sessions s) (s\<lparr>acceptor_open := False, mgr_locked := True\<rparr>) = Some t"
    "s' = (stop_logic (unlock_mgr (t\<lparr>sessions := []\<rparr>)))\<lparr>io_stopped := True\<rparr>"
    by (auto simp: stop_server_def close_all_def lock_mgr_def elim!: bind_eq_SomeE split: if_splits)
  with assms(2) show ?thesis
    by (auto simp: awake_def stop_logic_def unlock_mgr_def dest!: close_each_frame split: if_splits)
qed

lemma event_awake:
  assumes "do_event le hash e s = To s'" "awake s"
  shows "awake s' \<and> length (objs s) \<le> length (objs s')"
proof (cases e)
  case Connect
  with assms show ?thesis
    by (auto simp: accepted_def sess_start_def add_session_def lock_mgr_def unlock_mgr_def sess_read_header_def on_obj_def awake_def
        split: if_splits)
next
  case (ReadDone ob)
  with assms(1) read_done_awake [OF _ assms(2)] show ?thesis by (auto split: if_splits)
next
  case (ReadFails ob)
  with assms show ?thesis
    by (auto simp: read_failed_def handle_error_def on_obj_def awake_def split: if_splits elim!: of_opt.elims dest!: close_frame)
next
  case (Logic w)
  with assms(1) logic_step_awake [OF _ assms(2)] show ?thesis by auto
next
  case Signal
  with assms(1) obtain t where "stop_server s = Some t" "s' = t" by (auto split: if_splits elim!: of_opt.elims)
  with stop_awake [OF _ assms(2)] show ?thesis by blast
qed (use assms in \<open>auto simp: on_obj_def awake_def split: if_splits\<close>)

lemma run_mono: "run_events le hash es s = To s' \<Longrightarrow> awake s \<Longrightarrow> awake s' \<and> length (objs s) \<le> length (objs s')"
proof (induction es arbitrary: s)
  case (Cons e es)
  from Cons.prems(1) obtain t where t: "do_event le hash e s = To t" "run_events le hash es t = To s'"
    by (auto split: ev_result.splits)
  from event_awake [OF t(1) Cons.prems(2)] Cons.IH [OF t(2)] show ?case by auto
qed simp

lemma server_event_inv:
  assumes "do_event le hash e s = To s'" "server_inv s" "length (objs s) \<le> length (objs s')" "length (objs s') < 2 ^ 64"
  shows "server_inv s'"
proof (cases "e = Connect")
  case True
  with assms(1) obtain t where t: "accepted s = Some t" "t = s'" by (auto split: if_splits elim!: of_opt.elims)
  have "length (objs t) = Suc (length (objs s))"
    using t(1) inv_unlocked [OF assms(2)]
    by (auto simp: accepted_def sess_start_def mgr_simps sess_read_header_def on_obj_def)
  with accepted_ok [OF assms(2)] t assms(4) show ?thesis by auto
next
  case False
  have "length (objs s) < 2 ^ 64" using assms(3,4) by linarith
  from event_ok [OF assms(2) this False, of le hash] assms(1) show ?thesis
    by (auto simp: keeps_def)
qed

lemma run_inv:
  "run_events le hash es s = To s' \<Longrightarrow> server_inv s \<Longrightarrow> awake s \<Longrightarrow> length (objs s') < 2 ^ 64 \<Longrightarrow> server_inv s'"
proof (induction es arbitrary: s)
  case (Cons e es)
  from Cons.prems(1) obtain t where t: "do_event le hash e s = To t" "run_events le hash es t = To s'"
    by (auto split: ev_result.splits)
  note a = event_awake [OF t(1) Cons.prems(3)]
  note b = run_mono [OF t(2) conjunct1 [OF a]]
  have "length (objs t) < 2 ^ 64" using b Cons.prems(4) by linarith
  from server_event_inv [OF t(1) Cons.prems(2) conjunct2 [OF a] this] Cons.IH [OF t(2)] a Cons.prems(4) show ?case by blast
qed simp

lemma awake_new: "awake server_new"
  by (simp add: awake_def server_new_def register_handler_def)

lemma reached_inv:
  assumes "run_events le hash es server_new = To s" "length (objs s) < 2 ^ 64"
  shows "server_inv s" "awake s"
  using run_inv [OF assms(1) server_new_inv awake_new assms(2)] run_mono [OF assms(1) awake_new] by simp_all

section \<open>The logic thread alone\<close>

lemma run_append:
  "run_events le hash (xs @ ys) s = (case run_events le hash xs s of To t \<Rightarrow> run_events le hash ys t | r \<Rightarrow> r)"
  by (induction xs arbitrary: s) (auto split: ev_result.splits)

definition same_input :: "server \<Rightarrow> server \<Rightarrow> bool" where
  "same_input s t \<longleftrightarrow> length (objs t) = length (objs s) \<and>
     (\<forall>ob < length (objs s). objs t ! ob = (objs s ! ob)\<lparr>sent_bytes := sent_bytes (objs t ! ob)\<rparr>)"

lemma same_input_trans: "same_input s t \<Longrightarrow> same_input t u \<Longrightarrow> same_input s u"
  unfolding same_input_def
proof (elim conjE, intro conjI allI impI)
  fix ob
  assume a: "length (objs t) = length (objs s)" "\<forall>ob < length (objs s). objs t ! ob = (objs s ! ob)\<lparr>sent_bytes := sent_bytes (objs t ! ob)\<rparr>"
    "\<forall>ob < length (objs t). objs u ! ob = (objs t ! ob)\<lparr>sent_bytes := sent_bytes (objs u ! ob)\<rparr>" "ob < length (objs s)"
  from a(1,3,4) have "objs u ! ob = (objs t ! ob)\<lparr>sent_bytes := sent_bytes (objs u ! ob)\<rparr>" by simp
  also have "\<dots> = ((objs s ! ob)\<lparr>sent_bytes := sent_bytes (objs t ! ob)\<rparr>)\<lparr>sent_bytes := sent_bytes (objs u ! ob)\<rparr>"
    using a(2,4) by simp
  finally show "objs u ! ob = (objs s ! ob)\<lparr>sent_bytes := sent_bytes (objs u ! ob)\<rparr>" by simp
qed simp

text \<open>At most \<open>k\<close> steps of the logic thread, whose writes succeed.\<close>

definition reaches :: "bool \<Rightarrow> (byte list \<Rightarrow> u64) \<Rightarrow> nat \<Rightarrow> server \<Rightarrow> server \<Rightarrow> bool" where
  "reaches le hash k s t \<longleftrightarrow> (\<exists>n \<le> k. run_events le hash (replicate n (Logic None)) s = To t) \<and> server_inv t \<and>
     same_input s t \<and> stopping t = stopping s"

lemma reaches_refl: "server_inv s \<Longrightarrow> reaches le hash k s s"
  unfolding reaches_def same_input_def by (intro conjI exI [of _ 0]) simp_all

lemma reaches_trans:
  assumes "reaches le hash a s t" "reaches le hash b t u"
  shows "reaches le hash (a + b) s u"
proof -
  from assms obtain n m where nm: "n \<le> a" "run_events le hash (replicate n (Logic None)) s = To t"
    "m \<le> b" "run_events le hash (replicate m (Logic None)) t = To u" unfolding reaches_def by blast
  have "run_events le hash (replicate (n + m) (Logic None)) s = To u"
    using nm(2,4) by (simp add: replicate_add run_append)
  with nm(1,3) assms same_input_trans show ?thesis unfolding reaches_def
    by (intro conjI exI [of _ "n + m"]) auto
qed

lemma reaches_mono: "reaches le hash a s t \<Longrightarrow> a \<le> b \<Longrightarrow> reaches le hash b s t"
  unfolding reaches_def by (meson le_trans)

lemma reaches_step:
  assumes "logic_step le hash None s = To t" "server_inv t" "same_input s t" "stopping t = stopping s"
  shows "reaches le hash 1 s t"
  unfolding reaches_def using assms by (intro conjI exI [of _ 1]) simp_all

lemma step_inv:
  assumes "server_inv s" "length (objs s) < 2 ^ 64" "logic_step le hash None s = To t" "objs t = objs s" "stopping t = stopping s"
  shows "reaches le hash 1 s t"
proof (rule reaches_step [OF assms(3)])
  from logic_step_ok [OF assms(1,2), of le hash None] assms(3) show "server_inv t"
    by (auto simp: keeps_def)
qed (use assms(4,5) in \<open>simp_all add: same_input_def\<close>)

lemma send_reaches:
  assumes "server_inv s" "length (objs s) < 2 ^ 64" "logic s = LSend m ob"
  shows "\<exists>t. reaches le hash 1 s t \<and> logic t = LTest \<and> queue t = queue s"
proof -
  let ?x = "objs s ! ob"
  from server_invD(4) [OF assms(1)] assms(3) have ob: "ob < length (objs s)" by (simp add: flight_ok_def)
  define x where "x = (if sock_open ?x then ?x\<lparr>sent_bytes := sent_bytes ?x @ frame_bytes (msg_body m)\<rparr> else ?x)"
  have c: "\<not> sock_open ?x \<Longrightarrow> ?x\<lparr>sock_open := False\<rparr> = ?x" by (cases ?x) simp
  have "\<exists>t. logic_step le hash None s = To t \<and> logic t = LTest \<and> queue t = queue s \<and> stopping t = stopping s \<and> objs t = (objs s)[ob := x]"
    using inv_unlocked [OF assms(1)] assms(3)
    by (auto simp: logic_step_def sess_send_frame handle_error_def close_session_simp on_obj_def x_def c)
  then obtain t where t: "logic_step le hash None s = To t" "logic t = LTest" "queue t = queue s" "stopping t = stopping s"
    "objs t = (objs s)[ob := x]" by blast
  have "server_inv t" using logic_step_ok [OF assms(1,2), of le hash None] t(1) by (auto simp: keeps_def)
  moreover have "same_input s t" using ob by (auto simp: same_input_def t(5) nth_list_update x_def)
  ultimately have "reaches le hash 1 s t" by (rule reaches_step [OF t(1) _ _ t(4)])
  with t(2,3) show ?thesis by blast
qed

lemma popped_reaches:
  assumes "server_inv s" "length (objs s) < 2 ^ 64" "logic s = LPopped m"
  shows "\<exists>t. reaches le hash 2 s t \<and> logic t = LTest \<and> queue t = queue s"
proof -
  have "msg_type m = 0" using server_invD(4) [OF assms(1)] assms(3) by (simp add: flight_ok_def)
  then have "map_of (handlers s) (msg_type m) = None"
    using server_invD(1) [OF assms(1)] by (simp add: quiet_def MSG_LOGIN_def MSG_CHAT_def)
  then have st: "logic_step le hash None s =
      To (s\<lparr>logic := (case map_of (sessions s) (session_id m) of Some ob \<Rightarrow> LSend m ob | None \<Rightarrow> LTest)\<rparr>)"
    using inv_unlocked [OF assms(1)] assms(3) by (simp add: logic_step_def dispatch_def reply_to_def mgr_simps)
  let ?t = "s\<lparr>logic := (case map_of (sessions s) (session_id m) of Some ob \<Rightarrow> LSend m ob | None \<Rightarrow> LTest)\<rparr>"
  have r: "reaches le hash 1 s ?t" by (rule step_inv [OF assms(1,2) st]) simp_all
  show ?thesis
  proof (cases "map_of (sessions s) (session_id m)")
    case None
    with reaches_mono [OF r, of 2] show ?thesis by (intro exI [of _ ?t]) simp
  next
    case (Some ob)
    have "server_inv ?t" using r by (simp add: reaches_def)
    from send_reaches [OF this, of m ob le hash] assms(2) Some obtain u where
      u: "reaches le hash 1 ?t u" "logic u = LTest" "queue u = queue s" by auto
    from reaches_trans [OF r u(1)] u(2,3) show ?thesis by (intro exI [of _ u]) (simp add: numeral_2_eq_2)
  qed
qed

lemma enter_reaches:
  assumes "server_inv s" "length (objs s) < 2 ^ 64" "\<not> stopping s" "logic s \<in> {LTest, LEnter}"
  shows "\<exists>t. reaches le hash 1 s t \<and> logic t = LEnter \<and> queue t = queue s \<and> objs t = objs s"
proof (cases "logic s = LTest")
  case True
  then have "logic_step le hash None s = To (s\<lparr>logic := LEnter\<rparr>)" using assms(3) by (simp add: logic_step_def)
  from step_inv [OF assms(1,2) this] show ?thesis by (intro exI [of _ "s\<lparr>logic := LEnter\<rparr>"]) simp
next
  case False
  with assms(4) reaches_refl [OF assms(1)] show ?thesis by (intro exI [of _ s]) simp
qed

lemma drain:
  assumes "server_inv s" "length (objs s) < 2 ^ 64" "\<not> stopping s" "logic s \<in> {LTest, LEnter}"
  shows "\<exists>t. reaches le hash (4 * length (queue s) + 3) s t \<and> logic t = LWaiting \<and> queue t = []"
  using assms
proof (induction "queue s" arbitrary: s)
  case Nil
  from enter_reaches [OF Nil.prems, of le hash] Nil.hyps obtain t where
    t: "reaches le hash 1 s t" "logic t = LEnter" "queue t = []" "objs t = objs s" by auto
  from t(1) have ti: "server_inv t" "\<not> stopping t" using Nil.prems(3) by (simp_all add: reaches_def)
  let ?u = "t\<lparr>logic := LBlocking\<rparr>" and ?v = "t\<lparr>logic := LWaiting\<rparr>"
  have u: "reaches le hash 1 t ?u"
    by (rule step_inv [OF ti(1)]) (use t Nil.prems(2) ti(2) in \<open>simp_all add: logic_step_def\<close>)
  then have "server_inv ?u" by (simp add: reaches_def)
  then have v: "reaches le hash 1 ?u ?v"
    by (rule step_inv) (use t Nil.prems(2) in \<open>simp_all add: logic_step_def\<close>)
  from reaches_trans [OF t(1) reaches_trans [OF u v]] t(3) Nil.hyps [symmetric] show ?case
    by (intro exI [of _ ?v]) (simp add: numeral_3_eq_3)
next
  case (Cons m q)
  from enter_reaches [OF Cons.prems, of le hash] Cons.hyps(2) obtain t where
    t: "reaches le hash 1 s t" "logic t = LEnter" "queue t = m # q" "objs t = objs s" by auto
  from t(1) have ti: "server_inv t" "\<not> stopping t" using Cons.prems(3) by (simp_all add: reaches_def)
  let ?u = "t\<lparr>queue := q, logic := LPopped m\<rparr>"
  have u: "reaches le hash 1 t ?u"
    by (rule step_inv [OF ti(1)]) (use t Cons.prems(2) ti(2) in \<open>simp_all add: logic_step_def\<close>)
  then have "server_inv ?u" by (simp add: reaches_def)
  from popped_reaches [OF this, of m le hash] t(4) Cons.prems(2) obtain v where
    v: "reaches le hash 2 ?u v" "logic v = LTest" "queue v = q" by auto
  note sv = reaches_trans [OF t(1) reaches_trans [OF u v(1)]]
  then have vi: "server_inv v" "length (objs v) < 2 ^ 64" "\<not> stopping v"
    using Cons.prems(2,3) by (simp_all add: reaches_def same_input_def)
  from Cons.hyps(1) [OF v(3) [symmetric] vi] v(2,3) obtain w where
    w: "reaches le hash (4 * length q + 3) v w" "logic w = LWaiting" "queue w = []" by auto
  from reaches_trans [OF sv w(1)] w(2,3) Cons.hyps(2) [symmetric] show ?case
    by (intro exI [of _ w]) (simp add: add.commute)
qed

lemma drain_all:
  assumes "server_inv s" "awake s" "length (objs s) < 2 ^ 64" "\<not> stopping s"
  shows "\<exists>t. reaches le hash (4 * length (queue s) + 5) s t \<and> logic t = LWaiting \<and> queue t = []"
proof -
  have later: "\<exists>t. reaches le hash (4 * length (queue s) + 5) s t \<and> logic t = LWaiting \<and> queue t = []"
    if u: "reaches le hash 2 s u" "logic u = LTest" "queue u = queue s" for u
  proof -
    have "server_inv u" "length (objs u) < 2 ^ 64" "\<not> stopping u"
      using u(1) assms(3,4) by (simp_all add: reaches_def same_input_def)
    from drain [OF this, of le hash] u(2,3) obtain t where
      t: "reaches le hash (4 * length (queue s) + 3) u t" "logic t = LWaiting" "queue t = []" by auto
    from reaches_mono [OF reaches_trans [OF u(1) t(1)]] t(2,3) show ?thesis by (intro exI [of _ t]) simp
  qed
  show ?thesis
  proof (cases "logic s")
    case (LPopped m)
    from popped_reaches [OF assms(1,3) this, of le hash] later show ?thesis by blast
  next
    case (LSend m ob)
    from send_reaches [OF assms(1,3) this, of le hash] later reaches_mono [of le hash 1 s _ 2] show ?thesis
      by (metis one_le_numeral)
  next
    case LBlocking
    with assms(2) have q: "queue s = []" by (simp add: awake_def)
    have "reaches le hash 1 s (s\<lparr>logic := LWaiting\<rparr>)"
      by (rule step_inv [OF assms(1,3)]) (simp_all add: logic_step_def LBlocking)
    from reaches_mono [OF this, of 5] q show ?thesis by (intro exI [of _ "s\<lparr>logic := LWaiting\<rparr>"]) simp
  next
    case LWaiting
    with assms(2) reaches_refl [OF assms(1)] show ?thesis by (intro exI [of _ s]) (simp add: awake_def)
  next
    case LExited
    with assms(2,4) show ?thesis by (simp add: awake_def)
  qed (use drain [OF assms(1,3,4), of le hash] reaches_mono [of le hash "4 * length (queue s) + 3" s _ "4 * length (queue s) + 5"] in auto)
qed

section \<open>Properties\<close>

abbreviation consumed :: "session \<Rightarrow> byte list" where
  "consumed x \<equiv> take (taken x) (arrived x)"

text \<open>A run with one client that has sent one message, which the logic thread is about to answer.\<close>

definition demo_events :: "event list" where
  "demo_events = [Connect, Logic None, Bytes 0 [0, 0, 0, 1, 65], ReadDone 0, ReadDone 0, Logic None]"

definition demo_server :: server where
  "demo_server = (case run_events True (\<lambda>_. 7) demo_events server_new of To s \<Rightarrow> s | _ \<Rightarrow> server_new)"

lemma demo_run:
  "run_events True (\<lambda>_. 7) demo_events server_new = To demo_server"
  "length (objs demo_server) = 1" "sock_open (objs demo_server ! 0)" "\<not> stopping demo_server" "\<not> io_stopped demo_server"
  "reading (objs demo_server ! 0) = ReadHeader" "queue demo_server = []" "consumed (objs demo_server ! 0) = frame_bytes [65]"
  "sent_bytes (objs demo_server ! 0) = []"
  by code_simp+

text \<open>C18: However the threads interleave and whatever the kernel does, the bytes that a session has read are messages of legal
  size followed by at most a header; while its connection is open, what has been written to it are
  the messages answered, in the order in which they came and each with its frame, and the others wait in the queue in
  order; what a closed session has written is a prefix of that.\<close>

theorem logic_echo_order:
  assumes "run_events le hash es server_new = To s" "length (objs s) < 2 ^ 64" "ob < length (objs s)"
  shows "\<exists>answered waiting hdr. list_all ok_body (answered @ waiting) \<and>
    consumed (objs s ! ob) = frames_of (answered @ waiting) @ hdr \<and> partial_header (reading (objs s ! ob)) hdr \<and>
    (if sock_open (objs s ! ob)
     then reads (objs s ! ob) \<and> sent_bytes (objs s ! ob) = frames_of answered \<and> waiting = unanswered s (sess_id (objs s ! ob))
     else prefix (sent_bytes (objs s ! ob)) (frames_of (answered @ waiting)))"
proof (rule sess_okE [OF inv_sess [OF reached_inv(1) [OF assms(1,2)] assms(3)]])
  fix dn td hdr
  assume "list_all ok_body (dn @ td)" "consumed (objs s ! ob) = frames_of (dn @ td) @ hdr" "partial_header (reading (objs s ! ob)) hdr"
    "sock_open (objs s ! ob) \<Longrightarrow> reads (objs s ! ob) \<and> td = unanswered s (sess_id (objs s ! ob)) \<and> sent_bytes (objs s ! ob) = frames_of dn"
    "prefix (sent_bytes (objs s ! ob)) (frames_of (dn @ td))"
  then show ?thesis by (intro exI [of _ dn] exI [of _ td] exI [of _ hdr]) simp
qed

theorem logic_echo_order_witness:
  "\<exists>answered waiting hdr. list_all ok_body (answered @ waiting) \<and> frame_bytes [65] = frames_of (answered @ waiting) @ hdr \<and> partial_header ReadHeader hdr \<and>
    [] = frames_of answered \<and> waiting = unanswered demo_server (sess_id (objs demo_server ! 0))"
  using logic_echo_order [OF demo_run(1), of 0] by (simp only: demo_run) simp

text \<open>C32: As long as the server has not been told to stop, the logic thread on its own answers every message that has been read from
  the open connections, in at most four steps for each, and then waits.\<close>

theorem logic_drains:
  assumes "run_events le hash es server_new = To s" "length (objs s) < 2 ^ 64" "\<not> stopping s"
  shows "\<exists>n t. n \<le> 4 * length (queue s) + 5 \<and> run_events le hash (replicate n (Logic None)) s = To t \<and>
    logic t = LWaiting \<and> queue t = [] \<and> length (objs t) = length (objs s) \<and>
    (\<forall>ob < length (objs s). sock_open (objs s ! ob) \<longrightarrow>
       (\<exists>ms hdr. consumed (objs s ! ob) = frames_of ms @ hdr \<and> partial_header (reading (objs s ! ob)) hdr \<and>
          sock_open (objs t ! ob) \<and> sent_bytes (objs t ! ob) = frames_of ms))"
proof -
  note i = reached_inv [OF assms(1,2)]
  from drain_all [OF i assms(2,3), of le hash] obtain t where
    t: "reaches le hash (4 * length (queue s) + 5) s t" "logic t = LWaiting" "queue t = []" by blast
  from t(1) obtain n where n: "n \<le> 4 * length (queue s) + 5" "run_events le hash (replicate n (Logic None)) s = To t"
    and ti: "server_inv t" "same_input s t" unfolding reaches_def by blast
  have "\<exists>ms hdr. consumed (objs s ! ob) = frames_of ms @ hdr \<and> partial_header (reading (objs s ! ob)) hdr \<and>
      sock_open (objs t ! ob) \<and> sent_bytes (objs t ! ob) = frames_of ms"
    if ob: "ob < length (objs s)" and op: "sock_open (objs s ! ob)" for ob
  proof -
    from ti(2) ob have o: "ob < length (objs t)" "objs t ! ob = (objs s ! ob)\<lparr>sent_bytes := sent_bytes (objs t ! ob)\<rparr>"
      by (simp_all add: same_input_def)
    have same: "sock_open (objs t ! ob)" "consumed (objs t ! ob) = consumed (objs s ! ob)" "reading (objs t ! ob) = reading (objs s ! ob)"
      using op by (subst o(2), simp)+
    have "unanswered t (sess_id (objs t ! ob)) = []" using t(2,3) by (simp add: unanswered_def)
    with inv_sess [OF ti(1) o(1)] have "sess_ok [] (objs t ! ob)" by simp
    then obtain dn hdr where "consumed (objs t ! ob) = frames_of (dn @ []) @ hdr" "partial_header (reading (objs t ! ob)) hdr"
      "sent_bytes (objs t ! ob) = frames_of dn" using same(1) by (rule sess_ok_openE)
    with same show ?thesis by (intro exI [of _ dn] exI [of _ hdr]) simp
  qed
  moreover have "length (objs t) = length (objs s)" using ti(2) by (simp add: same_input_def)
  ultimately show ?thesis using n t(2,3) by blast
qed

theorem logic_drains_witness:
  "\<exists>n t. n \<le> 5 \<and> run_events True (\<lambda>_. 7) (replicate n (Logic None)) demo_server = To t \<and> logic t = LWaiting"
  using logic_drains [OF demo_run(1) _ demo_run(4)] unfolding demo_run(2,7) by auto

text \<open>The logic thread after a shutdown that found no connection: whatever it was at, it returns within two steps, but for the
  point between its test of the predicate and falling asleep.\<close>

lemma logic_returns:
  assumes i: "server_inv s" and e: "sessions s = []" "stopping s" "logic s \<noteq> LBlocking" "logic s \<noteq> LWaiting"
  shows "\<exists>n \<le> 2. \<exists>u. run_events le hash (replicate n (Logic w)) s = To u \<and> logic u = LExited"
proof -
  have test: "\<exists>n \<le> 2. \<exists>u. run_events le hash (replicate n (Logic w)) s = To u \<and> logic u = LExited"
    if "logic_step le hash w s = To t" "logic t = LTest" "stopping t" for t
    by (intro exI [of _ "2::nat"] exI [of _ "t\<lparr>logic := LExited\<rparr>"] conjI) (use that in \<open>simp_all add: numeral_2_eq_2 logic_step_def [of _ _ _ t]\<close>)
  note q = inv_unlocked [OF i]
  show ?thesis
  proof (cases "logic s")
    case LTest
    then show ?thesis using e by (intro exI [of _ "1::nat"] exI [of _ "s\<lparr>logic := LExited\<rparr>"]) (simp add: logic_step_def)
  next
    case LEnter
    then show ?thesis using e by (intro exI [of _ "1::nat"] exI [of _ "s\<lparr>logic := LExited\<rparr>"]) (simp add: logic_step_def)
  next
    case (LPopped m)
    have "map_of (handlers s) (msg_type m) = None"
      using server_invD(1,4) [OF i] LPopped by (simp add: quiet_def flight_ok_def MSG_LOGIN_def MSG_CHAT_def)
    then have "logic_step le hash w s = To (s\<lparr>logic := LTest\<rparr>)"
      using LPopped e q by (simp add: logic_step_def dispatch_def reply_to_def mgr_simps)
    then show ?thesis using test e by simp
  next
    case (LSend m ob)
    have ob: "ob < length (objs s)" using server_invD(4) [OF i] LSend by (simp add: flight_ok_def)
    have "\<not> sock_open (objs s ! ob)" using server_invD(3) [OF i] ob e(1) by (auto simp: registered_ok_def)
    then have "logic_step le hash w s = To (s\<lparr>objs := (objs s)[ob := (objs s ! ob)\<lparr>sock_open := False\<rparr>], sessions := [], logic := LTest\<rparr>)"
      using LSend e q by (simp add: logic_step_def sess_send_def handle_error_def close_session_simp Let_def)
    then show ?thesis using test e by simp
  next
    case LExited
    then show ?thesis by (intro exI [of _ "0::nat"] exI [of _ s]) simp
  qed (use e in simp_all)
qed

lemma table_empty:
  assumes "server_inv s"
  shows "sessions s = [] \<longleftrightarrow> \<not> (\<exists>ob < length (objs s). sock_open (objs s ! ob))"
proof
  assume "sessions s = []"
  with server_invD(3) [OF assms] show "\<not> (\<exists>ob < length (objs s). sock_open (objs s ! ob))" by (auto simp: registered_ok_def)
next
  assume "\<not> (\<exists>ob < length (objs s). sock_open (objs s ! ob))"
  with server_invD(3) [OF assms] have "map_of (sessions s) k \<noteq> Some ob" for k ob unfolding registered_ok_def by blast
  then have "map_of (sessions s) = Map.empty" by (intro ext) (meson not_Some_eq)
  then show "sessions s = []" by simp
qed

text \<open>C21: The shutdown, from every state the server reaches.  With a connection open the handler of the signal is undefined: \<open>close_all\<close>
  holds the mutex of the session table while \<open>Session::close\<close> locks it again.  With none it closes the acceptor, stops the logic system and the
  \<open>io_context\<close>, and the logic thread returns within two steps, unless it is between its test of the predicate and falling
  asleep: then it goes to sleep with the flag set.\<close>

theorem logic_shutdown:
  assumes "run_events le hash es server_new = To s" "length (objs s) < 2 ^ 64" "\<not> io_stopped s"
  shows "if \<exists>ob < length (objs s). sock_open (objs s ! ob) then do_event le hash Signal s = Undefined
    else \<exists>t. do_event le hash Signal s = To t \<and> \<not> acceptor_open t \<and> stopping t \<and> io_stopped t \<and> objs t = objs s \<and> queue t = queue s \<and>
      (if logic s = LBlocking then run_events le hash [Logic w] t = To (t\<lparr>logic := LWaiting\<rparr>)
       else \<exists>n \<le> 2. \<exists>u. run_events le hash (replicate n (Logic w)) t = To u \<and> logic u = LExited)"
proof (cases "\<exists>ob < length (objs s). sock_open (objs s ! ob)")
  case True
  then have "sessions s \<noteq> []" using table_empty [OF reached_inv(1) [OF assms(1,2)]] by blast
  then show ?thesis using True assms(3) stop_server_simp [OF inv_unlocked [OF reached_inv(1) [OF assms(1,2)]]] by simp
next
  case False
  note i = reached_inv(1) [OF assms(1,2)]
  have e: "sessions s = []" using False table_empty [OF i] by blast
  let ?t = "(stop_logic (s\<lparr>acceptor_open := False\<rparr>))\<lparr>io_stopped := True\<rparr>"
  have run: "do_event le hash Signal s = To ?t" using assms(3) e stop_server_simp [OF inv_unlocked [OF i]] by simp
  have p: "logic ?t = (if logic s = LWaiting then LEnter else logic s)" by (simp add: stop_logic_def)
  have "keeps s (stop_server s)" using stop_ok [OF i e] .
  then have "server_inv ?t" using stop_server_simp [OF inv_unlocked [OF i]] e by (simp add: keeps_def)
  moreover have "sessions ?t = []" "stopping ?t" using e by (simp_all add: stop_logic_def)
  ultimately have "\<exists>n \<le> 2. \<exists>u. run_events le hash (replicate n (Logic w)) ?t = To u \<and> logic u = LExited" if "logic s \<noteq> LBlocking"
    by (rule logic_returns) (use that p in auto)
  moreover have "run_events le hash [Logic w] ?t = To (?t\<lparr>logic := LWaiting\<rparr>)" if "logic s = LBlocking"
    using that p by (simp add: logic_step_def)
  ultimately show ?thesis unfolding if_not_P [OF False] using run by (intro exI [of _ ?t]) (simp add: stop_logic_def)
qed

text \<open>A client came and went before the logic thread had done anything.\<close>

definition gone_server :: server where
  "gone_server = (case run_events True (\<lambda>_. 7) [Connect, PeerClose 0, ReadFails 0] server_new of To s \<Rightarrow> s | _ \<Rightarrow> server_new)"

lemma gone_run:
  "run_events True (\<lambda>_. 7) [Connect, PeerClose 0, ReadFails 0] server_new = To gone_server"
  "length (objs gone_server) = 1" "\<not> sock_open (objs gone_server ! 0)" "\<not> io_stopped gone_server" "logic gone_server \<noteq> LBlocking"
  by code_simp+

theorem logic_shutdown_witness:
  "do_event True (\<lambda>_. 7) Signal demo_server = Undefined \<and>
   (\<exists>t n u. do_event True (\<lambda>_. 7) Signal gone_server = To t \<and> n \<le> 2 \<and>
      run_events True (\<lambda>_. 7) (replicate n (Logic None)) t = To u \<and> logic u = LExited)"
  using logic_shutdown [OF demo_run(1) _ demo_run(5)] logic_shutdown [OF gone_run(1) _ gone_run(4), of None] demo_run(2,3) gone_run(2,3,5)
  by (simp del: do_event.simps) blast

text \<open>Sessions post every message with type 0, for which no handler is registered: no message ever reaches
  \<open>handle_login\<close> or \<open>handle_chat\<close>, and no user is ever online.\<close>

theorem logic_no_login:
  assumes "run_events le hash es server_new = To s" "length (objs s) < 2 ^ 64"
  shows "(\<forall>m \<in> set (in_flight s). map_of (handlers s) (msg_type m) = None) \<and> (\<forall>u. \<not> is_online u s) \<and> (\<forall>i. get_user_by_session i s = 0)"
  using server_invD(1,4) [OF reached_inv(1) [OF assms]]
  by (simp add: quiet_def flight_ok_def is_online_def get_user_by_session_def MSG_LOGIN_def MSG_CHAT_def)

theorem logic_no_login_witness: "\<not> is_online 7 demo_server \<and> get_user_by_session 1 demo_server = 0"
  using logic_no_login [OF demo_run(1)] demo_run(2) by simp

text \<open>\<open>stop\<close> sets its flag and notifies without the mutex of the queue.  When that happens between the test of the predicate and
  falling asleep, the notification is lost: the server waits for a thread that only a spurious wake-up can move.\<close>

theorem logic_stop_lost:
  "\<exists>es s. run_events le hash es server_new = To s \<and> io_stopped s \<and> stopping s \<and> logic s = LWaiting \<and>
     (\<forall>e. do_event le hash e s \<noteq> Disabled \<longrightarrow> e = Spurious)"
proof -
  let ?s = "server_new\<lparr>acceptor_open := False, stopping := True, io_stopped := True, logic := LWaiting\<rparr>"
  have "run_events le hash [Logic None, Logic None, Signal, Logic None] server_new = To ?s"
    by (simp add: logic_step_def server_new_def register_handler_def stop_server_simp stop_logic_def)
  moreover have "do_event le hash e ?s = Disabled" if "e \<noteq> Spurious" for e
    using that by (cases e) (simp_all add: logic_step_def server_new_def register_handler_def)
  ultimately show ?thesis
    by (intro exI [of _ "[Logic None, Logic None, Signal, Logic None]"] exI [of _ ?s]) auto
qed

text \<open>A message that has been read is not answered when its sender ends its half of the connection before the logic thread gets to it.\<close>

definition half_closed :: server where
  "half_closed = (case run_events True (\<lambda>_. 7) [PeerClose 0, ReadFails 0, Logic None] demo_server of To s \<Rightarrow> s | _ \<Rightarrow> server_new)"

theorem logic_half_close:
  "run_events True (\<lambda>_. 7) (demo_events @ [PeerClose 0, ReadFails 0, Logic None]) server_new = To half_closed \<and>
   consumed (objs half_closed ! 0) = frame_bytes [65] \<and> sent_bytes (objs half_closed ! 0) = [] \<and> in_flight half_closed = []"
  by (intro conjI; code_simp)

text \<open>Nothing orders the write of the logic thread and the handlers of the \<open>io_context\<close> on the same socket: both can be due at once.\<close>

theorem logic_socket_race:
  "\<exists>s m. run_events True (\<lambda>_. 7) (demo_events @ [Logic None]) server_new = To s \<and> logic s = LSend m 0 \<and>
     do_event True (\<lambda>_. 7) (ReadFails 0) s \<noteq> Disabled"
proof -
  let ?s = "case run_events True (\<lambda>_. 7) [Logic None] demo_server of To s \<Rightarrow> s | _ \<Rightarrow> server_new"
  have "run_events True (\<lambda>_. 7) (demo_events @ [Logic None]) server_new = To ?s" by code_simp
  moreover have "logic ?s = LSend \<lparr>session_id = 1, msg_type = 0, msg_body = [65]\<rparr> 0" by code_simp
  moreover have "do_event True (\<lambda>_. 7) (ReadFails 0) ?s \<noteq> Disabled" by code_simp
  ultimately show ?thesis by blast
qed

text \<open>A user who is logged in on two sessions goes offline when the first of them logs out.\<close>

theorem login_two_sessions:
  assumes "msg_body m1 = msg_body m2" "session_id m1 \<noteq> session_id m2"
    "t = handle_logout (session_id m1) (handle_login hash m2 (handle_login hash m1 s))"
  shows "\<not> is_online (hash (msg_body m2)) t \<and> session_to_user t (session_id m2) = Some (hash (msg_body m2))"
  using assms by (simp add: handle_logout_def handle_login_def is_online_def Let_def)

end
