(* ===== verification/Seg_Alloc.thy ===== *)
theory Seg_Alloc
  imports Heap_Alloc
begin

text \<open>
  The segregated-fit allocator of src/csapp/chapter9/malloc/flsp.c: boundary tags as in mm.c, and fifteen doubly
  linked lists of free blocks, chosen by size, whose links are stored in the blocks.

  Heap addresses count from \<open>mem_heap\<close>; a stored pointer is the machine address, 0 the null pointer.  The target
  says how wide a pointer (and \<open>size_t\<close>) is and where \<open>mem_heap\<close> lies: the links at \<open>bp\<close> and \<open>bp + WSIZE\<close> are apart
  when pointers have four bytes, and overlap when they have eight.  \<open>mem_sbrk\<close> does not compare with the 20 MiB that
  were obtained: the part of the memory that can be accessed ends there, whatever \<open>mem_brk\<close> says.  The debugging
  output is left out.
\<close>

unbundle bit_operations_syntax

section \<open>The memory and the links\<close>

record target =
  ptr64 :: bool
  heap_base :: int

text \<open>One more than the largest \<open>size_t\<close>, which is as wide as a pointer.\<close>

definition size_range :: "target \<Rightarrow> int" where
  "size_range t = (if ptr64 t then 2 ^ 64 else 2 ^ 32)"

record seg =
  seg_mm :: mm
  seg_brk :: int
  free_lists :: "int option list"

definition SEGLIST_COUNT :: nat where
  "SEGLIST_COUNT = 15"

definition seg_sbrk :: "int \<Rightarrow> seg \<Rightarrow> int option \<times> seg" where
  "seg_sbrk incr s =
     (if incr < 0 then (None, s)
      else (Some (seg_brk s), s\<lparr>seg_brk := seg_brk s + incr,
        seg_mm := (seg_mm s)\<lparr>mem_brk := min (seg_brk s + incr) MAX_HEAP\<rparr>\<rparr>))"

definition to_ptr :: "target \<Rightarrow> int option \<Rightarrow> int" where
  "to_ptr t p = (case p of None \<Rightarrow> 0 | Some a \<Rightarrow> heap_base t + a)"

definition of_ptr :: "target \<Rightarrow> int \<Rightarrow> int option" where
  "of_ptr t v = (if v = 0 then None else Some (v - heap_base t))"

definition load_ptr :: "target \<Rightarrow> seg \<Rightarrow> int \<Rightarrow> int option option" where
  "load_ptr t s p =
     (if 0 \<le> p \<and> p + (if ptr64 t then 8 else 4) \<le> mem_brk (seg_mm s)
      then Some (of_ptr t (word_at (byte_at (seg_mm s)) p + (if ptr64 t then 2 ^ 32 * word_at (byte_at (seg_mm s)) (p + 4) else 0)))
      else None)"

definition store_ptr :: "target \<Rightarrow> int \<Rightarrow> int option \<Rightarrow> seg \<Rightarrow> seg option" where
  "store_ptr t p q s =
     (if 0 \<le> p \<and> p + (if ptr64 t then 8 else 4) \<le> mem_brk (seg_mm s)
      then Some (s\<lparr>seg_mm := (seg_mm s)\<lparr>byte_at :=
        (if ptr64 t then put_word (p + 4) (to_ptr t q div 2 ^ 32 mod 2 ^ 32) else id)
          (put_word p (to_ptr t q mod 2 ^ 32) (byte_at (seg_mm s)))\<rparr>\<rparr>)
      else None)"

definition GET_PRED :: "target \<Rightarrow> seg \<Rightarrow> int \<Rightarrow> int option option" where
  "GET_PRED t s bp = load_ptr t s bp"

definition GET_SUCC :: "target \<Rightarrow> seg \<Rightarrow> int \<Rightarrow> int option option" where
  "GET_SUCC t s bp = load_ptr t s (bp + 4)"

definition SET_PRED :: "target \<Rightarrow> int \<Rightarrow> int option \<Rightarrow> seg \<Rightarrow> seg option" where
  "SET_PRED t bp q s = store_ptr t bp q s"

definition SET_SUCC :: "target \<Rightarrow> int \<Rightarrow> int option \<Rightarrow> seg \<Rightarrow> seg option" where
  "SET_SUCC t bp q s = store_ptr t (bp + 4) q s"

definition seg_put :: "int \<Rightarrow> int \<Rightarrow> seg \<Rightarrow> seg option" where
  "seg_put p v s = map_option (\<lambda>m. s\<lparr>seg_mm := m\<rparr>) (PUT p v (seg_mm s))"

section \<open>The lists\<close>

definition get_index :: "int \<Rightarrow> nat" where
  "get_index sz = (case find (\<lambda>i. sz \<le> 32 * 2 ^ i) [0..<SEGLIST_COUNT - 1] of Some i \<Rightarrow> i | None \<Rightarrow> SEGLIST_COUNT - 1)"

definition insert_node :: "target \<Rightarrow> int \<Rightarrow> int \<Rightarrow> seg \<Rightarrow> seg option" where
  "insert_node t bp sz s = do {
     let i = get_index sz;
     s \<leftarrow> SET_SUCC t bp (free_lists s ! i) s;
     s \<leftarrow> SET_PRED t bp None s;
     s \<leftarrow> (case free_lists s ! i of None \<Rightarrow> Some s | Some h \<Rightarrow> SET_PRED t h (Some bp) s);
     Some (s\<lparr>free_lists := (free_lists s)[i := Some bp]\<rparr>) }"

definition delete_node :: "target \<Rightarrow> int \<Rightarrow> seg \<Rightarrow> seg option" where
  "delete_node t bp s = do {
     sz \<leftarrow> GET_SIZE (seg_mm s) (HDRP bp);
     let i = get_index sz;
     p \<leftarrow> GET_PRED t s bp;
     q \<leftarrow> GET_SUCC t s bp;
     s \<leftarrow> (case p of Some a \<Rightarrow> SET_SUCC t a q s | None \<Rightarrow> Some (s\<lparr>free_lists := (free_lists s)[i := q]\<rparr>));
     q \<leftarrow> GET_SUCC t s bp;
     case q of
       None \<Rightarrow> Some s
     | Some b \<Rightarrow> do { p \<leftarrow> GET_PRED t s bp; SET_PRED t b p s } }"

text \<open>The search through one list, and through the lists from an index on.\<close>

partial_function (option) fit_list :: "target \<Rightarrow> int \<Rightarrow> seg \<Rightarrow> int option \<Rightarrow> int option option" where
  [code]: "fit_list t asize s p =
     (if p = None then Some None
      else Option.bind (GET_SIZE (seg_mm s) (HDRP (the p))) (\<lambda>sz.
        if asize \<le> sz then Some p
        else Option.bind (GET_SUCC t s (the p)) (fit_list t asize s)))"

fun fit_lists :: "target \<Rightarrow> int \<Rightarrow> seg \<Rightarrow> nat list \<Rightarrow> int option option" where
  "fit_lists t asize s [] = Some None"
| "fit_lists t asize s (i # js) = do {
     r \<leftarrow> fit_list t asize s (free_lists s ! i);
     case r of None \<Rightarrow> fit_lists t asize s js | Some bp \<Rightarrow> Some (Some bp) }"

definition seg_find_fit :: "target \<Rightarrow> int \<Rightarrow> seg \<Rightarrow> int option option" where
  "seg_find_fit t asize s = fit_lists t asize s [get_index asize..<SEGLIST_COUNT]"

section \<open>The allocator\<close>

text \<open>The two parts of \<open>coalesce\<close>: merging with a free block before, and with one after.\<close>

definition merge_prev :: "target \<Rightarrow> int \<Rightarrow> int \<Rightarrow> seg \<Rightarrow> (int \<times> int \<times> seg) option" where
  "merge_prev t bp sz s = do {
     pb \<leftarrow> PREV_BLKP (seg_mm s) bp;
     s \<leftarrow> delete_node t pb s;
     pb \<leftarrow> PREV_BLKP (seg_mm s) bp; n \<leftarrow> GET_SIZE (seg_mm s) (HDRP pb);
     let sz = (sz + n) mod size_range t;
     bp \<leftarrow> PREV_BLKP (seg_mm s) bp;
     s \<leftarrow> seg_put (HDRP bp) (PACK sz 0) s;
     f \<leftarrow> FTRP (seg_mm s) bp; s \<leftarrow> seg_put f (PACK sz 0) s;
     Some (bp, sz, s) }"

definition merge_next :: "target \<Rightarrow> int \<Rightarrow> int \<Rightarrow> seg \<Rightarrow> (int \<times> int \<times> seg) option" where
  "merge_next t bp sz s = do {
     nb \<leftarrow> NEXT_BLKP (seg_mm s) bp;
     s \<leftarrow> delete_node t nb s;
     nb \<leftarrow> NEXT_BLKP (seg_mm s) bp; n \<leftarrow> GET_SIZE (seg_mm s) (HDRP nb);
     let sz = (sz + n) mod size_range t;
     s \<leftarrow> seg_put (HDRP bp) (PACK sz 0) s;
     f \<leftarrow> FTRP (seg_mm s) bp; s \<leftarrow> seg_put f (PACK sz 0) s;
     Some (bp, sz, s) }"

definition seg_coalesce :: "target \<Rightarrow> int \<Rightarrow> seg \<Rightarrow> (int \<times> seg) option" where
  "seg_coalesce t bp s = do {
     pb \<leftarrow> PREV_BLKP (seg_mm s) bp; pf \<leftarrow> FTRP (seg_mm s) pb; prev_alloc \<leftarrow> GET_ALLOC (seg_mm s) pf;
     nb \<leftarrow> NEXT_BLKP (seg_mm s) bp; next_alloc \<leftarrow> GET_ALLOC (seg_mm s) (HDRP nb);
     sz \<leftarrow> GET_SIZE (seg_mm s) (HDRP bp);
     (bp, sz, s) \<leftarrow> (if prev_alloc = 0 then merge_prev t bp sz s else Some (bp, sz, s));
     (bp, sz, s) \<leftarrow> (if next_alloc = 0 then merge_next t bp sz s else Some (bp, sz, s));
     s \<leftarrow> insert_node t bp sz s;
     Some (bp, s) }"

definition seg_extend :: "target \<Rightarrow> int \<Rightarrow> seg \<Rightarrow> (int option \<times> seg) option" where
  "seg_extend t words s =
     (let sz = (if words mod 2 \<noteq> 0 then (words + 1) * 4 mod size_range t else words * 4 mod size_range t) in
      case seg_sbrk (to_int sz) s of
        (None, s) \<Rightarrow> Some (None, s)
      | (Some bp, s) \<Rightarrow> do {
          s \<leftarrow> seg_put (HDRP bp) (PACK sz 0) s;
          f \<leftarrow> FTRP (seg_mm s) bp; s \<leftarrow> seg_put f (PACK sz 0) s;
          nb \<leftarrow> NEXT_BLKP (seg_mm s) bp; s \<leftarrow> seg_put (HDRP nb) (PACK 0 1) s;
          (bp, s) \<leftarrow> seg_coalesce t bp s;
          Some (Some bp, s) })"

definition seg_init :: "target \<Rightarrow> seg \<Rightarrow> (int \<times> seg) option" where
  "seg_init t s =
     (let s = s\<lparr>free_lists := replicate SEGLIST_COUNT None\<rparr> in
      case seg_sbrk 16 s of
        (None, s) \<Rightarrow> Some (-1, s)
      | (Some p, s) \<Rightarrow> do {
          s \<leftarrow> seg_put p 0 s;
          s \<leftarrow> seg_put (p + 4) (PACK 8 1) s;
          s \<leftarrow> seg_put (p + 8) (PACK 8 1) s;
          s \<leftarrow> seg_put (p + 12) (PACK 0 1) s;
          let s = s\<lparr>seg_mm := (seg_mm s)\<lparr>heap_listp := Some (p + 8)\<rparr>\<rparr>;
          (r, s) \<leftarrow> seg_extend t (4096 div 4) s;
          Some (if r = None then -1 else 0, s) })"

definition seg_place :: "target \<Rightarrow> int \<Rightarrow> int \<Rightarrow> seg \<Rightarrow> seg option" where
  "seg_place t bp asize s = do {
     csize \<leftarrow> GET_SIZE (seg_mm s) (HDRP bp);
     s \<leftarrow> delete_node t bp s;
     if (csize - asize) mod size_range t \<ge> 16 then do {
       s \<leftarrow> seg_put (HDRP bp) (PACK asize 1) s;
       f \<leftarrow> FTRP (seg_mm s) bp; s \<leftarrow> seg_put f (PACK asize 1) s;
       bp \<leftarrow> NEXT_BLKP (seg_mm s) bp;
       s \<leftarrow> seg_put (HDRP bp) (PACK ((csize - asize) mod size_range t) 0) s;
       f \<leftarrow> FTRP (seg_mm s) bp; s \<leftarrow> seg_put f (PACK ((csize - asize) mod size_range t) 0) s;
       insert_node t bp ((csize - asize) mod size_range t) s }
     else do {
       s \<leftarrow> seg_put (HDRP bp) (PACK csize 1) s;
       f \<leftarrow> FTRP (seg_mm s) bp; seg_put f (PACK csize 1) s } }"

definition seg_adjust :: "target \<Rightarrow> int \<Rightarrow> int" where
  "seg_adjust t sz = (if sz \<le> 8 then 16 else 8 * ((sz + 8 + 7) mod size_range t div 8))"

definition seg_malloc :: "target \<Rightarrow> int \<Rightarrow> seg \<Rightarrow> (int option \<times> seg) option" where
  "seg_malloc t sz s =
     (if sz = 0 then Some (None, s)
      else do {
        let asize = seg_adjust t sz;
        r \<leftarrow> fit_lists t asize s [get_index asize..<SEGLIST_COUNT];
        case r of
          Some bp \<Rightarrow> do { s \<leftarrow> seg_place t bp asize s; Some (Some bp, s) }
        | None \<Rightarrow> do {
            (r, s) \<leftarrow> seg_extend t (max asize 4096 div 4) s;
            case r of
              None \<Rightarrow> Some (None, s)
            | Some bp \<Rightarrow> do { s \<leftarrow> seg_place t bp asize s; Some (Some bp, s) } } })"

definition seg_free :: "target \<Rightarrow> int \<Rightarrow> seg \<Rightarrow> seg option" where
  "seg_free t bp s = do {
     sz \<leftarrow> GET_SIZE (seg_mm s) (HDRP bp);
     s \<leftarrow> seg_put (HDRP bp) (PACK sz 0) s;
     f \<leftarrow> FTRP (seg_mm s) bp; s \<leftarrow> seg_put f (PACK sz 0) s;
     (bp, s) \<leftarrow> seg_coalesce t bp s;
     Some s }"

text \<open>The program's \<open>main\<close>: the two addresses that it prints.\<close>

definition seg_main :: "target \<Rightarrow> seg \<Rightarrow> (int \<times> int option \<times> int option) option" where
  "seg_main t s = do {
     (r, s) \<leftarrow> seg_init t s;
     if r < 0 then Some (-1, None, None)
     else do {
       (p1, s) \<leftarrow> seg_malloc t 128 s;
       s \<leftarrow> (case p1 of None \<Rightarrow> None | Some p \<Rightarrow> seg_free t p s);
       (p2, s) \<leftarrow> seg_malloc t 128 s;
       Some (0, p1, p2) } }"

lemma size_range_mod: "0 \<le> n \<Longrightarrow> n < 2 ^ 31 \<Longrightarrow> n mod size_range t = n"
  by (simp add: size_range_def)

lemma seg_adjust_eq: "ok_request n \<Longrightarrow> seg_adjust t n = adjust n"
  by (simp add: seg_adjust_def adjust_def size_range_def ok_request_def)

section \<open>Doubly linked lists in memory\<close>

definition first :: "int list \<Rightarrow> int option" where
  "first xs = (case xs of [] \<Rightarrow> None | x # _ \<Rightarrow> Some x)"

lemma first_simps [simp]: "first [] = None" "first (x # xs) = Some x"
  by (simp_all add: first_def)

definition next_or :: "int list \<Rightarrow> int option \<Rightarrow> int option" where
  "next_or xs q = (case xs of [] \<Rightarrow> q | x # _ \<Rightarrow> Some x)"

lemma next_or_simps [simp]: "next_or [] q = q" "next_or (x # xs) q = Some x" "next_or xs None = first xs"
  by (simp_all add: next_or_def first_def)

definition last_or :: "int option \<Rightarrow> int list \<Rightarrow> int option" where
  "last_or p xs = (if xs = [] then p else Some (last xs))"

lemma last_or_simps [simp]: "last_or p [] = p" "last_or p (x # xs) = last_or (Some x) xs"
  by (simp_all add: last_or_def)

text \<open>The nodes \<open>xs\<close>, linked both ways, between the neighbours \<open>p\<close> and \<open>q\<close>; pointers of four bytes.\<close>

fun dseg :: "target \<Rightarrow> (int \<Rightarrow> int) \<Rightarrow> int option \<Rightarrow> int list \<Rightarrow> int option \<Rightarrow> bool" where
  "dseg t f p [] q \<longleftrightarrow> True"
| "dseg t f p (x # xs) q \<longleftrightarrow> word_at f x = to_ptr t p \<and> word_at f (x + 4) = to_ptr t (next_or xs q) \<and> dseg t f (Some x) xs q"

lemma dseg_append: "dseg t f p (xs @ ys) q \<longleftrightarrow> dseg t f p xs (next_or ys q) \<and> dseg t f (last_or p xs) ys q"
proof (induction xs arbitrary: p)
  case (Cons x xs)
  then show ?case by (cases xs) auto
qed simp

lemma dseg_cong: "\<forall>x \<in> set xs. \<forall>a. x \<le> a \<and> a < x + 8 \<longrightarrow> g a = f a \<Longrightarrow> dseg t f p xs q \<Longrightarrow> dseg t g p xs q"
proof (induction xs arbitrary: p)
  case (Cons x xs)
  have "word_at g x = word_at f x" "word_at g (x + 4) = word_at f (x + 4)"
    by (rule word_cong; use Cons.prems(1) in auto)+
  with Cons show ?case by simp
qed simp

lemma dseg_put_outside:
  assumes "\<forall>x \<in> set xs. a + 4 \<le> x \<or> x + 8 \<le> a" "dseg t f p xs q"
  shows "dseg t (put_word a v f) p xs q"
  by (rule dseg_cong [OF _ assms(2)]) (use assms(1) in \<open>auto simp: put_word_outside\<close>)

definition apart8 :: "int set \<Rightarrow> bool" where
  "apart8 S \<longleftrightarrow> (\<forall>x \<in> S. \<forall>y \<in> S. x \<noteq> y \<longrightarrow> x + 8 \<le> y \<or> y + 8 \<le> x)"

lemma apart8D: "apart8 S \<Longrightarrow> x \<in> S \<Longrightarrow> y \<in> S \<Longrightarrow> x \<noteq> y \<Longrightarrow> x + 8 \<le> y \<or> y + 8 \<le> x"
  by (simp add: apart8_def)

text \<open>Machine addresses that fit in four bytes.\<close>

definition fits32 :: "target \<Rightarrow> bool" where
  "fits32 t \<longleftrightarrow> \<not> ptr64 t \<and> 0 < heap_base t \<and> heap_base t + MAX_HEAP \<le> 2 ^ 32"

definition in_heap :: "int option \<Rightarrow> bool" where
  "in_heap p = (case p of None \<Rightarrow> True | Some a \<Rightarrow> 0 \<le> a \<and> a < MAX_HEAP)"

lemma in_heap_simps [simp]: "in_heap None" "in_heap (Some a) \<longleftrightarrow> 0 \<le> a \<and> a < MAX_HEAP"
  by (simp_all add: in_heap_def)

lemma ptr_roundtrip:
  assumes "fits32 t" "in_heap p"
  shows "of_ptr t (to_ptr t p) = p" "0 \<le> to_ptr t p" "to_ptr t p < 2 ^ 32"
  using assms by (cases p; auto simp: fits32_def of_ptr_def to_ptr_def)+

lemma set_next_seg:
  assumes "dseg t f p (xs @ [z]) q" "fits32 t" "in_heap q'" "apart8 (set (xs @ [z]))" "distinct (xs @ [z])"
  shows "dseg t (put_word (z + 4) (to_ptr t q') f) p (xs @ [z]) q'"
proof -
  let ?g = "put_word (z + 4) (to_ptr t q') f"
  have d: "dseg t f p xs (Some z)" "word_at f z = to_ptr t (last_or p xs)" using assms(1) by (simp_all add: dseg_append)
  have "dseg t ?g p xs (Some z)"
    by (rule dseg_put_outside [OF _ d(1)]) (use assms(4,5) in \<open>fastforce simp: apart8_def\<close>)
  moreover have "word_at ?g z = to_ptr t (last_or p xs)" using d(2) by (simp add: word_put_other)
  moreover have "word_at ?g (z + 4) = to_ptr t q'" by (rule word_put_same [OF ptr_roundtrip(2,3) [OF assms(2,3)]])
  ultimately show ?thesis by (simp add: dseg_append)
qed

lemma set_prev_seg:
  assumes "dseg t f p (y # ys) q" "fits32 t" "in_heap p'" "apart8 (set (y # ys))" "distinct (y # ys)"
  shows "dseg t (put_word y (to_ptr t p') f) p' (y # ys) q"
proof -
  let ?g = "put_word y (to_ptr t p') f"
  have d: "dseg t f (Some y) ys q" "word_at f (y + 4) = to_ptr t (next_or ys q)" using assms(1) by simp_all
  have "dseg t ?g (Some y) ys q"
    by (rule dseg_put_outside [OF _ d(1)]) (use assms(4,5) in \<open>fastforce simp: apart8_def\<close>)
  moreover have "word_at ?g (y + 4) = to_ptr t (next_or ys q)" using d(2) by (simp add: word_put_other)
  moreover have "word_at ?g y = to_ptr t p'" by (rule word_put_same [OF ptr_roundtrip(2,3) [OF assms(2,3)]])
  ultimately show ?thesis by simp
qed

text \<open>The bytes that differ are link words of nodes in \<open>F\<close>.\<close>

definition links_only :: "int set \<Rightarrow> (int \<Rightarrow> int) \<Rightarrow> (int \<Rightarrow> int) \<Rightarrow> bool" where
  "links_only F f g \<longleftrightarrow> (\<forall>a. (\<forall>x \<in> F. a < x \<or> x + 8 \<le> a) \<longrightarrow> g a = f a)"

lemma links_only_refl: "links_only F f f"
  by (simp add: links_only_def)

lemma links_only_put:
  assumes "links_only F f g" "x \<in> F" "a = x \<or> a = x + 4"
  shows "links_only F f (put_word a v g)"
  unfolding links_only_def
proof (intro allI impI)
  fix b assume b: "\<forall>x \<in> F. b < x \<or> x + 8 \<le> b"
  then have "b < x \<or> x + 8 \<le> b" using assms(2) by (rule bspec)
  then have "b < a \<or> a + 4 \<le> b" using assms(3) by linarith
  then have "put_word a v g b = g b" by (rule put_word_outside)
  also have "g b = f b" using assms(1) b unfolding links_only_def by (elim allE impE)
  finally show "put_word a v g b = f b" .
qed

section \<open>Free blocks\<close>

fun frees :: "int \<Rightarrow> block list \<Rightarrow> (int \<times> int) set" where
  "frees p [] = {}"
| "frees p ((s, a) # bs) = (if a then {} else {(p + 4, s)}) \<union> frees (p + s) bs"

lemma frees_append: "frees p (xs @ ys) = frees p xs \<union> frees (p + span xs) ys"
  by (induction p xs rule: frees.induct) (auto simp: add.assoc)

lemma frees_range:
  "lay f p bs \<Longrightarrow> (x, n) \<in> frees p bs \<Longrightarrow> p + 4 \<le> x \<and> x + n \<le> p + span bs + 4 \<and> (x - p) mod 8 = 4 \<and> 8 \<le> n"
proof (induction p bs rule: frees.induct)
  case (2 p s a bs)
  have l: "lay f (p + s) bs" "8 \<le> s" "s mod 8 = 0" "0 \<le> span bs" using "2.prems"(1) lay_span by auto
  show ?case
  proof (cases "(x, n) \<in> frees (p + s) bs")
    case True
    from "2.IH" [OF l(1) True] have r: "p + s + 4 \<le> x" "x + n \<le> p + s + span bs + 4" "(x - (p + s)) mod 8 = 4" "8 \<le> n" by simp_all
    have "(x - p) mod 8 = ((x - (p + s)) mod 8 + s mod 8) mod 8" by (simp add: mod_add_eq)
    then have "(x - p) mod 8 = 4" unfolding r(3) l(3) by simp
    then show ?thesis using r l by simp
  next
    case False
    with "2.prems"(2) have "x = p + 4" "n = s" by (auto split: if_splits)
    then show ?thesis using l by simp
  qed
qed simp

lemma frees_split: "(x, n) \<in> frees p bs \<Longrightarrow> \<exists>xs ys. bs = xs @ (n, False) # ys \<and> x = p + span xs + 4"
proof (induction p bs rule: frees.induct)
  case (2 p s a bs)
  then consider "\<not> a" "x = p + 4" "n = s" | "(x, n) \<in> frees (p + s) bs" by (auto split: if_splits)
  then show ?case
  proof cases
    case 1
    then show ?thesis by (intro exI [of _ "[]"] exI [of _ bs]) simp
  next
    case 2
    then obtain xs ys where "bs = xs @ (n, False) # ys" "x = p + s + span xs + 4" using "2.IH" by blast
    then show ?thesis by (intro exI [of _ "(s, a) # xs"] exI [of _ ys]) simp
  qed
qed simp

text \<open>Two free blocks are the same or do not overlap; neither do a free and an allocated block.\<close>

lemma frees_disjoint:
  "lay f p bs \<Longrightarrow> (x, n) \<in> frees p bs \<Longrightarrow> (y, k) \<in> frees p bs \<Longrightarrow> (x, n) = (y, k) \<or> x + n \<le> y \<or> y + k \<le> x"
proof (induction p bs rule: frees.induct)
  case (2 p s a bs)
  have l: "lay f (p + s) bs" using "2.prems"(1) by simp
  note r = frees_range [OF l]
  consider "(x, n) \<in> frees (p + s) bs" "(y, k) \<in> frees (p + s) bs" | "(x, n) = (p + 4, s)" "(y, k) \<in> frees (p + s) bs"
    | "(y, k) = (p + 4, s)" "(x, n) \<in> frees (p + s) bs" | "(x, n) = (y, k)"
    using "2.prems"(2,3) by (auto split: if_splits)
  then show ?case
  proof cases
    case 1
    then show ?thesis by (rule "2.IH" [OF l])
  next
    case 2
    then show ?thesis using r [OF 2(2)] by simp
  next
    case 3
    then show ?thesis using r [OF 3(2)] by simp
  qed simp
qed simp

lemma frees_lives_disjoint:
  "lay f p bs \<Longrightarrow> (x, n) \<in> frees p bs \<Longrightarrow> (q, k) \<in> lives p bs \<Longrightarrow> x + n \<le> q \<or> q + k + 8 \<le> x"
proof (induction p bs rule: frees.induct)
  case (2 p s a bs)
  have l: "lay f (p + s) bs" using "2.prems"(1) by simp
  consider "(x, n) \<in> frees (p + s) bs" "(q, k) \<in> lives (p + s) bs" | "(x, n) = (p + 4, s)" "(q, k) \<in> lives (p + s) bs"
    | "(q, k) = (p + 4, s - 8)" "(x, n) \<in> frees (p + s) bs"
    using "2.prems"(2,3) by (auto split: if_splits)
  then show ?case
  proof cases
    case 1
    then show ?thesis by (rule "2.IH" [OF l])
  next
    case 2
    then show ?thesis using lives_range(1) [OF l 2(2)] by simp
  next
    case 3
    then show ?thesis using frees_range [OF l 3(2)] by simp
  qed
qed simp

text \<open>Link words lie between the tags of their block.\<close>

lemma lay_links:
  "lay f p bs \<Longrightarrow> \<forall>b \<in> set bs. \<not> snd b \<longrightarrow> 16 \<le> fst b \<Longrightarrow>
   \<forall>a. p \<le> a \<longrightarrow> (\<forall>x n. (x, n) \<in> frees p bs \<longrightarrow> a < x \<or> x + 8 \<le> a) \<longrightarrow> g a = f a \<Longrightarrow> lay g p bs"
proof (induction p bs rule: frees.induct)
  case (2 p s al bs)
  have l: "lay f (p + s) bs" "8 \<le> s" "\<not> al \<longrightarrow> 16 \<le> s" using "2.prems"(1,2) by auto
  have out: "a < x \<or> x + 8 \<le> a" if "(x, n) \<in> frees (p + s) bs" "a < p + s" for x n a
    using frees_range [OF l(1) that(1)] that(2) by simp
  have tag: "g a = f a" if a: "p \<le> a" "a < p + 4 \<or> p + s - 4 \<le> a" "a < p + s" for a
  proof -
    have "a < x \<or> x + 8 \<le> a" if x: "(x, n) \<in> frees p ((s, al) # bs)" for x n
    proof (cases "(x, n) \<in> frees (p + s) bs")
      case True
      then show ?thesis using out \<open>a < p + s\<close> by blast
    next
      case False
      with x have "\<not> al" "x = p + 4" by (auto split: if_splits)
      then show ?thesis using a l(3) by linarith
    qed
    then show ?thesis using "2.prems"(3) a(1) by blast
  qed
  have "word_at g p = word_at f p" "word_at g (p + s - 4) = word_at f (p + s - 4)"
    by (rule word_cong; use tag l(2) in auto)+
  moreover have "lay g (p + s) bs"
  proof (rule "2.IH" [OF l(1)])
    show "\<forall>b \<in> set bs. \<not> snd b \<longrightarrow> 16 \<le> fst b" using "2.prems"(2) by simp
    show "\<forall>a. p + s \<le> a \<longrightarrow> (\<forall>x n. (x, n) \<in> frees (p + s) bs \<longrightarrow> a < x \<or> x + 8 \<le> a) \<longrightarrow> g a = f a"
    proof (intro allI impI)
      fix a assume a: "p + s \<le> a" "\<forall>x n. (x, n) \<in> frees (p + s) bs \<longrightarrow> a < x \<or> x + 8 \<le> a"
      then have "\<forall>x n. (x, n) \<in> frees p ((s, al) # bs) \<longrightarrow> a < x \<or> x + 8 \<le> a" using l(3) by auto
      then show "g a = f a" using "2.prems"(3) a(1) l(2) by simp
    qed
  qed
  ultimately show ?case using "2.prems"(1) by simp
qed simp

lemma big_free: "big bs \<Longrightarrow> \<forall>b \<in> set bs. \<not> snd b \<longrightarrow> 16 \<le> fst b"
  by (cases bs) (auto simp: big_def)

lemma frees_big: "big bs \<Longrightarrow> (x, n) \<in> frees 4 bs \<Longrightarrow> 16 \<le> n"
  using big_free frees_split [of x n 4 bs] by fastforce

lemma blocks_links:
  assumes "blocks m bs" "big bs" "links_only (fst ` frees 4 bs) (byte_at m) g"
  shows "blocks (m\<lparr>byte_at := g\<rparr>) bs"
proof -
  note B = blocksD [OF assms(1)]
  have L: "lay g 4 bs"
    by (rule lay_links [OF B(3) big_free [OF assms(2)]]) (use assms(3) in \<open>force simp: links_only_def\<close>)
  have "word_at g (4 + span bs) = word_at (byte_at m) (4 + span bs)"
  proof (rule word_cong, intro allI impI)
    fix a assume a: "4 + span bs \<le> a \<and> a < 4 + span bs + 4"
    have "a < x \<or> x + 8 \<le> a" if "x \<in> fst ` frees 4 bs" for x
    proof -
      from that obtain n where n: "(x, n) \<in> frees 4 bs" by auto
      from frees_range [OF B(3) n] frees_big [OF assms(2) n] a show ?thesis by linarith
    qed
    then show "g a = byte_at m a" using assms(3) by (simp add: links_only_def)
  qed
  then show ?thesis using L B by (simp add: blocks_def)
qed

lemma kept_links:
  assumes "blocks m bs" "big bs" "links_only (fst ` frees 4 bs) (byte_at m) g"
  shows "kept (live bs) m (m\<lparr>byte_at := g\<rparr>)"
  unfolding kept_def
proof (intro allI impI, elim conjE)
  fix q k a assume h: "(q, k) \<in> live bs" "q \<le> a" "a < q + k"
  note L = blocksD(3) [OF assms(1)]
  have q: "(q, k) \<in> lives 4 bs" using h(1) live_lives [OF L assms(2)] by simp
  have "a < x \<or> x + 8 \<le> a" if "x \<in> fst ` frees 4 bs" for x
  proof -
    from that obtain n where n: "(x, n) \<in> frees 4 bs" by auto
    from frees_lives_disjoint [OF L n q] frees_range [OF L n] h(2,3) show ?thesis by linarith
  qed
  then show "byte_at (m\<lparr>byte_at := g\<rparr>) a = byte_at m a" using assms(3) by (simp add: links_only_def)
qed

section \<open>Heap and lists\<close>

definition lists_ok :: "target \<Rightarrow> (int \<Rightarrow> int) \<Rightarrow> block list \<Rightarrow> (nat \<Rightarrow> int list) \<Rightarrow> int set \<Rightarrow> bool" where
  "lists_ok t f bs ls Z \<longleftrightarrow>
     (\<forall>i. dseg t f None (ls i) None \<and> distinct (ls i) \<and> (\<forall>x \<in> set (ls i). \<exists>n. (x, n) \<in> frees 4 bs \<and> get_index n = i)) \<and>
     (\<forall>x n. (x, n) \<in> frees 4 bs \<longrightarrow> x \<in> Z \<or> x \<in> set (ls (get_index n))) \<and>
     (\<forall>x \<in> Z. \<exists>n. (x, n) \<in> frees 4 bs \<and> x \<notin> set (ls (get_index n)))"

text \<open>The heap is the blocks \<open>bs\<close>; every free block is in the list for its size, except those of \<open>Z\<close>, which are in none.\<close>

definition seg_wf :: "target \<Rightarrow> seg \<Rightarrow> block list \<Rightarrow> (nat \<Rightarrow> int list) \<Rightarrow> int set \<Rightarrow> bool" where
  "seg_wf t s bs ls Z \<longleftrightarrow> blocks (seg_mm s) bs \<and> big bs \<and> seg_brk s = mem_brk (seg_mm s) \<and>
     free_lists s = map (\<lambda>i. first (ls i)) [0..<SEGLIST_COUNT] \<and> lists_ok t (byte_at (seg_mm s)) bs ls Z"

lemma seg_wfD:
  assumes "seg_wf t s bs ls Z"
  shows "blocks (seg_mm s) bs" "big bs" "seg_brk s = mem_brk (seg_mm s)"
    "free_lists s = map (\<lambda>i. first (ls i)) [0..<SEGLIST_COUNT]" "lists_ok t (byte_at (seg_mm s)) bs ls Z"
  using assms by (simp_all add: seg_wf_def)

lemma get_index_less: "get_index n < SEGLIST_COUNT"
  by (auto simp: get_index_def SEGLIST_COUNT_def find_Some_iff split: option.split)

lemma node_ok:
  assumes "blocks m bs" "big bs" "(x, n) \<in> frees 4 bs"
  shows "8 \<le> x" "x + 8 \<le> mem_brk m" "x < MAX_HEAP" "16 \<le> n"
  using frees_range [OF blocksD(3) [OF assms(1)] assms(3)] frees_big [OF assms(2,3)] blocksD(1,2) [OF assms(1)] by linarith+

lemma nodes_apart:
  assumes "blocks m bs" "big bs"
  shows "apart8 (fst ` frees 4 bs)"
  unfolding apart8_def
proof (intro ballI impI)
  fix x y assume "x \<in> fst ` frees 4 bs" "y \<in> fst ` frees 4 bs" "x \<noteq> y"
  then obtain n k where n: "(x, n) \<in> frees 4 bs" "(y, k) \<in> frees 4 bs" by auto
  from frees_disjoint [OF blocksD(3) [OF assms(1)] n] node_ok(4) [OF assms n(1)] node_ok(4) [OF assms n(2)] \<open>x \<noteq> y\<close>
  show "x + 8 \<le> y \<or> y + 8 \<le> x" by auto
qed

lemma free_unique:
  assumes "blocks m bs" "big bs" "(x, n) \<in> frees 4 bs" "(x, k) \<in> frees 4 bs"
  shows "n = k"
  using frees_disjoint [OF blocksD(3) [OF assms(1)] assms(3,4)] node_ok(4) [OF assms(1-3)] node_ok(4) [OF assms(1,2,4)] by auto

lemma apart8_subset: "apart8 S \<Longrightarrow> T \<subseteq> S \<Longrightarrow> apart8 T"
  by (auto simp: apart8_def)

lemma dseg_links:
  assumes "links_only S f g" "apart8 (S \<union> set xs)" "S \<inter> set xs = {}" "dseg t f p xs q"
  shows "dseg t g p xs q"
proof (rule dseg_cong [OF _ assms(4)], intro ballI allI impI)
  fix x a assume x: "x \<in> set xs" "x \<le> a \<and> a < x + 8"
  have "\<forall>y \<in> S. a < y \<or> y + 8 \<le> a"
  proof
    fix y assume y: "y \<in> S"
    then have "y \<noteq> x" using x(1) assms(3) by blast
    then show "a < y \<or> y + 8 \<le> a" using apart8D [OF assms(2), of x y] x y by auto
  qed
  then show "g a = f a" using assms(1) unfolding links_only_def by (elim allE impE)
qed

text \<open>Unlinking a node, and linking one in front.\<close>

definition unlinked :: "target \<Rightarrow> int list \<Rightarrow> int list \<Rightarrow> (int \<Rightarrow> int) \<Rightarrow> (int \<Rightarrow> int)" where
  "unlinked t as cs f =
     (let g = (if as = [] then f else put_word (last as + 4) (to_ptr t (first cs)) f) in
      if cs = [] then g else put_word (hd cs) (to_ptr t (last_or None as)) g)"

lemma links_unlinked: "links_only (set as \<union> set cs) f (unlinked t as cs f)"
proof -
  define g where "g = (if as = [] then f else put_word (last as + 4) (to_ptr t (first cs)) f)"
  have "links_only (set as \<union> set cs) f g"
    by (cases "as = []") (simp_all add: g_def links_only_refl links_only_put [OF links_only_refl, of "last as"])
  then have "links_only (set as \<union> set cs) f (put_word (hd cs) (to_ptr t (last_or None as)) g)" if "cs \<noteq> []"
    by (rule links_only_put [of _ _ _ "hd cs"]) (use that in simp_all)
  with \<open>links_only (set as \<union> set cs) f g\<close> show ?thesis unfolding unlinked_def Let_def g_def [symmetric] by metis
qed

lemma dseg_unlinked:
  assumes d: "dseg t f None (as @ bp # cs) None" and ds: "distinct (as @ bp # cs)" and ap: "apart8 (set (as @ bp # cs))"
    and t: "fits32 t" and h: "\<forall>x \<in> set (as @ bp # cs). in_heap (Some x)"
  shows "dseg t (unlinked t as cs f) None (as @ cs) None"
proof -
  have p: "dseg t f None as (Some bp)" "dseg t f (Some bp) cs None" using d by (simp_all add: dseg_append)
  have hc: "in_heap (first cs)" "in_heap (last_or None as)" using h by (cases cs; cases as rule: rev_cases; simp add: last_or_def)+
  define g where "g = (if as = [] then f else put_word (last as + 4) (to_ptr t (first cs)) f)"
  have A: "dseg t g None as (first cs)"
  proof (cases as rule: rev_cases)
    case (snoc us z)
    have "dseg t (put_word (z + 4) (to_ptr t (first cs)) f) None (us @ [z]) (first cs)"
      by (rule set_next_seg [OF p(1) [unfolded snoc] t hc(1)]) (use ap ds snoc in \<open>auto intro: apart8_subset\<close>)
    then show ?thesis by (simp add: g_def snoc)
  qed simp
  have lg: "links_only (set as) f g"
    unfolding g_def by (auto intro!: links_only_refl links_only_put [of _ _ _ "last as"])
  have B: "dseg t g (Some bp) cs None"
    by (rule dseg_links [OF lg _ _ p(2)]) (use ap ds in \<open>auto intro: apart8_subset\<close>)
  have u: "unlinked t as cs f = (if cs = [] then g else put_word (hd cs) (to_ptr t (last_or None as)) g)"
    by (simp add: unlinked_def g_def Let_def)
  have lu: "links_only (set cs) g (unlinked t as cs f)"
    unfolding u by (auto intro!: links_only_refl links_only_put [of _ _ _ "hd cs"])
  have C: "dseg t (unlinked t as cs f) (last_or None as) cs None"
  proof (cases cs)
    case (Cons y ys)
    have "dseg t (put_word y (to_ptr t (last_or None as)) g) (last_or None as) (y # ys) None"
      by (rule set_prev_seg [OF B [unfolded Cons] t hc(2)]) (use ap ds Cons in \<open>auto intro: apart8_subset\<close>)
    with u Cons show ?thesis by simp
  qed simp
  have "dseg t (unlinked t as cs f) None as (first cs)"
    by (rule dseg_links [OF lu _ _ A]) (use ap ds in \<open>auto intro: apart8_subset\<close>)
  with C show ?thesis by (simp add: dseg_append)
qed

definition linked :: "target \<Rightarrow> int \<Rightarrow> int list \<Rightarrow> (int \<Rightarrow> int) \<Rightarrow> (int \<Rightarrow> int)" where
  "linked t bp xs f =
     (let g = put_word bp 0 (put_word (bp + 4) (to_ptr t (first xs)) f) in
      if xs = [] then g else put_word (hd xs) (to_ptr t (Some bp)) g)"

lemma links_linked: "links_only (insert bp (set xs)) f (linked t bp xs f)"
proof -
  let ?S = "insert bp (set xs)"
  define g where "g = put_word bp 0 (put_word (bp + 4) (to_ptr t (first xs)) f)"
  have "links_only ?S f (put_word (bp + 4) (to_ptr t (first xs)) f)"
    by (rule links_only_put [OF links_only_refl, of bp]) simp_all
  then have "links_only ?S f g" unfolding g_def by (rule links_only_put [of _ _ _ bp]) simp_all
  moreover from this have "links_only ?S f (put_word (hd xs) (to_ptr t (Some bp)) g)" if "xs \<noteq> []"
    by (rule links_only_put [of _ _ _ "hd xs"]) (use that in simp_all)
  ultimately show ?thesis unfolding linked_def Let_def g_def [symmetric] by metis
qed

lemma dseg_linked:
  assumes d: "dseg t f None xs None" and ds: "distinct (bp # xs)" and ap: "apart8 (set (bp # xs))"
    and t: "fits32 t" and h: "\<forall>x \<in> set (bp # xs). in_heap (Some x)"
  shows "dseg t (linked t bp xs f) None (bp # xs) None"
proof -
  define g where "g = put_word bp 0 (put_word (bp + 4) (to_ptr t (first xs)) f)"
  have hx: "in_heap (first xs)" "in_heap (Some bp)" using h by (cases xs; simp)+
  have w: "word_at g bp = to_ptr t None" "word_at g (bp + 4) = to_ptr t (first xs)"
    unfolding g_def using ptr_roundtrip(2,3) [OF t hx(1)]
    by (simp_all add: word_put_same word_put_other to_ptr_def)
  have lg: "links_only {bp} f g"
    unfolding g_def by (auto intro!: links_only_put [of _ _ _ bp] links_only_refl)
  have B: "dseg t g None xs None"
    by (rule dseg_links [OF lg _ _ d]) (use ap ds in auto)
  have l: "linked t bp xs f = (if xs = [] then g else put_word (hd xs) (to_ptr t (Some bp)) g)"
    by (simp add: linked_def g_def Let_def)
  show ?thesis
  proof (cases xs)
    case Nil
    with l w show ?thesis by simp
  next
    case (Cons y ys)
    have "dseg t (put_word y (to_ptr t (Some bp)) g) (Some bp) (y # ys) None"
      by (rule set_prev_seg [OF B [unfolded Cons] t hx(2)]) (use ap ds Cons in \<open>auto intro: apart8_subset\<close>)
    moreover have "y + 8 \<le> bp \<or> bp + 8 \<le> y" using apart8D [OF ap, of y bp] ds Cons by auto
    then have "word_at (put_word y (to_ptr t (Some bp)) g) bp = word_at g bp"
      "word_at (put_word y (to_ptr t (Some bp)) g) (bp + 4) = word_at g (bp + 4)"
      by (auto intro!: word_put_other)
    ultimately show ?thesis using w l Cons by simp
  qed
qed

section \<open>The list operations\<close>

abbreviation bytes_to :: "(int \<Rightarrow> int) \<Rightarrow> seg \<Rightarrow> seg" where
  "bytes_to g s \<equiv> s\<lparr>seg_mm := (seg_mm s)\<lparr>byte_at := g\<rparr>\<rparr>"

lemma load32:
  "fits32 t \<Longrightarrow> 0 \<le> p \<Longrightarrow> p + 4 \<le> mem_brk (seg_mm s) \<Longrightarrow> in_heap q \<Longrightarrow> word_at (byte_at (seg_mm s)) p = to_ptr t q \<Longrightarrow>
   load_ptr t s p = Some q"
  using ptr_roundtrip(1) by (simp add: load_ptr_def fits32_def)

lemma store32:
  "fits32 t \<Longrightarrow> 0 \<le> p \<Longrightarrow> p + 4 \<le> mem_brk (seg_mm s) \<Longrightarrow> in_heap q \<Longrightarrow>
   store_ptr t p q s = Some (bytes_to (put_word p (to_ptr t q) (byte_at (seg_mm s))) s)"
  using ptr_roundtrip(2,3) [of t q] by (simp add: store_ptr_def fits32_def)

text \<open>What a step on the lists leaves alone.\<close>

definition list_step :: "block list \<Rightarrow> seg \<Rightarrow> seg \<Rightarrow> bool" where
  "list_step bs s s' \<longleftrightarrow> seg_mm s' = (seg_mm s)\<lparr>byte_at := byte_at (seg_mm s')\<rparr> \<and> seg_brk s' = seg_brk s \<and>
     links_only (fst ` frees 4 bs) (byte_at (seg_mm s)) (byte_at (seg_mm s'))"

lemma list_step_wf:
  assumes "seg_wf t s bs ls Z" "list_step bs s s'" "free_lists s' = map (\<lambda>i. first (ls' i)) [0..<SEGLIST_COUNT]"
    "lists_ok t (byte_at (seg_mm s')) bs ls' Z'"
  shows "seg_wf t s' bs ls' Z'"
proof -
  note W = seg_wfD [OF assms(1)]
  have "blocks (seg_mm s') bs" using blocks_links [OF W(1,2)] assms(2) unfolding list_step_def by metis
  moreover have "mem_brk (seg_mm s') = mem_brk (seg_mm s)" using assms(2) unfolding list_step_def by (metis mm.select_convs(2) mm.surjective mm.update_convs(1))
  ultimately show ?thesis using assms(2-4) W(2,3) by (simp add: seg_wf_def list_step_def)
qed

lemma lists_okD:
  assumes "lists_ok t f bs ls Z"
  shows "dseg t f None (ls i) None" "distinct (ls i)" "x \<in> set (ls i) \<Longrightarrow> \<exists>n. (x, n) \<in> frees 4 bs \<and> get_index n = i"
    "(x, n) \<in> frees 4 bs \<Longrightarrow> x \<in> Z \<or> x \<in> set (ls (get_index n))"
    "x \<in> Z \<Longrightarrow> \<exists>n. (x, n) \<in> frees 4 bs \<and> x \<notin> set (ls (get_index n))"
  using assms unfolding lists_ok_def by blast+

lemma listed_free: "lists_ok t f bs ls Z \<Longrightarrow> set (ls i) \<subseteq> fst ` frees 4 bs"
  using lists_okD(3) by force

text \<open>Changing the link words of nodes of one list, and the list.\<close>

lemma lists_ok_update:
  assumes "blocks m bs" "big bs" "lists_ok t f bs ls Z" "links_only (set (ls i) \<union> N) f g" "N \<inter> (\<Union>j. set (ls j)) = {}"
    "N \<subseteq> fst ` frees 4 bs" "dseg t g None xs None" "distinct xs"
    "\<And>x. x \<in> set xs \<Longrightarrow> \<exists>n. (x, n) \<in> frees 4 bs \<and> get_index n = i"
    "\<And>x n. (x, n) \<in> frees 4 bs \<Longrightarrow> get_index n = i \<Longrightarrow> x \<in> Z' \<or> x \<in> set xs"
    "\<And>x n. (x, n) \<in> frees 4 bs \<Longrightarrow> get_index n \<noteq> i \<Longrightarrow> x \<in> Z \<Longrightarrow> x \<in> Z'"
    "\<And>x. x \<in> Z' \<Longrightarrow> \<exists>n. (x, n) \<in> frees 4 bs \<and> x \<notin> set ((ls(i := xs)) (get_index n))"
  shows "lists_ok t g bs (ls(i := xs)) Z'"
proof -
  note L = lists_okD [OF assms(3)]
  have disj: "set (ls i) \<inter> set (ls j) = {}" if "j \<noteq> i" for j
    using L(3) [of _ i] L(3) [of _ j] free_unique [OF assms(1,2)] that by blast
  have d: "dseg t g None (ls j) None" if "j \<noteq> i" for j
  proof (rule dseg_links [OF assms(4)])
    have "set (ls i) \<union> N \<union> set (ls j) \<subseteq> fst ` frees 4 bs" using listed_free [OF assms(3)] assms(6) by auto
    then show "apart8 (set (ls i) \<union> N \<union> set (ls j))" by (rule apart8_subset [OF nodes_apart [OF assms(1,2)]])
    show "(set (ls i) \<union> N) \<inter> set (ls j) = {}" using disj [OF that] assms(5) by blast
    show "dseg t f None (ls j) None" by (rule L(1))
  qed
  show ?thesis
    unfolding lists_ok_def
  proof (intro conjI allI ballI impI)
    fix j
    show "dseg t g None ((ls(i := xs)) j) None" "distinct ((ls(i := xs)) j)" using d assms(7,8) L(2) by simp_all
    show "\<exists>n. (x, n) \<in> frees 4 bs \<and> get_index n = j" if "x \<in> set ((ls(i := xs)) j)" for x
      using that assms(9) L(3) [of x j] by (cases "j = i") simp_all
  next
    fix x n assume x: "(x, n) \<in> frees 4 bs"
    show "x \<in> Z' \<or> x \<in> set ((ls(i := xs)) (get_index n))"
      using L(4) [OF x] assms(10,11) [OF x] by (cases "get_index n = i") auto
  next
    fix x assume "x \<in> Z'"
    then show "\<exists>n. (x, n) \<in> frees 4 bs \<and> x \<notin> set ((ls(i := xs)) (get_index n))" by (rule assms(12))
  qed
qed

lemma free_lists_update:
  "i < SEGLIST_COUNT \<Longrightarrow> (map (\<lambda>i. first (ls i)) [0..<SEGLIST_COUNT])[i := first xs] = map (\<lambda>j. first ((ls(i := xs)) j)) [0..<SEGLIST_COUNT]"
  by (rule nth_equalityI) (auto simp: nth_list_update)

lemma nodes_in_heap:
  assumes "blocks m bs" "big bs" "S \<subseteq> fst ` frees 4 bs"
  shows "\<forall>x \<in> S. in_heap (Some x)"
proof
  fix x assume "x \<in> S"
  with assms(3) obtain k where "(x, k) \<in> frees 4 bs" by (auto simp: image_iff)
  from node_ok(1,3) [OF assms(1,2) this] show "in_heap (Some x)" by simp
qed

lemma free_size:
  assumes "blocks m bs" "(bp, n) \<in> frees 4 bs"
  shows "GET_SIZE m (HDRP bp) = Some n"
proof -
  from frees_split [OF assms(2)] obtain xs ys where b: "bs = xs @ (n, False) # ys" "bp = 8 + span xs" by auto
  from block_at(9) [OF assms(1) [unfolded b(1)] b(2)] show ?thesis by (simp add: HDRP_def)
qed

text \<open>The run of \<open>delete_node\<close> on a list.\<close>

lemma delete_run:
  assumes t: "fits32 t" and w: "seg_wf t s bs ls Z" and n: "(bp, n) \<in> frees 4 bs" and l: "ls (get_index n) = as @ bp # cs"
  shows "delete_node t bp s = Some (bytes_to (unlinked t as cs (byte_at (seg_mm s)))
    (s\<lparr>free_lists := (if as = [] then (free_lists s)[get_index n := first cs] else free_lists s)\<rparr>))"
proof -
  let ?f = "byte_at (seg_mm s)" and ?i = "get_index n" and ?p = "last_or None as" and ?q = "first cs"
  note W = seg_wfD [OF w]
  note L = lists_okD [OF W(5)]
  have fr: "set (as @ bp # cs) \<subseteq> fst ` frees 4 bs" using listed_free [OF W(5), of ?i] l by simp
  have node: "8 \<le> x \<and> x + 8 \<le> mem_brk (seg_mm s) \<and> x < MAX_HEAP" if "x \<in> set (as @ bp # cs)" for x
  proof -
    from fr that obtain k where "(x, k) \<in> frees 4 bs" by (auto simp: image_iff)
    from node_ok(1-3) [OF W(1,2) this] show ?thesis by simp
  qed
  have ap: "apart8 (set (as @ bp # cs))" by (rule apart8_subset [OF nodes_apart [OF W(1,2)] fr])
  have ds: "distinct (as @ bp # cs)" using L(2) [of ?i] l by simp
  have ih: "in_heap (Some x)" if "x \<in> set (as @ bp # cs)" for x using node [OF that] by simp
  have hp: "in_heap ?p" using ih [of "last as"] by (cases "as = []") (simp_all add: last_or_def)
  have hq: "in_heap ?q" using ih [of "hd cs"] by (cases cs) simp_all
  have d: "word_at ?f bp = to_ptr t ?p" "word_at ?f (bp + 4) = to_ptr t ?q"
    using L(1) [of ?i] l by (simp_all add: dseg_append)
  have b: "0 \<le> bp" "bp + 8 \<le> mem_brk (seg_mm s)" using node [of bp] by simp_all
  have g: "GET_PRED t s bp = Some ?p" "GET_SUCC t s bp = Some ?q"
    unfolding GET_PRED_def GET_SUCC_def by (rule load32 [OF t]; use b d hp hq in simp)+
  define g1 where "g1 = (if as = [] then ?f else put_word (last as + 4) (to_ptr t ?q) ?f)"
  define s1 where "s1 = bytes_to g1 (s\<lparr>free_lists := (if as = [] then (free_lists s)[?i := ?q] else free_lists s)\<rparr>)"
  have r1: "(case ?p of Some a \<Rightarrow> SET_SUCC t a ?q s | None \<Rightarrow> Some (s\<lparr>free_lists := (free_lists s)[?i := ?q]\<rparr>)) = Some s1"
  proof (cases as rule: rev_cases)
    case (snoc us z)
    have "store_ptr t (z + 4) ?q s = Some (bytes_to (put_word (z + 4) (to_ptr t ?q) ?f) s)"
      by (rule store32 [OF t]) (use node [of z] snoc hq in auto)
    then show ?thesis using snoc by (simp add: s1_def g1_def SET_SUCC_def last_or_def)
  qed (simp add: s1_def g1_def)
  have w1: "word_at g1 bp = to_ptr t ?p" "word_at g1 (bp + 4) = to_ptr t ?q"
  proof -
    have "bp + 8 \<le> last as \<or> last as + 8 \<le> bp" if "as \<noteq> []"
    proof -
      have "last as \<in> set as" "bp \<noteq> last as" using that ds by auto
      then show ?thesis using apart8D [OF ap, of bp "last as"] by auto
    qed
    then have "word_at g1 bp = word_at ?f bp" "word_at g1 (bp + 4) = word_at ?f (bp + 4)"
      unfolding g1_def by (auto intro!: word_put_other)
    then show "word_at g1 bp = to_ptr t ?p" "word_at g1 (bp + 4) = to_ptr t ?q" using d by simp_all
  qed
  have g2: "GET_PRED t s1 bp = Some ?p" "GET_SUCC t s1 bp = Some ?q"
    unfolding GET_PRED_def GET_SUCC_def by (rule load32 [OF t]; use b w1 hp hq in \<open>simp add: s1_def\<close>)+
  have r2: "(case ?q of None \<Rightarrow> Some s1 | Some y \<Rightarrow> SET_PRED t y ?p s1) = Some (bytes_to (unlinked t as cs ?f) s1)"
  proof (cases cs)
    case Nil
    then show ?thesis by (simp add: unlinked_def s1_def g1_def)
  next
    case (Cons y ys)
    have "store_ptr t y ?p s1 = Some (bytes_to (put_word y (to_ptr t ?p) (byte_at (seg_mm s1))) s1)"
      by (rule store32 [OF t]) (use node [of y] Cons hp in \<open>auto simp: s1_def\<close>)
    then show ?thesis using Cons by (simp add: unlinked_def s1_def g1_def SET_PRED_def)
  qed
  have "delete_node t bp s = (case ?q of None \<Rightarrow> Some s1 | Some y \<Rightarrow> SET_PRED t y ?p s1)"
    using r1 by (simp add: delete_node_def free_size [OF W(1) n] g g2 Let_def)
  also note r2
  finally show ?thesis by (simp add: s1_def)
qed

lemma delete_node_ok:
  assumes t: "fits32 t" and w: "seg_wf t s bs ls Z" and n: "(bp, n) \<in> frees 4 bs" and z: "bp \<notin> Z"
  shows "\<exists>s' ls'. delete_node t bp s = Some s' \<and> seg_wf t s' bs ls' (insert bp Z) \<and> list_step bs s s'"
proof -
  let ?f = "byte_at (seg_mm s)" and ?i = "get_index n"
  note W = seg_wfD [OF w]
  note L = lists_okD [OF W(5)]
  have "bp \<in> set (ls ?i)" using L(4) [OF n] z by blast
  then obtain as cs where l: "ls ?i = as @ bp # cs" by (meson split_list)
  have ds: "distinct (as @ bp # cs)" using L(2) [of ?i] l by simp
  have fr: "set (as @ bp # cs) \<subseteq> fst ` frees 4 bs" using listed_free [OF W(5), of ?i] l by simp
  let ?g = "unlinked t as cs ?f"
  let ?s = "bytes_to ?g (s\<lparr>free_lists := (if as = [] then (free_lists s)[?i := first cs] else free_lists s)\<rparr>)"
  have lo: "links_only (set (ls ?i) \<union> {}) ?f ?g"
    using links_unlinked [of as cs ?f t] unfolding l links_only_def by auto
  have "dseg t ?f None (as @ bp # cs) None" using L(1) [of ?i] l by simp
  then have d: "dseg t ?g None (as @ cs) None"
  proof (rule dseg_unlinked [OF _ ds apart8_subset [OF nodes_apart [OF W(1,2)] fr] t])
    show "\<forall>x \<in> set (as @ bp # cs). in_heap (Some x)" by (rule nodes_in_heap [OF W(1,2) fr])
  qed
  have ok: "lists_ok t ?g bs (ls(?i := as @ cs)) (insert bp Z)"
  proof (rule lists_ok_update [OF W(1,2,5) lo _ _ d])
    show "distinct (as @ cs)" using ds by simp
    show "\<exists>k. (x, k) \<in> frees 4 bs \<and> get_index k = ?i" if "x \<in> set (as @ cs)" for x
      using L(3) [of x ?i] that l by auto
    show "x \<in> insert bp Z \<or> x \<in> set (as @ cs)" if "(x, k) \<in> frees 4 bs" "get_index k = ?i" for x k
      using L(4) [OF that(1)] that(2) l by auto
    show "\<exists>k. (x, k) \<in> frees 4 bs \<and> x \<notin> set ((ls(?i := as @ cs)) (get_index k))" if "x \<in> insert bp Z" for x
    proof (cases "x = bp")
      case True
      then show ?thesis using n ds by (intro exI [of _ n]) auto
    next
      case False
      with that L(5) obtain k where "(x, k) \<in> frees 4 bs" "x \<notin> set (ls (get_index k))" by blast
      then show ?thesis using l by (intro exI [of _ k]) auto
    qed
  qed auto
  have st: "list_step bs s ?s"
    using lo fr unfolding list_step_def l links_only_def by auto
  have fl: "free_lists ?s = map (\<lambda>j. first ((ls(?i := as @ cs)) j)) [0..<SEGLIST_COUNT]"
  proof (cases "as = []")
    case True
    then show ?thesis using W(4) free_lists_update [OF get_index_less, of ls n cs] by simp
  next
    case False
    then show ?thesis using W(4) l by (cases as) (auto simp: fun_upd_def)
  qed
  have "seg_wf t ?s bs (ls(?i := as @ cs)) (insert bp Z)"
    by (rule list_step_wf [OF w st, where ls' = "ls(?i := as @ cs)"]) (use ok fl in simp_all)
  then show ?thesis using delete_run [OF t w n l] st by blast
qed

lemma insert_run:
  assumes t: "fits32 t" and w: "seg_wf t s bs ls Z" and n: "(bp, n) \<in> frees 4 bs"
  shows "insert_node t bp n s = Some (bytes_to (linked t bp (ls (get_index n)) (byte_at (seg_mm s)))
    (s\<lparr>free_lists := (free_lists s)[get_index n := Some bp]\<rparr>))"
proof -
  let ?f = "byte_at (seg_mm s)" and ?i = "get_index n"
  define xs where "xs = ls ?i"
  note W = seg_wfD [OF w]
  have fr: "set xs \<subseteq> fst ` frees 4 bs" unfolding xs_def by (rule listed_free [OF W(5)])
  note ih = nodes_in_heap [OF W(1,2) fr]
  have fl: "free_lists s ! ?i = first xs" using W(4) get_index_less [of n] by (simp add: xs_def)
  have b: "0 \<le> bp" "bp + 8 \<le> mem_brk (seg_mm s)" using node_ok(1,2) [OF W(1,2) n] by simp_all
  have hq: "in_heap (first xs)" "in_heap (Some bp)" using ih node_ok(1,3) [OF W(1,2) n] by (cases xs; simp)+
  let ?g1 = "put_word (bp + 4) (to_ptr t (first xs)) ?f"
  let ?g2 = "put_word bp 0 ?g1"
  have r1: "SET_SUCC t bp (first xs) s = Some (bytes_to ?g1 s)"
    unfolding SET_SUCC_def by (rule store32 [OF t]) (use b hq in simp_all)
  have r2: "SET_PRED t bp None (bytes_to ?g1 s) = Some (bytes_to ?g2 s)"
    using store32 [OF t, of bp "bytes_to ?g1 s" None] b by (simp add: SET_PRED_def to_ptr_def)
  have r3: "(case first xs of None \<Rightarrow> Some (bytes_to ?g2 s) | Some h \<Rightarrow> SET_PRED t h (Some bp) (bytes_to ?g2 s)) =
      Some (bytes_to (linked t bp xs ?f) s)"
  proof (cases xs)
    case Nil
    then show ?thesis by (simp add: linked_def)
  next
    case (Cons y ys)
    then obtain k where y: "(y, k) \<in> frees 4 bs" using fr by (auto simp: image_iff)
    have "store_ptr t y (Some bp) (bytes_to ?g2 s) = Some (bytes_to (put_word y (to_ptr t (Some bp)) ?g2) (bytes_to ?g2 s))"
      using store32 [OF t, of y "bytes_to ?g2 s" "Some bp"] node_ok(1,2) [OF W(1,2) y] hq by simp
    then show ?thesis using Cons by (simp add: linked_def SET_PRED_def)
  qed
  show ?thesis unfolding xs_def [symmetric] using r1 r2 r3 fl by (simp add: insert_node_def Let_def)
qed

lemma not_listed:
  assumes w: "seg_wf t s bs ls Z" and x: "x \<in> Z"
  shows "x \<notin> set (ls j)"
proof
  note W = seg_wfD [OF w]
  note L = lists_okD [OF W(5)]
  assume h: "x \<in> set (ls j)"
  from L(3) [OF h] obtain k where k: "(x, k) \<in> frees 4 bs" "get_index k = j" by blast
  from L(5) [OF x] obtain k' where k': "(x, k') \<in> frees 4 bs" "x \<notin> set (ls (get_index k'))" by blast
  show False using free_unique [OF W(1,2) k(1) k'(1)] k(2) k'(2) h by simp
qed

lemma insert_node_ok:
  assumes t: "fits32 t" and w: "seg_wf t s bs ls Z" and n: "(bp, n) \<in> frees 4 bs" and z: "bp \<in> Z"
  shows "\<exists>s' ls'. insert_node t bp n s = Some s' \<and> seg_wf t s' bs ls' (Z - {bp}) \<and> list_step bs s s'"
proof -
  let ?f = "byte_at (seg_mm s)" and ?i = "get_index n"
  define xs where "xs = ls ?i"
  note W = seg_wfD [OF w]
  note L = lists_okD [OF W(5)]
  note nz = not_listed [OF w]
  have fr: "set (bp # xs) \<subseteq> fst ` frees 4 bs" using listed_free [OF W(5), of ?i] n by (force simp: xs_def)
  have ds: "distinct (bp # xs)" using L(2) [of ?i] nz [OF z, of ?i] by (simp add: xs_def)
  let ?g = "linked t bp xs ?f"
  let ?s = "bytes_to ?g (s\<lparr>free_lists := (free_lists s)[?i := Some bp]\<rparr>)"
  have lo: "links_only (set (ls ?i) \<union> {bp}) ?f ?g" using links_linked [of bp xs ?f t] by (simp add: xs_def)
  have d: "dseg t ?g None (bp # xs) None"
    by (rule dseg_linked [OF _ ds apart8_subset [OF nodes_apart [OF W(1,2)] fr] t nodes_in_heap [OF W(1,2) fr]])
      (simp add: xs_def L(1))
  have ok: "lists_ok t ?g bs (ls(?i := bp # xs)) (Z - {bp})"
  proof (rule lists_ok_update [OF W(1,2,5) lo _ _ d ds])
    show "{bp} \<inter> (\<Union>j. set (ls j)) = {}" using nz [OF z] by auto
    show "{bp} \<subseteq> fst ` frees 4 bs" using fr by simp
    show "\<exists>k. (x, k) \<in> frees 4 bs \<and> get_index k = ?i" if "x \<in> set (bp # xs)" for x
      using L(3) [of x ?i] that n by (auto simp: xs_def)
    show "x \<in> Z - {bp} \<or> x \<in> set (bp # xs)" if "(x, k) \<in> frees 4 bs" "get_index k = ?i" for x k
      using L(4) [OF that(1)] that(2) by (auto simp: xs_def)
    show "x \<in> Z - {bp}" if "(x, k) \<in> frees 4 bs" "get_index k \<noteq> ?i" "x \<in> Z" for x k
      using that free_unique [OF W(1,2) n, of k] by auto
    show "\<exists>k. (x, k) \<in> frees 4 bs \<and> x \<notin> set ((ls(?i := bp # xs)) (get_index k))" if x: "x \<in> Z - {bp}" for x
    proof -
      from L(5) [of x] x obtain k where k: "(x, k) \<in> frees 4 bs" by blast
      then show ?thesis using nz [of x] x by (intro exI [of _ k]) (auto simp: xs_def)
    qed
  qed
  have st: "list_step bs s ?s"
    using lo fr unfolding list_step_def links_only_def by (auto simp: xs_def)
  have fl: "free_lists ?s = map (\<lambda>j. first ((ls(?i := bp # xs)) j)) [0..<SEGLIST_COUNT]"
    using W(4) free_lists_update [OF get_index_less, of ls n "bp # xs"] by simp
  have "seg_wf t ?s bs (ls(?i := bp # xs)) (Z - {bp})"
    by (rule list_step_wf [OF w st, where ls' = "ls(?i := bp # xs)"]) (use ok fl in simp_all)
  then show ?thesis using insert_run [OF t w n] st unfolding xs_def by blast
qed

section \<open>Rewriting tags\<close>

lemma seg_tag:
  assumes v: "valid (bp - 4) (seg_mm s)" "valid (bp + n - 8) (seg_mm s)" and n: "8 \<le> n" "n mod 8 = 0" "n < 2 ^ 31"
  shows "Option.bind (seg_put (HDRP bp) (PACK n (of_bool a)) s) (\<lambda>s. Option.bind (FTRP (seg_mm s) bp) (\<lambda>f.
      Option.bind (seg_put f (PACK n (of_bool a)) s) k)) = k (bytes_to (set_block (bp - 4) n a (byte_at (seg_mm s))) s)"
  using tag_block [OF v n, of a "\<lambda>m. k (s\<lparr>seg_mm := m\<rparr>)"] by (simp add: seg_put_def Option.bind_map_option comp_def)

lemmas seg_tag_free = seg_tag [where a = False, simplified of_bool_eq(1)]
lemmas seg_tag_used = seg_tag [where a = True, simplified of_bool_eq(2)]

text \<open>A stretch of blocks whose free blocks are exactly those in no list may be rewritten.\<close>

lemma wf_replace:
  assumes w: "seg_wf t s (xs @ mid @ ys) ls Z" and z: "Z = fst ` frees (4 + span xs) mid"
    and b: "blocks ((seg_mm s)\<lparr>byte_at := g\<rparr>) (xs @ mid' @ ys)" "big (xs @ mid' @ ys)" "span mid' = span mid"
    and out: "\<forall>a. a < 4 + span xs \<or> 4 + span xs + span mid \<le> a \<longrightarrow> g a = byte_at (seg_mm s) a"
  shows "seg_wf t (bytes_to g s) (xs @ mid' @ ys) ls (fst ` frees (4 + span xs) mid')"
proof -
  let ?bs = "xs @ mid @ ys" and ?bs' = "xs @ mid' @ ys" and ?p = "4 + span xs"
  note W = seg_wfD [OF w]
  note L = lists_okD [OF W(5)]
  note B = blocksD(3) [OF W(1), unfolded lay_append] and B' = blocksD(3) [OF b(1), unfolded lay_append]
  have f: "frees 4 ?bs = frees 4 xs \<union> frees ?p mid \<union> frees (?p + span mid) ys"
    "frees 4 ?bs' = frees 4 xs \<union> frees ?p mid' \<union> frees (?p + span mid) ys" by (auto simp: frees_append add.assoc b(3))
  have side: "x + 8 \<le> ?p \<or> ?p + span mid + 4 \<le> x" if "(x, k) \<in> frees 4 xs \<union> frees (?p + span mid) ys" for x k
  proof -
    have k: "16 \<le> k" using that f(1) frees_big [OF W(2), of x k] by auto
    from that consider "(x, k) \<in> frees 4 xs" | "(x, k) \<in> frees (?p + span mid) ys" by blast
    then show ?thesis
    proof cases
      case 1
      then show ?thesis using frees_range [OF _ 1] B k by fastforce
    next
      case 2
      then show ?thesis using frees_range [OF _ 2] B by (auto simp: add.assoc)
    qed
  qed
  have mid: "?p + 4 \<le> x \<and> x \<le> ?p + span mid" if "(x, k) \<in> frees ?p mid \<union> frees ?p mid'" for x k
  proof -
    from that consider "(x, k) \<in> frees ?p mid" | "(x, k) \<in> frees ?p mid'" by blast
    then show ?thesis
    proof cases
      case 1
      then show ?thesis using frees_range [OF _ 1, of "byte_at (seg_mm s)"] B by auto
    next
      case 2
      then show ?thesis using frees_range [OF _ 2, of g] B' b(3) by auto
    qed
  qed
  have listed: "\<exists>k. (x, k) \<in> frees 4 xs \<union> frees (?p + span mid) ys \<and> get_index k = i" if x: "x \<in> set (ls i)" for x i
  proof -
    from L(3) [OF x] obtain k where k: "(x, k) \<in> frees 4 ?bs" "get_index k = i" by blast
    have "x \<notin> Z" using not_listed [OF w] x by blast
    then have "(x, k) \<notin> frees ?p mid" unfolding z by force
    with k show ?thesis unfolding f(1) by blast
  qed
  have "lists_ok t g ?bs' ls (fst ` frees ?p mid')"
    unfolding lists_ok_def
  proof (intro conjI allI impI ballI)
    fix i
    show "distinct (ls i)" by (rule L(2))
    show "\<exists>n. (x, n) \<in> frees 4 ?bs' \<and> get_index n = i" if "x \<in> set (ls i)" for x
      using listed [OF that] unfolding f(2) by blast
    show "dseg t g None (ls i) None"
    proof (rule dseg_cong [OF _ L(1) [of i]], intro ballI allI impI)
      fix x a assume x: "x \<in> set (ls i)" "x \<le> a \<and> a < x + 8"
      from listed [OF x(1)] side have "x + 8 \<le> ?p \<or> ?p + span mid + 4 \<le> x" by blast
      then have "a < ?p \<or> ?p + span mid \<le> a" using x(2) by linarith
      then show "g a = byte_at (seg_mm s) a" using out by blast
    qed
  next
    fix x n assume x: "(x, n) \<in> frees 4 ?bs'"
    show "x \<in> fst ` frees ?p mid' \<or> x \<in> set (ls (get_index n))"
    proof (cases "(x, n) \<in> frees ?p mid'")
      case True
      then show ?thesis by force
    next
      case False
      with x have s: "(x, n) \<in> frees 4 xs \<union> frees (?p + span mid) ys" unfolding f(2) by blast
      then have "x \<notin> Z" using side [OF s] mid unfolding z by force
      then show ?thesis using L(4) [of x n] s unfolding f(1) by blast
    qed
  next
    fix x assume "x \<in> fst ` frees ?p mid'"
    then obtain n where n: "(x, n) \<in> frees ?p mid'" by auto
    have "x \<notin> set (ls (get_index n))"
    proof
      assume "x \<in> set (ls (get_index n))"
      from listed [OF this] side have "x + 8 \<le> ?p \<or> ?p + span mid + 4 \<le> x" by blast
      then show False using mid [of x n] n by auto
    qed
    then show "\<exists>n. (x, n) \<in> frees 4 ?bs' \<and> x \<notin> set (ls (get_index n))" using n unfolding f(2) by blast
  qed
  then show ?thesis using W(3,4) b by (simp add: seg_wf_def)
qed

lemma wf_one:
  assumes w: "seg_wf t s (xs @ mid @ ys) ls Z" and z: "Z = fst ` frees (4 + span xs) mid" and ne: "xs \<noteq> []"
    and n: "span mid = n" "16 \<le> n"
  shows "seg_wf t (bytes_to (set_block (4 + span xs) n a (byte_at (seg_mm s))) s) (xs @ (n, a) # ys) ls (if a then {} else {8 + span xs})"
    "kept (live xs \<union> lives (4 + span xs + n) ys) (seg_mm s) (seg_mm (bytes_to (set_block (4 + span xs) n a (byte_at (seg_mm s))) s))"
proof -
  note W = seg_wfD [OF w]
  note S = blocks_small [OF W(1)]
  let ?g = "set_block (4 + span xs) n a (byte_at (seg_mm s))"
  have b: "blocks ((seg_mm s)\<lparr>byte_at := ?g\<rparr>) (xs @ [(n, a)] @ ys)"
    using set_block_ok [OF W(1) n(1), of a] S n by simp
  have bg: "big xs" "\<forall>b \<in> set ys. 16 \<le> fst b" using W(2) by (simp_all add: big_append [OF ne])
  have out: "\<forall>x. x < 4 + span xs \<or> 4 + span xs + span mid \<le> x \<longrightarrow> ?g x = byte_at (seg_mm s) x"
    using set_block_outside [of n] n by simp
  have "seg_wf t (bytes_to ?g s) (xs @ [(n, a)] @ ys) ls (fst ` frees (4 + span xs) [(n, a)])"
    by (rule wf_replace [OF w z b _ _ out]) (use bg n in \<open>simp_all add: big_append [OF ne]\<close>)
  then show "seg_wf t (bytes_to ?g s) (xs @ (n, a) # ys) ls (if a then {} else {8 + span xs})" by (simp split: if_splits)
  show "kept (live xs \<union> lives (4 + span xs + n) ys) (seg_mm s) (seg_mm (bytes_to ?g s))"
    by (rule kept_outside [OF W(1) bg(1)]) (use out n(1) in simp_all)
qed

lemma list_step_frame:
  assumes "seg_wf t s bs ls Z" "list_step bs s s'"
  shows "kept (live bs) (seg_mm s) (seg_mm s')" "mem_brk (seg_mm s') = mem_brk (seg_mm s)"
proof -
  note W = seg_wfD [OF assms(1)]
  have e: "seg_mm s' = (seg_mm s)\<lparr>byte_at := byte_at (seg_mm s')\<rparr>" using assms(2) by (simp add: list_step_def)
  show "kept (live bs) (seg_mm s) (seg_mm s')"
    by (subst e, rule kept_links [OF W(1,2)]) (use assms(2) in \<open>simp add: list_step_def\<close>)
  show "mem_brk (seg_mm s') = mem_brk (seg_mm s)" by (subst e) simp
qed

section \<open>Coalescing\<close>

lemma merge_prev_ok:
  assumes t: "fits32 t" and w: "seg_wf t s (us @ (p, False) # (n, False) # ys) ls {bp}" and bp: "bp = 8 + span us + p"
    and ne: "us \<noteq> []"
  shows "\<exists>s' ls'. merge_prev t bp n s = Some (8 + span us, p + n, s') \<and> seg_wf t s' (us @ (p + n, False) # ys) ls' {8 + span us} \<and>
    kept (live (us @ (p, False) # (n, False) # ys)) (seg_mm s) (seg_mm s') \<and> mem_brk (seg_mm s') = mem_brk (seg_mm s)"
proof -
  let ?bs = "us @ (p, False) # (n, False) # ys" and ?pb = "8 + span us"
  note W = seg_wfD [OF w]
  have bg: "big us" "16 \<le> p" "16 \<le> n" using W(2) by (simp_all add: big_append [OF ne])
  have fr: "(?pb, p) \<in> frees 4 ?bs" by (simp add: frees_append)
  from delete_node_ok [OF t w fr] bp bg obtain s1 ls1 where
    s1: "delete_node t ?pb s = Some s1" "seg_wf t s1 ?bs ls1 {?pb, bp}" "list_step ?bs s s1" by auto
  note k1 = list_step_frame [OF w s1(3)]
  have prev: "PREV_BLKP (seg_mm s) bp = Some ?pb" using block_at(15) [OF W(1) refl] bp by simp
  note W1 = seg_wfD [OF s1(2)]
  have b1: "blocks (seg_mm s1) (us @ [(p, False), (n, False)] @ ys)" using W1(1) by simp
  note P = block_at [OF W1(1) refl]
  have b2: "blocks (seg_mm s1) ((us @ [(p, False)]) @ (n, False) # ys)" using W1(1) by simp
  have bp2: "bp = 8 + span (us @ [(p, False)])" using bp by simp
  note C = block_at [OF b2 bp2]
  note S = blocks_small [OF b1]
  have st: "p + n < 2 ^ 31" "(p + n) mod 8 = 0" "8 \<le> p + n" using S bg by simp_all
  have v: "valid (?pb - 4) (seg_mm s1)" "valid (?pb + (p + n) - 8) (seg_mm s1)"
    using P(1) C(2) bp by (simp_all add: add.assoc)
  let ?s2 = "bytes_to (set_block (?pb - 4) (p + n) False (byte_at (seg_mm s1))) s1"
  have "merge_prev t bp n s = Some (?pb, p + n, ?s2)"
    using prev s1(1) P(9,15) st bp seg_tag_free [OF v st(3,2,1), of "\<lambda>s. Some (?pb, p + n, s)"]
    by (simp add: merge_prev_def HDRP_def Let_def add.commute [of n p] size_range_mod)
  moreover have w2: "seg_wf t s1 (us @ [(p, False), (n, False)] @ ys) ls1 {?pb, bp}" using s1(2) by simp
  have z2: "{?pb, bp} = fst ` frees (4 + span us) [(p, False), (n, False)]" using bp by auto
  have "seg_wf t ?s2 (us @ (p + n, False) # ys) ls1 {?pb}"
    "kept (live us \<union> lives (4 + span us + (p + n)) ys) (seg_mm s1) (seg_mm ?s2)"
    using wf_one [OF w2 z2 ne, of "p + n" False] bg by simp_all
  moreover have "live ?bs = live us \<union> lives (4 + span us + (p + n)) ys"
    using live_append [OF bg(1)] by (simp add: add.assoc)
  ultimately show ?thesis using kept_trans [OF k1(1)] k1(2) by auto
qed

lemma merge_next_ok:
  assumes t: "fits32 t" and w: "seg_wf t s (xs @ (l, False) # (n, False) # zs) ls {bp}" and bp: "bp = 8 + span xs"
    and ne: "xs \<noteq> []"
  shows "\<exists>s' ls'. merge_next t bp l s = Some (bp, l + n, s') \<and> seg_wf t s' (xs @ (l + n, False) # zs) ls' {bp} \<and>
    kept (live (xs @ (l, False) # (n, False) # zs)) (seg_mm s) (seg_mm s') \<and> mem_brk (seg_mm s') = mem_brk (seg_mm s)"
proof -
  let ?bs = "xs @ (l, False) # (n, False) # zs" and ?nb = "bp + l"
  note W = seg_wfD [OF w]
  have bg: "big xs" "16 \<le> l" "16 \<le> n" using W(2) by (simp_all add: big_append [OF ne])
  have fr: "(?nb, n) \<in> frees 4 ?bs" using bp by (simp add: frees_append)
  from delete_node_ok [OF t w fr] bg obtain s1 ls1 where
    s1: "delete_node t ?nb s = Some s1" "seg_wf t s1 ?bs ls1 {?nb, bp}" "list_step ?bs s s1" by auto
  note k1 = list_step_frame [OF w s1(3)]
  have nxt: "NEXT_BLKP (seg_mm s) bp = Some ?nb" using block_at(12) [OF W(1) bp] .
  note W1 = seg_wfD [OF s1(2)]
  have b1: "blocks (seg_mm s1) (xs @ [(l, False), (n, False)] @ zs)" using W1(1) by simp
  note P = block_at [OF W1(1) bp]
  have b2: "blocks (seg_mm s1) ((xs @ [(l, False)]) @ (n, False) # zs)" using W1(1) by simp
  have nb2: "?nb = 8 + span (xs @ [(l, False)])" using bp by simp
  note C = block_at [OF b2 nb2]
  note S = blocks_small [OF b1]
  have st: "l + n < 2 ^ 31" "(l + n) mod 8 = 0" "8 \<le> l + n" using S bg by simp_all
  have v: "valid (bp - 4) (seg_mm s1)" "valid (bp + (l + n) - 8) (seg_mm s1)"
    using P(1) C(2) by (simp_all add: add.assoc)
  let ?s2 = "bytes_to (set_block (bp - 4) (l + n) False (byte_at (seg_mm s1))) s1"
  have "merge_next t bp l s = Some (bp, l + n, ?s2)"
    using nxt s1(1) P(12) C(9) st seg_tag_free [OF v st(3,2,1), of "\<lambda>s. Some (bp, l + n, s)"]
    by (simp add: merge_next_def HDRP_def Let_def size_range_mod)
  moreover have w2: "seg_wf t s1 (xs @ [(l, False), (n, False)] @ zs) ls1 {?nb, bp}" using s1(2) by simp
  have z2: "{?nb, bp} = fst ` frees (4 + span xs) [(l, False), (n, False)]" using bp by auto
  have "seg_wf t ?s2 (xs @ (l + n, False) # zs) ls1 {bp}"
    "kept (live xs \<union> lives (4 + span xs + (l + n)) zs) (seg_mm s1) (seg_mm ?s2)"
    using wf_one [OF w2 z2 ne, of "l + n" False] bg bp by simp_all
  moreover have "live ?bs = live xs \<union> lives (4 + span xs + (l + n)) zs"
    using live_append [OF bg(1)] by (simp add: add.assoc)
  ultimately show ?thesis using kept_trans [OF k1(1)] k1(2) by auto
qed

lemma seg_coalesce_ok:
  assumes t: "fits32 t" and w: "seg_wf t s (xs @ (n, False) # ys) ls {bp}" and bp: "bp = 8 + span xs" and bx: "big xs"
    and mg: "merge_left xs n = (xs', l)" "merge_right ys l = (ys', r)"
  shows "\<exists>s' ls'. seg_coalesce t bp s = Some (8 + span xs', s') \<and> seg_wf t s' (xs' @ (r, False) # ys') ls' {} \<and>
    kept (live (xs @ (n, False) # ys)) (seg_mm s) (seg_mm s') \<and> mem_brk (seg_mm s') = mem_brk (seg_mm s) \<and>
    live (xs' @ (r, False) # ys') = live (xs @ (n, False) # ys)"
proof -
  let ?bs = "xs @ (n, False) # ys"
  note W = seg_wfD [OF w]
  have ne: "xs \<noteq> []" using bx by (auto simp: big_def)
  obtain us p a where xs: "xs = us @ [(p, a)]" using ne by (metis rev_exhaust surj_pair)
  have bt: "blocks (seg_mm s) (us @ (p, a) # (n, False) # ys)" using W(1) xs by simp
  have p0: "bp - p = 8 + span us" using bp xs by simp
  note P = block_at [OF bt p0]
  note C = block_at [OF W(1) bp]
  have prev: "PREV_BLKP (seg_mm s) bp = Some (bp - p)" "FTRP (seg_mm s) (bp - p) = Some (bp - 8)"
    "GET_ALLOC (seg_mm s) (bp - 8) = Some (of_bool a)" using P by simp_all
  have "\<exists>s1 ls1. (if \<not> a then merge_prev t bp n s else Some (bp, n, s)) = Some (8 + span xs', l, s1) \<and>
      seg_wf t s1 (xs' @ (l, False) # ys) ls1 {8 + span xs'} \<and> kept (live ?bs) (seg_mm s) (seg_mm s1) \<and>
      mem_brk (seg_mm s1) = mem_brk (seg_mm s) \<and> live (xs' @ (l, False) # ys) = live ?bs \<and> big xs'"
  proof (cases a)
    case True
    then have "xs' = xs" "l = n" using mg(1) xs by (simp_all add: merge_left_def)
    then show ?thesis using True w bp bx by (auto simp: kept_def)
  next
    case False
    have us: "us \<noteq> []" using bx xs False by (auto simp: big_def)
    have bu: "big us" using bx xs by (simp add: big_append [OF us])
    have m: "xs' = us" "l = p + n" using mg(1) xs False by (simp_all add: merge_left_def)
    have wu: "seg_wf t s (us @ (p, False) # (n, False) # ys) ls {bp}" using w xs False by simp
    have "live (us @ (p + n, False) # ys) = live ?bs"
      using xs False live_append [OF bu] by (simp add: add.assoc)
    then show ?thesis using merge_prev_ok [OF t wu _ us] p0 False m bu xs by (auto simp: algebra_simps)
  qed
  then obtain s1 ls1 where s1: "(if \<not> a then merge_prev t bp n s else Some (bp, n, s)) = Some (8 + span xs', l, s1)"
    "seg_wf t s1 (xs' @ (l, False) # ys) ls1 {8 + span xs'}" "kept (live ?bs) (seg_mm s) (seg_mm s1)"
    "mem_brk (seg_mm s1) = mem_brk (seg_mm s)" "live (xs' @ (l, False) # ys) = live ?bs" "big xs'" by blast
  have ne': "xs' \<noteq> []" using s1(6) by (auto simp: big_def)
  have "\<exists>s2 ls2. (if \<not> next_used ys then merge_next t (8 + span xs') l s1 else Some (8 + span xs', l, s1)) = Some (8 + span xs', r, s2) \<and>
      seg_wf t s2 (xs' @ (r, False) # ys') ls2 {8 + span xs'} \<and> kept (live ?bs) (seg_mm s1) (seg_mm s2) \<and>
      mem_brk (seg_mm s2) = mem_brk (seg_mm s1) \<and> live (xs' @ (r, False) # ys') = live ?bs"
  proof (cases "next_used ys")
    case True
    then have "ys' = ys" "r = l" using mg(2) by (simp_all add: merge_right_def)
    then show ?thesis using True s1(2,5) by (auto simp: kept_def)
  next
    case False
    then obtain k zs where ys: "ys = (k, False) # zs" by (cases ys) (auto simp: next_used_def)
    have m: "ys' = zs" "r = l + k" using mg(2) ys False by (simp_all add: merge_right_def)
    have "live (xs' @ (l + k, False) # zs) = live ?bs"
      using s1(5) ys live_append [OF s1(6)] by (simp add: add.assoc)
    then show ?thesis using merge_next_ok [OF t s1(2) [unfolded ys] refl ne'] False m ys s1(5) by auto
  qed
  then obtain s2 ls2 where s2:
    "(if \<not> next_used ys then merge_next t (8 + span xs') l s1 else Some (8 + span xs', l, s1)) = Some (8 + span xs', r, s2)"
    "seg_wf t s2 (xs' @ (r, False) # ys') ls2 {8 + span xs'}" "kept (live ?bs) (seg_mm s1) (seg_mm s2)"
    "mem_brk (seg_mm s2) = mem_brk (seg_mm s1)" "live (xs' @ (r, False) # ys') = live ?bs" by blast
  have "(8 + span xs', r) \<in> frees 4 (xs' @ (r, False) # ys')" by (simp add: frees_append)
  from insert_node_ok [OF t s2(2) this] obtain s3 ls3 where
    s3: "insert_node t (8 + span xs') r s2 = Some s3" "seg_wf t s3 (xs' @ (r, False) # ys') ls3 {}"
    "list_step (xs' @ (r, False) # ys') s2 s3" by auto
  note k3 = list_step_frame [OF s2(2) s3(3)]
  have "seg_coalesce t bp s = Some (8 + span xs', s3)"
    using s1(1) s2(1) s3(1) prev C(9,12,16) by (cases a; cases "next_used ys"; simp add: seg_coalesce_def HDRP_def)
  moreover have "kept (live ?bs) (seg_mm s) (seg_mm s3)"
    using kept_trans [OF s1(3) kept_trans [OF s2(3)]] k3(1) s2(5) by simp
  ultimately show ?thesis using s3(2) k3(2) s2(4,5) s1(4) by auto
qed

section \<open>Placement, growth and search\<close>

lemma seg_place_ok:
  assumes t: "fits32 t" and w: "seg_wf t s (us @ (n, False) # vs) ls {}" and ne: "us \<noteq> []"
    and a: "16 \<le> a" "a \<le> n" "a mod 8 = 0"
  shows "\<exists>s' ls'. seg_place t (8 + span us) a s = Some s' \<and> seg_wf t s' (us @ split_block n a @ vs) ls' {} \<and>
    kept (live (us @ (n, False) # vs)) (seg_mm s) (seg_mm s') \<and> mem_brk (seg_mm s') = mem_brk (seg_mm s)"
proof -
  let ?bs = "us @ (n, False) # vs" and ?bp = "8 + span us"
  note W = seg_wfD [OF w]
  have bg: "big us" "16 \<le> n" "\<forall>b \<in> set vs. 16 \<le> fst b" using W(2) by (simp_all add: big_append [OF ne])
  have lv: "live ?bs = live us \<union> lives (4 + span us + n) vs" using live_append [OF bg(1)] by simp
  have fr: "(?bp, n) \<in> frees 4 ?bs" by (simp add: frees_append)
  have gs: "GET_SIZE (seg_mm s) (HDRP ?bp) = Some n" by (rule free_size [OF W(1) fr])
  from delete_node_ok [OF t w fr] obtain s1 ls1 where
    s1: "delete_node t ?bp s = Some s1" "seg_wf t s1 ?bs ls1 {?bp}" "list_step ?bs s s1" by auto
  note k1 = list_step_frame [OF w s1(3)]
  note W1 = seg_wfD [OF s1(2)]
  have w1: "seg_wf t s1 (us @ [(n, False)] @ vs) ls1 {?bp}" using s1(2) by simp
  have z1: "{?bp} = fst ` frees (4 + span us) [(n, False)]" by simp
  note C = block_at [OF W1(1) refl]
  have n31: "n < 2 ^ 31" using blocks_small(4) [of "seg_mm s1" us "[(n, False)]" vs] W1(1) by simp
  have md: "(n - a) mod size_range t = n - a" using n31 a by (simp add: size_range_mod)
  show ?thesis
  proof (cases "n - a \<ge> 16")
    case False
    let ?s2 = "bytes_to (set_block (?bp - 4) n True (byte_at (seg_mm s1))) s1"
    have "seg_place t ?bp a s = Some ?s2"
      using False gs md s1(1) seg_tag_used [OF C(1,2,3,4) n31, of Some] by (simp add: seg_place_def HDRP_def)
    moreover have "seg_wf t ?s2 (us @ (n, True) # vs) ls1 {}"
      "kept (live us \<union> lives (4 + span us + n) vs) (seg_mm s1) (seg_mm ?s2)"
      using wf_one [OF w1 z1 ne, of n True] bg by simp_all
    ultimately show ?thesis using False kept_trans [OF k1(1)] k1(2) lv by (auto simp: split_block_def)
  next
    case True
    let ?g = "set_block (?bp - 4) a True (byte_at (seg_mm s1))"
    let ?f = "set_block (?bp + a - 4) (n - a) False ?g"
    let ?m1 = "bytes_to ?g s1" and ?m2 = "bytes_to ?f s1"
    have a31: "8 \<le> a" "a < 2 ^ 31" "n - a < 2 ^ 31" "8 \<le> n - a" "(n - a) mod 8 = 0"
      using n31 a True C(4) by (simp_all add: mod_diff_eq [symmetric, of n])
    have f: "?f = set_block (4 + span us + a) (n - a) False (set_block (4 + span us) a True (byte_at (seg_mm s1)))"
      by (simp add: algebra_simps)
    have bl: "blocks ((seg_mm s1)\<lparr>byte_at := ?f\<rparr>) (us @ [(a, True), (n - a, False)] @ vs)"
      and out: "\<forall>x. x < 4 + span us \<or> 4 + span us + span [(n, False)] \<le> x \<longrightarrow> ?f x = byte_at (seg_mm s1) x"
      unfolding f using split_tags_ok [OF W1(1) a31(1) a(3) True] by simp_all
    have w2: "seg_wf t ?m2 (us @ [(a, True), (n - a, False)] @ vs) ls1 {?bp + a}"
      using wf_replace [OF w1 z1 bl _ _ out] bg a True by (simp add: big_append [OF ne] add.commute add.left_commute)
    have "(?bp + a, n - a) \<in> frees 4 (us @ [(a, True), (n - a, False)] @ vs)" by (simp add: frees_append)
    from insert_node_ok [OF t w2 this] obtain s3 ls3 where
      s3: "insert_node t (?bp + a) (n - a) ?m2 = Some s3" "seg_wf t s3 (us @ [(a, True), (n - a, False)] @ vs) ls3 {}"
      "list_step (us @ [(a, True), (n - a, False)] @ vs) ?m2 s3" by auto
    note k3 = list_step_frame [OF w2 s3(3)]
    have B: "mem_brk (seg_mm s1) = 8 + (span us + (n + span vs))" using blocksD(1) [OF W1(1)] by simp
    have v: "valid (?bp + a - 8) (seg_mm s1)" "valid (?bp + a - 4) (seg_mm s1)" "valid ((?bp + a) + (n - a) - 8) (seg_mm s1)"
      using C(2,5,6,7) a True unfolding valid_def B by presburger+
    have g: "GET_SIZE (seg_mm ?m1) (?bp - 4) = Some a"
      by (rule GET_SIZE_word [where a = True]) (use C(1) a lay_set_block [OF a31(1) a(3) a31(2), of "?bp - 4" True] in simp_all)
    then have nb: "NEXT_BLKP (seg_mm ?m1) ?bp = Some (?bp + a)" by (simp add: NEXT_BLKP_def)
    let ?k = "\<lambda>s. Option.bind (NEXT_BLKP (seg_mm s) ?bp) (\<lambda>bp. Option.bind (seg_put (HDRP bp) (PACK (n - a) 0) s)
        (\<lambda>s. Option.bind (FTRP (seg_mm s) bp) (\<lambda>f. Option.bind (seg_put f (PACK (n - a) 0) s) (insert_node t bp (n - a)))))"
    have "seg_place t ?bp a s = ?k ?m1"
      using True gs md s1(1) seg_tag_used [OF C(1) v(1) a31(1) a(3) a31(2), of ?k] by (simp add: seg_place_def HDRP_def)
    also have "\<dots> = insert_node t (?bp + a) (n - a) ?m2"
      using nb seg_tag_free [of "?bp + a" ?m1 "n - a" "insert_node t (?bp + a) (n - a)"] v a31 by simp
    finally have run: "seg_place t ?bp a s = Some s3" using s3(1) by simp
    have "kept (live ?bs) (seg_mm s1) (seg_mm ?m2)"
      using kept_outside [OF _ bg(1), of "seg_mm s1" "[(n, False)]" vs "live ?bs" "seg_mm ?m2"] W1(1) lv out by simp
    moreover have "live ?bs \<subseteq> live (us @ [(a, True), (n - a, False)] @ vs)"
      using lv live_append [OF bg(1)] by (auto simp: add.assoc)
    then have "kept (live ?bs) (seg_mm ?m2) (seg_mm s3)" by (rule kept_mono [OF k3(1)])
    ultimately have "kept (live ?bs) (seg_mm s) (seg_mm s3)" using kept_trans [OF k1(1)] kept_trans by blast
    then show ?thesis using run s3(2) k3(2) k1(2) True by (auto simp: split_block_def)
  qed
qed

text \<open>The new block at the end of an extended heap is in no list yet.\<close>

lemma wf_grow:
  assumes w: "seg_wf t s bs ls {}" and n: "16 \<le> n" "n mod 8 = 0" "n < 2 ^ 31" "mem_brk (seg_mm s) + n \<le> MAX_HEAP"
  shows "seg_wf t (s\<lparr>seg_brk := seg_brk s + n, seg_mm := (seg_mm s)\<lparr>mem_brk := mem_brk (seg_mm s) + n,
      byte_at := put_word (8 + span bs + n - 4) 1 (set_block (4 + span bs) n False (byte_at (seg_mm s)))\<rparr>\<rparr>)
    (bs @ [(n, False)]) ls {8 + span bs}"
proof -
  let ?f = "put_word (8 + span bs + n - 4) 1 (set_block (4 + span bs) n False (byte_at (seg_mm s)))"
  note W = seg_wfD [OF w]
  note L = lists_okD [OF W(5)]
  have n8: "8 \<le> n" using n(1) by simp
  note G = grow_tags_ok [OF W(1) n8 n(2-4)]
  have f: "frees 4 (bs @ [(n, False)]) = insert (8 + span bs, n) (frees 4 bs)" by (simp add: frees_append)
  have low: "x + 8 \<le> 4 + span bs" if "(x, k) \<in> frees 4 bs" for x k
    using node_ok(4) [OF W(1,2) that] frees_range [OF blocksD(3) [OF W(1)] that] by linarith
  have new: "8 + span bs \<notin> set (ls i)" for i
  proof
    assume "8 + span bs \<in> set (ls i)"
    from L(3) [OF this] low show False by force
  qed
  have "lists_ok t ?f (bs @ [(n, False)]) ls {8 + span bs}"
    unfolding lists_ok_def f
  proof (intro conjI allI impI ballI)
    fix i
    show "distinct (ls i)" by (rule L(2))
    show "\<exists>k. (x, k) \<in> insert (8 + span bs, n) (frees 4 bs) \<and> get_index k = i" if "x \<in> set (ls i)" for x
      using L(3) [OF that] by blast
    show "dseg t ?f None (ls i) None"
    proof (rule dseg_cong [OF _ L(1) [of i]], intro ballI allI impI)
      fix x a assume x: "x \<in> set (ls i)" "x \<le> a \<and> a < x + 8"
      from L(3) [OF x(1)] low have "x + 8 \<le> 4 + span bs" by blast
      then have "a < 4 + span bs" using x(2) by linarith
      then show "?f a = byte_at (seg_mm s) a" using G(2) by blast
    qed
  next
    fix x k assume "(x, k) \<in> insert (8 + span bs, n) (frees 4 bs)"
    then show "x \<in> {8 + span bs} \<or> x \<in> set (ls (get_index k))" using L(4) by blast
  next
    fix x assume "x \<in> {8 + span bs}"
    then show "\<exists>k. (x, k) \<in> insert (8 + span bs, n) (frees 4 bs) \<and> x \<notin> set (ls (get_index k))" using new by blast
  qed
  moreover have "bs \<noteq> []" using W(2) by (auto simp: big_def)
  ultimately show ?thesis using G(1) W n(1) by (simp add: seg_wf_def big_append)
qed

lemma seg_extend_ok:
  assumes t: "fits32 t" and w: "seg_wf t s bs ls {}" and n: "16 \<le> n" "n mod 8 = 0" "n < 2 ^ 31"
    and mg: "merge_left bs n = (xs', r)"
  shows "if mem_brk (seg_mm s) + n > MAX_HEAP then seg_extend t (n div 4) s = None
    else \<exists>s' ls'. seg_extend t (n div 4) s = Some (Some (8 + span xs'), s') \<and> seg_wf t s' (xs' @ [(r, False)]) ls' {} \<and>
      kept (live bs) (seg_mm s) (seg_mm s') \<and> live (xs' @ [(r, False)]) = live bs"
proof -
  note W = seg_wfD [OF w]
  let ?bp = "8 + span bs"
  have sp: "0 \<le> span bs" "span bs mod 8 = 0" and brk: "mem_brk (seg_mm s) = ?bp" "?bp \<le> MAX_HEAP" using blocksD [OF W(1)] by simp_all
  have nw: "n div 4 mod 2 = 0" "n div 4 * 4 = n" using n(2) by presburger+
  have ti: "to_int n = n" "n mod size_range t = n" using n by (simp_all add: to_int_def size_range_mod)
  let ?s0 = "s\<lparr>seg_brk := seg_brk s + n, seg_mm := (seg_mm s)\<lparr>mem_brk := min (seg_brk s + n) MAX_HEAP\<rparr>\<rparr>"
  let ?k = "\<lambda>s. Option.bind (NEXT_BLKP (seg_mm s) ?bp) (\<lambda>nb. Option.bind (seg_put (HDRP nb) (PACK 0 1) s)
      (\<lambda>s. Option.bind (seg_coalesce t ?bp s) (\<lambda>(bp, s). Some (Some bp, s))))"
  have run: "seg_extend t (n div 4) s = Option.bind (seg_put (HDRP ?bp) (PACK n 0) ?s0) (\<lambda>s. Option.bind (FTRP (seg_mm s) ?bp) (\<lambda>f.
      Option.bind (seg_put f (PACK n 0) s) ?k))"
    using nw ti n(1) W(3) brk(1) by (simp add: seg_extend_def seg_sbrk_def Let_def)
  have m8: "MAX_HEAP mod 8 = 0" by (simp add: MAX_HEAP_def)
  show ?thesis
  proof (cases "mem_brk (seg_mm s) + n > MAX_HEAP")
    case True
    have m0: "mem_brk (seg_mm ?s0) = MAX_HEAP" using True W(3) by simp
    have v: "valid (?bp - 4) (seg_mm ?s0)" unfolding valid_def m0 using sp brk(2) by presburger
    have "\<not> valid (?bp + n - 8) (seg_mm ?s0)"
    proof -
      have "MAX_HEAP < ?bp + n" using True brk(1) by simp
      moreover have "(?bp + n) mod 8 = 0" using sp(2) n(2) by presburger
      ultimately have "MAX_HEAP + 8 \<le> ?bp + n" using m8 by presburger
      then show ?thesis by (simp add: valid_def m0)
    qed
    moreover have p: "PACK n 0 = n" by (simp add: PACK_simps)
    let ?m1 = "(seg_mm ?s0)\<lparr>byte_at := put_word (?bp - 4) n (byte_at (seg_mm ?s0))\<rparr>"
    have put: "PUT (?bp - 4) n (seg_mm ?s0) = Some ?m1" by (rule PUT_ok [OF v]) (use n in simp_all)
    have "GET_SIZE ?m1 (?bp - 4) = Some n"
      by (rule GET_SIZE_word [where a = False]) (use v n in \<open>simp_all add: word_put_same\<close>)
    then have "FTRP ?m1 ?bp = Some (?bp + n - 8)" by (simp add: FTRP_def HDRP_def)
    moreover have "PUT (?bp + n - 8) n ?m1 = None" using calculation(1) by (simp add: PUT_def)
    ultimately have "seg_extend t (n div 4) s = None"
      unfolding run p using put by (simp add: seg_put_def HDRP_def)
    with True show ?thesis by simp
  next
    case False
    then have le: "mem_brk (seg_mm s) + n \<le> MAX_HEAP" by simp
    have m0: "mem_brk (seg_mm ?s0) = ?bp + n" using le W(3) brk(1) by simp
    let ?g = "set_block (?bp - 4) n False (byte_at (seg_mm s))"
    let ?f = "put_word (?bp + n - 4) 1 ?g"
    let ?s1 = "bytes_to ?g ?s0" and ?s2 = "bytes_to ?f ?s0"
    have v: "valid (?bp - 4) (seg_mm ?s0)" "valid (?bp + n - 8) (seg_mm ?s0)" "valid (?bp + n - 4) (seg_mm ?s0)"
      unfolding valid_def m0 using sp n by presburger+
    have n8: "8 \<le> n" using n(1) by simp
    have "seg_extend t (n div 4) s = ?k ?s1" unfolding run using seg_tag_free [OF v(1,2) n8 n(2,3), of ?k] by simp
    moreover have "GET_SIZE (seg_mm ?s1) (?bp - 4) = Some n"
      by (rule GET_SIZE_word [where a = False]) (use v n n8 lay_set_block [OF n8 n(2,3), of "?bp - 4" False] in simp_all)
    then have "NEXT_BLKP (seg_mm ?s1) ?bp = Some (?bp + n)" by (simp add: NEXT_BLKP_def)
    moreover have "PACK 0 1 = 1" by (simp add: PACK_def)
    moreover have "PUT (?bp + n - 4) 1 (seg_mm ?s1) = Some (seg_mm ?s2)" using v(3) by (simp add: PUT_ok)
    ultimately have ext: "seg_extend t (n div 4) s = Option.bind (seg_coalesce t ?bp ?s2) (\<lambda>(bp, s). Some (Some bp, s))"
      by (simp add: seg_put_def HDRP_def)
    have "?s2 = s\<lparr>seg_brk := seg_brk s + n, seg_mm := (seg_mm s)\<lparr>mem_brk := mem_brk (seg_mm s) + n,
        byte_at := put_word (8 + span bs + n - 4) 1 (set_block (4 + span bs) n False (byte_at (seg_mm s)))\<rparr>\<rparr>"
      using le W(3) by (simp add: add_diff_eq)
    with wf_grow [OF w n le] have w2: "seg_wf t ?s2 (bs @ (n, False) # []) ls {?bp}" by simp
    have "merge_right [] r = ([], r)" by (simp add: merge_right_def next_used_def)
    from seg_coalesce_ok [OF t w2 refl W(2) mg this] obtain s' ls' where
      s': "seg_coalesce t ?bp ?s2 = Some (8 + span xs', s')" "seg_wf t s' (xs' @ [(r, False)]) ls' {}"
      "kept (live (bs @ [(n, False)])) (seg_mm ?s2) (seg_mm s')" "live (xs' @ [(r, False)]) = live (bs @ [(n, False)])" by auto
    have lv: "live (bs @ [(n, False)]) = live bs" using live_append [OF W(2)] by simp
    have "kept (live bs) (seg_mm s) (seg_mm ?s2)"
      unfolding kept_def
    proof (intro allI impI, elim conjE)
      fix q k a assume "(q, k) \<in> live bs" "q \<le> a" "a < q + k"
      moreover from this(1) have "(q, k) \<in> lives 4 bs" using live_lives [OF blocksD(3) [OF W(1)] W(2)] by simp
      ultimately have "a < 4 + span bs" using lives_range(2) [OF blocksD(3) [OF W(1)]] by fastforce
      then show "byte_at (seg_mm ?s2) a = byte_at (seg_mm s) a" using grow_tags_ok(2) [OF W(1) n8 n(2,3) le] by (simp add: add_diff_eq)
    qed
    then show ?thesis using False ext s' lv kept_trans by auto
  qed
qed

lemma fit_list_ok:
  assumes t: "fits32 t" and w: "seg_wf t s bs ls Z"
  shows "dseg t (byte_at (seg_mm s)) p xs None \<Longrightarrow> set xs \<subseteq> fst ` frees 4 bs \<Longrightarrow>
    (\<exists>x k. (x, k) \<in> frees 4 bs \<and> n \<le> k \<and> fit_list t n s (first xs) = Some (Some x)) \<or>
    ((\<forall>x k. x \<in> set xs \<and> (x, k) \<in> frees 4 bs \<longrightarrow> k < n) \<and> fit_list t n s (first xs) = Some None)"
proof (induction xs arbitrary: p)
  case Nil
  then show ?case by (simp add: fit_list.simps)
next
  case (Cons x xs)
  note W = seg_wfD [OF w]
  from Cons.prems(2) obtain k where k: "(x, k) \<in> frees 4 bs" by (auto simp: image_iff)
  note N = node_ok [OF W(1,2) k]
  have fr: "set xs \<subseteq> fst ` frees 4 bs" using Cons.prems(2) by simp
  have hq: "in_heap (first xs)" using nodes_in_heap [OF W(1,2) fr] by (cases xs) simp_all
  have "GET_SUCC t s x = Some (first xs)"
    unfolding GET_SUCC_def by (rule load32 [OF t]) (use N hq Cons.prems(1) in simp_all)
  then have step: "fit_list t n s (first (x # xs)) = (if n \<le> k then Some (Some x) else fit_list t n s (first xs))"
    by (subst fit_list.simps) (simp add: free_size [OF W(1) k])
  show ?case
  proof (cases "n \<le> k")
    case True
    then show ?thesis using step k by auto
  next
    case False
    have "\<forall>j. (x, j) \<in> frees 4 bs \<longrightarrow> j < n" using free_unique [OF W(1,2) k] False by auto
    moreover have d: "dseg t (byte_at (seg_mm s)) (Some x) xs None" using Cons.prems(1) by simp
    ultimately show ?thesis using Cons.IH [OF d fr] step False by auto
  qed
qed

lemma fit_lists_ok:
  assumes t: "fits32 t" and w: "seg_wf t s bs ls Z"
  shows "\<forall>j \<in> set js. j < SEGLIST_COUNT \<Longrightarrow>
    (\<exists>x k. (x, k) \<in> frees 4 bs \<and> n \<le> k \<and> fit_lists t n s js = Some (Some x)) \<or>
    ((\<forall>j x k. j \<in> set js \<and> x \<in> set (ls j) \<and> (x, k) \<in> frees 4 bs \<longrightarrow> k < n) \<and> fit_lists t n s js = Some None)"
proof (induction js)
  case (Cons j js)
  note W = seg_wfD [OF w]
  have fl: "free_lists s ! j = first (ls j)" using W(4) Cons.prems by simp
  from fit_list_ok [OF t w lists_okD(1) [OF W(5)] listed_free [OF W(5)], of n j] show ?case
  proof (elim disjE exE conjE)
    fix x k assume "(x, k) \<in> frees 4 bs" "n \<le> k" "fit_list t n s (first (ls j)) = Some (Some x)"
    then show ?thesis using fl by auto
  next
    assume h: "\<forall>x k. x \<in> set (ls j) \<and> (x, k) \<in> frees 4 bs \<longrightarrow> k < n" "fit_list t n s (first (ls j)) = Some None"
    have e: "fit_lists t n s (j # js) = fit_lists t n s js" using h(2) fl by simp
    have "\<forall>j \<in> set js. j < SEGLIST_COUNT" using Cons.prems by simp
    from Cons.IH [OF this] show ?thesis unfolding e using h(1) by auto
  qed
qed simp

lemma get_index_le: "i < SEGLIST_COUNT - 1 \<Longrightarrow> n \<le> 32 * 2 ^ i \<Longrightarrow> get_index n \<le> i"
  unfolding get_index_def
  by (auto simp: find_None_iff find_Some_iff not_le [symmetric] split: option.split)

lemma get_index_fits: "get_index n < SEGLIST_COUNT - 1 \<Longrightarrow> n \<le> 32 * 2 ^ get_index n"
proof (cases "find (\<lambda>i. n \<le> 32 * 2 ^ i) [0..<SEGLIST_COUNT - 1]")
  case (Some i)
  then have "n \<le> 32 * 2 ^ i" by (auto simp: find_Some_iff)
  with Some show ?thesis by (simp add: get_index_def)
qed (simp add: get_index_def)

lemma get_index_mono:
  assumes "n \<le> k"
  shows "get_index n \<le> get_index k"
proof (cases "get_index k < SEGLIST_COUNT - 1")
  case True
  with get_index_fits [OF True] assms show ?thesis by (intro get_index_le) simp_all
next
  case False
  then show ?thesis using get_index_less [of n] by simp
qed

text \<open>The search fails only when no free block is large enough.\<close>

lemma seg_find_ok:
  assumes t: "fits32 t" and w: "seg_wf t s bs ls {}"
  shows "(\<exists>x k. (x, k) \<in> frees 4 bs \<and> n \<le> k \<and> fit_lists t n s [get_index n..<SEGLIST_COUNT] = Some (Some x)) \<or>
    ((\<forall>x k. (x, k) \<in> frees 4 bs \<longrightarrow> k < n) \<and> fit_lists t n s [get_index n..<SEGLIST_COUNT] = Some None)"
proof -
  note L = lists_okD [OF seg_wfD(5) [OF w]]
  have "\<forall>j \<in> set [get_index n..<SEGLIST_COUNT]. j < SEGLIST_COUNT" by simp
  from fit_lists_ok [OF t w this, of n] show ?thesis
  proof (elim disjE conjE)
    assume h: "\<forall>j x k. j \<in> set [get_index n..<SEGLIST_COUNT] \<and> x \<in> set (ls j) \<and> (x, k) \<in> frees 4 bs \<longrightarrow> k < n"
      "fit_lists t n s [get_index n..<SEGLIST_COUNT] = Some None"
    have "k < n" if x: "(x, k) \<in> frees 4 bs" for x k
    proof (rule ccontr)
      assume "\<not> k < n"
      then have "get_index k \<in> set [get_index n..<SEGLIST_COUNT]" using get_index_mono [of n k] get_index_less [of k] by simp
      moreover have "x \<in> set (ls (get_index k))" using L(4) [OF x] by simp
      ultimately show False using h(1) x \<open>\<not> k < n\<close> by blast
    qed
    then show ?thesis using h(2) by blast
  qed blast
qed

section \<open>The interface on well-formed heaps\<close>

definition seg_ok :: "target \<Rightarrow> seg \<Rightarrow> block list \<Rightarrow> bool" where
  "seg_ok t s bs \<longleftrightarrow> (\<exists>ls. seg_wf t s bs ls {}) \<and> sparse bs"

lemma seg_okE:
  assumes "seg_ok t s bs"
  obtains ls where "seg_wf t s bs ls {}" "blocks (seg_mm s) bs" "big bs" "sparse bs" "bs \<noteq> []"
  using assms seg_wfD(1,2) unfolding seg_ok_def big_def by blast

lemma seg_place_step:
  assumes t: "fits32 t" and ok: "seg_ok t s (us @ (k, False) # vs)" and n: "16 \<le> n" "n \<le> k" "n mod 8 = 0"
  shows "\<exists>s' bs' j. seg_place t (8 + span us) n s = Some s' \<and> seg_ok t s' bs' \<and> n - 8 \<le> j \<and>
    live bs' = insert (8 + span us, j) (live (us @ (k, False) # vs)) \<and> kept (live (us @ (k, False) # vs)) (seg_mm s) (seg_mm s') \<and>
    8 + span us \<notin> fst ` live (us @ (k, False) # vs)"
proof -
  from ok obtain ls where H: "seg_wf t s (us @ (k, False) # vs) ls {}" "blocks (seg_mm s) (us @ (k, False) # vs)"
    "big (us @ (k, False) # vs)" "sparse (us @ (k, False) # vs)" by (rule seg_okE)
  note P = prologue [OF H(3) refl]
  have new: "8 + span us \<notin> fst ` live (us @ (k, False) # vs)" by (rule free_not_live [OF H(2)]) (use P in simp)
  from seg_place_ok [OF t H(1) _ n] P obtain s' ls' where
    s': "seg_place t (8 + span us) n s = Some s'" "seg_wf t s' (us @ split_block k n @ vs) ls' {}"
    "kept (live (us @ (k, False) # vs)) (seg_mm s) (seg_mm s')" by auto
  obtain j where j: "sparse (us @ split_block k n @ vs)" "big (us @ split_block k n @ vs)" "n - 8 \<le> j"
    "live (us @ split_block k n @ vs) = insert (8 + span us, j) (live (us @ (k, False) # vs))"
    by (rule split_ok [OF H(4) _ n(1,2)]) (use P in auto)
  have "seg_ok t s' (us @ split_block k n @ vs)" using s'(2) j(1) by (auto simp: seg_ok_def)
  then show ?thesis using s'(1,3) j(3,4) new by blast
qed

lemma seg_malloc_ok:
  assumes t: "fits32 t" and ok: "seg_ok t s bs" and n: "ok_request n"
  shows "(\<exists>p s' bs' k. seg_malloc t n s = Some (Some p, s') \<and> seg_ok t s' bs' \<and> n \<le> k \<and>
      live bs' = insert (p, k) (live bs) \<and> kept (live bs) (seg_mm s) (seg_mm s') \<and> p \<notin> fst ` live bs) \<or>
    (seg_malloc t n s = None \<and> (\<forall>x k. (x, k) \<in> frees 4 bs \<longrightarrow> k < adjust n) \<and> mem_brk (seg_mm s) + max (adjust n) 4096 > MAX_HEAP)"
proof -
  from ok obtain ls where H: "seg_wf t s bs ls {}" "blocks (seg_mm s) bs" "big bs" "sparse bs" "bs \<noteq> []" by (rule seg_okE)
  note A = adjust_ok [OF n]
  have n0: "n \<noteq> 0" using n by (simp add: ok_request_def)
  have post: "\<exists>p s' bs' k. seg_malloc t n s = Some (Some p, s') \<and> seg_ok t s' bs' \<and> n \<le> k \<and>
      live bs' = insert (p, k) (live bs) \<and> kept (live bs) (seg_mm s) (seg_mm s') \<and> p \<notin> fst ` live bs"
    if g: "seg_ok t s1 (us @ (k, False) # vs)" "adjust n \<le> k" "live (us @ (k, False) # vs) = live bs" "kept (live bs) (seg_mm s) (seg_mm s1)"
      "\<And>s'. seg_place t (8 + span us) (adjust n) s1 = Some s' \<Longrightarrow> seg_malloc t n s = Some (Some (8 + span us), s')" for s1 us k vs
  proof -
    from seg_place_step [OF t g(1) A(1) g(2) A(2)] obtain s' bs' j where
      p: "seg_place t (8 + span us) (adjust n) s1 = Some s'" "seg_ok t s' bs'" "adjust n - 8 \<le> j"
      "live bs' = insert (8 + span us, j) (live bs)" "kept (live bs) (seg_mm s1) (seg_mm s')" "8 + span us \<notin> fst ` live bs"
      unfolding g(3) by blast
    have "n \<le> j" using A(3) p(3) by linarith
    then show ?thesis using g(5) [OF p(1)] p(2,4,6) kept_trans [OF g(4) p(5)] by blast
  qed
  from seg_find_ok [OF t H(1), of "adjust n"] show ?thesis
  proof (elim disjE exE conjE)
    fix x k assume x: "(x, k) \<in> frees 4 bs" "adjust n \<le> k"
      "fit_lists t (adjust n) s [get_index (adjust n)..<SEGLIST_COUNT] = Some (Some x)"
    from frees_split [OF x(1)] obtain us vs where b: "bs = us @ (k, False) # vs" "x = 8 + span us" by auto
    have "seg_malloc t n s = Some (Some (8 + span us), s')" if "seg_place t (8 + span us) (adjust n) s = Some s'" for s'
      using x(3) b(2) that n0 by (simp add: seg_malloc_def seg_adjust_eq [OF n])
    then show ?thesis using post [of s us k vs] ok b(1) x(2) by (simp add: kept_def)
  next
    assume none: "\<forall>x k. (x, k) \<in> frees 4 bs \<longrightarrow> k < adjust n"
      "fit_lists t (adjust n) s [get_index (adjust n)..<SEGLIST_COUNT] = Some None"
    let ?e = "max (adjust n) 4096"
    have e: "16 \<le> ?e" "?e mod 8 = 0" "?e < 2 ^ 31" using A by (simp_all add: max_def)
    obtain us k where mg: "merge_left bs ?e = (us, k)" by fastforce
    note E = seg_extend_ok [OF t H(1) e mg]
    show ?thesis
    proof (cases "mem_brk (seg_mm s) + ?e > MAX_HEAP")
      case True
      then show ?thesis using E none n0 by (simp add: seg_malloc_def seg_adjust_eq [OF n])
    next
      case False
      with E obtain s1 ls1 where s1: "seg_extend t (?e div 4) s = Some (Some (8 + span us), s1)" "seg_wf t s1 (us @ [(k, False)]) ls1 {}"
        "kept (live bs) (seg_mm s) (seg_mm s1)" "live (us @ [(k, False)]) = live bs" by auto
      have sp: "sparse (bs @ (?e, True) # [])" using H(4,5) by (simp add: successively_append_iff)
      have mr: "merge_right [] k = ([], k)" by (simp add: merge_right_def next_used_def)
      have M: "sparse (us @ (k, False) # [])" "?e \<le> k" using merge_ok [OF sp H(3) _ _ mg mr] e(1) by auto
      have "seg_ok t s1 (us @ (k, False) # [])" using s1(2) M(1) by (auto simp: seg_ok_def)
      moreover have "seg_malloc t n s = Some (Some (8 + span us), s')" if "seg_place t (8 + span us) (adjust n) s1 = Some s'" for s'
        using none(2) s1(1) that n0 by (simp add: seg_malloc_def seg_adjust_eq [OF n])
      moreover have "adjust n \<le> k" using M(2) by simp
      ultimately show ?thesis using post [of s1 us k "[]"] s1(3,4) by blast
    qed
  qed
qed

lemma seg_free_ok:
  assumes t: "fits32 t" and ok: "seg_ok t s bs" and p: "(p, k) \<in> live bs"
  shows "\<exists>s' bs'. seg_free t p s = Some s' \<and> seg_ok t s' bs' \<and> live bs' = live bs - {(p, k)} \<and>
    kept (live bs - {(p, k)}) (seg_mm s) (seg_mm s')"
proof -
  from ok obtain ls where H: "seg_wf t s bs ls {}" "blocks (seg_mm s) bs" "big bs" "sparse bs" by (rule seg_okE)
  obtain rest where rest: "bs = (8, True) # rest" using H(3) by (cases bs) (auto simp: big_def)
  from lives_split [of p k 12 rest] p rest obtain ws ys where
    w: "rest = ws @ (k + 8, True) # ys" "p = 12 + span ws + 4" by (auto simp: live_def)
  define xs where "xs = (8, True) # ws"
  have bs: "bs = xs @ (k + 8, True) # ys" "p = 8 + span xs" "xs \<noteq> []" using rest w by (simp_all add: xs_def)
  have bg: "big xs" "16 \<le> k + 8" "\<forall>b \<in> set ys. 16 \<le> fst b" using H(3) bs by (simp_all add: big_append)
  have bm: "blocks (seg_mm s) (xs @ [(k + 8, True)] @ ys)" using H(2) bs by simp
  note C = block_at [OF H(2) [unfolded bs(1)] bs(2)]
  have k31: "k + 8 < 2 ^ 31" using blocks_small(4) [OF bm] by simp
  let ?s1 = "bytes_to (set_block (p - 4) (k + 8) False (byte_at (seg_mm s))) s"
  have wm: "seg_wf t s (xs @ [(k + 8, True)] @ ys) ls {}" and zm: "{} = fst ` frees (4 + span xs) [(k + 8, True)]"
    using H(1) bs by simp_all
  have O: "seg_wf t ?s1 (xs @ (k + 8, False) # ys) ls {p}"
    "kept (live xs \<union> lives (4 + span xs + (k + 8)) ys) (seg_mm s) (seg_mm ?s1)"
    using wf_one [OF wm zm bs(3), of "k + 8" False] bg(2) bs(2) by simp_all
  obtain xs' l where ml: "merge_left xs (k + 8) = (xs', l)" by fastforce
  obtain ys' r where mr: "merge_right ys l = (ys', r)" by fastforce
  from seg_coalesce_ok [OF t O(1) bs(2) bg(1) ml mr] obtain s' ls' where
    s': "seg_coalesce t p ?s1 = Some (8 + span xs', s')" "seg_wf t s' (xs' @ (r, False) # ys') ls' {}"
    "kept (live (xs @ (k + 8, False) # ys)) (seg_mm ?s1) (seg_mm s')" "live (xs' @ (r, False) # ys') = live (xs @ (k + 8, False) # ys)"
    by blast
  note M = merge_ok [OF H(4) [unfolded bs(1)] bg ml mr]
  have run: "seg_free t p s = Some s'"
    using C(9) s'(1) seg_tag_free [OF C(1,2,3,4) k31, of "\<lambda>s. Option.bind (seg_coalesce t p s) (\<lambda>(bp, s). Some s)"]
    by (simp add: seg_free_def HDRP_def)
  have lx: "live bs = live xs \<union> insert (p, k) (lives (4 + span xs + (k + 8)) ys)" using live_append [OF bg(1)] bs by simp
  have lf: "live (xs @ (k + 8, False) # ys) = live xs \<union> lives (4 + span xs + (k + 8)) ys" using live_append [OF bg(1)] by simp
  have "(p, k) \<notin> live xs \<union> lives (4 + span xs + (k + 8)) ys"
    using live_outside [OF bm bg(1), of p k p] C(3) bg(2) bs(2) by auto
  then have lv: "live (xs @ (k + 8, False) # ys) = live bs - {(p, k)}" using lx lf by auto
  have "kept (live bs - {(p, k)}) (seg_mm s) (seg_mm s')" using kept_trans [OF O(2)] s'(3) lv lf by simp
  moreover have "seg_ok t s' (xs' @ (r, False) # ys')" using s'(2) M(1) by (auto simp: seg_ok_def)
  ultimately show ?thesis using run s'(4) lv by auto
qed

definition fresh_seg :: "(int \<Rightarrow> int) \<Rightarrow> seg" where
  "fresh_seg f = \<lparr>seg_mm = \<lparr>byte_at = f, mem_brk = 0, heap_listp = None\<rparr>, seg_brk = 0, free_lists = replicate SEGLIST_COUNT None\<rparr>"

lemma seg_init_ok:
  assumes t: "fits32 t"
  shows "\<exists>s. seg_init t (fresh_seg f) = Some (0, s) \<and> seg_ok t s [(8, True), (4096, False)]"
proof -
  let ?f = "put_word 12 1 (put_word 8 9 (put_word 4 9 (put_word 0 0 f)))"
  let ?s = "\<lparr>seg_mm = \<lparr>byte_at = ?f, mem_brk = 16, heap_listp = Some 8\<rparr>, seg_brk = 16, free_lists = replicate SEGLIST_COUNT None\<rparr>"
  have w: "word_at ?f 4 = 9" "word_at ?f 8 = 9" "word_at ?f 12 = 1"
    by (simp_all add: word_put_other word_put_same)
  then have b: "blocks (seg_mm ?s) [(8, True)]" by (simp add: blocks_def MAX_HEAP_def)
  have "lists_ok t (byte_at (seg_mm ?s)) [(8, True)] (\<lambda>_. []) {}" by (simp add: lists_ok_def)
  moreover have "free_lists ?s = map (\<lambda>i. first []) [0..<SEGLIST_COUNT]" by (simp add: map_replicate_const)
  ultimately have wf: "seg_wf t ?s [(8, True)] (\<lambda>_. []) {}" using b by (simp add: seg_wf_def big_def)
  have "merge_left [(8, True)] 4096 = ([(8, True)], 4096)" by (simp add: merge_left_def)
  from seg_extend_ok [OF t wf _ _ _ this] obtain s' ls' where
    s': "seg_extend t 1024 ?s = Some (Some 16, s')" "seg_wf t s' [(8, True), (4096, False)] ls' {}"
    by (auto simp: MAX_HEAP_def)
  have "PACK 8 1 = 9" "PACK 0 1 = 1" using PACK_simps(2) [of 8] PACK_simps(2) [of 0] by simp_all
  then have "seg_init t (fresh_seg f) = Some (0, s')"
    using s'(1) by (simp add: seg_init_def fresh_seg_def seg_sbrk_def MAX_HEAP_def seg_put_def PUT_def valid_def)
  then show ?thesis using s'(2) by (auto simp: seg_ok_def)
qed

section \<open>The allocator contract\<close>

text \<open>A client that asks only while the 20 MiB cannot be exceeded; \<open>mem_sbrk\<close> does not look.\<close>

definition seg_request :: "target \<Rightarrow> int \<Rightarrow> seg \<Rightarrow> (int option \<times> seg) option" where
  "seg_request t n s =
     (if mem_brk (seg_mm s) + max (adjust n) 4096 > MAX_HEAP then Some (None, s) else seg_malloc t n s)"

definition seg_poke :: "int \<Rightarrow> int \<Rightarrow> seg \<Rightarrow> seg" where
  "seg_poke a b s = s\<lparr>seg_mm := poke a b (seg_mm s)\<rparr>"

definition seg_inv :: "target \<Rightarrow> seg \<Rightarrow> (int \<rightharpoonup> int) \<Rightarrow> bool" where
  "seg_inv t s L \<longleftrightarrow> fits32 t \<and> (\<exists>bs. seg_ok t s bs \<and> fst ` live bs = dom L \<and> (\<forall>p n. L p = Some n \<longrightarrow> (\<exists>k \<ge> n. (p, k) \<in> live bs)))"

lemma seg_invE:
  assumes "seg_inv t s L"
  obtains bs where "fits32 t" "seg_ok t s bs" "fst ` live bs = dom L" "\<forall>p n. L p = Some n \<longrightarrow> (\<exists>k \<ge> n. (p, k) \<in> live bs)"
  using assms by (auto simp: seg_inv_def)

lemma seg_lives:
  assumes "seg_ok t s bs"
  shows "live bs \<subseteq> lives 4 bs" "lay (byte_at (seg_mm s)) 4 bs"
  using assms live_lives [OF blocksD(3)] blocksD(3) by (auto elim!: seg_okE)

lemma seg_live_unique:
  assumes ok: "seg_ok t s bs" and p: "(p, k) \<in> live bs" "(p, k') \<in> live bs"
  shows "k = k'"
proof (rule ccontr)
  assume "k \<noteq> k'"
  then have "p + k + 8 \<le> p \<or> p + k' + 8 \<le> p"
    using lives_disjoint [OF seg_lives(2) [OF ok], of p k p k'] p seg_lives(1) [OF ok] by auto
  moreover have "0 \<le> k" "0 \<le> k'" using lives_range(3) [OF seg_lives(2) [OF ok]] p seg_lives(1) [OF ok] by blast+
  ultimately show False by linarith
qed

text \<open>A store into the payload of a live block touches neither tags nor links.\<close>

lemma seg_store_ok:
  assumes ok: "seg_ok t s bs" and p: "(p, k) \<in> live bs" and a: "p \<le> a" "a < p + k"
  shows "seg_ok t (seg_poke a b s) bs"
proof -
  from ok obtain ls where H: "seg_wf t s bs ls {}" "blocks (seg_mm s) bs" "big bs" "sparse bs" by (rule seg_okE)
  obtain rest where rest: "bs = (8, True) # rest" using H(3) by (cases bs) (auto simp: big_def)
  from lives_split [of p k 12 rest] p rest obtain ws ys where
    w: "rest = ws @ (k + 8, True) # ys" "p = 12 + span ws + 4" by (auto simp: live_def)
  define xs where "xs = (8, True) # ws"
  have bs: "bs = xs @ [(k + 8, True)] @ ys" "p = 8 + span xs" using rest w by (simp_all add: xs_def)
  let ?g = "(byte_at (seg_mm s))(a := b)" and ?h = "4 + span xs"
  have l: "word_at (byte_at (seg_mm s)) ?h = k + 9" "word_at (byte_at (seg_mm s)) (?h + (k + 8) - 4) = k + 9" "8 \<le> k + 8" "(k + 8) mod 8 = 0"
    using blocksD(3) [OF H(2)] bs(1) by (simp_all add: lay_append)
  have "word_at ?g ?h = word_at (byte_at (seg_mm s)) ?h" "word_at ?g (?h + (k + 8) - 4) = word_at (byte_at (seg_mm s)) (?h + (k + 8) - 4)"
    by (rule word_cong; use a bs(2) in auto)+
  then have ly: "lay ?g ?h [(k + 8, True)]" using l by simp
  have out: "\<forall>x. x < ?h \<or> ?h + span [(k + 8, True)] \<le> x \<longrightarrow> ?g x = byte_at (seg_mm s) x" using a bs(2) by auto
  have bl: "blocks ((seg_mm s)\<lparr>byte_at := ?g\<rparr>) (xs @ [(k + 8, True)] @ ys)"
    by (rule replace_blocks [OF H(2) [unfolded bs(1)] ly]) (use out in simp_all)
  have "seg_wf t (bytes_to ?g s) (xs @ [(k + 8, True)] @ ys) ls (fst ` frees ?h [(k + 8, True)])"
    by (rule wf_replace [OF H(1) [unfolded bs(1)] _ bl _ _ out]) (use H(3) bs(1) in simp_all)
  then show ?thesis using H(4) bs(1) by (auto simp: seg_ok_def seg_poke_def poke_def)
qed

lemma seg_inv_buffer:
  assumes "seg_inv t s L" "L p = Some n"
  shows "p mod 8 = 0 \<and> 8 \<le> p \<and> p + n \<le> mem_brk (seg_mm s)"
proof -
  from assms obtain bs k where i: "seg_ok t s bs" "k \<ge> n" "(p, k) \<in> live bs" unfolding seg_inv_def by blast
  have l: "(p, k) \<in> lives 4 bs" using i(3) seg_lives(1) [OF i(1)] by blast
  have "blocks (seg_mm s) bs" using i(1) by (rule seg_okE)
  from blocksD(1) [OF this] lives_range [OF seg_lives(2) [OF i(1)] l] i(2) have "(p - 4) mod 8 = 4" "8 \<le> p \<and> p + n \<le> mem_brk (seg_mm s)"
    by auto
  moreover from this(1) have "p mod 8 = 0" by presburger
  ultimately show ?thesis by simp
qed

interpretation sf: allocator "seg_inv t" "\<lambda>s. byte_at (seg_mm s)" "seg_request t" "seg_free t" seg_poke ok_request for t
proof unfold_locales
  fix s L n assume "seg_inv t s L" "ok_request n"
  then obtain bs where i: "fits32 t" "seg_ok t s bs" "fst ` live bs = dom L" "\<forall>p n. L p = Some n \<longrightarrow> (\<exists>k \<ge> n. (p, k) \<in> live bs)"
    by (auto elim: seg_invE)
  show "\<exists>r s'. seg_request t n s = Some (r, s') \<and> same_buffers (byte_at (seg_mm s)) (byte_at (seg_mm s')) L \<and>
      (case r of None \<Rightarrow> seg_inv t s' L | Some p \<Rightarrow> L p = None \<and> seg_inv t s' (L(p \<mapsto> n)))"
  proof (cases "mem_brk (seg_mm s) + max (adjust n) 4096 > MAX_HEAP")
    case True
    then show ?thesis using \<open>seg_inv t s L\<close> by (simp add: seg_request_def same_buffers_def)
  next
    case False
    with seg_malloc_ok [OF i(1,2) \<open>ok_request n\<close>] obtain p s' bs' k where
      r: "seg_malloc t n s = Some (Some p, s')" "seg_ok t s' bs'" "n \<le> k" "live bs' = insert (p, k) (live bs)"
      "kept (live bs) (seg_mm s) (seg_mm s')" "p \<notin> fst ` live bs" by blast
    have "L p = None" using r(6) i(3) by blast
    moreover have "seg_inv t s' (L(p \<mapsto> n))" unfolding seg_inv_def
      using r(2,3,4) i by (intro conjI exI [of _ bs']) auto
    ultimately show ?thesis using r(1) kept_buffers [OF r(5) i(4)] False by (simp add: seg_request_def)
  qed
next
  fix s L p n assume "seg_inv t s L" "L p = Some n"
  then obtain bs where i: "fits32 t" "seg_ok t s bs" "fst ` live bs = dom L" "\<forall>p n. L p = Some n \<longrightarrow> (\<exists>k \<ge> n. (p, k) \<in> live bs)"
    by (auto elim: seg_invE)
  then obtain k where k: "(p, k) \<in> live bs" using \<open>L p = Some n\<close> by blast
  from seg_free_ok [OF i(1,2) k] obtain s' bs' where
    r: "seg_free t p s = Some s'" "seg_ok t s' bs'" "live bs' = live bs - {(p, k)}" "kept (live bs - {(p, k)}) (seg_mm s) (seg_mm s')" by blast
  have "fst ` live bs' = dom (L(p := None))"
    unfolding r(3) using fst_diff [of p "live bs" k] seg_live_unique [OF i(2) _ k] i(3) by auto
  moreover have sub: "\<forall>q j. (L(p := None)) q = Some j \<longrightarrow> (\<exists>k' \<ge> j. (q, k') \<in> live bs - {(p, k)})"
    using i(4) by (auto split: if_splits)
  ultimately have "seg_inv t s' (L(p := None))" unfolding seg_inv_def using r(2,3) i(1) by (intro conjI exI [of _ bs']) simp_all
  then show "\<exists>s'. seg_free t p s = Some s' \<and> seg_inv t s' (L(p := None)) \<and>
      same_buffers (byte_at (seg_mm s)) (byte_at (seg_mm s')) (L(p := None))"
    using r(1) kept_buffers [OF r(4) sub] by blast
next
  fix s L p n a b assume h: "seg_inv t s L" "L p = Some n" "p \<le> a" "a < p + n"
  then obtain bs where i: "fits32 t" "seg_ok t s bs" "fst ` live bs = dom L" "\<forall>p n. L p = Some n \<longrightarrow> (\<exists>k \<ge> n. (p, k) \<in> live bs)"
    by (auto elim: seg_invE)
  from i(4) h(2) obtain k where k: "k \<ge> n" "(p, k) \<in> live bs" by blast
  have "seg_ok t (seg_poke a b s) bs" by (rule seg_store_ok [OF i(2) k(2)]) (use h k in auto)
  then show "seg_inv t (seg_poke a b s) L \<and> byte_at (seg_mm (seg_poke a b s)) = (byte_at (seg_mm s))(a := b)"
    using i unfolding seg_inv_def by (auto simp: seg_poke_def poke_def)
next
  fix s L p n q j assume h: "seg_inv t s L" "L p = Some n" "L q = Some j" "p \<noteq> q"
  then obtain bs where i: "seg_ok t s bs" "\<forall>p n. L p = Some n \<longrightarrow> (\<exists>k \<ge> n. (p, k) \<in> live bs)" by (auto elim: seg_invE)
  from i(2) h(2) obtain k where k: "k \<ge> n" "(p, k) \<in> lives 4 bs" using seg_lives(1) [OF i(1)] by blast
  from i(2) h(3) obtain l where l: "l \<ge> j" "(q, l) \<in> lives 4 bs" using seg_lives(1) [OF i(1)] by blast
  show "p + n \<le> q \<or> q + j \<le> p"
    using lives_disjoint [OF seg_lives(2) [OF i(1)] k(2) l(2)] k(1) l(1) h(4) by auto
qed

section \<open>Properties\<close>

text \<open>C11: Where pointers have four bytes, a client of the segregated-fit allocator that requests, releases and fills buffers in any
  order and stops before the 20 MiB are used up: no call leaves the heap, every buffer is 8-byte aligned, lies inside
  the heap and is disjoint from all others, every byte stored in a buffer that is still held is there, and the
  free blocks are coalesced and each in the list of its size class.\<close>

theorem seg_client_correct:
  assumes "fits32 t" "\<forall>n. Request n \<in> set ops \<longrightarrow> ok_request n"
  shows "\<exists>s1 s L D. seg_init t (fresh_seg f) = Some (0, s1) \<and>
    run_client (seg_request t) (seg_free t) seg_poke ops (s1, Map.empty, Map.empty) = Some (s, L, D) \<and>
    (\<exists>bs. seg_ok t s bs \<and> fst ` live bs = dom L) \<and>
    (\<forall>p n. L p = Some n \<longrightarrow> p mod 8 = 0 \<and> 8 \<le> p \<and> p + n \<le> mem_brk (seg_mm s)) \<and>
    (\<forall>p q n k. L p = Some n \<and> L q = Some k \<and> p \<noteq> q \<longrightarrow> p + n \<le> q \<or> q + k \<le> p) \<and>
    (\<forall>a b. D a = Some b \<longrightarrow> byte_at (seg_mm s) a = b)"
proof -
  from seg_init_ok [OF assms(1)] obtain s1 where s1: "seg_init t (fresh_seg f) = Some (0, s1)" "seg_ok t s1 [(8, True), (4096, False)]" by blast
  have "seg_inv t s1 Map.empty" unfolding seg_inv_def using s1(2) assms(1)
    by (intro conjI exI [of _ "[(8, True), (4096, False)]"]) (simp_all add: live_def)
  from sf.run_client_from_start [OF this assms(2)] obtain s L D where
    r: "run_client (seg_request t) (seg_free t) seg_poke ops (s1, Map.empty, Map.empty) = Some (s, L, D)" "seg_inv t s L"
    "\<forall>a b. D a = Some b \<longrightarrow> byte_at (seg_mm s) a = b"
    "\<forall>p q n k. L p = Some n \<and> L q = Some k \<and> p \<noteq> q \<longrightarrow> p + n \<le> q \<or> q + k \<le> p" by blast
  have "p mod 8 = 0 \<and> 8 \<le> p \<and> p + n \<le> mem_brk (seg_mm s)" if "L p = Some n" for p n
    by (rule seg_inv_buffer [OF r(2) that])
  moreover have "\<exists>bs. seg_ok t s bs \<and> fst ` live bs = dom L" using r(2) unfolding seg_inv_def by blast
  ultimately show ?thesis using s1(1) r(1,3,4) by blast
qed

definition target32 :: target where
  "target32 = \<lparr>ptr64 = False, heap_base = 0x8000000\<rparr>"

lemma fits_target32: "fits32 target32"
  by (simp add: fits32_def target32_def MAX_HEAP_def)

theorem seg_client_correct_witness:
  "\<exists>s1 s L D. seg_init target32 (fresh_seg (\<lambda>_. 0)) = Some (0, s1) \<and>
     run_client (seg_request target32) (seg_free target32) seg_poke [Request 100, Request 100, Store 16 0 7, Release 128]
       (s1, Map.empty, Map.empty) = Some (s, L, D) \<and> (\<exists>bs. seg_ok target32 s bs \<and> fst ` live bs = dom L)"
proof -
  have "\<forall>n. Request n \<in> set [Request 100, Request 100, Store 16 0 7, Release 128] \<longrightarrow> ok_request n"
    by (simp add: ok_request_def)
  from seg_client_correct [OF fits_target32 this, of "\<lambda>_. 0"] show ?thesis by blast
qed

text \<open>C24: Allocation and release with segregated lists on every branch, where pointers have four bytes.  A request returns a new block
  of at least the requested length; it is undefined exactly when no free block fits, whatever its list, and the heap would
  grow beyond the 20 MiB, which nothing checks; releasing a live block removes exactly it.  Neither changes a byte of the
  other live blocks, and both leave the free blocks coalesced and in their lists.\<close>

theorem seg_malloc_free_correct:
  assumes "fits32 t" "seg_ok t s bs"
  shows "(ok_request n \<longrightarrow>
      (\<exists>p s' bs' k. seg_malloc t n s = Some (Some p, s') \<and> seg_ok t s' bs' \<and> n \<le> k \<and>
        live bs' = insert (p, k) (live bs) \<and> kept (live bs) (seg_mm s) (seg_mm s') \<and> p \<notin> fst ` live bs) \<or>
      (seg_malloc t n s = None \<and> (\<forall>x k. (x, k) \<in> frees 4 bs \<longrightarrow> k < adjust n) \<and>
        mem_brk (seg_mm s) + max (adjust n) 4096 > MAX_HEAP)) \<and>
    seg_malloc t 0 s = Some (None, s) \<and>
    (\<forall>p k. (p, k) \<in> live bs \<longrightarrow> (\<exists>s' bs'. seg_free t p s = Some s' \<and> seg_ok t s' bs' \<and>
      live bs' = live bs - {(p, k)} \<and> kept (live bs - {(p, k)}) (seg_mm s) (seg_mm s')))"
  using seg_malloc_ok [OF assms] seg_free_ok [OF assms] by (simp add: seg_malloc_def)

definition seg_started :: seg where
  "seg_started = snd (the (seg_init target32 (fresh_seg (\<lambda>_. 0))))"

theorem seg_malloc_free_correct_witness:
  "\<exists>p s' bs' k. seg_malloc target32 100 seg_started = Some (Some p, s') \<and> seg_ok target32 s' bs' \<and> 100 \<le> k \<and> live bs' = {(p, k)}"
proof -
  from seg_init_ok [OF fits_target32, of "\<lambda>_. 0"] have ok: "seg_ok target32 seg_started [(8, True), (4096, False)]"
    by (auto simp: seg_started_def)
  have "(16, 4096) \<in> frees 4 [(8, True), (4096, False)]" "\<not> (4096::int) < adjust 100" "ok_request 100"
    by (simp_all add: adjust_def ok_request_def)
  with seg_malloc_free_correct [OF fits_target32 ok, of 100] show ?thesis
    by (auto simp: live_def)
qed

definition target64 :: target where
  "target64 = \<lparr>ptr64 = True, heap_base = 0x7f0000000010\<rparr>"

definition seg_script :: "target \<Rightarrow> (int option \<times> seg) option" where
  "seg_script t = do {
     (r, s) \<leftarrow> seg_init t (fresh_seg (\<lambda>_. 0));
     (p1, s) \<leftarrow> seg_malloc t 100 s; (p2, s) \<leftarrow> seg_malloc t 100 s; (p3, s) \<leftarrow> seg_malloc t 100 s; (p4, s) \<leftarrow> seg_malloc t 100 s;
     s \<leftarrow> seg_free t (the p1) s; s \<leftarrow> seg_free t (the p3) s;
     seg_malloc t 100 s }"

text \<open>Where pointers have eight bytes the two links of a block overlap: setting the predecessor of a block to null erases the
  low half of its successor.  Two free blocks in one list are enough for the next allocation from it to
  follow a wild pointer.  The program's own main, with never more than one block in a list, does not notice.\<close>

theorem seg_wide_pointers:
  "seg_script target64 = None \<and> map_option fst (seg_script target32) = Some (Some 240) \<and>
   seg_main target64 (fresh_seg (\<lambda>_. 0)) = Some (0, Some 16, Some 16)"
  by (intro conjI; code_simp)

end
