(* ===== verification/Spec2Isabelle.thy ===== *)
theory Spec2Isabelle
  imports Avl_Map Ring_Deque Hash_Map Tlv_Echo Order_Flow File_Audit Task_Manager Async_Logger
    Shared_Ptr Chat_Server Line_Server Linked_List Bst_Map Heap_Alloc Asio_Session
    Task_Queue Semaphores Rio Select_Echo Poll_Chat Region_Alloc Coro_Loop Undo_Patterns Object_Patterns Pools Logic_Layer
    Seg_Alloc
begin

text \<open>
  Verification of the C++ and C programs of c-kernel-learning.

  The repository is a collection of programs, each with its own main: containers and memory
  (src/cplusplus/basement), two applications of the design patterns (src/cplusplus/design\_patterns/finial),
  concurrent programs and servers on the POSIX interface (src/cplusplus/concurrent), servers and clients on
  Boost.Asio (src/cplusplus/net\_program) and the systems programs in C of src/csapp.  This theory imports
  one theory per program; each opens with a note on what it models.

  \<^bold>\<open>Conventions.\<close>  A struct or class is a record, a class hierarchy whose leaves are final is a
  datatype.  \<open>None\<close> of the result of an operation is behaviour that the language leaves undefined
  (null dereference, access outside a buffer, use after free), so that ``some result'' in a theorem is
  memory safety.  A thrown exception is \<open>Inl\<close> of its own error type.  Widths are kept where an operation
  can wrap: lengths on the wire, heap words, sizes in front of a multiplication.  What the kernel or a library
  answers (the bytes of one read, a failed send, which descriptor is ready, the clock, a hash function,
  protobuf parsing) is a parameter or a list of events, one for each call; theorems quantify over it.
  Threads are interleavings: an inductive step relation whose steps are the critical sections, or
  the single statements where a program has no lock.

  \<^bold>\<open>Containers and memory\<close> (src/cplusplus/basement/base\_code/src)
  \<^item> \<^verbatim>\<open>Avl_Map\<close>: base\_stl/map\_demo.h, namespace avl\_map.  Rotations, put, get, remove; put keeps order and
    balance, and the depth after any puts is logarithmic; remove keeps order and exact heights, and the
    balance in all cases but one, which is characterised; from an unbalanced tree put can dereference null.
  \<^item> \<^verbatim>\<open>Bst_Map\<close> over \<^verbatim>\<open>Node_Heap\<close>: map\_demo.h, namespace bst\_map, with parent pointers on a heap, iterator
    and all; every history of insertions and erasures refines a finite map.
  \<^item> \<^verbatim>\<open>Linked_List\<close> over \<^verbatim>\<open>Node_Heap\<close>: base\_stl/list\_demo.h; sentinels, insertion and erasure at an iterator.
  \<^item> \<^verbatim>\<open>Ring_Deque\<close>: base\_stl/deque\_demo.h; the ring refines a list, growth included.
  \<^item> \<^verbatim>\<open>Hash_Map\<close>: base\_stl/umap\_demo.h; chains, rehashing, iteration; histories refine a finite map.
  \<^item> \<^verbatim>\<open>Shared_Ptr\<close>: base\_memory/simple\_shared\_ptr.h; reference counts of every legal program.
  \<^item> \<^verbatim>\<open>Region_Alloc\<close>: base\_memory/my\_realloc.cpp on byte-addressed memory; splitting, coalescing,
    reallocation.  The regions come from mmap, a parameter of which its documentation is assumed (\<open>mmap_ok\<close>: page aligned
    addresses, apart from each other); client histories are correct wherever the regions are, up to a
    release that merges across regions (\<open>crosses\<close>), and a further theorem shows what that one leads to.  The program's own
    main crashes whatever mmap answers.
  \<^item> \<^verbatim>\<open>Pools\<close>: the fixed-size pool and the dynamic array of base\_memory.
  \<^item> \<^verbatim>\<open>Task_Manager\<close> with \<^verbatim>\<open>Cpp_Text\<close>: task/task\_management\_sys; commands, the file and its reload (texts as
    the commands pass them, trimmed and cut by the reload), the main loop.
  \<^item> \<^verbatim>\<open>Async_Logger\<close>: task/asynchronous\_log\_sys\_demo/logger.h; producers, the queue, the worker and
    its shutdown with consoles and rotating files as sinks; rotation of the log file.

  \<^bold>\<open>Pattern applications\<close> (src/cplusplus/design\_patterns/finial)
  \<^item> \<^verbatim>\<open>Order_Flow\<close>: order/*.hpp; the life cycle as a table, pricing, validation, payment, checkout and its undo.
  \<^item> \<^verbatim>\<open>File_Audit\<close>: audit/*.hpp; the file tree, rules, access control and reports.

  \<^bold>\<open>Pattern demonstrations\<close> (src/cplusplus/design\_patterns/code)
  \<^item> \<^verbatim>\<open>Undo_Patterns\<close>: command (remote control) and memento (editor); sessions of operations and undos.
  \<^item> \<^verbatim>\<open>Object_Patterns\<close>: state, chain of responsibility, interpreter, iterator and mediator.

  \<^bold>\<open>Concurrency and servers\<close> (src/cplusplus/concurrent/code, src/csapp/chapter12)
  \<^item> \<^verbatim>\<open>Task_Queue\<close>: c\_tasks\_queue.c; the queue on the heap, workers, signals, shutdown.
  \<^item> \<^verbatim>\<open>Semaphores\<close>: threads/p\_and\_c\_demo.c and mutex\_cnt\_demo.c; mutual exclusion, order, absence of deadlock.
  \<^item> \<^verbatim>\<open>Chat_Server\<close>: base\_io\_multiplexing/chat\_demo.cpp, and \<^verbatim>\<open>Poll_Chat\<close>: chat\_poll.c; broadcasts and removals.
  \<^item> \<^verbatim>\<open>Line_Server\<close>: base\_server\_application\_framework/framework\_server.cpp; event loop, thread pool, completions.
  \<^item> \<^verbatim>\<open>Coro_Loop\<close>: base\_coroutines/04\_epoll\_coroutines.cpp and task.hpp; frames suspended on
    timers and sockets, the event loop, cancellation, failing calls, the run of main to completion in every schedule.
  \<^item> \<^verbatim>\<open>Net_Frame\<close>: base\_linux\_net\_api/net.hpp and tcp\_cpp20.cpp; transfer loops, length-prefixed frames.
  \<^item> \<^verbatim>\<open>Rio\<close>: csapp\_lib/csapp.c; \<^verbatim>\<open>Select_Echo\<close> over \<^verbatim>\<open>Sock_Net\<close> and \<^verbatim>\<open>Rio\<close>: echoservers.c and select\_server\_demo.c.
  \<^item> \<^verbatim>\<open>Heap_Alloc\<close>: src/csapp/chapter9/malloc/mm.c and memlib.c, on a heap of 32-bit words.
  \<^item> \<^verbatim>\<open>Seg_Alloc\<close> over \<^verbatim>\<open>Heap_Alloc\<close>: src/csapp/chapter9/malloc/flsp.c; fifteen doubly linked lists of free blocks, their
    links stored in the blocks.  The width of a pointer is a parameter: clients are served correctly where it is
    four bytes (the hypothesis \<open>fits32\<close>, which \<open>target32\<close> satisfies), and a wild pointer is followed where it is eight.

  \<^bold>\<open>Boost.Asio programs\<close> (src/cplusplus/net\_program/code/cpp\_net)
  \<^item> \<^verbatim>\<open>Asio_Session\<close>: base\_asio/session.cpp, base\_asio\_plus/session.cpp; write queues and their order.
  \<^item> \<^verbatim>\<open>Tlv_Echo\<close>: base\_byteorder and base\_protobuf; framing, echo, what a reader does with truncated input.
  \<^item> \<^verbatim>\<open>Logic_Layer\<close>: base\_logic\_layer/test; sessions and their table, the queue between the network thread and
    the logic thread, login and chat handlers, shutdown.  The steps of both threads interleave, each call on a socket being one step; the order of the
    echoes, the draining of the queue, and what a shutdown does, undefined with a connection open.

  \<^bold>\<open>Contracts.\<close>  \<^verbatim>\<open>Interfaces\<close> states what one component may rely on of another as locales, and proves
  there what follows for the clients; each provider interprets them on its own definitions:
  \<^verbatim>\<open>put_map\<close> (AVL map) and \<^verbatim>\<open>erase_map\<close>, which extends it (hash map, search-tree map), \<^verbatim>\<open>two_ended\<close>
  (linked list) and \<^verbatim>\<open>checked_two_ended\<close>, which extends it (ring deque), \<^verbatim>\<open>framing\<close> (the frames of net.hpp, the
  TLV and the protobuf messages), \<^verbatim>\<open>allocator\<close> (the boundary-tag, the segregated-fit and
  the region allocator), \<^verbatim>\<open>undo_stack\<close> (the remote control and the editor) and \<^verbatim>\<open>serial_writer\<close> (both
  asynchronous write queues).

  \<^bold>\<open>Bounds and fuel.\<close>  Loops are structural recursion or have a measure; where the loop follows pointers or
  consumes kernel events the theorems say that it returns.  Fuel occurs where the source bounds
  the loop itself: a scan of the descriptor table of echoservers.c and select\_server\_demo.c
  runs over at most FD\_SETSIZE slots, and that much fuel is enough because maxi and maxfd stay below it.  The
  pointer walks of the list and the search tree take the number of allocated nodes as fuel, which the
  invariant shows to be enough.  The walks of \<^verbatim>\<open>Region_Alloc\<close> and the
  search through a list of \<^verbatim>\<open>Seg_Alloc\<close> are partial functions into option, shown to be
  defined on every heap that satisfies the invariant.

  \<^bold>\<open>Not modelled.\<close>  The generated protobuf classes and CMake compiler probes are not written by
  hand; protobuf is a parameter.  Socket set-up (socket, bind, listen, getaddrinfo), argument parsing and the
  mains only call the system.  The examples of a single language feature (effective\_c++, templates,
  SFINAE, gdb and compiler notes) keep no state worth an invariant.  tlv\_session.cpp is unfinished: it
  writes through a null head node.  The manifest lists each part with its reason.

  \<^bold>\<open>Plan.\<close>  What is left are the descriptor wrapper, port parsing and datagram functions of net.hpp, udp\_cpp20.cpp, the
  client of chat\_demo.cpp, the accept loops of the servers, and the observer and strategy exercises.
\<close>

end
